(* ===== verification/Runtime.thy ===== *)
theory Runtime
  imports Main "HOL-Library.Word" "HOL-Library.AList"
begin

text \<open>
  The C++ run time the modules of \<open>game_server/logic_server\<close> stand on, written once: machine
  integers, the outcome of a call, the module mutex, the generators of identifiers, the loops
  over vectors, and the contracts (locales) that every module's operations share.
\<close>

section \<open>Integers and outcomes\<close>

text \<open>
  \<^verbatim>\<open>int32_t\<close> is a mathematical integer with the overflow written out: C++ leaves signed
  overflow undefined, so an addition that leaves the range is a fault and not a wrapped value.
  \<^verbatim>\<open>uint64_t\<close> wraps and is a 64-bit word. A conversion of a wider value to \<^verbatim>\<open>int32_t\<close> keeps the
  low 32 bits. A \<^verbatim>\<open>float\<close> that is only stored and copied is its bit pattern.
\<close>

type_synonym i32 = int
type_synonym u64 = "64 word"
type_synonym time_t = int
type_synonym f32bits = "32 word"

definition in_i32 :: "int \<Rightarrow> bool" where
  "in_i32 x \<longleftrightarrow> - (2 ^ 31) \<le> x \<and> x < 2 ^ 31"

definition to_i32 :: "int \<Rightarrow> i32" where
  "to_i32 x = (x + 2 ^ 31) mod 2 ^ 32 - 2 ^ 31"

lemma in_i32_to_i32 [simp]: "in_i32 (to_i32 x)"
  by (simp add: in_i32_def to_i32_def)

lemma to_i32_id [simp]: "in_i32 x \<Longrightarrow> to_i32 x = x"
  by (simp add: in_i32_def to_i32_def)

lemma in_i32_small: "- 2147483648 \<le> x \<Longrightarrow> x < 2147483648 \<Longrightarrow> in_i32 x"
  by (simp add: in_i32_def)

text \<open>
  What can go wrong in a call: the calling thread locks a mutex it already holds, a signed
  operation overflows, an array is indexed outside its bounds, a division by zero, a
  \<^verbatim>\<open>static_cast\<close> to a class the object is not an instance of, the use of a null
  pointer, the use of an iterator whose element is gone, a shift by the width of the type or more, an assertion
  that does not hold.
\<close>

datatype fault = Relock | SignedOverflow | OutOfRange | DivByZero | BadDowncast | NullPointer
  | DanglingIterator | BadShift | AssertFailed

datatype 'a outcome = Ret 'a | Fault fault

primrec bindO :: "'a outcome \<Rightarrow> ('a \<Rightarrow> 'b outcome) \<Rightarrow> 'b outcome" where
  "bindO (Ret x) k = k x"
| "bindO (Fault e) k = Fault e"

lemma bindO_cong [fundef_cong]:
  "m = m' \<Longrightarrow> (\<And>x. m' = Ret x \<Longrightarrow> k x = k' x) \<Longrightarrow> bindO m k = bindO m' k'"
  by (cases m') auto

lemma bindO_eq_Ret [simp]: "bindO m k = Ret y \<longleftrightarrow> (\<exists>x. m = Ret x \<and> k x = Ret y)"
  by (cases m) auto

lemma bindO_eq_Fault:
  "bindO m k = Fault e \<longleftrightarrow> m = Fault e \<or> (\<exists>x. m = Ret x \<and> k x = Fault e)"
  by (cases m) auto

lemma bindO_split:
  "P (bindO m k) \<longleftrightarrow> (\<forall>x. m = Ret x \<longrightarrow> P (k x)) \<and> (\<forall>e. m = Fault e \<longrightarrow> P (Fault e))"
  by (cases m) auto

text \<open>A loop over a list whose body can fail.\<close>

fun fold_outcome :: "('a \<Rightarrow> 's \<Rightarrow> 's outcome) \<Rightarrow> 'a list \<Rightarrow> 's \<Rightarrow> 's outcome" where
  "fold_outcome f [] s = Ret s"
| "fold_outcome f (x # xs) s = bindO (f x s) (fold_outcome f xs)"

lemma fold_outcome_keeps:
  "fold_outcome f xs s = Ret s' \<Longrightarrow> (\<And>x s s'. x \<in> set xs \<Longrightarrow> f x s = Ret s' \<Longrightarrow> I s \<Longrightarrow> I s') \<Longrightarrow> I s \<Longrightarrow> I s'"
  by (induction xs arbitrary: s) auto

lemma fold_outcome_append: "fold_outcome f (xs @ ys) s = bindO (fold_outcome f xs s) (fold_outcome f ys)"
proof (induction xs arbitrary: s)
  case (Cons x xs)
  then show ?case by (cases "f x s") simp_all
qed simp

definition add32 :: "i32 \<Rightarrow> i32 \<Rightarrow> i32 outcome" where
  "add32 a b = (if in_i32 (a + b) then Ret (a + b) else Fault SignedOverflow)"

definition sub32 :: "i32 \<Rightarrow> i32 \<Rightarrow> i32 outcome" where
  "sub32 a b = (if in_i32 (a - b) then Ret (a - b) else Fault SignedOverflow)"

definition mul32 :: "i32 \<Rightarrow> i32 \<Rightarrow> i32 outcome" where
  "mul32 a b = (if in_i32 (a * b) then Ret (a * b) else Fault SignedOverflow)"

lemma add32_Ret [simp]: "add32 a b = Ret c \<longleftrightarrow> in_i32 (a + b) \<and> c = a + b"
  by (auto simp: add32_def)

lemma sub32_Ret [simp]: "sub32 a b = Ret c \<longleftrightarrow> in_i32 (a - b) \<and> c = a - b"
  by (auto simp: sub32_def)

lemma mul32_Ret [simp]: "mul32 a b = Ret c \<longleftrightarrow> in_i32 (a * b) \<and> c = a * b"
  by (auto simp: mul32_def)

lemma arith32_in_range [simp]:
  "in_i32 (a + b) \<Longrightarrow> add32 a b = Ret (a + b)"
  "in_i32 (a - b) \<Longrightarrow> sub32 a b = Ret (a - b)"
  "in_i32 (a * b) \<Longrightarrow> mul32 a b = Ret (a * b)"
  by (simp_all add: add32_def sub32_def mul32_def)

lemma arith32_no_relock [simp]:
  "add32 a b \<noteq> Fault Relock" "sub32 a b \<noteq> Fault Relock" "mul32 a b \<noteq> Fault Relock"
  by (simp_all add: add32_def sub32_def mul32_def)

section \<open>The module mutex\<close>

text \<open>
  Every module has one \<^verbatim>\<open>std::mutex cache_mutex_\<close>, which is not recursive, and its operations
  take it with \<^verbatim>\<open>std::lock_guard\<close>. A module is a monitor: the flag says whether the calling
  thread holds the mutex. Locking it again in the same thread is the fault \<open>Relock\<close>: the
  standard leaves it undefined, and the usual implementations wait for ever.
\<close>

record 's monitor =
  held :: bool
  inner :: 's

type_synonym ('s, 'r) oper = "'s monitor \<Rightarrow> ('r \<times> 's monitor) outcome"

definition retM :: "'r \<Rightarrow> ('s, 'r) oper" where
  "retM r m = Ret (r, m)"

definition bindM :: "('s, 'r) oper \<Rightarrow> ('r \<Rightarrow> ('s, 'q) oper) \<Rightarrow> ('s, 'q) oper" where
  "bindM p k m = bindO (p m) (\<lambda>(r, m'). k r m')"

definition on_state :: "('s \<Rightarrow> ('r \<times> 's) outcome) \<Rightarrow> ('s, 'r) oper" where
  "on_state f m = bindO (f (inner m)) (\<lambda>(r, s). Ret (r, m\<lparr>inner := s\<rparr>))"

definition with_lock :: "('s, 'r) oper \<Rightarrow> ('s, 'r) oper" where
  "with_lock body m =
     (if held m then Fault Relock
      else bindO (body (m\<lparr>held := True\<rparr>)) (\<lambda>(r, m'). Ret (r, m'\<lparr>held := False\<rparr>)))"

definition guarded :: "('s \<Rightarrow> ('r \<times> 's) outcome) \<Rightarrow> ('s, 'r) oper" where
  "guarded f = with_lock (on_state f)"

definition idle :: "'s \<Rightarrow> 's monitor" where
  "idle s = \<lparr>held = False, inner = s\<rparr>"

lemma idle_simps [simp]: "held (idle s) = False" "inner (idle s) = s"
  by (simp_all add: idle_def)

lemma idle_inject [simp]: "idle s = idle t \<longleftrightarrow> s = t"
  by (simp add: idle_def)

lemma idle_inner: "\<not> held m \<Longrightarrow> m = idle (inner m)"
  by (cases m) (simp add: idle_def)

lemma guarded_idle [simp]:
  "guarded f (idle s) = bindO (f s) (\<lambda>(r, s'). Ret (r, idle s'))"
  by (cases "f s") (auto simp: guarded_def with_lock_def on_state_def idle_def)

lemma guarded_held [simp]: "held m \<Longrightarrow> guarded f m = Fault Relock"
  by (simp add: guarded_def with_lock_def)

lemma with_lock_held [simp]: "held m \<Longrightarrow> with_lock f m = Fault Relock"
  by (simp add: with_lock_def)

lemma with_lock_idle:
  "with_lock body (idle s) =
     bindO (body \<lparr>held = True, inner = s\<rparr>) (\<lambda>(r, m'). Ret (r, m'\<lparr>held := False\<rparr>))"
  by (simp add: with_lock_def idle_def)

lemma bindM_idle:
  "p (idle s) = Ret (r, m') \<Longrightarrow> bindM p k (idle s) = k r m'"
  by (simp add: bindM_def)

text \<open>The value a boolean caller sees of a query with an output argument: \<open>None\<close> is \<^verbatim>\<open>false\<close>.\<close>

definition succeeded :: "('s, 'r option) oper \<Rightarrow> ('s, bool) oper" where
  "succeeded p m = bindO (p m) (\<lambda>(r, m'). Ret (r \<noteq> None, m'))"

section \<open>Vectors\<close>

text \<open>
  The loops \<^verbatim>\<open>for (auto& x : v) if (p(x)) { ...; return; }\<close> change or erase the first element
  with a property; \<^verbatim>\<open>v[i] = x\<close> and \<^verbatim>\<open>v[i]\<close> outside the bounds are undefined.
\<close>

primrec upd_first :: "('a \<Rightarrow> bool) \<Rightarrow> ('a \<Rightarrow> 'a) \<Rightarrow> 'a list \<Rightarrow> 'a list" where
  "upd_first p f [] = []"
| "upd_first p f (x # xs) = (if p x then f x # xs else x # upd_first p f xs)"

primrec del_first :: "('a \<Rightarrow> bool) \<Rightarrow> 'a list \<Rightarrow> 'a list" where
  "del_first p [] = []"
| "del_first p (x # xs) = (if p x then xs else x # del_first p xs)"

definition vec_at :: "'a list \<Rightarrow> i32 \<Rightarrow> 'a outcome" where
  "vec_at xs i = (if 0 \<le> i \<and> i < int (length xs) then Ret (xs ! nat i) else Fault OutOfRange)"

lemma vec_at_Ret [simp]:
  "vec_at xs i = Ret x \<longleftrightarrow> 0 \<le> i \<and> i < int (length xs) \<and> x = xs ! nat i"
  by (auto simp: vec_at_def)

lemma vec_at_no_relock [simp]: "vec_at xs i \<noteq> Fault Relock"
  by (simp add: vec_at_def)

lemma length_upd_first [simp]: "length (upd_first p f xs) = length xs"
  by (induction xs) auto

lemma length_del_first: "\<exists>x\<in>set xs. p x \<Longrightarrow> Suc (length (del_first p xs)) = length xs"
  by (induction xs) auto

lemma length_del_first_le: "length (del_first p xs) \<le> length xs"
  by (induction xs) auto

lemma del_first_id: "\<not> (\<exists>x\<in>set xs. p x) \<Longrightarrow> del_first p xs = xs"
  by (induction xs) auto

lemma upd_first_id: "\<not> (\<exists>x\<in>set xs. p x) \<Longrightarrow> upd_first p f xs = xs"
  by (induction xs) auto

lemma set_del_first: "set (del_first p xs) \<subseteq> set xs"
  by (induction xs) auto

lemma set_upd_first: "set (upd_first p f xs) \<subseteq> set xs \<union> {f x | x. x \<in> set xs \<and> p x}"
  by (induction xs) auto

lemma upd_first_set_cases:
  "y \<in> set (upd_first p f xs) \<Longrightarrow> y \<in> set xs \<or> (\<exists>x\<in>set xs. p x \<and> y = f x)"
  using set_upd_first [of p f xs] by auto

lemma map_upd_first: "(\<And>x. g (f x) = g x) \<Longrightarrow> map g (upd_first p f xs) = map g xs"
  by (induction xs) auto

lemma distinct_map_del_first: "distinct (map g xs) \<Longrightarrow> distinct (map g (del_first p xs))"
  by (induction xs) (use set_del_first in fastforce)+

lemma find_Some_mem: "List.find p xs = Some x \<Longrightarrow> x \<in> set xs \<and> p x"
  by (auto simp: find_Some_iff)

lemma find_None_all: "List.find p xs = None \<longleftrightarrow> (\<forall>x\<in>set xs. \<not> p x)"
  by (auto simp: find_None_iff)

lemma find_upd_first:
  "List.find p xs = Some x \<Longrightarrow> (\<And>y. p y \<Longrightarrow> p (f y)) \<Longrightarrow> List.find p (upd_first p f xs) = Some (f x)"
  by (induction xs) (auto split: if_splits)

text \<open>The element an update by key replaces, looked up again under any key.\<close>

lemma find_key_upd_first:
  "(\<And>x. k (f x) = k x) \<Longrightarrow> List.find (\<lambda>x. k x = b) (upd_first (\<lambda>x. k x = a) f xs) =
     (if b = a then map_option f (List.find (\<lambda>x. k x = a) xs) else List.find (\<lambda>x. k x = b) xs)"
  by (induction xs) auto

lemma upd_first_found_cases:
  "List.find p xs = Some x \<Longrightarrow> y \<in> set (upd_first p f xs) \<Longrightarrow> y \<in> set xs \<or> y = f x"
  by (induction xs) (auto split: if_splits)

lemma upd_first_index:
  "list_ex p xs \<Longrightarrow> \<exists>j<length xs. p (xs ! j) \<and> (\<forall>k<j. \<not> p (xs ! k)) \<and> upd_first p f xs = xs[j := f (xs ! j)]"
proof (induction xs)
  case Nil
  then show ?case by simp
next
  case (Cons x xs)
  show ?case
  proof (cases "p x")
    case True
    then show ?thesis by (intro exI [of _ 0]) simp
  next
    case False
    with Cons obtain j where "j < length xs" "p (xs ! j)" "\<forall>k<j. \<not> p (xs ! k)"
      "upd_first p f xs = xs[j := f (xs ! j)]" by auto
    with False show ?thesis by (intro exI [of _ "Suc j"]) (auto simp: less_Suc_eq_0_disj)
  qed
qed

lemma upd_first_only:
  assumes "j < length xs" and "\<And>k. k < length xs \<Longrightarrow> p (xs ! k) \<longleftrightarrow> k = j \<and> b"
  shows "list_ex p xs \<longleftrightarrow> b" and "upd_first p f xs = (if b then xs[j := f (xs ! j)] else xs)"
proof -
  show ex: "list_ex p xs \<longleftrightarrow> b" using assms by (auto simp: list_ex_length)
  show "upd_first p f xs = (if b then xs[j := f (xs ! j)] else xs)"
  proof (cases b)
    case True
    with ex obtain k where "k < length xs" "p (xs ! k)" "upd_first p f xs = xs[k := f (xs ! k)]"
      using upd_first_index [of p xs f] by auto
    with True assms(2) show ?thesis by auto
  next
    case False
    then have "\<not> (\<exists>x\<in>set xs. p x)" using assms(2) by (auto simp: in_set_conv_nth)
    then show ?thesis using False by (simp add: upd_first_id)
  qed
qed

lemma filter_upd_first_drop:
  "List.find p xs = Some x \<Longrightarrow> (\<And>y. p y \<Longrightarrow> q y) \<Longrightarrow> (\<And>y. p y \<Longrightarrow> \<not> q (f y)) \<Longrightarrow>
   Suc (length (filter q (upd_first p f xs))) = length (filter q xs)"
  by (induction xs) (auto split: if_splits)

lemma all_upd_first:
  "(\<And>x. x \<in> set xs \<Longrightarrow> I x) \<Longrightarrow> (\<And>x. x \<in> set xs \<Longrightarrow> p x \<Longrightarrow> I x \<Longrightarrow> I (f x)) \<Longrightarrow>
   y \<in> set (upd_first p f xs) \<Longrightarrow> I y"
  using upd_first_set_cases by metis

lemma upd_first_unique_key:
  assumes "distinct (map k xs)"
  shows "upd_first (\<lambda>x. k x = a) f xs = map (\<lambda>x. if k x = a then f x else x) xs"
  using assms
proof (induction xs)
  case Nil
  then show ?case by simp
next
  case (Cons x xs)
  show ?case
  proof (cases "k x = a")
    case True
    with Cons.prems have "map (\<lambda>x. if k x = a then f x else x) xs = xs"
      by (intro map_idI) (force simp: image_iff)
    with True show ?thesis by simp
  next
    case False
    with Cons show ?thesis by simp
  qed
qed

text \<open>A capped history: append, then drop the oldest entry when there are more than \<open>n\<close>.\<close>

definition push_capped :: "nat \<Rightarrow> 'a \<Rightarrow> 'a list \<Rightarrow> 'a list" where
  "push_capped n x xs = (let ys = xs @ [x] in if n < length ys then tl ys else ys)"

lemma length_push_capped: "length xs \<le> n \<Longrightarrow> length (push_capped n x xs) \<le> n"
  by (simp add: push_capped_def Let_def)

lemma last_push_capped: "0 < n \<Longrightarrow> push_capped n x xs \<noteq> [] \<and> last (push_capped n x xs) = x"
  by (cases xs) (auto simp: push_capped_def Let_def)

lemma push_capped_suffix: "\<exists>k. push_capped n x xs = drop k (xs @ [x])"
proof (cases "n < length (xs @ [x])")
  case True
  then have "push_capped n x xs = drop 1 (xs @ [x])"
    by (simp add: push_capped_def drop_Suc del: tl_append drop_append)
  then show ?thesis ..
next
  case False
  then have "push_capped n x xs = drop 0 (xs @ [x])"
    by (simp add: push_capped_def)
  then show ?thesis ..
qed

section \<open>Hash maps\<close>

text \<open>
  A \<^verbatim>\<open>std::unordered_map\<close> is an association list with distinct keys, in the order an iteration
  visits it; the standard leaves that order open, and no theorem here depends on it. \<^verbatim>\<open>find\<close> is
  \<open>map_of\<close>, \<^verbatim>\<open>m[k] = v\<close> is \<open>AList.update\<close>, \<^verbatim>\<open>erase\<close> is \<open>AList.delete\<close>.
\<close>

definition keys_ok :: "('k \<times> 'v) list \<Rightarrow> bool" where
  "keys_ok xs \<longleftrightarrow> distinct (map fst xs)"

lemma keys_ok_Nil [simp]: "keys_ok []"
  by (simp add: keys_ok_def)

lemma keys_ok_update [simp]: "keys_ok xs \<Longrightarrow> keys_ok (AList.update k v xs)"
  by (simp add: keys_ok_def distinct_update)

lemma keys_ok_delete [simp]: "keys_ok xs \<Longrightarrow> keys_ok (AList.delete k xs)"
  by (simp add: keys_ok_def distinct_delete)

lemma map_of_update [simp]: "map_of (AList.update k v xs) = (map_of xs)(k \<mapsto> v)"
  by (simp add: update_conv')

lemma map_of_delete [simp]: "map_of (AList.delete k xs) = (map_of xs)(k := None)"
  by (simp add: delete_conv')

text \<open>A map an operation leaves alone or changes at one key.\<close>

definition same_or_put :: "'k \<Rightarrow> ('k \<times> 'v) list \<Rightarrow> ('k \<times> 'v) list \<Rightarrow> bool" where
  "same_or_put k xs ys \<longleftrightarrow> ys = xs \<or> (\<exists>v. ys = AList.update k v xs)"

lemma same_or_put_intros [simp]: "same_or_put k xs xs" "same_or_put k xs (AList.update k v xs)"
  by (auto simp: same_or_put_def)

lemma same_or_put_keys: "same_or_put k xs ys \<Longrightarrow> keys_ok xs \<Longrightarrow> keys_ok ys"
  by (auto simp: same_or_put_def)

lemma same_or_put_frame: "same_or_put k xs ys \<Longrightarrow> j \<noteq> k \<Longrightarrow> map_of ys j = map_of xs j"
  by (auto simp: same_or_put_def)

definition map_vals :: "('k \<Rightarrow> 'v \<Rightarrow> 'w) \<Rightarrow> ('k \<times> 'v) list \<Rightarrow> ('k \<times> 'w) list" where
  "map_vals f xs = map (\<lambda>(k, v). (k, f k v)) xs"

lemma map_of_map_vals [simp]: "map_of (map_vals f xs) k = map_option (f k) (map_of xs k)"
  by (induction xs) (auto simp: map_vals_def)

lemma keys_ok_map_vals [simp]: "keys_ok (map_vals f xs) = keys_ok xs"
  by (simp add: keys_ok_def map_vals_def case_prod_beta comp_def)

text \<open>A property of every value, and what an insertion needs to keep it.\<close>

definition all_vals :: "('v \<Rightarrow> bool) \<Rightarrow> ('k \<times> 'v) list \<Rightarrow> bool" where
  "all_vals p xs \<longleftrightarrow> (\<forall>k v. map_of xs k = Some v \<longrightarrow> p v)"

lemma all_vals_Nil [simp]: "all_vals p []"
  by (simp add: all_vals_def)

lemma all_valsD: "all_vals p xs \<Longrightarrow> map_of xs k = Some v \<Longrightarrow> p v"
  by (auto simp: all_vals_def)

lemma all_vals_update: "all_vals p xs \<Longrightarrow> p v \<Longrightarrow> all_vals p (AList.update k v xs)"
  by (auto simp: all_vals_def)

lemma all_vals_delete: "all_vals p xs \<Longrightarrow> all_vals p (AList.delete k xs)"
  by (auto simp: all_vals_def)

lemma all_vals_map_vals:
  "all_vals p xs \<Longrightarrow> (\<And>k v. p v \<Longrightarrow> p (f k v)) \<Longrightarrow> all_vals p (map_vals f xs)"
  by (auto simp: all_vals_def)

text \<open>A property of every entry, which may depend on the key.\<close>

definition all_entries :: "('k \<Rightarrow> 'v \<Rightarrow> bool) \<Rightarrow> ('k \<times> 'v) list \<Rightarrow> bool" where
  "all_entries p xs \<longleftrightarrow> (\<forall>k v. map_of xs k = Some v \<longrightarrow> p k v)"

lemma all_entries_Nil [simp]: "all_entries p []"
  by (simp add: all_entries_def)

lemma all_entriesD: "all_entries p xs \<Longrightarrow> map_of xs k = Some v \<Longrightarrow> p k v"
  by (auto simp: all_entries_def)

lemma all_entries_update: "all_entries p xs \<Longrightarrow> p k v \<Longrightarrow> all_entries p (AList.update k v xs)"
  by (auto simp: all_entries_def)

lemma all_entries_delete: "all_entries p xs \<Longrightarrow> all_entries p (AList.delete k xs)"
  by (auto simp: all_entries_def)

lemma all_entries_map_vals:
  "all_entries p xs \<Longrightarrow> (\<And>k v. p k v \<Longrightarrow> p k (f k v)) \<Longrightarrow> all_entries p (map_vals f xs)"
  by (auto simp: all_entries_def)

text \<open>The entry an iteration reads, \<^verbatim>\<open>m[k]\<close> of a map of vectors: empty when there is none.\<close>

definition entry :: "('k \<times> 'v list) list \<Rightarrow> 'k \<Rightarrow> 'v list" where
  "entry xs k = (case map_of xs k of None \<Rightarrow> [] | Some v \<Rightarrow> v)"

lemma entry_simps [simp]:
  "map_of xs k = None \<Longrightarrow> entry xs k = []"
  "map_of xs k = Some v \<Longrightarrow> entry xs k = v"
  by (simp_all add: entry_def)

lemma entry_update [simp]: "entry (AList.update k v xs) j = (if j = k then v else entry xs j)"
  by (simp add: entry_def)

lemma entry_delete [simp]: "entry (AList.delete k xs) j = (if j = k then [] else entry xs j)"
  by (simp add: entry_def)

lemma entry_map_vals: "(\<And>k. f k [] = []) \<Longrightarrow> entry (map_vals f xs) k = f k (entry xs k)"
  by (simp add: entry_def split: option.split)

text \<open>The loops that collect keys and erase them afterwards.\<close>

lemma map_of_deletes: "map_of (fold AList.delete ks s) k = (if k \<in> set ks then None else map_of s k)"
  by (induction ks arbitrary: s) auto

lemma keys_ok_deletes: "keys_ok s \<Longrightarrow> keys_ok (fold AList.delete ks s)"
  by (induction ks arbitrary: s) auto

lemma filtered_key:
  "keys_ok s \<Longrightarrow> k \<in> set (map fst (filter (\<lambda>p. P (snd p)) s)) \<longleftrightarrow> (\<exists>v. map_of s k = Some v \<and> P v)"
  by (force simp: keys_ok_def image_iff dest: map_of_SomeD)

text \<open>Erasing the entries with a property, collected before.\<close>

lemma erase_where:
  assumes "keys_ok s"
  shows "map_of (fold AList.delete (map fst (filter (\<lambda>p. P (snd p)) s)) s) k =
    (case map_of s k of None \<Rightarrow> None | Some v \<Rightarrow> if P v then None else Some v)"
  using filtered_key [OF assms, of k P] by (auto simp: map_of_deletes split: option.split)

section \<open>Numbers\<close>

text \<open>\<^verbatim>\<open>std::to_string\<close> of an integer, and the remainder of the machine: it takes the sign of the
  dividend, and a zero divisor or the quotient \<open>2^31\<close> is undefined.\<close>

fun dec_nat :: "nat \<Rightarrow> string" where
  "dec_nat n = (if n < 10 then [char_of (48 + n)] else dec_nat (n div 10) @ [char_of (48 + n mod 10)])"

declare dec_nat.simps [simp del]

definition to_dec :: "int \<Rightarrow> string" where
  "to_dec i = (if i < 0 then ''-'' @ dec_nat (nat (- i)) else dec_nat (nat i))"

definition rem32 :: "i32 \<Rightarrow> i32 \<Rightarrow> i32 outcome" where
  "rem32 a b =
     (if b = 0 then Fault DivByZero
      else if a = - (2 ^ 31) \<and> b = - 1 then Fault SignedOverflow
      else Ret (sgn a * (\<bar>a\<bar> mod \<bar>b\<bar>)))"

lemma rem32_no_relock [simp]: "rem32 a b \<noteq> Fault Relock"
  by (simp add: rem32_def)

section \<open>Ordered maps\<close>

text \<open>
  A \<^verbatim>\<open>std::map\<close> is the same association list; an iteration visits it in the order of the keys.
\<close>

definition in_key_order :: "('k :: linorder \<times> 'v) list \<Rightarrow> ('k \<times> 'v) list" where
  "in_key_order xs = sort_key fst xs"

lemma set_in_key_order [simp]: "set (in_key_order xs) = set xs"
  by (simp add: in_key_order_def)

lemma sorted_in_key_order: "sorted (map fst (in_key_order xs))"
  by (simp add: in_key_order_def)

lemma length_in_key_order [simp]: "length (in_key_order xs) = length xs"
  by (simp add: in_key_order_def)

lemma length_alist_update:
  "length (AList.update k v xs) = (if map_of xs k = None then Suc (length xs) else length xs)"
  by (induction xs) auto

lemma length_alist_delete:
  "keys_ok xs \<Longrightarrow> length xs = length (AList.delete k xs) + (if map_of xs k = None then 0 else 1)"
proof (induction xs)
  case Nil
  then show ?case by simp
next
  case (Cons x xs)
  obtain a b where x: "x = (a, b)" by fastforce
  from Cons.prems have xs: "keys_ok xs" "map_of xs a = None"
    by (auto simp: keys_ok_def x map_of_eq_None_iff)
  show ?case
  proof (cases "a = k")
    case True
    with xs Cons.IH show ?thesis by (simp add: x)
  next
    case False
    with xs Cons.IH show ?thesis by (simp add: x)
  qed
qed

end
