(* ===== verification/Machine.thy ===== *)
theory Machine
  imports Runtime "HOL-Library.Multiset"
begin

text \<open>
  The contracts the operations of the logic modules share, each stated once as a locale and
  interpreted by every module on its own definitions: the generator of identifiers, and a module
  seen as a machine that runs a list of commands (one command for each public method).
\<close>

section \<open>Generated identifiers\<close>

text \<open>
  \<^verbatim>\<open>static uint64_t next_id = time(nullptr) * 10000 + rand() % 10000; return next_id++;\<close>
  The static variable is initialised by the first call (\<open>None\<close> before it), then counts up and
  wraps at 64 bits. \<open>now\<close> and \<open>rnd\<close> are the readings of \<^verbatim>\<open>time\<close> and \<^verbatim>\<open>rand\<close>.
\<close>

definition seed_id :: "time_t \<Rightarrow> int \<Rightarrow> u64" where
  "seed_id now rnd = word_of_int (now * 10000 + rnd mod 10000)"

definition next_static_id :: "time_t \<Rightarrow> int \<Rightarrow> u64 option \<Rightarrow> u64 \<times> u64 option" where
  "next_static_id now rnd cell =
     (let n = (case cell of None \<Rightarrow> seed_id now rnd | Some n \<Rightarrow> n) in (n, Some (n + 1)))"

text \<open>
  The contract of a generator over a state with one counter cell: a call returns the cell's
  value and advances it by one. The client's fact: the identifiers of any number of consecutive
  calls below \<open>2^64\<close> are distinct, whatever the clock and the random source do.
\<close>

primrec draw_ids :: "(time_t \<Rightarrow> int \<Rightarrow> 's \<Rightarrow> u64 \<times> 's) \<Rightarrow> (time_t \<times> int) list \<Rightarrow> 's \<Rightarrow> u64 list" where
  "draw_ids gen [] s = []"
| "draw_ids gen (e # es) s = (let (i, s') = gen (fst e) (snd e) s in i # draw_ids gen es s')"

locale id_source =
  fixes gen :: "time_t \<Rightarrow> int \<Rightarrow> 's \<Rightarrow> u64 \<times> 's"
    and cell :: "'s \<Rightarrow> u64 option"
  assumes gen_started: "cell s = Some n \<Longrightarrow> fst (gen t r s) = n"
    and gen_advances: "cell (snd (gen t r s)) = Some (fst (gen t r s) + 1)"
begin

lemma draw_ids_started:
  "cell s = Some n \<Longrightarrow> draw_ids gen es s = map (\<lambda>k. n + of_nat k) [0..<length es]"
proof (induction es arbitrary: s n)
  case Nil
  then show ?case by simp
next
  case (Cons e es)
  obtain i s' where g: "gen (fst e) (snd e) s = (i, s')" by fastforce
  with Cons.prems have i: "i = n" and s': "cell s' = Some (n + 1)"
    using gen_started [OF Cons.prems, of "fst e" "snd e"]
      gen_advances [of "fst e" "snd e" s] by auto
  have "[0..<Suc (length es)] = 0 # map Suc [0..<length es]"
    by (simp add: upt_conv_Cons map_Suc_upt del: upt_Suc)
  with i g Cons.IH [OF s'] show ?case
    by (simp add: comp_def add.assoc del: upt_Suc)
qed

lemma draw_ids_offsets:
  "\<exists>b. draw_ids gen es s = map (\<lambda>k. b + of_nat k) [0..<length es]"
proof (cases es)
  case Nil
  then show ?thesis by simp
next
  case (Cons e es')
  obtain i s' where g: "gen (fst e) (snd e) s = (i, s')" by fastforce
  then have "cell s' = Some (i + 1)"
    using gen_advances [of "fst e" "snd e" s] by simp
  from draw_ids_started [OF this, of es'] g Cons
  have "draw_ids gen es s = i # map (\<lambda>k. (i + 1) + of_nat k) [0..<length es']"
    by simp
  moreover have "[0..<Suc (length es')] = 0 # map Suc [0..<length es']"
    by (simp add: upt_conv_Cons map_Suc_upt del: upt_Suc)
  ultimately have "draw_ids gen es s = map (\<lambda>k. i + of_nat k) [0..<length es]"
    by (simp add: Cons comp_def add.assoc del: upt_Suc)
  then show ?thesis ..
qed

lemma draw_ids_distinct:
  assumes "length es \<le> 2 ^ 64"
  shows "distinct (draw_ids gen es s)"
proof -
  obtain b where b: "draw_ids gen es s = map (\<lambda>k. b + of_nat k) [0..<length es]"
    using draw_ids_offsets by blast
  have "inj_on (\<lambda>k. b + of_nat k :: u64) {0..<length es}"
  proof (rule inj_onI)
    fix x y
    assume "x \<in> {0..<length es}" "y \<in> {0..<length es}" "b + of_nat x = b + (of_nat y :: u64)"
    then have "(of_nat x :: u64) = of_nat y" and "x < 2 ^ 64" and "y < 2 ^ 64"
      using assms by auto
    then show "x = y"
      using of_nat_inverse [of x "of_nat x :: u64"] of_nat_inverse [of y "of_nat x :: u64"]
      by simp
  qed
  then show ?thesis by (simp add: b distinct_map)
qed

end

interpretation static_id: id_source next_static_id "\<lambda>c. c"
  by unfold_locales (auto simp: next_static_id_def Let_def)

section \<open>Modules as machines\<close>

text \<open>
  Since every method takes the module mutex for its whole body (the few that do not are several
  commands), the behaviour of a module under any number of client threads is that of the lists
  of commands it may run one after the other.
\<close>

primrec run_cmds ::
  "('c \<Rightarrow> ('s, 'r) oper) \<Rightarrow> 'c list \<Rightarrow> ('s, 'r list) oper" where
  "run_cmds exec [] m = Ret ([], m)"
| "run_cmds exec (c # cs) m =
     bindO (exec c m) (\<lambda>(r, m'). bindO (run_cmds exec cs m') (\<lambda>(rs, m''). Ret (r # rs, m'')))"

locale machine =
  fixes exec :: "'c \<Rightarrow> ('s, 'r) oper"
    and inv :: "'s \<Rightarrow> bool"
  assumes exec_idle: "exec c (idle s) = Ret (r, m') \<Longrightarrow> \<exists>s'. m' = idle s'"
    and exec_inv: "exec c (idle s) = Ret (r, idle s') \<Longrightarrow> inv s \<Longrightarrow> inv s'"
begin

lemma exec_cases:
  assumes "exec c (idle s) = Ret (r, m')" and "inv s"
  obtains s' where "m' = idle s'" and "inv s'"
  using assms exec_idle exec_inv by blast

lemma run_inv:
  "run_cmds exec cs (idle s) = Ret (rs, m') \<Longrightarrow> inv s \<Longrightarrow> \<exists>s'. m' = idle s' \<and> inv s'"
proof (induction cs arbitrary: s rs)
  case Nil
  then show ?case by auto
next
  case (Cons c cs)
  from Cons.prems(1) obtain r m1 rs' where
    c: "exec c (idle s) = Ret (r, m1)" and cs: "run_cmds exec cs m1 = Ret (rs', m')"
    by (auto split: prod.splits)
  from c Cons.prems(2) obtain s1 where "m1 = idle s1" "inv s1"
    by (rule exec_cases)
  with cs Cons.IH show ?case by blast
qed

end

text \<open>A machine none of whose commands can relock the mutex: it never blocks on itself.\<close>

locale live_machine = machine exec inv
  for exec :: "'c \<Rightarrow> ('s, 'r) oper" and inv :: "'s \<Rightarrow> bool" +
  assumes exec_live: "inv s \<Longrightarrow> exec c (idle s) \<noteq> Fault Relock"
begin

lemma run_live: "inv s \<Longrightarrow> run_cmds exec cs (idle s) \<noteq> Fault Relock"
proof (induction cs arbitrary: s)
  case Nil
  then show ?case by simp
next
  case (Cons c cs)
  show ?case
  proof (cases "exec c (idle s)")
    case (Ret x)
    obtain r m1 where x: "x = (r, m1)" by fastforce
    with Ret Cons.prems obtain s1 where "m1 = idle s1" "inv s1"
      using exec_cases by blast
    with Cons.IH Ret x show ?thesis
      by (auto simp: bindO_eq_Fault split: prod.splits)
  next
    case (Fault e)
    with exec_live [OF Cons.prems] show ?thesis by auto
  qed
qed

end

text \<open>A machine none of whose commands fails in any way: a run always returns.\<close>

locale total_machine = machine exec inv
  for exec :: "'c \<Rightarrow> ('s, 'r) oper" and inv :: "'s \<Rightarrow> bool" +
  assumes exec_returns: "inv s \<Longrightarrow> \<exists>r m'. exec c (idle s) = Ret (r, m')"
begin

lemma run_returns: "inv s \<Longrightarrow> \<exists>rs s'. run_cmds exec cs (idle s) = Ret (rs, idle s') \<and> inv s'"
proof (induction cs arbitrary: s)
  case Nil
  then show ?case by auto
next
  case (Cons c cs)
  from exec_returns [OF Cons.prems, of c] obtain r m1 where c: "exec c (idle s) = Ret (r, m1)" by blast
  from c Cons.prems obtain s1 where "m1 = idle s1" "inv s1" by (rule exec_cases)
  with c Cons.IH show ?case by fastforce
qed

end

sublocale total_machine \<subseteq> live_machine exec inv
proof unfold_locales
  show "exec c (idle s) \<noteq> Fault Relock" if "inv s" for s c
    using exec_returns [OF that, of c] by auto
qed

text \<open>
  A machine whose commands name the key they work for and leave every other key's data alone:
  what one role sees does not depend on the commands of the others.
\<close>

locale isolated_machine = machine exec inv
  for exec :: "'c \<Rightarrow> ('s, 'r) oper" and inv :: "'s \<Rightarrow> bool" +
  fixes touches :: "'c \<Rightarrow> 'k \<Rightarrow> bool"
    and view :: "'s \<Rightarrow> 'k \<Rightarrow> 'v"
  assumes exec_frame:
    "exec c (idle s) = Ret (r, idle s') \<Longrightarrow> \<not> touches c k \<Longrightarrow> view s' k = view s k"
begin

lemma run_frame:
  "run_cmds exec cs (idle s) = Ret (rs, idle s') \<Longrightarrow> \<forall>c\<in>set cs. \<not> touches c k \<Longrightarrow>
   view s' k = view s k"
proof (induction cs arbitrary: s rs)
  case Nil
  then show ?case by auto
next
  case (Cons c cs)
  from Cons.prems(1) obtain r m1 rs' where
    c: "exec c (idle s) = Ret (r, m1)" and cs: "run_cmds exec cs m1 = Ret (rs', idle s')"
    by (auto split: prod.splits)
  then obtain s1 where m1: "m1 = idle s1" using exec_idle by blast
  with c Cons.prems(2) have "view s1 k = view s k" by (auto intro: exec_frame)
  moreover from cs m1 Cons.prems(2) have "view s' k = view s1 k" by (auto intro: Cons.IH)
  ultimately show ?case by simp
qed

end

text \<open>Lifting: what a guarded operation keeps is what its body keeps.\<close>

lemma guarded_idleE:
  assumes "guarded f (idle s) = Ret (r, m')"
  obtains s' where "f s = Ret (r, s')" and "m' = idle s'"
  using assms by (auto split: prod.splits)

lemma guarded_idle_Ret [simp]:
  "guarded f (idle s) = Ret (r, m') \<longleftrightarrow> (\<exists>s'. f s = Ret (r, s') \<and> m' = idle s')"
  by (auto split: prod.splits)

lemma lift_eq_Fault [simp]:
  "bindO x (\<lambda>(r, s'). Ret (r, idle s')) = Fault e \<longleftrightarrow> x = Fault e"
  by (cases x) (auto split: prod.splits)

lemma guarded_no_relock: "guarded f (idle s) = Fault Relock \<longleftrightarrow> f s = Fault Relock"
  by simp

section \<open>What an operation does to the state\<close>

text \<open>
  \<open>steps_by R p\<close>: called with the mutex free, \<open>p\<close> leaves it free and moves the state along
  \<open>R\<close>. \<open>never_relocks p\<close>: called with the mutex free, \<open>p\<close> does not lock it twice. Both pass
  from the parts of an operation to the whole.
\<close>

definition steps_by :: "('s \<Rightarrow> 's \<Rightarrow> bool) \<Rightarrow> ('s, 'r) oper \<Rightarrow> bool" where
  "steps_by R p \<longleftrightarrow> (\<forall>s r m'. p (idle s) = Ret (r, m') \<longrightarrow> (\<exists>s'. m' = idle s' \<and> R s s'))"

definition never_relocks :: "('s, 'r) oper \<Rightarrow> bool" where
  "never_relocks p \<longleftrightarrow> (\<forall>s. p (idle s) \<noteq> Fault Relock)"

named_theorems stepping

lemma steps_byD: "steps_by R p \<Longrightarrow> p (idle s) = Ret (r, m') \<Longrightarrow> \<exists>s'. m' = idle s' \<and> R s s'"
  by (simp add: steps_by_def)

lemma steps_by_run: "p (idle s) = Ret (r, m') \<Longrightarrow> steps_by R p \<Longrightarrow> \<exists>s'. m' = idle s' \<and> R s s'"
  by (rule steps_byD)

text \<open>A body that does not fail, given as a function to the answer and the new state.\<close>

lemma steps_by_pure:
  assumes "\<And>s. R s (snd (g s))"
  shows "steps_by R (guarded (\<lambda>s. Ret (g s)))"
  unfolding steps_by_def
proof (intro allI impI)
  fix s r m'
  assume "guarded (\<lambda>s. Ret (g s)) (idle s) = Ret (r, m')"
  then obtain s' where "g s = (r, s')" "m' = idle s'" by (cases "g s") auto
  with assms [of s] show "\<exists>s'. m' = idle s' \<and> R s s'" by auto
qed

lemma steps_by_guarded: "(\<And>s r s'. f s = Ret (r, s') \<Longrightarrow> R s s') \<Longrightarrow> steps_by R (guarded f)"
  by (auto simp: steps_by_def)

lemma steps_by_weaken: "steps_by R p \<Longrightarrow> (\<And>s s'. R s s' \<Longrightarrow> Q s s') \<Longrightarrow> steps_by Q p"
  by (fastforce simp: steps_by_def)

lemma steps_by_succeeded [stepping]: "steps_by R p \<Longrightarrow> steps_by R (succeeded p)"
  by (fastforce simp: steps_by_def succeeded_def split: prod.splits)

lemma steps_by_retM [stepping]: "(\<And>s. R s s) \<Longrightarrow> steps_by R (retM r)"
  by (auto simp: steps_by_def retM_def)

lemma steps_by_bindM:
  assumes "steps_by R p" and "\<And>r. steps_by R (k r)" and "\<And>x y z. R x y \<Longrightarrow> R y z \<Longrightarrow> R x z"
  shows "steps_by R (bindM p k)"
  unfolding steps_by_def
proof (intro allI impI)
  fix s r m'
  assume "bindM p k (idle s) = Ret (r, m')"
  then obtain q m1 where "p (idle s) = Ret (q, m1)" "k q m1 = Ret (r, m')"
    by (auto simp: bindM_def)
  moreover from this(1) obtain s1 where "m1 = idle s1" "R s s1"
    using steps_byD [OF assms(1)] by blast
  ultimately show "\<exists>s'. m' = idle s' \<and> R s s'"
    using steps_byD [OF assms(2)] assms(3) by blast
qed

lemma steps_by_bindM_ret [stepping]:
  "steps_by R p \<Longrightarrow> steps_by R (bindM p (\<lambda>r. retM (g r)))"
  by (fastforce simp: steps_by_def bindM_def retM_def split: prod.splits)

lemma never_relocks_bindM_ret [stepping]:
  "never_relocks p \<Longrightarrow> never_relocks (bindM p (\<lambda>r. retM (g r)))"
  by (auto simp: never_relocks_def bindM_def retM_def bindO_eq_Fault)

lemma never_relocks_guarded: "never_relocks (guarded f) \<longleftrightarrow> (\<forall>s. f s \<noteq> Fault Relock)"
  by (simp add: never_relocks_def)

lemma never_relocks_succeeded [stepping]: "never_relocks p \<Longrightarrow> never_relocks (succeeded p)"
  by (auto simp: never_relocks_def succeeded_def bindO_eq_Fault split: prod.splits)

lemma never_relocks_retM [stepping]: "never_relocks (retM r)"
  by (auto simp: never_relocks_def retM_def)

lemma never_relocks_bindM:
  assumes "never_relocks p" and "steps_by R p" and "\<And>r. never_relocks (k r)"
  shows "never_relocks (bindM p k)"
  unfolding never_relocks_def
proof
  fix s
  show "bindM p k (idle s) \<noteq> Fault Relock"
  proof (cases "p (idle s)")
    case (Ret x)
    obtain q m1 where "x = (q, m1)" by fastforce
    with Ret steps_byD [OF assms(2)] obtain s1 where "x = (q, idle s1)" by blast
    with Ret assms(3) show ?thesis by (simp add: bindM_def never_relocks_def)
  next
    case (Fault e)
    with assms(1) show ?thesis by (auto simp: bindM_def never_relocks_def)
  qed
qed

text \<open>A run of commands that all move the state along a preorder moves it along that preorder.\<close>

lemma steps_by_run_cmds:
  assumes "\<And>c. steps_by R (exec c)" and "\<And>x. R x x" and "\<And>x y z. R x y \<Longrightarrow> R y z \<Longrightarrow> R x z"
  shows "steps_by R (run_cmds exec cs)"
proof (induction cs)
  case Nil
  show ?case using assms(2) by (auto simp: steps_by_def)
next
  case (Cons c cs)
  show ?case
    unfolding steps_by_def
  proof (intro allI impI)
    fix s rs m'
    assume "run_cmds exec (c # cs) (idle s) = Ret (rs, m')"
    then obtain r m1 rs' where "exec c (idle s) = Ret (r, m1)" "run_cmds exec cs m1 = Ret (rs', m')"
      by (auto split: prod.splits)
    moreover from steps_byD [OF assms(1) this(1)] obtain s1 where "m1 = idle s1" "R s s1" by blast
    ultimately show "\<exists>s'. m' = idle s' \<and> R s s'"
      using steps_byD [OF Cons.IH] assms(3) by blast
  qed
qed

section \<open>Sorting\<close>

text \<open>
  The contract of \<^verbatim>\<open>std::sort\<close> with a comparison: a permutation in which no element comes before a smaller one. The
  order of equal elements is open.
\<close>

locale std_sort =
  fixes lt :: "'a \<Rightarrow> 'a \<Rightarrow> bool"
    and srt :: "'a list \<Rightarrow> 'a list"
  assumes sort_mset: "mset (srt xs) = mset xs"
    and sort_ordered: "sorted_wrt (\<lambda>x y. \<not> lt y x) (srt xs)"
begin

lemma sort_set: "set (srt xs) = set xs"
  using sort_mset by (metis set_mset_mset)

lemma sort_length: "length (srt xs) = length xs"
  using sort_mset by (metis size_mset)

lemma sort_distinct: "distinct (map f xs) \<Longrightarrow> distinct (map f (srt xs))"
  using sort_mset [of xs] by (metis mset_map mset_eq_imp_distinct_iff)

lemma sort_front:
  assumes "x \<in> set (take k (srt xs))" and "y \<in> set (drop k (srt xs))"
  shows "\<not> lt y x"
proof -
  have "sorted_wrt (\<lambda>x y. \<not> lt y x) (take k (srt xs) @ drop k (srt xs))" using sort_ordered by simp
  with assms show ?thesis unfolding sorted_wrt_append by blast
qed

end

end
