(* ===== verification/Bag.thy ===== *)
theory Bag
  imports Machine
begin

text \<open>
  \<open>game_server/logic_server/bag_module.cc\<close>: the bags of the roles, each a vector of slots, and
  the operations that add, remove, use, move and swap the items of a bag. The abstract view of a
  bag is how many items of each configuration it holds.
\<close>

section \<open>Data\<close>

record ItemInfo =
  item_id :: u64
  item_config_id :: i32
  count :: i32
  quality :: i32
  level :: i32
  bind_type :: i32
  expire_time :: int
  extra_data :: string

record BagSlot =
  slot_index :: i32
  item :: ItemInfo
  is_empty :: bool

record BagModule =
  bag_cache :: "(u64 \<times> BagSlot list) list"
  next_item_id :: "u64 option"

definition BASE_BAG_SIZE :: i32 where "BASE_BAG_SIZE = 40"

definition MAX_BAG_SIZE :: i32 where "MAX_BAG_SIZE = 200"

text \<open>\<^verbatim>\<open>ItemInfo()\<close> is value initialised: every number is zero, the string is empty.\<close>

definition no_item :: ItemInfo where
  "no_item = \<lparr>item_id = 0, item_config_id = 0, count = 0, quality = 0, level = 0, bind_type = 0,
     expire_time = 0, extra_data = []\<rparr>"

definition bag_init :: BagModule where
  "bag_init = \<lparr>bag_cache = [], next_item_id = None\<rparr>"

section \<open>Operations\<close>

definition InitBag :: "u64 \<Rightarrow> (BagModule, bool) oper" where
  "InitBag role_id = guarded (\<lambda>s.
     case map_of (bag_cache s) role_id of
       Some _ \<Rightarrow> Ret (True, s)
     | None \<Rightarrow>
         let slots = map (\<lambda>i. \<lparr>slot_index = int i, item = no_item, is_empty = True\<rparr>)
                       [0..<nat BASE_BAG_SIZE]
         in Ret (True, s\<lparr>bag_cache := AList.update role_id slots (bag_cache s)\<rparr>))"

definition GetBag :: "u64 \<Rightarrow> (BagModule, BagSlot list option) oper" where
  "GetBag role_id = guarded (\<lambda>s. Ret (map_of (bag_cache s) role_id, s))"

definition GetBagSlot :: "u64 \<Rightarrow> i32 \<Rightarrow> (BagModule, BagSlot option) oper" where
  "GetBagSlot role_id i = guarded (\<lambda>s.
     case map_of (bag_cache s) role_id of
       None \<Rightarrow> Ret (None, s)
     | Some slots \<Rightarrow>
         if i < 0 \<or> i \<ge> int (length slots) then Ret (None, s)
         else bindO (vec_at slots i) (\<lambda>x. Ret (Some x, s)))"

text \<open>The private searches return the \<open>slot_index\<close> the found slot carries, or \<open>-1\<close>.\<close>

definition FindEmptySlot :: "BagModule \<Rightarrow> u64 \<Rightarrow> i32" where
  "FindEmptySlot s role_id =
     (case map_of (bag_cache s) role_id of
        None \<Rightarrow> - 1
      | Some slots \<Rightarrow>
          (case List.find is_empty slots of Some x \<Rightarrow> slot_index x | None \<Rightarrow> - 1))"

definition FindStackableSlot :: "BagModule \<Rightarrow> u64 \<Rightarrow> i32 \<Rightarrow> i32" where
  "FindStackableSlot s role_id cfg =
     (case map_of (bag_cache s) role_id of
        None \<Rightarrow> - 1
      | Some slots \<Rightarrow>
          (case List.find (\<lambda>x. \<not> is_empty x \<and> item_config_id (item x) = cfg) slots of
             Some x \<Rightarrow> slot_index x | None \<Rightarrow> - 1))"

definition GenerateItemId :: "time_t \<Rightarrow> int \<Rightarrow> BagModule \<Rightarrow> u64 \<times> BagModule" where
  "GenerateItemId now rnd s =
     (let (i, c) = next_static_id now rnd (next_item_id s) in (i, s\<lparr>next_item_id := c\<rparr>))"

definition AddItem ::
  "time_t \<Rightarrow> int \<Rightarrow> u64 \<Rightarrow> i32 \<Rightarrow> i32 \<Rightarrow> i32 \<Rightarrow> (BagModule, bool) oper" where
  "AddItem now rnd role_id cfg cnt qual = guarded (\<lambda>s.
     case map_of (bag_cache s) role_id of
       None \<Rightarrow> Ret (False, s)
     | Some slots \<Rightarrow>
         let k = FindStackableSlot s role_id cfg in
         if k \<ge> 0 then
           bindO (vec_at slots k) (\<lambda>x.
           bindO (add32 (count (item x)) cnt) (\<lambda>c.
             Ret (True, s\<lparr>bag_cache := AList.update role_id
               (slots[nat k := x\<lparr>item := (item x)\<lparr>count := c\<rparr>\<rparr>]) (bag_cache s)\<rparr>)))
         else
           let e = FindEmptySlot s role_id in
           if e < 0 then Ret (False, s)
           else
             bindO (vec_at slots e) (\<lambda>x.
               let (new_id, s1) = GenerateItemId now rnd s;
                   it = (item x)\<lparr>item_id := new_id, item_config_id := cfg, count := cnt,
                          quality := qual, level := 1, bind_type := 0, expire_time := 0\<rparr>
               in Ret (True, s1\<lparr>bag_cache := AList.update role_id
                    (slots[nat e := x\<lparr>is_empty := False, item := it\<rparr>]) (bag_cache s1)\<rparr>)))"

text \<open>\<^verbatim>\<open>slot.item.count -= count\<close>, and the slot is cleared when nothing is left.\<close>

definition take_from_slot :: "i32 \<Rightarrow> BagSlot \<Rightarrow> BagSlot" where
  "take_from_slot c x =
     (if count (item x) - c = 0 then x\<lparr>is_empty := True, item := no_item\<rparr>
      else x\<lparr>item := (item x)\<lparr>count := count (item x) - c\<rparr>\<rparr>)"

definition RemoveItem :: "u64 \<Rightarrow> u64 \<Rightarrow> i32 \<Rightarrow> (BagModule, bool) oper" where
  "RemoveItem role_id iid cnt = guarded (\<lambda>s.
     case map_of (bag_cache s) role_id of
       None \<Rightarrow> Ret (False, s)
     | Some slots \<Rightarrow>
         let here = (\<lambda>x. \<not> is_empty x \<and> item_id (item x) = iid) in
         (case List.find here slots of
            None \<Rightarrow> Ret (False, s)
          | Some x \<Rightarrow>
              if count (item x) < cnt then Ret (False, s)
              else bindO (sub32 (count (item x)) cnt) (\<lambda>_.
                Ret (True, s\<lparr>bag_cache := AList.update role_id
                  (upd_first here (take_from_slot cnt) slots) (bag_cache s)\<rparr>))))"

text \<open>The loop of \<^verbatim>\<open>GetItemCount\<close> adds the counts in 32-bit arithmetic.\<close>

fun sum_counts :: "i32 \<Rightarrow> i32 \<Rightarrow> BagSlot list \<Rightarrow> i32 outcome" where
  "sum_counts cfg acc [] = Ret acc"
| "sum_counts cfg acc (x # xs) =
     (if \<not> is_empty x \<and> item_config_id (item x) = cfg
      then bindO (add32 acc (count (item x))) (\<lambda>a. sum_counts cfg a xs)
      else sum_counts cfg acc xs)"

definition GetItemCount :: "u64 \<Rightarrow> i32 \<Rightarrow> (BagModule, i32 option) oper" where
  "GetItemCount role_id cfg = guarded (\<lambda>s.
     case map_of (bag_cache s) role_id of
       None \<Rightarrow> Ret (None, s)
     | Some slots \<Rightarrow> bindO (sum_counts cfg 0 slots) (\<lambda>c. Ret (Some c, s)))"

definition HasItem :: "u64 \<Rightarrow> i32 \<Rightarrow> i32 \<Rightarrow> (BagModule, bool) oper" where
  "HasItem role_id cfg cnt =
     bindM (GetItemCount role_id cfg) (\<lambda>r.
       retM (case r of None \<Rightarrow> False | Some c \<Rightarrow> c \<ge> cnt))"

text \<open>
  \<^verbatim>\<open>UseItem\<close> and \<^verbatim>\<open>DropItem\<close> pass the 64-bit identifier of the item where \<^verbatim>\<open>GetItemCount\<close> takes
  a 32-bit configuration number, and drop the result of \<^verbatim>\<open>RemoveItem\<close>.
\<close>

definition UseItem :: "u64 \<Rightarrow> u64 \<Rightarrow> i32 \<Rightarrow> (BagModule, bool) oper" where
  "UseItem role_id iid cnt =
     bindM (GetItemCount role_id (to_i32 (uint iid))) (\<lambda>r.
       case r of
         None \<Rightarrow> retM False
       | Some c \<Rightarrow>
           if c < cnt then retM False
           else bindM (RemoveItem role_id iid cnt) (\<lambda>_. retM True))"

definition DropItem :: "u64 \<Rightarrow> u64 \<Rightarrow> i32 \<Rightarrow> (BagModule, bool) oper" where
  "DropItem role_id iid cnt =
     bindM (GetItemCount role_id (to_i32 (uint iid))) (\<lambda>r.
       case r of
         None \<Rightarrow> retM False
       | Some c \<Rightarrow>
           if c < cnt then retM False
           else bindM (RemoveItem role_id iid cnt) (\<lambda>_. retM True))"

definition bad_index :: "BagSlot list \<Rightarrow> i32 \<Rightarrow> bool" where
  "bad_index slots i \<longleftrightarrow> i < 0 \<or> i \<ge> int (length slots)"

definition MoveItem :: "u64 \<Rightarrow> i32 \<Rightarrow> i32 \<Rightarrow> (BagModule, bool) oper" where
  "MoveItem role_id from to = guarded (\<lambda>s.
     case map_of (bag_cache s) role_id of
       None \<Rightarrow> Ret (False, s)
     | Some slots \<Rightarrow>
         if bad_index slots from \<or> bad_index slots to then Ret (False, s)
         else if from = to then Ret (True, s)
         else if \<not> is_empty (slots ! nat to) then Ret (False, s)
         else
           let moved = slots[nat to := (slots ! nat from)\<lparr>slot_index := to\<rparr>];
               slots' = moved[nat from := (moved ! nat from)
                          \<lparr>is_empty := True, slot_index := from, item := no_item\<rparr>]
           in Ret (True, s\<lparr>bag_cache := AList.update role_id slots' (bag_cache s)\<rparr>))"

definition SwapItem :: "u64 \<Rightarrow> i32 \<Rightarrow> i32 \<Rightarrow> (BagModule, bool) oper" where
  "SwapItem role_id slot1 slot2 = guarded (\<lambda>s.
     case map_of (bag_cache s) role_id of
       None \<Rightarrow> Ret (False, s)
     | Some slots \<Rightarrow>
         if bad_index slots slot1 \<or> bad_index slots slot2 then Ret (False, s)
         else if slot1 = slot2 then Ret (True, s)
         else
           let a = slots ! nat slot1; b = slots ! nat slot2;
               slots' = slots[nat slot1 := b\<lparr>slot_index := slot1\<rparr>,
                              nat slot2 := a\<lparr>slot_index := slot2\<rparr>]
           in Ret (True, s\<lparr>bag_cache := AList.update role_id slots' (bag_cache s)\<rparr>))"

text \<open>
  A slot added by \<^verbatim>\<open>ExpandBag\<close> is default initialised: its numbers are indeterminate. \<open>junk\<close> is
  whatever the memory held.
\<close>

definition ExpandBag :: "(nat \<Rightarrow> ItemInfo) \<Rightarrow> u64 \<Rightarrow> i32 \<Rightarrow> (BagModule, bool) oper" where
  "ExpandBag junk role_id n = guarded (\<lambda>s.
     case map_of (bag_cache s) role_id of
       None \<Rightarrow> Ret (False, s)
     | Some slots \<Rightarrow>
         bindO (add32 (int (length slots)) n) (\<lambda>new_size.
           if new_size > MAX_BAG_SIZE then Ret (False, s)
           else
             let fresh = map (\<lambda>i. \<lparr>slot_index = int i, item = (junk i)\<lparr>extra_data := []\<rparr>,
                                is_empty = True\<rparr>) [length slots..<nat new_size]
             in Ret (True, s\<lparr>bag_cache := AList.update role_id (slots @ fresh) (bag_cache s)\<rparr>)))"

definition LoadBagData :: "u64 \<Rightarrow> (BagModule, bool) oper" where
  "LoadBagData role_id = bindM (InitBag role_id) (\<lambda>_. retM True)"

definition SaveBagData :: "u64 \<Rightarrow> (BagModule, bool) oper" where
  "SaveBagData role_id = guarded (\<lambda>s. Ret (map_of (bag_cache s) role_id \<noteq> None, s))"

section \<open>The invariant of a bag\<close>

text \<open>
  Slot \<open>i\<close> carries the number \<open>i\<close>, there are at most \<open>MAX_BAG_SIZE\<close> slots, the counts fit
  in 32 bits, and no two slots hold items of the same configuration.
\<close>

definition indexed :: "BagSlot list \<Rightarrow> bool" where
  "indexed slots \<longleftrightarrow> (\<forall>i<length slots. slot_index (slots ! i) = int i)"

definition one_per_config :: "BagSlot list \<Rightarrow> bool" where
  "one_per_config slots \<longleftrightarrow>
     (\<forall>i<length slots. \<forall>j<length slots. \<not> is_empty (slots ! i) \<longrightarrow> \<not> is_empty (slots ! j) \<longrightarrow>
        item_config_id (item (slots ! i)) = item_config_id (item (slots ! j)) \<longrightarrow> i = j)"

definition slots_ok :: "BagSlot list \<Rightarrow> bool" where
  "slots_ok slots \<longleftrightarrow> indexed slots \<and> int (length slots) \<le> MAX_BAG_SIZE \<and> one_per_config slots \<and>
     (\<forall>x\<in>set slots. \<not> is_empty x \<longrightarrow> in_i32 (count (item x)))"

definition bag_inv :: "BagModule \<Rightarrow> bool" where
  "bag_inv s \<longleftrightarrow> keys_ok (bag_cache s) \<and> all_vals slots_ok (bag_cache s)"

lemma bag_inv_slots: "bag_inv s \<Longrightarrow> map_of (bag_cache s) r = Some slots \<Longrightarrow> slots_ok slots"
  by (auto simp: bag_inv_def dest: all_valsD)

lemma indexed_find:
  assumes "indexed slots" and "List.find p slots = Some x"
  obtains i where "i < length slots" "slots ! i = x" "slot_index x = int i" "p x"
    "\<forall>j<i. \<not> p (slots ! j)"
proof -
  from assms(2) obtain i where i: "i < length slots" "p (slots ! i)" "x = slots ! i"
      "\<forall>j<i. \<not> p (slots ! j)"
    by (auto simp: find_Some_iff)
  moreover from i assms(1) have "slot_index x = int i" by (simp add: indexed_def)
  ultimately show ?thesis using that by blast
qed

lemma one_per_configD:
  "one_per_config slots \<Longrightarrow> i < length slots \<Longrightarrow> j < length slots \<Longrightarrow> \<not> is_empty (slots ! i) \<Longrightarrow>
   \<not> is_empty (slots ! j) \<Longrightarrow> item_config_id (item (slots ! i)) = item_config_id (item (slots ! j)) \<Longrightarrow>
   i = j"
  unfolding one_per_config_def by blast

lemma slots_ok_update:
  assumes ok: "slots_ok slots" and i: "i < length slots"
    and idx: "slot_index x = int i"
    and cnt: "\<not> is_empty x \<Longrightarrow> in_i32 (count (item x))"
    and uniq: "\<And>j. \<not> is_empty x \<Longrightarrow> j < length slots \<Longrightarrow> j \<noteq> i \<Longrightarrow> \<not> is_empty (slots ! j) \<Longrightarrow>
                item_config_id (item (slots ! j)) \<noteq> item_config_id (item x)"
  shows "slots_ok (slots[i := x])"
proof -
  have "indexed (slots[i := x])"
    using ok i idx by (auto simp: slots_ok_def indexed_def nth_list_update)
  moreover have "one_per_config (slots[i := x])"
    unfolding one_per_config_def
  proof (intro allI impI)
    fix k l
    assume kl: "k < length (slots[i := x])" "l < length (slots[i := x])"
      "\<not> is_empty (slots[i := x] ! k)" "\<not> is_empty (slots[i := x] ! l)"
      "item_config_id (item (slots[i := x] ! k)) = item_config_id (item (slots[i := x] ! l))"
    show "k = l"
    proof (cases "k = i \<or> l = i")
      case True
      with kl uniq [of k] uniq [of l] show ?thesis by (cases "k = i"; cases "l = i") auto
    next
      case False
      with kl ok show ?thesis by (auto simp: slots_ok_def intro: one_per_configD)
    qed
  qed
  moreover have "\<forall>y\<in>set (slots[i := x]). \<not> is_empty y \<longrightarrow> in_i32 (count (item y))"
    using ok cnt set_update_subset_insert [of slots i x] by (auto simp: slots_ok_def)
  ultimately show ?thesis
    using ok by (simp add: slots_ok_def)
qed

lemma slots_ok_fresh:
  "slots_ok (map (\<lambda>i. \<lparr>slot_index = int i, item = no_item, is_empty = True\<rparr>) [0..<nat BASE_BAG_SIZE])"
  by (auto simp: slots_ok_def indexed_def one_per_config_def BASE_BAG_SIZE_def MAX_BAG_SIZE_def)

lemma upd_first_nth:
  "List.find p xs = Some x \<Longrightarrow> \<exists>i<length xs. xs ! i = x \<and> upd_first p f xs = xs[i := f x]"
proof (induction xs)
  case Nil
  then show ?case by simp
next
  case (Cons y ys)
  show ?case
  proof (cases "p y")
    case True
    with Cons.prems show ?thesis by (intro exI [of _ 0]) simp
  next
    case False
    with Cons obtain i where "i < length ys \<and> ys ! i = x \<and> upd_first p f ys = ys[i := f x]"
      by auto
    with False show ?thesis by (intro exI [of _ "Suc i"]) simp
  qed
qed

lemma slots_ok_stack:
  assumes ok: "slots_ok slots" and i: "i < length slots" and ne: "\<not> is_empty (slots ! i)"
    and c: "in_i32 c"
  shows "slots_ok (slots[i := (slots ! i)\<lparr>item := (item (slots ! i))\<lparr>count := c\<rparr>\<rparr>])"
  using ok i ne c
  by (intro slots_ok_update) (auto simp: slots_ok_def indexed_def one_per_config_def)

lemma slots_ok_take:
  assumes ok: "slots_ok slots" and i: "i < length slots" and ne: "\<not> is_empty (slots ! i)"
    and c: "in_i32 (count (item (slots ! i)) - c)"
  shows "slots_ok (slots[i := take_from_slot c (slots ! i)])"
  using ok i ne c
  by (intro slots_ok_update)
    (auto simp: slots_ok_def indexed_def one_per_config_def take_from_slot_def split: if_splits)

lemma slots_ok_clear:
  assumes ok: "slots_ok slots" and i: "i < length slots"
  shows "slots_ok (slots[i := (slots ! i)\<lparr>is_empty := True, slot_index := int i, item := no_item\<rparr>])"
  using ok i by (intro slots_ok_update) auto

lemma slots_ok_swap:
  assumes ok: "slots_ok slots" and i: "i < length slots" and j: "j < length slots"
  shows "slots_ok (slots[i := (slots ! j)\<lparr>slot_index := int i\<rparr>, j := (slots ! i)\<lparr>slot_index := int j\<rparr>])"
    (is "slots_ok ?t")
proof -
  let ?p = "\<lambda>k. if k = j then i else if k = i then j else k"
  have nth: "?t ! k = (slots ! ?p k)\<lparr>slot_index := int k\<rparr>" if "k < length slots" for k
    using ok i j that by (auto simp: nth_list_update slots_ok_def indexed_def)
  have inj: "?p k = ?p l \<Longrightarrow> k = l" for k l by (auto split: if_splits)
  have "one_per_config ?t"
    unfolding one_per_config_def
  proof (intro allI impI)
    fix k l
    assume kl: "k < length ?t" "l < length ?t" "\<not> is_empty (?t ! k)" "\<not> is_empty (?t ! l)"
      "item_config_id (item (?t ! k)) = item_config_id (item (?t ! l))"
    then have "?p k < length slots" "?p l < length slots" using i j by auto
    moreover have "\<not> is_empty (slots ! ?p k)" "\<not> is_empty (slots ! ?p l)"
      "item_config_id (item (slots ! ?p k)) = item_config_id (item (slots ! ?p l))"
      using kl nth [of k] nth [of l] by simp_all
    moreover have "one_per_config slots" using ok by (simp add: slots_ok_def)
    ultimately have "?p k = ?p l" by (intro one_per_configD)
    then show "k = l" by (rule inj)
  qed
  moreover have "indexed ?t" using nth by (auto simp: indexed_def)
  moreover have "\<forall>x\<in>set ?t. \<not> is_empty x \<longrightarrow> in_i32 (count (item x))"
  proof
    fix x
    assume "x \<in> set ?t"
    then obtain k where k: "k < length slots" "x = ?t ! k" by (auto simp: in_set_conv_nth)
    then have "?p k < length slots" using i j by auto
    with k nth [OF k(1)] ok show "\<not> is_empty x \<longrightarrow> in_i32 (count (item x))"
      by (auto simp: slots_ok_def)
  qed
  ultimately show ?thesis using ok by (simp add: slots_ok_def)
qed

section \<open>What a bag holds\<close>

definition slot_count :: "i32 \<Rightarrow> BagSlot \<Rightarrow> int" where
  "slot_count cfg x = (if \<not> is_empty x \<and> item_config_id (item x) = cfg then count (item x) else 0)"

definition held_count :: "BagSlot list \<Rightarrow> i32 \<Rightarrow> int" where
  "held_count slots cfg = sum_list (map (slot_count cfg) slots)"

definition bag_total :: "BagModule \<Rightarrow> u64 \<Rightarrow> i32 \<Rightarrow> int" where
  "bag_total s r cfg =
     (case map_of (bag_cache s) r of None \<Rightarrow> 0 | Some slots \<Rightarrow> held_count slots cfg)"

lemma sum_list_map_update:
  "i < length xs \<Longrightarrow> sum_list (map f (xs[i := y])) = sum_list (map f xs) - f (xs ! i) + (f y :: int)"
  by (induction xs arbitrary: i) (auto split: nat.split)

lemma held_count_update:
  "i < length xs \<Longrightarrow>
   held_count (xs[i := y]) c = held_count xs c - slot_count c (xs ! i) + slot_count c y"
  by (simp add: held_count_def sum_list_map_update)

lemma held_count_none:
  "\<forall>x\<in>set xs. \<not> is_empty x \<longrightarrow> item_config_id (item x) \<noteq> c \<Longrightarrow> held_count xs c = 0"
  by (induction xs) (auto simp: held_count_def slot_count_def)

lemma held_count_one:
  assumes u: "one_per_config xs" and i: "i < length xs" and ne: "\<not> is_empty (xs ! i)"
    and c: "item_config_id (item (xs ! i)) = c"
  shows "held_count xs c = count (item (xs ! i))"
proof -
  let ?e = "(xs ! i)\<lparr>is_empty := True\<rparr>"
  have "held_count (xs[i := ?e]) c = 0"
  proof (rule held_count_none, intro ballI impI)
    fix x
    assume x: "x \<in> set (xs[i := ?e])" "\<not> is_empty x"
    then obtain k where k: "k < length xs" "x = xs[i := ?e] ! k"
      by (auto simp: in_set_conv_nth)
    with x i have "k \<noteq> i" by auto
    with k x u i ne c show "item_config_id (item x) \<noteq> c"
      using one_per_configD [of xs i k] by auto
  qed
  with i ne c show ?thesis by (simp add: held_count_update slot_count_def)
qed

text \<open>With one slot for each configuration the 32-bit sum of \<^verbatim>\<open>GetItemCount\<close> cannot overflow.\<close>

lemma sum_counts_none:
  "\<forall>x\<in>set xs. \<not> is_empty x \<longrightarrow> item_config_id (item x) \<noteq> c \<Longrightarrow> sum_counts c a xs = Ret a"
  by (induction xs) auto

lemma one_per_config_tl:
  assumes "one_per_config (x # xs)"
  shows "one_per_config xs"
  unfolding one_per_config_def
proof (intro allI impI)
  fix i j
  assume "i < length xs" "j < length xs" "\<not> is_empty (xs ! i)" "\<not> is_empty (xs ! j)"
    "item_config_id (item (xs ! i)) = item_config_id (item (xs ! j))"
  then have "Suc i = Suc j" by (intro one_per_configD [OF assms]) auto
  then show "i = j" by simp
qed

lemma one_per_config_hd:
  assumes "one_per_config (x # xs)" and "\<not> is_empty x" and "y \<in> set xs" and "\<not> is_empty y"
  shows "item_config_id (item y) \<noteq> item_config_id (item x)"
proof
  assume eq: "item_config_id (item y) = item_config_id (item x)"
  from assms(3) obtain k where k: "k < length xs" "y = xs ! k" by (auto simp: in_set_conv_nth)
  with assms eq have "0 = Suc k" by (intro one_per_configD [OF assms(1)]) auto
  then show False by simp
qed

lemma sum_counts_held:
  "one_per_config xs \<Longrightarrow> \<forall>x\<in>set xs. \<not> is_empty x \<longrightarrow> in_i32 (count (item x)) \<Longrightarrow>
   sum_counts c 0 xs = Ret (held_count xs c)"
proof (induction xs)
  case Nil
  then show ?case by (simp add: held_count_def)
next
  case (Cons x xs)
  show ?case
  proof (cases "\<not> is_empty x \<and> item_config_id (item x) = c")
    case True
    with Cons.prems(1) have "\<forall>y\<in>set xs. \<not> is_empty y \<longrightarrow> item_config_id (item y) \<noteq> c"
      using one_per_config_hd by metis
    with True Cons.prems(2) show ?thesis
      using held_count_none [of xs c] sum_counts_none [of xs c]
      by (simp add: add32_def held_count_def slot_count_def)
  next
    case False
    with Cons one_per_config_tl [OF Cons.prems(1)] show ?thesis
      by (auto simp: held_count_def slot_count_def)
  qed
qed

lemma GetItemCount_total:
  assumes "bag_inv s" and "map_of (bag_cache s) r = Some slots"
  shows "GetItemCount r c (idle s) = Ret (Some (bag_total s r c), idle s)"
  using assms bag_inv_slots [OF assms]
  by (simp add: GetItemCount_def sum_counts_held slots_ok_def bag_total_def)

section \<open>One step of each operation\<close>

text \<open>
  Every operation for a role either leaves the bags alone or replaces the role's bag by one that
  is in order whenever the bags were.
\<close>

definition bag_step :: "u64 \<Rightarrow> BagModule \<Rightarrow> BagModule \<Rightarrow> bool" where
  "bag_step role s s' \<longleftrightarrow> bag_cache s' = bag_cache s \<or>
     (\<exists>slots'. bag_cache s' = AList.update role slots' (bag_cache s) \<and> (bag_inv s \<longrightarrow> slots_ok slots'))"

lemma bag_step_refl [simp]: "bag_step role s s"
  by (simp add: bag_step_def)

lemma bag_step_put:
  "(bag_inv s \<Longrightarrow> slots_ok slots') \<Longrightarrow>
   bag_cache s' = AList.update role slots' (bag_cache s) \<Longrightarrow> bag_step role s s'"
  by (auto simp: bag_step_def)

lemma bag_step_inv: "bag_step role s s' \<Longrightarrow> bag_inv s \<Longrightarrow> bag_inv s'"
  by (auto simp: bag_step_def bag_inv_def intro: all_vals_update)

lemma bag_step_frame: "bag_step role s s' \<Longrightarrow> r \<noteq> role \<Longrightarrow> map_of (bag_cache s') r = map_of (bag_cache s) r"
  by (auto simp: bag_step_def)

lemma InitBag_step: "InitBag role (idle s) = Ret (r, idle s') \<Longrightarrow> bag_step role s s'"
  by (auto simp: InitBag_def split: option.splits intro!: bag_step_put intro: slots_ok_fresh)

lemma FindStackableSlot_ok:
  assumes "slots_ok slots" and "map_of (bag_cache s) role = Some slots"
    and "FindStackableSlot s role cfg = k" and "k \<ge> 0"
  shows "nat k < length slots \<and> slot_index (slots ! nat k) = k \<and> \<not> is_empty (slots ! nat k) \<and>
         item_config_id (item (slots ! nat k)) = cfg"
  using assms
  by (auto simp: FindStackableSlot_def slots_ok_def split: option.splits elim!: indexed_find)

lemma FindStackableSlot_none:
  assumes "slots_ok slots" and "map_of (bag_cache s) role = Some slots"
    and "\<not> FindStackableSlot s role cfg \<ge> 0" and "x \<in> set slots" and "\<not> is_empty x"
  shows "item_config_id (item x) \<noteq> cfg"
  using assms
  by (fastforce simp: FindStackableSlot_def slots_ok_def find_None_all split: option.splits
      elim!: indexed_find)

lemma FindEmptySlot_ok:
  assumes "slots_ok slots" and "map_of (bag_cache s) role = Some slots"
    and "FindEmptySlot s role = k" and "\<not> k < 0"
  shows "nat k < length slots \<and> slot_index (slots ! nat k) = k \<and> is_empty (slots ! nat k)"
  using assms
  by (auto simp: FindEmptySlot_def slots_ok_def split: option.splits elim!: indexed_find)

lemma FindEmptySlot_none:
  assumes "slots_ok slots" and "map_of (bag_cache s) role = Some slots"
    and "FindEmptySlot s role < 0" and "x \<in> set slots"
  shows "\<not> is_empty x"
  using assms
  by (fastforce simp: FindEmptySlot_def slots_ok_def find_None_all split: option.splits
      elim!: indexed_find)

lemma GenerateItemId_cache [simp]:
  "GenerateItemId now rnd s = (i, s1) \<Longrightarrow> bag_cache s1 = bag_cache s"
  by (auto simp: GenerateItemId_def split: prod.splits)

lemma AddItem_step:
  assumes "AddItem now rnd role cfg (to_i32 cnt) qual (idle s) = Ret (r, idle s')"
  shows "bag_step role s s'"
proof (cases "map_of (bag_cache s) role")
  case None
  with assms show ?thesis by (auto simp: AddItem_def)
next
  case (Some slots)
  let ?k = "FindStackableSlot s role cfg" and ?e = "FindEmptySlot s role"
  note body = assms [unfolded AddItem_def guarded_idle_Ret, simplified Some, simplified]
  show ?thesis
  proof (cases "?k \<ge> 0")
    case True
    with body have k: "nat ?k < length slots" and
      s': "in_i32 (count (item (slots ! nat ?k)) + to_i32 cnt)"
        "s' = s\<lparr>bag_cache := AList.update role (slots[nat ?k := (slots ! nat ?k)
           \<lparr>item := (item (slots ! nat ?k))\<lparr>count := count (item (slots ! nat ?k)) + to_i32 cnt\<rparr>\<rparr>])
           (bag_cache s)\<rparr>"
      by (auto simp: Let_def)
    show ?thesis
    proof (rule bag_step_put)
      assume "bag_inv s"
      then have ok: "slots_ok slots" using Some by (rule bag_inv_slots)
      with FindStackableSlot_ok [OF ok Some refl True] k s'(1)
      show "slots_ok (slots[nat ?k := (slots ! nat ?k)
           \<lparr>item := (item (slots ! nat ?k))\<lparr>count := count (item (slots ! nat ?k)) + to_i32 cnt\<rparr>\<rparr>])"
        by (intro slots_ok_stack) auto
    qed (use s' in simp)
  next
    case False
    show ?thesis
    proof (cases "?e < 0")
      case True
      with False body show ?thesis by (auto simp: Let_def)
    next
      case nonneg: False
      define x where "x = slots ! nat ?e"
      obtain i s1 where gen: "GenerateItemId now rnd s = (i, s1)" by fastforce
      define it where "it = (item x)\<lparr>item_id := i, item_config_id := cfg, count := to_i32 cnt,
                          quality := qual, level := 1, bind_type := 0, expire_time := 0\<rparr>"
      from False nonneg body gen have e: "nat ?e < length slots" and
        s': "bag_cache s' = AList.update role (slots[nat ?e := x\<lparr>is_empty := False, item := it\<rparr>])
               (bag_cache s)"
        by (auto simp: Let_def x_def it_def)
      show ?thesis
      proof (rule bag_step_put [OF _ s'])
        assume "bag_inv s"
        then have ok: "slots_ok slots" using Some by (rule bag_inv_slots)
        show "slots_ok (slots[nat ?e := x\<lparr>is_empty := False, item := it\<rparr>])"
        proof (rule slots_ok_update [OF ok e])
          show "slot_index (x\<lparr>is_empty := False, item := it\<rparr>) = int (nat ?e)"
            using FindEmptySlot_ok [OF ok Some refl nonneg] nonneg by (simp add: x_def)
        next
          fix j
          assume "j < length slots" "\<not> is_empty (slots ! j)"
          then show "item_config_id (item (slots ! j)) \<noteq>
                item_config_id (item (x\<lparr>is_empty := False, item := it\<rparr>))"
            using FindStackableSlot_none [OF ok Some False] by (simp add: it_def)
        qed (simp add: it_def)
      qed
    qed
  qed
qed

lemma RemoveItem_step:
  assumes "RemoveItem role iid cnt (idle s) = Ret (r, idle s')"
  shows "bag_step role s s'"
proof (cases "map_of (bag_cache s) role")
  case None
  with assms show ?thesis by (auto simp: RemoveItem_def)
next
  case (Some slots)
  let ?here = "\<lambda>x. \<not> is_empty x \<and> item_id (item x) = iid"
  show ?thesis
  proof (cases "List.find ?here slots")
    case None
    with Some assms show ?thesis by (auto simp: RemoveItem_def)
  next
    case f: (Some x)
    from upd_first_nth [OF f, of "take_from_slot cnt"] obtain i where
      i: "i < length slots" "slots ! i = x"
        "upd_first ?here (take_from_slot cnt) slots = slots[i := take_from_slot cnt x]" by blast
    show ?thesis
    proof (cases "count (item x) < cnt")
      case True
      with f Some assms show ?thesis by (auto simp: RemoveItem_def)
    next
      case False
      with f Some assms i have inr: "in_i32 (count (item x) - cnt)" and
        s': "bag_cache s' = AList.update role (slots[i := take_from_slot cnt x]) (bag_cache s)"
        by (auto simp: RemoveItem_def)
      show ?thesis
      proof (rule bag_step_put [OF _ s'])
        assume "bag_inv s"
        then have "slots_ok slots" using Some by (rule bag_inv_slots)
        moreover have "\<not> is_empty x" using find_Some_mem [OF f] by simp
        ultimately show "slots_ok (slots[i := take_from_slot cnt x])"
          using slots_ok_take [of slots i cnt] i inr by simp
      qed
    qed
  qed
qed

lemma slots_ok_move:
  assumes ok: "slots_ok slots" and i: "i < length slots" and j: "j < length slots" and ij: "i \<noteq> j"
    and e: "is_empty (slots ! j)"
  shows "slots_ok (slots[j := (slots ! i)\<lparr>slot_index := int j\<rparr>,
           i := (slots ! i)\<lparr>is_empty := True, slot_index := int i, item := no_item\<rparr>])"
proof -
  let ?cleared = "(slots ! i)\<lparr>is_empty := True, slot_index := int i, item := no_item\<rparr>"
  have ok1: "slots_ok (slots[i := ?cleared])" by (rule slots_ok_clear [OF ok i])
  have "slots_ok ((slots[i := ?cleared])[j := (slots ! i)\<lparr>slot_index := int j\<rparr>])"
  proof (rule slots_ok_update [OF ok1])
    fix k
    assume "\<not> is_empty ((slots ! i)\<lparr>slot_index := int j\<rparr>)" "k < length (slots[i := ?cleared])"
      "k \<noteq> j" "\<not> is_empty (slots[i := ?cleared] ! k)"
    moreover from this have "k \<noteq> i" using i by auto
    ultimately show "item_config_id (item (slots[i := ?cleared] ! k)) \<noteq>
        item_config_id (item ((slots ! i)\<lparr>slot_index := int j\<rparr>))"
      using ok i one_per_configD [of slots i k] by (auto simp: slots_ok_def)
  qed (use ok i j in \<open>auto simp: slots_ok_def\<close>)
  then show ?thesis using ij by (simp add: list_update_swap)
qed

lemma MoveItem_step:
  assumes "MoveItem role from to (idle s) = Ret (r, idle s')"
  shows "bag_step role s s'"
proof (cases "bag_cache s' = bag_cache s")
  case True
  then show ?thesis by (simp add: bag_step_def)
next
  case False
  with assms obtain slots where slots: "map_of (bag_cache s) role = Some slots"
    and idx: "\<not> bad_index slots from" "\<not> bad_index slots to" "from \<noteq> to"
    and e: "is_empty (slots ! nat to)"
    and s': "bag_cache s' = AList.update role (slots[nat to := (slots ! nat from)\<lparr>slot_index := to\<rparr>,
        nat from := (slots ! nat from)\<lparr>is_empty := True, slot_index := from, item := no_item\<rparr>])
        (bag_cache s)"
    by (auto simp: MoveItem_def Let_def bad_index_def split: option.splits if_splits)
  show ?thesis
  proof (rule bag_step_put [OF _ s'])
    assume "bag_inv s"
    then have "slots_ok slots" using slots by (rule bag_inv_slots)
    from slots_ok_move [OF this, of "nat from" "nat to"] idx e
    show "slots_ok (slots[nat to := (slots ! nat from)\<lparr>slot_index := to\<rparr>,
        nat from := (slots ! nat from)\<lparr>is_empty := True, slot_index := from, item := no_item\<rparr>])"
      by (auto simp: bad_index_def)
  qed
qed

lemma SwapItem_step:
  assumes "SwapItem role i j (idle s) = Ret (r, idle s')"
  shows "bag_step role s s'"
proof (cases "bag_cache s' = bag_cache s")
  case True
  then show ?thesis by (simp add: bag_step_def)
next
  case False
  with assms obtain slots where slots: "map_of (bag_cache s) role = Some slots"
    and idx: "\<not> bad_index slots i" "\<not> bad_index slots j"
    and s': "bag_cache s' = AList.update role (slots[nat i := (slots ! nat j)\<lparr>slot_index := i\<rparr>,
        nat j := (slots ! nat i)\<lparr>slot_index := j\<rparr>]) (bag_cache s)"
    by (auto simp: SwapItem_def Let_def bad_index_def split: option.splits if_splits)
  show ?thesis
  proof (rule bag_step_put [OF _ s'])
    assume "bag_inv s"
    then have "slots_ok slots" using slots by (rule bag_inv_slots)
    from slots_ok_swap [OF this, of "nat i" "nat j"] idx
    show "slots_ok (slots[nat i := (slots ! nat j)\<lparr>slot_index := i\<rparr>,
        nat j := (slots ! nat i)\<lparr>slot_index := j\<rparr>])"
      by (auto simp: bad_index_def)
  qed
qed

lemma slots_ok_append_empty:
  assumes ok: "slots_ok slots" and n: "int n \<le> MAX_BAG_SIZE" and le: "length slots \<le> n"
    and e: "\<And>i. is_empty (f i) \<and> slot_index (f i) = int i"
  shows "slots_ok (slots @ map f [length slots..<n])"
proof -
  have "indexed (slots @ map f [length slots..<n])"
    using ok e by (auto simp: slots_ok_def indexed_def nth_append)
  moreover have "one_per_config (slots @ map f [length slots..<n])"
    using ok e unfolding one_per_config_def slots_ok_def by (auto simp: nth_append)
  ultimately show ?thesis using ok n le e by (auto simp: slots_ok_def)
qed

lemma ExpandBag_step:
  assumes "ExpandBag junk role n (idle s) = Ret (r, idle s')"
  shows "bag_step role s s'"
proof (cases "bag_cache s' = bag_cache s")
  case True
  then show ?thesis by (simp add: bag_step_def)
next
  case False
  let ?f = "\<lambda>i. \<lparr>slot_index = int i, item = (junk i)\<lparr>extra_data := []\<rparr>, is_empty = True\<rparr>"
  from False assms obtain slots where slots: "map_of (bag_cache s) role = Some slots"
    and size: "int (length slots) + n \<le> MAX_BAG_SIZE"
    and s': "bag_cache s' =
      AList.update role (slots @ map ?f [length slots..<nat (int (length slots) + n)]) (bag_cache s)"
    by (auto simp: ExpandBag_def Let_def split: option.splits if_splits)
  show ?thesis
  proof (rule bag_step_put [OF _ s'])
    assume "bag_inv s"
    then have ok: "slots_ok slots" using slots by (rule bag_inv_slots)
    show "slots_ok (slots @ map ?f [length slots..<nat (int (length slots) + n)])"
    proof (cases "0 \<le> n")
      case True
      with size ok show ?thesis
        by (intro slots_ok_append_empty) auto
    next
      case False
      with ok show ?thesis by simp
    qed
  qed
qed

lemma guarded_query_state:
  "guarded (\<lambda>s. bindO (g s) (\<lambda>x. Ret (h s x, s))) (idle s) = Ret (r, m') \<Longrightarrow> m' = idle s"
  by (auto split: prod.splits)

section \<open>The bag module as a machine\<close>

text \<open>
  One command for each public method. An integer argument stands for the \<^verbatim>\<open>int32_t\<close> the call
  passes.
\<close>

datatype bag_cmd =
    CInitBag u64
  | CGetBag u64
  | CGetBagSlot u64 int
  | CAddItem time_t int u64 int int int
  | CRemoveItem u64 u64 int
  | CUseItem u64 u64 int
  | CDropItem u64 u64 int
  | CMoveItem u64 int int
  | CSwapItem u64 int int
  | CGetItemCount u64 int
  | CHasItem u64 int int
  | CExpandBag "nat \<Rightarrow> ItemInfo" u64 int
  | CLoadBagData u64
  | CSaveBagData u64

fun bag_exec :: "bag_cmd \<Rightarrow> (BagModule, bool) oper" where
  "bag_exec (CInitBag r) = InitBag r"
| "bag_exec (CGetBag r) = succeeded (GetBag r)"
| "bag_exec (CGetBagSlot r i) = succeeded (GetBagSlot r (to_i32 i))"
| "bag_exec (CAddItem now rnd r c n q) = AddItem now rnd r (to_i32 c) (to_i32 n) (to_i32 q)"
| "bag_exec (CRemoveItem r i n) = RemoveItem r i (to_i32 n)"
| "bag_exec (CUseItem r i n) = UseItem r i (to_i32 n)"
| "bag_exec (CDropItem r i n) = DropItem r i (to_i32 n)"
| "bag_exec (CMoveItem r i j) = MoveItem r (to_i32 i) (to_i32 j)"
| "bag_exec (CSwapItem r i j) = SwapItem r (to_i32 i) (to_i32 j)"
| "bag_exec (CGetItemCount r c) = succeeded (GetItemCount r (to_i32 c))"
| "bag_exec (CHasItem r c n) = HasItem r (to_i32 c) (to_i32 n)"
| "bag_exec (CExpandBag junk r n) = ExpandBag junk r (to_i32 n)"
| "bag_exec (CLoadBagData r) = LoadBagData r"
| "bag_exec (CSaveBagData r) = SaveBagData r"

fun bag_owner :: "bag_cmd \<Rightarrow> u64" where
  "bag_owner (CInitBag r) = r"
| "bag_owner (CGetBag r) = r"
| "bag_owner (CGetBagSlot r i) = r"
| "bag_owner (CAddItem now rnd r c n q) = r"
| "bag_owner (CRemoveItem r i n) = r"
| "bag_owner (CUseItem r i n) = r"
| "bag_owner (CDropItem r i n) = r"
| "bag_owner (CMoveItem r i j) = r"
| "bag_owner (CSwapItem r i j) = r"
| "bag_owner (CGetItemCount r c) = r"
| "bag_owner (CHasItem r c n) = r"
| "bag_owner (CExpandBag junk r n) = r"
| "bag_owner (CLoadBagData r) = r"
| "bag_owner (CSaveBagData r) = r"

lemma bag_step_trans:
  assumes "bag_step role s s1" and "bag_step role s1 s2"
  shows "bag_step role s s2"
proof (cases "bag_cache s2 = bag_cache s1")
  case True
  with assms(1) show ?thesis by (auto simp: bag_step_def)
next
  case False
  with assms(2) obtain slots' where
    "bag_cache s2 = AList.update role slots' (bag_cache s1)" "bag_inv s1 \<longrightarrow> slots_ok slots'"
    by (auto simp: bag_step_def)
  moreover have "bag_inv s \<longrightarrow> bag_inv s1" using assms(1) bag_step_inv by blast
  ultimately show ?thesis using assms(1) by (auto simp: bag_step_def)
qed

lemma GetItemCount_steps: "steps_by (bag_step role) (GetItemCount role c)"
  by (auto simp: GetItemCount_def steps_by_def split: option.splits)

lemma RemoveItem_steps: "steps_by (bag_step role) (RemoveItem role i n)"
  using RemoveItem_step by (fastforce simp: steps_by_def RemoveItem_def)

lemma UseItem_steps:
  "steps_by (bag_step role) (UseItem role i n)" "steps_by (bag_step role) (DropItem role i n)"
  unfolding UseItem_def DropItem_def
  by (intro steps_by_bindM GetItemCount_steps; auto intro: bag_step_trans
      intro!: steps_by_bindM RemoveItem_steps steps_by_retM split: option.split)+

lemma bag_exec_steps: "steps_by (bag_step (bag_owner c)) (bag_exec c)"
proof (cases c)
  case (CInitBag r)
  then show ?thesis
    using InitBag_step by (fastforce simp: steps_by_def InitBag_def)
next
  case (CGetBag r)
  then show ?thesis
    by (auto simp: GetBag_def intro!: steps_by_succeeded steps_by_guarded)
next
  case (CGetBagSlot r i)
  then show ?thesis
    by (auto simp: GetBagSlot_def intro!: steps_by_succeeded steps_by_guarded
        split: option.splits if_splits)
next
  case (CAddItem now rnd r c n q)
  then show ?thesis
    using AddItem_step by (fastforce simp: steps_by_def AddItem_def)
next
  case (CRemoveItem r i n)
  then show ?thesis by (simp add: RemoveItem_steps)
next
  case (CUseItem r i n)
  then show ?thesis by (simp add: UseItem_steps)
next
  case (CDropItem r i n)
  then show ?thesis by (simp add: UseItem_steps)
next
  case (CMoveItem r i j)
  then show ?thesis
    using MoveItem_step by (fastforce simp: steps_by_def MoveItem_def)
next
  case (CSwapItem r i j)
  then show ?thesis
    using SwapItem_step by (fastforce simp: steps_by_def SwapItem_def)
next
  case (CGetItemCount r c)
  then show ?thesis by (simp add: GetItemCount_steps steps_by_succeeded)
next
  case (CHasItem r c n)
  then show ?thesis
    by (auto simp: HasItem_def intro!: steps_by_bindM GetItemCount_steps steps_by_retM
        intro: bag_step_trans)
next
  case (CExpandBag junk r n)
  then show ?thesis
    using ExpandBag_step by (fastforce simp: steps_by_def ExpandBag_def)
next
  case (CLoadBagData r)
  have "steps_by (bag_step r) (InitBag r)"
    using InitBag_step by (fastforce simp: steps_by_def InitBag_def)
  with CLoadBagData show ?thesis
    by (auto simp: LoadBagData_def intro!: steps_by_bindM steps_by_retM intro: bag_step_trans)
next
  case (CSaveBagData r)
  then show ?thesis by (auto simp: SaveBagData_def intro!: steps_by_guarded)
qed

lemma sum_counts_live: "sum_counts c a xs \<noteq> Fault Relock"
  by (induction xs arbitrary: a) (auto simp: bindO_eq_Fault)

lemma bag_ops_live:
  "never_relocks (InitBag r)" "never_relocks (GetBag r)" "never_relocks (GetBagSlot r i)"
  "never_relocks (AddItem now rnd r c n q)" "never_relocks (RemoveItem r i' n)"
  "never_relocks (GetItemCount r c)" "never_relocks (MoveItem r i j)"
  "never_relocks (SwapItem r i j)" "never_relocks (ExpandBag junk r n)"
  "never_relocks (SaveBagData r)"
  by (auto simp: InitBag_def GetBag_def GetBagSlot_def AddItem_def RemoveItem_def GetItemCount_def
      MoveItem_def SwapItem_def ExpandBag_def SaveBagData_def never_relocks_guarded Let_def
      bindO_eq_Fault sum_counts_live split: option.splits prod.splits if_splits)

lemma bag_exec_live: "never_relocks (bag_exec c)"
proof -
  have "steps_by (bag_step r) (InitBag r)" for r
    using bag_exec_steps [of "CInitBag r"] by simp
  then show ?thesis
    by (cases c)
      (auto simp: bag_ops_live UseItem_def DropItem_def HasItem_def LoadBagData_def
        intro!: stepping never_relocks_bindM GetItemCount_steps RemoveItem_steps split: option.split)
qed

interpretation bag: isolated_machine bag_exec bag_inv "\<lambda>c r. bag_owner c = r"
  "\<lambda>s r. map_of (bag_cache s) r"
proof unfold_locales
  show "bag_exec c (idle s) = Ret (r, m') \<Longrightarrow> \<exists>s'. m' = idle s'" for c s r m'
    using steps_byD [OF bag_exec_steps] by blast
  show "bag_exec c (idle s) = Ret (r, idle s') \<Longrightarrow> bag_inv s \<Longrightarrow> bag_inv s'" for c s r s'
    using steps_byD [OF bag_exec_steps] bag_step_inv by fastforce
  show "bag_exec c (idle s) = Ret (r, idle s') \<Longrightarrow> \<not> bag_owner c = k \<Longrightarrow>
      map_of (bag_cache s') k = map_of (bag_cache s) k" for c s r s' k
    using steps_byD [OF bag_exec_steps] bag_step_frame by fastforce
qed

interpretation bag_live: live_machine bag_exec bag_inv
  by unfold_locales (use bag_exec_live in \<open>auto simp: never_relocks_def\<close>)

lemma bag_inv_init: "bag_inv bag_init"
  by (simp add: bag_inv_def bag_init_def)

section \<open>What the operations do to the contents\<close>

definition has_room :: "BagModule \<Rightarrow> u64 \<Rightarrow> i32 \<Rightarrow> bool" where
  "has_room s role cfg \<longleftrightarrow>
     (case map_of (bag_cache s) role of
        None \<Rightarrow> False
      | Some slots \<Rightarrow> list_ex (\<lambda>x. is_empty x \<or> item_config_id (item x) = cfg) slots)"

lemma bag_total_update:
  "map_of (bag_cache s) role = Some slots \<Longrightarrow>
   bag_cache s' = AList.update role slots' (bag_cache s) \<Longrightarrow>
   bag_total s' r c = (if r = role then bag_total s r c - held_count slots c + held_count slots' c
                       else bag_total s r c)"
  by (simp add: bag_total_def)

lemma bag_total_cong: "bag_cache s' = bag_cache s \<Longrightarrow> bag_total s' r c = bag_total s r c"
  by (simp add: bag_total_def)

lemma AddItem_stack_total:
  assumes "map_of (bag_cache s) role = Some slots" and "k < length slots" and "\<not> is_empty (slots ! k)"
    and "item_config_id (item (slots ! k)) = cfg"
    and "bag_cache s' = AList.update role (slots[k := (slots ! k)
           \<lparr>item := (item (slots ! k))\<lparr>count := count (item (slots ! k)) + n\<rparr>\<rparr>]) (bag_cache s)"
  shows "bag_total s' r c = bag_total s r c + (if r = role \<and> c = cfg then n else 0)"
  using assms(2-4)
  by (auto simp: bag_total_update [OF assms(1,5)] held_count_update slot_count_def)

lemma AddItem_new_total:
  assumes "map_of (bag_cache s) role = Some slots" and "k < length slots" and "is_empty (slots ! k)"
    and "item_config_id it = cfg" and "count it = n"
    and "bag_cache s' = AList.update role (slots[k := (slots ! k)\<lparr>is_empty := False, item := it\<rparr>])
           (bag_cache s)"
  shows "bag_total s' r c = bag_total s r c + (if r = role \<and> c = cfg then n else 0)"
  using assms(2-5)
  by (auto simp: bag_total_update [OF assms(1,6)] held_count_update slot_count_def)

text \<open>
  C22. Adding items: with the bag in order, the call succeeds exactly when the role has a bag with
  a stack of the configuration or an empty slot; on success the bag holds exactly \<open>n\<close> more of
  this configuration, nothing else changes anywhere, and on failure nothing changes at all.
\<close>

theorem AddItem_adds:
  assumes inv: "bag_inv s" and ret: "AddItem now rnd role cfg n q (idle s) = Ret (ok, m')"
  shows "(ok \<longleftrightarrow> has_room s role cfg) \<and>
    (\<exists>s'. m' = idle s' \<and> (\<not> ok \<longrightarrow> s' = s) \<and>
      (\<forall>r c. bag_total s' r c = bag_total s r c + (if ok \<and> r = role \<and> c = cfg then n else 0)))"
proof (cases "map_of (bag_cache s) role")
  case None
  with ret show ?thesis by (auto simp: AddItem_def has_room_def)
next
  case (Some slots)
  have so: "slots_ok slots" using inv Some by (rule bag_inv_slots)
  let ?k = "FindStackableSlot s role cfg" and ?e = "FindEmptySlot s role"
  note body = ret [unfolded AddItem_def guarded_idle_Ret, simplified Some, simplified]
  show ?thesis
  proof (cases "?k \<ge> 0")
    case True
    note k = FindStackableSlot_ok [OF so Some refl True]
    then have "has_room s role cfg"
      using nth_mem [of "nat ?k" slots] by (auto simp: has_room_def Some list_ex_iff)
    moreover from True body obtain s' where ok: "ok" "m' = idle s'"
      and s': "bag_cache s' = AList.update role (slots[nat ?k := (slots ! nat ?k)
          \<lparr>item := (item (slots ! nat ?k))\<lparr>count := count (item (slots ! nat ?k)) + n\<rparr>\<rparr>])
          (bag_cache s)"
      by (auto simp: Let_def)
    moreover have "bag_total s' r c = bag_total s r c + (if r = role \<and> c = cfg then n else 0)" for r c
      using k by (intro AddItem_stack_total [OF Some _ _ _ s']) auto
    ultimately show ?thesis by auto
  next
    case False
    note none = FindStackableSlot_none [OF so Some False]
    show ?thesis
    proof (cases "?e < 0")
      case True
      with none FindEmptySlot_none [OF so Some True] have "\<not> has_room s role cfg"
        by (auto simp: has_room_def Some list_ex_iff)
      with False True body show ?thesis by (auto simp: Let_def)
    next
      case nonneg: False
      note e = FindEmptySlot_ok [OF so Some refl nonneg]
      then have "has_room s role cfg"
        using nth_mem [of "nat ?e" slots] by (auto simp: has_room_def Some list_ex_iff)
      moreover obtain i s1 where gen: "GenerateItemId now rnd s = (i, s1)" by fastforce
      moreover define it where "it = (item (slots ! nat ?e))\<lparr>item_id := i, item_config_id := cfg,
          count := n, quality := q, level := 1, bind_type := 0, expire_time := 0\<rparr>"
      moreover from False nonneg body gen obtain s' where "ok" "m' = idle s'"
        and s': "bag_cache s' = AList.update role
            (slots[nat ?e := (slots ! nat ?e)\<lparr>is_empty := False, item := it\<rparr>]) (bag_cache s)"
        by (auto simp: Let_def it_def)
      moreover have "bag_total s' r c = bag_total s r c + (if r = role \<and> c = cfg then n else 0)" for r c
        using e by (intro AddItem_new_total [OF Some _ _ _ _ s']) (auto simp: it_def)
      ultimately show ?thesis by auto
    qed
  qed
qed

theorem AddItem_adds_witness:
  "\<exists>s m'. bag_inv s \<and> AddItem 1700000000 42 7 1001 5 1 (idle s) = Ret (True, m') \<and>
     has_room s 7 1001"
proof -
  let ?slot = "\<lparr>slot_index = 0, item = no_item, is_empty = True\<rparr>"
  let ?s = "\<lparr>bag_cache = [(7, [?slot])], next_item_id = None\<rparr>"
  have inv: "bag_inv ?s"
    by (simp add: bag_inv_def all_vals_def keys_ok_def slots_ok_def indexed_def one_per_config_def
        MAX_BAG_SIZE_def)
  have "\<exists>m'. AddItem 1700000000 42 7 1001 5 1 (idle ?s) = Ret (True, m')"
    by (rule exI, code_simp)
  then obtain m' where m': "AddItem 1700000000 42 7 1001 5 1 (idle ?s) = Ret (True, m')" ..
  from AddItem_adds [OF inv m'] inv m' show ?thesis by blast
qed

text \<open>
  Removing items: the call succeeds exactly when the bag has an item with this identifier and
  its stack holds at least \<open>n\<close>; then exactly \<open>n\<close> of that item's configuration are gone and
  nothing else changed. No condition on the sign of \<open>n\<close> is made: a negative \<open>n\<close> adds items.
\<close>

theorem RemoveItem_removes:
  assumes slots: "map_of (bag_cache s) role = Some slots"
    and found: "List.find (\<lambda>x. \<not> is_empty x \<and> item_id (item x) = iid) slots = Some x"
    and enough: "n \<le> count (item x)" and range: "in_i32 (count (item x) - n)"
  shows "\<exists>s'. RemoveItem role iid n (idle s) = Ret (True, idle s') \<and>
    (\<forall>r c. bag_total s' r c =
       bag_total s r c - (if r = role \<and> c = item_config_id (item x) then n else 0))"
proof -
  let ?here = "\<lambda>x. \<not> is_empty x \<and> item_id (item x) = iid"
  from upd_first_nth [OF found, of "take_from_slot n"] obtain i where i:
    "i < length slots" "slots ! i = x" "upd_first ?here (take_from_slot n) slots = slots[i := take_from_slot n x]"
    by blast
  have ne: "\<not> is_empty x" using find_Some_mem [OF found] by simp
  let ?s' = "s\<lparr>bag_cache := AList.update role (slots[i := take_from_slot n x]) (bag_cache s)\<rparr>"
  have "RemoveItem role iid n (idle s) = Ret (True, idle ?s')"
    using slots found enough range i by (simp add: RemoveItem_def sub32_def)
  moreover have "bag_total ?s' r c =
      bag_total s r c - (if r = role \<and> c = item_config_id (item x) then n else 0)" for r c
    using i ne
    by (auto simp: bag_total_update [OF slots] held_count_update slot_count_def take_from_slot_def)
  ultimately show ?thesis by blast
qed

theorem RemoveItem_removes_witness:
  "\<exists>s s'. bag_total s 7 1001 = 5 \<and> RemoveItem 7 9 3 (idle s) = Ret (True, idle s') \<and>
     bag_total s' 7 1001 = 2"
proof -
  let ?x = "\<lparr>slot_index = 0, item = no_item\<lparr>item_id := 9, item_config_id := 1001, count := 5\<rparr>,
    is_empty = False\<rparr>"
  let ?s = "\<lparr>bag_cache = [(7, [?x])], next_item_id = None\<rparr>"
  have "bag_total ?s 7 1001 = 5" by (simp add: bag_total_def held_count_def slot_count_def)
  with RemoveItem_removes [of ?s 7 "[?x]" 9 ?x 3] show ?thesis
    by (auto simp: in_i32_def no_item_def)
qed

lemma held_count_swap:
  assumes "i < length xs" and "j < length xs"
  shows "held_count (xs[i := (xs ! j)\<lparr>slot_index := a\<rparr>, j := (xs ! i)\<lparr>slot_index := b\<rparr>]) c = held_count xs c"
  using assms by (cases "i = j") (simp_all add: held_count_update slot_count_def)

lemma held_count_move:
  assumes "i < length xs" and "j < length xs" and "i \<noteq> j" and "is_empty (xs ! j)"
  shows "held_count (xs[j := (xs ! i)\<lparr>slot_index := a\<rparr>,
      i := (xs ! i)\<lparr>is_empty := True, slot_index := b, item := no_item\<rparr>]) c = held_count xs c"
  using assms by (simp add: held_count_update slot_count_def)

text \<open>
  Rearranging a bag loses and duplicates nothing: whatever \<^verbatim>\<open>MoveItem\<close> and \<^verbatim>\<open>SwapItem\<close>
  answer, on any state and for any slot numbers, every role holds the same number of items of
  every configuration afterwards.
\<close>

theorem rearranging_conserves:
  assumes "MoveItem role from to (idle s) = Ret (r, idle s') \<or>
           SwapItem role from to (idle s) = Ret (r, idle s')"
  shows "bag_total s' role' c = bag_total s role' c"
proof (cases "bag_cache s' = bag_cache s")
  case True
  then show ?thesis by (rule bag_total_cong)
next
  case False
  have "\<exists>slots slots'. map_of (bag_cache s) role = Some slots \<and>
      bag_cache s' = AList.update role slots' (bag_cache s) \<and> held_count slots' c = held_count slots c"
    using assms
  proof
    assume "MoveItem role from to (idle s) = Ret (r, idle s')"
    with False show ?thesis
      by (auto simp: MoveItem_def Let_def bad_index_def held_count_move
          split: option.splits if_splits)
  next
    assume "SwapItem role from to (idle s) = Ret (r, idle s')"
    with False show ?thesis
      by (auto simp: SwapItem_def Let_def bad_index_def held_count_swap
          split: option.splits if_splits)
  qed
  then show ?thesis by (auto simp: bag_total_update)
qed

theorem rearranging_conserves_witness:
  "\<exists>s s'. MoveItem 7 0 1 (idle s) = Ret (True, idle s') \<and> s' \<noteq> s \<and>
     bag_total s' 7 1001 = bag_total s 7 1001 \<and> bag_total s 7 1001 = 5"
proof -
  let ?a = "\<lparr>slot_index = 0, item = no_item\<lparr>item_id := 9, item_config_id := 1001, count := 5\<rparr>,
    is_empty = False\<rparr>"
  let ?b = "\<lparr>slot_index = 1, item = no_item, is_empty = True\<rparr>"
  let ?s = "\<lparr>bag_cache = [(7, [?a, ?b])], next_item_id = None\<rparr>"
  let ?s' = "\<lparr>bag_cache = [(7, [?b\<lparr>slot_index := 0\<rparr>, ?a\<lparr>slot_index := 1\<rparr>])], next_item_id = None\<rparr>"
  have m: "MoveItem 7 0 1 (idle ?s) = Ret (True, idle ?s')"
    by (simp add: MoveItem_def bad_index_def Let_def)
  have "bag_total ?s 7 1001 = 5" by (simp add: bag_total_def held_count_def slot_count_def)
  with m rearranging_conserves [of 7 0 1 ?s True ?s' 7 1001] show ?thesis
    by (intro exI [of _ ?s] exI [of _ ?s']) simp
qed

text \<open>
  A bag in order counts exactly: \<^verbatim>\<open>GetItemCount\<close> never overflows, returns what the bag holds
  of the configuration and changes nothing, and \<^verbatim>\<open>HasItem\<close> compares that number.
\<close>

theorem counting_exact:
  assumes inv: "bag_inv s" and bag: "map_of (bag_cache s) role \<noteq> None"
  shows "GetItemCount role c (idle s) = Ret (Some (bag_total s role c), idle s) \<and>
         HasItem role c n (idle s) = Ret (bag_total s role c \<ge> n, idle s)"
proof -
  from bag obtain slots where "map_of (bag_cache s) role = Some slots" by auto
  from GetItemCount_total [OF inv this] show ?thesis
    by (auto simp: HasItem_def bindM_def retM_def)
qed

theorem counting_exact_witness:
  "\<exists>s. GetItemCount 7 1001 (idle s) = Ret (Some 5, idle s) \<and> HasItem 7 1001 6 (idle s) = Ret (False, idle s)"
proof -
  let ?a = "\<lparr>slot_index = 0, item = no_item\<lparr>item_id := 9, item_config_id := 1001, count := 5\<rparr>,
    is_empty = False\<rparr>"
  let ?s = "\<lparr>bag_cache = [(7, [?a])], next_item_id = None\<rparr>"
  have "bag_inv ?s"
    by (simp add: bag_inv_def all_vals_def keys_ok_def slots_ok_def indexed_def one_per_config_def
        MAX_BAG_SIZE_def in_i32_def)
  from counting_exact [OF this, of 7 1001 6] show ?thesis
    by (intro exI [of _ ?s]) (simp add: bag_total_def held_count_def slot_count_def)
qed

text \<open>
  C23. From the empty module, no sequence of calls blocks on the module mutex, and whenever a
  sequence returns, every bag is in order: numbered slots, at most 200 of them, counts within
  32 bits, at most one stack of a configuration.
\<close>

theorem bags_stay_in_order:
  "run_cmds bag_exec cs (idle bag_init) \<noteq> Fault Relock \<and>
   (\<forall>rs m'. run_cmds bag_exec cs (idle bag_init) = Ret (rs, m') \<longrightarrow> (\<exists>s'. m' = idle s' \<and> bag_inv s'))"
  using bag_live.run_live [OF bag_inv_init] bag.run_inv [OF _ bag_inv_init] by blast

theorem bags_stay_in_order_witness:
  "\<exists>rs s'. run_cmds bag_exec [CInitBag 7, CAddItem 5 3 7 1001 2 1, CMoveItem 7 0 3, CSwapItem 7 3 4]
     (idle bag_init) = Ret (rs, idle s') \<and> bag_inv s'"
proof -
  let ?cs = "[CInitBag 7, CAddItem 5 3 7 1001 2 1, CMoveItem 7 0 3, CSwapItem 7 3 4]"
  have "\<exists>x. run_cmds bag_exec ?cs (idle bag_init) = Ret x"
    by (rule exI, code_simp)
  then show ?thesis using bags_stay_in_order [of ?cs] by (metis surj_pair)
qed

text \<open>
  Roles are isolated: a sequence of calls for other roles, whatever it does, leaves a role's
  bag exactly as it was.
\<close>

theorem bags_isolated:
  assumes "run_cmds bag_exec cs (idle s) = Ret (rs, idle s')" and "\<forall>c\<in>set cs. bag_owner c \<noteq> role"
  shows "map_of (bag_cache s') role = map_of (bag_cache s) role"
  using bag.run_frame [OF assms] .

theorem bags_isolated_witness:
  "\<exists>rs s'. run_cmds bag_exec [CInitBag 8, CAddItem 5 3 8 1001 2 1] (idle bag_init) = Ret (rs, idle s') \<and>
     map_of (bag_cache s') 7 = None \<and> rs = [True, True]"
proof -
  let ?cs = "[CInitBag 8, CAddItem 5 3 8 1001 2 1]"
  have "\<exists>m'. run_cmds bag_exec ?cs (idle bag_init) = Ret ([True, True], m')"
    by (rule exI, code_simp)
  then obtain s' where "run_cmds bag_exec ?cs (idle bag_init) = Ret ([True, True], idle s')"
    using bag.run_inv [OF _ bag_inv_init] by blast
  with bags_isolated [OF this, of 7] show ?thesis by (auto simp: bag_init_def)
qed

text \<open>
  \<^verbatim>\<open>UseItem\<close> and \<^verbatim>\<open>DropItem\<close> look up the wrong number: they compare the requested amount with
  the stack of the configuration whose number is the low 32 bits of the item's identifier. Unless
  the bag has such a stack, every positive use of every item of the bag is refused, however many
  of it there are, and the bag is unchanged.
\<close>

theorem UseItem_refuses:
  assumes inv: "bag_inv s" and slots: "map_of (bag_cache s) role = Some slots"
    and other: "\<forall>x\<in>set slots. \<not> is_empty x \<longrightarrow> item_config_id (item x) \<noteq> to_i32 (uint iid)"
    and pos: "0 < n"
  shows "UseItem role iid n (idle s) = Ret (False, idle s) \<and> DropItem role iid n (idle s) = Ret (False, idle s)"
proof -
  have "bag_total s role (to_i32 (uint iid)) = 0"
    using slots held_count_none [OF other] by (simp add: bag_total_def)
  with GetItemCount_total [OF inv slots, of "to_i32 (uint iid)"] pos
  have "GetItemCount role (to_i32 (uint iid)) (idle s) = Ret (Some 0, idle s)"
    by simp
  with pos show ?thesis by (simp add: UseItem_def DropItem_def bindM_def retM_def)
qed

theorem UseItem_refuses_witness:
  "\<exists>s. UseItem 7 9 1 (idle s) = Ret (False, idle s) \<and> bag_total s 7 1001 = 5 \<and>
     RemoveItem 7 9 1 (idle s) \<noteq> Ret (False, idle s)"
proof -
  let ?a = "\<lparr>slot_index = 0, item = no_item\<lparr>item_id := 9, item_config_id := 1001, count := 5\<rparr>,
    is_empty = False\<rparr>"
  let ?s = "\<lparr>bag_cache = [(7, [?a])], next_item_id = None\<rparr>"
  have "bag_inv ?s"
    by (simp add: bag_inv_def all_vals_def keys_ok_def slots_ok_def indexed_def one_per_config_def
        MAX_BAG_SIZE_def in_i32_def)
  moreover have "RemoveItem 7 9 1 (idle ?s) \<noteq> Ret (False, idle ?s)"
    by (simp add: RemoveItem_def)
  moreover have "to_i32 (uint (9 :: u64)) = 9" by (simp add: to_i32_def)
  ultimately show ?thesis using UseItem_refuses [of ?s 7 "[?a]" 9 1]
    by (intro exI [of _ ?s]) (simp add: bag_total_def held_count_def slot_count_def)
qed

end
