(* ===== verification/Role.thy ===== *)
theory Role
  imports Machine
begin

text \<open>
  \<open>game_server/logic_server/role_module.cc\<close>: the cache of the roles, their derived properties,
  positions and online flags. The abstract view of a role's progress is the experience it has
  collected since level 1; levelling up is the conversion of that total into a level and a rest.
\<close>

section \<open>Data\<close>

record RoleData =
  role_id :: u64
  account_id :: u64
  role_name :: string
  level :: i32
  exp :: i32
  gold :: i32
  diamond :: i32
  job :: i32
  gender :: i32
  create_time :: i32
  last_login_time :: i32
  last_logout_time :: i32
  online_time :: i32
  vip_level :: i32
  vip_exp :: i32
  stamina :: i32
  energy :: i32
  reputation :: i32
  honor :: i32
  war_credit :: i32
  achievement :: i32
  fight_power :: i32
  current_scene :: i32
  position_x :: f32bits
  position_y :: f32bits
  position_z :: f32bits
  rotation_y :: f32bits

record RoleProperty =
  hp :: i32
  max_hp :: i32
  mp :: i32
  max_mp :: i32
  attack :: i32
  defense :: i32
  speed :: i32
  critical :: i32
  critical_damage :: i32
  dodge :: i32
  hit :: i32
  armor :: i32
  magic_resist :: i32

record RolePosition =
  scene_id :: i32
  x :: f32bits
  y :: f32bits
  z :: f32bits
  pos_rotation_y :: f32bits

record RoleModule =
  role_cache :: "(u64 \<times> RoleData) list"
  property_cache :: "(u64 \<times> RoleProperty) list"
  position_cache :: "(u64 \<times> RolePosition) list"
  online_status :: "(u64 \<times> bool) list"

definition role_init :: RoleModule where
  "role_init = \<lparr>role_cache = [], property_cache = [], position_cache = [], online_status = []\<rparr>"

section \<open>Operations\<close>

text \<open>The properties of a level; every product and sum is 32-bit arithmetic.\<close>

definition CalculateRoleProperty :: "RoleData \<Rightarrow> RoleProperty outcome" where
  "CalculateRoleProperty d =
     bindO (bindO (mul32 (level d) 100) (add32 1000)) (\<lambda>h.
     bindO (bindO (mul32 (level d) 50) (add32 500)) (\<lambda>m.
     bindO (bindO (mul32 (level d) 10) (add32 100)) (\<lambda>at.
     bindO (bindO (mul32 (level d) 5) (add32 50)) (\<lambda>df.
     bindO (bindO (mul32 (level d) 2) (add32 20)) (\<lambda>ar.
       Ret \<lparr>hp = h, max_hp = h, mp = m, max_mp = m, attack = at, defense = df, speed = 100,
            critical = 10, critical_damage = 150, dodge = 10, hit = 90, armor = ar,
            magic_resist = ar\<rparr>)))))"

definition new_role_id :: "time_t \<Rightarrow> int \<Rightarrow> u64" where
  "new_role_id now rnd = word_of_int (now * 10000 + rnd mod 10000)"

definition new_role_data :: "u64 \<Rightarrow> u64 \<Rightarrow> string \<Rightarrow> i32 \<Rightarrow> i32 \<Rightarrow> time_t \<Rightarrow> RoleData" where
  "new_role_data rid acc name jb gen now =
     \<lparr>role_id = rid, account_id = acc, role_name = name, level = 1, exp = 0, gold = 10000,
      diamond = 1000, job = jb, gender = gen, create_time = to_i32 now,
      last_login_time = to_i32 now, last_logout_time = 0, online_time = 0, vip_level = 0,
      vip_exp = 0, stamina = 100, energy = 100, reputation = 0, honor = 0, war_credit = 0,
      achievement = 0, fight_power = 1000, current_scene = 1001, position_x = 0,
      position_y = 0, position_z = 0, rotation_y = 0\<rparr>"

text \<open>What \<^verbatim>\<open>role_cache_[role_id]\<close> inserts for a key that is not there: a value-initialised entry.\<close>

definition blank_role :: RoleData where
  "blank_role =
     \<lparr>role_id = 0, account_id = 0, role_name = [], level = 0, exp = 0, gold = 0,
      diamond = 0, job = 0, gender = 0, create_time = 0,
      last_login_time = 0, last_logout_time = 0, online_time = 0, vip_level = 0,
      vip_exp = 0, stamina = 0, energy = 0, reputation = 0, honor = 0, war_credit = 0,
      achievement = 0, fight_power = 0, current_scene = 0, position_x = 0,
      position_y = 0, position_z = 0, rotation_y = 0\<rparr>"

text \<open>
  \<^verbatim>\<open>CreateRole\<close> reads the clock for the identifier and again for the creation time (\<open>t1\<close>,
  \<open>t2\<close>), and takes the mutex twice. \<^verbatim>\<open>role_cache_[role_id]\<close> overwrites an entry that exists.
\<close>

definition CreateRole ::
  "time_t \<Rightarrow> time_t \<Rightarrow> int \<Rightarrow> u64 \<Rightarrow> string \<Rightarrow> i32 \<Rightarrow> i32 \<Rightarrow> (RoleModule, u64) oper" where
  "CreateRole t1 t2 rnd acc name jb gen =
     (let rid = new_role_id t1 rnd in
      bindM (guarded (\<lambda>s. Ret ((), s\<lparr>
          role_cache := AList.update rid (new_role_data rid acc name jb gen t2) (role_cache s),
          online_status := AList.update rid False (online_status s)\<rparr>)))
      (\<lambda>_. bindM (guarded (\<lambda>s.
          let (d, s1) = (case map_of (role_cache s) rid of
              Some d \<Rightarrow> (d, s)
            | None \<Rightarrow> (blank_role, s\<lparr>role_cache := AList.update rid blank_role (role_cache s)\<rparr>)) in
          bindO (CalculateRoleProperty d) (\<lambda>p.
            Ret ((), s1\<lparr>property_cache := AList.update rid p (property_cache s1)\<rparr>))))
      (\<lambda>_. retM rid)))"

definition DeleteRole :: "u64 \<Rightarrow> (RoleModule, bool) oper" where
  "DeleteRole rid = guarded (\<lambda>s. Ret (True, s\<lparr>
     role_cache := AList.delete rid (role_cache s),
     property_cache := AList.delete rid (property_cache s),
     position_cache := AList.delete rid (position_cache s),
     online_status := AList.delete rid (online_status s)\<rparr>))"

definition GetRoleInfo :: "u64 \<Rightarrow> (RoleModule, RoleData option) oper" where
  "GetRoleInfo rid = guarded (\<lambda>s. Ret (map_of (role_cache s) rid, s))"

definition UpdateRoleInfo :: "RoleData \<Rightarrow> (RoleModule, bool) oper" where
  "UpdateRoleInfo info = guarded (\<lambda>s.
     Ret (True, s\<lparr>role_cache := AList.update (role_id info) info (role_cache s)\<rparr>))"

definition GetRoleProperty :: "u64 \<Rightarrow> (RoleModule, RoleProperty option) oper" where
  "GetRoleProperty rid = guarded (\<lambda>s. Ret (map_of (property_cache s) rid, s))"

definition UpdateRoleProperty :: "u64 \<Rightarrow> RoleProperty \<Rightarrow> (RoleModule, bool) oper" where
  "UpdateRoleProperty rid p = guarded (\<lambda>s.
     Ret (True, s\<lparr>property_cache := AList.update rid p (property_cache s)\<rparr>))"

text \<open>
  The loop of \<^verbatim>\<open>AddRoleExp\<close>: \<open>max_exp\<close> is \<^verbatim>\<open>level * 1000\<close>, recomputed after each level; the last
  properties computed are the ones that stay in the cache (\<open>None\<close>: no level was gained). The
  loop ends because the level grows and a level whose product leaves the 32-bit range is a fault.
\<close>

function level_up ::
  "RoleData \<Rightarrow> RoleProperty option \<Rightarrow> (RoleData \<times> RoleProperty option) outcome" where
  "level_up d p =
     bindO (mul32 (level d) 1000) (\<lambda>max_exp.
       if exp d \<ge> max_exp then
         bindO (sub32 (exp d) max_exp) (\<lambda>e.
         bindO (add32 (level d) 1) (\<lambda>l.
           let d' = d\<lparr>exp := e, level := l\<rparr> in
           bindO (CalculateRoleProperty d') (\<lambda>p'. level_up d' (Some p'))))
       else Ret (d, p))"
  by pat_completeness auto
termination
  by (relation "measure (\<lambda>(d, p). nat (2147484 - level d))") (auto simp: in_i32_def)

declare level_up.simps [simp del]

definition AddRoleExp :: "u64 \<Rightarrow> i32 \<Rightarrow> (RoleModule, bool) oper" where
  "AddRoleExp rid gain = guarded (\<lambda>s.
     case map_of (role_cache s) rid of
       None \<Rightarrow> Ret (False, s)
     | Some d \<Rightarrow>
         bindO (add32 (exp d) gain) (\<lambda>e.
         bindO (level_up (d\<lparr>exp := e\<rparr>) None) (\<lambda>(d', p).
           Ret (True, s\<lparr>role_cache := AList.update rid d' (role_cache s),
                        property_cache := (case p of None \<Rightarrow> property_cache s
                          | Some q \<Rightarrow> AList.update rid q (property_cache s))\<rparr>))))"

definition AddRoleLevel :: "u64 \<Rightarrow> i32 \<Rightarrow> (RoleModule, bool) oper" where
  "AddRoleLevel rid n = guarded (\<lambda>s.
     case map_of (role_cache s) rid of
       None \<Rightarrow> Ret (False, s)
     | Some d \<Rightarrow>
         bindO (add32 (level d) n) (\<lambda>l.
         bindO (CalculateRoleProperty (d\<lparr>level := l\<rparr>)) (\<lambda>p.
           Ret (True, s\<lparr>role_cache := AList.update rid (d\<lparr>level := l\<rparr>) (role_cache s),
                        property_cache := AList.update rid p (property_cache s)\<rparr>))))"

definition GetRolePosition :: "u64 \<Rightarrow> (RoleModule, RolePosition option) oper" where
  "GetRolePosition rid = guarded (\<lambda>s. Ret (map_of (position_cache s) rid, s))"

definition UpdateRolePosition :: "u64 \<Rightarrow> RolePosition \<Rightarrow> (RoleModule, bool) oper" where
  "UpdateRolePosition rid pos = guarded (\<lambda>s.
     let s1 = s\<lparr>position_cache := AList.update rid pos (position_cache s)\<rparr> in
     case map_of (role_cache s) rid of
       None \<Rightarrow> Ret (True, s1)
     | Some d \<Rightarrow> Ret (True, s1\<lparr>role_cache := AList.update rid
         (d\<lparr>current_scene := scene_id pos, position_x := x pos, position_y := y pos,
            position_z := z pos, rotation_y := pos_rotation_y pos\<rparr>) (role_cache s)\<rparr>))"

definition SetRoleOnline :: "time_t \<Rightarrow> u64 \<Rightarrow> bool \<Rightarrow> (RoleModule, bool) oper" where
  "SetRoleOnline now rid online = guarded (\<lambda>s.
     let s1 = s\<lparr>online_status := AList.update rid online (online_status s)\<rparr> in
     case map_of (role_cache s) rid of
       None \<Rightarrow> Ret (True, s1)
     | Some d \<Rightarrow> Ret (True, s1\<lparr>role_cache := AList.update rid
         (if online then d\<lparr>last_login_time := to_i32 now\<rparr>
          else d\<lparr>last_logout_time := to_i32 now\<rparr>) (role_cache s)\<rparr>))"

definition IsRoleOnline :: "u64 \<Rightarrow> (RoleModule, bool) oper" where
  "IsRoleOnline rid = guarded (\<lambda>s.
     Ret (case map_of (online_status s) rid of None \<Rightarrow> False | Some b \<Rightarrow> b, s))"

definition LoadRoleData :: "u64 \<Rightarrow> (RoleModule, bool) oper" where
  "LoadRoleData rid = retM True"

definition SaveRoleData :: "u64 \<Rightarrow> (RoleModule, bool) oper" where
  "SaveRoleData rid = guarded (\<lambda>s. Ret (map_of (role_cache s) rid \<noteq> None, s))"

text \<open>\<^verbatim>\<open>GetRoleList\<close> answers \<^verbatim>\<open>true\<close> and leaves the caller's vector as it is.\<close>

definition GetRoleList :: "u64 \<Rightarrow> RoleData list \<Rightarrow> (RoleModule, bool \<times> RoleData list) oper" where
  "GetRoleList acc roles = retM (True, roles)"

section \<open>Levelling up\<close>

text \<open>
  \<open>progress\<close> is the experience collected since level 1: level \<open>l\<close> costs \<open>1000 * l\<close>, so the levels
  below \<open>l\<close> cost \<open>500 * l * (l - 1)\<close>.
\<close>

definition progress :: "RoleData \<Rightarrow> int" where
  "progress d = 500 * level d * (level d - 1) + exp d"

lemma calc_small:
  "0 \<le> level d \<Longrightarrow> level d \<le> 2147484 \<Longrightarrow> \<exists>p. CalculateRoleProperty d = Ret p"
  by (simp add: CalculateRoleProperty_def in_i32_def)

lemma calc_cong: "level d = level e \<Longrightarrow> CalculateRoleProperty d = CalculateRoleProperty e"
  by (simp add: CalculateRoleProperty_def)

lemma level_up_progress:
  assumes "1 \<le> level d" and "level d \<le> 2147483" and "level d = 2147483 \<Longrightarrow> exp d < 2147483000"
    and "0 \<le> exp d" and "exp d < 2 ^ 31"
  shows "\<exists>d' p'. level_up d p = Ret (d', p') \<and> d' = d\<lparr>exp := exp d', level := level d'\<rparr> \<and>
    level d \<le> level d' \<and> 0 \<le> exp d' \<and> exp d' < level d' * 1000 \<and> progress d' = progress d \<and>
    (if level d' = level d then p' = p
     else \<exists>q. p' = Some q \<and> CalculateRoleProperty d' = Ret q)"
  using assms
proof (induction d p rule: level_up.induct)
  case (1 d p)
  have m: "mul32 (level d) 1000 = Ret (level d * 1000)"
    using "1.prems" by (simp add: in_i32_def)
  show ?case
  proof (cases "exp d \<ge> level d * 1000")
    case False
    with m "1.prems" show ?thesis by (subst level_up.simps) auto
  next
    case True
    have lt: "level d \<le> 2147482"
      using "1.prems" True by (cases "level d = 2147483") auto
    define d1 where "d1 = d\<lparr>exp := exp d - level d * 1000, level := level d + 1\<rparr>"
    have e: "sub32 (exp d) (level d * 1000) = Ret (exp d - level d * 1000)"
      "add32 (level d) 1 = Ret (level d + 1)"
      using "1.prems" True by (auto simp: in_i32_def)
    obtain q where q: "CalculateRoleProperty d1 = Ret q"
      using calc_small [of d1] "1.prems" by (auto simp: d1_def)
    have step: "level_up d p = level_up d1 (Some q)"
      using m True e q by (subst level_up.simps) (simp add: d1_def)
    have "\<exists>d' p'. level_up d1 (Some q) = Ret (d', p') \<and> d' = d1\<lparr>exp := exp d', level := level d'\<rparr> \<and>
      level d1 \<le> level d' \<and> 0 \<le> exp d' \<and> exp d' < level d' * 1000 \<and> progress d' = progress d1 \<and>
      (if level d' = level d1 then p' = Some q
       else \<exists>q. p' = Some q \<and> CalculateRoleProperty d' = Ret q)"
      using "1.prems" True lt
      by (intro "1.IH" [OF m True e d1_def q]) (auto simp: d1_def)
    then obtain d' p' where ih: "level_up d1 (Some q) = Ret (d', p')"
      "d' = d1\<lparr>exp := exp d', level := level d'\<rparr>" "level d1 \<le> level d'" "0 \<le> exp d'"
      "exp d' < level d' * 1000" "progress d' = progress d1"
      "if level d' = level d1 then p' = Some q else \<exists>q. p' = Some q \<and> CalculateRoleProperty d' = Ret q"
      by blast
    have "progress d1 = progress d" by (simp add: progress_def d1_def algebra_simps)
    moreover have "d' = d\<lparr>exp := exp d', level := level d'\<rparr>"
      by (subst ih(2)) (simp add: d1_def)
    moreover have "\<exists>q. p' = Some q \<and> CalculateRoleProperty d' = Ret q"
      using ih(7) q calc_cong [of d' d1] by (auto split: if_splits)
    moreover have "level d < level d'" using ih(3) by (simp add: d1_def)
    ultimately show ?thesis using ih step by (intro exI [of _ d'] exI [of _ p']) auto
  qed
qed

text \<open>
  Experience is conserved: for a role of level at least 1 that gains a non-negative amount,
  \<^verbatim>\<open>AddRoleExp\<close> returns, the level never falls, the experience left is below the cost of the next
  level, experience collected in total grows by exactly the gain, no other field of the role
  changes, and a role that rose in level has the properties of its new level in the cache.
\<close>

theorem AddRoleExp_conserves:
  assumes d: "map_of (role_cache s) rid = Some d"
    and lvl: "1 \<le> level d" "level d \<le> 2147482" and ex: "0 \<le> exp d" "0 \<le> gain"
    and range: "exp d + gain < 2 ^ 31"
  shows "\<exists>s' d'. AddRoleExp rid gain (idle s) = Ret (True, idle s') \<and>
    map_of (role_cache s') rid = Some d' \<and> d' = d\<lparr>exp := exp d', level := level d'\<rparr> \<and>
    level d \<le> level d' \<and> 0 \<le> exp d' \<and> exp d' < level d' * 1000 \<and>
    progress d' = progress d + gain \<and>
    (level d < level d' \<longrightarrow>
      (\<exists>q. map_of (property_cache s') rid = Some q \<and> CalculateRoleProperty d' = Ret q))"
proof -
  let ?d = "d\<lparr>exp := exp d + gain\<rparr>"
  from lvl ex range have "\<exists>d' p'. level_up ?d None = Ret (d', p') \<and> d' = ?d\<lparr>exp := exp d', level := level d'\<rparr> \<and>
    level ?d \<le> level d' \<and> 0 \<le> exp d' \<and> exp d' < level d' * 1000 \<and> progress d' = progress ?d \<and>
    (if level d' = level ?d then p' = None else \<exists>q. p' = Some q \<and> CalculateRoleProperty d' = Ret q)"
    by (intro level_up_progress) auto
  then obtain d' p' where l: "level_up ?d None = Ret (d', p')" "d' = ?d\<lparr>exp := exp d', level := level d'\<rparr>"
    "level d \<le> level d'" "0 \<le> exp d'" "exp d' < level d' * 1000" "progress d' = progress ?d"
    "if level d' = level d then p' = None else \<exists>q. p' = Some q \<and> CalculateRoleProperty d' = Ret q"
    by auto
  let ?s' = "s\<lparr>role_cache := AList.update rid d' (role_cache s),
               property_cache := (case p' of None \<Rightarrow> property_cache s
                 | Some q \<Rightarrow> AList.update rid q (property_cache s))\<rparr>"
  have "add32 (exp d) gain = Ret (exp d + gain)" using ex range by (simp add: in_i32_def)
  with d l(1) have run: "AddRoleExp rid gain (idle s) = Ret (True, idle ?s')"
    by (simp add: AddRoleExp_def)
  have "d' = d\<lparr>exp := exp d', level := level d'\<rparr>" by (subst l(2)) simp
  moreover have "progress d' = progress d + gain" using l(6) by (simp add: progress_def)
  moreover have "level d < level d' \<longrightarrow>
      (\<exists>q. map_of (property_cache ?s') rid = Some q \<and> CalculateRoleProperty d' = Ret q)"
    using l(7) by (auto split: if_splits)
  moreover have "map_of (role_cache ?s') rid = Some d'" by simp
  ultimately show ?thesis using run l(3-5) by blast
qed

theorem AddRoleExp_conserves_witness:
  "\<exists>s s' d'. AddRoleExp 7 3500 (idle s) = Ret (True, idle s') \<and>
     map_of (role_cache s') 7 = Some d' \<and> progress d' = 3500 \<and> exp d' < level d' * 1000"
proof -
  let ?d = "new_role_data 7 1 ''hero'' 1 0 1700000000"
  let ?s = "role_init\<lparr>role_cache := [(7, ?d)]\<rparr>"
  have "progress ?d = 0" by (simp add: progress_def new_role_data_def)
  with AddRoleExp_conserves [of ?s 7 ?d 3500] show ?thesis
    by (auto simp: new_role_data_def)
qed

section \<open>The role module as a machine\<close>

datatype role_cmd =
    CCreateRole time_t time_t int u64 string int int
  | CDeleteRole u64
  | CGetRoleInfo u64
  | CUpdateRoleInfo RoleData
  | CGetRoleProperty u64
  | CUpdateRoleProperty u64 RoleProperty
  | CAddRoleExp u64 int
  | CAddRoleLevel u64 int
  | CGetRolePosition u64
  | CUpdateRolePosition u64 RolePosition
  | CSetRoleOnline time_t u64 bool
  | CIsRoleOnline u64
  | CLoadRoleData u64
  | CSaveRoleData u64
  | CGetRoleList u64

fun role_exec :: "role_cmd \<Rightarrow> (RoleModule, bool) oper" where
  "role_exec (CCreateRole t1 t2 rnd acc name jb gen) =
     bindM (CreateRole t1 t2 rnd acc name (to_i32 jb) (to_i32 gen)) (\<lambda>_. retM True)"
| "role_exec (CDeleteRole r) = DeleteRole r"
| "role_exec (CGetRoleInfo r) = succeeded (GetRoleInfo r)"
| "role_exec (CUpdateRoleInfo d) = UpdateRoleInfo d"
| "role_exec (CGetRoleProperty r) = succeeded (GetRoleProperty r)"
| "role_exec (CUpdateRoleProperty r p) = UpdateRoleProperty r p"
| "role_exec (CAddRoleExp r e) = AddRoleExp r (to_i32 e)"
| "role_exec (CAddRoleLevel r n) = AddRoleLevel r (to_i32 n)"
| "role_exec (CGetRolePosition r) = succeeded (GetRolePosition r)"
| "role_exec (CUpdateRolePosition r p) = UpdateRolePosition r p"
| "role_exec (CSetRoleOnline now r b) = SetRoleOnline now r b"
| "role_exec (CIsRoleOnline r) = IsRoleOnline r"
| "role_exec (CLoadRoleData r) = LoadRoleData r"
| "role_exec (CSaveRoleData r) = SaveRoleData r"
| "role_exec (CGetRoleList acc) = bindM (GetRoleList acc []) (\<lambda>(b, _). retM b)"

fun role_owner :: "role_cmd \<Rightarrow> u64 option" where
  "role_owner (CCreateRole t1 t2 rnd acc name jb gen) = Some (new_role_id t1 rnd)"
| "role_owner (CDeleteRole r) = Some r"
| "role_owner (CUpdateRoleInfo d) = Some (role_id d)"
| "role_owner (CUpdateRoleProperty r p) = Some r"
| "role_owner (CAddRoleExp r e) = Some r"
| "role_owner (CAddRoleLevel r n) = Some r"
| "role_owner (CUpdateRolePosition r p) = Some r"
| "role_owner (CSetRoleOnline now r b) = Some r"
| "role_owner _ = None"

text \<open>The caches have distinct keys and an entry carries the identifier it is filed under.\<close>

definition roles_inv :: "RoleModule \<Rightarrow> bool" where
  "roles_inv s \<longleftrightarrow> keys_ok (role_cache s) \<and> keys_ok (property_cache s) \<and>
     keys_ok (position_cache s) \<and> keys_ok (online_status s) \<and>
     (\<forall>k d. map_of (role_cache s) k = Some d \<longrightarrow> role_id d = k)"

definition role_view ::
  "RoleModule \<Rightarrow> u64 \<Rightarrow> RoleData option \<times> RoleProperty option \<times> RolePosition option \<times> bool option" where
  "role_view s r = (map_of (role_cache s) r, map_of (property_cache s) r,
     map_of (position_cache s) r, map_of (online_status s) r)"

definition role_step :: "u64 option \<Rightarrow> RoleModule \<Rightarrow> RoleModule \<Rightarrow> bool" where
  "role_step owner s s' \<longleftrightarrow> (roles_inv s \<longrightarrow> roles_inv s') \<and>
     (\<forall>r. owner \<noteq> Some r \<longrightarrow> role_view s' r = role_view s r)"

lemma role_step_refl [simp]: "role_step w s s"
  by (simp add: role_step_def)

lemma role_step_trans: "role_step w s t \<Longrightarrow> role_step w t u \<Longrightarrow> role_step w s u"
  by (simp add: role_step_def)

lemma level_up_keeps_id: "level_up d p = Ret (d', p') \<Longrightarrow> role_id d' = role_id d"
proof (induction d p rule: level_up.induct)
  case (1 d p)
  from "1.prems" obtain m where m: "mul32 (level d) 1000 = Ret m"
    and rest: "(if exp d \<ge> m then bindO (sub32 (exp d) m) (\<lambda>e. bindO (add32 (level d) 1) (\<lambda>l.
        bindO (CalculateRoleProperty (d\<lparr>exp := e, level := l\<rparr>))
          (\<lambda>q. level_up (d\<lparr>exp := e, level := l\<rparr>) (Some q)))) else Ret (d, p)) = Ret (d', p')"
    unfolding level_up.simps [of d p] Let_def bindO_eq_Ret [of "mul32 (level d) 1000"] by blast
  show ?case
  proof (cases "exp d \<ge> m")
    case True
    with rest obtain e l q where "sub32 (exp d) m = Ret e" "add32 (level d) 1 = Ret l"
      "CalculateRoleProperty (d\<lparr>exp := e, level := l\<rparr>) = Ret q"
      "level_up (d\<lparr>exp := e, level := l\<rparr>) (Some q) = Ret (d', p')"
      by (auto simp del: add32_Ret sub32_Ret)
    from "1.IH" [OF m True this(1,2) refl this(3,4)] show ?thesis by simp
  next
    case False
    with rest show ?thesis by simp
  qed
qed

lemma calc_live [simp]: "CalculateRoleProperty d \<noteq> Fault Relock"
  by (simp add: CalculateRoleProperty_def bindO_eq_Fault)

lemma level_up_live: "level_up d p \<noteq> Fault Relock"
proof (induction d p rule: level_up.induct)
  case (1 d p)
  then show ?case by (subst level_up.simps) (auto simp: bindO_eq_Fault Let_def)
qed

lemma CreateRole_idle:
  "CreateRole t1 t2 rnd acc name jb gen (idle s) =
     (let rid = new_role_id t1 rnd; d = new_role_data rid acc name jb gen t2 in
      bindO (CalculateRoleProperty d) (\<lambda>p.
        Ret (rid, idle (s\<lparr>role_cache := AList.update rid d (role_cache s),
          online_status := AList.update rid False (online_status s),
          property_cache := AList.update rid p (property_cache s)\<rparr>))))"
  by (cases "CalculateRoleProperty (new_role_data (new_role_id t1 rnd) acc name jb gen t2)")
    (simp_all add: CreateRole_def Let_def bindM_def retM_def)

lemma role_step_insert:
  assumes "role_id d = rid"
    and "role_cache s' = role_cache s \<or> role_cache s' = AList.update rid d (role_cache s)"
    and "same_or_put rid (property_cache s) (property_cache s')"
    and "same_or_put rid (position_cache s) (position_cache s')"
    and "same_or_put rid (online_status s) (online_status s')"
  shows "role_step (Some rid) s s'"
proof -
  have "roles_inv s \<Longrightarrow> roles_inv s'"
    using assms(1,2) assms(3-5) [THEN same_or_put_keys] unfolding roles_inv_def
    by (elim disjE) simp_all
  moreover have "r \<noteq> rid \<Longrightarrow> role_view s' r = role_view s r" for r
    using assms(2) assms(3-5) [THEN same_or_put_frame, of r] unfolding role_view_def
    by (elim disjE) simp_all
  ultimately show ?thesis by (auto simp: role_step_def)
qed

lemma CreateRole_steps:
  "steps_by (role_step (Some (new_role_id t1 rnd))) (CreateRole t1 t2 rnd acc name jb gen)"
  unfolding steps_by_def CreateRole_idle Let_def
  by (auto intro!: role_step_insert [where d = "new_role_data (new_role_id t1 rnd) acc name jb gen t2"])
    (simp add: new_role_data_def)

lemma DeleteRole_steps: "steps_by (role_step (Some r)) (DeleteRole r)"
  by (auto simp: DeleteRole_def role_step_def roles_inv_def role_view_def intro!: steps_by_guarded)

lemma UpdateRoleInfo_steps: "steps_by (role_step (Some (role_id d))) (UpdateRoleInfo d)"
  by (auto simp: UpdateRoleInfo_def intro!: steps_by_guarded role_step_insert [where d = d])

lemma UpdateRoleProperty_steps: "steps_by (role_step (Some r)) (UpdateRoleProperty r p)"
  by (auto simp: UpdateRoleProperty_def intro!: steps_by_guarded
      role_step_insert [where d = "blank_role\<lparr>role_id := r\<rparr>"])

lemma role_step_existing:
  assumes "map_of (role_cache s) rid = Some d" and "role_id d' = role_id d"
    and "role_cache s' = role_cache s \<or> role_cache s' = AList.update rid d' (role_cache s)"
    and "same_or_put rid (property_cache s) (property_cache s')"
    and "same_or_put rid (position_cache s) (position_cache s')"
    and "same_or_put rid (online_status s) (online_status s')"
  shows "role_step (Some rid) s s'"
proof (cases "roles_inv s")
  case True
  with assms(1,2) have "role_id d' = rid" by (auto simp: roles_inv_def)
  then show ?thesis using assms(3-6) by (rule role_step_insert)
next
  case False
  have "r \<noteq> rid \<Longrightarrow> role_view s' r = role_view s r" for r
    using assms(3) assms(4-6) [THEN same_or_put_frame, of r] unfolding role_view_def
    by (elim disjE) simp_all
  with False show ?thesis by (auto simp: role_step_def)
qed

lemma AddRoleExp_steps: "steps_by (role_step (Some r)) (AddRoleExp r e)"
  unfolding AddRoleExp_def
proof (rule steps_by_guarded, goal_cases)
  case (1 s ok s')
  show ?case
  proof (cases "map_of (role_cache s) r")
    case None
    with 1 show ?thesis by simp
  next
    case (Some d)
    with 1 obtain d' p where l: "level_up (d\<lparr>exp := exp d + e\<rparr>) None = Ret (d', p)"
      and s': "s' = s\<lparr>role_cache := AList.update r d' (role_cache s),
        property_cache := (case p of None \<Rightarrow> property_cache s
          | Some q \<Rightarrow> AList.update r q (property_cache s))\<rparr>"
      by auto
    from level_up_keeps_id [OF l] have "role_id d' = role_id d" by simp
    with Some show ?thesis
      by (cases p) (auto simp: s' intro!: role_step_existing [where d' = d'])
  qed
qed

lemma AddRoleLevel_steps: "steps_by (role_step (Some r)) (AddRoleLevel r n)"
  unfolding AddRoleLevel_def
proof (rule steps_by_guarded, goal_cases)
  case (1 s ok s')
  show ?case
  proof (cases "map_of (role_cache s) r")
    case None
    with 1 show ?thesis by simp
  next
    case (Some d)
    with 1 show ?thesis
      by (auto intro!: role_step_existing [where d' = "d\<lparr>level := level d + n\<rparr>"])
  qed
qed

lemma UpdateRolePosition_steps: "steps_by (role_step (Some r)) (UpdateRolePosition r pos)"
  unfolding UpdateRolePosition_def
proof (rule steps_by_guarded, goal_cases)
  case (1 s ok s')
  show ?case
  proof (cases "map_of (role_cache s) r")
    case None
    with 1 show ?thesis
      by (auto simp: Let_def intro!: role_step_insert [where d = "blank_role\<lparr>role_id := r\<rparr>"])
  next
    case (Some d)
    with 1 show ?thesis
      by (auto simp: Let_def intro!: role_step_existing [where d' = "d\<lparr>current_scene := scene_id pos,
        position_x := x pos, position_y := y pos, position_z := z pos,
        rotation_y := pos_rotation_y pos\<rparr>"])
  qed
qed

lemma SetRoleOnline_steps: "steps_by (role_step (Some r)) (SetRoleOnline now r online)"
  unfolding SetRoleOnline_def
proof (rule steps_by_guarded, goal_cases)
  case (1 s ok s')
  show ?case
  proof (cases "map_of (role_cache s) r")
    case None
    with 1 show ?thesis
      by (auto simp: Let_def intro!: role_step_insert [where d = "blank_role\<lparr>role_id := r\<rparr>"])
  next
    case (Some d)
    with 1 show ?thesis
      by (auto simp: Let_def intro!: role_step_existing [where d' = "if online
        then d\<lparr>last_login_time := to_i32 now\<rparr> else d\<lparr>last_logout_time := to_i32 now\<rparr>"])
  qed
qed

lemmas role_op_steps = DeleteRole_steps UpdateRoleInfo_steps UpdateRoleProperty_steps
  AddRoleExp_steps AddRoleLevel_steps UpdateRolePosition_steps SetRoleOnline_steps

lemma role_query_steps:
  "steps_by (role_step w) (GetRoleInfo r)" "steps_by (role_step w) (GetRoleProperty r)"
  "steps_by (role_step w) (GetRolePosition r)" "steps_by (role_step w) (IsRoleOnline r)"
  "steps_by (role_step w) (LoadRoleData r)" "steps_by (role_step w) (SaveRoleData r)"
  "steps_by (role_step w) (GetRoleList acc roles)"
  by (auto simp: GetRoleInfo_def GetRoleProperty_def GetRolePosition_def IsRoleOnline_def
      LoadRoleData_def SaveRoleData_def GetRoleList_def intro!: steps_by_guarded steps_by_retM)

lemma role_exec_steps: "steps_by (role_step (role_owner c)) (role_exec c)"
  by (cases c)
    (auto simp: role_op_steps role_query_steps CreateRole_steps intro!: steps_by_succeeded
      steps_by_bindM [where p = "GetRoleList a b" for a b]
      steps_by_bindM [where p = "CreateRole a b c' d e f g" for a b c' d e f g]
      steps_by_retM intro: role_step_trans split: prod.splits)

lemma role_ops_live:
  "never_relocks (DeleteRole r)" "never_relocks (GetRoleInfo r)" "never_relocks (UpdateRoleInfo d)"
  "never_relocks (GetRoleProperty r)" "never_relocks (UpdateRoleProperty r p)"
  "never_relocks (GetRolePosition r)" "never_relocks (UpdateRolePosition r pos)"
  "never_relocks (SetRoleOnline now r b)" "never_relocks (IsRoleOnline r)"
  "never_relocks (LoadRoleData r)" "never_relocks (SaveRoleData r)"
  "never_relocks (GetRoleList acc roles)"
  "never_relocks (AddRoleExp r e)" "never_relocks (AddRoleLevel r n)"
  "never_relocks (CreateRole t1 t2 rnd acc name jb gen)"
proof -
  show "never_relocks (CreateRole t1 t2 rnd acc name jb gen)"
    unfolding never_relocks_def CreateRole_idle Let_def by (simp add: bindO_eq_Fault)
qed (auto simp: DeleteRole_def GetRoleInfo_def UpdateRoleInfo_def GetRoleProperty_def
      UpdateRoleProperty_def AddRoleExp_def AddRoleLevel_def GetRolePosition_def
      UpdateRolePosition_def SetRoleOnline_def IsRoleOnline_def LoadRoleData_def SaveRoleData_def
      GetRoleList_def never_relocks_guarded bindO_eq_Fault level_up_live Let_def
      intro: never_relocks_retM split: option.splits)

lemma role_exec_live: "never_relocks (role_exec c)"
  by (cases c)
    (auto simp: role_ops_live intro!: stepping never_relocks_bindM [OF _ CreateRole_steps]
      never_relocks_bindM [OF _ role_query_steps(7)] split: prod.splits)

interpretation role: isolated_machine role_exec roles_inv "\<lambda>c r. role_owner c = Some r" role_view
proof unfold_locales
  show "role_exec c (idle s) = Ret (r, m') \<Longrightarrow> \<exists>s'. m' = idle s'" for c s r m'
    using steps_byD [OF role_exec_steps] by blast
  show "role_exec c (idle s) = Ret (r, idle s') \<Longrightarrow> roles_inv s \<Longrightarrow> roles_inv s'" for c s r s'
    using steps_byD [OF role_exec_steps] by (fastforce simp: role_step_def)
  show "role_exec c (idle s) = Ret (r, idle s') \<Longrightarrow> \<not> role_owner c = Some k \<Longrightarrow>
      role_view s' k = role_view s k" for c s r s' k
    using steps_byD [OF role_exec_steps] by (fastforce simp: role_step_def)
qed

interpretation role_live: live_machine role_exec roles_inv
  by unfold_locales (use role_exec_live in \<open>auto simp: never_relocks_def\<close>)

lemma roles_inv_init: "roles_inv role_init"
  by (simp add: roles_inv_def role_init_def)

text \<open>
  From the empty module no sequence of calls blocks on the module mutex, and whenever it
  returns, each of the four caches has one entry for a key and every role is filed under its own
  identifier.
\<close>

theorem roles_stay_consistent:
  "run_cmds role_exec cs (idle role_init) \<noteq> Fault Relock \<and>
   (\<forall>rs m'. run_cmds role_exec cs (idle role_init) = Ret (rs, m') \<longrightarrow> (\<exists>s'. m' = idle s' \<and> roles_inv s'))"
  using role_live.run_live [OF roles_inv_init] role.run_inv [OF _ roles_inv_init] by blast

theorem roles_stay_consistent_witness:
  "\<exists>rs s'. run_cmds role_exec [CCreateRole 5 5 3 1 ''a'' 1 0, CAddRoleExp 50003 2500, CDeleteRole 9]
     (idle role_init) = Ret (rs, idle s') \<and> roles_inv s'"
proof -
  let ?cs = "[CCreateRole 5 5 3 1 ''a'' 1 0, CAddRoleExp 50003 2500, CDeleteRole 9]"
  have "\<exists>x. run_cmds role_exec ?cs (idle role_init) = Ret x"
    by (rule exI, code_simp)
  then show ?thesis using roles_stay_consistent [of ?cs] by (metis surj_pair)
qed

text \<open>
  Roles are isolated: calls that work for other identifiers leave a role's data, properties,
  position and online flag exactly as they were.
\<close>

theorem roles_isolated:
  assumes "run_cmds role_exec cs (idle s) = Ret (rs, idle s')"
    and "\<forall>c\<in>set cs. role_owner c \<noteq> Some r"
  shows "role_view s' r = role_view s r"
  using role.run_frame [OF assms] .

theorem roles_isolated_witness:
  "\<exists>rs s'. run_cmds role_exec [CSetRoleOnline 5 8 True, CDeleteRole 9] (idle role_init) = Ret (rs, idle s') \<and>
     role_view s' 7 = role_view role_init 7"
proof -
  let ?cs = "[CSetRoleOnline 5 8 True, CDeleteRole 9]"
  have "\<exists>rs m'. run_cmds role_exec ?cs (idle role_init) = Ret (rs, m')"
    by (intro exI, code_simp)
  then obtain rs s' where "run_cmds role_exec ?cs (idle role_init) = Ret (rs, idle s')"
    using role.run_inv [OF _ roles_inv_init] by blast
  with roles_isolated [OF this, of 7] show ?thesis by auto
qed

text \<open>
  Identifiers of roles are not checked for being fresh: two roles created in the same second
  with the same \<^verbatim>\<open>rand() % 10000\<close> get the same identifier, both calls succeed, and afterwards the
  identifier belongs to the second account only.
\<close>

theorem CreateRole_collides:
  assumes "rnd mod 10000 = rnd' mod 10000"
  shows "\<exists>rid s1 s2.
    CreateRole now t rnd acc name jb gen (idle s) = Ret (rid, idle s1) \<and>
    CreateRole now t' rnd' acc' name' jb' gen' (idle s1) = Ret (rid, idle s2) \<and>
    map_option account_id (map_of (role_cache s1) rid) = Some acc \<and>
    map_option account_id (map_of (role_cache s2) rid) = Some acc' \<and>
    map fst (role_cache s2) = map fst (role_cache s1)"
proof -
  have lvl: "\<exists>p. CalculateRoleProperty (new_role_data rid ac nm j g tm) = Ret p" for rid ac nm j g tm
    by (rule calc_small) (simp_all add: new_role_data_def)
  let ?rid = "new_role_id now rnd"
  let ?d = "new_role_data ?rid acc name jb gen t" and ?e = "new_role_data ?rid acc' name' jb' gen' t'"
  have same: "new_role_id now rnd' = ?rid" using assms by (simp add: new_role_id_def)
  obtain p q where p: "CalculateRoleProperty ?d = Ret p" and q: "CalculateRoleProperty ?e = Ret q"
    using lvl by meson
  define s1 where "s1 = s\<lparr>role_cache := AList.update ?rid ?d (role_cache s),
    online_status := AList.update ?rid False (online_status s),
    property_cache := AList.update ?rid p (property_cache s)\<rparr>"
  define s2 where "s2 = s1\<lparr>role_cache := AList.update ?rid ?e (role_cache s1),
    online_status := AList.update ?rid False (online_status s1),
    property_cache := AList.update ?rid q (property_cache s1)\<rparr>"
  have "CreateRole now t rnd acc name jb gen (idle s) = Ret (?rid, idle s1)"
    by (simp add: CreateRole_idle Let_def p s1_def)
  moreover have "CreateRole now t' rnd' acc' name' jb' gen' (idle s1) = Ret (?rid, idle s2)"
    by (simp add: CreateRole_idle Let_def same q s2_def)
  moreover have "map_option account_id (map_of (role_cache s1) ?rid) = Some acc"
    "map_option account_id (map_of (role_cache s2) ?rid) = Some acc'"
    by (simp_all add: s1_def s2_def new_role_data_def)
  moreover have "map fst (role_cache s2) = map fst (role_cache s1)"
    by (simp add: s2_def s1_def update_keys)
  ultimately show ?thesis by blast
qed

theorem CreateRole_collides_witness:
  "\<exists>rid s1 s2. CreateRole 5 5 3 1 ''a'' 1 0 (idle role_init) = Ret (rid, idle s1) \<and>
     CreateRole 5 5 10003 2 ''b'' 1 0 (idle s1) = Ret (rid, idle s2) \<and>
     map_option account_id (map_of (role_cache s2) rid) = Some 2"
  using CreateRole_collides [of 3 10003 5 5 1 "''a''" 1 0 role_init 5 2 "''b''" 1 0] by auto

text \<open>
  A position that is stored is the one that is read back, and the role's own record, where the
  role exists, agrees with it.
\<close>

theorem position_roundtrip:
  "\<exists>s'. UpdateRolePosition rid pos (idle s) = Ret (True, idle s') \<and>
     GetRolePosition rid (idle s') = Ret (Some pos, idle s') \<and>
     (\<forall>d. map_of (role_cache s) rid = Some d \<longrightarrow>
        map_of (role_cache s') rid = Some (d\<lparr>current_scene := scene_id pos, position_x := x pos,
          position_y := y pos, position_z := z pos, rotation_y := pos_rotation_y pos\<rparr>))"
  by (cases "map_of (role_cache s) rid") (simp_all add: UpdateRolePosition_def GetRolePosition_def Let_def)

theorem position_roundtrip_witness:
  "\<exists>s'. UpdateRolePosition 7 \<lparr>scene_id = 3, x = 1, y = 2, z = 4, pos_rotation_y = 0\<rparr>
       (idle (role_init\<lparr>role_cache := [(7, blank_role)]\<rparr>)) = Ret (True, idle s') \<and>
     map_option current_scene (map_of (role_cache s') 7) = Some 3"
  using position_roundtrip [of 7 "\<lparr>scene_id = 3, x = 1, y = 2, z = 4, pos_rotation_y = 0\<rparr>"
    "role_init\<lparr>role_cache := [(7, blank_role)]\<rparr>"] by auto

end
