(* ===== verification/Mail.thy ===== *)
theory Mail
  imports Machine "HOL-Library.Multiset"
begin

text \<open>
  \<open>game_server/logic_server/mail_module.cc\<close>: the mail boxes of the roles. A mail is a small state
  machine (unread, read, attachment waiting, attachment taken, deleted); the box is bounded; the
  attachments of a mail are given out at most once.
\<close>

section \<open>Data\<close>

datatype MailStatus = UNREAD | READ | ATTACHMENT_NOT_TAKEN | ATTACHMENT_TAKEN | DELETED

datatype MailType = SYSTEM | PLAYER | GUILD | ACTIVITY

record MailAttachment =
  attachment_type :: i32
  att_item_id :: i32
  item_count :: i32

record MailInfo =
  mail_id :: u64
  sender_id :: u64
  sender_name :: string
  receiver_id :: u64
  title :: string
  content :: string
  mail_type :: MailType
  status :: MailStatus
  attachments :: "MailAttachment list"
  send_time :: time_t
  expire_time :: time_t
  read_time :: time_t

record MailModule =
  mail_cache :: "(u64 \<times> MailInfo list) list"
  new_mail_notify :: "(u64 \<times> bool) list"
  next_mail_id :: "u64 option"

definition MAX_MAIL_COUNT :: nat where "MAX_MAIL_COUNT = 100"

definition MAIL_EXPIRE_DAYS :: int where "MAIL_EXPIRE_DAYS = 30"

definition SYSTEM_MAIL_SENDER_ID :: u64 where "SYSTEM_MAIL_SENDER_ID = 0"

definition mail_init :: MailModule where
  "mail_init = \<lparr>mail_cache = [], new_mail_notify = [], next_mail_id = None\<rparr>"

section \<open>Operations\<close>

definition InitMail :: "u64 \<Rightarrow> (MailModule, bool) oper" where
  "InitMail role = guarded (\<lambda>s.
     case map_of (mail_cache s) role of
       Some _ \<Rightarrow> Ret (True, s)
     | None \<Rightarrow> Ret (True, s\<lparr>mail_cache := AList.update role [] (mail_cache s),
                           new_mail_notify := AList.update role False (new_mail_notify s)\<rparr>))"

definition live_mail :: "u64 \<Rightarrow> MailInfo \<Rightarrow> bool" where
  "live_mail mid m \<longleftrightarrow> mail_id m = mid \<and> status m \<noteq> DELETED"

definition GetMails :: "u64 \<Rightarrow> (MailModule, MailInfo list option) oper" where
  "GetMails role = guarded (\<lambda>s.
     Ret (map_option (filter (\<lambda>m. status m \<noteq> DELETED)) (map_of (mail_cache s) role), s))"

definition GetMailInfo :: "u64 \<Rightarrow> u64 \<Rightarrow> (MailModule, MailInfo option) oper" where
  "GetMailInfo role mid = guarded (\<lambda>s.
     Ret (case map_of (mail_cache s) role of
            None \<Rightarrow> None
          | Some mails \<Rightarrow> List.find (live_mail mid) mails, s))"

definition GenerateMailId :: "time_t \<Rightarrow> int \<Rightarrow> MailModule \<Rightarrow> u64 \<times> MailModule" where
  "GenerateMailId now rnd s =
     (let (i, c) = next_static_id now rnd (next_mail_id s) in (i, s\<lparr>next_mail_id := c\<rparr>))"

definition NotifyNewMail :: "u64 \<Rightarrow> bool" where
  "NotifyNewMail role = True"

definition evictable :: "MailInfo \<Rightarrow> bool" where
  "evictable m \<longleftrightarrow> status m = READ \<or> status m = ATTACHMENT_TAKEN"

text \<open>
  \<^verbatim>\<open>SendMailWithAttachments\<close> makes the box first, drops the oldest read mail of a full box, and
  refuses when that does not help. \<open>now\<close> is the clock and \<open>gt\<close>, \<open>rnd\<close> what the first
  generated identifier would be seeded with.
\<close>

definition box_of :: "MailModule \<Rightarrow> u64 \<Rightarrow> MailInfo list" where
  "box_of s r = (case map_of (mail_cache s) r of None \<Rightarrow> [] | Some b \<Rightarrow> b)"

definition make_room :: "MailInfo list \<Rightarrow> MailInfo list" where
  "make_room b = (if MAX_MAIL_COUNT \<le> length b then del_first evictable b else b)"

definition compose_mail ::
  "u64 \<Rightarrow> time_t \<Rightarrow> u64 \<Rightarrow> string \<Rightarrow> u64 \<Rightarrow> string \<Rightarrow> string \<Rightarrow> MailType \<Rightarrow> MailAttachment list \<Rightarrow> MailInfo" where
  "compose_mail mid now sid sname rid ttl cnt ty atts =
     \<lparr>mail_id = mid, sender_id = sid, sender_name = sname, receiver_id = rid,
      title = ttl, content = cnt, mail_type = ty,
      status = (if atts \<noteq> [] then ATTACHMENT_NOT_TAKEN else UNREAD),
      attachments = atts, send_time = now,
      expire_time = now + MAIL_EXPIRE_DAYS * 86400, read_time = 0\<rparr>"

definition deliver :: "u64 \<Rightarrow> MailInfo list \<Rightarrow> MailInfo \<Rightarrow> MailModule \<Rightarrow> MailModule" where
  "deliver rid box m s = s\<lparr>mail_cache := AList.update rid (box @ [m]) (mail_cache s),
                           new_mail_notify := AList.update rid True (new_mail_notify s)\<rparr>"

definition SendMailWithAttachments ::
  "time_t \<Rightarrow> time_t \<Rightarrow> int \<Rightarrow> u64 \<Rightarrow> string \<Rightarrow> u64 \<Rightarrow> string \<Rightarrow> string \<Rightarrow> MailType \<Rightarrow>
   MailAttachment list \<Rightarrow> (MailModule, bool) oper" where
  "SendMailWithAttachments gt now rnd sid sname rid ttl cnt ty atts = guarded (\<lambda>s.
     let box = make_room (box_of s rid);
         s1 = s\<lparr>mail_cache := AList.update rid box (mail_cache s)\<rparr>
     in if MAX_MAIL_COUNT \<le> length box then Ret (False, s1)
        else
          let (mid, s2) = GenerateMailId gt rnd s1;
              m = compose_mail mid now sid sname rid ttl cnt ty atts;
              s3 = deliver rid box m s2;
              _ = NotifyNewMail rid
          in Ret (True, s3))"

definition SendMail ::
  "time_t \<Rightarrow> time_t \<Rightarrow> int \<Rightarrow> u64 \<Rightarrow> string \<Rightarrow> u64 \<Rightarrow> string \<Rightarrow> string \<Rightarrow> MailType \<Rightarrow>
   (MailModule, bool) oper" where
  "SendMail gt now rnd sid sname rid ttl cnt ty =
     SendMailWithAttachments gt now rnd sid sname rid ttl cnt ty []"

definition SendSystemMail ::
  "time_t \<Rightarrow> time_t \<Rightarrow> int \<Rightarrow> u64 \<Rightarrow> string \<Rightarrow> string \<Rightarrow> (MailModule, bool) oper" where
  "SendSystemMail gt now rnd rid ttl cnt =
     SendMail gt now rnd SYSTEM_MAIL_SENDER_ID ''System'' rid ttl cnt SYSTEM"

definition SendSystemMailWithAttachments ::
  "time_t \<Rightarrow> time_t \<Rightarrow> int \<Rightarrow> u64 \<Rightarrow> string \<Rightarrow> string \<Rightarrow> MailAttachment list \<Rightarrow>
   (MailModule, bool) oper" where
  "SendSystemMailWithAttachments gt now rnd rid ttl cnt atts =
     SendMailWithAttachments gt now rnd SYSTEM_MAIL_SENDER_ID ''System'' rid ttl cnt SYSTEM atts"

text \<open>The broadcast takes the mutex once for each receiver; each send reads the clock anew.\<close>

primrec BroadcastSystemMail ::
  "(u64 \<times> time_t \<times> time_t \<times> int) list \<Rightarrow> string \<Rightarrow> string \<Rightarrow> (MailModule, bool) oper" where
  "BroadcastSystemMail [] ttl cnt = retM True"
| "BroadcastSystemMail (r # rs) ttl cnt =
     (case r of (rid, gt, now, rnd) \<Rightarrow>
        bindM (SendSystemMail gt now rnd rid ttl cnt) (\<lambda>_. BroadcastSystemMail rs ttl cnt))"

definition mark_read :: "time_t \<Rightarrow> MailInfo \<Rightarrow> MailInfo" where
  "mark_read now m = (if status m = UNREAD then m\<lparr>status := READ, read_time := now\<rparr> else m)"

definition ReadMail :: "time_t \<Rightarrow> u64 \<Rightarrow> u64 \<Rightarrow> (MailModule, bool) oper" where
  "ReadMail now role mid = guarded (\<lambda>s.
     case map_of (mail_cache s) role of
       None \<Rightarrow> Ret (False, s)
     | Some mails \<Rightarrow>
         (case List.find (live_mail mid) mails of
            None \<Rightarrow> Ret (False, s)
          | Some _ \<Rightarrow> Ret (True, s\<lparr>mail_cache := AList.update role
              (upd_first (live_mail mid) (mark_read now) mails) (mail_cache s)\<rparr>)))"

definition GetUnreadMailCount :: "u64 \<Rightarrow> (MailModule, i32) oper" where
  "GetUnreadMailCount role = guarded (\<lambda>s.
     case map_of (mail_cache s) role of
       None \<Rightarrow> Ret (0, s)
     | Some mails \<Rightarrow>
         Ret (int (length (filter (\<lambda>m. status m = UNREAD \<or> status m = ATTACHMENT_NOT_TAKEN) mails)), s))"

text \<open>
  The payout of a mail, as the switch over the kind of an attachment writes it out: gold (kind
  1), an item (kind 2), or nothing. The source so far only logs each payout; the calls below return
  the payouts in the order they are logged.
\<close>

datatype payout = Gold i32 | Item i32 i32

definition pay :: "MailAttachment \<Rightarrow> payout list" where
  "pay a = (if attachment_type a = 1 then [Gold (item_count a)]
            else if attachment_type a = 2 then [Item (att_item_id a) (item_count a)] else [])"

definition payouts :: "MailInfo \<Rightarrow> payout list" where
  "payouts m = concat (map pay (attachments m))"

definition TakeAttachment :: "u64 \<Rightarrow> u64 \<Rightarrow> (MailModule, bool \<times> payout list) oper" where
  "TakeAttachment role mid = guarded (\<lambda>s.
     case map_of (mail_cache s) role of
       None \<Rightarrow> Ret ((False, []), s)
     | Some mails \<Rightarrow>
         (case List.find (live_mail mid) mails of
            None \<Rightarrow> Ret ((False, []), s)
          | Some m \<Rightarrow>
              if status m \<noteq> ATTACHMENT_NOT_TAKEN then Ret ((False, []), s)
              else Ret ((True, payouts m), s\<lparr>mail_cache := AList.update role
                (upd_first (live_mail mid) (\<lambda>m. m\<lparr>status := ATTACHMENT_TAKEN\<rparr>) mails)
                (mail_cache s)\<rparr>)))"

definition take_waiting :: "MailInfo \<Rightarrow> MailInfo" where
  "take_waiting m =
     (if status m = ATTACHMENT_NOT_TAKEN then m\<lparr>status := ATTACHMENT_TAKEN\<rparr> else m)"

definition TakeAllAttachments :: "u64 \<Rightarrow> (MailModule, bool \<times> payout list) oper" where
  "TakeAllAttachments role = guarded (\<lambda>s.
     case map_of (mail_cache s) role of
       None \<Rightarrow> Ret ((False, []), s)
     | Some mails \<Rightarrow>
         Ret ((True, concat (map payouts (filter (\<lambda>m. status m = ATTACHMENT_NOT_TAKEN) mails))),
           s\<lparr>mail_cache := AList.update role (map take_waiting mails) (mail_cache s)\<rparr>))"

definition HasAttachment :: "u64 \<Rightarrow> u64 \<Rightarrow> (MailModule, bool) oper" where
  "HasAttachment role mid = guarded (\<lambda>s.
     Ret (case map_of (mail_cache s) role of
            None \<Rightarrow> False
          | Some mails \<Rightarrow>
              list_ex (\<lambda>m. mail_id m = mid \<and> status m = ATTACHMENT_NOT_TAKEN) mails, s))"

definition DeleteMail :: "u64 \<Rightarrow> u64 \<Rightarrow> (MailModule, bool) oper" where
  "DeleteMail role mid = guarded (\<lambda>s.
     case map_of (mail_cache s) role of
       None \<Rightarrow> Ret (False, s)
     | Some mails \<Rightarrow>
         (case List.find (live_mail mid) mails of
            None \<Rightarrow> Ret (False, s)
          | Some m \<Rightarrow>
              if status m = ATTACHMENT_NOT_TAKEN then Ret (False, s)
              else Ret (True, s\<lparr>mail_cache := AList.update role
                (upd_first (live_mail mid) (\<lambda>m. m\<lparr>status := DELETED\<rparr>) mails) (mail_cache s)\<rparr>)))"

definition delete_if_read :: "MailInfo \<Rightarrow> MailInfo" where
  "delete_if_read m =
     (if status m = READ \<or> status m = ATTACHMENT_TAKEN then m\<lparr>status := DELETED\<rparr> else m)"

definition DeleteReadMails :: "u64 \<Rightarrow> (MailModule, bool) oper" where
  "DeleteReadMails role = guarded (\<lambda>s.
     case map_of (mail_cache s) role of
       None \<Rightarrow> Ret (False, s)
     | Some mails \<Rightarrow>
         Ret (True, s\<lparr>mail_cache := AList.update role (map delete_if_read mails) (mail_cache s)\<rparr>))"

definition delete_if_expired :: "time_t \<Rightarrow> MailInfo \<Rightarrow> MailInfo" where
  "delete_if_expired now m =
     (if status m \<noteq> DELETED \<and> now > expire_time m then m\<lparr>status := DELETED\<rparr> else m)"

definition DeleteExpiredMails :: "time_t \<Rightarrow> u64 \<Rightarrow> (MailModule, bool) oper" where
  "DeleteExpiredMails now role = guarded (\<lambda>s.
     case map_of (mail_cache s) role of
       None \<Rightarrow> Ret (False, s)
     | Some mails \<Rightarrow>
         Ret (True, s\<lparr>mail_cache := AList.update role (map (delete_if_expired now) mails)
           (mail_cache s)\<rparr>))"

definition CleanExpiredMails :: "time_t \<Rightarrow> u64 \<Rightarrow> (MailModule, bool) oper" where
  "CleanExpiredMails now role = DeleteExpiredMails now role"

definition CleanDeletedMails :: "u64 \<Rightarrow> (MailModule, bool) oper" where
  "CleanDeletedMails role = guarded (\<lambda>s.
     case map_of (mail_cache s) role of
       None \<Rightarrow> Ret (False, s)
     | Some mails \<Rightarrow>
         Ret (True, s\<lparr>mail_cache := AList.update role (filter (\<lambda>m. status m \<noteq> DELETED) mails)
           (mail_cache s)\<rparr>))"

definition HasNewMail :: "u64 \<Rightarrow> (MailModule, bool) oper" where
  "HasNewMail role = guarded (\<lambda>s.
     case map_of (new_mail_notify s) role of
       None \<Rightarrow> Ret (False, s)
     | Some b \<Rightarrow> Ret (b, s\<lparr>new_mail_notify := AList.update role False (new_mail_notify s)\<rparr>))"

definition LoadMailData :: "u64 \<Rightarrow> (MailModule, bool) oper" where
  "LoadMailData role = bindM (InitMail role) (\<lambda>_. retM True)"

definition SaveMailData :: "u64 \<Rightarrow> (MailModule, bool) oper" where
  "SaveMailData role = guarded (\<lambda>s. Ret (map_of (mail_cache s) role \<noteq> None, s))"

definition SaveSingleMail :: "u64 \<Rightarrow> MailInfo \<Rightarrow> (MailModule, bool) oper" where
  "SaveSingleMail role m = retM True"

text \<open>The timer treats every box the way \<^verbatim>\<open>DeleteExpiredMails\<close> treats one.\<close>

definition OnTimer :: "time_t \<Rightarrow> (MailModule, unit) oper" where
  "OnTimer now = guarded (\<lambda>s.
     Ret ((), s\<lparr>mail_cache := map_vals (\<lambda>_. map (delete_if_expired now)) (mail_cache s)\<rparr>))"

definition IsMailExpired :: "time_t \<Rightarrow> MailInfo \<Rightarrow> bool" where
  "IsMailExpired now m \<longleftrightarrow> now > expire_time m"

section \<open>The life of a mail\<close>

text \<open>The transitions of the status of a mail, and the steps a box can make.\<close>

inductive mail_step :: "MailStatus \<Rightarrow> MailStatus \<Rightarrow> bool" where
  read: "mail_step UNREAD READ"
| take: "mail_step ATTACHMENT_NOT_TAKEN ATTACHMENT_TAKEN"
| drop_unread: "mail_step UNREAD DELETED"
| drop_read: "mail_step READ DELETED"
| drop_taken: "mail_step ATTACHMENT_TAKEN DELETED"
| expire: "mail_step ATTACHMENT_NOT_TAKEN DELETED"

inductive_cases mail_step_from_deleted: "mail_step DELETED s"

inductive_simps mail_step_simps [simp]:
  "mail_step UNREAD s" "mail_step READ s" "mail_step ATTACHMENT_NOT_TAKEN s"
  "mail_step ATTACHMENT_TAKEN s" "mail_step DELETED s"

text \<open>One mail before and after: only the status and the time of reading may differ.\<close>

definition mail_evolves :: "MailInfo \<Rightarrow> MailInfo \<Rightarrow> bool" where
  "mail_evolves m m' \<longleftrightarrow> (\<exists>t. m' = m\<lparr>status := status m', read_time := t\<rparr>) \<and>
     (status m' = status m \<or> mail_step (status m) (status m'))"

lemma mail_evolves_refl [simp]: "mail_evolves m m"
  by (auto simp: mail_evolves_def intro: exI [of _ "read_time m"])

definition mail_ok :: "u64 \<Rightarrow> MailInfo \<Rightarrow> bool" where
  "mail_ok role m \<longleftrightarrow> receiver_id m = role \<and> expire_time m = send_time m + 2592000 \<and>
     (status m = UNREAD \<or> status m = READ \<longrightarrow> attachments m = []) \<and>
     (status m = ATTACHMENT_NOT_TAKEN \<or> status m = ATTACHMENT_TAKEN \<longrightarrow> attachments m \<noteq> [])"

lemma mail_ok_evolves: "mail_evolves m m' \<Longrightarrow> mail_ok role m \<Longrightarrow> mail_ok role m'"
  by (cases "status m"; cases "status m'") (auto simp: mail_evolves_def mail_ok_def)

lemma mail_changes_evolve:
  "mail_evolves m (mark_read now m)" "mail_evolves m (take_waiting m)"
  "mail_evolves m (delete_if_read m)" "mail_evolves m (delete_if_expired now m)"
  "status m = ATTACHMENT_NOT_TAKEN \<Longrightarrow> mail_evolves m (m\<lparr>status := ATTACHMENT_TAKEN\<rparr>)"
  "status m \<noteq> ATTACHMENT_NOT_TAKEN \<Longrightarrow> status m \<noteq> DELETED \<Longrightarrow> mail_evolves m (m\<lparr>status := DELETED\<rparr>)"
  by (cases m; cases "status m";
      force simp: mail_evolves_def mark_read_def take_waiting_def delete_if_read_def
        delete_if_expired_def)+

text \<open>
  A box evolves: every mail afterwards is a mail of before that made at most one step, or a new
  mail in its first state; and the box stays within the bound.
\<close>

definition new_mail :: "MailInfo \<Rightarrow> bool" where
  "new_mail m \<longleftrightarrow> read_time m = 0 \<and>
     status m = (if attachments m = [] then UNREAD else ATTACHMENT_NOT_TAKEN)"

definition box_evolves :: "MailInfo list \<Rightarrow> MailInfo list \<Rightarrow> bool" where
  "box_evolves b b' \<longleftrightarrow>
     (\<forall>m'\<in>set b'. (\<exists>m\<in>set b. mail_evolves m m') \<or> new_mail m') \<and>
     (length b \<le> MAX_MAIL_COUNT \<longrightarrow> length b' \<le> MAX_MAIL_COUNT)"

lemma box_evolves_map: "(\<And>m. mail_evolves m (f m)) \<Longrightarrow> box_evolves b (map f b)"
  by (auto simp: box_evolves_def)

lemma box_evolves_subset:
  "set b' \<subseteq> set b \<Longrightarrow> length b' \<le> length b \<Longrightarrow> box_evolves b b'"
  unfolding box_evolves_def by (meson le_trans mail_evolves_refl subsetD)

lemma box_evolves_upd_first:
  assumes "List.find p b = Some m" and "mail_evolves m (f m)"
  shows "box_evolves b (upd_first p f b)"
proof -
  have "\<exists>x\<in>set b. mail_evolves x y" if "y \<in> set (upd_first p f b)" for y
    using upd_first_found_cases [OF assms(1) that]
  proof
    assume "y \<in> set b"
    then show ?thesis by (intro bexI [of _ y]) simp
  next
    assume "y = f m"
    with assms(2) find_Some_mem [OF assms(1)] show ?thesis by (intro bexI [of _ m]) simp_all
  qed
  then show ?thesis by (auto simp: box_evolves_def)
qed

section \<open>What is paid out\<close>

text \<open>
  \<open>waiting\<close> is what the waiting attachments of a box would pay, as a multiset. Taking an
  attachment moves its payout out of the box; nothing but a sent mail moves one in.
\<close>

definition waiting :: "MailInfo list \<Rightarrow> payout multiset" where
  "waiting b = mset (concat (map payouts (filter (\<lambda>m. status m = ATTACHMENT_NOT_TAKEN) b)))"

lemma waiting_simps [simp]:
  "waiting [] = {#}"
  "waiting (m # b) = (if status m = ATTACHMENT_NOT_TAKEN then mset (payouts m) else {#}) + waiting b"
  "waiting (b @ c) = waiting b + waiting c"
  by (simp_all add: waiting_def)

lemma waiting_take:
  "List.find p b = Some m \<Longrightarrow> status m = ATTACHMENT_NOT_TAKEN \<Longrightarrow>
   waiting b = waiting (upd_first p (\<lambda>m. m\<lparr>status := ATTACHMENT_TAKEN\<rparr>) b) + mset (payouts m)"
  by (induction b) (auto split: if_splits)

lemma waiting_take_all: "waiting (map take_waiting b) = {#}"
  by (induction b) (auto simp: take_waiting_def)

lemma waiting_map_le:
  "(\<And>m. status (f m) = ATTACHMENT_NOT_TAKEN \<Longrightarrow> f m = m) \<Longrightarrow> waiting (map f b) \<subseteq># waiting b"
proof (induction b)
  case Nil
  then show ?case by simp
next
  case (Cons m b)
  then have IH: "waiting (map f b) \<subseteq># waiting b" by simp
  show ?case
  proof (cases "status (f m) = ATTACHMENT_NOT_TAKEN")
    case True
    with Cons.prems have "f m = m" by simp
    with True IH show ?thesis by simp
  next
    case False
    with IH show ?thesis by (simp add: subset_mset.add_increasing)
  qed
qed

lemma waiting_del_first_evictable: "waiting (del_first evictable b) = waiting b"
  by (induction b) (auto simp: evictable_def)

lemma waiting_filter_deleted: "waiting (filter (\<lambda>m. status m \<noteq> DELETED) b) = waiting b"
  by (induction b) auto

lemma waiting_upd_first_same:
  "List.find p b = Some m \<Longrightarrow> status m \<noteq> ATTACHMENT_NOT_TAKEN \<Longrightarrow> status (f m) \<noteq> ATTACHMENT_NOT_TAKEN \<Longrightarrow>
   waiting (upd_first p f b) = waiting b"
  by (induction b) (auto split: if_splits)

lemma waiting_upd_first_read: "waiting (upd_first p (mark_read now) b) = waiting b"
  by (induction b) (auto simp: mark_read_def)

section \<open>The mail module as a machine\<close>

datatype mail_cmd =
    CInitMail u64
  | CGetMails u64
  | CGetMailInfo u64 u64
  | CSendMail time_t time_t int u64 string u64 string string MailType
  | CSendMailWithAttachments time_t time_t int u64 string u64 string string MailType "MailAttachment list"
  | CSendSystemMail time_t time_t int u64 string string
  | CSendSystemMailWithAttachments time_t time_t int u64 string string "MailAttachment list"
  | CReadMail time_t u64 u64
  | CGetUnreadMailCount u64
  | CTakeAttachment u64 u64
  | CTakeAllAttachments u64
  | CHasAttachment u64 u64
  | CDeleteMail u64 u64
  | CDeleteReadMails u64
  | CDeleteExpiredMails time_t u64
  | CCleanExpiredMails time_t u64
  | CCleanDeletedMails u64
  | CHasNewMail u64
  | CLoadMailData u64
  | CSaveMailData u64
  | CSaveSingleMail u64 MailInfo
  | COnTimer time_t

text \<open>The reply of a command: its answer and what it paid out.\<close>

definition no_pay :: "(MailModule, bool) oper \<Rightarrow> (MailModule, bool \<times> payout list) oper" where
  "no_pay p m = bindO (p m) (\<lambda>(b, m'). Ret ((b, []), m'))"

fun mail_exec :: "mail_cmd \<Rightarrow> (MailModule, bool \<times> payout list) oper" where
  "mail_exec (CInitMail r) = no_pay (InitMail r)"
| "mail_exec (CGetMails r) = no_pay (succeeded (GetMails r))"
| "mail_exec (CGetMailInfo r i) = no_pay (succeeded (GetMailInfo r i))"
| "mail_exec (CSendMail gt now rnd sid sn rid t c ty) = no_pay (SendMail gt now rnd sid sn rid t c ty)"
| "mail_exec (CSendMailWithAttachments gt now rnd sid sn rid t c ty atts) =
     no_pay (SendMailWithAttachments gt now rnd sid sn rid t c ty atts)"
| "mail_exec (CSendSystemMail gt now rnd rid t c) = no_pay (SendSystemMail gt now rnd rid t c)"
| "mail_exec (CSendSystemMailWithAttachments gt now rnd rid t c atts) =
     no_pay (SendSystemMailWithAttachments gt now rnd rid t c atts)"
| "mail_exec (CReadMail now r i) = no_pay (ReadMail now r i)"
| "mail_exec (CGetUnreadMailCount r) = no_pay (bindM (GetUnreadMailCount r) (\<lambda>_. retM True))"
| "mail_exec (CTakeAttachment r i) = TakeAttachment r i"
| "mail_exec (CTakeAllAttachments r) = TakeAllAttachments r"
| "mail_exec (CHasAttachment r i) = no_pay (HasAttachment r i)"
| "mail_exec (CDeleteMail r i) = no_pay (DeleteMail r i)"
| "mail_exec (CDeleteReadMails r) = no_pay (DeleteReadMails r)"
| "mail_exec (CDeleteExpiredMails now r) = no_pay (DeleteExpiredMails now r)"
| "mail_exec (CCleanExpiredMails now r) = no_pay (CleanExpiredMails now r)"
| "mail_exec (CCleanDeletedMails r) = no_pay (CleanDeletedMails r)"
| "mail_exec (CHasNewMail r) = no_pay (HasNewMail r)"
| "mail_exec (CLoadMailData r) = no_pay (LoadMailData r)"
| "mail_exec (CSaveMailData r) = no_pay (SaveMailData r)"
| "mail_exec (CSaveSingleMail r m) = no_pay (SaveSingleMail r m)"
| "mail_exec (COnTimer now) = no_pay (bindM (OnTimer now) (\<lambda>_. retM True))"

section \<open>Steps of the operations\<close>

lemma box_of_Some [simp]: "map_of (mail_cache s) r = Some b \<Longrightarrow> box_of s r = b"
  by (simp add: box_of_def)

lemma box_of_update:
  "mail_cache s' = AList.update role b (mail_cache s) \<Longrightarrow> box_of s' r = (if r = role then b else box_of s r)"
  by (simp add: box_of_def)

lemma box_of_cong: "mail_cache s' = mail_cache s \<Longrightarrow> box_of s' r = box_of s r"
  by (simp add: box_of_def)

definition mail_inv :: "MailModule \<Rightarrow> bool" where
  "mail_inv s \<longleftrightarrow> keys_ok (mail_cache s) \<and> keys_ok (new_mail_notify s) \<and>
     (\<forall>r. length (box_of s r) \<le> MAX_MAIL_COUNT \<and> (\<forall>m\<in>set (box_of s r). mail_ok r m))"

text \<open>A step that pays \<open>paid\<close> and sends \<open>sent\<close> to the box of \<open>role\<close>, and to no other box.\<close>

definition mail_moves ::
  "u64 \<Rightarrow> payout multiset \<Rightarrow> payout multiset \<Rightarrow> MailModule \<Rightarrow> MailModule \<Rightarrow> bool" where
  "mail_moves role paid sent s s' \<longleftrightarrow> (mail_inv s \<longrightarrow> mail_inv s') \<and>
     (\<forall>r. box_evolves (box_of s r) (box_of s' r) \<and>
        waiting (box_of s' r) + (if r = role then paid else {#}) \<subseteq>#
          waiting (box_of s r) + (if r = role then sent else {#}))"

abbreviation quiet :: "MailModule \<Rightarrow> MailModule \<Rightarrow> bool" where
  "quiet \<equiv> mail_moves 0 {#} {#}"

lemma quiet_any_role: "mail_moves role {#} {#} = quiet"
  by (intro ext) (simp add: mail_moves_def)

lemma box_evolves_refl [simp]: "box_evolves b b"
  by (rule box_evolves_subset) auto

lemma mail_moves_same:
  assumes "mail_cache s' = mail_cache s" and "same_or_put k (new_mail_notify s) (new_mail_notify s')"
  shows "quiet s s'"
  using assms same_or_put_keys [OF assms(2)]
  by (simp add: mail_moves_def mail_inv_def box_of_cong [OF assms(1)])

lemma quiet_refl [simp]: "quiet s s"
  by (rule mail_moves_same) simp_all

lemma mail_moves_refl [simp]: "mail_moves role {#} {#} s s"
  by (simp add: mail_moves_def)

lemma mail_moves_box:
  assumes box: "mail_cache s' = AList.update role b' (mail_cache s)"
    and n: "same_or_put k (new_mail_notify s) (new_mail_notify s')"
    and ev: "box_evolves (box_of s role) b'"
    and new: "\<And>m. m \<in> set b' \<Longrightarrow> (\<exists>m0\<in>set (box_of s role). mail_evolves m0 m) \<or> mail_ok role m"
    and w: "waiting b' + paid \<subseteq># waiting (box_of s role) + sent"
  shows "mail_moves role paid sent s s'"
proof -
  have "mail_inv s'" if inv: "mail_inv s"
    unfolding mail_inv_def
  proof (intro conjI allI ballI)
    show "keys_ok (mail_cache s')" "keys_ok (new_mail_notify s')"
      using inv box same_or_put_keys [OF n] by (simp_all add: mail_inv_def)
    fix r
    show "length (box_of s' r) \<le> MAX_MAIL_COUNT"
      using inv ev by (simp add: box_of_update [OF box] mail_inv_def box_evolves_def)
    fix m
    assume m: "m \<in> set (box_of s' r)"
    show "mail_ok r m"
    proof (cases "r = role")
      case True
      with m new [of m] inv show ?thesis
        by (auto simp: box_of_update [OF box] mail_inv_def intro: mail_ok_evolves)
    next
      case False
      with m inv show ?thesis by (simp add: box_of_update [OF box] mail_inv_def)
    qed
  qed
  with ev w show ?thesis by (simp add: mail_moves_def box_of_update [OF box])
qed

lemma quiet_map:
  assumes "map_of (mail_cache s) role = Some b"
    and "\<And>m. mail_evolves m (f m)" and "\<And>m. status (f m) = ATTACHMENT_NOT_TAKEN \<Longrightarrow> f m = m"
  shows "quiet s (s\<lparr>mail_cache := AList.update role (map f b) (mail_cache s)\<rparr>)"
  unfolding quiet_any_role [symmetric, of role]
  by (rule mail_moves_box [where b' = "map f b"])
    (use assms in \<open>auto intro: box_evolves_map waiting_map_le\<close>)

lemma quiet_upd_first:
  assumes "map_of (mail_cache s) role = Some b" and f: "List.find p b = Some m"
    and ev: "mail_evolves m (f m)" and w: "waiting (upd_first p f b) \<subseteq># waiting b"
  shows "quiet s (s\<lparr>mail_cache := AList.update role (upd_first p f b) (mail_cache s)\<rparr>)"
  unfolding quiet_any_role [symmetric, of role]
proof (rule mail_moves_box [where b' = "upd_first p f b"])
  fix y
  assume "y \<in> set (upd_first p f b)"
  with upd_first_found_cases [OF f] have "y \<in> set b \<or> y = f m" by blast
  with find_Some_mem [OF f] ev mail_evolves_refl [of y] assms(1)
  show "(\<exists>m0\<in>set (box_of s role). mail_evolves m0 y) \<or> mail_ok role y"
    by (metis box_of_Some)
qed (use assms in \<open>auto intro: box_evolves_upd_first [OF f]\<close>)

lemma steps_by_no_pay: "steps_by R p \<Longrightarrow> steps_by R (no_pay p)"
  by (fastforce simp: steps_by_def no_pay_def split: prod.splits)

lemma never_relocks_no_pay: "never_relocks p \<Longrightarrow> never_relocks (no_pay p)"
  by (auto simp: never_relocks_def no_pay_def bindO_eq_Fault split: prod.splits)

lemma mail_query_steps:
  "steps_by quiet (GetMails r)" "steps_by quiet (GetMailInfo r i)"
  "steps_by quiet (GetUnreadMailCount r)" "steps_by quiet (HasAttachment r i)"
  "steps_by quiet (SaveMailData r)" "steps_by quiet (SaveSingleMail r m)"
  by (auto simp: GetMails_def GetMailInfo_def GetUnreadMailCount_def HasAttachment_def
      SaveMailData_def SaveSingleMail_def intro!: steps_by_guarded steps_by_retM split: option.splits)

lemma InitMail_steps: "steps_by quiet (InitMail r)"
  unfolding InitMail_def
proof (rule steps_by_guarded, goal_cases)
  case (1 s ok s')
  show ?case
  proof (cases "map_of (mail_cache s) r")
    case None
    with 1 have s': "mail_cache s' = AList.update r [] (mail_cache s)"
      "new_mail_notify s' = AList.update r False (new_mail_notify s)" by auto
    show ?thesis unfolding quiet_any_role [symmetric, of r]
      by (rule mail_moves_box [OF s'(1), where k = r])
        (use None in \<open>auto simp: s'(2) box_of_def box_evolves_def\<close>)
  next
    case (Some b)
    with 1 show ?thesis by simp
  qed
qed

lemma ReadMail_steps: "steps_by quiet (ReadMail now r i)"
  by (auto simp: ReadMail_def waiting_upd_first_read mail_changes_evolve intro!: steps_by_guarded quiet_upd_first
      split: option.splits)

lemma DeleteMail_steps: "steps_by quiet (DeleteMail r i)"
  unfolding DeleteMail_def
proof (rule steps_by_guarded, goal_cases)
  case (1 s ok s')
  show ?case
  proof (cases "s' = s")
    case True
    then show ?thesis by simp
  next
    case False
    with 1 obtain b m where b: "map_of (mail_cache s) r = Some b"
      and m: "List.find (live_mail i) b = Some m" "status m \<noteq> ATTACHMENT_NOT_TAKEN"
      and s': "s' = s\<lparr>mail_cache := AList.update r
        (upd_first (live_mail i) (\<lambda>m. m\<lparr>status := DELETED\<rparr>) b) (mail_cache s)\<rparr>"
      by (auto split: option.splits if_splits)
    have "status m \<noteq> DELETED" using find_Some_mem [OF m(1)] by (simp add: live_mail_def)
    with m show ?thesis unfolding s'
      by (intro quiet_upd_first [OF b m(1)] mail_changes_evolve) (simp_all add: waiting_upd_first_same)
  qed
qed

lemma mail_sweep_steps:
  "steps_by quiet (DeleteReadMails r)" "steps_by quiet (DeleteExpiredMails now r)"
  "steps_by quiet (CleanExpiredMails now r)"
  by (auto simp: DeleteReadMails_def DeleteExpiredMails_def CleanExpiredMails_def
      intro!: steps_by_guarded quiet_map mail_changes_evolve split: option.splits)
    (auto simp: delete_if_read_def delete_if_expired_def split: if_splits)

lemma CleanDeletedMails_steps: "steps_by quiet (CleanDeletedMails r)"
  unfolding CleanDeletedMails_def
proof (rule steps_by_guarded, goal_cases)
  case (1 s ok s')
  show ?case
  proof (cases "map_of (mail_cache s) r")
    case None
    with 1 show ?thesis by simp
  next
    case (Some b)
    let ?b = "filter (\<lambda>m. status m \<noteq> DELETED) b"
    from 1 Some have s': "mail_cache s' = AList.update r ?b (mail_cache s)"
      "new_mail_notify s' = new_mail_notify s" by auto
    show ?thesis unfolding quiet_any_role [symmetric, of r]
      by (rule mail_moves_box [OF s'(1), where k = 0])
        (use Some in \<open>auto simp: s'(2) waiting_filter_deleted intro: box_evolves_subset mail_evolves_refl\<close>)
  qed
qed

lemma HasNewMail_steps: "steps_by quiet (HasNewMail r)"
  by (auto simp: HasNewMail_def intro!: steps_by_guarded mail_moves_same [where k = r]
      split: option.splits)

lemma box_of_map_vals:
  "mail_cache s' = map_vals (\<lambda>_. map f) (mail_cache s) \<Longrightarrow> box_of s' r = map f (box_of s r)"
  by (simp add: box_of_def split: option.split)

lemma OnTimer_steps: "steps_by quiet (OnTimer now)"
  unfolding OnTimer_def
proof (rule steps_by_guarded, goal_cases)
  case (1 s ok s')
  let ?f = "delete_if_expired now"
  from 1 have s': "mail_cache s' = map_vals (\<lambda>_. map ?f) (mail_cache s)"
    "new_mail_notify s' = new_mail_notify s" by auto
  have ev: "mail_evolves m (?f m)" for m by (rule mail_changes_evolve)
  have "mail_inv s'" if "mail_inv s"
    using that by (auto simp: mail_inv_def box_of_map_vals [OF s'(1)] s' intro: mail_ok_evolves [OF ev])
  moreover have "waiting (map ?f b) \<subseteq># waiting b" for b
    by (rule waiting_map_le) (auto simp: delete_if_expired_def split: if_splits)
  ultimately show ?case
    by (simp add: mail_moves_def box_of_map_vals [OF s'(1)] box_evolves_map [OF ev])
qed

lemma GenerateMailId_state:
  "GenerateMailId gt rnd s = (i, s1) \<Longrightarrow>
   mail_cache s1 = mail_cache s \<and> new_mail_notify s1 = new_mail_notify s"
  by (auto simp: GenerateMailId_def split: prod.splits)

lemma set_del_firstD: "x \<in> set (del_first p xs) \<Longrightarrow> x \<in> set xs"
  using set_del_first by fastforce

lemma Send_body:
  assumes "SendMailWithAttachments gt now rnd sid sn rid t c ty atts (idle s) = Ret (ok, m')"
  obtains (full) "\<not> ok" "MAX_MAIL_COUNT \<le> length (make_room (box_of s rid))"
      "m' = idle (s\<lparr>mail_cache := AList.update rid (make_room (box_of s rid)) (mail_cache s)\<rparr>)"
  | (sent) i s' where "ok" "length (make_room (box_of s rid)) < MAX_MAIL_COUNT" "m' = idle s'"
      "mail_cache s' = AList.update rid (make_room (box_of s rid) @
         [compose_mail i now sid sn rid t c ty atts]) (mail_cache s)"
      "new_mail_notify s' = AList.update rid True (new_mail_notify s)"
proof -
  let ?box = "make_room (box_of s rid)"
  let ?s1 = "s\<lparr>mail_cache := AList.update rid ?box (mail_cache s)\<rparr>"
  obtain i s2 where gen: "GenerateMailId gt rnd ?s1 = (i, s2)" by fastforce
  from assms show thesis
  proof (cases "MAX_MAIL_COUNT \<le> length ?box")
    case True
    with assms show thesis by (auto simp: SendMailWithAttachments_def intro: full)
  next
    case False
    let ?s3 = "deliver rid ?box (compose_mail i now sid sn rid t c ty atts) s2"
    from assms False gen have "ok" "m' = idle ?s3"
      by (auto simp: SendMailWithAttachments_def Let_def)
    moreover have "mail_cache ?s3 = AList.update rid (?box @
         [compose_mail i now sid sn rid t c ty atts]) (mail_cache s)"
      "new_mail_notify ?s3 = AList.update rid True (new_mail_notify s)"
      using GenerateMailId_state [OF gen] by (simp_all add: deliver_def)
    ultimately show thesis using False by (intro sent) auto
  qed
qed

lemma make_room_facts:
  "set (make_room b) \<subseteq> set b" "length (make_room b) \<le> length b" "waiting (make_room b) = waiting b"
  by (auto simp: make_room_def length_del_first_le waiting_del_first_evictable dest: set_del_firstD)

lemma Send_moves:
  assumes "SendMailWithAttachments gt now rnd sid sn rid t c ty atts (idle s) = Ret (ok, m')"
  shows "\<exists>s'. m' = idle s' \<and>
    mail_moves rid {#} (if ok then mset (concat (map pay atts)) else {#}) s s'"
proof -
  let ?box = "make_room (box_of s rid)"
  have old: "\<exists>m0\<in>set (box_of s rid). mail_evolves m0 x" if "x \<in> set ?box" for x
    using make_room_facts(1) that mail_evolves_refl by blast
  from assms show ?thesis
  proof (cases rule: Send_body)
    case full
    let ?s1 = "s\<lparr>mail_cache := AList.update rid ?box (mail_cache s)\<rparr>"
    have "mail_moves rid {#} {#} s ?s1"
      by (rule mail_moves_box [where b' = ?box and k = 0])
        (use old make_room_facts in \<open>auto intro!: box_evolves_subset\<close>)
    with full show ?thesis by auto
  next
    case (sent i s')
    let ?m = "compose_mail i now sid sn rid t c ty atts"
    have "mail_moves rid {#} (mset (concat (map pay atts))) s s'"
    proof (rule mail_moves_box [OF sent(4), where k = rid])
      have "new_mail ?m" by (simp add: new_mail_def compose_mail_def)
      with old sent(2) show "box_evolves (box_of s rid) (?box @ [?m])"
        by (auto simp: box_evolves_def)
      have "mail_ok rid ?m" by (simp add: mail_ok_def compose_mail_def MAIL_EXPIRE_DAYS_def)
      with old show "(\<exists>m0\<in>set (box_of s rid). mail_evolves m0 x) \<or> mail_ok rid x"
        if "x \<in> set (?box @ [?m])" for x using that by auto
      show "waiting (?box @ [?m]) + {#} \<subseteq># waiting (box_of s rid) + mset (concat (map pay atts))"
        by (simp add: make_room_facts payouts_def compose_mail_def)
    qed (simp add: sent(5))
    with sent show ?thesis by auto
  qed
qed

lemma TakeAttachment_moves:
  assumes "TakeAttachment role i (idle s) = Ret ((ok, ps), m')"
  shows "\<exists>s'. m' = idle s' \<and> mail_moves role (mset ps) {#} s s'"
proof (cases "m' = idle s \<and> ps = []")
  case True
  then show ?thesis by auto
next
  case False
  with assms obtain b m where b: "map_of (mail_cache s) role = Some b"
    and m: "List.find (live_mail i) b = Some m" "status m = ATTACHMENT_NOT_TAKEN"
    and ps: "ps = payouts m"
    and m': "m' = idle (s\<lparr>mail_cache := AList.update role
      (upd_first (live_mail i) (\<lambda>m. m\<lparr>status := ATTACHMENT_TAKEN\<rparr>) b) (mail_cache s)\<rparr>)"
    by (auto simp: TakeAttachment_def split: option.splits if_splits)
  let ?b = "upd_first (live_mail i) (\<lambda>m. m\<lparr>status := ATTACHMENT_TAKEN\<rparr>) b"
  have ev: "mail_evolves m (m\<lparr>status := ATTACHMENT_TAKEN\<rparr>)"
    using m(2) by (rule mail_changes_evolve)
  have "mail_moves role (mset ps) {#} s (s\<lparr>mail_cache := AList.update role ?b (mail_cache s)\<rparr>)"
  proof (rule mail_moves_box [where b' = ?b and k = 0])
    show "box_evolves (box_of s role) ?b"
      using b ev by (simp add: box_evolves_upd_first [OF m(1)])
    show "(\<exists>m0\<in>set (box_of s role). mail_evolves m0 x) \<or> mail_ok role x" if "x \<in> set ?b" for x
      using upd_first_found_cases [OF m(1) that]
    proof
      assume "x \<in> set b"
      with b have "\<exists>m0\<in>set (box_of s role). mail_evolves m0 x" by (intro bexI [of _ x]) simp_all
      then show ?thesis ..
    next
      assume "x = m\<lparr>status := ATTACHMENT_TAKEN\<rparr>"
      with b ev find_Some_mem [OF m(1)] have "\<exists>m0\<in>set (box_of s role). mail_evolves m0 x"
        by (intro bexI [of _ m]) simp_all
      then show ?thesis ..
    qed
    show "waiting ?b + mset ps \<subseteq># waiting (box_of s role) + {#}"
      using b waiting_take [OF m] by (simp add: ps)
  qed simp_all
  with m' show ?thesis by blast
qed

lemma TakeAllAttachments_moves:
  assumes "TakeAllAttachments role (idle s) = Ret ((ok, ps), m')"
  shows "\<exists>s'. m' = idle s' \<and> mail_moves role (mset ps) {#} s s'"
proof (cases "map_of (mail_cache s) role")
  case None
  with assms show ?thesis by (auto simp: TakeAllAttachments_def)
next
  case (Some b)
  let ?s' = "s\<lparr>mail_cache := AList.update role (map take_waiting b) (mail_cache s)\<rparr>"
  from assms Some have ps: "mset ps = waiting b" and m': "m' = idle ?s'"
    by (auto simp: TakeAllAttachments_def waiting_def)
  have "mail_moves role (mset ps) {#} s ?s'"
  proof (rule mail_moves_box [where b' = "map take_waiting b" and k = 0])
    show "box_evolves (box_of s role) (map take_waiting b)"
      using Some by (simp add: box_evolves_map mail_changes_evolve)
    show "(\<exists>m0\<in>set (box_of s role). mail_evolves m0 x) \<or> mail_ok role x"
      if "x \<in> set (map take_waiting b)" for x
      using that Some mail_changes_evolve(2) by auto
  qed (use Some in \<open>auto simp: ps waiting_take_all\<close>)
  with m' show ?thesis by blast
qed

section \<open>Runs of the mail module\<close>

fun mail_receiver :: "mail_cmd \<Rightarrow> u64" where
  "mail_receiver (CSendMail gt now rnd sid sn rid t c ty) = rid"
| "mail_receiver (CSendMailWithAttachments gt now rnd sid sn rid t c ty atts) = rid"
| "mail_receiver (CSendSystemMail gt now rnd rid t c) = rid"
| "mail_receiver (CSendSystemMailWithAttachments gt now rnd rid t c atts) = rid"
| "mail_receiver (CTakeAttachment r i) = r"
| "mail_receiver (CTakeAllAttachments r) = r"
| "mail_receiver _ = 0"

text \<open>The payouts a command sends to its receiver when it answers \<^verbatim>\<open>true\<close>.\<close>

fun mail_sends :: "mail_cmd \<Rightarrow> payout multiset" where
  "mail_sends (CSendMailWithAttachments gt now rnd sid sn rid t c ty atts) = mset (concat (map pay atts))"
| "mail_sends (CSendSystemMailWithAttachments gt now rnd rid t c atts) = mset (concat (map pay atts))"
| "mail_sends _ = {#}"

lemma no_pay_RetD:
  "no_pay p (idle s) = Ret (rep, m') \<Longrightarrow> \<exists>b. rep = (b, []) \<and> p (idle s) = Ret (b, m')"
  by (auto simp: no_pay_def split: prod.splits)

lemma quiet_reply:
  assumes "steps_by quiet p" and "no_pay p (idle s) = Ret (rep, m')"
  shows "\<exists>s'. m' = idle s' \<and> snd rep = [] \<and> quiet s s'"
  using no_pay_RetD [OF assms(2)] steps_byD [OF assms(1)] by fastforce

lemma quiet_moves: "quiet s s' \<Longrightarrow> mail_moves role {#} {#} s s'"
  using quiet_any_role by metis

lemma send_reply:
  assumes "no_pay (SendMailWithAttachments gt now rnd sid sn rid t c ty atts) (idle s) = Ret (rep, m')"
  shows "\<exists>s'. m' = idle s' \<and> mail_moves rid (mset (snd rep))
    (if fst rep then mset (concat (map pay atts)) else {#}) s s'"
  using no_pay_RetD [OF assms] Send_moves by fastforce

lemma quiet_exec:
  assumes "steps_by quiet p" and "no_pay p (idle s) = Ret (rep, m')"
  shows "\<exists>s'. m' = idle s' \<and> mail_moves role (mset (snd rep)) {#} s s'"
  using quiet_reply [OF assms] quiet_moves by fastforce

lemmas mail_quiet_steps = mail_query_steps InitMail_steps ReadMail_steps DeleteMail_steps
  mail_sweep_steps CleanDeletedMails_steps HasNewMail_steps OnTimer_steps

lemma mail_exec_moves:
  assumes "mail_exec c (idle s) = Ret (rep, m')"
  shows "\<exists>s'. m' = idle s' \<and> mail_moves (mail_receiver c) (mset (snd rep))
    (if fst rep then mail_sends c else {#}) s s'"
proof (cases c)
  case (CSendMail gt now rnd sid sn rid t cc ty)
  then show ?thesis
    using send_reply [of gt now rnd sid sn rid t cc ty "[]" s rep m'] assms
    by (simp add: SendMail_def cong: if_cong)
next
  case (CSendSystemMail gt now rnd rid t cc)
  then show ?thesis
    using send_reply [of gt now rnd SYSTEM_MAIL_SENDER_ID "''System''" rid t cc SYSTEM "[]" s rep m']
      assms by (simp add: SendSystemMail_def SendMail_def cong: if_cong)
next
  case (CSendMailWithAttachments gt now rnd sid sn rid t cc ty atts)
  then show ?thesis
    using send_reply [of gt now rnd sid sn rid t cc ty atts s rep m'] assms
    by (simp cong: if_cong split: if_splits)
next
  case (CSendSystemMailWithAttachments gt now rnd rid t cc atts)
  then show ?thesis
    using send_reply [of gt now rnd SYSTEM_MAIL_SENDER_ID "''System''" rid t cc SYSTEM atts s rep m']
      assms by (simp add: SendSystemMailWithAttachments_def cong: if_cong split: if_splits)
next
  case (CTakeAttachment r i)
  then show ?thesis
    using TakeAttachment_moves [of r i s "fst rep" "snd rep" m'] assms by simp
next
  case (CTakeAllAttachments r)
  then show ?thesis
    using TakeAllAttachments_moves [of r s "fst rep" "snd rep" m'] assms by simp
qed (insert assms, simp_all,
    (erule quiet_exec [rotated], auto simp: LoadMailData_def intro!: mail_quiet_steps stepping)+)

lemma mail_ops_live:
  "never_relocks (InitMail r)" "never_relocks (GetMails r)" "never_relocks (GetMailInfo r i)"
  "never_relocks (SendMailWithAttachments gt now rnd sid sn rid t c ty atts)"
  "never_relocks (ReadMail now r i)" "never_relocks (GetUnreadMailCount r)"
  "never_relocks (TakeAttachment r i)" "never_relocks (TakeAllAttachments r)"
  "never_relocks (HasAttachment r i)" "never_relocks (DeleteMail r i)"
  "never_relocks (DeleteReadMails r)" "never_relocks (DeleteExpiredMails now r)"
  "never_relocks (CleanExpiredMails now r)" "never_relocks (CleanDeletedMails r)"
  "never_relocks (HasNewMail r)" "never_relocks (SaveMailData r)"
  "never_relocks (SaveSingleMail r m)" "never_relocks (OnTimer now)"
  by (auto simp: InitMail_def GetMails_def GetMailInfo_def SendMailWithAttachments_def ReadMail_def
      GetUnreadMailCount_def TakeAttachment_def TakeAllAttachments_def HasAttachment_def
      DeleteMail_def DeleteReadMails_def DeleteExpiredMails_def CleanExpiredMails_def
      CleanDeletedMails_def HasNewMail_def SaveMailData_def SaveSingleMail_def OnTimer_def
      never_relocks_guarded Let_def intro: never_relocks_retM
      split: option.splits prod.splits if_splits)

lemma mail_exec_live: "never_relocks (mail_exec c)"
  by (cases c)
    (auto simp: mail_ops_live SendMail_def SendSystemMail_def SendSystemMailWithAttachments_def
      LoadMailData_def intro!: never_relocks_no_pay stepping)

interpretation mail: live_machine mail_exec mail_inv
proof unfold_locales
  show "mail_exec c (idle s) = Ret (r, m') \<Longrightarrow> \<exists>s'. m' = idle s'" for c s r m'
    using mail_exec_moves by blast
  show "mail_exec c (idle s) = Ret (r, idle s') \<Longrightarrow> mail_inv s \<Longrightarrow> mail_inv s'" for c s r s'
    using mail_exec_moves by (fastforce simp: mail_moves_def)
  show "mail_exec c (idle s) \<noteq> Fault Relock" for s c
    using mail_exec_live by (auto simp: never_relocks_def)
qed

lemma mail_inv_init: "mail_inv mail_init"
  by (simp add: mail_inv_def mail_init_def box_of_def)

section \<open>Properties\<close>

text \<open>What the replies of a run paid to a role, and what the run's commands sent to it.\<close>

fun paid_to :: "u64 \<Rightarrow> mail_cmd list \<Rightarrow> (bool \<times> payout list) list \<Rightarrow> payout multiset" where
  "paid_to role (c # cs) (rep # rs) =
     (if mail_receiver c = role then mset (snd rep) else {#}) + paid_to role cs rs"
| "paid_to role _ _ = {#}"

fun sent_to :: "u64 \<Rightarrow> mail_cmd list \<Rightarrow> (bool \<times> payout list) list \<Rightarrow> payout multiset" where
  "sent_to role (c # cs) (rep # rs) =
     (if mail_receiver c = role \<and> fst rep then mail_sends c else {#}) + sent_to role cs rs"
| "sent_to role _ _ = {#}"

lemma mail_run_step:
  assumes "run_cmds mail_exec (c # cs) (idle s) = Ret (rs, idle s')"
  obtains rep rs1 s1 where "rs = rep # rs1" "run_cmds mail_exec cs (idle s1) = Ret (rs1, idle s')"
    "mail_moves (mail_receiver c) (mset (snd rep)) (if fst rep then mail_sends c else {#}) s s1"
proof -
  from assms obtain rep m1 rs1 where c: "mail_exec c (idle s) = Ret (rep, m1)"
    and cs: "run_cmds mail_exec cs m1 = Ret (rs1, idle s')" and rs: "rs = rep # rs1"
    by (auto split: prod.splits)
  from mail_exec_moves [OF c] cs rs that show thesis by blast
qed

lemma subset_mset_chain:
  "w2 + p2 \<subseteq># w1 + t2 \<Longrightarrow> w1 + p1 \<subseteq># w0 + t1 \<Longrightarrow> w2 + (p1 + p2) \<subseteq># w0 + (t1 + (t2 :: 'a multiset))"
proof -
  assume a: "w2 + p2 \<subseteq># w1 + t2" and b: "w1 + p1 \<subseteq># w0 + t1"
  have "(w2 + p2) + p1 \<subseteq># (w1 + t2) + p1" using a by simp
  also have "\<dots> = (w1 + p1) + t2" by simp
  also have "\<dots> \<subseteq># (w0 + t1) + t2" using b by simp
  finally show ?thesis by (simp add: add.commute add.left_commute)
qed

text \<open>
  C1. Attachments are paid out at most once. Over any run of the module, what a role is paid by
  taking attachments, together with what its box still holds afterwards, is a part of what its box
  held before together with what the successful sends to it carried: no attachment is ever paid
  twice, paid to another role, or paid without having been sent.
\<close>

theorem attachments_paid_once:
  assumes "run_cmds mail_exec cs (idle s) = Ret (rs, idle s')"
  shows "waiting (box_of s' role) + paid_to role cs rs \<subseteq>#
    waiting (box_of s role) + sent_to role cs rs"
  using assms
proof (induction cs arbitrary: s rs)
  case Nil
  then show ?case by simp
next
  case (Cons c cs)
  from Cons.prems obtain rep rs1 s1 where rs: "rs = rep # rs1"
    and cs: "run_cmds mail_exec cs (idle s1) = Ret (rs1, idle s')"
    and mv: "mail_moves (mail_receiver c) (mset (snd rep)) (if fst rep then mail_sends c else {#}) s s1"
    by (rule mail_run_step)
  from mv have "waiting (box_of s1 role) + (if mail_receiver c = role then mset (snd rep) else {#}) \<subseteq>#
      waiting (box_of s role) + (if mail_receiver c = role \<and> fst rep then mail_sends c else {#})"
    by (auto simp: mail_moves_def dest!: spec [of _ role] split: if_splits)
  from subset_mset_chain [OF Cons.IH [OF cs] this] rs show ?case by simp
qed

theorem attachments_paid_once_witness:
  "\<exists>rs s'. run_cmds mail_exec
       [CSendSystemMailWithAttachments 5 5 3 7 ''t'' ''c'' [\<lparr>attachment_type = 1, att_item_id = 0, item_count = 9\<rparr>],
        CTakeAttachment 7 50003, CTakeAllAttachments 7] (idle mail_init) = Ret (rs, idle s') \<and>
     paid_to 7 [CSendSystemMailWithAttachments 5 5 3 7 ''t'' ''c'' [\<lparr>attachment_type = 1, att_item_id = 0, item_count = 9\<rparr>],
        CTakeAttachment 7 50003, CTakeAllAttachments 7] rs = {#Gold 9#} \<and>
     waiting (box_of s' 7) + {#Gold 9#} \<subseteq># {#Gold 9#}"
proof -
  let ?cs = "[CSendSystemMailWithAttachments 5 5 3 7 ''t'' ''c'' [\<lparr>attachment_type = 1, att_item_id = 0, item_count = 9\<rparr>],
        CTakeAttachment 7 50003, CTakeAllAttachments 7]"
  have "\<exists>m'. run_cmds mail_exec ?cs (idle mail_init) =
      Ret ([(True, []), (True, [Gold 9]), (True, [])], m')"
    by (rule exI, code_simp)
  then obtain s' where r: "run_cmds mail_exec ?cs (idle mail_init) =
      Ret ([(True, []), (True, [Gold 9]), (True, [])], idle s')"
    using mail.run_inv [OF _ mail_inv_init] by blast
  from attachments_paid_once [OF r, of 7] have "waiting (box_of s' 7) + {#Gold 9#} \<subseteq># {#Gold 9#}"
    by (simp add: mail_init_def box_of_def pay_def)
  moreover have "paid_to 7 ?cs [(True, []), (True, [Gold 9]), (True, [])] = {#Gold 9#}" by simp
  ultimately show ?thesis using r by blast
qed

text \<open>
  C24. In every run from the empty module nothing blocks on the mutex, and whenever the run returns,
  each box belongs to one role and holds at most 100 mails; every mail in it is addressed to that
  role, expires thirty days after it was sent, and waits for (or had) an attachment exactly when it
  carries one.
\<close>

theorem boxes_stay_bounded:
  "run_cmds mail_exec cs (idle mail_init) \<noteq> Fault Relock \<and>
   (\<forall>rs m'. run_cmds mail_exec cs (idle mail_init) = Ret (rs, m') \<longrightarrow> (\<exists>s'. m' = idle s' \<and> mail_inv s'))"
  using mail.run_live [OF mail_inv_init] mail.run_inv [OF _ mail_inv_init] by blast

theorem boxes_stay_bounded_witness:
  "\<exists>rs s'. run_cmds mail_exec [CSendMail 5 5 3 1 ''a'' 7 ''t'' ''c'' PLAYER, CReadMail 6 7 50003,
     COnTimer 9999999, CCleanDeletedMails 7] (idle mail_init) = Ret (rs, idle s') \<and> mail_inv s'"
proof -
  let ?cs = "[CSendMail 5 5 3 1 ''a'' 7 ''t'' ''c'' PLAYER, CReadMail 6 7 50003,
     COnTimer 9999999, CCleanDeletedMails 7]"
  have "\<exists>x. run_cmds mail_exec ?cs (idle mail_init) = Ret x"
    by (rule exI, code_simp)
  then show ?thesis using boxes_stay_bounded [of ?cs] by (metis surj_pair)
qed

text \<open>The descendants of a mail: the same mail further along its life.\<close>

definition descends :: "MailInfo \<Rightarrow> MailInfo \<Rightarrow> bool" where
  "descends m m' \<longleftrightarrow> (\<exists>t. m' = m\<lparr>status := status m', read_time := t\<rparr>) \<and>
     mail_step\<^sup>*\<^sup>* (status m) (status m')"

lemma descends_refl [simp]: "descends m m"
  by (auto simp: descends_def intro: exI [of _ "read_time m"])

lemma evolves_descends: "mail_evolves m m1 \<Longrightarrow> descends m1 m2 \<Longrightarrow> descends m m2"
  unfolding descends_def mail_evolves_def
proof (elim conjE exE, intro conjI)
  fix t t1
  assume a: "m1 = m\<lparr>status := status m1, read_time := t\<rparr>"
    and b: "m2 = m1\<lparr>status := status m2, read_time := t1\<rparr>"
  have "m\<lparr>status := status m2, read_time := t1\<rparr> =
      (m\<lparr>status := status m1, read_time := t\<rparr>)\<lparr>status := status m2, read_time := t1\<rparr>" by simp
  also have "\<dots> = m2" using a b by simp
  finally show "\<exists>t. m2 = m\<lparr>status := status m2, read_time := t\<rparr>" by metis
next
  assume "status m1 = status m \<or> mail_step (status m) (status m1)"
    and "mail_step\<^sup>*\<^sup>* (status m1) (status m2)"
  then show "mail_step\<^sup>*\<^sup>* (status m) (status m2)"
    by (auto intro: converse_rtranclp_into_rtranclp)
qed

lemma status_paths:
  "mail_step\<^sup>*\<^sup>* a b \<Longrightarrow> a = DELETED \<longrightarrow> b = DELETED"
  "mail_step\<^sup>*\<^sup>* a b \<Longrightarrow> a \<in> {DELETED, READ, ATTACHMENT_TAKEN} \<longrightarrow> b = a \<or> b = DELETED"
  by (induction rule: rtranclp_induct) auto

text \<open>
  The life of a mail. Over any run, every mail found in a box afterwards is a mail that was
  there before, or one delivered new (unread, or with its attachment waiting), further along its
  life: only its status and its time of reading have changed, and the status followed the
  transitions of \<open>mail_step\<close>. A mail that was deleted or whose attachment was taken therefore never
  becomes available again.
\<close>

theorem mail_lives:
  assumes "run_cmds mail_exec cs (idle s) = Ret (rs, idle s')" and "m' \<in> set (box_of s' role)"
  shows "\<exists>m. (m \<in> set (box_of s role) \<or> new_mail m) \<and> descends m m' \<and>
    (status m \<in> {DELETED, READ, ATTACHMENT_TAKEN} \<longrightarrow> status m' = status m \<or> status m' = DELETED)"
proof -
  have "\<exists>m. (m \<in> set (box_of s role) \<or> new_mail m) \<and> descends m m'"
    using assms
  proof (induction cs arbitrary: s rs)
    case Nil
    then show ?case by (auto intro: descends_refl)
  next
    case (Cons c cs)
    from Cons.prems(1) obtain rep rs1 s1 where cs: "run_cmds mail_exec cs (idle s1) = Ret (rs1, idle s')"
      and mv: "mail_moves (mail_receiver c) (mset (snd rep)) (if fst rep then mail_sends c else {#}) s s1"
      by (rule mail_run_step)
    from mv have ev: "box_evolves (box_of s role) (box_of s1 role)" by (simp add: mail_moves_def)
    from Cons.IH [OF cs Cons.prems(2)] obtain m1
      where m1: "m1 \<in> set (box_of s1 role) \<or> new_mail m1" "descends m1 m'" by blast
    from m1(1) ev have "new_mail m1 \<or> (\<exists>m\<in>set (box_of s role). mail_evolves m m1)"
      by (auto simp: box_evolves_def)
    with m1(2) show ?case by (auto intro: evolves_descends)
  qed
  then show ?thesis using status_paths(2) by (fastforce simp: descends_def)
qed

theorem mail_lives_witness:
  "\<exists>rs s'. run_cmds mail_exec [CTakeAttachment 7 1, CDeleteMail 7 1]
       (idle (mail_init\<lparr>mail_cache := [(7, [compose_mail 1 0 0 ''s'' 7 ''t'' ''c'' SYSTEM
          [\<lparr>attachment_type = 1, att_item_id = 0, item_count = 9\<rparr>]])]\<rparr>)) = Ret (rs, idle s') \<and>
     (\<forall>m'\<in>set (box_of s' 7). \<exists>m. descends m m')"
proof -
  let ?s = "mail_init\<lparr>mail_cache := [(7, [compose_mail 1 0 0 ''s'' 7 ''t'' ''c'' SYSTEM
          [\<lparr>attachment_type = 1, att_item_id = 0, item_count = 9\<rparr>]])]\<rparr>"
  have "\<exists>rs m'. run_cmds mail_exec [CTakeAttachment 7 1, CDeleteMail 7 1] (idle ?s) = Ret (rs, m')"
    by (intro exI, code_simp)
  moreover have "mail_inv ?s"
    by (simp add: mail_inv_def mail_init_def box_of_def mail_ok_def compose_mail_def
        MAX_MAIL_COUNT_def MAIL_EXPIRE_DAYS_def keys_ok_def)
  ultimately obtain rs s' where r: "run_cmds mail_exec [CTakeAttachment 7 1, CDeleteMail 7 1] (idle ?s) =
      Ret (rs, idle s')"
    using mail.run_inv by blast
  with mail_lives [OF r] show ?thesis by blast
qed

lemma full_without_evictable:
  "length b = MAX_MAIL_COUNT \<Longrightarrow> MAX_MAIL_COUNT \<le> length (make_room b) \<longleftrightarrow> \<not> (\<exists>m\<in>set b. evictable m)"
  using length_del_first [of b evictable] del_first_id [of b evictable]
  by (fastforce simp: make_room_def)

lemma Send_returns:
  "\<exists>ok m'. SendMailWithAttachments gt now rnd sid sn rid t c ty atts (idle s) = Ret (ok, m')"
proof (cases "MAX_MAIL_COUNT \<le> length (make_room (box_of s rid))")
  case True
  then show ?thesis by (intro exI [of _ False]) (simp add: SendMailWithAttachments_def Let_def)
next
  case False
  obtain i s2 where "GenerateMailId gt rnd
      (s\<lparr>mail_cache := AList.update rid (make_room (box_of s rid)) (mail_cache s)\<rparr>) = (i, s2)"
    by fastforce
  with False show ?thesis
    by (intro exI [of _ True]) (simp add: SendMailWithAttachments_def Let_def)
qed

text \<open>
  When a mail is accepted. With at most 100 mails in the receiver's box, a send answers
  \<^verbatim>\<open>true\<close> exactly when the box has room or holds a mail that is read or whose attachment was
  taken; otherwise the box is left as it was. Mails already marked as deleted still count and are
  never dropped to make room.
\<close>

theorem send_accepts_iff:
  assumes "length (box_of s rid) \<le> MAX_MAIL_COUNT"
  shows "\<exists>ok s'. SendMailWithAttachments gt now rnd sid sn rid t c ty atts (idle s) = Ret (ok, idle s') \<and>
    (ok \<longleftrightarrow> length (box_of s rid) < MAX_MAIL_COUNT \<or> (\<exists>m\<in>set (box_of s rid). evictable m)) \<and>
    (\<not> ok \<longrightarrow> box_of s' rid = box_of s rid) \<and>
    (ok \<longrightarrow> (\<exists>i. last (box_of s' rid) = compose_mail i now sid sn rid t c ty atts))"
proof -
  obtain ok m' where run: "SendMailWithAttachments gt now rnd sid sn rid t c ty atts (idle s) = Ret (ok, m')"
    using Send_returns by blast
  have room: "MAX_MAIL_COUNT \<le> length (make_room (box_of s rid)) \<longleftrightarrow>
      \<not> (length (box_of s rid) < MAX_MAIL_COUNT \<or> (\<exists>m\<in>set (box_of s rid). evictable m))"
    using assms full_without_evictable [of "box_of s rid"]
    by (cases "length (box_of s rid) = MAX_MAIL_COUNT") (auto simp: make_room_def)
  from run show ?thesis
  proof (cases rule: Send_body)
    case full
    with room have "make_room (box_of s rid) = box_of s rid"
      by (auto simp: make_room_def intro: del_first_id)
    then obtain s' where m': "m' = idle s'" and same: "box_of s' rid = box_of s rid"
      using full(3) by (simp add: box_of_def)
    have "\<not> (length (box_of s rid) < MAX_MAIL_COUNT \<or> (\<exists>m\<in>set (box_of s rid). evictable m))"
      using room full(2) by simp
    then show ?thesis using run m' same full(1) by blast
  next
    case (sent i s')
    have "last (box_of s' rid) = compose_mail i now sid sn rid t c ty atts"
      by (simp add: box_of_update [OF sent(4)])
    moreover have "length (box_of s rid) < MAX_MAIL_COUNT \<or> (\<exists>m\<in>set (box_of s rid). evictable m)"
      using room sent(2) by simp
    ultimately show ?thesis using run sent(1,3) by blast
  qed
qed

theorem send_accepts_iff_witness:
  "\<exists>s'. SendMailWithAttachments 5 5 3 1 ''a'' 7 ''t'' ''c'' PLAYER []
       (idle (mail_init\<lparr>mail_cache := [(7, replicate 100 ((compose_mail 1 0 0 ''s'' 7 ''t'' ''c'' SYSTEM [])\<lparr>status := DELETED\<rparr>))]\<rparr>)) =
     Ret (False, idle s')"
proof -
  let ?s = "mail_init\<lparr>mail_cache := [(7, replicate 100 ((compose_mail 1 0 0 ''s'' 7 ''t'' ''c'' SYSTEM [])\<lparr>status := DELETED\<rparr>))]\<rparr>"
  have "length (box_of ?s 7) \<le> MAX_MAIL_COUNT" and "\<not> length (box_of ?s 7) < MAX_MAIL_COUNT"
    and "\<not> (\<exists>m\<in>set (box_of ?s 7). evictable m)"
    by (auto simp: box_of_def MAX_MAIL_COUNT_def evictable_def)
  note box = this
  from send_accepts_iff [OF box(1), of 5 5 3 1 "''a''" "''t''" "''c''" PLAYER "[]"]
  obtain ok s' where run: "SendMailWithAttachments 5 5 3 1 ''a'' 7 ''t'' ''c'' PLAYER [] (idle ?s) = Ret (ok, idle s')"
    and ok: "ok \<longleftrightarrow> length (box_of ?s 7) < MAX_MAIL_COUNT \<or> (\<exists>m\<in>set (box_of ?s 7). evictable m)"
    by blast
  from ok box have "ok = False" by blast
  with run show ?thesis by blast
qed

end
