(* ===== verification/Buff.thy ===== *)
theory Buff
  imports Machine
begin

text \<open>
  \<open>game_server/logic_server/buff_module.cc\<close>: the buffs on a target. A buff stacks up to a limit,
  is refreshed at the limit and removed when it expires.
\<close>

section \<open>Data\<close>

datatype BuffType = BUFF | DEBUFF | DOT | HOT | CONTROL | SHIELD_TYPE

datatype BuffEffectType = NONE | ATTACK_UP | ATTACK_DOWN | DEFENSE_UP | DEFENSE_DOWN | SPEED_UP
  | SPEED_DOWN | HP_REGEN | MP_REGEN | STUN | SILENCE | POISON | BURN | FREEZE | SHIELD

record BuffInfo =
  buff_id :: u64
  buff_config_id :: i32
  caster_id :: u64
  target_id :: u64
  buff_type :: BuffType
  effect_type :: BuffEffectType
  effect_value :: i32
  duration :: i32
  interval :: i32
  stack_count :: i32
  max_stack :: i32
  start_time :: time_t
  end_time :: time_t
  is_active :: bool

record BuffConfig =
  cfg_id :: i32
  buff_name :: string
  cfg_type :: BuffType
  cfg_effect_type :: BuffEffectType
  cfg_effect_value :: i32
  cfg_duration :: i32
  cfg_interval :: i32
  cfg_max_stack :: i32
  is_debuff :: bool
  can_dispel :: bool

record BuffModule =
  buff_cache :: "(u64 \<times> BuffInfo list) list"
  buff_configs :: "(i32 \<times> BuffConfig) list"
  next_buff_id :: "u64 option"

definition buff_init :: BuffModule where
  "buff_init = \<lparr>buff_cache = [], buff_configs = [], next_buff_id = None\<rparr>"

section \<open>Operations\<close>

definition LoadBuffConfigs :: "(BuffModule, bool) oper" where
  "LoadBuffConfigs = guarded (\<lambda>s. Ret (True, s))"

definition default_buff_config :: "i32 \<Rightarrow> BuffConfig" where
  "default_buff_config cid =
     \<lparr>cfg_id = cid, buff_name = ''Buff_'' @ to_dec cid, cfg_type = BUFF,
      cfg_effect_type = ATTACK_UP, cfg_effect_value = 10, cfg_duration = 30, cfg_interval = 0,
      cfg_max_stack = 5, is_debuff = False, can_dispel = True\<rparr>"

text \<open>A configuration that is not there is made up and stored; the answer is always \<^verbatim>\<open>true\<close>.\<close>

definition GetBuffConfigInternal :: "i32 \<Rightarrow> BuffModule \<Rightarrow> BuffConfig \<times> BuffModule" where
  "GetBuffConfigInternal cid s =
     (case map_of (buff_configs s) cid of
        None \<Rightarrow> (default_buff_config cid,
                 s\<lparr>buff_configs := AList.update cid (default_buff_config cid) (buff_configs s)\<rparr>)
      | Some c \<Rightarrow> (c, s))"

definition GetBuffConfig :: "i32 \<Rightarrow> (BuffModule, BuffConfig) oper" where
  "GetBuffConfig cid = guarded (\<lambda>s. Ret (GetBuffConfigInternal cid s))"

definition stack_one :: "BuffInfo \<Rightarrow> BuffInfo" where
  "stack_one b = (if stack_count b < max_stack b then b\<lparr>stack_count := stack_count b + 1\<rparr> else b)"

definition StackBuffInternal :: "u64 \<Rightarrow> u64 \<Rightarrow> BuffModule \<Rightarrow> bool \<times> BuffModule" where
  "StackBuffInternal target bid s =
     (case map_of (buff_cache s) target of
        None \<Rightarrow> (False, s)
      | Some bs \<Rightarrow>
          (case List.find (\<lambda>b. buff_id b = bid) bs of
             None \<Rightarrow> (False, s)
           | Some _ \<Rightarrow> (True, s\<lparr>buff_cache := AList.update target
               (upd_first (\<lambda>b. buff_id b = bid) stack_one bs) (buff_cache s)\<rparr>)))"

definition StackBuff :: "u64 \<Rightarrow> u64 \<Rightarrow> (BuffModule, bool) oper" where
  "StackBuff target bid = guarded (\<lambda>s. Ret (StackBuffInternal target bid s))"

definition refresh_one :: "time_t \<Rightarrow> BuffInfo \<Rightarrow> BuffInfo" where
  "refresh_one now b = b\<lparr>start_time := now, end_time := now + duration b\<rparr>"

definition RefreshBuffInternal :: "time_t \<Rightarrow> u64 \<Rightarrow> u64 \<Rightarrow> BuffModule \<Rightarrow> bool \<times> BuffModule" where
  "RefreshBuffInternal now target bid s =
     (case map_of (buff_cache s) target of
        None \<Rightarrow> (False, s)
      | Some bs \<Rightarrow>
          (case List.find (\<lambda>b. buff_id b = bid) bs of
             None \<Rightarrow> (False, s)
           | Some _ \<Rightarrow> (True, s\<lparr>buff_cache := AList.update target
               (upd_first (\<lambda>b. buff_id b = bid) (refresh_one now) bs) (buff_cache s)\<rparr>)))"

definition RefreshBuff :: "time_t \<Rightarrow> u64 \<Rightarrow> u64 \<Rightarrow> (BuffModule, bool) oper" where
  "RefreshBuff now target bid = guarded (\<lambda>s. Ret (RefreshBuffInternal now target bid s))"

definition GenerateBuffId :: "time_t \<Rightarrow> int \<Rightarrow> BuffModule \<Rightarrow> u64 \<times> BuffModule" where
  "GenerateBuffId now rnd s =
     (let (i, c) = next_static_id now rnd (next_buff_id s) in (i, s\<lparr>next_buff_id := c\<rparr>))"

text \<open>The two effect hooks switch over the kind of the effect; every branch is still empty.\<close>

definition ApplySingleBuffEffect :: "u64 \<Rightarrow> BuffInfo \<Rightarrow> bool" where
  "ApplySingleBuffEffect target b = True"

definition RemoveSingleBuffEffect :: "u64 \<Rightarrow> BuffInfo \<Rightarrow> bool" where
  "RemoveSingleBuffEffect target b = True"

definition new_buff :: "u64 \<Rightarrow> u64 \<Rightarrow> u64 \<Rightarrow> i32 \<Rightarrow> BuffConfig \<Rightarrow> time_t \<Rightarrow> BuffInfo" where
  "new_buff bid target caster cid cfg now =
     \<lparr>buff_id = bid, buff_config_id = cid, caster_id = caster, target_id = target,
      buff_type = cfg_type cfg, effect_type = cfg_effect_type cfg,
      effect_value = cfg_effect_value cfg, duration = cfg_duration cfg,
      interval = cfg_interval cfg, stack_count = 1, max_stack = cfg_max_stack cfg,
      start_time = now, end_time = now + cfg_duration cfg, is_active = True\<rparr>"

text \<open>\<open>now\<close> is the clock the call reads; \<open>gt\<close> and \<open>rnd\<close> seed the first identifier.\<close>

definition AddBuff ::
  "time_t \<Rightarrow> int \<Rightarrow> time_t \<Rightarrow> u64 \<Rightarrow> u64 \<Rightarrow> i32 \<Rightarrow> (BuffModule, bool) oper" where
  "AddBuff gt rnd now target caster cid = guarded (\<lambda>s0.
     let (cfg, s) = GetBuffConfigInternal cid s0;
         create = (\<lambda>s.
           let (bid, s1) = GenerateBuffId gt rnd s;
               b = new_buff bid target caster cid cfg now;
               s2 = s1\<lparr>buff_cache := AList.update target (entry (buff_cache s1) target @ [b]) (buff_cache s1)\<rparr>;
               _ = ApplySingleBuffEffect target b
           in Ret (True, s2))
     in case map_of (buff_cache s) target of
          Some bs \<Rightarrow>
            (case List.find (\<lambda>b. buff_config_id b = cid \<and> is_active b) bs of
               Some b \<Rightarrow>
                 if stack_count b < max_stack b
                 then Ret (True, snd (StackBuffInternal target (buff_id b) s))
                 else Ret (True, snd (RefreshBuffInternal now target (buff_id b) s))
             | None \<Rightarrow> create s)
        | None \<Rightarrow> create (s\<lparr>buff_cache := AList.update target [] (buff_cache s)\<rparr>))"

definition RemoveBuff :: "u64 \<Rightarrow> u64 \<Rightarrow> (BuffModule, bool) oper" where
  "RemoveBuff target bid = guarded (\<lambda>s.
     case map_of (buff_cache s) target of
       None \<Rightarrow> Ret (False, s)
     | Some bs \<Rightarrow>
         (case List.find (\<lambda>b. buff_id b = bid) bs of
            None \<Rightarrow> Ret (False, s)
          | Some b \<Rightarrow>
              let _ = RemoveSingleBuffEffect target b in
              Ret (True, s\<lparr>buff_cache := AList.update target
                (del_first (\<lambda>b. buff_id b = bid) bs) (buff_cache s)\<rparr>)))"

definition RemoveBuffByConfigId :: "u64 \<Rightarrow> i32 \<Rightarrow> (BuffModule, bool) oper" where
  "RemoveBuffByConfigId target cid = guarded (\<lambda>s.
     case map_of (buff_cache s) target of
       None \<Rightarrow> Ret (False, s)
     | Some bs \<Rightarrow>
         (case List.find (\<lambda>b. buff_config_id b = cid) bs of
            None \<Rightarrow> Ret (False, s)
          | Some b \<Rightarrow>
              let _ = RemoveSingleBuffEffect target b in
              Ret (True, s\<lparr>buff_cache := AList.update target
                (del_first (\<lambda>b. buff_config_id b = cid) bs) (buff_cache s)\<rparr>)))"

definition RemoveAllBuffs :: "u64 \<Rightarrow> (BuffModule, bool) oper" where
  "RemoveAllBuffs target = guarded (\<lambda>s.
     case map_of (buff_cache s) target of
       None \<Rightarrow> Ret (False, s)
     | Some bs \<Rightarrow>
         let _ = map (RemoveSingleBuffEffect target) bs in
         Ret (True, s\<lparr>buff_cache := AList.update target [] (buff_cache s)\<rparr>))"

definition RemoveDebuffs :: "u64 \<Rightarrow> (BuffModule, bool) oper" where
  "RemoveDebuffs target = guarded (\<lambda>s.
     case map_of (buff_cache s) target of
       None \<Rightarrow> Ret (False, s)
     | Some bs \<Rightarrow>
         Ret (True, s\<lparr>buff_cache := AList.update target
           (filter (\<lambda>b. buff_type b \<noteq> DEBUFF) bs) (buff_cache s)\<rparr>))"

definition GetBuffs :: "u64 \<Rightarrow> (BuffModule, BuffInfo list option) oper" where
  "GetBuffs target = guarded (\<lambda>s.
     Ret (map_option (filter is_active) (map_of (buff_cache s) target), s))"

definition GetBuffInfo :: "u64 \<Rightarrow> u64 \<Rightarrow> (BuffModule, BuffInfo option) oper" where
  "GetBuffInfo target bid = guarded (\<lambda>s.
     Ret (case map_of (buff_cache s) target of
            None \<Rightarrow> None
          | Some bs \<Rightarrow> List.find (\<lambda>b. buff_id b = bid) bs, s))"

definition HasBuff :: "u64 \<Rightarrow> i32 \<Rightarrow> (BuffModule, bool) oper" where
  "HasBuff target cid = guarded (\<lambda>s.
     Ret (case map_of (buff_cache s) target of
            None \<Rightarrow> False
          | Some bs \<Rightarrow> list_ex (\<lambda>b. buff_config_id b = cid \<and> is_active b) bs, s))"

definition HasDebuff :: "u64 \<Rightarrow> (BuffModule, bool) oper" where
  "HasDebuff target = guarded (\<lambda>s.
     Ret (case map_of (buff_cache s) target of
            None \<Rightarrow> False
          | Some bs \<Rightarrow> list_ex (\<lambda>b. buff_type b = DEBUFF \<and> is_active b) bs, s))"

text \<open>The sums of \<^verbatim>\<open>CalculateBuffEffects\<close>: attack, defense and speed.\<close>

fun sum_effects :: "BuffInfo list \<Rightarrow> i32 \<times> i32 \<times> i32 \<Rightarrow> (i32 \<times> i32 \<times> i32) outcome" where
  "sum_effects [] acc = Ret acc"
| "sum_effects (b # bs) (a, d, v) =
     (if \<not> is_active b then sum_effects bs (a, d, v)
      else bindO (mul32 (effect_value b) (stack_count b)) (\<lambda>x.
        case effect_type b of
          ATTACK_UP \<Rightarrow> bindO (add32 a x) (\<lambda>a'. sum_effects bs (a', d, v))
        | ATTACK_DOWN \<Rightarrow> bindO (sub32 a x) (\<lambda>a'. sum_effects bs (a', d, v))
        | DEFENSE_UP \<Rightarrow> bindO (add32 d x) (\<lambda>d'. sum_effects bs (a, d', v))
        | DEFENSE_DOWN \<Rightarrow> bindO (sub32 d x) (\<lambda>d'. sum_effects bs (a, d', v))
        | SPEED_UP \<Rightarrow> bindO (add32 v x) (\<lambda>v'. sum_effects bs (a, d, v'))
        | SPEED_DOWN \<Rightarrow> bindO (sub32 v x) (\<lambda>v'. sum_effects bs (a, d, v'))
        | _ \<Rightarrow> sum_effects bs (a, d, v)))"

definition CalculateBuffEffects :: "u64 \<Rightarrow> (BuffModule, i32 \<times> i32 \<times> i32) oper" where
  "CalculateBuffEffects target = guarded (\<lambda>s.
     case map_of (buff_cache s) target of
       None \<Rightarrow> Ret ((0, 0, 0), s)
     | Some bs \<Rightarrow> bindO (sum_effects bs (0, 0, 0)) (\<lambda>r. Ret (r, s)))"

definition ApplyBuffEffects :: "u64 \<Rightarrow> (BuffModule, bool) oper" where
  "ApplyBuffEffects target = guarded (\<lambda>s.
     case map_of (buff_cache s) target of
       None \<Rightarrow> Ret (False, s)
     | Some bs \<Rightarrow> let _ = map (ApplySingleBuffEffect target) (filter is_active bs) in Ret (True, s))"

text \<open>The periodic effects \<^verbatim>\<open>ProcessDotHot\<close> would apply; the source logs them.\<close>

datatype tick = Damage u64 i32 | Heal u64 i32

fun ticks :: "time_t \<Rightarrow> BuffInfo list \<Rightarrow> tick list outcome" where
  "ticks now [] = Ret []"
| "ticks now (b # bs) =
     (if is_active b \<and> (buff_type b = DOT \<or> buff_type b = HOT) then
        let elapsed = to_i32 (now - start_time b) in
        bindO (rem32 elapsed (interval b)) (\<lambda>m.
        bindO (ticks now bs) (\<lambda>ts.
          Ret (if m = 0
               then (if buff_type b = DOT then Damage (buff_id b) (effect_value b)
                     else Heal (buff_id b) (effect_value b)) # ts
               else ts)))
      else ticks now bs)"

definition ProcessDotHot :: "time_t \<Rightarrow> u64 \<Rightarrow> (BuffModule, tick list option) oper" where
  "ProcessDotHot now target = guarded (\<lambda>s.
     case map_of (buff_cache s) target of
       None \<Rightarrow> Ret (None, s)
     | Some bs \<Rightarrow> bindO (ticks now bs) (\<lambda>ts. Ret (Some ts, s)))"

definition expired :: "time_t \<Rightarrow> BuffInfo \<Rightarrow> bool" where
  "expired now b \<longleftrightarrow> is_active b \<and> end_time b \<le> now"

definition OnUpdate :: "time_t \<Rightarrow> (BuffModule, unit) oper" where
  "OnUpdate now = guarded (\<lambda>s.
     Ret ((), s\<lparr>buff_cache := map_vals (\<lambda>_. filter (\<lambda>b. \<not> expired now b)) (buff_cache s)\<rparr>))"

text \<open>\<^verbatim>\<open>OnTimer\<close> keeps the mutex while it calls the public \<^verbatim>\<open>ProcessDotHot\<close> for each target.\<close>

primrec process_all :: "(u64 \<Rightarrow> time_t) \<Rightarrow> u64 list \<Rightarrow> (BuffModule, unit) oper" where
  "process_all clock [] = retM ()"
| "process_all clock (t # ts) = bindM (ProcessDotHot (clock t) t) (\<lambda>_. process_all clock ts)"

definition OnTimer :: "(u64 \<Rightarrow> time_t) \<Rightarrow> (BuffModule, unit) oper" where
  "OnTimer clock = with_lock (\<lambda>m. process_all clock (map fst (buff_cache (inner m))) m)"

definition LoadBuffData :: "u64 \<Rightarrow> (BuffModule, bool) oper" where
  "LoadBuffData target = retM True"

definition SaveBuffData :: "u64 \<Rightarrow> (BuffModule, bool) oper" where
  "SaveBuffData target = guarded (\<lambda>s. Ret (map_of (buff_cache s) target \<noteq> None, s))"

section \<open>Invariant and steps\<close>

definition buff_ok :: "u64 \<Rightarrow> BuffInfo \<Rightarrow> bool" where
  "buff_ok t b \<longleftrightarrow> target_id b = t \<and> is_active b \<and> 1 \<le> stack_count b \<and> stack_count b \<le> max_stack b \<and>
     max_stack b = 5 \<and> buff_type b = BUFF \<and> effect_type b = ATTACK_UP \<and> effect_value b = 10 \<and>
     duration b = 30 \<and> end_time b = start_time b + 30"

definition buffs_ok :: "u64 \<Rightarrow> BuffInfo list \<Rightarrow> bool" where
  "buffs_ok t bs \<longleftrightarrow> (\<forall>b\<in>set bs. buff_ok t b) \<and> distinct (map buff_config_id bs)"

definition buff_inv :: "BuffModule \<Rightarrow> bool" where
  "buff_inv s \<longleftrightarrow> keys_ok (buff_cache s) \<and> keys_ok (buff_configs s) \<and>
     all_entries buffs_ok (buff_cache s) \<and>
     all_entries (\<lambda>c cfg. cfg = default_buff_config c) (buff_configs s)"

definition buff_step :: "u64 option \<Rightarrow> BuffModule \<Rightarrow> BuffModule \<Rightarrow> bool" where
  "buff_step k s s' \<longleftrightarrow> (buff_inv s \<longrightarrow> buff_inv s') \<and>
     (\<forall>t. k \<noteq> Some t \<longrightarrow> map_of (buff_cache s') t = map_of (buff_cache s) t)"

lemma buff_inv_init: "buff_inv buff_init"
  by (simp add: buff_inv_def buff_init_def)

lemma buff_step_refl [simp]: "buff_step k s s"
  by (simp add: buff_step_def)

lemma buff_step_trans: "buff_step k s s1 \<Longrightarrow> buff_step k s1 s2 \<Longrightarrow> buff_step k s s2"
  by (simp add: buff_step_def)

lemma buffs_ok_Nil [simp]: "buffs_ok t []"
  by (simp add: buffs_ok_def)

lemma buffs_ok_filter: "buffs_ok t bs \<Longrightarrow> buffs_ok t (filter p bs)"
  by (auto simp: buffs_ok_def distinct_map_filter)

lemma buffs_ok_del_first: "buffs_ok t bs \<Longrightarrow> buffs_ok t (del_first p bs)"
  unfolding buffs_ok_def using set_del_first [of p bs] by (auto intro: distinct_map_del_first)

lemma buffs_ok_upd_first:
  assumes "buffs_ok t bs" and "\<And>b. buff_config_id (f b) = buff_config_id b"
    and "\<And>b. buff_ok t b \<Longrightarrow> buff_ok t (f b)"
  shows "buffs_ok t (upd_first p f bs)"
  using assms by (auto simp: buffs_ok_def map_upd_first dest!: upd_first_set_cases)

lemma stack_refresh_facts [simp]:
  "buff_config_id (stack_one b) = buff_config_id b" "buff_config_id (refresh_one now b) = buff_config_id b"
  "buff_ok t b \<Longrightarrow> buff_ok t (stack_one b)" "buff_ok t b \<Longrightarrow> buff_ok t (refresh_one now b)"
  "buff_id (stack_one b) = buff_id b" "buff_id (refresh_one now b) = buff_id b"
  by (auto simp: stack_one_def refresh_one_def buff_ok_def)

text \<open>The step of an operation that changes the list of one target.\<close>

lemma buff_step_put:
  "map_of (buff_cache s) t = Some bs \<Longrightarrow> (buffs_ok t bs \<Longrightarrow> buffs_ok t bs') \<Longrightarrow>
   buff_step (Some t) s (s\<lparr>buff_cache := AList.update t bs' (buff_cache s)\<rparr>)"
  by (auto simp: buff_step_def buff_inv_def intro!: all_entries_update dest: all_entriesD)

lemma config_step: "GetBuffConfigInternal cid s = (cfg, s') \<Longrightarrow> buff_step k s s'"
  by (auto simp: GetBuffConfigInternal_def buff_step_def buff_inv_def intro!: all_entries_update
      split: option.splits)

lemma config_snd_step: "buff_step k s (snd (GetBuffConfigInternal cid s))"
  by (rule config_step) (rule prod.collapse [symmetric])

lemma config_default: "buff_inv s \<Longrightarrow> fst (GetBuffConfigInternal cid s) = default_buff_config cid"
  by (auto simp: GetBuffConfigInternal_def buff_inv_def dest: all_entriesD split: option.splits)

lemma config_cache [simp]: "buff_cache (snd (GetBuffConfigInternal cid s)) = buff_cache s"
  by (simp add: GetBuffConfigInternal_def split: option.splits)

lemma Stack_step: "buff_step (Some t) s (snd (StackBuffInternal t i s))"
  by (auto simp: StackBuffInternal_def intro!: buff_step_put buffs_ok_upd_first split: option.splits)

lemma Refresh_step: "buff_step (Some t) s (snd (RefreshBuffInternal now t i s))"
  by (auto simp: RefreshBuffInternal_def intro!: buff_step_put buffs_ok_upd_first split: option.splits)

lemma GenerateBuffId_state:
  "GenerateBuffId gt rnd s = (i, s1) \<Longrightarrow> buff_cache s1 = buff_cache s \<and> buff_configs s1 = buff_configs s"
  by (auto simp: GenerateBuffId_def split: prod.splits)

text \<open>What \<^verbatim>\<open>AddBuff\<close> does, on its three branches.\<close>

lemma AddBuff_cases:
  assumes "AddBuff gt rnd now t caster cid (idle s0) = Ret (ok, m')"
  obtains (stack) b where "ok" "List.find (\<lambda>b. buff_config_id b = cid \<and> is_active b) (entry (buff_cache s0) t) = Some b"
      "stack_count b < max_stack b"
      "m' = idle (snd (StackBuffInternal t (buff_id b) (snd (GetBuffConfigInternal cid s0))))"
  | (refresh) b where "ok" "List.find (\<lambda>b. buff_config_id b = cid \<and> is_active b) (entry (buff_cache s0) t) = Some b"
      "\<not> stack_count b < max_stack b"
      "m' = idle (snd (RefreshBuffInternal now t (buff_id b) (snd (GetBuffConfigInternal cid s0))))"
  | (create) i s' where "ok" "List.find (\<lambda>b. buff_config_id b = cid \<and> is_active b) (entry (buff_cache s0) t) = None"
      "m' = idle s'" "buff_configs s' = buff_configs (snd (GetBuffConfigInternal cid s0))"
      "\<forall>k. map_of (buff_cache s') k = (if k = t then Some (entry (buff_cache s0) t @
         [new_buff i t caster cid (fst (GetBuffConfigInternal cid s0)) now]) else map_of (buff_cache s0) k)"
      "keys_ok (buff_cache s0) \<longrightarrow> keys_ok (buff_cache s')"
proof -
  obtain cfg s where g: "GetBuffConfigInternal cid s0 = (cfg, s)" by fastforce
  then have c: "buff_cache s = buff_cache s0" using config_cache [of cid s0] by simp
  let ?s1 = "\<lambda>s. fst (GenerateBuffId gt rnd s)"
  show thesis
  proof (cases "map_of (buff_cache s0) t")
    case None
    let ?s = "s\<lparr>buff_cache := AList.update t [] (buff_cache s)\<rparr>"
    obtain i s2 where gen: "GenerateBuffId gt rnd ?s = (i, s2)" by fastforce
    from assms show thesis
      by (intro create [of "s2\<lparr>buff_cache := AList.update t (entry (buff_cache s2) t @ [new_buff i t caster cid cfg now]) (buff_cache s2)\<rparr>" i])
        (use GenerateBuffId_state [OF gen] gen g c None in \<open>auto simp: AddBuff_def Let_def\<close>)
  next
    case (Some bs)
    show thesis
    proof (cases "List.find (\<lambda>b. buff_config_id b = cid \<and> is_active b) bs")
      case None
      obtain i s2 where gen: "GenerateBuffId gt rnd s = (i, s2)" by fastforce
      from assms show thesis
        by (intro create [of "s2\<lparr>buff_cache := AList.update t (entry (buff_cache s2) t @ [new_buff i t caster cid cfg now]) (buff_cache s2)\<rparr>" i])
          (use GenerateBuffId_state [OF gen] gen g c None Some in \<open>auto simp: AddBuff_def Let_def\<close>)
    next
      case f: (Some b)
      show thesis
      proof (cases "stack_count b < max_stack b")
        case True
        with assms f Some g c show thesis by (intro stack [of b]) (auto simp: AddBuff_def Let_def)
      next
        case False
        with assms f Some g c show thesis by (intro refresh [of b]) (auto simp: AddBuff_def Let_def)
      qed
    qed
  qed
qed

lemma AddBuff_returns: "\<exists>m'. AddBuff gt rnd now t caster cid (idle s) = Ret (True, m')"
  by (auto simp: AddBuff_def Let_def split: prod.splits option.splits)

lemma new_buff_ok [simp]: "buff_ok t (new_buff i t caster cid (default_buff_config cid) now)"
  by (simp add: new_buff_def default_buff_config_def buff_ok_def)

lemma buffs_ok_add:
  assumes "buffs_ok t bs" and "List.find (\<lambda>b. buff_config_id b = cid \<and> is_active b) bs = None"
  shows "buffs_ok t (bs @ [new_buff i t caster cid (default_buff_config cid) now])"
  using assms by (auto simp: buffs_ok_def find_None_all buff_ok_def new_buff_def default_buff_config_def)

lemma entry_ok: "buff_inv s \<Longrightarrow> buffs_ok t (entry (buff_cache s) t)"
  by (cases "map_of (buff_cache s) t") (auto simp: buff_inv_def dest: all_entriesD)

lemma AddBuff_steps: "steps_by (buff_step (Some t)) (AddBuff gt rnd now t caster cid)"
  unfolding steps_by_def
proof (intro allI impI)
  fix s0 ok m'
  assume run: "AddBuff gt rnd now t caster cid (idle s0) = Ret (ok, m')"
  have cfg: "buff_step (Some t) s0 (snd (GetBuffConfigInternal cid s0))"
    by (rule config_snd_step)
  from run show "\<exists>s'. m' = idle s' \<and> buff_step (Some t) s0 s'"
  proof (cases rule: AddBuff_cases)
    case (stack b)
    with buff_step_trans [OF cfg Stack_step] show ?thesis by blast
  next
    case (refresh b)
    with buff_step_trans [OF cfg Refresh_step] show ?thesis by blast
  next
    case (create i s')
    have "buff_inv s'" if inv: "buff_inv s0"
    proof -
      have "buffs_ok t (entry (buff_cache s0) t @ [new_buff i t caster cid (default_buff_config cid) now])"
        using entry_ok [OF inv] create(2) by (rule buffs_ok_add)
      then have "all_entries buffs_ok (buff_cache s')"
        using inv create(5) config_default [OF inv] by (auto simp: all_entries_def buff_inv_def)
      moreover have "buff_inv (snd (GetBuffConfigInternal cid s0))"
        using cfg inv by (simp add: buff_step_def)
      ultimately show ?thesis using inv create(4,6) by (simp add: buff_inv_def)
    qed
    with create(3,5) show ?thesis by (auto simp: buff_step_def)
  qed
qed

lemma buff_query_steps:
  "steps_by (buff_step k) (GetBuffs t)" "steps_by (buff_step k) (GetBuffInfo t i)"
  "steps_by (buff_step k) (HasBuff t c)" "steps_by (buff_step k) (HasDebuff t)"
  "steps_by (buff_step k) (CalculateBuffEffects t)" "steps_by (buff_step k) (ApplyBuffEffects t)"
  "steps_by (buff_step k) (ProcessDotHot now t)" "steps_by (buff_step k) (LoadBuffData t)"
  "steps_by (buff_step k) (SaveBuffData t)" "steps_by (buff_step k) LoadBuffConfigs"
  by (auto simp: GetBuffs_def GetBuffInfo_def HasBuff_def HasDebuff_def CalculateBuffEffects_def
      ApplyBuffEffects_def ProcessDotHot_def LoadBuffData_def SaveBuffData_def LoadBuffConfigs_def
      intro!: steps_by_guarded steps_by_retM split: option.splits)

lemma buff_change_steps:
  "steps_by (buff_step (Some t)) (RemoveBuff t i)"
  "steps_by (buff_step (Some t)) (RemoveBuffByConfigId t c)"
  "steps_by (buff_step (Some t)) (RemoveAllBuffs t)" "steps_by (buff_step (Some t)) (RemoveDebuffs t)"
  by (auto simp: RemoveBuff_def RemoveBuffByConfigId_def RemoveAllBuffs_def RemoveDebuffs_def
      intro!: steps_by_guarded buff_step_put buffs_ok_del_first buffs_ok_filter split: option.splits)

lemma buff_internal_steps:
  "steps_by (buff_step (Some t)) (StackBuff t i)"
  "steps_by (buff_step (Some t)) (RefreshBuff now t i)"
  "steps_by (buff_step k) (GetBuffConfig c)"
  unfolding StackBuff_def RefreshBuff_def GetBuffConfig_def
  by (rule steps_by_pure, simp add: Stack_step Refresh_step config_snd_step)+

lemma OnUpdate_cache:
  "OnUpdate now (idle s) = Ret (u, m') \<longleftrightarrow> m' = idle (s\<lparr>buff_cache :=
     map_vals (\<lambda>_. filter (\<lambda>b. \<not> expired now b)) (buff_cache s)\<rparr>)"
  by (auto simp: OnUpdate_def)

lemma OnUpdate_inv: "OnUpdate now (idle s) = Ret (u, idle s') \<Longrightarrow> buff_inv s \<Longrightarrow> buff_inv s'"
  by (auto simp: OnUpdate_cache buff_inv_def intro: all_entries_map_vals buffs_ok_filter)

section \<open>The buff module as a machine\<close>

datatype buff_cmd =
    CAddBuff time_t int time_t u64 u64 i32
  | CRemoveBuff u64 u64
  | CRemoveBuffByConfigId u64 i32
  | CRemoveAllBuffs u64
  | CRemoveDebuffs u64
  | CGetBuffs u64
  | CGetBuffInfo u64 u64
  | CHasBuff u64 i32
  | CHasDebuff u64
  | CCalculateBuffEffects u64
  | CApplyBuffEffects u64
  | CProcessDotHot time_t u64
  | CStackBuff u64 u64
  | CRefreshBuff time_t u64 u64
  | COnUpdate time_t
  | CSaveBuffData u64

fun buff_exec :: "buff_cmd \<Rightarrow> (BuffModule, bool) oper" where
  "buff_exec (CAddBuff gt rnd now t ca c) = AddBuff gt rnd now t ca c"
| "buff_exec (CRemoveBuff t i) = RemoveBuff t i"
| "buff_exec (CRemoveBuffByConfigId t c) = RemoveBuffByConfigId t c"
| "buff_exec (CRemoveAllBuffs t) = RemoveAllBuffs t"
| "buff_exec (CRemoveDebuffs t) = RemoveDebuffs t"
| "buff_exec (CGetBuffs t) = succeeded (GetBuffs t)"
| "buff_exec (CGetBuffInfo t i) = succeeded (GetBuffInfo t i)"
| "buff_exec (CHasBuff t c) = HasBuff t c"
| "buff_exec (CHasDebuff t) = HasDebuff t"
| "buff_exec (CCalculateBuffEffects t) = bindM (CalculateBuffEffects t) (\<lambda>_. retM True)"
| "buff_exec (CApplyBuffEffects t) = ApplyBuffEffects t"
| "buff_exec (CProcessDotHot now t) = succeeded (ProcessDotHot now t)"
| "buff_exec (CStackBuff t i) = StackBuff t i"
| "buff_exec (CRefreshBuff now t i) = RefreshBuff now t i"
| "buff_exec (COnUpdate now) = bindM (OnUpdate now) (\<lambda>_. retM True)"
| "buff_exec (CSaveBuffData t) = SaveBuffData t"

text \<open>The targets whose list a command may change.\<close>

fun buff_touches :: "buff_cmd \<Rightarrow> u64 \<Rightarrow> bool" where
  "buff_touches (CAddBuff gt rnd now t ca c) k = (k = t)"
| "buff_touches (CRemoveBuff t i) k = (k = t)"
| "buff_touches (CRemoveBuffByConfigId t c) k = (k = t)"
| "buff_touches (CRemoveAllBuffs t) k = (k = t)"
| "buff_touches (CRemoveDebuffs t) k = (k = t)"
| "buff_touches (CStackBuff t i) k = (k = t)"
| "buff_touches (CRefreshBuff now t i) k = (k = t)"
| "buff_touches (COnUpdate now) k = True"
| "buff_touches _ k = False"

lemmas buff_steps = AddBuff_steps buff_query_steps buff_change_steps buff_internal_steps

lemma buff_exec_steps:
  assumes "\<forall>now. c \<noteq> COnUpdate now"
  shows "\<exists>k. (\<forall>t. k = Some t \<longrightarrow> buff_touches c t) \<and> steps_by (buff_step k) (buff_exec c)"
proof (cases c)
  case (CAddBuff gt rnd now t ca cid)
  then show ?thesis by (intro exI [of _ "Some t"]) (auto intro: buff_steps)
next
  case (CRemoveBuff t i)
  then show ?thesis by (intro exI [of _ "Some t"]) (auto intro: buff_steps)
next
  case (CRemoveBuffByConfigId t i)
  then show ?thesis by (intro exI [of _ "Some t"]) (auto intro: buff_steps)
next
  case (CRemoveAllBuffs t)
  then show ?thesis by (intro exI [of _ "Some t"]) (auto intro: buff_steps)
next
  case (CRemoveDebuffs t)
  then show ?thesis by (intro exI [of _ "Some t"]) (auto intro: buff_steps)
next
  case (CStackBuff t i)
  then show ?thesis by (intro exI [of _ "Some t"]) (auto intro: buff_steps)
next
  case (CRefreshBuff now t i)
  then show ?thesis by (intro exI [of _ "Some t"]) (auto intro: buff_steps)
qed (use assms in \<open>auto intro!: exI [of _ None] buff_query_steps stepping\<close>)

lemma buff_ops_live:
  "never_relocks (AddBuff gt rnd now t ca c)" "never_relocks (RemoveBuff t i)"
  "never_relocks (RemoveBuffByConfigId t c)" "never_relocks (RemoveAllBuffs t)"
  "never_relocks (RemoveDebuffs t)" "never_relocks (GetBuffs t)" "never_relocks (GetBuffInfo t i)"
  "never_relocks (HasBuff t c)" "never_relocks (HasDebuff t)" "never_relocks (ApplyBuffEffects t)"
  "never_relocks (StackBuff t i)" "never_relocks (RefreshBuff now t i)"
  "never_relocks (OnUpdate now)" "never_relocks (SaveBuffData t)"
  by (auto simp: never_relocks_guarded Let_def AddBuff_def RemoveBuff_def RemoveBuffByConfigId_def
      RemoveAllBuffs_def RemoveDebuffs_def GetBuffs_def GetBuffInfo_def HasBuff_def HasDebuff_def
      ApplyBuffEffects_def StackBuff_def RefreshBuff_def OnUpdate_def SaveBuffData_def
      split: option.splits prod.splits if_splits)

lemma sum_effects_no_relock: "sum_effects bs acc \<noteq> Fault Relock"
proof (induction bs arbitrary: acc)
  case Nil
  then show ?case by simp
next
  case (Cons b bs)
  then show ?case by (cases acc) (auto simp: bindO_eq_Fault split: BuffEffectType.splits)
qed

lemma ticks_no_relock: "ticks now bs \<noteq> Fault Relock"
  by (induction bs) (auto simp: bindO_eq_Fault Let_def)

lemma buff_sums_live: "never_relocks (CalculateBuffEffects t)" "never_relocks (ProcessDotHot now t)"
  by (auto simp: never_relocks_guarded CalculateBuffEffects_def ProcessDotHot_def bindO_eq_Fault
      sum_effects_no_relock ticks_no_relock split: option.splits)

lemma buff_exec_live: "never_relocks (buff_exec c)"
  by (cases c) (auto simp: buff_ops_live buff_sums_live intro!: stepping)

interpretation buff: live_machine buff_exec buff_inv
proof unfold_locales
  have upd: "\<exists>s'. m' = idle s' \<and> (buff_inv s \<longrightarrow> buff_inv s')"
    if "buff_exec (COnUpdate now) (idle s) = Ret (r, m')" for now s r m'
    using that OnUpdate_inv by (fastforce simp: bindM_def retM_def OnUpdate_cache split: prod.splits)
  have all: "\<exists>s'. m' = idle s' \<and> (buff_inv s \<longrightarrow> buff_inv s')"
    if "buff_exec c (idle s) = Ret (r, m')" for c s r m'
  proof (cases "\<forall>now. c \<noteq> COnUpdate now")
    case True
    from buff_exec_steps [OF this] obtain k where "steps_by (buff_step k) (buff_exec c)" by blast
    from steps_by_run [OF that this] show ?thesis by (auto simp: buff_step_def)
  next
    case False
    with upd that show ?thesis by blast
  qed
  show "\<exists>s'. m' = idle s'" if "buff_exec c (idle s) = Ret (r, m')" for c s r m'
    using all [OF that] by blast
  show "buff_inv s'" if "buff_exec c (idle s) = Ret (r, idle s')" "buff_inv s" for c s r s'
    using all [OF that(1)] that(2) by auto
  show "buff_exec c (idle s) \<noteq> Fault Relock" for s c
    using buff_exec_live by (auto simp: never_relocks_def)
qed

interpretation buff_targets: isolated_machine buff_exec buff_inv buff_touches "\<lambda>s. map_of (buff_cache s)"
proof unfold_locales
  fix c s r s' t
  assume run: "buff_exec c (idle s) = Ret (r, idle s')" and t: "\<not> buff_touches c t"
  from t have "\<forall>now. c \<noteq> COnUpdate now" by auto
  from buff_exec_steps [OF this] obtain k where k: "\<forall>t. k = Some t \<longrightarrow> buff_touches c t"
    and "steps_by (buff_step k) (buff_exec c)" by blast
  from steps_by_run [OF run this(2)] have "buff_step k s s'" by auto
  with k t show "map_of (buff_cache s') t = map_of (buff_cache s) t"
    by (auto simp: buff_step_def)
qed

interpretation buff_ids: id_source GenerateBuffId next_buff_id
  by unfold_locales (auto simp: GenerateBuffId_def next_static_id_def Let_def)

section \<open>Properties\<close>

text \<open>The buff of a configuration on a target.\<close>

definition buff_of :: "BuffModule \<Rightarrow> u64 \<Rightarrow> i32 \<Rightarrow> BuffInfo option" where
  "buff_of s t c = List.find (\<lambda>b. buff_config_id b = c) (entry (buff_cache s) t)"

lemma find_all_active: "\<forall>b\<in>set bs. is_active b \<Longrightarrow>
  List.find (\<lambda>b. buff_config_id b = c \<and> is_active b) bs = List.find (\<lambda>b. buff_config_id b = c) bs"
  by (induction bs) auto

lemma find_active: "buffs_ok t bs \<Longrightarrow>
  List.find (\<lambda>b. buff_config_id b = c \<and> is_active b) bs = List.find (\<lambda>b. buff_config_id b = c) bs"
  by (rule find_all_active) (simp add: buffs_ok_def buff_ok_def)

lemma unique_config:
  "buffs_ok t bs \<Longrightarrow> List.find (\<lambda>b. buff_config_id b = c) bs = Some b \<longleftrightarrow> b \<in> set bs \<and> buff_config_id b = c"
  by (induction bs) (auto simp: buffs_ok_def)

lemma find_append: "List.find p (xs @ ys) = (case List.find p xs of None \<Rightarrow> List.find p ys | Some x \<Rightarrow> Some x)"
  by (induction xs) auto

lemma find_upd_key:
  assumes "distinct (map buff_id bs)" and "distinct (map buff_config_id bs)"
    and "\<And>x. buff_config_id (f x) = buff_config_id x" and "b \<in> set bs"
  shows "List.find (\<lambda>x. buff_config_id x = c) (upd_first (\<lambda>x. buff_id x = buff_id b) f bs) =
    (if c = buff_config_id b then Some (f b) else List.find (\<lambda>x. buff_config_id x = c) bs)"
  using assms(1,2,4) by (induction bs) (auto simp: assms(3))

text \<open>
  \<^verbatim>\<open>AddBuff\<close> in a consistent module: it always succeeds; a buff the target does not have yet
  appears with one stack and the full duration from now, one that has room gains exactly one stack
  and keeps its times, one at its limit is refreshed to the full duration from now. Every other buff
  of the target and every other target are left alone.
\<close>

theorem AddBuff_stacks:
  assumes inv: "buff_inv s" and ids: "distinct (map buff_id (entry (buff_cache s) t))"
  shows "\<exists>s' i. AddBuff gt rnd now t caster c (idle s) = Ret (True, idle s') \<and>
    buff_of s' t c = Some (case buff_of s t c of
        None \<Rightarrow> new_buff i t caster c (default_buff_config c) now
      | Some b \<Rightarrow> if stack_count b < 5 then b\<lparr>stack_count := stack_count b + 1\<rparr>
                  else b\<lparr>start_time := now, end_time := now + 30\<rparr>) \<and>
    (\<forall>c'. c' \<noteq> c \<longrightarrow> buff_of s' t c' = buff_of s t c') \<and>
    (\<forall>t'. t' \<noteq> t \<longrightarrow> map_of (buff_cache s') t' = map_of (buff_cache s) t')"
proof -
  let ?bs = "entry (buff_cache s) t" and ?g = "snd (GetBuffConfigInternal c s)"
  have ok: "buffs_ok t ?bs" using inv by (rule entry_ok)
  obtain m' where run: "AddBuff gt rnd now t caster c (idle s) = Ret (True, m')"
    using AddBuff_returns by blast
  have found: thesis if "List.find (\<lambda>b. buff_config_id b = c \<and> is_active b) ?bs = Some b"
    and "\<And>bs. map_of (buff_cache s) t = Some bs \<Longrightarrow> b \<in> set bs \<Longrightarrow> buff_config_id b = c \<Longrightarrow>
      buff_of s t c = Some b \<Longrightarrow> buff_ok t b \<Longrightarrow> distinct (map buff_id bs) \<Longrightarrow>
      distinct (map buff_config_id bs) \<Longrightarrow> List.find (\<lambda>x. buff_id x = buff_id b) bs \<noteq> None \<Longrightarrow> thesis"
    for b thesis
  proof (cases "map_of (buff_cache s) t")
    case None
    with that(1) show thesis by simp
  next
    case (Some bs)
    with ok have bs: "buffs_ok t bs" by simp
    from that(1) Some have "List.find (\<lambda>b. buff_config_id b = c) bs = Some b"
      by (simp add: find_active [OF bs])
    with Some find_Some_mem [OF this] bs ids show thesis
      by (intro that(2) [OF Some]) (auto simp: buff_of_def buffs_ok_def find_None_all)
  qed
  from run show ?thesis
  proof (cases rule: AddBuff_cases)
    case (stack b)
    show ?thesis
    proof (rule found [OF stack(2)], goal_cases)
      case (1 bs)
      from 1(8) have st: "snd (StackBuffInternal t (buff_id b) ?g) = ?g\<lparr>buff_cache :=
          AList.update t (upd_first (\<lambda>x. buff_id x = buff_id b) stack_one bs) (buff_cache s)\<rparr>"
        using 1(1) by (auto simp: StackBuffInternal_def)
      show ?thesis
        by (rule exI [of _ "snd (StackBuffInternal t (buff_id b) ?g)"], rule exI [of _ 0])
          (use run stack(3,4) 1 in \<open>auto simp: st buff_of_def find_upd_key stack_one_def buff_ok_def\<close>)
    qed
  next
    case (refresh b)
    show ?thesis
    proof (rule found [OF refresh(2)], goal_cases)
      case (1 bs)
      from 1(8) have st: "snd (RefreshBuffInternal now t (buff_id b) ?g) = ?g\<lparr>buff_cache :=
          AList.update t (upd_first (\<lambda>x. buff_id x = buff_id b) (refresh_one now) bs) (buff_cache s)\<rparr>"
        using 1(1) by (auto simp: RefreshBuffInternal_def)
      show ?thesis
        by (rule exI [of _ "snd (RefreshBuffInternal now t (buff_id b) ?g)"], rule exI [of _ 0])
          (use run refresh(3,4) 1 in \<open>auto simp: st buff_of_def find_upd_key refresh_one_def buff_ok_def\<close>)
    qed
  next
    case (create i s')
    from create(2) have none: "buff_of s t c = None" by (simp add: buff_of_def find_active [OF ok])
    have bs': "entry (buff_cache s') t = ?bs @ [new_buff i t caster c (default_buff_config c) now]"
      using create(5) by (simp add: entry_def config_default [OF inv])
    show ?thesis
      by (rule exI [of _ s'], rule exI [of _ i])
        (use run create(3,5) none in \<open>auto simp: buff_of_def bs' find_append new_buff_def split: option.split\<close>)
  qed
qed

theorem AddBuff_stacks_witness:
  "\<exists>s'. AddBuff 5 3 9 7 1 2 (idle buff_init) = Ret (True, idle s') \<and>
     map_option stack_count (buff_of s' 7 2) = Some 1"
  using AddBuff_stacks [OF buff_inv_init, of 7 5 3 9 1 2]
  by (auto simp: buff_init_def buff_of_def new_buff_def)

text \<open>
  C25. In every run from the empty module (the timer hook apart) nothing blocks on the mutex, and
  whenever the run returns, every target has at most one buff of a configuration, active, with
  between one stack and its maximum, and ending exactly its duration after its start.
\<close>

theorem buffs_stay_bounded:
  "run_cmds buff_exec cs (idle buff_init) \<noteq> Fault Relock \<and>
   (\<forall>rs m'. run_cmds buff_exec cs (idle buff_init) = Ret (rs, m') \<longrightarrow> (\<exists>s'. m' = idle s' \<and> buff_inv s'))"
  using buff.run_live [OF buff_inv_init] buff.run_inv [OF _ buff_inv_init] by blast

theorem buffs_stay_bounded_witness:
  "\<exists>rs s'. run_cmds buff_exec [CAddBuff 5 3 9 7 1 2, CAddBuff 5 3 9 7 1 2, COnUpdate 20, CStackBuff 7 50003]
     (idle buff_init) = Ret (rs, idle s') \<and> buff_inv s'"
proof -
  let ?cs = "[CAddBuff 5 3 9 7 1 2, CAddBuff 5 3 9 7 1 2, COnUpdate 20, CStackBuff 7 50003]"
  have "\<exists>x. run_cmds buff_exec ?cs (idle buff_init) = Ret x"
    by (rule exI, code_simp)
  then show ?thesis using buffs_stay_bounded [of ?cs] by (metis surj_pair)
qed

text \<open>
  The update removes exactly the expired buffs: afterwards each target has, in order, those of
  its buffs that end after the clock reading, so nothing that has run out is still reported.
\<close>

theorem OnUpdate_expires:
  assumes "buff_inv s"
  shows "\<exists>s'. OnUpdate now (idle s) = Ret ((), idle s') \<and>
    (\<forall>t. entry (buff_cache s') t = filter (\<lambda>b. now < end_time b) (entry (buff_cache s) t)) \<and>
    (\<forall>t c. HasBuff t c (idle s') = Ret (\<exists>b. buff_of s t c = Some b \<and> now < end_time b, idle s'))"
proof -
  let ?s' = "s\<lparr>buff_cache := map_vals (\<lambda>_. filter (\<lambda>b. \<not> expired now b)) (buff_cache s)\<rparr>"
  have e: "entry (buff_cache ?s') t = filter (\<lambda>b. now < end_time b) (entry (buff_cache s) t)" for t
  proof -
    have "filter (\<lambda>b. \<not> expired now b) (entry (buff_cache s) t) =
        filter (\<lambda>b. now < end_time b) (entry (buff_cache s) t)"
      using entry_ok [OF assms, of t] by (intro filter_cong) (auto simp: buffs_ok_def buff_ok_def expired_def)
    then show ?thesis by (simp add: entry_map_vals)
  qed
  have h: "HasBuff t c (idle ?s') = Ret (\<exists>b. buff_of s t c = Some b \<and> now < end_time b, idle ?s')" for t c
  proof -
    have ok: "buffs_ok t (entry (buff_cache s) t)" using assms by (rule entry_ok)
    have "HasBuff t c (idle ?s') = Ret (list_ex (\<lambda>b. buff_config_id b = c \<and> is_active b) (entry (buff_cache ?s') t), idle ?s')"
      by (simp add: HasBuff_def entry_def split: option.split)
    moreover have "(\<exists>b. buff_of s t c = Some b \<and> now < end_time b) \<longleftrightarrow>
        (\<exists>b\<in>set (entry (buff_cache s) t). buff_config_id b = c \<and> now < end_time b)"
      using ok unique_config by (auto simp: buff_of_def)
    moreover have "list_ex (\<lambda>b. buff_config_id b = c \<and> is_active b) (entry (buff_cache ?s') t) \<longleftrightarrow>
        (\<exists>b\<in>set (entry (buff_cache s) t). buff_config_id b = c \<and> now < end_time b)"
      using ok unfolding e by (auto simp: list_ex_iff buffs_ok_def buff_ok_def)
    ultimately show ?thesis by simp
  qed
  show ?thesis using e h OnUpdate_cache by (intro exI [of _ ?s']) blast
qed

theorem OnUpdate_expires_witness:
  "\<exists>s'. OnUpdate 40 (idle (buff_init\<lparr>buff_cache := [(7, [new_buff 1 7 1 2 (default_buff_config 2) 9])]\<rparr>)) =
     Ret ((), idle s') \<and> entry (buff_cache s') 7 = []"
proof -
  have "buff_inv (buff_init\<lparr>buff_cache := [(7, [new_buff 1 7 1 2 (default_buff_config 2) 9])]\<rparr>)"
    by (simp add: buff_inv_def buff_init_def keys_ok_def all_entries_def buffs_ok_def)
  from OnUpdate_expires [OF this, of 40] show ?thesis
    by (auto simp: new_buff_def default_buff_config_def)
qed

lemma sum_effects_default:
  "\<forall>b\<in>set bs. buff_ok t b \<Longrightarrow> 0 \<le> a \<Longrightarrow> a + 50 * int (length bs) < 2 ^ 31 \<Longrightarrow>
   sum_effects bs (a, 0, 0) = Ret (a + 10 * sum_list (map stack_count bs), 0, 0)"
proof (induction bs arbitrary: a)
  case Nil
  then show ?case by simp
next
  case (Cons b bs)
  from Cons.prems(1) have b: "is_active b" "1 \<le> stack_count b" "stack_count b \<le> 5" "effect_value b = 10"
    "effect_type b = ATTACK_UP" by (auto simp: buff_ok_def)
  then have "in_i32 (10 * stack_count b)" "in_i32 (a + 10 * stack_count b)"
    using Cons.prems(2,3) by (simp_all add: in_i32_def)
  moreover have "sum_effects bs (a + 10 * stack_count b, 0, 0) =
      Ret (a + 10 * stack_count b + 10 * sum_list (map stack_count bs), 0, 0)"
    using Cons.prems b by (intro Cons.IH) auto
  ultimately show ?case using b by (simp add: algebra_simps)
qed

text \<open>
  The bonus of the buffs: with fewer than 42 million buffs on the target (so that the sums fit
  in 32 bits) \<^verbatim>\<open>CalculateBuffEffects\<close> returns ten points of attack for each stack on it and no
  defense or speed, and changes nothing.
\<close>

theorem buff_effects_sum:
  assumes "buff_inv s" and "50 * int (length (entry (buff_cache s) t)) < 2 ^ 31"
  shows "CalculateBuffEffects t (idle s) =
    Ret ((10 * sum_list (map stack_count (entry (buff_cache s) t)), 0, 0), idle s)"
proof (cases "map_of (buff_cache s) t")
  case None
  then show ?thesis by (simp add: CalculateBuffEffects_def)
next
  case (Some bs)
  with assms entry_ok [OF assms(1), of t] sum_effects_default [of bs t 0]
  show ?thesis by (simp add: CalculateBuffEffects_def buffs_ok_def)
qed

theorem buff_effects_sum_witness:
  "CalculateBuffEffects 7 (idle (buff_init\<lparr>buff_cache := [(7, [new_buff 1 7 1 2 (default_buff_config 2) 9])]\<rparr>)) =
     Ret ((10, 0, 0), idle (buff_init\<lparr>buff_cache := [(7, [new_buff 1 7 1 2 (default_buff_config 2) 9])]\<rparr>))"
proof -
  let ?s = "buff_init\<lparr>buff_cache := [(7, [new_buff 1 7 1 2 (default_buff_config 2) 9])]\<rparr>"
  have "buff_inv ?s" "50 * int (length (entry (buff_cache ?s) 7)) < 2 ^ 31"
    by (simp_all add: buff_inv_def buff_init_def keys_ok_def all_entries_def buffs_ok_def)
  from buff_effects_sum [OF this] show ?thesis by (simp add: new_buff_def)
qed

text \<open>
  The timer hook locks itself out: \<^verbatim>\<open>OnTimer\<close> keeps the mutex while it calls
  \<^verbatim>\<open>ProcessDotHot\<close>, which locks it again. It returns, changing nothing, exactly when no target has
  ever had a buff; otherwise the calling thread relocks the mutex it holds.
\<close>

theorem OnTimer_relocks:
  "OnTimer clock (idle s) = (if buff_cache s = [] then Ret ((), idle s) else Fault Relock)"
proof (cases "buff_cache s")
  case Nil
  then show ?thesis by (simp add: OnTimer_def with_lock_def retM_def idle_def)
next
  case (Cons x xs)
  then show ?thesis
    by (simp add: OnTimer_def with_lock_idle bindM_def ProcessDotHot_def)
qed

end
