(* ===== verification/Skill.thy ===== *)
theory Skill
  imports Machine
begin

text \<open>
  \<open>game_server/logic_server/skill_module.cc\<close>: the skills of the roles, their levels and their
  cooldown. \<^verbatim>\<open>UseSkill\<close> is a sequence of critical sections of the module mutex.
\<close>

section \<open>Data\<close>

datatype SkillType = ACTIVE | PASSIVE | BUFF | DEBUFF | HEAL | CONTROL

datatype SkillTargetType = SELF | SINGLE | AOE | LINE | SECTOR

record SkillInfo =
  skill_id :: u64
  skill_config_id :: i32
  level :: i32
  exp :: i32
  cooldown_time :: i32
  last_use_time :: time_t
  is_unlocked :: bool

record SkillEffect =
  eff_type :: i32
  eff_value :: i32
  eff_duration :: i32
  eff_interval :: i32

record SkillConfig =
  cfg_id :: i32
  skill_name :: string
  skill_type :: SkillType
  target_type :: SkillTargetType
  cast_range :: i32
  aoe_radius :: i32
  cooldown :: i32
  mp_cost :: i32
  damage :: i32
  heal :: i32
  effects :: "SkillEffect list"

text \<open>
  The module's state. The pointer \<^verbatim>\<open>buff_module_\<close> is set to null by the constructor and never
  assigned again, so it is not a field.
\<close>

record SkillModule =
  skill_cache :: "(u64 \<times> SkillInfo list) list"
  skill_configs :: "(i32 \<times> SkillConfig) list"
  next_skill_id :: "u64 option"

definition skill_init :: SkillModule where
  "skill_init = \<lparr>skill_cache = [], skill_configs = [], next_skill_id = None\<rparr>"

section \<open>Operations\<close>

definition LoadSkillConfigs :: "(SkillModule, bool) oper" where
  "LoadSkillConfigs = guarded (\<lambda>s. Ret (True, s))"

definition InitSkills :: "u64 \<Rightarrow> (SkillModule, bool) oper" where
  "InitSkills role = guarded (\<lambda>s.
     case map_of (skill_cache s) role of
       Some _ \<Rightarrow> Ret (True, s)
     | None \<Rightarrow> Ret (True, s\<lparr>skill_cache := AList.update role [] (skill_cache s)\<rparr>))"

definition GetSkills :: "u64 \<Rightarrow> (SkillModule, SkillInfo list option) oper" where
  "GetSkills role = guarded (\<lambda>s. Ret (map_of (skill_cache s) role, s))"

definition find_skill :: "i32 \<Rightarrow> SkillInfo list \<Rightarrow> SkillInfo option" where
  "find_skill cid = List.find (\<lambda>k. skill_config_id k = cid)"

definition GetSkillInfo :: "u64 \<Rightarrow> i32 \<Rightarrow> (SkillModule, SkillInfo option) oper" where
  "GetSkillInfo role cid = guarded (\<lambda>s.
     Ret (case map_of (skill_cache s) role of None \<Rightarrow> None | Some ks \<Rightarrow> find_skill cid ks, s))"

definition default_skill_config :: "i32 \<Rightarrow> SkillConfig" where
  "default_skill_config cid =
     \<lparr>cfg_id = cid, skill_name = ''Skill_'' @ to_dec cid, skill_type = ACTIVE,
      target_type = SINGLE, cast_range = 100, aoe_radius = 20, cooldown = 5, mp_cost = 10,
      damage = 100, heal = 0, effects = []\<rparr>"

definition GetSkillConfigInternal :: "i32 \<Rightarrow> SkillModule \<Rightarrow> SkillConfig \<times> SkillModule" where
  "GetSkillConfigInternal cid s =
     (case map_of (skill_configs s) cid of
        Some c \<Rightarrow> (c, s)
      | None \<Rightarrow> (default_skill_config cid,
          s\<lparr>skill_configs := AList.update cid (default_skill_config cid) (skill_configs s)\<rparr>))"

definition GetSkillConfig :: "i32 \<Rightarrow> (SkillModule, SkillConfig) oper" where
  "GetSkillConfig cid = guarded (\<lambda>s. Ret (GetSkillConfigInternal cid s))"

definition GenerateSkillId :: "time_t \<Rightarrow> int \<Rightarrow> SkillModule \<Rightarrow> u64 \<times> SkillModule" where
  "GenerateSkillId now rnd s =
     (let (i, c) = next_static_id now rnd (next_skill_id s) in (i, s\<lparr>next_skill_id := c\<rparr>))"

definition new_skill :: "u64 \<Rightarrow> i32 \<Rightarrow> SkillConfig \<Rightarrow> SkillInfo" where
  "new_skill sid cid cfg =
     \<lparr>skill_id = sid, skill_config_id = cid, level = 1, exp = 0, cooldown_time = cooldown cfg,
      last_use_time = 0, is_unlocked = True\<rparr>"

definition LearnSkill :: "time_t \<Rightarrow> int \<Rightarrow> u64 \<Rightarrow> i32 \<Rightarrow> (SkillModule, bool) oper" where
  "LearnSkill gt rnd role cid = guarded (\<lambda>s.
     case map_of (skill_cache s) role of
       None \<Rightarrow> Ret (False, s)
     | Some ks \<Rightarrow>
         if find_skill cid ks \<noteq> None then Ret (False, s)
         else
           let (cfg, s1) = GetSkillConfigInternal cid s;
               (sid, s2) = GenerateSkillId gt rnd s1
           in Ret (True, s2\<lparr>skill_cache :=
                AList.update role (ks @ [new_skill sid cid cfg]) (skill_cache s2)\<rparr>))"

definition set_skill :: "u64 \<Rightarrow> i32 \<Rightarrow> (SkillInfo \<Rightarrow> SkillInfo) \<Rightarrow> SkillModule \<Rightarrow> SkillModule" where
  "set_skill role cid f s = s\<lparr>skill_cache := AList.update role
     (upd_first (\<lambda>k. skill_config_id k = cid) f (entry (skill_cache s) role)) (skill_cache s)\<rparr>"

definition UpgradeSkill :: "u64 \<Rightarrow> i32 \<Rightarrow> (SkillModule, bool) oper" where
  "UpgradeSkill role cid = guarded (\<lambda>s.
     case map_of (skill_cache s) role of
       None \<Rightarrow> Ret (False, s)
     | Some ks \<Rightarrow>
         (case find_skill cid ks of
            None \<Rightarrow> Ret (False, s)
          | Some k \<Rightarrow>
              if 10 \<le> level k then Ret (False, s)
              else bindO (add32 (level k) 1) (\<lambda>l.
                Ret (True, set_skill role cid (\<lambda>k. k\<lparr>level := l\<rparr>) s))))"

definition ForgetSkill :: "u64 \<Rightarrow> i32 \<Rightarrow> (SkillModule, bool) oper" where
  "ForgetSkill role cid = guarded (\<lambda>s.
     case map_of (skill_cache s) role of
       None \<Rightarrow> Ret (False, s)
     | Some ks \<Rightarrow>
         if find_skill cid ks = None then Ret (False, s)
         else Ret (True, s\<lparr>skill_cache := AList.update role
           (filter (\<lambda>k. skill_config_id k \<noteq> cid) ks) (skill_cache s)\<rparr>))"

definition CanUseSkill :: "time_t \<Rightarrow> u64 \<Rightarrow> i32 \<Rightarrow> (SkillModule, bool) oper" where
  "CanUseSkill now role cid = guarded (\<lambda>s.
     Ret (case map_of (skill_cache s) role of
            None \<Rightarrow> False
          | Some ks \<Rightarrow>
              (case find_skill cid ks of
                 None \<Rightarrow> False
               | Some k \<Rightarrow>
                   if \<not> is_unlocked k then False
                   else if 0 < last_use_time k \<and> now - last_use_time k < cooldown_time k then False
                   else True), s))"

definition IsSkillInCooldown :: "time_t \<Rightarrow> u64 \<Rightarrow> i32 \<Rightarrow> (SkillModule, bool) oper" where
  "IsSkillInCooldown now role cid = guarded (\<lambda>s.
     Ret (case map_of (skill_cache s) role of
            None \<Rightarrow> False
          | Some ks \<Rightarrow>
              (case find_skill cid ks of
                 None \<Rightarrow> False
               | Some k \<Rightarrow>
                   if last_use_time k = 0 then False
                   else now - last_use_time k < cooldown_time k), s))"

definition GetSkillCooldown :: "time_t \<Rightarrow> u64 \<Rightarrow> i32 \<Rightarrow> (SkillModule, i32) oper" where
  "GetSkillCooldown now role cid = guarded (\<lambda>s.
     case map_of (skill_cache s) role of
       None \<Rightarrow> Ret (0, s)
     | Some ks \<Rightarrow>
         (case find_skill cid ks of
            None \<Rightarrow> Ret (0, s)
          | Some k \<Rightarrow>
              if last_use_time k = 0 then Ret (0, s)
              else
                let elapsed = to_i32 (now - last_use_time k) in
                if cooldown_time k \<le> elapsed then Ret (0, s)
                else bindO (sub32 (cooldown_time k) elapsed) (\<lambda>r. Ret (r, s))))"

definition CalculateSkillDamage :: "u64 \<Rightarrow> i32 \<Rightarrow> u64 \<Rightarrow> (SkillModule, i32) oper" where
  "CalculateSkillDamage role cid target = bindM (GetSkillConfig cid) (\<lambda>cfg. retM (damage cfg))"

definition CalculateSkillHeal :: "u64 \<Rightarrow> i32 \<Rightarrow> u64 \<Rightarrow> (SkillModule, i32) oper" where
  "CalculateSkillHeal role cid target = bindM (GetSkillConfig cid) (\<lambda>cfg. retM (heal cfg))"

text \<open>
  The buff an effect asks for. \<^verbatim>\<open>ApplySkillEffects\<close> would hand it to the buff module; the pointer
  is null, so the call is skipped and only the list of the buffs asked for is left.
\<close>

definition effect_buff :: "SkillEffect \<Rightarrow> i32 option" where
  "effect_buff e =
     (if eff_type e = 1 then Some 1001 else if eff_type e = 2 then Some 1002
      else if eff_type e = 3 then Some 1003 else if eff_type e = 4 then Some 2001
      else if eff_type e = 5 then Some 2002 else None)"

definition ApplySkillEffects :: "u64 \<Rightarrow> i32 \<Rightarrow> u64 \<Rightarrow> (SkillModule, i32 list) oper" where
  "ApplySkillEffects role cid target =
     bindM (GetSkillConfig cid) (\<lambda>cfg. retM (List.map_filter effect_buff (effects cfg)))"

definition GetSkillTargets ::
  "u64 \<Rightarrow> i32 \<Rightarrow> f32bits \<Rightarrow> f32bits \<Rightarrow> (SkillModule, u64 list) oper" where
  "GetSkillTargets role cid tx tz = bindM (GetSkillConfig cid) (\<lambda>cfg.
     retM (case target_type cfg of SELF \<Rightarrow> [role] | _ \<Rightarrow> []))"

definition IsTargetInRange :: "u64 \<Rightarrow> u64 \<Rightarrow> i32 \<Rightarrow> bool" where
  "IsTargetInRange role target reach = True"

text \<open>What happens to one target; the hits are what the source computes and logs.\<close>

datatype hit = Damage u64 i32 | Heal u64 i32 | Effects u64 "i32 list"

definition hit_target :: "u64 \<Rightarrow> i32 \<Rightarrow> SkillConfig \<Rightarrow> u64 \<Rightarrow> (SkillModule, hit list) oper" where
  "hit_target role cid cfg t =
     bindM (if 0 < damage cfg
            then bindM (CalculateSkillDamage role cid t) (\<lambda>d. retM [Damage t d]) else retM [])
     (\<lambda>ds. bindM (if 0 < heal cfg
            then bindM (CalculateSkillHeal role cid t) (\<lambda>h. retM [Heal t h]) else retM [])
     (\<lambda>hs. bindM (if effects cfg \<noteq> []
            then bindM (ApplySkillEffects role cid t) (\<lambda>es. retM [Effects t es]) else retM [])
     (\<lambda>es. retM (ds @ hs @ es))))"

primrec hit_all :: "u64 \<Rightarrow> i32 \<Rightarrow> SkillConfig \<Rightarrow> u64 list \<Rightarrow> (SkillModule, hit list) oper" where
  "hit_all role cid cfg [] = retM []"
| "hit_all role cid cfg (t # ts) =
     bindM (hit_target role cid cfg t) (\<lambda>hs. bindM (hit_all role cid cfg ts) (\<lambda>hs'. retM (hs @ hs')))"

definition start_cooldown :: "time_t \<Rightarrow> u64 \<Rightarrow> i32 \<Rightarrow> SkillConfig \<Rightarrow> (SkillModule, unit) oper" where
  "start_cooldown now role cid cfg = guarded (\<lambda>s.
     case map_of (skill_cache s) role of
       None \<Rightarrow> Ret ((), s)
     | Some ks \<Rightarrow> Ret ((), set_skill role cid
         (\<lambda>k. k\<lparr>last_use_time := now, cooldown_time := cooldown cfg\<rparr>) s))"

text \<open>\<open>t1\<close> is the clock read by the check, \<open>t2\<close> the one read when the cooldown starts.\<close>

definition UseSkill ::
  "time_t \<Rightarrow> time_t \<Rightarrow> u64 \<Rightarrow> i32 \<Rightarrow> u64 \<Rightarrow> f32bits \<Rightarrow> f32bits \<Rightarrow> (SkillModule, hit list option) oper" where
  "UseSkill t1 t2 role cid target tx tz =
     bindM (CanUseSkill t1 role cid) (\<lambda>can.
       if \<not> can then retM None
       else bindM (GetSkillConfig cid) (\<lambda>cfg.
         if 0 < target \<and> \<not> IsTargetInRange role target (cast_range cfg) then retM None
         else bindM (if target_type cfg = SINGLE
                     then retM (if 0 < target then [target] else [])
                     else GetSkillTargets role cid tx tz) (\<lambda>targets.
           bindM (hit_all role cid cfg targets) (\<lambda>hits.
             bindM (start_cooldown t2 role cid cfg) (\<lambda>_. retM (Some hits))))))"

definition LoadSkillData :: "u64 \<Rightarrow> (SkillModule, bool) oper" where
  "LoadSkillData role = bindM (InitSkills role) (\<lambda>_. retM True)"

definition SaveSkillData :: "u64 \<Rightarrow> (SkillModule, bool) oper" where
  "SaveSkillData role = guarded (\<lambda>s. Ret (map_of (skill_cache s) role \<noteq> None, s))"

section \<open>Invariant and steps\<close>

definition skill_ok :: "SkillInfo \<Rightarrow> bool" where
  "skill_ok k \<longleftrightarrow> 1 \<le> level k \<and> level k \<le> 10 \<and> cooldown_time k = 5 \<and> is_unlocked k"

definition skills_ok :: "u64 \<Rightarrow> SkillInfo list \<Rightarrow> bool" where
  "skills_ok r ks \<longleftrightarrow> (\<forall>k\<in>set ks. skill_ok k) \<and> distinct (map skill_config_id ks)"

definition skill_inv :: "SkillModule \<Rightarrow> bool" where
  "skill_inv s \<longleftrightarrow> keys_ok (skill_cache s) \<and> keys_ok (skill_configs s) \<and>
     all_entries skills_ok (skill_cache s) \<and>
     all_entries (\<lambda>c cfg. cfg = default_skill_config c) (skill_configs s)"

text \<open>A role's skill, and the part of it the cooldown reads.\<close>

definition skill_of :: "SkillModule \<Rightarrow> u64 \<Rightarrow> i32 \<Rightarrow> SkillInfo option" where
  "skill_of s r c = find_skill c (entry (skill_cache s) r)"

definition use_view :: "SkillModule \<Rightarrow> u64 \<times> i32 \<Rightarrow> (time_t \<times> i32) option" where
  "use_view s rc = map_option (\<lambda>k. (last_use_time k, cooldown_time k)) (skill_of s (fst rc) (snd rc))"

definition skill_step :: "(u64 \<times> i32) option \<Rightarrow> SkillModule \<Rightarrow> SkillModule \<Rightarrow> bool" where
  "skill_step a s s' \<longleftrightarrow> (skill_inv s \<longrightarrow> skill_inv s') \<and>
     (\<forall>rc. a \<noteq> Some rc \<longrightarrow> use_view s' rc = use_view s rc)"

lemma skill_inv_init: "skill_inv skill_init"
  by (simp add: skill_inv_def skill_init_def)

lemma skill_step_refl [simp]: "skill_step a s s"
  by (simp add: skill_step_def)

lemma skill_step_trans: "skill_step a s s1 \<Longrightarrow> skill_step a s1 s2 \<Longrightarrow> skill_step a s s2"
  by (simp add: skill_step_def)

lemma skill_step_none: "skill_step None s s' \<Longrightarrow> skill_step a s s'"
  by (simp add: skill_step_def)

lemma find_skill_simps [simp]:
  "find_skill c [] = None"
  "find_skill c (k # ks) = (if skill_config_id k = c then Some k else find_skill c ks)"
  "find_skill c (ks @ ks') = (case find_skill c ks of None \<Rightarrow> find_skill c ks' | Some k \<Rightarrow> Some k)"
  by (induction ks) (auto simp: find_skill_def)

lemma find_skill_None: "find_skill c ks = None \<longleftrightarrow> c \<notin> skill_config_id ` set ks"
  by (induction ks) auto

lemma find_skill_Some: "find_skill c ks = Some k \<Longrightarrow> k \<in> set ks \<and> skill_config_id k = c"
  by (induction ks) (auto split: if_splits)

lemma find_skill_filter:
  "find_skill c (filter (\<lambda>k. skill_config_id k \<noteq> d) ks) = (if c = d then None else find_skill c ks)"
  by (induction ks) auto

lemma find_skill_upd:
  "(\<And>k. skill_config_id (f k) = skill_config_id k) \<Longrightarrow>
   find_skill c (upd_first (\<lambda>k. skill_config_id k = d) f ks) =
     (if c = d then map_option f (find_skill c ks) else find_skill c ks)"
  by (induction ks) auto

lemma entry_skills_ok: "skill_inv s \<Longrightarrow> skills_ok r (entry (skill_cache s) r)"
  by (cases "map_of (skill_cache s) r") (auto simp: skill_inv_def skills_ok_def dest: all_entriesD)

lemma skill_of_put:
  "skill_of (s\<lparr>skill_cache := AList.update r ks (skill_cache s)\<rparr>) r' c =
     (if r' = r then find_skill c ks else skill_of s r' c)"
  by (simp add: skill_of_def)

lemma skill_of_set:
  "(\<And>k. skill_config_id (f k) = skill_config_id k) \<Longrightarrow>
   skill_of (set_skill r c f s) r' c' =
     (if r' = r \<and> c' = c then map_option f (skill_of s r c) else skill_of s r' c')"
  by (auto simp: set_skill_def skill_of_def find_skill_upd)

lemma set_skill_inv:
  assumes "skill_inv s" and "\<And>k. skill_config_id (f k) = skill_config_id k"
    and "\<And>k. find_skill c (entry (skill_cache s) r) = Some k \<Longrightarrow> skill_ok k \<Longrightarrow> skill_ok (f k)"
  shows "skill_inv (set_skill r c f s)"
proof -
  let ?ks = "entry (skill_cache s) r" and ?p = "\<lambda>k. skill_config_id k = c"
  have ok: "skills_ok r ?ks" using assms(1) by (rule entry_skills_ok)
  have "skill_ok k" if k: "k \<in> set (upd_first ?p f ?ks)" for k
  proof (cases "find_skill c ?ks")
    case None
    then have "upd_first ?p f ?ks = ?ks"
      by (intro upd_first_id) (auto simp: find_skill_None)
    with k ok show ?thesis by (simp add: skills_ok_def)
  next
    case (Some k0)
    then have "List.find ?p ?ks = Some k0" by (simp add: find_skill_def)
    from upd_first_found_cases [OF this k] Some ok find_skill_Some [OF Some] assms(3)
    show ?thesis by (auto simp: skills_ok_def)
  qed
  then have "skills_ok r (upd_first ?p f ?ks)"
    using ok assms(2) by (simp add: skills_ok_def map_upd_first)
  with assms(1) show ?thesis
    by (auto simp: skill_inv_def set_skill_def intro!: all_entries_update)
qed

lemma skill_step_set:
  assumes "\<And>k. skill_config_id (f k) = skill_config_id k"
    and "\<And>k. find_skill c (entry (skill_cache s) r) = Some k \<Longrightarrow> skill_ok k \<Longrightarrow> skill_ok (f k)"
  shows "skill_step (Some (r, c)) s (set_skill r c f s)"
  using assms by (auto simp: skill_step_def use_view_def skill_of_set intro: set_skill_inv)

text \<open>An operation that replaces a role's list and keeps what the cooldown reads of it.\<close>

lemma skill_step_put:
  assumes "map_of (skill_cache s) r = Some ks" and "skills_ok r ks \<Longrightarrow> skills_ok r ks'"
    and "\<And>c. a \<noteq> Some (r, c) \<Longrightarrow> find_skill c ks' = find_skill c ks"
  shows "skill_step a s (s\<lparr>skill_cache := AList.update r ks' (skill_cache s)\<rparr>)"
proof -
  have "skill_inv (s\<lparr>skill_cache := AList.update r ks' (skill_cache s)\<rparr>)" if "skill_inv s"
    using that assms(1,2) by (auto simp: skill_inv_def intro!: all_entries_update dest: all_entriesD)
  moreover have "use_view (s\<lparr>skill_cache := AList.update r ks' (skill_cache s)\<rparr>) rc = use_view s rc"
    if "a \<noteq> Some rc" for rc
    using that assms(1,3) by (cases rc) (auto simp: use_view_def skill_of_put skill_of_def)
  ultimately show ?thesis by (simp add: skill_step_def)
qed

lemma skill_config_cache [simp]: "skill_cache (snd (GetSkillConfigInternal cid s)) = skill_cache s"
  by (simp add: GetSkillConfigInternal_def split: option.splits)

lemma skill_config_stored [simp]:
  "map_of (skill_configs (snd (GetSkillConfigInternal cid s))) cid = Some (fst (GetSkillConfigInternal cid s))"
  by (simp add: GetSkillConfigInternal_def split: option.splits)

lemma skill_config_again [simp]:
  "GetSkillConfigInternal cid (snd (GetSkillConfigInternal cid s)) = GetSkillConfigInternal cid s"
  by (simp add: GetSkillConfigInternal_def split: option.split)

lemma skill_config_default: "skill_inv s \<Longrightarrow> fst (GetSkillConfigInternal cid s) = default_skill_config cid"
  by (auto simp: GetSkillConfigInternal_def skill_inv_def dest: all_entriesD split: option.splits)

lemma skill_config_step: "skill_step a s (snd (GetSkillConfigInternal cid s))"
proof -
  have "skill_inv (snd (GetSkillConfigInternal cid s))" if "skill_inv s"
    using that by (auto simp: GetSkillConfigInternal_def skill_inv_def intro!: all_entries_update
        split: option.splits)
  then show ?thesis by (simp add: skill_step_def use_view_def skill_of_def)
qed

lemma GenerateSkillId_state:
  "GenerateSkillId gt rnd s = (i, s1) \<Longrightarrow> skill_cache s1 = skill_cache s \<and> skill_configs s1 = skill_configs s"
  by (auto simp: GenerateSkillId_def split: prod.splits)

lemma skill_query_steps:
  "steps_by (skill_step a) (GetSkills r)" "steps_by (skill_step a) (GetSkillInfo r c)"
  "steps_by (skill_step a) (CanUseSkill now r c)" "steps_by (skill_step a) (IsSkillInCooldown now r c)"
  "steps_by (skill_step a) (GetSkillCooldown now r c)" "steps_by (skill_step a) (SaveSkillData r)"
  by (auto simp: GetSkills_def GetSkillInfo_def CanUseSkill_def IsSkillInCooldown_def
      GetSkillCooldown_def SaveSkillData_def Let_def
      intro!: steps_by_guarded split: option.splits if_splits)

lemma GetSkillConfig_steps: "steps_by (skill_step a) (GetSkillConfig c)"
  unfolding GetSkillConfig_def by (rule steps_by_pure) (rule skill_config_step)

lemma InitSkills_steps: "steps_by (skill_step a) (InitSkills r)"
  unfolding InitSkills_def
  by (rule steps_by_guarded)
    (auto simp: skill_step_def skill_inv_def use_view_def skill_of_def skills_ok_def entry_def
      intro!: all_entries_update split: option.splits)

lemma skills_ok_add:
  "skills_ok r ks \<Longrightarrow> find_skill c ks = None \<Longrightarrow> skills_ok r (ks @ [new_skill i c (default_skill_config c)])"
  by (auto simp: skills_ok_def skill_ok_def new_skill_def default_skill_config_def find_skill_None)

text \<open>The new state of \<^verbatim>\<open>LearnSkill\<close>.\<close>

lemma LearnSkill_cases:
  assumes "LearnSkill gt rnd r c (idle s) = Ret (ok, m')"
  obtains "\<not> ok" "m' = idle s" "map_of (skill_cache s) r = None \<or> skill_of s r c \<noteq> None"
  | i s' ks where "ok" "m' = idle s'" "map_of (skill_cache s) r = Some ks" "find_skill c ks = None"
      "skill_cache s' = AList.update r (ks @ [new_skill i c (fst (GetSkillConfigInternal c s))]) (skill_cache s)"
      "skill_configs s' = skill_configs (snd (GetSkillConfigInternal c s))"
proof (cases "map_of (skill_cache s) r")
  case None
  with assms that(1) show thesis by (auto simp: LearnSkill_def)
next
  case (Some ks)
  show thesis
  proof (cases "find_skill c ks = None")
    case False
    with assms Some that(1) show thesis by (auto simp: LearnSkill_def skill_of_def)
  next
    case True
    obtain cfg s1 where g: "GetSkillConfigInternal c s = (cfg, s1)" by fastforce
    obtain i s2 where gen: "GenerateSkillId gt rnd s1 = (i, s2)" by fastforce
    have "skill_cache s1 = skill_cache s" using skill_config_cache [of c s] g by simp
    with assms Some True g gen GenerateSkillId_state [OF gen] show thesis
      by (intro that(2) [of "s2\<lparr>skill_cache := AList.update r (ks @ [new_skill i c cfg]) (skill_cache s2)\<rparr>" ks i])
        (auto simp: LearnSkill_def)
  qed
qed

lemma LearnSkill_steps: "steps_by (skill_step (Some (r, c))) (LearnSkill gt rnd r c)"
  unfolding steps_by_def
proof (intro allI impI)
  fix s ok m'
  assume "LearnSkill gt rnd r c (idle s) = Ret (ok, m')"
  then show "\<exists>s'. m' = idle s' \<and> skill_step (Some (r, c)) s s'"
  proof (cases rule: LearnSkill_cases)
    case 1
    then show ?thesis by auto
  next
    case (2 i s' ks)
    have "skill_inv s'" if inv: "skill_inv s"
    proof -
      have "skills_ok r ks" using inv 2(3) by (auto simp: skill_inv_def dest: all_entriesD)
      then have "skills_ok r (ks @ [new_skill i c (fst (GetSkillConfigInternal c s))])"
        using 2(4) by (simp add: skill_config_default [OF inv] skills_ok_add)
      moreover have "skill_inv (snd (GetSkillConfigInternal c s))"
        using skill_config_step [of None s c] inv by (simp add: skill_step_def)
      ultimately show ?thesis
        using 2(5,6) by (auto simp: skill_inv_def intro!: all_entries_update)
    qed
    moreover have "use_view s' rc = use_view s rc" if "rc \<noteq> (r, c)" for rc
      using that 2(3,5) by (cases rc) (auto simp: use_view_def skill_of_def new_skill_def split: option.split)
    ultimately have "skill_step (Some (r, c)) s s'" by (auto simp: skill_step_def)
    with 2(2) show ?thesis by blast
  qed
qed

lemma UpgradeSkill_cases:
  assumes "UpgradeSkill r c (idle s) = Ret (ok, m')"
  obtains "\<not> ok" "m' = idle s"
      "map_of (skill_cache s) r = None \<or> skill_of s r c = None \<or> (\<exists>k. skill_of s r c = Some k \<and> 10 \<le> level k)"
  | k where "ok" "skill_of s r c = Some k" "map_of (skill_cache s) r \<noteq> None" "level k < 10"
      "m' = idle (set_skill r c (\<lambda>x. x\<lparr>level := level k + 1\<rparr>) s)"
  using assms by (auto simp: UpgradeSkill_def skill_of_def split: option.splits if_splits)

lemma UpgradeSkill_steps: "steps_by (skill_step a) (UpgradeSkill r c)"
  unfolding steps_by_def
proof (intro allI impI)
  fix s ok m'
  assume "UpgradeSkill r c (idle s) = Ret (ok, m')"
  then show "\<exists>s'. m' = idle s' \<and> skill_step a s s'"
  proof (cases rule: UpgradeSkill_cases)
    case 1
    then show ?thesis by auto
  next
    case (2 k)
    let ?f = "\<lambda>x. x\<lparr>level := level k + 1\<rparr>"
    have "skill_inv (set_skill r c ?f s)" if "skill_inv s"
      using that 2(2,4) by (intro set_skill_inv) (auto simp: skill_of_def skill_ok_def)
    moreover have "use_view (set_skill r c ?f s) rc = use_view s rc" for rc
      by (cases "skill_of s r c") (auto simp: use_view_def skill_of_set)
    ultimately show ?thesis using 2(5) by (auto simp: skill_step_def)
  qed
qed

lemma ForgetSkill_steps: "steps_by (skill_step (Some (r, c))) (ForgetSkill r c)"
  unfolding ForgetSkill_def
  by (auto intro!: steps_by_guarded skill_step_put
      simp: skills_ok_def distinct_map_filter find_skill_filter split: option.splits if_splits)

section \<open>Using a skill\<close>

definition can_use :: "time_t \<Rightarrow> SkillModule \<Rightarrow> u64 \<Rightarrow> i32 \<Rightarrow> bool" where
  "can_use now s r c \<longleftrightarrow> (\<exists>k. skill_of s r c = Some k \<and> is_unlocked k \<and>
     (0 < last_use_time k \<longrightarrow> cooldown_time k \<le> now - last_use_time k))"

lemma CanUseSkill_idle: "CanUseSkill now r c (idle s) = Ret (can_use now s r c, idle s)"
  by (cases "map_of (skill_cache s) r")
    (auto simp: CanUseSkill_def can_use_def skill_of_def split: option.split)

lemma GetSkillConfig_idle:
  "GetSkillConfig c (idle s) = Ret (fst (GetSkillConfigInternal c s), idle (snd (GetSkillConfigInternal c s)))"
  by (cases "GetSkillConfigInternal c s") (simp add: GetSkillConfig_def)

lemma GetSkillConfig_again: "map_of (skill_configs s) c = Some cfg \<Longrightarrow> GetSkillConfig c (idle s) = Ret (cfg, idle s)"
  by (simp add: GetSkillConfig_def GetSkillConfigInternal_def)

definition hits_of :: "SkillConfig \<Rightarrow> u64 \<Rightarrow> hit list" where
  "hits_of cfg t = (if 0 < damage cfg then [Damage t (damage cfg)] else []) @
     (if 0 < heal cfg then [Heal t (heal cfg)] else []) @
     (if effects cfg \<noteq> [] then [Effects t (List.map_filter effect_buff (effects cfg))] else [])"

lemma hit_target_idle:
  "map_of (skill_configs s) c = Some cfg \<Longrightarrow> hit_target r c cfg t (idle s) = Ret (hits_of cfg t, idle s)"
  by (simp add: hit_target_def hits_of_def CalculateSkillDamage_def CalculateSkillHeal_def
      ApplySkillEffects_def bindM_def retM_def GetSkillConfig_again)

lemma hit_all_idle:
  "map_of (skill_configs s) c = Some cfg \<Longrightarrow>
   hit_all r c cfg ts (idle s) = Ret (concat (map (hits_of cfg) ts), idle s)"
  by (induction ts) (simp_all add: bindM_def retM_def hit_target_idle)

definition use_targets :: "SkillConfig \<Rightarrow> u64 \<Rightarrow> u64 \<Rightarrow> u64 list" where
  "use_targets cfg r target =
     (if target_type cfg = SINGLE then if 0 < target then [target] else []
      else case target_type cfg of SELF \<Rightarrow> [r] | _ \<Rightarrow> [])"

text \<open>The whole call as one function of the state.\<close>

lemma UseSkill_idle:
  "UseSkill t1 t2 r c target tx tz (idle s) =
    (let cfg = fst (GetSkillConfigInternal c s); g = snd (GetSkillConfigInternal c s) in
     if can_use t1 s r c
     then Ret (Some (concat (map (hits_of cfg) (use_targets cfg r target))),
               idle (set_skill r c (\<lambda>k. k\<lparr>last_use_time := t2, cooldown_time := cooldown cfg\<rparr>) g))
     else Ret (None, idle s))"
proof (cases "can_use t1 s r c")
  case False
  then show ?thesis by (simp add: UseSkill_def bindM_def retM_def CanUseSkill_idle)
next
  case True
  let ?cfg = "fst (GetSkillConfigInternal c s)" and ?g = "snd (GetSkillConfigInternal c s)"
  have cfg: "map_of (skill_configs ?g) c = Some ?cfg" by simp
  have "map_of (skill_cache s) r \<noteq> None"
    using True by (auto simp: can_use_def skill_of_def entry_def split: option.splits)
  then have "start_cooldown t2 r c ?cfg (idle ?g) =
      Ret ((), idle (set_skill r c (\<lambda>k. k\<lparr>last_use_time := t2, cooldown_time := cooldown ?cfg\<rparr>) ?g))"
    by (auto simp: start_cooldown_def)
  with True show ?thesis
    by (simp add: UseSkill_def bindM_def retM_def CanUseSkill_idle GetSkillConfig_idle
        GetSkillTargets_def hit_all_idle [OF cfg] GetSkillConfig_again [OF cfg] Let_def
        IsTargetInRange_def use_targets_def)
qed

lemma UseSkill_steps: "steps_by (skill_step (Some (r, c))) (UseSkill t1 t2 r c target tx tz)"
  unfolding steps_by_def
proof (intro allI impI)
  fix s rep m'
  assume run: "UseSkill t1 t2 r c target tx tz (idle s) = Ret (rep, m')"
  let ?cfg = "fst (GetSkillConfigInternal c s)" and ?g = "snd (GetSkillConfigInternal c s)"
  let ?f = "\<lambda>k. k\<lparr>last_use_time := t2, cooldown_time := cooldown ?cfg\<rparr>"
  have g: "skill_step (Some (r, c)) s ?g" by (rule skill_config_step)
  have "skill_step (Some (r, c)) s (set_skill r c ?f ?g)"
  proof -
    have "skill_inv (set_skill r c ?f ?g)" if "skill_inv s"
      using g that by (intro set_skill_inv)
        (auto simp: skill_step_def skill_ok_def skill_config_default default_skill_config_def)
    moreover have "use_view (set_skill r c ?f ?g) rc = use_view s rc" if "rc \<noteq> (r, c)" for rc
      using that g by (cases rc) (auto simp: skill_step_def use_view_def skill_of_set)
    ultimately show ?thesis by (auto simp: skill_step_def)
  qed
  with run show "\<exists>s'. m' = idle s' \<and> skill_step (Some (r, c)) s s'"
    by (auto simp: UseSkill_idle Let_def split: if_splits)
qed

section \<open>The skill module as a machine\<close>

datatype skill_cmd =
    CInitSkills u64
  | CGetSkills u64
  | CGetSkillInfo u64 i32
  | CLearnSkill time_t int u64 i32
  | CUpgradeSkill u64 i32
  | CForgetSkill u64 i32
  | CUseSkill time_t time_t u64 i32 u64 f32bits f32bits
  | CCanUseSkill time_t u64 i32
  | CIsSkillInCooldown time_t u64 i32
  | CGetSkillCooldown time_t u64 i32
  | CCalculateSkillDamage u64 i32 u64
  | CCalculateSkillHeal u64 i32 u64
  | CApplySkillEffects u64 i32 u64
  | CGetSkillTargets u64 i32 f32bits f32bits
  | CLoadSkillData u64
  | CSaveSkillData u64

fun skill_exec :: "skill_cmd \<Rightarrow> (SkillModule, bool) oper" where
  "skill_exec (CInitSkills r) = InitSkills r"
| "skill_exec (CGetSkills r) = succeeded (GetSkills r)"
| "skill_exec (CGetSkillInfo r c) = succeeded (GetSkillInfo r c)"
| "skill_exec (CLearnSkill gt rnd r c) = LearnSkill gt rnd r c"
| "skill_exec (CUpgradeSkill r c) = UpgradeSkill r c"
| "skill_exec (CForgetSkill r c) = ForgetSkill r c"
| "skill_exec (CUseSkill t1 t2 r c t x z) = succeeded (UseSkill t1 t2 r c t x z)"
| "skill_exec (CCanUseSkill now r c) = CanUseSkill now r c"
| "skill_exec (CIsSkillInCooldown now r c) = IsSkillInCooldown now r c"
| "skill_exec (CGetSkillCooldown now r c) = bindM (GetSkillCooldown now r c) (\<lambda>_. retM True)"
| "skill_exec (CCalculateSkillDamage r c t) = bindM (CalculateSkillDamage r c t) (\<lambda>_. retM True)"
| "skill_exec (CCalculateSkillHeal r c t) = bindM (CalculateSkillHeal r c t) (\<lambda>_. retM True)"
| "skill_exec (CApplySkillEffects r c t) = bindM (ApplySkillEffects r c t) (\<lambda>_. retM True)"
| "skill_exec (CGetSkillTargets r c x z) = bindM (GetSkillTargets r c x z) (\<lambda>_. retM True)"
| "skill_exec (CLoadSkillData r) = LoadSkillData r"
| "skill_exec (CSaveSkillData r) = SaveSkillData r"

text \<open>The skill whose cooldown a command may change.\<close>

fun skill_target :: "skill_cmd \<Rightarrow> (u64 \<times> i32) option" where
  "skill_target (CLearnSkill gt rnd r c) = Some (r, c)"
| "skill_target (CForgetSkill r c) = Some (r, c)"
| "skill_target (CUseSkill t1 t2 r c t x z) = Some (r, c)"
| "skill_target _ = None"

lemma skill_exec_steps: "steps_by (skill_step (skill_target c)) (skill_exec c)"
  by (cases c)
    (auto simp: CalculateSkillDamage_def CalculateSkillHeal_def ApplySkillEffects_def
      GetSkillTargets_def LoadSkillData_def
      intro!: stepping skill_query_steps GetSkillConfig_steps InitSkills_steps LearnSkill_steps
        UpgradeSkill_steps ForgetSkill_steps UseSkill_steps)

lemma skill_ops_live:
  "never_relocks (InitSkills r)" "never_relocks (GetSkills r)" "never_relocks (GetSkillInfo r c)"
  "never_relocks (LearnSkill gt rnd r c)" "never_relocks (UpgradeSkill r c)"
  "never_relocks (ForgetSkill r c)" "never_relocks (CanUseSkill now r c)"
  "never_relocks (IsSkillInCooldown now r c)" "never_relocks (GetSkillCooldown now r c)"
  "never_relocks (GetSkillConfig c)" "never_relocks (SaveSkillData r)"
  by (auto simp: never_relocks_guarded Let_def InitSkills_def GetSkills_def GetSkillInfo_def
      LearnSkill_def UpgradeSkill_def ForgetSkill_def CanUseSkill_def IsSkillInCooldown_def
      GetSkillCooldown_def GetSkillConfig_def SaveSkillData_def bindO_eq_Fault
      split: option.splits prod.splits if_splits)

lemma UseSkill_live: "never_relocks (UseSkill t1 t2 r c target tx tz)"
  by (auto simp: never_relocks_def UseSkill_idle Let_def)

lemma skill_exec_live: "never_relocks (skill_exec c)"
  by (cases c)
    (auto simp: skill_ops_live UseSkill_live CalculateSkillDamage_def CalculateSkillHeal_def
      ApplySkillEffects_def GetSkillTargets_def LoadSkillData_def intro!: stepping)

interpretation skill: live_machine skill_exec skill_inv
proof unfold_locales
  show "\<exists>s'. m' = idle s'" if "skill_exec c (idle s) = Ret (r, m')" for c s r m'
    using steps_by_run [OF that skill_exec_steps] by blast
  show "skill_inv s'" if "skill_exec c (idle s) = Ret (r, idle s')" "skill_inv s" for c s r s'
    using steps_by_run [OF that(1) skill_exec_steps] that(2) by (auto simp: skill_step_def)
  show "skill_exec c (idle s) \<noteq> Fault Relock" for s c
    using skill_exec_live by (auto simp: never_relocks_def)
qed

interpretation skill_uses: isolated_machine skill_exec skill_inv "\<lambda>c rc. skill_target c = Some rc" use_view
proof unfold_locales
  show "use_view s' rc = use_view s rc"
    if "skill_exec c (idle s) = Ret (r, idle s')" "skill_target c \<noteq> Some rc" for c s r s' rc
    using steps_by_run [OF that(1) skill_exec_steps] that(2) by (cases rc) (auto simp: skill_step_def)
qed

interpretation skill_ids: id_source GenerateSkillId next_skill_id
  by unfold_locales (auto simp: GenerateSkillId_def next_static_id_def Let_def)

section \<open>Properties\<close>

lemma LearnSkill_returns: "\<exists>ok m'. LearnSkill gt rnd r c (idle s) = Ret (ok, m')"
  by (auto simp: LearnSkill_def Let_def split: option.splits prod.splits)

lemma UpgradeSkill_returns:
  "(\<And>k. level k < 10 \<Longrightarrow> skill_of s r c = Some k \<Longrightarrow> in_i32 (level k + 1)) \<Longrightarrow>
   \<exists>ok m'. UpgradeSkill r c (idle s) = Ret (ok, m')"
  by (cases "map_of (skill_cache s) r"; cases "skill_of s r c")
    (auto simp: UpgradeSkill_def skill_of_def)

lemma skill_of_ok: "skill_inv s \<Longrightarrow> skill_of s r c = Some k \<Longrightarrow> skill_ok k"
  using entry_skills_ok [of s r] find_skill_Some by (fastforce simp: skill_of_def skills_ok_def)

lemma hits_default:
  "concat (map (hits_of (default_skill_config c)) (use_targets (default_skill_config c) r target)) =
    (if 0 < target then [Damage target 100] else [])"
  by (simp add: use_targets_def hits_of_def default_skill_config_def)

text \<open>
  The cooldown. In a consistent module a successful use at clock reading \<open>t2 > 0\<close> makes the
  skill unusable exactly for the five seconds of its cooldown: at every later reading \<^verbatim>\<open>CanUseSkill\<close>
  allows it, and \<^verbatim>\<open>IsSkillInCooldown\<close> denies being in cooldown, exactly when five seconds have
  passed, and \<^verbatim>\<open>GetSkillCooldown\<close> returns the seconds that are left (for readings at most \<open>2^31\<close>
  seconds apart, which the conversion to 32 bits needs). The use hits exactly the given target.
\<close>

theorem UseSkill_starts_cooldown:
  assumes inv: "skill_inv s" and can: "can_use t1 s r c" and t2: "0 < t2"
    and now: "t2 \<le> now" "now - t2 < 2 ^ 31"
  shows "\<exists>s'. UseSkill t1 t2 r c target tx tz (idle s) =
      Ret (Some (if 0 < target then [Damage target 100] else []), idle s') \<and>
    CanUseSkill now r c (idle s') = Ret (t2 + 5 \<le> now, idle s') \<and>
    IsSkillInCooldown now r c (idle s') = Ret (now < t2 + 5, idle s') \<and>
    GetSkillCooldown now r c (idle s') = Ret (max 0 (t2 + 5 - now), idle s')"
proof -
  let ?cfg = "fst (GetSkillConfigInternal c s)" and ?g = "snd (GetSkillConfigInternal c s)"
  let ?f = "\<lambda>k. k\<lparr>last_use_time := t2, cooldown_time := cooldown ?cfg\<rparr>"
  let ?s' = "set_skill r c ?f ?g"
  have cfg: "?cfg = default_skill_config c" using inv by (rule skill_config_default)
  from can obtain k where k: "skill_of s r c = Some k" "is_unlocked k" by (auto simp: can_use_def)
  have g: "skill_of ?g r c = Some k" using k(1) by (simp add: skill_of_def)
  then have k': "skill_of ?s' r c = Some (k\<lparr>last_use_time := t2, cooldown_time := 5\<rparr>)"
    by (simp add: skill_of_set) (simp add: cfg default_skill_config_def)
  then obtain ks where ks: "map_of (skill_cache ?s') r = Some ks"
    "find_skill c ks = Some (k\<lparr>last_use_time := t2, cooldown_time := 5\<rparr>)"
    by (cases "map_of (skill_cache ?s') r") (auto simp: skill_of_def)
  have e: "in_i32 (now - t2)" "in_i32 (5 - (now - t2))" using now by (simp_all add: in_i32_def)
  have "UseSkill t1 t2 r c target tx tz (idle s) =
      Ret (Some (if 0 < target then [Damage target 100] else []), idle ?s')"
    using can by (simp add: UseSkill_idle Let_def cfg hits_default)
  moreover have "CanUseSkill now r c (idle ?s') = Ret (t2 + 5 \<le> now, idle ?s')"
    using k(2) t2 by (auto simp: CanUseSkill_idle can_use_def k')
  moreover have "IsSkillInCooldown now r c (idle ?s') = Ret (now < t2 + 5, idle ?s')"
    using t2 ks by (auto simp: IsSkillInCooldown_def)
  moreover have "GetSkillCooldown now r c (idle ?s') = Ret (max 0 (t2 + 5 - now), idle ?s')"
    using t2 ks e by (auto simp: GetSkillCooldown_def Let_def algebra_simps)
  ultimately show ?thesis by blast
qed

theorem UseSkill_starts_cooldown_witness:
  "\<exists>s'. UseSkill 90 100 7 2 9 0 0 (idle (skill_init\<lparr>skill_cache := [(7, [new_skill 1 2 (default_skill_config 2)])]\<rparr>)) =
      Ret (Some [Damage 9 100], idle s') \<and> CanUseSkill 104 7 2 (idle s') = Ret (False, idle s') \<and>
      GetSkillCooldown 104 7 2 (idle s') = Ret (1, idle s')"
proof -
  let ?s = "skill_init\<lparr>skill_cache := [(7, [new_skill 1 2 (default_skill_config 2)])]\<rparr>"
  have "skill_inv ?s"
    by (simp add: skill_inv_def skill_init_def keys_ok_def all_entries_def skills_ok_def skill_ok_def
        new_skill_def default_skill_config_def)
  moreover have "can_use 90 ?s 7 2" by (simp add: can_use_def skill_of_def new_skill_def)
  ultimately have "\<exists>s'. UseSkill 90 100 7 2 9 0 0 (idle ?s) = Ret (Some [Damage 9 100], idle s') \<and>
      CanUseSkill 104 7 2 (idle s') = Ret (False, idle s') \<and>
      IsSkillInCooldown 104 7 2 (idle s') = Ret (True, idle s') \<and>
      GetSkillCooldown 104 7 2 (idle s') = Ret (1, idle s')"
    using UseSkill_starts_cooldown [of ?s 90 7 2 100 104 9 0 0] by simp
  then show ?thesis by blast
qed

text \<open>
  C19. The rate of use. Whatever other calls run in between (as long as none of them learns, forgets
  or uses this skill of this role), two successful uses of a skill are at least the cooldown of five
  seconds apart: the clock reading that lets the second one through is not earlier than the reading
  that started the cooldown of the first, plus five.
\<close>

theorem uses_spaced:
  assumes inv: "skill_inv s" and t: "0 < t2"
    and first: "UseSkill t1 t2 r c target tx tz (idle s) = Ret (Some h, idle s1)"
    and between: "run_cmds skill_exec cs (idle s1) = Ret (rs, idle s2)" "\<forall>d\<in>set cs. skill_target d \<noteq> Some (r, c)"
    and again: "UseSkill t3 t4 r c target' tx' tz' (idle s2) = Ret (Some h', m')"
  shows "t2 + 5 \<le> t3"
proof -
  have cfg: "fst (GetSkillConfigInternal c s) = default_skill_config c"
    using inv by (rule skill_config_default)
  from first have can: "can_use t1 s r c"
    and s1: "s1 = set_skill r c (\<lambda>k. k\<lparr>last_use_time := t2, cooldown_time := 5\<rparr>)
      (snd (GetSkillConfigInternal c s))"
    by (auto simp: UseSkill_idle Let_def cfg default_skill_config_def split: if_splits)
  from can obtain k where "skill_of (snd (GetSkillConfigInternal c s)) r c = Some k"
    by (auto simp: can_use_def skill_of_def)
  then have "use_view s1 (r, c) = Some (t2, 5)" by (simp add: s1 use_view_def skill_of_set)
  moreover have "use_view s2 (r, c) = use_view s1 (r, c)"
    using between by (rule skill_uses.run_frame)
  moreover from again have "can_use t3 s2 r c" by (simp add: UseSkill_idle Let_def split: if_splits)
  ultimately show ?thesis using t by (auto simp: can_use_def use_view_def)
qed

theorem uses_spaced_witness:
  "\<exists>s s1 s2 h rs h' m'. UseSkill 90 100 7 2 9 0 0 (idle s) = Ret (Some h, idle s1) \<and>
     run_cmds skill_exec [CUpgradeSkill 7 2, CInitSkills 8] (idle s1) = Ret (rs, idle s2) \<and>
     UseSkill 105 106 7 2 9 0 0 (idle s2) = Ret (Some h', m') \<and> (100 :: time_t) + 5 \<le> 105"
proof -
  let ?s = "skill_init\<lparr>skill_cache := [(7, [new_skill 1 2 (default_skill_config 2)])]\<rparr>"
  let ?cs = "[CUpgradeSkill 7 2, CInitSkills 8]"
  have inv: "skill_inv ?s"
    by (simp add: skill_inv_def skill_init_def keys_ok_def all_entries_def skills_ok_def skill_ok_def
        new_skill_def default_skill_config_def)
  have "\<exists>h m1 rs m2 h' m3. UseSkill 90 100 7 2 9 0 0 (idle ?s) = Ret (Some h, m1) \<and>
      run_cmds skill_exec ?cs m1 = Ret (rs, m2) \<and> UseSkill 105 106 7 2 9 0 0 m2 = Ret (Some h', m3)"
    by (intro exI conjI, code_simp, code_simp, code_simp)
  then obtain h m1 rs m2 h' m3 where u: "UseSkill 90 100 7 2 9 0 0 (idle ?s) = Ret (Some h, m1)"
    and rs: "run_cmds skill_exec ?cs m1 = Ret (rs, m2)"
    and u': "UseSkill 105 106 7 2 9 0 0 m2 = Ret (Some h', m3)" by blast
  from steps_by_run [OF u UseSkill_steps] inv obtain s1 where m1: "m1 = idle s1" "skill_inv s1"
    by (auto simp: skill_step_def)
  with rs skill.run_inv obtain s2 where m2: "m2 = idle s2" by blast
  have "(100 :: time_t) + 5 \<le> 105"
    by (rule uses_spaced [OF inv _ u [unfolded m1] rs [unfolded m1 m2] _ u' [unfolded m2]]) simp_all
  with u rs u' m1 m2 show ?thesis by blast
qed

text \<open>
  In every run from the empty module nothing blocks on the mutex, and whenever the run returns,
  every role knows a skill at most once, every skill is unlocked, has a level from 1 to 10 and the
  cooldown of its configuration.
\<close>

theorem skills_stay_consistent:
  "run_cmds skill_exec cs (idle skill_init) \<noteq> Fault Relock \<and>
   (\<forall>rs m'. run_cmds skill_exec cs (idle skill_init) = Ret (rs, m') \<longrightarrow> (\<exists>s'. m' = idle s' \<and> skill_inv s'))"
  using skill.run_live [OF skill_inv_init] skill.run_inv [OF _ skill_inv_init] by blast

theorem skills_stay_consistent_witness:
  "\<exists>rs s'. run_cmds skill_exec [CInitSkills 7, CLearnSkill 5 3 7 2, CUpgradeSkill 7 2, CUseSkill 9 9 7 2 8 0 0, CForgetSkill 7 3]
     (idle skill_init) = Ret (rs, idle s') \<and> skill_inv s'"
proof -
  let ?cs = "[CInitSkills 7, CLearnSkill 5 3 7 2, CUpgradeSkill 7 2, CUseSkill 9 9 7 2 8 0 0, CForgetSkill 7 3]"
  have "\<exists>x. run_cmds skill_exec ?cs (idle skill_init) = Ret x"
    by (rule exI, code_simp)
  then show ?thesis using skills_stay_consistent [of ?cs] by (metis surj_pair)
qed

text \<open>
  Learning and upgrading. A skill is learned exactly when the role's list exists and does not
  have it, and then starts at level 1; it is upgraded exactly when it is known below level 10, and
  then its level rises by one and nothing else of it changes. A refused call changes nothing.
\<close>

theorem learning_and_upgrading:
  assumes inv: "skill_inv s"
  shows "(\<exists>ok s'. LearnSkill gt rnd r c (idle s) = Ret (ok, idle s') \<and>
      (ok \<longleftrightarrow> map_of (skill_cache s) r \<noteq> None \<and> skill_of s r c = None) \<and> (\<not> ok \<longrightarrow> s' = s) \<and>
      (ok \<longrightarrow> (\<exists>i. skill_of s' r c = Some (new_skill i c (default_skill_config c))))) \<and>
    (\<exists>ok s'. UpgradeSkill r c (idle s) = Ret (ok, idle s') \<and>
      (ok \<longleftrightarrow> (\<exists>k. skill_of s r c = Some k \<and> level k < 10)) \<and> (\<not> ok \<longrightarrow> s' = s) \<and>
      (ok \<longrightarrow> skill_of s' r c = map_option (\<lambda>k. k\<lparr>level := level k + 1\<rparr>) (skill_of s r c)))"
    (is "?learn \<and> ?upgrade")
proof
  obtain ok m' where run: "LearnSkill gt rnd r c (idle s) = Ret (ok, m')"
    using LearnSkill_returns by blast
  then show ?learn
  proof (cases rule: LearnSkill_cases)
    case 1
    with run show ?thesis by auto
  next
    case (2 i s' ks)
    have "skill_of s' r c = Some (new_skill i c (default_skill_config c))"
      using 2(4,5) by (simp add: skill_of_def skill_config_default [OF inv] new_skill_def)
    moreover have "skill_of s r c = None" using 2(3,4) by (simp add: skill_of_def)
    moreover have "map_of (skill_cache s) r \<noteq> None" using 2(3) by simp
    ultimately show ?thesis using run 2(1,2) by blast
  qed
next
  have "level k < 10 \<Longrightarrow> skill_of s r c = Some k \<Longrightarrow> in_i32 (level k + 1)" for k
    using skill_of_ok [OF inv] by (fastforce simp: in_i32_def skill_ok_def)
  then obtain ok m' where run: "UpgradeSkill r c (idle s) = Ret (ok, m')"
    using UpgradeSkill_returns by blast
  then show ?upgrade
  proof (cases rule: UpgradeSkill_cases)
    case 1
    then have "\<not> (\<exists>k. skill_of s r c = Some k \<and> level k < 10)" by (auto simp: skill_of_def)
    with run 1(1,2) show ?thesis by blast
  next
    case (2 k)
    let ?s' = "set_skill r c (\<lambda>x. x\<lparr>level := level k + 1\<rparr>) s"
    have "skill_of ?s' r c = map_option (\<lambda>k. k\<lparr>level := level k + 1\<rparr>) (skill_of s r c)"
      using 2(2) by (simp add: skill_of_set)
    with run 2(1,2,4,5) show ?thesis by blast
  qed
qed

theorem learning_and_upgrading_witness:
  "\<exists>s'. LearnSkill 5 3 7 2 (idle (skill_init\<lparr>skill_cache := [(7, [])]\<rparr>)) = Ret (True, idle s')"
proof -
  let ?s = "skill_init\<lparr>skill_cache := [(7, [])]\<rparr>"
  have "skill_inv ?s"
    by (simp add: skill_inv_def skill_init_def keys_ok_def all_entries_def skills_ok_def)
  from conjunct1 [OF learning_and_upgrading [OF this, of 5 3 7 2]] show ?thesis
    by (auto simp: skill_of_def)
qed

end
