(* ===== verification/Task.thy ===== *)
theory Task
  imports Machine
begin

text \<open>
  \<open>game_server/logic_server/task_module.cc\<close>: the tasks of the roles (accepted, completed,
  submitted), their progress and rewards, and the daily tasks.
\<close>

section \<open>Data\<close>

datatype TaskStatus = NOT_ACCEPTED | ACCEPTED | COMPLETED | SUBMITTED

datatype TaskType = MAIN | SUB | DAILY | WEEKLY | ACHIEVEMENT

datatype TaskConditionType = KILL_MONSTER | COLLECT_ITEM | TALK_TO_NPC | REACH_LEVEL
  | REACH_POSITION | COMPLETE_INSTANCE | EQUIP_ITEM | SKILL_LEVEL | KILL_PLAYER

primrec condition_code :: "TaskConditionType \<Rightarrow> i32" where
  "condition_code KILL_MONSTER = 1"
| "condition_code COLLECT_ITEM = 2"
| "condition_code TALK_TO_NPC = 3"
| "condition_code REACH_LEVEL = 4"
| "condition_code REACH_POSITION = 5"
| "condition_code COMPLETE_INSTANCE = 6"
| "condition_code EQUIP_ITEM = 7"
| "condition_code SKILL_LEVEL = 8"
| "condition_code KILL_PLAYER = 9"

record TaskCondition =
  condition_type :: i32
  cond_target_id :: i32
  target_count :: i32
  current_count :: i32

record TaskReward =
  reward_type :: i32
  reward_id :: i32
  reward_count :: i32

record TaskInfo =
  task_id :: u64
  task_config_id :: i32
  task_type :: TaskType
  status :: TaskStatus
  conditions :: "TaskCondition list"
  rewards :: "TaskReward list"
  accept_time :: time_t
  complete_time :: time_t
  submit_time :: time_t
  progress :: i32

record TaskConfig =
  cfg_id :: i32
  task_name :: string
  cfg_type :: TaskType
  level_requirement :: i32
  pre_task_id :: i32
  cfg_conditions :: "TaskCondition list"
  cfg_rewards :: "TaskReward list"
  description :: string

record DailyTaskInfo =
  daily_config_id :: i32
  daily_status :: TaskStatus
  daily_progress :: i32
  refresh_time :: time_t

record TaskModule =
  task_cache :: "(u64 \<times> TaskInfo list) list"
  daily_task_cache :: "(u64 \<times> DailyTaskInfo list) list"
  task_configs :: "(i32 \<times> TaskConfig) list"
  tracked_tasks :: "(u64 \<times> i32) list"
  next_task_id :: "u64 option"

definition task_init :: TaskModule where
  "task_init = \<lparr>task_cache = [], daily_task_cache = [], task_configs = [], tracked_tasks = [],
     next_task_id = None\<rparr>"

section \<open>Operations\<close>

definition LoadTaskConfigs :: "(TaskModule, bool) oper" where
  "LoadTaskConfigs = guarded (\<lambda>s. Ret (True, s))"

definition InitTasks :: "u64 \<Rightarrow> (TaskModule, bool) oper" where
  "InitTasks role = guarded (\<lambda>s.
     case map_of (task_cache s) role of
       Some _ \<Rightarrow> Ret (True, s)
     | None \<Rightarrow> Ret (True, s\<lparr>task_cache := AList.update role [] (task_cache s),
                           daily_task_cache := AList.update role [] (daily_task_cache s)\<rparr>))"

definition GetTasks :: "u64 \<Rightarrow> (TaskModule, TaskInfo list option) oper" where
  "GetTasks role = guarded (\<lambda>s. Ret (map_of (task_cache s) role, s))"

definition GetTaskInfo :: "u64 \<Rightarrow> i32 \<Rightarrow> (TaskModule, TaskInfo option) oper" where
  "GetTaskInfo role cid = guarded (\<lambda>s.
     Ret (case map_of (task_cache s) role of
            None \<Rightarrow> None
          | Some ts \<Rightarrow> List.find (\<lambda>t. task_config_id t = cid) ts, s))"

definition default_task_config :: "i32 \<Rightarrow> TaskConfig" where
  "default_task_config cid =
     \<lparr>cfg_id = cid, task_name = ''Task_'' @ to_dec cid, cfg_type = MAIN, level_requirement = 1,
      pre_task_id = 0,
      cfg_conditions = [\<lparr>condition_type = condition_code KILL_MONSTER, cond_target_id = 100,
                         target_count = 1, current_count = 0\<rparr>],
      cfg_rewards = [\<lparr>reward_type = 1, reward_id = 0, reward_count = 100\<rparr>],
      description = ''Task description''\<rparr>"

text \<open>The configuration of a task; unlike those of skills and buffs a default is not stored.\<close>

definition GetTaskConfigInternal :: "i32 \<Rightarrow> TaskModule \<Rightarrow> TaskConfig" where
  "GetTaskConfigInternal cid s =
     (case map_of (task_configs s) cid of None \<Rightarrow> default_task_config cid | Some c \<Rightarrow> c)"

definition GetTaskConfig :: "i32 \<Rightarrow> (TaskModule, TaskConfig) oper" where
  "GetTaskConfig cid = guarded (\<lambda>s. Ret (GetTaskConfigInternal cid s, s))"

definition GenerateTaskId :: "time_t \<Rightarrow> int \<Rightarrow> TaskModule \<Rightarrow> u64 \<times> TaskModule" where
  "GenerateTaskId now rnd s =
     (let (i, c) = next_static_id now rnd (next_task_id s) in (i, s\<lparr>next_task_id := c\<rparr>))"

definition IsTaskCompleted :: "u64 \<Rightarrow> i32 \<Rightarrow> (TaskModule, bool) oper" where
  "IsTaskCompleted role cid = guarded (\<lambda>s.
     Ret (case map_of (task_cache s) role of
            None \<Rightarrow> False
          | Some ts \<Rightarrow> list_ex (\<lambda>t. task_config_id t = cid \<and> status t = COMPLETED) ts, s))"

definition CheckPreTask :: "u64 \<Rightarrow> i32 \<Rightarrow> (TaskModule, bool) oper" where
  "CheckPreTask role pre = IsTaskCompleted role pre"

definition CheckLevelRequirement :: "u64 \<Rightarrow> i32 \<Rightarrow> bool" where
  "CheckLevelRequirement role lvl = True"

definition config_allows :: "u64 \<Rightarrow> TaskConfig \<Rightarrow> (TaskModule, bool) oper" where
  "config_allows role cfg =
     bindM (if 0 < pre_task_id cfg then CheckPreTask role (pre_task_id cfg) else retM True)
       (\<lambda>pre. if \<not> pre then retM False
              else retM (CheckLevelRequirement role (level_requirement cfg)))"

definition CanAcceptTask :: "u64 \<Rightarrow> i32 \<Rightarrow> (TaskModule, bool) oper" where
  "CanAcceptTask role cid = bindM (GetTaskConfig cid) (\<lambda>cfg. config_allows role cfg)"

text \<open>The version called with the mutex held: the check of a preceding task locks it again.\<close>

definition CanAcceptTaskInternal :: "u64 \<Rightarrow> i32 \<Rightarrow> (TaskModule, bool) oper" where
  "CanAcceptTaskInternal role cid m =
     config_allows role (GetTaskConfigInternal cid (inner m)) m"

definition new_task :: "u64 \<Rightarrow> i32 \<Rightarrow> TaskConfig \<Rightarrow> time_t \<Rightarrow> TaskInfo" where
  "new_task tid cid cfg now =
     \<lparr>task_id = tid, task_config_id = cid, task_type = cfg_type cfg, status = ACCEPTED,
      conditions = cfg_conditions cfg, rewards = cfg_rewards cfg, accept_time = now,
      complete_time = 0, submit_time = 0, progress = 0\<rparr>"

definition add_task :: "time_t \<Rightarrow> int \<Rightarrow> time_t \<Rightarrow> u64 \<Rightarrow> i32 \<Rightarrow> TaskModule \<Rightarrow> bool \<times> TaskModule" where
  "add_task gt rnd now role cid s0 =
     (let s = (case map_of (task_cache s0) role of
                 None \<Rightarrow> s0\<lparr>task_cache := AList.update role [] (task_cache s0)\<rparr> | Some _ \<Rightarrow> s0);
          ts = entry (task_cache s) role
      in if list_ex (\<lambda>t. task_config_id t = cid) ts then (False, s)
         else
           let cfg = GetTaskConfigInternal cid s;
               (tid, s1) = GenerateTaskId gt rnd s
           in (True, s1\<lparr>task_cache :=
                AList.update role (ts @ [new_task tid cid cfg now]) (task_cache s1)\<rparr>))"

definition AcceptTask :: "time_t \<Rightarrow> int \<Rightarrow> time_t \<Rightarrow> u64 \<Rightarrow> i32 \<Rightarrow> (TaskModule, bool) oper" where
  "AcceptTask gt rnd now role cid = with_lock
     (bindM (CanAcceptTaskInternal role cid) (\<lambda>can.
        if \<not> can then retM False
        else on_state (\<lambda>s. Ret (add_task gt rnd now role cid s))))"

definition cond_met :: "TaskCondition \<Rightarrow> bool" where
  "cond_met c \<longleftrightarrow> \<not> current_count c < target_count c"

definition completable :: "i32 \<Rightarrow> TaskInfo \<Rightarrow> bool" where
  "completable cid t \<longleftrightarrow>
     task_config_id t = cid \<and> status t = ACCEPTED \<and> list_all cond_met (conditions t)"

definition complete :: "time_t \<Rightarrow> TaskInfo \<Rightarrow> TaskInfo" where
  "complete now t = t\<lparr>status := COMPLETED, complete_time := now, progress := 100\<rparr>"

text \<open>\<^verbatim>\<open>CheckTaskCompleteInternal\<close> on the vector of the role.\<close>

definition check_tasks :: "time_t \<Rightarrow> i32 \<Rightarrow> TaskInfo list \<Rightarrow> bool \<times> TaskInfo list" where
  "check_tasks now cid ts =
     (list_ex (completable cid) ts, upd_first (completable cid) (complete now) ts)"

definition CheckTaskCompleteInternal :: "time_t \<Rightarrow> u64 \<Rightarrow> i32 \<Rightarrow> TaskModule \<Rightarrow> bool \<times> TaskModule" where
  "CheckTaskCompleteInternal now role cid s =
     (case map_of (task_cache s) role of
        None \<Rightarrow> (False, s)
      | Some ts \<Rightarrow>
          let (done, ts') = check_tasks now cid ts in
          (done, if done then s\<lparr>task_cache := AList.update role ts' (task_cache s)\<rparr> else s))"

definition CheckTaskComplete :: "time_t \<Rightarrow> u64 \<Rightarrow> i32 \<Rightarrow> (TaskModule, bool) oper" where
  "CheckTaskComplete now role cid = guarded (\<lambda>s. Ret (CheckTaskCompleteInternal now role cid s))"

text \<open>The rewards of a task, as the switch over their kinds logs them.\<close>

datatype payout = Gold i32 | Exp i32 | Item i32 i32

definition pay :: "TaskReward \<Rightarrow> payout list" where
  "pay r = (if reward_type r = 1 then [Gold (reward_count r)]
            else if reward_type r = 2 then [Exp (reward_count r)]
            else if reward_type r = 3 then [Item (reward_id r) (reward_count r)] else [])"

definition GiveTaskRewards :: "u64 \<Rightarrow> TaskInfo \<Rightarrow> payout list" where
  "GiveTaskRewards role t = concat (map pay (rewards t))"

definition submittable :: "i32 \<Rightarrow> TaskInfo \<Rightarrow> bool" where
  "submittable cid t \<longleftrightarrow> task_config_id t = cid \<and> status t = COMPLETED"

definition SubmitTask :: "time_t \<Rightarrow> u64 \<Rightarrow> i32 \<Rightarrow> (TaskModule, payout list option) oper" where
  "SubmitTask now role cid = guarded (\<lambda>s.
     case map_of (task_cache s) role of
       None \<Rightarrow> Ret (None, s)
     | Some ts \<Rightarrow>
         (case List.find (submittable cid) ts of
            None \<Rightarrow> Ret (None, s)
          | Some t \<Rightarrow> Ret (Some (GiveTaskRewards role t), s\<lparr>task_cache := AList.update role
              (upd_first (submittable cid) (\<lambda>t. t\<lparr>status := SUBMITTED, submit_time := now\<rparr>) ts)
              (task_cache s)\<rparr>)))"

definition abandonable :: "i32 \<Rightarrow> TaskInfo \<Rightarrow> bool" where
  "abandonable cid t \<longleftrightarrow> task_config_id t = cid \<and> (status t = ACCEPTED \<or> status t = COMPLETED)"

definition AbandonTask :: "u64 \<Rightarrow> i32 \<Rightarrow> (TaskModule, bool) oper" where
  "AbandonTask role cid = guarded (\<lambda>s.
     case map_of (task_cache s) role of
       None \<Rightarrow> Ret (False, s)
     | Some ts \<Rightarrow>
         if list_ex (abandonable cid) ts
         then Ret (True, s\<lparr>task_cache := AList.update role (del_first (abandonable cid) ts) (task_cache s)\<rparr>)
         else Ret (False, s))"

text \<open>
  \<^verbatim>\<open>UpdateTaskProgress\<close> writes the count of one condition of the first accepted task with the
  identifier for which the index is in range, then checks for completion.
\<close>

definition updatable :: "i32 \<Rightarrow> i32 \<Rightarrow> TaskInfo \<Rightarrow> bool" where
  "updatable cid i t \<longleftrightarrow> task_config_id t = cid \<and> status t = ACCEPTED \<and>
     0 \<le> i \<and> i < int (length (conditions t))"

definition set_count :: "nat \<Rightarrow> i32 \<Rightarrow> TaskInfo \<Rightarrow> TaskInfo" where
  "set_count j n t = t\<lparr>conditions := (conditions t)[j := (conditions t ! j)\<lparr>current_count := n\<rparr>]\<rparr>"

definition UpdateTaskProgress :: "time_t \<Rightarrow> u64 \<Rightarrow> i32 \<Rightarrow> i32 \<Rightarrow> i32 \<Rightarrow> (TaskModule, bool) oper" where
  "UpdateTaskProgress now role cid i n = guarded (\<lambda>s.
     case map_of (task_cache s) role of
       None \<Rightarrow> Ret (False, s)
     | Some ts \<Rightarrow>
         if list_ex (updatable cid i) ts
         then
           let ts1 = upd_first (updatable cid i) (set_count (nat i) n) ts;
               (_, ts2) = check_tasks now cid ts1
           in Ret (True, s\<lparr>task_cache := AList.update role ts2 (task_cache s)\<rparr>)
         else Ret (False, s))"

text \<open>
  \<^verbatim>\<open>AddTaskProgress\<close> walks over the tasks and their conditions by reference while the check for
  completion changes the same vector, so the loops run over indices and read the current vector.
  \<open>clock i j\<close> is the clock read by the check after condition \<open>j\<close> of task \<open>i\<close>.
\<close>

definition bump :: "i32 \<Rightarrow> nat \<Rightarrow> TaskInfo \<Rightarrow> TaskInfo outcome" where
  "bump n j t = bindO (add32 (current_count (conditions t ! j)) n) (\<lambda>c.
     Ret (set_count j (if target_count (conditions t ! j) < c then target_count (conditions t ! j) else c) t))"

fun add_conditions ::
  "(nat \<Rightarrow> nat \<Rightarrow> time_t) \<Rightarrow> i32 \<Rightarrow> i32 \<Rightarrow> i32 \<Rightarrow> nat \<Rightarrow> nat list \<Rightarrow> TaskInfo list \<times> bool \<Rightarrow>
   (TaskInfo list \<times> bool) outcome" where
  "add_conditions clock ct target n i [] acc = Ret acc"
| "add_conditions clock ct target n i (j # js) (ts, upd) =
     (let c = conditions (ts ! i) ! j in
      if condition_type c = ct \<and> cond_target_id c = target
      then bindO (bump n j (ts ! i)) (\<lambda>t.
        let (done, ts') = check_tasks (clock i j) (task_config_id t) (ts[i := t]) in
        add_conditions clock ct target n i js (ts', upd \<or> done))
      else add_conditions clock ct target n i js (ts, upd))"

fun add_tasks ::
  "(nat \<Rightarrow> nat \<Rightarrow> time_t) \<Rightarrow> i32 \<Rightarrow> i32 \<Rightarrow> i32 \<Rightarrow> nat list \<Rightarrow> TaskInfo list \<times> bool \<Rightarrow>
   (TaskInfo list \<times> bool) outcome" where
  "add_tasks clock ct target n [] acc = Ret acc"
| "add_tasks clock ct target n (i # is) (ts, upd) =
     bindO (if status (ts ! i) = ACCEPTED
            then add_conditions clock ct target n i [0..<length (conditions (ts ! i))] (ts, upd)
            else Ret (ts, upd))
       (add_tasks clock ct target n is)"

definition AddTaskProgress ::
  "(nat \<Rightarrow> nat \<Rightarrow> time_t) \<Rightarrow> u64 \<Rightarrow> TaskConditionType \<Rightarrow> i32 \<Rightarrow> i32 \<Rightarrow> (TaskModule, bool) oper" where
  "AddTaskProgress clock role ct target n = guarded (\<lambda>s.
     case map_of (task_cache s) role of
       None \<Rightarrow> Ret (False, s)
     | Some ts \<Rightarrow>
         bindO (add_tasks clock (condition_code ct) target n [0..<length ts] (ts, False)) (\<lambda>(ts', upd).
           Ret (upd, s\<lparr>task_cache := AList.update role ts' (task_cache s)\<rparr>)))"

definition daily_tasks :: "time_t \<Rightarrow> DailyTaskInfo list" where
  "daily_tasks now = map (\<lambda>i. \<lparr>daily_config_id = 1000 + i, daily_status = NOT_ACCEPTED,
     daily_progress = 0, refresh_time = now + 86400\<rparr>) [1..5]"

definition RefreshDailyTasks :: "time_t \<Rightarrow> u64 \<Rightarrow> (TaskModule, bool) oper" where
  "RefreshDailyTasks now role = guarded (\<lambda>s.
     Ret (True, s\<lparr>daily_task_cache := AList.update role (daily_tasks now) (daily_task_cache s)\<rparr>))"

definition GetDailyTasks :: "u64 \<Rightarrow> (TaskModule, DailyTaskInfo list option) oper" where
  "GetDailyTasks role = guarded (\<lambda>s. Ret (map_of (daily_task_cache s) role, s))"

definition daily_open :: "i32 \<Rightarrow> DailyTaskInfo \<Rightarrow> bool" where
  "daily_open cid d \<longleftrightarrow> daily_config_id d = cid \<and> daily_status d = NOT_ACCEPTED"

text \<open>\<^verbatim>\<open>AcceptDailyTask\<close> calls the public \<^verbatim>\<open>AcceptTask\<close> with the mutex held.\<close>

definition AcceptDailyTask :: "time_t \<Rightarrow> int \<Rightarrow> time_t \<Rightarrow> u64 \<Rightarrow> i32 \<Rightarrow> (TaskModule, bool) oper" where
  "AcceptDailyTask gt rnd now role cid = with_lock (\<lambda>m.
     case map_of (daily_task_cache (inner m)) role of
       None \<Rightarrow> retM False m
     | Some ds \<Rightarrow>
         if list_ex (daily_open cid) ds
         then bindM (on_state (\<lambda>s. Ret ((), s\<lparr>daily_task_cache := AList.update role
                  (upd_first (daily_open cid) (\<lambda>d. d\<lparr>daily_status := ACCEPTED\<rparr>) ds)
                  (daily_task_cache s)\<rparr>)))
               (\<lambda>_. bindM (AcceptTask gt rnd now role cid) (\<lambda>_. retM True)) m
         else retM False m)"

definition TrackTask :: "u64 \<Rightarrow> i32 \<Rightarrow> (TaskModule, bool) oper" where
  "TrackTask role cid = guarded (\<lambda>s.
     case map_of (task_cache s) role of
       None \<Rightarrow> Ret (False, s)
     | Some ts \<Rightarrow>
         if list_ex (\<lambda>t. task_config_id t = cid) ts
         then Ret (True, s\<lparr>tracked_tasks := AList.update role cid (tracked_tasks s)\<rparr>)
         else Ret (False, s))"

definition GetTrackedTask :: "u64 \<Rightarrow> (TaskModule, i32 option) oper" where
  "GetTrackedTask role = guarded (\<lambda>s. Ret (map_of (tracked_tasks s) role, s))"

definition OnKillMonster :: "(nat \<Rightarrow> nat \<Rightarrow> time_t) \<Rightarrow> u64 \<Rightarrow> i32 \<Rightarrow> (TaskModule, bool) oper" where
  "OnKillMonster clock role monster = AddTaskProgress clock role KILL_MONSTER monster 1"

definition OnCollectItem :: "(nat \<Rightarrow> nat \<Rightarrow> time_t) \<Rightarrow> u64 \<Rightarrow> i32 \<Rightarrow> i32 \<Rightarrow> (TaskModule, bool) oper" where
  "OnCollectItem clock role item n = AddTaskProgress clock role COLLECT_ITEM item n"

definition OnReachLevel :: "(nat \<Rightarrow> nat \<Rightarrow> time_t) \<Rightarrow> u64 \<Rightarrow> i32 \<Rightarrow> (TaskModule, bool) oper" where
  "OnReachLevel clock role lvl = AddTaskProgress clock role REACH_LEVEL lvl 1"

definition OnCompleteInstance :: "(nat \<Rightarrow> nat \<Rightarrow> time_t) \<Rightarrow> u64 \<Rightarrow> i32 \<Rightarrow> (TaskModule, bool) oper" where
  "OnCompleteInstance clock role inst = AddTaskProgress clock role COMPLETE_INSTANCE inst 1"

definition OnEquipItem :: "(nat \<Rightarrow> nat \<Rightarrow> time_t) \<Rightarrow> u64 \<Rightarrow> i32 \<Rightarrow> (TaskModule, bool) oper" where
  "OnEquipItem clock role item = AddTaskProgress clock role EQUIP_ITEM item 1"

definition OnSkillUpgrade :: "(nat \<Rightarrow> nat \<Rightarrow> time_t) \<Rightarrow> u64 \<Rightarrow> i32 \<Rightarrow> i32 \<Rightarrow> (TaskModule, bool) oper" where
  "OnSkillUpgrade clock role skill lvl = AddTaskProgress clock role SKILL_LEVEL skill lvl"

definition LoadTaskData :: "time_t \<Rightarrow> u64 \<Rightarrow> (TaskModule, bool) oper" where
  "LoadTaskData now role =
     bindM (InitTasks role) (\<lambda>_. bindM (RefreshDailyTasks now role) (\<lambda>_. retM True))"

definition SaveTaskData :: "u64 \<Rightarrow> (TaskModule, bool) oper" where
  "SaveTaskData role = guarded (\<lambda>s. Ret (map_of (task_cache s) role \<noteq> None, s))"

section \<open>The life of a task\<close>

text \<open>
  The moves of a task that pay nothing: it is accepted, completed or dropped. \<open>None\<close> is a task the
  role does not have. A submitted task does not move, and nothing but a submission leads there.
\<close>

inductive task_move :: "TaskStatus option \<Rightarrow> TaskStatus option \<Rightarrow> bool" where
  stay: "task_move x x"
| accept: "task_move None (Some ACCEPTED)"
| finish: "task_move (Some ACCEPTED) (Some COMPLETED)"
| drop_accepted: "task_move (Some ACCEPTED) None"
| drop_completed: "task_move (Some COMPLETED) None"

inductive_simps task_move_simps [simp]:
  "task_move None y" "task_move (Some SUBMITTED) y" "task_move (Some COMPLETED) y"
  "task_move (Some ACCEPTED) y" "task_move x x"

definition tmove :: "TaskInfo \<Rightarrow> TaskInfo \<Rightarrow> bool" where
  "tmove t t' \<longleftrightarrow> task_config_id t' = task_config_id t \<and>
     (status t' = status t \<or> status t = ACCEPTED \<and> status t' = COMPLETED)"

definition status_in :: "TaskInfo list \<Rightarrow> i32 \<Rightarrow> TaskStatus option" where
  "status_in ts c = map_option status (List.find (\<lambda>t. task_config_id t = c) ts)"

lemma status_in_simps [simp]:
  "status_in [] c = None"
  "status_in (t # ts) c = (if task_config_id t = c then Some (status t) else status_in ts c)"
  "status_in (ts @ us) c = (case status_in ts c of None \<Rightarrow> status_in us c | Some x \<Rightarrow> Some x)"
  by (induction ts) (auto simp: status_in_def)

lemma tmove_refl [simp]: "tmove t t"
  by (simp add: tmove_def)

lemma tmove_trans: "tmove t u \<Longrightarrow> tmove u v \<Longrightarrow> tmove t v"
  by (auto simp: tmove_def)

lemma all_tmove_refl [simp]: "list_all2 tmove ts ts"
  by (simp add: list_all2_refl)

lemma all_tmove_trans: "list_all2 tmove ts us \<Longrightarrow> list_all2 tmove us vs \<Longrightarrow> list_all2 tmove ts vs"
  by (rule list_all2_trans [OF tmove_trans])

lemma all_tmove_update: "tmove (ts ! i) t \<Longrightarrow> list_all2 tmove ts (ts[i := t])"
  by (cases "i < length ts") (auto simp: list_all2_conv_all_nth nth_list_update)

lemma tmove_status: "list_all2 tmove ts ts' \<Longrightarrow> task_move (status_in ts c) (status_in ts' c)"
  by (induction rule: list_all2_induct) (auto simp: tmove_def)

lemma status_in_nth:
  "distinct (map task_config_id ts) \<Longrightarrow> i < length ts \<Longrightarrow>
   status_in ts (task_config_id (ts ! i)) = Some (status (ts ! i))"
proof (induction ts arbitrary: i)
  case Nil
  then show ?case by simp
next
  case (Cons t ts)
  show ?case
  proof (cases i)
    case 0
    then show ?thesis by simp
  next
    case (Suc k)
    with Cons.prems have "task_config_id (ts ! k) \<in> task_config_id ` set ts" by simp
    with Cons.prems(1) have "task_config_id (ts ! k) \<noteq> task_config_id t" by auto
    with Suc Cons show ?thesis by simp
  qed
qed

lemma status_in_update_other:
  "i < length ts \<Longrightarrow> task_config_id t = task_config_id (ts ! i) \<Longrightarrow> c \<noteq> task_config_id t \<Longrightarrow>
   status_in (ts[i := t]) c = status_in ts c"
proof (induction ts arbitrary: i)
  case Nil
  then show ?case by simp
next
  case (Cons u ts)
  then show ?case by (cases i) auto
qed

lemma status_in_None: "status_in ts c = None \<longleftrightarrow> c \<notin> task_config_id ` set ts"
  by (induction ts) auto

section \<open>Invariant\<close>

definition kill_condition :: "i32 \<Rightarrow> TaskCondition" where
  "kill_condition n =
     \<lparr>condition_type = 1, cond_target_id = 100, target_count = 1, current_count = n\<rparr>"

definition task_ok :: "TaskInfo \<Rightarrow> bool" where
  "task_ok t \<longleftrightarrow> (\<exists>n. conditions t = [kill_condition n] \<and> (status t = ACCEPTED \<longleftrightarrow> n < 1)) \<and>
     rewards t = [\<lparr>reward_type = 1, reward_id = 0, reward_count = 100\<rparr>] \<and> status t \<noteq> NOT_ACCEPTED"

definition tasks_ok :: "TaskInfo list \<Rightarrow> bool" where
  "tasks_ok ts \<longleftrightarrow> (\<forall>t\<in>set ts. task_ok t) \<and> distinct (map task_config_id ts)"

definition task_inv :: "TaskModule \<Rightarrow> bool" where
  "task_inv s \<longleftrightarrow> keys_ok (task_cache s) \<and> keys_ok (daily_task_cache s) \<and>
     keys_ok (tracked_tasks s) \<and> task_configs s = [] \<and> all_vals tasks_ok (task_cache s)"

definition stat :: "TaskModule \<Rightarrow> u64 \<Rightarrow> i32 \<Rightarrow> TaskStatus option" where
  "stat s r c = status_in (entry (task_cache s) r) c"

text \<open>A step that leaves the status of every task alone, and one that may move it.\<close>

definition task_same :: "TaskModule \<Rightarrow> TaskModule \<Rightarrow> bool" where
  "task_same s s' \<longleftrightarrow> (task_inv s \<longrightarrow> task_inv s') \<and> (\<forall>r c. stat s' r c = stat s r c)"

definition task_step :: "TaskModule \<Rightarrow> TaskModule \<Rightarrow> bool" where
  "task_step s s' \<longleftrightarrow> (task_inv s \<longrightarrow> task_inv s' \<and> (\<forall>r c. task_move (stat s r c) (stat s' r c)))"

lemma task_inv_init: "task_inv task_init"
  by (simp add: task_inv_def task_init_def)

lemma task_same_refl [simp]: "task_same s s"
  by (simp add: task_same_def)

lemma task_same_trans: "task_same s s1 \<Longrightarrow> task_same s1 s2 \<Longrightarrow> task_same s s2"
  by (simp add: task_same_def)

lemma task_same_step: "task_same s s' \<Longrightarrow> task_step s s'"
  by (simp add: task_same_def task_step_def)

lemma tasks_ok_Nil [simp]: "tasks_ok []"
  by (simp add: tasks_ok_def)

lemma entry_tasks_ok: "task_inv s \<Longrightarrow> tasks_ok (entry (task_cache s) r)"
  by (cases "map_of (task_cache s) r") (auto simp: task_inv_def dest: all_valsD)

lemma stat_put:
  "stat (s\<lparr>task_cache := AList.update r ts (task_cache s)\<rparr>) r' c =
     (if r' = r then status_in ts c else stat s r' c)"
  by (simp add: stat_def)

lemma task_inv_put:
  "task_inv s \<Longrightarrow> tasks_ok ts \<Longrightarrow> task_inv (s\<lparr>task_cache := AList.update r ts (task_cache s)\<rparr>)"
  by (simp add: task_inv_def all_vals_update)

lemma task_step_put:
  assumes "map_of (task_cache s) r = Some ts" and "tasks_ok ts \<Longrightarrow> tasks_ok ts'"
    and "\<And>c. tasks_ok ts \<Longrightarrow> task_move (status_in ts c) (status_in ts' c)"
  shows "task_step s (s\<lparr>task_cache := AList.update r ts' (task_cache s)\<rparr>)"
proof -
  have "tasks_ok ts" if "task_inv s" using that assms(1) entry_tasks_ok [of s r] by simp
  with assms show ?thesis by (auto simp: task_step_def stat_put task_inv_put) (auto simp: stat_def)
qed

lemma tasks_ok_update:
  assumes "tasks_ok ts" and "task_ok t" and "task_config_id t = task_config_id (ts ! i)"
  shows "tasks_ok (ts[i := t])"
proof (cases "i < length ts")
  case True
  have "map task_config_id (ts[i := t]) = map task_config_id ts"
    using True assms(3) by (simp add: map_update list_update_same_conv)
  with assms show ?thesis using set_update_subset_insert [of ts i t] by (auto simp: tasks_ok_def)
next
  case False
  then have "ts[i := t] = ts" by (intro list_update_beyond) simp
  with assms(1) show ?thesis by simp
qed

lemma not_completable: "tasks_ok ts \<Longrightarrow> t \<in> set ts \<Longrightarrow> \<not> completable c t"
  by (auto simp: tasks_ok_def task_ok_def completable_def cond_met_def kill_condition_def)

lemma check_tasks_ok [simp]: "tasks_ok ts \<Longrightarrow> check_tasks now c ts = (False, ts)"
  using not_completable upd_first_id [of ts "completable c" "complete now"]
  by (auto simp: check_tasks_def list_ex_iff)

text \<open>One accepted task after its count was written and the check ran.\<close>

definition recounted :: "time_t \<Rightarrow> i32 \<Rightarrow> TaskInfo \<Rightarrow> TaskInfo" where
  "recounted now n t = (let t' = set_count 0 n t in if n < 1 then t' else complete now t')"

lemma recounted_ok:
  assumes "task_ok t" and "status t = ACCEPTED"
  shows "task_ok (recounted now n t)" and "tmove t (recounted now n t)"
    and "task_config_id (recounted now n t) = task_config_id t"
    and "status (recounted now n t) = (if n < 1 then ACCEPTED else COMPLETED)"
  using assms
  by (auto simp: recounted_def task_ok_def set_count_def complete_def kill_condition_def tmove_def Let_def)

lemma check_recounted:
  assumes ok: "tasks_ok ts" and i: "i < length ts" and acc: "status (ts ! i) = ACCEPTED"
  shows "check_tasks now (task_config_id (ts ! i)) (ts[i := set_count 0 n (ts ! i)]) =
    (\<not> n < 1, ts[i := recounted now n (ts ! i)])"
proof -
  let ?t = "set_count 0 n (ts ! i)" and ?c = "task_config_id (ts ! i)"
  have t: "task_ok (ts ! i)" using ok i by (simp add: tasks_ok_def)
  have "completable ?c (ts[i := ?t] ! k) \<longleftrightarrow> k = i \<and> \<not> n < 1" if k: "k < length (ts[i := ?t])" for k
  proof (cases "k = i")
    case True
    with i acc t show ?thesis
      by (auto simp: completable_def set_count_def task_ok_def kill_condition_def cond_met_def)
  next
    case False
    with k not_completable [OF ok, of "ts ! k" ?c] show ?thesis by simp
  qed
  note only = upd_first_only [of i "ts[i := ?t]" "completable ?c" "\<not> n < 1", OF _ this]
  have "list_ex (completable ?c) (ts[i := ?t]) \<longleftrightarrow> \<not> n < 1"
    by (rule only(1)) (use i in auto)
  moreover have "upd_first (completable ?c) (complete now) (ts[i := ?t]) =
      (if \<not> n < 1 then (ts[i := ?t])[i := complete now (ts[i := ?t] ! i)] else ts[i := ?t])"
    by (rule only(2)) (use i in auto)
  ultimately show ?thesis using i by (auto simp: check_tasks_def recounted_def Let_def)
qed

lemma tasks_ok_recounted:
  "tasks_ok ts \<Longrightarrow> i < length ts \<Longrightarrow> status (ts ! i) = ACCEPTED \<Longrightarrow>
   tasks_ok (ts[i := recounted now n (ts ! i)]) \<and> list_all2 tmove ts (ts[i := recounted now n (ts ! i)])"
  using recounted_ok [of "ts ! i"]
  by (intro conjI all_tmove_update tasks_ok_update) (simp_all add: tasks_ok_def)

section \<open>Progress\<close>

text \<open>What one task contributes to \<^verbatim>\<open>AddTaskProgress\<close>.\<close>

definition hits_task :: "i32 \<Rightarrow> i32 \<Rightarrow> TaskInfo \<Rightarrow> bool" where
  "hits_task ct target t \<longleftrightarrow> status t = ACCEPTED \<and> ct = 1 \<and> target = 100"

definition count_of :: "TaskInfo \<Rightarrow> i32" where
  "count_of t = current_count (conditions t ! 0)"

lemma add_one_task:
  assumes ok: "tasks_ok ts" and i: "i < length ts"
  shows "(if status (ts ! i) = ACCEPTED
     then add_conditions clock ct target n i [0..<length (conditions (ts ! i))] (ts, upd) else Ret (ts, upd)) =
    (if hits_task ct target (ts ! i)
     then if in_i32 (count_of (ts ! i) + n)
          then Ret (ts[i := recounted (clock i 0) (min 1 (count_of (ts ! i) + n)) (ts ! i)],
                    upd \<or> 1 \<le> count_of (ts ! i) + n)
          else Fault SignedOverflow
     else Ret (ts, upd))"
proof (cases "status (ts ! i) = ACCEPTED")
  case False
  then show ?thesis by (simp add: hits_task_def)
next
  case True
  from ok i have "task_ok (ts ! i)" by (simp add: tasks_ok_def)
  then obtain m where m: "conditions (ts ! i) = [kill_condition m]" by (auto simp: task_ok_def)
  then have c: "count_of (ts ! i) = m" by (simp add: count_of_def kill_condition_def)
  have cap: "(if (1 :: int) < m + n then 1 else m + n) = min 1 (m + n)" by simp
  have chk: "check_tasks now (task_config_id (set_count 0 k (ts ! i))) (ts[i := set_count 0 k (ts ! i)]) =
      (\<not> k < 1, ts[i := recounted now k (ts ! i)])" for now k
    using check_recounted [OF ok i True, of now k] by (simp add: set_count_def)
  show ?thesis
  proof (cases "ct = 1 \<and> target = 100")
    case False
    with True m show ?thesis by (auto simp: hits_task_def kill_condition_def Let_def)
  next
    case ct: True
    show ?thesis
    proof (cases "in_i32 (m + n)")
      case False
      with True m ct c show ?thesis
        by (auto simp: hits_task_def kill_condition_def Let_def bump_def add32_def)
    next
      case True
      then have "bump n 0 (ts ! i) = Ret (set_count 0 (min 1 (m + n)) (ts ! i))"
        by (simp add: bump_def m kill_condition_def cap)
      with \<open>status (ts ! i) = ACCEPTED\<close> m ct c True chk show ?thesis
        by (simp add: hits_task_def kill_condition_def Let_def not_less)
    qed
  qed
qed

lemma add_tasks_ok:
  "add_tasks clock ct target n js (ts, upd) = Ret (ts', upd') \<Longrightarrow> tasks_ok ts \<Longrightarrow>
   set js \<subseteq> {..<length ts} \<Longrightarrow> tasks_ok ts' \<and> list_all2 tmove ts ts'"
proof (induction js arbitrary: ts upd)
  case Nil
  then show ?case by simp
next
  case (Cons i js)
  from Cons.prems(3) have i: "i < length ts" by simp
  from Cons.prems(1) obtain ts1 upd1 where
    one: "(if status (ts ! i) = ACCEPTED
       then add_conditions clock ct target n i [0..<length (conditions (ts ! i))] (ts, upd) else Ret (ts, upd)) =
       Ret (ts1, upd1)" and rest: "add_tasks clock ct target n js (ts1, upd1) = Ret (ts', upd')"
    by (auto simp del: add_conditions.simps)
  from one have ts1: "ts1 = ts \<or> status (ts ! i) = ACCEPTED \<and>
      (\<exists>now k. ts1 = ts[i := recounted now k (ts ! i)])"
    unfolding add_one_task [OF Cons.prems(2) i] by (auto simp: hits_task_def split: if_splits)
  then have "tasks_ok ts1 \<and> list_all2 tmove ts ts1"
    using tasks_ok_recounted [OF Cons.prems(2) i] Cons.prems(2) by auto
  moreover from this have "length ts1 = length ts" by (auto dest: list_all2_lengthD)
  ultimately show ?case using Cons.IH [OF rest] Cons.prems(3) all_tmove_trans by auto
qed

section \<open>Steps of the operations\<close>

lemma task_query_steps:
  "steps_by task_same (GetTasks r)" "steps_by task_same (GetTaskInfo r c)"
  "steps_by task_same (IsTaskCompleted r c)" "steps_by task_same (GetDailyTasks r)"
  "steps_by task_same (GetTrackedTask r)" "steps_by task_same (SaveTaskData r)"
  "steps_by task_same (GetTaskConfig c)"
  by (auto simp: GetTasks_def GetTaskInfo_def IsTaskCompleted_def GetDailyTasks_def GetTrackedTask_def
      SaveTaskData_def GetTaskConfig_def intro!: steps_by_guarded split: option.splits)

lemma task_same_daily: "task_same s (s\<lparr>daily_task_cache := AList.update r ds (daily_task_cache s)\<rparr>)"
  by (simp add: task_same_def task_inv_def stat_def)

lemma InitTasks_steps: "steps_by task_same (InitTasks r)"
  unfolding InitTasks_def
  by (rule steps_by_guarded)
    (auto simp: task_same_def task_inv_def stat_def entry_def intro!: all_vals_update split: option.splits)

lemma RefreshDailyTasks_steps: "steps_by task_same (RefreshDailyTasks now r)"
  unfolding RefreshDailyTasks_def by (rule steps_by_guarded) (auto intro: task_same_daily)

lemma TrackTask_steps: "steps_by task_same (TrackTask r c)"
  by (auto simp: TrackTask_def task_same_def task_inv_def stat_def intro!: steps_by_guarded
      split: option.splits if_splits)

lemma LoadTaskData_steps: "steps_by task_same (LoadTaskData now r)"
  unfolding LoadTaskData_def
  by (rule steps_by_bindM [OF InitTasks_steps steps_by_bindM_ret [OF RefreshDailyTasks_steps] task_same_trans])

lemma CanAcceptTask_steps: "steps_by task_same (CanAcceptTask r c)"
  unfolding CanAcceptTask_def config_allows_def CheckPreTask_def
  by (intro steps_by_bindM [OF _ _ task_same_trans] task_query_steps)
    (auto intro!: task_query_steps steps_by_retM steps_by_bindM [OF _ _ task_same_trans])

lemma CheckTaskComplete_steps: "steps_by task_step (CheckTaskComplete now r c)"
  unfolding CheckTaskComplete_def
proof (rule steps_by_pure)
  fix s
  have "snd (CheckTaskCompleteInternal now r c s) = s" if "task_inv s"
    using entry_tasks_ok [OF that, of r]
    by (cases "map_of (task_cache s) r") (simp_all add: CheckTaskCompleteInternal_def)
  then show "task_step s (snd (CheckTaskCompleteInternal now r c s))" by (simp add: task_step_def)
qed

lemma tasks_ok_del_first: "tasks_ok ts \<Longrightarrow> tasks_ok (del_first p ts)"
  unfolding tasks_ok_def using set_del_first [of p ts] by (auto intro: distinct_map_del_first)

lemma status_in_del:
  "tasks_ok ts \<Longrightarrow> task_move (status_in ts c) (status_in (del_first (abandonable d) ts) c)"
proof (induction ts)
  case Nil
  then show ?case by simp
next
  case (Cons t ts)
  then have "status_in ts (task_config_id t) = None" by (auto simp: status_in_None tasks_ok_def)
  with Cons show ?case by (auto simp: abandonable_def tasks_ok_def)
qed

lemma AbandonTask_steps: "steps_by task_step (AbandonTask r c)"
  by (auto simp: AbandonTask_def task_same_step intro!: steps_by_guarded task_step_put tasks_ok_del_first status_in_del
      split: option.splits if_splits)

lemma UpdateTaskProgress_steps: "steps_by task_step (UpdateTaskProgress now r c i n)"
  unfolding UpdateTaskProgress_def
proof (rule steps_by_guarded, goal_cases)
  case (1 s ok s')
  show ?case
  proof (cases "s' = s")
    case True
    then show ?thesis by (simp add: task_same_step)
  next
    case False
    with 1 obtain ts where ts: "map_of (task_cache s) r = Some ts" "list_ex (updatable c i) ts"
      and s': "s' = s\<lparr>task_cache := AList.update r
        (snd (check_tasks now c (upd_first (updatable c i) (set_count (nat i) n) ts))) (task_cache s)\<rparr>"
      by (auto simp: Let_def split: option.splits if_splits prod.splits)
    from upd_first_index [OF ts(2), of "set_count (nat i) n"] obtain j where j: "j < length ts"
      "updatable c i (ts ! j)" "upd_first (updatable c i) (set_count (nat i) n) ts = ts[j := set_count (nat i) n (ts ! j)]"
      by blast
    have res: "snd (check_tasks now c (upd_first (updatable c i) (set_count (nat i) n) ts)) =
        ts[j := recounted now n (ts ! j)] \<and> status (ts ! j) = ACCEPTED" if ok: "tasks_ok ts"
    proof -
      have "task_ok (ts ! j)" using ok j(1) by (simp add: tasks_ok_def)
      then have "nat i = 0" using j(2) by (auto simp: task_ok_def updatable_def)
      with check_recounted [OF ok j(1), of now n] j show ?thesis by (auto simp: updatable_def)
    qed
    show ?thesis unfolding s'
      by (rule task_step_put [OF ts(1)])
        (use res tasks_ok_recounted [OF _ j(1)] tmove_status in \<open>fastforce+\<close>)
  qed
qed

lemma AddTaskProgress_steps: "steps_by task_step (AddTaskProgress clock r ct target n)"
  unfolding AddTaskProgress_def
proof (rule steps_by_guarded, goal_cases)
  case (1 s ok s')
  show ?case
  proof (cases "map_of (task_cache s) r")
    case None
    with 1 show ?thesis by (simp add: task_same_step)
  next
    case (Some ts)
    with 1 obtain ts' where a: "add_tasks clock (condition_code ct) target n [0..<length ts] (ts, False) = Ret (ts', ok)"
      and s': "s' = s\<lparr>task_cache := AList.update r ts' (task_cache s)\<rparr>" by auto
    have "set [0..<length ts] \<subseteq> {..<length ts}" by auto
    with add_tasks_ok [OF a] have "tasks_ok ts \<Longrightarrow> tasks_ok ts' \<and> list_all2 tmove ts ts'" by blast
    then show ?thesis unfolding s'
      by (intro task_step_put [OF Some]) (blast intro: tmove_status)+
  qed
qed

lemma AcceptTask_idle:
  "AcceptTask gt rnd now r c (idle s) =
    (if 0 < pre_task_id (GetTaskConfigInternal c s) then Fault Relock
     else Ret (fst (add_task gt rnd now r c s), idle (snd (add_task gt rnd now r c s))))"
  unfolding AcceptTask_def with_lock_idle
  by (auto simp: bindM_def retM_def CanAcceptTaskInternal_def config_allows_def
      CheckPreTask_def IsTaskCompleted_def CheckLevelRequirement_def on_state_def idle_def split: prod.split)

lemma task_config_default [simp]: "task_inv s \<Longrightarrow> GetTaskConfigInternal c s = default_task_config c"
  by (simp add: GetTaskConfigInternal_def task_inv_def)

lemma default_pre [simp]: "pre_task_id (default_task_config c) = 0"
  by (simp add: default_task_config_def)

lemma new_task_ok: "task_ok (new_task i c (default_task_config c) now)"
  by (simp add: task_ok_def new_task_def default_task_config_def kill_condition_def)

lemma GenerateTaskId_state:
  "GenerateTaskId gt rnd s = (i, s1) \<Longrightarrow> \<exists>n. s1 = s\<lparr>next_task_id := n\<rparr>"
  by (auto simp: GenerateTaskId_def split: prod.splits)

lemma add_task_cases:
  assumes inv: "task_inv s" and add: "add_task gt rnd now r c s = (ok, s')"
  shows "task_inv s' \<and> (ok \<longleftrightarrow> stat s r c = None) \<and>
    (\<exists>i. \<forall>q. entry (task_cache s') q = (if q = r \<and> ok
       then entry (task_cache s) r @ [new_task i c (default_task_config c) now] else entry (task_cache s) q))"
proof -
  define s1 where "s1 = (case map_of (task_cache s) r of
                 None \<Rightarrow> s\<lparr>task_cache := AList.update r [] (task_cache s)\<rparr> | Some _ \<Rightarrow> s)"
  have s1: "task_inv s1" "entry (task_cache s1) q = entry (task_cache s) q" for q
    using inv by (auto simp: s1_def task_inv_put split: option.split)
  have ok1: "tasks_ok (entry (task_cache s) r)" using inv by (rule entry_tasks_ok)
  have none: "list_ex (\<lambda>t. task_config_id t = c) (entry (task_cache s) r) \<longleftrightarrow> stat s r c \<noteq> None"
    by (auto simp: stat_def status_in_None list_ex_iff)
  show ?thesis
  proof (cases "stat s r c = None")
    case False
    with add none s1 show ?thesis by (auto simp: add_task_def s1_def [symmetric] Let_def)
  next
    case True
    obtain i s2 where gen: "GenerateTaskId gt rnd s1 = (i, s2)" by fastforce
    then obtain n where s2: "s2 = s1\<lparr>next_task_id := n\<rparr>" using GenerateTaskId_state by blast
    let ?ts = "entry (task_cache s) r @ [new_task i c (default_task_config c) now]"
    from True add none gen s1 have ok: "ok" and s': "s' = s2\<lparr>task_cache := AList.update r ?ts (task_cache s2)\<rparr>"
      by (auto simp: add_task_def s1_def [symmetric] Let_def)
    have "tasks_ok ?ts"
      using ok1 True new_task_ok [of i c now]
      by (auto simp: tasks_ok_def stat_def status_in_None new_task_def)
    moreover have "task_inv s2" using s1(1) by (simp add: s2 task_inv_def)
    ultimately have "task_inv s'" unfolding s' by (intro task_inv_put)
    moreover have "entry (task_cache s') q = (if q = r then ?ts else entry (task_cache s) q)" for q
      using s1(2) by (simp add: s' s2)
    ultimately show ?thesis using ok True by auto
  qed
qed

lemma AcceptTask_steps: "steps_by task_step (AcceptTask gt rnd now r c)"
  unfolding steps_by_def
proof (intro allI impI)
  fix s ok m'
  assume "AcceptTask gt rnd now r c (idle s) = Ret (ok, m')"
  then have m': "m' = idle (snd (add_task gt rnd now r c s))" by (simp add: AcceptTask_idle split: if_splits)
  have "task_step s (snd (add_task gt rnd now r c s))"
    unfolding task_step_def
  proof (intro impI)
    assume inv: "task_inv s"
    obtain ok s' where add: "add_task gt rnd now r c s = (ok, s')" by fastforce
    from add_task_cases [OF inv add] obtain i where i: "task_inv s'" "ok \<longleftrightarrow> stat s r c = None"
      "\<forall>q. entry (task_cache s') q = (if q = r \<and> ok
         then entry (task_cache s) r @ [new_task i c (default_task_config c) now] else entry (task_cache s) q)"
      by blast
    then have "task_move (stat s q d) (stat s' q d)" for q d
      by (auto simp: stat_def new_task_def split: option.split)
    with i(1) add show "task_inv (snd (add_task gt rnd now r c s)) \<and>
        (\<forall>q d. task_move (stat s q d) (stat (snd (add_task gt rnd now r c s)) q d))" by simp
  qed
  with m' show "\<exists>s'. m' = idle s' \<and> task_step s s'" by blast
qed

text \<open>A submission that pays moves the task from completed to submitted and pays its rewards.\<close>

lemma SubmitTask_cases:
  assumes "SubmitTask now r c (idle s) = Ret (rep, m')"
  shows "rep = None \<and> m' = idle s \<and> (task_inv s \<longrightarrow> stat s r c \<noteq> Some COMPLETED) \<or>
    (\<exists>s'. m' = idle s' \<and> (task_inv s \<longrightarrow> rep = Some [Gold 100] \<and> task_inv s' \<and>
       stat s r c = Some COMPLETED \<and> stat s' r c = Some SUBMITTED \<and>
       (\<forall>q d. (q, d) \<noteq> (r, c) \<longrightarrow> stat s' q d = stat s q d)))"
proof (cases "map_of (task_cache s) r")
  case None
  with assms show ?thesis by (simp add: SubmitTask_def stat_def)
next
  case (Some ts)
  show ?thesis
  proof (cases "List.find (submittable c) ts")
    case None
    have "stat s r c \<noteq> Some COMPLETED"
    proof
      assume "stat s r c = Some COMPLETED"
      then obtain t where "List.find (\<lambda>t. task_config_id t = c) ts = Some t" "status t = COMPLETED"
        using Some by (auto simp: stat_def status_in_def)
      with find_Some_mem [OF this(1)] None show False by (auto simp: find_None_iff submittable_def)
    qed
    with assms Some None show ?thesis by (simp add: SubmitTask_def)
  next
    case f: (Some t)
    let ?f = "\<lambda>t. t\<lparr>status := SUBMITTED, submit_time := now\<rparr>"
    let ?s' = "s\<lparr>task_cache := AList.update r (upd_first (submittable c) ?f ts) (task_cache s)\<rparr>"
    from assms Some f have m': "m' = idle ?s'" and rep: "rep = Some (GiveTaskRewards r t)"
      by (auto simp: SubmitTask_def)
    have "list_ex (submittable c) ts" using find_Some_mem [OF f] by (auto simp: list_ex_iff)
    from upd_first_index [OF this, of ?f] obtain j where j: "j < length ts" "submittable c (ts ! j)"
      "upd_first (submittable c) ?f ts = ts[j := ?f (ts ! j)]" by blast
    have "rep = Some [Gold 100] \<and> task_inv ?s' \<and> stat s r c = Some COMPLETED \<and>
       stat ?s' r c = Some SUBMITTED \<and> (\<forall>q d. (q, d) \<noteq> (r, c) \<longrightarrow> stat ?s' q d = stat s q d)"
      if inv: "task_inv s"
    proof -
      have ok: "tasks_ok ts" using entry_tasks_ok [OF inv, of r] Some by simp
      then have "task_ok t" "task_ok (ts ! j)" using find_Some_mem [OF f] j(1) by (auto simp: tasks_ok_def)
      then have pay: "rep = Some [Gold 100]" and tj: "task_ok (?f (ts ! j))"
        using j(2) by (auto simp: rep GiveTaskRewards_def task_ok_def pay_def submittable_def)
      have c: "task_config_id (ts ! j) = c" "status (ts ! j) = COMPLETED" using j(2) by (auto simp: submittable_def)
      have ok': "tasks_ok (ts[j := ?f (ts ! j)])" using ok tj by (intro tasks_ok_update) simp_all
      then have "task_inv ?s'" using inv by (simp add: j(3) task_inv_put)
      moreover have "stat s r c = Some COMPLETED"
        using status_in_nth [of ts j] ok j(1) c Some by (simp add: stat_def tasks_ok_def)
      moreover have "stat ?s' r c = Some SUBMITTED"
        using status_in_nth [of "ts[j := ?f (ts ! j)]" j] ok' j(1) c
        by (simp add: stat_put j(3) tasks_ok_def)
      moreover have "stat ?s' q d = stat s q d" if "(q, d) \<noteq> (r, c)" for q d
        using that status_in_update_other [OF j(1), of "?f (ts ! j)" d] c Some
        by (auto simp: stat_put j(3)) (simp_all add: stat_def)
      ultimately show ?thesis using pay by blast
    qed
    with m' show ?thesis by blast
  qed
qed

section \<open>The task module as a machine\<close>

text \<open>One command for each public method, except \<^verbatim>\<open>AcceptDailyTask\<close> (see below).\<close>

datatype task_cmd =
    CInitTasks u64
  | CGetTasks u64
  | CGetTaskInfo u64 i32
  | CAcceptTask time_t int time_t u64 i32
  | CCanAcceptTask u64 i32
  | CCheckTaskComplete time_t u64 i32
  | CIsTaskCompleted u64 i32
  | CSubmitTask time_t u64 i32
  | CAbandonTask u64 i32
  | CUpdateTaskProgress time_t u64 i32 i32 i32
  | CAddTaskProgress "nat \<Rightarrow> nat \<Rightarrow> time_t" u64 TaskConditionType i32 i32
  | CRefreshDailyTasks time_t u64
  | CGetDailyTasks u64
  | CTrackTask u64 i32
  | CGetTrackedTask u64
  | CLoadTaskData time_t u64
  | CSaveTaskData u64

fun task_exec :: "task_cmd \<Rightarrow> (TaskModule, bool) oper" where
  "task_exec (CInitTasks r) = InitTasks r"
| "task_exec (CGetTasks r) = succeeded (GetTasks r)"
| "task_exec (CGetTaskInfo r c) = succeeded (GetTaskInfo r c)"
| "task_exec (CAcceptTask gt rnd now r c) = AcceptTask gt rnd now r c"
| "task_exec (CCanAcceptTask r c) = CanAcceptTask r c"
| "task_exec (CCheckTaskComplete now r c) = CheckTaskComplete now r c"
| "task_exec (CIsTaskCompleted r c) = IsTaskCompleted r c"
| "task_exec (CSubmitTask now r c) = succeeded (SubmitTask now r c)"
| "task_exec (CAbandonTask r c) = AbandonTask r c"
| "task_exec (CUpdateTaskProgress now r c i n) = UpdateTaskProgress now r c i n"
| "task_exec (CAddTaskProgress clock r ct target n) = AddTaskProgress clock r ct target n"
| "task_exec (CRefreshDailyTasks now r) = RefreshDailyTasks now r"
| "task_exec (CGetDailyTasks r) = succeeded (GetDailyTasks r)"
| "task_exec (CTrackTask r c) = TrackTask r c"
| "task_exec (CGetTrackedTask r) = succeeded (GetTrackedTask r)"
| "task_exec (CLoadTaskData now r) = LoadTaskData now r"
| "task_exec (CSaveTaskData r) = SaveTaskData r"

fun submits :: "u64 \<Rightarrow> i32 \<Rightarrow> task_cmd \<Rightarrow> bool" where
  "submits r c (CSubmitTask now r' c') \<longleftrightarrow> r' = r \<and> c' = c"
| "submits r c _ \<longleftrightarrow> False"

lemmas task_same_steps = task_query_steps InitTasks_steps RefreshDailyTasks_steps TrackTask_steps
  LoadTaskData_steps CanAcceptTask_steps

lemmas task_moving_steps = CheckTaskComplete_steps AbandonTask_steps UpdateTaskProgress_steps
  AddTaskProgress_steps AcceptTask_steps

lemma task_same_weaken: "steps_by task_same p \<Longrightarrow> steps_by task_step p"
  by (rule steps_by_weaken [OF _ task_same_step])

lemma task_exec_steps: "\<forall>now r c. d \<noteq> CSubmitTask now r c \<Longrightarrow> steps_by task_step (task_exec d)"
  by (cases d) (auto intro!: steps_by_succeeded task_moving_steps intro: task_same_weaken task_same_steps)

text \<open>What a command with its answer does to the status of one task.\<close>

lemma task_exec_move:
  assumes "task_exec d (idle s) = Ret (ok, m')"
  shows "\<exists>s'. m' = idle s' \<and> (task_inv s \<longrightarrow> task_inv s' \<and>
    (if submits r c d \<and> ok then stat s r c = Some COMPLETED \<and> stat s' r c = Some SUBMITTED
     else task_move (stat s r c) (stat s' r c)))"
proof (cases "\<forall>now r c. d \<noteq> CSubmitTask now r c")
  case True
  then have "\<not> submits r c d" by (cases d) auto
  with steps_by_run [OF assms task_exec_steps [OF True]] show ?thesis by (auto simp: task_step_def)
next
  case False
  then obtain now r' c' where d: "d = CSubmitTask now r' c'" by auto
  with assms obtain rep where rep: "SubmitTask now r' c' (idle s) = Ret (rep, m')" "ok \<longleftrightarrow> rep \<noteq> None"
    by (auto simp: succeeded_def)
  from SubmitTask_cases [OF rep(1)] show ?thesis
  proof
    assume "rep = None \<and> m' = idle s \<and> (task_inv s \<longrightarrow> stat s r' c' \<noteq> Some COMPLETED)"
    with rep(2) show ?thesis by auto
  next
    assume "\<exists>s'. m' = idle s' \<and> (task_inv s \<longrightarrow> rep = Some [Gold 100] \<and> task_inv s' \<and>
       stat s r' c' = Some COMPLETED \<and> stat s' r' c' = Some SUBMITTED \<and>
       (\<forall>q e. (q, e) \<noteq> (r', c') \<longrightarrow> stat s' q e = stat s q e))"
    then obtain s' where "m' = idle s'" "task_inv s \<longrightarrow> rep = Some [Gold 100] \<and> task_inv s' \<and>
       stat s r' c' = Some COMPLETED \<and> stat s' r' c' = Some SUBMITTED \<and>
       (\<forall>q e. (q, e) \<noteq> (r', c') \<longrightarrow> stat s' q e = stat s q e)" by blast
    with rep(2) d show ?thesis by (intro exI [of _ s']) (auto simp: eq_commute [of r' r] eq_commute [of c' c])
  qed
qed

lemma SubmitTask_returns: "\<exists>rep m'. SubmitTask now r c (idle s) = Ret (rep, m')"
  by (auto simp: SubmitTask_def split: option.splits)

lemma task_ops_live:
  "never_relocks (InitTasks r)" "never_relocks (GetTasks r)" "never_relocks (GetTaskInfo r c)"
  "never_relocks (CheckTaskComplete now r c)" "never_relocks (IsTaskCompleted r c)"
  "never_relocks (SubmitTask now r c)" "never_relocks (AbandonTask r c)"
  "never_relocks (UpdateTaskProgress now r c i n)" "never_relocks (RefreshDailyTasks now r)"
  "never_relocks (GetDailyTasks r)" "never_relocks (TrackTask r c)" "never_relocks (GetTrackedTask r)"
  "never_relocks (SaveTaskData r)" "never_relocks (GetTaskConfig c)"
  by (auto simp: never_relocks_guarded Let_def InitTasks_def GetTasks_def GetTaskInfo_def
      CheckTaskComplete_def IsTaskCompleted_def SubmitTask_def AbandonTask_def UpdateTaskProgress_def
      RefreshDailyTasks_def GetDailyTasks_def TrackTask_def GetTrackedTask_def SaveTaskData_def
      GetTaskConfig_def split: option.splits prod.splits if_splits)

lemma add_conditions_no_relock: "add_conditions clock ct target n i js acc \<noteq> Fault Relock"
proof (induction js arbitrary: acc)
  case Nil
  then show ?case by simp
next
  case (Cons j js)
  then show ?case by (cases acc) (auto simp: Let_def bindO_eq_Fault bump_def split: prod.splits)
qed

lemma add_tasks_no_relock: "add_tasks clock ct target n js acc \<noteq> Fault Relock"
proof (induction js arbitrary: acc)
  case Nil
  then show ?case by simp
next
  case (Cons j js)
  then show ?case
    by (cases acc) (auto simp: bindO_eq_Fault add_conditions_no_relock split: if_splits)
qed

lemma task_composed_live:
  "never_relocks (AddTaskProgress clock r ct target n)" "never_relocks (LoadTaskData now r)"
  "never_relocks (CanAcceptTask r c)"
proof -
  show "never_relocks (AddTaskProgress clock r ct target n)"
    by (auto simp: AddTaskProgress_def never_relocks_guarded bindO_eq_Fault add_tasks_no_relock
        split: option.splits)
  show "never_relocks (LoadTaskData now r)"
    unfolding LoadTaskData_def
    by (rule never_relocks_bindM [OF task_ops_live(1) InitTasks_steps])
      (auto intro!: stepping task_ops_live)
  show "never_relocks (CanAcceptTask r c)"
    unfolding CanAcceptTask_def config_allows_def CheckPreTask_def
    by (intro never_relocks_bindM [where R = task_same] task_ops_live task_query_steps)
      (auto intro!: task_ops_live never_relocks_retM task_query_steps steps_by_retM)
qed

lemma task_exec_live: "task_inv s \<Longrightarrow> task_exec d (idle s) \<noteq> Fault Relock"
proof (cases "\<exists>gt rnd now r c. d = CAcceptTask gt rnd now r c")
  case True
  assume "task_inv s"
  with True show ?thesis by (auto simp: AcceptTask_idle)
next
  case False
  then have "never_relocks (task_exec d)"
    by (cases d) (auto intro!: never_relocks_succeeded task_ops_live task_composed_live)
  then show ?thesis by (simp add: never_relocks_def)
qed

interpretation task: live_machine task_exec task_inv
proof unfold_locales
  show "\<exists>s'. m' = idle s'" if "task_exec c (idle s) = Ret (r, m')" for c s r m'
    using task_exec_move [OF that] by blast
  show "task_inv s'" if "task_exec c (idle s) = Ret (r, idle s')" "task_inv s" for c s r s'
    using task_exec_move [OF that(1)] that(2) by auto
  show "task_exec c (idle s) \<noteq> Fault Relock" if "task_inv s" for s c
    using that by (rule task_exec_live)
qed

interpretation task_ids: id_source GenerateTaskId next_task_id
  by unfold_locales (auto simp: GenerateTaskId_def next_static_id_def Let_def)

section \<open>Properties\<close>

text \<open>The number of submissions of one task that paid in a run.\<close>

fun paid_submissions :: "u64 \<Rightarrow> i32 \<Rightarrow> task_cmd list \<Rightarrow> bool list \<Rightarrow> nat" where
  "paid_submissions r c (d # ds) (ok # oks) =
     (if submits r c d \<and> ok then 1 else 0) + paid_submissions r c ds oks"
| "paid_submissions r c _ _ = 0"

lemma task_run_step:
  assumes "run_cmds task_exec (d # ds) (idle s) = Ret (oks, m')"
  obtains ok oks1 m1 where "oks = ok # oks1" "task_exec d (idle s) = Ret (ok, m1)"
    "run_cmds task_exec ds m1 = Ret (oks1, m')"
  using assms by (auto split: prod.splits)

text \<open>
  C2. The rewards of a task are paid at most once. Over any run of the module (whatever is accepted,
  abandoned, updated, completed and submitted, for any role) the submissions of one task of one role
  that succeed are at most one, and none at all when the task was submitted before the run; and a
  task that was submitted stays submitted.
\<close>

theorem rewards_paid_once:
  assumes "run_cmds task_exec ds (idle s) = Ret (oks, idle s')" and "task_inv s"
  shows "paid_submissions r c ds oks \<le> (if stat s r c = Some SUBMITTED then 0 else 1) \<and>
    (stat s r c = Some SUBMITTED \<or> 0 < paid_submissions r c ds oks \<longrightarrow> stat s' r c = Some SUBMITTED)"
  using assms
proof (induction ds arbitrary: s oks)
  case Nil
  then show ?case by simp
next
  case (Cons d ds)
  from Cons.prems(1) obtain ok oks1 m1 where oks: "oks = ok # oks1"
    and d: "task_exec d (idle s) = Ret (ok, m1)" and ds: "run_cmds task_exec ds m1 = Ret (oks1, idle s')"
    by (rule task_run_step)
  from task_exec_move [OF d] Cons.prems(2) obtain s1 where m1: "m1 = idle s1" "task_inv s1"
    and mv: "if submits r c d \<and> ok then stat s r c = Some COMPLETED \<and> stat s1 r c = Some SUBMITTED
       else task_move (stat s r c) (stat s1 r c)" by blast
  from Cons.IH [OF ds [unfolded m1(1)] m1(2)] mv show ?case
    by (auto simp: oks elim: task_move.cases split: if_splits)
qed

theorem rewards_paid_once_witness:
  "\<exists>oks s'. run_cmds task_exec [CAcceptTask 5 3 9 7 1, CAddTaskProgress (\<lambda>i j. 9) 7 KILL_MONSTER 100 1,
        CSubmitTask 9 7 1, CSubmitTask 9 7 1, CAcceptTask 5 3 9 7 1] (idle task_init) = Ret (oks, idle s') \<and>
     paid_submissions 7 1 [CAcceptTask 5 3 9 7 1, CAddTaskProgress (\<lambda>i j. 9) 7 KILL_MONSTER 100 1,
        CSubmitTask 9 7 1, CSubmitTask 9 7 1, CAcceptTask 5 3 9 7 1] oks = 1 \<and> stat s' 7 1 = Some SUBMITTED"
proof -
  let ?ds = "[CAcceptTask 5 3 9 7 1, CAddTaskProgress (\<lambda>i j. 9) 7 KILL_MONSTER 100 1,
        CSubmitTask 9 7 1, CSubmitTask 9 7 1, CAcceptTask 5 3 9 7 1]"
  have "\<exists>m'. run_cmds task_exec ?ds (idle task_init) = Ret ([True, True, True, False, False], m')"
    by (rule exI, code_simp)
  then obtain s' where r: "run_cmds task_exec ?ds (idle task_init) =
      Ret ([True, True, True, False, False], idle s')"
    using task.run_inv [OF _ task_inv_init] by blast
  have p: "paid_submissions 7 1 ?ds [True, True, True, False, False] = 1" by simp
  from rewards_paid_once [OF r task_inv_init, of 7 1] p have "stat s' 7 1 = Some SUBMITTED" by simp
  with r p show ?thesis by blast
qed

text \<open>
  C26. In every run from the empty module (daily acceptance apart) nothing blocks on the mutex, and
  whenever the run returns, every role has a task at most once, in one of the states accepted,
  completed and submitted, and a task is past accepted exactly when its condition is met.
\<close>

theorem tasks_stay_consistent:
  "run_cmds task_exec ds (idle task_init) \<noteq> Fault Relock \<and>
   (\<forall>oks m'. run_cmds task_exec ds (idle task_init) = Ret (oks, m') \<longrightarrow> (\<exists>s'. m' = idle s' \<and> task_inv s'))"
  using task.run_live [OF task_inv_init] task.run_inv [OF _ task_inv_init] by blast

theorem tasks_stay_consistent_witness:
  "\<exists>oks s'. run_cmds task_exec [CLoadTaskData 5 7, CAcceptTask 5 3 9 7 1, CUpdateTaskProgress 9 7 1 0 4, CAbandonTask 7 1]
     (idle task_init) = Ret (oks, idle s') \<and> task_inv s'"
proof -
  let ?ds = "[CLoadTaskData 5 7, CAcceptTask 5 3 9 7 1, CUpdateTaskProgress 9 7 1 0 4, CAbandonTask 7 1]"
  have "\<exists>x. run_cmds task_exec ?ds (idle task_init) = Ret x"
    by (rule exI, code_simp)
  then show ?thesis using tasks_stay_consistent [of ?ds] by (metis surj_pair)
qed

lemma kills_complete:
  assumes "tasks_ok ts" and "set js \<subseteq> {..<length ts}" and "distinct js"
    and "\<forall>i\<in>set js. status (ts ! i) = ACCEPTED \<longrightarrow> count_of (ts ! i) = 0"
  shows "\<exists>ts' upd'. add_tasks clock 1 100 1 js (ts, upd) = Ret (ts', upd') \<and>
    (\<forall>i\<in>set js. status (ts ! i) = ACCEPTED \<longrightarrow> status (ts' ! i) = COMPLETED) \<and>
    (upd' \<longleftrightarrow> upd \<or> (\<exists>i\<in>set js. status (ts ! i) = ACCEPTED))"
  using assms
proof (induction js arbitrary: ts upd)
  case Nil
  then show ?case by simp
next
  case (Cons i js)
  from Cons.prems(2) have i: "i < length ts" by simp
  show ?case
  proof (cases "status (ts ! i) = ACCEPTED")
    case False
    from Cons.IH [of ts upd] Cons.prems obtain ts' upd' where
      "add_tasks clock 1 100 1 js (ts, upd) = Ret (ts', upd')"
      "\<forall>i\<in>set js. status (ts ! i) = ACCEPTED \<longrightarrow> status (ts' ! i) = COMPLETED"
      "upd' \<longleftrightarrow> upd \<or> (\<exists>i\<in>set js. status (ts ! i) = ACCEPTED)" by auto
    with False show ?thesis by auto
  next
    case True
    let ?ts = "ts[i := recounted (clock i 0) 1 (ts ! i)]"
    have zero: "count_of (ts ! i) = 0" using True Cons.prems(4) by simp
    have one: "add_conditions clock 1 100 1 i [0..<length (conditions (ts ! i))] (ts, upd) = Ret (?ts, True)"
      using add_one_task [OF Cons.prems(1) i, of clock 1 100 1 upd] True zero
      by (simp add: hits_task_def in_i32_def)
    from tasks_ok_recounted [OF Cons.prems(1) i True] have ok: "tasks_ok ?ts" by blast
    have same: "?ts ! k = ts ! k" if "k \<in> set js" for k
    proof -
      have "k \<noteq> i" using that Cons.prems(3) by auto
      then show ?thesis by simp
    qed
    from Cons.IH [OF ok, of True] Cons.prems same obtain ts' upd' where
      rest: "add_tasks clock 1 100 1 js (?ts, True) = Ret (ts', upd')"
      "\<forall>i\<in>set js. status (ts ! i) = ACCEPTED \<longrightarrow> status (ts' ! i) = COMPLETED" "upd'" by auto
    have "task_ok (ts ! i)" using Cons.prems(1) i by (simp add: tasks_ok_def)
    then have st: "status (?ts ! i) = COMPLETED" using i True recounted_ok(4) by simp
    have "set js \<subseteq> {..<length ?ts}" using Cons.prems(2) by simp
    with add_tasks_ok [OF rest(1) ok] have "tmove (?ts ! i) (ts' ! i)"
      using i by (auto simp: list_all2_conv_all_nth)
    with st have "status (ts' ! i) = COMPLETED" by (auto simp: tmove_def)
    with rest one True show ?thesis by (auto simp del: add_conditions.simps)
  qed
qed

text \<open>
  C27. The way through a task. For a role that does not have the task (and whose other accepted
  tasks have not counted below zero), accepting it succeeds, killing the monster it asks for
  completes it, submitting it pays its reward of 100 gold, and afterwards it is submitted.
\<close>

theorem task_way_through:
  assumes inv: "task_inv s" and none: "stat s r c = None"
    and zero: "\<forall>t\<in>set (entry (task_cache s) r). status t = ACCEPTED \<longrightarrow> count_of t = 0"
  shows "\<exists>s1 s2 s3. AcceptTask gt rnd now r c (idle s) = Ret (True, idle s1) \<and>
    OnKillMonster clock r 100 (idle s1) = Ret (True, idle s2) \<and>
    SubmitTask now' r c (idle s2) = Ret (Some [Gold 100], idle s3) \<and> stat s3 r c = Some SUBMITTED"
proof -
  obtain ok s1 where add: "add_task gt rnd now r c s = (ok, s1)" by fastforce
  from add_task_cases [OF inv add] none obtain i where inv1: "task_inv s1" and ok: "ok"
    and e1: "entry (task_cache s1) r = entry (task_cache s) r @ [new_task i c (default_task_config c) now]"
    by auto
  let ?ts = "entry (task_cache s1) r"
  have accept: "AcceptTask gt rnd now r c (idle s) = Ret (True, idle s1)"
    using inv add ok by (simp add: AcceptTask_idle)
  have ts: "map_of (task_cache s1) r = Some ?ts"
    using e1 by (cases "map_of (task_cache s1) r") auto
  have tok: "tasks_ok ?ts" using inv1 by (rule entry_tasks_ok)
  have z: "\<forall>t\<in>set ?ts. status t = ACCEPTED \<longrightarrow> count_of t = 0"
    using zero by (auto simp: e1 count_of_def new_task_def default_task_config_def)
  let ?n = "length (entry (task_cache s) r)"
  have last: "?n < length ?ts" "status (?ts ! ?n) = ACCEPTED" "task_config_id (?ts ! ?n) = c"
    by (simp_all add: e1 new_task_def)
  have "\<exists>ts' upd'. add_tasks clock 1 100 1 [0..<length ?ts] (?ts, False) = Ret (ts', upd') \<and>
      (\<forall>i\<in>set [0..<length ?ts]. status (?ts ! i) = ACCEPTED \<longrightarrow> status (ts' ! i) = COMPLETED) \<and>
      (upd' \<longleftrightarrow> False \<or> (\<exists>i\<in>set [0..<length ?ts]. status (?ts ! i) = ACCEPTED))"
    by (rule kills_complete [OF tok]) (use z in auto)
  then obtain ts' upd where kill0: "add_tasks clock 1 100 1 [0..<length ?ts] (?ts, False) = Ret (ts', upd)"
    and all: "\<forall>i\<in>set [0..<length ?ts]. status (?ts ! i) = ACCEPTED \<longrightarrow> status (ts' ! i) = COMPLETED"
    and upd: "upd \<longleftrightarrow> False \<or> (\<exists>i\<in>set [0..<length ?ts]. status (?ts ! i) = ACCEPTED)" by blast
  have n: "?n \<in> set [0..<length ?ts]" using last(1) by simp
  from all n last(2) have fin: "status (ts' ! ?n) = COMPLETED" by blast
  from upd n last(2) have "upd" by blast
  with kill0 have kill: "add_tasks clock 1 100 1 [0..<length ?ts] (?ts, False) = Ret (ts', True)" by simp
  let ?s2 = "s1\<lparr>task_cache := AList.update r ts' (task_cache s1)\<rparr>"
  have k: "OnKillMonster clock r 100 (idle s1) = Ret (True, idle ?s2)"
    using ts kill by (simp add: OnKillMonster_def AddTaskProgress_def del: entry_simps)
  have "set [0..<length ?ts] \<subseteq> {..<length ?ts}" by auto
  with add_tasks_ok [OF kill tok] have ok': "tasks_ok ts'" and mv: "list_all2 tmove ?ts ts'" by blast+
  then have "?n < length ts'" "task_config_id (ts' ! ?n) = c"
    using last by (auto simp: list_all2_conv_all_nth tmove_def)
  with status_in_nth [of ts' ?n] ok' fin have st: "stat ?s2 r c = Some COMPLETED"
    by (auto simp: stat_put tasks_ok_def)
  have inv2: "task_inv ?s2" using inv1 ok' by (rule task_inv_put)
  obtain rep m' where sub: "SubmitTask now' r c (idle ?s2) = Ret (rep, m')"
    using SubmitTask_returns by blast
  from SubmitTask_cases [OF sub] inv2 st obtain s3 where
    "m' = idle s3" "rep = Some [Gold 100]" "stat s3 r c = Some SUBMITTED" by auto
  with accept k sub show ?thesis by blast
qed

theorem task_way_through_witness:
  "\<exists>s1 s2 s3. AcceptTask 5 3 9 7 1 (idle task_init) = Ret (True, idle s1) \<and>
    OnKillMonster (\<lambda>i j. 9) 7 100 (idle s1) = Ret (True, idle s2) \<and>
    SubmitTask 9 7 1 (idle s2) = Ret (Some [Gold 100], idle s3) \<and> stat s3 7 1 = Some SUBMITTED"
  using task_way_through [OF task_inv_init, of 7 1 5 3 9 "\<lambda>i j. 9" 9]
  by (simp add: task_init_def stat_def)

text \<open>
  Daily tasks cannot be accepted: \<^verbatim>\<open>AcceptDailyTask\<close> keeps the mutex while it calls
  \<^verbatim>\<open>AcceptTask\<close>, which locks it again. It returns, answering \<^verbatim>\<open>false\<close> and changing nothing, exactly
  when the role has no open daily task with the identifier; for every open one the thread relocks
  the mutex it holds, so after a refresh each of the five daily tasks blocks its caller.
\<close>

theorem AcceptDailyTask_relocks:
  "AcceptDailyTask gt rnd now r c (idle s) =
     (if list_ex (daily_open c) (entry (daily_task_cache s) r) then Fault Relock else Ret (False, idle s)) \<and>
   (\<exists>s'. RefreshDailyTasks t r (idle s) = Ret (True, idle s') \<and>
     (AcceptDailyTask gt rnd now r c (idle s') = Fault Relock \<longleftrightarrow> c \<in> {1001..1005}))"
proof
  show eq: "AcceptDailyTask gt rnd now r c (idle s) =
     (if list_ex (daily_open c) (entry (daily_task_cache s) r) then Fault Relock else Ret (False, idle s))" for s
    unfolding AcceptDailyTask_def with_lock_idle
    by (auto simp: bindM_def retM_def on_state_def AcceptTask_def idle_def entry_def split: option.split)
  have five: "list_ex (daily_open c) (daily_tasks t) \<longleftrightarrow> c \<in> {1001..1005}"
    by (auto simp: daily_tasks_def daily_open_def list_ex_iff image_iff)
      (rule_tac x = "c - 1000" in bexI, auto)
  show "\<exists>s'. RefreshDailyTasks t r (idle s) = Ret (True, idle s') \<and>
     (AcceptDailyTask gt rnd now r c (idle s') = Fault Relock \<longleftrightarrow> c \<in> {1001..1005})"
    by (simp add: RefreshDailyTasks_def eq five)
qed

end
