(* ===== verification/Friend.thy ===== *)
theory Friend
  imports Machine
begin

text \<open>
  \<open>game_server/logic_server/friend_module.cc\<close>: friend lists, friend requests and recent contacts.
\<close>

section \<open>Data\<close>

datatype FriendStatus = OFFLINE | ONLINE | IN_BATTLE | IN_TEAM

datatype FriendRelationType = NONE | FRIEND | BLACKLIST | RECENT

datatype FriendApplyStatus = PENDING | ACCEPTED | REJECTED

record FriendInfo =
  friend_id :: u64
  friend_name :: string
  level :: i32
  profession :: i32
  status :: FriendStatus
  relation_type :: FriendRelationType
  last_login_time :: time_t
  friend_since :: time_t

record FriendApplyInfo =
  apply_id :: u64
  requester_id :: u64
  target_id :: u64
  message :: string
  apply_status :: FriendApplyStatus
  send_time :: time_t

record FriendModule =
  friend_cache :: "(u64 \<times> FriendInfo list) list"
  apply_cache :: "(u64 \<times> FriendApplyInfo list) list"
  sent_apply_cache :: "(u64 \<times> FriendApplyInfo list) list"
  recent_cache :: "(u64 \<times> FriendInfo list) list"
  blacklist_cache :: "(u64 \<times> u64 list) list"
  next_apply_id :: "u64 option"

definition MAX_FRIEND_COUNT :: nat where "MAX_FRIEND_COUNT = 50"

definition MAX_RECENT_COUNT :: nat where "MAX_RECENT_COUNT = 20"

definition friend_init :: FriendModule where
  "friend_init = \<lparr>friend_cache = [], apply_cache = [], sent_apply_cache = [], recent_cache = [],
     blacklist_cache = [], next_apply_id = None\<rparr>"

section \<open>Operations\<close>

definition InitFriends :: "u64 \<Rightarrow> (FriendModule, bool) oper" where
  "InitFriends role = guarded (\<lambda>s.
     case map_of (friend_cache s) role of
       Some _ \<Rightarrow> Ret (True, s)
     | None \<Rightarrow> Ret (True, s\<lparr>friend_cache := AList.update role [] (friend_cache s),
                           apply_cache := AList.update role [] (apply_cache s),
                           sent_apply_cache := AList.update role [] (sent_apply_cache s),
                           recent_cache := AList.update role [] (recent_cache s)\<rparr>))"

definition GetFriends :: "u64 \<Rightarrow> (FriendModule, FriendInfo list option) oper" where
  "GetFriends role = guarded (\<lambda>s.
     Ret (map_option (filter (\<lambda>f. relation_type f = FRIEND)) (map_of (friend_cache s) role), s))"

definition GetFriendInfo :: "u64 \<Rightarrow> u64 \<Rightarrow> (FriendModule, FriendInfo option) oper" where
  "GetFriendInfo role fid = guarded (\<lambda>s.
     Ret (case map_of (friend_cache s) role of
            None \<Rightarrow> None
          | Some fs \<Rightarrow> List.find (\<lambda>f. friend_id f = fid) fs, s))"

text \<open>\<^verbatim>\<open>CheckFriendLimit\<close> locks the mutex; \<^verbatim>\<open>AddFriend\<close> calls it with the mutex held.\<close>

definition CheckFriendLimit :: "u64 \<Rightarrow> (FriendModule, bool) oper" where
  "CheckFriendLimit role = guarded (\<lambda>s.
     Ret (case map_of (friend_cache s) role of
            None \<Rightarrow> True
          | Some fs \<Rightarrow> length fs < MAX_FRIEND_COUNT, s))"

definition is_friend :: "u64 \<Rightarrow> FriendInfo \<Rightarrow> bool" where
  "is_friend fid f \<longleftrightarrow> friend_id f = fid \<and> relation_type f = FRIEND"

definition add_friend :: "time_t \<Rightarrow> time_t \<Rightarrow> u64 \<Rightarrow> u64 \<Rightarrow> FriendModule \<Rightarrow> bool \<times> FriendModule" where
  "add_friend t1 t2 role fid s0 =
     (let s = (case map_of (friend_cache s0) role of
                 None \<Rightarrow> s0\<lparr>friend_cache := AList.update role [] (friend_cache s0)\<rparr> | Some _ \<Rightarrow> s0);
          fs = entry (friend_cache s) role
      in if list_ex (is_friend fid) fs then (False, s)
         else (True, s\<lparr>friend_cache := AList.update role
           (fs @ [\<lparr>friend_id = fid, friend_name = '''', level = 1, profession = 1, status = OFFLINE,
                   relation_type = FRIEND, last_login_time = t1, friend_since = t2\<rparr>])
           (friend_cache s)\<rparr>))"

definition AddFriend :: "time_t \<Rightarrow> time_t \<Rightarrow> u64 \<Rightarrow> u64 \<Rightarrow> (FriendModule, bool) oper" where
  "AddFriend t1 t2 role fid = with_lock
     (bindM (CheckFriendLimit role) (\<lambda>room.
        if \<not> room then retM False
        else on_state (\<lambda>s. Ret (add_friend t1 t2 role fid s))))"

definition RemoveFriend :: "u64 \<Rightarrow> u64 \<Rightarrow> (FriendModule, bool) oper" where
  "RemoveFriend role fid = guarded (\<lambda>s.
     case map_of (friend_cache s) role of
       None \<Rightarrow> Ret (False, s)
     | Some fs \<Rightarrow>
         if list_ex (\<lambda>f. friend_id f = fid) fs
         then Ret (True, s\<lparr>friend_cache :=
                AList.update role (del_first (\<lambda>f. friend_id f = fid) fs) (friend_cache s)\<rparr>)
         else Ret (False, s))"

definition GenerateApplyId :: "time_t \<Rightarrow> int \<Rightarrow> FriendModule \<Rightarrow> u64 \<times> FriendModule" where
  "GenerateApplyId now rnd s =
     (let (i, c) = next_static_id now rnd (next_apply_id s) in (i, s\<lparr>next_apply_id := c\<rparr>))"

definition new_request :: "u64 \<Rightarrow> u64 \<Rightarrow> u64 \<Rightarrow> string \<Rightarrow> time_t \<Rightarrow> FriendApplyInfo" where
  "new_request aid role target msg now =
     \<lparr>apply_id = aid, requester_id = role, target_id = target, message = msg,
      apply_status = PENDING, send_time = now\<rparr>"

definition SendFriendRequest ::
  "time_t \<Rightarrow> int \<Rightarrow> time_t \<Rightarrow> u64 \<Rightarrow> u64 \<Rightarrow> string \<Rightarrow> (FriendModule, bool) oper" where
  "SendFriendRequest gt rnd now role target msg = guarded (\<lambda>s.
     if list_ex (is_friend target) (entry (friend_cache s) role) then Ret (False, s)
     else if list_ex (\<lambda>a. target_id a = target) (entry (sent_apply_cache s) role) then Ret (False, s)
     else
       let (aid, s1) = GenerateApplyId gt rnd s;
           a = new_request aid role target msg now;
           s2 = s1\<lparr>sent_apply_cache := AList.update role
                  (entry (sent_apply_cache s1) role @ [a]) (sent_apply_cache s1)\<rparr>;
           s3 = s2\<lparr>apply_cache := AList.update target
                  (entry (apply_cache s2) target @ [a]) (apply_cache s2)\<rparr>
       in Ret (True, s3))"

definition GetFriendRequests :: "u64 \<Rightarrow> (FriendModule, FriendApplyInfo list option) oper" where
  "GetFriendRequests role = guarded (\<lambda>s.
     Ret (map_option (filter (\<lambda>a. apply_status a = PENDING)) (map_of (apply_cache s) role), s))"

text \<open>
  The end of \<^verbatim>\<open>RespondToFriendRequest\<close>: the request in the role's list gets its new status, and
  so does the copy in the list of the requester.
\<close>

definition set_request :: "u64 \<Rightarrow> u64 \<Rightarrow> u64 \<Rightarrow> FriendApplyStatus \<Rightarrow> FriendModule \<Rightarrow> FriendModule" where
  "set_request role aid requester st s =
     (let upd = upd_first (\<lambda>a. apply_id a = aid) (\<lambda>a. a\<lparr>apply_status := st\<rparr>);
          s1 = s\<lparr>apply_cache := AList.update role (upd (entry (apply_cache s) role)) (apply_cache s)\<rparr>
      in case map_of (sent_apply_cache s1) requester of
           None \<Rightarrow> s1
         | Some sent \<Rightarrow> s1\<lparr>sent_apply_cache := AList.update requester (upd sent) (sent_apply_cache s1)\<rparr>)"

definition RespondToFriendRequest ::
  "time_t \<Rightarrow> time_t \<Rightarrow> u64 \<Rightarrow> u64 \<Rightarrow> bool \<Rightarrow> (FriendModule, bool) oper" where
  "RespondToFriendRequest t1 t2 role aid accept = with_lock (\<lambda>m.
     case map_of (apply_cache (inner m)) role of
       None \<Rightarrow> retM False m
     | Some as \<Rightarrow>
         (case List.find (\<lambda>a. apply_id a = aid) as of
            None \<Rightarrow> retM False m
          | Some a \<Rightarrow>
              if apply_status a \<noteq> PENDING then retM False m
              else if accept
              then bindM (AddFriend t1 t2 role (requester_id a)) (\<lambda>ok.
                if ok then on_state (\<lambda>s. Ret (True, set_request role aid (requester_id a) ACCEPTED s))
                else retM False) m
              else on_state (\<lambda>s. Ret (True, set_request role aid (requester_id a) REJECTED s)) m))"

definition GetRecentPlayers :: "u64 \<Rightarrow> (FriendModule, FriendInfo list option) oper" where
  "GetRecentPlayers role = guarded (\<lambda>s. Ret (map_of (recent_cache s) role, s))"

definition recent_info :: "u64 \<Rightarrow> string \<Rightarrow> i32 \<Rightarrow> i32 \<Rightarrow> time_t \<Rightarrow> FriendInfo" where
  "recent_info pid nm lvl prof now =
     \<lparr>friend_id = pid, friend_name = nm, level = lvl, profession = prof, status = OFFLINE,
      relation_type = NONE, last_login_time = now, friend_since = 0\<rparr>"

definition AddRecentPlayer ::
  "time_t \<Rightarrow> u64 \<Rightarrow> u64 \<Rightarrow> string \<Rightarrow> i32 \<Rightarrow> i32 \<Rightarrow> (FriendModule, bool) oper" where
  "AddRecentPlayer now role pid nm lvl prof = guarded (\<lambda>s.
     let ps = entry (recent_cache s) role in
     if list_ex (\<lambda>p. friend_id p = pid) ps
     then Ret (True, s\<lparr>recent_cache := AList.update role
       (upd_first (\<lambda>p. friend_id p = pid)
         (\<lambda>p. p\<lparr>friend_name := nm, level := lvl, profession := prof, last_login_time := now\<rparr>) ps)
       (recent_cache s)\<rparr>)
     else Ret (True, s\<lparr>recent_cache := AList.update role
       (push_capped MAX_RECENT_COUNT (recent_info pid nm lvl prof now) ps) (recent_cache s)\<rparr>))"

definition DeleteRecentPlayer :: "u64 \<Rightarrow> u64 \<Rightarrow> (FriendModule, bool) oper" where
  "DeleteRecentPlayer role pid = guarded (\<lambda>s.
     case map_of (recent_cache s) role of
       None \<Rightarrow> Ret (False, s)
     | Some ps \<Rightarrow>
         if list_ex (\<lambda>p. friend_id p = pid) ps
         then Ret (True, s\<lparr>recent_cache :=
                AList.update role (del_first (\<lambda>p. friend_id p = pid) ps) (recent_cache s)\<rparr>)
         else Ret (False, s))"

definition UpdateFriendStatus :: "time_t \<Rightarrow> u64 \<Rightarrow> u64 \<Rightarrow> FriendStatus \<Rightarrow> (FriendModule, bool) oper" where
  "UpdateFriendStatus now role fid st = guarded (\<lambda>s.
     case map_of (friend_cache s) role of
       None \<Rightarrow> Ret (False, s)
     | Some fs \<Rightarrow>
         if list_ex (\<lambda>f. friend_id f = fid) fs
         then Ret (True, s\<lparr>friend_cache := AList.update role
           (upd_first (\<lambda>f. friend_id f = fid)
             (\<lambda>f. if st = ONLINE then f\<lparr>status := st, last_login_time := now\<rparr> else f\<lparr>status := st\<rparr>) fs)
           (friend_cache s)\<rparr>)
         else Ret (False, s))"

definition SaveFriendData :: "u64 \<Rightarrow> (FriendModule, bool) oper" where
  "SaveFriendData role = guarded (\<lambda>s. Ret (map_of (friend_cache s) role \<noteq> None, s))"

definition LoadFriendData :: "u64 \<Rightarrow> (FriendModule, bool) oper" where
  "LoadFriendData role = bindM (InitFriends role) (\<lambda>_. retM True)"

section \<open>Invariant\<close>

definition requests_ok :: "u64 \<Rightarrow> FriendApplyInfo list \<Rightarrow> bool" where
  "requests_ok r as \<longleftrightarrow> (\<forall>a\<in>set as. target_id a = r \<and> apply_status a \<noteq> ACCEPTED)"

definition sent_ok :: "u64 \<Rightarrow> FriendApplyInfo list \<Rightarrow> bool" where
  "sent_ok r as \<longleftrightarrow> (\<forall>a\<in>set as. requester_id a = r \<and> apply_status a \<noteq> ACCEPTED) \<and>
     distinct (map target_id as)"

definition recent_ok :: "FriendInfo list \<Rightarrow> bool" where
  "recent_ok ps \<longleftrightarrow> length ps \<le> MAX_RECENT_COUNT \<and> distinct (map friend_id ps)"

definition friend_inv :: "FriendModule \<Rightarrow> bool" where
  "friend_inv s \<longleftrightarrow> keys_ok (friend_cache s) \<and> keys_ok (apply_cache s) \<and>
     keys_ok (sent_apply_cache s) \<and> keys_ok (recent_cache s) \<and>
     all_vals (\<lambda>fs. fs = []) (friend_cache s) \<and> all_entries requests_ok (apply_cache s) \<and>
     all_entries sent_ok (sent_apply_cache s) \<and> all_vals recent_ok (recent_cache s)"

text \<open>The roles a role has sent a request to, and the roles that have a friend list.\<close>

definition asked :: "FriendModule \<Rightarrow> u64 \<Rightarrow> u64 set" where
  "asked s r = target_id ` set (entry (sent_apply_cache s) r)"

definition friend_step :: "(u64 \<times> u64) option \<Rightarrow> FriendModule \<Rightarrow> FriendModule \<Rightarrow> bool" where
  "friend_step new s s' \<longleftrightarrow> (friend_inv s \<longrightarrow> friend_inv s') \<and>
     dom (map_of (friend_cache s)) \<subseteq> dom (map_of (friend_cache s')) \<and>
     (\<forall>r. map_of (friend_cache s) r \<noteq> None \<longrightarrow>
        asked s' r = asked s r \<union> (case new of Some (q, t) \<Rightarrow> if q = r then {t} else {} | None \<Rightarrow> {}))"

lemma friend_inv_init: "friend_inv friend_init"
  by (simp add: friend_inv_def friend_init_def)

lemma friend_step_refl [simp]: "friend_step None s s"
  by (simp add: friend_step_def)

lemma friend_step_same_sent:
  "(friend_inv s \<Longrightarrow> friend_inv s') \<Longrightarrow> sent_apply_cache s' = sent_apply_cache s \<Longrightarrow>
   dom (map_of (friend_cache s)) \<subseteq> dom (map_of (friend_cache s')) \<Longrightarrow> friend_step None s s'"
  by (auto simp: friend_step_def asked_def)

lemma oks_Nil [simp]: "requests_ok r []" "sent_ok r []" "recent_ok []"
  by (simp_all add: requests_ok_def sent_ok_def recent_ok_def)

lemma entry_oks:
  "friend_inv s \<Longrightarrow> requests_ok r (entry (apply_cache s) r)"
  "friend_inv s \<Longrightarrow> sent_ok r (entry (sent_apply_cache s) r)"
  "friend_inv s \<Longrightarrow> recent_ok (entry (recent_cache s) r)"
  "friend_inv s \<Longrightarrow> entry (friend_cache s) r = []"
  by (auto simp: friend_inv_def entry_def dest: all_entriesD all_valsD split: option.split)

lemma friend_query_steps:
  "steps_by (friend_step None) (GetFriends r)" "steps_by (friend_step None) (GetFriendInfo r i)"
  "steps_by (friend_step None) (GetFriendRequests r)" "steps_by (friend_step None) (GetRecentPlayers r)"
  "steps_by (friend_step None) (SaveFriendData r)"
  by (auto simp: GetFriends_def GetFriendInfo_def GetFriendRequests_def GetRecentPlayers_def
      SaveFriendData_def intro!: steps_by_guarded)

lemma InitFriends_steps: "steps_by (friend_step None) (InitFriends r)"
  unfolding InitFriends_def
  by (rule steps_by_guarded)
    (auto simp: friend_step_def friend_inv_def asked_def intro!: all_vals_update all_entries_update
      split: option.splits)

lemma friend_step_friends:
  "map_of (friend_cache s) r = Some fs \<Longrightarrow> (fs = [] \<Longrightarrow> fs' = []) \<Longrightarrow>
   friend_step None s (s\<lparr>friend_cache := AList.update r fs' (friend_cache s)\<rparr>)"
  by (rule friend_step_same_sent)
    (auto simp: friend_inv_def intro!: all_vals_update dest: all_valsD)

lemma friend_cache_steps:
  "steps_by (friend_step None) (RemoveFriend r i)" "steps_by (friend_step None) (UpdateFriendStatus now r i st)"
  by (auto simp: RemoveFriend_def UpdateFriendStatus_def intro!: steps_by_guarded friend_step_friends
      split: option.splits if_splits)

lemma recent_ok_push:
  assumes "recent_ok ps" and "\<not> list_ex (\<lambda>p. friend_id p = pid) ps" and "friend_id x = pid"
  shows "recent_ok (push_capped MAX_RECENT_COUNT x ps)"
proof -
  obtain k where "push_capped MAX_RECENT_COUNT x ps = drop k (ps @ [x])"
    using push_capped_suffix [of MAX_RECENT_COUNT x ps] by (elim exE)
  moreover have "distinct (map friend_id (ps @ [x]))"
    using assms by (auto simp: recent_ok_def list_ex_iff)
  ultimately have "distinct (map friend_id (push_capped MAX_RECENT_COUNT x ps))"
    using drop_map [of k friend_id "ps @ [x]"] distinct_drop [of "map friend_id (ps @ [x])" k] by metis
  with assms(1) show ?thesis by (simp add: recent_ok_def length_push_capped)
qed

lemma recent_ok_changes:
  "recent_ok ps \<Longrightarrow> (\<And>p. friend_id (f p) = friend_id p) \<Longrightarrow> recent_ok (upd_first q f ps)"
  "recent_ok ps \<Longrightarrow> recent_ok (del_first q ps)"
  by (auto simp: recent_ok_def map_upd_first intro: distinct_map_del_first le_trans [OF length_del_first_le])

lemma friend_inv_recent:
  "friend_inv s \<Longrightarrow> recent_ok ps \<Longrightarrow> friend_inv (s\<lparr>recent_cache := AList.update r ps (recent_cache s)\<rparr>)"
  by (simp add: friend_inv_def all_vals_update)

lemma recent_steps:
  "steps_by (friend_step None) (AddRecentPlayer now r p nm l pr)"
  "steps_by (friend_step None) (DeleteRecentPlayer r p)"
proof -
  show "steps_by (friend_step None) (AddRecentPlayer now r p nm l pr)"
    unfolding AddRecentPlayer_def
    by (rule steps_by_guarded)
      (auto simp: Let_def recent_info_def intro!: friend_step_same_sent friend_inv_recent recent_ok_changes
        recent_ok_push [where pid = p] entry_oks split: if_splits)
  show "steps_by (friend_step None) (DeleteRecentPlayer r p)"
    unfolding DeleteRecentPlayer_def
    by (rule steps_by_guarded)
      (auto intro!: friend_step_same_sent friend_inv_recent recent_ok_changes
        simp: friend_inv_def dest: all_valsD split: option.splits if_splits)
qed

lemma GenerateApplyId_state: "GenerateApplyId gt rnd s = (i, s1) \<Longrightarrow> \<exists>n. s1 = s\<lparr>next_apply_id := n\<rparr>"
  by (auto simp: GenerateApplyId_def split: prod.splits)

lemma SendFriendRequest_cases:
  assumes "SendFriendRequest gt rnd now r t msg (idle s) = Ret (ok, m')"
  obtains "\<not> ok" "m' = idle s" "list_ex (is_friend t) (entry (friend_cache s) r) \<or> t \<in> asked s r"
  | i n where "ok" "\<not> list_ex (is_friend t) (entry (friend_cache s) r)" "t \<notin> asked s r"
      "m' = idle (s\<lparr>next_apply_id := n,
         sent_apply_cache := AList.update r (entry (sent_apply_cache s) r @ [new_request i r t msg now]) (sent_apply_cache s),
         apply_cache := AList.update t (entry (apply_cache s) t @ [new_request i r t msg now]) (apply_cache s)\<rparr>)"
proof -
  have as: "list_ex (\<lambda>a. target_id a = t) (entry (sent_apply_cache s) r) \<longleftrightarrow> t \<in> asked s r"
    by (auto simp: asked_def list_ex_iff)
  show thesis
  proof (cases "list_ex (is_friend t) (entry (friend_cache s) r) \<or> t \<in> asked s r")
    case True
    with as have "SendFriendRequest gt rnd now r t msg (idle s) = Ret (False, idle s)"
      by (auto simp: SendFriendRequest_def)
    with assms True that(1) show thesis by auto
  next
    case False
    obtain i s1 where gen: "GenerateApplyId gt rnd s = (i, s1)" by fastforce
    then obtain n where "s1 = s\<lparr>next_apply_id := n\<rparr>" using GenerateApplyId_state by blast
    with assms as False gen show thesis
      by (intro that(2) [of i n]) (auto simp: SendFriendRequest_def Let_def)
  qed
qed

lemma SendFriendRequest_step:
  assumes "SendFriendRequest gt rnd now r t msg (idle s) = Ret (ok, m')"
  shows "\<exists>s'. m' = idle s' \<and> friend_step (if ok then Some (r, t) else None) s s' \<and>
    (ok \<longrightarrow> t \<notin> asked s r)"
  using assms
proof (cases rule: SendFriendRequest_cases)
  case 1
  then show ?thesis by auto
next
  case (2 i n)
  let ?a = "new_request i r t msg now"
  let ?s' = "s\<lparr>next_apply_id := n,
         sent_apply_cache := AList.update r (entry (sent_apply_cache s) r @ [?a]) (sent_apply_cache s),
         apply_cache := AList.update t (entry (apply_cache s) t @ [?a]) (apply_cache s)\<rparr>"
  have "friend_inv ?s'" if inv: "friend_inv s"
  proof -
    have "requests_ok t (entry (apply_cache s) t @ [?a])"
      using entry_oks(1) [OF inv, of t] by (auto simp: requests_ok_def new_request_def)
    moreover have "sent_ok r (entry (sent_apply_cache s) r @ [?a])"
      using entry_oks(2) [OF inv, of r] 2(3) by (auto simp: sent_ok_def new_request_def asked_def)
    ultimately show ?thesis using inv by (simp add: friend_inv_def all_entries_update)
  qed
  moreover have "asked ?s' q = asked s q \<union> (if r = q then {t} else {})" for q
    by (auto simp: asked_def new_request_def)
  ultimately show ?thesis using 2 by (auto simp: friend_step_def)
qed

lemma AddFriend_relocks: "AddFriend t1 t2 r f m = Fault Relock"
  by (simp add: AddFriend_def with_lock_def bindM_def CheckFriendLimit_def)

lemma set_request_step:
  assumes "st \<noteq> ACCEPTED"
  shows "friend_step None s (set_request r i q st s)"
proof -
  let ?upd = "upd_first (\<lambda>a. apply_id a = i) (\<lambda>a. a\<lparr>apply_status := st\<rparr>)"
  have req: "requests_ok k (?upd as)" if "requests_ok k as" for k as
    using that assms by (auto simp: requests_ok_def dest!: upd_first_set_cases)
  have ids: "map target_id (?upd as) = map target_id as" for as
    by (rule map_upd_first) simp
  have sent: "sent_ok k (?upd as)" if "sent_ok k as" for k as
    using that assms by (auto simp: sent_ok_def ids dest!: upd_first_set_cases)
  have sets: "target_id ` set (?upd as) = target_id ` set as" for as
    using arg_cong [OF ids, of set] by simp
  let ?s1 = "s\<lparr>apply_cache := AList.update r (?upd (entry (apply_cache s) r)) (apply_cache s)\<rparr>"
  have one: "friend_inv ?s1" if "friend_inv s"
    using that req [OF entry_oks(1) [OF that]] by (simp add: friend_inv_def all_entries_update)
  show ?thesis
  proof (cases "map_of (sent_apply_cache s) q")
    case None
    with one show ?thesis by (auto simp: set_request_def Let_def intro!: friend_step_same_sent)
  next
    case (Some as)
    have "friend_inv (?s1\<lparr>sent_apply_cache := AList.update q (?upd as) (sent_apply_cache ?s1)\<rparr>)"
      if "friend_inv s"
      using one [OF that] sent entry_oks(2) [OF that, of q] Some
      by (simp add: friend_inv_def all_entries_update)
    moreover have "asked (?s1\<lparr>sent_apply_cache := AList.update q (?upd as) (sent_apply_cache ?s1)\<rparr>) k = asked s k" for k
      using Some by (simp add: asked_def sets)
    ultimately show ?thesis using Some by (simp add: set_request_def Let_def friend_step_def)
  qed
qed

text \<open>Answering a request: accepting relocks the mutex, rejecting marks both copies.\<close>

lemma Respond_cases:
  "RespondToFriendRequest t1 t2 r i accept (idle s) =
    (case List.find (\<lambda>a. apply_id a = i) (entry (apply_cache s) r) of
       None \<Rightarrow> Ret (False, idle s)
     | Some a \<Rightarrow> if apply_status a \<noteq> PENDING then Ret (False, idle s)
         else if accept then Fault Relock
         else Ret (True, idle (set_request r i (requester_id a) REJECTED s)))"
  unfolding RespondToFriendRequest_def with_lock_idle
  by (auto simp: retM_def bindM_def on_state_def AddFriend_relocks idle_def entry_def split: option.split)

lemma Respond_steps: "steps_by (friend_step None) (RespondToFriendRequest t1 t2 r i accept)"
  by (auto simp: steps_by_def Respond_cases intro: set_request_step split: option.splits if_splits)

section \<open>The friend module as a machine\<close>

datatype friend_cmd =
    CInitFriends u64
  | CGetFriends u64
  | CGetFriendInfo u64 u64
  | CAddFriend time_t time_t u64 u64
  | CSendFriendRequest time_t int time_t u64 u64 string
  | CRespondToFriendRequest time_t time_t u64 u64 bool
  | CRemoveFriend u64 u64
  | CGetFriendRequests u64
  | CGetRecentPlayers u64
  | CAddRecentPlayer time_t u64 u64 string i32 i32
  | CDeleteRecentPlayer u64 u64
  | CUpdateFriendStatus time_t u64 u64 FriendStatus
  | CSaveFriendData u64
  | CLoadFriendData u64

fun friend_exec :: "friend_cmd \<Rightarrow> (FriendModule, bool) oper" where
  "friend_exec (CInitFriends r) = InitFriends r"
| "friend_exec (CGetFriends r) = succeeded (GetFriends r)"
| "friend_exec (CGetFriendInfo r i) = succeeded (GetFriendInfo r i)"
| "friend_exec (CAddFriend t1 t2 r i) = AddFriend t1 t2 r i"
| "friend_exec (CSendFriendRequest gt rnd now r t msg) = SendFriendRequest gt rnd now r t msg"
| "friend_exec (CRespondToFriendRequest t1 t2 r i a) = RespondToFriendRequest t1 t2 r i a"
| "friend_exec (CRemoveFriend r i) = RemoveFriend r i"
| "friend_exec (CGetFriendRequests r) = succeeded (GetFriendRequests r)"
| "friend_exec (CGetRecentPlayers r) = succeeded (GetRecentPlayers r)"
| "friend_exec (CAddRecentPlayer now r p nm l pr) = AddRecentPlayer now r p nm l pr"
| "friend_exec (CDeleteRecentPlayer r p) = DeleteRecentPlayer r p"
| "friend_exec (CUpdateFriendStatus now r i st) = UpdateFriendStatus now r i st"
| "friend_exec (CSaveFriendData r) = SaveFriendData r"
| "friend_exec (CLoadFriendData r) = LoadFriendData r"

text \<open>The pair a command asks to become friends, when it answers \<^verbatim>\<open>true\<close>.\<close>

fun asks :: "friend_cmd \<Rightarrow> bool \<Rightarrow> (u64 \<times> u64) option" where
  "asks (CSendFriendRequest gt rnd now r t msg) ok = (if ok then Some (r, t) else None)"
| "asks _ ok = None"

lemma friend_other_steps:
  "\<forall>gt rnd now r t msg. c \<noteq> CSendFriendRequest gt rnd now r t msg \<Longrightarrow> steps_by (friend_step None) (friend_exec c)"
  by (cases c)
    (auto simp: LoadFriendData_def AddFriend_relocks steps_by_def [of _ "AddFriend _ _ _ _"]
      intro!: stepping friend_query_steps friend_cache_steps InitFriends_steps recent_steps Respond_steps)

lemma friend_exec_step:
  assumes "friend_exec c (idle s) = Ret (ok, m')"
  shows "\<exists>s'. m' = idle s' \<and> friend_step (asks c ok) s s' \<and> (\<forall>r t. asks c ok = Some (r, t) \<longrightarrow> t \<notin> asked s r)"
proof (cases "\<forall>gt rnd now r t msg. c \<noteq> CSendFriendRequest gt rnd now r t msg")
  case True
  then have "asks c ok = None" by (cases c) auto
  with steps_by_run [OF assms friend_other_steps [OF True]] show ?thesis by auto
next
  case False
  then obtain gt rnd now r t msg where c: "c = CSendFriendRequest gt rnd now r t msg" by blast
  with assms SendFriendRequest_step [of gt rnd now r t msg s ok m'] show ?thesis by auto
qed

interpretation friends: machine friend_exec friend_inv
proof unfold_locales
  show "\<exists>s'. m' = idle s'" if "friend_exec c (idle s) = Ret (r, m')" for c s r m'
    using friend_exec_step [OF that] by blast
  show "friend_inv s'" if "friend_exec c (idle s) = Ret (r, idle s')" "friend_inv s" for c s r s'
    using friend_exec_step [OF that(1)] that(2) by (auto simp: friend_step_def)
qed

interpretation apply_ids: id_source GenerateApplyId next_apply_id
  by unfold_locales (auto simp: GenerateApplyId_def next_static_id_def Let_def)

section \<open>Properties\<close>

text \<open>
  No friendship is ever made. \<^verbatim>\<open>AddFriend\<close> keeps the mutex while its check of the limit locks
  it again, whatever the state and the arguments, and so does accepting a pending request; in every
  run from the empty module that returns, every friend list that exists is empty.
\<close>

theorem no_friend_is_made:
  "AddFriend t1 t2 r f m = Fault Relock \<and>
   (\<forall>a. List.find (\<lambda>a. apply_id a = i) (entry (apply_cache s) r) = Some a \<and> apply_status a = PENDING \<longrightarrow>
      RespondToFriendRequest t1 t2 r i True (idle s) = Fault Relock) \<and>
   (\<forall>cs rs s'. run_cmds friend_exec cs (idle friend_init) = Ret (rs, idle s') \<longrightarrow>
      (\<forall>q. GetFriends q (idle s') = Ret (map_option (\<lambda>_. []) (map_of (friend_cache s') q), idle s')))"
proof (intro conjI allI impI)
  show "AddFriend t1 t2 r f m = Fault Relock" by (rule AddFriend_relocks)
  show "RespondToFriendRequest t1 t2 r i True (idle s) = Fault Relock"
    if "List.find (\<lambda>a. apply_id a = i) (entry (apply_cache s) r) = Some a \<and> apply_status a = PENDING" for a
    using that by (simp add: Respond_cases)
  fix cs rs s' q
  assume "run_cmds friend_exec cs (idle friend_init) = Ret (rs, idle s')"
  then have "friend_inv s'" using friends.run_inv [OF _ friend_inv_init] by fastforce
  then show "GetFriends q (idle s') = Ret (map_option (\<lambda>_. []) (map_of (friend_cache s') q), idle s')"
    by (cases "map_of (friend_cache s') q") (auto simp: GetFriends_def friend_inv_def dest: all_valsD)
qed

theorem no_friend_is_made_witness:
  "AddFriend 1 1 8 7 (idle friend_init) = Fault Relock \<and>
   (\<exists>rs s'. run_cmds friend_exec [CSendFriendRequest 5 3 9 7 8 ''hi''] (idle friend_init) = Ret (rs, idle s') \<and>
     RespondToFriendRequest 1 1 8 50003 True (idle s') = Fault Relock)"
proof -
  let ?cs = "[CSendFriendRequest 5 3 9 7 8 ''hi'']"
  have "\<exists>rs m'. run_cmds friend_exec ?cs (idle friend_init) = Ret (rs, m') \<and>
      (\<exists>a. List.find (\<lambda>a. apply_id a = 50003) (entry (apply_cache (inner m')) 8) = Some a \<and> apply_status a = PENDING)"
    by (intro exI conjI, code_simp, code_simp, code_simp)
  then obtain rs m' a where r: "run_cmds friend_exec ?cs (idle friend_init) = Ret (rs, m')"
    and a: "List.find (\<lambda>a. apply_id a = 50003) (entry (apply_cache (inner m')) 8) = Some a" "apply_status a = PENDING"
    by blast
  from friends.run_inv [OF r friend_inv_init] obtain s' where m': "m' = idle s'" by blast
  have "RespondToFriendRequest 1 1 8 50003 True (idle s') = Fault Relock"
    using no_friend_is_made [of 1 1 8 7 "idle friend_init" 50003 s'] a m' by simp
  moreover have "AddFriend 1 1 8 7 (idle friend_init) = Fault Relock"
    using no_friend_is_made [of 1 1 8 7 "idle friend_init" 50003 s'] by simp
  ultimately show ?thesis using r m' by blast
qed

text \<open>The requests of one role to another that were accepted for delivery in a run.\<close>

fun deliveries :: "u64 \<Rightarrow> u64 \<Rightarrow> friend_cmd list \<Rightarrow> bool list \<Rightarrow> nat" where
  "deliveries r t (c # cs) (ok # oks) = (if asks c ok = Some (r, t) then 1 else 0) + deliveries r t cs oks"
| "deliveries r t _ _ = 0"

text \<open>
  A role asks another at most once, for ever. Once a role has a friend list, at most one of its
  requests to a given role is delivered in any run, and none when it has asked before: neither a
  rejection nor anything else makes the module accept a second request.
\<close>

theorem asked_once:
  assumes "run_cmds friend_exec cs (idle s) = Ret (oks, idle s')" and "map_of (friend_cache s) r \<noteq> None"
  shows "deliveries r t cs oks \<le> (if t \<in> asked s r then 0 else 1)"
  using assms
proof (induction cs arbitrary: s oks)
  case Nil
  then show ?case by simp
next
  case (Cons c cs)
  from Cons.prems(1) obtain ok oks1 m1 where oks: "oks = ok # oks1"
    and c: "friend_exec c (idle s) = Ret (ok, m1)" and cs: "run_cmds friend_exec cs m1 = Ret (oks1, idle s')"
    by (auto split: prod.splits)
  from friend_exec_step [OF c] obtain s1 where m1: "m1 = idle s1" and st: "friend_step (asks c ok) s s1"
    and new: "\<forall>r t. asks c ok = Some (r, t) \<longrightarrow> t \<notin> asked s r" by blast
  from st Cons.prems(2) have "map_of (friend_cache s1) r \<noteq> None" by (auto simp: friend_step_def)
  from Cons.IH [OF cs [unfolded m1] this] have "deliveries r t cs oks1 \<le> (if t \<in> asked s1 r then 0 else 1)" .
  moreover from st Cons.prems(2) have "asked s1 r = asked s r \<union>
      (case asks c ok of Some (q, t) \<Rightarrow> if q = r then {t} else {} | None \<Rightarrow> {})"
    unfolding friend_step_def by blast
  ultimately show ?case using new by (auto simp: oks split: if_splits)
qed

theorem asked_once_witness:
  "\<exists>oks s'. run_cmds friend_exec [CSendFriendRequest 5 3 9 7 8 ''hi'', CRespondToFriendRequest 1 1 8 50003 False,
        CSendFriendRequest 5 3 9 7 8 ''please''] (idle (friend_init\<lparr>friend_cache := [(7, [])]\<rparr>)) = Ret (oks, idle s') \<and>
     deliveries 7 8 [CSendFriendRequest 5 3 9 7 8 ''hi'', CRespondToFriendRequest 1 1 8 50003 False,
        CSendFriendRequest 5 3 9 7 8 ''please''] oks \<le> 1"
proof -
  let ?s = "friend_init\<lparr>friend_cache := [(7, [])]\<rparr>"
  let ?cs = "[CSendFriendRequest 5 3 9 7 8 ''hi'', CRespondToFriendRequest 1 1 8 50003 False,
        CSendFriendRequest 5 3 9 7 8 ''please'']"
  have "\<exists>m'. run_cmds friend_exec ?cs (idle ?s) = Ret ([True, True, False], m')"
    by (rule exI, code_simp)
  moreover have "friend_inv ?s" by (simp add: friend_inv_def friend_init_def keys_ok_def all_vals_def)
  ultimately obtain s' where r: "run_cmds friend_exec ?cs (idle ?s) = Ret ([True, True, False], idle s')"
    using friends.run_inv by blast
  have "deliveries 7 8 ?cs [True, True, False] \<le> 1"
    using asked_once [OF r, of 7 8] by (simp add: friend_init_def)
  with r show ?thesis by blast
qed

text \<open>
  The lists stay in order. In every run from the empty module that returns, the recent contacts
  of a role are at most twenty and distinct, every request in a role's inbox is addressed to it, the
  requests it has sent are its own and go to distinct roles, and none of them is accepted.
\<close>

theorem friend_lists_in_order:
  assumes "run_cmds friend_exec cs (idle friend_init) = Ret (rs, m')"
  shows "\<exists>s'. m' = idle s' \<and> friend_inv s' \<and> (\<forall>r ps. GetRecentPlayers r (idle s') = Ret (Some ps, idle s') \<longrightarrow>
    length ps \<le> 20 \<and> distinct (map friend_id ps))"
proof -
  from friends.run_inv [OF assms friend_inv_init] obtain s' where s': "m' = idle s'" "friend_inv s'" by blast
  have "length ps \<le> 20 \<and> distinct (map friend_id ps)" if "GetRecentPlayers r (idle s') = Ret (Some ps, idle s')" for r ps
  proof -
    from that have "map_of (recent_cache s') r = Some ps" by (simp add: GetRecentPlayers_def)
    with s'(2) have "recent_ok ps" by (auto simp: friend_inv_def dest: all_valsD)
    then show ?thesis by (simp add: recent_ok_def MAX_RECENT_COUNT_def)
  qed
  with s' show ?thesis by blast
qed

theorem friend_lists_in_order_witness:
  "\<exists>rs s'. run_cmds friend_exec [CInitFriends 7, CAddRecentPlayer 5 7 8 ''a'' 1 1, CAddRecentPlayer 6 7 8 ''b'' 2 1,
     CDeleteRecentPlayer 7 9] (idle friend_init) = Ret (rs, idle s') \<and> friend_inv s'"
proof -
  let ?cs = "[CInitFriends 7, CAddRecentPlayer 5 7 8 ''a'' 1 1, CAddRecentPlayer 6 7 8 ''b'' 2 1, CDeleteRecentPlayer 7 9]"
  have "\<exists>rs m'. run_cmds friend_exec ?cs (idle friend_init) = Ret (rs, m')"
    by (intro exI, code_simp)
  then obtain rs m' where "run_cmds friend_exec ?cs (idle friend_init) = Ret (rs, m')" by blast
  with friend_lists_in_order [OF this] show ?thesis by blast
qed

text \<open>
  The first login loses the requests. A role without a friend list that was asked has pending
  requests; initialising its data empties its inbox, and the roles that asked can never ask again.
\<close>

theorem InitFriends_drops_requests:
  assumes "map_of (friend_cache s) t = None" and "t \<in> asked s r" and "r \<noteq> t"
  shows "\<exists>s'. InitFriends t (idle s) = Ret (True, idle s') \<and>
    GetFriendRequests t (idle s') = Ret (Some [], idle s') \<and>
    SendFriendRequest gt rnd now r t msg (idle s') = Ret (False, idle s')"
proof -
  let ?s' = "s\<lparr>friend_cache := AList.update t [] (friend_cache s),
     apply_cache := AList.update t [] (apply_cache s),
     sent_apply_cache := AList.update t [] (sent_apply_cache s),
     recent_cache := AList.update t [] (recent_cache s)\<rparr>"
  have "InitFriends t (idle s) = Ret (True, idle ?s')" using assms(1) by (simp add: InitFriends_def)
  moreover have "GetFriendRequests t (idle ?s') = Ret (Some [], idle ?s')" by (simp add: GetFriendRequests_def)
  moreover have "t \<in> asked ?s' r" using assms(2,3) by (simp add: asked_def)
  then have "SendFriendRequest gt rnd now r t msg (idle ?s') = Ret (False, idle ?s')"
    by (auto simp: SendFriendRequest_def asked_def list_ex_iff)
  ultimately show ?thesis by blast
qed

theorem InitFriends_drops_requests_witness:
  "\<exists>s'. InitFriends 8 (idle (friend_init\<lparr>sent_apply_cache := [(7, [new_request 1 7 8 ''hi'' 5])],
       apply_cache := [(8, [new_request 1 7 8 ''hi'' 5])]\<rparr>)) = Ret (True, idle s') \<and>
     SendFriendRequest 5 3 9 7 8 ''hi'' (idle s') = Ret (False, idle s')"
  using InitFriends_drops_requests [of "friend_init\<lparr>sent_apply_cache := [(7, [new_request 1 7 8 ''hi'' 5])],
       apply_cache := [(8, [new_request 1 7 8 ''hi'' 5])]\<rparr>" 8 7 5 3 9 "''hi''"]
  by (auto simp: friend_init_def asked_def new_request_def)

end
