(* ===== verification/Guild.thy ===== *)
theory Guild
  imports Machine
begin

text \<open>
  \<open>game_server/logic_server/guild_module.cc\<close>: guilds, their members and the map from a role to its
  guild.
\<close>

section \<open>Data\<close>

datatype GuildPosition = LEADER | VICE_LEADER | ELDER | MEMBER

primrec position_code :: "GuildPosition \<Rightarrow> i32" where
  "position_code LEADER = 1"
| "position_code VICE_LEADER = 2"
| "position_code ELDER = 3"
| "position_code MEMBER = 4"

definition MAX_GUILD_LEVEL :: i32 where "MAX_GUILD_LEVEL = 10"

definition MAX_GUILD_NAME_LENGTH :: nat where "MAX_GUILD_NAME_LENGTH = 32"

text \<open>
  The messages \<^verbatim>\<open>msg_guild::GuildInfo\<close> and \<^verbatim>\<open>msg_guild::GuildMemberInfo\<close> the caches hold (their
  fields are those of \<open>proto/msg_guild.proto\<close>; a field that is not set is zero, false or empty), and
  the structures the queries return.
\<close>

record GuildMsg =
  g_guild_id :: u64
  g_guild_name :: string
  g_leader_id :: u64
  g_leader_name :: string
  g_level :: i32
  g_exp :: i32
  g_member_count :: i32
  g_max_member_count :: i32
  g_fund :: i32
  g_announcement :: string
  g_description :: string
  g_need_approval :: bool
  g_create_time :: time_t

record MemberMsg =
  m_role_id :: u64
  m_role_name :: string
  m_level :: i32
  m_profession :: i32
  m_position :: i32
  m_contribution :: i32
  m_total_contribution :: i32
  m_join_time :: time_t
  m_last_active_time :: time_t
  m_is_online :: bool

record GuildInfo =
  guild_id :: u64
  guild_name :: string
  leader_id :: u64
  leader_name :: string
  level :: i32
  exp :: i32
  member_count :: i32
  max_member_count :: i32
  fund :: i32
  announcement :: string
  description :: string
  create_time :: time_t

record GuildMemberInfo =
  role_id :: u64
  role_name :: string
  member_level :: i32
  profession :: i32
  position :: i32
  contribution :: i32
  total_contribution :: i32
  join_time :: time_t
  last_login_time :: time_t

record GuildModule =
  guild_cache :: "(u64 \<times> GuildMsg) list"
  member_cache :: "(u64 \<times> (u64 \<times> MemberMsg) list) list"
  role_guild_map :: "(u64 \<times> u64) list"
  guild_id_counter :: u64

section \<open>Operations\<close>

text \<open>\<^verbatim>\<open>LoadGuildData\<close> puts a made-up guild under the identifier, whatever was there.\<close>

definition test_guild :: "u64 \<Rightarrow> time_t \<Rightarrow> GuildMsg" where
  "test_guild gid now =
     \<lparr>g_guild_id = gid, g_guild_name = ''Test Guild'', g_leader_id = 0, g_leader_name = ''Test Leader'',
      g_level = 1, g_exp = 0, g_member_count = 0, g_max_member_count = 50, g_fund = 0,
      g_announcement = '''', g_description = '''', g_need_approval = False, g_create_time = now\<rparr>"

definition LoadGuildData :: "time_t \<Rightarrow> u64 \<Rightarrow> (GuildModule, bool) oper" where
  "LoadGuildData now gid = guarded (\<lambda>s.
     Ret (True, s\<lparr>guild_cache := AList.update gid (test_guild gid now) (guild_cache s)\<rparr>))"

text \<open>The constructor loads the guild with the default identifier 0.\<close>

definition guild_init :: "time_t \<Rightarrow> GuildModule" where
  "guild_init now = \<lparr>guild_cache = [(0, test_guild 0 now)], member_cache = [], role_guild_map = [],
     guild_id_counter = 1000\<rparr>"

definition IsInGuild :: "u64 \<Rightarrow> (GuildModule, bool) oper" where
  "IsInGuild r = guarded (\<lambda>s. Ret (map_of (role_guild_map s) r \<noteq> None, s))"

definition IsGuildNameExist :: "string \<Rightarrow> (GuildModule, bool) oper" where
  "IsGuildNameExist nm = guarded (\<lambda>s. Ret (list_ex (\<lambda>(k, g). g_guild_name g = nm) (guild_cache s), s))"

definition GenerateGuildId :: "GuildModule \<Rightarrow> u64 \<times> GuildModule" where
  "GenerateGuildId s = (guild_id_counter s + 1, s\<lparr>guild_id_counter := guild_id_counter s + 1\<rparr>)"

definition new_member :: "u64 \<Rightarrow> GuildPosition \<Rightarrow> time_t \<Rightarrow> time_t \<Rightarrow> MemberMsg" where
  "new_member r pos t1 t2 =
     \<lparr>m_role_id = r, m_role_name = '''', m_level = 0, m_profession = 0, m_position = position_code pos,
      m_contribution = 0, m_total_contribution = 0, m_join_time = t1, m_last_active_time = t2,
      m_is_online = True\<rparr>"

definition new_guild :: "u64 \<Rightarrow> string \<Rightarrow> u64 \<Rightarrow> time_t \<Rightarrow> GuildMsg" where
  "new_guild gid nm r now =
     \<lparr>g_guild_id = gid, g_guild_name = nm, g_leader_id = r, g_leader_name = '''', g_level = 1, g_exp = 0,
      g_member_count = 1, g_max_member_count = 50, g_fund = 0, g_announcement = '''',
      g_description = '''', g_need_approval = True, g_create_time = now\<rparr>"

definition put_member :: "u64 \<Rightarrow> u64 \<Rightarrow> MemberMsg \<Rightarrow> GuildModule \<Rightarrow> GuildModule" where
  "put_member gid r m s = s\<lparr>member_cache :=
     AList.update gid (AList.update r m (entry (member_cache s) gid)) (member_cache s)\<rparr>"

text \<open>What \<^verbatim>\<open>CreateGuild\<close> does after its two checks, and \<^verbatim>\<open>JoinGuild\<close> after its one.\<close>

definition found_guild :: "time_t \<Rightarrow> time_t \<Rightarrow> time_t \<Rightarrow> u64 \<Rightarrow> string \<Rightarrow> GuildModule \<Rightarrow>
    (u64 option \<times> GuildModule) outcome" where
  "found_guild t1 t2 t3 r nm s =
     (if MAX_GUILD_NAME_LENGTH < length nm then Ret (None, s)
      else
        let (gid, s1) = GenerateGuildId s;
            s2 = s1\<lparr>guild_cache := AList.update gid (new_guild gid nm r t1) (guild_cache s1),
                    role_guild_map := AList.update r gid (role_guild_map s1)\<rparr>
        in Ret (Some gid, put_member gid r (new_member r LEADER t2 t3) s2))"

definition CreateGuild :: "time_t \<Rightarrow> time_t \<Rightarrow> time_t \<Rightarrow> u64 \<Rightarrow> string \<Rightarrow> (GuildModule, u64 option) oper" where
  "CreateGuild t1 t2 t3 r nm = with_lock
     (bindM (IsInGuild r) (\<lambda>member. if member then retM None else
      bindM (IsGuildNameExist nm) (\<lambda>taken. if taken then retM None else
      on_state (found_guild t1 t2 t3 r nm))))"

definition admit_member :: "time_t \<Rightarrow> time_t \<Rightarrow> u64 \<Rightarrow> u64 \<Rightarrow> GuildModule \<Rightarrow> (bool \<times> GuildModule) outcome" where
  "admit_member t1 t2 r gid s =
     (case map_of (guild_cache s) gid of
        None \<Rightarrow> Ret (False, s)
      | Some g \<Rightarrow>
          if g_max_member_count g \<le> g_member_count g then Ret (False, s)
          else bindO (add32 (g_member_count g) 1) (\<lambda>n.
            let s1 = put_member gid r (new_member r MEMBER t1 t2) s in
            Ret (True, s1\<lparr>role_guild_map := AList.update r gid (role_guild_map s1),
              guild_cache := AList.update gid (g\<lparr>g_member_count := n\<rparr>) (guild_cache s1)\<rparr>)))"

definition JoinGuild :: "time_t \<Rightarrow> time_t \<Rightarrow> u64 \<Rightarrow> u64 \<Rightarrow> (GuildModule, bool) oper" where
  "JoinGuild t1 t2 r gid = with_lock
     (bindM (IsInGuild r) (\<lambda>member. if member then retM False else on_state (admit_member t1 t2 r gid)))"

text \<open>The lookup the other operations begin with: the role's guild, if both maps have it.\<close>

definition guild_of :: "u64 \<Rightarrow> GuildModule \<Rightarrow> (u64 \<times> GuildMsg) option" where
  "guild_of r s =
     (case map_of (role_guild_map s) r of
        None \<Rightarrow> None
      | Some gid \<Rightarrow> (case map_of (guild_cache s) gid of None \<Rightarrow> None | Some g \<Rightarrow> Some (gid, g)))"

text \<open>\<^verbatim>\<open>member_cache_[guild_id]\<close> inserts an empty map for a guild that has none.\<close>

definition touch_members :: "u64 \<Rightarrow> GuildModule \<Rightarrow> GuildModule" where
  "touch_members gid s =
     (case map_of (member_cache s) gid of
        None \<Rightarrow> s\<lparr>member_cache := AList.update gid [] (member_cache s)\<rparr> | Some _ \<Rightarrow> s)"

definition drop_member :: "u64 \<Rightarrow> u64 \<Rightarrow> GuildModule \<Rightarrow> GuildModule" where
  "drop_member gid r s =
     s\<lparr>member_cache := AList.update gid (AList.delete r (entry (member_cache s) gid)) (member_cache s),
       role_guild_map := AList.delete r (role_guild_map s)\<rparr>"

definition LeaveGuild :: "u64 \<Rightarrow> (GuildModule, bool) oper" where
  "LeaveGuild r = guarded (\<lambda>s.
     case guild_of r s of
       None \<Rightarrow> Ret (False, s)
     | Some (gid, g) \<Rightarrow>
         if g_leader_id g = r then Ret (False, s)
         else bindO (sub32 (g_member_count g) 1) (\<lambda>n.
           Ret (True, (drop_member gid r s)\<lparr>guild_cache :=
             AList.update gid (g\<lparr>g_member_count := n\<rparr>) (guild_cache s)\<rparr>)))"

definition KickMember :: "u64 \<Rightarrow> u64 \<Rightarrow> (GuildModule, bool) oper" where
  "KickMember leader target = guarded (\<lambda>s.
     case guild_of leader s of
       None \<Rightarrow> Ret (False, s)
     | Some (gid, g) \<Rightarrow>
         if g_leader_id g \<noteq> leader then Ret (False, s)
         else if g_leader_id g = target then Ret (False, s)
         else
           let s1 = touch_members gid s in
           if map_of (entry (member_cache s1) gid) target = None then Ret (False, s1)
           else bindO (sub32 (g_member_count g) 1) (\<lambda>n.
             Ret (True, (drop_member gid target s1)\<lparr>guild_cache :=
               AList.update gid (g\<lparr>g_member_count := n\<rparr>) (guild_cache s1)\<rparr>)))"

definition DissolveGuild :: "u64 \<Rightarrow> (GuildModule, bool) oper" where
  "DissolveGuild leader = guarded (\<lambda>s.
     case guild_of leader s of
       None \<Rightarrow> Ret (False, s)
     | Some (gid, g) \<Rightarrow>
         if g_leader_id g \<noteq> leader then Ret (False, s)
         else Ret (True, s\<lparr>
           role_guild_map := fold (\<lambda>(r, _). AList.delete r) (in_key_order (entry (member_cache s) gid))
             (role_guild_map s),
           member_cache := AList.delete gid (member_cache s),
           guild_cache := AList.delete gid (guild_cache s)\<rparr>))"

definition guild_info :: "GuildMsg \<Rightarrow> GuildInfo" where
  "guild_info g =
     \<lparr>guild_id = g_guild_id g, guild_name = g_guild_name g, leader_id = g_leader_id g,
      leader_name = g_leader_name g, level = g_level g, exp = g_exp g,
      member_count = g_member_count g, max_member_count = g_max_member_count g, fund = g_fund g,
      announcement = g_announcement g, description = g_description g, create_time = g_create_time g\<rparr>"

definition GetGuildInfo :: "u64 \<Rightarrow> (GuildModule, GuildInfo option) oper" where
  "GetGuildInfo gid = guarded (\<lambda>s. Ret (map_option guild_info (map_of (guild_cache s) gid), s))"

definition member_info :: "MemberMsg \<Rightarrow> GuildMemberInfo" where
  "member_info m =
     \<lparr>role_id = m_role_id m, role_name = m_role_name m, member_level = m_level m,
      profession = m_profession m, position = m_position m, contribution = m_contribution m,
      total_contribution = m_total_contribution m, join_time = m_join_time m,
      last_login_time = m_last_active_time m\<rparr>"

definition GetGuildMembers :: "u64 \<Rightarrow> (GuildModule, GuildMemberInfo list option) oper" where
  "GetGuildMembers gid = guarded (\<lambda>s.
     Ret (map_option (\<lambda>ms. map (\<lambda>(_, m). member_info m) (in_key_order ms)) (map_of (member_cache s) gid), s))"

definition GetGuildMemberInfo :: "u64 \<Rightarrow> (GuildModule, GuildMemberInfo option) oper" where
  "GetGuildMemberInfo r = guarded (\<lambda>s.
     case map_of (role_guild_map s) r of
       None \<Rightarrow> Ret (None, s)
     | Some gid \<Rightarrow>
         let s1 = touch_members gid s in
         Ret (map_option member_info (map_of (entry (member_cache s1) gid) r), s1))"

definition Contribute :: "u64 \<Rightarrow> i32 \<Rightarrow> i32 \<Rightarrow> (GuildModule, bool) oper" where
  "Contribute r kind amount = guarded (\<lambda>s.
     case guild_of r s of
       None \<Rightarrow> Ret (False, s)
     | Some (gid, g) \<Rightarrow>
         bindO (add32 (g_fund g) amount) (\<lambda>f.
         let s1 = touch_members gid
                    (s\<lparr>guild_cache := AList.update gid (g\<lparr>g_fund := f\<rparr>) (guild_cache s)\<rparr>) in
         case map_of (entry (member_cache s1) gid) r of
           None \<Rightarrow> Ret (True, s1)
         | Some m \<Rightarrow>
             bindO (add32 (m_contribution m) amount) (\<lambda>c.
             bindO (add32 (m_total_contribution m) amount) (\<lambda>t.
               Ret (True, put_member gid r (m\<lparr>m_contribution := c, m_total_contribution := t\<rparr>) s1)))))"

definition UpgradeGuild :: "u64 \<Rightarrow> (GuildModule, bool) oper" where
  "UpgradeGuild leader = guarded (\<lambda>s.
     case guild_of leader s of
       None \<Rightarrow> Ret (False, s)
     | Some (gid, g) \<Rightarrow>
         if g_leader_id g \<noteq> leader then Ret (False, s)
         else if MAX_GUILD_LEVEL \<le> g_level g then Ret (False, s)
         else bindO (add32 (g_level g) 1) (\<lambda>l.
           Ret (True, s\<lparr>guild_cache := AList.update gid (g\<lparr>g_level := l\<rparr>) (guild_cache s)\<rparr>)))"

definition UpdateAnnouncement :: "u64 \<Rightarrow> string \<Rightarrow> (GuildModule, bool) oper" where
  "UpdateAnnouncement leader ann = guarded (\<lambda>s.
     case guild_of leader s of
       None \<Rightarrow> Ret (False, s)
     | Some (gid, g) \<Rightarrow>
         if g_leader_id g \<noteq> leader then Ret (False, s)
         else Ret (True, s\<lparr>guild_cache :=
           AList.update gid (g\<lparr>g_announcement := ann\<rparr>) (guild_cache s)\<rparr>))"

definition SaveGuildData :: "u64 \<Rightarrow> (GuildModule, bool) oper" where
  "SaveGuildData gid = guarded (\<lambda>s. Ret (map_of (guild_cache s) gid \<noteq> None, s))"

section \<open>Consistent states\<close>

text \<open>
  What the module should keep: a role is filed under a guild exactly when it is in that guild's
  member map, the count of a guild is the number of its members, its leader (unless it has none) is
  a member, and its level stays between 1 and 10.
\<close>

abbreviation members :: "GuildModule \<Rightarrow> u64 \<Rightarrow> (u64 \<times> MemberMsg) list" where
  "members s gid \<equiv> entry (member_cache s) gid"

definition guild_fine :: "GuildModule \<Rightarrow> u64 \<Rightarrow> GuildMsg \<Rightarrow> bool" where
  "guild_fine s gid g \<longleftrightarrow> g_member_count g = int (length (members s gid)) \<and>
     g_member_count g \<le> 50 \<and> g_max_member_count g = 50 \<and>
     (g_leader_id g = 0 \<or> map_of (members s gid) (g_leader_id g) \<noteq> None) \<and>
     1 \<le> g_level g \<and> g_level g \<le> 10"

definition guild_ok :: "GuildModule \<Rightarrow> bool" where
  "guild_ok s \<longleftrightarrow> keys_ok (guild_cache s) \<and> keys_ok (member_cache s) \<and> keys_ok (role_guild_map s) \<and>
     (\<forall>gid. keys_ok (members s gid)) \<and>
     (\<forall>r gid. map_of (role_guild_map s) r = Some gid \<longleftrightarrow> map_of (members s gid) r \<noteq> None) \<and>
     (\<forall>gid. case map_of (guild_cache s) gid of
        None \<Rightarrow> members s gid = [] | Some g \<Rightarrow> guild_fine s gid g)"

lemma guild_okD:
  assumes "guild_ok s"
  shows "keys_ok (guild_cache s)" "keys_ok (member_cache s)" "keys_ok (role_guild_map s)"
    "keys_ok (members s gid)"
    "map_of (role_guild_map s) r = Some gid \<longleftrightarrow> map_of (members s gid) r \<noteq> None"
    "map_of (guild_cache s) gid = Some g \<Longrightarrow> guild_fine s gid g"
    "map_of (guild_cache s) gid = None \<Longrightarrow> members s gid = []"
  using assms by (auto simp: guild_ok_def dest: spec [of _ gid])

lemma guild_okI:
  assumes "keys_ok (guild_cache s)" "keys_ok (member_cache s)" "keys_ok (role_guild_map s)"
    "\<And>gid. keys_ok (members s gid)"
    "\<And>r gid. map_of (role_guild_map s) r = Some gid \<longleftrightarrow> map_of (members s gid) r \<noteq> None"
    "\<And>gid g. map_of (guild_cache s) gid = Some g \<Longrightarrow> guild_fine s gid g"
    "\<And>gid. map_of (guild_cache s) gid = None \<Longrightarrow> members s gid = []"
  shows "guild_ok s"
  using assms by (auto simp: guild_ok_def split: option.split)

lemma guild_of_Some:
  "guild_of r s = Some (gid, g) \<longleftrightarrow> map_of (role_guild_map s) r = Some gid \<and> map_of (guild_cache s) gid = Some g"
  by (auto simp: guild_of_def split: option.splits)

lemma guild_ok_init: "guild_ok (guild_init now)"
  by (rule guild_okI)
    (auto simp: guild_init_def guild_fine_def test_guild_def keys_ok_def entry_def split: if_splits)

lemma members_touch [simp]: "members (touch_members gid s) k = members s k"
  by (simp add: touch_members_def split: option.split)

lemma touch_members_simps [simp]:
  "guild_cache (touch_members gid s) = guild_cache s" "role_guild_map (touch_members gid s) = role_guild_map s"
  "guild_id_counter (touch_members gid s) = guild_id_counter s"
  by (simp_all add: touch_members_def split: option.split)

lemma guild_fine_touch [simp]: "guild_fine (touch_members gid s) k g = guild_fine s k g"
  by (simp add: guild_fine_def)

lemma guild_ok_touch: "guild_ok s \<Longrightarrow> guild_ok (touch_members gid s)"
proof -
  assume ok: "guild_ok s"
  have "keys_ok (member_cache (touch_members gid s))"
    using guild_okD(2) [OF ok] by (simp add: touch_members_def split: option.split)
  then show ?thesis
    using guild_okD [OF ok] by (intro guild_okI) simp_all
qed

text \<open>A guild's own data changes, its membership does not.\<close>

lemma guild_ok_data:
  assumes ok: "guild_ok s" and g: "map_of (guild_cache s) gid = Some g"
    and g': "g_member_count g' = g_member_count g" "g_max_member_count g' = g_max_member_count g"
      "g_leader_id g' = g_leader_id g" "1 \<le> g_level g'" "g_level g' \<le> 10"
  shows "guild_ok (s\<lparr>guild_cache := AList.update gid g' (guild_cache s)\<rparr>)"
proof (rule guild_okI)
  fix k h
  assume "map_of (guild_cache (s\<lparr>guild_cache := AList.update gid g' (guild_cache s)\<rparr>)) k = Some h"
  then show "guild_fine (s\<lparr>guild_cache := AList.update gid g' (guild_cache s)\<rparr>) k h"
    using guild_okD(6) [OF ok] g g' by (fastforce simp: guild_fine_def split: if_splits)
qed (use guild_okD [OF ok] in \<open>auto split: if_splits\<close>)

text \<open>A member's own data changes.\<close>

lemma guild_ok_member:
  assumes ok: "guild_ok s" and m: "map_of (members s gid) r = Some m"
  shows "guild_ok (put_member gid r m' s)"
proof (rule guild_okI)
  let ?s' = "put_member gid r m' s"
  have mem: "members ?s' k = (if k = gid then AList.update r m' (members s gid) else members s k)" for k
    by (simp add: put_member_def)
  fix k
  show "keys_ok (members ?s' k)" unfolding mem using guild_okD(4) [OF ok] by simp
  show "map_of (role_guild_map ?s') q = Some k \<longleftrightarrow> map_of (members ?s' k) q \<noteq> None" for q
    using guild_okD(5) [OF ok, of q k] m by (auto simp: mem put_member_def)
  show "guild_fine ?s' k h" if "map_of (guild_cache ?s') k = Some h" for h
    using that guild_okD(6) [OF ok, of k h] m
    by (auto simp: guild_fine_def mem put_member_def length_alist_update)
  show "members ?s' k = []" if "map_of (guild_cache ?s') k = None"
    using that guild_okD(7) [OF ok, of k] m by (auto simp: mem put_member_def)
qed (use guild_okD [OF ok] in \<open>simp_all add: put_member_def\<close>)

text \<open>A member that is not the leader goes.\<close>

lemma guild_ok_drop:
  assumes ok: "guild_ok s" and g: "map_of (guild_cache s) gid = Some g"
    and r: "map_of (members s gid) r \<noteq> None" and l: "g_leader_id g \<noteq> r"
  shows "guild_ok ((drop_member gid r s)\<lparr>guild_cache :=
    AList.update gid (g\<lparr>g_member_count := g_member_count g - 1\<rparr>) (guild_cache s)\<rparr>)" (is "guild_ok ?s'")
proof (rule guild_okI)
  have mem: "members ?s' k = (if k = gid then AList.delete r (members s gid) else members s k)" for k
    by (simp add: drop_member_def)
  have rg: "map_of (role_guild_map s) r = Some gid" using guild_okD(5) [OF ok] r by blast
  fix k
  show "keys_ok (members ?s' k)" unfolding mem using guild_okD(4) [OF ok] by simp
  show "map_of (role_guild_map ?s') q = Some k \<longleftrightarrow> map_of (members ?s' k) q \<noteq> None" for q
    using guild_okD(5) [OF ok, of q k] rg by (auto simp: mem drop_member_def)
  show "guild_fine ?s' k h" if h: "map_of (guild_cache ?s') k = Some h" for h
  proof (cases "k = gid")
    case True
    have "guild_fine s gid g" using guild_okD(6) [OF ok g] .
    moreover have "int (length (AList.delete r (members s gid))) = int (length (members s gid)) - 1"
      using length_alist_delete [OF guild_okD(4) [OF ok, of gid], of r] r by auto
    ultimately show ?thesis using True h l
      by (auto simp: guild_fine_def mem drop_member_def)
  next
    case False
    with h guild_okD(6) [OF ok, of k h] show ?thesis by (simp add: guild_fine_def mem drop_member_def)
  qed
  show "members ?s' k = []" if "map_of (guild_cache ?s') k = None"
    using that guild_okD(7) [OF ok, of k] by (auto simp: mem drop_member_def split: if_splits)
qed (use guild_okD [OF ok] in \<open>simp_all add: drop_member_def\<close>)

lemma map_of_fold_delete:
  "map_of (fold (\<lambda>(r, _). AList.delete r) xs m) q = (if q \<in> fst ` set xs then None else map_of m q)"
  by (induction xs arbitrary: m) auto

lemma keys_ok_fold_delete: "keys_ok m \<Longrightarrow> keys_ok (fold (\<lambda>(r, _). AList.delete r) xs m)"
  by (induction xs arbitrary: m) auto

lemma guild_ok_dissolve:
  assumes ok: "guild_ok s"
  shows "guild_ok (s\<lparr>role_guild_map := fold (\<lambda>(r, _). AList.delete r) (in_key_order (members s gid)) (role_guild_map s),
           member_cache := AList.delete gid (member_cache s), guild_cache := AList.delete gid (guild_cache s)\<rparr>)"
    (is "guild_ok ?s'")
proof (rule guild_okI)
  have mem: "members ?s' k = (if k = gid then [] else members s k)" for k
    by (simp add: entry_def)
  have rgm: "map_of (role_guild_map ?s') q =
      (if map_of (members s gid) q \<noteq> None then None else map_of (role_guild_map s) q)" for q
    by (simp add: map_of_fold_delete map_of_eq_None_iff del: not_None_eq)
  fix k
  show "keys_ok (members ?s' k)" unfolding mem using guild_okD(4) [OF ok] by simp
  show "map_of (role_guild_map ?s') q = Some k \<longleftrightarrow> map_of (members ?s' k) q \<noteq> None" for q
    unfolding rgm mem using guild_okD(5) [OF ok, of q k] guild_okD(5) [OF ok, of q gid] by auto
  show "guild_fine ?s' k h" if h: "map_of (guild_cache ?s') k = Some h" for h
    using h guild_okD(6) [OF ok, of k h] by (auto simp: guild_fine_def mem split: if_splits)
  show "members ?s' k = []" if "map_of (guild_cache ?s') k = None"
    using that guild_okD(7) [OF ok, of k] by (auto simp: mem split: if_splits)
qed (use guild_okD [OF ok] in \<open>simp_all add: keys_ok_fold_delete\<close>)

text \<open>A new member of a guild that has room.\<close>

lemma guild_ok_admit:
  assumes ok: "guild_ok s" and g: "map_of (guild_cache s) gid = Some g"
    and r: "map_of (role_guild_map s) r = None" and room: "g_member_count g < 50"
  shows "guild_ok ((put_member gid r m s)\<lparr>role_guild_map := AList.update r gid (role_guild_map s),
    guild_cache := AList.update gid (g\<lparr>g_member_count := g_member_count g + 1\<rparr>) (guild_cache s)\<rparr>)"
    (is "guild_ok ?s'")
proof (rule guild_okI)
  have mem: "members ?s' k = (if k = gid then AList.update r m (members s gid) else members s k)" for k
    by (simp add: put_member_def)
  have none: "map_of (members s k) r = None" for k
    using guild_okD(5) [OF ok, of r k] r by auto
  fix k
  show "keys_ok (members ?s' k)" unfolding mem using guild_okD(4) [OF ok] by simp
  show "map_of (role_guild_map ?s') q = Some k \<longleftrightarrow> map_of (members ?s' k) q \<noteq> None" for q
    using guild_okD(5) [OF ok, of q k] none by (auto simp: mem put_member_def)
  show "guild_fine ?s' k h" if h: "map_of (guild_cache ?s') k = Some h" for h
    using h guild_okD(6) [OF ok, of k] g room none
    by (auto simp: guild_fine_def mem put_member_def length_alist_update split: if_splits)
  show "members ?s' k = []" if "map_of (guild_cache ?s') k = None"
    using that guild_okD(7) [OF ok, of k] by (auto simp: mem put_member_def split: if_splits)
qed (use guild_okD [OF ok] in \<open>simp_all add: put_member_def\<close>)

lemma guild_ok_found:
  assumes ok: "guild_ok s" and new: "map_of (guild_cache s) gid = None"
    and r: "map_of (role_guild_map s) r = None"
  shows "guild_ok (put_member gid r m (s\<lparr>guild_id_counter := gid,
    guild_cache := AList.update gid (new_guild gid nm r now) (guild_cache s),
    role_guild_map := AList.update r gid (role_guild_map s)\<rparr>))" (is "guild_ok ?s'")
proof (rule guild_okI)
  have empty: "members s gid = []" using guild_okD(7) [OF ok new] .
  then have mem: "members ?s' k = (if k = gid then [(r, m)] else members s k)" for k
    by (simp add: put_member_def)
  have none: "map_of (members s k) r = None" for k
    using guild_okD(5) [OF ok, of r k] r by auto
  fix k
  show "keys_ok (members ?s' k)" using guild_okD(4) [OF ok] by (simp add: mem) (simp add: keys_ok_def)
  show "map_of (role_guild_map ?s') q = Some k \<longleftrightarrow> map_of (members ?s' k) q \<noteq> None" for q
    using guild_okD(5) [OF ok, of q k] none empty by (auto simp: mem put_member_def)
  show "guild_fine ?s' k h" if h: "map_of (guild_cache ?s') k = Some h" for h
  proof (cases "k = gid")
    case True
    with h show ?thesis by (auto simp: guild_fine_def mem put_member_def new_guild_def empty)
  next
    case False
    with h guild_okD(6) [OF ok, of k h] show ?thesis by (simp add: guild_fine_def mem put_member_def)
  qed
  show "members ?s' k = []" if "map_of (guild_cache ?s') k = None"
    using that guild_okD(7) [OF ok, of k] by (auto simp: mem put_member_def split: if_splits)
qed (use guild_okD [OF ok] in \<open>simp_all add: put_member_def\<close>)

section \<open>Steps of the operations\<close>

text \<open>The steps of the operations that return; each of them needs the mutex once.\<close>

definition guild_step :: "GuildModule \<Rightarrow> GuildModule \<Rightarrow> bool" where
  "guild_step s s' \<longleftrightarrow> (guild_ok s \<longrightarrow> guild_ok s') \<and> (role_guild_map s = [] \<longrightarrow> role_guild_map s' = [])"

lemma guild_step_refl [simp]: "guild_step s s"
  by (simp add: guild_step_def)

lemma guild_step_touch [simp]: "guild_step s (touch_members gid s)"
  by (simp add: guild_step_def guild_ok_touch)

lemma no_roles: "map_of (role_guild_map s) r = Some gid \<Longrightarrow> role_guild_map s \<noteq> []"
  by auto

lemma guild_query_steps:
  "steps_by guild_step (GetGuildInfo gid)" "steps_by guild_step (GetGuildMembers gid)"
  "steps_by guild_step (GetGuildMemberInfo r)" "steps_by guild_step (IsInGuild r)"
  "steps_by guild_step (IsGuildNameExist nm)" "steps_by guild_step (SaveGuildData gid)"
  by (auto simp: GetGuildInfo_def GetGuildMembers_def GetGuildMemberInfo_def IsInGuild_def
      IsGuildNameExist_def SaveGuildData_def Let_def intro!: steps_by_guarded split: option.splits)

lemma LeaveGuild_steps: "steps_by guild_step (LeaveGuild r)"
  unfolding LeaveGuild_def
  by (rule steps_by_guarded)
    (auto simp: guild_step_def guild_of_Some guild_okD(5) no_roles intro!: guild_ok_drop
      split: option.splits if_splits)

lemma KickMember_steps: "steps_by guild_step (KickMember l t)"
  unfolding KickMember_def
proof (rule steps_by_guarded, goal_cases)
  case (1 s ok s')
  show ?case
  proof (cases "\<exists>gid. s' = s \<or> s' = touch_members gid s")
    case True
    then show ?thesis by auto
  next
    case False
    with 1 obtain gid g where g: "guild_of l s = Some (gid, g)" "g_leader_id g \<noteq> t"
      "map_of (members s gid) t \<noteq> None"
      and s': "s' = (drop_member gid t (touch_members gid s))\<lparr>guild_cache :=
         AList.update gid (g\<lparr>g_member_count := g_member_count g - 1\<rparr>) (guild_cache (touch_members gid s))\<rparr>"
      by (auto simp: Let_def split: option.splits if_splits)
    have "guild_ok s'" if "guild_ok s"
      unfolding s' by (rule guild_ok_drop [OF guild_ok_touch [OF that]])
        (use g in \<open>simp_all add: guild_of_Some\<close>)
    with g show ?thesis by (auto simp: guild_step_def guild_of_Some)
  qed
qed

lemma DissolveGuild_steps: "steps_by guild_step (DissolveGuild l)"
  unfolding DissolveGuild_def
  by (rule steps_by_guarded)
    (auto simp: guild_step_def guild_of_Some no_roles intro!: guild_ok_dissolve split: option.splits if_splits)

lemma guild_data_step:
  assumes "guild_of r s = Some (gid, g)" and "g_member_count g' = g_member_count g"
    "g_max_member_count g' = g_max_member_count g" "g_leader_id g' = g_leader_id g"
    "guild_fine s gid g \<Longrightarrow> 1 \<le> g_level g' \<and> g_level g' \<le> 10"
  shows "guild_step s (s\<lparr>guild_cache := AList.update gid g' (guild_cache s)\<rparr>)"
proof -
  have g: "map_of (guild_cache s) gid = Some g" using assms(1) by (simp add: guild_of_Some)
  have "guild_ok (s\<lparr>guild_cache := AList.update gid g' (guild_cache s)\<rparr>)" if "guild_ok s"
    using assms(2-5) guild_okD(6) [OF that g] by (intro guild_ok_data [OF that g]) auto
  then show ?thesis by (simp add: guild_step_def)
qed

lemma UpgradeGuild_steps: "steps_by guild_step (UpgradeGuild l)"
  unfolding UpgradeGuild_def
proof (rule steps_by_guarded, goal_cases)
  case (1 s ok s')
  then have "s' = s \<or> (\<exists>gid g. guild_of l s = Some (gid, g) \<and> g_level g < 10 \<and>
      s' = s\<lparr>guild_cache := AList.update gid (g\<lparr>g_level := g_level g + 1\<rparr>) (guild_cache s)\<rparr>)"
    by (auto simp: MAX_GUILD_LEVEL_def split: option.splits if_splits)
  then show ?case
  proof (elim disjE exE conjE)
    fix gid g
    assume g: "guild_of l s = Some (gid, g)" "g_level g < 10"
      and s': "s' = s\<lparr>guild_cache := AList.update gid (g\<lparr>g_level := g_level g + 1\<rparr>) (guild_cache s)\<rparr>"
    show ?thesis unfolding s'
      by (rule guild_data_step [OF g(1)]) (use g(2) in \<open>auto simp: guild_fine_def\<close>)
  qed simp
qed

lemma UpdateAnnouncement_steps: "steps_by guild_step (UpdateAnnouncement l ann)"
  unfolding UpdateAnnouncement_def
proof (rule steps_by_guarded, goal_cases)
  case (1 s ok s')
  then have "s' = s \<or> (\<exists>gid g. guild_of l s = Some (gid, g) \<and>
      s' = s\<lparr>guild_cache := AList.update gid (g\<lparr>g_announcement := ann\<rparr>) (guild_cache s)\<rparr>)"
    by (auto split: option.splits if_splits)
  then show ?case
  proof (elim disjE exE conjE)
    fix gid g
    assume g: "guild_of l s = Some (gid, g)"
      and s': "s' = s\<lparr>guild_cache := AList.update gid (g\<lparr>g_announcement := ann\<rparr>) (guild_cache s)\<rparr>"
    show ?thesis unfolding s'
      by (rule guild_data_step [OF g]) (auto simp: guild_fine_def)
  qed simp
qed

lemma Contribute_steps: "steps_by guild_step (Contribute r kind n)"
  unfolding Contribute_def
proof (rule steps_by_guarded, goal_cases)
  case (1 s ok s')
  show ?case
  proof (cases "guild_of r s")
    case None
    with 1 show ?thesis by simp
  next
    case (Some gg)
    obtain gid g where gg: "gg = (gid, g)" by fastforce
    let ?s1 = "touch_members gid (s\<lparr>guild_cache := AList.update gid (g\<lparr>g_fund := g_fund g + n\<rparr>) (guild_cache s)\<rparr>)"
    have one: "guild_step s ?s1"
    proof -
      have "guild_step s (s\<lparr>guild_cache := AList.update gid (g\<lparr>g_fund := g_fund g + n\<rparr>) (guild_cache s)\<rparr>)"
        by (rule guild_data_step [of r s gid g]) (use Some gg in \<open>auto simp: guild_fine_def\<close>)
      then show ?thesis by (auto simp: guild_step_def intro: guild_ok_touch)
    qed
    from 1 Some gg have "s' = ?s1 \<or> (\<exists>m m'. map_of (members ?s1 gid) r = Some m \<and> s' = put_member gid r m' ?s1)"
      by (auto simp: Let_def split: option.splits if_splits)
    then show ?thesis
    proof
      assume "s' = ?s1"
      with one show ?thesis by simp
    next
      assume "\<exists>m m'. map_of (members ?s1 gid) r = Some m \<and> s' = put_member gid r m' ?s1"
      then obtain m m' where m: "map_of (members ?s1 gid) r = Some m" "s' = put_member gid r m' ?s1" by blast
      with one guild_ok_member [OF _ m(1), of m'] show ?thesis
        by (auto simp: guild_step_def put_member_def)
    qed
  qed
qed

lemma CreateGuild_relocks: "CreateGuild t1 t2 t3 r nm m = Fault Relock"
  by (simp add: CreateGuild_def with_lock_def bindM_def IsInGuild_def)

lemma JoinGuild_relocks: "JoinGuild t1 t2 r gid m = Fault Relock"
  by (simp add: JoinGuild_def with_lock_def bindM_def IsInGuild_def)

section \<open>The guild module as a machine\<close>

datatype guild_cmd =
    CCreateGuild time_t time_t time_t u64 string
  | CJoinGuild time_t time_t u64 u64
  | CLeaveGuild u64
  | CKickMember u64 u64
  | CDissolveGuild u64
  | CGetGuildInfo u64
  | CGetGuildMembers u64
  | CGetGuildMemberInfo u64
  | CIsInGuild u64
  | CIsGuildNameExist string
  | CContribute u64 i32 i32
  | CUpgradeGuild u64
  | CUpdateAnnouncement u64 string
  | CSaveGuildData u64

fun guild_exec :: "guild_cmd \<Rightarrow> (GuildModule, bool) oper" where
  "guild_exec (CCreateGuild t1 t2 t3 r nm) = succeeded (CreateGuild t1 t2 t3 r nm)"
| "guild_exec (CJoinGuild t1 t2 r gid) = JoinGuild t1 t2 r gid"
| "guild_exec (CLeaveGuild r) = LeaveGuild r"
| "guild_exec (CKickMember l t) = KickMember l t"
| "guild_exec (CDissolveGuild l) = DissolveGuild l"
| "guild_exec (CGetGuildInfo gid) = succeeded (GetGuildInfo gid)"
| "guild_exec (CGetGuildMembers gid) = succeeded (GetGuildMembers gid)"
| "guild_exec (CGetGuildMemberInfo r) = succeeded (GetGuildMemberInfo r)"
| "guild_exec (CIsInGuild r) = IsInGuild r"
| "guild_exec (CIsGuildNameExist nm) = IsGuildNameExist nm"
| "guild_exec (CContribute r k n) = Contribute r k n"
| "guild_exec (CUpgradeGuild l) = UpgradeGuild l"
| "guild_exec (CUpdateAnnouncement l ann) = UpdateAnnouncement l ann"
| "guild_exec (CSaveGuildData gid) = SaveGuildData gid"

lemma relocking_steps:
  "steps_by R (succeeded (CreateGuild t1 t2 t3 r nm))" "steps_by R (JoinGuild t1 t2 r gid)"
  by (simp_all add: steps_by_def succeeded_def CreateGuild_relocks JoinGuild_relocks)

lemma guild_exec_steps: "steps_by guild_step (guild_exec c)"
  by (cases c)
    (auto intro!: relocking_steps steps_by_succeeded guild_query_steps LeaveGuild_steps KickMember_steps
      DissolveGuild_steps Contribute_steps UpgradeGuild_steps UpdateAnnouncement_steps)

text \<open>The machine keeps consistent states consistent, and a state without members without members.\<close>

interpretation guilds: machine guild_exec guild_ok
proof unfold_locales
  show "\<exists>s'. m' = idle s'" if "guild_exec c (idle s) = Ret (r, m')" for c s r m'
    using steps_by_run [OF that guild_exec_steps] by blast
  show "guild_ok s'" if "guild_exec c (idle s) = Ret (r, idle s')" "guild_ok s" for c s r s'
    using steps_by_run [OF that(1) guild_exec_steps] that(2) by (auto simp: guild_step_def)
qed

interpretation no_guilds: machine guild_exec "\<lambda>s. role_guild_map s = []"
proof unfold_locales
  show "\<exists>s'. m' = idle s'" if "guild_exec c (idle s) = Ret (r, m')" for c s r m'
    using steps_by_run [OF that guild_exec_steps] by blast
  show "role_guild_map s' = []" if "guild_exec c (idle s) = Ret (r, idle s')" "role_guild_map s = []" for c s r s'
    using steps_by_run [OF that(1) guild_exec_steps] that(2) by (auto simp: guild_step_def)
qed

section \<open>Properties\<close>

text \<open>
  C28. The guild operations keep the guilds consistent. From a consistent state every operation that
  returns (leaving, kicking, dissolving, contributing, upgrading, the queries, in any order) leaves
  one; and so do the bodies of founding (under an identifier not in use) and of joining a guild, once
  the checks before them have passed for a role in no guild.
\<close>

theorem guilds_stay_consistent:
  assumes "guild_ok s"
  shows "(\<forall>cs rs s'. run_cmds guild_exec cs (idle s) = Ret (rs, idle s') \<longrightarrow> guild_ok s') \<and>
    (map_of (role_guild_map s) r = None \<longrightarrow>
      (\<forall>gid ok s'. admit_member t1 t2 r gid s = Ret (ok, s') \<longrightarrow> guild_ok s') \<and>
      (map_of (guild_cache s) (guild_id_counter s + 1) = None \<longrightarrow>
        (\<forall>gid s'. found_guild t1 t2 t3 r nm s = Ret (gid, s') \<longrightarrow> guild_ok s')))"
proof (intro conjI impI allI)
  show "guild_ok s'" if "run_cmds guild_exec cs (idle s) = Ret (rs, idle s')" for cs rs s'
    using guilds.run_inv [OF that assms] by auto
next
  assume r: "map_of (role_guild_map s) r = None"
  show "guild_ok s'" if adm: "admit_member t1 t2 r gid s = Ret (ok, s')" for gid ok s'
  proof (cases "s' = s")
    case True
    with assms show ?thesis by simp
  next
    case False
    with adm obtain g where g: "map_of (guild_cache s) gid = Some g" "g_member_count g < g_max_member_count g"
      and s': "s' = (put_member gid r (new_member r MEMBER t1 t2) s)\<lparr>role_guild_map := AList.update r gid (role_guild_map s),
        guild_cache := AList.update gid (g\<lparr>g_member_count := g_member_count g + 1\<rparr>) (guild_cache s)\<rparr>"
      by (auto simp: admit_member_def put_member_def Let_def split: option.splits if_splits)
    show ?thesis unfolding s'
      by (rule guild_ok_admit [OF assms g(1) r])
        (use g(2) guild_okD(6) [OF assms g(1)] in \<open>simp add: guild_fine_def\<close>)
  qed
next
  assume r: "map_of (role_guild_map s) r = None" and new: "map_of (guild_cache s) (guild_id_counter s + 1) = None"
  show "guild_ok s'" if f: "found_guild t1 t2 t3 r nm s = Ret (gid, s')" for gid s'
  proof (cases "s' = s")
    case True
    with assms show ?thesis by simp
  next
    case False
    with f have s': "s' = put_member (guild_id_counter s + 1) r (new_member r LEADER t2 t3)
        (s\<lparr>guild_id_counter := guild_id_counter s + 1,
          guild_cache := AList.update (guild_id_counter s + 1) (new_guild (guild_id_counter s + 1) nm r t1) (guild_cache s),
          role_guild_map := AList.update r (guild_id_counter s + 1) (role_guild_map s)\<rparr>)"
      by (auto simp: found_guild_def GenerateGuildId_def Let_def split: if_splits)
    show ?thesis unfolding s' by (rule guild_ok_found [OF assms new r])
  qed
qed

theorem guilds_stay_consistent_witness:
  "\<exists>s1 s2 rs s3. found_guild 5 5 5 7 ''g'' (guild_init 0) = Ret (Some 1001, s1) \<and>
     admit_member 6 6 8 1001 s1 = Ret (True, s2) \<and>
     run_cmds guild_exec [CContribute 8 1 20, CKickMember 7 8, CDissolveGuild 7] (idle s2) = Ret (rs, idle s3) \<and>
     guild_ok s3"
proof -
  let ?cs = "[CContribute 8 1 20, CKickMember 7 8, CDissolveGuild 7]"
  have "\<exists>s1 s2 rs m3. found_guild 5 5 5 7 ''g'' (guild_init 0) = Ret (Some 1001, s1) \<and>
     map_of (guild_cache (guild_init 0)) (guild_id_counter (guild_init 0) + 1) = None \<and>
     map_of (role_guild_map (guild_init 0)) 7 = None \<and>
     map_of (role_guild_map s1) 8 = None \<and>
     admit_member 6 6 8 1001 s1 = Ret (True, s2) \<and> run_cmds guild_exec ?cs (idle s2) = Ret (rs, m3)"
    by (intro exI conjI, code_simp, code_simp, code_simp, code_simp, code_simp, code_simp)
  then obtain s1 s2 rs m3 where f: "found_guild 5 5 5 7 ''g'' (guild_init 0) = Ret (Some 1001, s1)"
    and new: "map_of (guild_cache (guild_init 0)) (guild_id_counter (guild_init 0) + 1) = None"
    and r: "map_of (role_guild_map (guild_init 0)) 7 = None" "map_of (role_guild_map s1) 8 = None"
    and a: "admit_member 6 6 8 1001 s1 = Ret (True, s2)" and run: "run_cmds guild_exec ?cs (idle s2) = Ret (rs, m3)"
    by blast
  have s1: "guild_ok s1"
    using guilds_stay_consistent [OF guild_ok_init [of 0], of 7 5 5 5 "''g''"] f new r(1) by blast
  have s2: "guild_ok s2" using guilds_stay_consistent [OF s1, of 8 6 6] a r(2) by blast
  from guilds.run_inv [OF run s2] obtain s3 where m3: "m3 = idle s3" by blast
  have "guild_ok s3" using guilds_stay_consistent [OF s2, of 8 6 6] run m3 by blast
  with f a run m3 show ?thesis by blast
qed

text \<open>
  No guild ever has a member. \<^verbatim>\<open>CreateGuild\<close> and \<^verbatim>\<open>JoinGuild\<close> keep the mutex while they call
  \<^verbatim>\<open>IsInGuild\<close>, which locks it again, whatever the state and the arguments; so in every run from the
  constructor that returns, no role is in a guild, and leaving, kicking, dissolving, contributing,
  upgrading and announcing all answer \<^verbatim>\<open>false\<close> and change nothing.
\<close>

theorem no_guild_is_entered:
  "CreateGuild t1 t2 t3 r nm m = Fault Relock \<and> JoinGuild t1 t2 r gid m = Fault Relock \<and>
   (\<forall>cs rs s'. run_cmds guild_exec cs (idle (guild_init now)) = Ret (rs, idle s') \<longrightarrow>
     (\<forall>q t k n ann. IsInGuild q (idle s') = Ret (False, idle s') \<and>
       LeaveGuild q (idle s') = Ret (False, idle s') \<and> KickMember q t (idle s') = Ret (False, idle s') \<and>
       DissolveGuild q (idle s') = Ret (False, idle s') \<and> Contribute q k n (idle s') = Ret (False, idle s') \<and>
       UpgradeGuild q (idle s') = Ret (False, idle s') \<and> UpdateAnnouncement q ann (idle s') = Ret (False, idle s')))"
proof (intro conjI allI impI)
  show "CreateGuild t1 t2 t3 r nm m = Fault Relock" by (rule CreateGuild_relocks)
  show "JoinGuild t1 t2 r gid m = Fault Relock" by (rule JoinGuild_relocks)
  fix cs rs s' q t k n ann
  assume run: "run_cmds guild_exec cs (idle (guild_init now)) = Ret (rs, idle s')"
  have "role_guild_map (guild_init now) = []" by (simp add: guild_init_def)
  from no_guilds.run_inv [OF run this] have "role_guild_map s' = []" by auto
  then show "IsInGuild q (idle s') = Ret (False, idle s')" "LeaveGuild q (idle s') = Ret (False, idle s')"
    "KickMember q t (idle s') = Ret (False, idle s')" "DissolveGuild q (idle s') = Ret (False, idle s')"
    "Contribute q k n (idle s') = Ret (False, idle s')" "UpgradeGuild q (idle s') = Ret (False, idle s')"
    "UpdateAnnouncement q ann (idle s') = Ret (False, idle s')"
    by (simp_all add: IsInGuild_def LeaveGuild_def KickMember_def DissolveGuild_def Contribute_def
        UpgradeGuild_def UpdateAnnouncement_def guild_of_def)
qed

theorem no_guild_is_entered_witness:
  "\<exists>rs s'. run_cmds guild_exec [CIsInGuild 7, CGetGuildInfo 0] (idle (guild_init 0)) = Ret (rs, idle s') \<and>
     LeaveGuild 7 (idle s') = Ret (False, idle s')"
proof -
  have "\<exists>rs m'. run_cmds guild_exec [CIsInGuild 7, CGetGuildInfo 0] (idle (guild_init 0)) = Ret (rs, m')"
    by (intro exI, code_simp)
  then obtain rs m' where r: "run_cmds guild_exec [CIsInGuild 7, CGetGuildInfo 0] (idle (guild_init 0)) = Ret (rs, m')"
    by blast
  from guilds.run_inv [OF r guild_ok_init] obtain s' where m': "m' = idle s'" by blast
  have "LeaveGuild 7 (idle s') = Ret (False, idle s')"
    using no_guild_is_entered [of 0 0 0 0 "[]" "idle (guild_init 0)" 0 0] r m' by blast
  with r m' show ?thesis by blast
qed

text \<open>
  Only the leader rules. Kicking, dissolving, upgrading and announcing succeed only for a role
  that its guild names as its leader; the leader itself can neither leave nor be kicked; and a guild
  at level 10 is not upgraded.
\<close>

theorem only_the_leader_rules:
  "(\<forall>t s'. KickMember r t (idle s) = Ret (True, s') \<longrightarrow>
      (\<exists>gid g. guild_of r s = Some (gid, g) \<and> g_leader_id g = r \<and> t \<noteq> r)) \<and>
   (\<forall>s'. DissolveGuild r (idle s) = Ret (True, s') \<longrightarrow> (\<exists>gid g. guild_of r s = Some (gid, g) \<and> g_leader_id g = r)) \<and>
   (\<forall>s'. UpgradeGuild r (idle s) = Ret (True, s') \<longrightarrow>
      (\<exists>gid g. guild_of r s = Some (gid, g) \<and> g_leader_id g = r \<and> g_level g < 10)) \<and>
   (\<forall>ann s'. UpdateAnnouncement r ann (idle s) = Ret (True, s') \<longrightarrow>
      (\<exists>gid g. guild_of r s = Some (gid, g) \<and> g_leader_id g = r)) \<and>
   (\<forall>s'. LeaveGuild r (idle s) = Ret (True, s') \<longrightarrow> (\<exists>gid g. guild_of r s = Some (gid, g) \<and> g_leader_id g \<noteq> r))"
  by (auto simp: KickMember_def DissolveGuild_def UpgradeGuild_def UpdateAnnouncement_def LeaveGuild_def
      MAX_GUILD_LEVEL_def Let_def split: option.splits if_splits)

theorem only_the_leader_rules_witness:
  "\<exists>s1 s2 m3. found_guild 5 5 5 7 ''g'' (guild_init 0) = Ret (Some 1001, s1) \<and>
     admit_member 6 6 8 1001 s1 = Ret (True, s2) \<and> KickMember 7 8 (idle s2) = Ret (True, m3) \<and>
     (\<exists>gid g. guild_of 7 s2 = Some (gid, g) \<and> g_leader_id g = 7)"
proof -
  have "\<exists>s1 s2 m3. found_guild 5 5 5 7 ''g'' (guild_init 0) = Ret (Some 1001, s1) \<and>
     admit_member 6 6 8 1001 s1 = Ret (True, s2) \<and> KickMember 7 8 (idle s2) = Ret (True, m3)"
    by (intro exI conjI, code_simp, code_simp, code_simp)
  then obtain s1 s2 m3 where f: "found_guild 5 5 5 7 ''g'' (guild_init 0) = Ret (Some 1001, s1)"
    "admit_member 6 6 8 1001 s1 = Ret (True, s2)" and k: "KickMember 7 8 (idle s2) = Ret (True, m3)" by blast
  have "\<exists>gid g. guild_of 7 s2 = Some (gid, g) \<and> g_leader_id g = 7"
    using only_the_leader_rules [of 7 s2] k by blast
  with f k show ?thesis by blast
qed

end
