(* ===== verification/Shop.thy ===== *)
theory Shop
  imports Machine
begin

text \<open>
  \<open>game_server/logic_server/shop_module.cc\<close>: shops, the check and the execution of a purchase, the
  amounts bought and the records of the purchases.
\<close>

section \<open>Data\<close>

datatype ShopType = NORMAL | MYSTERY | GUILD | PVP | ACTIVITY

record ShopItem =
  config_id :: i32
  price_type :: i32
  price :: i32
  discount :: i32
  buy_limit :: i32

record ShopInfo =
  shop_id :: i32
  shop_type :: ShopType
  shop_name :: string
  items :: "ShopItem list"
  refresh_time :: time_t
  refresh_cost :: i32
  is_open :: bool

record PurchaseRecord =
  rec_shop_id :: i32
  rec_item_config_id :: i32
  buy_count :: i32
  buy_time :: time_t

record ShopModule =
  shop_configs :: "(i32 \<times> ShopInfo) list"
  buy_count_cache :: "(u64 \<times> (i32 \<times> (i32 \<times> i32) list) list) list"
  purchase_records_cache :: "(u64 \<times> PurchaseRecord list) list"

definition MAX_PURCHASE_RECORDS :: nat where "MAX_PURCHASE_RECORDS = 100"

definition shop_init :: ShopModule where
  "shop_init = \<lparr>shop_configs = [], buy_count_cache = [], purchase_records_cache = []\<rparr>"

section \<open>Operations\<close>

definition LoadShopConfigs :: "(ShopModule, bool) oper" where
  "LoadShopConfigs = retM True"

definition InitShop :: "u64 \<Rightarrow> (ShopModule, bool) oper" where
  "InitShop role = guarded (\<lambda>s.
     Ret (True, s\<lparr>buy_count_cache := AList.update role [] (buy_count_cache s),
                  purchase_records_cache := AList.update role [] (purchase_records_cache s)\<rparr>))"

definition GetShopList :: "(ShopModule, ShopInfo list) oper" where
  "GetShopList = guarded (\<lambda>s. Ret (map snd (shop_configs s), s))"

definition GetShopInfo :: "i32 \<Rightarrow> (ShopModule, ShopInfo option) oper" where
  "GetShopInfo sid = guarded (\<lambda>s. Ret (map_of (shop_configs s) sid, s))"

definition GetShopItems :: "i32 \<Rightarrow> (ShopModule, ShopItem list option) oper" where
  "GetShopItems sid = guarded (\<lambda>s. Ret (map_option items (map_of (shop_configs s) sid), s))"

definition GetShopItem :: "i32 \<Rightarrow> i32 \<Rightarrow> (ShopModule, ShopItem option) oper" where
  "GetShopItem sid cid = guarded (\<lambda>s.
     Ret (case map_of (shop_configs s) sid of
            None \<Rightarrow> None
          | Some shop \<Rightarrow> List.find (\<lambda>i. config_id i = cid) (items shop), s))"

text \<open>
  Two functions are declared to return \<^verbatim>\<open>bool\<close>, so the number they compute becomes 0 or 1: the
  price, and the amount already bought. \<open>as_flag\<close> is that conversion, read back as a number.
\<close>

definition as_flag :: "i32 \<Rightarrow> i32" where
  "as_flag n = (if n = 0 then 0 else 1)"

definition CalculatePrice :: "i32 \<Rightarrow> i32 \<Rightarrow> i32 outcome" where
  "CalculatePrice base disc =
     (if disc \<le> 0 \<or> 100 \<le> disc then Ret (as_flag base)
      else bindO (mul32 base disc) (\<lambda>p. Ret (as_flag (sgn p * (\<bar>p\<bar> div 100)))))"

definition bought :: "ShopModule \<Rightarrow> u64 \<Rightarrow> i32 \<Rightarrow> i32 \<Rightarrow> i32" where
  "bought s role sid cid =
     (case map_of (buy_count_cache s) role of
        None \<Rightarrow> 0
      | Some shops \<Rightarrow>
          (case map_of shops sid of
             None \<Rightarrow> 0
           | Some counts \<Rightarrow> (case map_of counts cid of None \<Rightarrow> 0 | Some n \<Rightarrow> n)))"

definition GetItemBuyCount :: "u64 \<Rightarrow> i32 \<Rightarrow> i32 \<Rightarrow> (ShopModule, i32) oper" where
  "GetItemBuyCount role sid cid = guarded (\<lambda>s. Ret (as_flag (bought s role sid cid), s))"

definition AddItemBuyCount :: "u64 \<Rightarrow> i32 \<Rightarrow> i32 \<Rightarrow> i32 \<Rightarrow> (ShopModule, bool) oper" where
  "AddItemBuyCount role sid cid n = guarded (\<lambda>s.
     let shops = entry (buy_count_cache s) role; counts = entry shops sid in
     bindO (add32 (bought s role sid cid) n) (\<lambda>k.
       Ret (True, s\<lparr>buy_count_cache :=
         AList.update role (AList.update sid (AList.update cid k counts) shops) (buy_count_cache s)\<rparr>)))"

definition CheckMoneyEnough :: "u64 \<Rightarrow> i32 \<Rightarrow> i32 \<Rightarrow> bool" where
  "CheckMoneyEnough role kind amount = True"

definition DeductMoney :: "u64 \<Rightarrow> i32 \<Rightarrow> i32 \<Rightarrow> bool" where
  "DeductMoney role kind amount = True"

definition lift_outcome :: "'a outcome \<Rightarrow> (ShopModule, 'a) oper" where
  "lift_outcome x = (\<lambda>m. bindO x (\<lambda>r. Ret (r, m)))"

definition within_limit :: "u64 \<Rightarrow> i32 \<Rightarrow> i32 \<Rightarrow> i32 \<Rightarrow> ShopItem \<Rightarrow> (ShopModule, bool) oper" where
  "within_limit role sid cid n item =
     (if 0 < buy_limit item
      then bindM (GetItemBuyCount role sid cid) (\<lambda>have.
        bindM (lift_outcome (add32 have n)) (\<lambda>total. retM (\<not> buy_limit item < total)))
      else retM True)"

definition total_price :: "ShopItem \<Rightarrow> i32 \<Rightarrow> i32 outcome" where
  "total_price item n = bindO (CalculatePrice (price item) (discount item)) (\<lambda>p. mul32 p n)"

definition CanBuyItem :: "u64 \<Rightarrow> i32 \<Rightarrow> i32 \<Rightarrow> i32 \<Rightarrow> (ShopModule, bool) oper" where
  "CanBuyItem role sid cid n =
     bindM (GetShopItem sid cid) (\<lambda>found.
       case found of
         None \<Rightarrow> retM False
       | Some item \<Rightarrow>
           if n \<le> 0 then retM False
           else bindM (within_limit role sid cid n item) (\<lambda>ok.
             if \<not> ok then retM False
             else bindM (lift_outcome (total_price item n)) (\<lambda>amount.
               retM (CheckMoneyEnough role (price_type item) amount))))"

definition add_record :: "u64 \<Rightarrow> PurchaseRecord \<Rightarrow> ShopModule \<Rightarrow> ShopModule" where
  "add_record role r s = s\<lparr>purchase_records_cache := AList.update role
     (push_capped MAX_PURCHASE_RECORDS r (entry (purchase_records_cache s) role)) (purchase_records_cache s)\<rparr>"

text \<open>
  \<^verbatim>\<open>BuyItem\<close> takes the mutex after the check and, holding it, calls \<^verbatim>\<open>GetShopItem\<close> and
  \<^verbatim>\<open>AddItemBuyCount\<close>, which lock it again.
\<close>

definition BuyItem :: "time_t \<Rightarrow> u64 \<Rightarrow> i32 \<Rightarrow> i32 \<Rightarrow> i32 \<Rightarrow> (ShopModule, bool) oper" where
  "BuyItem now role sid cid n =
     bindM (CanBuyItem role sid cid n) (\<lambda>can.
       if \<not> can then retM False
       else with_lock
         (bindM (GetShopItem sid cid) (\<lambda>found.
            case found of
              None \<Rightarrow> retM False
            | Some item \<Rightarrow>
                bindM (lift_outcome (total_price item n)) (\<lambda>amount.
                  if \<not> DeductMoney role (price_type item) amount then retM False
                  else bindM (AddItemBuyCount role sid cid n) (\<lambda>_.
                    on_state (\<lambda>s. Ret (True, add_record role
                      \<lparr>rec_shop_id = sid, rec_item_config_id = cid, buy_count = n, buy_time = now\<rparr> s)))))))"

definition GetPurchaseRecords :: "u64 \<Rightarrow> (ShopModule, PurchaseRecord list option) oper" where
  "GetPurchaseRecords role = guarded (\<lambda>s. Ret (map_of (purchase_records_cache s) role, s))"

definition SaveShopData :: "u64 \<Rightarrow> (ShopModule, bool) oper" where
  "SaveShopData role = retM True"

definition LoadShopData :: "u64 \<Rightarrow> (ShopModule, bool) oper" where
  "LoadShopData role = bindM (InitShop role) (\<lambda>_. retM True)"

section \<open>Steps\<close>

definition item_of :: "ShopModule \<Rightarrow> i32 \<Rightarrow> i32 \<Rightarrow> ShopItem option" where
  "item_of s sid cid =
     (case map_of (shop_configs s) sid of
        None \<Rightarrow> None | Some shop \<Rightarrow> List.find (\<lambda>i. config_id i = cid) (items shop))"

lemma GetShopItem_idle: "GetShopItem sid cid (idle s) = Ret (item_of s sid cid, idle s)"
  by (simp add: GetShopItem_def item_of_def)

lemma as_flag_cases: "as_flag n = 0 \<or> as_flag n = 1"
  by (simp add: as_flag_def)

text \<open>The check for a purchase as one function of the state.\<close>

lemma CanBuyItem_idle:
  "CanBuyItem role sid cid n (idle s) =
    (case item_of s sid cid of
       None \<Rightarrow> Ret (False, idle s)
     | Some item \<Rightarrow>
         if n \<le> 0 then Ret (False, idle s)
         else bindO (if 0 < buy_limit item
                     then bindO (add32 (as_flag (bought s role sid cid)) n) (\<lambda>t. Ret (\<not> buy_limit item < t))
                     else Ret True) (\<lambda>ok.
           if \<not> ok then Ret (False, idle s)
           else bindO (total_price item n) (\<lambda>_. Ret (True, idle s))))"
  by (auto simp: CanBuyItem_def bindM_def retM_def GetShopItem_idle within_limit_def GetItemBuyCount_def
      lift_outcome_def CheckMoneyEnough_def add32_def mul32_def split: option.split bindO_split)

lemma CanBuyItem_state: "CanBuyItem role sid cid n (idle s) = Ret (b, m') \<Longrightarrow> m' = idle s"
  by (auto simp: CanBuyItem_idle split: option.splits if_splits)

lemma BuyItem_idle:
  "BuyItem now role sid cid n (idle s) =
    bindO (CanBuyItem role sid cid n (idle s)) (\<lambda>(can, m). if can then Fault Relock else Ret (False, m))"
proof (cases "CanBuyItem role sid cid n (idle s)")
  case (Fault e)
  then show ?thesis by (simp add: BuyItem_def bindM_def)
next
  case (Ret x)
  obtain b m where x: "x = (b, m)" by fastforce
  with Ret CanBuyItem_state have "m = idle s" by blast
  with Ret x show ?thesis
    by (simp add: BuyItem_def bindM_def retM_def with_lock_idle GetShopItem_def)
qed

section \<open>The shop module as a machine\<close>

datatype shop_cmd =
    CInitShop u64
  | CGetShopList
  | CGetShopInfo i32
  | CGetShopItems i32
  | CBuyItem time_t u64 i32 i32 i32
  | CCanBuyItem u64 i32 i32 i32
  | CGetItemBuyCount u64 i32 i32
  | CAddItemBuyCount u64 i32 i32 i32
  | CGetPurchaseRecords u64
  | CSaveShopData u64
  | CLoadShopData u64

fun shop_exec :: "shop_cmd \<Rightarrow> (ShopModule, bool) oper" where
  "shop_exec (CInitShop r) = InitShop r"
| "shop_exec CGetShopList = bindM GetShopList (\<lambda>_. retM True)"
| "shop_exec (CGetShopInfo i) = succeeded (GetShopInfo i)"
| "shop_exec (CGetShopItems i) = succeeded (GetShopItems i)"
| "shop_exec (CBuyItem now r i c n) = BuyItem now r i c n"
| "shop_exec (CCanBuyItem r i c n) = CanBuyItem r i c n"
| "shop_exec (CGetItemBuyCount r i c) = bindM (GetItemBuyCount r i c) (\<lambda>k. retM (k \<noteq> 0))"
| "shop_exec (CAddItemBuyCount r i c n) = AddItemBuyCount r i c n"
| "shop_exec (CGetPurchaseRecords r) = succeeded (GetPurchaseRecords r)"
| "shop_exec (CSaveShopData r) = SaveShopData r"
| "shop_exec (CLoadShopData r) = LoadShopData r"

text \<open>Nothing ever fills the table of the shops; it stays empty and no call blocks.\<close>

definition shop_step :: "ShopModule \<Rightarrow> ShopModule \<Rightarrow> bool" where
  "shop_step s s' \<longleftrightarrow> shop_configs s' = shop_configs s"

lemma shop_step_refl [simp]: "shop_step s s"
  by (simp add: shop_step_def)

lemma shop_simple_steps:
  "steps_by shop_step (InitShop r)" "steps_by shop_step GetShopList" "steps_by shop_step (GetShopInfo i)"
  "steps_by shop_step (GetShopItems i)" "steps_by shop_step (GetItemBuyCount r i c)"
  "steps_by shop_step (AddItemBuyCount r i c n)" "steps_by shop_step (GetPurchaseRecords r)"
  by (auto simp: InitShop_def GetShopList_def GetShopInfo_def GetShopItems_def GetItemBuyCount_def
      AddItemBuyCount_def GetPurchaseRecords_def shop_step_def Let_def intro!: steps_by_guarded)

lemma shop_buy_steps: "steps_by shop_step (CanBuyItem r i c n)" "steps_by shop_step (BuyItem now r i c n)"
  by (auto simp: steps_by_def BuyItem_idle dest!: CanBuyItem_state split: if_splits)

lemma shop_exec_steps: "steps_by shop_step (shop_exec c)"
  by (cases c)
    (auto simp: SaveShopData_def LoadShopData_def
      intro!: stepping shop_simple_steps shop_buy_steps)

lemma shop_exec_live: "shop_configs s = [] \<Longrightarrow> shop_exec c (idle s) \<noteq> Fault Relock"
  by (cases c)
    (auto simp: InitShop_def GetShopList_def GetShopInfo_def GetShopItems_def GetItemBuyCount_def
      AddItemBuyCount_def GetPurchaseRecords_def SaveShopData_def LoadShopData_def bindM_def retM_def
      succeeded_def BuyItem_idle CanBuyItem_idle item_of_def Let_def bindO_eq_Fault)

interpretation shop: live_machine shop_exec "\<lambda>s. shop_configs s = []"
proof unfold_locales
  show "\<exists>s'. m' = idle s'" if "shop_exec c (idle s) = Ret (r, m')" for c s r m'
    using steps_by_run [OF that shop_exec_steps] by blast
  show "shop_configs s' = []" if "shop_exec c (idle s) = Ret (r, idle s')" "shop_configs s = []" for c s r s'
    using steps_by_run [OF that(1) shop_exec_steps] that(2) by (auto simp: shop_step_def)
  show "shop_exec c (idle s) \<noteq> Fault Relock" if "shop_configs s = []" for s c
    using that by (rule shop_exec_live)
qed

section \<open>Properties\<close>

text \<open>
  Nothing is ever bought. A purchase that passes its check relocks the mutex, so \<^verbatim>\<open>BuyItem\<close>
  answers \<^verbatim>\<open>true\<close> in no state at all; and since nothing fills the table of the shops, in every run from
  the empty module no purchase blocks either: every one is refused and no purchase is recorded.
\<close>

theorem nothing_is_bought:
  "BuyItem now r sid cid n (idle s) \<noteq> Ret (True, m') \<and>
   (CanBuyItem r sid cid n (idle s) = Ret (True, m) \<longrightarrow> BuyItem now r sid cid n (idle s) = Fault Relock) \<and>
   (\<forall>cs rs s'. run_cmds shop_exec cs (idle shop_init) = Ret (rs, idle s') \<longrightarrow>
      BuyItem now r sid cid n (idle s') = Ret (False, idle s'))"
proof (intro conjI impI allI)
  show "BuyItem now r sid cid n (idle s) \<noteq> Ret (True, m')"
    by (auto simp: BuyItem_idle split: if_splits)
  show "BuyItem now r sid cid n (idle s) = Fault Relock" if "CanBuyItem r sid cid n (idle s) = Ret (True, m)"
    using that by (simp add: BuyItem_idle)
  show "BuyItem now r sid cid n (idle s') = Ret (False, idle s')"
    if "run_cmds shop_exec cs (idle shop_init) = Ret (rs, idle s')" for cs rs s'
    using shop.run_inv [OF that] by (simp add: shop_init_def BuyItem_idle CanBuyItem_idle item_of_def)
qed

definition sample_shop :: ShopInfo where
  "sample_shop = \<lparr>shop_id = 1, shop_type = NORMAL, shop_name = ''s'',
     items = [\<lparr>config_id = 5, price_type = 1, price = 300, discount = 0, buy_limit = 10\<rparr>],
     refresh_time = 0, refresh_cost = 0, is_open = True\<rparr>"

theorem nothing_is_bought_witness:
  "BuyItem 9 7 1 5 2 (idle (shop_init\<lparr>shop_configs := [(1, sample_shop)]\<rparr>)) = Fault Relock"
proof -
  let ?s = "shop_init\<lparr>shop_configs := [(1, sample_shop)]\<rparr>"
  have "\<exists>m. CanBuyItem 7 1 5 2 (idle ?s) = Ret (True, m)"
    by (rule exI, code_simp)
  then show ?thesis using nothing_is_bought [of 9 7 1 5 2 ?s] by blast
qed

text \<open>
  The purchase limit and the price are only flags. For an item on sale, the check compares the
  amount asked for plus one (when the role has bought the item before, however much) or plus nothing
  with the limit; and the amount of money it asks about is the amount of pieces or zero, whatever the
  price of one piece is.
\<close>

theorem limit_and_price_are_flags:
  assumes "item_of s sid cid = Some item" and "0 < n" and "n < 2 ^ 30"
    and "0 \<le> price item" and "price item < 2 ^ 24"
  shows "(0 < buy_limit item \<longrightarrow> CanBuyItem r sid cid n (idle s) =
      Ret ((if bought s r sid cid = 0 then n else n + 1) \<le> buy_limit item, idle s)) \<and>
    (total_price item n = Ret 0 \<or> total_price item n = Ret n)"
proof -
  have flag: "total_price item n = Ret 0 \<or> total_price item n = Ret n"
  proof -
    have "\<exists>p. CalculatePrice (price item) (discount item) = Ret (as_flag p)"
    proof (cases "discount item \<le> 0 \<or> 100 \<le> discount item")
      case True
      then show ?thesis by (auto simp: CalculatePrice_def)
    next
      case False
      then have d: "0 \<le> discount item" "discount item \<le> 100" by auto
      then have "0 \<le> price item * discount item" using assms(4) by simp
      moreover have "price item * discount item \<le> 2 ^ 24 * 100"
        using mult_mono [of "price item" "2 ^ 24" "discount item" 100] d assms(4,5) by simp
      ultimately have "in_i32 (price item * discount item)" by (simp add: in_i32_def)
      with False show ?thesis by (auto simp: CalculatePrice_def)
    qed
    then obtain p where p: "CalculatePrice (price item) (discount item) = Ret (as_flag p)" by blast
    have n: "in_i32 n" using assms(2,3) by (simp add: in_i32_def)
    show ?thesis using p n as_flag_cases [of p]
      by (elim disjE) (simp_all add: total_price_def mul32_def in_i32_def)
  qed
  moreover have "in_i32 (as_flag (bought s r sid cid) + n)"
    using assms(2,3) by (simp add: in_i32_def as_flag_def)
  ultimately show ?thesis using assms(1,2)
    by (auto simp: CanBuyItem_idle as_flag_def add.commute)
qed

theorem limit_and_price_are_flags_witness:
  "CanBuyItem 7 1 5 9 (idle (shop_init\<lparr>shop_configs := [(1, sample_shop)],
     buy_count_cache := [(7, [(1, [(5, 1000)])])]\<rparr>)) =
   Ret (True, idle (shop_init\<lparr>shop_configs := [(1, sample_shop)], buy_count_cache := [(7, [(1, [(5, 1000)])])]\<rparr>))"
proof -
  let ?s = "shop_init\<lparr>shop_configs := [(1, sample_shop)], buy_count_cache := [(7, [(1, [(5, 1000)])])]\<rparr>"
  let ?i = "\<lparr>config_id = 5, price_type = 1, price = 300, discount = 0, buy_limit = 10\<rparr> :: ShopItem"
  have "item_of ?s 1 5 = Some ?i" by (simp add: item_of_def sample_shop_def)
  from limit_and_price_are_flags [OF this, of 9 7] show ?thesis by (simp add: bought_def)
qed

end
