(* ===== verification/Activity.thy ===== *)
theory Activity
  imports Machine "HOL-Library.Multiset"
begin

text \<open>
  \<open>game_server/logic_server/activity_module.cc\<close>: the activities, the data of the roles taking part
  (score, tasks and their rewards), and the ranking by score.
\<close>

section \<open>Data\<close>

text \<open>
  The structures of the header and the protobuf messages of \<^verbatim>\<open>msg_activity.proto\<close> have the same
  fields, but a message also holds a repeated field the structure lacks: a message is an extension of
  the structure, and the copying of a message to a structure is its truncation.
\<close>

record ActivityRewardInfo =
  reward_id :: i32
  reward_type :: i32
  reward_value :: i32
  reward_count :: i32

record ActivityTaskInfo =
  task_id :: i32
  task_type :: i32
  target_id :: i32
  target_count :: i32
  current_count :: i32
  is_completed :: bool
  is_rewarded :: bool

record ActivityTaskMsg = ActivityTaskInfo +
  task_rewards :: "ActivityRewardInfo list"

record ActivityInfo =
  info_id :: i32
  activity_name :: string
  activity_type :: i32
  status :: i32
  start_time :: time_t
  end_time :: time_t
  reward_end_time :: time_t
  description :: string
  is_active :: bool

record ActivityMsg = ActivityInfo +
  activity_tasks :: "ActivityTaskMsg list"

record PlayerActivityData =
  activity_id :: i32
  score :: i32
  data_rank :: i32
  join_time :: time_t
  is_joined :: bool

record PlayerActivityMsg = PlayerActivityData +
  player_tasks :: "ActivityTaskMsg list"

record ActivityRankData =
  rank_role_id :: u64
  rank_role_name :: string
  rank_score :: i32
  rank_place :: i32

record ActivityModule =
  activity_cache :: "(i32 \<times> ActivityMsg) list"
  player_activity_cache :: "(u64 \<times> PlayerActivityMsg list) list"

section \<open>Operations\<close>

definition test_task :: ActivityTaskMsg where
  "test_task = \<lparr>task_id = 1, task_type = 1, target_id = 0, target_count = 10, current_count = 0,
     is_completed = False, is_rewarded = False, task_rewards = []\<rparr>"

text \<open>\<open>t1 t2 t3\<close> are the readings of the clock, in the order the code takes them.\<close>

definition test_activity :: "time_t \<Rightarrow> time_t \<Rightarrow> time_t \<Rightarrow> ActivityMsg" where
  "test_activity t1 t2 t3 = \<lparr>info_id = 1, activity_name = ''Test Activity'', activity_type = 1,
     status = 1, start_time = t1, end_time = t2 + 86400, reward_end_time = t3 + 172800,
     description = ''Test activity description'', is_active = True, activity_tasks = [test_task]\<rparr>"

definition load_activity_data :: "time_t \<Rightarrow> time_t \<Rightarrow> time_t \<Rightarrow> u64 \<Rightarrow> ActivityModule \<Rightarrow> ActivityModule" where
  "load_activity_data t1 t2 t3 role s =
     (if role = 0
      then s\<lparr>activity_cache := AList.update 1 (test_activity t1 t2 t3) (activity_cache s)\<rparr>
      else case map_of (player_activity_cache s) role of
             Some _ \<Rightarrow> s
           | None \<Rightarrow> s\<lparr>player_activity_cache := AList.update role
               [\<lparr>activity_id = 1, score = 0, data_rank = 0, join_time = t1, is_joined = False,
                 player_tasks = [test_task]\<rparr>] (player_activity_cache s)\<rparr>)"

definition LoadActivityData :: "time_t \<Rightarrow> time_t \<Rightarrow> time_t \<Rightarrow> u64 \<Rightarrow> (ActivityModule, bool) oper" where
  "LoadActivityData t1 t2 t3 role = guarded (\<lambda>s. Ret (True, load_activity_data t1 t2 t3 role s))"

text \<open>The constructor loads the activities.\<close>

definition activity_init :: "time_t \<Rightarrow> time_t \<Rightarrow> time_t \<Rightarrow> ActivityModule" where
  "activity_init t1 t2 t3 =
     load_activity_data t1 t2 t3 0 \<lparr>activity_cache = [], player_activity_cache = []\<rparr>"

definition for_activity :: "i32 \<Rightarrow> PlayerActivityMsg \<Rightarrow> bool" where
  "for_activity a d \<longleftrightarrow> activity_id d = a"

definition with_id :: "i32 \<Rightarrow> ActivityTaskMsg \<Rightarrow> bool" where
  "with_id t k \<longleftrightarrow> task_id k = t"

definition new_player_data :: "i32 \<Rightarrow> time_t \<Rightarrow> PlayerActivityMsg" where
  "new_player_data a now = \<lparr>activity_id = a, score = 0, data_rank = 0, join_time = now,
     is_joined = True, player_tasks = []\<rparr>"

definition JoinActivity :: "time_t \<Rightarrow> u64 \<Rightarrow> i32 \<Rightarrow> (ActivityModule, bool) oper" where
  "JoinActivity now role a = guarded (\<lambda>s.
     case map_of (activity_cache s) a of
       None \<Rightarrow> Ret (False, s)
     | Some act \<Rightarrow>
         if \<not> is_active act then Ret (False, s)
         else if list_ex (for_activity a) (entry (player_activity_cache s) role) then Ret (False, s)
         else Ret (True, s\<lparr>player_activity_cache := AList.update role
                (entry (player_activity_cache s) role @ [new_player_data a now])
                (player_activity_cache s)\<rparr>))"

definition GetActivityInfo :: "i32 \<Rightarrow> (ActivityModule, ActivityInfo option) oper" where
  "GetActivityInfo a = guarded (\<lambda>s.
     Ret (map_option ActivityInfo.truncate (map_of (activity_cache s) a), s))"

definition GetActivityList :: "(ActivityModule, ActivityInfo list) oper" where
  "GetActivityList = guarded (\<lambda>s.
     Ret (map (\<lambda>(a, act). ActivityInfo.truncate act) (in_key_order (activity_cache s)), s))"

definition GetPlayerActivityData :: "u64 \<Rightarrow> (ActivityModule, PlayerActivityData list option) oper" where
  "GetPlayerActivityData role = guarded (\<lambda>s.
     Ret (map_option (map PlayerActivityData.truncate) (map_of (player_activity_cache s) role), s))"

definition GetActivityTaskProgress ::
  "u64 \<Rightarrow> i32 \<Rightarrow> (ActivityModule, ActivityTaskInfo list option) oper" where
  "GetActivityTaskProgress role a = guarded (\<lambda>s.
     case map_of (player_activity_cache s) role of
       None \<Rightarrow> Ret (None, s)
     | Some ds \<Rightarrow>
         (case List.find (for_activity a) ds of
            None \<Rightarrow> Ret (None, s)
          | Some d \<Rightarrow> Ret (Some (map ActivityTaskInfo.truncate (player_tasks d)), s)))"

text \<open>
  The two nested loops that look for the task of an activity and change it in place: the first
  data of the activity, and in it the first task with the identifier.
\<close>

definition task_in :: "i32 \<Rightarrow> i32 \<Rightarrow> PlayerActivityMsg list \<Rightarrow> ActivityTaskMsg option" where
  "task_in a t ds = (case List.find (for_activity a) ds of
     None \<Rightarrow> None | Some d \<Rightarrow> List.find (with_id t) (player_tasks d))"

definition change_task ::
  "u64 \<Rightarrow> i32 \<Rightarrow> i32 \<Rightarrow> (ActivityTaskMsg \<Rightarrow> ActivityTaskMsg) \<Rightarrow> ActivityModule \<Rightarrow> ActivityModule" where
  "change_task role a t f s = s\<lparr>player_activity_cache := AList.update role
     (upd_first (for_activity a) (\<lambda>d. d\<lparr>player_tasks := upd_first (with_id t) f (player_tasks d)\<rparr>)
       (entry (player_activity_cache s) role)) (player_activity_cache s)\<rparr>"

definition set_progress :: "i32 \<Rightarrow> ActivityTaskMsg \<Rightarrow> ActivityTaskMsg" where
  "set_progress n k =
     (let k' = k\<lparr>current_count := n\<rparr>
      in if current_count k' \<ge> target_count k' then k'\<lparr>is_completed := True\<rparr> else k')"

definition UpdateTaskProgress :: "u64 \<Rightarrow> i32 \<Rightarrow> i32 \<Rightarrow> i32 \<Rightarrow> (ActivityModule, bool) oper" where
  "UpdateTaskProgress role a t n = guarded (\<lambda>s.
     case map_of (player_activity_cache s) role of
       None \<Rightarrow> Ret (False, s)
     | Some ds \<Rightarrow>
         (case task_in a t ds of
            None \<Rightarrow> Ret (False, s)
          | Some k \<Rightarrow> Ret (True, change_task role a t (set_progress n) s)))"

definition GetTaskReward :: "u64 \<Rightarrow> i32 \<Rightarrow> i32 \<Rightarrow> (ActivityModule, ActivityRewardInfo list option) oper" where
  "GetTaskReward role a t = guarded (\<lambda>s.
     case map_of (player_activity_cache s) role of
       None \<Rightarrow> Ret (None, s)
     | Some ds \<Rightarrow>
         (case task_in a t ds of
            None \<Rightarrow> Ret (None, s)
          | Some k \<Rightarrow>
              if \<not> is_completed k then Ret (None, s)
              else if is_rewarded k then Ret (None, s)
              else Ret (Some (task_rewards k), change_task role a t (\<lambda>k. k\<lparr>is_rewarded := True\<rparr>) s)))"

text \<open>
  The ranking. The scores are collected in the order of the roles and sorted by \<^verbatim>\<open>std::sort\<close>, which
  leaves the order of equal scores open: it is the parameter \<open>srt\<close> (its contract is the locale
  \<open>descending_sort\<close> below). \<^verbatim>\<open>count\<close> is converted to an unsigned 64-bit number.
\<close>

definition player_scores :: "i32 \<Rightarrow> ActivityModule \<Rightarrow> (u64 \<times> i32) list" where
  "player_scores a s = concat (map (\<lambda>(role, ds). map (\<lambda>d. (role, score d)) (filter (for_activity a) ds))
     (in_key_order (player_activity_cache s)))"

definition rank_data :: "(u64 \<times> i32) list \<Rightarrow> nat \<Rightarrow> ActivityRankData" where
  "rank_data ps i = \<lparr>rank_role_id = fst (ps ! i), rank_role_name = [], rank_score = snd (ps ! i),
     rank_place = to_i32 (int (i + 1))\<rparr>"

definition GetActivityRanking ::
  "((u64 \<times> i32) list \<Rightarrow> (u64 \<times> i32) list) \<Rightarrow> i32 \<Rightarrow> i32 \<Rightarrow> (ActivityModule, ActivityRankData list) oper" where
  "GetActivityRanking srt a n = guarded (\<lambda>s.
     let ps = srt (player_scores a s)
     in Ret (map (rank_data ps) [0..<min (length ps) (unat (word_of_int n :: u64))], s))"

definition UpdateActivityScore :: "u64 \<Rightarrow> i32 \<Rightarrow> i32 \<Rightarrow> (ActivityModule, bool) oper" where
  "UpdateActivityScore role a n = guarded (\<lambda>s.
     case map_of (player_activity_cache s) role of
       None \<Rightarrow> Ret (False, s)
     | Some ds \<Rightarrow>
         (case List.find (for_activity a) ds of
            None \<Rightarrow> Ret (False, s)
          | Some d \<Rightarrow> bindO (add32 (score d) n) (\<lambda>x.
              Ret (True, s\<lparr>player_activity_cache := AList.update role
                (upd_first (for_activity a) (\<lambda>d. d\<lparr>score := x\<rparr>) ds) (player_activity_cache s)\<rparr>))))"

text \<open>Saving serialises the data and drops the text; the state stays as it is.\<close>

definition SaveActivityData :: "u64 \<Rightarrow> (ActivityModule, bool) oper" where
  "SaveActivityData role = guarded (\<lambda>s. Ret (True, s))"

section \<open>What the operations keep\<close>

text \<open>
  Data of a role are made in two ways: loading makes data of activity 1 with the test task and the
  role not joined; joining makes data without tasks. A task is marked as completed once its count
  reached the target, rewarded only when completed, and no task has a reward to give.
\<close>

definition task_fine :: "ActivityTaskMsg \<Rightarrow> bool" where
  "task_fine k \<longleftrightarrow> task_rewards k = [] \<and> target_count k = 10 \<and>
     (10 \<le> current_count k \<longrightarrow> is_completed k) \<and> (is_rewarded k \<longrightarrow> is_completed k)"

definition data_fine :: "PlayerActivityMsg \<Rightarrow> bool" where
  "data_fine d \<longleftrightarrow> (if is_joined d then player_tasks d = []
     else activity_id d = 1 \<and> map task_id (player_tasks d) = [1]) \<and> list_all task_fine (player_tasks d)"

definition datas_fine :: "PlayerActivityMsg list \<Rightarrow> bool" where
  "datas_fine ds \<longleftrightarrow> distinct (map activity_id ds) \<and> list_all data_fine ds"

definition activity_inv :: "ActivityModule \<Rightarrow> bool" where
  "activity_inv s \<longleftrightarrow> keys_ok (player_activity_cache s) \<and> all_vals datas_fine (player_activity_cache s) \<and>
     all_entries (\<lambda>a act. info_id act = a \<and> is_active act) (activity_cache s)"

definition data_of :: "ActivityModule \<Rightarrow> u64 \<Rightarrow> i32 \<Rightarrow> PlayerActivityMsg option" where
  "data_of s r a = List.find (for_activity a) (entry (player_activity_cache s) r)"

definition task_of :: "ActivityModule \<Rightarrow> u64 \<Rightarrow> i32 \<Rightarrow> i32 \<Rightarrow> ActivityTaskMsg option" where
  "task_of s r a t = task_in a t (entry (player_activity_cache s) r)"

definition joined :: "ActivityModule \<Rightarrow> u64 \<Rightarrow> i32 \<Rightarrow> bool" where
  "joined s r a \<longleftrightarrow> map_option is_joined (data_of s r a) = Some True"

definition paid :: "ActivityModule \<Rightarrow> u64 \<Rightarrow> i32 \<Rightarrow> i32 \<Rightarrow> bool" where
  "paid s r a t \<longleftrightarrow> map_option is_rewarded (task_of s r a t) = Some True"

lemma activity_inv_init: "activity_inv (activity_init t1 t2 t3)"
  by (simp add: activity_inv_def activity_init_def load_activity_data_def test_activity_def all_entries_def)

lemma entry_datas_fine: "activity_inv s \<Longrightarrow> datas_fine (entry (player_activity_cache s) r)"
  by (auto simp: activity_inv_def entry_def datas_fine_def dest: all_valsD split: option.split)

lemma activity_inv_put:
  "activity_inv s \<Longrightarrow> datas_fine ds \<Longrightarrow>
   activity_inv (s\<lparr>player_activity_cache := AList.update r ds (player_activity_cache s)\<rparr>)"
  by (simp add: activity_inv_def all_vals_update)

text \<open>The two loops look for a key, so an update in place commutes with the search.\<close>

lemmas by_key = for_activity_def [abs_def] with_id_def [abs_def]

lemma find_data_changed:
  "(\<And>d. activity_id (f d) = activity_id d) \<Longrightarrow>
   List.find (for_activity b) (upd_first (for_activity a) f ds) =
     (if b = a then map_option f (List.find (for_activity a) ds) else List.find (for_activity b) ds)"
  unfolding by_key by (rule find_key_upd_first)

lemma find_task_changed:
  "(\<And>k. task_id (f k) = task_id k) \<Longrightarrow>
   List.find (with_id u) (upd_first (with_id t) f ks) =
     (if u = t then map_option f (List.find (with_id t) ks) else List.find (with_id u) ks)"
  unfolding by_key by (rule find_key_upd_first)

lemma data_of_change:
  "data_of (change_task r a t f s) q b =
     (if q = r \<and> b = a then map_option (\<lambda>d. d\<lparr>player_tasks := upd_first (with_id t) f (player_tasks d)\<rparr>)
        (data_of s r a) else data_of s q b)"
  by (simp add: data_of_def change_task_def find_data_changed)

lemma joined_change [simp]: "joined (change_task r a t f s) q b = joined s q b"
  by (auto simp: joined_def data_of_change)

lemma task_of_data: "task_of s r a t =
    (case data_of s r a of None \<Rightarrow> None | Some d \<Rightarrow> List.find (with_id t) (player_tasks d))"
  by (simp add: task_of_def task_in_def data_of_def)

lemma task_of_change:
  assumes "\<And>k. task_id (f k) = task_id k"
  shows "task_of (change_task r a t f s) q b u =
     (if q = r \<and> b = a \<and> u = t then map_option f (task_of s r a t) else task_of s q b u)"
  using assms by (auto simp: task_of_data data_of_change find_task_changed split: option.split)

lemma data_fine_change:
  assumes "data_fine d" and "\<And>k. task_id (f k) = task_id k"
    and "\<And>k. k \<in> set (player_tasks d) \<Longrightarrow> with_id t k \<Longrightarrow> task_fine k \<Longrightarrow> task_fine (f k)"
  shows "data_fine (d\<lparr>player_tasks := upd_first (with_id t) f (player_tasks d)\<rparr>)"
proof -
  have "map task_id (upd_first (with_id t) f (player_tasks d)) = map task_id (player_tasks d)"
    by (rule map_upd_first) (rule assms(2))
  moreover have "task_fine k" if "k \<in> set (upd_first (with_id t) f (player_tasks d))" for k
    using upd_first_set_cases [OF that] assms(1,3) by (auto simp: data_fine_def list_all_iff)
  ultimately show ?thesis using assms(1) by (auto simp: data_fine_def list_all_iff)
qed

lemma activity_inv_change:
  assumes "activity_inv s" and "\<And>k. task_id (f k) = task_id k"
    and "\<And>k. task_of s r a t = Some k \<Longrightarrow> task_fine k \<Longrightarrow> task_fine (f k)"
  shows "activity_inv (change_task r a t f s)"
  unfolding change_task_def
proof (rule activity_inv_put [OF assms(1)])
  let ?ds = "entry (player_activity_cache s) r"
  let ?f = "\<lambda>d. d\<lparr>player_tasks := upd_first (with_id t) f (player_tasks d)\<rparr>"
  from entry_datas_fine [OF assms(1)] have ds: "distinct (map activity_id ?ds)" "list_all data_fine ?ds"
    by (auto simp: datas_fine_def)
  have "map activity_id (upd_first (for_activity a) ?f ?ds) = map activity_id ?ds"
    by (rule map_upd_first) simp
  moreover have "data_fine e" if e: "e \<in> set (upd_first (for_activity a) ?f ?ds)" for e
  proof (cases "List.find (for_activity a) ?ds")
    case None
    then have "upd_first (for_activity a) ?f ?ds = ?ds"
      by (intro upd_first_id) (simp add: find_None_all)
    with e ds(2) show ?thesis by (simp add: list_all_iff)
  next
    case (Some d)
    from find_Some_mem [OF Some] ds(2) have d: "data_fine d" by (simp add: list_all_iff)
    have "task_fine (f k)" if k: "k \<in> set (player_tasks d)" "with_id t k" "task_fine k" for k
    proof (rule assms(3))
      from d k(1) have "player_tasks d = [k]" by (auto simp: data_fine_def map_eq_Cons_conv split: if_splits)
      with k(2) Some show "task_of s r a t = Some k" by (simp add: task_of_def task_in_def)
    qed (rule k(3))
    with d assms(2) have "data_fine (?f d)" by (intro data_fine_change)
    with upd_first_found_cases [OF Some e] ds(2) show ?thesis by (auto simp: list_all_iff)
  qed
  ultimately show "datas_fine (upd_first (for_activity a) ?f ?ds)"
    using ds(1) by (simp add: datas_fine_def list_all_iff)
qed

text \<open>
  What every operation other than the granting of a reward does: the invariant is kept, a role that
  joined stays joined, and no reward mark appears or goes away.
\<close>

definition activity_step :: "ActivityModule \<Rightarrow> ActivityModule \<Rightarrow> bool" where
  "activity_step s s' \<longleftrightarrow> (activity_inv s \<longrightarrow> activity_inv s') \<and>
     (\<forall>r a. joined s r a \<longrightarrow> joined s' r a) \<and> (\<forall>r a t. paid s' r a t \<longleftrightarrow> paid s r a t)"

lemma activity_step_refl [simp]: "activity_step s s"
  by (simp add: activity_step_def)

lemma activity_query_steps:
  "steps_by activity_step (GetActivityInfo a)" "steps_by activity_step GetActivityList"
  "steps_by activity_step (GetPlayerActivityData r)" "steps_by activity_step (GetActivityTaskProgress r a)"
  "steps_by activity_step (GetActivityRanking srt a n)" "steps_by activity_step (SaveActivityData r)"
  by (auto intro!: steps_by_guarded simp: GetActivityInfo_def GetActivityList_def GetPlayerActivityData_def
      GetActivityTaskProgress_def GetActivityRanking_def SaveActivityData_def Let_def split: option.splits)

lemma task_fine_test: "task_fine test_task"
  by (simp add: task_fine_def test_task_def)

lemma load_activity_data_step: "activity_step s (load_activity_data t1 t2 t3 role s)"
proof (cases "role = 0 \<or> map_of (player_activity_cache s) role \<noteq> None")
  case True
  then show ?thesis
    by (auto simp: activity_step_def load_activity_data_def activity_inv_def joined_def paid_def data_of_def
        task_of_def test_activity_def intro!: all_entries_update split: option.split)
next
  case False
  let ?d = "\<lparr>activity_id = 1, score = 0, data_rank = 0, join_time = t1, is_joined = False,
    player_tasks = [test_task]\<rparr> :: PlayerActivityMsg"
  have new: "load_activity_data t1 t2 t3 role s =
      s\<lparr>player_activity_cache := AList.update role [?d] (player_activity_cache s)\<rparr>"
    using False by (simp add: load_activity_data_def)
  have "datas_fine [?d]"
    using task_fine_test by (simp add: datas_fine_def data_fine_def) (simp add: test_task_def)
  with False show ?thesis
    unfolding new activity_step_def
    by (auto simp: activity_inv_put joined_def paid_def data_of_def task_of_def task_in_def
        for_activity_def with_id_def test_task_def split: if_splits)
qed

lemma LoadActivityData_steps: "steps_by activity_step (LoadActivityData t1 t2 t3 r)"
  by (auto intro!: steps_by_guarded simp: LoadActivityData_def load_activity_data_step)

lemma find_append_one: "List.find p (xs @ [x]) =
    (case List.find p xs of None \<Rightarrow> if p x then Some x else None | Some y \<Rightarrow> Some y)"
  by (induction xs) auto

lemma join_step:
  assumes "\<not> list_ex (for_activity a) (entry (player_activity_cache s) r)"
  shows "activity_step s (s\<lparr>player_activity_cache := AList.update r
    (entry (player_activity_cache s) r @ [new_player_data a now]) (player_activity_cache s)\<rparr>)"
proof -
  let ?ds = "entry (player_activity_cache s) r"
  have new: "\<forall>d\<in>set ?ds. activity_id d \<noteq> a"
    using assms by (auto simp: list_ex_iff for_activity_def)
  then have "datas_fine ?ds \<Longrightarrow> datas_fine (?ds @ [new_player_data a now])"
    by (auto simp: datas_fine_def data_fine_def new_player_data_def)
  then have inv: "activity_inv s \<Longrightarrow> activity_inv (s\<lparr>player_activity_cache := AList.update r
      (?ds @ [new_player_data a now]) (player_activity_cache s)\<rparr>)"
    using entry_datas_fine activity_inv_put by blast
  have "List.find (for_activity a) ?ds = None"
    using assms by (auto simp: list_ex_iff find_None_all)
  with inv show ?thesis
    by (auto simp: activity_step_def joined_def paid_def data_of_def task_of_def task_in_def
        find_append_one new_player_data_def split: option.splits if_splits)
qed

lemma JoinActivity_steps: "steps_by activity_step (JoinActivity now r a)"
  by (auto intro!: steps_by_guarded simp: JoinActivity_def join_step split: option.splits if_splits)

lemma set_progress_simps [simp]:
  "task_id (set_progress n k) = task_id k" "is_rewarded (set_progress n k) = is_rewarded k"
  "task_rewards (set_progress n k) = task_rewards k"
  "is_completed (set_progress n k) \<longleftrightarrow> is_completed k \<or> target_count k \<le> n"
  by (simp_all add: set_progress_def Let_def)

lemma task_fine_progress: "task_fine k \<Longrightarrow> task_fine (set_progress n k)"
  by (auto simp: task_fine_def set_progress_def Let_def)

lemma progress_step: "activity_step s (change_task r a t (set_progress n) s)"
  by (auto simp: activity_step_def activity_inv_change task_fine_progress paid_def task_of_change)

lemma ActivityProgress_steps: "steps_by activity_step (UpdateTaskProgress r a t n)"
  by (auto intro!: steps_by_guarded simp: UpdateTaskProgress_def progress_step split: option.splits)

lemma score_step:
  assumes "map_of (player_activity_cache s) r = Some ds"
  shows "activity_step s (s\<lparr>player_activity_cache := AList.update r
    (upd_first (for_activity a) (\<lambda>d. d\<lparr>score := x\<rparr>) ds) (player_activity_cache s)\<rparr>)"
proof -
  let ?f = "\<lambda>d :: PlayerActivityMsg. d\<lparr>score := x\<rparr>"
  have e: "entry (player_activity_cache s) r = ds" using assms by simp
  have "map activity_id (upd_first (for_activity a) ?f ds) = map activity_id ds"
    by (rule map_upd_first) simp
  moreover have "data_fine (?f d) = data_fine d" for d by (simp add: data_fine_def)
  ultimately have "datas_fine ds \<Longrightarrow> datas_fine (upd_first (for_activity a) ?f ds)"
    using upd_first_set_cases [of _ "for_activity a" ?f ds] by (fastforce simp: datas_fine_def list_all_iff)
  then have inv: "activity_inv s \<Longrightarrow> activity_inv (s\<lparr>player_activity_cache := AList.update r
      (upd_first (for_activity a) ?f ds) (player_activity_cache s)\<rparr>)"
    using entry_datas_fine [of s r] activity_inv_put by (simp add: e)
  have d: "List.find (for_activity b) (upd_first (for_activity a) ?f ds) =
      (if b = a then map_option ?f (List.find (for_activity a) ds) else List.find (for_activity b) ds)" for b
    by (rule find_data_changed) simp
  from inv show ?thesis
    by (auto simp: activity_step_def joined_def paid_def data_of_def task_of_def task_in_def d e
        split: option.splits)
qed

lemma UpdateActivityScore_steps: "steps_by activity_step (UpdateActivityScore r a n)"
  by (auto intro!: steps_by_guarded simp: UpdateActivityScore_def score_step split: option.splits)

text \<open>A reward is granted for a completed task that has not been rewarded, and marks it.\<close>

lemma GetTaskReward_cases:
  assumes "GetTaskReward r a t (idle s) = Ret (rep, m')"
  shows "(rep = None \<and> m' = idle s) \<or>
    (\<exists>k s'. task_of s r a t = Some k \<and> is_completed k \<and> \<not> is_rewarded k \<and> rep = Some (task_rewards k) \<and>
       m' = idle s' \<and> s' = change_task r a t (\<lambda>k. k\<lparr>is_rewarded := True\<rparr>) s)"
  using assms by (auto simp: GetTaskReward_def task_of_def split: option.splits if_splits)

lemma reward_marks:
  assumes "task_of s r a t = Some k" and "is_completed k" and "\<not> is_rewarded k"
    and "s' = change_task r a t (\<lambda>k. k\<lparr>is_rewarded := True\<rparr>) s"
  shows "(activity_inv s \<longrightarrow> activity_inv s')" and "joined s' q b = joined s q b"
    and "\<not> paid s r a t" and "paid s' q b u \<longleftrightarrow> paid s q b u \<or> (q = r \<and> b = a \<and> u = t)"
proof -
  show "activity_inv s \<longrightarrow> activity_inv s'"
    unfolding assms(4) using assms(1,2) by (auto intro!: activity_inv_change simp: task_fine_def)
  show "paid s' q b u \<longleftrightarrow> paid s q b u \<or> (q = r \<and> b = a \<and> u = t)"
    unfolding assms(4) paid_def using assms(1) by (auto simp: task_of_change)
qed (use assms in \<open>simp_all add: paid_def\<close>)

section \<open>The activity module as a machine\<close>

text \<open>One command for each public method.\<close>

datatype activity_cmd =
    CJoinActivity time_t u64 i32
  | CGetActivityInfo i32
  | CGetActivityList
  | CGetPlayerActivityData u64
  | CGetActivityTaskProgress u64 i32
  | CUpdateTaskProgress u64 i32 i32 i32
  | CGetTaskReward u64 i32 i32
  | CGetActivityRanking "(u64 \<times> i32) list \<Rightarrow> (u64 \<times> i32) list" i32 i32
  | CUpdateActivityScore u64 i32 i32
  | CSaveActivityData u64
  | CLoadActivityData time_t time_t time_t u64

definition answer_true :: "('s, 'r) oper \<Rightarrow> ('s, bool) oper" where
  "answer_true p = bindM p (\<lambda>_. retM True)"

fun activity_exec :: "activity_cmd \<Rightarrow> (ActivityModule, bool) oper" where
  "activity_exec (CJoinActivity now r a) = JoinActivity now r a"
| "activity_exec (CGetActivityInfo a) = succeeded (GetActivityInfo a)"
| "activity_exec CGetActivityList = answer_true GetActivityList"
| "activity_exec (CGetPlayerActivityData r) = succeeded (GetPlayerActivityData r)"
| "activity_exec (CGetActivityTaskProgress r a) = succeeded (GetActivityTaskProgress r a)"
| "activity_exec (CUpdateTaskProgress r a t n) = UpdateTaskProgress r a t n"
| "activity_exec (CGetTaskReward r a t) = succeeded (GetTaskReward r a t)"
| "activity_exec (CGetActivityRanking srt a n) = answer_true (GetActivityRanking srt a n)"
| "activity_exec (CUpdateActivityScore r a n) = UpdateActivityScore r a n"
| "activity_exec (CSaveActivityData r) = SaveActivityData r"
| "activity_exec (CLoadActivityData t1 t2 t3 r) = LoadActivityData t1 t2 t3 r"

fun claims :: "u64 \<Rightarrow> i32 \<Rightarrow> i32 \<Rightarrow> activity_cmd \<Rightarrow> bool" where
  "claims r a t (CGetTaskReward r' a' t') \<longleftrightarrow> r' = r \<and> a' = a \<and> t' = t"
| "claims r a t _ \<longleftrightarrow> False"

lemma activity_exec_steps: "\<forall>r a t. c \<noteq> CGetTaskReward r a t \<Longrightarrow> steps_by activity_step (activity_exec c)"
  by (cases c) (auto intro!: steps_by_succeeded steps_by_bindM_ret activity_query_steps JoinActivity_steps
      ActivityProgress_steps UpdateActivityScore_steps LoadActivityData_steps simp: answer_true_def)

lemma activity_exec_move:
  assumes "activity_exec c (idle s) = Ret (ok, m')"
  shows "\<exists>s'. m' = idle s' \<and> (activity_inv s \<longrightarrow> activity_inv s') \<and> (joined s r a \<longrightarrow> joined s' r a) \<and>
    (if claims r a t c \<and> ok then \<not> paid s r a t \<and> paid s' r a t else paid s' r a t = paid s r a t)"
proof (cases "\<forall>r a t. c \<noteq> CGetTaskReward r a t")
  case True
  then have "\<not> claims r a t c" by (cases c) auto
  with steps_by_run [OF assms activity_exec_steps [OF True]] show ?thesis by (auto simp: activity_step_def)
next
  case False
  then obtain r' a' t' where c: "c = CGetTaskReward r' a' t'" by auto
  with assms obtain rep where rep: "GetTaskReward r' a' t' (idle s) = Ret (rep, m')" "ok \<longleftrightarrow> rep \<noteq> None"
    by (auto simp: succeeded_def)
  from GetTaskReward_cases [OF rep(1)] show ?thesis
  proof
    assume "rep = None \<and> m' = idle s"
    with rep(2) show ?thesis by auto
  next
    assume "\<exists>k s'. task_of s r' a' t' = Some k \<and> is_completed k \<and> \<not> is_rewarded k \<and>
       rep = Some (task_rewards k) \<and> m' = idle s' \<and> s' = change_task r' a' t' (\<lambda>k. k\<lparr>is_rewarded := True\<rparr>) s"
    then obtain k s' where k: "task_of s r' a' t' = Some k" "is_completed k" "\<not> is_rewarded k"
        "s' = change_task r' a' t' (\<lambda>k. k\<lparr>is_rewarded := True\<rparr>) s"
      and m': "m' = idle s'" and ok: "rep \<noteq> None" by blast
    from reward_marks(1,3) [OF k] reward_marks(2) [OF k, of r a] reward_marks(4) [OF k, of r a t] ok rep(2) c m' show ?thesis
      by (intro exI [of _ s']) auto
  qed
qed

lemma activity_exec_live: "activity_exec c (idle s) \<noteq> Fault Relock"
  by (cases c) (auto simp: succeeded_def answer_true_def bindM_def retM_def bindO_eq_Fault JoinActivity_def
      GetActivityInfo_def GetActivityList_def GetPlayerActivityData_def GetActivityTaskProgress_def
      UpdateTaskProgress_def GetTaskReward_def GetActivityRanking_def UpdateActivityScore_def
      SaveActivityData_def LoadActivityData_def Let_def split: option.splits prod.splits if_splits)

interpretation activity: live_machine activity_exec activity_inv
proof unfold_locales
  show "\<exists>s'. m' = idle s'" if "activity_exec c (idle s) = Ret (r, m')" for c s r m'
    using activity_exec_move [OF that] by blast
  show "activity_inv s'" if "activity_exec c (idle s) = Ret (r, idle s')" "activity_inv s" for c s r s'
    using activity_exec_move [OF that(1)] that(2) by auto
  show "activity_exec c (idle s) \<noteq> Fault Relock" for s c
    by (rule activity_exec_live)
qed

section \<open>The ranking\<close>

text \<open>The contract of \<^verbatim>\<open>std::sort\<close> with the comparison of the ranking: a permutation, highest score first.\<close>

locale descending_sort =
  fixes srt :: "('k \<times> i32) list \<Rightarrow> ('k \<times> i32) list"
  assumes srt_mset: "mset (srt xs) = mset xs"
    and srt_sorted: "sorted_wrt (\<lambda>p q. snd q \<le> snd p) (srt xs)"
begin

lemma srt_set [simp]: "set (srt xs) = set xs"
  using srt_mset by (metis set_mset_mset)

lemma srt_length [simp]: "length (srt xs) = length xs"
  using srt_mset by (metis size_mset)

lemma srt_distinct: "distinct (map fst xs) \<Longrightarrow> distinct (map fst (srt xs))"
  using srt_mset [of xs] by (metis mset_map mset_eq_imp_distinct_iff)

text \<open>The first \<open>k\<close> entries are best: whatever is left out scores at most what is in.\<close>

lemma top_sorted: "sorted_wrt (\<lambda>p q. snd q \<le> snd p) (take k (srt xs))"
  using srt_sorted by (rule sorted_wrt_take)

lemma top_beats_rest:
  assumes "p \<in> set (take k (srt xs))" and "q \<in> set xs" and "q \<notin> set (take k (srt xs))"
  shows "snd q \<le> snd p"
proof -
  from assms(2) have "q \<in> set (take k (srt xs) @ drop k (srt xs))" by simp
  with assms(3) have "q \<in> set (drop k (srt xs))" unfolding set_append by blast
  moreover have "sorted_wrt (\<lambda>p q. snd q \<le> snd p) (take k (srt xs) @ drop k (srt xs))"
    using srt_sorted by simp
  ultimately show ?thesis using assms(1) unfolding sorted_wrt_append by blast
qed

end

definition by_score :: "('k \<times> i32) list \<Rightarrow> ('k \<times> i32) list" where
  "by_score = sort_key (\<lambda>p. - snd p)"

interpretation by_score: descending_sort by_score
proof unfold_locales
  show "mset (by_score xs) = mset xs" for xs :: "('k \<times> i32) list"
    by (simp add: by_score_def)
  show "sorted_wrt (\<lambda>p q. snd q \<le> snd p) (by_score xs)" for xs :: "('k \<times> i32) list"
    using sorted_sort_key [of "\<lambda>p. - snd p" xs] by (simp add: by_score_def sorted_wrt_map)
qed

text \<open>Every role takes part in an activity once, so the collected scores are a map.\<close>

lemma filter_one: "distinct (map activity_id ds) \<Longrightarrow>
    filter (for_activity a) ds = (case List.find (for_activity a) ds of None \<Rightarrow> [] | Some d \<Rightarrow> [d])"
proof (induction ds)
  case Nil
  then show ?case by simp
next
  case (Cons d ds)
  show ?case
  proof (cases "activity_id d = a")
    case True
    with Cons.prems have "filter (for_activity a) ds = []"
      by (auto simp: filter_empty_conv for_activity_def image_iff)
    with True show ?thesis by (simp add: for_activity_def [of a d])
  next
    case False
    with Cons show ?thesis by (simp add: for_activity_def [of a d])
  qed
qed

definition scores_of :: "i32 \<Rightarrow> (u64 \<times> PlayerActivityMsg list) list \<Rightarrow> (u64 \<times> i32) list" where
  "scores_of a xs = concat (map (\<lambda>(role, ds).
     map (\<lambda>d. (role, score d)) (filter (for_activity a) ds)) xs)"

lemma scores_of_simps [simp]:
  "scores_of a [] = []"
  "scores_of a ((r, ds) # xs) = map (\<lambda>d. (r, score d)) (filter (for_activity a) ds) @ scores_of a xs"
  by (simp_all add: scores_of_def)

lemma fst_scores_of: "fst ` set (scores_of a xs) \<subseteq> fst ` set xs"
  by (force simp: scores_of_def)

lemma set_scores_of:
  "(q, x) \<in> set (scores_of a xs) \<longleftrightarrow>
     (\<exists>ds. (q, ds) \<in> set xs \<and> (\<exists>d\<in>set ds. for_activity a d \<and> score d = x))"
proof (induction xs)
  case Nil
  then show ?case by simp
next
  case (Cons y ys)
  then show ?case by (cases y) auto
qed

lemma distinct_scores_of:
  "distinct (map fst xs) \<Longrightarrow> \<forall>(r, ds)\<in>set xs. distinct (map activity_id ds) \<Longrightarrow>
   distinct (map fst (scores_of a xs))"
proof (induction xs)
  case Nil
  then show ?case by simp
next
  case (Cons x xs)
  obtain r ds where x: "x = (r, ds)" by fastforce
  with Cons.prems(1) have "r \<notin> fst ` set (scores_of a xs)" using fst_scores_of [of a xs] by auto
  moreover from Cons have "distinct (map fst (scores_of a xs))" by simp
  ultimately show ?case using Cons.prems(2) by (auto simp: x filter_one split: option.split)
qed

lemma player_scores_set:
  assumes "activity_inv s"
  shows "distinct (map fst (player_scores a s))"
    and "(q, x) \<in> set (player_scores a s) \<longleftrightarrow> (\<exists>d. data_of s q a = Some d \<and> score d = x)"
proof -
  let ?xs = "player_activity_cache s"
  have keys: "distinct (map fst ?xs)" using assms by (simp add: activity_inv_def keys_ok_def)
  have mem: "(r, ds) \<in> set ?xs \<longleftrightarrow> map_of ?xs r = Some ds" for r ds
    using keys by (simp add: map_of_eq_Some_iff)
  have fine: "distinct (map activity_id ds)" if "(r, ds) \<in> set ?xs" for r ds
    using that assms unfolding mem by (auto simp: activity_inv_def datas_fine_def dest: all_valsD)
  have eq: "player_scores a s = scores_of a (in_key_order ?xs)"
    by (simp add: player_scores_def scores_of_def)
  have "distinct (map fst (in_key_order ?xs))"
    using keys by (simp add: in_key_order_def distinct_map inj_on_def)
  then show "distinct (map fst (player_scores a s))"
    unfolding eq using fine by (intro distinct_scores_of) auto
  have "(q, x) \<in> set (player_scores a s) \<longleftrightarrow>
      (\<exists>ds. (q, ds) \<in> set ?xs \<and> (\<exists>d\<in>set (filter (for_activity a) ds). score d = x))"
    unfolding eq set_scores_of by auto
  also have "\<dots> \<longleftrightarrow> (\<exists>d. data_of s q a = Some d \<and> score d = x)"
  proof (cases "map_of ?xs q")
    case None
    then show ?thesis by (simp add: mem data_of_def)
  next
    case (Some ds)
    with fine [of q ds] show ?thesis
      by (cases "List.find (for_activity a) ds") (simp_all add: mem data_of_def filter_one del: set_filter)
  qed
  finally show "(q, x) \<in> set (player_scores a s) \<longleftrightarrow> (\<exists>d. data_of s q a = Some d \<and> score d = x)" .
qed

lemma unsigned_count:
  assumes "in_i32 n"
  shows "unat (word_of_int n :: u64) = (if n < 0 then 2 ^ 64 - nat (- n) else nat n)"
proof -
  have "unat (word_of_int n :: u64) = nat (n mod 2 ^ 64)"
    by (simp add: unat_eq_nat_uint uint_word_of_int)
  moreover have "n mod 2 ^ 64 = n + 2 ^ 64" if "n < 0"
    using that assms mod_pos_pos_trivial [of "n + 2 ^ 64" "2 ^ 64"] by (simp add: in_i32_def)
  moreover have "n mod 2 ^ 64 = n" if "\<not> n < 0"
    using that assms by (simp add: in_i32_def)
  ultimately show ?thesis by (auto simp: nat_diff_distrib' in_i32_def)
qed

section \<open>Properties\<close>

text \<open>The number of rewards granted for one task in a run.\<close>

fun granted :: "u64 \<Rightarrow> i32 \<Rightarrow> i32 \<Rightarrow> activity_cmd list \<Rightarrow> bool list \<Rightarrow> nat" where
  "granted r a t (c # cs) (ok # oks) =
     (if claims r a t c \<and> ok then 1 else 0) + granted r a t cs oks"
| "granted r a t _ _ = 0"

lemma activity_run_step:
  assumes "run_cmds activity_exec (c # cs) (idle s) = Ret (oks, m')"
  obtains ok oks1 s1 where "oks = ok # oks1" "activity_exec c (idle s) = Ret (ok, idle s1)"
    "run_cmds activity_exec cs (idle s1) = Ret (oks1, m')"
  using assms activity_exec_move by (fastforce split: prod.splits)

text \<open>
  C29. The reward of an activity task is granted at most once. Over any run of the module the claims
  of one role for one task of one activity that succeed are at most one, none when it was granted
  before the run, and a reward that was granted stays marked.
\<close>

theorem activity_reward_once:
  assumes "run_cmds activity_exec cs (idle s) = Ret (oks, idle s')"
  shows "granted r a t cs oks \<le> (if paid s r a t then 0 else 1) \<and>
    (paid s' r a t \<longleftrightarrow> paid s r a t \<or> 0 < granted r a t cs oks)"
  using assms
proof (induction cs arbitrary: s oks)
  case Nil
  then show ?case by simp
next
  case (Cons c cs)
  from Cons.prems obtain ok oks1 s1 where oks: "oks = ok # oks1"
    and c: "activity_exec c (idle s) = Ret (ok, idle s1)"
    and cs: "run_cmds activity_exec cs (idle s1) = Ret (oks1, idle s')"
    by (rule activity_run_step)
  from activity_exec_move [OF c, of r a t]
  have "if claims r a t c \<and> ok then \<not> paid s r a t \<and> paid s1 r a t else paid s1 r a t = paid s r a t"
    by simp
  with Cons.IH [OF cs] show ?case by (auto simp: oks split: if_splits)
qed

theorem activity_reward_once_witness:
  "\<exists>oks s'. run_cmds activity_exec [CLoadActivityData 5 5 5 7, CUpdateTaskProgress 7 1 1 12,
       CGetTaskReward 7 1 1, CGetTaskReward 7 1 1] (idle (activity_init 1 1 1)) = Ret (oks, idle s') \<and>
     granted 7 1 1 [CLoadActivityData 5 5 5 7, CUpdateTaskProgress 7 1 1 12,
       CGetTaskReward 7 1 1, CGetTaskReward 7 1 1] oks = 1 \<and> paid s' 7 1 1"
proof -
  let ?cs = "[CLoadActivityData 5 5 5 7, CUpdateTaskProgress 7 1 1 12, CGetTaskReward 7 1 1, CGetTaskReward 7 1 1]"
  have "\<exists>m'. run_cmds activity_exec ?cs (idle (activity_init 1 1 1)) = Ret ([True, True, True, False], m')"
    by (rule exI, code_simp)
  then obtain s' where r: "run_cmds activity_exec ?cs (idle (activity_init 1 1 1)) =
      Ret ([True, True, True, False], idle s')"
    using activity.run_inv [OF _ activity_inv_init] by blast
  have g: "granted 7 1 1 ?cs [True, True, True, False] = 1" by simp
  from activity_reward_once [OF r, of 7 1 1] g have "paid s' 7 1 1" by simp
  with r g show ?thesis by blast
qed

lemma no_task_refused:
  assumes "task_of s r a t = None"
  shows "UpdateTaskProgress r a t n (idle s) = Ret (False, idle s)"
    and "GetTaskReward r a t (idle s) = Ret (None, idle s)"
  using assms by (cases "map_of (player_activity_cache s) r";
    simp add: UpdateTaskProgress_def GetTaskReward_def task_of_def)+

text \<open>
  Taking part and having tasks exclude each other. In every state a run from the constructor
  leads to: a role that joined an activity has no task in it, so every report of progress and every
  claim of a reward is refused; a role whose claim is granted did not join and cannot (the loading of
  its data made an entry that \<^verbatim>\<open>JoinActivity\<close> takes for a membership); and what is granted is empty,
  since no task is ever given a reward.
\<close>

theorem joining_excludes_tasks:
  assumes "run_cmds activity_exec cs (idle (activity_init t1 t2 t3)) = Ret (oks, idle s)"
  shows "(joined s r a \<longrightarrow> UpdateTaskProgress r a t n (idle s) = Ret (False, idle s) \<and>
      GetTaskReward r a t (idle s) = Ret (None, idle s)) \<and>
    (GetTaskReward r a t (idle s) = Ret (Some ws, m) \<longrightarrow>
      ws = [] \<and> \<not> joined s r a \<and> JoinActivity now r a (idle s) = Ret (False, idle s))"
proof -
  from activity.run_inv [OF assms activity_inv_init] have inv: "activity_inv s" by simp
  have fine: "data_fine d" if "data_of s r a = Some d" for d
    using entry_datas_fine [OF inv, of r] find_Some_mem that
    by (fastforce simp: data_of_def datas_fine_def list_all_iff)
  have none: "task_of s r a t = None" if "joined s r a"
  proof -
    from that obtain d where "data_of s r a = Some d" "is_joined d" by (auto simp: joined_def)
    with fine [of d] show ?thesis by (simp add: task_of_data data_fine_def)
  qed
  have "UpdateTaskProgress r a t n (idle s) = Ret (False, idle s)"
    and "GetTaskReward r a t (idle s) = Ret (None, idle s)" if "joined s r a"
    using no_task_refused [OF none [OF that]] by blast+
  moreover have "ws = [] \<and> \<not> joined s r a \<and> JoinActivity now r a (idle s) = Ret (False, idle s)"
    if rew: "GetTaskReward r a t (idle s) = Ret (Some ws, m)"
  proof -
    from GetTaskReward_cases [OF rew] obtain k where k: "task_of s r a t = Some k" "ws = task_rewards k"
      by auto
    then obtain d where d: "data_of s r a = Some d" "List.find (with_id t) (player_tasks d) = Some k"
      by (auto simp: task_of_data split: option.splits)
    from find_Some_mem [OF d(2)] fine [OF d(1)] have "ws = []"
      by (auto simp: k(2) data_fine_def list_all_iff task_fine_def)
    moreover from d(1) have "list_ex (for_activity a) (entry (player_activity_cache s) r)"
      by (auto simp: data_of_def list_ex_iff dest: find_Some_mem)
    then have "JoinActivity now r a (idle s) = Ret (False, idle s)"
      by (auto simp: JoinActivity_def split: option.split)
    ultimately show ?thesis using none k(1) by auto
  qed
  ultimately show ?thesis by blast
qed

theorem joining_excludes_tasks_witness:
  "\<exists>oks s. run_cmds activity_exec [CJoinActivity 5 7 1, CLoadActivityData 5 5 5 7, CLoadActivityData 5 5 5 8,
       CUpdateTaskProgress 8 1 1 10] (idle (activity_init 1 1 1)) = Ret (oks, idle s) \<and>
     joined s 7 1 \<and> UpdateTaskProgress 7 1 1 10 (idle s) = Ret (False, idle s) \<and>
     (\<exists>m. GetTaskReward 8 1 1 (idle s) = Ret (Some [], m)) \<and> JoinActivity 9 8 1 (idle s) = Ret (False, idle s)"
proof -
  let ?cs = "[CJoinActivity 5 7 1, CLoadActivityData 5 5 5 7, CLoadActivityData 5 5 5 8, CUpdateTaskProgress 8 1 1 10]"
  let ?t = "\<lparr>task_id = 1, task_type = 1, target_id = 0, target_count = 10, current_count = 10,
     is_completed = True, is_rewarded = False, task_rewards = []\<rparr> :: ActivityTaskMsg"
  let ?s = "\<lparr>activity_cache = [(1, test_activity 1 1 1)], player_activity_cache =
    [(7, [new_player_data 1 5]), (8, [\<lparr>activity_id = 1, score = 0, data_rank = 0, join_time = 5,
       is_joined = False, player_tasks = [?t]\<rparr>])]\<rparr>"
  have r: "run_cmds activity_exec ?cs (idle (activity_init 1 1 1)) = Ret ([True, True, True, True], idle ?s)"
    by code_simp
  have j: "joined ?s 7 1" by code_simp
  have w: "\<exists>m. GetTaskReward 8 1 1 (idle ?s) = Ret (Some [], m)" by (rule exI, code_simp)
  then obtain m where m: "GetTaskReward 8 1 1 (idle ?s) = Ret (Some [], m)" by blast
  from joining_excludes_tasks [OF r, of 7 1 1 10] j
  have u: "UpdateTaskProgress 7 1 1 10 (idle ?s) = Ret (False, idle ?s)" by blast
  from joining_excludes_tasks [OF r, of 8 1 1 10 "[]" m 9] m
  have "JoinActivity 9 8 1 (idle ?s) = Ret (False, idle ?s)" by blast
  with r j w u show ?thesis by blast
qed

text \<open>
  The ranking is the top of the scores. For any sort that meets its contract, the ranking of an
  activity lists as many of its participants as asked for (all of them when the count is negative, or
  more than there are), each once with its own score, in descending order and with the places 1, 2,
  3, \<dots>; and no participant left out has a higher score than one that is listed. The state is as it was.
\<close>

theorem ranking_is_the_top:
  assumes "descending_sort srt" and "activity_inv s" and "in_i32 n"
    and "length (player_scores a s) < 2 ^ 31"
    and "GetActivityRanking srt a n (idle s) = Ret (rs, m')"
  shows "m' = idle s \<and>
    length rs = (if n < 0 then length (player_scores a s) else min (length (player_scores a s)) (nat n)) \<and>
    map rank_place rs = map (\<lambda>i. int i + 1) [0..<length rs] \<and>
    sorted_wrt (\<ge>) (map rank_score rs) \<and> distinct (map rank_role_id rs) \<and>
    (\<forall>x\<in>set rs. map_option score (data_of s (rank_role_id x) a) = Some (rank_score x)) \<and>
    (\<forall>q d. data_of s q a = Some d \<longrightarrow> q \<notin> rank_role_id ` set rs \<longrightarrow> (\<forall>x\<in>set rs. score d \<le> rank_score x))"
proof -
  let ?P = "player_scores a s" and ?k = "unat (word_of_int n :: u64)"
  let ?pair = "\<lambda>x. (rank_role_id x, rank_score x)"
  note sort = descending_sort.srt_length [OF assms(1)] descending_sort.srt_set [OF assms(1)]
  define top where "top = take ?k (srt ?P)"
  from assms(5) have m': "m' = idle s"
    and rs: "rs = map (rank_data (srt ?P)) [0..<min (length (srt ?P)) ?k]"
    by (simp_all add: GetActivityRanking_def Let_def)
  have len: "length rs = (if n < 0 then length ?P else min (length ?P) (nat n))"
    using assms(3,4) by (auto simp: rs sort unsigned_count in_i32_def)
  have pairs: "map ?pair rs = top"
    by (rule nth_equalityI) (simp_all add: rs top_def rank_data_def)
  then have ids: "map rank_role_id rs = map fst top" and scores: "map rank_score rs = map snd top"
    by (auto simp: comp_def dest: arg_cong [where f = "map fst"] arg_cong [where f = "map snd"])
  have places: "map rank_place rs = map (\<lambda>i. int i + 1) [0..<length rs]"
    using assms(4) by (auto simp: rs rank_data_def sort in_i32_def)
  have "sorted_wrt (\<lambda>p q. snd q \<le> snd p) top"
    unfolding top_def by (rule descending_sort.top_sorted [OF assms(1)])
  then have desc: "sorted_wrt (\<ge>) (map rank_score rs)"
    unfolding scores by (simp add: sorted_wrt_map)
  have "distinct (map fst (srt ?P))"
    by (rule descending_sort.srt_distinct [OF assms(1) player_scores_set(1) [OF assms(2)]])
  then have once: "distinct (map rank_role_id rs)"
    unfolding ids top_def take_map [symmetric] by (rule distinct_take)
  have own: "map_option score (data_of s (rank_role_id x) a) = Some (rank_score x)" if "x \<in> set rs" for x
  proof -
    from that have "?pair x \<in> set top" unfolding pairs [symmetric] by simp
    then have "?pair x \<in> set (srt ?P)" unfolding top_def by (rule in_set_takeD)
    then have "?pair x \<in> set ?P" by (simp only: sort(2))
    then obtain d where "data_of s (rank_role_id x) a = Some d" "score d = rank_score x"
      using player_scores_set(2) [OF assms(2)] by blast
    then show ?thesis by simp
  qed
  have best: "score d \<le> rank_score x"
    if "data_of s q a = Some d" "q \<notin> rank_role_id ` set rs" "x \<in> set rs" for q d x
  proof -
    from that(1) have "(q, score d) \<in> set ?P" using player_scores_set(2) [OF assms(2)] by blast
    moreover from that(3) have "?pair x \<in> set top" unfolding pairs [symmetric] by simp
    moreover have "(q, score d) \<notin> set top"
      using that(2) unfolding pairs [symmetric] by auto
    ultimately show ?thesis
      using descending_sort.top_beats_rest [OF assms(1), of "?pair x" ?k ?P "(q, score d)"]
      by (simp add: top_def)
  qed
  from m' len places desc once own best show ?thesis by blast
qed

theorem ranking_is_the_top_witness:
  "\<exists>s rs. GetActivityRanking by_score 1 2 (idle s) = Ret (rs, idle s) \<and> length rs = 2 \<and>
     map rank_place rs = [1, 2] \<and> sorted_wrt (\<ge>) (map rank_score rs)"
proof -
  let ?cs = "[CJoinActivity 5 7 1, CJoinActivity 5 8 1, CJoinActivity 5 9 1, CUpdateActivityScore 8 1 30]"
  let ?s = "\<lparr>activity_cache = [(1, test_activity 1 1 1)], player_activity_cache =
    [(7, [new_player_data 1 5]), (8, [(new_player_data 1 5)\<lparr>score := 30\<rparr>]), (9, [new_player_data 1 5])]\<rparr>"
  have "run_cmds activity_exec ?cs (idle (activity_init 1 1 1)) = Ret ([True, True, True, True], idle ?s)"
    by code_simp
  from activity.run_inv [OF this activity_inv_init] have inv: "activity_inv ?s" by simp
  have len: "length (player_scores 1 ?s) = 3" by code_simp
  obtain rs m' where rs: "GetActivityRanking by_score 1 2 (idle ?s) = Ret (rs, m')"
    by (simp add: GetActivityRanking_def Let_def)
  have "m' = idle ?s \<and> length rs = 2 \<and> map rank_place rs = map (\<lambda>i. int i + 1) [0..<length rs] \<and>
      sorted_wrt (\<ge>) (map rank_score rs)"
    using ranking_is_the_top [OF by_score.descending_sort_axioms inv _ _ rs] len by (simp add: in_i32_def)
  with rs show ?thesis by (intro exI [of _ ?s] exI [of _ rs]) (simp add: numeral_2_eq_2)
qed

end
