(* ===== verification/Equip.thy ===== *)
theory Equip
  imports Machine
begin

text \<open>
  \<open>game_server/logic_server/equip_module.cc\<close>: the equipment of the roles, what they wear, its
  strengthening, stars and gems. The attributes computed with floating point numbers
  (\<^verbatim>\<open>CalculateEquipAttribute\<close>, which changes no state) are in the theory \<open>Attributes\<close>.
\<close>

section \<open>Data\<close>

record EquipInfo =
  equip_id :: u64
  equip_config_id :: i32
  position :: i32
  level :: i32
  star_level :: i32
  quality :: i32
  enhance_level :: i32
  gems :: "i32 list"
  extra_data :: string

text \<open>What a role wears is a copy of the equipment, filed under its position.\<close>

record EquipModule =
  equip_cache :: "(u64 \<times> EquipInfo list) list"
  worn_equips :: "(u64 \<times> (i32 \<times> EquipInfo) list) list"
  next_equip_id :: "u64 option"

definition equip_init :: EquipModule where
  "equip_init = \<lparr>equip_cache = [], worn_equips = [], next_equip_id = None\<rparr>"

section \<open>Operations\<close>

definition InitEquip :: "u64 \<Rightarrow> (EquipModule, bool) oper" where
  "InitEquip role = guarded (\<lambda>s.
     case map_of (equip_cache s) role of
       Some _ \<Rightarrow> Ret (True, s)
     | None \<Rightarrow> Ret (True, s\<lparr>equip_cache := AList.update role [] (equip_cache s),
                           worn_equips := AList.update role [] (worn_equips s)\<rparr>))"

definition GetEquipList :: "u64 \<Rightarrow> (EquipModule, EquipInfo list option) oper" where
  "GetEquipList role = guarded (\<lambda>s. Ret (map_of (equip_cache s) role, s))"

definition has_id :: "u64 \<Rightarrow> EquipInfo \<Rightarrow> bool" where
  "has_id eid e \<longleftrightarrow> equip_id e = eid"

definition find_equip :: "u64 \<Rightarrow> u64 \<Rightarrow> EquipModule \<Rightarrow> EquipInfo option" where
  "find_equip role eid s =
     (case map_of (equip_cache s) role of None \<Rightarrow> None | Some es \<Rightarrow> List.find (has_id eid) es)"

definition GetEquipInfo :: "u64 \<Rightarrow> u64 \<Rightarrow> (EquipModule, EquipInfo option) oper" where
  "GetEquipInfo role eid = guarded (\<lambda>s. Ret (find_equip role eid s, s))"

definition WearEquip :: "u64 \<Rightarrow> u64 \<Rightarrow> i32 \<Rightarrow> (EquipModule, bool) oper" where
  "WearEquip role eid pos = guarded (\<lambda>s.
     case find_equip role eid s of
       None \<Rightarrow> Ret (False, s)
     | Some e \<Rightarrow>
         if position e \<noteq> pos then Ret (False, s)
         else if map_of (entry (worn_equips s) role) pos \<noteq> None then Ret (False, s)
         else Ret (True, s\<lparr>worn_equips := AList.update role
                (AList.update pos e (entry (worn_equips s) role)) (worn_equips s)\<rparr>))"

definition TakeOffEquip :: "u64 \<Rightarrow> i32 \<Rightarrow> (EquipModule, bool) oper" where
  "TakeOffEquip role pos = guarded (\<lambda>s.
     case map_of (worn_equips s) role of
       None \<Rightarrow> Ret (False, s)
     | Some w \<Rightarrow>
         if map_of w pos = None then Ret (False, s)
         else Ret (True, s\<lparr>worn_equips := AList.update role (AList.delete pos w) (worn_equips s)\<rparr>))"

definition GetWornEquips :: "u64 \<Rightarrow> (EquipModule, EquipInfo list option) oper" where
  "GetWornEquips role = guarded (\<lambda>s. Ret (map_option (map snd) (map_of (worn_equips s) role), s))"

text \<open>
  The part the four changing operations share: the first equipment with the identifier is checked
  and changed, and so is the first worn copy with the identifier, in the order of an iteration.
\<close>

definition change_worn ::
  "u64 \<Rightarrow> u64 \<Rightarrow> (EquipInfo \<Rightarrow> EquipInfo outcome) \<Rightarrow> EquipModule \<Rightarrow> EquipModule outcome" where
  "change_worn role eid f s =
     (case map_of (worn_equips s) role of
        None \<Rightarrow> Ret s
      | Some w \<Rightarrow>
          (case List.find (\<lambda>(p, e). has_id eid e) w of
             None \<Rightarrow> Ret s
           | Some (p, e) \<Rightarrow> bindO (f e) (\<lambda>e'. Ret (s\<lparr>worn_equips := AList.update role
               (upd_first (\<lambda>(p, e). has_id eid e) (\<lambda>_. (p, e')) w) (worn_equips s)\<rparr>))))"

definition change_equip ::
  "u64 \<Rightarrow> u64 \<Rightarrow> (EquipInfo \<Rightarrow> bool) \<Rightarrow> (EquipInfo \<Rightarrow> EquipInfo outcome) \<Rightarrow> EquipModule \<Rightarrow>
   (bool \<times> EquipModule) outcome" where
  "change_equip role eid ok f s =
     (case find_equip role eid s of
        None \<Rightarrow> Ret (False, s)
      | Some e \<Rightarrow>
          if \<not> ok e then Ret (False, s)
          else bindO (f e) (\<lambda>e'. bindO (change_worn role eid f
                 (s\<lparr>equip_cache := AList.update role
                    (upd_first (has_id eid) (\<lambda>_. e') (entry (equip_cache s) role)) (equip_cache s)\<rparr>))
               (\<lambda>s'. Ret (True, s'))))"

definition StrengthenEquip :: "u64 \<Rightarrow> u64 \<Rightarrow> i32 \<Rightarrow> (EquipModule, bool) oper" where
  "StrengthenEquip role eid lvl = guarded (change_equip role eid (\<lambda>e. \<not> lvl \<le> enhance_level e)
     (\<lambda>e. Ret (e\<lparr>enhance_level := lvl\<rparr>)))"

definition GetStrengthenLevel :: "u64 \<Rightarrow> u64 \<Rightarrow> (EquipModule, i32 option) oper" where
  "GetStrengthenLevel role eid = guarded (\<lambda>s. Ret (map_option enhance_level (find_equip role eid s), s))"

definition UpgradeStar :: "u64 \<Rightarrow> u64 \<Rightarrow> i32 \<Rightarrow> (EquipModule, bool) oper" where
  "UpgradeStar role eid lvl = guarded (change_equip role eid (\<lambda>e. \<not> lvl \<le> star_level e)
     (\<lambda>e. Ret (e\<lparr>star_level := lvl\<rparr>)))"

definition GetStarLevel :: "u64 \<Rightarrow> u64 \<Rightarrow> (EquipModule, i32 option) oper" where
  "GetStarLevel role eid = guarded (\<lambda>s. Ret (map_option star_level (find_equip role eid s), s))"

definition gem_slot :: "i32 \<Rightarrow> EquipInfo \<Rightarrow> bool" where
  "gem_slot i e \<longleftrightarrow> \<not> (i < 0 \<or> to_i32 (int (length (gems e))) \<le> i)"

text \<open>\<^verbatim>\<open>gems[i] = g\<close>, undefined outside the vector.\<close>

definition set_gem :: "i32 \<Rightarrow> i32 \<Rightarrow> EquipInfo \<Rightarrow> EquipInfo outcome" where
  "set_gem i g e = bindO (vec_at (gems e) i) (\<lambda>_. Ret (e\<lparr>gems := (gems e)[nat i := g]\<rparr>))"

definition InlayGem :: "u64 \<Rightarrow> u64 \<Rightarrow> i32 \<Rightarrow> i32 \<Rightarrow> (EquipModule, bool) oper" where
  "InlayGem role eid g i = guarded (change_equip role eid (gem_slot i) (set_gem i g))"

definition RemoveGem :: "u64 \<Rightarrow> u64 \<Rightarrow> i32 \<Rightarrow> (EquipModule, bool) oper" where
  "RemoveGem role eid i = guarded (change_equip role eid (gem_slot i) (set_gem i 0))"

definition GetGems :: "u64 \<Rightarrow> u64 \<Rightarrow> (EquipModule, i32 list option) oper" where
  "GetGems role eid = guarded (\<lambda>s. Ret (map_option gems (find_equip role eid s), s))"

definition LoadEquipData :: "u64 \<Rightarrow> (EquipModule, bool) oper" where
  "LoadEquipData role = bindM (InitEquip role) (\<lambda>_. retM True)"

definition SaveEquipData :: "u64 \<Rightarrow> (EquipModule, bool) oper" where
  "SaveEquipData role = guarded (\<lambda>s. Ret (map_of (equip_cache s) role \<noteq> None, s))"

definition GenerateEquipId :: "time_t \<Rightarrow> int \<Rightarrow> EquipModule \<Rightarrow> u64 \<times> EquipModule" where
  "GenerateEquipId now rnd s =
     (let (i, c) = next_static_id now rnd (next_equip_id s) in (i, s\<lparr>next_equip_id := c\<rparr>))"

section \<open>Worn copies mirror the equipment\<close>

text \<open>
  Every worn copy lies at its own position and equals the equipment of the role with its
  identifier. Since the position belongs to the equipment, it is worn once at most.
\<close>

definition mirrors :: "EquipInfo list \<Rightarrow> (i32 \<times> EquipInfo) list \<Rightarrow> bool" where
  "mirrors es w \<longleftrightarrow> keys_ok w \<and>
     (\<forall>(p, e)\<in>set w. position e = p \<and> List.find (has_id (equip_id e)) es = Some e)"

definition equip_inv :: "EquipModule \<Rightarrow> bool" where
  "equip_inv s \<longleftrightarrow> keys_ok (equip_cache s) \<and> keys_ok (worn_equips s) \<and>
     all_entries (\<lambda>r w. mirrors (entry (equip_cache s) r) w) (worn_equips s)"

text \<open>Equipment only grows: it keeps its kind, its place and its gem slots, and no level falls.\<close>

definition grows :: "EquipInfo \<Rightarrow> EquipInfo \<Rightarrow> bool" where
  "grows e e' \<longleftrightarrow> equip_id e' = equip_id e \<and> equip_config_id e' = equip_config_id e \<and>
     position e' = position e \<and> level e' = level e \<and> quality e' = quality e \<and>
     length (gems e') = length (gems e) \<and> enhance_level e \<le> enhance_level e' \<and> star_level e \<le> star_level e'"

lemma grows_refl [simp]: "grows e e"
  by (simp add: grows_def)

lemma grows_trans: "grows e f \<Longrightarrow> grows f g \<Longrightarrow> grows e g"
  by (auto simp: grows_def)

definition equip_step :: "EquipModule \<Rightarrow> EquipModule \<Rightarrow> bool" where
  "equip_step s s' \<longleftrightarrow> (equip_inv s \<longrightarrow> equip_inv s' \<and>
     (\<forall>r. list_all2 grows (entry (equip_cache s) r) (entry (equip_cache s') r)))"

lemma equip_step_refl [simp]: "equip_step s s"
  by (simp add: equip_step_def list_all2_refl)

lemma all_grow_trans: "list_all2 grows es fs \<Longrightarrow> list_all2 grows fs gs \<Longrightarrow> list_all2 grows es gs"
  by (rule list_all2_trans [OF grows_trans])

lemma equip_step_trans: "equip_step s t \<Longrightarrow> equip_step t u \<Longrightarrow> equip_step s u"
  unfolding equip_step_def by (blast intro: all_grow_trans)

lemma equip_inv_init: "equip_inv equip_init"
  by (simp add: equip_inv_def equip_init_def all_entries_def)

lemma find_equip_entry: "find_equip r eid s = List.find (has_id eid) (entry (equip_cache s) r)"
  by (simp add: find_equip_def entry_def split: option.split)

lemma mirrors_Nil [simp]: "mirrors es []"
  by (simp add: mirrors_def)

lemma mirrors_entry: "equip_inv s \<Longrightarrow> mirrors (entry (equip_cache s) r) (entry (worn_equips s) r)"
  by (auto simp: equip_inv_def entry_def [of "worn_equips s"] dest: all_entriesD split: option.split)

lemma keys_ok_mem: "keys_ok w \<Longrightarrow> (p, e) \<in> set w \<longleftrightarrow> map_of w p = Some e"
  by (simp add: keys_ok_def map_of_eq_Some_iff)

lemma mirrorsI:
  assumes "keys_ok w"
    and "\<And>p e. map_of w p = Some e \<Longrightarrow> position e = p \<and> List.find (has_id (equip_id e)) es = Some e"
  shows "mirrors es w"
  using assms by (auto simp: mirrors_def keys_ok_mem)

lemma mirrorsD:
  assumes "mirrors es w" and "map_of w p = Some e"
  shows "position e = p" and "List.find (has_id (equip_id e)) es = Some e"
  using assms(1) map_of_SomeD [OF assms(2)] by (auto simp: mirrors_def)

lemma has_id_found: "List.find (has_id eid) es = Some e \<Longrightarrow> equip_id e = eid"
  by (auto dest: find_Some_mem simp: has_id_def)

text \<open>A change of the equipment and of its worn copy alike keeps the mirror.\<close>

lemma find_changed:
  assumes "List.find (has_id eid) es = Some e" and "equip_id e' = eid"
  shows "List.find (has_id x) (upd_first (has_id eid) (\<lambda>_. e') es) =
    (if x = eid then Some e' else List.find (has_id x) es)"
  using assms by (induction es) (auto simp: has_id_def split: if_splits)

lemma all2_changed:
  assumes "List.find p es = Some e" and "R e e'" and "\<And>x. R x x"
  shows "list_all2 R es (upd_first p (\<lambda>_. e') es)"
  using assms by (induction es) (auto simp: list_all2_refl split: if_splits)

lemma mirrors_unworn:
  assumes "mirrors es w" and "List.find (has_id eid) es = Some e" and "equip_id e' = eid"
    and "List.find (\<lambda>(p, e). has_id eid e) w = None"
  shows "mirrors (upd_first (has_id eid) (\<lambda>_. e') es) w"
  using assms(1,4) unfolding mirrors_def
  by (auto simp: find_changed [OF assms(2,3)] find_None_all has_id_def)

lemma mirrors_worn:
  assumes m: "mirrors es w" and e: "List.find (has_id eid) es = Some e"
    and e': "equip_id e' = eid" "position e' = position e"
    and w: "List.find (\<lambda>(p, e). has_id eid e) w = Some (p, c)"
  shows "c = e" and "mirrors (upd_first (has_id eid) (\<lambda>_. e') es)
    (upd_first (\<lambda>(p, e). has_id eid e) (\<lambda>_. (p, e')) w)"
proof -
  from find_Some_mem [OF w] have pc: "(p, c) \<in> set w" "equip_id c = eid" by (auto simp: has_id_def)
  with m e show c: "c = e" by (auto simp: mirrors_def)
  from m pc c have p: "position e = p" by (auto simp: mirrors_def)
  let ?w = "upd_first (\<lambda>(p, e). has_id eid e) (\<lambda>_. (p, e')) w"
  have keys: "map fst ?w = map fst w"
    using w by (induction w) (auto split: if_splits)
  have only: "d = e'" if "(q, d) \<in> set ?w" "equip_id d = eid" for q d
  proof (rule ccontr)
    assume ne: "d \<noteq> e'"
    with upd_first_found_cases [OF w that(1)] have "(q, d) \<in> set w" by auto
    with m e that(2) have d: "d = e" "q = p" using p by (auto simp: mirrors_def)
    have "distinct (map fst w)" using m by (simp add: mirrors_def keys_ok_def)
    then have "distinct (map fst ?w)" by (simp add: keys)
    moreover have "(p, e') \<in> set ?w" using w by (induction w) (auto split: if_splits)
    ultimately show False using that(1) d ne by (auto simp: eq_key_imp_eq_value)
  qed
  show "mirrors (upd_first (has_id eid) (\<lambda>_. e') es) ?w"
    unfolding mirrors_def
  proof (intro conjI ballI)
    show "keys_ok ?w" using m by (simp add: mirrors_def keys_ok_def keys)
  next
    fix x
    assume x: "x \<in> set ?w"
    obtain q d where qd: "x = (q, d)" by fastforce
    show "case x of (q, d) \<Rightarrow> position d = q \<and>
        List.find (has_id (equip_id d)) (upd_first (has_id eid) (\<lambda>_. e') es) = Some d"
    proof (cases "equip_id d = eid")
      case True
      with only x qd have "d = e'" by blast
      moreover from upd_first_found_cases [OF w x] qd m p e'(2) calculation have "position d = q"
        by (auto simp: mirrors_def)
      ultimately show ?thesis using e' by (simp add: qd find_changed [OF e e'(1)])
    next
      case False
      with upd_first_found_cases [OF w x] e'(1) have "x \<in> set w" by (auto simp: qd)
      with False m show ?thesis by (auto simp: qd mirrors_def find_changed [OF e e'(1)])
    qed
  qed
qed

lemma change_equip_outcome:
  assumes inv: "equip_inv s" and e: "find_equip r eid s = Some e" and ok: "ok e"
    and f: "f e = Ret e'" and g: "grows e e'"
  shows "\<exists>s'. change_equip r eid ok f s = Ret (True, s') \<and> equip_inv s' \<and> find_equip r eid s' = Some e' \<and>
    (\<forall>q. list_all2 grows (entry (equip_cache s) q) (entry (equip_cache s') q)) \<and>
    (\<forall>q x. (q, x) \<noteq> (r, eid) \<longrightarrow> find_equip q x s' = find_equip q x s)"
proof -
  let ?es = "entry (equip_cache s) r"
  let ?es' = "upd_first (has_id eid) (\<lambda>_. e') ?es"
  let ?s1 = "s\<lparr>equip_cache := AList.update r ?es' (equip_cache s)\<rparr>"
  from e have e1: "List.find (has_id eid) ?es = Some e" by (simp add: find_equip_entry)
  from has_id_found [OF e1] g have id: "equip_id e' = eid" "position e' = position e"
    by (auto simp: grows_def)
  have grow: "list_all2 grows (entry (equip_cache s) q) (entry (equip_cache ?s1) q)" for q
    using all2_changed [OF e1, of grows e'] g by (simp add: list_all2_refl)
  have found: "find_equip q x ?s1 = (if q = r \<and> x = eid then Some e' else find_equip q x s)" for q x
    by (simp add: find_equip_entry find_changed [OF e1 id(1)])
  have keys: "keys_ok (equip_cache ?s1)" "keys_ok (worn_equips s)" using inv by (simp_all add: equip_inv_def)
  have put: "equip_inv (?s1\<lparr>worn_equips := ws\<rparr>)"
    if "keys_ok ws" "\<And>w. map_of ws r = Some w \<Longrightarrow> mirrors ?es' w"
      "\<And>q. q \<noteq> r \<Longrightarrow> map_of ws q = map_of (worn_equips s) q" for ws
    using that keys(1) inv by (auto simp: equip_inv_def all_entries_def)
  show ?thesis
  proof (cases "map_of (worn_equips s) r = None \<or>
      List.find (\<lambda>(p, e). has_id eid e) (entry (worn_equips s) r) = None")
    case True
    then have "change_worn r eid f ?s1 = Ret ?s1"
      by (auto simp: change_worn_def split: option.split)
    then have run: "change_equip r eid ok f s = Ret (True, ?s1)" using e ok f by (simp add: change_equip_def)
    have "mirrors ?es' w" if "map_of (worn_equips s) r = Some w" for w
      using mirrors_unworn [OF mirrors_entry [OF inv, of r] e1 id(1)] True that by simp
    then have "equip_inv ?s1" using put [of "worn_equips s"] keys(2) by simp
    with run found grow show ?thesis by (intro exI [of _ ?s1]) auto
  next
    case False
    then obtain w p c where w: "map_of (worn_equips s) r = Some w"
      "List.find (\<lambda>(p, e). has_id eid e) w = Some (p, c)" by auto
    let ?w = "upd_first (\<lambda>(p, e). has_id eid e) (\<lambda>_. (p, e')) w"
    let ?s2 = "?s1\<lparr>worn_equips := AList.update r ?w (worn_equips s)\<rparr>"
    have "mirrors ?es w" using mirrors_entry [OF inv, of r] w(1) by simp
    from mirrors_worn [OF this e1 id w(2)] have c: "c = e" and m: "mirrors ?es' ?w" by blast+
    have "change_worn r eid f ?s1 = Ret ?s2" using w c f by (simp add: change_worn_def)
    then have run: "change_equip r eid ok f s = Ret (True, ?s2)" using e ok f by (simp add: change_equip_def)
    have "equip_inv ?s2" by (rule put) (use m keys(2) in auto)
    moreover have "find_equip q x ?s2 = find_equip q x ?s1" for q x by (simp add: find_equip_def)
    ultimately show ?thesis using run found grow by (intro exI [of _ ?s2]) auto
  qed
qed

text \<open>The four changing operations: which equipment they accept, and that it grows by them.\<close>

lemma gem_slot_bounds: "gem_slot i e \<Longrightarrow> 0 \<le> i \<and> i < int (length (gems e))"
proof -
  have "to_i32 n \<le> n" if "0 \<le> n" for n
    using that zmod_le_nonneg_dividend [of "n + 2 ^ 31" "2 ^ 32"] by (simp add: to_i32_def)
  from this [of "int (length (gems e))"] show "gem_slot i e \<Longrightarrow> 0 \<le> i \<and> i < int (length (gems e))"
    by (auto simp: gem_slot_def)
qed

definition growth :: "(EquipInfo \<Rightarrow> bool) \<Rightarrow> (EquipInfo \<Rightarrow> EquipInfo outcome) \<Rightarrow> bool" where
  "growth ok f \<longleftrightarrow> (\<forall>e. ok e \<longrightarrow> (\<exists>e'. f e = Ret e' \<and> grows e e'))"

lemma growths:
  "growth (\<lambda>e. \<not> n \<le> enhance_level e) (\<lambda>e. Ret (e\<lparr>enhance_level := n\<rparr>))"
  "growth (\<lambda>e. \<not> n \<le> star_level e) (\<lambda>e. Ret (e\<lparr>star_level := n\<rparr>))"
  "growth (gem_slot i) (set_gem i g)"
  by (auto simp: growth_def grows_def set_gem_def vec_at_def dest: gem_slot_bounds)

lemma change_equip_cases:
  assumes "growth ok f" and "equip_inv s"
  shows "(change_equip r eid ok f s = Ret (False, s) \<and> (\<forall>e. find_equip r eid s = Some e \<longrightarrow> \<not> ok e)) \<or>
    (\<exists>e e' s'. find_equip r eid s = Some e \<and> ok e \<and> f e = Ret e' \<and>
       change_equip r eid ok f s = Ret (True, s') \<and> equip_inv s' \<and> find_equip r eid s' = Some e' \<and>
       (\<forall>q. list_all2 grows (entry (equip_cache s) q) (entry (equip_cache s') q)) \<and>
       (\<forall>q x. (q, x) \<noteq> (r, eid) \<longrightarrow> find_equip q x s' = find_equip q x s))"
proof (cases "\<exists>e. find_equip r eid s = Some e \<and> ok e")
  case True
  then obtain e where e: "find_equip r eid s = Some e" "ok e" by blast
  with assms(1) obtain e' where "f e = Ret e'" "grows e e'" by (auto simp: growth_def)
  from change_equip_outcome [of s r eid e ok f e', OF assms(2) e this] e this show ?thesis by blast
next
  case False
  then show ?thesis by (auto simp: change_equip_def split: option.split)
qed

lemma change_equip_steps: "growth ok f \<Longrightarrow> steps_by equip_step (guarded (change_equip r eid ok f))"
proof (rule steps_by_guarded)
  fix s b s'
  assume g: "growth ok f" and run: "change_equip r eid ok f s = Ret (b, s')"
  show "equip_step s s'"
    unfolding equip_step_def
  proof
    assume "equip_inv s"
    from change_equip_cases [OF g this, of r eid] run \<open>equip_inv s\<close>
    show "equip_inv s' \<and> (\<forall>r. list_all2 grows (entry (equip_cache s) r) (entry (equip_cache s') r))"
      by (auto simp: list_all2_refl)
  qed
qed

lemmas equip_changes = StrengthenEquip_def UpgradeStar_def InlayGem_def RemoveGem_def

lemma equip_change_steps:
  "steps_by equip_step (StrengthenEquip r eid n)" "steps_by equip_step (UpgradeStar r eid n)"
  "steps_by equip_step (InlayGem r eid g i)" "steps_by equip_step (RemoveGem r eid i)"
  unfolding equip_changes by (rule change_equip_steps growths)+

lemma equip_query_steps:
  "steps_by equip_step (GetEquipList r)" "steps_by equip_step (GetEquipInfo r eid)"
  "steps_by equip_step (GetWornEquips r)" "steps_by equip_step (GetStrengthenLevel r eid)"
  "steps_by equip_step (GetStarLevel r eid)" "steps_by equip_step (GetGems r eid)"
  "steps_by equip_step (SaveEquipData r)"
  by (auto intro!: steps_by_guarded simp: GetEquipList_def GetEquipInfo_def GetWornEquips_def
      GetStrengthenLevel_def GetStarLevel_def GetGems_def SaveEquipData_def)

lemma init_step:
  assumes "map_of (equip_cache s) r = None"
  shows "equip_step s (s\<lparr>equip_cache := AList.update r [] (equip_cache s),
    worn_equips := AList.update r [] (worn_equips s)\<rparr>)"
proof -
  have "list_all2 grows (entry (equip_cache s) q) (entry (AList.update r [] (equip_cache s)) q)" for q
    using assms by (simp add: list_all2_refl)
  then show ?thesis by (auto simp: equip_step_def equip_inv_def all_entries_def)
qed

lemma InitEquip_steps: "steps_by equip_step (InitEquip r)"
  by (auto intro!: steps_by_guarded init_step simp: InitEquip_def split: option.splits)

lemma equip_inv_worn:
  assumes "equip_inv s" and "mirrors (entry (equip_cache s) r) w"
  shows "equip_inv (s\<lparr>worn_equips := AList.update r w (worn_equips s)\<rparr>)"
  using assms by (simp add: equip_inv_def all_entries_update)

lemma mirrors_put:
  assumes "mirrors es w" and "position e = p" and "List.find (has_id (equip_id e)) es = Some e"
  shows "mirrors es (AList.update p e w)"
proof (rule mirrorsI)
  show "keys_ok (AList.update p e w)" using assms(1) by (simp add: mirrors_def)
qed (use assms mirrorsD [OF assms(1)] in \<open>auto split: if_splits\<close>)

lemma mirrors_drop:
  assumes "mirrors es w"
  shows "mirrors es (AList.delete p w)"
proof (rule mirrorsI)
  show "keys_ok (AList.delete p w)" using assms by (simp add: mirrors_def)
qed (use mirrorsD [OF assms] in \<open>auto split: if_splits\<close>)

lemma WearEquip_steps: "steps_by equip_step (WearEquip r eid p)"
proof -
  have "equip_step s (s\<lparr>worn_equips := AList.update r
      (AList.update (position e) e (entry (worn_equips s) r)) (worn_equips s)\<rparr>)"
    if e: "find_equip r eid s = Some e" for s e
  proof -
    from e have "List.find (has_id (equip_id e)) (entry (equip_cache s) r) = Some e"
      using has_id_found by (fastforce simp: find_equip_entry)
    then show ?thesis
      by (simp add: equip_step_def list_all2_refl equip_inv_worn mirrors_put mirrors_entry)
  qed
  then show ?thesis
    by (auto intro!: steps_by_guarded simp: WearEquip_def split: option.splits if_splits)
qed

lemma TakeOffEquip_steps: "steps_by equip_step (TakeOffEquip r p)"
proof -
  have "equip_step s (s\<lparr>worn_equips := AList.update r (AList.delete p w) (worn_equips s)\<rparr>)"
    if "map_of (worn_equips s) r = Some w" for s w
    using mirrors_entry [of s r] that
    by (auto simp: equip_step_def list_all2_refl intro!: equip_inv_worn mirrors_drop)
  then show ?thesis
    by (auto intro!: steps_by_guarded simp: TakeOffEquip_def split: option.splits if_splits)
qed

lemma LoadEquipData_steps: "steps_by equip_step (LoadEquipData r)"
  unfolding LoadEquipData_def by (intro steps_by_bindM_ret InitEquip_steps)

section \<open>The equipment module as a machine\<close>

datatype equip_cmd =
    CInitEquip u64
  | CGetEquipList u64
  | CGetEquipInfo u64 u64
  | CWearEquip u64 u64 i32
  | CTakeOffEquip u64 i32
  | CGetWornEquips u64
  | CStrengthenEquip u64 u64 i32
  | CGetStrengthenLevel u64 u64
  | CUpgradeStar u64 u64 i32
  | CGetStarLevel u64 u64
  | CInlayGem u64 u64 i32 i32
  | CRemoveGem u64 u64 i32
  | CGetGems u64 u64
  | CLoadEquipData u64
  | CSaveEquipData u64

fun equip_exec :: "equip_cmd \<Rightarrow> (EquipModule, bool) oper" where
  "equip_exec (CInitEquip r) = InitEquip r"
| "equip_exec (CGetEquipList r) = succeeded (GetEquipList r)"
| "equip_exec (CGetEquipInfo r e) = succeeded (GetEquipInfo r e)"
| "equip_exec (CWearEquip r e p) = WearEquip r e p"
| "equip_exec (CTakeOffEquip r p) = TakeOffEquip r p"
| "equip_exec (CGetWornEquips r) = succeeded (GetWornEquips r)"
| "equip_exec (CStrengthenEquip r e n) = StrengthenEquip r e n"
| "equip_exec (CGetStrengthenLevel r e) = succeeded (GetStrengthenLevel r e)"
| "equip_exec (CUpgradeStar r e n) = UpgradeStar r e n"
| "equip_exec (CGetStarLevel r e) = succeeded (GetStarLevel r e)"
| "equip_exec (CInlayGem r e g i) = InlayGem r e g i"
| "equip_exec (CRemoveGem r e i) = RemoveGem r e i"
| "equip_exec (CGetGems r e) = succeeded (GetGems r e)"
| "equip_exec (CLoadEquipData r) = LoadEquipData r"
| "equip_exec (CSaveEquipData r) = SaveEquipData r"

lemma equip_exec_steps: "steps_by equip_step (equip_exec c)"
  by (cases c) (auto intro!: steps_by_succeeded equip_query_steps equip_change_steps InitEquip_steps
      WearEquip_steps TakeOffEquip_steps LoadEquipData_steps)

lemma change_equip_returns:
  "growth ok f \<Longrightarrow> equip_inv s \<Longrightarrow> \<exists>b m'. guarded (change_equip r eid ok f) (idle s) = Ret (b, m')"
  using change_equip_cases [of ok f s r eid] by fastforce

lemma equip_change_returns:
  assumes "equip_inv s"
  shows "\<exists>b m'. StrengthenEquip r eid n (idle s) = Ret (b, m')" "\<exists>b m'. UpgradeStar r eid n (idle s) = Ret (b, m')"
    "\<exists>b m'. InlayGem r eid g i (idle s) = Ret (b, m')" "\<exists>b m'. RemoveGem r eid i (idle s) = Ret (b, m')"
  unfolding equip_changes by (rule change_equip_returns growths assms)+

lemma equip_rest_return:
  "\<exists>b m'. InitEquip r (idle s) = Ret (b, m')" "\<exists>b m'. WearEquip r eid p (idle s) = Ret (b, m')"
  "\<exists>b m'. TakeOffEquip r p (idle s) = Ret (b, m')" "\<exists>b m'. LoadEquipData r (idle s) = Ret (b, m')"
  by (auto simp: InitEquip_def WearEquip_def TakeOffEquip_def LoadEquipData_def bindM_def retM_def
      split: option.splits prod.splits)

lemma equip_exec_returns: "equip_inv s \<Longrightarrow> \<exists>b m'. equip_exec c (idle s) = Ret (b, m')"
  by (cases c) (simp_all add: equip_change_returns equip_rest_return succeeded_def GetEquipList_def
      GetEquipInfo_def GetWornEquips_def GetStrengthenLevel_def GetStarLevel_def GetGems_def SaveEquipData_def)

interpretation equip: total_machine equip_exec equip_inv
proof unfold_locales
  show "\<exists>s'. m' = idle s'" if "equip_exec c (idle s) = Ret (r, m')" for c s r m'
    using steps_by_run [OF that equip_exec_steps] by blast
  show "equip_inv s'" if "equip_exec c (idle s) = Ret (r, idle s')" "equip_inv s" for c s r s'
    using steps_by_run [OF that(1) equip_exec_steps] that(2) by (auto simp: equip_step_def)
  show "\<exists>b m'. equip_exec c (idle s) = Ret (b, m')" if "equip_inv s" for s c
    using that by (rule equip_exec_returns)
qed

interpretation equip_ids: id_source GenerateEquipId next_equip_id
  by unfold_locales (auto simp: GenerateEquipId_def next_static_id_def Let_def)

section \<open>Properties\<close>

lemma equip_run_step:
  assumes "run_cmds equip_exec cs (idle s) = Ret (oks, idle s')"
  shows "equip_step s s'"
  using steps_by_run [OF assms steps_by_run_cmds [of equip_step, OF equip_exec_steps equip_step_refl equip_step_trans]]
  by simp

lemma equip_run_grows:
  assumes "run_cmds equip_exec cs (idle s) = Ret (oks, idle s')" and "equip_inv s"
    and "find_equip r eid s = Some e"
  shows "\<exists>e'. find_equip r eid s' = Some e' \<and> grows e e'"
proof -
  have "list_all2 grows (entry (equip_cache s) r) (entry (equip_cache s') r)"
    using equip_run_step [OF assms(1)] assms(2) by (simp add: equip_step_def)
  then show ?thesis
    using assms(3) unfolding find_equip_entry
    by (induction rule: list_all2_induct) (auto simp: has_id_def grows_def split: if_splits)
qed

definition sword :: EquipInfo where
  "sword = \<lparr>equip_id = 5, equip_config_id = 100, position = 1, level = 3, star_level = 0, quality = 1,
     enhance_level = 0, gems = [0, 0], extra_data = []\<rparr>"

definition armed :: EquipModule where
  "armed = \<lparr>equip_cache = [(7, [sword])], worn_equips = [], next_equip_id = None\<rparr>"

lemma equip_inv_armed: "equip_inv armed"
  by (simp add: equip_inv_def armed_def keys_ok_def all_entries_def)

text \<open>
  C4. What a role wears is its equipment as it is. From a state in order every run of the
  operations of the module returns (all of them apart from the two that only compute attributes,
  \<^verbatim>\<open>CalculateEquipAttribute\<close> and \<^verbatim>\<open>CalculateSingleEquipAttribute\<close>, which change nothing and can overflow): no lock is taken twice and no gem outside the vector of a worn copy is written. Afterwards
  every worn copy lies at its own position and is the current equipment of the role with its
  identifier, whatever was strengthened, upgraded, inlaid, worn and taken off in between.
\<close>

theorem worn_copies_mirror:
  assumes "equip_inv s"
  shows "\<exists>oks s'. run_cmds equip_exec cs (idle s) = Ret (oks, idle s') \<and> equip_inv s' \<and>
    (\<forall>r p e. map_of (entry (worn_equips s') r) p = Some e \<longrightarrow>
       position e = p \<and> find_equip r (equip_id e) s' = Some e)"
proof -
  from equip.run_returns [OF assms, of cs] obtain oks s' where
    run: "run_cmds equip_exec cs (idle s) = Ret (oks, idle s')" and inv: "equip_inv s'" by blast
  have "position e = p \<and> find_equip r (equip_id e) s' = Some e"
    if "map_of (entry (worn_equips s') r) p = Some e" for r p e
    using mirrorsD [OF mirrors_entry [OF inv] that] by (simp add: find_equip_entry)
  with run inv show ?thesis by blast
qed

theorem worn_copies_mirror_witness:
  "\<exists>oks s'. run_cmds equip_exec [CWearEquip 7 5 1, CStrengthenEquip 7 5 4, CInlayGem 7 5 9 1] (idle armed) =
      Ret (oks, idle s') \<and> equip_inv s'"
  using worn_copies_mirror [OF equip_inv_armed, of "[CWearEquip 7 5 1, CStrengthenEquip 7 5 4, CInlayGem 7 5 9 1]"]
  by blast

text \<open>
  Equipment only grows. Over any run from a state in order, every piece of equipment a role has
  is still there with its kind, position, level, quality and number of gem slots, and neither its
  strengthening nor its stars have fallen.
\<close>

theorem equipment_only_grows:
  assumes "run_cmds equip_exec cs (idle s) = Ret (oks, idle s')" and "equip_inv s"
    and "find_equip r eid s = Some e"
  shows "\<exists>e'. find_equip r eid s' = Some e' \<and> grows e e'"
  by (rule equip_run_grows [OF assms])

theorem equipment_only_grows_witness:
  "\<exists>oks s' e'. run_cmds equip_exec [CStrengthenEquip 7 5 4, CStrengthenEquip 7 5 2, CUpgradeStar 7 5 1] (idle armed) =
      Ret (oks, idle s') \<and> find_equip 7 5 s' = Some e' \<and> grows sword e'"
proof -
  obtain oks s' where r: "run_cmds equip_exec [CStrengthenEquip 7 5 4, CStrengthenEquip 7 5 2, CUpgradeStar 7 5 1]
      (idle armed) = Ret (oks, idle s')"
    using equip.run_returns [OF equip_inv_armed] by blast
  have "find_equip 7 5 armed = Some sword" by code_simp
  from equipment_only_grows [OF r equip_inv_armed this] r show ?thesis by blast
qed

lemma guarded_change:
  assumes "growth ok f" and "equip_inv s" and "find_equip r eid s = Some e" and "ok e \<Longrightarrow> f e = Ret e'"
  shows "\<exists>s'. guarded (change_equip r eid ok f) (idle s) = Ret (ok e, idle s') \<and>
    find_equip r eid s' = Some (if ok e then e' else e) \<and>
    (\<forall>q x. (q, x) \<noteq> (r, eid) \<longrightarrow> find_equip q x s' = find_equip q x s)"
  using change_equip_cases [OF assms(1,2), of r eid] assms(3,4) by auto

text \<open>
  What the four changing operations do, for a piece of equipment the role has: strengthening and
  upgrading succeed exactly when they raise the level, inlaying and removing a gem exactly when the
  slot exists; a success writes that one field of that one piece and a refusal leaves it as it is;
  every other piece of equipment of any role stays as it was.
\<close>

theorem equipment_changes:
  assumes "equip_inv s" and "find_equip r eid s = Some e"
  shows "(\<exists>s'. StrengthenEquip r eid n (idle s) = Ret (enhance_level e < n, idle s') \<and>
      find_equip r eid s' = Some (if enhance_level e < n then e\<lparr>enhance_level := n\<rparr> else e) \<and>
      (\<forall>q x. (q, x) \<noteq> (r, eid) \<longrightarrow> find_equip q x s' = find_equip q x s)) \<and>
    (\<exists>s'. UpgradeStar r eid n (idle s) = Ret (star_level e < n, idle s') \<and>
      find_equip r eid s' = Some (if star_level e < n then e\<lparr>star_level := n\<rparr> else e) \<and>
      (\<forall>q x. (q, x) \<noteq> (r, eid) \<longrightarrow> find_equip q x s' = find_equip q x s)) \<and>
    (\<exists>s'. InlayGem r eid g i (idle s) = Ret (gem_slot i e, idle s') \<and>
      find_equip r eid s' = Some (if gem_slot i e then e\<lparr>gems := (gems e)[nat i := g]\<rparr> else e) \<and>
      (\<forall>q x. (q, x) \<noteq> (r, eid) \<longrightarrow> find_equip q x s' = find_equip q x s)) \<and>
    (\<exists>s'. RemoveGem r eid i (idle s) = Ret (gem_slot i e, idle s') \<and>
      find_equip r eid s' = Some (if gem_slot i e then e\<lparr>gems := (gems e)[nat i := 0]\<rparr> else e) \<and>
      (\<forall>q x. (q, x) \<noteq> (r, eid) \<longrightarrow> find_equip q x s' = find_equip q x s))"
proof -
  have gem: "set_gem i h e = Ret (e\<lparr>gems := (gems e)[nat i := h]\<rparr>)" if "gem_slot i e" for h
    using gem_slot_bounds [OF that] by (simp add: set_gem_def vec_at_def)
  show ?thesis
    unfolding equip_changes
    using guarded_change [OF growths(1) [of n] assms refl] guarded_change [OF growths(2) [of n] assms refl]
      guarded_change [OF growths(3) [of i g] assms gem [of g]]
      guarded_change [OF growths(3) [of i 0] assms gem [of 0]]
    by (simp only: not_le)
qed

theorem equipment_changes_witness:
  "\<exists>s'. InlayGem 7 5 9 1 (idle armed) = Ret (True, idle s') \<and> find_equip 7 5 s' = Some (sword\<lparr>gems := [0, 9]\<rparr>)"
proof -
  have f: "find_equip 7 5 armed = Some sword" by code_simp
  have g: "gem_slot 1 sword" by code_simp
  from equipment_changes [OF equip_inv_armed f, of 0 9 1] obtain s' where
    "InlayGem 7 5 9 1 (idle armed) = Ret (gem_slot 1 sword, idle s')"
    "find_equip 7 5 s' = Some (if gem_slot 1 sword then sword\<lparr>gems := (gems sword)[nat 1 := 9]\<rparr> else sword)" by blast
  with g show ?thesis by (simp add: sword_def)
qed

text \<open>
  No equipment ever arrives. The module has no operation that adds equipment (the generator of
  identifiers is never called), so after any run from the empty module every request to wear,
  strengthen, upgrade or change gems is refused and every role wears nothing.
\<close>

theorem no_equipment_arrives:
  assumes "run_cmds equip_exec cs (idle equip_init) = Ret (oks, idle s)"
  shows "find_equip r eid s = None \<and> entry (worn_equips s) r = [] \<and>
    WearEquip r eid p (idle s) = Ret (False, idle s) \<and> StrengthenEquip r eid n (idle s) = Ret (False, idle s) \<and>
    InlayGem r eid g i (idle s) = Ret (False, idle s)"
proof -
  have st: "equip_step equip_init s" by (rule equip_run_step [OF assms])
  then have inv: "equip_inv s" and "list_all2 grows [] (entry (equip_cache s) r)"
    using equip_inv_init by (auto simp: equip_step_def equip_init_def dest: spec [of _ r])
  then have e: "entry (equip_cache s) r = []" by simp
  then have none: "find_equip r x s = None" for x by (simp add: find_equip_entry)
  moreover have "entry (worn_equips s) r = []"
    using mirrors_entry [OF inv, of r] e by (cases "entry (worn_equips s) r") (auto simp: mirrors_def)
  ultimately show ?thesis
    by (simp add: WearEquip_def StrengthenEquip_def InlayGem_def change_equip_def)
qed

theorem no_equipment_arrives_witness:
  "\<exists>oks s. run_cmds equip_exec [CLoadEquipData 7, CWearEquip 7 5 1] (idle equip_init) = Ret (oks, idle s) \<and>
     WearEquip 7 5 1 (idle s) = Ret (False, idle s)"
proof -
  obtain oks s where r: "run_cmds equip_exec [CLoadEquipData 7, CWearEquip 7 5 1] (idle equip_init) = Ret (oks, idle s)"
    using equip.run_returns [OF equip_inv_init] by blast
  from no_equipment_arrives [OF r, of 7 5 1] r show ?thesis by blast
qed

end
