(* ===== verification/Float32.thy ===== *)
theory Float32
  imports Complex_Main Runtime
begin

text \<open>
  The \<^verbatim>\<open>float\<close> of C++: IEEE binary32 with every operation rounded to nearest, ties to even. Used by the
  attributes of equipment (\<open>equip_module.cc\<close>) and the distances of a scene (\<open>scene_module.cc\<close>).
\<close>

section \<open>Rounding\<close>

text \<open>\<open>width n\<close> is the number of bits of \<open>n\<close>; \<open>ilog x\<close> the exponent of the power of two at or below \<open>x > 0\<close>.\<close>

function width :: "int \<Rightarrow> nat" where
  "width n = (if n \<le> 0 then 0 else Suc (width (n div 2)))"
  by pat_completeness auto
termination
  by (relation "measure nat") auto

declare width.simps [simp del]

definition pow2 :: "int \<Rightarrow> rat" where
  "pow2 e = (if 0 \<le> e then 2 ^ nat e else 1 / 2 ^ nat (- e))"

definition ilog :: "rat \<Rightarrow> int" where
  "ilog x = (if 1 \<le> x then int (width \<lfloor>x\<rfloor>) - 1 else - int (width (\<lceil>1 / x\<rceil> - 1)))"

text \<open>The nearest integer, an even one in the middle of two.\<close>

definition nearest :: "rat \<Rightarrow> int" where
  "nearest q =
     (let n = \<lfloor>q\<rfloor>; d = q - of_int n in
      if d < 1 / 2 then n else if 1 / 2 < d then n + 1 else if even n then n else n + 1)"

text \<open>
  The spacing of the numbers around \<open>x\<close>: 24 bits of precision, and the spacing of the subnormal numbers below.
\<close>

definition ulp :: "rat \<Rightarrow> rat" where
  "ulp x = pow2 (max (ilog \<bar>x\<bar>) (- 126) - 23)"

definition round32 :: "rat \<Rightarrow> rat" where
  "round32 x = (if x = 0 then 0 else of_int (nearest (x / ulp x)) * ulp x)"

text \<open>
  The values: not a number, an infinity (\<open>True\<close> the negative one) or a finite number. The sign of zero does
  not matter to the operations used here.
\<close>

datatype f32 = NaN | Inf bool | Fin rat

definition fin32 :: "rat \<Rightarrow> f32" where
  "fin32 x = (if 2 ^ 128 \<le> \<bar>round32 x\<bar> then Inf (x < 0) else Fin (round32 x))"

definition of_bits :: "f32bits \<Rightarrow> f32" where
  "of_bits w =
     (let s = bit w 31; e = uint w div 2 ^ 23 mod 256; m = uint w mod 2 ^ 23 in
      if e = 255 then (if m = 0 then Inf s else NaN)
      else Fin ((if s then - 1 else 1) *
        (if e = 0 then of_int m * pow2 (- 149) else of_int (2 ^ 23 + m) * pow2 (e - 150))))"

section \<open>Operations\<close>

fun f32_neg :: "f32 \<Rightarrow> f32" where
  "f32_neg NaN = NaN"
| "f32_neg (Inf s) = Inf (\<not> s)"
| "f32_neg (Fin x) = Fin (- x)"

fun f32_add :: "f32 \<Rightarrow> f32 \<Rightarrow> f32" where
  "f32_add NaN y = NaN"
| "f32_add x NaN = NaN"
| "f32_add (Inf s) (Inf t) = (if s = t then Inf s else NaN)"
| "f32_add (Inf s) (Fin y) = Inf s"
| "f32_add (Fin x) (Inf t) = Inf t"
| "f32_add (Fin x) (Fin y) = fin32 (x + y)"

definition f32_sub :: "f32 \<Rightarrow> f32 \<Rightarrow> f32" where
  "f32_sub x y = f32_add x (f32_neg y)"

fun f32_mul :: "f32 \<Rightarrow> f32 \<Rightarrow> f32" where
  "f32_mul NaN y = NaN"
| "f32_mul x NaN = NaN"
| "f32_mul (Inf s) (Inf t) = Inf (s \<noteq> t)"
| "f32_mul (Inf s) (Fin y) = (if y = 0 then NaN else Inf (s \<noteq> (y < 0)))"
| "f32_mul (Fin x) (Inf t) = (if x = 0 then NaN else Inf (t \<noteq> (x < 0)))"
| "f32_mul (Fin x) (Fin y) = fin32 (x * y)"

function isqrt :: "int \<Rightarrow> int" where
  "isqrt n = (if n \<le> 0 then 0 else let r = 2 * isqrt (n div 4) in if (r + 1) ^ 2 \<le> n then r + 1 else r)"
  by pat_completeness auto
termination
  by (relation "measure nat") auto

declare isqrt.simps [simp del]

text \<open>The square root, rounded: \<open>n\<close> is its integer part in units of the last place.\<close>

definition sqrt_ulp :: "rat \<Rightarrow> rat" where
  "sqrt_ulp x = pow2 (ilog x div 2 - 23)"

definition root32 :: "rat \<Rightarrow> rat" where
  "root32 x =
     (if x = 0 then 0
      else let u = sqrt_ulp x; y = x / u ^ 2; n = isqrt \<lfloor>y\<rfloor>; h = (rat_of_int n + 1 / 2) ^ 2 in
        rat_of_int (if y < h then n else if h < y then n + 1 else if even n then n else n + 1) * u)"

fun f32_sqrt :: "f32 \<Rightarrow> f32" where
  "f32_sqrt NaN = NaN"
| "f32_sqrt (Inf s) = (if s then NaN else Inf False)"
| "f32_sqrt (Fin x) = (if x < 0 then NaN else Fin (root32 x))"

fun f32_le :: "f32 \<Rightarrow> f32 \<Rightarrow> bool" where
  "f32_le NaN y = False"
| "f32_le x NaN = False"
| "f32_le (Inf s) (Inf t) = (s \<or> \<not> t)"
| "f32_le (Inf s) (Fin y) = s"
| "f32_le (Fin x) (Inf t) = (\<not> t)"
| "f32_le (Fin x) (Fin y) = (x \<le> y)"

text \<open>
  Conversions: an integer to the nearest \<^verbatim>\<open>float\<close>; a \<^verbatim>\<open>float\<close> to \<^verbatim>\<open>int32_t\<close> drops the fraction, and is undefined
  when the result does not fit.
\<close>

definition f32_of_int :: "int \<Rightarrow> f32" where
  "f32_of_int n = fin32 (of_int n)"

fun i32_of_f32 :: "f32 \<Rightarrow> i32 outcome" where
  "i32_of_f32 (Fin x) =
     (let n = (if 0 \<le> x then \<lfloor>x\<rfloor> else \<lceil>x\<rceil>) in if in_i32 n then Ret n else Fault OutOfRange)"
| "i32_of_f32 x = Fault OutOfRange"

section \<open>Powers of two and their exponents\<close>

lemma pow2_pos [simp]: "0 < pow2 e"
  by (simp add: pow2_def)

lemma pow2_nonzero [simp]: "pow2 e \<noteq> 0"
  using pow2_pos [of e] by linarith

lemma pow2_0 [simp]: "pow2 0 = 1"
  by (simp add: pow2_def)

lemma pow2_Suc: "pow2 (e + 1) = 2 * pow2 e"
proof (cases "0 \<le> e")
  case True
  then show ?thesis by (simp add: pow2_def nat_add_distrib)
next
  case False
  then have "nat (- e) = Suc (nat (- e - 1))" by simp
  with False show ?thesis by (simp add: pow2_def)
qed

lemma pow2_add_nat: "pow2 (e + int n) = 2 ^ n * pow2 e"
proof (induction n)
  case (Suc n)
  then show ?case using pow2_Suc [of "e + int n"] by (simp add: ac_simps)
qed simp

lemma pow2_le: "e \<le> f \<Longrightarrow> pow2 e \<le> pow2 f"
  using pow2_add_nat [of e "nat (f - e)"] by simp

lemma pow2_add: "pow2 (e + f) = pow2 e * pow2 f"
proof (cases "0 \<le> f")
  case True
  then show ?thesis using pow2_add_nat [of e "nat f"] pow2_add_nat [of 0 "nat f"] by simp
next
  case False
  then show ?thesis using pow2_add_nat [of "e + f" "nat (- f)"] pow2_add_nat [of f "nat (- f)"] by simp
qed

lemma width_bounds: "0 < n \<Longrightarrow> 2 ^ (width n - 1) \<le> n \<and> n < 2 ^ width n"
proof (induction n rule: width.induct)
  case (1 n)
  show ?case
  proof (cases "n div 2 = 0")
    case True
    with 1(2) have "n = 1" by linarith
    then show ?thesis by (simp add: width.simps [of 1] width.simps [of 0])
  next
    case False
    with 1(2) have q: "0 < n div 2" by linarith
    with 1 have i: "2 ^ (width (n div 2) - 1) \<le> n div 2" "n div 2 < 2 ^ width (n div 2)" by auto
    have "width (n div 2) \<noteq> 0" using q by (subst width.simps) simp
    then obtain w where w: "width (n div 2) = Suc w" by (cases "width (n div 2)") auto
    with i have "2 ^ Suc w \<le> n" "n < 2 ^ Suc (Suc w)" by auto
    with 1(2) w show ?thesis by (subst (1 2) width.simps) simp
  qed
qed

lemma ilog_bounds:
  assumes "0 < x"
  shows "pow2 (ilog x) \<le> x \<and> x < pow2 (ilog x + 1)"
proof (cases "1 \<le> x")
  case True
  define n where "n = \<lfloor>x\<rfloor>"
  have n: "0 < n" "rat_of_int n \<le> x" "x < rat_of_int n + 1"
    using True floor_correct [of x] by (auto simp: n_def)
  from width_bounds [OF n(1)] have w: "rat_of_int (2 ^ (width n - 1)) \<le> rat_of_int n"
    "rat_of_int (n + 1) \<le> rat_of_int (2 ^ width n)" by (simp_all only: of_int_le_iff) simp
  from order_trans [OF w(1) n(2)] w(2) n(3) have "2 ^ (width n - 1) \<le> x" and "x < 2 ^ width n" by simp_all
  moreover have "width n \<noteq> 0" using n(1) by (subst width.simps) simp
  moreover from this have "nat (int (width n) - 1) = width n - 1" by simp
  ultimately show ?thesis using True unfolding ilog_def n_def [symmetric] by (simp add: pow2_def)
next
  case False
  define m where "m = \<lceil>1 / x\<rceil> - 1"
  have "1 < 1 / x" using False assms by simp
  then have "1 < \<lceil>1 / x\<rceil>" by (simp add: less_ceiling_iff)
  then have m: "0 < m" "1 / x \<le> rat_of_int m + 1" "rat_of_int m < 1 / x"
    using ceiling_correct [of "1 / x"] by (auto simp: m_def)
  from width_bounds [OF m(1)] have w: "rat_of_int (2 ^ (width m - 1)) \<le> rat_of_int m"
    "rat_of_int (m + 1) \<le> rat_of_int (2 ^ width m)" by (simp_all only: of_int_le_iff) simp
  from le_less_trans [OF w(1) m(3)] w(2) m(2)
  have b: "1 / x \<le> 2 ^ width m" "2 ^ (width m - 1) < 1 / x" by simp_all
  have w: "width m \<noteq> 0" using m(1) by (subst width.simps) simp
  have "pow2 (- int (width m)) = 1 / 2 ^ width m" using w by (simp add: pow2_def)
  moreover have "pow2 (- int (width m) + 1) = 1 / 2 ^ (width m - 1)"
  proof (cases "width m = 1")
    case False
    with w have "nat (int (width m) - 1) = width m - 1" "\<not> 0 \<le> - int (width m) + 1" by simp_all
    then show ?thesis by (simp add: pow2_def)
  qed simp
  moreover have "1 / 2 ^ width m \<le> x" "x < 1 / 2 ^ (width m - 1)" using b assms by (simp_all add: field_simps)
  ultimately show ?thesis using False unfolding ilog_def m_def [symmetric] by simp
qed

lemma ilog_unique:
  assumes "pow2 e \<le> x" and "x < pow2 (e + 1)"
  shows "ilog x = e"
proof -
  have x: "0 < x" using assms(1) pow2_pos [of e] by linarith
  have "\<not> e + 1 \<le> ilog x" "\<not> ilog x + 1 \<le> e"
    using pow2_le [of "e + 1" "ilog x"] pow2_le [of "ilog x + 1" e] ilog_bounds [OF x] assms by linarith+
  then show ?thesis by simp
qed

lemma ilog_mono: "0 < x \<Longrightarrow> x \<le> y \<Longrightarrow> ilog x \<le> ilog y"
proof (rule ccontr)
  assume "0 < x" "x \<le> y" and "\<not> ilog x \<le> ilog y"
  then show False
    using ilog_bounds [of x] ilog_bounds [of y] pow2_le [of "ilog y + 1" "ilog x"] by linarith
qed

section \<open>Rounding to nearest\<close>

lemma nearest_half: "\<bar>of_int (nearest q) - q\<bar> \<le> 1 / 2"
  using floor_correct [of q] by (auto simp: nearest_def Let_def)

lemma nearest_int [simp]: "nearest (of_int n) = n"
  by (simp add: nearest_def)

lemma nearest_unique: "\<bar>of_int n - q\<bar> < 1 / 2 \<Longrightarrow> nearest q = n"
proof -
  assume n: "\<bar>of_int n - q\<bar> < 1 / 2"
  have "rat_of_int (nearest q) - of_int n < 1" "rat_of_int n - of_int (nearest q) < 1"
    using n nearest_half [of q] by linarith+
  then show ?thesis by linarith
qed

lemma nearest_mono:
  assumes "p \<le> q"
  shows "nearest p \<le> nearest q"
proof (cases "\<lfloor>p\<rfloor> = \<lfloor>q\<rfloor>")
  case True
  with assms show ?thesis by (auto simp: nearest_def Let_def)
next
  case False
  with assms have "\<lfloor>p\<rfloor> + 1 \<le> \<lfloor>q\<rfloor>" using floor_mono [OF assms] by simp
  moreover have "nearest p \<le> \<lfloor>p\<rfloor> + 1" "\<lfloor>q\<rfloor> \<le> nearest q" by (auto simp: nearest_def Let_def)
  ultimately show ?thesis by linarith
qed

lemma nearest_neg: "nearest (- q) = - nearest q"
proof (cases "q - of_int \<lfloor>q\<rfloor> = 1 / 2")
  case True
  then have q: "q = of_int \<lfloor>q\<rfloor> + 1 / 2" by simp
  have f: "\<lfloor>- q\<rfloor> = - \<lfloor>q\<rfloor> - 1" by (rule floor_unique) (use q in linarith)+
  from this have "- q - of_int \<lfloor>- q\<rfloor> = 1 / 2" using q by simp
  with True have "nearest (- q) = (if even \<lfloor>- q\<rfloor> then \<lfloor>- q\<rfloor> else \<lfloor>- q\<rfloor> + 1)"
    and "nearest q = (if even \<lfloor>q\<rfloor> then \<lfloor>q\<rfloor> else \<lfloor>q\<rfloor> + 1)"
    unfolding nearest_def Let_def by auto
  then show ?thesis unfolding f by auto
next
  case False
  have "\<bar>of_int (nearest q) - q\<bar> < 1 / 2"
    using floor_correct [of q] False by (auto simp: nearest_def Let_def)
  then show ?thesis by (intro nearest_unique) (simp add: abs_minus_commute)
qed

lemma ulp_pos [simp]: "0 < ulp x"
  by (simp add: ulp_def)

lemma ulp_nonzero [simp]: "ulp x \<noteq> 0"
  using ulp_pos [of x] by linarith

lemma ulp_neg [simp]: "ulp (- x) = ulp x"
  by (simp add: ulp_def)

lemma round32_0 [simp]: "round32 0 = 0"
  by (simp add: round32_def)

lemma round32_neg: "round32 (- x) = - round32 x"
  by (simp add: round32_def nearest_neg)

lemma round32_nonneg: "0 \<le> x \<Longrightarrow> 0 \<le> round32 x"
proof -
  assume "0 \<le> x"
  then have "nearest (of_int 0) \<le> nearest (x / ulp x)"
    by (intro nearest_mono) (simp add: divide_nonneg_pos)
  then have "0 \<le> nearest (x / ulp x)" using nearest_int [of 0] by simp
  then show ?thesis using less_imp_le [OF ulp_pos] by (simp add: round32_def)
qed

lemma round32_near: "\<bar>round32 x - x\<bar> \<le> ulp x / 2"
proof -
  have "\<bar>of_int (nearest (x / ulp x)) - x / ulp x\<bar> * ulp x \<le> 1 / 2 * ulp x"
    using nearest_half [of "x / ulp x"] less_imp_le [OF ulp_pos] by (rule mult_right_mono)
  moreover have "of_int (nearest (x / ulp x)) * ulp x - x = (of_int (nearest (x / ulp x)) - x / ulp x) * ulp x"
    by (simp add: left_diff_distrib)
  ultimately show ?thesis using less_imp_le [OF ulp_pos] by (simp add: round32_def abs_mult)
qed

text \<open>A multiple of the spacing on either side bounds the rounded value.\<close>

lemma round32_le:
  assumes "0 < x" and "x \<le> of_int n * ulp x"
  shows "round32 x \<le> of_int n * ulp x"
proof -
  have "x / ulp x \<le> of_int n" using assms(2) by (simp add: pos_divide_le_eq)
  from nearest_mono [OF this] have "nearest (x / ulp x) \<le> n" by simp
  with assms(1) show ?thesis by (simp add: round32_def)
qed

lemma round32_ge:
  assumes "0 < x" and "of_int n * ulp x \<le> x"
  shows "of_int n * ulp x \<le> round32 x"
proof -
  have "of_int n \<le> x / ulp x" using assms(2) by (simp add: pos_le_divide_eq)
  from nearest_mono [OF this] have "n \<le> nearest (x / ulp x)" by simp
  with assms(1) show ?thesis by (simp add: round32_def)
qed

lemma round32_grid: "x = of_int n * ulp x \<Longrightarrow> round32 x = x"
  by (metis nearest_int nonzero_mult_div_cancel_right round32_def less_irrefl ulp_pos)

text \<open>Rounding is monotone.\<close>

lemma round32_mono_pos:
  assumes "0 < x" and "x \<le> y"
  shows "round32 x \<le> round32 y"
proof (cases "ulp x = ulp y")
  case True
  have "nearest (x / ulp x) \<le> nearest (y / ulp x)"
    using assms by (intro nearest_mono divide_right_mono) (auto simp: less_imp_le)
  then show ?thesis using assms True by (simp add: round32_def)
next
  case False
  let ?e = "max (ilog x) (- 126)" and ?f = "max (ilog y) (- 126)"
  have y: "0 < y" using assms by linarith
  have le: "?e \<le> ?f" using ilog_mono [OF assms] by (rule max.mono) simp
  have "?e \<noteq> ?f" using False assms y by (auto simp: ulp_def)
  with le have lt: "?e + 1 \<le> ?f" and f: "?f = ilog y" by auto
  have x1: "x < pow2 (?e + 1)"
    using ilog_bounds [OF assms(1)] pow2_le [of "ilog x + 1" "?e + 1"] by (simp add: less_le_trans)
  have "pow2 (?e + 1) = of_int (2 ^ 24) * ulp x" "pow2 ?f = of_int (2 ^ 23) * ulp y"
    using pow2_add_nat [of "?e - 23" 24] pow2_add_nat [of "?f - 23" 23] assms y
    by (simp_all add: ulp_def ac_simps)
  then have "round32 x \<le> pow2 (?e + 1)" "pow2 ?f \<le> round32 y"
    using round32_le [OF assms(1), of "2 ^ 24"] round32_ge [OF y, of "2 ^ 23"] x1 ilog_bounds [OF y] f by auto
  with pow2_le [OF lt] show ?thesis by linarith
qed

lemma round32_mono:
  assumes "x \<le> y"
  shows "round32 x \<le> round32 y"
proof -
  consider "0 < x" | "x \<le> 0" "0 \<le> y" | "y < 0" by linarith
  then show ?thesis
  proof cases
    case 1
    with assms show ?thesis by (simp add: round32_mono_pos)
  next
    case 2
    then show ?thesis using round32_nonneg [of y] round32_nonneg [of "- x"] by (simp add: round32_neg)
  next
    case 3
    with assms have "round32 (- y) \<le> round32 (- x)" by (intro round32_mono_pos) auto
    then show ?thesis by (simp add: round32_neg)
  qed
qed

text \<open>Integers of up to 24 bits are exact.\<close>

lemma round32_int:
  assumes "\<bar>n\<bar> \<le> 2 ^ 24"
  shows "round32 (of_int n) = of_int n"
proof -
  have pos: "round32 (of_int m) = of_int m" if "0 < m" "m \<le> 2 ^ 24" for m :: int
  proof -
    have "rat_of_int 1 \<le> of_int m" "rat_of_int m \<le> of_int (2 ^ 24)" using that by (simp_all only: of_int_le_iff)
    then have m: "1 \<le> rat_of_int m" "rat_of_int m \<le> 2 ^ 24" by simp_all
    have "ilog 1 = 0" "ilog (2 ^ 24) = 24" by (rule ilog_unique; simp add: pow2_def)+
    with ilog_mono [of 1 "of_int m"] ilog_mono [of "of_int m" "2 ^ 24"] m
    have i: "0 \<le> ilog (of_int m)" "ilog (of_int m) \<le> 24" by auto
    show ?thesis
    proof (cases "ilog (of_int m) \<le> 23")
      case True
      have "ulp (of_int m) * 2 ^ nat (23 - ilog (of_int m)) = 1"
        using pow2_add_nat [of "ilog (of_int m) - 23" "nat (23 - ilog (of_int m))"] i True that
        by (simp add: ulp_def max_absorb1 ac_simps)
      then have "rat_of_int m = of_int (m * 2 ^ nat (23 - ilog (of_int m))) * ulp (of_int m)" by (simp add: ac_simps)
      then show ?thesis by (rule round32_grid)
    next
      case False
      with i have "ilog (rat_of_int m) = 24" by simp
      moreover from this have "2 ^ 24 \<le> rat_of_int m" using ilog_bounds [of "of_int m"] that by (simp add: pow2_def)
      with m have "rat_of_int m = 2 ^ 24" by simp
      ultimately have "rat_of_int m = of_int (2 ^ 23) * ulp (of_int m)" by (simp add: ulp_def pow2_def)
      then show ?thesis by (rule round32_grid)
    qed
  qed
  show ?thesis using pos [of n] pos [of "- n"] assms round32_neg [of "of_int n"]
    by (cases "n = 0"; cases "0 < n") auto
qed

section \<open>Order and the operations\<close>

lemma fin32_mono: "x \<le> y \<Longrightarrow> f32_le (fin32 x) (fin32 y)"
  using round32_mono [of x y] round32_nonneg [of x] round32_nonneg [of "- y"]
  by (cases "0 \<le> x") (auto simp: fin32_def round32_neg abs_if split: if_splits)

lemma fin32_small:
  assumes "\<bar>x\<bar> \<le> 2 ^ 127"
  shows "fin32 x = Fin (round32 x)"
proof -
  have "ilog (2 ^ 127) = 127" by (rule ilog_unique) (simp_all add: pow2_def)
  then have "(2::rat) ^ 127 = of_int (2 ^ 23) * ulp (2 ^ 127)" by (simp add: ulp_def pow2_def)
  then have "round32 (2 ^ 127) = 2 ^ 127" by (rule round32_grid)
  then have "\<bar>round32 x\<bar> \<le> 2 ^ 127"
    using assms round32_mono [of x "2 ^ 127"] round32_mono [of "- x" "2 ^ 127"]
    by (auto simp: round32_neg abs_le_iff)
  then show ?thesis by (simp add: fin32_def)
qed

lemma fin32_int: "\<bar>n\<bar> \<le> 2 ^ 24 \<Longrightarrow> fin32 (of_int n) = Fin (of_int n)"
proof -
  assume n: "\<bar>n\<bar> \<le> 2 ^ 24"
  then have "rat_of_int \<bar>n\<bar> \<le> of_int (2 ^ 24)" by (simp only: of_int_le_iff)
  then have "\<bar>rat_of_int n\<bar> \<le> 2 ^ 127" by simp
  with n show ?thesis by (simp add: fin32_small round32_int)
qed

lemma f32_sub_ints:
  "\<bar>m - n\<bar> \<le> 2 ^ 24 \<Longrightarrow> f32_sub (Fin (of_int m)) (Fin (of_int n)) = Fin (of_int (m - n))"
  using fin32_int [of "m - n"] by (simp add: f32_sub_def)

lemma f32_mul_ints: "\<bar>m * n\<bar> \<le> 2 ^ 24 \<Longrightarrow> f32_mul (Fin (of_int m)) (Fin (of_int n)) = Fin (of_int (m * n))"
  using fin32_int [of "m * n"] by simp

lemma f32_add_ints: "\<bar>m + n\<bar> \<le> 2 ^ 24 \<Longrightarrow> f32_add (Fin (of_int m)) (Fin (of_int n)) = Fin (of_int (m + n))"
  using fin32_int [of "m + n"] by simp

lemma fin32_neg: "fin32 (- x) = f32_neg (fin32 x)"
  by (cases "x = 0") (auto simp: fin32_def round32_neg)

text \<open>The difference changes its sign with the order of its operands, a square does not see the sign.\<close>

lemma f32_sub_flip: "f32_sub y x = f32_neg (f32_sub x y)"
proof (cases x; cases y)
  fix a b
  assume "x = Fin a" "y = Fin b"
  then show ?thesis using fin32_neg [of "a - b"] by (simp add: f32_sub_def)
qed (auto simp: f32_sub_def)

lemma f32_square_neg: "f32_mul (f32_neg x) (f32_neg x) = f32_mul x x"
  by (cases x) auto

section \<open>The square root\<close>

lemma isqrt_bounds: "0 \<le> n \<Longrightarrow> 0 \<le> isqrt n \<and> isqrt n ^ 2 \<le> n \<and> n < (isqrt n + 1) ^ 2"
proof (induction n rule: isqrt.induct)
  case (1 n)
  show ?case
  proof (cases "n = 0")
    case True
    then show ?thesis by (simp add: isqrt.simps)
  next
    case False
    let ?q = "isqrt (n div 4)"
    have q: "0 \<le> ?q" "?q ^ 2 \<le> n div 4" "n div 4 < (?q + 1) ^ 2" using 1 False by auto
    then have "4 * ?q ^ 2 \<le> n" "n < 4 * (?q + 1) ^ 2" by linarith+
    then have "(2 * ?q) ^ 2 \<le> n" "n < (2 * ?q + 2) ^ 2" by (auto simp: power2_eq_square algebra_simps)
    moreover have "isqrt n = (if (2 * ?q + 1) ^ 2 \<le> n then 2 * ?q + 1 else 2 * ?q)"
      using False 1(2) by (subst isqrt.simps) (simp add: Let_def)
    ultimately show ?thesis using q(1) by (auto simp: add.commute)
  qed
qed

lemma root32_cases:
  assumes "0 < x"
  obtains e u n where "e = ilog x div 2" and "u = pow2 (e - 23)" and "0 \<le> n"
    and "rat_of_int n * u \<le> root32 x" and "root32 x \<le> (rat_of_int n + 1) * u"
    and "rat_of_int (n ^ 2) \<le> x / u ^ 2" and "x / u ^ 2 < rat_of_int ((n + 1) ^ 2)"
    and "x / u ^ 2 < (rat_of_int n + 1 / 2) ^ 2 \<Longrightarrow> root32 x = rat_of_int n * u"
proof -
  define e u y n where "e = ilog x div 2" and "u = pow2 (e - 23)" and "y = x / u ^ 2" and "n = isqrt \<lfloor>y\<rfloor>"
  note d = this
  have "0 < u" by (simp add: u_def)
  have "0 \<le> y" using assms by (simp add: y_def)
  then have f: "0 \<le> \<lfloor>y\<rfloor>" "rat_of_int \<lfloor>y\<rfloor> \<le> y" "y < rat_of_int (\<lfloor>y\<rfloor> + 1)" using floor_correct [of y] by auto
  moreover have "rat_of_int (n ^ 2) \<le> rat_of_int \<lfloor>y\<rfloor>" "rat_of_int (\<lfloor>y\<rfloor> + 1) \<le> rat_of_int ((n + 1) ^ 2)"
    using isqrt_bounds [OF f(1)] unfolding of_int_le_iff n_def by auto
  ultimately have b: "rat_of_int (n ^ 2) \<le> y" "y < rat_of_int ((n + 1) ^ 2)" by linarith+
  have r: "root32 x = rat_of_int (if y < (rat_of_int n + 1 / 2) ^ 2 then n else if (rat_of_int n + 1 / 2) ^ 2 < y then n + 1
      else if even n then n else n + 1) * u"
    using assms by (simp add: root32_def sqrt_ulp_def Let_def d)
  have "0 \<le> n" using isqrt_bounds [OF f(1)] by (simp add: n_def)
  then show ?thesis
    by (rule that [OF e_def u_def, of n]; (fold y_def)?; use b r \<open>0 < u\<close> in \<open>auto intro!: mult_right_mono\<close>)
qed

lemma root32_inside:
  assumes "0 < x" and "x \<le> 2500"
  shows "root32 x \<le> 50"
proof -
  from root32_cases [OF assms(1)] obtain e u n where
    e: "e = ilog x div 2" and u: "u = pow2 (e - 23)" and n: "rat_of_int (n ^ 2) \<le> x / u ^ 2"
    and r: "root32 x \<le> (rat_of_int n + 1) * u"
    "x / u ^ 2 < (rat_of_int n + 1 / 2) ^ 2 \<Longrightarrow> root32 x = rat_of_int n * u" by metis
  have "ilog 2500 = 11" by (rule ilog_unique) (simp_all add: pow2_def)
  with ilog_mono [OF assms] e have "e \<le> 5" by simp
  define k :: int where "k = 50 * 2 ^ nat (23 - e)"
  have k: "rat_of_int k * u = 50"
    using pow2_add_nat [of "e - 23" "nat (23 - e)"] \<open>e \<le> 5\<close> by (simp add: k_def u)
  have "0 < u" by (simp add: u)
  have "x / u ^ 2 \<le> 2500 / u ^ 2" using assms(2) \<open>0 < u\<close> by (intro divide_right_mono) auto
  also have "2500 / u ^ 2 = rat_of_int (k ^ 2)"
    using \<open>0 < u\<close> arg_cong [OF k, of "\<lambda>z. z ^ 2 / u ^ 2"] by (simp add: power_mult_distrib)
  finally have y: "x / u ^ 2 \<le> rat_of_int (k ^ 2)" .
  with n have "n ^ 2 \<le> k ^ 2" by (meson of_int_le_iff order_trans)
  moreover have "0 \<le> k" by (simp add: k_def)
  moreover from this have k0: "0 \<le> rat_of_int k" by simp
  ultimately have "n \<le> k" by (metis power2_le_imp_le)
  show ?thesis
  proof (cases "n = k")
    case True
    then have "x / u ^ 2 < (rat_of_int n + 1 / 2) ^ 2"
      using y k0 by (simp add: power2_eq_square algebra_simps)
    with r(2) True k show ?thesis by simp
  next
    case False
    with \<open>n \<le> k\<close> have "rat_of_int (n + 1) \<le> rat_of_int k" unfolding of_int_le_iff by simp
    then have "(rat_of_int n + 1) * u \<le> rat_of_int k * u" using \<open>0 < u\<close> by (intro mult_right_mono) auto
    with r(1) k show ?thesis by simp
  qed
qed

lemma root32_outside:
  assumes "2501 \<le> x"
  shows "50 < root32 x"
proof -
  have x: "0 < x" using assms by simp
  from root32_cases [OF x] obtain e u n where
    e: "e = ilog x div 2" and u: "u = pow2 (e - 23)" and n: "x / u ^ 2 < rat_of_int ((n + 1) ^ 2)"
    and r: "0 \<le> n" "rat_of_int n * u \<le> root32 x" by metis
  have "0 < u" by (simp add: u)
  have "ilog 2501 = 11" by (rule ilog_unique) (simp_all add: pow2_def)
  with ilog_mono [of 2501 x] assms e have "5 \<le> e" by simp
  show ?thesis
  proof (rule ccontr)
    assume "\<not> 50 < root32 x"
    with r(2) have nu: "rat_of_int n * u \<le> 50" by simp
    have "x < rat_of_int ((n + 1) ^ 2) * u ^ 2" using n \<open>0 < u\<close> by (simp add: pos_divide_less_eq)
    also have "\<dots> = (rat_of_int n * u + u) ^ 2" by (simp add: power2_eq_square algebra_simps)
    also have "\<dots> \<le> (50 + u) ^ 2" using nu r(1) \<open>0 < u\<close> by (intro power_mono) auto
    finally have xb: "x < (50 + u) ^ 2" .
    have "pow2 (2 * e) \<le> x" using ilog_bounds [OF x] pow2_le [of "2 * e" "ilog x"] e by linarith
    moreover have "pow2 (2 * e) = (2 ^ 23 * u) ^ 2"
      using pow2_add [of e e] pow2_add_nat [of "e - 23" 23] by (simp add: u power2_eq_square)
    ultimately have "(2 ^ 23 * u) ^ 2 < (50 + u) ^ 2" using xb by linarith
    then have "2 ^ 23 * u < 50 + u" by (rule power2_less_imp_less) (use \<open>0 < u\<close> in simp)
    then have "u < 1 / 1000" by simp
    then have "(50 + u) ^ 2 \<le> (50 + 1 / 1000) ^ 2" using \<open>0 < u\<close> by (intro power_mono) auto
    with xb assms show False by (simp add: power2_eq_square)
  qed
qed

end
