(* ===== verification/Attributes.thy ===== *)
theory Attributes
  imports Equip Float32
begin

text \<open>
  \<open>game_server/logic_server/equip_module.cc\<close>: the attributes equipment gives its wearer, computed with
  \<^verbatim>\<open>float\<close> bonuses and converted back to \<^verbatim>\<open>int32_t\<close>.
\<close>

section \<open>The computation\<close>

record EquipAttribute =
  hp :: i32
  mp :: i32
  attack :: i32
  defense :: i32
  speed :: i32
  critical :: i32
  critical_damage :: i32
  dodge :: i32
  hit :: i32
  armor :: i32
  magic_resist :: i32

definition no_attribute :: EquipAttribute where
  "no_attribute = \<lparr>hp = 0, mp = 0, attack = 0, defense = 0, speed = 0, critical = 0, critical_damage = 0,
     dodge = 0, hit = 0, armor = 0, magic_resist = 0\<rparr>"

text \<open>\<^verbatim>\<open>1.0f + level * weight\<close>, with \<^verbatim>\<open>0.1f\<close> and \<^verbatim>\<open>0.2f\<close> as the nearest numbers of the type.\<close>

definition bonus :: "rat \<Rightarrow> i32 \<Rightarrow> f32" where
  "bonus w n = f32_add (Fin 1) (f32_mul (f32_of_int n) (fin32 w))"

definition strengthened :: "EquipInfo \<Rightarrow> i32 \<Rightarrow> i32 outcome" where
  "strengthened e base = i32_of_f32 (f32_mul (f32_mul (f32_mul (f32_of_int base)
     (bonus (1 / 10) (enhance_level e))) (bonus (1 / 5) (star_level e))) (bonus (1 / 10) (quality e)))"

definition CalculateSingleEquipAttribute :: "EquipInfo \<Rightarrow> EquipAttribute outcome" where
  "CalculateSingleEquipAttribute e =
     bindO (mul32 (level e) 10) (\<lambda>a. bindO (add32 100 a) (\<lambda>base_attack.
     bindO (mul32 (level e) 5) (\<lambda>d. bindO (add32 50 d) (\<lambda>base_defense.
     bindO (strengthened e base_attack) (\<lambda>att.
     bindO (strengthened e base_defense) (\<lambda>def.
       Ret (no_attribute\<lparr>attack := att, defense := def\<rparr>)))))))"

text \<open>The sum over all that is worn, field by field.\<close>

definition add_attribute :: "EquipAttribute \<Rightarrow> EquipAttribute \<Rightarrow> EquipAttribute outcome" where
  "add_attribute a b =
     bindO (add32 (hp a) (hp b)) (\<lambda>x1. bindO (add32 (mp a) (mp b)) (\<lambda>x2.
     bindO (add32 (attack a) (attack b)) (\<lambda>x3. bindO (add32 (defense a) (defense b)) (\<lambda>x4.
     bindO (add32 (speed a) (speed b)) (\<lambda>x5. bindO (add32 (critical a) (critical b)) (\<lambda>x6.
     bindO (add32 (critical_damage a) (critical_damage b)) (\<lambda>x7. bindO (add32 (dodge a) (dodge b)) (\<lambda>x8.
     bindO (add32 (hit a) (hit b)) (\<lambda>x9. bindO (add32 (armor a) (armor b)) (\<lambda>x10.
     bindO (add32 (magic_resist a) (magic_resist b)) (\<lambda>x11.
       Ret \<lparr>hp = x1, mp = x2, attack = x3, defense = x4, speed = x5, critical = x6, critical_damage = x7,
            dodge = x8, hit = x9, armor = x10, magic_resist = x11\<rparr>)))))))))))"

primrec sum_worn :: "(i32 \<times> EquipInfo) list \<Rightarrow> EquipAttribute \<Rightarrow> EquipAttribute outcome" where
  "sum_worn [] acc = Ret acc"
| "sum_worn (x # xs) acc =
     bindO (CalculateSingleEquipAttribute (snd x)) (\<lambda>a. bindO (add_attribute acc a) (sum_worn xs))"

definition CalculateEquipAttribute :: "u64 \<Rightarrow> (EquipModule, EquipAttribute) oper" where
  "CalculateEquipAttribute role = guarded (\<lambda>s.
     case map_of (worn_equips s) role of
       None \<Rightarrow> Ret (no_attribute, s)
     | Some w \<Rightarrow> bindO (sum_worn w no_attribute) (\<lambda>a. Ret (a, s)))"

section \<open>The product as a rounded rational\<close>

definition bonus_value :: "rat \<Rightarrow> i32 \<Rightarrow> rat" where
  "bonus_value w n = round32 (1 + round32 (round32 (of_int n) * round32 w))"

definition product_value :: "i32 \<Rightarrow> i32 \<Rightarrow> i32 \<Rightarrow> i32 \<Rightarrow> rat" where
  "product_value b n st q = round32 (round32 (round32 (round32 (of_int b) *
     bonus_value (1 / 10) n) * bonus_value (1 / 5) st) * bonus_value (1 / 10) q)"

text \<open>A power of two bounds the rounded value as it bounds the value.\<close>

lemma round32_pow2: "k \<le> 127 \<Longrightarrow> round32 (2 ^ k) = 2 ^ k"
proof -
  assume k: "k \<le> 127"
  have "ilog (2 ^ k) = int k" by (rule ilog_unique) (simp_all add: pow2_def nat_add_distrib)
  then have "(2::rat) ^ k = of_int (2 ^ 23) * ulp (2 ^ k)"
    using pow2_add_nat [of "int k - 23" 23] by (simp add: ulp_def max_absorb1 pow2_def)
  then show ?thesis by (rule round32_grid)
qed

lemma round32_bound: "0 \<le> x \<Longrightarrow> x \<le> 2 ^ k \<Longrightarrow> k \<le> 127 \<Longrightarrow> 0 \<le> round32 x \<and> round32 x \<le> 2 ^ k"
  using round32_mono [of x "2 ^ k"] round32_pow2 [of k] round32_nonneg [of x] by simp

lemma fin32_bound: "0 \<le> x \<Longrightarrow> x \<le> 2 ^ k \<Longrightarrow> k \<le> 127 \<Longrightarrow> fin32 x = Fin (round32 x)"
  using power_increasing [of k 127 "2::rat"] by (intro fin32_small) simp

lemma round32_mult_bound:
  assumes "0 \<le> x" and "x \<le> 2 ^ j" and "0 \<le> y" and "y \<le> 2 ^ k" and "j + k \<le> 127"
  shows "fin32 (x * y) = Fin (round32 (x * y)) \<and> 0 \<le> round32 (x * y) \<and> round32 (x * y) \<le> 2 ^ (j + k)"
proof -
  have "0 \<le> x * y" "x * y \<le> 2 ^ (j + k)"
    using assms by (auto simp: power_add intro: mult_mono)
  with assms(5) show ?thesis using fin32_bound round32_bound by blast
qed

lemma of_int_bound:
  assumes "0 \<le> n" and "in_i32 n"
  shows "f32_of_int n = Fin (round32 (of_int n)) \<and> 0 \<le> round32 (of_int n) \<and> round32 (of_int n) \<le> 2 ^ 31"
proof -
  have "rat_of_int 0 \<le> of_int n" "rat_of_int n \<le> of_int (2 ^ 31)"
    using assms unfolding of_int_le_iff by (auto simp: in_i32_def)
  then have "0 \<le> rat_of_int n" "rat_of_int n \<le> 2 ^ 31" by simp_all
  then show ?thesis using fin32_bound [of "of_int n" 31] round32_bound [of "of_int n" 31]
    by (simp add: f32_of_int_def)
qed

lemma weight_bound: "0 \<le> w \<Longrightarrow> w \<le> 1 \<Longrightarrow> fin32 w = Fin (round32 w) \<and> 0 \<le> round32 w \<and> round32 w \<le> 2 ^ 0"
  using fin32_bound [of w 0] round32_bound [of w 0] by simp

lemma bonus_bound:
  assumes "0 \<le> n" and "in_i32 n" and "0 \<le> w" and "w \<le> 1"
  shows "bonus w n = Fin (bonus_value w n) \<and> 0 \<le> bonus_value w n \<and> bonus_value w n \<le> 2 ^ 32"
proof -
  let ?p = "round32 (round32 (of_int n) * round32 w)"
  note i = of_int_bound [OF assms(1,2)] and w = weight_bound [OF assms(3,4)]
  have p: "fin32 (round32 (of_int n) * round32 w) = Fin ?p" "0 \<le> ?p" "?p \<le> 2 ^ 31"
    using round32_mult_bound [of "round32 (of_int n)" 31 "round32 w" 0] i w by auto
  then have "0 \<le> 1 + ?p" "1 + ?p \<le> 2 ^ 32" by simp_all
  then show ?thesis using fin32_bound [of "1 + ?p" 32] round32_bound [of "1 + ?p" 32] i w p
    by (simp add: bonus_def bonus_value_def)
qed

definition nonnegative :: "EquipInfo \<Rightarrow> bool" where
  "nonnegative e \<longleftrightarrow> 0 \<le> level e \<and> 0 \<le> enhance_level e \<and> in_i32 (enhance_level e) \<and>
     0 \<le> star_level e \<and> in_i32 (star_level e) \<and> 0 \<le> quality e \<and> in_i32 (quality e)"

lemma strengthened_value:
  assumes "nonnegative e" and "0 \<le> b" and "in_i32 b"
  shows "strengthened e b =
    (let n = \<lfloor>product_value b (enhance_level e) (star_level e) (quality e)\<rfloor> in
     if in_i32 n then Ret n else Fault OutOfRange)"
    and "0 \<le> product_value b (enhance_level e) (star_level e) (quality e)"
proof -
  let ?b = "round32 (of_int b)" and ?s = "bonus_value (1 / 10) (enhance_level e)"
    and ?t = "bonus_value (1 / 5) (star_level e)" and ?q = "bonus_value (1 / 10) (quality e)"
  have s: "bonus (1 / 10) (enhance_level e) = Fin ?s \<and> 0 \<le> ?s \<and> ?s \<le> 2 ^ 32"
    and t: "bonus (1 / 5) (star_level e) = Fin ?t \<and> 0 \<le> ?t \<and> ?t \<le> 2 ^ 32"
    and q: "bonus (1 / 10) (quality e) = Fin ?q \<and> 0 \<le> ?q \<and> ?q \<le> 2 ^ 32"
    by (rule bonus_bound; use assms(1) in \<open>simp add: nonnegative_def\<close>)+
  note b = of_int_bound [OF assms(2,3)]
  have m1: "fin32 (?b * ?s) = Fin (round32 (?b * ?s)) \<and> 0 \<le> round32 (?b * ?s) \<and> round32 (?b * ?s) \<le> 2 ^ (31 + 32)"
    by (rule round32_mult_bound) (use b s in auto)
  then have m2: "fin32 (round32 (?b * ?s) * ?t) = Fin (round32 (round32 (?b * ?s) * ?t)) \<and>
      0 \<le> round32 (round32 (?b * ?s) * ?t) \<and> round32 (round32 (?b * ?s) * ?t) \<le> 2 ^ (31 + 32 + 32)"
    by (intro round32_mult_bound) (use t in auto)
  then have m3: "fin32 (round32 (round32 (?b * ?s) * ?t) * ?q) = Fin (product_value b (enhance_level e) (star_level e) (quality e)) \<and>
      0 \<le> product_value b (enhance_level e) (star_level e) (quality e) \<and>
      product_value b (enhance_level e) (star_level e) (quality e) \<le> 2 ^ (31 + 32 + 32 + 32)"
    unfolding product_value_def by (intro round32_mult_bound) (use q in auto)
  then show "0 \<le> product_value b (enhance_level e) (star_level e) (quality e)" by simp
  then show "strengthened e b = (let n = \<lfloor>product_value b (enhance_level e) (star_level e) (quality e)\<rfloor> in
     if in_i32 n then Ret n else Fault OutOfRange)"
    using b s t q m1 m2 m3 by (simp add: strengthened_def Let_def)
qed

lemma bonus_value_mono: "m \<le> n \<Longrightarrow> 0 \<le> w \<Longrightarrow> bonus_value w m \<le> bonus_value w n"
  unfolding bonus_value_def
  by (intro round32_mono add_left_mono mult_right_mono round32_nonneg) auto

lemma bonus_value_nonneg: "0 \<le> n \<Longrightarrow> 0 \<le> w \<Longrightarrow> 0 \<le> bonus_value w n"
  unfolding bonus_value_def
  by (intro round32_nonneg add_nonneg_nonneg mult_nonneg_nonneg) auto

lemma product_value_mono:
  assumes "0 \<le> b" "b \<le> b'" "0 \<le> n" "n \<le> n'" "0 \<le> st" "st \<le> st'" "0 \<le> q" "q \<le> q'"
  shows "product_value b n st q \<le> product_value b' n' st' q'"
  unfolding product_value_def
  by (intro round32_mono mult_mono bonus_value_mono round32_nonneg mult_nonneg_nonneg bonus_value_nonneg)
    (use assms in auto)

section \<open>Properties\<close>

lemma single_value:
  assumes "CalculateSingleEquipAttribute e = Ret a" and "nonnegative e"
  shows "attack a = \<lfloor>product_value (100 + level e * 10) (enhance_level e) (star_level e) (quality e)\<rfloor>"
    and "defense a = \<lfloor>product_value (50 + level e * 5) (enhance_level e) (star_level e) (quality e)\<rfloor>"
    and "a = no_attribute\<lparr>attack := attack a, defense := defense a\<rparr>"
  using assms strengthened_value [OF assms(2)]
  by (auto simp: CalculateSingleEquipAttribute_def nonnegative_def no_attribute_def Let_def split: if_splits)

text \<open>
  Equipment never loses strength. Over any run of the equipment module, for a piece of equipment with no
  negative level whose attributes are defined before and after, neither its attack nor its
  defence has fallen, although they are computed with rounded numbers.
\<close>

theorem attributes_never_fall:
  assumes "run_cmds equip_exec cs (idle s) = Ret (oks, idle s')" and "equip_inv s"
    and "find_equip r eid s = Some e" and "find_equip r eid s' = Some e'"
    and "nonnegative e" and "nonnegative e'"
    and "CalculateSingleEquipAttribute e = Ret a" and "CalculateSingleEquipAttribute e' = Ret a'"
  shows "attack a \<le> attack a' \<and> defense a \<le> defense a'"
proof -
  have g: "grows e e'" using equip_run_grows [OF assms(1,2,3)] assms(4) by simp
  have "product_value b (enhance_level e) (star_level e) (quality e)
      \<le> product_value b (enhance_level e') (star_level e') (quality e')" if "0 \<le> b" for b
    using g that assms(5) by (intro product_value_mono) (auto simp: grows_def nonnegative_def)
  then show ?thesis
    using g assms(5) unfolding single_value(1,2) [OF assms(7,5)] single_value(1,2) [OF assms(8,6)]
    by (auto simp: grows_def nonnegative_def intro!: floor_mono)
qed

theorem attributes_never_fall_witness:
  "\<exists>oks s' e' a'. run_cmds equip_exec [CStrengthenEquip 7 5 4, CUpgradeStar 7 5 1] (idle armed) = Ret (oks, idle s') \<and>
     find_equip 7 5 s' = Some e' \<and> CalculateSingleEquipAttribute e' = Ret a' \<and> 143 \<le> attack a' \<and> 71 \<le> defense a'"
proof -
  let ?s = "armed\<lparr>equip_cache := [(7, [sword\<lparr>enhance_level := 4, star_level := 1\<rparr>])]\<rparr>"
  have r: "run_cmds equip_exec [CStrengthenEquip 7 5 4, CUpgradeStar 7 5 1] (idle armed) = Ret ([True, True], idle ?s)"
    by code_simp
  have f: "find_equip 7 5 armed = Some sword" "find_equip 7 5 ?s = Some (sword\<lparr>enhance_level := 4, star_level := 1\<rparr>)"
    and n: "nonnegative sword" "nonnegative (sword\<lparr>enhance_level := 4, star_level := 1\<rparr>)"
    by code_simp+
  have a: "CalculateSingleEquipAttribute sword = Ret (no_attribute\<lparr>attack := 143, defense := 71\<rparr>)"
    "CalculateSingleEquipAttribute (sword\<lparr>enhance_level := 4, star_level := 1\<rparr>) =
      Ret (no_attribute\<lparr>attack := 240, defense := 120\<rparr>)" by code_simp+
  from attributes_never_fall [OF r equip_inv_armed f n a]
  have "143 \<le> attack (no_attribute\<lparr>attack := 240, defense := 120\<rparr>) \<and>
      71 \<le> defense (no_attribute\<lparr>attack := 240, defense := 120\<rparr>)" by simp
  with r f(2) a(2) show ?thesis by blast
qed

text \<open>The bounds of the game.\<close>

definition in_game :: "EquipInfo \<Rightarrow> bool" where
  "in_game e \<longleftrightarrow> 0 \<le> level e \<and> level e \<le> 1000 \<and> 0 \<le> enhance_level e \<and> enhance_level e \<le> 100 \<and>
     0 \<le> star_level e \<and> star_level e \<le> 100 \<and> 0 \<le> quality e \<and> quality e \<le> 20"

lemma in_game_nonnegative: "in_game e \<Longrightarrow> nonnegative e"
  by (simp add: in_game_def nonnegative_def in_i32_def)

lemma largest_bonuses: "bonus_value (1 / 10) 100 = 11" "bonus_value (1 / 5) 100 = 21" "bonus_value (1 / 10) 20 = 3"
  by code_simp+

lemma smallest_bonuses: "bonus_value w 0 = 1"
  using round32_int [of 1] by (simp add: bonus_value_def)

lemma product_value_ints:
  assumes "\<bar>b\<bar> \<le> 2 ^ 24" "\<bar>b * x\<bar> \<le> 2 ^ 24" "\<bar>b * x * y\<bar> \<le> 2 ^ 24" "\<bar>b * x * y * z\<bar> \<le> 2 ^ 24"
    and "bonus_value (1 / 10) n = of_int x" "bonus_value (1 / 5) st = of_int y" "bonus_value (1 / 10) q = of_int z"
  shows "product_value b n st q = of_int (b * x * y * z)"
  unfolding product_value_def assms(5-7) by (simp only: round32_int [OF assms(1)] of_int_mult [symmetric]
      round32_int [OF assms(2)] round32_int [OF assms(3)] round32_int [OF assms(4)])

lemma in_game_product:
  assumes "in_game e" and "0 \<le> b" and "b \<le> 10100"
  shows "of_int b \<le> product_value b (enhance_level e) (star_level e) (quality e)"
    and "product_value b (enhance_level e) (star_level e) (quality e) \<le> 6999300"
proof -
  have "product_value b 0 0 0 = of_int (b * 1 * 1 * 1)"
    using assms by (intro product_value_ints) (auto simp: smallest_bonuses)
  moreover have "product_value b 0 0 0 \<le> product_value b (enhance_level e) (star_level e) (quality e)"
    using assms by (intro product_value_mono) (auto simp: in_game_def)
  ultimately show "of_int b \<le> product_value b (enhance_level e) (star_level e) (quality e)" by simp
  have "product_value 10100 100 100 20 = of_int (10100 * 11 * 21 * 3)"
    by (intro product_value_ints) (auto simp: largest_bonuses)
  moreover have "product_value b (enhance_level e) (star_level e) (quality e) \<le> product_value 10100 100 100 20"
    using assms by (intro product_value_mono) (auto simp: in_game_def)
  ultimately show "product_value b (enhance_level e) (star_level e) (quality e) \<le> 6999300" by simp
qed

lemma attribute_inject [simp]:
  "no_attribute\<lparr>attack := a, defense := d\<rparr> = no_attribute\<lparr>attack := a', defense := d'\<rparr> \<longleftrightarrow> a = a' \<and> d = d'"
  by (simp add: no_attribute_def)

lemma in_game_single:
  assumes "in_game e"
  shows "\<exists>att def. CalculateSingleEquipAttribute e = Ret (no_attribute\<lparr>attack := att, defense := def\<rparr>) \<and>
    100 + level e * 10 \<le> att \<and> att \<le> 6999300 \<and> 50 + level e * 5 \<le> def \<and> def \<le> 6999300"
proof -
  have ok: "\<exists>n. strengthened e b = Ret n \<and> b \<le> n \<and> n \<le> 6999300" if b: "0 \<le> b" "b \<le> 10100" for b
  proof -
    let ?p = "product_value b (enhance_level e) (star_level e) (quality e)"
    obtain n where n: "n = \<lfloor>?p\<rfloor>" by simp
    then have "b \<le> n" "n \<le> 6999300"
      using in_game_product [OF assms b] by (simp_all add: le_floor_iff floor_le_iff)
    moreover from this b have "in_i32 \<lfloor>?p\<rfloor>" "in_i32 b" by (simp_all add: in_i32_def flip: n)
    ultimately show ?thesis
      using strengthened_value(1) [OF in_game_nonnegative [OF assms] b(1)] n by simp
  qed
  have l: "0 \<le> level e" "level e \<le> 1000" using assms by (simp_all add: in_game_def)
  obtain att def where "strengthened e (100 + level e * 10) = Ret att" "strengthened e (50 + level e * 5) = Ret def"
    "100 + level e * 10 \<le> att" "att \<le> 6999300" "50 + level e * 5 \<le> def" "def \<le> 6999300"
    using ok [of "100 + level e * 10"] ok [of "50 + level e * 5"] l by auto
  with l show ?thesis by (simp add: CalculateSingleEquipAttribute_def in_i32_def)
qed

lemma sum_in_game:
  assumes "list_all (in_game \<circ> snd) w" and "0 \<le> x" and "x + int (length w) * 6999300 < 2 ^ 31"
    and "0 \<le> y" and "y + int (length w) * 6999300 < 2 ^ 31"
  shows "\<exists>att def. sum_worn w (no_attribute\<lparr>attack := x, defense := y\<rparr>) =
      Ret (no_attribute\<lparr>attack := att, defense := def\<rparr>) \<and>
    x + (\<Sum>x\<leftarrow>w. 100 + level (snd x) * 10) \<le> att \<and> y + (\<Sum>x\<leftarrow>w. 50 + level (snd x) * 5) \<le> def"
  using assms
proof (induction w arbitrary: x y)
  case Nil
  show ?case by simp
next
  case (Cons v w)
  then have "in_game (snd v)" by simp
  then obtain att def where s: "CalculateSingleEquipAttribute (snd v) = Ret (no_attribute\<lparr>attack := att, defense := def\<rparr>)"
    and b: "100 + level (snd v) * 10 \<le> att" "att \<le> 6999300" "50 + level (snd v) * 5 \<le> def" "def \<le> 6999300"
    and l: "0 \<le> level (snd v)"
    using in_game_single by (metis in_game_def)
  have add: "add_attribute (no_attribute\<lparr>attack := x, defense := y\<rparr>) (no_attribute\<lparr>attack := att, defense := def\<rparr>) =
      Ret (no_attribute\<lparr>attack := x + att, defense := y + def\<rparr>)"
    using b l Cons.prems(2-5) by (simp add: add_attribute_def no_attribute_def in_i32_def)
  have "\<exists>att' def'. sum_worn w (no_attribute\<lparr>attack := x + att, defense := y + def\<rparr>) =
      Ret (no_attribute\<lparr>attack := att', defense := def'\<rparr>) \<and>
    x + att + (\<Sum>x\<leftarrow>w. 100 + level (snd x) * 10) \<le> att' \<and> y + def + (\<Sum>x\<leftarrow>w. 50 + level (snd x) * 5) \<le> def'"
    by (rule Cons.IH) (use Cons.prems b l in auto)
  with s add b show ?case by (auto simp: case_prod_beta)
qed

text \<open>
  Attributes are defined within the bounds of the game. When everything a role wears has a level of at most 1000,
  a strengthening and stars of at most 100, a quality of at most 20, and it wears at most 100 pieces,
  the attributes are computed without a fault: nothing overflows and every conversion back to an integer
  fits; attack and defence are at least the sum of the base values.
\<close>

theorem attributes_defined:
  assumes "map_of (worn_equips s) r = Some w" and "list_all (in_game \<circ> snd) w" and "length w \<le> 100"
  shows "\<exists>a. CalculateEquipAttribute r (idle s) = Ret (a, idle s) \<and>
    (\<Sum>x\<leftarrow>w. 100 + level (snd x) * 10) \<le> attack a \<and> (\<Sum>x\<leftarrow>w. 50 + level (snd x) * 5) \<le> defense a"
proof -
  have "int (length w) * 6999300 < 2 ^ 31" using assms(3) by simp
  moreover have "no_attribute = no_attribute\<lparr>attack := 0, defense := 0\<rparr>" by (simp add: no_attribute_def)
  ultimately show ?thesis
    using sum_in_game [OF assms(2), of 0 0] assms(1) by (auto simp: CalculateEquipAttribute_def)
qed

theorem attributes_defined_witness:
  "\<exists>a. CalculateEquipAttribute 7 (idle (armed\<lparr>worn_equips := [(7, [(1, sword)])]\<rparr>)) =
      Ret (a, idle (armed\<lparr>worn_equips := [(7, [(1, sword)])]\<rparr>)) \<and> 130 \<le> attack a \<and> 65 \<le> defense a"
  using attributes_defined [of "armed\<lparr>worn_equips := [(7, [(1, sword)])]\<rparr>" 7 "[(1, sword)]"]
  by (simp add: armed_def sword_def in_game_def)

end
