(* ===== verification/Scene.thy ===== *)
theory Scene
  imports Machine Float32
begin

text \<open>
  \<open>game_server/logic_server/scene_module.cc\<close>: the scenes, the objects in them, the players that enter and leave,
  and what a player sees.
\<close>

section \<open>Data\<close>

datatype SceneObjectType = NONE | PLAYER | MONSTER | NPC | ITEM | BULLET | SKILL

record SceneObject =
  object_id :: u64
  object_type :: SceneObjectType
  owner_id :: u64
  position_x :: f32bits
  position_y :: f32bits
  position_z :: f32bits
  rotation_y :: f32bits
  speed :: f32bits
  hp :: i32
  max_hp :: i32
  is_alive :: bool
  object_create_time :: time_t

record SceneInfo =
  scene_id :: i32
  scene_config_id :: i32
  scene_name :: string
  max_player_count :: i32
  scene_type :: i32
  create_time :: time_t
  is_active :: bool

text \<open>
  The maps of the module hold objects of the type \<^verbatim>\<open>SceneObject\<close> by value: a \<^verbatim>\<open>PlayerSceneObject\<close> put into them
  is cut to its base part, so no stored object is ever a \<^verbatim>\<open>PlayerSceneObject\<close> or a \<^verbatim>\<open>MonsterSceneObject\<close>, and
  every \<^verbatim>\<open>static_cast\<close> of a stored object to one of them is undefined.
\<close>

record SceneModule =
  scene_cache :: "(i32 \<times> SceneInfo) list"
  scene_objects :: "(i32 \<times> (u64 \<times> SceneObject) list) list"
  player_scene_map :: "(u64 \<times> i32) list"
  next_scene_id :: i32
  next_object_id :: "u64 option"

definition scene_init :: SceneModule where
  "scene_init = \<lparr>scene_cache = [], scene_objects = [], player_scene_map = [], next_scene_id = 1000,
     next_object_id = None\<rparr>"

definition VIEW_RADIUS :: f32 where
  "VIEW_RADIUS = Fin 50"

section \<open>Scenes\<close>

definition GenerateSceneId :: "SceneModule \<Rightarrow> (i32 \<times> SceneModule) outcome" where
  "GenerateSceneId s =
     bindO (add32 (next_scene_id s) 1) (\<lambda>n. Ret (next_scene_id s, s\<lparr>next_scene_id := n\<rparr>))"

definition GenerateObjectId :: "time_t \<Rightarrow> int \<Rightarrow> SceneModule \<Rightarrow> u64 \<times> SceneModule" where
  "GenerateObjectId now rnd s =
     (let (i, c) = next_static_id now rnd (next_object_id s) in (i, s\<lparr>next_object_id := c\<rparr>))"

definition new_scene :: "time_t \<Rightarrow> i32 \<Rightarrow> i32 \<Rightarrow> SceneInfo" where
  "new_scene now x config = \<lparr>scene_id = x, scene_config_id = config, scene_name = ''Scene_'' @ to_dec x,
     max_player_count = 100, scene_type = 1, create_time = now, is_active = True\<rparr>"

definition CreateScene :: "time_t \<Rightarrow> i32 \<Rightarrow> (SceneModule, i32) oper" where
  "CreateScene now config = guarded (\<lambda>s0. bindO (GenerateSceneId s0) (\<lambda>(x, s).
     Ret (x, s\<lparr>scene_cache := AList.update x (new_scene now x config) (scene_cache s),
               scene_objects := AList.update x [] (scene_objects s)\<rparr>)))"

definition DestroyScene :: "i32 \<Rightarrow> (SceneModule, bool) oper" where
  "DestroyScene x = guarded (\<lambda>s.
     if map_of (scene_cache s) x = None then Ret (False, s)
     else Ret (True, s\<lparr>scene_objects := AList.delete x (scene_objects s),
                       scene_cache := AList.delete x (scene_cache s)\<rparr>))"

definition GetSceneInfo :: "i32 \<Rightarrow> (SceneModule, SceneInfo option) oper" where
  "GetSceneInfo x = guarded (\<lambda>s. Ret (map_of (scene_cache s) x, s))"

definition IsSceneActive :: "i32 \<Rightarrow> (SceneModule, bool) oper" where
  "IsSceneActive x = guarded (\<lambda>s.
     Ret (case map_of (scene_cache s) x of None \<Rightarrow> False | Some i \<Rightarrow> is_active i, s))"

section \<open>Players\<close>

definition players :: "(u64 \<times> SceneObject) list \<Rightarrow> (u64 \<times> SceneObject) list" where
  "players os = filter (\<lambda>(k, ob). object_type ob = PLAYER) os"

text \<open>The object of a player that enters: \<^verbatim>\<open>0.0f\<close> is the zero pattern, \<^verbatim>\<open>5.0f\<close> is \<open>0x40A00000\<close>.\<close>

definition new_player :: "time_t \<Rightarrow> u64 \<Rightarrow> SceneObject" where
  "new_player now role = \<lparr>object_id = role, object_type = PLAYER, owner_id = role, position_x = 0,
     position_y = 0, position_z = 0, rotation_y = 0, speed = 0x40A00000, hp = 1000, max_hp = 1000,
     is_alive = True, object_create_time = now\<rparr>"

text \<open>The scene a player comes from, when it is another one and still there, loses the player's object.\<close>

definition leave_old :: "u64 \<Rightarrow> i32 \<Rightarrow> SceneModule \<Rightarrow> (i32 \<times> (u64 \<times> SceneObject) list) list" where
  "leave_old role x s =
     (case map_of (player_scene_map s) role of
        None \<Rightarrow> scene_objects s
      | Some old \<Rightarrow>
          if old = x \<or> map_of (scene_objects s) old = None then scene_objects s
          else AList.update old (AList.delete role (entry (scene_objects s) old)) (scene_objects s))"

definition PlayerEnterScene :: "time_t \<Rightarrow> u64 \<Rightarrow> i32 \<Rightarrow> (SceneModule, bool) oper" where
  "PlayerEnterScene now role x = guarded (\<lambda>s0.
     case map_of (scene_cache s0) x of
       None \<Rightarrow> Ret (False, s0)
     | Some info \<Rightarrow>
         let s = (if map_of (scene_objects s0) x = None
                  then s0\<lparr>scene_objects := AList.update x [] (scene_objects s0)\<rparr> else s0) in
         if max_player_count info \<le> int (length (players (entry (scene_objects s) x))) then Ret (False, s)
         else
           let obs = leave_old role x s in
           Ret (True, s\<lparr>scene_objects := AList.update x (AList.update role (new_player now role) (entry obs x)) obs,
                        player_scene_map := AList.update role x (player_scene_map s)\<rparr>))"

definition PlayerLeaveScene :: "u64 \<Rightarrow> (SceneModule, bool) oper" where
  "PlayerLeaveScene role = guarded (\<lambda>s.
     case map_of (player_scene_map s) role of
       None \<Rightarrow> Ret (False, s)
     | Some x \<Rightarrow> Ret (True, s\<lparr>
         scene_objects := (if map_of (scene_objects s) x = None then scene_objects s
           else AList.update x (AList.delete role (entry (scene_objects s) x)) (scene_objects s)),
         player_scene_map := AList.delete role (player_scene_map s)\<rparr>))"

definition GetPlayerScene :: "u64 \<Rightarrow> (SceneModule, i32 option) oper" where
  "GetPlayerScene role = guarded (\<lambda>s. Ret (map_of (player_scene_map s) role, s))"

section \<open>Objects\<close>

definition put_object :: "i32 \<Rightarrow> SceneObject \<Rightarrow> SceneModule \<Rightarrow> bool \<times> SceneModule" where
  "put_object x ob s =
     (case map_of (scene_objects s) x of
        None \<Rightarrow> (False, s)
      | Some os \<Rightarrow> (True, s\<lparr>scene_objects := AList.update x (AList.update (object_id ob) ob os) (scene_objects s)\<rparr>))"

definition AddObject :: "i32 \<Rightarrow> SceneObject \<Rightarrow> (SceneModule, bool) oper" where
  "AddObject x ob = guarded (\<lambda>s. Ret (put_object x ob s))"

definition UpdateObject :: "i32 \<Rightarrow> SceneObject \<Rightarrow> (SceneModule, bool) oper" where
  "UpdateObject x ob = guarded (\<lambda>s. Ret (put_object x ob s))"

definition RemoveObject :: "i32 \<Rightarrow> u64 \<Rightarrow> (SceneModule, bool) oper" where
  "RemoveObject x k = guarded (\<lambda>s.
     case map_of (scene_objects s) x of
       None \<Rightarrow> Ret (False, s)
     | Some os \<Rightarrow> Ret (True, s\<lparr>scene_objects := AList.update x (AList.delete k os) (scene_objects s)\<rparr>))"

definition GetObject :: "i32 \<Rightarrow> u64 \<Rightarrow> (SceneModule, SceneObject option) oper" where
  "GetObject x k = guarded (\<lambda>s. Ret (map_of (entry (scene_objects s) x) k, s))"

definition GetSceneObjects :: "i32 \<Rightarrow> (SceneModule, SceneObject list option) oper" where
  "GetSceneObjects x = guarded (\<lambda>s. Ret (map_option (map snd) (map_of (scene_objects s) x), s))"

text \<open>The lists of players and monsters cast the stored objects: with one of the type they are undefined.\<close>

definition cast_all :: "SceneObjectType \<Rightarrow> i32 \<Rightarrow> SceneModule \<Rightarrow> (unit list option \<times> SceneModule) outcome" where
  "cast_all t x s =
     (case map_of (scene_objects s) x of
        None \<Rightarrow> Ret (None, s)
      | Some os \<Rightarrow> if \<exists>(k, ob)\<in>set os. object_type ob = t then Fault BadDowncast else Ret (Some [], s))"

definition GetScenePlayers :: "i32 \<Rightarrow> (SceneModule, unit list option) oper" where
  "GetScenePlayers x = guarded (cast_all PLAYER x)"

definition GetSceneMonsters :: "i32 \<Rightarrow> (SceneModule, unit list option) oper" where
  "GetSceneMonsters x = guarded (cast_all MONSTER x)"

section \<open>Movement and sight\<close>

text \<open>The object of a player in the scene it is filed under.\<close>

definition player_object :: "u64 \<Rightarrow> SceneModule \<Rightarrow> (i32 \<times> SceneObject) option" where
  "player_object role s =
     (case map_of (player_scene_map s) role of
        None \<Rightarrow> None
      | Some x \<Rightarrow> map_option (Pair x) (map_of (entry (scene_objects s) x) role))"

definition PlayerMove :: "u64 \<Rightarrow> f32bits \<Rightarrow> f32bits \<Rightarrow> (SceneModule, bool) oper" where
  "PlayerMove role tx tz = guarded (\<lambda>s. if player_object role s = None then Ret (False, s) else Fault BadDowncast)"

definition PlayerStopMove :: "u64 \<Rightarrow> (SceneModule, bool) oper" where
  "PlayerStopMove role = guarded (\<lambda>s. if player_object role s = None then Ret (False, s) else Fault BadDowncast)"

definition UpdatePlayerPosition :: "u64 \<Rightarrow> f32bits \<Rightarrow> f32bits \<Rightarrow> f32bits \<Rightarrow> f32bits \<Rightarrow> (SceneModule, bool) oper" where
  "UpdatePlayerPosition role px py pz rot = guarded (\<lambda>s.
     case player_object role s of
       None \<Rightarrow> Ret (False, s)
     | Some (x, ob) \<Rightarrow> Ret (True, s\<lparr>scene_objects := AList.update x (AList.update role
         (ob\<lparr>position_x := px, position_y := py, position_z := pz, rotation_y := rot\<rparr>)
         (entry (scene_objects s) x)) (scene_objects s)\<rparr>))"

definition GetPlayerPosition :: "u64 \<Rightarrow> (SceneModule, (f32bits \<times> f32bits \<times> f32bits \<times> f32bits) option) oper" where
  "GetPlayerPosition role = guarded (\<lambda>s.
     Ret (map_option (\<lambda>(x, ob). (position_x ob, position_y ob, position_z ob, rotation_y ob)) (player_object role s), s))"

definition distance :: "SceneObject \<Rightarrow> SceneObject \<Rightarrow> f32" where
  "distance a b =
     (let dx = f32_sub (of_bits (position_x b)) (of_bits (position_x a));
          dz = f32_sub (of_bits (position_z b)) (of_bits (position_z a)) in
      f32_sqrt (f32_add (f32_mul dx dx) (f32_mul dz dz)))"

definition GetVisibleObjects :: "u64 \<Rightarrow> (SceneModule, SceneObject list option) oper" where
  "GetVisibleObjects role = guarded (\<lambda>s.
     Ret (case player_object role s of
            None \<Rightarrow> None
          | Some (x, ob) \<Rightarrow> Some (map snd (filter (\<lambda>(k, o'). k \<noteq> role \<and> f32_le (distance ob o') VIEW_RADIUS)
              (entry (scene_objects s) x))), s))"

definition UpdateVisibility :: "i32 \<Rightarrow> (SceneModule, bool) oper" where
  "UpdateVisibility x = retM True"

section \<open>Updates\<close>

text \<open>\<^verbatim>\<open>OnUpdate\<close> casts every player of every scene before anything else.\<close>

definition OnUpdate :: "(SceneModule, unit) oper" where
  "OnUpdate = guarded (\<lambda>s.
     if \<exists>(x, os)\<in>set (scene_objects s). \<exists>(k, ob)\<in>set os. object_type ob = PLAYER then Fault BadDowncast
     else Ret ((), s))"

definition deserted :: "time_t \<Rightarrow> SceneModule \<Rightarrow> i32 \<times> SceneInfo \<Rightarrow> bool" where
  "deserted now s = (\<lambda>(x, i). map_of (scene_objects s) x = Some [] \<and> 300 < now - create_time i)"

definition OnTimer :: "time_t \<Rightarrow> (SceneModule, unit) oper" where
  "OnTimer now = guarded (\<lambda>s.
     let dead = map fst (filter (deserted now s) (scene_cache s)) in
     Ret ((), s\<lparr>scene_objects := fold AList.delete dead (scene_objects s),
                scene_cache := fold AList.delete dead (scene_cache s)\<rparr>))"

definition LoadSceneData :: "i32 \<Rightarrow> (SceneModule, bool) oper" where
  "LoadSceneData x = retM True"

definition SaveSceneData :: "i32 \<Rightarrow> (SceneModule, bool) oper" where
  "SaveSceneData x = retM True"

section \<open>What holds of the maps\<close>

definition objects_ok :: "(u64 \<times> SceneObject) list \<Rightarrow> bool" where
  "objects_ok os \<longleftrightarrow> keys_ok os \<and> all_entries (\<lambda>k ob. object_id ob = k) os"

definition scene_inv :: "SceneModule \<Rightarrow> bool" where
  "scene_inv s \<longleftrightarrow> keys_ok (scene_cache s) \<and> keys_ok (scene_objects s) \<and> keys_ok (player_scene_map s) \<and>
     (\<forall>x. map_of (scene_cache s) x = None \<longleftrightarrow> map_of (scene_objects s) x = None) \<and>
     all_entries (\<lambda>x i. scene_id i = x \<and> max_player_count i = 100 \<and> x < next_scene_id s) (scene_cache s) \<and>
     all_vals objects_ok (scene_objects s)"

text \<open>
  Where the players are: a player object lies in the scene its player is filed under, and a scene has
  at most 100 of them.
\<close>

definition people_ok :: "SceneModule \<Rightarrow> bool" where
  "people_ok s \<longleftrightarrow>
     (\<forall>x k ob. map_of (entry (scene_objects s) x) k = Some ob \<longrightarrow> object_type ob = PLAYER \<longrightarrow>
        map_of (player_scene_map s) k = Some x) \<and>
     (\<forall>x. length (players (entry (scene_objects s) x)) \<le> 100)"

definition scene_step :: "SceneModule \<Rightarrow> SceneModule \<Rightarrow> bool" where
  "scene_step s s' \<longleftrightarrow> (scene_inv s \<longrightarrow> scene_inv s')"

definition civil_step :: "SceneModule \<Rightarrow> SceneModule \<Rightarrow> bool" where
  "civil_step s s' \<longleftrightarrow> (scene_inv s \<longrightarrow> scene_inv s' \<and> (people_ok s \<longrightarrow> people_ok s'))"

lemma civil_is_step: "civil_step s s' \<Longrightarrow> scene_step s s'"
  by (simp add: civil_step_def scene_step_def)

lemma civil_step_refl [simp]: "civil_step s s"
  by (simp add: civil_step_def)

lemma civil_step_trans: "civil_step s t \<Longrightarrow> civil_step t u \<Longrightarrow> civil_step s u"
  by (auto simp: civil_step_def)

lemma scene_inv_init: "scene_inv scene_init" "people_ok scene_init"
  by (simp_all add: scene_inv_def people_ok_def scene_init_def entry_def players_def)

lemma objects_ok_Nil [simp]: "objects_ok []"
  by (simp add: objects_ok_def)

lemma objects_ok_update: "objects_ok os \<Longrightarrow> object_id ob = k \<Longrightarrow> objects_ok (AList.update k ob os)"
  by (simp add: objects_ok_def all_entries_update)

lemma objects_ok_delete [simp]: "objects_ok os \<Longrightarrow> objects_ok (AList.delete k os)"
  by (simp add: objects_ok_def all_entries_delete)

lemma entry_objects_ok: "scene_inv s \<Longrightarrow> objects_ok (entry (scene_objects s) x)"
  by (auto simp: scene_inv_def entry_def dest: all_valsD split: option.split)

lemma scene_inv_cache:
  assumes "scene_inv s"
  shows "map_of (scene_cache s) x = None \<longleftrightarrow> map_of (scene_objects s) x = None"
    and "map_of (scene_cache s) x = Some i \<Longrightarrow> scene_id i = x \<and> max_player_count i = 100 \<and> x < next_scene_id s"
  using assms by (auto simp: scene_inv_def dest: all_entriesD)

text \<open>A change of the objects of one existing scene.\<close>

lemma scene_inv_put:
  assumes "scene_inv s" and "map_of (scene_objects s) x \<noteq> None" and "objects_ok os"
  shows "scene_inv (s\<lparr>scene_objects := AList.update x os (scene_objects s)\<rparr>)"
  using assms by (auto simp: scene_inv_def all_vals_update)

lemma scene_inv_players:
  "scene_inv s \<Longrightarrow> keys_ok ps \<Longrightarrow> scene_inv (s\<lparr>player_scene_map := ps\<rparr>)"
  unfolding scene_inv_def by simp

lemma scene_inv_map: "scene_inv s \<Longrightarrow> keys_ok (player_scene_map s)"
  unfolding scene_inv_def by blast

lemma players_delete: "length (players (AList.delete k os)) \<le> length (players os)"
  by (induction os) (auto simp: players_def)

lemma players_update_other: "object_type ob \<noteq> PLAYER \<Longrightarrow> length (players (AList.update k ob os)) \<le> length (players os)"
  by (induction os) (auto simp: players_def)

lemma players_update: "length (players (AList.update k ob os)) \<le> Suc (length (players os))"
  by (induction os) (auto simp: players_def)

lemma players_update_same:
  "map_of os k = Some ob \<Longrightarrow> object_type ob' = object_type ob \<Longrightarrow>
   length (players (AList.update k ob' os)) = length (players os)"
  by (induction os) (auto simp: players_def split: if_splits)

lemma people_okI:
  assumes "\<And>x k ob. map_of (entry (scene_objects s) x) k = Some ob \<Longrightarrow> object_type ob = PLAYER \<Longrightarrow>
      map_of (player_scene_map s) k = Some x"
    and "\<And>x. length (players (entry (scene_objects s) x)) \<le> 100"
  shows "people_ok s"
  using assms by (simp add: people_ok_def)

lemma people_okD:
  assumes "people_ok s"
  shows "map_of (entry (scene_objects s) x) k = Some ob \<Longrightarrow> object_type ob = PLAYER \<Longrightarrow> map_of (player_scene_map s) k = Some x"
    and "length (players (entry (scene_objects s) x)) \<le> 100"
  using assms by (auto simp: people_ok_def)

section \<open>Every operation keeps it\<close>

lemma scene_query_steps:
  "steps_by civil_step (GetSceneInfo x)" "steps_by civil_step (IsSceneActive x)"
  "steps_by civil_step (GetPlayerScene r)" "steps_by civil_step (GetObject x k)"
  "steps_by civil_step (GetSceneObjects x)" "steps_by civil_step (GetPlayerPosition r)"
  "steps_by civil_step (GetVisibleObjects r)" "steps_by civil_step (GetScenePlayers x)"
  "steps_by civil_step (GetSceneMonsters x)" "steps_by civil_step (PlayerMove r tx tz)"
  "steps_by civil_step (PlayerStopMove r)" "steps_by civil_step OnUpdate"
  "steps_by civil_step (UpdateVisibility x)" "steps_by civil_step (LoadSceneData x)"
  "steps_by civil_step (SaveSceneData x)"
  by (auto simp: GetSceneInfo_def IsSceneActive_def GetPlayerScene_def GetObject_def GetSceneObjects_def
      GetPlayerPosition_def GetVisibleObjects_def GetScenePlayers_def GetSceneMonsters_def cast_all_def
      PlayerMove_def PlayerStopMove_def OnUpdate_def UpdateVisibility_def LoadSceneData_def SaveSceneData_def
      intro!: steps_by_guarded steps_by_retM split: option.splits if_splits)

lemma CreateScene_steps: "steps_by civil_step (CreateScene now c)"
proof (unfold CreateScene_def, rule steps_by_guarded)
  fix s s' :: SceneModule and r
  assume "bindO (GenerateSceneId s) (\<lambda>(x, s). Ret (x, s\<lparr>scene_cache := AList.update x (new_scene now x c) (scene_cache s),
      scene_objects := AList.update x [] (scene_objects s)\<rparr>)) = Ret (r, s')"
  then have s': "s' = s\<lparr>next_scene_id := next_scene_id s + 1,
      scene_cache := AList.update (next_scene_id s) (new_scene now (next_scene_id s) c) (scene_cache s),
      scene_objects := AList.update (next_scene_id s) [] (scene_objects s)\<rparr>"
    by (auto simp: GenerateSceneId_def)
  have "scene_inv s'" if "scene_inv s"
    using that by (auto simp: s' scene_inv_def new_scene_def all_entries_def all_vals_def intro: less_imp_le)
  moreover have "people_ok s'" if "people_ok s"
    using people_okD [OF that] by (intro people_okI) (auto simp: s' players_def split: if_splits)
  ultimately show "civil_step s s'" by (simp add: civil_step_def)
qed

lemma DestroyScene_steps: "steps_by civil_step (DestroyScene x)"
proof (unfold DestroyScene_def, rule steps_by_guarded)
  fix s s' :: SceneModule and r
  assume "(if map_of (scene_cache s) x = None then Ret (False, s)
      else Ret (True, s\<lparr>scene_objects := AList.delete x (scene_objects s), scene_cache := AList.delete x (scene_cache s)\<rparr>))
      = Ret (r, s')"
  then consider "s' = s" | "s' = s\<lparr>scene_objects := AList.delete x (scene_objects s), scene_cache := AList.delete x (scene_cache s)\<rparr>"
    by (auto split: if_splits)
  then show "civil_step s s'"
  proof cases
    case 2
    have "scene_inv s'" if "scene_inv s"
      using that by (auto simp: 2 scene_inv_def all_entries_def all_vals_def)
    moreover have "people_ok s'" if "people_ok s"
      using people_okD [OF that] by (intro people_okI) (auto simp: 2 players_def split: if_splits)
    ultimately show ?thesis by (simp add: civil_step_def)
  qed simp
qed

lemma PlayerEnterScene_steps: "steps_by civil_step (PlayerEnterScene now role x)"
proof (unfold PlayerEnterScene_def, rule steps_by_guarded)
  fix s0 s' :: SceneModule and r
  assume run: "(case map_of (scene_cache s0) x of None \<Rightarrow> Ret (False, s0)
     | Some info \<Rightarrow>
         let s = (if map_of (scene_objects s0) x = None
                  then s0\<lparr>scene_objects := AList.update x [] (scene_objects s0)\<rparr> else s0) in
         if max_player_count info \<le> int (length (players (entry (scene_objects s) x))) then Ret (False, s)
         else
           let obs = leave_old role x s in
           Ret (True, s\<lparr>scene_objects := AList.update x (AList.update role (new_player now role) (entry obs x)) obs,
                        player_scene_map := AList.update role x (player_scene_map s)\<rparr>)) = Ret (r, s')"
  show "civil_step s0 s'"
    unfolding civil_step_def
  proof (intro impI)
    assume inv: "scene_inv s0"
    let ?obs = "leave_old role x s0"
    let ?os = "AList.update role (new_player now role) (entry ?obs x)"
    let ?s = "s0\<lparr>scene_objects := AList.update x ?os ?obs, player_scene_map := AList.update role x (player_scene_map s0)\<rparr>"
    consider "s' = s0"
      | info where "map_of (scene_cache s0) x = Some info" "map_of (scene_objects s0) x \<noteq> None"
        "length (players (entry (scene_objects s0) x)) < 100" "s' = ?s"
    proof (cases "map_of (scene_cache s0) x")
      case None
      with run that(1) show ?thesis by simp
    next
      case (Some info)
      then have "map_of (scene_objects s0) x \<noteq> None" "max_player_count info = 100"
        using inv scene_inv_cache [OF inv] by (metis option.distinct(1), blast)
      with run Some that show ?thesis by (simp add: Let_def split: if_splits)
    qed
    then show "scene_inv s' \<and> (people_ok s0 \<longrightarrow> people_ok s')"
    proof cases
      case 2
      have ex: "entry ?obs x = entry (scene_objects s0) x"
        by (auto simp: leave_old_def split: option.split)
      have e: "entry ?obs y = (if map_of (player_scene_map s0) role = Some y \<and> y \<noteq> x
          then AList.delete role (entry (scene_objects s0) y) else entry (scene_objects s0) y)" for y
      proof (cases "map_of (player_scene_map s0) role")
        case (Some old)
        then show ?thesis by (cases "old = x"; cases "map_of (scene_objects s0) old") (auto simp: leave_old_def)
      qed (simp add: leave_old_def)
      have i: "scene_inv (s0\<lparr>scene_objects := ?obs\<rparr>)"
        using scene_inv_put [OF inv] inv entry_objects_ok [OF inv]
        by (auto simp: leave_old_def split: option.split)
      have os: "objects_ok ?os"
        using entry_objects_ok [OF inv] by (simp add: ex new_player_def objects_ok_update)
      have "map_of ?obs x \<noteq> None" using 2(2) by (auto simp: leave_old_def split: option.split)
      with scene_inv_put [OF i _ os, of x] have "scene_inv (s0\<lparr>scene_objects := AList.update x ?os ?obs\<rparr>)" by simp
      from scene_inv_players [OF this] scene_inv_map [OF inv] have "scene_inv ?s" by simp
      moreover have "people_ok ?s" if p: "people_ok s0"
      proof (intro people_okI)
        fix y k ob
        assume "map_of (entry (scene_objects ?s) y) k = Some ob" "object_type ob = PLAYER"
        then show "map_of (player_scene_map ?s) k = Some y"
          using people_okD(1) [OF p] by (auto simp: e split: if_splits)
      next
        fix y
        show "length (players (entry (scene_objects ?s) y)) \<le> 100"
          using people_okD(2) [OF p, of y] 2(3) players_update [of role "new_player now role" "entry (scene_objects s0) x"]
            players_delete [of role "entry (scene_objects s0) y"] by (auto simp: e)
      qed
      ultimately show ?thesis using 2(4) by simp
    qed (use inv in simp)
  qed
qed

lemma drop_player:
  assumes "scene_inv s" and "map_of (scene_objects s) x = Some os"
  shows "scene_inv (s\<lparr>scene_objects := AList.update x (AList.delete k os) (scene_objects s)\<rparr>)"
    and "people_ok s \<Longrightarrow> people_ok (s\<lparr>scene_objects := AList.update x (AList.delete k os) (scene_objects s)\<rparr>)"
proof -
  have "objects_ok os" using entry_objects_ok [OF assms(1), of x] assms(2) by simp
  then show "scene_inv (s\<lparr>scene_objects := AList.update x (AList.delete k os) (scene_objects s)\<rparr>)"
    using scene_inv_put [OF assms(1), of x] assms(2) by simp
  show "people_ok (s\<lparr>scene_objects := AList.update x (AList.delete k os) (scene_objects s)\<rparr>)" if p: "people_ok s"
    using people_okD(1) [OF p] people_okD(2) [OF p, of x] people_okD(2) [OF p] players_delete [of k os] assms(2)
    by (intro people_okI) (force split: if_splits)+
qed

lemma RemoveObject_steps: "steps_by civil_step (RemoveObject x k)"
  unfolding RemoveObject_def
  by (rule steps_by_guarded) (auto simp: civil_step_def drop_player split: option.splits)

lemma PlayerLeaveScene_steps: "steps_by civil_step (PlayerLeaveScene role)"
proof (unfold PlayerLeaveScene_def, rule steps_by_guarded)
  fix s s' :: SceneModule and r
  assume run: "(case map_of (player_scene_map s) role of None \<Rightarrow> Ret (False, s)
     | Some x \<Rightarrow> Ret (True, s\<lparr>
         scene_objects := (if map_of (scene_objects s) x = None then scene_objects s
           else AList.update x (AList.delete role (entry (scene_objects s) x)) (scene_objects s)),
         player_scene_map := AList.delete role (player_scene_map s)\<rparr>)) = Ret (r, s')"
  show "civil_step s s'"
    unfolding civil_step_def
  proof (intro impI)
    assume inv: "scene_inv s"
    show "scene_inv s' \<and> (people_ok s \<longrightarrow> people_ok s')"
    proof (cases "map_of (player_scene_map s) role")
      case None
      with run inv show ?thesis by simp
    next
      case (Some x)
      let ?obs = "if map_of (scene_objects s) x = None then scene_objects s
           else AList.update x (AList.delete role (entry (scene_objects s) x)) (scene_objects s)"
      have s': "s' = s\<lparr>scene_objects := ?obs, player_scene_map := AList.delete role (player_scene_map s)\<rparr>"
        using run Some by simp
      have i: "scene_inv (s\<lparr>scene_objects := ?obs\<rparr>)" and q: "people_ok s \<Longrightarrow> people_ok (s\<lparr>scene_objects := ?obs\<rparr>)"
        using inv drop_player [OF inv, of x] by auto
      from scene_inv_players [OF i, of "AList.delete role (player_scene_map s)"] scene_inv_map [OF inv]
      have "scene_inv s'" by (simp add: s')
      moreover have "people_ok s'" if p: "people_ok s"
      proof (intro people_okI)
        fix y k ob
        assume ob: "map_of (entry (scene_objects s') y) k = Some ob" "object_type ob = PLAYER"
        with people_okD(1) [OF q [OF p], of y k ob] have m: "map_of (player_scene_map s) k = Some y" by (simp add: s')
        have "k \<noteq> role"
        proof
          assume "k = role"
          with m Some have "y = x" by simp
          with ob(1) \<open>k = role\<close> show False by (simp add: s' split: if_splits)
        qed
        with m show "map_of (player_scene_map s') k = Some y" by (simp add: s')
      next
        fix y
        show "length (players (entry (scene_objects s') y)) \<le> 100"
          using people_okD(2) [OF q [OF p], of y] by (simp add: s')
      qed
      ultimately show ?thesis by blast
    qed
  qed
qed

text \<open>Objects that are not players may be added anywhere; a player object added by hand may be anywhere.\<close>

lemma put_object_inv: "put_object x ob s = (r, s') \<Longrightarrow> scene_inv s \<Longrightarrow> scene_inv s'"
  using scene_inv_put [of s x] entry_objects_ok [of s x]
  by (auto simp: put_object_def objects_ok_update split: option.splits)

lemma put_object_people:
  assumes "put_object x ob s = (r, s')" and "object_type ob \<noteq> PLAYER" and p: "people_ok s"
  shows "people_ok s'"
proof (intro people_okI)
  fix y k o'
  show "map_of (entry (scene_objects s') y) k = Some o' \<Longrightarrow> object_type o' = PLAYER \<Longrightarrow>
      map_of (player_scene_map s') k = Some y"
    using assms(1,2) people_okD(1) [OF p, of y k o'] by (auto simp: put_object_def split: option.splits if_splits)
  show "length (players (entry (scene_objects s') y)) \<le> 100"
    using assms(1,2) people_okD(2) [OF p, of y] players_update_other [of ob "object_id ob" "entry (scene_objects s) x"]
    by (auto simp: put_object_def split: option.splits)
qed

lemma AddObject_steps: "steps_by scene_step (AddObject x ob)" "steps_by scene_step (UpdateObject x ob)"
  unfolding AddObject_def UpdateObject_def
  by (rule steps_by_guarded; auto simp: scene_step_def intro: put_object_inv)+

lemma AddObject_civil:
  "object_type ob \<noteq> PLAYER \<Longrightarrow> steps_by civil_step (AddObject x ob)"
  "object_type ob \<noteq> PLAYER \<Longrightarrow> steps_by civil_step (UpdateObject x ob)"
  unfolding AddObject_def UpdateObject_def
  by (rule steps_by_guarded; auto simp: civil_step_def intro: put_object_inv put_object_people)+

lemma UpdatePlayerPosition_steps: "steps_by civil_step (UpdatePlayerPosition role px py pz rot)"
proof (unfold UpdatePlayerPosition_def, rule steps_by_guarded)
  fix s s' :: SceneModule and r
  assume run: "(case player_object role s of None \<Rightarrow> Ret (False, s)
     | Some (x, ob) \<Rightarrow> Ret (True, s\<lparr>scene_objects := AList.update x (AList.update role
         (ob\<lparr>position_x := px, position_y := py, position_z := pz, rotation_y := rot\<rparr>)
         (entry (scene_objects s) x)) (scene_objects s)\<rparr>)) = Ret (r, s')"
  show "civil_step s s'"
  proof (cases "player_object role s")
    case None
    with run show ?thesis by simp
  next
    case (Some xo)
    obtain x ob where xo: "xo = (x, ob)" by fastforce
    let ?ob = "ob\<lparr>position_x := px, position_y := py, position_z := pz, rotation_y := rot\<rparr>"
    from Some xo have o: "map_of (player_scene_map s) role = Some x" "map_of (entry (scene_objects s) x) role = Some ob"
      by (auto simp: player_object_def split: option.splits)
    then have x: "map_of (scene_objects s) x \<noteq> None" by (auto simp: entry_def split: option.splits)
    have s': "s' = s\<lparr>scene_objects := AList.update x (AList.update role ?ob (entry (scene_objects s) x)) (scene_objects s)\<rparr>"
      using run Some xo by simp
    have "scene_inv s'" if i: "scene_inv s"
    proof -
      have "object_id ob = role" using entry_objects_ok [OF i, of x] o by (auto simp: objects_ok_def all_entries_def)
      then show ?thesis unfolding s' using entry_objects_ok [OF i, of x]
        by (intro scene_inv_put i x objects_ok_update) auto
    qed
    moreover have "people_ok s'" if p: "people_ok s"
      using people_okD(1) [OF p] people_okD(2) [OF p, of x] people_okD(2) [OF p] o
        players_update_same [OF o(2), of ?ob]
      by (intro people_okI) (auto simp: s' split: if_splits)
    ultimately show ?thesis by (simp add: civil_step_def)
  qed
qed

lemma OnTimer_scene_step: "steps_by civil_step (OnTimer now)"
proof (unfold OnTimer_def Let_def, rule steps_by_guarded)
  fix s s' :: SceneModule and r
  let ?dead = "map fst (filter (deserted now s) (scene_cache s))"
  assume "Ret ((), s\<lparr>scene_objects := fold AList.delete ?dead (scene_objects s),
      scene_cache := fold AList.delete ?dead (scene_cache s)\<rparr>) = Ret (r, s')"
  then have s': "s' = s\<lparr>scene_objects := fold AList.delete ?dead (scene_objects s),
      scene_cache := fold AList.delete ?dead (scene_cache s)\<rparr>" by simp
  have look: "map_of (fold AList.delete ks xs) x = (if x \<in> set ks then None else map_of xs x)"
    and keep: "keys_ok xs \<Longrightarrow> keys_ok (fold AList.delete ks xs)" for ks x and xs :: "(i32 \<times> 'v) list"
    by (induction ks arbitrary: xs) auto
  have "scene_inv s'" if i: "scene_inv s"
  proof -
    have "keys_ok (scene_cache s)" "keys_ok (scene_objects s)" using i by (simp_all add: scene_inv_def)
    with i show ?thesis using scene_inv_map [OF i] scene_inv_cache [OF i]
      by (simp add: s' scene_inv_def look keep all_entries_def all_vals_def)
  qed
  moreover have "people_ok s'" if p: "people_ok s"
    using people_okD [OF p] by (intro people_okI) (auto simp: s' entry_def look players_def split: option.splits if_splits)
  ultimately show "civil_step s s'" by (simp add: civil_step_def)
qed

section \<open>The scene module as a machine\<close>

datatype scene_cmd =
    CCreateScene time_t i32
  | CDestroyScene i32
  | CGetSceneInfo i32
  | CIsSceneActive i32
  | CPlayerEnterScene time_t u64 i32
  | CPlayerLeaveScene u64
  | CGetPlayerScene u64
  | CAddObject i32 SceneObject
  | CRemoveObject i32 u64
  | CGetObject i32 u64
  | CUpdateObject i32 SceneObject
  | CGetSceneObjects i32
  | CGetScenePlayers i32
  | CGetSceneMonsters i32
  | CPlayerMove u64 f32bits f32bits
  | CPlayerStopMove u64
  | CUpdatePlayerPosition u64 f32bits f32bits f32bits f32bits
  | CGetPlayerPosition u64
  | CGetVisibleObjects u64
  | CUpdateVisibility i32
  | COnUpdate
  | COnTimer time_t
  | CLoadSceneData i32
  | CSaveSceneData i32

definition silent :: "('s, 'a) oper \<Rightarrow> ('s, bool) oper" where
  "silent p = bindM p (\<lambda>_. retM True)"

fun scene_exec :: "scene_cmd \<Rightarrow> (SceneModule, bool) oper" where
  "scene_exec (CCreateScene now c) = silent (CreateScene now c)"
| "scene_exec (CDestroyScene x) = DestroyScene x"
| "scene_exec (CGetSceneInfo x) = succeeded (GetSceneInfo x)"
| "scene_exec (CIsSceneActive x) = IsSceneActive x"
| "scene_exec (CPlayerEnterScene now r x) = PlayerEnterScene now r x"
| "scene_exec (CPlayerLeaveScene r) = PlayerLeaveScene r"
| "scene_exec (CGetPlayerScene r) = succeeded (GetPlayerScene r)"
| "scene_exec (CAddObject x ob) = AddObject x ob"
| "scene_exec (CRemoveObject x k) = RemoveObject x k"
| "scene_exec (CGetObject x k) = succeeded (GetObject x k)"
| "scene_exec (CUpdateObject x ob) = UpdateObject x ob"
| "scene_exec (CGetSceneObjects x) = succeeded (GetSceneObjects x)"
| "scene_exec (CGetScenePlayers x) = succeeded (GetScenePlayers x)"
| "scene_exec (CGetSceneMonsters x) = succeeded (GetSceneMonsters x)"
| "scene_exec (CPlayerMove r tx tz) = PlayerMove r tx tz"
| "scene_exec (CPlayerStopMove r) = PlayerStopMove r"
| "scene_exec (CUpdatePlayerPosition r px py pz rot) = UpdatePlayerPosition r px py pz rot"
| "scene_exec (CGetPlayerPosition r) = succeeded (GetPlayerPosition r)"
| "scene_exec (CGetVisibleObjects r) = succeeded (GetVisibleObjects r)"
| "scene_exec (CUpdateVisibility x) = UpdateVisibility x"
| "scene_exec COnUpdate = silent OnUpdate"
| "scene_exec (COnTimer now) = silent (OnTimer now)"
| "scene_exec (CLoadSceneData x) = LoadSceneData x"
| "scene_exec (CSaveSceneData x) = SaveSceneData x"

text \<open>A command that does not add a player object by hand.\<close>

fun civil :: "scene_cmd \<Rightarrow> bool" where
  "civil (CAddObject x ob) = (object_type ob \<noteq> PLAYER)"
| "civil (CUpdateObject x ob) = (object_type ob \<noteq> PLAYER)"
| "civil c = True"

lemma civil_exec_steps: "civil c \<Longrightarrow> steps_by civil_step (scene_exec c)"
  by (cases c) (auto simp: silent_def intro!: steps_by_succeeded steps_by_bindM_ret scene_query_steps CreateScene_steps
      DestroyScene_steps PlayerEnterScene_steps PlayerLeaveScene_steps RemoveObject_steps AddObject_civil
      UpdatePlayerPosition_steps OnTimer_scene_step)

lemma scene_exec_steps: "steps_by scene_step (scene_exec c)"
proof (cases "civil c")
  case True
  from civil_exec_steps [OF this] show ?thesis by (rule steps_by_weaken) (rule civil_is_step)
next
  case False
  then show ?thesis by (cases c) (auto intro: AddObject_steps)
qed

lemma scene_no_relock: "never_relocks (scene_exec c)"
  by (cases c) (auto simp: silent_def CreateScene_def GenerateSceneId_def DestroyScene_def GetSceneInfo_def IsSceneActive_def
      PlayerEnterScene_def PlayerLeaveScene_def GetPlayerScene_def AddObject_def RemoveObject_def GetObject_def
      UpdateObject_def GetSceneObjects_def GetScenePlayers_def GetSceneMonsters_def cast_all_def PlayerMove_def
      PlayerStopMove_def UpdatePlayerPosition_def GetPlayerPosition_def GetVisibleObjects_def UpdateVisibility_def
      OnUpdate_def OnTimer_def LoadSceneData_def SaveSceneData_def Let_def never_relocks_guarded bindO_eq_Fault
      intro!: never_relocks_succeeded never_relocks_bindM_ret never_relocks_retM split: option.splits prod.splits)

interpretation scene: live_machine scene_exec scene_inv
proof unfold_locales
  show "\<exists>s'. m' = idle s'" if "scene_exec c (idle s) = Ret (r, m')" for c s r m'
    using steps_by_run [OF that scene_exec_steps] by blast
  show "scene_inv s'" if "scene_exec c (idle s) = Ret (r, idle s')" "scene_inv s" for c s r s'
    using steps_by_run [OF that(1) scene_exec_steps] that(2) by (auto simp: scene_step_def)
  show "scene_exec c (idle s) \<noteq> Fault Relock" if "scene_inv s" for s c
    using scene_no_relock [of c] by (auto simp: never_relocks_def)
qed

interpretation object_ids: id_source GenerateObjectId next_object_id
  by unfold_locales (auto simp: GenerateObjectId_def next_static_id_def Let_def)

lemma civil_run:
  "run_cmds scene_exec cs (idle s) = Ret (rs, idle s') \<Longrightarrow> list_all civil cs \<Longrightarrow> civil_step s s'"
proof (induction cs arbitrary: s rs)
  case Nil
  then show ?case by simp
next
  case (Cons c cs)
  from Cons.prems(1) obtain r m1 rs' where c: "scene_exec c (idle s) = Ret (r, m1)"
    and cs: "run_cmds scene_exec cs m1 = Ret (rs', idle s')" by (auto split: prod.splits)
  from steps_by_run [OF c civil_exec_steps] Cons.prems(2) obtain s1 where "m1 = idle s1" "civil_step s s1" by auto
  with cs Cons show ?case using civil_step_trans by auto
qed

section \<open>Properties\<close>

text \<open>
  C20. A player is in one scene at most. In every run from the empty module that adds no player objects by
  hand, no mutex is locked twice, and afterwards every player object lies in the scene its player is filed under,
  under the identifier of the player, and no scene has more than 100 of them.
\<close>

theorem players_in_one_scene:
  assumes "list_all civil cs"
  shows "run_cmds scene_exec cs (idle scene_init) \<noteq> Fault Relock \<and>
    (\<forall>rs m'. run_cmds scene_exec cs (idle scene_init) = Ret (rs, m') \<longrightarrow> (\<exists>s'. m' = idle s' \<and>
       (\<forall>x k ob. map_of (entry (scene_objects s') x) k = Some ob \<and> object_type ob = PLAYER \<longrightarrow>
          object_id ob = k \<and> map_of (player_scene_map s') k = Some x) \<and>
       (\<forall>x. length (players (entry (scene_objects s') x)) \<le> 100)))"
proof (intro conjI allI impI)
  show "run_cmds scene_exec cs (idle scene_init) \<noteq> Fault Relock"
    by (rule scene.run_live [OF scene_inv_init(1)])
next
  fix rs m'
  assume run: "run_cmds scene_exec cs (idle scene_init) = Ret (rs, m')"
  then obtain s' where m': "m' = idle s'" using scene.run_inv [OF run scene_inv_init(1)] by blast
  with civil_run [of cs scene_init] run assms have "scene_inv s'" and p: "people_ok s'"
    using scene_inv_init by (auto simp: civil_step_def)
  then have "object_id ob = k" if "map_of (entry (scene_objects s') x) k = Some ob" for x k ob
    using entry_objects_ok [of s' x] that by (auto simp: objects_ok_def all_entries_def)
  with m' people_okD [OF p] show "\<exists>s'. m' = idle s' \<and>
       (\<forall>x k ob. map_of (entry (scene_objects s') x) k = Some ob \<and> object_type ob = PLAYER \<longrightarrow>
          object_id ob = k \<and> map_of (player_scene_map s') k = Some x) \<and>
       (\<forall>x. length (players (entry (scene_objects s') x)) \<le> 100)" by blast
qed

theorem players_in_one_scene_witness:
  "\<exists>rs s'. run_cmds scene_exec [CCreateScene 0 1, CCreateScene 0 1, CPlayerEnterScene 0 7 1000, CPlayerEnterScene 0 7 1001]
      (idle scene_init) = Ret (rs, idle s') \<and> map_of (player_scene_map s') 7 = Some 1001 \<and>
     (\<forall>x. length (players (entry (scene_objects s') x)) \<le> 100)"
proof -
  let ?cs = "[CCreateScene 0 1, CCreateScene 0 1, CPlayerEnterScene 0 7 1000, CPlayerEnterScene 0 7 1001]"
  have "(case run_cmds scene_exec ?cs (idle scene_init) of
      Ret (rs, m) \<Rightarrow> map_of (player_scene_map (inner m)) 7 = Some 1001 | _ \<Rightarrow> False)" by code_simp
  then obtain rs m where r: "run_cmds scene_exec ?cs (idle scene_init) = Ret (rs, m)"
    and p: "map_of (player_scene_map (inner m)) 7 = Some 1001"
    by (auto simp del: run_cmds.simps split: outcome.splits)
  from players_in_one_scene [of ?cs] r obtain s' where "m = idle s'"
    "\<forall>x. length (players (entry (scene_objects s') x)) \<le> 100" by (auto simp del: run_cmds.simps)
  with r p show ?thesis by (auto simp del: run_cmds.simps)
qed

lemma player_objectD:
  assumes "player_object role s = Some (x, ob)"
  shows "map_of (player_scene_map s) role = Some x" and "map_of (entry (scene_objects s) x) role = Some ob"
  using assms by (auto simp: player_object_def split: option.splits)

text \<open>
  Entering a scene. It succeeds exactly when the scene exists and has fewer than 100 players (so also a
  player of a full scene is refused); then the player is filed under the scene, its object stands at
  the origin of it, and no other scene has a player object of it.
\<close>

theorem entering_a_scene:
  assumes "scene_inv s" and "people_ok s"
  shows "\<exists>b s'. PlayerEnterScene now role x (idle s) = Ret (b, idle s') \<and>
    (b \<longleftrightarrow> map_of (scene_cache s) x \<noteq> None \<and> length (players (entry (scene_objects s) x)) < 100) \<and>
    (\<not> b \<longrightarrow> s' = s) \<and>
    (b \<longrightarrow> player_object role s' = Some (x, new_player now role) \<and>
       (\<forall>y ob. y \<noteq> x \<longrightarrow> map_of (entry (scene_objects s') y) role = Some ob \<longrightarrow> object_type ob \<noteq> PLAYER))"
proof (cases "map_of (scene_cache s) x \<noteq> None \<and> length (players (entry (scene_objects s) x)) < 100")
  case False
  then show ?thesis using scene_inv_cache [OF assms(1), of x]
    by (auto simp: PlayerEnterScene_def Let_def split: option.split)
next
  case True
  then obtain info where info: "map_of (scene_cache s) x = Some info" by auto
  with scene_inv_cache [OF assms(1), of x] obtain os where
    i: "map_of (scene_objects s) x = Some os" "max_player_count info = 100" by auto
  let ?obs = "leave_old role x s"
  let ?s = "s\<lparr>scene_objects := AList.update x (AList.update role (new_player now role) (entry ?obs x)) ?obs,
      player_scene_map := AList.update role x (player_scene_map s)\<rparr>"
  have run: "PlayerEnterScene now role x (idle s) = Ret (True, idle ?s)"
    using True info i by (simp add: PlayerEnterScene_def Let_def)
  with steps_by_run [OF run PlayerEnterScene_steps] assms have p: "people_ok ?s" by (auto simp: civil_step_def)
  have "object_type ob \<noteq> PLAYER" if "y \<noteq> x" "map_of (entry (scene_objects ?s) y) role = Some ob" for y ob
    using people_okD(1) [OF p that(2)] that(1) by auto
  then show ?thesis using run True by (intro exI [of _ True] exI [of _ ?s]) (auto simp: player_object_def)
qed

theorem entering_a_scene_witness:
  "\<exists>b s'. PlayerEnterScene 0 7 1000 (idle scene_init) = Ret (b, idle s') \<and> \<not> b"
  using entering_a_scene [OF scene_inv_init, of 0 7 1000] by (auto simp: scene_init_def)

text \<open>
  A player stops the world. As soon as a player has entered a scene, the update of the module, the list of the
  players of the scene and the player's moves are undefined: each casts the stored object, a plain
  \<^verbatim>\<open>SceneObject\<close>, to a \<^verbatim>\<open>PlayerSceneObject\<close>.
\<close>

theorem players_break_updates:
  assumes "scene_inv s" and "PlayerEnterScene now role x (idle s) = Ret (True, m')"
  shows "OnUpdate m' = Fault BadDowncast \<and> GetScenePlayers x m' = Fault BadDowncast \<and>
    PlayerMove role tx tz m' = Fault BadDowncast \<and> PlayerStopMove role m' = Fault BadDowncast"
proof -
  obtain s' where m': "m' = idle s'" using steps_by_run [OF assms(2) PlayerEnterScene_steps] by blast
  obtain os where os: "map_of (scene_objects s') x = Some os" "map_of os role = Some (new_player now role)"
    and p: "map_of (player_scene_map s') role = Some x"
    using assms m' by (auto simp: PlayerEnterScene_def Let_def split: option.splits if_splits)
  have mem: "(x, os) \<in> set (scene_objects s')" "(role, new_player now role) \<in> set os"
    using os by (auto dest: map_of_SomeD)
  have "\<exists>(k, ob)\<in>set os. object_type ob = PLAYER" using mem(2) by (force simp: new_player_def)
  moreover from this have "\<exists>(x, os)\<in>set (scene_objects s'). \<exists>(k, ob)\<in>set os. object_type ob = PLAYER"
    using mem(1) by blast
  moreover have "player_object role s' \<noteq> None" using os p by (simp add: player_object_def)
  ultimately show ?thesis
    using os(1) by (simp add: m' OnUpdate_def GetScenePlayers_def cast_all_def PlayerMove_def PlayerStopMove_def)
qed

definition one_scene :: SceneModule where
  "one_scene = scene_init\<lparr>scene_cache := [(1000, new_scene 0 1000 1)], scene_objects := [(1000, [])], next_scene_id := 1001\<rparr>"

lemma one_scene_inv: "scene_inv one_scene" "people_ok one_scene"
  by (auto simp: one_scene_def scene_inv_def scene_init_def new_scene_def keys_ok_def all_entries_def all_vals_def
      people_ok_def players_def entry_def split: if_splits)

theorem players_break_updates_witness:
  "\<exists>m'. PlayerEnterScene 0 7 1000 (idle one_scene) = Ret (True, m') \<and> OnUpdate m' = Fault BadDowncast"
proof -
  have "(case PlayerEnterScene 0 7 1000 (idle one_scene) of Ret (True, m) \<Rightarrow> True | _ \<Rightarrow> False)" by code_simp
  then obtain m' where "PlayerEnterScene 0 7 1000 (idle one_scene) = Ret (True, m')"
    by (auto split: outcome.splits prod.splits bool.splits)
  with players_break_updates [OF one_scene_inv(1) this] show ?thesis by blast
qed

lemma distance_symmetric: "distance a b = distance b a"
proof -
  let ?dx = "f32_sub (of_bits (position_x b)) (of_bits (position_x a))"
    and ?dz = "f32_sub (of_bits (position_z b)) (of_bits (position_z a))"
  have "distance b a = f32_sqrt (f32_add (f32_mul (f32_neg ?dx) (f32_neg ?dx)) (f32_mul (f32_neg ?dz) (f32_neg ?dz)))"
    by (simp only: distance_def Let_def f32_sub_flip [of "of_bits (position_x a)"] f32_sub_flip [of "of_bits (position_z a)"])
  then show ?thesis by (simp only: distance_def Let_def f32_square_neg)
qed

lemma distance_exact:
  assumes "of_bits (position_x a) = Fin (of_int ax)" and "of_bits (position_z a) = Fin (of_int az)"
    and "of_bits (position_x b) = Fin (of_int bx)" and "of_bits (position_z b) = Fin (of_int bz)"
    and "(bx - ax) ^ 2 + (bz - az) ^ 2 \<le> 2 ^ 24"
  shows "f32_le (distance a b) VIEW_RADIUS \<longleftrightarrow> (bx - ax) ^ 2 + (bz - az) ^ 2 \<le> 50 ^ 2"
proof -
  let ?dx = "bx - ax" and ?dz = "bz - az"
  let ?d = "?dx * ?dx + ?dz * ?dz"
  have d: "0 \<le> ?dx * ?dx" "0 \<le> ?dz * ?dz" "?d \<le> 2 ^ 24" using assms(5) by (auto simp: power2_eq_square)
  have small: "\<bar>n\<bar> \<le> 2 ^ 24" if "n * n \<le> 2 ^ 24" for n :: int
  proof (rule ccontr)
    assume "\<not> \<bar>n\<bar> \<le> 2 ^ 24"
    then have "2 ^ 24 * 2 ^ 24 \<le> \<bar>n\<bar> * \<bar>n\<bar>" by (intro mult_mono) auto
    with that show False by (simp add: abs_mult_self_eq)
  qed
  have dx: "f32_sub (Fin (of_int bx)) (Fin (of_int ax)) = Fin (of_int ?dx)"
    and dz: "f32_sub (Fin (of_int bz)) (Fin (of_int az)) = Fin (of_int ?dz)"
    by (rule f32_sub_ints; use d small [of ?dx] small [of ?dz] in linarith)+
  have xx: "f32_mul (Fin (of_int ?dx)) (Fin (of_int ?dx)) = Fin (of_int (?dx * ?dx))"
    and zz: "f32_mul (Fin (of_int ?dz)) (Fin (of_int ?dz)) = Fin (of_int (?dz * ?dz))"
    by (rule f32_mul_ints; use d in linarith)+
  have "f32_add (Fin (of_int (?dx * ?dx))) (Fin (of_int (?dz * ?dz))) = Fin (of_int ?d)"
    by (rule f32_add_ints) (use d in linarith)
  then have "distance a b = f32_sqrt (Fin (of_int ?d))"
    by (simp only: distance_def assms(1-4) Let_def dx dz xx zz)
  then have eq: "f32_le (distance a b) VIEW_RADIUS \<longleftrightarrow> root32 (of_int ?d) \<le> 50"
  proof -
    have "0 \<le> ?d" using d by linarith
    then have "(0::rat) \<le> of_int ?d" by (simp only: of_int_0_le_iff)
    with \<open>distance a b = f32_sqrt (Fin (of_int ?d))\<close> show ?thesis
      by (simp only: VIEW_RADIUS_def f32_sqrt.simps not_less [symmetric] if_False simp_thms f32_le.simps)
  qed
  consider "?d \<le> 0" | "0 < ?d" "?d \<le> 2500" | "2501 \<le> ?d" by linarith
  then have "root32 (of_int ?d) \<le> 50 \<longleftrightarrow> ?d \<le> 2500"
  proof cases
    case 1
    with d have "?d = 0" by linarith
    then show ?thesis by (simp add: root32_def)
  next
    case 2
    then have "(0::rat) < of_int ?d" "of_int ?d \<le> (of_int 2500 :: rat)" by (simp_all only: of_int_0_less_iff of_int_le_iff)
    then have "root32 (of_int ?d) \<le> 50" unfolding of_int_numeral by (rule root32_inside)
    with 2(2) show ?thesis by blast
  next
    case 3
    then have "of_int 2501 \<le> (of_int ?d :: rat)" by (simp only: of_int_le_iff)
    then have "50 < root32 (of_int ?d)" unfolding of_int_numeral by (rule root32_outside)
    then have "\<not> root32 (of_int ?d) \<le> 50" by (simp only: not_le)
    moreover have "\<not> ?d \<le> 2500" using 3 by linarith
    ultimately show ?thesis by blast
  qed
  with eq show ?thesis by (simp add: power2_eq_square)
qed

text \<open>
  C21. Sight. Of two different players of a scene, one is among the objects the other sees if and only if
  the other is among those it sees, whatever their coordinates (also when the difference overflows or is not a number);
  and when the coordinates are whole numbers up to some thousands apart, it sees the other
  exactly when the distance is at most 50, though the distance is computed with rounding.
\<close>

theorem sight_is_mutual:
  assumes "scene_inv s" and "player_object r s = Some (x, a)" and "player_object q s = Some (x, b)" and "r \<noteq> q"
  shows "\<exists>vr vq. GetVisibleObjects r (idle s) = Ret (Some vr, idle s) \<and> GetVisibleObjects q (idle s) = Ret (Some vq, idle s) \<and>
    (b \<in> set vr \<longleftrightarrow> a \<in> set vq) \<and>
    (\<forall>ax az bx bz. of_bits (position_x a) = Fin (of_int ax) \<longrightarrow> of_bits (position_z a) = Fin (of_int az) \<longrightarrow>
       of_bits (position_x b) = Fin (of_int bx) \<longrightarrow> of_bits (position_z b) = Fin (of_int bz) \<longrightarrow>
       (bx - ax) ^ 2 + (bz - az) ^ 2 \<le> 2 ^ 24 \<longrightarrow>
       (b \<in> set vr \<longleftrightarrow> (bx - ax) ^ 2 + (bz - az) ^ 2 \<le> 50 ^ 2))"
proof -
  let ?os = "entry (scene_objects s) x"
  let ?v = "\<lambda>k ob. map snd (filter (\<lambda>(j, o'). j \<noteq> k \<and> f32_le (distance ob o') VIEW_RADIUS) ?os)"
  have ok: "objects_ok ?os" by (rule entry_objects_ok [OF assms(1)])
  have a: "(r, a) \<in> set ?os" "object_id a = r" and b: "(q, b) \<in> set ?os" "object_id b = q"
    using player_objectD(2) [OF assms(2)] player_objectD(2) [OF assms(3)] ok
    by (auto simp: objects_ok_def all_entries_def dest: map_of_SomeD)
  have own: "k = object_id ob" if "(k, ob) \<in> set ?os" for k ob
    using that ok by (auto simp: objects_ok_def keys_ok_def all_entries_def)
  have sees: "ob \<in> set (?v k me) \<longleftrightarrow> f32_le (distance me ob) VIEW_RADIUS"
    if "(j, ob) \<in> set ?os" "j \<noteq> k" for j k ob me
    using that own by (force simp: image_iff)
  have "b \<in> set (?v r a) \<longleftrightarrow> f32_le (distance a b) VIEW_RADIUS" "a \<in> set (?v q b) \<longleftrightarrow> f32_le (distance b a) VIEW_RADIUS"
    using sees [OF b(1), of r a] sees [OF a(1), of q b] assms(4) by auto
  moreover have "GetVisibleObjects r (idle s) = Ret (Some (?v r a), idle s)" "GetVisibleObjects q (idle s) = Ret (Some (?v q b), idle s)"
    by (simp_all add: GetVisibleObjects_def assms(2,3))
  ultimately show ?thesis using distance_exact [of a _ _ b] distance_symmetric [of a b]
    by (intro exI [of _ "?v r a"] exI [of _ "?v q b"]) auto
qed

definition two_players :: SceneModule where
  "two_players = one_scene\<lparr>scene_objects := [(1000, [(7, new_player 0 7), (8, (new_player 0 8)\<lparr>position_x := 0x41F00000, position_z := 0x42200000\<rparr>)])],
     player_scene_map := [(7, 1000), (8, 1000)]\<rparr>"

theorem sight_is_mutual_witness:
  "\<exists>vr vq. GetVisibleObjects 7 (idle two_players) = Ret (Some vr, idle two_players) \<and>
     GetVisibleObjects 8 (idle two_players) = Ret (Some vq, idle two_players) \<and>
     ((new_player 0 8)\<lparr>position_x := 0x41F00000, position_z := 0x42200000\<rparr> \<in> set vr \<longleftrightarrow> new_player 0 7 \<in> set vq) \<and>
     ((new_player 0 8)\<lparr>position_x := 0x41F00000, position_z := 0x42200000\<rparr> \<in> set vr \<longleftrightarrow> (30 - 0) ^ 2 + (40 - 0) ^ 2 \<le> (50 ^ 2 :: int))"
proof -
  have i: "scene_inv two_players"
    by (auto simp: two_players_def one_scene_def scene_inv_def scene_init_def new_scene_def new_player_def keys_ok_def
        all_entries_def all_vals_def objects_ok_def split: if_splits)
  have p: "player_object 7 two_players = Some (1000, new_player 0 7)"
    "player_object 8 two_players = Some (1000, (new_player 0 8)\<lparr>position_x := 0x41F00000, position_z := 0x42200000\<rparr>)"
    by (simp_all add: player_object_def two_players_def)
  have c: "of_bits 0 = Fin (of_int 0)" "of_bits 0x41F00000 = Fin (of_int 30)" "of_bits 0x42200000 = Fin (of_int 40)"
    by code_simp+
  from sight_is_mutual [OF i p] obtain vr vq where "GetVisibleObjects 7 (idle two_players) = Ret (Some vr, idle two_players)"
    "GetVisibleObjects 8 (idle two_players) = Ret (Some vq, idle two_players)"
    and m: "(new_player 0 8)\<lparr>position_x := 0x41F00000, position_z := 0x42200000\<rparr> \<in> set vr \<longleftrightarrow> new_player 0 7 \<in> set vq"
    and e: "\<And>ax az bx bz. of_bits (position_x (new_player 0 7)) = Fin (of_int ax) \<longrightarrow> of_bits (position_z (new_player 0 7)) = Fin (of_int az) \<longrightarrow>
       of_bits 0x41F00000 = Fin (of_int bx) \<longrightarrow> of_bits 0x42200000 = Fin (of_int bz) \<longrightarrow> (bx - ax) ^ 2 + (bz - az) ^ 2 \<le> 2 ^ 24 \<longrightarrow>
       ((new_player 0 8)\<lparr>position_x := 0x41F00000, position_z := 0x42200000\<rparr> \<in> set vr \<longleftrightarrow> (bx - ax) ^ 2 + (bz - az) ^ 2 \<le> 50 ^ 2)"
    by auto
  moreover have "(new_player 0 8)\<lparr>position_x := 0x41F00000, position_z := 0x42200000\<rparr> \<in> set vr \<longleftrightarrow> (30 - 0) ^ 2 + (40 - 0) ^ 2 \<le> (50 ^ 2 :: int)"
    using e [of 0 0 30 40] c by (simp add: new_player_def)
  ultimately show ?thesis by blast
qed

text \<open>
  Empty scenes go. The timer destroys exactly the scenes that have no object and were created more than 300
  seconds before; every other scene, with its objects, and all that is known of players stay as they are.
\<close>

theorem timer_destroys_deserted:
  assumes "scene_inv s"
  shows "\<exists>s'. OnTimer now (idle s) = Ret ((), idle s') \<and> scene_inv s' \<and> player_scene_map s' = player_scene_map s \<and>
    (\<forall>x. (if \<exists>i. map_of (scene_cache s) x = Some i \<and> map_of (scene_objects s) x = Some [] \<and> 300 < now - create_time i
          then map_of (scene_cache s') x = None \<and> map_of (scene_objects s') x = None
          else map_of (scene_cache s') x = map_of (scene_cache s) x \<and> map_of (scene_objects s') x = map_of (scene_objects s) x))"
proof -
  let ?dead = "map fst (filter (deserted now s) (scene_cache s))"
  let ?s = "s\<lparr>scene_objects := fold AList.delete ?dead (scene_objects s), scene_cache := fold AList.delete ?dead (scene_cache s)\<rparr>"
  have look: "map_of (fold AList.delete ks xs) x = (if x \<in> set ks then None else map_of xs x)" for ks x and xs :: "(i32 \<times> 'v) list"
    by (induction ks arbitrary: xs) auto
  have "distinct (map fst (scene_cache s))" using assms by (simp add: scene_inv_def keys_ok_def)
  then have dead: "x \<in> set ?dead \<longleftrightarrow> (\<exists>i. map_of (scene_cache s) x = Some i \<and> map_of (scene_objects s) x = Some [] \<and> 300 < now - create_time i)" for x
    by (force simp: deserted_def)
  have run: "OnTimer now (idle s) = Ret ((), idle ?s)" by (simp add: OnTimer_def Let_def)
  from steps_by_run [OF run OnTimer_scene_step] assms have "scene_inv ?s" by (auto simp: civil_step_def)
  with run show ?thesis by (intro exI [of _ ?s]) (auto simp: look dead simp del: set_map)
qed

theorem timer_destroys_deserted_witness:
  "\<exists>s'. OnTimer 301 (idle one_scene) = Ret ((), idle s') \<and> map_of (scene_cache s') 1000 = None"
proof -
  obtain s' where "OnTimer 301 (idle one_scene) = Ret ((), idle s')" and
    t: "\<forall>x. (if \<exists>i. map_of (scene_cache one_scene) x = Some i \<and> map_of (scene_objects one_scene) x = Some [] \<and> 300 < 301 - create_time i
          then map_of (scene_cache s') x = None \<and> map_of (scene_objects s') x = None
          else map_of (scene_cache s') x = map_of (scene_cache one_scene) x \<and> map_of (scene_objects s') x = map_of (scene_objects one_scene) x)"
    using timer_destroys_deserted [OF one_scene_inv(1), of 301] by blast
  moreover have "map_of (scene_cache s') 1000 = None"
    using spec [OF t, of 1000] by (simp add: one_scene_def new_scene_def split: if_splits)
  ultimately show ?thesis by blast
qed

text \<open>
  Destroying a scene forgets its players only by half: each stays filed under the scene that is gone, and
  has no position any more.
\<close>

theorem destroyed_scenes_keep_players:
  assumes "scene_inv s" and "map_of (scene_cache s) x \<noteq> None" and "map_of (player_scene_map s) role = Some x"
  shows "\<exists>s'. DestroyScene x (idle s) = Ret (True, idle s') \<and> GetPlayerScene role (idle s') = Ret (Some x, idle s') \<and>
    GetSceneInfo x (idle s') = Ret (None, idle s') \<and> GetPlayerPosition role (idle s') = Ret (None, idle s')"
proof -
  let ?s = "s\<lparr>scene_objects := AList.delete x (scene_objects s), scene_cache := AList.delete x (scene_cache s)\<rparr>"
  have "DestroyScene x (idle s) = Ret (True, idle ?s)" using assms(2) by (simp add: DestroyScene_def del: not_None_eq)
  then show ?thesis using assms(3)
    by (intro exI [of _ ?s]) (simp add: GetPlayerScene_def GetSceneInfo_def GetPlayerPosition_def player_object_def)
qed

theorem destroyed_scenes_keep_players_witness:
  "\<exists>s'. DestroyScene 1000 (idle (one_scene\<lparr>player_scene_map := [(7, 1000)]\<rparr>)) = Ret (True, idle s') \<and>
     GetPlayerScene 7 (idle s') = Ret (Some 1000, idle s')"
proof -
  have "scene_inv (one_scene\<lparr>player_scene_map := [(7, 1000)]\<rparr>)"
    using scene_inv_players [OF one_scene_inv(1), of "[(7, 1000)]"] by (simp add: keys_ok_def)
  from destroyed_scenes_keep_players [OF this, of 1000 7] show ?thesis by (auto simp: one_scene_def)
qed

end
