(* ===== verification/Bytes.thy ===== *)
theory Bytes
  imports Runtime
begin

text \<open>
  Numbers as bytes in memory, shared by the byte array and the protocol of the servers:
  both byte orders and \<open>ancfl/endian.h\<close>.
\<close>

type_synonym byte = "8 word"

text \<open>
  The bytes of an unsigned number in memory, least significant first or last, and back;
  \<^verbatim>\<open>bswap_16/32/64\<close>. Signed types are the integers of their range, in two's complement.
\<close>

primrec le_bytes :: "nat \<Rightarrow> nat \<Rightarrow> byte list" where
  "le_bytes 0 v = []"
| "le_bytes (Suc n) v = word_of_nat v # le_bytes n (v div 256)"

primrec le_value :: "byte list \<Rightarrow> nat" where
  "le_value [] = 0"
| "le_value (b # bs) = unat b + 256 * le_value bs"

definition byteswap :: "nat \<Rightarrow> nat \<Rightarrow> nat" where
  "byteswap n v = le_value (rev (le_bytes n v))"

definition in_order :: "bool \<Rightarrow> 'a list \<Rightarrow> 'a list" where
  "in_order lit bs = (if lit then bs else rev bs)"

lemma length_le_bytes [simp]: "length (le_bytes n v) = n"
  by (induction n arbitrary: v) auto

lemma le_value_bytes [simp]: "le_value (le_bytes n v) = v mod 256 ^ n"
proof (induction n arbitrary: v)
  case 0
  then show ?case by simp
next
  case (Suc n)
  have "unat (word_of_nat v :: byte) = v mod 256" by (simp add: unat_of_nat)
  with Suc show ?case by (simp add: mod_mult2_eq)
qed

lemma le_bytes_value [simp]: "length bs = n \<Longrightarrow> le_bytes n (le_value bs) = bs"
proof (induction bs arbitrary: n)
  case Nil
  then show ?case by simp
next
  case (Cons b bs)
  have "unat b < 256" using unsigned_less [of b] by simp
  then have "(unat b + 256 * le_value bs) div 256 = le_value bs" by simp
  moreover have "(256 :: byte) = 0" by transfer simp
  then have "(word_of_nat (unat b + 256 * le_value bs) :: byte) = b"
    by (simp only: of_nat_add of_nat_mult of_nat_numeral) simp
  ultimately show ?case using Cons by auto
qed

lemma byteswap_bytes: "le_bytes n (byteswap n v) = rev (le_bytes n v)"
  by (simp add: byteswap_def)

text \<open>The bytes of a number in the memory of a machine that is little endian or not, and back.\<close>

definition in_memory :: "bool \<Rightarrow> nat \<Rightarrow> nat \<Rightarrow> byte list" where
  "in_memory host n v = in_order host (le_bytes n v)"

definition of_memory :: "bool \<Rightarrow> byte list \<Rightarrow> nat" where
  "of_memory host bs = le_value (in_order host bs)"

lemma length_in_memory [simp]: "length (in_memory host n v) = n"
  by (simp add: in_memory_def in_order_def)

lemma of_in_memory [simp]: "of_memory host (in_memory host n v) = v mod 256 ^ n"
  by (simp add: in_memory_def of_memory_def in_order_def)

lemma in_of_memory [simp]: "length bs = n \<Longrightarrow> in_memory host n (of_memory host bs) = bs"
  by (auto simp: in_memory_def of_memory_def in_order_def)

lemma le_value_range: "le_value bs < 256 ^ length bs"
proof (induction bs)
  case (Cons b bs)
  have "unat b < 256" using unsigned_less [of b] by simp
  with Cons show ?case by simp
qed simp

lemma byteswap_range: "byteswap n v < 256 ^ n"
  using le_value_range [of "rev (le_bytes n v)"] by (simp add: byteswap_def)

text \<open>Signed numbers of \<open>n\<close> bytes, in two's complement.\<close>

definition int_bytes :: "bool \<Rightarrow> nat \<Rightarrow> int \<Rightarrow> byte list" where
  "int_bytes host n v = in_memory host n (nat (take_bit (8 * n) v))"

definition bytes_int :: "bool \<Rightarrow> byte list \<Rightarrow> int" where
  "bytes_int host bs = signed_take_bit (8 * length bs - 1) (int (of_memory host bs))"

lemma length_int_bytes [simp]: "length (int_bytes host n v) = n"
  by (simp add: int_bytes_def)

lemma bytes_int_bytes:
  assumes "0 < n" and "- (2 ^ (8 * n - 1)) \<le> v" and "v < 2 ^ (8 * n - 1)"
  shows "bytes_int host (int_bytes host n v) = v"
proof -
  have "(256 :: nat) ^ n = 2 ^ (8 * n)" by (simp add: power_mult)
  then have "int (nat (take_bit (8 * n) v) mod 256 ^ n) = take_bit (8 * n) v"
    by (simp add: zmod_int take_bit_eq_mod)
  moreover have "signed_take_bit (8 * n - 1) (take_bit (8 * n) v) = signed_take_bit (8 * n - 1) v"
  proof -
    have "\<not> 8 * n \<le> 8 * n - 1" using assms(1) by linarith
    then show ?thesis by (simp add: signed_take_bit_take_bit)
  qed
  moreover have "signed_take_bit (8 * n - 1) v = v" using assms by (simp add: signed_take_bit_int_eq_self)
  ultimately show ?thesis by (simp add: bytes_int_def int_bytes_def)
qed

text \<open>Text as bytes.\<close>

definition bytes_of :: "string \<Rightarrow> byte list" where
  "bytes_of cs = map (\<lambda>c. word_of_nat (of_char c)) cs"

definition text_of :: "byte list \<Rightarrow> string" where
  "text_of bs = map (\<lambda>b. char_of (unat b)) bs"

lemma length_bytes_of [simp]: "length (bytes_of cs) = length cs"
  by (simp add: bytes_of_def)

lemma text_of_bytes_of [simp]: "text_of (bytes_of cs) = cs"
proof -
  have "char_of (unat (word_of_nat (of_char c) :: byte)) = c" for c by (simp add: unat_of_nat)
  then show ?thesis by (simp add: text_of_def bytes_of_def map_idI)
qed

lemma bytes_of_inject [simp]: "bytes_of cs = bytes_of ds \<longleftrightarrow> cs = ds"
  by (metis text_of_bytes_of)

end
