(* ===== verification/ByteArray.thy ===== *)
theory ByteArray
  imports Bytes
begin

text \<open>
  \<open>ancfl/bytearray.cc\<close>: a growing byte array made of a linked list of blocks, read and written at a
  position, and its refinement to a flat sequence of bytes. The typed operations on it are in
  \<open>ByteStream\<close>.
\<close>

section \<open>Data\<close>

text \<open>
  The blocks are the contents of the nodes from \<^verbatim>\<open>m_root\<close> on, and \<open>cur\<close> is the index of the node
  \<^verbatim>\<open>m_cur\<close> points to, \<open>None\<close> when it is null. \<^verbatim>\<open>new char[n]\<close> hands out memory with unknown contents:
  \<open>junk k j\<close> is byte \<open>j\<close> of the allocation number \<open>k\<close>, and \<open>allocs\<close> counts the allocations.
\<close>

record ByteArray =
  base_size :: nat
  position :: nat
  capacity :: nat
  size_used :: nat
  little :: bool
  blocks :: "byte list list"
  cur :: "nat option"
  junk :: "nat \<Rightarrow> nat \<Rightarrow> byte"
  allocs :: nat

definition new_node :: "nat \<Rightarrow> (nat \<Rightarrow> nat \<Rightarrow> byte) \<Rightarrow> nat \<Rightarrow> byte list" where
  "new_node base j k = map (j k) [0..<base]"

definition new_array :: "(nat \<Rightarrow> nat \<Rightarrow> byte) \<Rightarrow> nat \<Rightarrow> ByteArray" where
  "new_array j base = \<lparr>base_size = base, position = 0, capacity = base, size_used = 0, little = False,
     blocks = [new_node base j 0], cur = Some 0, junk = j, allocs = 1\<rparr>"

text \<open>
  An operation returns, faults, or throws \<^verbatim>\<open>std::out_of_range\<close>: then the value is \<open>None\<close>, and the
  state is what the operation has made of it so far.
\<close>

type_synonym 'a bop = "ByteArray \<Rightarrow> ('a option \<times> ByteArray) outcome"

definition retB :: "'a \<Rightarrow> 'a bop" where
  "retB x s = Ret (Some x, s)"

definition throwB :: "'a bop" where
  "throwB s = Ret (None, s)"

definition bindB :: "'a bop \<Rightarrow> ('a \<Rightarrow> 'b bop) \<Rightarrow> 'b bop" where
  "bindB p k s = bindO (p s) (\<lambda>(r, s'). case r of None \<Rightarrow> Ret (None, s') | Some x \<Rightarrow> k x s')"

definition liftB :: "'a outcome \<Rightarrow> 'a bop" where
  "liftB x s = bindO x (\<lambda>v. Ret (Some v, s))"

definition stateB :: "(ByteArray \<Rightarrow> ByteArray outcome) \<Rightarrow> unit bop" where
  "stateB f s = bindO (f s) (\<lambda>s'. Ret (Some (), s'))"

section \<open>Blocks\<close>

definition getReadSize :: "ByteArray \<Rightarrow> nat" where
  "getReadSize s = size_used s - position s"

definition getCapacity :: "ByteArray \<Rightarrow> nat" where
  "getCapacity s = capacity s - position s"

definition next_node :: "'a list \<Rightarrow> nat \<Rightarrow> nat option" where
  "next_node bs i = (if Suc i < length bs then Some (Suc i) else None)"

definition addCapacity :: "nat \<Rightarrow> ByteArray \<Rightarrow> ByteArray" where
  "addCapacity n s =
     (if n = 0 \<or> n \<le> getCapacity s then s
      else
        let old_cap = getCapacity s;
            need = n - old_cap;
            cnt = (need + base_size s - 1) div base_size s;
            fresh = map (\<lambda>k. new_node (base_size s) (junk s) (allocs s + k)) [0..<cnt]
        in s\<lparr>blocks := blocks s @ fresh, capacity := capacity s + cnt * base_size s,
             allocs := allocs s + cnt,
             cur := (if old_cap = 0 then Some (length (blocks s)) else cur s)\<rparr>)"

text \<open>\<^verbatim>\<open>memcpy\<close> into a block.\<close>

definition poke :: "'a list \<Rightarrow> nat \<Rightarrow> 'a list \<Rightarrow> 'a list" where
  "poke xs p ys = take p xs @ ys @ drop (p + length ys) xs"

text \<open>
  The loop of \<^verbatim>\<open>write\<close> from node \<open>c\<close> at offset \<open>npos\<close>; the position is advanced by the caller by all
  of the bytes. The loop of \<^verbatim>\<open>read\<close> dereferences the node even when nothing is to be read.
\<close>

function write_loop ::
  "byte list list \<Rightarrow> nat option \<Rightarrow> nat \<Rightarrow> byte list \<Rightarrow> (byte list list \<times> nat option) outcome" where
  "write_loop bs c npos buf =
     (if buf = [] then Ret (bs, c)
      else case c of
        None \<Rightarrow> Fault NullPointer
      | Some i \<Rightarrow>
          if length bs \<le> i then Fault OutOfRange
          else
            let ncap = length (bs ! i) - npos in
            if length buf \<le> ncap
            then Ret (bs[i := poke (bs ! i) npos buf],
                      if length (bs ! i) = npos + length buf then next_node bs i else Some i)
            else write_loop (bs[i := poke (bs ! i) npos (take ncap buf)]) (next_node bs i) 0 (drop ncap buf))"
  by pat_completeness auto
termination
  by (relation "measure (\<lambda>(bs, c, npos, buf). case c of None \<Rightarrow> 0 | Some i \<Rightarrow> Suc (length bs) - i)")
    (auto simp: next_node_def split: option.split)

definition write_bytes :: "byte list \<Rightarrow> unit bop" where
  "write_bytes buf = stateB (\<lambda>s.
     if buf = [] then Ret s
     else
       let s1 = addCapacity (length buf) s in
       bindO (write_loop (blocks s1) (cur s1) (position s1 mod base_size s1) buf) (\<lambda>(bs, c).
         let pos = position s1 + length buf in
         Ret (s1\<lparr>blocks := bs, cur := c, position := pos, size_used := max (size_used s1) pos\<rparr>)))"

function read_loop ::
  "byte list list \<Rightarrow> nat option \<Rightarrow> nat \<Rightarrow> nat \<Rightarrow> (byte list \<times> nat option) outcome" where
  "read_loop bs c npos n =
     (case c of
        None \<Rightarrow> Fault NullPointer
      | Some i \<Rightarrow>
          if length bs \<le> i then Fault OutOfRange
          else if n = 0 then Ret ([], c)
          else
            let ncap = length (bs ! i) - npos in
            if n \<le> ncap
            then Ret (take n (drop npos (bs ! i)),
                      if length (bs ! i) = npos + n then next_node bs i else Some i)
            else bindO (read_loop bs (next_node bs i) 0 (n - ncap)) (\<lambda>(out, c').
                   Ret (drop npos (bs ! i) @ out, c')))"
  by pat_completeness auto
termination
  by (relation "measure (\<lambda>(bs, c, npos, n). case c of None \<Rightarrow> 0 | Some i \<Rightarrow> Suc (length bs) - i)")
    (auto simp: next_node_def split: option.split)

declare write_loop.simps [simp del] read_loop.simps [simp del]

definition read_bytes :: "nat \<Rightarrow> byte list bop" where
  "read_bytes n s =
     (if getReadSize s < n then Ret (None, s)
      else bindO (read_loop (blocks s) (cur s) (position s mod base_size s) n) (\<lambda>(out, c).
        Ret (Some out, s\<lparr>position := position s + n, cur := c\<rparr>)))"

text \<open>
  The constant \<^verbatim>\<open>read\<close> at a given position starts in the block of the current position; the
  subtraction of the check wraps around at 64 bits.
\<close>

definition read_at :: "nat \<Rightarrow> nat \<Rightarrow> byte list bop" where
  "read_at n pos s =
     (if nat ((int (size_used s) - int pos) mod 2 ^ 64) < n then Ret (None, s)
      else bindO (read_loop (blocks s) (cur s) (pos mod base_size s) n) (\<lambda>(out, c). Ret (Some out, s)))"

function seek :: "byte list list \<Rightarrow> nat option \<Rightarrow> nat \<Rightarrow> nat option outcome" where
  "seek bs c v =
     (case c of
        None \<Rightarrow> Fault NullPointer
      | Some i \<Rightarrow>
          if length bs \<le> i then Fault OutOfRange
          else if length (bs ! i) < v then seek bs (next_node bs i) (v - length (bs ! i))
          else if v = length (bs ! i) then Ret (next_node bs i) else Ret c)"
  by pat_completeness auto
termination
  by (relation "measure (\<lambda>(bs, c, v). case c of None \<Rightarrow> 0 | Some i \<Rightarrow> Suc (length bs) - i)")
    (auto simp: next_node_def split: option.split)

declare seek.simps [simp del]

definition setPosition :: "nat \<Rightarrow> unit bop" where
  "setPosition v s =
     (if capacity s < v then Ret (None, s)
      else bindO (seek (blocks s) (Some 0) v) (\<lambda>c.
        Ret (Some (), s\<lparr>position := v, size_used := max (size_used s) v, cur := c\<rparr>)))"

definition clear :: "unit bop" where
  "clear = stateB (\<lambda>s. Ret (s\<lparr>position := 0, size_used := 0, capacity := base_size s,
     blocks := [hd (blocks s)], cur := Some 0\<rparr>))"

definition toString :: "byte list bop" where
  "toString s = (if getReadSize s = 0 then Ret (Some [], s) else read_at (getReadSize s) (position s) s)"

text \<open>The hexadecimal dump: two digits and a blank for a byte, a line break after 32.\<close>

definition hex_digit :: "nat \<Rightarrow> char" where
  "hex_digit n = ''0123456789abcdef'' ! n"

definition hex_dump :: "byte list \<Rightarrow> string" where
  "hex_dump bs = concat (map (\<lambda>i. (if 0 < i \<and> i mod 32 = 0 then [CHR 0x0A] else []) @
     [hex_digit (unat (bs ! i) div 16), hex_digit (unat (bs ! i) mod 16), CHR '' ''])
     [0..<length bs])"

definition toHexString :: "string bop" where
  "toHexString = bindB toString (\<lambda>bs. retB (hex_dump bs))"

text \<open>
  The regions handed to vectored I/O, each a node, an offset and a length. The version with a
  position walks from the root; its length is capped by what is readable at the current position.
\<close>

type_synonym iovec = "nat \<times> nat \<times> nat"

function buffers_loop ::
  "byte list list \<Rightarrow> nat option \<Rightarrow> nat \<Rightarrow> nat \<Rightarrow> iovec list outcome" where
  "buffers_loop bs c npos n =
     (if n = 0 then Ret []
      else case c of
        None \<Rightarrow> Fault NullPointer
      | Some i \<Rightarrow>
          if length bs \<le> i then Fault OutOfRange
          else
            let ncap = length (bs ! i) - npos in
            if n \<le> ncap then Ret [(i, npos, n)]
            else bindO (buffers_loop bs (next_node bs i) 0 (n - ncap)) (\<lambda>rest. Ret ((i, npos, ncap) # rest)))"
  by pat_completeness auto
termination
  by (relation "measure (\<lambda>(bs, c, npos, n). case c of None \<Rightarrow> 0 | Some i \<Rightarrow> Suc (length bs) - i)")
    (auto simp: next_node_def split: option.split)

declare buffers_loop.simps [simp del]

definition getReadBuffers :: "nat \<Rightarrow> (nat \<times> iovec list) bop" where
  "getReadBuffers len s =
     (let n = min len (getReadSize s) in
      if n = 0 then Ret (Some (0, []), s)
      else bindO (buffers_loop (blocks s) (cur s) (position s mod base_size s) n) (\<lambda>v. Ret (Some (n, v), s)))"

definition getReadBuffers_at :: "nat \<Rightarrow> nat \<Rightarrow> (nat \<times> iovec list) bop" where
  "getReadBuffers_at len pos s =
     (let n = min len (getReadSize s) in
      if n = 0 then Ret (Some (0, []), s)
      else if length (blocks s) \<le> pos div base_size s then Fault NullPointer
      else bindO (buffers_loop (blocks s) (Some (pos div base_size s)) (pos mod base_size s) n)
        (\<lambda>v. Ret (Some (n, v), s)))"

definition getWriteBuffers :: "nat \<Rightarrow> (nat \<times> iovec list) bop" where
  "getWriteBuffers len s =
     (if len = 0 then Ret (Some (0, []), s)
      else let s1 = addCapacity len s in
        bindO (buffers_loop (blocks s1) (cur s1) (position s1 mod base_size s1) len)
          (\<lambda>v. Ret (Some (len, v), s1)))"

text \<open>
  Files. \<open>write_file_loop\<close> collects what reaches the stream; a negative length writes nothing and sets
  the bad bit of the stream, after which nothing is written. The name cannot be opened: \<open>None\<close>.
\<close>

function write_file_loop ::
  "byte list list \<Rightarrow> nat \<Rightarrow> nat option \<Rightarrow> int \<Rightarrow> int \<Rightarrow> bool \<Rightarrow> byte list outcome" where
  "write_file_loop bs base c pos n good =
     (if n \<le> 0 then Ret []
      else case c of
        None \<Rightarrow> Fault NullPointer
      | Some i \<Rightarrow>
          if length bs \<le> i then Fault OutOfRange
          else
            let diff = pos mod int base;
                len = (if n > int base then int base else n) - diff;
                piece = (if good \<and> 0 \<le> len then take (nat len) (drop (nat diff) (bs ! i)) else [])
            in bindO (write_file_loop bs base (next_node bs i) (pos + len) (n - len) (good \<and> 0 \<le> len))
                 (\<lambda>out. Ret (piece @ out)))"
  by pat_completeness auto
termination
  by (relation "measure (\<lambda>(bs, base, c, pos, n, good). case c of None \<Rightarrow> 0 | Some i \<Rightarrow> Suc (length bs) - i)")
    (auto simp: next_node_def split: option.split)

declare write_file_loop.simps [simp del]

definition writeToFile :: "bool \<Rightarrow> ByteArray \<Rightarrow> byte list option outcome" where
  "writeToFile opened s =
     (if \<not> opened then Ret None
      else bindO (write_file_loop (blocks s) (base_size s) (cur s) (int (position s))
        (int (getReadSize s)) True) (\<lambda>out. Ret (Some out)))"

function file_chunks :: "nat \<Rightarrow> byte list \<Rightarrow> byte list list" where
  "file_chunks base xs = (if base = 0 \<or> length xs < base then [xs] else take base xs # file_chunks base (drop base xs))"
  by pat_completeness auto
termination
  by (relation "measure (\<lambda>(base, xs). length xs)") auto

declare file_chunks.simps [simp del]

primrec write_chunks :: "byte list list \<Rightarrow> unit bop" where
  "write_chunks [] = retB ()"
| "write_chunks (c # cs) = bindB (write_bytes c) (\<lambda>_. write_chunks cs)"

definition readFromFile :: "byte list option \<Rightarrow> bool bop" where
  "readFromFile content s =
     (case content of
        None \<Rightarrow> Ret (Some False, s)
      | Some xs \<Rightarrow> bindB (write_chunks (file_chunks (base_size s) xs)) (\<lambda>_. retB True) s)"

section \<open>Blocks and the flat sequence\<close>

text \<open>All nodes have the same size, so the node and offset of an address are quotient and remainder.\<close>

definition uniform :: "nat \<Rightarrow> 'a list list \<Rightarrow> bool" where
  "uniform b bs \<longleftrightarrow> (\<forall>x\<in>set bs. length x = b)"

definition node_at :: "nat \<Rightarrow> nat \<Rightarrow> nat \<Rightarrow> nat option" where
  "node_at b n p = (if p div b < n then Some (p div b) else None)"

lemma uniform_simps [simp]:
  "uniform b []" "uniform b (x # xs) \<longleftrightarrow> length x = b \<and> uniform b xs"
  "uniform b (xs @ ys) \<longleftrightarrow> uniform b xs \<and> uniform b ys"
  by (auto simp: uniform_def)

lemma uniform_nth: "uniform b bs \<Longrightarrow> i < length bs \<Longrightarrow> length (bs ! i) = b"
  by (simp add: uniform_def)

lemma uniform_take: "uniform b bs \<Longrightarrow> uniform b (take i bs)"
  by (auto simp: uniform_def dest: in_set_takeD)

lemma uniform_update: "uniform b bs \<Longrightarrow> length x = b \<Longrightarrow> uniform b (bs[i := x])"
  by (auto simp: uniform_def dest: set_update_subset_insert [THEN subsetD])

lemma length_concat_uniform: "uniform b bs \<Longrightarrow> length (concat bs) = length bs * b"
  by (induction bs) auto

lemma length_poke [simp]: "p + length ys \<le> length xs \<Longrightarrow> length (poke xs p ys) = length xs"
  by (simp add: poke_def)

lemma poke_Nil [simp]: "poke xs p [] = xs"
  by (simp add: poke_def)

lemma poke_middle:
  "k + length ys \<le> length xs \<Longrightarrow> poke (us @ xs @ vs) (length us + k) ys = us @ poke xs k ys @ vs"
  by (simp add: poke_def)

lemma poke_poke:
  assumes "p + length ys + length zs \<le> length xs"
  shows "poke (poke xs p ys) (p + length ys) zs = poke xs p (ys @ zs)"
  using assms by (simp add: poke_def ac_simps)

lemma concat_at:
  assumes "uniform b bs" and "i < length bs"
  shows "concat bs = concat (take i bs) @ bs ! i @ concat (drop (Suc i) bs)"
    and "length (concat (take i bs)) = i * b"
  using assms id_take_nth_drop [of i bs]
  by (metis concat.simps(2) concat_append, simp add: length_concat_uniform [of b] uniform_take)

lemma poke_block:
  assumes "uniform b bs" and "i < length bs" and "k + length ys \<le> b"
  shows "concat (bs[i := poke (bs ! i) k ys]) = poke (concat bs) (i * b + k) ys"
proof -
  have "concat (bs[i := poke (bs ! i) k ys]) =
      concat (take i bs) @ poke (bs ! i) k ys @ concat (drop (Suc i) bs)"
    using assms(2) by (simp add: upd_conv_take_nth_drop)
  also have "\<dots> = poke (concat (take i bs) @ bs ! i @ concat (drop (Suc i) bs)) (i * b + k) ys"
    using poke_middle [of k ys "bs ! i" "concat (take i bs)" "concat (drop (Suc i) bs)"] assms
    by (simp add: concat_at(2) [OF assms(1,2)] uniform_nth)
  finally show ?thesis using concat_at(1) [OF assms(1,2)] by simp
qed

lemma take_block:
  assumes "uniform b bs" and "i < length bs" and "k + n \<le> b"
  shows "take n (drop (i * b + k) (concat bs)) = take n (drop k (bs ! i))"
proof -
  have "drop (i * b + k) (concat bs) = drop k (bs ! i @ concat (drop (Suc i) bs))"
    by (subst concat_at(1) [OF assms(1,2)]) (simp add: concat_at(2) [OF assms(1,2)])
  then show ?thesis using assms uniform_nth [OF assms(1,2)] by simp
qed

lemma node_at_block:
  assumes "k < b"
  shows "node_at b n (i * b + k) = (if i < n then Some i else None)"
  using assms by (simp add: node_at_def)

lemma node_at_end:
  assumes "0 < b" and "i < length bs" and "k \<le> b"
  shows "node_at b (length bs) (i * b + k) = (if k = b then next_node bs i else Some i)"
proof (cases "k = b")
  case True
  then have "node_at b (length bs) (i * b + k) = node_at b (length bs) (Suc i * b + 0)" by (simp add: add.commute)
  then show ?thesis using node_at_block [of 0 b "length bs" "Suc i"] assms True
    by (simp add: next_node_def)
next
  case False
  with assms show ?thesis by (simp add: node_at_block)
qed

lemma write_loop_ok:
  assumes "uniform b bs" and "0 < b" and "i < length bs" and "k < b"
    and "i * b + k + length buf \<le> length bs * b"
  shows "\<exists>bs'. write_loop bs (Some i) k buf = Ret (bs', node_at b (length bs) (i * b + k + length buf)) \<and>
    length bs' = length bs \<and> uniform b bs' \<and> concat bs' = poke (concat bs) (i * b + k) buf"
  using assms
proof (induction "length bs - i" arbitrary: bs i k buf)
  case 0
  then show ?case by simp
next
  case (Suc d)
  from Suc.prems have len: "length (bs ! i) = b" by (simp add: uniform_nth)
  show ?case
  proof (cases "k + length buf \<le> b")
    case True
    let ?bs = "bs[i := poke (bs ! i) k buf]"
    have "write_loop bs (Some i) k buf = Ret (?bs, node_at b (length bs) (i * b + k + length buf))"
      using Suc.prems True len node_at_end [of b i bs "k + length buf"]
      by (subst write_loop.simps) (auto simp: add.assoc Let_def)
    moreover have "concat ?bs = poke (concat bs) (i * b + k) buf"
      by (rule poke_block) (use Suc.prems True in auto)
    moreover have "uniform b ?bs"
      using Suc.prems(1) len True by (simp add: uniform_update)
    ultimately show ?thesis by simp
  next
    case False
    let ?n = "b - k"
    let ?bs = "bs[i := poke (bs ! i) k (take ?n buf)]"
    have i: "Suc i < length bs"
    proof (rule ccontr)
      assume "\<not> Suc i < length bs"
      with Suc.prems(3) have "length bs = Suc i" by simp
      with Suc.prems(5) False show False by simp
    qed
    have tk: "length (take ?n buf) = ?n" using False by simp
    have u: "uniform b ?bs" using Suc.prems(1,4) len tk by (simp add: uniform_update)
    have fits: "Suc i * b + 0 + length (drop ?n buf) \<le> length ?bs * b"
      using Suc.prems(4,5) False by simp
    have "d = length ?bs - Suc i" using Suc.hyps(2) by simp
    from Suc.hyps(1) [OF this u Suc.prems(2) _ Suc.prems(2) fits] i obtain bs' where
      r: "write_loop ?bs (Some (Suc i)) 0 (drop ?n buf) =
        Ret (bs', node_at b (length bs) (Suc i * b + 0 + length (drop ?n buf)))"
      and l: "length bs' = length bs" "uniform b bs'"
      and c: "concat bs' = poke (concat ?bs) (Suc i * b + 0) (drop ?n buf)" by auto
    have addr: "Suc i * b + 0 + length (drop ?n buf) = i * b + k + length buf"
      "Suc i * b + 0 = i * b + k + length (take ?n buf)"
      using Suc.prems(4) False by auto
    have "write_loop bs (Some i) k buf = write_loop ?bs (Some (Suc i)) 0 (drop ?n buf)"
      using Suc.prems(3,4) False i len by (subst write_loop.simps) (auto simp: next_node_def Let_def)
    moreover have "concat ?bs = poke (concat bs) (i * b + k) (take ?n buf)"
      by (rule poke_block) (use Suc.prems tk in auto)
    then have "concat bs' = poke (concat bs) (i * b + k) buf"
      using poke_poke [of "i * b + k" "take ?n buf" "drop ?n buf" "concat bs"] Suc.prems(1,5)
      unfolding c addr(2) by (simp add: length_concat_uniform)
    ultimately show ?thesis using r l unfolding addr(1) by simp
  qed
qed

lemma read_loop_ok:
  assumes "uniform b bs" and "0 < b" and "i < length bs" and "k < b"
    and "i * b + k + n \<le> length bs * b"
  shows "read_loop bs (Some i) k n =
    Ret (take n (drop (i * b + k) (concat bs)), node_at b (length bs) (i * b + k + n))"
  using assms
proof (induction "length bs - i" arbitrary: i k n)
  case 0
  then show ?case by simp
next
  case (Suc d)
  from Suc.prems have len: "length (bs ! i) = b" by (simp add: uniform_nth)
  show ?case
  proof (cases "k + n \<le> b")
    case True
    then show ?thesis
      using Suc.prems len node_at_end [of b i bs "k + n"] take_block [of b bs i k n]
      by (subst read_loop.simps) (auto simp: add.assoc Let_def)
  next
    case False
    have i: "Suc i < length bs"
    proof (rule ccontr)
      assume "\<not> Suc i < length bs"
      with Suc.prems(3) have "length bs = Suc i" by simp
      with Suc.prems(5) False show False by simp
    qed
    have addr: "Suc i * b + 0 + (n - (b - k)) = i * b + k + n" "i * b + k + (b - k) = Suc i * b + 0"
      using Suc.prems(4) False by auto
    have fits: "Suc i * b + 0 + (n - (b - k)) \<le> length bs * b"
      unfolding addr(1) by (rule Suc.prems(5))
    have "d = length bs - Suc i" using Suc.hyps(2) by simp
    from Suc.hyps(1) [OF this Suc.prems(1,2) i Suc.prems(2) fits]
    have r: "read_loop bs (Some (Suc i)) 0 (n - (b - k)) =
        Ret (take (n - (b - k)) (drop (Suc i * b + 0) (concat bs)), node_at b (length bs) (i * b + k + n))"
      unfolding addr(1) .
    have "take n (drop (i * b + k) (concat bs)) = take (b - k) (drop (i * b + k) (concat bs)) @
        take (n - (b - k)) (drop (Suc i * b + 0) (concat bs))"
      using take_add [of "b - k" "n - (b - k)" "drop (i * b + k) (concat bs)"] False Suc.prems(4)
      by (simp add: add.commute)
    also have "take (b - k) (drop (i * b + k) (concat bs)) = drop k (bs ! i)"
      using take_block [of b bs i k "b - k"] Suc.prems len by simp
    finally show ?thesis
      using Suc.prems(3,4) False i len r by (subst read_loop.simps) (auto simp: next_node_def Let_def)
  qed
qed

lemma seek_ok:
  assumes "uniform b bs" and "0 < b" and "i < length bs" and "i * b + v \<le> length bs * b"
  shows "seek bs (Some i) v = Ret (node_at b (length bs) (i * b + v))"
  using assms
proof (induction "length bs - i" arbitrary: i v)
  case 0
  then show ?case by simp
next
  case (Suc d)
  from Suc.prems have len: "length (bs ! i) = b" by (simp add: uniform_nth)
  show ?case
  proof (cases "v \<le> b")
    case True
    then show ?thesis
      using Suc.prems len node_at_end [of b i bs v] by (subst seek.simps) auto
  next
    case False
    have i: "Suc i < length bs"
    proof (rule ccontr)
      assume "\<not> Suc i < length bs"
      with Suc.prems(3) have "length bs = Suc i" by simp
      with Suc.prems(4) False show False by simp
    qed
    have addr: "Suc i * b + (v - b) = i * b + v" using False by simp
    have "d = length bs - Suc i" using Suc.hyps(2) by simp
    from Suc.hyps(1) [OF this Suc.prems(1,2) i, of "v - b"] Suc.prems(4)
    have "seek bs (Some (Suc i)) (v - b) = Ret (node_at b (length bs) (i * b + v))"
      unfolding addr by simp
    then show ?thesis
      using Suc.prems(3) False i len by (subst seek.simps) (auto simp: next_node_def)
  qed
qed

section \<open>Refinement to a flat sequence\<close>

text \<open>
  The abstract array is the sequence of the bytes in use and a position in it. Writing overwrites
  from the position on and appends what goes beyond the end; reading needs the bytes to be there.
\<close>

type_synonym flat = "byte list \<times> nat"

fun flat_write :: "byte list \<Rightarrow> flat \<Rightarrow> flat" where
  "flat_write buf (d, p) = (poke d p buf, p + length buf)"

fun flat_read :: "nat \<Rightarrow> flat \<Rightarrow> (byte list \<times> flat) option" where
  "flat_read n (d, p) = (if length d - p < n then None else Some (take n (drop p d), (d, p + n)))"

definition data :: "ByteArray \<Rightarrow> byte list" where
  "data s = take (size_used s) (concat (blocks s))"

definition view :: "ByteArray \<Rightarrow> flat" where
  "view s = (data s, position s)"

definition array_ok :: "ByteArray \<Rightarrow> bool" where
  "array_ok s \<longleftrightarrow> 0 < base_size s \<and> blocks s \<noteq> [] \<and> uniform (base_size s) (blocks s) \<and>
     capacity s = length (blocks s) * base_size s \<and> position s \<le> size_used s \<and> size_used s \<le> capacity s \<and>
     cur s = node_at (base_size s) (length (blocks s)) (position s)"

lemma length_data: "array_ok s \<Longrightarrow> length (data s) = size_used s"
  by (simp add: array_ok_def data_def length_concat_uniform [of "base_size s"])

lemma array_ok_new: "0 < b \<Longrightarrow> array_ok (new_array j b)"
  by (simp add: array_ok_def new_array_def new_node_def node_at_def)

lemma cur_cases:
  assumes "array_ok s"
  shows "position s < capacity s \<Longrightarrow> cur s = Some (position s div base_size s) \<and>
      position s div base_size s < length (blocks s)"
    and "position s = capacity s \<Longrightarrow> cur s = None"
  using assms by (auto simp: array_ok_def node_at_def div_less_iff_less_mult)

lemma uniform_new_nodes: "uniform b (map (\<lambda>k. new_node b j (a + k)) ks)"
  by (induction ks) (simp_all add: new_node_def)

lemma ceiling_enough: "0 < b \<Longrightarrow> n \<le> (n + b - 1) div b * b" for n b :: nat
  using div_mult_mod_eq [of "n + b - 1" b] mod_less_divisor [of b "n + b - 1"] by linarith

lemma addCapacity_ok:
  assumes ok: "array_ok s"
  shows "array_ok (addCapacity n s)" and "view (addCapacity n s) = view s"
    and "position s + n \<le> capacity (addCapacity n s)"
    and "little (addCapacity n s) = little s" "position (addCapacity n s) = position s"
      "size_used (addCapacity n s) = size_used s" "base_size (addCapacity n s) = base_size s"
proof -
  let ?b = "base_size s" and ?s = "addCapacity n s"
  show same: "little ?s = little s" "position ?s = position s" "size_used ?s = size_used s" "base_size ?s = ?b"
    by (auto simp: addCapacity_def Let_def)
  have "array_ok ?s \<and> view ?s = view s \<and> position s + n \<le> capacity ?s"
  proof (cases "n = 0 \<or> n \<le> getCapacity s")
    case True
    then have "?s = s" by (simp add: addCapacity_def)
    then show ?thesis using ok True by (auto simp: getCapacity_def array_ok_def)
  next
    case False
    define need where "need = n - getCapacity s"
    define cnt where "cnt = (need + ?b - 1) div ?b"
    define fresh where "fresh = map (\<lambda>k. new_node ?b (junk s) (allocs s + k)) [0..<cnt]"
    have s: "?s = s\<lparr>blocks := blocks s @ fresh, capacity := capacity s + cnt * ?b, allocs := allocs s + cnt,
        cur := (if getCapacity s = 0 then Some (length (blocks s)) else cur s)\<rparr>"
      using False by (simp add: addCapacity_def Let_def need_def cnt_def fresh_def)
    from ok have b: "0 < ?b" and cap: "capacity s = length (blocks s) * ?b" "position s \<le> capacity s"
      by (auto simp: array_ok_def)
    have fresh: "length fresh = cnt" "uniform ?b fresh" by (simp_all add: fresh_def uniform_new_nodes)
    have enough: "need \<le> cnt * ?b" unfolding cnt_def by (rule ceiling_enough [OF b])
    have "0 < need" using False by (simp add: need_def)
    then have "0 < cnt" using enough by (cases cnt) auto
    have c: "cur ?s = node_at ?b (length (blocks s) + cnt) (position s)"
    proof (cases "position s = capacity s")
      case True
      then show ?thesis using b \<open>0 < cnt\<close> cap by (simp add: s getCapacity_def node_at_def)
    next
      case False
      then show ?thesis using cur_cases(1) [OF ok] cap by (simp add: s getCapacity_def node_at_def)
    qed
    have "data ?s = data s"
      using ok by (simp add: data_def s array_ok_def length_concat_uniform [of ?b])
    moreover have "array_ok ?s"
      using ok fresh c by (simp add: array_ok_def s add_mult_distrib)
    moreover have "position s + n \<le> capacity ?s"
      using enough cap(2) by (simp add: s need_def getCapacity_def)
    ultimately show ?thesis by (simp add: view_def s)
  qed
  then show "array_ok ?s" "view ?s = view s" "position s + n \<le> capacity ?s" by blast+
qed

lemma take_poke:
  assumes "p \<le> n" and "n \<le> length xs" and "p + length ys \<le> length xs"
  shows "take (max n (p + length ys)) (poke xs p ys) = poke (take n xs) p ys"
proof (cases "n \<le> p + length ys")
  case True
  then show ?thesis using assms by (cases ys) (auto simp: poke_def max_def min_def)
next
  case False
  then show ?thesis using assms
    by (simp add: poke_def max_def min_def take_drop add.commute)
qed

lemma write_ok:
  assumes ok: "array_ok s"
  shows "\<exists>s'. write_bytes buf s = Ret (Some (), s') \<and> array_ok s' \<and> view s' = flat_write buf (view s) \<and>
    little s' = little s"
proof (cases "buf = []")
  case True
  then show ?thesis using ok by (simp add: write_bytes_def stateB_def view_def)
next
  case False
  define t where "t = addCapacity (length buf) s"
  note t = addCapacity_ok [OF ok, of "length buf", folded t_def]
  let ?b = "base_size t" and ?p = "position t"
  from t(1) have b: "0 < ?b" "uniform ?b (blocks t)" "capacity t = length (blocks t) * ?b"
    "?p \<le> size_used t" "size_used t \<le> capacity t" by (auto simp: array_ok_def)
  have room: "?p + length buf \<le> capacity t" using t(3,5) by simp
  then have "?p < capacity t" using False by (cases buf) auto
  from cur_cases(1) [OF t(1) this] have c: "cur t = Some (?p div ?b)" "?p div ?b < length (blocks t)" by auto
  have addr: "?p div ?b * ?b + ?p mod ?b = ?p" by simp
  obtain bs where
    w: "write_loop (blocks t) (cur t) (?p mod ?b) buf =
      Ret (bs, node_at ?b (length (blocks t)) (?p + length buf))"
    and bs: "length bs = length (blocks t)" "uniform ?b bs" "concat bs = poke (concat (blocks t)) ?p buf"
    using write_loop_ok [OF b(2,1) c(2), of "?p mod ?b" buf] room b(1,3) unfolding c(1) addr by auto
  let ?s = "t\<lparr>blocks := bs, cur := node_at ?b (length (blocks t)) (?p + length buf),
    position := ?p + length buf, size_used := max (size_used t) (?p + length buf)\<rparr>"
  have "write_bytes buf s = Ret (Some (), ?s)"
    using False w by (simp add: write_bytes_def stateB_def Let_def t_def)
  moreover have "array_ok ?s"
    using t(1) bs(1,2) room by (auto simp: array_ok_def)
  moreover have "data ?s = poke (data t) ?p buf"
    using take_poke [OF b(4), of "concat (blocks t)" buf] b(2,3,5) room
    by (simp add: data_def bs(3) length_concat_uniform [of ?b])
  moreover have "data t = data s" using t(2) by (simp add: view_def)
  ultimately show ?thesis using t(4,5) by (intro exI [of _ ?s]) (simp add: view_def)
qed

lemma read_ok:
  assumes ok: "array_ok s" and n: "0 < n \<or> position s < capacity s"
  shows "case flat_read n (view s) of
      None \<Rightarrow> read_bytes n s = Ret (None, s)
    | Some (out, v) \<Rightarrow> \<exists>s'. read_bytes n s = Ret (Some out, s') \<and> array_ok s' \<and> view s' = v \<and>
        little s' = little s \<and> capacity s' = capacity s"
proof (cases "size_used s - position s < n")
  case True
  then show ?thesis by (simp add: view_def length_data [OF ok] read_bytes_def getReadSize_def)
next
  case False
  let ?b = "base_size s" and ?p = "position s"
  from ok have b: "0 < ?b" "uniform ?b (blocks s)" "capacity s = length (blocks s) * ?b"
    "?p \<le> size_used s" "size_used s \<le> capacity s" by (auto simp: array_ok_def)
  have room: "?p + n \<le> size_used s" using False b(4) by simp
  then have "?p < capacity s" using n b(5) by auto
  from cur_cases(1) [OF ok this] have c: "cur s = Some (?p div ?b)" "?p div ?b < length (blocks s)" by auto
  have addr: "?p div ?b * ?b + ?p mod ?b = ?p" by simp
  have fits: "?p + n \<le> length (blocks s) * ?b" using room b(3,5) by simp
  have r: "read_loop (blocks s) (cur s) (?p mod ?b) n =
      Ret (take n (drop ?p (concat (blocks s))), node_at ?b (length (blocks s)) (?p + n))"
    using read_loop_ok [OF b(2,1) c(2), of "?p mod ?b" n] fits b(1) unfolding c(1) addr by simp
  let ?s = "s\<lparr>position := ?p + n, cur := node_at ?b (length (blocks s)) (?p + n)\<rparr>"
  have "take n (drop ?p (concat (blocks s))) = take n (drop ?p (data s))"
    using room by (simp add: data_def drop_take min_def)
  then have "read_bytes n s = Ret (Some (take n (drop ?p (data s))), ?s)"
    using False r by (simp add: read_bytes_def getReadSize_def)
  moreover have "array_ok ?s" using ok room by (simp add: array_ok_def)
  moreover have "data ?s = data s" by (simp add: data_def)
  ultimately show ?thesis using False by (simp add: view_def length_data [OF ok])
qed

lemma setPosition_ok:
  assumes ok: "array_ok s" and v: "v \<le> size_used s"
  shows "\<exists>s'. setPosition v s = Ret (Some (), s') \<and> array_ok s' \<and> view s' = (data s, v) \<and>
    little s' = little s \<and> capacity s' = capacity s"
proof -
  let ?b = "base_size s"
  from ok have b: "0 < ?b" "uniform ?b (blocks s)" "capacity s = length (blocks s) * ?b"
    "size_used s \<le> capacity s" "blocks s \<noteq> []" by (auto simp: array_ok_def)
  have "seek (blocks s) (Some 0) v = Ret (node_at ?b (length (blocks s)) v)"
    using seek_ok [OF b(2,1), of 0 v] b v by simp
  moreover have "\<not> capacity s < v" "max (size_used s) v = size_used s" using v b(4) by auto
  ultimately show ?thesis using ok v by (auto simp: setPosition_def array_ok_def view_def data_def)
qed

lemma clear_ok:
  assumes "array_ok s"
  shows "\<exists>s'. clear s = Ret (Some (), s') \<and> array_ok s' \<and> view s' = ([], 0) \<and> little s' = little s"
  using assms by (cases "blocks s") (auto simp: clear_def stateB_def array_ok_def view_def data_def node_at_def)

lemma toString_ok:
  assumes ok: "array_ok s" and fits: "size_used s < 2 ^ 64"
  shows "toString s = Ret (Some (drop (position s) (data s)), s)"
proof (cases "getReadSize s = 0")
  case True
  with ok show ?thesis
    by (simp add: toString_def getReadSize_def length_data [OF ok])
next
  case False
  let ?b = "base_size s" and ?p = "position s" and ?n = "size_used s - position s"
  from ok have b: "0 < ?b" "uniform ?b (blocks s)" "capacity s = length (blocks s) * ?b"
    "?p \<le> size_used s" "size_used s \<le> capacity s" by (auto simp: array_ok_def)
  from False b(5) have "?p < capacity s" by (simp add: getReadSize_def)
  from cur_cases(1) [OF ok this] have c: "cur s = Some (?p div ?b)" "?p div ?b < length (blocks s)" by auto
  have addr: "?p div ?b * ?b + ?p mod ?b = ?p" by simp
  have "read_loop (blocks s) (cur s) (?p mod ?b) ?n =
      Ret (take ?n (drop ?p (concat (blocks s))), node_at ?b (length (blocks s)) (?p + ?n))"
  proof -
    have "?p + ?n \<le> length (blocks s) * ?b" using b(3,4,5) by simp
    then show ?thesis
      using read_loop_ok [OF b(2,1) c(2), of "?p mod ?b" ?n] mod_less_divisor [OF b(1), of ?p]
      unfolding c(1) addr by (simp only:)
  qed
  moreover have "nat ((int (size_used s) - int ?p) mod 2 ^ 64) = ?n"
  proof -
    have eq: "int (size_used s) - int ?p = int ?n" using b(4) by simp
    have "nat (int m mod 2 ^ 64) = m" if "m < 2 ^ 64" for m using that by simp
    moreover have "?n < 2 ^ 64" using fits by simp
    ultimately have "nat (int ?n mod 2 ^ 64) = ?n" by blast
    then show ?thesis unfolding eq .
  qed
  ultimately show ?thesis
    using False b(4) by (simp add: toString_def read_at_def getReadSize_def data_def drop_take)
qed

text \<open>What a list of regions covers.\<close>

definition gather :: "byte list list \<Rightarrow> iovec list \<Rightarrow> byte list" where
  "gather bs v = concat (map (\<lambda>(i, off, n). take n (drop off (bs ! i))) v)"

definition region_size :: "iovec list \<Rightarrow> nat" where
  "region_size v = sum_list (map (\<lambda>(i, off, n). n) v)"

lemma region_simps [simp]:
  "gather bs [] = []" "gather bs ((i, off, n) # v) = take n (drop off (bs ! i)) @ gather bs v"
  "region_size [] = 0" "region_size ((i, off, n) # v) = n + region_size v"
  by (simp_all add: gather_def region_size_def)

lemma buffers_ok:
  assumes "uniform b bs" and "0 < b" and "i < length bs" and "k < b"
    and "i * b + k + n \<le> length bs * b"
  shows "\<exists>v. buffers_loop bs (Some i) k n = Ret v \<and> gather bs v = take n (drop (i * b + k) (concat bs)) \<and>
    region_size v = n"
  using assms
proof (induction "length bs - i" arbitrary: i k n)
  case 0
  then show ?case by simp
next
  case (Suc d)
  from Suc.prems have len: "length (bs ! i) = b" by (simp add: uniform_nth)
  show ?case
  proof (cases "k + n \<le> b")
    case True
    then show ?thesis
      using Suc.prems len take_block [of b bs i k n] by (subst buffers_loop.simps) (auto simp: Let_def)
  next
    case False
    have i: "Suc i < length bs"
    proof (rule ccontr)
      assume "\<not> Suc i < length bs"
      with Suc.prems(3) have "length bs = Suc i" by simp
      with Suc.prems(5) False show False by simp
    qed
    have addr: "Suc i * b + 0 + (n - (b - k)) = i * b + k + n" using Suc.prems(4) False by simp
    have "d = length bs - Suc i" using Suc.hyps(2) by simp
    from Suc.hyps(1) [OF this Suc.prems(1,2) i Suc.prems(2), of "n - (b - k)"] Suc.prems(5)
    obtain v where v: "buffers_loop bs (Some (Suc i)) 0 (n - (b - k)) = Ret v"
      "gather bs v = take (n - (b - k)) (drop (Suc i * b + 0) (concat bs))" "region_size v = n - (b - k)"
      unfolding addr by blast
    have "take n (drop (i * b + k) (concat bs)) = take (b - k) (drop (i * b + k) (concat bs)) @
        take (n - (b - k)) (drop (Suc i * b + 0) (concat bs))"
      using take_add [of "b - k" "n - (b - k)" "drop (i * b + k) (concat bs)"] False Suc.prems(4)
      by (simp add: add.commute)
    moreover have "take (b - k) (drop (i * b + k) (concat bs)) = take (b - k) (drop k (bs ! i))"
      using take_block [of b bs i k "b - k"] Suc.prems len by simp
    ultimately show ?thesis
      using Suc.prems(3,4) False i len v by (subst buffers_loop.simps) (auto simp: next_node_def Let_def)
  qed
qed

lemma buffers_at_position:
  assumes ok: "array_ok s" and n: "0 < n" "position s + n \<le> capacity s"
  shows "\<exists>v. buffers_loop (blocks s) (cur s) (position s mod base_size s) n = Ret v \<and>
    gather (blocks s) v = take n (drop (position s) (concat (blocks s))) \<and> region_size v = n"
proof -
  let ?b = "base_size s" and ?p = "position s"
  from ok have b: "0 < ?b" "uniform ?b (blocks s)" "capacity s = length (blocks s) * ?b"
    by (auto simp: array_ok_def)
  have "?p < capacity s" using n by simp
  from cur_cases(1) [OF ok this] have c: "cur s = Some (?p div ?b)" "?p div ?b < length (blocks s)" by auto
  have addr: "?p div ?b * ?b + ?p mod ?b = ?p" by simp
  show ?thesis
    using buffers_ok [OF b(2,1) c(2), of "?p mod ?b" n] n(2) b(1,3) unfolding c(1) addr by simp
qed

text \<open>Writing a file from the start of a block, and reading one.\<close>

lemma write_file_ok:
  assumes "uniform b bs" and "0 < b" and "int i * int b + n \<le> int (length bs) * int b" and "0 \<le> n"
    and "n = 0 \<or> i < length bs"
  shows "write_file_loop bs b (if i < length bs then Some i else None) (int i * int b) n True =
    Ret (take (nat n) (drop (i * b) (concat bs)))"
  using assms
proof (induction "length bs - i" arbitrary: i n)
  case 0
  then show ?case by (subst write_file_loop.simps) simp
next
  case (Suc d)
  from Suc.hyps(2) have i: "i < length bs" by simp
  from Suc.prems have len: "length (bs ! i) = b" using i by (simp add: uniform_nth)
  show ?case
  proof (cases "n = 0")
    case True
    then show ?thesis by (subst write_file_loop.simps) simp
  next
    case False
    define m where "m = (if n > int b then int b else n)"
    have m: "0 < m" "m \<le> int b" "m \<le> n" using False Suc.prems(2,4) by (auto simp: m_def)
    have step: "write_file_loop bs b (Some i) (int i * int b) n True =
        bindO (write_file_loop bs b (next_node bs i) (int i * int b + m) (n - m) True)
          (\<lambda>out. Ret (take (nat m) (bs ! i) @ out))"
      using False Suc.prems(4) i m by (subst write_file_loop.simps) (simp add: Let_def m_def)
    have "take (nat m) (drop (i * b) (concat bs)) = take (nat m) (bs ! i)"
      using take_block [OF Suc.prems(1) i, of 0 "nat m"] m by simp
    then have head: "take (nat n) (drop (i * b) (concat bs)) =
        take (nat m) (bs ! i) @ take (nat n - nat m) (drop (nat m) (drop (i * b) (concat bs)))"
      using take_add [of "nat m" "nat n - nat m" "drop (i * b) (concat bs)"] m by simp
    show ?thesis
    proof (cases "n - m = 0")
      case True
      then have "write_file_loop bs b c p (n - m) True = Ret []" for c p
        by (subst write_file_loop.simps) simp
      with step head True i m show ?thesis by simp
    next
      case False
      then have mb: "m = int b" by (auto simp: m_def split: if_splits)
      have i2: "Suc i < length bs"
      proof (rule ccontr)
        assume "\<not> Suc i < length bs"
        with i have "length bs = Suc i" by simp
        with Suc.prems(3) False mb m(3) show False by (simp add: algebra_simps)
      qed
      have "write_file_loop bs b (if Suc i < length bs then Some (Suc i) else None) (int (Suc i) * int b) (n - m) True =
          Ret (take (nat (n - m)) (drop (Suc i * b) (concat bs)))"
        by (rule Suc.hyps(1)) (use Suc.hyps(2) Suc.prems mb i2 m in \<open>auto simp: algebra_simps\<close>)
      moreover have "int (Suc i) * int b = int i * int b + m" by (simp add: mb algebra_simps)
      moreover have "nat (n - m) = nat n - nat m" using m by simp
      moreover have "Suc i * b = i * b + nat m" by (simp add: mb)
      ultimately show ?thesis using step head i i2 by (simp add: next_node_def add.commute)
    qed
  qed
qed

lemma concat_file_chunks: "concat (file_chunks b xs) = xs"
proof (induction b xs rule: file_chunks.induct)
  case (1 b xs)
  then show ?case by (simp add: file_chunks.simps [of b xs])
qed

lemma write_chunks_ok:
  "array_ok s \<Longrightarrow> \<exists>s'. write_chunks cs s = Ret (Some (), s') \<and> array_ok s' \<and>
     view s' = flat_write (concat cs) (view s) \<and> little s' = little s"
proof (induction cs arbitrary: s)
  case Nil
  then show ?case by (simp add: retB_def view_def)
next
  case (Cons c cs)
  from write_ok [OF Cons.prems, of c] obtain s1 where s1: "write_bytes c s = Ret (Some (), s1)"
    "array_ok s1" "view s1 = flat_write c (view s)" "little s1 = little s" by blast
  from Cons.IH [OF s1(2)] obtain s2 where s2: "write_chunks cs s1 = Ret (Some (), s2)"
    "array_ok s2" "view s2 = flat_write (concat cs) (view s1)" "little s2 = little s1" by blast
  have "position s \<le> length (data s)"
    using Cons.prems length_data [OF Cons.prems] by (simp add: array_ok_def)
  then have "flat_write (concat cs) (flat_write c (view s)) = flat_write (c @ concat cs) (view s)"
    by (simp add: view_def poke_def ac_simps)
  with s1 s2 show ?case by (simp add: bindB_def)
qed

section \<open>Properties\<close>

text \<open>
  C6. The linked blocks are a flat sequence of bytes. On every array in order, writing never fails
  and overwrites or appends at the position; reading one byte or more returns the bytes at the
  position, or throws and changes nothing when there are not enough; moving to a position inside the
  data or at its end, clearing, and turning the rest into a string when the data are shorter than \<^verbatim>\<open>2^64\<close>
  bytes do what they do on the flat sequence; and each leaves the array in order.
\<close>

theorem byte_array_refines:
  assumes "array_ok s"
  shows "(\<exists>s'. write_bytes buf s = Ret (Some (), s') \<and> array_ok s' \<and> view s' = flat_write buf (view s)) \<and>
    (case flat_read (Suc n) (view s) of
       None \<Rightarrow> read_bytes (Suc n) s = Ret (None, s)
     | Some (out, v) \<Rightarrow> \<exists>s'. read_bytes (Suc n) s = Ret (Some out, s') \<and> array_ok s' \<and> view s' = v) \<and>
    (p \<le> length (data s) \<longrightarrow>
       (\<exists>s'. setPosition p s = Ret (Some (), s') \<and> array_ok s' \<and> view s' = (data s, p))) \<and>
    (\<exists>s'. clear s = Ret (Some (), s') \<and> array_ok s' \<and> view s' = ([], 0)) \<and>
    (length (data s) < 2 ^ 64 \<longrightarrow> toString s = Ret (Some (drop (position s) (data s)), s))"
proof (intro conjI impI)
  show "\<exists>s'. write_bytes buf s = Ret (Some (), s') \<and> array_ok s' \<and> view s' = flat_write buf (view s)"
    using write_ok [OF assms] by blast
  show "case flat_read (Suc n) (view s) of
       None \<Rightarrow> read_bytes (Suc n) s = Ret (None, s)
     | Some (out, v) \<Rightarrow> \<exists>s'. read_bytes (Suc n) s = Ret (Some out, s') \<and> array_ok s' \<and> view s' = v"
    using read_ok [OF assms, of "Suc n"] by (auto split: option.splits)
  show "\<exists>s'. setPosition p s = Ret (Some (), s') \<and> array_ok s' \<and> view s' = (data s, p)"
    if "p \<le> length (data s)"
    using setPosition_ok [OF assms, of p] that by (auto simp: length_data [OF assms])
  show "\<exists>s'. clear s = Ret (Some (), s') \<and> array_ok s' \<and> view s' = ([], 0)"
    using clear_ok [OF assms] by blast
  show "toString s = Ret (Some (drop (position s) (data s)), s)" if "length (data s) < 2 ^ 64"
    using toString_ok [OF assms] that by (simp add: length_data [OF assms])
qed

theorem byte_array_refines_witness:
  "\<exists>s'. write_bytes [1, 2, 3] (new_array (\<lambda>k j. 0) 2) = Ret (Some (), s') \<and> array_ok s' \<and> view s' = ([1, 2, 3], 3)"
proof -
  have ok: "array_ok (new_array (\<lambda>k j. 0) 2)" by (rule array_ok_new) simp
  have "view (new_array (\<lambda>k j. 0) 2) = ([], 0)" by (simp add: view_def data_def new_array_def)
  with byte_array_refines [OF ok, of "[1, 2, 3]" 0 0] show ?thesis by (simp add: poke_def numeral_3_eq_3)
qed

text \<open>
  Vectored I/O covers exactly the data. The regions for reading hold the next bytes in order, as
  many as asked for or are there; the regions for writing lie from the position on, have together the
  length asked for, and making them changes neither the data nor the position.
\<close>

theorem buffers_cover:
  assumes ok: "array_ok s"
  shows "(\<exists>v. getReadBuffers n s = Ret (Some (min n (length (data s) - position s), v), s) \<and>
      gather (blocks s) v = take n (drop (position s) (data s))) \<and>
    (\<exists>v s'. getWriteBuffers n s = Ret (Some (n, v), s') \<and> array_ok s' \<and> view s' = view s \<and>
      region_size v = n \<and> gather (blocks s') v = take n (drop (position s) (concat (blocks s'))))"
proof
  let ?m = "min n (getReadSize s)"
  have len: "length (data s) = size_used s" "position s \<le> size_used s" "size_used s \<le> capacity s"
    using length_data [OF ok] ok by (auto simp: array_ok_def)
  show "\<exists>v. getReadBuffers n s = Ret (Some (min n (length (data s) - position s), v), s) \<and>
      gather (blocks s) v = take n (drop (position s) (data s))"
  proof (cases "?m = 0")
    case True
    with len have "take n (drop (position s) (data s)) = []" by (auto simp: getReadSize_def min_def split: if_splits)
    with True len show ?thesis by (simp add: getReadBuffers_def getReadSize_def)
  next
    case False
    then have "0 < ?m" "position s + ?m \<le> capacity s" using len by (auto simp: getReadSize_def)
    from buffers_at_position [OF ok this] obtain v where
      v: "buffers_loop (blocks s) (cur s) (position s mod base_size s) ?m = Ret v"
      "gather (blocks s) v = take ?m (drop (position s) (concat (blocks s)))" by blast
    have "take ?m (drop (position s) (concat (blocks s))) = take n (drop (position s) (data s))"
      by (simp add: data_def getReadSize_def drop_take min.commute)
    with v False len show ?thesis
      by (simp add: getReadBuffers_def Let_def) (simp add: getReadSize_def)
  qed
  let ?t = "addCapacity n s"
  note t = addCapacity_ok [OF ok, of n]
  show "\<exists>v s'. getWriteBuffers n s = Ret (Some (n, v), s') \<and> array_ok s' \<and> view s' = view s \<and>
      region_size v = n \<and> gather (blocks s') v = take n (drop (position s) (concat (blocks s')))"
  proof (cases "n = 0")
    case True
    then show ?thesis using ok by (intro exI [of _ "[]"] exI [of _ s]) (simp add: getWriteBuffers_def)
  next
    case False
    then have "0 < n" "position ?t + n \<le> capacity ?t" using t by auto
    from buffers_at_position [OF t(1) this] obtain v where
      "buffers_loop (blocks ?t) (cur ?t) (position ?t mod base_size ?t) n = Ret v"
      "gather (blocks ?t) v = take n (drop (position ?t) (concat (blocks ?t)))" "region_size v = n" by blast
    with False t show ?thesis
      by (intro exI [of _ v] exI [of _ ?t]) (simp add: getWriteBuffers_def Let_def)
  qed
qed

theorem buffers_cover_witness:
  "\<exists>v s'. getWriteBuffers 5 (new_array (\<lambda>k j. 0) 2) = Ret (Some (5, v), s') \<and> region_size v = 5"
proof -
  have "array_ok (new_array (\<lambda>k j. 0) 2)" by (rule array_ok_new) simp
  from buffers_cover [OF this, of 5] show ?thesis by blast
qed

text \<open>
  Files. From a position at the start of a block, writing to a file writes exactly the rest of the
  data, and reading that file into any array in order appends or overwrites exactly these bytes.
\<close>

theorem file_roundtrip:
  assumes "array_ok s" and "position s mod base_size s = 0" and "array_ok t"
  shows "\<exists>t'. writeToFile True s = Ret (Some (drop (position s) (data s))) \<and>
    readFromFile (Some (drop (position s) (data s))) t = Ret (Some True, t') \<and> array_ok t' \<and>
    view t' = flat_write (drop (position s) (data s)) (view t)"
proof -
  let ?b = "base_size s" and ?p = "position s" and ?n = "size_used s - position s"
  define i where "i = ?p div ?b"
  from assms(1) have b: "0 < ?b" "uniform ?b (blocks s)" "capacity s = length (blocks s) * ?b"
    "?p \<le> size_used s" "size_used s \<le> capacity s" "cur s = node_at ?b (length (blocks s)) ?p"
    by (auto simp: array_ok_def)
  have p: "?p = i * ?b" using assms(2) by (auto simp: i_def)
  have c: "cur s = (if i < length (blocks s) then Some i else None)"
    using b(6) by (simp add: node_at_def i_def)
  have fits: "?p + ?n \<le> length (blocks s) * ?b" using b(3,4,5) by simp
  then have "int i * int ?b + int ?n \<le> int (length (blocks s)) * int ?b"
    unfolding p by (metis of_nat_add of_nat_le_iff of_nat_mult)
  moreover have "int ?n = 0 \<or> i < length (blocks s)"
  proof (cases "?n = 0")
    case False
    then have "i * ?b < length (blocks s) * ?b" using fits p by linarith
    then show ?thesis by simp
  qed simp
  ultimately have "write_file_loop (blocks s) ?b (cur s) (int i * int ?b) (int ?n) True =
      Ret (take ?n (drop (i * ?b) (concat (blocks s))))"
    using write_file_ok [OF b(2,1), of i "int ?n"] c by simp
  moreover have "take ?n (drop ?p (concat (blocks s))) = drop ?p (data s)"
    by (simp add: data_def drop_take)
  moreover have "int ?p = int i * int ?b" using p by (metis of_nat_mult)
  ultimately have w: "writeToFile True s = Ret (Some (drop ?p (data s)))"
    by (simp add: writeToFile_def getReadSize_def p [symmetric])
  from write_chunks_ok [OF assms(3), of "file_chunks (base_size t) (drop ?p (data s))"] w
  show ?thesis
    by (auto simp: readFromFile_def bindB_def retB_def concat_file_chunks)
qed

theorem file_roundtrip_witness:
  "\<exists>t'. writeToFile True (new_array (\<lambda>k j. 0) 4) = Ret (Some []) \<and>
     readFromFile (Some []) (new_array (\<lambda>k j. 1) 8) = Ret (Some True, t')"
proof -
  have ok: "array_ok (new_array (\<lambda>k j. 0) 4)" "array_ok (new_array (\<lambda>k j. 1) 8)"
    by (rule array_ok_new, simp)+
  have "data (new_array (\<lambda>k j. 0) 4) = []" by (simp add: data_def new_array_def)
  moreover have "position (new_array (\<lambda>k j. 0) 4) mod base_size (new_array (\<lambda>k j. 0) 4) = 0"
    by (simp add: new_array_def)
  ultimately show ?thesis using file_roundtrip [OF ok(1) _ ok(2)] by auto
qed

text \<open>
  Writing a file from the middle of a block goes wrong: the length of the first piece is the amount
  of data less the offset. With one block and a position strictly inside the data the loop runs off
  the last node and dereferences a null pointer.
\<close>

theorem file_from_the_middle:
  assumes ok: "array_ok s" and one: "length (blocks s) = 1" and p: "0 < position s" "position s < size_used s"
  shows "writeToFile True s = Fault NullPointer"
proof -
  let ?b = "base_size s" and ?p = "position s"
  from ok one have b: "0 < ?b" "size_used s \<le> ?b" by (auto simp: array_ok_def)
  with p have lt: "?p < ?b" by simp
  then have c: "cur s = Some 0" using ok one by (simp add: array_ok_def node_at_def)
  have last: "write_file_loop (blocks s) ?b None q n good = Fault NullPointer" if "0 < n" for q n good
    using that by (subst write_file_loop.simps) simp
  have "\<not> int (size_used s - ?p) > int ?b" using b(2) by simp
  moreover have "int ?p mod int ?b = int ?p" using lt by simp
  ultimately show ?thesis
    using c one p last unfolding writeToFile_def getReadSize_def
    by (subst write_file_loop.simps) (simp add: next_node_def Let_def)
qed

theorem file_from_the_middle_witness:
  "\<exists>s. array_ok s \<and> view s = ([1, 2, 3], 1) \<and> writeToFile True s = Fault NullPointer"
proof -
  let ?s = "\<lparr>base_size = 4, position = 1, capacity = 4, size_used = 3, little = False,
    blocks = [[1, 2, 3, 0]], cur = Some 0, junk = \<lambda>k j. 0, allocs = 1\<rparr>"
  have "array_ok ?s" by (simp add: array_ok_def node_at_def)
  moreover from this have "writeToFile True ?s = Fault NullPointer"
    by (rule file_from_the_middle) simp_all
  moreover have "view ?s = ([1, 2, 3], 1)" by (simp add: view_def data_def)
  ultimately show ?thesis by blast
qed

end
