(* ===== verification/ByteStream.thy ===== *)
theory ByteStream
  imports ByteArray
begin

text \<open>
  \<open>ancfl/bytearray.cc\<close>: typed reading and writing (fixed width integers in either byte order,
  variable width integers, zigzag, floats, strings). Each pair of operations is a codec over the flat
  sequence of bytes, and codecs compose. The parameter \<open>host\<close> of the operations says whether the
  machine is little endian.
\<close>

unbundle bit_operations_syntax

section \<open>Typed reading and writing\<close>

definition write_fixed :: "bool \<Rightarrow> nat \<Rightarrow> nat \<Rightarrow> unit bop" where
  "write_fixed host n v s =
     write_bytes (in_order host (le_bytes n (if little s = host then v else byteswap n v))) s"

definition read_fixed :: "bool \<Rightarrow> nat \<Rightarrow> nat bop" where
  "read_fixed host n = bindB (read_bytes n) (\<lambda>bs s.
     let v = le_value (in_order host bs) in Ret (Some (if little s = host then v else byteswap n v), s))"

definition to_signed :: "nat \<Rightarrow> nat \<Rightarrow> int" where
  "to_signed w v = (int v + 2 ^ (w - 1)) mod 2 ^ w - 2 ^ (w - 1)"

definition to_unsigned :: "nat \<Rightarrow> int \<Rightarrow> nat" where
  "to_unsigned w v = nat (v mod 2 ^ w)"

definition writeFint8 :: "int \<Rightarrow> unit bop" where
  "writeFint8 v = write_bytes [word_of_int v]"

definition writeFuint8 :: "byte \<Rightarrow> unit bop" where
  "writeFuint8 v = write_bytes [v]"

definition writeFint16 :: "bool \<Rightarrow> int \<Rightarrow> unit bop" where
  "writeFint16 host v = write_fixed host 2 (to_unsigned 16 v)"

definition writeFuint16 :: "bool \<Rightarrow> 16 word \<Rightarrow> unit bop" where
  "writeFuint16 host v = write_fixed host 2 (unat v)"

definition writeFint32 :: "bool \<Rightarrow> int \<Rightarrow> unit bop" where
  "writeFint32 host v = write_fixed host 4 (to_unsigned 32 v)"

definition writeFuint32 :: "bool \<Rightarrow> 32 word \<Rightarrow> unit bop" where
  "writeFuint32 host v = write_fixed host 4 (unat v)"

definition writeFint64 :: "bool \<Rightarrow> int \<Rightarrow> unit bop" where
  "writeFint64 host v = write_fixed host 8 (to_unsigned 64 v)"

definition writeFuint64 :: "bool \<Rightarrow> 64 word \<Rightarrow> unit bop" where
  "writeFuint64 host v = write_fixed host 8 (unat v)"

definition readFint8 :: "int bop" where
  "readFint8 = bindB (read_bytes 1) (\<lambda>bs. retB (to_signed 8 (unat (hd bs))))"

definition readFuint8 :: "byte bop" where
  "readFuint8 = bindB (read_bytes 1) (\<lambda>bs. retB (hd bs))"

definition readFint16 :: "bool \<Rightarrow> int bop" where
  "readFint16 host = bindB (read_fixed host 2) (\<lambda>v. retB (to_signed 16 v))"

definition readFuint16 :: "bool \<Rightarrow> 16 word bop" where
  "readFuint16 host = bindB (read_fixed host 2) (\<lambda>v. retB (word_of_nat v))"

definition readFint32 :: "bool \<Rightarrow> int bop" where
  "readFint32 host = bindB (read_fixed host 4) (\<lambda>v. retB (to_signed 32 v))"

definition readFuint32 :: "bool \<Rightarrow> 32 word bop" where
  "readFuint32 host = bindB (read_fixed host 4) (\<lambda>v. retB (word_of_nat v))"

definition readFint64 :: "bool \<Rightarrow> int bop" where
  "readFint64 host = bindB (read_fixed host 8) (\<lambda>v. retB (to_signed 64 v))"

definition readFuint64 :: "bool \<Rightarrow> 64 word bop" where
  "readFuint64 host = bindB (read_fixed host 8) (\<lambda>v. retB (word_of_nat v))"

text \<open>Floating point values are their bit patterns, copied by \<^verbatim>\<open>memcpy\<close>.\<close>

definition writeFloat :: "bool \<Rightarrow> 32 word \<Rightarrow> unit bop" where
  "writeFloat host v = writeFuint32 host v"

definition writeDouble :: "bool \<Rightarrow> 64 word \<Rightarrow> unit bop" where
  "writeDouble host v = writeFuint64 host v"

definition readFloat :: "bool \<Rightarrow> 32 word bop" where
  "readFloat host = readFuint32 host"

definition readDouble :: "bool \<Rightarrow> 64 word bop" where
  "readDouble host = readFuint64 host"

text \<open>
  Zigzag: \<^verbatim>\<open>-v\<close> and \<^verbatim>\<open>v * 2\<close> are computed in the signed type, so they overflow (undefined) for the
  smallest number and for the upper half of the positive ones.
\<close>

definition in_i64 :: "int \<Rightarrow> bool" where
  "in_i64 x \<longleftrightarrow> - (2 ^ 63) \<le> x \<and> x < 2 ^ 63"

definition EncodeZigzag32 :: "int \<Rightarrow> 32 word outcome" where
  "EncodeZigzag32 v =
     (if v < 0 then bindO (sub32 0 v) (\<lambda>m. Ret (word_of_int m * 2 - 1))
      else bindO (mul32 v 2) (\<lambda>d. Ret (word_of_int d)))"

definition EncodeZigzag64 :: "int \<Rightarrow> 64 word outcome" where
  "EncodeZigzag64 v =
     (if v < 0 then if in_i64 (- v) then Ret (word_of_int (- v) * 2 - 1) else Fault SignedOverflow
      else if in_i64 (v * 2) then Ret (word_of_int (v * 2)) else Fault SignedOverflow)"

definition DecodeZigzag32 :: "32 word \<Rightarrow> int" where
  "DecodeZigzag32 v = to_signed 32 (unat (drop_bit 1 v XOR - (v AND 1)))"

definition DecodeZigzag64 :: "64 word \<Rightarrow> int" where
  "DecodeZigzag64 v = to_signed 64 (unat (drop_bit 1 v XOR - (v AND 1)))"

text \<open>
  Variable width: seven bits to a byte, the high bit marks that more follow. The bytes go to an
  array on the stack of five or ten bytes, \<open>cap\<close>.
\<close>

function put_varint :: "nat \<Rightarrow> byte list \<Rightarrow> 'a::len word \<Rightarrow> byte list outcome" where
  "put_varint cap tmp v =
     (if cap \<le> length tmp then Fault OutOfRange
      else if v < 0x80 then Ret (tmp @ [ucast v])
      else put_varint cap (tmp @ [ucast ((v AND 0x7F) OR 0x80)]) (drop_bit 7 v))"
  by pat_completeness auto
termination
  by (relation "measure (\<lambda>(cap, tmp, v). cap - length tmp)") auto

declare put_varint.simps [simp del]

definition writeUint32 :: "32 word \<Rightarrow> unit bop" where
  "writeUint32 v = bindB (liftB (put_varint 5 [] v)) write_bytes"

definition writeUint64 :: "64 word \<Rightarrow> unit bop" where
  "writeUint64 v = bindB (liftB (put_varint 10 [] v)) write_bytes"

definition writeInt32 :: "int \<Rightarrow> unit bop" where
  "writeInt32 v = bindB (liftB (EncodeZigzag32 v)) writeUint32"

definition writeInt64 :: "int \<Rightarrow> unit bop" where
  "writeInt64 v = bindB (liftB (EncodeZigzag64 v)) writeUint64"

fun get_varint :: "nat list \<Rightarrow> 'a::len word \<Rightarrow> 'a word bop" where
  "get_varint [] r = retB r"
| "get_varint (i # is) r = bindB readFuint8 (\<lambda>b.
     if b < 0x80 then retB (r OR push_bit i (ucast b))
     else get_varint is (r OR push_bit i (ucast (b AND 0x7F))))"

definition readUint32 :: "32 word bop" where
  "readUint32 = get_varint [0, 7, 14, 21, 28] 0"

definition readUint64 :: "64 word bop" where
  "readUint64 = get_varint [0, 7, 14, 21, 28, 35, 42, 49, 56, 63] 0"

definition readInt32 :: "int bop" where
  "readInt32 = bindB readUint32 (\<lambda>v. retB (DecodeZigzag32 v))"

definition readInt64 :: "int bop" where
  "readInt64 = bindB readUint64 (\<lambda>v. retB (DecodeZigzag64 v))"

text \<open>Strings: a length, converted to the width of its field, and the bytes.\<close>

definition writeStringF16 :: "bool \<Rightarrow> byte list \<Rightarrow> unit bop" where
  "writeStringF16 host str = bindB (writeFuint16 host (word_of_nat (length str))) (\<lambda>_. write_bytes str)"

definition writeStringF32 :: "bool \<Rightarrow> byte list \<Rightarrow> unit bop" where
  "writeStringF32 host str = bindB (writeFuint32 host (word_of_nat (length str))) (\<lambda>_. write_bytes str)"

definition writeStringF64 :: "bool \<Rightarrow> byte list \<Rightarrow> unit bop" where
  "writeStringF64 host str = bindB (writeFuint64 host (word_of_nat (length str))) (\<lambda>_. write_bytes str)"

definition writeStringVint :: "byte list \<Rightarrow> unit bop" where
  "writeStringVint str = bindB (writeUint64 (word_of_nat (length str))) (\<lambda>_. write_bytes str)"

definition writeStringWithoutLength :: "byte list \<Rightarrow> unit bop" where
  "writeStringWithoutLength str = write_bytes str"

definition readStringF16 :: "bool \<Rightarrow> byte list bop" where
  "readStringF16 host = bindB (readFuint16 host) (\<lambda>len. read_bytes (unat len))"

definition readStringF32 :: "bool \<Rightarrow> byte list bop" where
  "readStringF32 host = bindB (readFuint32 host) (\<lambda>len. read_bytes (unat len))"

definition readStringF64 :: "bool \<Rightarrow> byte list bop" where
  "readStringF64 host = bindB (readFuint64 host) (\<lambda>len. read_bytes (unat len))"

definition readStringVint :: "byte list bop" where
  "readStringVint = bindB readUint64 (\<lambda>len. read_bytes (unat len))"

section \<open>Codecs\<close>

text \<open>
  \<open>writes l p bs\<close>: on an array in order, with the byte order \<open>l\<close>, \<open>p\<close> returns and writes the bytes
  \<open>bs\<close>. \<open>reads l p v bs t\<close>: where the bytes \<open>bs\<close> are next, \<open>p\<close> returns \<open>v\<close> and goes behind them; when
  \<open>t\<close> does not hold, only if that is not the end of the last block.
\<close>

definition writes :: "bool \<Rightarrow> unit bop \<Rightarrow> byte list \<Rightarrow> bool" where
  "writes l p bs \<longleftrightarrow> (\<forall>s. array_ok s \<longrightarrow> little s = l \<longrightarrow>
     (\<exists>s'. p s = Ret (Some (), s') \<and> array_ok s' \<and> view s' = flat_write bs (view s) \<and> little s' = l))"

definition reads :: "bool \<Rightarrow> 'v bop \<Rightarrow> 'v \<Rightarrow> byte list \<Rightarrow> bool \<Rightarrow> bool" where
  "reads l p v bs t \<longleftrightarrow> (\<forall>s pre post. array_ok s \<longrightarrow> little s = l \<longrightarrow> view s = (pre @ bs @ post, length pre) \<longrightarrow>
     t \<or> length pre + length bs < capacity s \<longrightarrow>
     (\<exists>s'. p s = Ret (Some v, s') \<and> array_ok s' \<and> view s' = (pre @ bs @ post, length pre + length bs) \<and>
        little s' = l \<and> capacity s' = capacity s))"

lemma writesD:
  "writes l p bs \<Longrightarrow> array_ok s \<Longrightarrow> little s = l \<Longrightarrow>
   \<exists>s'. p s = Ret (Some (), s') \<and> array_ok s' \<and> view s' = flat_write bs (view s) \<and> little s' = l"
  by (simp add: writes_def)

lemma readsD:
  "reads l p v bs t \<Longrightarrow> array_ok s \<Longrightarrow> little s = l \<Longrightarrow> view s = (pre @ bs @ post, length pre) \<Longrightarrow>
   t \<or> length pre + length bs < capacity s \<Longrightarrow>
   \<exists>s'. p s = Ret (Some v, s') \<and> array_ok s' \<and> view s' = (pre @ bs @ post, length pre + length bs) \<and>
     little s' = l \<and> capacity s' = capacity s"
  unfolding reads_def by blast

lemma view_in_range: "array_ok s \<Longrightarrow> position s \<le> length (data s)"
  by (simp add: length_data) (simp add: array_ok_def)

lemma flat_write_append:
  assumes "p \<le> length d"
  shows "flat_write b (flat_write a (d, p)) = flat_write (a @ b) (d, p)"
  using assms by (simp add: poke_def ac_simps)

lemma writes_bytes: "writes l (write_bytes bs) bs"
  unfolding writes_def using write_ok by blast

lemma writes_bind:
  assumes "writes l p a" and "writes l q b"
  shows "writes l (bindB p (\<lambda>_. q)) (a @ b)"
  unfolding writes_def
proof (intro allI impI)
  fix s
  assume s: "array_ok s" "little s = l"
  from writesD [OF assms(1) s] obtain s1 where p: "p s = Ret (Some (), s1)" and
    s1: "array_ok s1" "little s1 = l" and v1: "view s1 = flat_write a (view s)" by blast
  from writesD [OF assms(2) s1] obtain s2 where q: "q s1 = Ret (Some (), s2)" and
    s2: "array_ok s2" "little s2 = l" and v2: "view s2 = flat_write b (view s1)" by blast
  have "view s = (data s, position s)" by (simp add: view_def)
  with v1 v2 flat_write_append [OF view_in_range [OF s(1)], of b a]
  have "view s2 = flat_write (a @ b) (view s)" by (simp only:)
  with p q s2 show "\<exists>s'. bindB p (\<lambda>_. q) s = Ret (Some (), s') \<and> array_ok s' \<and>
      view s' = flat_write (a @ b) (view s) \<and> little s' = l"
    by (simp add: bindB_def)
qed

lemma writes_lift: "x = Ret v \<Longrightarrow> writes l (k v) bs \<Longrightarrow> writes l (bindB (liftB x) k) bs"
  by (simp add: writes_def bindB_def liftB_def)

lemma reads_ret: "reads l (retB v) v [] True"
  by (simp add: reads_def retB_def)

lemma reads_bind:
  assumes "reads l p v a t" and "reads l (k v) w b u"
  shows "reads l (bindB p k) w (a @ b) (t \<and> u)"
  unfolding reads_def
proof (intro allI impI)
  fix s pre post
  assume s: "array_ok s" "little s = l" "view s = (pre @ (a @ b) @ post, length pre)"
    and t: "t \<and> u \<or> length pre + length (a @ b) < capacity s"
  from readsD [OF assms(1) s(1,2), of pre "b @ post"] s(3) t obtain s1 where
    p: "p s = Ret (Some v, s1)" and s1: "array_ok s1" "little s1 = l" "capacity s1 = capacity s"
      "view s1 = ((pre @ a) @ b @ post, length (pre @ a))" by auto
  from readsD [OF assms(2) s1(1,2,4)] t s1(3) obtain s2 where
    "k v s1 = Ret (Some w, s2)" "array_ok s2" "little s2 = l" "capacity s2 = capacity s"
      "view s2 = ((pre @ a) @ b @ post, length (pre @ a) + length b)" by auto
  with p show "\<exists>s'. bindB p k s = Ret (Some w, s') \<and> array_ok s' \<and>
      view s' = (pre @ (a @ b) @ post, length pre + length (a @ b)) \<and> little s' = l \<and> capacity s' = capacity s"
    by (simp add: bindB_def)
qed

lemma reads_map: "reads l p v bs t \<Longrightarrow> reads l (bindB p (\<lambda>x. retB (f x))) (f v) bs t"
  unfolding reads_def bindB_def retB_def by fastforce

lemma reads_bytes: "length bs = n \<Longrightarrow> reads l (read_bytes n) bs bs (0 < n)"
  unfolding reads_def
proof (intro allI impI)
  fix s pre post
  assume n: "length bs = n" and s: "array_ok s" "little s = l" "view s = (pre @ bs @ post, length pre)"
    and t: "0 < n \<or> length pre + length bs < capacity s"
  from s(3) have p: "position s = length pre" by (simp add: view_def)
  have "0 < n \<or> position s < capacity s" using t p by auto
  from read_ok [OF s(1) this] n s(2,3) show "\<exists>s'. read_bytes n s = Ret (Some bs, s') \<and> array_ok s' \<and>
      view s' = (pre @ bs @ post, length pre + length bs) \<and> little s' = l \<and> capacity s' = capacity s"
    by simp
qed

lemma reads_weaken: "reads l p v bs True \<Longrightarrow> reads l p v bs t"
  unfolding reads_def by blast

text \<open>After writing, the position can be set back to where the bytes begin.\<close>

lemma written_back:
  assumes w: "writes (little s) p bs" and ok: "array_ok s"
  shows "\<exists>s1 pre post s2. p s = Ret (Some (), s1) \<and> array_ok s1 \<and> view s1 = (pre @ bs @ post, length pre + length bs) \<and>
    setPosition (position s) s1 = Ret (Some (), s2) \<and> array_ok s2 \<and> little s2 = little s \<and>
    view s2 = (pre @ bs @ post, length pre) \<and> capacity s2 = capacity s1"
proof -
  let ?p = "position s"
  from writesD [OF w ok refl] obtain s1 where
    s1: "p s = Ret (Some (), s1)" "array_ok s1" "view s1 = flat_write bs (view s)" "little s1 = little s" by blast
  define pre post where "pre = take ?p (data s)" and "post = drop (?p + length bs) (data s)"
  have pre: "length pre = ?p" using view_in_range [OF ok] by (simp add: pre_def)
  have v1: "data s1 = pre @ bs @ post" "position s1 = ?p + length bs"
    using s1(3) by (simp_all add: view_def poke_def pre_def post_def)
  have "?p \<le> size_used s1" using length_data [OF s1(2)] v1(1) pre by simp
  from setPosition_ok [OF s1(2) this] obtain s2 where
    s2: "setPosition ?p s1 = Ret (Some (), s2)" "array_ok s2" "view s2 = (data s1, ?p)" "little s2 = little s1"
      "capacity s2 = capacity s1" by blast
  moreover have "view s1 = (pre @ bs @ post, length pre + length bs)" using v1 pre by (simp add: view_def)
  moreover have "view s2 = (pre @ bs @ post, length pre)" using s2(3) v1(1) pre by simp
  ultimately show ?thesis using s1(1,2,4) by metis
qed

subsection \<open>Fixed width\<close>

lemma writes_fixed: "writes l (write_fixed host n v) (in_order l (le_bytes n v))"
  unfolding writes_def
proof (intro allI impI)
  fix s
  assume s: "array_ok s" "little s = l"
  then have "write_fixed host n v s = write_bytes (in_order l (le_bytes n v)) s"
    by (simp add: write_fixed_def in_order_def byteswap_bytes)
  with writesD [OF writes_bytes s] show "\<exists>s'. write_fixed host n v s = Ret (Some (), s') \<and> array_ok s' \<and>
      view s' = flat_write (in_order l (le_bytes n v)) (view s) \<and> little s' = l" by simp
qed

lemma reads_fixed:
  assumes "0 < n" and "v < 256 ^ n"
  shows "reads l (read_fixed host n) v (in_order l (le_bytes n v)) True"
proof -
  have "reads l (read_bytes n) (in_order l (le_bytes n v)) (in_order l (le_bytes n v)) True"
    using reads_bytes [of "in_order l (le_bytes n v)" n l] assms(1) by (simp add: in_order_def)
  moreover have "(if l = host then le_value (in_order host (in_order l (le_bytes n v)))
      else byteswap n (le_value (in_order host (in_order l (le_bytes n v))))) = v"
    using assms(2) by (auto simp: in_order_def byteswap_def)
  ultimately show ?thesis
    unfolding reads_def read_fixed_def bindB_def by (fastforce simp: Let_def)
qed

lemma fixed_range:
  "unat (v :: 16 word) < 256 ^ 2" "unat (w :: 32 word) < 256 ^ 4" "unat (x :: 64 word) < 256 ^ 8"
  using unsigned_less [of v] unsigned_less [of w] unsigned_less [of x] by simp_all

lemma to_signed_unsigned:
  assumes "- (2 ^ (w - 1)) \<le> v" and "v < 2 ^ (w - 1)" and "0 < w"
  shows "to_signed w (to_unsigned w v) = v"
proof -
  have "(2::int) ^ w = 2 * 2 ^ (w - 1)" using assms(3) by (cases w) simp_all
  moreover have "int (to_unsigned w v) = v mod 2 ^ w" by (simp add: to_unsigned_def)
  ultimately show ?thesis
    using assms(1,2) mod_pos_pos_trivial [of "v + 2 ^ (w - 1)" "2 ^ w"]
    by (simp add: to_signed_def mod_add_left_eq)
qed

lemma to_unsigned_range: "to_unsigned 16 v < 256 ^ 2" "to_unsigned 32 v < 256 ^ 4" "to_unsigned 64 v < 256 ^ 8"
  by (simp_all add: to_unsigned_def nat_less_iff)

lemma reads_unsigned:
  "reads l (readFuint16 host) u (in_order l (le_bytes 2 (unat u))) True"
  "reads l (readFuint32 host) v (in_order l (le_bytes 4 (unat v))) True"
  "reads l (readFuint64 host) w (in_order l (le_bytes 8 (unat w))) True"
  unfolding readFuint16_def readFuint32_def readFuint64_def
  using reads_map [OF reads_fixed [of 2 "unat u" l host], of "word_of_nat :: nat \<Rightarrow> 16 word"]
    reads_map [OF reads_fixed [of 4 "unat v" l host], of "word_of_nat :: nat \<Rightarrow> 32 word"]
    reads_map [OF reads_fixed [of 8 "unat w" l host], of "word_of_nat :: nat \<Rightarrow> 64 word"] fixed_range
  by simp_all

lemma reads_signed:
  "- (2 ^ 15) \<le> u \<Longrightarrow> u < 2 ^ 15 \<Longrightarrow> reads l (readFint16 host) u (in_order l (le_bytes 2 (to_unsigned 16 u))) True"
  "- (2 ^ 31) \<le> v \<Longrightarrow> v < 2 ^ 31 \<Longrightarrow> reads l (readFint32 host) v (in_order l (le_bytes 4 (to_unsigned 32 v))) True"
  "- (2 ^ 63) \<le> w \<Longrightarrow> w < 2 ^ 63 \<Longrightarrow> reads l (readFint64 host) w (in_order l (le_bytes 8 (to_unsigned 64 w))) True"
  unfolding readFint16_def readFint32_def readFint64_def
  using reads_map [OF reads_fixed [OF _ to_unsigned_range(1) [of u], of l host], of "to_signed 16"]
    reads_map [OF reads_fixed [OF _ to_unsigned_range(2) [of v], of l host], of "to_signed 32"]
    reads_map [OF reads_fixed [OF _ to_unsigned_range(3) [of w], of l host], of "to_signed 64"]
  by (simp_all add: to_signed_unsigned)

lemma reads_one: "reads l (read_bytes 1) [b] [b] True"
  using reads_bytes [of "[b]" 1 l] by simp

lemma reads_uint8: "reads l readFuint8 b [b] True"
  unfolding readFuint8_def using reads_map [OF reads_one [of l b], of hd] by simp

lemma reads_int8:
  assumes "- 128 \<le> v" and "v < 128"
  shows "reads l readFint8 v [word_of_int v] True"
proof -
  have "unat (word_of_int v :: byte) = to_unsigned 8 v"
    by (simp add: to_unsigned_def unat_eq_nat_uint uint_word_of_int)
  then have "to_signed 8 (unat (hd [word_of_int v :: byte])) = v"
    using to_signed_unsigned [of 8 v] assms by simp
  with reads_map [OF reads_one [of l "word_of_int v"], of "\<lambda>bs. to_signed 8 (unat (hd bs))"]
  show ?thesis unfolding readFint8_def by simp
qed

subsection \<open>Variable width\<close>

text \<open>Seven bits and the mark of a byte, as bit operations.\<close>

lemma low_seven: "(x :: 'a::len word) AND 0x7F = take_bit 7 x"
  by (simp add: take_bit_eq_mask mask_numeral)

lemma below_mark: "8 \<le> LENGTH('a) \<Longrightarrow> (x :: 'a::len word) < 0x80 \<longleftrightarrow> take_bit 7 x = x"
  using mask_eq_iff_w2p [of 7 x] by (simp add: take_bit_eq_mask word_size)

lemma bit_mark: "8 \<le> LENGTH('a) \<Longrightarrow> bit (0x80 :: 'a::len word) k \<longleftrightarrow> k = 7"
  using bit_exp_iff [of 7 k] by (auto simp: possible_bit_def)

lemma bit_marks: "bit (0x80 :: byte) k \<longleftrightarrow> k = 7" "bit (0x80 :: int) k \<longleftrightarrow> k = 7" "bit (0x80 :: nat) k \<longleftrightarrow> k = 7"
  using bit_mark [of k, where 'a = 8] bit_exp_iff [of 7 k, where 'a = int] bit_exp_iff [of 7 k, where 'a = nat]
  by auto

lemma last_group:
  assumes "8 \<le> LENGTH('a)" and "take_bit 7 (drop_bit i v) = drop_bit i v"
  shows "take_bit i v OR push_bit i (ucast (ucast (drop_bit i (v :: 'a::len word)) :: byte)) = v"
proof (rule bit_eqI)
  fix n
  assume "possible_bit TYPE('a word) n"
  from assms(2) have "bit (take_bit 7 (drop_bit i v)) (n - i) = bit (drop_bit i v) (n - i)" by simp
  then show "bit (take_bit i v OR push_bit i (ucast (ucast (drop_bit i v) :: byte))) n = bit v n"
    using assms(1) by (auto simp: bit_simps dest: bit_imp_le_length)
qed

lemma next_group:
  "8 \<le> LENGTH('a) \<Longrightarrow>
   take_bit i v OR push_bit i (ucast ((ucast ((drop_bit i v AND 0x7F) OR 0x80) :: byte) AND 0x7F)) =
     take_bit (i + 7) (v :: 'a::len word)"
  unfolding low_seven
  by (rule bit_eqI) (auto simp: bit_simps bit_mark bit_marks dest: bit_imp_le_length)

lemma marked: "8 \<le> LENGTH('a) \<Longrightarrow> \<not> (ucast (((v :: 'a::len word) AND 0x7F) OR 0x80) :: byte) < 0x80"
  unfolding below_mark [where 'a = 8, simplified]
  using bit_eq_iff [of "take_bit 7 (ucast ((v AND 0x7F) OR 0x80) :: byte)" "ucast ((v AND 0x7F) OR 0x80)"]
  by (auto simp: bit_simps bit_mark dest: spec [of _ 7])

lemma unmarked:
  assumes "8 \<le> LENGTH('a)" and "(x :: 'a::len word) < 0x80"
  shows "(ucast x :: byte) < 0x80"
proof -
  from assms have "take_bit 7 x = x" by (simp add: below_mark)
  then have "bit (take_bit 7 x) n = bit x n" for n by simp
  then have "take_bit 7 (ucast x :: byte) = ucast x"
    by (intro bit_eqI) (auto simp: bit_simps)
  then show ?thesis by (simp add: below_mark)
qed

fun shifts :: "nat \<Rightarrow> nat \<Rightarrow> nat list" where
  "shifts i 0 = []"
| "shifts i (Suc n) = i # shifts (i + 7) n"

lemma varint_codec:
  fixes v :: "'a::len word"
  assumes "8 \<le> LENGTH('a)" and "LENGTH('a) \<le> i + 7 * n" and "0 < n"
  shows "\<exists>bs. put_varint (length tmp + n) tmp (drop_bit i v) = Ret (tmp @ bs) \<and> bs \<noteq> [] \<and> length bs \<le> n \<and>
    (\<forall>l. reads l (get_varint (shifts i n) (take_bit i v)) v bs True)"
  using assms(2,3)
proof (induction n arbitrary: i tmp)
  case 0
  then show ?case by simp
next
  case (Suc n)
  let ?x = "drop_bit i v"
  show ?case
  proof (cases "?x < 0x80")
    case True
    let ?b = "ucast ?x :: byte"
    have "put_varint (length tmp + Suc n) tmp ?x = Ret (tmp @ [?b])"
      using True by (subst put_varint.simps) simp
    moreover have g: "take_bit i v OR push_bit i (ucast ?b) = v"
      using True below_mark [OF assms(1)] by (intro last_group [OF assms(1)]) simp
    moreover have "reads l (get_varint (shifts i (Suc n)) (take_bit i v)) v ([?b] @ []) (True \<and> True)" for l
      unfolding shifts.simps get_varint.simps
      by (rule reads_bind [OF reads_uint8]) (use unmarked [OF assms(1) True] reads_ret [of l v] g in simp)
    ultimately show ?thesis by (intro exI [of _ "[?b]"]) simp
  next
    case False
    let ?b = "ucast ((?x AND 0x7F) OR 0x80) :: byte"
    have "n \<noteq> 0"
    proof
      assume "n = 0"
      with Suc.prems(1) have "take_bit 7 ?x = ?x"
        by (intro bit_eqI) (auto simp: bit_simps dest: bit_imp_le_length)
      with False below_mark [OF assms(1)] show False by blast
    qed
    with Suc.IH [of "i + 7" "tmp @ [?b]"] Suc.prems(1) obtain bs where
      bs: "put_varint (length (tmp @ [?b]) + n) (tmp @ [?b]) (drop_bit (i + 7) v) = Ret ((tmp @ [?b]) @ bs)"
        "length bs \<le> n" "\<And>l. reads l (get_varint (shifts (i + 7) n) (take_bit (i + 7) v)) v bs True" by auto
    have "put_varint (length tmp + Suc n) tmp ?x = Ret (tmp @ ?b # bs)"
      using False bs(1) by (subst put_varint.simps) (simp add: add.commute)
    moreover have "reads l (get_varint (shifts i (Suc n)) (take_bit i v)) v ([?b] @ bs) (True \<and> True)" for l
      unfolding shifts.simps get_varint.simps
      by (rule reads_bind [OF reads_uint8])
        (use marked [OF assms(1), of ?x] bs(3) next_group [OF assms(1), of i v] in simp)
    ultimately show ?thesis using bs(2) by (intro exI [of _ "?b # bs"]) simp
  qed
qed

subsection \<open>Zigzag\<close>

lemma zigzag_back:
  fixes w :: "'a::len word"
  assumes len: "LENGTH('a) = Suc k" and v: "- (2 ^ k) \<le> v" "v < 2 ^ k"
    and w: "uint w = (if v < 0 then - 2 * v - 1 else 2 * v)"
  shows "to_signed (Suc k) (unat (drop_bit 1 w XOR - (w AND 1))) = v"
proof -
  have half: "uint (drop_bit 1 w) = uint w div 2"
  proof -
    have "take_bit LENGTH('a) (uint w) = uint w"
      using unsigned_less [of w, where 'a = int] by (simp add: take_bit_eq_mod)
    then show ?thesis unfolding unsigned_drop_bit_eq by (simp add: drop_bit_Suc)
  qed
  have odd: "odd w \<longleftrightarrow> v < 0"
    using w bit_uint_iff [of w 0] by (auto simp: bit_0 split: if_splits)
  then have one: "w AND 1 = (if v < 0 then 1 else 0)" by (simp add: and_one_eq mod_2_eq_odd)
  have "uint (drop_bit 1 w XOR - (w AND 1)) = (if v < 0 then 2 ^ Suc k + v else v)"
  proof (cases "v < 0")
    case True
    then have "drop_bit 1 w XOR - (w AND 1) = NOT (drop_bit 1 w)"
      unfolding one by simp
    moreover have "uint (NOT (drop_bit 1 w)) = (- uint (drop_bit 1 w) - 1) mod 2 ^ Suc k"
      unfolding unsigned_not_eq take_bit_eq_mod len by (simp only: not_eq_complement)
    moreover have "(- 2 * v - 1) div 2 = - v - 1" by presburger
    then have "- uint (drop_bit 1 w) - 1 = v" using True half w by simp
    moreover have "v mod 2 ^ Suc k = 2 ^ Suc k + v"
      using True v mod_pos_pos_trivial [of "2 ^ Suc k + v" "2 ^ Suc k"] by simp
    ultimately show ?thesis using True by (simp only: if_True)
  next
    case False
    then have "drop_bit 1 w XOR - (w AND 1) = drop_bit 1 w"
      unfolding one by simp
    then show ?thesis using False half w by simp
  qed
  then have "(uint (drop_bit 1 w XOR - (w AND 1)) + 2 ^ k) mod 2 ^ Suc k = (v + 2 ^ k) mod 2 ^ Suc k"
    using mod_add_self1 [of "2 ^ Suc k" "v + 2 ^ k"] by (simp add: algebra_simps)
  also have "\<dots> = v + 2 ^ k" using v by simp
  finally show ?thesis by (simp add: to_signed_def)
qed

lemma zigzag_codes:
  "EncodeZigzag32 v = Ret w \<Longrightarrow> - (2 ^ 31) \<le> v \<Longrightarrow> DecodeZigzag32 w = v"
  "EncodeZigzag64 v = Ret x \<Longrightarrow> - (2 ^ 63) \<le> v \<Longrightarrow> DecodeZigzag64 x = v"
proof -
  assume e: "EncodeZigzag32 v = Ret w" and v: "- (2 ^ 31) \<le> v"
  have "v < 2 ^ 31 \<and> uint w = (if v < 0 then - 2 * v - 1 else 2 * v)"
  proof (cases "v < 0")
    case True
    with e have "in_i32 (- v)" "w = word_of_int (- 2 * v - 1)" by (auto simp: EncodeZigzag32_def)
    then have "uint w = (- 2 * v - 1) mod 2 ^ 32" by (simp only: uint_word_of_int) simp
    with True \<open>in_i32 (- v)\<close> show ?thesis by (simp add: in_i32_def)
  next
    case False
    with e have "in_i32 (v * 2)" "w = word_of_int (v * 2)" by (auto simp: EncodeZigzag32_def)
    then have "uint w = (v * 2) mod 2 ^ 32" by (simp only: uint_word_of_int) simp
    with False \<open>in_i32 (v * 2)\<close> show ?thesis by (simp add: in_i32_def)
  qed
  with zigzag_back [of 31 v w] v show "DecodeZigzag32 w = v" by (simp add: DecodeZigzag32_def)
next
  assume e: "EncodeZigzag64 v = Ret x" and v: "- (2 ^ 63) \<le> v"
  have "v < 2 ^ 63 \<and> uint x = (if v < 0 then - 2 * v - 1 else 2 * v)"
  proof (cases "v < 0")
    case True
    with e have "in_i64 (- v)" "x = word_of_int (- 2 * v - 1)"
      by (auto simp: EncodeZigzag64_def split: if_splits)
    then have "uint x = (- 2 * v - 1) mod 2 ^ 64" by (simp only: uint_word_of_int) simp
    with True \<open>in_i64 (- v)\<close> show ?thesis by (simp add: in_i64_def)
  next
    case False
    with e have "in_i64 (v * 2)" "x = word_of_int (v * 2)"
      by (auto simp: EncodeZigzag64_def split: if_splits)
    then have "uint x = (v * 2) mod 2 ^ 64" by (simp only: uint_word_of_int) simp
    with False \<open>in_i64 (v * 2)\<close> show ?thesis by (simp add: in_i64_def)
  qed
  with zigzag_back [of 63 v x] v show "DecodeZigzag64 x = v" by (simp add: DecodeZigzag64_def)
qed

text \<open>Where encoding is defined: below the upper half, and not at the smallest number.\<close>

lemma zigzag_range:
  "- (2 ^ 31) \<le> v \<Longrightarrow> v < 2 ^ 31 \<Longrightarrow> (\<exists>w. EncodeZigzag32 v = Ret w) \<longleftrightarrow> - (2 ^ 31) < v \<and> v < 2 ^ 30"
  "- (2 ^ 63) \<le> v \<Longrightarrow> v < 2 ^ 63 \<Longrightarrow> (\<exists>w. EncodeZigzag64 v = Ret w) \<longleftrightarrow> - (2 ^ 63) < v \<and> v < 2 ^ 62"
  by (auto simp: EncodeZigzag32_def EncodeZigzag64_def sub32_def mul32_def in_i32_def in_i64_def)

subsection \<open>The variable width types and the strings\<close>

definition varint32 :: "32 word \<Rightarrow> byte list" where
  "varint32 v = (case put_varint 5 [] v of Ret bs \<Rightarrow> bs | Fault e \<Rightarrow> [])"

definition varint64 :: "64 word \<Rightarrow> byte list" where
  "varint64 v = (case put_varint 10 [] v of Ret bs \<Rightarrow> bs | Fault e \<Rightarrow> [])"

lemma varint32_facts:
  "put_varint 5 [] v = Ret (varint32 v)" "varint32 v \<noteq> []" "length (varint32 v) \<le> 5"
  "reads l readUint32 v (varint32 v) True" "writes l (writeUint32 v) (varint32 v)"
proof -
  have "shifts 0 5 = [0, 7, 14, 21, 28]" by (simp add: numeral_eq_Suc)
  with varint_codec [of 0 5 "[]" v] obtain bs where bs: "put_varint 5 [] v = Ret bs" "bs \<noteq> []" "length bs \<le> 5"
    "\<And>l. reads l readUint32 v bs True" by (auto simp: readUint32_def)
  then have "bs = varint32 v" by (simp add: varint32_def)
  with bs show "put_varint 5 [] v = Ret (varint32 v)" "varint32 v \<noteq> []" "length (varint32 v) \<le> 5"
    "reads l readUint32 v (varint32 v) True" by auto
  from this(1) show "writes l (writeUint32 v) (varint32 v)"
    unfolding writeUint32_def by (rule writes_lift) (rule writes_bytes)
qed

lemma varint64_facts:
  "put_varint 10 [] v = Ret (varint64 v)" "varint64 v \<noteq> []" "length (varint64 v) \<le> 10"
  "reads l readUint64 v (varint64 v) True" "writes l (writeUint64 v) (varint64 v)"
proof -
  have "shifts 0 10 = [0, 7, 14, 21, 28, 35, 42, 49, 56, 63]" by (simp add: numeral_eq_Suc)
  with varint_codec [of 0 10 "[]" v] obtain bs where bs: "put_varint 10 [] v = Ret bs" "bs \<noteq> []" "length bs \<le> 10"
    "\<And>l. reads l readUint64 v bs True" by (auto simp: readUint64_def)
  then have "bs = varint64 v" by (simp add: varint64_def)
  with bs show "put_varint 10 [] v = Ret (varint64 v)" "varint64 v \<noteq> []" "length (varint64 v) \<le> 10"
    "reads l readUint64 v (varint64 v) True" by auto
  from this(1) show "writes l (writeUint64 v) (varint64 v)"
    unfolding writeUint64_def by (rule writes_lift) (rule writes_bytes)
qed

definition zigzag32 :: "int \<Rightarrow> byte list" where
  "zigzag32 v = (case EncodeZigzag32 v of Ret w \<Rightarrow> varint32 w | Fault e \<Rightarrow> [])"

definition zigzag64 :: "int \<Rightarrow> byte list" where
  "zigzag64 v = (case EncodeZigzag64 v of Ret w \<Rightarrow> varint64 w | Fault e \<Rightarrow> [])"

lemma zigzag_facts:
  "- (2 ^ 31) < v \<Longrightarrow> v < 2 ^ 30 \<Longrightarrow> writes l (writeInt32 v) (zigzag32 v) \<and> reads l readInt32 v (zigzag32 v) True"
  "- (2 ^ 63) < v \<Longrightarrow> v < 2 ^ 62 \<Longrightarrow> writes l (writeInt64 v) (zigzag64 v) \<and> reads l readInt64 v (zigzag64 v) True"
proof -
  assume v: "- (2 ^ 31) < v" "v < 2 ^ 30"
  with zigzag_range(1) [of v] obtain w where w: "EncodeZigzag32 v = Ret w" by auto
  with v have "DecodeZigzag32 w = v" using zigzag_codes(1) [of v w] by simp
  with w reads_map [OF varint32_facts(4) [of l w], of DecodeZigzag32]
    writes_lift [where k = writeUint32, OF w varint32_facts(5) [of l w]]
  show "writes l (writeInt32 v) (zigzag32 v) \<and> reads l readInt32 v (zigzag32 v) True"
    by (simp add: writeInt32_def readInt32_def zigzag32_def)
next
  assume v: "- (2 ^ 63) < v" "v < 2 ^ 62"
  with zigzag_range(2) [of v] obtain w where w: "EncodeZigzag64 v = Ret w" by auto
  with v have "DecodeZigzag64 w = v" using zigzag_codes(2) [of v w] by simp
  with w reads_map [OF varint64_facts(4) [of l w], of DecodeZigzag64]
    writes_lift [where k = writeUint64, OF w varint64_facts(5) [of l w]]
  show "writes l (writeInt64 v) (zigzag64 v) \<and> reads l readInt64 v (zigzag64 v) True"
    by (simp add: writeInt64_def readInt64_def zigzag64_def)
qed

lemma reads_string:
  assumes "reads l p n a True" and "f n = length str"
  shows "reads l (bindB p (\<lambda>len. read_bytes (f len))) str (a @ str) (str \<noteq> [])"
  using reads_bind [where k = "\<lambda>len. read_bytes (f len)", OF assms(1) reads_bytes [of str "f n" l]] assms(2)
  by simp

lemma string_reads:
  "length str < 2 ^ 16 \<Longrightarrow> reads l (readStringF16 host) str
     (in_order l (le_bytes 2 (length str)) @ str) (str \<noteq> [])"
  "length str < 2 ^ 32 \<Longrightarrow> reads l (readStringF32 host) str
     (in_order l (le_bytes 4 (length str)) @ str) (str \<noteq> [])"
  "length str < 2 ^ 64 \<Longrightarrow> reads l (readStringF64 host) str
     (in_order l (le_bytes 8 (length str)) @ str) (str \<noteq> [])"
  "length str < 2 ^ 64 \<Longrightarrow> reads l readStringVint str (varint64 (word_of_nat (length str)) @ str) (str \<noteq> [])"
  unfolding readStringF16_def readStringF32_def readStringF64_def readStringVint_def
  using reads_string [OF reads_unsigned(1) [of l host "word_of_nat (length str)"], of unat str]
    reads_string [OF reads_unsigned(2) [of l host "word_of_nat (length str)"], of unat str]
    reads_string [OF reads_unsigned(3) [of l host "word_of_nat (length str)"], of unat str]
    reads_string [OF varint64_facts(4) [of l "word_of_nat (length str)"], of unat str]
  by (simp_all add: unat_of_nat)

lemma string_writes:
  "length str < 2 ^ 16 \<Longrightarrow> writes l (writeStringF16 host str) (in_order l (le_bytes 2 (length str)) @ str)"
  "length str < 2 ^ 32 \<Longrightarrow> writes l (writeStringF32 host str) (in_order l (le_bytes 4 (length str)) @ str)"
  "length str < 2 ^ 64 \<Longrightarrow> writes l (writeStringF64 host str) (in_order l (le_bytes 8 (length str)) @ str)"
  "writes l (writeStringVint str) (varint64 (word_of_nat (length str)) @ str)"
  unfolding writeStringF16_def writeStringF32_def writeStringF64_def writeStringVint_def
    writeFuint16_def writeFuint32_def writeFuint64_def
  using writes_bind [OF writes_fixed [of l host 2 "length str"] writes_bytes [of l str]]
    writes_bind [OF writes_fixed [of l host 4 "length str"] writes_bytes [of l str]]
    writes_bind [OF writes_fixed [of l host 8 "length str"] writes_bytes [of l str]]
    writes_bind [OF varint64_facts(5) writes_bytes [of l str]]
  by (simp_all add: unat_of_nat)

section \<open>Sequences of values\<close>

primrec put_seq :: "('v \<Rightarrow> unit bop) \<Rightarrow> 'v list \<Rightarrow> unit bop" where
  "put_seq put [] = retB ()"
| "put_seq put (v # vs) = bindB (put v) (\<lambda>_. put_seq put vs)"

primrec get_seq :: "('k \<Rightarrow> 'v bop) \<Rightarrow> 'k list \<Rightarrow> 'v list bop" where
  "get_seq get [] = retB []"
| "get_seq get (k # ks) = bindB (get k) (\<lambda>v. bindB (get_seq get ks) (\<lambda>vs. retB (v # vs)))"

text \<open>
  The contract of a pair of operations: writing a value of the domain writes its bytes, and reading
  a value of its kind where these bytes are gives the value back.
\<close>

locale codec =
  fixes put :: "'v \<Rightarrow> unit bop"
    and get :: "'k \<Rightarrow> 'v bop"
    and kind :: "'v \<Rightarrow> 'k"
    and enc :: "bool \<Rightarrow> 'v \<Rightarrow> byte list"
    and valid :: "'v \<Rightarrow> bool"
    and tight :: "'v \<Rightarrow> bool"
  assumes put_writes: "valid v \<Longrightarrow> writes l (put v) (enc l v)"
    and get_reads: "valid v \<Longrightarrow> reads l (get (kind v)) v (enc l v) (tight v)"
begin

lemma seq_writes: "list_all valid vs \<Longrightarrow> writes l (put_seq put vs) (concat (map (enc l) vs))"
proof (induction vs)
  case Nil
  show ?case by (simp add: writes_def retB_def view_def)
next
  case (Cons v vs)
  then show ?case using writes_bind [OF put_writes [of v l], of "put_seq put vs"] by simp
qed

lemma seq_reads:
  "list_all valid vs \<Longrightarrow> reads l (get_seq get (map kind vs)) vs (concat (map (enc l) vs)) (list_all tight vs)"
proof (induction vs)
  case Nil
  show ?case using reads_weaken [OF reads_ret] by simp
next
  case (Cons v vs)
  then have "reads l (bindB (get_seq get (map kind vs)) (\<lambda>ws. retB (v # ws))) (v # vs)
      (concat (map (enc l) vs)) (list_all tight vs)"
    using reads_map [of l "get_seq get (map kind vs)" vs _ _ "\<lambda>ws. v # ws"] by simp
  with reads_bind [where k = "\<lambda>v. bindB (get_seq get (map kind vs)) (\<lambda>ws. retB (v # ws))", OF get_reads [of v l]]
    Cons.prems
  show ?case by simp
qed

lemma seq_roundtrip:
  assumes ok: "array_ok s" and vs: "list_all valid vs"
  shows "\<exists>s1. put_seq put vs s = Ret (Some (), s1) \<and> array_ok s1 \<and>
    (list_all tight vs \<or> position s1 < capacity s1 \<longrightarrow>
      (\<exists>s2 s3. setPosition (position s) s1 = Ret (Some (), s2) \<and>
         get_seq get (map kind vs) s2 = Ret (Some vs, s3) \<and> array_ok s3 \<and> view s3 = view s1))"
proof -
  let ?l = "little s" and ?bs = "concat (map (enc (little s)) vs)"
  from written_back [OF seq_writes [OF vs] ok] obtain s1 pre post s2 where
    s1: "put_seq put vs s = Ret (Some (), s1)" "array_ok s1" "view s1 = (pre @ ?bs @ post, length pre + length ?bs)" and
    s2: "setPosition (position s) s1 = Ret (Some (), s2)" "array_ok s2" "little s2 = ?l"
      "view s2 = (pre @ ?bs @ post, length pre)" "capacity s2 = capacity s1" by blast
  have "\<exists>s3. get_seq get (map kind vs) s2 = Ret (Some vs, s3) \<and> array_ok s3 \<and> view s3 = view s1"
    if "list_all tight vs \<or> position s1 < capacity s1"
  proof -
    have "list_all tight vs \<or> length pre + length ?bs < capacity s2" using that s1(3) s2(5) by (simp add: view_def)
    from readsD [OF seq_reads [OF vs] s2(2,3,4) this] s1(3) show ?thesis by auto
  qed
  with s1(1,2) s2(1) show ?thesis by blast
qed

end

text \<open>Every typed pair of operations, as one codec over tagged values.\<close>

datatype kind = KFint8 | KFuint8 | KFint16 | KFuint16 | KFint32 | KFuint32 | KFint64 | KFuint64
  | KInt32 | KUint32 | KInt64 | KUint64 | KFloat | KDouble | KStringF16 | KStringF32 | KStringF64 | KStringVint

datatype field =
    VFint8 int | VFuint8 byte | VFint16 int | VFuint16 "16 word" | VFint32 int | VFuint32 "32 word"
  | VFint64 int | VFuint64 "64 word" | VInt32 int | VUint32 "32 word" | VInt64 int | VUint64 "64 word"
  | VFloat "32 word" | VDouble "64 word"
  | VStringF16 "byte list" | VStringF32 "byte list" | VStringF64 "byte list" | VStringVint "byte list"

fun kind_of :: "field \<Rightarrow> kind" where
  "kind_of (VFint8 _) = KFint8"
| "kind_of (VFuint8 _) = KFuint8"
| "kind_of (VFint16 _) = KFint16"
| "kind_of (VFuint16 _) = KFuint16"
| "kind_of (VFint32 _) = KFint32"
| "kind_of (VFuint32 _) = KFuint32"
| "kind_of (VFint64 _) = KFint64"
| "kind_of (VFuint64 _) = KFuint64"
| "kind_of (VInt32 _) = KInt32"
| "kind_of (VUint32 _) = KUint32"
| "kind_of (VInt64 _) = KInt64"
| "kind_of (VUint64 _) = KUint64"
| "kind_of (VFloat _) = KFloat"
| "kind_of (VDouble _) = KDouble"
| "kind_of (VStringF16 _) = KStringF16"
| "kind_of (VStringF32 _) = KStringF32"
| "kind_of (VStringF64 _) = KStringF64"
| "kind_of (VStringVint _) = KStringVint"

fun put_field :: "bool \<Rightarrow> field \<Rightarrow> unit bop" where
  "put_field h (VFint8 v) = writeFint8 v"
| "put_field h (VFuint8 v) = writeFuint8 v"
| "put_field h (VFint16 v) = writeFint16 h v"
| "put_field h (VFuint16 v) = writeFuint16 h v"
| "put_field h (VFint32 v) = writeFint32 h v"
| "put_field h (VFuint32 v) = writeFuint32 h v"
| "put_field h (VFint64 v) = writeFint64 h v"
| "put_field h (VFuint64 v) = writeFuint64 h v"
| "put_field h (VInt32 v) = writeInt32 v"
| "put_field h (VUint32 v) = writeUint32 v"
| "put_field h (VInt64 v) = writeInt64 v"
| "put_field h (VUint64 v) = writeUint64 v"
| "put_field h (VFloat v) = writeFloat h v"
| "put_field h (VDouble v) = writeDouble h v"
| "put_field h (VStringF16 v) = writeStringF16 h v"
| "put_field h (VStringF32 v) = writeStringF32 h v"
| "put_field h (VStringF64 v) = writeStringF64 h v"
| "put_field h (VStringVint v) = writeStringVint v"

fun get_field :: "bool \<Rightarrow> kind \<Rightarrow> field bop" where
  "get_field h KFint8 = bindB readFint8 (\<lambda>v. retB (VFint8 v))"
| "get_field h KFuint8 = bindB readFuint8 (\<lambda>v. retB (VFuint8 v))"
| "get_field h KFint16 = bindB (readFint16 h) (\<lambda>v. retB (VFint16 v))"
| "get_field h KFuint16 = bindB (readFuint16 h) (\<lambda>v. retB (VFuint16 v))"
| "get_field h KFint32 = bindB (readFint32 h) (\<lambda>v. retB (VFint32 v))"
| "get_field h KFuint32 = bindB (readFuint32 h) (\<lambda>v. retB (VFuint32 v))"
| "get_field h KFint64 = bindB (readFint64 h) (\<lambda>v. retB (VFint64 v))"
| "get_field h KFuint64 = bindB (readFuint64 h) (\<lambda>v. retB (VFuint64 v))"
| "get_field h KInt32 = bindB readInt32 (\<lambda>v. retB (VInt32 v))"
| "get_field h KUint32 = bindB readUint32 (\<lambda>v. retB (VUint32 v))"
| "get_field h KInt64 = bindB readInt64 (\<lambda>v. retB (VInt64 v))"
| "get_field h KUint64 = bindB readUint64 (\<lambda>v. retB (VUint64 v))"
| "get_field h KFloat = bindB (readFloat h) (\<lambda>v. retB (VFloat v))"
| "get_field h KDouble = bindB (readDouble h) (\<lambda>v. retB (VDouble v))"
| "get_field h KStringF16 = bindB (readStringF16 h) (\<lambda>v. retB (VStringF16 v))"
| "get_field h KStringF32 = bindB (readStringF32 h) (\<lambda>v. retB (VStringF32 v))"
| "get_field h KStringF64 = bindB (readStringF64 h) (\<lambda>v. retB (VStringF64 v))"
| "get_field h KStringVint = bindB readStringVint (\<lambda>v. retB (VStringVint v))"

text \<open>
  The bytes of a value, the values an operation keeps (a signed value in its range, for zigzag in the
  part of the range it can encode, a string no longer than its length field can say), and those that
  can be read at the very end of the last block (all but the empty string).
\<close>

fun field_bytes :: "bool \<Rightarrow> field \<Rightarrow> byte list" where
  "field_bytes l (VFint8 v) = [word_of_int v]"
| "field_bytes l (VFuint8 v) = [v]"
| "field_bytes l (VFint16 v) = in_order l (le_bytes 2 (to_unsigned 16 v))"
| "field_bytes l (VFuint16 v) = in_order l (le_bytes 2 (unat v))"
| "field_bytes l (VFint32 v) = in_order l (le_bytes 4 (to_unsigned 32 v))"
| "field_bytes l (VFuint32 v) = in_order l (le_bytes 4 (unat v))"
| "field_bytes l (VFint64 v) = in_order l (le_bytes 8 (to_unsigned 64 v))"
| "field_bytes l (VFuint64 v) = in_order l (le_bytes 8 (unat v))"
| "field_bytes l (VInt32 v) = zigzag32 v"
| "field_bytes l (VUint32 v) = varint32 v"
| "field_bytes l (VInt64 v) = zigzag64 v"
| "field_bytes l (VUint64 v) = varint64 v"
| "field_bytes l (VFloat v) = in_order l (le_bytes 4 (unat v))"
| "field_bytes l (VDouble v) = in_order l (le_bytes 8 (unat v))"
| "field_bytes l (VStringF16 v) = in_order l (le_bytes 2 (length v)) @ v"
| "field_bytes l (VStringF32 v) = in_order l (le_bytes 4 (length v)) @ v"
| "field_bytes l (VStringF64 v) = in_order l (le_bytes 8 (length v)) @ v"
| "field_bytes l (VStringVint v) = varint64 (word_of_nat (length v)) @ v"

fun field_ok :: "field \<Rightarrow> bool" where
  "field_ok (VFint8 v) \<longleftrightarrow> - 128 \<le> v \<and> v < 128"
| "field_ok (VFint16 v) \<longleftrightarrow> - (2 ^ 15) \<le> v \<and> v < 2 ^ 15"
| "field_ok (VFint32 v) \<longleftrightarrow> - (2 ^ 31) \<le> v \<and> v < 2 ^ 31"
| "field_ok (VFint64 v) \<longleftrightarrow> - (2 ^ 63) \<le> v \<and> v < 2 ^ 63"
| "field_ok (VInt32 v) \<longleftrightarrow> - (2 ^ 31) < v \<and> v < 2 ^ 30"
| "field_ok (VInt64 v) \<longleftrightarrow> - (2 ^ 63) < v \<and> v < 2 ^ 62"
| "field_ok (VStringF16 v) \<longleftrightarrow> length v < 2 ^ 16"
| "field_ok (VStringF32 v) \<longleftrightarrow> length v < 2 ^ 32"
| "field_ok (VStringF64 v) \<longleftrightarrow> length v < 2 ^ 64"
| "field_ok (VStringVint v) \<longleftrightarrow> length v < 2 ^ 64"
| "field_ok _ \<longleftrightarrow> True"

fun field_tight :: "field \<Rightarrow> bool" where
  "field_tight (VStringF16 v) \<longleftrightarrow> v \<noteq> []"
| "field_tight (VStringF32 v) \<longleftrightarrow> v \<noteq> []"
| "field_tight (VStringF64 v) \<longleftrightarrow> v \<noteq> []"
| "field_tight (VStringVint v) \<longleftrightarrow> v \<noteq> []"
| "field_tight _ \<longleftrightarrow> True"

lemma field_writes: "field_ok f \<Longrightarrow> writes l (put_field h f) (field_bytes l f)"
  by (cases f) (simp_all add: writeFint8_def writeFuint8_def writeFint16_def writeFuint16_def writeFint32_def
      writeFuint32_def writeFint64_def writeFuint64_def writeFloat_def writeDouble_def writes_bytes writes_fixed
      varint32_facts varint64_facts zigzag_facts string_writes)

lemma field_reads: "field_ok f \<Longrightarrow> reads l (get_field h (kind_of f)) f (field_bytes l f) (field_tight f)"
  by (cases f) (simp_all add: reads_map reads_int8 reads_uint8 reads_signed reads_unsigned readFloat_def readDouble_def
      varint32_facts varint64_facts zigzag_facts string_reads)

interpretation fields: codec "put_field h" "get_field h'" kind_of field_bytes field_ok field_tight for h h'
  by unfold_locales (simp_all add: field_writes field_reads)

section \<open>Properties\<close>

text \<open>
  C3. What is written is read back. Take any list of values of the typed operations, in any order, that fit
  their encoding (\<open>field_ok\<close>: a value of a fixed width is in the range of that width, a signed value of variable length
  is above \<^verbatim>\<open>-2^31\<close> and below \<^verbatim>\<open>2^30\<close>, or above \<^verbatim>\<open>-2^63\<close> and below \<^verbatim>\<open>2^62\<close>, and a string is shorter than its
  length field counts). In either byte order, over any block size and from any position, writing them never fails. When
  no value of the list is an empty string, or the writing stops before the end of the last block, going back and
  reading values of these kinds gives the list back (also on a machine of the other byte order) and ends where the
  writing ended.
\<close>

theorem values_roundtrip:
  assumes "array_ok s" and "list_all field_ok fs"
  shows "\<exists>s1. put_seq (put_field h) fs s = Ret (Some (), s1) \<and> array_ok s1 \<and>
    (list_all field_tight fs \<or> position s1 < capacity s1 \<longrightarrow>
      (\<exists>s2 s3. setPosition (position s) s1 = Ret (Some (), s2) \<and>
         get_seq (get_field h') (map kind_of fs) s2 = Ret (Some fs, s3) \<and> array_ok s3 \<and> view s3 = view s1))"
  by (rule fields.seq_roundtrip [OF assms])

theorem values_roundtrip_witness:
  "\<exists>s1 s2 s3. put_seq (put_field True) [VFint16 (- 5), VInt32 (- 70000), VStringF16 [1, 2, 3], VUint64 300]
      (new_array (\<lambda>k j. 0) 4) = Ret (Some (), s1) \<and>
    setPosition 0 s1 = Ret (Some (), s2) \<and>
    get_seq (get_field False) [KFint16, KInt32, KStringF16, KUint64] s2 =
      Ret (Some [VFint16 (- 5), VInt32 (- 70000), VStringF16 [1, 2, 3], VUint64 300], s3)"
proof -
  have ok: "array_ok (new_array (\<lambda>k j. 0) 4)" by (rule array_ok_new) simp
  have pos: "position (new_array (\<lambda>k j. 0) 4) = 0" by (simp add: new_array_def)
  let ?fs = "[VFint16 (- 5), VInt32 (- 70000), VStringF16 [1, 2, 3], VUint64 300]"
  have f: "list_all field_ok ?fs" "list_all field_tight ?fs" by simp_all
  have k: "map kind_of ?fs = [KFint16, KInt32, KStringF16, KUint64]" by simp
  show ?thesis using values_roundtrip [OF ok f(1), of True False] f(2) unfolding pos k by blast
qed

text \<open>
  The variable width encoding fits its array on the stack: a 32-bit number takes between one and
  five bytes, a 64-bit number between one and ten, and a number below 128 takes exactly one.
\<close>

theorem varints_bounded:
  "(\<exists>bs. put_varint 5 [] (v :: 32 word) = Ret bs \<and> 1 \<le> length bs \<and> length bs \<le> 5 \<and> (v < 128 \<longrightarrow> length bs = 1)) \<and>
   (\<exists>bs. put_varint 10 [] (w :: 64 word) = Ret bs \<and> 1 \<le> length bs \<and> length bs \<le> 10 \<and> (w < 128 \<longrightarrow> length bs = 1))"
proof
  have "v < 128 \<Longrightarrow> varint32 v = [ucast v]"
    by (simp add: varint32_def put_varint.simps [of 5 "[]" v])
  then show "\<exists>bs. put_varint 5 [] v = Ret bs \<and> 1 \<le> length bs \<and> length bs \<le> 5 \<and> (v < 128 \<longrightarrow> length bs = 1)"
    using varint32_facts(1-3) [of v] by (intro exI [of _ "varint32 v"]) (auto simp: Suc_le_eq)
  have "w < 128 \<Longrightarrow> varint64 w = [ucast w]"
    by (simp add: varint64_def put_varint.simps [of 10 "[]" w])
  then show "\<exists>bs. put_varint 10 [] w = Ret bs \<and> 1 \<le> length bs \<and> length bs \<le> 10 \<and> (w < 128 \<longrightarrow> length bs = 1)"
    using varint64_facts(1-3) [of w] by (intro exI [of _ "varint64 w"]) (auto simp: Suc_le_eq)
qed

theorem varints_bounded_witness:
  "\<exists>bs. put_varint 5 [] (127 :: 32 word) = Ret bs \<and> length bs = 1"
proof -
  have "(127 :: 32 word) < 128" by simp
  with varints_bounded [of 127 0] show ?thesis by blast
qed

text \<open>
  Zigzag covers only part of the signed range. Writing a 32-bit signed number with variable width
  is undefined (the doubling or the negation overflows the signed type) exactly for the upper half of
  the positive numbers and the smallest number; for all others the array gets the zigzag code and the
  reader gets the number back.
\<close>

theorem zigzag_is_partial:
  assumes "array_ok s" and "- (2 ^ 31) \<le> v" and "v < 2 ^ 31"
  shows "if v = - (2 ^ 31) \<or> 2 ^ 30 \<le> v then writeInt32 v s = Fault SignedOverflow
    else (\<exists>s'. writeInt32 v s = Ret (Some (), s') \<and> view s' = flat_write (zigzag32 v) (view s)) \<and>
      reads (little s) readInt32 v (zigzag32 v) True"
proof (cases "v = - (2 ^ 31) \<or> 2 ^ 30 \<le> v")
  case True
  then have "EncodeZigzag32 v = Fault SignedOverflow"
    by (auto simp: EncodeZigzag32_def sub32_def mul32_def in_i32_def)
  with True show ?thesis by (simp add: writeInt32_def bindB_def liftB_def)
next
  case False
  with assms(2,3) have "- (2 ^ 31) < v" "v < 2 ^ 30" by auto
  from zigzag_facts(1) [OF this, of "little s"] writesD [OF _ assms(1) refl] False
  show ?thesis by auto
qed

theorem zigzag_is_partial_witness:
  "writeInt32 1073741824 (new_array (\<lambda>k j. 0) 4) = Fault SignedOverflow"
proof -
  have "array_ok (new_array (\<lambda>k j. 0) 4)" by (rule array_ok_new) simp
  from zigzag_is_partial [OF this, of 1073741824] show ?thesis by simp
qed

text \<open>
  The length field of \<^verbatim>\<open>writeStringF16\<close> keeps the low 16 bits of the length while all bytes are
  written: a string of 65536 bytes or more is read back cut to its length modulo 65536.
\<close>

theorem long_strings_are_cut:
  assumes ok: "array_ok s" and n: "n = length str mod 2 ^ 16" and pos: "0 < n"
  shows "\<exists>s1 s2 s3. writeStringF16 h str s = Ret (Some (), s1) \<and>
    setPosition (position s) s1 = Ret (Some (), s2) \<and> readStringF16 h' s2 = Ret (Some (take n str), s3)"
proof -
  let ?l = "little s" and ?p = "position s" and ?bs = "in_order (little s) (le_bytes 2 n) @ str"
  have un: "unat (word_of_nat (length str) :: 16 word) = n" by (simp add: unat_of_nat n)
  have "writes ?l (writeStringF16 h str) ?bs"
    unfolding writeStringF16_def writeFuint16_def un by (rule writes_bind [OF writes_fixed writes_bytes])
  from writesD [OF this ok refl] obtain s1 where s1: "writeStringF16 h str s = Ret (Some (), s1)"
    "array_ok s1" "view s1 = flat_write ?bs (view s)" "little s1 = ?l" by blast
  have p: "?p \<le> length (data s)" by (rule view_in_range [OF ok])
  define pre post where "pre = take ?p (data s)" and "post = drop n str @ drop (?p + length ?bs) (data s)"
  let ?as = "in_order ?l (le_bytes 2 n) @ take n str"
  have pre: "length pre = ?p" using p by (simp add: pre_def)
  have v1: "data s1 = pre @ ?as @ post"
    using s1(3) append_take_drop_id [of n str] by (simp add: view_def poke_def pre_def post_def)
  have "?p \<le> size_used s1" using length_data [OF s1(2)] v1 pre by simp
  from setPosition_ok [OF s1(2) this] obtain s2 where
    s2: "setPosition ?p s1 = Ret (Some (), s2)" "array_ok s2" "view s2 = (pre @ ?as @ post, length pre)" "little s2 = ?l"
    using s1(4) v1 pre by auto
  have "n \<le> length str" by (simp add: n)
  then have len: "length (take n str) = n" by simp
  have "n < 2 ^ 16" by (simp add: n)
  moreover have "str \<noteq> []" using pos \<open>n \<le> length str\<close> by auto
  ultimately have "reads ?l (readStringF16 h') (take n str) ?as True"
    using string_reads(1) [of "take n str" ?l h'] len pos by auto
  from readsD [OF this s2(2,4,3)] s1(1) s2(1) show ?thesis by blast
qed

theorem long_strings_are_cut_witness:
  "\<exists>s1 s2 s3. writeStringF16 True (replicate 65539 1) (new_array (\<lambda>k j. 0) 4096) = Ret (Some (), s1) \<and>
    setPosition 0 s1 = Ret (Some (), s2) \<and> readStringF16 True s2 = Ret (Some [1, 1, 1], s3)"
proof -
  have ok: "array_ok (new_array (\<lambda>k j. 0) 4096)" by (rule array_ok_new) simp
  have pos: "position (new_array (\<lambda>k j. 0) 4096) = 0" by (simp add: new_array_def)
  have "take 3 (replicate 65539 (1 :: byte)) = [1, 1, 1]" by (simp add: numeral_3_eq_3)
  with long_strings_are_cut [OF ok, of 3 "replicate 65539 1" True True] pos show ?thesis by simp
qed

lemma write_capacity:
  "write_bytes buf s = Ret (r, s') \<Longrightarrow> position s + length buf \<le> capacity s \<Longrightarrow> capacity s' = capacity s"
  by (auto simp: write_bytes_def stateB_def addCapacity_def getCapacity_def Let_def split: if_splits prod.splits)

lemma read_nothing_at_end:
  assumes "array_ok s" and "position s = capacity s"
  shows "read_bytes 0 s = Fault NullPointer"
  using cur_cases(2) [OF assms] by (simp add: read_bytes_def read_loop.simps)

text \<open>
  An empty string cannot be read at the end of the last block: a read of no bytes still looks at
  the current node, which is null there. Whatever block size and byte order, an empty string whose
  length field ends a block is written, and reading it dereferences the null pointer.
\<close>

theorem empty_string_at_block_end:
  assumes "2 \<le> b"
  shows "\<exists>s1 s2. bindB (write_bytes (replicate (b - 2) 0)) (\<lambda>_. writeStringF16 h []) (new_array j b) = Ret (Some (), s1) \<and>
    setPosition (b - 2) s1 = Ret (Some (), s2) \<and> readStringF16 h' s2 = Fault NullPointer"
proof -
  let ?s = "new_array j b" and ?f = "replicate (b - 2) 0 :: byte list" and ?z = "in_order False (le_bytes 2 0)"
  have ok: "array_ok ?s" by (rule array_ok_new) (use assms in simp)
  have v: "view ?s = ([], 0)" "little ?s = False" "capacity ?s = b" "position ?s = 0"
    by (simp_all add: view_def data_def new_array_def)
  from writesD [OF writes_bytes ok v(2), of ?f] v(1) obtain s0 where s0: "write_bytes ?f ?s = Ret (Some (), s0)"
    "array_ok s0" "view s0 = (?f, b - 2)" "little s0 = False" by (auto simp: poke_def)
  from write_capacity [OF s0(1)] v have c0: "capacity s0 = b" by simp
  have zero: "write_fixed h 2 0 s0 = write_bytes ?z s0"
    using s0(4) by (simp add: write_fixed_def in_order_def byteswap_bytes)
  from writesD [OF writes_bytes s0(2,4), of ?z] s0(3) obtain s1 where s1: "write_bytes ?z s0 = Ret (Some (), s1)"
    "array_ok s1" "view s1 = (?f @ ?z, b - 2 + 2)" "little s1 = False"
    by (auto simp: poke_def in_order_def)
  have "position s0 + length ?z \<le> capacity s0" using s0(3) c0 assms by (simp add: view_def in_order_def)
  with write_capacity [OF s1(1)] c0 have c1: "capacity s1 = b" by simp
  have "writeStringF16 h [] s0 = Ret (Some (), s1)"
    using s1(1) by (simp add: writeStringF16_def writeFuint16_def bindB_def zero write_bytes_def stateB_def)
  with s0(1) have w: "bindB (write_bytes ?f) (\<lambda>_. writeStringF16 h []) ?s = Ret (Some (), s1)"
    by (simp add: bindB_def)
  have "b - 2 \<le> size_used s1" using length_data [OF s1(2)] s1(3) by (simp add: view_def)
  from setPosition_ok [OF s1(2) this] s1(3,4) c1 obtain s2 where s2: "setPosition (b - 2) s1 = Ret (Some (), s2)"
    "array_ok s2" "view s2 = (?f @ ?z @ [], length ?f)" "little s2 = False" "capacity s2 = b"
    by (auto simp: view_def)
  from readsD [OF reads_unsigned(1) [of False h' 0] s2(2,4), of ?f "[]"] s2(3,5) obtain s3 where
    s3: "readFuint16 h' s2 = Ret (Some 0, s3)" "array_ok s3" "view s3 = (?f @ ?z, b - 2 + 2)" "capacity s3 = b"
    by (auto simp: in_order_def)
  have "position s3 = capacity s3" using s3(3,4) assms by (simp add: view_def)
  then have "readStringF16 h' s2 = Fault NullPointer"
    using s3(1) read_nothing_at_end [OF s3(2)] by (simp add: readStringF16_def bindB_def)
  with w s2(1) show ?thesis by blast
qed

theorem empty_string_at_block_end_witness:
  "\<exists>s1 s2. bindB (write_bytes (replicate 4094 0)) (\<lambda>_. writeStringF16 True []) (new_array (\<lambda>k j. 0) 4096) = Ret (Some (), s1) \<and>
    setPosition 4094 s1 = Ret (Some (), s2) \<and> readStringF16 True s2 = Fault NullPointer"
  using empty_string_at_block_end [of 4096 True "\<lambda>k j. 0" True] by simp

end
