(* ===== verification/Lru.thy ===== *)
theory Lru
  imports Machine
begin

text \<open>
  \<open>ancfl/ds/lru_cache.h\<close>: the cache that drops the least recently used entries, a list of nodes and a
  hash map of iterators into it, and its refinement to a list of pairs in the order of their last use.
\<close>

section \<open>Data\<close>

text \<open>
  The counters of \<open>ancfl/ds/cache_status.h\<close>, changed by atomic additions that wrap around.
\<close>

record CacheStatus =
  m_get :: u64
  m_set :: u64
  m_del :: u64
  m_timeout :: u64
  m_prune :: u64
  m_hit :: u64

definition new_status :: CacheStatus where
  "new_status = \<lparr>m_get = 0, m_set = 0, m_del = 0, m_timeout = 0, m_prune = 0, m_hit = 0\<rparr>"

definition merge_status :: "CacheStatus \<Rightarrow> CacheStatus \<Rightarrow> CacheStatus" where
  "merge_status s t = \<lparr>m_get = m_get s + m_get t, m_set = m_set s + m_set t, m_del = m_del s + m_del t,
     m_timeout = m_timeout s + m_timeout t, m_prune = m_prune s + m_prune t, m_hit = m_hit s + m_hit t\<rparr>"

text \<open>
  An iterator of a \<^verbatim>\<open>std::list\<close> is the name of its node. \<open>m_keys\<close> lists the nodes with their contents,
  \<open>m_cache\<close> maps a key to the iterator of its node.
\<close>

record ('k, 'v) LruCache =
  m_cache :: "('k \<times> nat) list"
  m_keys :: "(nat \<times> 'k \<times> 'v) list"
  m_maxSize :: u64
  m_elasticity :: u64
  m_status :: CacheStatus
  next_name :: nat

definition new_lru :: "u64 \<Rightarrow> u64 \<Rightarrow> ('k, 'v) LruCache" where
  "new_lru mx el = \<lparr>m_cache = [], m_keys = [], m_maxSize = mx, m_elasticity = el, m_status = new_status,
     next_name = 0\<rparr>"

section \<open>Operations\<close>

definition getMaxAllowedSize :: "('k, 'v) LruCache \<Rightarrow> u64" where
  "getMaxAllowedSize s = m_maxSize s + m_elasticity s"

text \<open>
  The loop of \<^verbatim>\<open>prune\<close>: the last node is dropped, with the entry of its key, until the map is small
  enough. It answers the dropped pairs, for which the callback was called.
\<close>

function prune_loop ::
  "nat \<Rightarrow> ('k \<times> nat) list \<Rightarrow> (nat \<times> 'k \<times> 'v) list \<Rightarrow>
   (('k \<times> 'v) list \<times> ('k \<times> nat) list \<times> (nat \<times> 'k \<times> 'v) list) outcome" where
  "prune_loop mx cache ks =
     (if length cache \<le> mx then Ret ([], cache, ks)
      else if ks = [] then Fault OutOfRange
      else
        let (a, k, v) = last ks in
        bindO (prune_loop mx (AList.delete k cache) (butlast ks)) (\<lambda>(out, r). Ret ((k, v) # out, r)))"
  by pat_completeness auto
termination
  by (relation "measure (\<lambda>(mx, cache, ks). length ks)") auto

declare prune_loop.simps [simp del]

definition prune :: "('k, 'v) LruCache \<Rightarrow> (('k \<times> 'v) list \<times> ('k, 'v) LruCache) outcome" where
  "prune s =
     (if m_maxSize s = 0 \<or> length (m_cache s) < unat (getMaxAllowedSize s) then Ret ([], s)
      else bindO (prune_loop (unat (m_maxSize s)) (m_cache s) (m_keys s)) (\<lambda>(out, cache, ks).
        Ret (out, s\<lparr>m_cache := cache, m_keys := ks,
          m_status := (m_status s)\<lparr>m_prune := m_prune (m_status s) + of_nat (length out)\<rparr>\<rparr>)))"

text \<open>\<^verbatim>\<open>splice\<close> of one node to the front, when the iterator is valid.\<close>

definition to_front :: "nat \<Rightarrow> ('k \<times> 'v \<Rightarrow> 'k \<times> 'v) \<Rightarrow> (nat \<times> 'k \<times> 'v) list \<Rightarrow> (('k \<times> 'v) \<times> (nat \<times> 'k \<times> 'v) list) outcome" where
  "to_front a f ks =
     (case map_of ks a of
        None \<Rightarrow> Fault DanglingIterator
      | Some x \<Rightarrow> Ret (f x, (a, f x) # del_first (\<lambda>n. fst n = a) ks))"

definition lru_set :: "'k \<Rightarrow> 'v \<Rightarrow> (('k, 'v) LruCache, ('k \<times> 'v) list) oper" where
  "lru_set k v = guarded (\<lambda>s0.
     let s = s0\<lparr>m_status := (m_status s0)\<lparr>m_set := m_set (m_status s0) + 1\<rparr>\<rparr> in
     case map_of (m_cache s) k of
       Some a \<Rightarrow> bindO (to_front a (\<lambda>x. (fst x, v)) (m_keys s)) (\<lambda>(x, ks). Ret ([], s\<lparr>m_keys := ks\<rparr>))
     | None \<Rightarrow> prune (s\<lparr>m_keys := (next_name s, k, v) # m_keys s,
                       m_cache := (k, next_name s) # m_cache s, next_name := next_name s + 1\<rparr>))"

definition lru_get :: "'k \<Rightarrow> (('k, 'v) LruCache, 'v option) oper" where
  "lru_get k = guarded (\<lambda>s0.
     let s = s0\<lparr>m_status := (m_status s0)\<lparr>m_get := m_get (m_status s0) + 1\<rparr>\<rparr> in
     case map_of (m_cache s) k of
       None \<Rightarrow> Ret (None, s)
     | Some a \<Rightarrow> bindO (to_front a (\<lambda>x. x) (m_keys s)) (\<lambda>(x, ks).
         Ret (Some (snd x), s\<lparr>m_keys := ks, m_status := (m_status s)\<lparr>m_hit := m_hit (m_status s) + 1\<rparr>\<rparr>)))"

definition lru_del :: "'k \<Rightarrow> (('k, 'v) LruCache, bool) oper" where
  "lru_del k = guarded (\<lambda>s0.
     let s = s0\<lparr>m_status := (m_status s0)\<lparr>m_del := m_del (m_status s0) + 1\<rparr>\<rparr> in
     case map_of (m_cache s) k of
       None \<Rightarrow> Ret (False, s)
     | Some a \<Rightarrow>
         if map_of (m_keys s) a = None then Fault DanglingIterator
         else Ret (True, s\<lparr>m_keys := del_first (\<lambda>n. fst n = a) (m_keys s),
                          m_cache := AList.delete k (m_cache s)\<rparr>))"

definition lru_exists :: "'k \<Rightarrow> (('k, 'v) LruCache, bool) oper" where
  "lru_exists k = guarded (\<lambda>s. Ret (map_of (m_cache s) k \<noteq> None, s))"

definition lru_size :: "(('k, 'v) LruCache, nat) oper" where
  "lru_size = guarded (\<lambda>s. Ret (length (m_cache s), s))"

definition lru_empty :: "(('k, 'v) LruCache, bool) oper" where
  "lru_empty = guarded (\<lambda>s. Ret (m_cache s = [], s))"

definition lru_clear :: "(('k, 'v) LruCache, bool) oper" where
  "lru_clear = guarded (\<lambda>s. Ret (True, s\<lparr>m_cache := [], m_keys := []\<rparr>))"

definition setMaxSize :: "u64 \<Rightarrow> (('k, 'v) LruCache, unit) oper" where
  "setMaxSize n = on_state (\<lambda>s. Ret ((), s\<lparr>m_maxSize := n\<rparr>))"

definition setElasticity :: "u64 \<Rightarrow> (('k, 'v) LruCache, unit) oper" where
  "setElasticity n = on_state (\<lambda>s. Ret ((), s\<lparr>m_elasticity := n\<rparr>))"

section \<open>The order of use\<close>

text \<open>The abstract cache: the pairs, the most recently used first.\<close>

definition items :: "('k, 'v) LruCache \<Rightarrow> ('k \<times> 'v) list" where
  "items s = map snd (m_keys s)"

definition drop_key :: "'k \<Rightarrow> ('k \<times> 'v) list \<Rightarrow> ('k \<times> 'v) list" where
  "drop_key k xs = filter (\<lambda>x. fst x \<noteq> k) xs"

definition shrink :: "nat \<Rightarrow> nat \<Rightarrow> 'a list \<Rightarrow> 'a list" where
  "shrink mx allowed xs = (if mx = 0 \<or> length xs < allowed then xs else take mx xs)"

definition use_set :: "nat \<Rightarrow> nat \<Rightarrow> 'k \<Rightarrow> 'v \<Rightarrow> ('k \<times> 'v) list \<Rightarrow> ('k \<times> 'v) list" where
  "use_set mx allowed k v xs =
     (if map_of xs k = None then shrink mx allowed ((k, v) # xs) else (k, v) # drop_key k xs)"

definition use_get :: "'k \<Rightarrow> ('k \<times> 'v) list \<Rightarrow> ('k \<times> 'v) list" where
  "use_get k xs = (case map_of xs k of None \<Rightarrow> xs | Some v \<Rightarrow> (k, v) # drop_key k xs)"

text \<open>The map and the list hold the same keys, and every iterator is valid.\<close>

definition paired :: "('k \<times> nat) list \<Rightarrow> (nat \<times> 'k \<times> 'v) list \<Rightarrow> bool" where
  "paired cache ks \<longleftrightarrow> keys_ok cache \<and> distinct (map fst ks) \<and> keys_ok (map snd ks) \<and>
     set cache = (\<lambda>(a, k, v). (k, a)) ` set ks"

definition lru_inv :: "('k, 'v) LruCache \<Rightarrow> bool" where
  "lru_inv s \<longleftrightarrow> paired (m_cache s) (m_keys s) \<and> (\<forall>n\<in>set (m_keys s). fst n < next_name s)"

lemma paired_Nil [simp]: "paired [] []"
  by (simp add: paired_def)

lemma paired_lookup:
  assumes "paired cache ks" and "map_of cache k = Some a"
  obtains v where "map_of ks a = Some (k, v)" and "map_of (map snd ks) k = Some v"
proof -
  from assms have "(k, a) \<in> set cache" by (simp add: map_of_SomeD)
  with assms(1) obtain v where "(a, k, v) \<in> set ks" by (auto simp: paired_def)
  moreover from this have "(k, v) \<in> set (map snd ks)" by force
  ultimately show ?thesis using that assms(1) by (simp add: paired_def keys_ok_def)
qed

lemma paired_absent:
  "paired cache ks \<Longrightarrow> map_of cache k = None \<longleftrightarrow> map_of (map snd ks) k = None"
  by (simp add: map_of_eq_None_iff image_image paired_def case_prod_beta)

lemma paired_length:
  assumes "paired cache ks"
  shows "length cache = length ks"
proof -
  have "inj_on (\<lambda>(a, k, v). (k, a)) (set ks)"
    using assms by (auto simp: inj_on_def paired_def dest: eq_key_imp_eq_value)
  moreover have "distinct cache" "distinct ks"
    using assms by (auto simp: paired_def keys_ok_def distinct_map)
  ultimately show ?thesis
    using assms card_image [of "\<lambda>(a, k, v). (k, a)" "set ks"]
    by (simp add: paired_def distinct_card [symmetric])
qed

text \<open>Removing the node of a key is dropping the key.\<close>

lemma drop_absent: "k \<notin> fst ` set xs \<Longrightarrow> drop_key k xs = xs"
  by (induction xs) (auto simp: drop_key_def)

lemma keys_ok_drop_key [simp]: "keys_ok xs \<Longrightarrow> keys_ok (drop_key k xs)"
  by (simp add: keys_ok_def drop_key_def distinct_map_filter)

lemma keys_drop_key [simp]: "fst ` set (drop_key k xs) = fst ` set xs - {k}"
  by (auto simp: drop_key_def)

lemma del_node:
  assumes "distinct (map fst ks)" and "keys_ok (map snd ks)" and "map_of ks a = Some (k, v)"
  shows "map snd (del_first (\<lambda>n. fst n = a) ks) = drop_key k (map snd ks) \<and>
    set (del_first (\<lambda>n. fst n = a) ks) = set ks - {(a, k, v)}"
  using assms
proof (induction ks)
  case Nil
  then show ?case by simp
next
  case (Cons n ks)
  show ?case
  proof (cases "fst n = a")
    case True
    with Cons.prems(3) have n: "n = (a, k, v)" by (cases n) simp
    with Cons.prems(1,2) have "k \<notin> fst ` set (map snd ks)" and "a \<notin> fst ` set ks"
      by (simp_all add: keys_ok_def image_image)
    then have "drop_key k (map snd ks) = map snd ks" and "(a, k, v) \<notin> set ks"
      using drop_absent [of k "map snd ks"] by (simp, force)
    then show ?thesis by (simp add: n drop_key_def)
  next
    case False
    with Cons.prems(3) have look: "map_of ks a = Some (k, v)" by (cases n) simp
    have "k \<in> fst ` set (map snd ks)" using map_of_SomeD [OF look] by force
    moreover have "fst (snd n) \<notin> fst ` set (map snd ks)"
      using Cons.prems(2) by (simp add: keys_ok_def image_image)
    ultimately have "fst (snd n) \<noteq> k" by blast
    moreover have "n \<noteq> (a, k, v)" using False by auto
    ultimately show ?thesis using Cons.IH [OF _ _ look] Cons.prems(1,2) False
      by (auto simp: drop_key_def keys_ok_def)
  qed
qed

lemma paired_front:
  assumes "paired cache ks" and "map_of ks a = Some (k, v)"
  shows "paired cache ((a, k, w) # del_first (\<lambda>n. fst n = a) ks)"
proof -
  let ?ks = "del_first (\<lambda>n. fst n = a) ks"
  have d: "map snd ?ks = drop_key k (map snd ks)" "set ?ks = set ks - {(a, k, v)}"
    and m: "(a, k, v) \<in> set ks"
    using assms del_node [of ks a k v] by (auto simp: paired_def dest: map_of_SomeD)
  have "a \<notin> fst ` set ?ks"
    using assms m by (auto simp: d(2) paired_def dest: eq_key_imp_eq_value)
  moreover have "keys_ok ((k, w) # map snd ?ks)"
    using assms(1) keys_ok_drop_key [of "map snd ks" k] keys_drop_key [of k "map snd ks"]
    unfolding d(1) by (auto simp: paired_def keys_ok_def)
  moreover have "(\<lambda>(a, k, v). (k, a)) ` set ((a, k, w) # ?ks) = (\<lambda>(a, k, v). (k, a)) ` set ks"
    using m unfolding list.set(2) d(2) by force
  ultimately show ?thesis
    using assms(1) by (simp add: paired_def distinct_map_del_first)
qed

lemma paired_remove:
  assumes "paired cache ks" and "map_of ks a = Some (k, v)"
  shows "paired (AList.delete k cache) (del_first (\<lambda>n. fst n = a) ks)"
proof -
  let ?ks = "del_first (\<lambda>n. fst n = a) ks"
  have d: "map snd ?ks = drop_key k (map snd ks)" "set ?ks = set ks - {(a, k, v)}"
    and m: "(a, k, v) \<in> set ks"
    using assms del_node [of ks a k v] by (auto simp: paired_def dest: map_of_SomeD)
  have uniq: "fst (snd n) = k \<longleftrightarrow> n = (a, k, v)" if "n \<in> set ks" for n
    using that m assms(1) inj_onD [of "fst \<circ> snd" "set ks" n "(a, k, v)"]
    by (auto simp: paired_def keys_ok_def distinct_map)
  then have "set ks - {(a, k, v)} = {n \<in> set ks. fst (snd n) \<noteq> k}" by blast
  moreover have "set (AList.delete k cache) = (\<lambda>(a, k, v). (k, a)) ` {n \<in> set ks. fst (snd n) \<noteq> k}"
    using assms(1) by (force simp: paired_def AList.delete_eq)
  ultimately show ?thesis
    using assms(1) by (simp add: paired_def d distinct_map_del_first)
qed

lemma del_first_last: "\<forall>x\<in>set xs. \<not> p x \<Longrightarrow> p y \<Longrightarrow> del_first p (xs @ [y]) = xs"
  by (induction xs) auto

lemma paired_last:
  assumes "paired cache (ks @ [(a, k, v)])"
  shows "paired (AList.delete k cache) ks"
proof -
  from assms have "\<forall>n\<in>set ks. fst n \<noteq> a" by (auto simp: paired_def)
  moreover from this have look: "map_of (ks @ [(a, k, v)]) a = Some (k, v)"
    by (induction ks) auto
  ultimately show ?thesis
    using paired_remove [OF assms look] del_first_last [of ks "\<lambda>n. fst n = a"] by simp
qed

text \<open>The loop of \<^verbatim>\<open>prune\<close> keeps the front of the list and calls back for the rest, the oldest first.\<close>

lemma prune_loop_takes:
  assumes "paired cache ks"
  shows "\<exists>cache'. prune_loop n cache ks = Ret (rev (drop n (map snd ks)), cache', take n ks) \<and>
    paired cache' (take n ks)"
  using assms
proof (induction ks arbitrary: cache rule: rev_induct)
  case Nil
  then show ?case by (simp add: paired_def prune_loop.simps)
next
  case (snoc x ks)
  obtain a k v where x: "x = (a, k, v)" by (cases x)
  show ?case
  proof (cases "Suc (length ks) \<le> n")
    case True
    with snoc.prems paired_length [OF snoc.prems] show ?thesis by (simp add: prune_loop.simps)
  next
    case False
    from snoc.IH [OF paired_last [OF snoc.prems [unfolded x]]] obtain cache' where
      "prune_loop n (AList.delete k cache) ks = Ret (rev (drop n (map snd ks)), cache', take n ks)"
      and "paired cache' (take n ks)" by blast
    moreover have "\<not> length cache \<le> n" using False paired_length [OF snoc.prems] by simp
    ultimately show ?thesis
      using False by (simp add: x prune_loop.simps [of n cache])
  qed
qed

text \<open>What the callback of \<^verbatim>\<open>prune\<close> is called for when \<^verbatim>\<open>shrink\<close> drops the tail.\<close>

definition fallen :: "nat \<Rightarrow> nat \<Rightarrow> 'a list \<Rightarrow> 'a list" where
  "fallen mx allowed xs = rev (drop (length (shrink mx allowed xs)) xs)"

lemma prune_shrinks:
  assumes "lru_inv s"
  shows "\<exists>s'. prune s = Ret (fallen (unat (m_maxSize s)) (unat (getMaxAllowedSize s)) (items s), s') \<and>
    items s' = shrink (unat (m_maxSize s)) (unat (getMaxAllowedSize s)) (items s) \<and> lru_inv s' \<and>
    m_maxSize s' = m_maxSize s \<and> m_elasticity s' = m_elasticity s"
proof -
  have len: "length (m_cache s) = length (items s)" and p: "paired (m_cache s) (m_keys s)"
    using assms by (auto simp: lru_inv_def items_def dest: paired_length)
  show ?thesis
  proof (cases "m_maxSize s = 0 \<or> length (m_cache s) < unat (getMaxAllowedSize s)")
    case True
    with assms show ?thesis
      by (simp add: prune_def shrink_def fallen_def len unat_eq_zero)
  next
    case False
    from prune_loop_takes [OF p, of "unat (m_maxSize s)"] obtain cache' where
      c: "prune_loop (unat (m_maxSize s)) (m_cache s) (m_keys s)
        = Ret (rev (drop (unat (m_maxSize s)) (items s)), cache', take (unat (m_maxSize s)) (m_keys s))"
      "paired cache' (take (unat (m_maxSize s)) (m_keys s))"
      by (auto simp: items_def)
    have "unat (m_maxSize s) \<noteq> 0" using False by (simp add: unat_eq_zero)
    with False assms c show ?thesis
      by (auto simp: prune_def shrink_def fallen_def len items_def take_map lru_inv_def min_def
          dest: in_set_takeD)
  qed
qed

section \<open>The cache as a machine\<close>

text \<open>One command for every public method of the cache that reads or changes it, and their replies.\<close>

datatype ('k, 'v) lru_call =
  LSet 'k 'v | LGet 'k | LDel 'k | LExists 'k | LSize | LEmpty | LClear | LMax u64 | LElasticity u64

datatype ('k, 'v) lru_reply = Pruned "('k \<times> 'v) list" | Found "'v option" | Answer bool | Count nat | Nothing

definition reply_with :: "('a \<Rightarrow> 'r) \<Rightarrow> ('s, 'a) oper \<Rightarrow> ('s, 'r) oper" where
  "reply_with f p m = bindO (p m) (\<lambda>(r, m'). Ret (f r, m'))"

fun lru_exec :: "('k, 'v) lru_call \<Rightarrow> (('k, 'v) LruCache, ('k, 'v) lru_reply) oper" where
  "lru_exec (LSet k v) = reply_with Pruned (lru_set k v)"
| "lru_exec (LGet k) = reply_with Found (lru_get k)"
| "lru_exec (LDel k) = reply_with Answer (lru_del k)"
| "lru_exec (LExists k) = reply_with Answer (lru_exists k)"
| "lru_exec LSize = reply_with Count lru_size"
| "lru_exec LEmpty = reply_with Answer lru_empty"
| "lru_exec LClear = reply_with Answer lru_clear"
| "lru_exec (LMax n) = reply_with (\<lambda>_. Nothing) (setMaxSize n)"
| "lru_exec (LElasticity n) = reply_with (\<lambda>_. Nothing) (setElasticity n)"

text \<open>The abstract cache: the two sizes, and the pairs in the order of their last use.\<close>

type_synonym ('k, 'v) recent = "u64 \<times> u64 \<times> ('k \<times> 'v) list"

definition view :: "('k, 'v) LruCache \<Rightarrow> ('k, 'v) recent" where
  "view s = (m_maxSize s, m_elasticity s, items s)"

fun recent_step :: "('k, 'v) lru_call \<Rightarrow> ('k, 'v) recent \<Rightarrow> ('k, 'v) lru_reply \<times> ('k, 'v) recent" where
  "recent_step (LSet k v) (mx, el, xs) =
     (Pruned (if map_of xs k = None then fallen (unat mx) (unat (mx + el)) ((k, v) # xs) else []),
      mx, el, use_set (unat mx) (unat (mx + el)) k v xs)"
| "recent_step (LGet k) (mx, el, xs) = (Found (map_of xs k), mx, el, use_get k xs)"
| "recent_step (LDel k) (mx, el, xs) = (Answer (map_of xs k \<noteq> None), mx, el, drop_key k xs)"
| "recent_step (LExists k) (mx, el, xs) = (Answer (map_of xs k \<noteq> None), mx, el, xs)"
| "recent_step LSize (mx, el, xs) = (Count (length xs), mx, el, xs)"
| "recent_step LEmpty (mx, el, xs) = (Answer (xs = []), mx, el, xs)"
| "recent_step LClear (mx, el, xs) = (Answer True, mx, el, [])"
| "recent_step (LMax n) (mx, el, xs) = (Nothing, n, el, xs)"
| "recent_step (LElasticity n) (mx, el, xs) = (Nothing, mx, n, xs)"

primrec recent_run ::
  "('k, 'v) lru_call list \<Rightarrow> ('k, 'v) recent \<Rightarrow> ('k, 'v) lru_reply list \<times> ('k, 'v) recent" where
  "recent_run [] t = ([], t)"
| "recent_run (c # cs) t =
     (let (r, t1) = recent_step c t; (rs, t2) = recent_run cs t1 in (r # rs, t2))"

lemma on_state_idle [simp]:
  "on_state f (idle s) = bindO (f s) (\<lambda>(r, s'). Ret (r, idle s'))"
  by (simp add: on_state_def idle_def)

lemmas lru_ops = lru_set_def lru_get_def lru_del_def lru_exists_def lru_size_def lru_empty_def
  lru_clear_def setMaxSize_def setElasticity_def reply_with_def

definition simulated :: "('k, 'v) lru_call \<Rightarrow> ('k, 'v) LruCache \<Rightarrow> bool" where
  "simulated c s \<longleftrightarrow> (\<exists>s'. lru_exec c (idle s) = Ret (fst (recent_step c (view s)), idle s') \<and>
     view s' = snd (recent_step c (view s)) \<and> lru_inv s')"

lemma lru_inv_front:
  assumes "lru_inv s" and "map_of (m_keys s) a = Some (k, v)"
  shows "lru_inv (s\<lparr>m_keys := (a, k, w) # del_first (\<lambda>n. fst n = a) (m_keys s)\<rparr>)"
    and "map snd (del_first (\<lambda>n. fst n = a) (m_keys s)) = drop_key k (items s)"
proof -
  have "a < next_name s" using assms by (auto simp: lru_inv_def dest!: map_of_SomeD)
  with assms paired_front [of "m_cache s" "m_keys s" a k v w] set_del_first [of "\<lambda>n. fst n = a" "m_keys s"]
  show "lru_inv (s\<lparr>m_keys := (a, k, w) # del_first (\<lambda>n. fst n = a) (m_keys s)\<rparr>)"
    by (auto simp: lru_inv_def)
  show "map snd (del_first (\<lambda>n. fst n = a) (m_keys s)) = drop_key k (items s)"
    using assms del_node [of "m_keys s" a k v] by (simp add: lru_inv_def paired_def items_def)
qed

lemma lru_inv_status [simp]:
  "lru_inv (s\<lparr>m_status := st\<rparr>) = lru_inv s"
  "lru_inv (s\<lparr>m_status := st, m_keys := ks\<rparr>) = lru_inv (s\<lparr>m_keys := ks\<rparr>)"
  by (simp_all add: lru_inv_def)

lemma set_simulated:
  assumes "lru_inv s"
  shows "simulated (LSet k v) s"
proof (cases "map_of (m_cache s) k")
  case None
  let ?s = "s\<lparr>m_status := (m_status s)\<lparr>m_set := m_set (m_status s) + 1\<rparr>, m_keys := (next_name s, k, v) # m_keys s,
    m_cache := (k, next_name s) # m_cache s, next_name := next_name s + 1\<rparr>"
  have p: "paired (m_cache s) (m_keys s)" and absent: "map_of (items s) k = None"
    using assms None paired_absent [of "m_cache s" "m_keys s" k] by (auto simp: lru_inv_def items_def)
  then have "paired ((k, next_name s) # m_cache s) ((next_name s, k, v) # m_keys s)"
    using assms None by (auto simp: paired_def keys_ok_def map_of_eq_None_iff items_def lru_inv_def)
  then have "lru_inv ?s" using assms by (auto simp: lru_inv_def)
  from prune_shrinks [OF this] None absent show ?thesis
    by (auto simp: simulated_def lru_ops Let_def view_def items_def use_set_def getMaxAllowedSize_def)
next
  case (Some a)
  with assms obtain w where w: "map_of (m_keys s) a = Some (k, w)" "map_of (items s) k = Some w"
    unfolding lru_inv_def items_def by (meson paired_lookup)
  with lru_inv_front [OF assms w(1)] Some show ?thesis
    by (simp add: simulated_def lru_ops Let_def view_def items_def use_set_def to_front_def)
qed

lemma get_simulated:
  assumes "lru_inv s"
  shows "simulated (LGet k) s"
proof (cases "map_of (m_cache s) k")
  case None
  with assms paired_absent [of "m_cache s" "m_keys s" k] show ?thesis
    by (auto simp: simulated_def lru_ops Let_def view_def items_def use_get_def lru_inv_def)
next
  case (Some a)
  with assms obtain w where w: "map_of (m_keys s) a = Some (k, w)" "map_of (items s) k = Some w"
    unfolding lru_inv_def items_def by (meson paired_lookup)
  with lru_inv_front [OF assms w(1)] Some show ?thesis
    by (simp add: simulated_def lru_ops Let_def view_def items_def use_get_def to_front_def)
qed

lemma del_simulated:
  assumes "lru_inv s"
  shows "simulated (LDel k) s"
proof (cases "map_of (m_cache s) k")
  case None
  with assms paired_absent [of "m_cache s" "m_keys s" k]
  have "map_of (items s) k = None" by (simp add: lru_inv_def items_def)
  moreover from this have "drop_key k (items s) = items s"
    by (intro drop_absent) (simp add: map_of_eq_None_iff)
  ultimately show ?thesis using assms None
    by (simp add: simulated_def lru_ops Let_def view_def items_def)
next
  case (Some a)
  with assms obtain w where w: "map_of (m_keys s) a = Some (k, w)" "map_of (items s) k = Some w"
    unfolding lru_inv_def items_def by (meson paired_lookup)
  have p: "paired (AList.delete k (m_cache s)) (del_first (\<lambda>n. fst n = a) (m_keys s))"
    using paired_remove w(1) assms by (auto simp: lru_inv_def)
  have "fst n < next_name s" if "n \<in> set (del_first (\<lambda>n. fst n = a) (m_keys s))" for n
    using that assms set_del_first by (fastforce simp: lru_inv_def)
  with p lru_inv_front(2) [OF assms w(1)] Some w show ?thesis
    by (simp add: simulated_def lru_ops Let_def view_def items_def lru_inv_def)
qed

lemma call_simulated:
  assumes "lru_inv s"
  shows "simulated c s"
proof -
  have p: "paired (m_cache s) (m_keys s)" using assms by (simp add: lru_inv_def)
  have keys: "map_of (m_cache s) k = None \<longleftrightarrow> map_of (items s) k = None" for k
    using paired_absent [OF p] by (simp add: items_def)
  have len: "length (m_cache s) = length (items s)" using paired_length [OF p] by (simp add: items_def)
  then have empty: "m_cache s = [] \<longleftrightarrow> items s = []" by (metis length_0_conv)
  show ?thesis
  proof (cases c)
    case (LSet k v)
    with assms show ?thesis by (simp add: set_simulated)
  next
    case (LGet k)
    with assms show ?thesis by (simp add: get_simulated)
  next
    case (LDel k)
    with assms show ?thesis by (simp add: del_simulated)
  next
    case (LExists k)
    with assms keys [of k] show ?thesis by (simp add: simulated_def lru_ops view_def del: not_None_eq)
  next
    case LClear
    with assms show ?thesis by (simp add: simulated_def lru_ops view_def lru_inv_def items_def)
  next
    case (LMax n)
    with assms show ?thesis by (simp add: simulated_def lru_ops view_def lru_inv_def items_def)
  next
    case (LElasticity n)
    with assms show ?thesis by (simp add: simulated_def lru_ops view_def lru_inv_def items_def)
  qed (use assms keys len empty in \<open>auto simp: simulated_def lru_ops view_def\<close>)
qed

interpretation lru: total_machine lru_exec lru_inv
proof unfold_locales
  fix c :: "('a, 'b) lru_call" and s s' :: "('a, 'b) LruCache" and r m'
  show "\<exists>s'. m' = idle s'" if "lru_exec c (idle s) = Ret (r, m')"
    using that by (cases c) (auto simp: lru_ops)
  show "lru_inv s'" if "lru_exec c (idle s) = Ret (r, idle s')" and "lru_inv s"
    using that call_simulated [of s c] by (auto simp: simulated_def)
  show "\<exists>r m'. lru_exec c (idle s) = Ret (r, m')" if "lru_inv s"
    using call_simulated [OF that, of c] by (auto simp: simulated_def)
qed

lemma new_lru_simps [simp]:
  "lru_inv (new_lru mx el)" "view (new_lru mx el) = (mx, el, [])"
  by (simp_all add: lru_inv_def new_lru_def items_def view_def)

lemma runs_simulated:
  assumes "lru_inv s"
  shows "\<exists>s'. run_cmds lru_exec cs (idle s) = Ret (fst (recent_run cs (view s)), idle s') \<and>
    view s' = snd (recent_run cs (view s)) \<and> lru_inv s'"
  using assms
proof (induction cs arbitrary: s)
  case Nil
  then show ?case by simp
next
  case (Cons c cs)
  from call_simulated [OF Cons.prems, of c] obtain s1 where
    c: "lru_exec c (idle s) = Ret (fst (recent_step c (view s)), idle s1)"
    and v: "view s1 = snd (recent_step c (view s))" and i: "lru_inv s1"
    by (auto simp: simulated_def)
  from Cons.IH [OF i] c v show ?case by (auto simp: case_prod_beta)
qed

section \<open>Bounds and retention on the abstract cache\<close>

lemma length_shrink: "length (shrink mx allowed xs) \<le> max mx (allowed - 1) \<or> mx = 0"
  by (auto simp: shrink_def)

lemma length_drop_key: "length (drop_key k xs) \<le> length xs"
  by (simp add: drop_key_def)

lemma length_drop_present: "map_of xs k \<noteq> None \<Longrightarrow> length (drop_key k xs) < length xs"
  unfolding drop_key_def map_of_eq_None_iff
  by (metis (mono_tags, lifting) imageE length_filter_less)

fun fixed_sizes :: "('k, 'v) lru_call \<Rightarrow> bool" where
  "fixed_sizes (LMax n) = False"
| "fixed_sizes (LElasticity n) = False"
| "fixed_sizes c = True"

definition in_bounds :: "u64 \<Rightarrow> u64 \<Rightarrow> ('k, 'v) recent \<Rightarrow> bool" where
  "in_bounds mx el t \<longleftrightarrow> (\<exists>xs. t = (mx, el, xs) \<and> length xs \<le> max (unat mx) (unat (mx + el) - 1))"

lemma length_use_set:
  "mx \<noteq> 0 \<Longrightarrow> length xs \<le> max mx (allowed - 1) \<Longrightarrow> length (use_set mx allowed k v xs) \<le> max mx (allowed - 1)"
  using length_shrink [of mx allowed "(k, v) # xs"] length_drop_present [of xs k] by (auto simp: use_set_def)

lemma length_use_get: "length (use_get k xs) \<le> length xs"
  using length_drop_present [of xs k] by (auto simp: use_get_def split: option.split)

lemma step_in_bounds:
  assumes "in_bounds mx el t" and "fixed_sizes c" and "mx \<noteq> 0"
  shows "in_bounds mx el (snd (recent_step c t))"
proof -
  from assms(1) obtain xs where t: "t = (mx, el, xs)"
    and b: "length xs \<le> max (unat mx) (unat (mx + el) - 1)"
    by (auto simp: in_bounds_def)
  have mx: "unat mx \<noteq> 0" using assms(3) by (simp add: unat_eq_zero)
  show ?thesis
  proof (cases c)
    case (LSet k v)
    with length_use_set [OF mx b] show ?thesis by (simp add: t in_bounds_def)
  next
    case (LGet k)
    with order_trans [OF length_use_get b] show ?thesis by (simp add: t in_bounds_def)
  next
    case (LDel k)
    with order_trans [OF length_drop_key b] show ?thesis by (simp add: t in_bounds_def)
  qed (use assms(2) b in \<open>auto simp: t in_bounds_def\<close>)
qed

lemma run_in_bounds:
  "in_bounds mx el t \<Longrightarrow> list_all fixed_sizes cs \<Longrightarrow> mx \<noteq> 0 \<Longrightarrow> in_bounds mx el (snd (recent_run cs t))"
  by (induction cs arbitrary: t) (auto simp: case_prod_beta step_in_bounds)

text \<open>
  The keys a run touches, and the runs that cannot drop \<open>k\<close>: they neither set nor delete it, and neither
  clear nor resize the cache.
\<close>

fun touched :: "('k, 'v) lru_call \<Rightarrow> 'k set" where
  "touched (LSet k v) = {k}"
| "touched (LGet k) = {k}"
| "touched c = {}"

fun spares :: "'k \<Rightarrow> ('k, 'v) lru_call \<Rightarrow> bool" where
  "spares k (LSet j v) = (j \<noteq> k)"
| "spares k (LDel j) = (j \<noteq> k)"
| "spares k LClear = False"
| "spares k (LMax n) = False"
| "spares k c = True"

text \<open>Only keys of \<open>u\<close> stand before the entry of \<open>k\<close>.\<close>

definition behind :: "u64 \<Rightarrow> 'k \<Rightarrow> 'v \<Rightarrow> 'k set \<Rightarrow> ('k, 'v) recent \<Rightarrow> bool" where
  "behind mx k v u t \<longleftrightarrow> (\<exists>el ys zs. t = (mx, el, ys @ (k, v) # zs) \<and> keys_ok (ys @ (k, v) # zs) \<and>
     fst ` set ys \<subseteq> u)"

lemma behindI:
  "t = (mx, el, ys @ (k, v) # zs) \<Longrightarrow> keys_ok (ys @ (k, v) # zs) \<Longrightarrow> fst ` set ys \<subseteq> u \<Longrightarrow> behind mx k v u t"
  by (auto simp: behind_def)

lemma behind_get: "behind mx k v u (mx, el, xs) \<Longrightarrow> map_of xs k = Some v"
  by (auto simp: behind_def keys_ok_def intro!: map_of_is_SomeI)

lemma keys_ok_shrink [simp]: "keys_ok xs \<Longrightarrow> keys_ok (shrink mx allowed xs)"
  by (simp add: keys_ok_def shrink_def take_map [symmetric])

lemma shrink_keeps:
  "length ys < mx \<Longrightarrow> \<exists>zs'. shrink mx allowed (ys @ x # zs) = ys @ x # zs'"
  by (auto simp: shrink_def Suc_diff_Suc [symmetric])

lemma drop_key_split: "j \<noteq> k \<Longrightarrow> drop_key j (ys @ (k, v) # zs) = drop_key j ys @ (k, v) # drop_key j zs"
  by (simp add: drop_key_def)

lemma keys_ok_front: "keys_ok xs \<Longrightarrow> keys_ok ((j, w) # drop_key j xs)"
  using keys_ok_drop_key [of xs j] keys_drop_key [of j xs] by (auto simp: keys_ok_def)

lemma behind_front:
  assumes "behind mx k v u (mx, el, xs)" and "j \<noteq> k" and "j \<in> u"
  shows "behind mx k v u (mx, el, (j, w) # drop_key j xs)"
proof -
  from assms(1) obtain ys zs where "xs = ys @ (k, v) # zs" and "keys_ok xs" and "fst ` set ys \<subseteq> u"
    by (auto simp: behind_def)
  moreover from this have "(j, w) # drop_key j xs = ((j, w) # drop_key j ys) @ (k, v) # drop_key j zs"
    using assms(2) by (simp add: drop_key_split)
  ultimately show ?thesis
    using assms(3) keys_ok_front [of xs j w] keys_drop_key [of j ys]
    by (intro behindI [where ys = "(j, w) # drop_key j ys" and zs = "drop_key j zs"]) auto
qed

lemma behind_step:
  assumes "behind mx k v u t" and "spares k c" and "touched c - {k} \<subseteq> u" and "finite u" and "card u < unat mx"
  shows "behind mx k v u (snd (recent_step c t))"
proof -
  from assms(1) obtain el ys zs where t: "t = (mx, el, ys @ (k, v) # zs)"
    and ok: "keys_ok (ys @ (k, v) # zs)" and u: "fst ` set ys \<subseteq> u"
    by (auto simp: behind_def)
  let ?xs = "ys @ (k, v) # zs"
  have b: "behind mx k v u (mx, el', ?xs)" for el' using ok u by (blast intro: behindI)
  show ?thesis
  proof (cases c)
    case (LSet j w)
    with assms(2,3) have j: "j \<noteq> k" "j \<in> u" by auto
    show ?thesis
    proof (cases "map_of ?xs j")
      case None
      then have "j \<notin> fst ` set ?xs" using map_of_eq_None_iff [of ?xs j] by blast
      then have k: "keys_ok (((j, w) # ys) @ (k, v) # zs)" using ok by (auto simp: keys_ok_def)
      then have "length ((j, w) # ys) = card (fst ` set ((j, w) # ys))"
        using distinct_card [of "map fst ((j, w) # ys)"] by (simp add: keys_ok_def)
      also have "\<dots> \<le> card u" using j u assms(4) by (intro card_mono) auto
      finally have "length ((j, w) # ys) < unat mx" using assms(5) by simp
      from shrink_keeps [OF this] obtain zs' where
        z: "shrink (unat mx) (unat (mx + el)) (((j, w) # ys) @ (k, v) # zs) = ((j, w) # ys) @ (k, v) # zs'"
        by blast
      from keys_ok_shrink [OF k, of "unat mx" "unat (mx + el)"] have "keys_ok (((j, w) # ys) @ (k, v) # zs')"
        by (simp only: z)
      then have "behind mx k v u (mx, el, ((j, w) # ys) @ (k, v) # zs')"
        using u j by (intro behindI [where ys = "(j, w) # ys" and zs = zs']) auto
      with None z show ?thesis by (simp add: LSet t use_set_def)
    next
      case (Some w')
      then have "use_set (unat mx) (unat (mx + el)) j w ?xs = (j, w) # drop_key j ?xs"
        by (simp add: use_set_def)
      with behind_front [OF b j] show ?thesis by (simp add: LSet t)
    qed
  next
    case (LGet j)
    show ?thesis
    proof (cases "j = k")
      case True
      have "use_get k ?xs = [] @ (k, v) # drop_key k ?xs" using behind_get [OF b] by (simp add: use_get_def)
      moreover have "behind mx k v u (mx, el, [] @ (k, v) # drop_key k ?xs)"
        using keys_ok_front [OF ok] by (intro behindI) auto
      ultimately show ?thesis using True by (simp add: LGet t)
    next
      case False
      with assms(3) LGet behind_front [OF b] b show ?thesis
        by (auto simp: t use_get_def split: option.split)
    qed
  next
    case (LDel j)
    have "behind mx k v u (mx, el, drop_key j ys @ (k, v) # drop_key j zs)" if "j \<noteq> k"
      using keys_ok_drop_key [OF ok, of j] u drop_key_split [OF that, of ys v zs] keys_drop_key [of j ys]
      by (intro behindI [where ys = "drop_key j ys" and zs = "drop_key j zs"]) auto
    with assms(2) show ?thesis by (simp add: LDel t drop_key_split)
  qed (use assms(2) b in \<open>auto simp: t\<close>)
qed

lemma behind_run:
  "behind mx k v u t \<Longrightarrow> list_all (spares k) cs \<Longrightarrow> (\<Union>c\<in>set cs. touched c) - {k} \<subseteq> u \<Longrightarrow> finite u \<Longrightarrow>
   card u < unat mx \<Longrightarrow> behind mx k v u (snd (recent_run cs t))"
proof (induction cs arbitrary: t)
  case (Cons c cs)
  then have "behind mx k v u (snd (recent_step c t))" by (intro behind_step) auto
  moreover have "(\<Union>c\<in>set cs. touched c) - {k} \<subseteq> u" using Cons.prems(3) by auto
  ultimately show ?case using Cons.IH Cons.prems by (simp add: case_prod_beta)
qed simp

section \<open>Properties\<close>

text \<open>
  C7. Every sequence of calls on a fresh cache returns (no iterator of the map ever dangles, the list is
  never empty when \<^verbatim>\<open>prune\<close> reads its back), with the replies, the order of the entries and the calls of the
  prune callback of the list of pairs kept in the order of their last use.
\<close>

theorem lru_refines_recency:
  "\<exists>s. run_cmds lru_exec cs (idle (new_lru mx el)) = Ret (fst (recent_run cs (mx, el, [])), idle s) \<and>
     view s = snd (recent_run cs (mx, el, []))"
  using runs_simulated [of "new_lru mx el" cs] by auto

text \<open>
  A cache with a size limit, whose sizes are not changed, never holds more entries than the limit or one
  less than the limit with its elasticity, whichever is more; an elasticity that makes the sum wrap around
  only makes it prune on every insertion.
\<close>

theorem lru_bounded:
  assumes "run_cmds lru_exec cs (idle (new_lru mx el)) = Ret (rs, idle s)"
    and "list_all fixed_sizes cs" and "mx \<noteq> 0"
  shows "length (m_cache s) = length (m_keys s) \<and>
    length (m_cache s) \<le> max (unat mx) (unat (mx + el) - 1)"
proof -
  have i: "lru_inv s" and "view s = snd (recent_run cs (mx, el, []))"
    using runs_simulated [of "new_lru mx el" cs] assms(1) by auto
  moreover have "in_bounds mx el (snd (recent_run cs (mx, el, [])))"
    by (rule run_in_bounds) (use assms in \<open>auto simp: in_bounds_def\<close>)
  ultimately show ?thesis
    using paired_length [of "m_cache s" "m_keys s"] by (auto simp: in_bounds_def view_def items_def lru_inv_def)
qed

theorem lru_bounded_witness:
  "\<exists>rs s. run_cmds lru_exec [LSet 1 1, LSet 2 2, LSet (3::nat) (3::nat)] (idle (new_lru 2 0)) = Ret (rs, idle s) \<and>
     length (m_cache s) \<le> 2"
proof -
  obtain rs s where r: "run_cmds lru_exec [LSet 1 1, LSet 2 2, LSet (3::nat) (3::nat)] (idle (new_lru 2 0)) = Ret (rs, idle s)"
    using lru.run_returns [OF new_lru_simps(1)] by blast
  have "length (m_cache s) \<le> 2" using lru_bounded [OF r] by simp
  with r show ?thesis by blast
qed

text \<open>
  What was set last is kept: after a \<^verbatim>\<open>set\<close> of a key, and any calls that use fewer than \<^verbatim>\<open>m_maxSize\<close> other
  keys and do not set, delete, clear or resize, a \<^verbatim>\<open>get\<close> of the key finds its value.
\<close>

theorem lru_keeps_recent:
  assumes "lru_inv s" and "list_all (spares k) cs" and "finite u" and "(\<Union>c\<in>set cs. touched c) - {k} \<subseteq> u"
    and "card u < unat (m_maxSize s)"
  shows "\<exists>rs m. run_cmds lru_exec (LSet k v # cs @ [LGet k]) (idle s) = Ret (rs, m) \<and> last rs = Found (Some v)"
proof -
  let ?t = "snd (recent_step (LSet k v) (view s))"
  have ok: "keys_ok (items s)" using assms(1) by (simp add: lru_inv_def paired_def items_def)
  have "behind (m_maxSize s) k v u ?t"
  proof (cases "map_of (items s) k")
    case None
    then have "keys_ok ([] @ (k, v) # items s)" using ok by (simp add: keys_ok_def map_of_eq_None_iff)
    moreover from assms(5) have "length ([]::('a \<times> 'b) list) < unat (m_maxSize s)" by simp
    from shrink_keeps [OF this] obtain zs where
      "shrink (unat (m_maxSize s)) (unat (m_maxSize s + m_elasticity s)) ([] @ (k, v) # items s) = [] @ (k, v) # zs"
      by blast
    ultimately have "keys_ok ([] @ (k, v) # zs)" and
      "use_set (unat (m_maxSize s)) (unat (m_maxSize s + m_elasticity s)) k v (items s) = [] @ (k, v) # zs"
      using None keys_ok_shrink by (metis, simp add: use_set_def)
    then show ?thesis by (intro behindI) (auto simp: view_def)
  next
    case (Some w)
    with keys_ok_front [OF ok] show ?thesis
      by (intro behindI [where ys = "[]" and zs = "drop_key k (items s)"]) (auto simp: view_def use_set_def)
  qed
  with behind_run [OF _ assms(2,4,3,5)] have b: "behind (m_maxSize s) k v u (snd (recent_run cs ?t))" by blast
  then obtain el xs where x: "snd (recent_run cs ?t) = (m_maxSize s, el, xs)" by (auto simp: behind_def)
  have app: "recent_run (cs @ [LGet k]) t = (fst (recent_run cs t) @ [fst (recent_step (LGet k) (snd (recent_run cs t)))],
      snd (recent_step (LGet k) (snd (recent_run cs t))))" for t :: "('a, 'b) recent"
    by (induction cs arbitrary: t) (auto simp: case_prod_beta)
  have "last (fst (recent_run (LSet k v # cs @ [LGet k]) (view s))) = Found (Some v)"
    using behind_get [of "m_maxSize s" k v u el xs] b by (simp add: case_prod_beta app x)
  with runs_simulated [OF assms(1), of "LSet k v # cs @ [LGet k]"] show ?thesis
    by (metis)
qed

theorem lru_keeps_recent_witness:
  "\<exists>rs m. run_cmds lru_exec (LSet (7::nat) (70::nat) # [LSet 8 80, LGet 8, LGet 7] @ [LGet 7]) (idle (new_lru 2 1)) = Ret (rs, m) \<and>
     last rs = Found (Some 70)"
  by (rule lru_keeps_recent [where u = "{8}"]) (auto simp: new_lru_def lru_inv_def)

end
