(* ===== verification/Timers.thy ===== *)
theory Timers
  imports Machine
begin

text \<open>
  \<open>ancfl/timer.cc\<close>: the timers of the framework, kept in a set ordered by their deadlines. The clock readings
  are arguments of the operations; a callback is a value of any type.
\<close>

section \<open>Data\<close>

record 'c Timer =
  m_recurring :: bool
  m_ms :: u64
  m_next :: u64
  m_cb :: "'c option"

text \<open>
  The timers ever made are listed in \<open>heap\<close>; a timer is named by its place in the list, and the names in
  \<open>m_timers\<close> are the elements of the \<^verbatim>\<open>std::set\<close> in its order. \<open>ad\<close> gives the address of every timer: two
  timers have different addresses.
\<close>

record 'c TimerManager =
  heap :: "'c Timer list"
  m_timers :: "nat list"
  m_tickled :: bool
  m_previouseTime :: u64

definition new_manager :: "u64 \<Rightarrow> 'c TimerManager" where
  "new_manager now = \<lparr>heap = [], m_timers = [], m_tickled = False, m_previouseTime = now\<rparr>"

definition Comparator :: "(nat \<Rightarrow> nat) \<Rightarrow> 'c Timer list \<Rightarrow> nat \<Rightarrow> nat \<Rightarrow> bool" where
  "Comparator ad h a b \<longleftrightarrow>
     (if m_next (h ! a) < m_next (h ! b) then True
      else if m_next (h ! b) < m_next (h ! a) then False else ad a < ad b)"

text \<open>\<^verbatim>\<open>insert\<close> and \<^verbatim>\<open>find\<close> of the set, by its order; an equivalent element stays.\<close>

primrec set_insert :: "('a \<Rightarrow> 'a \<Rightarrow> bool) \<Rightarrow> 'a \<Rightarrow> 'a list \<Rightarrow> 'a list" where
  "set_insert lt a [] = [a]"
| "set_insert lt a (b # bs) =
     (if lt a b then a # b # bs else if lt b a then b # set_insert lt a bs else b # bs)"

definition set_find :: "('a \<Rightarrow> 'a \<Rightarrow> bool) \<Rightarrow> 'a \<Rightarrow> 'a list \<Rightarrow> 'a option" where
  "set_find lt a xs = List.find (\<lambda>b. \<not> lt a b \<and> \<not> lt b a) xs"

definition set_timer :: "nat \<Rightarrow> 'c Timer \<Rightarrow> 'c TimerManager \<Rightarrow> 'c TimerManager" where
  "set_timer a t s = s\<lparr>heap := (heap s)[a := t]\<rparr>"

definition erase_timer :: "nat \<Rightarrow> 'c TimerManager \<Rightarrow> 'c TimerManager" where
  "erase_timer a s = s\<lparr>m_timers := remove1 a (m_timers s)\<rparr>"

section \<open>Operations\<close>

definition new_timer :: "u64 \<Rightarrow> u64 \<Rightarrow> 'c \<Rightarrow> bool \<Rightarrow> 'c Timer" where
  "new_timer now ms cb recurring = \<lparr>m_recurring = recurring, m_ms = ms, m_next = now + ms, m_cb = Some cb\<rparr>"

text \<open>\<^verbatim>\<open>addTimer\<close> with the lock held: the answer tells whether \<^verbatim>\<open>onTimerInsertedAtFront\<close> is called.\<close>

definition insert_timer :: "(nat \<Rightarrow> nat) \<Rightarrow> nat \<Rightarrow> 'c TimerManager \<Rightarrow> bool \<times> 'c TimerManager" where
  "insert_timer ad a s =
     (let q = set_insert (Comparator ad (heap s)) a (m_timers s);
          at_front = (q \<noteq> [] \<and> set_find (Comparator ad (heap s)) a q = Some (hd q) \<and> \<not> m_tickled s) in
      (at_front, s\<lparr>m_timers := q, m_tickled := (m_tickled s \<or> at_front)\<rparr>))"

definition addTimer :: "(nat \<Rightarrow> nat) \<Rightarrow> u64 \<Rightarrow> u64 \<Rightarrow> 'c \<Rightarrow> bool \<Rightarrow> ('c TimerManager, nat \<times> bool) oper" where
  "addTimer ad now ms cb recurring = guarded (\<lambda>s.
     let a = length (heap s);
         (front, s') = insert_timer ad a (s\<lparr>heap := heap s @ [new_timer now ms cb recurring]\<rparr>) in
     Ret ((a, front), s'))"

text \<open>The callback of a condition timer, called when its condition is \<open>alive\<close> or not, runs only in the first case.\<close>

definition OnTimer :: "'c \<Rightarrow> bool \<Rightarrow> 'c option" where
  "OnTimer cb alive = (if alive then Some cb else None)"

definition addConditionTimer ::
  "(nat \<Rightarrow> nat) \<Rightarrow> u64 \<Rightarrow> u64 \<Rightarrow> 'c \<Rightarrow> bool \<Rightarrow> ((bool \<Rightarrow> 'c option) TimerManager, nat \<times> bool) oper" where
  "addConditionTimer ad now ms cb recurring = addTimer ad now ms (OnTimer cb) recurring"

definition cancel :: "(nat \<Rightarrow> nat) \<Rightarrow> nat \<Rightarrow> ('c TimerManager, bool) oper" where
  "cancel ad a = guarded (\<lambda>s.
     if m_cb (heap s ! a) = None then Ret (False, s)
     else
       let s1 = set_timer a ((heap s ! a)\<lparr>m_cb := None\<rparr>) s in
       case set_find (Comparator ad (heap s1)) a (m_timers s1) of
         None \<Rightarrow> Fault DanglingIterator
       | Some b \<Rightarrow> Ret (True, erase_timer b s1))"

definition refresh :: "(nat \<Rightarrow> nat) \<Rightarrow> u64 \<Rightarrow> nat \<Rightarrow> ('c TimerManager, bool) oper" where
  "refresh ad now a = guarded (\<lambda>s.
     if m_cb (heap s ! a) = None then Ret (False, s)
     else case set_find (Comparator ad (heap s)) a (m_timers s) of
       None \<Rightarrow> Ret (False, s)
     | Some b \<Rightarrow>
         let s1 = set_timer a ((heap s ! a)\<lparr>m_next := now + m_ms (heap s ! a)\<rparr>) (erase_timer b s) in
         Ret (True, s1\<lparr>m_timers := set_insert (Comparator ad (heap s1)) a (m_timers s1)\<rparr>))"

text \<open>\<^verbatim>\<open>reset\<close> looks at the period before it takes the lock. The second answer is the call at the front.\<close>

definition reset_locked ::
  "(nat \<Rightarrow> nat) \<Rightarrow> u64 \<Rightarrow> nat \<Rightarrow> u64 \<Rightarrow> bool \<Rightarrow> ('c TimerManager, bool \<times> bool) oper" where
  "reset_locked ad now a ms from_now = guarded (\<lambda>s.
     if m_cb (heap s ! a) = None then Ret ((False, False), s)
     else case set_find (Comparator ad (heap s)) a (m_timers s) of
       None \<Rightarrow> Ret ((False, False), s)
     | Some b \<Rightarrow>
         let t = heap s ! a;
             start = (if from_now then now else m_next t - m_ms t);
             s1 = set_timer a (t\<lparr>m_ms := ms, m_next := start + ms\<rparr>) (erase_timer b s);
             (front, s2) = insert_timer ad a s1 in
         Ret ((True, front), s2))"

definition reset :: "(nat \<Rightarrow> nat) \<Rightarrow> u64 \<Rightarrow> nat \<Rightarrow> u64 \<Rightarrow> bool \<Rightarrow> ('c TimerManager, bool \<times> bool) oper" where
  "reset ad now a ms from_now m =
     (if ms = m_ms (heap (inner m) ! a) \<and> \<not> from_now then Ret ((True, False), m)
      else reset_locked ad now a ms from_now m)"

definition getNextTimer :: "u64 \<Rightarrow> ('c TimerManager, u64) oper" where
  "getNextTimer now = guarded (\<lambda>s.
     let s1 = s\<lparr>m_tickled := False\<rparr> in
     case m_timers s of
       [] \<Rightarrow> Ret (- 1, s1)
     | a # _ \<Rightarrow> Ret (if m_next (heap s ! a) \<le> now then 0 else m_next (heap s ! a) - now, s1))"

definition detectClockRollover :: "u64 \<Rightarrow> 'c TimerManager \<Rightarrow> bool \<times> 'c TimerManager" where
  "detectClockRollover now s =
     (now < m_previouseTime s \<and> now < m_previouseTime s - 60 * 60 * 1000, s\<lparr>m_previouseTime := now\<rparr>)"

text \<open>
  The expired timers are those before the first that is not below a timer of the deadline \<open>now\<close> at the
  address \<open>p\<close>, the comparison object, and those at \<open>now\<close> after it.
\<close>

definition below_now :: "(nat \<Rightarrow> nat) \<Rightarrow> 'c Timer list \<Rightarrow> u64 \<Rightarrow> nat \<Rightarrow> nat \<Rightarrow> bool" where
  "below_now ad h now p a \<longleftrightarrow> m_next (h ! a) < now \<or> \<not> now < m_next (h ! a) \<and> ad a < p"

definition split_expired :: "(nat \<Rightarrow> nat) \<Rightarrow> 'c Timer list \<Rightarrow> u64 \<Rightarrow> nat \<Rightarrow> nat list \<Rightarrow> nat list \<times> nat list" where
  "split_expired ad h now p q =
     (let early = takeWhile (below_now ad h now p) q; rest = dropWhile (below_now ad h now p) q in
      (early @ takeWhile (\<lambda>a. m_next (h ! a) = now) rest, dropWhile (\<lambda>a. m_next (h ! a) = now) rest))"

primrec fire_all :: "(nat \<Rightarrow> nat) \<Rightarrow> u64 \<Rightarrow> nat list \<Rightarrow> 'c TimerManager \<Rightarrow> 'c option list \<times> 'c TimerManager" where
  "fire_all ad now [] s = ([], s)"
| "fire_all ad now (a # as) s =
     (let t = heap s ! a;
          s1 = (if m_recurring t
                then (let s0 = set_timer a (t\<lparr>m_next := now + m_ms t\<rparr>) s in
                      s0\<lparr>m_timers := set_insert (Comparator ad (heap s0)) a (m_timers s0)\<rparr>)
                else set_timer a (t\<lparr>m_cb := None\<rparr>) s);
          (cbs, s2) = fire_all ad now as s1 in
      (m_cb t # cbs, s2))"

definition listExpiredCb :: "(nat \<Rightarrow> nat) \<Rightarrow> u64 \<Rightarrow> nat \<Rightarrow> ('c TimerManager, 'c option list) oper" where
  "listExpiredCb ad now p = guarded (\<lambda>s.
     case m_timers s of
       [] \<Rightarrow> Ret ([], s)
     | a # _ \<Rightarrow>
         let (rollover, s1) = detectClockRollover now s in
         if \<not> rollover \<and> now < m_next (heap s ! a) then Ret ([], s1)
         else
           let (expired, rest) = (if rollover then (m_timers s, []) else split_expired ad (heap s) now p (m_timers s)) in
           Ret (fire_all ad now expired (s1\<lparr>m_timers := rest\<rparr>)))"

definition hasTimer :: "('c TimerManager, bool) oper" where
  "hasTimer = guarded (\<lambda>s. Ret (m_timers s \<noteq> [], s))"

section \<open>The contract of an ordered set\<close>

text \<open>
  \<^verbatim>\<open>std::set\<close> asks for a strict weak order: then insertion keeps the elements in order, adds an element unless an
  equivalent one is there, and a search finds the equivalent element.
\<close>

definition equivalent :: "('a \<Rightarrow> 'a \<Rightarrow> bool) \<Rightarrow> 'a \<Rightarrow> 'a \<Rightarrow> bool" where
  "equivalent lt a b \<longleftrightarrow> \<not> lt a b \<and> \<not> lt b a"

locale weak_order =
  fixes lt :: "'a \<Rightarrow> 'a \<Rightarrow> bool"
  assumes lt_irrefl: "\<not> lt a a"
    and lt_trans: "lt a b \<Longrightarrow> lt b c \<Longrightarrow> lt a c"
    and lt_weak: "lt a c \<Longrightarrow> lt a b \<or> lt b c"
begin

lemma set_insert_set:
  "sorted_wrt lt xs \<Longrightarrow> set (set_insert lt a xs) = (if \<exists>b\<in>set xs. equivalent lt a b then set xs else insert a (set xs))"
proof (induction xs)
  case (Cons b xs)
  have "\<not> equivalent lt a c" if "lt a b" "c \<in> set xs" for c
    using that Cons.prems lt_trans by (auto simp: equivalent_def)
  with Cons show ?case by (auto simp: equivalent_def)
qed simp

lemma set_insert_sorted: "sorted_wrt lt xs \<Longrightarrow> sorted_wrt lt (set_insert lt a xs)"
proof (induction xs)
  case (Cons b xs)
  have "lt a c" if "lt a b" "c \<in> set xs" for c using that Cons.prems lt_trans by auto
  with Cons show ?case by (auto simp: set_insert_set split: if_splits)
qed simp

lemma set_find_same:
  assumes "sorted_wrt lt xs" and "b \<in> set xs" and "equivalent lt a b"
  shows "set_find lt a xs = Some b"
  using assms
proof (induction xs)
  case (Cons c xs)
  show ?case
  proof (cases "b = c")
    case True
    with Cons.prems show ?thesis by (simp add: set_find_def equivalent_def)
  next
    case False
    with Cons.prems have "lt c b" by auto
    with Cons.prems(3) lt_weak [of c b a] have "lt c a" by (auto simp: equivalent_def)
    with Cons False show ?thesis by (simp add: set_find_def)
  qed
qed simp

lemma set_find_None: "set_find lt a xs = None \<longleftrightarrow> (\<forall>b\<in>set xs. \<not> equivalent lt a b)"
  by (auto simp: set_find_def find_None_iff equivalent_def)

end

interpretation deadlines: weak_order "Comparator ad h" for ad h
  by unfold_locales (auto simp: Comparator_def split: if_splits)

lemma same_deadline: "equivalent (Comparator ad h) a b \<longleftrightarrow> m_next (h ! a) = m_next (h ! b) \<and> ad a = ad b"
  by (auto simp: equivalent_def Comparator_def)

section \<open>The invariant\<close>

text \<open>
  The addresses differ, the set is in order, and a timer is in it exactly when it has a callback. While the
  expired timers are fired, those that still wait, \<open>ws\<close>, are out of the set.
\<close>

definition firing_inv :: "(nat \<Rightarrow> nat) \<Rightarrow> nat list \<Rightarrow> 'c TimerManager \<Rightarrow> bool" where
  "firing_inv ad ws s \<longleftrightarrow> inj ad \<and> sorted_wrt (Comparator ad (heap s)) (m_timers s) \<and>
     distinct ws \<and> set ws \<inter> set (m_timers s) = {} \<and>
     (\<forall>a. a \<in> set (m_timers s) \<union> set ws \<longleftrightarrow> a < length (heap s) \<and> m_cb (heap s ! a) \<noteq> None)"

definition timer_inv :: "(nat \<Rightarrow> nat) \<Rightarrow> 'c TimerManager \<Rightarrow> bool" where
  "timer_inv ad s \<longleftrightarrow> firing_inv ad [] s"

lemma firing_invD:
  assumes "firing_inv ad ws s"
  shows "inj ad" and "sorted_wrt (Comparator ad (heap s)) (m_timers s)" and "distinct ws"
    and "set ws \<inter> set (m_timers s) = {}"
    and "a \<in> set (m_timers s) \<or> a \<in> set ws \<longleftrightarrow> a < length (heap s) \<and> m_cb (heap s ! a) \<noteq> None"
  using assms unfolding firing_inv_def by blast+

lemma firing_invI:
  assumes "inj ad" and "sorted_wrt (Comparator ad (heap s)) (m_timers s)" and "distinct ws"
    and "set ws \<inter> set (m_timers s) = {}"
    and "\<And>a. a \<in> set (m_timers s) \<or> a \<in> set ws \<longleftrightarrow> a < length (heap s) \<and> m_cb (heap s ! a) \<noteq> None"
  shows "firing_inv ad ws s"
  using assms unfolding firing_inv_def by blast

lemma sorted_distinct: "sorted_wrt (Comparator ad h) xs \<Longrightarrow> distinct xs"
  by (induction xs) (use deadlines.lt_irrefl in \<open>simp, fastforce\<close>)

text \<open>The order of timers whose entries do not change.\<close>

lemma sorted_heap_cong:
  "sorted_wrt (Comparator ad h) xs \<Longrightarrow> (\<And>a. a \<in> set xs \<Longrightarrow> m_next (h' ! a) = m_next (h ! a)) \<Longrightarrow>
   sorted_wrt (Comparator ad h') xs"
  by (erule sorted_wrt_mono_rel [rotated]) (auto simp: Comparator_def split: if_splits)

text \<open>A timer outside the set is put into it, at its deadline.\<close>

lemma insert_sorted:
  assumes "inj ad" and "sorted_wrt (Comparator ad h) xs" and "a \<notin> set xs"
  shows "sorted_wrt (Comparator ad h) (set_insert (Comparator ad h) a xs)"
    and "set (set_insert (Comparator ad h) a xs) = insert a (set xs)"
  using deadlines.set_insert_sorted [OF assms(2)] deadlines.set_insert_set [OF assms(2), of a] assms(1,3)
  by (auto simp: same_deadline inj_eq)

lemma find_timer:
  assumes "inj ad" and "sorted_wrt (Comparator ad h) xs"
  shows "set_find (Comparator ad h) a xs = (if a \<in> set xs then Some a else None)"
  using deadlines.set_find_same [OF assms(2), of a a] deadlines.set_find_None [of ad h a xs] assms(1)
  by (auto simp: same_deadline inj_eq)

lemma set_remove1_sorted:
  "sorted_wrt (Comparator ad h) xs \<Longrightarrow> set (remove1 a xs) = set xs - {a}"
  by (simp add: sorted_distinct)

lemma sorted_remove1: "sorted_wrt r xs \<Longrightarrow> sorted_wrt r (remove1 a xs)"
  by (induction xs) (auto dest: in_set_remove1 [THEN iffD1, rotated] set_remove1_subset [THEN subsetD])

lemma timer_inv_new: "inj ad \<Longrightarrow> timer_inv ad (new_manager now)"
  by (simp add: timer_inv_def firing_inv_def new_manager_def)

text \<open>A timer that is out of the set with a callback comes back at any deadline.\<close>

lemma put_back:
  assumes "firing_inv ad (a # ws) s" and "m_cb t \<noteq> None"
  defines "s' \<equiv> set_timer a t s"
  shows "firing_inv ad ws (s'\<lparr>m_timers := set_insert (Comparator ad (heap s')) a (m_timers s')\<rparr>)"
proof -
  note i = firing_invD [OF assms(1)]
  have a: "a < length (heap s)" "a \<notin> set (m_timers s)" "a \<notin> set ws" using i(5) [of a] i(3,4) by auto
  have h: "heap s' = (heap s)[a := t]" "m_timers s' = m_timers s" by (simp_all add: s'_def set_timer_def)
  have "sorted_wrt (Comparator ad (heap s')) (m_timers s)"
    by (rule sorted_heap_cong [OF i(2)]) (use a in \<open>auto simp: h nth_list_update\<close>)
  note ins = insert_sorted [OF i(1) this a(2)]
  show ?thesis
  proof (rule firing_invI)
    fix b
    show "b \<in> set (m_timers (s'\<lparr>m_timers := set_insert (Comparator ad (heap s')) a (m_timers s')\<rparr>)) \<or> b \<in> set ws \<longleftrightarrow>
        b < length (heap (s'\<lparr>m_timers := set_insert (Comparator ad (heap s')) a (m_timers s')\<rparr>)) \<and>
        m_cb (heap (s'\<lparr>m_timers := set_insert (Comparator ad (heap s')) a (m_timers s')\<rparr>) ! b) \<noteq> None"
      using i(5) [of b] a assms(2) by (auto simp: h(2) ins) (auto simp: h(1) nth_list_update)
  qed (use i a ins h in auto)
qed

lemma drop_waiting:
  assumes "firing_inv ad (a # ws) s" and "m_cb t = None"
  shows "firing_inv ad ws (set_timer a t s)"
proof -
  note i = firing_invD [OF assms(1)]
  have a: "a < length (heap s)" "a \<notin> set (m_timers s)" "a \<notin> set ws" using i(5) [of a] i(3,4) by auto
  show ?thesis
  proof (rule firing_invI)
    have "sorted_wrt (Comparator ad ((heap s)[a := t])) (m_timers s)"
      by (rule sorted_heap_cong [OF i(2)]) (use a in \<open>auto simp: nth_list_update\<close>)
    then show "sorted_wrt (Comparator ad (heap (set_timer a t s))) (m_timers (set_timer a t s))"
      by (simp add: set_timer_def)
    fix b
    show "b \<in> set (m_timers (set_timer a t s)) \<or> b \<in> set ws \<longleftrightarrow>
        b < length (heap (set_timer a t s)) \<and> m_cb (heap (set_timer a t s) ! b) \<noteq> None"
      using i(5) [of b] a assms(2) by (auto simp: set_timer_def nth_list_update)
  qed (use i a in \<open>auto simp: set_timer_def\<close>)
qed

text \<open>Taking a timer out of the set.\<close>

lemma take_out:
  assumes "timer_inv ad s" and "a < length (heap s)" and "m_cb (heap s ! a) \<noteq> None"
  shows "set_find (Comparator ad (heap s)) a (m_timers s) = Some a" and "firing_inv ad [a] (erase_timer a s)"
proof -
  note i = firing_invD [OF assms(1) [unfolded timer_inv_def]]
  have a: "a \<in> set (m_timers s)" using i(5) [of a] assms(2,3) by simp
  then show "set_find (Comparator ad (heap s)) a (m_timers s) = Some a" using find_timer [OF i(1,2)] by simp
  show "firing_inv ad [a] (erase_timer a s)"
  proof (rule firing_invI)
    show "sorted_wrt (Comparator ad (heap (erase_timer a s))) (m_timers (erase_timer a s))"
      using sorted_remove1 [OF i(2)] by (simp add: erase_timer_def)
  qed (use i a set_remove1_sorted [OF i(2), of a] in \<open>auto simp: erase_timer_def\<close>)
qed

section \<open>Firing\<close>

text \<open>What firing does to one timer: a recurring one is set to its next deadline, another loses its callback.\<close>

definition fired :: "u64 \<Rightarrow> 'c Timer \<Rightarrow> 'c Timer" where
  "fired now t = (if m_recurring t then t\<lparr>m_next := now + m_ms t\<rparr> else t\<lparr>m_cb := None\<rparr>)"

definition fires :: "(nat \<Rightarrow> nat) \<Rightarrow> u64 \<Rightarrow> nat list \<Rightarrow> 'c TimerManager \<Rightarrow> bool" where
  "fires ad now ws s \<longleftrightarrow> (let (cbs, s') = fire_all ad now ws s in
     cbs = map (\<lambda>a. m_cb (heap s ! a)) ws \<and> timer_inv ad s' \<and> length (heap s') = length (heap s) \<and>
     (\<forall>b. heap s' ! b = (if b \<in> set ws then fired now (heap s ! b) else heap s ! b)) \<and>
     m_tickled s' = m_tickled s \<and> m_previouseTime s' = m_previouseTime s)"

lemma fire_all_fires: "firing_inv ad ws s \<Longrightarrow> fires ad now ws s"
proof (induction ws arbitrary: s)
  case Nil
  then show ?case by (simp add: fires_def timer_inv_def)
next
  case (Cons a ws)
  let ?t = "heap s ! a"
  define s1 where "s1 = (if m_recurring ?t
      then (let s0 = set_timer a (?t\<lparr>m_next := now + m_ms ?t\<rparr>) s in
            s0\<lparr>m_timers := set_insert (Comparator ad (heap s0)) a (m_timers s0)\<rparr>)
      else set_timer a (?t\<lparr>m_cb := None\<rparr>) s)"
  have run: "fire_all ad now (a # ws) s = (let (cbs, s2) = fire_all ad now ws s1 in (m_cb ?t # cbs, s2))"
    by (simp add: s1_def Let_def case_prod_beta)
  have h: "heap s1 = (heap s)[a := fired now ?t]" "m_tickled s1 = m_tickled s" "m_previouseTime s1 = m_previouseTime s"
    by (simp_all add: s1_def fired_def set_timer_def Let_def)
  have a: "a < length (heap s)" "m_cb ?t \<noteq> None" "a \<notin> set ws"
    using firing_invD(3) [OF Cons.prems] firing_invD(5) [OF Cons.prems, of a] by auto
  then have "firing_inv ad ws s1"
    using put_back [OF Cons.prems] drop_waiting [OF Cons.prems] by (simp add: s1_def Let_def)
  from Cons.IH [OF this] a show ?case unfolding fires_def run
    by (auto simp: h nth_list_update case_prod_beta Let_def)
qed

text \<open>Which timers are expired does not depend on the address of the object compared with.\<close>

lemma split_expired_due:
  assumes "sorted_wrt (Comparator ad h) q"
  shows "split_expired ad h now p q = (filter (\<lambda>a. m_next (h ! a) \<le> now) q, filter (\<lambda>a. now < m_next (h ! a)) q)"
  using assms
proof (induction q)
  case Nil
  then show ?case by (simp add: split_expired_def)
next
  case (Cons a q)
  have later: "m_next (h ! a) \<le> m_next (h ! b)" if "b \<in> set q" for b
    using that Cons.prems by (auto simp: Comparator_def split: if_splits)
  show ?case
  proof (cases "below_now ad h now p a")
    case True
    then have "m_next (h ! a) \<le> now" by (auto simp: below_now_def)
    with True Cons show ?thesis by (simp add: split_expired_def Let_def)
  next
    case False
    have all: "takeWhile (\<lambda>b. m_next (h ! b) = now) xs = filter (\<lambda>b. m_next (h ! b) \<le> now) xs \<and>
        dropWhile (\<lambda>b. m_next (h ! b) = now) xs = filter (\<lambda>b. now < m_next (h ! b)) xs"
      if "\<forall>b\<in>set xs. now \<le> m_next (h ! b)" "sorted_wrt (Comparator ad h) xs" for xs
      using that
    proof (induction xs)
      case (Cons b xs)
      have "m_next (h ! b) \<le> m_next (h ! c)" if "c \<in> set xs" for c
        using that Cons.prems(2) by (auto simp: Comparator_def split: if_splits)
      then have "now < m_next (h ! b) \<Longrightarrow> \<forall>c\<in>set xs. now < m_next (h ! c)" using less_le_trans by blast
      with Cons show ?case by (auto simp: filter_empty_conv filter_id_conv not_le)
    qed simp
    from False have "now \<le> m_next (h ! a)" by (auto simp: below_now_def)
    then have "\<forall>b\<in>set (a # q). now \<le> m_next (h ! b)" using later order_trans by fastforce
    from all [OF this Cons.prems] False show ?thesis by (simp add: split_expired_def Let_def)
  qed
qed

section \<open>Every operation keeps the invariant\<close>

lemma insert_waiting:
  assumes "firing_inv ad [a] s"
  defines "q \<equiv> set_insert (Comparator ad (heap s)) a (m_timers s)"
  shows "insert_timer ad a s = (hd q = a \<and> \<not> m_tickled s, s\<lparr>m_timers := q, m_tickled := (m_tickled s \<or> hd q = a)\<rparr>)"
    and "timer_inv ad (snd (insert_timer ad a s))" and "set q = insert a (set (m_timers s))" and "q \<noteq> []"
proof -
  note i = firing_invD [OF assms(1)]
  have a: "a < length (heap s)" "m_cb (heap s ! a) \<noteq> None" "a \<notin> set (m_timers s)" using i(5) [of a] i(4) by auto
  note ins = insert_sorted [OF i(1,2) a(3), folded q_def]
  show "set q = insert a (set (m_timers s))" by (rule ins(2))
  then show q: "q \<noteq> []" by auto
  have "set_find (Comparator ad (heap s)) a q = Some a" using find_timer [OF i(1) ins(1), of a] ins(2) by simp
  then show e: "insert_timer ad a s = (hd q = a \<and> \<not> m_tickled s, s\<lparr>m_timers := q, m_tickled := (m_tickled s \<or> hd q = a)\<rparr>)"
    using q unfolding insert_timer_def Let_def q_def [symmetric]
    by (cases "m_tickled s") (auto simp: eq_commute [of a "hd q"])
  have "set_timer a (heap s ! a) s = s" by (simp add: set_timer_def)
  with put_back [OF assms(1) a(2)] have "firing_inv ad [] (s\<lparr>m_timers := q\<rparr>)" by (simp add: q_def)
  then show "timer_inv ad (snd (insert_timer ad a s))" by (simp add: e timer_inv_def firing_inv_def)
qed

lemma add_waiting:
  assumes "timer_inv ad s"
  shows "firing_inv ad [length (heap s)] (s\<lparr>heap := heap s @ [new_timer now ms cb recurring]\<rparr>)"
proof -
  note i = firing_invD [OF assms [unfolded timer_inv_def]]
  have old: "a < length (heap s)" if "a \<in> set (m_timers s)" for a using i(5) [of a] that by simp
  show ?thesis
  proof (rule firing_invI)
    show "sorted_wrt (Comparator ad (heap (s\<lparr>heap := heap s @ [new_timer now ms cb recurring]\<rparr>)))
        (m_timers (s\<lparr>heap := heap s @ [new_timer now ms cb recurring]\<rparr>))"
      using sorted_heap_cong [OF i(2), of "heap s @ [new_timer now ms cb recurring]"] old by (simp add: nth_append)
    fix a
    show "a \<in> set (m_timers (s\<lparr>heap := heap s @ [new_timer now ms cb recurring]\<rparr>)) \<or> a \<in> set [length (heap s)] \<longleftrightarrow>
        a < length (heap (s\<lparr>heap := heap s @ [new_timer now ms cb recurring]\<rparr>)) \<and>
        m_cb (heap (s\<lparr>heap := heap s @ [new_timer now ms cb recurring]\<rparr>) ! a) \<noteq> None"
      using i(5) [of a] old [of a] by (auto simp: nth_append new_timer_def)
  qed (use i old in auto)
qed

lemma Comparator_cb [simp]: "Comparator ad (h[a := (h ! a)\<lparr>m_cb := x\<rparr>]) = Comparator ad h"
proof -
  have "m_next (h[a := (h ! a)\<lparr>m_cb := x\<rparr>] ! b) = m_next (h ! b)" for b
    by (cases "a < length h"; cases "a = b") (simp_all add: nth_list_update list_update_beyond not_less)
  then show ?thesis by (intro ext) (simp add: Comparator_def)
qed

text \<open>The result of each operation on a timer with a callback.\<close>

lemma cancel_cases:
  assumes "timer_inv ad s" and "a < length (heap s)"
  shows "cancel ad a (idle s) =
      (if m_cb (heap s ! a) = None then Ret (False, idle s)
       else Ret (True, idle (set_timer a ((heap s ! a)\<lparr>m_cb := None\<rparr>) (erase_timer a s))))"
    and "m_cb (heap s ! a) \<noteq> None \<Longrightarrow> timer_inv ad (set_timer a ((heap s ! a)\<lparr>m_cb := None\<rparr>) (erase_timer a s))"
  using take_out [OF assms] drop_waiting [of ad a "[]" "erase_timer a s" "(heap s ! a)\<lparr>m_cb := None\<rparr>"]
  by (auto simp: cancel_def set_timer_def erase_timer_def Let_def timer_inv_def)

definition moved :: "(nat \<Rightarrow> nat) \<Rightarrow> nat \<Rightarrow> 'c Timer \<Rightarrow> 'c TimerManager \<Rightarrow> 'c TimerManager" where
  "moved ad a t s = (let s1 = set_timer a t (erase_timer a s) in
     s1\<lparr>m_timers := set_insert (Comparator ad (heap s1)) a (m_timers s1)\<rparr>)"

lemma moved_inv:
  assumes "timer_inv ad s" and "a < length (heap s)" and "m_cb (heap s ! a) \<noteq> None" and "m_cb t \<noteq> None"
  shows "timer_inv ad (moved ad a t s)"
  using put_back [OF take_out(2) [OF assms(1-3)] assms(4)] by (simp add: moved_def timer_inv_def Let_def)

lemma refresh_cases:
  assumes "timer_inv ad s" and "a < length (heap s)"
  shows "refresh ad now a (idle s) =
      (if m_cb (heap s ! a) = None then Ret (False, idle s)
       else Ret (True, idle (moved ad a ((heap s ! a)\<lparr>m_next := now + m_ms (heap s ! a)\<rparr>) s)))"
  using take_out(1) [OF assms] by (auto simp: refresh_def moved_def Let_def)

lemma waiting_again:
  assumes "timer_inv ad s" and "a < length (heap s)" and "m_cb (heap s ! a) \<noteq> None" and "m_cb t \<noteq> None"
  shows "firing_inv ad [a] (set_timer a t (erase_timer a s))"
proof -
  note i = firing_invD [OF take_out(2) [OF assms(1-3)]]
  have a: "a \<notin> set (m_timers (erase_timer a s))" using i(4) by simp
  show ?thesis
  proof (rule firing_invI)
    have "sorted_wrt (Comparator ad ((heap s)[a := t])) (m_timers (erase_timer a s))"
      by (rule sorted_heap_cong [OF i(2)]) (use a assms(2) in \<open>auto simp: nth_list_update erase_timer_def\<close>)
    then show "sorted_wrt (Comparator ad (heap (set_timer a t (erase_timer a s)))) (m_timers (set_timer a t (erase_timer a s)))"
      by (simp add: set_timer_def erase_timer_def)
    fix b
    show "b \<in> set (m_timers (set_timer a t (erase_timer a s))) \<or> b \<in> set [a] \<longleftrightarrow>
        b < length (heap (set_timer a t (erase_timer a s))) \<and> m_cb (heap (set_timer a t (erase_timer a s)) ! b) \<noteq> None"
      using i(5) [of b] assms by (auto simp: set_timer_def erase_timer_def nth_list_update)
  qed (use i a in \<open>auto simp: set_timer_def\<close>)
qed

lemma reset_cases:
  assumes "timer_inv ad s" and "a < length (heap s)"
  shows "reset ad now a ms from_now (idle s) =
      (if ms = m_ms (heap s ! a) \<and> \<not> from_now then Ret ((True, False), idle s)
       else if m_cb (heap s ! a) = None then Ret ((False, False), idle s)
       else let t = heap s ! a; start = (if from_now then now else m_next t - m_ms t);
                (front, s') = insert_timer ad a (set_timer a (t\<lparr>m_ms := ms, m_next := start + ms\<rparr>) (erase_timer a s)) in
            Ret ((True, front), idle s'))"
  using take_out(1) [OF assms] by (auto simp: reset_def reset_locked_def Let_def split: prod.splits)

section \<open>Expired timers\<close>

definition rolled_back :: "u64 \<Rightarrow> 'c TimerManager \<Rightarrow> bool" where
  "rolled_back now s \<longleftrightarrow> now < m_previouseTime s \<and> now < m_previouseTime s - 60 * 60 * 1000"

definition due :: "u64 \<Rightarrow> 'c TimerManager \<Rightarrow> nat list" where
  "due now s = filter (\<lambda>a. rolled_back now s \<or> m_next (heap s ! a) \<le> now) (m_timers s)"

lemma first_is_earliest:
  assumes "sorted_wrt (Comparator ad h) (a # q)" and "b \<in> set q"
  shows "m_next (h ! a) \<le> m_next (h ! b)"
  using assms by (auto simp: Comparator_def split: if_splits)

lemma due_waiting:
  assumes "timer_inv ad s"
  shows "firing_inv ad (due now s) (s\<lparr>m_previouseTime := t, m_timers := filter (\<lambda>a. a \<notin> set (due now s)) (m_timers s)\<rparr>)"
proof -
  note i = firing_invD [OF assms [unfolded timer_inv_def]]
  have d: "set (due now s) \<subseteq> set (m_timers s)" by (auto simp: due_def)
  show ?thesis
  proof (rule firing_invI)
    fix a
    show "a \<in> set (m_timers (s\<lparr>m_previouseTime := t, m_timers := filter (\<lambda>a. a \<notin> set (due now s)) (m_timers s)\<rparr>)) \<or> a \<in> set (due now s) \<longleftrightarrow>
        a < length (heap (s\<lparr>m_previouseTime := t, m_timers := filter (\<lambda>a. a \<notin> set (due now s)) (m_timers s)\<rparr>)) \<and>
        m_cb (heap (s\<lparr>m_previouseTime := t, m_timers := filter (\<lambda>a. a \<notin> set (due now s)) (m_timers s)\<rparr>) ! a) \<noteq> None"
      using i(5) [of a] d by auto
    show "sorted_wrt (Comparator ad (heap (s\<lparr>m_previouseTime := t, m_timers := filter (\<lambda>a. a \<notin> set (due now s)) (m_timers s)\<rparr>)))
        (m_timers (s\<lparr>m_previouseTime := t, m_timers := filter (\<lambda>a. a \<notin> set (due now s)) (m_timers s)\<rparr>))"
      using i(2) by (simp add: sorted_wrt_filter)
    show "distinct (due now s)" using sorted_distinct [OF i(2)] by (simp add: due_def)
  qed (use i(1) in auto)
qed

lemma listExpired_fires:
  assumes "timer_inv ad s"
  shows "\<exists>s'. listExpiredCb ad now p (idle s) = Ret (map (\<lambda>a. m_cb (heap s ! a)) (due now s), idle s') \<and>
    timer_inv ad s' \<and> length (heap s') = length (heap s) \<and>
    (\<forall>b. heap s' ! b = (if b \<in> set (due now s) then fired now (heap s ! b) else heap s ! b)) \<and>
    m_tickled s' = m_tickled s \<and> (m_timers s \<noteq> [] \<longrightarrow> m_previouseTime s' = now)"
proof (cases "m_timers s")
  case Nil
  with assms show ?thesis by (simp add: listExpiredCb_def due_def)
next
  case (Cons a q)
  note i = firing_invD [OF assms [unfolded timer_inv_def]]
  note sorted = i(2) [unfolded Cons]
  have none: "due now s = []" if "\<not> rolled_back now s" "now < m_next (heap s ! a)"
    using first_is_earliest [OF sorted] that less_le_trans unfolding due_def Cons by (fastforce simp: filter_empty_conv not_le)
  show ?thesis
  proof (cases "\<not> rolled_back now s \<and> now < m_next (heap s ! a)")
    case True
    have "timer_inv ad (s\<lparr>m_previouseTime := now\<rparr>)" using assms by (simp add: timer_inv_def firing_inv_def)
    with True none show ?thesis
      by (auto simp: listExpiredCb_def Cons detectClockRollover_def rolled_back_def Let_def)
  next
    case False
    let ?r = "s\<lparr>m_previouseTime := now, m_timers := filter (\<lambda>a. a \<notin> set (due now s)) (m_timers s)\<rparr>"
    have parts: "(if rolled_back now s then (m_timers s, []) else split_expired ad (heap s) now p (m_timers s)) =
        (due now s, filter (\<lambda>a. a \<notin> set (due now s)) (m_timers s))"
    proof (cases "rolled_back now s")
      case True
      then show ?thesis by (simp add: due_def)
    next
      case False
      then have "filter (\<lambda>a. a \<notin> set (due now s)) (m_timers s) = filter (\<lambda>a. now < m_next (heap s ! a)) (m_timers s)"
        by (intro filter_cong) (auto simp: due_def not_le)
      then show ?thesis using False split_expired_due [OF i(2), of now p] by (simp add: due_def)
    qed
    have "listExpiredCb ad now p (idle s) = bindO (case (if rolled_back now s then (m_timers s, [])
        else split_expired ad (heap s) now p (m_timers s)) of (expired, rest) \<Rightarrow>
          Ret (fire_all ad now expired (s\<lparr>m_previouseTime := now, m_timers := rest\<rparr>))) (\<lambda>(r, s'). Ret (r, idle s'))"
      using False unfolding listExpiredCb_def detectClockRollover_def rolled_back_def [symmetric]
      by (cases "rolled_back now s") (simp_all add: Let_def Cons del: fire_all.simps)
    then have run: "listExpiredCb ad now p (idle s) = (let (cbs, s') = fire_all ad now (due now s) ?r in Ret (cbs, idle s'))"
      unfolding parts by (simp add: case_prod_beta Let_def)
    from fire_all_fires [OF due_waiting [OF assms], of now now now] show ?thesis
      by (auto simp: run fires_def Let_def split: prod.splits)
  qed
qed

section \<open>The timers as a machine\<close>

text \<open>A client names only timers it was given: a name that was not made yet changes nothing.\<close>

datatype 'c timer_call =
  TAdd u64 u64 'c bool | TCancel nat | TRefresh u64 nat | TReset u64 nat u64 bool | TNext u64 | TExpired u64 nat | THas

datatype 'c timer_reply = Added nat bool | Done bool bool | Wait u64 | Fired "'c option list"

definition answer :: "('a \<Rightarrow> 'r) \<Rightarrow> ('s, 'a) oper \<Rightarrow> ('s, 'r) oper" where
  "answer f p m = bindO (p m) (\<lambda>(r, m'). Ret (f r, m'))"

definition on_handle :: "nat \<Rightarrow> ('c TimerManager, 'c timer_reply) oper \<Rightarrow> ('c TimerManager, 'c timer_reply) oper" where
  "on_handle a p m = (if a < length (heap (inner m)) then p m else Ret (Done False False, m))"

fun timer_exec :: "(nat \<Rightarrow> nat) \<Rightarrow> 'c timer_call \<Rightarrow> ('c TimerManager, 'c timer_reply) oper" where
  "timer_exec ad (TAdd now ms cb recurring) = answer (\<lambda>(a, front). Added a front) (addTimer ad now ms cb recurring)"
| "timer_exec ad (TCancel a) = on_handle a (answer (\<lambda>ok. Done ok False) (cancel ad a))"
| "timer_exec ad (TRefresh now a) = on_handle a (answer (\<lambda>ok. Done ok False) (refresh ad now a))"
| "timer_exec ad (TReset now a ms from_now) =
     on_handle a (answer (\<lambda>(ok, front). Done ok front) (reset ad now a ms from_now))"
| "timer_exec ad (TNext now) = answer Wait (getNextTimer now)"
| "timer_exec ad (TExpired now p) = answer Fired (listExpiredCb ad now p)"
| "timer_exec ad THas = answer (\<lambda>b. Done b False) hasTimer"

lemma answer_Ret [simp]: "p m = Ret (r, m') \<Longrightarrow> answer f p m = Ret (f r, m')"
  by (simp add: answer_def)

lemma on_handle_idle [simp]:
  "on_handle a p (idle s) = (if a < length (heap s) then p (idle s) else Ret (Done False False, idle s))"
  by (simp add: on_handle_def)

text \<open>
  What one call does, in a state in order: it returns and keeps the order. A timer changes its callback only to
  none, and never its kind.
\<close>

definition tame :: "'c TimerManager \<Rightarrow> 'c TimerManager \<Rightarrow> bool" where
  "tame s s' \<longleftrightarrow> length (heap s') = length (heap s) \<and>
     (\<forall>b. m_cb (heap s' ! b) \<in> {None, m_cb (heap s ! b)} \<and> m_recurring (heap s' ! b) = m_recurring (heap s ! b))"

lemma tame_set: "m_cb t \<in> {None, m_cb (heap s ! a)} \<Longrightarrow> m_recurring t = m_recurring (heap s ! a) \<Longrightarrow> heap s' = (heap s)[a := t] \<Longrightarrow> tame s s'"
  by (cases "a < length (heap s)") (auto simp: tame_def nth_list_update list_update_beyond)

lemma tame_same: "heap s' = heap s \<Longrightarrow> tame s s'"
  by (simp add: tame_def)

lemma heap_simps [simp]:
  "heap (set_timer a t s) = (heap s)[a := t]" "heap (erase_timer a s) = heap s"
  "m_timers (set_timer a t s) = m_timers s" "m_tickled (set_timer a t s) = m_tickled s"
  "m_tickled (erase_timer a s) = m_tickled s" "heap (snd (insert_timer ad a s)) = heap s"
  by (simp_all add: set_timer_def erase_timer_def insert_timer_def Let_def)

lemma heap_moved [simp]: "heap (moved ad a t s) = (heap s)[a := t]" "m_tickled (moved ad a t s) = m_tickled s"
  by (simp_all add: moved_def Let_def)

lemma tame_changed:
  assumes "m_cb t \<in> {None, m_cb (heap s ! a)}" and "m_recurring t = m_recurring (heap s ! a)"
  shows "tame s (set_timer a t (erase_timer a s))" and "tame s (moved ad a t s)"
  using tame_set [OF assms] by auto

lemma reset_outcome:
  assumes "timer_inv ad s" and "a < length (heap s)"
  shows "\<exists>ok front s'. reset ad now a ms from_now (idle s) = Ret ((ok, front), idle s') \<and> timer_inv ad s' \<and> tame s s'"
proof (cases "ms = m_ms (heap s ! a) \<and> \<not> from_now \<or> m_cb (heap s ! a) = None")
  case True
  then show ?thesis using assms reset_cases [OF assms, of now ms from_now] by (auto simp: tame_same)
next
  case False
  let ?t = "(heap s ! a)\<lparr>m_ms := ms, m_next := (if from_now then now else m_next (heap s ! a) - m_ms (heap s ! a)) + ms\<rparr>"
  have w: "firing_inv ad [a] (set_timer a ?t (erase_timer a s))"
    by (rule waiting_again [OF assms]) (use False in auto)
  have "tame s (snd (insert_timer ad a (set_timer a ?t (erase_timer a s))))" by (rule tame_set [of ?t]) auto
  then show ?thesis using False reset_cases [OF assms, of now ms from_now] insert_waiting(2) [OF w]
    by (auto simp: Let_def split: prod.splits)
qed

lemma call_returns:
  assumes "timer_inv ad s"
  shows "\<exists>r s'. timer_exec ad c (idle s) = Ret (r, idle s') \<and> timer_inv ad s'"
proof (cases c)
  case (TAdd now ms cb recurring)
  let ?s = "s\<lparr>heap := heap s @ [new_timer now ms cb recurring]\<rparr>"
  have "addTimer ad now ms cb recurring (idle s) =
      Ret ((length (heap s), fst (insert_timer ad (length (heap s)) ?s)), idle (snd (insert_timer ad (length (heap s)) ?s)))"
    by (simp add: addTimer_def Let_def case_prod_beta)
  with insert_waiting(2) [OF add_waiting [OF assms]] show ?thesis by (simp add: TAdd)
next
  case (TCancel a)
  with assms cancel_cases [OF assms, of a] show ?thesis by (cases "m_cb (heap s ! a) = None") (auto simp: answer_def)
next
  case (TRefresh now a)
  with assms refresh_cases [OF assms, of a now] moved_inv [OF assms, of a] show ?thesis
    by (cases "m_cb (heap s ! a) = None") (auto simp: answer_def)
next
  case (TReset now a ms from_now)
  with assms reset_outcome [OF assms, of a now ms from_now] show ?thesis by (fastforce simp: answer_def)
next
  case (TNext now)
  have "timer_inv ad (s\<lparr>m_tickled := False\<rparr>)" using assms by (simp add: timer_inv_def firing_inv_def)
  then show ?thesis by (cases "m_timers s") (auto simp: TNext answer_def getNextTimer_def Let_def)
next
  case (TExpired now p)
  with listExpired_fires [OF assms, of now p] show ?thesis by fastforce
next
  case THas
  with assms show ?thesis by (auto simp: answer_def hasTimer_def)
qed

lemma call_idle: "timer_exec ad c (idle s) = Ret (r, m') \<Longrightarrow> \<exists>s'. m' = idle s'"
  by (cases c) (auto simp: answer_def addTimer_def cancel_def refresh_def reset_def reset_locked_def getNextTimer_def
      listExpiredCb_def hasTimer_def split: if_splits)

interpretation timers: total_machine "timer_exec ad" "timer_inv ad" for ad
proof unfold_locales
  fix c :: "'a timer_call" and s s' :: "'a TimerManager" and r m'
  show "\<exists>s'. m' = idle s'" if "timer_exec ad c (idle s) = Ret (r, m')" using that by (rule call_idle)
  show "timer_inv ad s'" if "timer_exec ad c (idle s) = Ret (r, idle s')" "timer_inv ad s"
    using call_returns [OF that(2), of c] that(1) by auto
  show "\<exists>r m'. timer_exec ad c (idle s) = Ret (r, m')" if "timer_inv ad s"
    using call_returns [OF that, of c] by auto
qed

section \<open>How often a callback is given out\<close>

definition armed :: "'c \<Rightarrow> 'c TimerManager \<Rightarrow> nat" where
  "armed cb s = card {a. a < length (heap s) \<and> m_cb (heap s ! a) = Some cb}"

definition one_shot :: "'c \<Rightarrow> 'c TimerManager \<Rightarrow> bool" where
  "one_shot cb s \<longleftrightarrow> (\<forall>a<length (heap s). m_cb (heap s ! a) = Some cb \<longrightarrow> \<not> m_recurring (heap s ! a))"

fun given_out :: "'c \<Rightarrow> 'c timer_reply \<Rightarrow> nat" where
  "given_out cb (Fired cbs) = length (filter (\<lambda>x. x = Some cb) cbs)"
| "given_out cb r = 0"

fun adds :: "'c \<Rightarrow> 'c timer_call \<Rightarrow> nat" where
  "adds cb (TAdd now ms cb' recurring) = (if cb' = cb then 1 else 0)"
| "adds cb c = 0"

fun recurs :: "'c \<Rightarrow> 'c timer_call \<Rightarrow> bool" where
  "recurs cb (TAdd now ms cb' recurring) = (cb' = cb \<and> recurring)"
| "recurs cb c = False"

lemma armed_tame: "tame s s' \<Longrightarrow> armed cb s' \<le> armed cb s \<and> (one_shot cb s \<longrightarrow> one_shot cb s')"
proof -
  assume t: "tame s s'"
  then have "m_cb (heap s' ! b) = Some cb \<Longrightarrow> m_cb (heap s ! b) = Some cb \<and> m_recurring (heap s' ! b) = m_recurring (heap s ! b)" for b
    unfolding tame_def by (metis insert_iff option.distinct(1) singletonD)
  moreover have "length (heap s') = length (heap s)" using t by (simp add: tame_def)
  ultimately show ?thesis by (auto simp: armed_def one_shot_def intro!: card_mono)
qed

lemma call_tame:
  assumes "timer_inv ad s" and "timer_exec ad c (idle s) = Ret (r, idle s')"
  shows "(\<exists>now ms cb recurring. c = TAdd now ms cb recurring \<and> heap s' = heap s @ [new_timer now ms cb recurring]) \<or>
    (\<exists>now p. c = TExpired now p) \<or> tame s s' \<and> (\<forall>cb. given_out cb r = 0 \<and> adds cb c = 0)"
proof (cases c)
  case (TAdd now ms cb recurring)
  with assms(2) show ?thesis
    by (auto simp: answer_def addTimer_def insert_timer_def Let_def split: prod.splits)
next
  case (TCancel a)
  with assms cancel_cases(1) [OF assms(1), of a] show ?thesis
    by (auto simp: answer_def tame_same intro!: tame_changed split: if_splits)
next
  case (TRefresh now a)
  with assms refresh_cases [OF assms(1), of a now] show ?thesis
    by (auto simp: answer_def tame_same intro!: tame_changed split: if_splits)
next
  case (TReset now a ms from_now)
  with assms reset_outcome [OF assms(1), of a now ms from_now] show ?thesis
    by (auto simp: answer_def tame_same split: if_splits)
next
  case (TNext now)
  with assms(2) show ?thesis by (auto simp: answer_def getNextTimer_def Let_def tame_same split: list.splits)
next
  case (TExpired now p)
  then show ?thesis by blast
next
  case THas
  with assms(2) show ?thesis by (auto simp: answer_def hasTimer_def tame_same)
qed

lemma armed_add:
  "heap s' = heap s @ [t] \<Longrightarrow> armed cb s' = armed cb s + (if m_cb t = Some cb then 1 else 0)"
proof -
  assume h: "heap s' = heap s @ [t]"
  have "{a. a < length (heap s') \<and> m_cb (heap s' ! a) = Some cb} =
      {a. a < length (heap s) \<and> m_cb (heap s ! a) = Some cb} \<union> (if m_cb t = Some cb then {length (heap s)} else {})"
    by (auto simp: h nth_append less_Suc_eq split: if_splits)
  then show ?thesis by (auto simp: armed_def)
qed

lemma armed_fires:
  assumes "timer_inv ad s" and "one_shot cb s"
    and h: "length (heap s') = length (heap s)"
      "\<forall>b. heap s' ! b = (if b \<in> set (due now s) then fired now (heap s ! b) else heap s ! b)"
  shows "length (filter (\<lambda>x. x = Some cb) (map (\<lambda>a. m_cb (heap s ! a)) (due now s))) + armed cb s' = armed cb s"
    and "one_shot cb s'"
proof -
  note i = firing_invD [OF assms(1) [unfolded timer_inv_def]]
  let ?D = "{a \<in> set (due now s). m_cb (heap s ! a) = Some cb}"
  have "distinct (due now s)" using sorted_distinct [OF i(2)] by (simp add: due_def)
  then have d: "length (filter (\<lambda>x. x = Some cb) (map (\<lambda>a. m_cb (heap s ! a)) (due now s))) = card ?D"
    by (simp add: filter_map comp_def distinct_card [symmetric])
  have D: "?D \<subseteq> {a. a < length (heap s) \<and> m_cb (heap s ! a) = Some cb}"
  proof
    fix a
    assume "a \<in> ?D"
    then have "a \<in> set (m_timers s)" "m_cb (heap s ! a) = Some cb" by (auto simp: due_def)
    with i(5) [of a] show "a \<in> {a. a < length (heap s) \<and> m_cb (heap s ! a) = Some cb}" by auto
  qed
  have "{a. a < length (heap s') \<and> m_cb (heap s' ! a) = Some cb} = {a. a < length (heap s) \<and> m_cb (heap s ! a) = Some cb} - ?D"
    using assms(2) D by (auto simp: h fired_def one_shot_def split: if_splits)
  then have "armed cb s' = armed cb s - card ?D" unfolding armed_def by (simp add: card_Diff_subset D finite_subset)
  moreover have "card ?D \<le> armed cb s" unfolding armed_def by (rule card_mono [OF _ D]) simp
  ultimately show "length (filter (\<lambda>x. x = Some cb) (map (\<lambda>a. m_cb (heap s ! a)) (due now s))) + armed cb s' = armed cb s"
    unfolding d by simp
  show "one_shot cb s'" using assms(2) by (auto simp: h one_shot_def fired_def split: if_splits)
qed

lemma call_counts:
  assumes "timer_inv ad s" and "timer_exec ad c (idle s) = Ret (r, idle s')" and "one_shot cb s" and "\<not> recurs cb c"
  shows "given_out cb r + armed cb s' \<le> armed cb s + adds cb c \<and> one_shot cb s'"
proof -
  consider now ms cb' recurring where "c = TAdd now ms cb' recurring" "heap s' = heap s @ [new_timer now ms cb' recurring]"
    | now p where "c = TExpired now p" | "tame s s'" "given_out cb r = 0" "adds cb c = 0"
    using call_tame [OF assms(1,2)] by auto
  then show ?thesis
  proof cases
    case 1
    have "given_out cb r = 0" using assms(2) by (auto simp: 1(1) answer_def split: prod.splits)
    moreover have "one_shot cb s'"
      using assms(3,4) by (auto simp: 1 one_shot_def nth_append less_Suc_eq new_timer_def)
    ultimately show ?thesis using armed_add [OF 1(2), of cb] by (auto simp: 1(1) new_timer_def)
  next
    case 2
    with assms(2) listExpired_fires [OF assms(1), of now p]
    have r: "r = Fired (map (\<lambda>a. m_cb (heap s ! a)) (due now s))" and h: "length (heap s') = length (heap s)"
      "\<forall>b. heap s' ! b = (if b \<in> set (due now s) then fired now (heap s ! b) else heap s ! b)"
      by (auto simp: answer_def)
    from armed_fires [OF assms(1,3) h] show ?thesis by (simp add: r 2)
  next
    case 3
    with armed_tame [OF 3(1), of cb] assms(3) show ?thesis by simp
  qed
qed

lemma run_counts:
  assumes "timer_inv ad s" and "run_cmds (timer_exec ad) cs (idle s) = Ret (rs, m')" and "one_shot cb s" and "\<forall>c\<in>set cs. \<not> recurs cb c"
  shows "(\<Sum>r\<leftarrow>rs. given_out cb r) \<le> armed cb s + (\<Sum>c\<leftarrow>cs. adds cb c)"
  using assms
proof (induction cs arbitrary: s rs)
  case Nil
  then show ?case by simp
next
  case (Cons c cs)
  from call_returns [OF Cons.prems(1), of c] obtain r s1 where c: "timer_exec ad c (idle s) = Ret (r, idle s1)"
    and i: "timer_inv ad s1" by blast
  with Cons.prems(2) obtain rs' where "run_cmds (timer_exec ad) cs (idle s1) = Ret (rs', m')" "rs = r # rs'"
    by (auto split: prod.splits)
  with Cons.IH [OF i] call_counts [OF Cons.prems(1) c Cons.prems(3)] Cons.prems(4) show ?case by fastforce
qed

section \<open>Properties\<close>

text \<open>
  C16. A one-shot timer runs its callback at most once. In every run of the timer manager a callback that is only
  given to timers that do not recur is handed out at most as often as a timer was added for it; and
  every run returns.
\<close>

theorem one_shots_fire_once:
  assumes "inj ad" and "\<forall>c\<in>set cs. \<not> recurs cb c"
  shows "\<exists>rs s'. run_cmds (timer_exec ad) cs (idle (new_manager t0)) = Ret (rs, idle s') \<and>
    (\<Sum>r\<leftarrow>rs. given_out cb r) \<le> (\<Sum>c\<leftarrow>cs. adds cb c)"
proof -
  from timers.run_returns [OF timer_inv_new [OF assms(1)], of cs t0] obtain rs s' where
    r: "run_cmds (timer_exec ad) cs (idle (new_manager t0)) = Ret (rs, idle s')" by blast
  have "one_shot cb (new_manager t0)" "armed cb (new_manager t0) = 0"
    by (simp_all add: one_shot_def armed_def new_manager_def)
  with run_counts [OF timer_inv_new [OF assms(1)] r _ assms(2)] r show ?thesis by auto
qed

theorem one_shots_fire_once_witness:
  "\<exists>rs s'. run_cmds (timer_exec id) [TAdd 5 10 (7::nat) False, TExpired 20 0, TExpired 20 0] (idle (new_manager 0)) = Ret (rs, idle s') \<and>
     (\<Sum>r\<leftarrow>rs. given_out 7 r) \<le> 1"
  using one_shots_fire_once [of id "[TAdd 5 10 (7::nat) False, TExpired 20 0, TExpired 20 0]" 7 0]
  by (simp del: run_cmds.simps)

text \<open>
  C18. A cancelled timer does not run. When \<^verbatim>\<open>cancel\<close> answers true for the only timer of a callback, the callback is
  not handed out any more in any run that does not add a timer for it.
\<close>

theorem cancelled_never_fires:
  assumes "timer_inv ad s" and "a < length (heap s)" and "\<forall>b<length (heap s). m_cb (heap s ! b) = Some cb \<longrightarrow> b = a"
    and "cancel ad a (idle s) = Ret (True, m)" and "\<forall>c\<in>set cs. adds cb c = 0"
  shows "\<exists>rs s'. run_cmds (timer_exec ad) cs m = Ret (rs, idle s') \<and> (\<Sum>r\<leftarrow>rs. given_out cb r) = 0"
proof -
  let ?s = "set_timer a ((heap s ! a)\<lparr>m_cb := None\<rparr>) (erase_timer a s)"
  have m: "m = idle ?s" and i: "timer_inv ad ?s" using cancel_cases [OF assms(1,2)] assms(4) by (auto split: if_splits)
  have none: "m_cb (heap ?s ! b) \<noteq> Some cb" if "b < length (heap s)" for b
    using assms(2,3) that by (cases "b = a") auto
  then have "one_shot cb ?s" "armed cb ?s = 0" by (auto simp: one_shot_def armed_def)
  moreover have "\<forall>c\<in>set cs. \<not> recurs cb c"
  proof
    fix c
    assume "c \<in> set cs"
    with assms(5) show "\<not> recurs cb c" by (cases c) (auto split: if_splits)
  qed
  moreover obtain rs s' where r: "run_cmds (timer_exec ad) cs (idle ?s) = Ret (rs, idle s')"
    using timers.run_returns [OF i] by blast
  moreover have "(\<Sum>c\<leftarrow>cs. adds cb c) = 0" using assms(5) by (induction cs) auto
  ultimately have "(\<Sum>r\<leftarrow>rs. given_out cb r) \<le> 0" using run_counts [OF i r, of cb] by linarith
  with r show ?thesis by (simp add: m)
qed

definition one_timer :: "nat TimerManager" where
  "one_timer = \<lparr>heap = [new_timer 5 10 7 True], m_timers = [0], m_tickled = True, m_previouseTime = 0\<rparr>"

lemma one_timer_inv: "timer_inv id one_timer"
  by (auto simp: timer_inv_def firing_inv_def one_timer_def new_timer_def)

theorem cancelled_never_fires_witness:
  "\<exists>m rs s'. cancel id 0 (idle one_timer) = Ret (True, m) \<and> run_cmds (timer_exec id) [TExpired 30 0] m = Ret (rs, idle s') \<and>
     (\<Sum>r\<leftarrow>rs. given_out 7 r) = 0"
proof -
  obtain m where m: "cancel id 0 (idle one_timer) = Ret (True, m)"
    using cancel_cases(1) [OF one_timer_inv, of 0] by (auto simp: one_timer_def new_timer_def)
  from cancelled_never_fires [OF one_timer_inv _ _ m, of 7 "[TExpired 30 0]"] m show ?thesis
    by (auto simp: one_timer_def simp del: run_cmds.simps)
qed

text \<open>
  C17. Expiry. Unless the clock was put back by more than an hour, \<^verbatim>\<open>listExpiredCb\<close> hands out the callbacks of exactly
  the timers whose deadline has passed, in the order of their deadlines, wherever the comparison object lies in
  memory; the recurring ones of them are set to one period from now, the others lose their callback and leave the set,
  and every other timer stays as it is. After a jump of the clock back by more than an hour all timers are fired.
\<close>

theorem expiry_exact:
  assumes "timer_inv ad s"
  shows "\<exists>s'. listExpiredCb ad now p (idle s) = Ret (map (\<lambda>a. m_cb (heap s ! a)) (due now s), idle s') \<and> timer_inv ad s' \<and>
    sorted (map (\<lambda>a. m_next (heap s ! a)) (due now s)) \<and>
    (\<forall>a. a \<in> set (due now s) \<longleftrightarrow> a < length (heap s) \<and> m_cb (heap s ! a) \<noteq> None \<and>
       (m_next (heap s ! a) \<le> now \<or> rolled_back now s)) \<and>
    (\<forall>a<length (heap s). heap s' ! a = (if a \<in> set (due now s) then
        (if m_recurring (heap s ! a) then (heap s ! a)\<lparr>m_next := now + m_ms (heap s ! a)\<rparr> else (heap s ! a)\<lparr>m_cb := None\<rparr>)
      else heap s ! a))"
proof -
  note i = firing_invD [OF assms [unfolded timer_inv_def]]
  have "sorted (map (\<lambda>a. m_next (heap s ! a)) (m_timers s))"
    using i(2) unfolding sorted_map by (rule sorted_wrt_mono_rel [rotated]) (auto simp: Comparator_def split: if_splits)
  then have "sorted (map (\<lambda>a. m_next (heap s ! a)) (due now s))" by (simp add: due_def sorted_filter)
  moreover have "a \<in> set (due now s) \<longleftrightarrow> a < length (heap s) \<and> m_cb (heap s ! a) \<noteq> None \<and>
      (m_next (heap s ! a) \<le> now \<or> rolled_back now s)" for a
    using i(5) [of a] by (auto simp: due_def)
  ultimately show ?thesis using listExpired_fires [OF assms, of now p] by (auto simp: fired_def)
qed

theorem expiry_exact_witness:
  "\<exists>s'. listExpiredCb id 20 0 (idle one_timer) = Ret ([Some 7], idle s') \<and> m_next (heap s' ! 0) = 30"
proof -
  have d: "due 20 one_timer = [0]" by (simp add: due_def one_timer_def new_timer_def)
  from expiry_exact [OF one_timer_inv, of 20 0] obtain s' where
    "listExpiredCb id 20 0 (idle one_timer) = Ret (map (\<lambda>a. m_cb (heap one_timer ! a)) (due 20 one_timer), idle s')"
    "\<forall>a<length (heap one_timer). heap s' ! a = (if a \<in> set (due 20 one_timer) then
        (if m_recurring (heap one_timer ! a) then (heap one_timer ! a)\<lparr>m_next := 20 + m_ms (heap one_timer ! a)\<rparr>
         else (heap one_timer ! a)\<lparr>m_cb := None\<rparr>) else heap one_timer ! a)" by blast
  moreover have "heap one_timer = [new_timer 5 10 7 True]" by (simp add: one_timer_def)
  ultimately show ?thesis by (intro exI [of _ s']) (simp add: d new_timer_def)
qed

text \<open>
  The waiting time. \<^verbatim>\<open>getNextTimer\<close> answers all ones when no timer waits, zero exactly when a timer is due, and otherwise a time
  after which a timer is due and before which none is.
\<close>

theorem waiting_time_exact:
  assumes "timer_inv ad s"
  shows "\<exists>w s'. getNextTimer now (idle s) = Ret (w, idle s') \<and> heap s' = heap s \<and> m_timers s' = m_timers s \<and>
    (m_timers s = [] \<longrightarrow> w = - 1) \<and>
    (m_timers s \<noteq> [] \<longrightarrow>
      (w = 0 \<longleftrightarrow> (\<exists>a\<in>set (m_timers s). m_next (heap s ! a) \<le> now)) \<and>
      (w \<noteq> 0 \<longrightarrow> (\<exists>a\<in>set (m_timers s). m_next (heap s ! a) = now + w) \<and> (\<forall>a\<in>set (m_timers s). now + w \<le> m_next (heap s ! a))))"
proof (cases "m_timers s")
  case Nil
  then show ?thesis by (simp add: getNextTimer_def Let_def)
next
  case (Cons a q)
  note i = firing_invD [OF assms [unfolded timer_inv_def]]
  have first: "m_next (heap s ! a) \<le> m_next (heap s ! b)" if "b \<in> set (m_timers s)" for b
    using first_is_earliest [OF i(2) [unfolded Cons]] that by (auto simp: Cons)
  show ?thesis
  proof (cases "m_next (heap s ! a) \<le> now")
    case True
    then show ?thesis using Cons by (auto simp: getNextTimer_def Let_def)
  next
    case False
    then have "m_next (heap s ! a) - now \<noteq> 0" by auto
    moreover have "\<forall>b\<in>set (m_timers s). \<not> m_next (heap s ! b) \<le> now" using False first order_trans by blast
    ultimately show ?thesis using Cons first
      by (intro exI [of _ "m_next (heap s ! a) - now"] exI [of _ "s\<lparr>m_tickled := False\<rparr>"])
        (auto simp: getNextTimer_def Let_def)
  qed
qed

theorem waiting_time_exact_witness:
  "\<exists>w s'. getNextTimer 12 (idle one_timer) = Ret (w, idle s') \<and> w \<noteq> 0"
  using waiting_time_exact [OF one_timer_inv, of 12] by (fastforce simp: one_timer_def new_timer_def)

fun quiet_call :: "'c timer_call \<Rightarrow> bool" where
  "quiet_call (TAdd now ms cb recurring) = True"
| "quiet_call (TCancel a) = True"
| "quiet_call (TReset now a ms from_now) = True"
| "quiet_call THas = True"
| "quiet_call c = False"

fun wakes :: "'c timer_reply \<Rightarrow> bool" where
  "wakes (Added a front) = front"
| "wakes (Done ok front) = front"
| "wakes r = False"

definition asleep :: "(nat \<Rightarrow> nat) \<Rightarrow> 'c TimerManager \<Rightarrow> 'c TimerManager \<Rightarrow> bool" where
  "asleep ad s0 s \<longleftrightarrow> timer_inv ad s \<and> \<not> m_tickled s \<and>
     (\<forall>a\<in>set (m_timers s). \<exists>b\<in>set (m_timers s0). m_next (heap s0 ! b) \<le> m_next (heap s ! a))"

lemma quiet_insert:
  assumes "firing_inv ad [a] s" and "\<not> m_tickled s" and "\<not> fst (insert_timer ad a s)"
    and "\<forall>c\<in>set (m_timers s). \<exists>b\<in>set (m_timers s0). m_next (heap s0 ! b) \<le> m_next (heap s ! c)"
  shows "asleep ad s0 (snd (insert_timer ad a s))"
proof -
  let ?q = "set_insert (Comparator ad (heap s)) a (m_timers s)"
  note ins = insert_waiting [OF assms(1)]
  have hd: "hd ?q \<noteq> a" using assms(2,3) by (auto simp: ins(1))
  obtain b q where q: "?q = b # q" using ins(4) by (cases ?q) auto
  have "b \<in> set (m_timers s)" using hd q ins(3) by auto
  moreover have "m_next (heap s ! b) \<le> m_next (heap s ! a)"
  proof -
    have "a \<in> set q" using q hd ins(3) by auto
    moreover have "sorted_wrt (Comparator ad (heap s)) (b # q)"
      using firing_invD(2) [OF ins(2) [unfolded timer_inv_def]] by (simp add: ins(1) q)
    ultimately show ?thesis by (rule first_is_earliest [rotated])
  qed
  ultimately obtain b0 where "b0 \<in> set (m_timers s0)" "m_next (heap s0 ! b0) \<le> m_next (heap s ! a)"
    using assms(4) order_trans by blast
  with assms(2,4) hd ins(2) show ?thesis by (auto simp: asleep_def ins(1,3))
qed

lemma quiet_step:
  assumes "asleep ad s0 s" and "quiet_call c" and "timer_exec ad c (idle s) = Ret (r, idle s')" and "\<not> wakes r"
  shows "asleep ad s0 s'"
proof -
  have i: "timer_inv ad s" and t: "\<not> m_tickled s"
    and b: "\<forall>a\<in>set (m_timers s). \<exists>b\<in>set (m_timers s0). m_next (heap s0 ! b) \<le> m_next (heap s ! a)"
    using assms(1) by (auto simp: asleep_def)
  note old = firing_invD(5) [OF i [unfolded timer_inv_def]] and d = sorted_distinct [OF firing_invD(2) [OF i [unfolded timer_inv_def]]]
  show ?thesis
  proof (cases c)
    case (TAdd now ms cb recurring)
    let ?s = "s\<lparr>heap := heap s @ [new_timer now ms cb recurring]\<rparr>"
    have s': "s' = snd (insert_timer ad (length (heap s)) ?s)" "\<not> fst (insert_timer ad (length (heap s)) ?s)"
      using assms(3,4) by (auto simp: TAdd answer_def addTimer_def Let_def split: prod.splits)
    have "\<forall>c\<in>set (m_timers ?s). \<exists>b\<in>set (m_timers s0). m_next (heap s0 ! b) \<le> m_next (heap ?s ! c)"
      using b old by (auto simp: nth_append)
    with quiet_insert [OF add_waiting [OF i]] t s' show ?thesis by simp
  next
    case (TCancel a)
    show ?thesis
    proof (cases "a < length (heap s) \<and> m_cb (heap s ! a) \<noteq> None")
      case True
      then have "s' = set_timer a ((heap s ! a)\<lparr>m_cb := None\<rparr>) (erase_timer a s)"
        using assms(3) cancel_cases(1) [OF i, of a] by (auto simp: TCancel answer_def)
      with True cancel_cases(2) [OF i, of a] t b d show ?thesis by (auto simp: asleep_def erase_timer_def)
    next
      case False
      then show ?thesis using assms(1,3) cancel_cases(1) [OF i, of a] by (auto simp: TCancel answer_def split: if_splits)
    qed
  next
    case (TReset now a ms from_now)
    show ?thesis
    proof (cases "a < length (heap s) \<and> m_cb (heap s ! a) \<noteq> None \<and> \<not> (ms = m_ms (heap s ! a) \<and> \<not> from_now)")
      case True
      let ?t = "(heap s ! a)\<lparr>m_ms := ms, m_next := (if from_now then now else m_next (heap s ! a) - m_ms (heap s ! a)) + ms\<rparr>"
      let ?s = "set_timer a ?t (erase_timer a s)"
      have s': "s' = snd (insert_timer ad a ?s)" "\<not> fst (insert_timer ad a ?s)"
        using True assms(3,4) reset_cases [OF i, of a now ms from_now]
        by (auto simp: TReset answer_def Let_def split: prod.splits)
      have "firing_inv ad [a] ?s" by (rule waiting_again [OF i]) (use True in auto)
      moreover have "\<forall>c\<in>set (m_timers ?s). \<exists>b\<in>set (m_timers s0). m_next (heap s0 ! b) \<le> m_next (heap ?s ! c)"
        using b d by (auto simp: erase_timer_def)
      ultimately show ?thesis using quiet_insert [of ad a ?s s0] t s' by simp
    next
      case False
      then show ?thesis using assms(1,3) reset_cases [OF i, of a now ms from_now]
        by (auto simp: TReset answer_def split: if_splits)
    qed
  next
    case THas
    then show ?thesis using assms(1,3) by (auto simp: answer_def hasTimer_def)
  qed (use assms(2) in auto)
qed

text \<open>
  No wake-up is missed. After the poller has asked for its waiting time (the tickle flag is down), let other threads add,
  cancel and reset timers. As long as no call was told to wake the poller, no timer is due earlier than one that
  the poller knew of.
\<close>

theorem no_wakeup_missed:
  assumes "timer_inv ad s" and "\<not> m_tickled s" and "list_all quiet_call cs"
    and "run_cmds (timer_exec ad) cs (idle s) = Ret (rs, idle s')" and "\<not> (\<exists>r\<in>set rs. wakes r)"
  shows "\<forall>a\<in>set (m_timers s'). \<exists>b\<in>set (m_timers s). m_next (heap s ! b) \<le> m_next (heap s' ! a)"
proof -
  have "asleep ad s s'" if "asleep ad s t" "list_all quiet_call cs" "run_cmds (timer_exec ad) cs (idle t) = Ret (rs, idle s')"
    "\<not> (\<exists>r\<in>set rs. wakes r)" for t cs rs
    using that
  proof (induction cs arbitrary: t rs)
    case Nil
    then show ?case by simp
  next
    case (Cons c cs)
    then have "timer_inv ad t" by (simp add: asleep_def)
    then obtain r t1 where c: "timer_exec ad c (idle t) = Ret (r, idle t1)" using call_returns [of ad t c] by blast
    with Cons.prems(3) obtain rs' where "run_cmds (timer_exec ad) cs (idle t1) = Ret (rs', idle s')" "rs = r # rs'"
      by (auto split: prod.splits)
    with Cons c quiet_step [OF Cons.prems(1) _ c] show ?case by auto
  qed
  moreover have "asleep ad s s" using assms(1,2) by (auto simp: asleep_def)
  ultimately have "asleep ad s s'" using assms(3-5) by blast
  then show ?thesis by (simp add: asleep_def)
qed

theorem no_wakeup_missed_witness:
  "\<exists>rs s'. run_cmds (timer_exec id) [TAdd 5 100 8 False] (idle (one_timer\<lparr>m_tickled := False\<rparr>)) = Ret (rs, idle s') \<and>
     (\<forall>a\<in>set (m_timers s'). 15 \<le> m_next (heap s' ! a))"
proof -
  have i: "timer_inv id (one_timer\<lparr>m_tickled := False\<rparr>)" using one_timer_inv by (simp add: timer_inv_def firing_inv_def)
  have "(case run_cmds (timer_exec id) [TAdd 5 100 8 False] (idle (one_timer\<lparr>m_tickled := False\<rparr>)) of
      Ret (rs, m) \<Rightarrow> list_all (\<lambda>r. \<not> wakes r) rs | _ \<Rightarrow> False)" by code_simp
  moreover obtain rs s' where r: "run_cmds (timer_exec id) [TAdd 5 100 8 False] (idle (one_timer\<lparr>m_tickled := False\<rparr>)) = Ret (rs, idle s')"
    using timers.run_returns [OF i] by blast
  ultimately have "\<not> (\<exists>r\<in>set rs. wakes r)" by (simp add: list_all_iff del: run_cmds.simps)
  from no_wakeup_missed [OF i _ _ r this] have "\<forall>a\<in>set (m_timers s'). 15 \<le> m_next (heap s' ! a)"
    by (simp add: one_timer_def new_timer_def)
  with r show ?thesis by blast
qed

text \<open>
  A period close to the end of the range wraps around: a timer added with the largest period at a time after zero is due
  at once, although it was to wait for ever.
\<close>

theorem endless_timers_fire:
  assumes "timer_inv ad s" and "0 < now" and "addTimer ad now (- 1) cb recurring (idle s) = Ret ((a, front), idle s')"
  shows "m_next (heap s' ! a) = now - 1 \<and> a \<in> set (due now s')"
proof -
  let ?s = "s\<lparr>heap := heap s @ [new_timer now (- 1) cb recurring]\<rparr>"
  have s': "a = length (heap s)" "s' = snd (insert_timer ad (length (heap s)) ?s)"
    using assms(3) by (auto simp: addTimer_def Let_def split: prod.splits)
  have nx: "m_next (heap s' ! a) = now - 1" by (simp add: s' new_timer_def)
  have "now - 1 \<le> now" using inc_le [OF assms(2)] by (simp add: word_sub_le_iff)
  moreover have "a \<in> set (m_timers s')"
    using insert_waiting(1,3) [OF add_waiting [OF assms(1), of now "- 1" cb recurring]] by (simp add: s')
  ultimately show ?thesis using nx by (simp add: due_def)
qed

theorem endless_timers_fire_witness:
  "\<exists>a front s'. addTimer id 1 (- 1) 9 False (idle one_timer) = Ret ((a, front), idle s') \<and> a \<in> set (due 1 s')"
proof -
  let ?s = "one_timer\<lparr>heap := heap one_timer @ [new_timer 1 (- 1) 9 False]\<rparr>"
  obtain front s' where "insert_timer id (length (heap one_timer)) ?s = (front, s')" by fastforce
  then have r: "addTimer id 1 (- 1) 9 False (idle one_timer) = Ret ((length (heap one_timer), front), idle s')"
    by (simp add: addTimer_def Let_def)
  from endless_timers_fire [OF one_timer_inv _ r] r show ?thesis by auto
qed

end
