(* ===== verification/Protocol.thy ===== *)
theory Protocol
  imports Bytes
begin

text \<open>
  The messages the servers of \<open>game_server\<close> exchange: the packed header of \<^verbatim>\<open>common/message_dispatcher.h\<close>, in
  network byte order, before a body, and the loop that cuts a stream of received bytes into messages, which the login
  and the account server share. \<open>host\<close> says whether the machine is little endian.
\<close>

section \<open>Headers\<close>

type_synonym u32 = "32 word"

record MessageHeader =
  msg_id :: u32
  msg_len :: u32
  target_id :: u64
  user_data :: u32

text \<open>\<^verbatim>\<open>sizeof(MessageHeader)\<close>: the structure is packed.\<close>

abbreviation header_size :: nat where
  "header_size \<equiv> 20"

text \<open>\<^verbatim>\<open>byteswapOnLittleEndian\<close> of \<^verbatim>\<open>endian.h\<close>.\<close>

definition byteswapOnLittleEndian :: "bool \<Rightarrow> nat \<Rightarrow> nat \<Rightarrow> nat" where
  "byteswapOnLittleEndian host n v = (if host then byteswap n v else v)"

definition swap_header :: "bool \<Rightarrow> MessageHeader \<Rightarrow> MessageHeader" where
  "swap_header host h =
     \<lparr>msg_id = word_of_nat (byteswapOnLittleEndian host 4 (unat (msg_id h))),
      msg_len = word_of_nat (byteswapOnLittleEndian host 4 (unat (msg_len h))),
      target_id = word_of_nat (byteswapOnLittleEndian host 8 (unat (target_id h))),
      user_data = word_of_nat (byteswapOnLittleEndian host 4 (unat (user_data h)))\<rparr>"

text \<open>The header as the bytes of the structure, and \<^verbatim>\<open>memcpy\<close> of bytes into a header.\<close>

definition header_bytes :: "bool \<Rightarrow> MessageHeader \<Rightarrow> byte list" where
  "header_bytes host h =
     in_memory host 4 (unat (msg_id h)) @ in_memory host 4 (unat (msg_len h)) @
     in_memory host 8 (unat (target_id h)) @ in_memory host 4 (unat (user_data h))"

definition bytes_header :: "bool \<Rightarrow> byte list \<Rightarrow> MessageHeader" where
  "bytes_header host bs =
     \<lparr>msg_id = word_of_nat (of_memory host (take 4 bs)),
      msg_len = word_of_nat (of_memory host (take 4 (drop 4 bs))),
      target_id = word_of_nat (of_memory host (take 8 (drop 8 bs))),
      user_data = word_of_nat (of_memory host (take 4 (drop 16 bs)))\<rparr>"

text \<open>A message as every server sends it: the swapped header with no target, then the body.\<close>

definition new_header :: "u32 \<Rightarrow> byte list \<Rightarrow> MessageHeader" where
  "new_header mid body =
     \<lparr>msg_id = mid, msg_len = word_of_nat (header_size + length body), target_id = 0, user_data = 0\<rparr>"

definition sent_header :: "bool \<Rightarrow> u32 \<Rightarrow> byte list \<Rightarrow> byte list" where
  "sent_header host mid body = header_bytes host (swap_header host (new_header mid body))"

definition frame :: "bool \<Rightarrow> u32 \<Rightarrow> byte list \<Rightarrow> byte list" where
  "frame host mid body = sent_header host mid body @ body"

definition received_header :: "bool \<Rightarrow> byte list \<Rightarrow> MessageHeader" where
  "received_header host bs = swap_header host (bytes_header host bs)"

section \<open>Cutting a stream into messages\<close>

text \<open>
  The inner loop of \<^verbatim>\<open>handleClient\<close>: as long as the buffer holds a header of an acceptable length and the whole message,
  the message is taken off. A length out of range empties the buffer.
\<close>

definition bad_length :: "MessageHeader \<Rightarrow> bool" where
  "bad_length h \<longleftrightarrow> unat (msg_len h) < header_size \<or> 1024 * 1024 < unat (msg_len h)"

function drain :: "bool \<Rightarrow> byte list \<Rightarrow> (MessageHeader \<times> byte list) list \<times> byte list" where
  "drain host buf =
     (if length buf < header_size then ([], buf)
      else
        let h = received_header host (take header_size buf) in
        if bad_length h then ([], [])
        else if length buf < unat (msg_len h) then ([], buf)
        else
          let msg = take (unat (msg_len h)) buf;
              (ms, rest) = drain host (drop (unat (msg_len h)) buf) in
          ((h, drop header_size msg) # ms, rest))"
  by pat_completeness auto
termination
  by (relation "measure (length \<circ> snd)") (auto simp: bad_length_def)

declare drain.simps [simp del]

text \<open>What a call to \<^verbatim>\<open>recv\<close> gives: some bytes, nothing for now, or the end of the connection.\<close>

datatype received = Got "byte list" | WouldBlock | Closed

text \<open>
  The outer loop, over the results of \<^verbatim>\<open>recv\<close>: the messages are handled one after the other by \<open>handle\<close>; a call that
  gives nothing ends the loop. The answer is the final state and the bytes left in the buffer.
\<close>

primrec serve ::
  "bool \<Rightarrow> (MessageHeader \<Rightarrow> byte list \<Rightarrow> 's \<Rightarrow> 's) \<Rightarrow> received list \<Rightarrow> byte list \<Rightarrow> 's \<Rightarrow> 's \<times> byte list" where
  "serve host handle [] buf s = (s, buf)"
| "serve host handle (r # rs) buf s =
     (case r of
        Got bs \<Rightarrow>
          let (ms, rest) = drain host (buf @ bs) in
          serve host handle rs rest (fold (\<lambda>(h, body). handle h body) ms s)
      | WouldBlock \<Rightarrow> (s, buf)
      | Closed \<Rightarrow> (s, buf))"

section \<open>Headers travel\<close>

lemma byteswap_twice: "byteswap n (byteswap n v) = v mod 256 ^ n"
  unfolding byteswap_def [of n "byteswap n v"] byteswap_bytes by simp

lemma swap_twice: "v < 256 ^ n \<Longrightarrow> byteswapOnLittleEndian host n (byteswapOnLittleEndian host n v) = v"
  by (simp add: byteswapOnLittleEndian_def byteswap_twice)

text \<open>On either machine a swapped number lies in memory with its most significant byte first.\<close>

lemma swapped_memory: "in_memory host n (byteswapOnLittleEndian host n v) = rev (le_bytes n v)"
  by (simp add: in_memory_def in_order_def byteswapOnLittleEndian_def byteswap_bytes)

lemma below32: "unat (w :: u32) < 256 ^ 4"
  using unsigned_less [of w] by simp

lemma below64: "unat (w :: u64) < 256 ^ 8"
  using unsigned_less [of w] by simp

lemma unat32: "v < 256 ^ 4 \<Longrightarrow> unat (word_of_nat v :: u32) = v"
  by (simp add: unat_of_nat)

lemma unat64: "v < 256 ^ 8 \<Longrightarrow> unat (word_of_nat v :: u64) = v"
  by (simp add: unat_of_nat)

lemma swap_range: "v < 256 ^ n \<Longrightarrow> byteswapOnLittleEndian host n v < 256 ^ n"
  by (simp add: byteswapOnLittleEndian_def byteswap_range)

lemma swap32:
  "unat (word_of_nat (byteswapOnLittleEndian host 4 (unat (w :: u32))) :: u32) = byteswapOnLittleEndian host 4 (unat w)"
  by (intro unat32 swap_range below32)

lemma swap64:
  "unat (word_of_nat (byteswapOnLittleEndian host 8 (unat (w :: u64))) :: u64) = byteswapOnLittleEndian host 8 (unat w)"
  by (intro unat64 swap_range below64)

lemma memory32: "word_of_nat (of_memory host (in_memory host 4 (unat (w :: u32)))) = w"
  unfolding of_in_memory using below32 [of w] by simp

lemma memory64: "word_of_nat (of_memory host (in_memory host 8 (unat (w :: u64)))) = w"
  unfolding of_in_memory using below64 [of w] by simp

lemma length_header_bytes [simp]: "length (header_bytes host h) = header_size"
  by (simp add: header_bytes_def)

lemma length_sent_header [simp]: "length (sent_header host mid body) = header_size"
  by (simp add: sent_header_def)

lemma bytes_header_bytes: "bytes_header host (header_bytes host h) = h"
  by (simp add: bytes_header_def header_bytes_def memory32 memory64 del: of_in_memory)

lemma swap_header_twice: "swap_header host (swap_header host h) = h"
  by (simp add: swap_header_def swap32 swap64 swap_twice [OF below32] swap_twice [OF below64])

lemma header_received: "received_header host (header_bytes host (swap_header host h)) = h"
  by (simp add: received_header_def bytes_header_bytes swap_header_twice)

lemma header_received_sent [simp]: "received_header host (sent_header host mid body) = new_header mid body"
  by (simp add: sent_header_def header_received)

text \<open>The bytes on the wire do not depend on the machines.\<close>

lemma header_portable: "header_bytes host (swap_header host h) = header_bytes host' (swap_header host' h)"
  by (simp add: header_bytes_def swap_header_def swap32 swap64 swapped_memory)

lemma received_sent [simp]: "received_header host (sent_header host' mid body) = new_header mid body"
  using header_received [of host "new_header mid body"] header_portable [of host "new_header mid body" host']
  by (simp add: sent_header_def)

section \<open>Streams of messages\<close>

text \<open>Messages the receiver accepts, as the bytes sent one after the other.\<close>

definition fits :: "u32 \<times> byte list \<Rightarrow> bool" where
  "fits m \<longleftrightarrow> header_size + length (snd m) \<le> 1024 * 1024"

definition message_bytes :: "bool \<Rightarrow> u32 \<times> byte list \<Rightarrow> byte list" where
  "message_bytes host m = frame host (fst m) (snd m)"

definition message_stream :: "bool \<Rightarrow> (u32 \<times> byte list) list \<Rightarrow> byte list" where
  "message_stream host ms = concat (map (message_bytes host) ms)"

definition delivered :: "u32 \<times> byte list \<Rightarrow> MessageHeader \<times> byte list" where
  "delivered m = (new_header (fst m) (snd m), snd m)"

text \<open>What may wait in the buffer when the messages \<open>ms\<close> are still to come: less than the first of them.\<close>

definition waiting :: "bool \<Rightarrow> byte list \<Rightarrow> (u32 \<times> byte list) list \<Rightarrow> bool" where
  "waiting host buf ms \<longleftrightarrow> (case ms of [] \<Rightarrow> buf = [] | m # _ \<Rightarrow> length buf < length (message_bytes host m))"

lemma stream_simps [simp]:
  "message_stream host [] = []"
  "message_stream host (m # ms) = message_bytes host m @ message_stream host ms"
  "length (message_bytes host m) = header_size + length (snd m)"
  by (simp_all add: message_stream_def message_bytes_def frame_def)

lemma fits_length: "fits m \<Longrightarrow> unat (msg_len (new_header (fst m) (snd m))) = header_size + length (snd m)"
  using unat32 [of "header_size + length (snd m)"] by (simp add: fits_def new_header_def)

lemma fits_length_good: "fits m \<Longrightarrow> \<not> bad_length (new_header (fst m) (snd m))"
  unfolding bad_length_def fits_length by (simp add: fits_def)

lemma drain_whole:
  assumes "fits m"
  shows "drain host (message_bytes host' m @ buf) = (let (ms, rest) = drain host buf in (delivered m # ms, rest))"
proof -
  have h: "received_header host (take header_size (message_bytes host' m @ buf)) = new_header (fst m) (snd m)"
    by (simp add: message_bytes_def frame_def)
  show ?thesis
    unfolding drain.simps [of host "message_bytes host' m @ buf"] h Let_def fits_length [OF assms]
    using fits_length_good [OF assms]
    by (simp add: message_bytes_def frame_def delivered_def case_prod_beta)
qed

lemma drain_part:
  assumes "fits m" and "buf @ later = message_bytes host' m @ ms" and "length buf < length (message_bytes host' m)"
  shows "drain host buf = ([], buf)"
proof (cases "length buf < header_size")
  case True
  then show ?thesis by (simp add: drain.simps [of host buf])
next
  case False
  have "take header_size buf = take header_size (buf @ later)" using False by simp
  then have h: "received_header host (take header_size buf) = new_header (fst m) (snd m)"
    unfolding assms(2) by (simp add: message_bytes_def frame_def)
  show ?thesis
    unfolding drain.simps [of host buf] h Let_def fits_length [OF assms(1)]
    using fits_length_good [OF assms(1)] False assms(3) by simp
qed

lemma drain_stream:
  assumes "list_all fits ms" and "buf @ later = message_stream host' ms"
  shows "\<exists>ms1 ms2 rest. ms = ms1 @ ms2 \<and> drain host buf = (map delivered ms1, rest) \<and>
    rest @ later = message_stream host' ms2 \<and> waiting host' rest ms2"
  using assms
proof (induction ms arbitrary: buf)
  case Nil
  then show ?case by (simp add: drain.simps [of host "[]"] waiting_def)
next
  case (Cons m ms)
  then have m: "fits m" "list_all fits ms" and b: "buf @ later = message_bytes host' m @ message_stream host' ms" by simp_all
  show ?case
  proof (cases "length buf < length (message_bytes host' m)")
    case True
    with drain_part [OF m(1) b] b show ?thesis
      by (intro exI [of _ "[]"] exI [of _ "m # ms"] exI [of _ buf]) (simp add: waiting_def)
  next
    case False
    define n where "n = length (message_bytes host' m)"
    define buf' where "buf' = drop n buf"
    have "n \<le> length buf" using False by (simp add: n_def)
    then have "take n buf = take n (buf @ later)" and "buf' @ later = drop n (buf @ later)" by (simp_all add: buf'_def)
    then have "take n buf = message_bytes host' m" and "buf' @ later = message_stream host' ms"
      unfolding b n_def by (simp_all del: stream_simps(3))
    moreover have "buf = take n buf @ buf'" by (simp add: buf'_def)
    ultimately have buf: "buf = message_bytes host' m @ buf'" and "buf' @ later = message_stream host' ms" by simp_all
    from Cons.IH [OF m(2) this(2)] obtain ms1 ms2 rest where "ms = ms1 @ ms2" "drain host buf' = (map delivered ms1, rest)"
      "rest @ later = message_stream host' ms2" "waiting host' rest ms2" by blast
    with drain_whole [OF m(1), of host host' buf'] buf show ?thesis
      by (intro exI [of _ "m # ms1"] exI [of _ ms2] exI [of _ rest]) simp
  qed
qed

lemma serve_stream:
  assumes "list_all fits ms" and "buf @ concat cs @ later = message_stream host' ms" and "waiting host' buf ms"
  shows "\<exists>ms1 ms2 rest. ms = ms1 @ ms2 \<and>
    serve host handle (map Got cs) buf s = (fold (\<lambda>(h, body). handle h body) (map delivered ms1) s, rest) \<and>
    rest @ later = message_stream host' ms2 \<and> waiting host' rest ms2"
  using assms
proof (induction cs arbitrary: buf ms s)
  case Nil
  then show ?case by (intro exI [of _ "[]"] exI [of _ ms] exI [of _ buf]) simp
next
  case (Cons c cs)
  from drain_stream [OF Cons.prems(1), of "buf @ c" "concat cs @ later" host' host] Cons.prems(2)
  obtain ms1 ms2 rest where d: "ms = ms1 @ ms2" "drain host (buf @ c) = (map delivered ms1, rest)"
    "rest @ concat cs @ later = message_stream host' ms2" "waiting host' rest ms2" by auto
  with Cons.prems(1) have "list_all fits ms2" by simp
  from Cons.IH [OF this d(3,4), of "fold (\<lambda>(h, body). handle h body) (map delivered ms1) s"]
  obtain ms3 ms4 rest' where
    "ms2 = ms3 @ ms4" "serve host handle (map Got cs) rest (fold (\<lambda>(h, body). handle h body) (map delivered ms1) s) =
       (fold (\<lambda>(h, body). handle h body) (map delivered ms3) (fold (\<lambda>(h, body). handle h body) (map delivered ms1) s), rest')"
    "rest' @ later = message_stream host' ms4" "waiting host' rest' ms4" by blast
  with d show ?case by (intro exI [of _ "ms1 @ ms3"] exI [of _ ms4] exI [of _ rest']) simp
qed

text \<open>
  C33. Framing. However the network cuts the stream of the messages \<open>ms\<close> into pieces, and whichever byte orders the two
  machines have, the messages that have arrived completely are handled once each and in order, with the header
  they were sent with and exactly their body; the buffer holds what has arrived of the next one. Once the
  whole stream has arrived all messages are handled and the buffer is empty.
\<close>

theorem framing_exact:
  assumes "list_all fits ms" and "concat cs @ later = message_stream host' ms"
  shows "\<exists>k rest. k \<le> length ms \<and>
    serve host handle (map Got cs) [] s = (fold (\<lambda>(mid, body). handle (new_header mid body) body) (take k ms) s, rest) \<and>
    rest @ later = message_stream host' (drop k ms) \<and>
    (k < length ms \<longrightarrow> length rest < header_size + length (snd (ms ! k))) \<and>
    (later = [] \<longrightarrow> k = length ms \<and> rest = [])"
proof -
  have "waiting host' [] ms" by (simp add: waiting_def split: list.split)
  from serve_stream [OF assms(1) _ this, of cs later host handle s] assms(2) obtain ms1 ms2 rest where
    m: "ms = ms1 @ ms2" "rest @ later = message_stream host' ms2" "waiting host' rest ms2" and
    r: "serve host handle (map Got cs) [] s = (fold (\<lambda>(h, body). handle h body) (map delivered ms1) s, rest)"
    by auto
  have "fold (\<lambda>(h, body). handle h body) (map delivered ms1) s = fold (\<lambda>(mid, body). handle (new_header mid body) body) ms1 s"
    by (induction ms1 arbitrary: s) (auto simp: delivered_def)
  with r have "serve host handle (map Got cs) [] s = (fold (\<lambda>(mid, body). handle (new_header mid body) body) (take (length ms1) ms) s, rest)"
    by (simp add: m(1))
  moreover have "length ms1 < length ms \<longrightarrow> length rest < header_size + length (snd (ms ! length ms1))"
    using m(1,3) by (cases ms2) (simp_all add: waiting_def)
  moreover have "later = [] \<longrightarrow> ms2 = [] \<and> rest = []"
    using m(2,3) by (cases ms2) (auto simp: waiting_def)
  ultimately show ?thesis using m(1,2) by (intro exI [of _ "length ms1"] exI [of _ rest]) simp
qed

theorem framing_exact_witness:
  "\<exists>rest. serve True (\<lambda>h body n. n + unat (msg_id h)) (map Got [take 7 (frame False 3 [1, 2]), drop 7 (frame False 3 [1, 2])]) [] 0 = (3 :: nat, rest)"
  using framing_exact [of "[(3, [1, 2])]" "[take 7 (frame False 3 [1, 2]), drop 7 (frame False 3 [1, 2])]" "[]" False True
      "\<lambda>h body n. n + unat (msg_id h)" 0]
  by (auto simp: fits_def message_bytes_def new_header_def)

end
