(* ===== verification/Links.thy ===== *)
theory Links
  imports Machine Protocol
begin

text \<open>
  The connections of a server: every server process of \<open>game_server\<close> keeps the same two tables under one mutex, and
  counts its connections the same way. \<open>'k\<close> is a socket.
\<close>

record 'k links =
  connections :: "(u32 \<times> 'k) list"
  last_heart_time :: "(u32 \<times> time_t) list"
  next_conn_id :: i32
  max_connections :: nat

text \<open>\<^verbatim>\<open>handleClient\<close> checks the limit and takes a number in two sections of the mutex.\<close>

definition has_room :: "('k links, bool) oper" where
  "has_room = guarded (\<lambda>s. Ret (length (connections s) < max_connections s, s))"

definition accept_client :: "time_t \<Rightarrow> 'k \<Rightarrow> ('k links, i32) oper" where
  "accept_client now client = guarded (\<lambda>s.
     let n = next_conn_id s in
     bindO (add32 n 1) (\<lambda>n'.
       Ret (n, s\<lparr>next_conn_id := n', connections := AList.update (word_of_int n) client (connections s),
                last_heart_time := AList.update (word_of_int n) now (last_heart_time s)\<rparr>)))"

definition handleClient :: "time_t \<Rightarrow> 'k \<Rightarrow> ('k links, i32 option) oper" where
  "handleClient now client = bindM has_room (\<lambda>room.
     if room then bindM (accept_client now client) (\<lambda>n. retM (Some n)) else retM None)"

definition touch_client :: "time_t \<Rightarrow> i32 \<Rightarrow> ('k links, unit) oper" where
  "touch_client now n = guarded (\<lambda>s.
     Ret ((), s\<lparr>last_heart_time := AList.update (word_of_int n) now (last_heart_time s)\<rparr>))"

definition drop_client :: "i32 \<Rightarrow> ('k links, unit) oper" where
  "drop_client n = guarded (\<lambda>s.
     Ret ((), s\<lparr>connections := AList.delete (word_of_int n) (connections s),
               last_heart_time := AList.delete (word_of_int n) (last_heart_time s)\<rparr>))"

definition GetConnectionCount :: "('k links, nat) oper" where
  "GetConnectionCount = guarded (\<lambda>s. Ret (length (connections s), s))"

definition GetClientByConnId :: "u32 \<Rightarrow> ('k links, 'k option) oper" where
  "GetClientByConnId n = guarded (\<lambda>s. Ret (map_of (connections s) n, s))"

definition SetMaxConnections :: "nat \<Rightarrow> ('k links, unit) oper" where
  "SetMaxConnections n = on_state (\<lambda>s. Ret ((), s\<lparr>max_connections := n\<rparr>))"

definition GetMaxConnections :: "('k links, nat) oper" where
  "GetMaxConnections = on_state (\<lambda>s. Ret (max_connections s, s))"

definition UninitService :: "('k links, unit) oper" where
  "UninitService = guarded (\<lambda>s. Ret ((), s\<lparr>connections := [], last_heart_time := []\<rparr>))"

text \<open>
  The limit on connections. One client after the other, no more than \<^verbatim>\<open>max_connections_\<close> connections are held. But
  the check and the insertion are two sections: two clients that are checked before either is inserted both
  get in, one above the limit.
\<close>

theorem connection_limit_races:
  assumes "keys_ok (connections s)" and "0 < next_conn_id s" and "next_conn_id s + 2 < 2 ^ 31"
    and "map_of (connections s) (word_of_int (next_conn_id s)) = None"
    and "map_of (connections s) (word_of_int (next_conn_id s + 1)) = None"
    and "Suc (length (connections s)) = max_connections s"
  shows "\<exists>m1 m2. handleClient t1 k1 (idle s) = Ret (Some (next_conn_id s), m1) \<and> length (connections (inner m1)) = max_connections s \<and>
      handleClient t2 k2 m1 = Ret (None, m1) \<and>
      has_room (idle s) = Ret (True, idle s) \<and> accept_client t1 k1 (idle s) = Ret (next_conn_id s, m1) \<and>
      accept_client t2 k2 m1 = Ret (next_conn_id s + 1, m2) \<and> length (connections (inner m2)) = Suc (max_connections s)"
proof -
  let ?n = "next_conn_id s"
  define s1 where "s1 = s\<lparr>next_conn_id := ?n + 1, connections := AList.update (word_of_int ?n) k1 (connections s),
    last_heart_time := AList.update (word_of_int ?n) t1 (last_heart_time s)\<rparr>"
  define s2 where "s2 = s1\<lparr>next_conn_id := ?n + 2, connections := AList.update (word_of_int (?n + 1)) k2 (connections s1),
    last_heart_time := AList.update (word_of_int (?n + 1)) t2 (last_heart_time s1)\<rparr>"
  have i: "in_i32 (?n + 1)" "in_i32 (?n + 1 + 1)" using assms(2,3) by (simp_all add: in_i32_def)
  have ne: "(word_of_int ?n :: u32) \<noteq> word_of_int (?n + 1)"
    by (metis add_cancel_left_right one_neq_zero wi_hom_add word_1_wi)
  have a1: "accept_client t1 k1 (idle s) = Ret (?n, idle s1)" using i by (simp add: accept_client_def s1_def Let_def)
  have a2: "accept_client t2 k2 (idle s1) = Ret (?n + 1, idle s2)"
    using i by (simp add: accept_client_def s1_def s2_def Let_def)
  have l1: "length (connections s1) = max_connections s" using assms(4,6) by (simp add: s1_def length_alist_update)
  have "map_of (connections s1) (word_of_int (?n + 1)) = None" using assms(5) ne by (simp add: s1_def)
  then have l2: "length (connections s2) = Suc (max_connections s)" using l1 by (simp add: s2_def length_alist_update)
  have r: "has_room (idle s) = Ret (True, idle s)" using assms(6) by (simp add: has_room_def)
  have r1: "has_room (idle s1) = Ret (False, idle s1)" using l1 by (simp add: has_room_def s1_def)
  have "handleClient t1 k1 (idle s) = Ret (Some ?n, idle s1)" "handleClient t2 k2 (idle s1) = Ret (None, idle s1)"
    using a1 r r1 by (simp_all add: handleClient_def bindM_def retM_def)
  with a1 a2 l1 l2 r show ?thesis by auto
qed

definition one_place :: "unit links" where
  "one_place = \<lparr>connections = [], last_heart_time = [], next_conn_id = 1, max_connections = 1\<rparr>"

theorem connection_limit_races_witness:
  "\<exists>m1 m2. has_room (idle one_place) = Ret (True, idle one_place) \<and>
     accept_client 5 () (idle one_place) = Ret (1, m1) \<and> accept_client 6 () m1 = Ret (2, m2) \<and> length (connections (inner m2)) = 2"
proof -
  have "keys_ok (connections one_place)" "0 < next_conn_id one_place" "next_conn_id one_place + 2 < 2 ^ 31"
    "map_of (connections one_place) (word_of_int (next_conn_id one_place)) = None"
    "map_of (connections one_place) (word_of_int (next_conn_id one_place + 1)) = None"
    "Suc (length (connections one_place)) = max_connections one_place"
    by (simp_all add: one_place_def)
  from connection_limit_races [OF this, of 5 "()" 6 "()"] show ?thesis by (auto simp: one_place_def)
qed

end
