(* ===== verification/Center.thy ===== *)
theory Center
  imports Links
begin

text \<open>
  The center server, \<open>center_server/center_server.cc\<close>: the registry of servers with their heartbeats, the players that
  are on another server, the queues of the matches, and the connections. Each part has its own mutex, so
  each is a monitor of its own; \<^verbatim>\<open>ProcessMatch\<close> works on three of them.
\<close>

section \<open>Data\<close>

datatype ServerType = LOGIN | ACCOUNT | LOGIC | DB | PROXY | GATEWAY | CENTER

datatype ServerStatus = INIT | RUNNING | STOPPING | STOPPED

record ServerInfo =
  server_id :: i32
  "type" :: ServerType
  ip :: string
  port :: i32
  status :: ServerStatus
  online_count :: i32
  max_online :: i32
  start_time :: time_t
  last_heartbeat :: time_t
  version :: string
  extra_info :: string

record CrossServerPlayer =
  role_id :: u64
  role_name :: string
  src_server_id :: i32
  dest_server_id :: i32
  cross_type :: i32
  enter_time :: time_t
  token :: string
  is_online :: bool

type_synonym servers = "(i32 \<times> ServerInfo) list"
type_synonym players = "(u64 \<times> CrossServerPlayer) list"
type_synonym queues = "(i32 \<times> (u64 \<times> i32) list) list"

record 'k CenterServer =
  links_of :: "'k links monitor"
  servers_of :: "servers monitor"
  players_of :: "players monitor"
  queues_of :: "queues monitor"

definition center_init :: "'k CenterServer" where
  "center_init =
     \<lparr>links_of = idle \<lparr>connections = [], last_heart_time = [], next_conn_id = 1, max_connections = 5000\<rparr>,
      servers_of = idle [], players_of = idle [], queues_of = idle []\<rparr>"

definition HEARTBEAT_TIMEOUT :: int where
  "HEARTBEAT_TIMEOUT = 30"

section \<open>Servers\<close>

definition RegisterServer :: "time_t \<Rightarrow> ServerInfo \<Rightarrow> (servers, bool) oper" where
  "RegisterServer now info = guarded (\<lambda>s.
     Ret (True, AList.update (server_id info) (info\<lparr>last_heartbeat := now, status := RUNNING\<rparr>) s))"

definition UnregisterServer :: "i32 \<Rightarrow> (servers, bool) oper" where
  "UnregisterServer sid = guarded (\<lambda>s.
     if map_of s sid = None then Ret (False, s) else Ret (True, AList.delete sid s))"

definition UpdateServerHeartbeat :: "time_t \<Rightarrow> i32 \<Rightarrow> (servers, bool) oper" where
  "UpdateServerHeartbeat now sid = guarded (\<lambda>s.
     case map_of s sid of
       None \<Rightarrow> Ret (False, s)
     | Some info \<Rightarrow> Ret (True, AList.update sid (info\<lparr>last_heartbeat := now\<rparr>) s))"

definition GetServerInfo :: "i32 \<Rightarrow> (servers, ServerInfo option) oper" where
  "GetServerInfo sid = guarded (\<lambda>s. Ret (map_of s sid, s))"

definition running :: "ServerType \<Rightarrow> ServerInfo \<Rightarrow> bool" where
  "running t info \<longleftrightarrow> type info = t \<and> status info = RUNNING"

definition GetServerList :: "ServerType \<Rightarrow> (servers, ServerInfo list) oper" where
  "GetServerList t = guarded (\<lambda>s. Ret (filter (running t) (map snd s), s))"

definition GetAllServers :: "(servers, ServerInfo list) oper" where
  "GetAllServers = guarded (\<lambda>s. Ret (map snd s, s))"

text \<open>The loop keeps the best server and its load.\<close>

primrec best_of :: "ServerType \<Rightarrow> servers \<Rightarrow> i32 \<times> i32 \<Rightarrow> i32" where
  "best_of t [] best = fst best"
| "best_of t (p # ps) best =
     best_of t ps
       (if running t (snd p) \<and> online_count (snd p) < snd best \<and> online_count (snd p) < max_online (snd p)
        then (fst p, online_count (snd p)) else best)"

definition SelectBestServer :: "ServerType \<Rightarrow> (servers, i32) oper" where
  "SelectBestServer t = guarded (\<lambda>s. Ret (best_of t s (0, 2 ^ 31 - 1), s))"

definition SelectServerById :: "i32 \<Rightarrow> (servers, i32) oper" where
  "SelectServerById sid = guarded (\<lambda>s.
     case map_of s sid of
       None \<Rightarrow> Ret (0, s)
     | Some info \<Rightarrow> Ret (if status info \<noteq> RUNNING then 0 else sid, s))"

definition UpdateServerLoad :: "i32 \<Rightarrow> i32 \<Rightarrow> (servers, bool) oper" where
  "UpdateServerLoad sid n = guarded (\<lambda>s.
     case map_of s sid of
       None \<Rightarrow> Ret (False, s)
     | Some info \<Rightarrow> Ret (True, AList.update sid (info\<lparr>online_count := n\<rparr>) s))"

definition GetServerLoad :: "i32 \<Rightarrow> (servers, i32) oper" where
  "GetServerLoad sid = guarded (\<lambda>s.
     Ret (case map_of s sid of None \<Rightarrow> - 1 | Some info \<Rightarrow> online_count info, s))"

definition CheckServerHeartbeat :: "time_t \<Rightarrow> (servers, unit) oper" where
  "CheckServerHeartbeat now = guarded (\<lambda>s.
     let timeout = map fst (filter (\<lambda>p. now - last_heartbeat (snd p) > HEARTBEAT_TIMEOUT) s) in
     Ret ((), fold AList.delete timeout s))"

text \<open>
  \<^verbatim>\<open>SendMessageToServer\<close> answers true and sends nothing: the second value lists the messages that leave. Routing and
  broadcasts count the messages it accepts.
\<close>

definition SendMessageToServer :: "i32 \<Rightarrow> 'm \<Rightarrow> bool \<times> 'm list" where
  "SendMessageToServer sid msg = (True, [])"

definition RouteMessage :: "i32 \<Rightarrow> i32 \<Rightarrow> string \<Rightarrow> (servers, bool \<times> (i32 \<times> i32 \<times> string) list) oper" where
  "RouteMessage src dest msg = guarded (\<lambda>s.
     case map_of s dest of
       None \<Rightarrow> Ret ((False, []), s)
     | Some info \<Rightarrow>
         if status info \<noteq> RUNNING then Ret ((False, []), s)
         else Ret (SendMessageToServer dest (src, dest, msg), s))"

definition send_all :: "i32 list \<Rightarrow> 'm \<Rightarrow> nat \<times> 'm list" where
  "send_all sids msg =
     (length (filter (\<lambda>sid. fst (SendMessageToServer sid msg)) sids), concat (map (\<lambda>sid. snd (SendMessageToServer sid msg)) sids))"

definition BroadcastMessage :: "ServerType \<Rightarrow> string \<Rightarrow> (servers, bool \<times> (ServerType \<times> string) list) oper" where
  "BroadcastMessage t msg = guarded (\<lambda>s.
     let (count, out) = send_all (map fst (filter (\<lambda>p. running t (snd p)) s)) (t, msg) in
     Ret ((0 < count, out), s))"

definition BroadcastToAll :: "string \<Rightarrow> (servers, bool \<times> (i32 \<times> string) list) oper" where
  "BroadcastToAll msg = guarded (\<lambda>s.
     let (count, out) = send_all (map fst (filter (\<lambda>p. status (snd p) = RUNNING) s)) (0, msg) in
     Ret ((0 < count, out), s))"

section \<open>Players on another server\<close>

definition PlayerEnterCross :: "time_t \<Rightarrow> u64 \<Rightarrow> i32 \<Rightarrow> i32 \<Rightarrow> i32 \<Rightarrow> string \<Rightarrow> (players, bool) oper" where
  "PlayerEnterCross now role src dest kind tok = guarded (\<lambda>s.
     Ret (True, AList.update role
       \<lparr>role_id = role, role_name = '''', src_server_id = src, dest_server_id = dest, cross_type = kind,
        enter_time = now, token = tok, is_online = True\<rparr> s))"

definition PlayerLeaveCross :: "u64 \<Rightarrow> (players, bool) oper" where
  "PlayerLeaveCross role = guarded (\<lambda>s.
     if map_of s role = None then Ret (False, s) else Ret (True, AList.delete role s))"

definition GetCrossPlayer :: "u64 \<Rightarrow> (players, CrossServerPlayer option) oper" where
  "GetCrossPlayer role = guarded (\<lambda>s. Ret (map_of s role, s))"

definition IsPlayerInCross :: "u64 \<Rightarrow> (players, bool) oper" where
  "IsPlayerInCross role = guarded (\<lambda>s. Ret (map_of s role \<noteq> None, s))"

definition CleanupExpiredData :: "time_t \<Rightarrow> (players, unit) oper" where
  "CleanupExpiredData now = guarded (\<lambda>s.
     let expired = map fst (filter (\<lambda>p. now - enter_time (snd p) > 3600) s) in
     Ret ((), fold AList.delete expired s))"

text \<open>The room is the clock's remainder plus a number from 1 to 10000; players on no other server are skipped.\<close>

record MatchSuccessNtf =
  match_type :: i32
  room_id :: i32
  role_ids :: "u64 list"
  dest_server :: i32

definition NotifyMatchSuccess ::
  "time_t \<Rightarrow> int \<Rightarrow> u64 list \<Rightarrow> i32 \<Rightarrow> i32 \<Rightarrow> (players, bool \<times> MatchSuccessNtf list) oper" where
  "NotifyMatchSuccess now rnd roles mt dest = guarded (\<lambda>s.
     let ntf = \<lparr>match_type = mt, room_id = sgn (to_i32 now) * (\<bar>to_i32 now\<bar> mod 1000000) + rnd, role_ids = roles, dest_server = dest\<rparr>;
         out = concat (map (\<lambda>role. case map_of s role of
                 None \<Rightarrow> [] | Some p \<Rightarrow> snd (SendMessageToServer (dest_server_id p) ntf)) roles) in
     Ret ((True, out), s))"

section \<open>Matching\<close>

definition AddToMatchQueue :: "u64 \<Rightarrow> i32 \<Rightarrow> i32 \<Rightarrow> (queues, bool) oper" where
  "AddToMatchQueue role mt score = guarded (\<lambda>s.
     let q = entry s mt in
     if list_ex (\<lambda>p. fst p = role) q then Ret (False, AList.update mt q s)
     else Ret (True, AList.update mt (q @ [(role, score)]) s))"

primrec remove_role :: "u64 \<Rightarrow> queues \<Rightarrow> bool \<times> queues" where
  "remove_role role [] = (False, [])"
| "remove_role role (p # ps) =
     (if list_ex (\<lambda>x. fst x = role) (snd p) then (True, (fst p, filter (\<lambda>x. fst x \<noteq> role) (snd p)) # ps)
      else let (found, qs) = remove_role role ps in (found, p # qs))"

definition RemoveFromMatchQueue :: "u64 \<Rightarrow> (queues, bool) oper" where
  "RemoveFromMatchQueue role = guarded (\<lambda>s. Ret (remove_role role s))"

definition GetMatchQueue :: "i32 \<Rightarrow> (queues, u64 list option) oper" where
  "GetMatchQueue mt = guarded (\<lambda>s. Ret (map_option (map fst) (map_of s mt), s))"

text \<open>
  \<^verbatim>\<open>ProcessMatch\<close> up to the call of \<^verbatim>\<open>SelectBestServer\<close>: the queue is sorted and its front is taken out; \<open>None\<close> is the
  early return. \<open>srt\<close> is \<^verbatim>\<open>std::sort\<close> by the score. A negative size converts to a huge one.
\<close>

definition take_team :: "((u64 \<times> i32) list \<Rightarrow> (u64 \<times> i32) list) \<Rightarrow> i32 \<Rightarrow> i32 \<Rightarrow> queues \<Rightarrow> (u64 list \<times> queues) option" where
  "take_team srt mt n s =
     (case map_of s mt of
        None \<Rightarrow> None
      | Some q \<Rightarrow>
          if int (length q) < (if 0 \<le> n then n else n + 2 ^ 64) then None
          else Some (map fst (take (nat n) (srt q)), AList.update mt (drop (nat n) (srt q)) s))"

definition put_back :: "i32 \<Rightarrow> u64 list \<Rightarrow> queues \<Rightarrow> queues" where
  "put_back mt roles s = AList.update mt (entry s mt @ map (\<lambda>role. (role, 0)) roles) s"

definition ProcessMatch ::
  "((u64 \<times> i32) list \<Rightarrow> (u64 \<times> i32) list) \<Rightarrow> time_t \<Rightarrow> int \<Rightarrow> i32 \<Rightarrow> i32 \<Rightarrow> 'k CenterServer \<Rightarrow> (bool \<times> 'k CenterServer) outcome" where
  "ProcessMatch srt now rnd mt n c =
     (if held (queues_of c) then Fault Relock
      else case take_team srt mt n (inner (queues_of c)) of
        None \<Rightarrow> Ret (False, c)
      | Some (team, qs) \<Rightarrow>
          bindO (SelectBestServer LOGIC (servers_of c)) (\<lambda>(dest, sm).
            if dest \<le> 0 then Ret (False, c\<lparr>servers_of := sm, queues_of := idle (put_back mt team qs)\<rparr>)
            else bindO (NotifyMatchSuccess now rnd team mt dest (players_of c)) (\<lambda>((ok, out), pm).
              if \<not> ok then Ret (False, c\<lparr>servers_of := sm, players_of := pm, queues_of := idle (put_back mt team qs)\<rparr>)
              else Ret (True, c\<lparr>servers_of := sm, players_of := pm, queues_of := idle qs\<rparr>))))"

definition OnTimer :: "time_t \<Rightarrow> 'k CenterServer \<Rightarrow> (unit \<times> 'k CenterServer) outcome" where
  "OnTimer now c =
     bindO (CheckServerHeartbeat now (servers_of c)) (\<lambda>(_, sm).
       bindO (CleanupExpiredData now (players_of c)) (\<lambda>(_, pm). Ret ((), c\<lparr>servers_of := sm, players_of := pm\<rparr>)))"

section \<open>Connections\<close>

text \<open>
  \<^verbatim>\<open>HandleRecv\<close> over the results of \<^verbatim>\<open>recv\<close>, each with the time it came. A header is read into twenty zero bytes and taken in
  the byte order of the machine; a body is what one more call gives. The answer lists the messages read
  and tells whether the connection has ended.
\<close>

fun HandleRecv :: "bool \<Rightarrow> i32 \<Rightarrow> (time_t \<times> received) list \<Rightarrow> ('k links, (u32 \<times> u32) list \<times> bool) oper" where
  "HandleRecv host n [] m = Ret (([], False), m)"
| "HandleRecv host n ((now, r) # rs) m =
     (case r of
        Closed \<Rightarrow> bindO (drop_client n m) (\<lambda>(_, m'). Ret (([], True), m'))
      | WouldBlock \<Rightarrow> HandleRecv host n rs m
      | Got bs \<Rightarrow>
          let h = bytes_header host (take header_size (bs @ replicate header_size 0)) in
          if header_size < unat (msg_len h) then
            (case rs of
               [] \<Rightarrow> Ret (([], False), m)
             | (now', Got body) # rs' \<Rightarrow>
                 bindO (touch_client now' n m) (\<lambda>(_, m').
                   bindO (HandleRecv host n rs' m') (\<lambda>((ms, ended), m''). Ret (((msg_id h, msg_len h) # ms, ended), m'')))
             | _ # rs' \<Rightarrow> bindO (drop_client n m) (\<lambda>(_, m'). Ret (([], True), m')))
          else
            bindO (touch_client now n m) (\<lambda>(_, m'). HandleRecv host n rs m'))"

section \<open>The registry\<close>

definition server_fine :: "i32 \<Rightarrow> ServerInfo \<Rightarrow> bool" where
  "server_fine sid info \<longleftrightarrow> server_id info = sid \<and> status info = RUNNING"

definition registry_inv :: "servers \<Rightarrow> bool" where
  "registry_inv s \<longleftrightarrow> keys_ok s \<and> all_entries server_fine s"

lemma registry_new [simp]: "registry_inv []"
  by (simp add: registry_inv_def)

datatype server_call = SRegister time_t ServerInfo | SUnregister i32 | SBeat time_t i32 | SLoad i32 i32 | SCheck time_t
  | SInfo i32 | SList ServerType | SAll | SSelect ServerType | SSelectId i32 | SGetLoad i32
  | SRoute i32 i32 string | SBroadcast ServerType string | SBroadcastAll string

datatype server_reply = RBool bool | RUnit | RInfo "ServerInfo option" | RInfos "ServerInfo list" | RId i32 | RSent bool nat

definition reply :: "('r \<Rightarrow> 'q) \<Rightarrow> ('s, 'r) oper \<Rightarrow> ('s, 'q) oper" where
  "reply f p m = bindO (p m) (\<lambda>(r, m'). Ret (f r, m'))"

lemma reply_eq [simp]: "reply f p m = Ret (q, m') \<longleftrightarrow> (\<exists>r. p m = Ret (r, m') \<and> q = f r)"
  by (auto simp: reply_def split: prod.splits)

fun server_exec :: "server_call \<Rightarrow> (servers, server_reply) oper" where
  "server_exec (SRegister now info) = reply RBool (RegisterServer now info)"
| "server_exec (SUnregister sid) = reply RBool (UnregisterServer sid)"
| "server_exec (SBeat now sid) = reply RBool (UpdateServerHeartbeat now sid)"
| "server_exec (SLoad sid n) = reply RBool (UpdateServerLoad sid n)"
| "server_exec (SCheck now) = reply (\<lambda>_. RUnit) (CheckServerHeartbeat now)"
| "server_exec (SInfo sid) = reply RInfo (GetServerInfo sid)"
| "server_exec (SList t) = reply RInfos (GetServerList t)"
| "server_exec SAll = reply RInfos GetAllServers"
| "server_exec (SSelect t) = reply RId (SelectBestServer t)"
| "server_exec (SSelectId sid) = reply RId (SelectServerById sid)"
| "server_exec (SGetLoad sid) = reply RId (GetServerLoad sid)"
| "server_exec (SRoute src dest msg) = reply (\<lambda>(ok, out). RSent ok (length out)) (RouteMessage src dest msg)"
| "server_exec (SBroadcast t msg) = reply (\<lambda>(ok, out). RSent ok (length out)) (BroadcastMessage t msg)"
| "server_exec (SBroadcastAll msg) = reply (\<lambda>(ok, out). RSent ok (length out)) (BroadcastToAll msg)"

text \<open>What a call does to the entry of one server.\<close>

fun seen_by :: "i32 \<Rightarrow> server_call \<Rightarrow> time_t option \<Rightarrow> time_t option" where
  "seen_by sid (SRegister now info) was = (if server_id info = sid then Some now else was)"
| "seen_by sid (SUnregister sid') was = (if sid' = sid then None else was)"
| "seen_by sid (SBeat now sid') was = (if sid' = sid \<and> was \<noteq> None then Some now else was)"
| "seen_by sid (SCheck now) was = (case was of None \<Rightarrow> None | Some t \<Rightarrow> if now - t > 30 then None else Some t)"
| "seen_by sid c was = was"

lemma server_exec_pure:
  "\<exists>r s'. server_exec c (idle s) = Ret (r, idle s') \<and> (registry_inv s \<longrightarrow> registry_inv s' \<and>
     (\<forall>sid. map_option last_heartbeat (map_of s' sid) = seen_by sid c (map_option last_heartbeat (map_of s sid))))"
proof (cases c)
  case (SCheck now)
  let ?P = "\<lambda>v. now - last_heartbeat v > 30"
  let ?s = "fold AList.delete (map fst (filter (\<lambda>p. ?P (snd p)) s)) s"
  have "map_option last_heartbeat (map_of ?s sid) = seen_by sid c (map_option last_heartbeat (map_of s sid))"
    if "keys_ok s" for sid
    unfolding erase_where [OF that, of ?P sid] SCheck by (simp split: option.split)
  moreover have "all_entries server_fine ?s" if "registry_inv s"
    using that unfolding registry_inv_def all_entries_def
    by (auto simp: erase_where [of s ?P] split: option.splits if_splits)
  ultimately show ?thesis
    by (auto simp: SCheck reply_def CheckServerHeartbeat_def HEARTBEAT_TIMEOUT_def Let_def registry_inv_def keys_ok_deletes)
next
  case (SRegister now info)
  then show ?thesis
    by (auto simp: reply_def RegisterServer_def registry_inv_def server_fine_def intro: all_entries_update)
next
  case (SUnregister sid)
  then show ?thesis
    by (intro exI [of _ "RBool (map_of s sid \<noteq> None)"] exI [of _ "if map_of s sid = None then s else AList.delete sid s"])
      (auto simp: reply_def UnregisterServer_def registry_inv_def all_entries_delete)
next
  case (SBeat now sid)
  then show ?thesis
    by (cases "map_of s sid") (auto simp: reply_def UpdateServerHeartbeat_def registry_inv_def
        intro!: all_entries_update dest: all_entriesD simp: server_fine_def)
next
  case (SLoad sid n)
  then show ?thesis
    by (cases "map_of s sid") (auto simp: reply_def UpdateServerLoad_def registry_inv_def
        intro!: all_entries_update dest: all_entriesD simp: server_fine_def)
qed (auto simp: reply_def GetServerInfo_def GetServerList_def GetAllServers_def SelectBestServer_def SelectServerById_def
      GetServerLoad_def SendMessageToServer_def RouteMessage_def BroadcastMessage_def BroadcastToAll_def case_prod_beta Let_def
      split: option.splits if_splits)

interpretation registry: total_machine server_exec registry_inv
proof unfold_locales
  fix c s r m' s'
  show "\<exists>s'. m' = idle s'" if "server_exec c (idle s) = Ret (r, m')"
    using server_exec_pure [of c s] that by auto
  show "registry_inv s'" if "server_exec c (idle s) = Ret (r, idle s')" "registry_inv s"
    using server_exec_pure [of c s] that by auto
  show "\<exists>r m'. server_exec c (idle s) = Ret (r, m')"
    using server_exec_pure [of c s] by blast
qed

text \<open>The view of one server over a run.\<close>

lemma run_seen:
  "registry_inv s \<Longrightarrow> run_cmds server_exec cs (idle s) = Ret (rs, idle s') \<Longrightarrow>
   map_option last_heartbeat (map_of s' sid) = fold (seen_by sid) cs (map_option last_heartbeat (map_of s sid))"
proof (induction cs arbitrary: s rs)
  case Nil
  then show ?case by simp
next
  case (Cons c cs)
  obtain r s1 where "server_exec c (idle s) = Ret (r, idle s1)" "registry_inv s1"
    "map_option last_heartbeat (map_of s1 sid) = seen_by sid c (map_option last_heartbeat (map_of s sid))"
    using server_exec_pure [of c s] Cons.prems(1) by blast
  with Cons show ?case by (auto split: prod.splits)
qed

text \<open>
  C5. Heartbeats. Every run of the registry returns, and whether a server is registered after it, and when it was heard of
  last, depends only on the calls about this server and the checks: it is there from its registration until it
  is taken off or a check finds it silent for more than 30 seconds.
\<close>

theorem heartbeats_decide:
  assumes "registry_inv s"
  shows "\<exists>rs s'. run_cmds server_exec cs (idle s) = Ret (rs, idle s') \<and>
    map_option last_heartbeat (map_of s' sid) = fold (seen_by sid) cs (map_option last_heartbeat (map_of s sid)) \<and>
    (\<forall>info. map_of s' sid = Some info \<longrightarrow> status info = RUNNING \<and> server_id info = sid)"
proof -
  from registry.run_returns [OF assms] obtain rs s' where
    r: "run_cmds server_exec cs (idle s) = Ret (rs, idle s')" "registry_inv s'" by blast
  with run_seen [OF assms r(1)] show ?thesis by (auto simp: registry_inv_def server_fine_def dest: all_entriesD)
qed

definition logic_one :: ServerInfo where
  "logic_one = \<lparr>server_id = 7, type = LOGIC, ip = ''h'', port = 1, status = INIT, online_count = 3, max_online = 10,
     start_time = 0, last_heartbeat = 0, version = '''', extra_info = ''''\<rparr>"

theorem heartbeats_decide_witness:
  "\<exists>rs s'. run_cmds server_exec [SRegister 100 logic_one, SBeat 120 7, SCheck 150, SCheck 151] (idle []) = Ret (rs, idle s') \<and>
     map_of s' 7 = None"
  using heartbeats_decide [of "[]" "[SRegister 100 logic_one, SBeat 120 7, SCheck 150, SCheck 151]" 7]
  by (auto simp: logic_one_def simp del: run_cmds.simps)

section \<open>The choice of a server\<close>

definition can_take :: "ServerType \<Rightarrow> ServerInfo \<Rightarrow> bool" where
  "can_take t info \<longleftrightarrow> running t info \<and> online_count info < max_online info"

lemma best_of_choice:
  "best_of t ps (b, m) = b \<and> (\<forall>p\<in>set ps. can_take t (snd p) \<longrightarrow> m \<le> online_count (snd p)) \<or>
   (\<exists>p\<in>set ps. best_of t ps (b, m) = fst p \<and> can_take t (snd p) \<and> online_count (snd p) < m \<and>
      (\<forall>q\<in>set ps. can_take t (snd q) \<longrightarrow> online_count (snd p) \<le> online_count (snd q)))"
proof (induction ps arbitrary: b m)
  case Nil
  then show ?case by simp
next
  case (Cons p ps)
  show ?case
  proof (cases "can_take t (snd p) \<and> online_count (snd p) < m")
    case True
    then have e: "best_of t (p # ps) (b, m) = best_of t ps (fst p, online_count (snd p))" by (simp add: can_take_def)
    have "\<exists>x\<in>set (p # ps). best_of t (p # ps) (b, m) = fst x \<and> can_take t (snd x) \<and> online_count (snd x) < m \<and>
        (\<forall>q\<in>set (p # ps). can_take t (snd q) \<longrightarrow> online_count (snd x) \<le> online_count (snd q))"
      using Cons.IH [of "fst p" "online_count (snd p)"]
    proof (elim disjE conjE bexE)
      assume "best_of t ps (fst p, online_count (snd p)) = fst p"
        "\<forall>q\<in>set ps. can_take t (snd q) \<longrightarrow> online_count (snd p) \<le> online_count (snd q)"
      with True e show ?thesis by (intro bexI [of _ p]) simp_all
    next
      fix x
      assume "x \<in> set ps" "best_of t ps (fst p, online_count (snd p)) = fst x" "can_take t (snd x)"
        "online_count (snd x) < online_count (snd p)"
        "\<forall>q\<in>set ps. can_take t (snd q) \<longrightarrow> online_count (snd x) \<le> online_count (snd q)"
      with True e show ?thesis by (intro bexI [of _ x]) simp_all
    qed
    then show ?thesis by (rule disjI2)
  next
    case False
    then have e: "best_of t (p # ps) (b, m) = best_of t ps (b, m)" by (auto simp: can_take_def)
    have p: "can_take t (snd p) \<longrightarrow> m \<le> online_count (snd p)" using False by auto
    show ?thesis
      using Cons.IH [of b m]
    proof (elim disjE conjE bexE)
      assume "best_of t ps (b, m) = b" "\<forall>q\<in>set ps. can_take t (snd q) \<longrightarrow> m \<le> online_count (snd q)"
      with p e show ?thesis by (intro disjI1) simp
    next
      fix x
      assume "x \<in> set ps" "best_of t ps (b, m) = fst x" "can_take t (snd x)" "online_count (snd x) < m"
        "\<forall>q\<in>set ps. can_take t (snd q) \<longrightarrow> online_count (snd x) \<le> online_count (snd q)"
      with p e show ?thesis by (intro disjI2 bexI [of _ x]) auto
    qed
  qed
qed

text \<open>
  The choice. When the numbers of the servers are not zero, \<^verbatim>\<open>SelectBestServer\<close> answers zero exactly when no running server
  of the type has room, and otherwise a running server of the type with room, whose load no other such
  server undercuts.
\<close>

theorem best_server_least_loaded:
  assumes "registry_inv s" and "map_of s 0 = None" and "\<forall>sid info. map_of s sid = Some info \<longrightarrow> in_i32 (max_online info)"
  shows "\<exists>r. SelectBestServer t (idle s) = Ret (r, idle s) \<and>
    (r = 0 \<longleftrightarrow> (\<forall>sid info. map_of s sid = Some info \<longrightarrow> \<not> can_take t info)) \<and>
    (r \<noteq> 0 \<longrightarrow> (\<exists>info. map_of s r = Some info \<and> can_take t info \<and>
       (\<forall>sid info'. map_of s sid = Some info' \<longrightarrow> can_take t info' \<longrightarrow> online_count info \<le> online_count info')))"
proof -
  have d: "distinct (map fst s)" using assms(1) by (simp add: registry_inv_def keys_ok_def)
  then have mem: "(sid, info) \<in> set s \<longleftrightarrow> map_of s sid = Some info" for sid info by simp
  have small: "online_count info < 2 ^ 31 - 1" if "map_of s sid = Some info" "can_take t info" for sid info
    using assms(3) that by (force simp: can_take_def in_i32_def)
  consider (none) "best_of t s (0, 2 ^ 31 - 1) = 0" "\<forall>p\<in>set s. can_take t (snd p) \<longrightarrow> 2 ^ 31 - 1 \<le> online_count (snd p)"
    | (one) p where "p \<in> set s" "best_of t s (0, 2 ^ 31 - 1) = fst p" "can_take t (snd p)"
        "\<forall>q\<in>set s. can_take t (snd q) \<longrightarrow> online_count (snd p) \<le> online_count (snd q)"
    using best_of_choice [of t s 0 "2 ^ 31 - 1"] by blast
  then show ?thesis
  proof cases
    case none
    then have "\<not> can_take t info" if "map_of s sid = Some info" for sid info
      using small [OF that] mem [of sid info] that by fastforce
    with none(1) show ?thesis by (auto simp: SelectBestServer_def)
  next
    case one
    then have p: "map_of s (fst p) = Some (snd p)" using mem [of "fst p" "snd p"] by simp
    with assms(2) have "fst p \<noteq> 0" by auto
    moreover have "online_count (snd p) \<le> online_count info'" if "map_of s sid = Some info'" "can_take t info'" for sid info'
      using one(4) mem [of sid info'] that by fastforce
    ultimately show ?thesis using one(2,3) p by (auto simp: SelectBestServer_def)
  qed
qed

theorem best_server_least_loaded_witness:
  "\<exists>r. SelectBestServer LOGIC (idle [(7, logic_one\<lparr>status := RUNNING\<rparr>)]) = Ret (r, idle [(7, logic_one\<lparr>status := RUNNING\<rparr>)]) \<and> r \<noteq> 0"
proof -
  let ?s = "[(7, logic_one\<lparr>status := RUNNING\<rparr>)] :: servers"
  have i: "registry_inv ?s"
    by (simp add: registry_inv_def keys_ok_def all_entries_def server_fine_def logic_one_def)
  have m: "map_of ?s 0 = None" "map_of ?s 7 = Some (logic_one\<lparr>status := RUNNING\<rparr>)"
    "\<forall>sid info. map_of ?s sid = Some info \<longrightarrow> in_i32 (max_online info)"
    by (auto simp: logic_one_def in_i32_def)
  obtain r where "SelectBestServer LOGIC (idle ?s) = Ret (r, idle ?s)"
    "r = 0 \<longleftrightarrow> (\<forall>sid info. map_of ?s sid = Some info \<longrightarrow> \<not> can_take LOGIC info)"
    using best_server_least_loaded [OF i m(1,3), of LOGIC] by blast
  moreover have "can_take LOGIC (logic_one\<lparr>status := RUNNING\<rparr>)" by (simp add: can_take_def running_def logic_one_def)
  ultimately show ?thesis using m(2) by blast
qed

section \<open>Matches\<close>

definition lower :: "u64 \<times> i32 \<Rightarrow> u64 \<times> i32 \<Rightarrow> bool" where
  "lower p q \<longleftrightarrow> snd p < snd q"

definition by_rank :: "(u64 \<times> i32) list \<Rightarrow> (u64 \<times> i32) list" where
  "by_rank = sort_key snd"

interpretation by_rank: std_sort lower by_rank
  by unfold_locales
    (auto simp: by_rank_def lower_def not_less sorted_wrt_map [symmetric] sorted_sort_key)

text \<open>Every role is in a queue of a type at most once.\<close>

definition queues_inv :: "queues \<Rightarrow> bool" where
  "queues_inv s \<longleftrightarrow> keys_ok s \<and> all_vals (\<lambda>q. distinct (map fst q)) s"

lemma queues_entry: "queues_inv s \<Longrightarrow> distinct (map fst (entry s mt))"
  by (cases "map_of s mt") (auto simp: queues_inv_def dest: all_valsD)

lemma queues_update: "queues_inv s \<Longrightarrow> distinct (map fst q) \<Longrightarrow> queues_inv (AList.update mt q s)"
  by (simp add: queues_inv_def all_vals_update)

text \<open>How often a role waits for a type.\<close>

definition waits :: "queues \<Rightarrow> i32 \<Rightarrow> u64 \<Rightarrow> nat" where
  "waits s mt role = count (mset (map fst (entry s mt))) role"

lemma waits_update [simp]:
  "waits (AList.update mt' q s) mt role = (if mt = mt' then count (mset (map fst q)) role else waits s mt role)"
  by (simp add: waits_def)

lemma take_team_counts:
  assumes "std_sort lower srt" and "take_team srt mt n s = Some (team, qs)"
  obtains q where "map_of s mt = Some q" and "team = map fst (take (nat n) (srt q))"
    and "qs = AList.update mt (drop (nat n) (srt q)) s"
    and "mset (map fst q) = mset team + mset (map fst (entry qs mt))"
proof -
  obtain q where q: "map_of s mt = Some q" "team = map fst (take (nat n) (srt q))" "qs = AList.update mt (drop (nat n) (srt q)) s"
    using assms(2) by (auto simp: take_team_def split: option.splits if_splits)
  have "mset (map fst q) = mset (map fst (srt q))" using std_sort.sort_mset [OF assms(1), of q] by simp
  also have "\<dots> = mset (map fst (take (nat n) (srt q) @ drop (nat n) (srt q)))" by simp
  finally have "mset (map fst q) = mset team + mset (map fst (entry qs mt))" unfolding q(2,3) map_append mset_append by simp
  with q that show ?thesis by blast
qed

text \<open>
  The parts of the center server as several threads see them. A thread in \<^verbatim>\<open>ProcessMatch\<close> holds the mutex of the
  queues: \<open>hand\<close> has the type, the team it took out and, later, the server it chose. Meanwhile no other thread
  gets at the queues, but the servers and the players may change.
\<close>

datatype player_call = PEnter time_t u64 i32 i32 i32 string | PLeave u64 | PGet u64 | PAsk u64 | PClean time_t

fun player_exec :: "player_call \<Rightarrow> (players, unit) oper" where
  "player_exec (PEnter now role src dest kind tok) = reply (\<lambda>_. ()) (PlayerEnterCross now role src dest kind tok)"
| "player_exec (PLeave role) = reply (\<lambda>_. ()) (PlayerLeaveCross role)"
| "player_exec (PGet role) = reply (\<lambda>_. ()) (GetCrossPlayer role)"
| "player_exec (PAsk role) = reply (\<lambda>_. ()) (IsPlayerInCross role)"
| "player_exec (PClean now) = reply (\<lambda>_. ()) (CleanupExpiredData now)"

record matching =
  waiting_in :: queues
  known :: servers
  crossing :: players
  hand :: "(i32 \<times> u64 list \<times> i32 option) option"

datatype match_event = Joined i32 u64 | Withdrawn i32 u64 | Teamed i32 "u64 list" i32

definition queue_of :: "u64 \<Rightarrow> queues \<Rightarrow> i32 option" where
  "queue_of role s = map_option fst (List.find (\<lambda>p. list_ex (\<lambda>x. fst x = role) (snd p)) s)"

inductive match_step ::
  "((u64 \<times> i32) list \<Rightarrow> (u64 \<times> i32) list) \<Rightarrow> matching \<Rightarrow> match_event list \<Rightarrow> matching \<Rightarrow> bool"
  for srt :: "(u64 \<times> i32) list \<Rightarrow> (u64 \<times> i32) list" where
  join: "hand s = None \<Longrightarrow> AddToMatchQueue role mt score (idle (waiting_in s)) = Ret (ok, idle q) \<Longrightarrow>
    match_step srt s (if ok then [Joined mt role] else []) (s\<lparr>waiting_in := q\<rparr>)"
| withdraw: "hand s = None \<Longrightarrow> RemoveFromMatchQueue role (idle (waiting_in s)) = Ret (ok, idle q) \<Longrightarrow>
    match_step srt s (if ok then [Withdrawn (the (queue_of role (waiting_in s))) role] else []) (s\<lparr>waiting_in := q\<rparr>)"
| take_out: "hand s = None \<Longrightarrow> take_team srt mt n (waiting_in s) = Some (team, q) \<Longrightarrow>
    match_step srt s [] (s\<lparr>waiting_in := q, hand := Some (mt, team, None)\<rparr>)"
| choose: "hand s = Some (mt, team, None) \<Longrightarrow> SelectBestServer LOGIC (idle (known s)) = Ret (dest, m) \<Longrightarrow> 0 < dest \<Longrightarrow>
    match_step srt s [] (s\<lparr>hand := Some (mt, team, Some dest)\<rparr>)"
| give_up: "hand s = Some (mt, team, None) \<Longrightarrow> SelectBestServer LOGIC (idle (known s)) = Ret (dest, m) \<Longrightarrow> dest \<le> 0 \<Longrightarrow>
    match_step srt s [] (s\<lparr>waiting_in := put_back mt team (waiting_in s), hand := None\<rparr>)"
| notify: "hand s = Some (mt, team, Some dest) \<Longrightarrow>
    NotifyMatchSuccess now rnd team mt dest (idle (crossing s)) = Ret ((ok, out), m) \<Longrightarrow> ok \<Longrightarrow>
    match_step srt s [Teamed mt team dest] (s\<lparr>hand := None\<rparr>)"
| on_server: "server_exec c (idle (known s)) = Ret (r, idle ms) \<Longrightarrow> match_step srt s [] (s\<lparr>known := ms\<rparr>)"
| on_player: "player_exec d (idle (crossing s)) = Ret (u, idle ps) \<Longrightarrow> match_step srt s [] (s\<lparr>crossing := ps\<rparr>)"

inductive match_reach ::
  "((u64 \<times> i32) list \<Rightarrow> (u64 \<times> i32) list) \<Rightarrow> matching \<Rightarrow> match_event list \<Rightarrow> bool"
  for srt :: "(u64 \<times> i32) list \<Rightarrow> (u64 \<times> i32) list" where
  start: "match_reach srt \<lparr>waiting_in = [], known = [], crossing = [], hand = None\<rparr> []"
| more: "match_reach srt s h \<Longrightarrow> match_step srt s es s' \<Longrightarrow> match_reach srt s' (h @ es)"

text \<open>How often a role joined, withdrew and was put into a team of a type; whether a thread has it in hand.\<close>

primrec joined :: "i32 \<Rightarrow> u64 \<Rightarrow> match_event \<Rightarrow> nat" where
  "joined mt role (Joined mt' role') = (if mt' = mt \<and> role' = role then 1 else 0)"
| "joined mt role (Withdrawn mt' role') = 0"
| "joined mt role (Teamed mt' team dest) = 0"

primrec settled :: "i32 \<Rightarrow> u64 \<Rightarrow> match_event \<Rightarrow> nat" where
  "settled mt role (Joined mt' role') = 0"
| "settled mt role (Withdrawn mt' role') = (if mt' = mt \<and> role' = role then 1 else 0)"
| "settled mt role (Teamed mt' team dest) = (if mt' = mt then count (mset team) role else 0)"

definition in_hand :: "matching \<Rightarrow> i32 \<Rightarrow> u64 \<Rightarrow> nat" where
  "in_hand s mt role = (case hand s of None \<Rightarrow> 0 | Some (mt', team, dest) \<Rightarrow> if mt' = mt then count (mset team) role else 0)"

definition present :: "matching \<Rightarrow> i32 \<Rightarrow> u64 \<Rightarrow> nat" where
  "present s mt role = waits (waiting_in s) mt role + in_hand s mt role"

lemma queue_of_key: "queue_of role s = Some mt \<Longrightarrow> mt \<in> fst ` set s"
  by (force simp: queue_of_def dest: find_Some_mem)

lemma remove_role_update:
  "keys_ok s \<Longrightarrow>
   remove_role role s = (case queue_of role s of None \<Rightarrow> (False, s)
     | Some mt \<Rightarrow> (True, AList.update mt (filter (\<lambda>x. fst x \<noteq> role) (entry s mt)) s)) \<and>
   (\<forall>mt. queue_of role s = Some mt \<longrightarrow> role \<in> set (map fst (entry s mt)))"
proof (induction s)
  case Nil
  then show ?case by (simp add: queue_of_def)
next
  case (Cons p ps)
  obtain k q where p: "p = (k, q)" by fastforce
  from Cons.prems have ps: "keys_ok ps" "k \<notin> fst ` set ps" by (simp_all add: keys_ok_def p)
  have e: "entry (p # ps) k = q" "mt \<noteq> k \<Longrightarrow> entry (p # ps) mt = entry ps mt" for mt
    by (simp_all add: p entry_def)
  show ?case
  proof (cases "list_ex (\<lambda>x. fst x = role) q")
    case True
    then have "queue_of role (p # ps) = Some k" by (simp add: queue_of_def p)
    with True e(1) show ?thesis by (auto simp: p list_ex_iff image_iff)
  next
    case False
    then have "queue_of role (p # ps) = queue_of role ps" by (simp add: queue_of_def p)
    with Cons.IH [OF ps(1)] False ps(2) e(2) queue_of_key [of role ps] show ?thesis
      by (auto simp: p split: option.splits)
  qed
qed

lemma count_distinct: "distinct xs \<longleftrightarrow> (\<forall>r. count (mset xs) r \<le> 1)"
proof
  assume "distinct xs"
  then show "\<forall>r. count (mset xs) r \<le> 1" by (simp add: distinct_count_atmost_1)
next
  assume le: "\<forall>r. count (mset xs) r \<le> 1"
  have "count (mset xs) r = (if r \<in> set xs then 1 else 0)" for r
  proof (cases "r \<in> set xs")
    case True
    then have "count (mset xs) r \<noteq> 0" by (simp add: count_mset_0_iff)
    moreover have "count (mset xs) r \<le> 1" using le by blast
    ultimately have "count (mset xs) r = 1" by linarith
    with True show ?thesis by simp
  qed (simp add: count_mset_0_iff)
  then show "distinct xs" by (simp add: distinct_count_atmost_1)
qed

lemma count_without: "count (mset (map fst (filter (\<lambda>x. fst x \<noteq> role) q))) r = (if r = role then 0 else count (mset (map fst q)) r)"
  by (induction q) auto

definition match_inv :: "matching \<Rightarrow> bool" where
  "match_inv s \<longleftrightarrow> queues_inv (waiting_in s) \<and> (\<forall>mt role. present s mt role \<le> 1)"

text \<open>Every step accounts for every role: it is here or it came or it is settled.\<close>

definition accounted :: "matching \<Rightarrow> match_event list \<Rightarrow> matching \<Rightarrow> bool" where
  "accounted s es s' \<longleftrightarrow> queues_inv (waiting_in s') \<and> (\<forall>mt role.
     present s' mt role \<le> 1 \<and>
     present s mt role + (\<Sum>e\<leftarrow>es. joined mt role e) = present s' mt role + (\<Sum>e\<leftarrow>es. settled mt role e))"

lemma join_accounted:
  assumes "match_inv s" and "hand s = None" and "AddToMatchQueue role mt score (idle (waiting_in s)) = Ret (ok, idle q)"
  shows "accounted s (if ok then [Joined mt role] else []) (s\<lparr>waiting_in := q\<rparr>)"
proof -
  let ?e = "entry (waiting_in s) mt"
  have q: "queues_inv (waiting_in s)" "distinct (map fst ?e)" using assms(1) queues_entry by (auto simp: match_inv_def)
  have h: "in_hand s' mt' r = 0" if "hand s' = None" for s' mt' r using that by (simp add: in_hand_def)
  have le: "waits (waiting_in s) mt' r \<le> 1" for mt' r
    using assms(1,2) by (simp add: match_inv_def present_def in_hand_def)
  show ?thesis
  proof (cases "role \<in> set (map fst ?e)")
    case True
    then have "list_ex (\<lambda>p. fst p = role) ?e" by (auto simp: list_ex_iff)
    with assms(3) have "ok = False" "q = AList.update mt ?e (waiting_in s)" by (simp_all add: AddToMatchQueue_def)
    with q h assms(2) le show ?thesis by (auto simp: accounted_def present_def queues_update waits_def)
  next
    case False
    then have "\<not> list_ex (\<lambda>p. fst p = role) ?e" by (auto simp: list_ex_iff)
    with assms(3) have a: "ok = True" "q = AList.update mt (?e @ [(role, score)]) (waiting_in s)" by (simp_all add: AddToMatchQueue_def)
    have "count (mset (map fst ?e)) role = 0" using False count_mset_0_iff [of "map fst ?e" role] by simp
    then have "waits (waiting_in s) mt role = 0" by (simp add: waits_def)
    with a q False h assms(2) le show ?thesis
      by (auto simp: accounted_def present_def queues_update) (simp_all add: waits_def)
  qed
qed

lemma withdraw_accounted:
  assumes "match_inv s" and "hand s = None" and "RemoveFromMatchQueue role (idle (waiting_in s)) = Ret (ok, idle q)"
  shows "accounted s (if ok then [Withdrawn (the (queue_of role (waiting_in s))) role] else []) (s\<lparr>waiting_in := q\<rparr>)"
proof -
  have q: "queues_inv (waiting_in s)" "keys_ok (waiting_in s)" using assms(1) by (auto simp: match_inv_def queues_inv_def)
  have h: "in_hand s' mt' r = 0" if "hand s' = None" for s' mt' r using that by (simp add: in_hand_def)
  have le: "waits (waiting_in s) mt' r \<le> 1" for mt' r
    using assms(1,2) by (simp add: match_inv_def present_def in_hand_def)
  have r: "remove_role role (waiting_in s) = (ok, q)" using assms(3) by (auto simp: RemoveFromMatchQueue_def split: prod.splits)
  note u = remove_role_update [OF q(2), of role, unfolded r]
  show ?thesis
  proof (cases "queue_of role (waiting_in s)")
    case None
    with u h assms(2) le q show ?thesis by (simp add: accounted_def present_def)
  next
    case (Some mt)
    let ?e = "entry (waiting_in s) mt"
    have d: "distinct (map fst ?e)" by (rule queues_entry [OF q(1)])
    have c: "count (mset (map fst ?e)) role = 1" using u Some d by (simp add: distinct_count_atmost_1)
    have ok: "ok" "q = AList.update mt (filter (\<lambda>x. fst x \<noteq> role) ?e) (waiting_in s)" using u Some by simp_all
    have "distinct (map fst (filter (\<lambda>x. fst x \<noteq> role) ?e))" by (rule distinct_map_filter [OF d])
    moreover have "waits q mt' r = (if mt' = mt \<and> r = role then 0 else waits (waiting_in s) mt' r)" for mt' r
      unfolding ok(2) waits_update count_without by (simp add: waits_def)
    moreover have "waits (waiting_in s) mt role = 1" using c by (simp add: waits_def)
    ultimately show ?thesis using Some ok q h assms(2) le
      by (auto simp: accounted_def present_def queues_update)
  qed
qed

lemma take_out_accounted:
  assumes "match_inv s" and "hand s = None" and "std_sort lower srt" and "take_team srt mt n (waiting_in s) = Some (team, q)"
  shows "accounted s [] (s\<lparr>waiting_in := q, hand := Some (mt, team, None)\<rparr>)"
proof -
  obtain w where w: "map_of (waiting_in s) mt = Some w" "q = AList.update mt (drop (nat n) (srt w)) (waiting_in s)"
    "mset (map fst w) = mset team + mset (map fst (entry q mt))"
    using take_team_counts [OF assms(3,4)] by blast
  have i: "queues_inv (waiting_in s)" using assms(1) by (simp add: match_inv_def)
  have "distinct (map fst w)" using queues_entry [OF i, of mt] w(1) by simp
  then have "distinct (map fst (drop (nat n) (srt w)))"
    using std_sort.sort_distinct [OF assms(3), of fst w] by (simp add: distinct_drop flip: drop_map)
  then have "queues_inv q" unfolding w(2) by (rule queues_update [OF i])
  moreover have "waits (waiting_in s) mt r = count (mset team) r + waits q mt r" for r
    using w(1,3) by (simp add: waits_def)
  moreover have "mt' \<noteq> mt \<Longrightarrow> waits q mt' r = waits (waiting_in s) mt' r" for mt' r by (simp add: w(2))
  moreover have "waits (waiting_in s) mt' r \<le> 1" for mt' r
    using assms(1,2) by (simp add: match_inv_def present_def in_hand_def)
  ultimately show ?thesis using assms(2)
    by (simp add: accounted_def present_def in_hand_def) (metis add.commute)
qed

lemma give_up_accounted:
  assumes "match_inv s" and "hand s = Some (mt, team, d)"
  shows "accounted s [] (s\<lparr>waiting_in := put_back mt team (waiting_in s), hand := None\<rparr>)"
proof -
  let ?q = "put_back mt team (waiting_in s)"
  have i: "queues_inv (waiting_in s)" using assms(1) by (simp add: match_inv_def)
  have w: "waits ?q mt' r = (if mt' = mt then waits (waiting_in s) mt r + count (mset team) r else waits (waiting_in s) mt' r)" for mt' r
    by (simp add: put_back_def waits_def comp_def del: mset_map)
  have p: "present s mt' r = waits ?q mt' r" for mt' r using assms(2) by (simp add: present_def in_hand_def w)
  have "waits ?q mt r \<le> 1" for r unfolding p [of mt r, symmetric] using assms(1) by (simp add: match_inv_def)
  then have "distinct (map fst (entry ?q mt))" unfolding waits_def count_distinct by blast
  then have "queues_inv ?q" using queues_update [OF i] by (simp add: put_back_def)
  with p assms(1) show ?thesis by (simp add: accounted_def present_def in_hand_def match_inv_def)
qed

lemma match_step_accounted:
  assumes "match_step srt s es s'" and "std_sort lower srt" and "match_inv s"
  shows "accounted s es s'"
  using assms(1)
proof cases
  case (join role mt score ok q)
  then show ?thesis using join_accounted [OF assms(3)] by simp
next
  case (withdraw role ok q)
  then show ?thesis using withdraw_accounted [OF assms(3)] by simp
next
  case (take_out mt n team q)
  then show ?thesis using take_out_accounted [OF assms(3) _ assms(2)] by simp
next
  case (give_up mt team dest m)
  then show ?thesis using give_up_accounted [OF assms(3)] by simp
next
  case (notify mt team dest now rnd ok out m)
  have "present s' mt' r \<le> present s mt' r" for mt' r using notify by (simp add: present_def in_hand_def)
  moreover have "present s mt' r \<le> 1" for mt' r using assms(3) by (simp add: match_inv_def)
  ultimately have "present s' mt' r \<le> 1" for mt' r using order_trans by blast
  with notify assms(3) show ?thesis by (simp add: accounted_def present_def in_hand_def match_inv_def)
qed (use assms(3) in \<open>simp_all add: accounted_def present_def in_hand_def match_inv_def\<close>)

lemma match_reach_accounted:
  assumes "match_reach srt s h" and "std_sort lower srt"
  shows "match_inv s \<and> (\<forall>mt role. (\<Sum>e\<leftarrow>h. joined mt role e) = present s mt role + (\<Sum>e\<leftarrow>h. settled mt role e))"
  using assms(1)
proof induction
  case start
  show ?case by (simp add: match_inv_def queues_inv_def present_def waits_def in_hand_def)
next
  case (more s h es s')
  then have a: "accounted s es s'" using match_step_accounted [OF more.hyps(2) assms(2)] by blast
  then have "match_inv s'" by (simp add: accounted_def match_inv_def)
  moreover have "(\<Sum>e\<leftarrow>h @ es. joined mt role e) = present s' mt role + (\<Sum>e\<leftarrow>h @ es. settled mt role e)" for mt role
  proof -
    have "present s mt role + (\<Sum>e\<leftarrow>es. joined mt role e) = present s' mt role + (\<Sum>e\<leftarrow>es. settled mt role e)"
      using a by (simp add: accounted_def)
    moreover have "(\<Sum>e\<leftarrow>h. joined mt role e) = present s mt role + (\<Sum>e\<leftarrow>h. settled mt role e)"
      using more.IH by blast
    ultimately show ?thesis by simp
  qed
  ultimately show ?case by blast
qed

text \<open>
  C30. No match is lost. However the threads interleave, and whatever happens to the servers and the players between the
  sections of \<^verbatim>\<open>ProcessMatch\<close>: each time a role joined a queue it has since withdrawn or been put into one team, or
  it is still there, in the queue or in the hands of the thread that forms a team; and it is there at most once.
  So a role is never in more teams of a type than it joined queues of it.
\<close>

theorem no_match_lost:
  assumes "std_sort lower srt" and "match_reach srt s h"
  shows "(\<Sum>e\<leftarrow>h. joined mt role e) = present s mt role + (\<Sum>e\<leftarrow>h. settled mt role e) \<and> present s mt role \<le> 1"
  using match_reach_accounted [OF assms(2,1)] by (simp add: match_inv_def)

theorem no_match_lost_witness:
  "\<exists>s h. match_reach by_rank s h \<and> (\<Sum>e\<leftarrow>h. joined 1 7 e) = present s 1 7 + (\<Sum>e\<leftarrow>h. settled 1 7 e) \<and> h = [Joined 1 7]"
proof -
  let ?s = "\<lparr>waiting_in = [], known = [], crossing = [], hand = None\<rparr>"
  have "AddToMatchQueue 7 1 50 (idle (waiting_in ?s)) = Ret (True, idle [(1, [(7, 50)])])"
    by (simp add: AddToMatchQueue_def)
  from match_step.join [OF _ this] have "match_step by_rank ?s [Joined 1 7] (?s\<lparr>waiting_in := [(1, [(7, 50)])]\<rparr>)" by simp
  from match_reach.more [OF match_reach.start this]
  have r: "match_reach by_rank (?s\<lparr>waiting_in := [(1, [(7, 50)])]\<rparr>) [Joined 1 7]" by simp
  from no_match_lost [OF by_rank.std_sort_axioms r, of 1 7] r show ?thesis by blast
qed

text \<open>
  C31. A match. With enough roles in the queue \<^verbatim>\<open>ProcessMatch\<close> takes out as many as asked for, none of which scores higher than
  one that stays. It asks for a running logic server that has room and whose load no other such server undercuts, and
  succeeds exactly when there is one and its identifier is positive; there is none only when every running logic server is
  full or has \<^verbatim>\<open>INT32_MAX\<close> players. When it fails the roles are put back at the end of the queue, and their
  scores are lost: they count as zero from then on.
\<close>

theorem match_takes_lowest:
  assumes "std_sort lower srt" and "queues_of c = idle s" and "servers_of c = idle ms" and "players_of c = idle ps"
    and "map_of s mt = Some q" and "0 \<le> n" and "n \<le> int (length q)"
  shows "\<exists>team rest dest. mset q = mset team + mset rest \<and> length team = nat n \<and>
    (\<forall>x\<in>set team. \<forall>y\<in>set rest. snd x \<le> snd y) \<and>
    (dest = 0 \<and> (\<forall>p\<in>set ms. can_take LOGIC (snd p) \<longrightarrow> 2 ^ 31 - 1 \<le> online_count (snd p)) \<or>
     (\<exists>p\<in>set ms. dest = fst p \<and> can_take LOGIC (snd p) \<and>
        (\<forall>x\<in>set ms. can_take LOGIC (snd x) \<longrightarrow> online_count (snd p) \<le> online_count (snd x)))) \<and>
    ProcessMatch srt now rnd mt n c = Ret (0 < dest, c\<lparr>queues_of := idle (AList.update mt
      (if 0 < dest then rest else rest @ map (\<lambda>x. (fst x, 0)) team) s)\<rparr>)"
proof -
  let ?team = "take (nat n) (srt q)" and ?rest = "drop (nat n) (srt q)" and ?dest = "best_of LOGIC ms (0, 2 ^ 31 - 1)"
  have d: "SelectBestServer LOGIC (idle ms) = Ret (?dest, idle ms)" by (simp add: SelectBestServer_def)
  have b: "?dest = 0 \<and> (\<forall>p\<in>set ms. can_take LOGIC (snd p) \<longrightarrow> 2 ^ 31 - 1 \<le> online_count (snd p)) \<or>
     (\<exists>p\<in>set ms. ?dest = fst p \<and> can_take LOGIC (snd p) \<and>
        (\<forall>x\<in>set ms. can_take LOGIC (snd x) \<longrightarrow> online_count (snd p) \<le> online_count (snd x)))"
    using best_of_choice [of LOGIC ms 0 "2 ^ 31 - 1"] by blast
  have m: "mset q = mset ?team + mset ?rest"
    using std_sort.sort_mset [OF assms(1), of q] by (simp flip: mset_append)
  have l: "length ?team = nat n" using std_sort.sort_length [OF assms(1), of q] assms(7) by simp
  have o: "\<forall>x\<in>set ?team. \<forall>y\<in>set ?rest. snd x \<le> snd y"
    using std_sort.sort_front [OF assms(1)] by (fastforce simp: lower_def not_less)
  have t: "take_team srt mt n s = Some (map fst ?team, AList.update mt ?rest s)"
    using assms(5-7) by (simp add: take_team_def)
  obtain out where w: "NotifyMatchSuccess now rnd (map fst ?team) mt ?dest (idle ps) = Ret ((True, out), idle ps)"
    by (simp add: NotifyMatchSuccess_def Let_def)
  have c: "c\<lparr>servers_of := idle ms, queues_of := z\<rparr> = c\<lparr>queues_of := z\<rparr>"
    "c\<lparr>servers_of := idle ms, players_of := idle ps, queues_of := z\<rparr> = c\<lparr>queues_of := z\<rparr>" for z
    using assms(3,4) by simp_all
  have returned: "put_back mt (map fst ?team) (AList.update mt ?rest s) = AList.update mt (?rest @ map (\<lambda>x. (fst x, 0)) ?team) s"
    by (simp add: put_back_def comp_def)
  have "ProcessMatch srt now rnd mt n c = Ret (0 < ?dest, c\<lparr>queues_of := idle (AList.update mt
      (if 0 < ?dest then ?rest else ?rest @ map (\<lambda>x. (fst x, 0)) ?team) s)\<rparr>)"
    unfolding ProcessMatch_def assms(2-4) idle_simps t option.case prod.case d bindO.simps w returned c
    by simp
  with m l o b show ?thesis by (intro exI [of _ ?team] exI [of _ ?rest] exI [of _ ?dest]) simp
qed

definition two_waiting :: "unit CenterServer" where
  "two_waiting = center_init\<lparr>queues_of := idle [(9, [(1, 30), (2, 10)])], servers_of := idle [(7, logic_one\<lparr>status := RUNNING\<rparr>)]\<rparr>"

theorem match_takes_lowest_witness:
  "\<exists>team rest. mset [(1, 30), (2, 10)] = mset team + mset rest \<and> length team = 1 \<and>
     ProcessMatch by_rank 0 5 9 1 two_waiting = Ret (True, two_waiting\<lparr>queues_of := idle (AList.update 9 rest [(9, [(1, 30), (2, 10)])])\<rparr>)"
proof -
  let ?ms = "[(7, logic_one\<lparr>status := RUNNING\<rparr>)] :: servers"
  have c: "queues_of two_waiting = idle [(9, [(1, 30), (2, 10)])]" "servers_of two_waiting = idle ?ms" "players_of two_waiting = idle []"
    by (simp_all add: two_waiting_def center_init_def)
  have q: "map_of [(9 :: i32, [(1 :: u64, 30 :: i32), (2, 10)])] 9 = Some [(1, 30), (2, 10)]"
    "(0 :: i32) \<le> 1" "(1 :: i32) \<le> int (length [(1 :: u64, 30 :: i32), (2, 10)])" by simp_all
  have room: "can_take LOGIC (snd p) \<and> online_count (snd p) = 3" if "p \<in> set ?ms" for p
    using that by (simp add: can_take_def running_def logic_one_def)
  obtain team rest and dest :: i32 where
    t: "mset [(1, 30), (2, 10)] = mset team + mset rest" "length team = nat 1" and
    d: "dest = 0 \<and> (\<forall>p\<in>set ?ms. can_take LOGIC (snd p) \<longrightarrow> 2 ^ 31 - 1 \<le> online_count (snd p)) \<or>
      (\<exists>p\<in>set ?ms. dest = fst p \<and> can_take LOGIC (snd p) \<and>
        (\<forall>x\<in>set ?ms. can_take LOGIC (snd x) \<longrightarrow> online_count (snd p) \<le> online_count (snd x)))" and
    m: "ProcessMatch by_rank 0 5 9 1 two_waiting = Ret (0 < dest, two_waiting\<lparr>queues_of := idle (AList.update 9
       (if 0 < dest then rest else rest @ map (\<lambda>x. (fst x, 0)) team) [(9, [(1, 30), (2, 10)])])\<rparr>)"
    using match_takes_lowest [OF by_rank.std_sort_axioms c q, of 0 5] by (elim exE conjE) (rule that)
  have "dest = 7"
    using d room [of "(7, logic_one\<lparr>status := RUNNING\<rparr>)"] by auto
  with t m show ?thesis by (intro exI [of _ team] exI [of _ rest]) simp
qed

section \<open>Messages\<close>

lemma byteswap_small:
  assumes "l < 256"
  shows "byteswap 4 l = l * 2 ^ 24"
proof -
  have four: "4 = Suc (Suc (Suc (Suc 0)))" by simp
  have "l div 256 = 0" using assms by simp
  then have "le_bytes 4 l = [word_of_nat l, 0, 0, 0]" unfolding four le_bytes.simps by simp
  moreover have "unat (word_of_nat l :: byte) = l" using assms by (simp add: unat_of_nat)
  ultimately show ?thesis by (simp add: byteswap_def)
qed

text \<open>
  The center server takes the numbers of a header in the byte order of its machine, while every other server sends
  them in network order. On a little endian machine it gets the header with the bytes of every number reversed:
  the length of any message below 256 bytes comes out \<open>2 ^ 24\<close> times too large, and whatever comes next
  is taken for the body.
\<close>

theorem center_misreads:
  assumes "header_size + length body < 256"
  shows "bytes_header True (sent_header host mid body) = swap_header True (new_header mid body) \<and>
    unat (msg_len (bytes_header True (sent_header host mid body))) = (header_size + length body) * 2 ^ 24 \<and>
    HandleRecv True n [(t, Got (sent_header host mid body)), (t', Got next)] (idle s) =
      bindO (touch_client t' n (idle s)) (\<lambda>(_, m).
        Ret (([(msg_id (swap_header True (new_header mid body)), word_of_nat ((header_size + length body) * 2 ^ 24))], False), m))"
proof -
  let ?l = "header_size + length body"
  have h: "bytes_header True (sent_header host mid body) = swap_header True (new_header mid body)"
    using bytes_header_bytes [of True "swap_header True (new_header mid body)"]
      header_portable [of host "new_header mid body" True] by (simp add: sent_header_def)
  have "unat (word_of_nat ?l :: u32) = ?l" using assms by (intro unat32) simp
  moreover have "byteswap 4 ?l = ?l * 2 ^ 24" by (rule byteswap_small [OF assms])
  ultimately have b: "msg_len (swap_header True (new_header mid body)) = word_of_nat (?l * 2 ^ 24)"
    by (simp add: swap_header_def new_header_def byteswapOnLittleEndian_def)
  moreover have u: "unat (word_of_nat (?l * 2 ^ 24) :: u32) = ?l * 2 ^ 24" using assms by (intro unat32) simp
  moreover have t: "bytes_header True (take header_size (sent_header host mid body @ replicate header_size 0)) =
      swap_header True (new_header mid body)" by (simp add: h)
  moreover have "header_size < ?l * 2 ^ 24" by simp
  ultimately have "HandleRecv True n [(t, Got (sent_header host mid body)), (t', Got next)] (idle s) =
      bindO (touch_client t' n (idle s)) (\<lambda>(_, m).
        Ret (([(msg_id (swap_header True (new_header mid body)), word_of_nat (?l * 2 ^ 24))], False), m))"
    unfolding HandleRecv.simps received.case Let_def t b u
    by (simp only: if_True list.case prod.case received.case HandleRecv.simps bindO.simps)
  with h b u show ?thesis by simp
qed

theorem center_misreads_witness:
  "unat (msg_len (bytes_header True (sent_header True 1001 (replicate 23 0)))) = 43 * 2 ^ 24"
proof -
  have "header_size + length (replicate 23 0 :: byte list) < 256" by simp
  from center_misreads [OF this, THEN conjunct2, THEN conjunct1, of True 1001] show ?thesis by simp
qed

end
