(* ===== verification/HashUtil.thy ===== *)
theory HashUtil
  imports Bytes
begin

text \<open>
  \<open>ancfl/util/hash_util.cc\<close>: hashes, base64, hexadecimal strings, replacing and splitting. The digests of OpenSSL are
  parameters. A \<^verbatim>\<open>std::string\<close> is a list of bytes where it is data and a \<open>string\<close> where it is text.
\<close>

unbundle bit_operations_syntax

type_synonym word32 = "32 word"

section \<open>Hashes\<close>

definition ROTL :: "word32 \<Rightarrow> nat \<Rightarrow> word32" where
  "ROTL x r = push_bit r x OR drop_bit (32 - r) x"

definition fmix32 :: "word32 \<Rightarrow> word32" where
  "fmix32 h =
     (let h = h XOR drop_bit 16 h; h = h * 0x85ebca6b; h = h XOR drop_bit 13 h; h = h * 0xc2b2ae35 in
      h XOR drop_bit 16 h)"

definition scramble :: "word32 \<Rightarrow> word32" where
  "scramble s = ROTL (s * 0xcc9e2d51) 15 * 0x1b873593"

definition mix_block :: "word32 \<Rightarrow> word32 \<Rightarrow> word32" where
  "mix_block h s = ROTL (h XOR scramble s) 13 * 5 + 0xe6546b64"

text \<open>
  The blocks are read in the byte order of the machine, \<open>host\<close>; the tail has at most three bytes. The length is held in
  an \<^verbatim>\<open>int\<close>, so the model is of data shorter than \<open>2 ^ 31\<close> bytes.
\<close>

definition block_at :: "bool \<Rightarrow> byte list \<Rightarrow> nat \<Rightarrow> word32" where
  "block_at host bs i = word_of_nat (le_value (in_order host (take 4 (drop (4 * i) bs))))"

definition mix_tail :: "byte list \<Rightarrow> word32 \<Rightarrow> word32" where
  "mix_tail rest h =
     (case rest of
        [] \<Rightarrow> h
      | [a] \<Rightarrow> h XOR scramble (ucast a)
      | [a, b] \<Rightarrow> h XOR scramble (push_bit 8 (ucast b) OR ucast a)
      | a # b # c # _ \<Rightarrow> h XOR scramble (push_bit 16 (ucast c) OR push_bit 8 (ucast b) OR ucast a))"

definition murmur3 :: "bool \<Rightarrow> byte list \<Rightarrow> word32 \<Rightarrow> word32" where
  "murmur3 host bs seed =
     (let n = length bs;
          h = foldl mix_block seed (map (block_at host bs) [0..<n div 4]) in
      fmix32 (mix_tail (drop (4 * (n div 4)) bs) h XOR word_of_nat n))"

definition murmur3_hash_data :: "bool \<Rightarrow> byte list option \<Rightarrow> word32 \<Rightarrow> word32" where
  "murmur3_hash_data host data seed = (case data of None \<Rightarrow> 0 | Some bs \<Rightarrow> murmur3 host bs seed)"

text \<open>A C string ends at its first zero byte.\<close>

definition murmur3_hash_str :: "bool \<Rightarrow> byte list option \<Rightarrow> word32 \<Rightarrow> word32" where
  "murmur3_hash_str host str seed =
     (case str of None \<Rightarrow> 0 | Some bs \<Rightarrow> murmur3 host (takeWhile (\<lambda>b. b \<noteq> 0) bs) seed)"

definition murmur3_hash64_data :: "bool \<Rightarrow> byte list option \<Rightarrow> word32 \<Rightarrow> word32 \<Rightarrow> u64" where
  "murmur3_hash64_data host data seed seed2 =
     push_bit 32 (ucast (murmur3_hash_data host data seed)) OR ucast (murmur3_hash_data host data seed2)"

definition murmur3_hash64_str :: "bool \<Rightarrow> byte list option \<Rightarrow> word32 \<Rightarrow> word32 \<Rightarrow> u64" where
  "murmur3_hash64_str host str seed seed2 =
     push_bit 32 (ucast (murmur3_hash_str host str seed)) OR ucast (murmur3_hash_str host str seed2)"

text \<open>A \<^verbatim>\<open>char\<close> is signed. The loop over data never moves its pointer.\<close>

definition quick_hash_str :: "byte list \<Rightarrow> word32" where
  "quick_hash_str bs = foldl (\<lambda>h b. 31 * h + scast b) 0 (takeWhile (\<lambda>b. b \<noteq> 0) bs)"

definition quick_hash_data :: "byte list \<Rightarrow> word32" where
  "quick_hash_data bs = foldl (\<lambda>h i. 31 * h + scast (bs ! 0)) 0 [0..<length bs]"

subsection \<open>Injectivity\<close>

lemma xorshift_inj:
  assumes "x XOR drop_bit k x = y XOR drop_bit k (y :: word32)" and "0 < k"
  shows "x = y"
proof -
  define d where "d = x XOR y"
  have "d XOR drop_bit k d = (x XOR drop_bit k x) XOR (y XOR drop_bit k y)"
    by (simp add: d_def drop_bit_xor xor.assoc xor.left_commute)
  also have "\<dots> = 0" unfolding assms(1) by simp
  finally have "d XOR drop_bit k d = 0" .
  moreover have "d = (d XOR drop_bit k d) XOR drop_bit k d" by (simp add: xor.assoc)
  ultimately have shifted: "d = drop_bit k d" by simp
  have "d = drop_bit (n * k) d" for n
  proof (induction n)
    case (Suc n)
    then have "drop_bit k d = drop_bit k (drop_bit (n * k) d)" by simp
    with shifted show ?case by (simp add: drop_bit_drop_bit add.commute)
  qed simp
  from this [of 32] have "d = drop_bit (32 * k) d" .
  moreover have "drop_bit (32 * k) d = 0" using assms(2) by (intro bit_word_eqI) (simp add: bit_simps)
  ultimately have "d = 0" by simp
  moreover have "x = d XOR y" by (simp add: d_def xor.assoc)
  ultimately show ?thesis by simp
qed

lemma mult_inj: "c * i = (1 :: word32) \<Longrightarrow> x * c = y * c \<Longrightarrow> x = y"
proof -
  assume "c * i = 1" "x * c = y * c"
  from \<open>x * c = y * c\<close> have "x * (c * i) = y * (c * i)" by (simp only: mult.assoc [symmetric])
  with \<open>c * i = 1\<close> show ?thesis by simp
qed

lemma ROTL_inj:
  assumes "ROTL x r = ROTL y r" and "r \<le> 32"
  shows "x = y"
proof (rule bit_word_eqI)
  fix n
  assume n: "n < LENGTH(32)"
  have m: "m < 32 \<Longrightarrow> (r \<le> m \<and> bit x (m - r) \<or> bit x (32 - r + m)) = (r \<le> m \<and> bit y (m - r) \<or> bit y (32 - r + m))" for m
    using arg_cong [OF assms(1), of "\<lambda>z. bit z m"] by (simp add: ROTL_def bit_simps)
  show "bit x n = bit y n"
  proof (cases "n + r < 32")
    case True
    then have "\<not> bit z (32 - r + (n + r))" for z :: word32 using assms(2) by (intro impossible_bit) simp
    with m [of "n + r"] True assms(2) show ?thesis by (simp add: impossible_bit)
  next
    case False
    with n have "32 - r + (n + r - 32) = n" "n + r - 32 < 32" "\<not> r \<le> n + r - 32" using assms(2) by simp_all
    with m [of "n + r - 32"] show ?thesis by simp
  qed
qed

lemma fmix32_inj: "fmix32 x = fmix32 y \<Longrightarrow> x = y"
  unfolding fmix32_def Let_def
  by (drule xorshift_inj, simp, drule mult_inj [of _ "0x7ed1b41d", rotated], simp, drule xorshift_inj, simp,
      drule mult_inj [of _ "0xa5cb9243", rotated], simp, drule xorshift_inj, simp)

lemma scramble_inj: "scramble x = scramble y \<Longrightarrow> x = y"
  unfolding scramble_def
  by (drule mult_inj [of _ "0x56ed309b", rotated], simp, drule ROTL_inj, simp,
      drule mult_inj [of _ "0xdee13bb1", rotated], simp, assumption)

lemma mix_block_inj: "mix_block h x = mix_block h y \<Longrightarrow> x = y"
proof -
  assume "mix_block h x = mix_block h y"
  then have "ROTL (h XOR scramble x) 13 * 5 = ROTL (h XOR scramble y) 13 * 5" by (simp add: mix_block_def)
  then have "ROTL (h XOR scramble x) 13 = ROTL (h XOR scramble y) 13" by (rule mult_inj [of _ "0xcccccccd", rotated]) simp
  then have "h XOR scramble x = h XOR scramble y" by (rule ROTL_inj) simp
  then have "h XOR (h XOR scramble x) = h XOR (h XOR scramble y)" by simp
  then have "scramble x = scramble y" by (simp add: xor.assoc [symmetric])
  then show ?thesis by (rule scramble_inj)
qed

lemma block_at_inj: "length as = 4 \<Longrightarrow> length bs = 4 \<Longrightarrow> block_at host as 0 = block_at host bs 0 \<Longrightarrow> as = bs"
proof -
  assume l: "length as = 4" "length bs = 4" and e: "block_at host as 0 = block_at host bs 0"
  have o: "length (in_order host xs) = length xs" for xs :: "byte list" by (simp add: in_order_def)
  have le: "le_value xs < 2 ^ 32" if "length xs = 4" for xs
    using le_value_bytes [of 4 "le_value xs"] le_bytes_value [of xs 4] that
      mod_less_divisor [of "256 ^ 4" "le_value xs"] by simp
  have "le_value (in_order host as) = le_value (in_order host bs)"
    using e le [of "in_order host as"] le [of "in_order host bs"] l
    by (simp add: block_at_def o word_of_nat_eq_iff take_bit_nat_eq_self)
  then have "in_order host as = in_order host bs"
    using le_bytes_value [of "in_order host as" 4] le_bytes_value [of "in_order host bs" 4] l o by metis
  then show "as = bs" by (auto simp: in_order_def split: if_splits)
qed

section \<open>Hexadecimal strings\<close>

definition hex_char :: "byte \<Rightarrow> char" where
  "hex_char d = char_of (if 9 < unat d then unat d + 97 - 10 else unat d + 48)"

primrec hexstring_from_data :: "byte list \<Rightarrow> string" where
  "hexstring_from_data [] = []"
| "hexstring_from_data (b # bs) = hex_char (drop_bit 4 b AND 0xf) # hex_char (b AND 0xf) # hexstring_from_data bs"

text \<open>The two switches; \<open>None\<close> is the exception \<^verbatim>\<open>invalid_argument\<close>.\<close>

definition hex_digit_value :: "char \<Rightarrow> byte option" where
  "hex_digit_value c =
     (let n = of_char c :: nat in
      if 97 \<le> n \<and> n \<le> 102 then Some (word_of_nat (n - 97 + 10))
      else if 65 \<le> n \<and> n \<le> 70 then Some (word_of_nat (n - 65 + 10))
      else if 48 \<le> n \<and> n \<le> 57 then Some (word_of_nat (n - 48))
      else None)"

fun hex_pairs :: "string \<Rightarrow> byte list option" where
  "hex_pairs (c # d # cs) =
     (case hex_digit_value c of
        None \<Rightarrow> None
      | Some h \<Rightarrow>
          (case hex_digit_value d of
             None \<Rightarrow> None
           | Some l \<Rightarrow> map_option (\<lambda>bs. (push_bit 4 h OR l) # bs) (hex_pairs cs)))"
| "hex_pairs _ = Some []"

definition data_from_hexstring :: "string \<Rightarrow> byte list option" where
  "data_from_hexstring cs = (if length cs mod 2 \<noteq> 0 then None else if cs = [] then Some [] else hex_pairs cs)"

section \<open>Digests\<close>

text \<open>The digest functions of OpenSSL on bytes: \<open>MD5\<close> and \<open>SHA1\<close> are parameters of what uses them.\<close>

type_synonym digest = "byte list \<Rightarrow> byte list"

definition md5sum :: "digest \<Rightarrow> byte list \<Rightarrow> byte list" where
  "md5sum MD5 bs = MD5 bs"

definition sha1sum :: "digest \<Rightarrow> byte list \<Rightarrow> byte list" where
  "sha1sum SHA1 bs = SHA1 bs"

definition md5 :: "digest \<Rightarrow> byte list \<Rightarrow> string" where
  "md5 MD5 bs = hexstring_from_data (take 16 (md5sum MD5 bs))"

definition sha1 :: "digest \<Rightarrow> byte list \<Rightarrow> string" where
  "sha1 SHA1 bs = hexstring_from_data (take 20 (sha1sum SHA1 bs))"

definition hmac :: "digest \<Rightarrow> nat \<Rightarrow> byte list \<Rightarrow> byte list \<Rightarrow> byte list" where
  "hmac H B text key =
     (let k = (if B < length key then H key else key);
          k = k @ replicate (B - length k) 0;
          ipad = map (\<lambda>b. b XOR 0x36) k; opad = map (\<lambda>b. b XOR 0x5c) k in
      H (opad @ H (ipad @ text)))"

definition hmac_md5 :: "digest \<Rightarrow> byte list \<Rightarrow> byte list \<Rightarrow> byte list" where
  "hmac_md5 MD5 = hmac MD5 64"

definition hmac_sha1 :: "digest \<Rightarrow> byte list \<Rightarrow> byte list \<Rightarrow> byte list" where
  "hmac_sha1 SHA1 = hmac SHA1 64"

definition hmac_sha256 :: "digest \<Rightarrow> byte list \<Rightarrow> byte list \<Rightarrow> byte list" where
  "hmac_sha256 SHA256 = hmac SHA256 64"

section \<open>Base64\<close>

definition base64_alphabet :: string where
  "base64_alphabet = ''ABCDEFGHIJKLMNOPQRSTUVWXYZabcdefghijklmnopqrstuvwxyz0123456789+/''"

text \<open>The topmost six bits are taken without a mask in the code; the packed value has 24 bits.\<close>

definition sextet :: "nat \<Rightarrow> word32 \<Rightarrow> char" where
  "sextet k packed = base64_alphabet ! unat (drop_bit k packed AND 0x3f)"

definition pack3 :: "byte \<Rightarrow> byte \<Rightarrow> byte \<Rightarrow> word32" where
  "pack3 a b c = push_bit 8 (push_bit 8 (ucast a) OR ucast b) OR ucast c"

fun base64encode :: "byte list \<Rightarrow> string" where
  "base64encode [] = []"
| "base64encode [a] = (let p = pack3 a 0 0 in [sextet 18 p, sextet 12 p, CHR ''='', CHR ''=''])"
| "base64encode [a, b] = (let p = pack3 a b 0 in [sextet 18 p, sextet 12 p, sextet 6 p, CHR ''=''])"
| "base64encode (a # b # c # bs) =
     (let p = pack3 a b c in sextet 18 p # sextet 12 p # sextet 6 p # sextet 0 p # base64encode bs)"

definition base64_value :: "char \<Rightarrow> word32 option" where
  "base64_value ch =
     (let n = of_char ch :: nat in
      if 65 \<le> n \<and> n \<le> 90 then Some (word_of_nat (n - 65))
      else if 97 \<le> n \<and> n \<le> 122 then Some (word_of_nat (n - 97 + 26))
      else if 48 \<le> n \<and> n \<le> 57 then Some (word_of_nat (n - 48 + 52))
      else if ch = CHR ''+'' then Some 62
      else if ch = CHR ''/'' then Some 63
      else None)"

text \<open>
  The inner loop over at most four characters: the packed value and the number of padding characters, \<open>None\<close>
  for a return of the empty string.
\<close>

primrec decode_group :: "string \<Rightarrow> word32 \<Rightarrow> nat \<Rightarrow> (word32 \<times> nat) option" where
  "decode_group [] packed padding = Some (packed, padding)"
| "decode_group (ch # cs) packed padding =
     (if ch = CHR ''='' then decode_group cs (push_bit 6 packed) (padding + 1)
      else if 0 < padding then None
      else case base64_value ch of
        None \<Rightarrow> None
      | Some v \<Rightarrow> decode_group cs (push_bit 6 packed OR v) padding)"

definition group_bytes :: "word32 \<Rightarrow> nat \<Rightarrow> byte list" where
  "group_bytes packed padding =
     [ucast (drop_bit 16 packed AND 0xff)] @
     (if padding \<noteq> 2 then [ucast (drop_bit 8 packed AND 0xff)] else []) @
     (if padding = 0 then [ucast (packed AND 0xff)] else [])"

function decode_groups :: "string \<Rightarrow> byte list option" where
  "decode_groups cs =
     (if cs = [] then Some []
      else case decode_group (take 4 cs) 0 0 of
        None \<Rightarrow> None
      | Some (packed, padding) \<Rightarrow>
          if length cs < 4 then None
          else if 0 < padding \<and> drop 4 cs \<noteq> [] then None
          else if 2 < padding then None
          else map_option (\<lambda>bs. group_bytes packed padding @ bs) (decode_groups (drop 4 cs)))"
  by pat_completeness auto
termination
  by (relation "measure length") auto

declare decode_groups.simps [simp del]

text \<open>Every refused input gives the empty string.\<close>

definition base64decode :: "string \<Rightarrow> byte list" where
  "base64decode cs = (case decode_groups cs of None \<Rightarrow> [] | Some bs \<Rightarrow> bs)"

section \<open>Replacing and splitting\<close>

text \<open>\<^verbatim>\<open>str.find(pat, pos)\<close>. An empty pattern is found at every position up to the end.\<close>

definition str_find :: "'a list \<Rightarrow> 'a list \<Rightarrow> nat \<Rightarrow> nat option" where
  "str_find pat str pos =
     List.find (\<lambda>i. pos \<le> i \<and> i + length pat \<le> length str \<and> take (length pat) (drop i str) = pat) [0..<Suc (length str)]"

text \<open>The loop of \<^verbatim>\<open>replace\<close>; it goes on behind what it has put in. \<open>None\<close> is a loop that does not end.\<close>

partial_function (option) replace_loop :: "'a list \<Rightarrow> 'a list \<Rightarrow> 'a list \<Rightarrow> nat \<Rightarrow> 'a list option" where
  "replace_loop str pat by_this pos =
     (case str_find pat str pos of
        None \<Rightarrow> Some str
      | Some i \<Rightarrow> replace_loop (take i str @ by_this @ drop (i + length pat) str) pat by_this (i + length by_this))"

definition replace_string :: "string \<Rightarrow> string \<Rightarrow> string \<Rightarrow> string option" where
  "replace_string str pat by_this = replace_loop str pat by_this 0"

definition replace_char_string :: "string \<Rightarrow> char \<Rightarrow> string \<Rightarrow> string option" where
  "replace_char_string str c by_this = replace_loop str [c] by_this 0"

text \<open>An assignment to \<^verbatim>\<open>str[index]\<close> replaces one character by one.\<close>

definition replace_char :: "string \<Rightarrow> char \<Rightarrow> char \<Rightarrow> string option" where
  "replace_char str c d = replace_loop str [c] [d] 0"

text \<open>
  \<^verbatim>\<open>split\<close> on what is left of the string: a piece up to the next delimiter, then, unless the counter has come to one, the
  rest. The counter is unsigned.
\<close>

function split_rest :: "('a \<Rightarrow> bool) \<Rightarrow> 'a list \<Rightarrow> u64 \<Rightarrow> 'a list list" where
  "split_rest delim str limit =
     (case dropWhile (\<lambda>c. \<not> delim c) str of
        [] \<Rightarrow> [str]
      | _ # rest \<Rightarrow>
          takeWhile (\<lambda>c. \<not> delim c) str # (if limit - 1 = 1 then [rest] else split_rest delim rest (limit - 1)))"
  by pat_completeness auto
termination
proof (relation "measure (\<lambda>(delim, str, limit). length str)")
  fix delim :: "'a \<Rightarrow> bool" and str :: "'a list" and limit :: u64 and d rest
  assume "dropWhile (\<lambda>c. \<not> delim c) str = d # rest"
  then have "length (d # rest) \<le> length str" using length_dropWhile_le [of "\<lambda>c. \<not> delim c" str] by simp
  then show "((delim, rest, limit - 1), delim, str, limit) \<in> measure (\<lambda>(delim, str, limit). length str)" by simp
qed simp

declare split_rest.simps [simp del]

definition split_char :: "string \<Rightarrow> char \<Rightarrow> u64 \<Rightarrow> string list" where
  "split_char str delim limit = (if str = [] then [] else split_rest (\<lambda>c. c = delim) str limit)"

definition split_any :: "string \<Rightarrow> string \<Rightarrow> u64 \<Rightarrow> string list" where
  "split_any str delims limit = (if str = [] then [] else split_rest (\<lambda>c. c \<in> set delims) str limit)"

text \<open>\<open>rands i\<close> is what the call of \<^verbatim>\<open>rand\<close> gives in round \<open>i\<close>.\<close>

definition random_string :: "(nat \<Rightarrow> nat) \<Rightarrow> nat \<Rightarrow> string \<Rightarrow> string" where
  "random_string rands len chars =
     (if len = 0 \<or> chars = [] then [] else map (\<lambda>i. chars ! (rands i mod length chars)) [0..<len])"

section \<open>Base64 and hexadecimal strings read back\<close>

lemma and_masks: "(x :: 'a::len word) AND 0x3f = take_bit 6 x" "x AND 0xff = take_bit 8 x" "x AND 0xf = take_bit 4 x"
  by (simp_all add: take_bit_eq_mask mask_eq_exp_minus_1)

lemma alphabet_values:
  assumes "s < 64"
  shows "base64_value (base64_alphabet ! s) = Some (word_of_nat s)" and "base64_alphabet ! s \<noteq> CHR ''=''"
proof -
  have c: "list_all (\<lambda>i. of_char (base64_alphabet ! i) =
      (if i < 26 then 65 + i else if i < 52 then 71 + i else if i < 62 then i - 4 else if i = 62 then 43 else 47 :: nat)) [0..<64]"
    by (simp add: base64_alphabet_def upt_rec)
  then have c: "of_char (base64_alphabet ! s) =
      (if s < 26 then 65 + s else if s < 52 then 71 + s else if s < 62 then s - 4 else if s = 62 then 43 else 47 :: nat)"
    using assms by (simp add: list_all_iff)
  have e: "base64_alphabet ! s = char_of (of_char (base64_alphabet ! s) :: nat)" by simp
  show "base64_alphabet ! s \<noteq> CHR ''=''"
  proof
    assume "base64_alphabet ! s = CHR ''=''"
    then have "of_char (base64_alphabet ! s) = (61 :: nat)" by simp
    with c assms show False by (auto split: if_splits)
  qed
  consider "s < 26" | "26 \<le> s" "s < 52" | "52 \<le> s" "s < 62" | "s = 62" | "s = 63" using assms by linarith
  then show "base64_value (base64_alphabet ! s) = Some (word_of_nat s)"
  proof cases
    case 1
    then show ?thesis by (simp add: base64_value_def c)
  next
    case 2
    then show ?thesis by (simp add: base64_value_def c)
  next
    case 3
    then have "of_char (base64_alphabet ! s) = s - 4" "s - 4 < 65" "48 \<le> s - 4" "s - 4 \<le> 57" "s - 4 - 48 + 52 = s"
      by (simp_all add: c)
    then show ?thesis by (simp add: base64_value_def Let_def)
  qed (simp_all add: base64_value_def base64_alphabet_def)
qed

lemma sextet_value:
  "base64_value (sextet k p) = Some (take_bit 6 (drop_bit k p))" "sextet k p \<noteq> CHR ''=''"
proof -
  have "unat (take_bit 6 (drop_bit k p)) < 64" using take_bit_nat_less_exp [of 6 "unat (drop_bit k p)"] by (simp add: unsigned_take_bit_eq)
  from alphabet_values(1,2) [OF this] show "base64_value (sextet k p) = Some (take_bit 6 (drop_bit k p))" "sextet k p \<noteq> CHR ''=''"
    by (simp_all add: sextet_def and_masks)
qed

lemma regroup:
  assumes "take_bit 24 p = (p :: word32)"
  shows "push_bit 6 (push_bit 6 (push_bit 6 (take_bit 6 (drop_bit 18 p)) OR take_bit 6 (drop_bit 12 p)) OR take_bit 6 (drop_bit 6 p))
    OR take_bit 6 p = p"
proof (rule bit_word_eqI)
  fix n
  assume "n < LENGTH(32)"
  have "bit p n \<Longrightarrow> n < 24" using assms by (metis bit_take_bit_iff)
  then show "bit (push_bit 6 (push_bit 6 (push_bit 6 (take_bit 6 (drop_bit 18 p)) OR take_bit 6 (drop_bit 12 p)) OR take_bit 6 (drop_bit 6 p))
    OR take_bit 6 p) n = bit p n"
    using \<open>n < LENGTH(32)\<close>
    by (cases "n < 6"; cases "n < 12"; cases "n < 18"; cases "n < 24") (auto simp: bit_simps)
qed

lemma pack3_bits: "bit (pack3 a b c) n \<longleftrightarrow> (if n < 8 then bit c n else if n < 16 then bit b (n - 8) else bit a (n - 16))"
  by (auto simp: pack3_def bit_simps) (auto dest: bit_imp_le_length)

lemma pack3_small: "take_bit 24 (pack3 a b c) = pack3 a b c"
proof (rule bit_word_eqI)
  fix n
  assume "n < LENGTH(32)"
  have "bit a (n - 16) \<Longrightarrow> n < 24" using bit_imp_le_length [of a "n - 16"] by simp
  then show "bit (take_bit 24 (pack3 a b c)) n = bit (pack3 a b c) n" by (auto simp: bit_take_bit_iff pack3_bits)
qed

lemma pack3_bytes:
  "ucast (drop_bit 16 (pack3 a b c) AND 0xff) = a" "ucast (drop_bit 8 (pack3 a b c) AND 0xff) = b" "ucast (pack3 a b c AND 0xff) = c"
  unfolding and_masks by (rule bit_word_eqI; simp add: bit_simps pack3_bits)+

lemma pack3_padded: "take_bit 6 (pack3 a b 0) = 0" "take_bit 6 (drop_bit 6 (pack3 a 0 0)) = 0" "take_bit 6 (pack3 a 0 0) = 0"
  by (rule bit_word_eqI; simp add: bit_simps pack3_bits)+

lemma decode_whole: "decode_group [sextet 18 (pack3 a b c), sextet 12 (pack3 a b c), sextet 6 (pack3 a b c), sextet 0 (pack3 a b c)] 0 0 =
    Some (pack3 a b c, 0)"
  using regroup [OF pack3_small, of a b c] by (simp add: sextet_value)

lemma decode_two: "decode_group [sextet 18 (pack3 a b 0), sextet 12 (pack3 a b 0), sextet 6 (pack3 a b 0), CHR ''=''] 0 0 =
    Some (pack3 a b 0, 1)"
  using regroup [OF pack3_small, of a b 0] by (simp add: sextet_value pack3_padded)

lemma decode_one: "decode_group [sextet 18 (pack3 a 0 0), sextet 12 (pack3 a 0 0), CHR ''='', CHR ''=''] 0 0 =
    Some (pack3 a 0 0, 2)"
  using regroup [OF pack3_small, of a 0 0] by (simp add: sextet_value pack3_padded)

lemma decode_step:
  assumes "decode_group [c1, c2, c3, c4] 0 0 = Some (p, padding)" and "padding = 0 \<or> cs = []" and "padding \<le> 2"
  shows "decode_groups (c1 # c2 # c3 # c4 # cs) = map_option (\<lambda>bs. group_bytes p padding @ bs) (decode_groups cs)"
  using assms(2) unfolding decode_groups.simps [of "c1 # c2 # c3 # c4 # cs"]
  by (elim disjE) (use assms(1,3) in \<open>simp_all del: decode_group.simps\<close>)

lemma decode_encode: "decode_groups (base64encode bs) = Some bs"
proof (induction bs rule: base64encode.induct)
  case 1
  show ?case by (simp add: decode_groups.simps [of "[]"])
next
  case (2 a)
  show ?case using decode_step [OF decode_one, of "[]" a]
    by (simp add: Let_def decode_groups.simps [of "[]"] group_bytes_def pack3_bytes)
next
  case (3 a b)
  show ?case using decode_step [OF decode_two, of "[]" a b]
    by (simp add: Let_def decode_groups.simps [of "[]"] group_bytes_def pack3_bytes)
next
  case (4 a b c bs)
  then show ?case using decode_step [OF decode_whole, of "base64encode bs" a b c]
    by (simp add: Let_def group_bytes_def pack3_bytes)
qed

lemma length_base64encode: "length (base64encode bs) = (length bs + 2) div 3 * 4"
proof (induction bs rule: base64encode.induct)
  case (4 a b c bs)
  have "(length (a # b # c # bs) + 2) div 3 = (length bs + 2) div 3 + 1" by simp
  then have "(length (a # b # c # bs) + 2) div 3 * 4 = (length bs + 2) div 3 * 4 + 4" by (simp only: add_mult_distrib mult_1)
  with 4 show ?case by (simp add: Let_def)
qed (simp_all add: Let_def)

text \<open>
  C8. Base64. What \<^verbatim>\<open>base64encode\<close> gives has four characters for every three bytes begun, and \<^verbatim>\<open>base64decode\<close> gives
  back the data, of any length.
\<close>

theorem base64_roundtrip:
  "base64decode (base64encode bs) = bs \<and> length (base64encode bs) = (length bs + 2) div 3 * 4"
  by (simp add: base64decode_def decode_encode length_base64encode)

lemma hex_char_value: "unat d < 16 \<Longrightarrow> hex_digit_value (hex_char d) = Some d"
  by (simp add: hex_digit_value_def hex_char_def)

lemma nibbles: "push_bit 4 (drop_bit 4 b AND 0xf) OR (b AND 0xf) = (b :: byte)"
  unfolding and_masks by (rule bit_word_eqI) (auto simp: bit_simps)

lemma nibble_small: "unat ((b :: byte) AND 0xf) < 16"
  using take_bit_nat_less_exp [of 4 "unat b"] by (simp add: and_masks unsigned_take_bit_eq)

lemma hex_pairs_back: "hex_pairs (hexstring_from_data bs) = Some bs"
proof (induction bs)
  case (Cons b bs)
  have "hex_pairs (hexstring_from_data (b # bs)) = Some ((push_bit 4 (drop_bit 4 b AND 0xf) OR (b AND 0xf)) # bs)"
    unfolding hexstring_from_data.simps hex_pairs.simps hex_char_value [OF nibble_small] Cons.IH by (simp only: option.case option.map)
  then show ?case by (simp only: nibbles)
qed simp

lemma length_hexstring [simp]: "length (hexstring_from_data bs) = 2 * length bs"
  by (induction bs) simp_all

lemma hex_pairs_None: "length cs mod 2 = 0 \<Longrightarrow> hex_pairs cs = None \<longleftrightarrow> (\<exists>c\<in>set cs. hex_digit_value c = None)"
proof (induction cs rule: hex_pairs.induct)
  case (1 c d cs)
  then show ?case by (auto split: option.splits)
qed auto

text \<open>
  Hexadecimal strings. The string of data has two digits for each byte and reads back as the data; and reading a
  string raises the exception exactly when its length is odd or a character of it is no hexadecimal digit.
\<close>

theorem hexstring_roundtrip:
  "data_from_hexstring (hexstring_from_data bs) = Some bs \<and>
   (data_from_hexstring cs = None \<longleftrightarrow> odd (length cs) \<or> (\<exists>c\<in>set cs. hex_digit_value c = None))"
proof -
  have "data_from_hexstring (hexstring_from_data bs) = Some bs"
    using hex_pairs_back [of bs] by (cases bs) (auto simp: data_from_hexstring_def)
  moreover have "data_from_hexstring cs = None \<longleftrightarrow> odd (length cs) \<or> (\<exists>c\<in>set cs. hex_digit_value c = None)"
    using hex_pairs_None [of cs] by (auto simp: data_from_hexstring_def odd_iff_mod_2_eq_one)
  ultimately show ?thesis by blast
qed

text \<open>
  \<^verbatim>\<open>murmur3_hash\<close> does not collide on short keys: with one seed, different keys of four bytes have different hashes, on
  either byte order.
\<close>

theorem murmur3_injective:
  assumes "length as = 4" and "length bs = 4"
    and "murmur3_hash_data host (Some as) seed = murmur3_hash_data host (Some bs) seed"
  shows "as = bs"
proof -
  have e: "murmur3 host cs seed = fmix32 (mix_block seed (block_at host cs 0) XOR 4)" if "length cs = 4" for cs
    using that by (simp add: murmur3_def mix_tail_def)
  from assms have "fmix32 (mix_block seed (block_at host as 0) XOR 4) = fmix32 (mix_block seed (block_at host bs 0) XOR 4)"
    by (simp add: murmur3_hash_data_def e)
  then have "mix_block seed (block_at host as 0) XOR 4 = mix_block seed (block_at host bs 0) XOR 4" by (rule fmix32_inj)
  then have "(mix_block seed (block_at host as 0) XOR 4) XOR 4 = (mix_block seed (block_at host bs 0) XOR 4) XOR 4" by simp
  then have "mix_block seed (block_at host as 0) = mix_block seed (block_at host bs 0)" by (simp add: xor.assoc)
  then show ?thesis using block_at_inj [OF assms(1,2)] mix_block_inj by blast
qed

theorem murmur3_injective_witness:
  "murmur3_hash_data True (Some [1, 2, 3, 4]) 7 \<noteq> murmur3_hash_data True (Some [1, 2, 3, 5]) 7"
  using murmur3_injective [of "[1, 2, 3, 4]" "[1, 2, 3, 5]" True 7] by auto

text \<open>
  \<^verbatim>\<open>quick_hash\<close> of data reads the first byte again and again: all data of one length that begin with the same byte have
  the same hash, whatever follows.
\<close>

theorem quick_hash_first_byte:
  assumes "length as = length bs"
  shows "quick_hash_data (a # as) = quick_hash_data (a # bs)"
  using assms by (simp add: quick_hash_data_def)

theorem quick_hash_first_byte_witness: "quick_hash_data [1, 2, 3] = quick_hash_data [1, 9, 7]"
  by (rule quick_hash_first_byte) simp

section \<open>Replacing ends, and what it gives\<close>

text \<open>What replacing means: from left to right, the leftmost occurrences that do not overlap.\<close>

function replace_ref :: "'a list \<Rightarrow> 'a list \<Rightarrow> 'a list \<Rightarrow> 'a list" where
  "replace_ref pat by_this [] = []"
| "replace_ref pat by_this (c # cs) =
     (if pat \<noteq> [] \<and> take (length pat) (c # cs) = pat then by_this @ replace_ref pat by_this (drop (length pat) (c # cs))
      else c # replace_ref pat by_this cs)"
  by pat_completeness auto
termination
proof (relation "measure (\<lambda>(pat, by_this, cs). length cs)")
  fix pat by_this :: "'a list" and c cs
  assume "pat \<noteq> [] \<and> take (length pat) (c # cs) = pat"
  then show "((pat, by_this, drop (length pat) (c # cs)), pat, by_this, c # cs) \<in> measure (\<lambda>(pat, by_this, cs). length cs)"
    by (cases pat) auto
qed simp_all

definition occurs_at :: "'a list \<Rightarrow> 'a list \<Rightarrow> nat \<Rightarrow> bool" where
  "occurs_at pat str i = (take (length pat) (drop i str) = pat)"

lemma occurs_at_fits: "pat \<noteq> [] \<Longrightarrow> occurs_at pat str i \<Longrightarrow> i + length pat \<le> length str"
  by (metis add.commute diff_is_0_eq drop_eq_Nil2 length_drop less_diff_conv linorder_not_le min.absorb_iff2
      min.cobounded2 length_take occurs_at_def take_Nil le_diff_conv2 nat_le_linear)

lemma find_in_range: "List.find P [0..<n] = None \<longleftrightarrow> (\<forall>i<n. \<not> P i)"
  "List.find P [0..<n] = Some i \<longleftrightarrow> i < n \<and> P i \<and> (\<forall>j<i. \<not> P j)"
  by (auto simp: find_None_iff find_Some_iff)

lemma str_find_None: "pat \<noteq> [] \<Longrightarrow> str_find pat str pos = None \<longleftrightarrow> (\<forall>i\<ge>pos. \<not> occurs_at pat str i)"
  unfolding str_find_def find_in_range occurs_at_def [symmetric] by (metis occurs_at_fits add_leE less_Suc_eq_le)

lemma str_find_Some:
  "pat \<noteq> [] \<Longrightarrow>
   str_find pat str pos = Some i \<longleftrightarrow> pos \<le> i \<and> occurs_at pat str i \<and> (\<forall>j. pos \<le> j \<longrightarrow> j < i \<longrightarrow> \<not> occurs_at pat str j)"
  unfolding str_find_def find_in_range occurs_at_def [symmetric] by (metis occurs_at_fits add_leE less_Suc_eq_le)

lemma replace_ref_skip:
  "\<forall>j<k. \<not> occurs_at pat str j \<Longrightarrow> k \<le> length str \<Longrightarrow>
   replace_ref pat by_this str = take k str @ replace_ref pat by_this (drop k str)"
proof (induction k arbitrary: str)
  case (Suc k)
  then obtain c cs where str: "str = c # cs" by (cases str) auto
  from Suc.prems(1) have "\<forall>j<k. \<not> occurs_at pat cs j" unfolding str occurs_at_def by (metis Suc_less_eq drop_Suc_Cons)
  moreover have "take (length pat) (c # cs) \<noteq> pat" using Suc.prems(1) by (auto simp: str occurs_at_def)
  ultimately show ?case using Suc.IH [of cs] Suc.prems(2) by (simp add: str)
qed simp

lemma replace_loop_ref:
  assumes "pat \<noteq> []"
  shows "replace_loop (pre @ str) pat by_this (length pre) = Some (pre @ replace_ref pat by_this str)"
proof (induction "length str" arbitrary: pre str rule: less_induct)
  case less
  have later: "occurs_at pat (pre @ str) (length pre + j) = occurs_at pat str j" for j by (simp add: occurs_at_def)
  show ?case
  proof (cases "str_find pat (pre @ str) (length pre)")
    case None
    then have "\<not> occurs_at pat str j" for j using str_find_None [OF assms] later by (metis le_add1)
    then show ?thesis using None replace_ref_skip [of "length str" pat str by_this] by (simp add: replace_loop.simps [of "pre @ str"])
  next
    case (Some i)
    then obtain k where i: "i = length pre + k" and at: "occurs_at pat str k" and no: "\<forall>j<k. \<not> occurs_at pat str j"
      unfolding str_find_Some [OF assms] by (metis later le_Suc_ex nat_add_left_cancel_less le_add1)
    note fits = occurs_at_fits [OF assms at]
    define rest where "rest = drop (k + length pat) str"
    have "take (length pat) (drop k str) = pat" using at by (simp add: occurs_at_def)
    moreover have "rest = drop (length pat) (drop k str)" by (simp add: rest_def add.commute)
    ultimately have "replace_ref pat by_this (drop k str) = by_this @ replace_ref pat by_this rest"
      using assms fits by (cases "drop k str") auto
    with replace_ref_skip [OF no] fits have ref: "replace_ref pat by_this str = take k str @ by_this @ replace_ref pat by_this rest" by simp
    have "length rest < length str" using assms fits by (cases pat) (auto simp: rest_def)
    from less [OF this, of "pre @ take k str @ by_this"]
    have "replace_loop ((pre @ take k str @ by_this) @ rest) pat by_this (length (pre @ take k str @ by_this)) =
        Some ((pre @ take k str @ by_this) @ replace_ref pat by_this rest)" .
    then show ?thesis using Some fits by (simp add: replace_loop.simps [of "pre @ str"] i ref rest_def min_absorb2 add.assoc)
  qed
qed

text \<open>
  C40. Replacing ends for every pattern but the empty one, and gives the string in which the leftmost occurrences that do
  not overlap are replaced, in all three versions of the function.
\<close>

theorem replace_ends:
  assumes "pat \<noteq> []"
  shows "replace_string str pat by_this = Some (replace_ref pat by_this str) \<and>
    replace_char_string str c by_this = Some (replace_ref [c] by_this str) \<and>
    replace_char str c d = Some (map (\<lambda>x. if x = c then d else x) str)"
proof -
  have "replace_ref [c] [d] xs = map (\<lambda>x. if x = c then d else x) xs" for xs by (induction xs) auto
  then show ?thesis
    using replace_loop_ref [OF assms, of "[]" str by_this] replace_loop_ref [of "[c]" "[]" str by_this] replace_loop_ref [of "[c]" "[]" str "[d]"]
    by (simp add: replace_string_def replace_char_string_def replace_char_def)
qed

theorem replace_ends_witness: "replace_string ''aaab'' ''aa'' ''a'' = Some ''aab''"
  using replace_ends [of "''aa''" "''aaab''" "''a''"] by simp

lemma replace_empty_raw:
  assumes "replace_loop str pat by_this pos = Some r"
  shows "pat = [] \<longrightarrow> length str < pos"
proof (rule replace_loop.raw_induct [where P = "\<lambda>str pat by_this pos r. pat = [] \<longrightarrow> length str < pos", OF _ assms])
  fix loop :: "'a list \<Rightarrow> 'a list \<Rightarrow> 'a list \<Rightarrow> nat \<Rightarrow> 'a list option" and str pat by_this :: "'a list" and pos r
  assume step: "\<And>str pat by_this pos r. loop str pat by_this pos = Some r \<Longrightarrow> pat = [] \<longrightarrow> length str < pos"
    "(case str_find pat str pos of None \<Rightarrow> Some str
      | Some i \<Rightarrow> loop (take i str @ by_this @ drop (i + length pat) str) pat by_this (i + length by_this)) = Some r"
  show "pat = [] \<longrightarrow> length str < pos"
  proof (intro impI, rule ccontr)
    assume p: "pat = []" "\<not> length str < pos"
    then have "str_find pat str pos = Some pos" unfolding str_find_def find_in_range by auto
    with step(2) have "loop (take pos str @ by_this @ drop (pos + length pat) str) pat by_this (pos + length by_this) = Some r"
      by simp
    from step(1) [OF this] p show False by (simp add: min_def split: if_splits)
  qed
qed

text \<open>With the empty pattern, \<^verbatim>\<open>replace\<close> returns for no string at all.\<close>

theorem replace_nothing_never_ends: "replace_string str [] by_this = None"
  using replace_empty_raw [of str "[]" by_this 0] by (cases "replace_string str [] by_this") (auto simp: replace_string_def)

section \<open>Splitting\<close>

fun join :: "'a \<Rightarrow> 'a list list \<Rightarrow> 'a list" where
  "join d [] = []"
| "join d [x] = x"
| "join d (x # y # xs) = x @ d # join d (y # xs)"

lemma join_Cons: "xs \<noteq> [] \<Longrightarrow> join d (x # xs) = x @ d # join d xs"
  by (cases xs) simp_all

lemma dropWhile_head: "dropWhile P xs = y # ys \<Longrightarrow> \<not> P y \<and> takeWhile P xs @ y # ys = xs"
  by (metis hd_dropWhile list.distinct(1) list.sel(1) takeWhile_dropWhile_id)

lemma split_rest_nonempty [simp]: "split_rest delim str limit \<noteq> []"
  by (subst split_rest.simps) (simp split: list.split)

lemma split_rest_cases:
  obtains "\<forall>c\<in>set str. \<not> delim c" "split_rest delim str limit = [str]"
  | x d rest where "str = x @ d # rest" "\<forall>c\<in>set x. \<not> delim c" "delim d"
      "split_rest delim str limit = x # (if limit - 1 = 1 then [rest] else split_rest delim rest (limit - 1))"
proof (cases "dropWhile (\<lambda>c. \<not> delim c) str")
  case Nil
  with that(1) show thesis by (simp add: dropWhile_eq_Nil_conv split_rest.simps [of delim str])
next
  case (Cons d rest)
  from dropWhile_head [OF Cons] show thesis
    by (intro that(2) [of "takeWhile (\<lambda>c. \<not> delim c) str" d rest])
      (auto simp: Cons split_rest.simps [of delim str] dest: set_takeWhileD)
qed

lemma split_joins: "join d (split_rest (\<lambda>c. c = d) str limit) = str"
proof (induction "length str" arbitrary: str limit rule: less_induct)
  case less
  show ?case by (rule split_rest_cases [of str "\<lambda>c. c = d" limit]) (use less in \<open>auto simp: join_Cons\<close>)
qed

lemma split_at_most: "2 \<le> limit \<Longrightarrow> length (split_rest delim str limit) \<le> unat limit"
proof (induction "length str" arbitrary: str limit rule: less_induct)
  case less
  from less.prems have limit: "unat (limit - 1) = unat limit - 1" "2 \<le> unat limit"
    by (auto simp: word_le_nat_alt unat_sub_if_size)
  show ?case
  proof (rule split_rest_cases [of str delim limit])
    fix x d rest
    assume s: "str = x @ d # rest"
      "split_rest delim str limit = x # (if limit - 1 = 1 then [rest] else split_rest delim rest (limit - 1))"
    have "length (split_rest delim rest (limit - 1)) \<le> unat (limit - 1)" if "limit - 1 \<noteq> 1"
    proof (rule less.hyps)
      have "unat (limit - 1) \<noteq> 1" using that by (metis unat_1 word_unat_eq_iff)
      then show "2 \<le> limit - 1" using limit by (simp add: word_le_nat_alt)
    qed (simp add: s)
    with limit s(2) show ?thesis by auto
  qed (use limit in simp)
qed

lemma split_whole: "length str + 2 < unat limit \<Longrightarrow> \<forall>x\<in>set (split_rest delim str limit). \<forall>c\<in>set x. \<not> delim c"
proof (induction "length str" arbitrary: str limit rule: less_induct)
  case less
  from less.prems have limit: "unat (limit - 1) = unat limit - 1" by (auto simp: unat_sub_if_size)
  then have "limit - 1 \<noteq> 1" using less.prems by auto
  show ?case
  proof (rule split_rest_cases [of str delim limit])
    fix x d rest
    assume s: "str = x @ d # rest" "\<forall>c\<in>set x. \<not> delim c"
      "split_rest delim str limit = x # (if limit - 1 = 1 then [rest] else split_rest delim rest (limit - 1))"
    then show ?thesis using less.hyps [of rest "limit - 1"] less.prems limit \<open>limit - 1 \<noteq> 1\<close> by auto
  qed simp
qed

text \<open>
  Splitting. The pieces with the delimiter between them are the string again, and with a limit of two or more there
  are at most that many.
\<close>

theorem split_pieces:
  "join d (split_char str d limit) = str \<and> (2 \<le> limit \<longrightarrow> length (split_char str d limit) \<le> unat limit)"
  using split_joins [of d str limit] split_at_most [of limit "\<lambda>c. c = d" str] by (auto simp: split_char_def)

theorem split_pieces_witness: "length (split_char ''a,b,c,d'' (CHR '','') 3) \<le> 3"
  using split_pieces [of "CHR '',''" "''a,b,c,d''" 3] by simp

text \<open>
  A limit of one is no limit: the counter passes one before it is looked at, and the string is split at every
  delimiter, as with the limit zero that is meant to say so.
\<close>

theorem split_one_is_unlimited:
  assumes "length str + 4 < 2 ^ 64" and "limit \<le> 1" and "x \<in> set (split_char str d limit)"
  shows "d \<notin> set x"
proof -
  have big: "unat (- 1 :: u64) = 2 ^ 64 - 1" by (simp add: unsigned_minus_1_eq_mask mask_eq_exp_minus_1)
  have zero: "\<forall>x\<in>set (split_rest (\<lambda>c. c = d) s 0). \<forall>c\<in>set x. c \<noteq> d" if "length s + 4 < 2 ^ 64" for s
  proof (rule split_rest_cases [of s "\<lambda>c. c = d" 0])
    fix x e rest
    assume s: "s = x @ e # rest" "\<forall>c\<in>set x. c \<noteq> d"
      "split_rest (\<lambda>c. c = d) s 0 = x # (if (0 :: u64) - 1 = 1 then [rest] else split_rest (\<lambda>c. c = d) rest (0 - 1))"
    have "length rest + 2 < unat (- 1 :: u64)" using that unfolding big by (simp add: s(1))
    from split_whole [OF this, of "\<lambda>c. c = d"] s(2,3) show ?thesis by simp
  qed simp
  have "limit = 0 \<or> limit = 1" using assms(2) by (metis unat_0 unat_1 unat_eq_0 le_Suc_eq One_nat_def le_zero_eq word_le_nat_alt word_unat_eq_iff)
  moreover have "\<forall>x\<in>set (split_rest (\<lambda>c. c = d) str 1). \<forall>c\<in>set x. c \<noteq> d"
  proof (rule split_rest_cases [of str "\<lambda>c. c = d" 1])
    fix x e rest
    assume s: "str = x @ e # rest" "\<forall>c\<in>set x. c \<noteq> d"
      "split_rest (\<lambda>c. c = d) str 1 = x # (if (1 :: u64) - 1 = 1 then [rest] else split_rest (\<lambda>c. c = d) rest (1 - 1))"
    have "length rest + 4 < 2 ^ 64" using assms(1) by (simp add: s(1))
    from zero [OF this] s(2,3) show ?thesis by simp
  qed simp
  moreover have "x \<in> set (split_rest (\<lambda>c. c = d) str limit)" using assms(3) by (simp add: split_char_def split: if_splits)
  ultimately show ?thesis using zero [OF assms(1)] by metis
qed

theorem split_one_is_unlimited_witness: "CHR '','' \<notin> set ''b''"
proof -
  have "split_char ''a,b'' (CHR '','') 1 = [''a'', ''b'']"
    by (simp add: split_char_def split_rest.simps [of _ "''a,b''" 1] split_rest.simps [of _ "''b''" 0])
  then have "''b'' \<in> set (split_char ''a,b'' (CHR '','') 1)" by simp
  from split_one_is_unlimited [OF _ _ this] show ?thesis by simp
qed

end
