(* ===== verification/MySql.thy ===== *)
theory MySql
  imports Bytes
begin

text \<open>
  \<open>ancfl/db/mysql.cc\<close>: connections, prepared statements, their results, transactions and the pool. The client library of
  MySQL is a parameter, the record \<open>libmysql\<close>: \<open>'c\<close> is an open connection, \<open>'r\<close> a row as the library keeps it, \<open>'m\<close>
  what the library and the servers hold. Its integers are those of the library: zero is success.
\<close>

type_synonym params = "(string \<times> string) list"

datatype field_type = MYSQL_TYPE_DECIMAL | MYSQL_TYPE_TINY | MYSQL_TYPE_SHORT | MYSQL_TYPE_LONG | MYSQL_TYPE_LONGLONG
  | MYSQL_TYPE_FLOAT | MYSQL_TYPE_DOUBLE | MYSQL_TYPE_NULL | MYSQL_TYPE_TIMESTAMP | MYSQL_TYPE_DATETIME | MYSQL_TYPE_DATE
  | MYSQL_TYPE_TIME | MYSQL_TYPE_STRING | MYSQL_TYPE_VAR_STRING | MYSQL_TYPE_BLOB

text \<open>A parameter of a statement; its buffer is a block from \<^verbatim>\<open>malloc\<close>. A cell of a result, \<^verbatim>\<open>MySQLStmtRes::Data\<close>.\<close>

record MYSQL_BIND =
  buffer_type :: field_type
  buffer :: "byte list option"
  is_unsigned :: bool
  buffer_length :: nat

record cell =
  cell_type :: field_type
  is_null :: bool
  error :: bool
  real_length :: nat
  cell_data :: "byte list"

record ('c, 'r, 'm) libmysql =
  lexical_cast :: "string \<Rightarrow> int option"
  real_connect :: "string \<Rightarrow> string \<Rightarrow> string \<Rightarrow> string \<Rightarrow> int \<Rightarrow> 'm \<Rightarrow> 'c option \<times> 'm"
  mysql_ping :: "'c \<Rightarrow> 'm \<Rightarrow> int \<times> 'm"
  mysql_query :: "'c \<Rightarrow> string \<Rightarrow> 'm \<Rightarrow> int \<times> 'm"
  store_result :: "'c \<Rightarrow> 'm \<Rightarrow> 'r list option \<times> 'm"
  select_db :: "'c \<Rightarrow> string \<Rightarrow> 'm \<Rightarrow> int \<times> 'm"
  insert_id :: "'c \<Rightarrow> 'm \<Rightarrow> u64"
  affected_rows :: "'c \<Rightarrow> 'm \<Rightarrow> u64"
  stmt_init :: "'c \<Rightarrow> 'm \<Rightarrow> bool \<times> 'm"
  stmt_prepare :: "'c \<Rightarrow> string \<Rightarrow> 'm \<Rightarrow> int \<times> 'm"
  param_count :: "'c \<Rightarrow> string \<Rightarrow> 'm \<Rightarrow> nat"
  bind_errno :: "'c \<Rightarrow> string \<Rightarrow> MYSQL_BIND list \<Rightarrow> 'm \<Rightarrow> int"
  stmt_execute :: "'c \<Rightarrow> string \<Rightarrow> MYSQL_BIND list \<Rightarrow> 'm \<Rightarrow> int \<times> 'm"
  result_metadata :: "'c \<Rightarrow> string \<Rightarrow> 'm \<Rightarrow> (field_type \<times> nat) list option"
  bind_result :: "'c \<Rightarrow> string \<Rightarrow> cell list \<Rightarrow> 'm \<Rightarrow> int"
  stmt_store_result :: "'c \<Rightarrow> string \<Rightarrow> 'm \<Rightarrow> int \<times> 'r list \<times> 'm"
  stmt_fetch :: "'r \<Rightarrow> cell list \<Rightarrow> cell list \<times> int"

text \<open>\<^verbatim>\<open>GetParamValue\<close> of \<open>ancfl/util.h\<close>: a value that does not convert counts as missing.\<close>

definition param_text :: "params \<Rightarrow> string \<Rightarrow> string" where
  "param_text ps k = (case map_of ps k of None \<Rightarrow> '''' | Some v \<Rightarrow> v)"

definition param_int :: "('c, 'r, 'm) libmysql \<Rightarrow> params \<Rightarrow> string \<Rightarrow> int \<Rightarrow> int" where
  "param_int lib ps k d =
     (case map_of ps k of
        None \<Rightarrow> d
      | Some v \<Rightarrow> (case lexical_cast lib v of None \<Rightarrow> d | Some n \<Rightarrow> n))"

section \<open>Connections\<close>

record 'c MySQL =
  m_params :: params
  m_mysql :: "'c option"
  m_cmd :: string
  m_dbname :: string
  m_lastUsedTime :: u64
  m_hasError :: bool
  m_poolSize :: i32

definition new_MySQL :: "params \<Rightarrow> 'c MySQL" where
  "new_MySQL ps =
     \<lparr>m_params = ps, m_mysql = None, m_cmd = '''', m_dbname = '''', m_lastUsedTime = 0, m_hasError = False, m_poolSize = 10\<rparr>"

definition mysql_init :: "('c, 'r, 'm) libmysql \<Rightarrow> params \<Rightarrow> 'm \<Rightarrow> 'c option \<times> 'm" where
  "mysql_init lib ps =
     real_connect lib (param_text ps ''host'') (param_text ps ''user'') (param_text ps ''passwd'') (param_text ps ''dbname'')
       (param_int lib ps ''port'' 0)"

definition connect :: "('c, 'r, 'm) libmysql \<Rightarrow> 'c MySQL \<Rightarrow> 'm \<Rightarrow> bool \<times> 'c MySQL \<times> 'm" where
  "connect lib q m =
     (if m_mysql q \<noteq> None \<and> \<not> m_hasError q then (True, q, m)
      else case mysql_init lib (m_params q) m of
        (None, m') \<Rightarrow> (False, q\<lparr>m_hasError := True\<rparr>, m')
      | (Some c, m') \<Rightarrow>
          (True, q\<lparr>m_hasError := False, m_poolSize := param_int lib (m_params q) ''pool'' 5, m_mysql := Some c\<rparr>, m'))"

text \<open>The difference of the times is unsigned, since \<^verbatim>\<open>m_lastUsedTime\<close> is.\<close>

definition isNeedCheck :: "time_t \<Rightarrow> 'c MySQL \<Rightarrow> bool" where
  "isNeedCheck now q \<longleftrightarrow> \<not> (word_of_int now - m_lastUsedTime q < 5 \<and> \<not> m_hasError q)"

definition ping :: "('c, 'r, 'm) libmysql \<Rightarrow> 'c MySQL \<Rightarrow> 'm \<Rightarrow> bool \<times> 'c MySQL \<times> 'm" where
  "ping lib q m =
     (case m_mysql q of
        None \<Rightarrow> (False, q, m)
      | Some c \<Rightarrow>
          let (e, m') = mysql_ping lib c m in (e = 0, q\<lparr>m_hasError := e \<noteq> 0\<rparr>, m'))"

text \<open>Statements of text. A handle that is null goes to the library as it is.\<close>

definition execute :: "('c, 'r, 'm) libmysql \<Rightarrow> string \<Rightarrow> 'c MySQL \<Rightarrow> 'm \<Rightarrow> (int \<times> 'c MySQL \<times> 'm) outcome" where
  "execute lib sql q m =
     (case m_mysql q of
        None \<Rightarrow> Fault NullPointer
      | Some c \<Rightarrow>
          let (e, m') = mysql_query lib c sql m in Ret (e, q\<lparr>m_cmd := sql, m_hasError := e \<noteq> 0\<rparr>, m'))"

definition my_mysql_query :: "('c, 'r, 'm) libmysql \<Rightarrow> 'c option \<Rightarrow> string \<Rightarrow> 'm \<Rightarrow> 'r list option \<times> 'm" where
  "my_mysql_query lib h sql m =
     (case h of
        None \<Rightarrow> (None, m)
      | Some c \<Rightarrow> let (e, m') = mysql_query lib c sql m in if e \<noteq> 0 then (None, m') else store_result lib c m')"

definition query :: "('c, 'r, 'm) libmysql \<Rightarrow> string \<Rightarrow> 'c MySQL \<Rightarrow> 'm \<Rightarrow> 'r list option \<times> 'c MySQL \<times> 'm" where
  "query lib sql q m =
     (let (res, m') = my_mysql_query lib (m_mysql q) sql m in (res, q\<lparr>m_cmd := sql, m_hasError := res = None\<rparr>, m'))"

definition use_db :: "('c, 'r, 'm) libmysql \<Rightarrow> string \<Rightarrow> 'c MySQL \<Rightarrow> 'm \<Rightarrow> bool \<times> 'c MySQL \<times> 'm" where
  "use_db lib name q m =
     (case m_mysql q of
        None \<Rightarrow> (False, q, m)
      | Some c \<Rightarrow>
          if m_dbname q = name then (True, q, m)
          else let (e, m') = select_db lib c name m in
            if e = 0 then (True, q\<lparr>m_dbname := name, m_hasError := False\<rparr>, m')
            else (False, q\<lparr>m_dbname := '''', m_hasError := True\<rparr>, m'))"

definition getLastInsertId :: "('c, 'r, 'm) libmysql \<Rightarrow> 'c MySQL \<Rightarrow> 'm \<Rightarrow> u64 outcome" where
  "getLastInsertId lib q m = (case m_mysql q of None \<Rightarrow> Fault NullPointer | Some c \<Rightarrow> Ret (insert_id lib c m))"

definition getInsertId :: "('c, 'r, 'm) libmysql \<Rightarrow> 'c MySQL \<Rightarrow> 'm \<Rightarrow> u64" where
  "getInsertId lib q m = (case m_mysql q of None \<Rightarrow> 0 | Some c \<Rightarrow> insert_id lib c m)"

definition getAffectedRows :: "('c, 'r, 'm) libmysql \<Rightarrow> 'c MySQL \<Rightarrow> 'm \<Rightarrow> u64" where
  "getAffectedRows lib q m = (case m_mysql q of None \<Rightarrow> 0 | Some c \<Rightarrow> affected_rows lib c m)"

section \<open>Prepared statements\<close>

record 'c MySQLStmt =
  stmt_conn :: 'c
  stmt_sql :: string
  m_binds :: "MYSQL_BIND list"

definition no_bind :: MYSQL_BIND where
  "no_bind = \<lparr>buffer_type = MYSQL_TYPE_DECIMAL, buffer = None, is_unsigned = False, buffer_length = 0\<rparr>"

definition stmt_Create :: "('c, 'r, 'm) libmysql \<Rightarrow> 'c MySQL \<Rightarrow> string \<Rightarrow> 'm \<Rightarrow> ('c MySQLStmt option \<times> 'm) outcome" where
  "stmt_Create lib q sql m =
     (case m_mysql q of
        None \<Rightarrow> Fault NullPointer
      | Some c \<Rightarrow>
          let (ok, m') = stmt_init lib c m in
          if \<not> ok then Ret (None, m')
          else let (e, m'') = stmt_prepare lib c sql m' in
            if e \<noteq> 0 then Ret (None, m'')
            else Ret (Some \<lparr>stmt_conn = c, stmt_sql = sql, m_binds = replicate (param_count lib c sql m'') no_bind\<rparr>, m''))"

text \<open>
  \<^verbatim>\<open>m_binds[idx - 1]\<close>; \<^verbatim>\<open>BIND_COPY\<close> allocates a missing buffer and copies into it, so a value longer than the one bound
  before is written past its end; \<^verbatim>\<open>BIND_COPY_LEN\<close> takes a new buffer for a longer value.
\<close>

definition with_bind :: "i32 \<Rightarrow> (MYSQL_BIND \<Rightarrow> MYSQL_BIND outcome) \<Rightarrow> 'c MySQLStmt \<Rightarrow> 'c MySQLStmt outcome" where
  "with_bind idx f st =
     (if 1 \<le> idx \<and> idx \<le> int (length (m_binds st))
      then bindO (f (m_binds st ! nat (idx - 1))) (\<lambda>b. Ret (st\<lparr>m_binds := (m_binds st)[nat (idx - 1) := b]\<rparr>))
      else Fault OutOfRange)"

definition BIND_COPY :: "byte list \<Rightarrow> MYSQL_BIND \<Rightarrow> MYSQL_BIND outcome" where
  "BIND_COPY bs b =
     (case buffer b of
        None \<Rightarrow> Ret (b\<lparr>buffer := Some bs\<rparr>)
      | Some old \<Rightarrow>
          if length old < length bs then Fault OutOfRange
          else Ret (b\<lparr>buffer := Some (bs @ drop (length bs) old)\<rparr>))"

definition BIND_COPY_LEN :: "byte list \<Rightarrow> MYSQL_BIND \<Rightarrow> MYSQL_BIND outcome" where
  "BIND_COPY_LEN bs b =
     (case buffer b of
        None \<Rightarrow> Ret (b\<lparr>buffer := Some bs, buffer_length := length bs\<rparr>)
      | Some old \<Rightarrow>
          if buffer_length b < length bs then Ret (b\<lparr>buffer := Some bs, buffer_length := length bs\<rparr>)
          else if length old < length bs then Fault OutOfRange
          else Ret (b\<lparr>buffer := Some (bs @ drop (length bs) old), buffer_length := length bs\<rparr>))"

definition bind_number :: "field_type \<Rightarrow> bool \<Rightarrow> byte list \<Rightarrow> i32 \<Rightarrow> 'c MySQLStmt \<Rightarrow> 'c MySQLStmt outcome" where
  "bind_number t uns bs idx =
     with_bind idx (\<lambda>b. bindO (BIND_COPY bs (b\<lparr>buffer_type := t\<rparr>)) (\<lambda>b.
       Ret (b\<lparr>is_unsigned := uns, buffer_length := length bs\<rparr>)))"

definition bindInt8 :: "bool \<Rightarrow> i32 \<Rightarrow> int \<Rightarrow> 'c MySQLStmt \<Rightarrow> 'c MySQLStmt outcome" where
  "bindInt8 host idx v = bind_number MYSQL_TYPE_TINY False (int_bytes host 1 v) idx"

definition bindUint8 :: "bool \<Rightarrow> i32 \<Rightarrow> int \<Rightarrow> 'c MySQLStmt \<Rightarrow> 'c MySQLStmt outcome" where
  "bindUint8 host idx v = bind_number MYSQL_TYPE_TINY True (int_bytes host 1 v) idx"

definition bindInt16 :: "bool \<Rightarrow> i32 \<Rightarrow> int \<Rightarrow> 'c MySQLStmt \<Rightarrow> 'c MySQLStmt outcome" where
  "bindInt16 host idx v = bind_number MYSQL_TYPE_SHORT False (int_bytes host 2 v) idx"

definition bindUint16 :: "bool \<Rightarrow> i32 \<Rightarrow> int \<Rightarrow> 'c MySQLStmt \<Rightarrow> 'c MySQLStmt outcome" where
  "bindUint16 host idx v = bind_number MYSQL_TYPE_SHORT True (int_bytes host 2 v) idx"

definition bindInt32 :: "bool \<Rightarrow> i32 \<Rightarrow> int \<Rightarrow> 'c MySQLStmt \<Rightarrow> 'c MySQLStmt outcome" where
  "bindInt32 host idx v = bind_number MYSQL_TYPE_LONG False (int_bytes host 4 v) idx"

definition bindUint32 :: "bool \<Rightarrow> i32 \<Rightarrow> int \<Rightarrow> 'c MySQLStmt \<Rightarrow> 'c MySQLStmt outcome" where
  "bindUint32 host idx v = bind_number MYSQL_TYPE_LONG True (int_bytes host 4 v) idx"

definition bindInt64 :: "bool \<Rightarrow> i32 \<Rightarrow> int \<Rightarrow> 'c MySQLStmt \<Rightarrow> 'c MySQLStmt outcome" where
  "bindInt64 host idx v = bind_number MYSQL_TYPE_LONGLONG False (int_bytes host 8 v) idx"

definition bindUint64 :: "bool \<Rightarrow> i32 \<Rightarrow> int \<Rightarrow> 'c MySQLStmt \<Rightarrow> 'c MySQLStmt outcome" where
  "bindUint64 host idx v = bind_number MYSQL_TYPE_LONGLONG True (int_bytes host 8 v) idx"

text \<open>Numbers of floating point are their bit patterns; the sign flag keeps its value.\<close>

definition bind_float :: "field_type \<Rightarrow> byte list \<Rightarrow> i32 \<Rightarrow> 'c MySQLStmt \<Rightarrow> 'c MySQLStmt outcome" where
  "bind_float t bs idx =
     with_bind idx (\<lambda>b. bindO (BIND_COPY bs (b\<lparr>buffer_type := t\<rparr>)) (\<lambda>b. Ret (b\<lparr>buffer_length := length bs\<rparr>)))"

definition bindFloat :: "bool \<Rightarrow> i32 \<Rightarrow> f32bits \<Rightarrow> 'c MySQLStmt \<Rightarrow> 'c MySQLStmt outcome" where
  "bindFloat host idx w = bind_float MYSQL_TYPE_FLOAT (in_memory host 4 (unat w)) idx"

definition bindDouble :: "bool \<Rightarrow> i32 \<Rightarrow> u64 \<Rightarrow> 'c MySQLStmt \<Rightarrow> 'c MySQLStmt outcome" where
  "bindDouble host idx w = bind_float MYSQL_TYPE_DOUBLE (in_memory host 8 (unat w)) idx"

definition bindString :: "i32 \<Rightarrow> byte list \<Rightarrow> 'c MySQLStmt \<Rightarrow> 'c MySQLStmt outcome" where
  "bindString idx bs = with_bind idx (\<lambda>b. BIND_COPY_LEN bs (b\<lparr>buffer_type := MYSQL_TYPE_STRING\<rparr>))"

definition bindBlob :: "i32 \<Rightarrow> byte list \<Rightarrow> 'c MySQLStmt \<Rightarrow> 'c MySQLStmt outcome" where
  "bindBlob idx bs = with_bind idx (\<lambda>b. BIND_COPY_LEN bs (b\<lparr>buffer_type := MYSQL_TYPE_BLOB\<rparr>))"

definition bindNull :: "i32 \<Rightarrow> 'c MySQLStmt \<Rightarrow> 'c MySQLStmt outcome" where
  "bindNull idx = with_bind idx (\<lambda>b. Ret (b\<lparr>buffer_type := MYSQL_TYPE_NULL\<rparr>))"

definition stmt_run :: "('c, 'r, 'm) libmysql \<Rightarrow> 'c MySQLStmt \<Rightarrow> 'm \<Rightarrow> int \<times> 'm" where
  "stmt_run lib st m = stmt_execute lib (stmt_conn st) (stmt_sql st) (m_binds st) m"

section \<open>Results\<close>

text \<open>
  \<open>res_cells\<close> are the buffers the rows are fetched into, \<open>res_rows\<close> the rows still to come. A \<^verbatim>\<open>MYSQL_TIME\<close> has 40 bytes on a
  machine of 64 bits.
\<close>

record 'r MySQLStmtRes =
  res_errno :: int
  res_cells :: "cell list"
  res_rows :: "'r list"

definition cell_size :: "field_type \<Rightarrow> nat \<Rightarrow> nat" where
  "cell_size t len =
     (case t of
        MYSQL_TYPE_TINY \<Rightarrow> 1 | MYSQL_TYPE_SHORT \<Rightarrow> 2 | MYSQL_TYPE_LONG \<Rightarrow> 4 | MYSQL_TYPE_LONGLONG \<Rightarrow> 8
      | MYSQL_TYPE_FLOAT \<Rightarrow> 4 | MYSQL_TYPE_DOUBLE \<Rightarrow> 8
      | MYSQL_TYPE_TIMESTAMP \<Rightarrow> 40 | MYSQL_TYPE_DATETIME \<Rightarrow> 40 | MYSQL_TYPE_DATE \<Rightarrow> 40 | MYSQL_TYPE_TIME \<Rightarrow> 40
      | _ \<Rightarrow> len)"

definition alloc :: "field_type \<times> nat \<Rightarrow> cell" where
  "alloc f =
     (let n = cell_size (fst f) (snd f) in
      \<lparr>cell_type = fst f, is_null = False, error = False, real_length = n, cell_data = replicate n 0\<rparr>)"

text \<open>A result without columns has no rows to fetch. What \<^verbatim>\<open>execute\<close> answers is not looked at.\<close>

definition stmt_query :: "('c, 'r, 'm) libmysql \<Rightarrow> 'c MySQLStmt \<Rightarrow> 'm \<Rightarrow> 'r MySQLStmtRes \<times> 'm" where
  "stmt_query lib st m =
     (let c = stmt_conn st; sql = stmt_sql st; e = bind_errno lib c sql (m_binds st) m;
          none = \<lparr>res_errno = e, res_cells = [], res_rows = []\<rparr> in
      if e \<noteq> 0 then (none, m)
      else case result_metadata lib c sql m of
        None \<Rightarrow> (none, m)
      | Some cols \<Rightarrow>
          let cells = map alloc cols in
          if bind_result lib c sql cells m \<noteq> 0 then (none, m)
          else
            let (_, m') = stmt_run lib st m;
                (s, rows, m'') = stmt_store_result lib c sql m' in
            if s \<noteq> 0 then (none, m'') else (\<lparr>res_errno = 0, res_cells = cells, res_rows = rows\<rparr>, m''))"

definition next_row :: "('c, 'r, 'm) libmysql \<Rightarrow> 'r MySQLStmtRes \<Rightarrow> bool \<times> 'r MySQLStmtRes" where
  "next_row lib res =
     (case res_rows res of
        [] \<Rightarrow> (False, res)
      | r # rs \<Rightarrow>
          let (cells, e) = stmt_fetch lib r (res_cells res) in (e = 0, res\<lparr>res_cells := cells, res_rows := rs\<rparr>))"

text \<open>\<^verbatim>\<open>*(type*)m_datas[idx].data\<close> reads as many bytes as the type has, whatever the buffer has.\<close>

definition get_int :: "nat \<Rightarrow> bool \<Rightarrow> 'r MySQLStmtRes \<Rightarrow> nat \<Rightarrow> int outcome" where
  "get_int n host res idx =
     (if idx < length (res_cells res) \<and> n \<le> length (cell_data (res_cells res ! idx))
      then Ret (bytes_int host (take n (cell_data (res_cells res ! idx))))
      else Fault OutOfRange)"

definition getInt8 :: "bool \<Rightarrow> 'r MySQLStmtRes \<Rightarrow> nat \<Rightarrow> int outcome" where "getInt8 = get_int 1"
definition getInt16 :: "bool \<Rightarrow> 'r MySQLStmtRes \<Rightarrow> nat \<Rightarrow> int outcome" where "getInt16 = get_int 2"
definition getInt32 :: "bool \<Rightarrow> 'r MySQLStmtRes \<Rightarrow> nat \<Rightarrow> int outcome" where "getInt32 = get_int 4"
definition getInt64 :: "bool \<Rightarrow> 'r MySQLStmtRes \<Rightarrow> nat \<Rightarrow> int outcome" where "getInt64 = get_int 8"

definition getString :: "'r MySQLStmtRes \<Rightarrow> nat \<Rightarrow> string outcome" where
  "getString res idx =
     (if idx < length (res_cells res) \<and> real_length (res_cells res ! idx) \<le> length (cell_data (res_cells res ! idx))
      then Ret (text_of (take (real_length (res_cells res ! idx)) (cell_data (res_cells res ! idx))))
      else Fault OutOfRange)"

section \<open>Transactions\<close>

record 'c MySQLTransaction =
  trans_db :: "'c MySQL"
  m_autoCommit :: bool
  m_isFinished :: bool
  trans_hasError :: bool

definition trans_execute ::
  "('c, 'r, 'm) libmysql \<Rightarrow> string \<Rightarrow> 'c MySQLTransaction \<Rightarrow> 'm \<Rightarrow> (int \<times> 'c MySQLTransaction \<times> 'm) outcome" where
  "trans_execute lib sql t m =
     (if m_isFinished t then Ret (- 1, t, m)
      else bindO (execute lib sql (trans_db t) m) (\<lambda>(e, q, m').
        Ret (e, t\<lparr>trans_db := q, trans_hasError := trans_hasError t \<or> e \<noteq> 0\<rparr>, m')))"

definition trans_begin ::
  "('c, 'r, 'm) libmysql \<Rightarrow> 'c MySQLTransaction \<Rightarrow> 'm \<Rightarrow> (bool \<times> 'c MySQLTransaction \<times> 'm) outcome" where
  "trans_begin lib t m = bindO (trans_execute lib ''BEGIN'' t m) (\<lambda>(e, t', m'). Ret (e = 0, t', m'))"

definition commit ::
  "('c, 'r, 'm) libmysql \<Rightarrow> 'c MySQLTransaction \<Rightarrow> 'm \<Rightarrow> (bool \<times> 'c MySQLTransaction \<times> 'm) outcome" where
  "commit lib t m =
     (if m_isFinished t \<or> trans_hasError t then Ret (\<not> trans_hasError t, t, m)
      else bindO (trans_execute lib ''COMMIT'' t m) (\<lambda>(e, t', m').
        if e = 0 then Ret (True, t'\<lparr>m_isFinished := True\<rparr>, m') else Ret (False, t'\<lparr>trans_hasError := True\<rparr>, m')))"

definition rollback ::
  "('c, 'r, 'm) libmysql \<Rightarrow> 'c MySQLTransaction \<Rightarrow> 'm \<Rightarrow> (bool \<times> 'c MySQLTransaction \<times> 'm) outcome" where
  "rollback lib t m =
     (if m_isFinished t then Ret (True, t, m)
      else bindO (trans_execute lib ''ROLLBACK'' t m) (\<lambda>(e, t', m').
        if e = 0 then Ret (True, t'\<lparr>m_isFinished := True\<rparr>, m') else Ret (False, t'\<lparr>trans_hasError := True\<rparr>, m')))"

text \<open>The constructor with \<^verbatim>\<open>begin\<close>, and the destructor. An object whose \<^verbatim>\<open>begin\<close> fails is dropped at once.\<close>

definition close_trans ::
  "('c, 'r, 'm) libmysql \<Rightarrow> 'c MySQLTransaction \<Rightarrow> 'm \<Rightarrow> ('c MySQL \<times> 'm) outcome" where
  "close_trans lib t m =
     bindO (if m_autoCommit t then commit lib t m else rollback lib t m) (\<lambda>(_, t', m'). Ret (trans_db t', m'))"

definition trans_Create ::
  "('c, 'r, 'm) libmysql \<Rightarrow> bool \<Rightarrow> 'c MySQL \<Rightarrow> 'm \<Rightarrow> (('c MySQLTransaction + 'c MySQL) \<times> 'm) outcome" where
  "trans_Create lib auto q m =
     bindO (trans_begin lib \<lparr>trans_db = q, m_autoCommit = auto, m_isFinished = False, trans_hasError = False\<rparr> m) (\<lambda>(ok, t, m').
       if ok then Ret (Inl t, m') else bindO (close_trans lib t m') (\<lambda>(q', m''). Ret (Inr q', m'')))"

section \<open>The pool\<close>

text \<open>
  \<open>config\<close> is what the configuration names, \<open>now\<close> the clock in a call. A connection that is handed out belongs to its
  user until \<^verbatim>\<open>freeMySQL\<close>, the deleter of its pointer, gets it back.
\<close>

record 'c MySQLManager =
  m_conns :: "(string \<times> 'c MySQL list) list"
  m_dbDefines :: "(string \<times> params) list"

definition manager_init :: "'c MySQLManager" where
  "manager_init = \<lparr>m_conns = [], m_dbDefines = []\<rparr>"

definition used_now :: "time_t \<Rightarrow> 'c MySQL \<Rightarrow> 'c MySQL" where
  "used_now now q = q\<lparr>m_lastUsedTime := word_of_int now\<rparr>"

definition get ::
  "('c, 'r, 'm) libmysql \<Rightarrow> (string \<times> params) list \<Rightarrow> time_t \<Rightarrow> string \<Rightarrow> 'c MySQLManager \<Rightarrow> 'm \<Rightarrow>
   'c MySQL option \<times> 'c MySQLManager \<times> 'm" where
  "get lib config now name s m =
     (case entry (m_conns s) name of
        q # qs \<Rightarrow>
          let s' = s\<lparr>m_conns := AList.update name qs (m_conns s)\<rparr> in
          if \<not> isNeedCheck now q then (Some (used_now now q), s', m)
          else let (alive, q', m') = ping lib q m in
            if alive then (Some (used_now now q'), s', m')
            else let (again, q'', m'') = connect lib q' m' in
              if again then (Some (used_now now q''), s', m'') else (None, s', m'')
      | [] \<Rightarrow>
          (case (case map_of config name of None \<Rightarrow> map_of (m_dbDefines s) name | Some args \<Rightarrow> Some args) of
             None \<Rightarrow> (None, s, m)
           | Some args \<Rightarrow>
               let (ok, q, m') = connect lib (new_MySQL args) m in
               if ok then (Some (used_now now q), s, m') else (None, s, m')))"

definition freeMySQL :: "string \<Rightarrow> 'c MySQL \<Rightarrow> 'c MySQLManager \<Rightarrow> 'c MySQLManager" where
  "freeMySQL name q s =
     (if m_mysql q = None then s
      else let qs = entry (m_conns s) name in
        if int (length qs) < (if 0 \<le> m_poolSize q then m_poolSize q else m_poolSize q + 2 ^ 64)
        then s\<lparr>m_conns := AList.update name (qs @ [q]) (m_conns s)\<rparr>
        else s\<lparr>m_conns := AList.update name qs (m_conns s)\<rparr>)"

definition registerMySQL :: "string \<Rightarrow> params \<Rightarrow> 'c MySQLManager \<Rightarrow> 'c MySQLManager" where
  "registerMySQL name ps s = s\<lparr>m_dbDefines := AList.update name ps (m_dbDefines s)\<rparr>"

definition checkConnection :: "time_t \<Rightarrow> i32 \<Rightarrow> 'c MySQLManager \<Rightarrow> 'c MySQLManager" where
  "checkConnection now sec s =
     s\<lparr>m_conns := map_vals (\<lambda>_. filter (\<lambda>q. \<not> to_i32 (uint (word_of_int now - m_lastUsedTime q)) \<ge> sec)) (m_conns s)\<rparr>"

definition manager_execute ::
  "('c, 'r, 'm) libmysql \<Rightarrow> (string \<times> params) list \<Rightarrow> time_t \<Rightarrow> string \<Rightarrow> string \<Rightarrow> 'c MySQLManager \<Rightarrow> 'm \<Rightarrow>
   (int \<times> 'c MySQLManager \<times> 'm) outcome" where
  "manager_execute lib config now name sql s m =
     (case get lib config now name s m of
        (None, s', m') \<Rightarrow> Ret (- 1, s', m')
      | (Some q, s', m') \<Rightarrow> bindO (execute lib sql q m') (\<lambda>(e, q', m''). Ret (e, freeMySQL name q' s', m'')))"

definition manager_query ::
  "('c, 'r, 'm) libmysql \<Rightarrow> (string \<times> params) list \<Rightarrow> time_t \<Rightarrow> string \<Rightarrow> string \<Rightarrow> 'c MySQLManager \<Rightarrow> 'm \<Rightarrow>
   'r list option \<times> 'c MySQLManager \<times> 'm" where
  "manager_query lib config now name sql s m =
     (case get lib config now name s m of
        (None, s', m') \<Rightarrow> (None, s', m')
      | (Some q, s', m') \<Rightarrow> let (res, q', m'') = query lib sql q m' in (res, freeMySQL name q' s', m''))"

text \<open>\<^verbatim>\<open>TryExecute\<close> and \<^verbatim>\<open>TryQuery\<close>: at most \<open>n\<close> attempts, each at the time of its own.\<close>

primrec TryExecute ::
  "('c, 'r, 'm) libmysql \<Rightarrow> (string \<times> params) list \<Rightarrow> time_t list \<Rightarrow> string \<Rightarrow> string \<Rightarrow> int \<Rightarrow> 'c MySQLManager \<Rightarrow> 'm \<Rightarrow>
   (int \<times> 'c MySQLManager \<times> 'm) outcome" where
  "TryExecute lib config [] name sql rpy s m = Ret (rpy, s, m)"
| "TryExecute lib config (now # ts) name sql rpy s m =
     bindO (manager_execute lib config now name sql s m) (\<lambda>(e, s', m').
       if e = 0 then Ret (e, s', m') else TryExecute lib config ts name sql e s' m')"

primrec TryQuery ::
  "('c, 'r, 'm) libmysql \<Rightarrow> (string \<times> params) list \<Rightarrow> time_t list \<Rightarrow> string \<Rightarrow> string \<Rightarrow> 'c MySQLManager \<Rightarrow> 'm \<Rightarrow>
   'r list option \<times> 'c MySQLManager \<times> 'm" where
  "TryQuery lib config [] name sql s m = (None, s, m)"
| "TryQuery lib config (now # ts) name sql s m =
     (case manager_query lib config now name sql s m of
        (Some rows, s', m') \<Rightarrow> (Some rows, s', m')
      | (None, s', m') \<Rightarrow> TryQuery lib config ts name sql s' m')"

section \<open>Statements carry what was bound\<close>

lemma with_bind_Ret:
  "1 \<le> idx \<Longrightarrow> idx \<le> int (length (m_binds st)) \<Longrightarrow> f (m_binds st ! nat (idx - 1)) = Ret b \<Longrightarrow>
   with_bind idx f st = Ret (st\<lparr>m_binds := (m_binds st)[nat (idx - 1) := b]\<rparr>)"
  by (simp add: with_bind_def)

text \<open>Binding to a fresh place never fails: every place is bound once by the statements of the servers.\<close>

lemma bind_number_fresh:
  "1 \<le> idx \<Longrightarrow> idx \<le> int (length (m_binds st)) \<Longrightarrow> buffer (m_binds st ! nat (idx - 1)) = None \<Longrightarrow>
   bind_number t uns bs idx st = Ret (st\<lparr>m_binds := (m_binds st)[nat (idx - 1) :=
     \<lparr>buffer_type = t, buffer = Some bs, is_unsigned = uns, buffer_length = length bs\<rparr>]\<rparr>)"
  by (cases "m_binds st ! nat (idx - 1)") (simp add: bind_number_def with_bind_def BIND_COPY_def)

lemma bindString_fresh:
  "1 \<le> idx \<Longrightarrow> idx \<le> int (length (m_binds st)) \<Longrightarrow> buffer (m_binds st ! nat (idx - 1)) = None \<Longrightarrow>
   bindString idx bs st = Ret (st\<lparr>m_binds := (m_binds st)[nat (idx - 1) :=
     (m_binds st ! nat (idx - 1))\<lparr>buffer_type := MYSQL_TYPE_STRING, buffer := Some bs, buffer_length := length bs\<rparr>]\<rparr>)"
  by (simp add: bindString_def with_bind_def BIND_COPY_LEN_def)

text \<open>
  Binding a number a second time with a wider type writes past the end of the first buffer, since
  \<^verbatim>\<open>BIND_COPY\<close> keeps a buffer it finds.
\<close>

lemma bind_again_wider:
  assumes "1 \<le> idx" and "idx \<le> int (length (m_binds st))" and "buffer (m_binds st ! nat (idx - 1)) = None"
  shows "bindO (bindInt8 host idx v st) (bindInt64 host idx w) = Fault OutOfRange"
  using assms by (simp add: bindInt8_def bindInt64_def bind_number_fresh)
    (simp add: bind_number_def with_bind_def BIND_COPY_def)

text \<open>Reading a column with a type wider than it has.\<close>

lemma cell_size_alloc [simp]: "length (cell_data (alloc f)) = cell_size (fst f) (snd f)" "cell_type (alloc f) = fst f"
  by (simp_all add: alloc_def Let_def)

lemma get_int_narrow:
  "idx < length (res_cells res) \<Longrightarrow> length (cell_data (res_cells res ! idx)) < n \<Longrightarrow> get_int n host res idx = Fault OutOfRange"
  by (simp add: get_int_def)

section \<open>Transactions end once\<close>

datatype trans_call = TExecute string | TCommit | TRollback

primrec trans_exec ::
  "('c, 'r, 'm) libmysql \<Rightarrow> trans_call \<Rightarrow> 'c MySQLTransaction \<Rightarrow> 'm \<Rightarrow> ('c MySQLTransaction \<times> 'm) outcome" where
  "trans_exec lib (TExecute sql) t m = bindO (trans_execute lib sql t m) (\<lambda>(_, t', m'). Ret (t', m'))"
| "trans_exec lib TCommit t m = bindO (commit lib t m) (\<lambda>(_, t', m'). Ret (t', m'))"
| "trans_exec lib TRollback t m = bindO (rollback lib t m) (\<lambda>(_, t', m'). Ret (t', m'))"

primrec run_trans ::
  "('c, 'r, 'm) libmysql \<Rightarrow> trans_call list \<Rightarrow> 'c MySQLTransaction \<Rightarrow> 'm \<Rightarrow> ('c MySQLTransaction \<times> 'm) outcome" where
  "run_trans lib [] t m = Ret (t, m)"
| "run_trans lib (c # cs) t m = bindO (trans_exec lib c t m) (\<lambda>(t', m'). run_trans lib cs t' m')"

lemma finished_is_final: "m_isFinished t \<Longrightarrow> trans_exec lib c t m = Ret (t, m)"
  by (cases c) (simp_all add: trans_execute_def commit_def rollback_def)

lemma trans_execute_log:
  assumes "\<And>c sql m. log (snd (mysql_query lib c sql m)) = log m @ [sql]"
    and "trans_execute lib sql t m = Ret (e, t', m')" and "\<not> m_isFinished t"
  shows "log m' = log m @ [sql] \<and> \<not> m_isFinished t' \<and> m_autoCommit t' = m_autoCommit t \<and>
    trans_hasError t' = (trans_hasError t \<or> e \<noteq> 0)"
  using assms(2,3) assms(1) [of _ sql m]
  by (auto simp: trans_execute_def execute_def split: option.splits prod.splits) (metis snd_conv)+

lemma run_executes_log:
  assumes "\<And>c sql m. log (snd (mysql_query lib c sql m)) = log m @ [sql]"
  shows "run_trans lib (map TExecute sqls) t m = Ret (t', m') \<Longrightarrow> \<not> m_isFinished t \<Longrightarrow>
    log m' = log m @ sqls \<and> \<not> m_isFinished t' \<and> m_autoCommit t' = m_autoCommit t"
proof (induction sqls arbitrary: t m)
  case (Cons sql sqls)
  then obtain e t1 m1 where e: "trans_execute lib sql t m = Ret (e, t1, m1)"
    and r: "run_trans lib (map TExecute sqls) t1 m1 = Ret (t', m')" by auto
  from trans_execute_log [of log, OF assms e Cons.prems(2)] Cons.IH [OF r] show ?case by simp
qed simp

text \<open>
  Transactions. \<open>log\<close> is the sequence of statements that went to the server. A transaction that is opened, runs the
  statements \<open>sqls\<close> and is dropped sends \<^verbatim>\<open>BEGIN\<close>, the statements, and \<^verbatim>\<open>ROLLBACK\<close>, or \<^verbatim>\<open>COMMIT\<close> with automatic commit;
  but when a statement of a transaction with automatic commit has failed, it sends neither: the connection goes back
  with the transaction open.
\<close>

theorem transaction_statements:
  assumes "\<And>c sql m. log (snd (mysql_query lib c sql m)) = log m @ [sql]"
    and "trans_Create lib auto q m = Ret (Inl t, m1)" and "run_trans lib (map TExecute sqls) t m1 = Ret (t', m2)"
    and "close_trans lib t' m2 = Ret (q', m3)"
  shows "log m3 = log m @ ''BEGIN'' # sqls @ (if \<not> auto then [''ROLLBACK''] else if trans_hasError t' then [] else [''COMMIT''])"
proof -
  from assms(2) obtain e where b: "trans_execute lib ''BEGIN''
      \<lparr>trans_db = q, m_autoCommit = auto, m_isFinished = False, trans_hasError = False\<rparr> m = Ret (e, t, m1)"
    by (auto simp: trans_Create_def trans_begin_def split: if_splits)
  from trans_execute_log [of log, OF assms(1) b] have m1: "log m1 = log m @ [''BEGIN'']" "\<not> m_isFinished t" "m_autoCommit t = auto"
    by simp_all
  from run_executes_log [of log, OF assms(1) assms(3) m1(2)] m1(3)
  have m2: "log m2 = log m1 @ sqls" "\<not> m_isFinished t'" "m_autoCommit t' = auto" by simp_all
  show ?thesis
  proof (cases "auto \<and> trans_hasError t'")
    case True
    with assms(4) m1 m2 show ?thesis by (simp add: close_trans_def commit_def)
  next
    case False
    with assms(4) m2 obtain e2 t2 where "trans_execute lib (if auto then ''COMMIT'' else ''ROLLBACK'') t' m2 = Ret (e2, t2, m3)"
      by (auto simp: close_trans_def commit_def rollback_def split: if_splits)
    from trans_execute_log [of log, OF assms(1) this m2(2)] m1 m2 False show ?thesis by simp
  qed
qed

text \<open>A library for the witness: it records the statements, and refuses one of them.\<close>

definition recording :: "(nat, unit, string list) libmysql" where
  "recording =
     \<lparr>lexical_cast = \<lambda>_. None, real_connect = \<lambda>_ _ _ _ _ m. (Some (length m), m @ [''connect'']), mysql_ping = \<lambda>_ m. (0, m),
      mysql_query = \<lambda>_ sql m. (if sql = ''bad'' then 1 else 0, m @ [sql]), store_result = \<lambda>_ m. (None, m),
      select_db = \<lambda>_ _ m. (0, m), insert_id = \<lambda>_ _. 0, affected_rows = \<lambda>_ _. 0, stmt_init = \<lambda>_ m. (True, m),
      stmt_prepare = \<lambda>_ _ m. (0, m), param_count = \<lambda>_ _ _. 0, bind_errno = \<lambda>_ _ _ _. 0, stmt_execute = \<lambda>_ sql _ m. (0, m @ [sql]),
      result_metadata = \<lambda>_ _ _. None, bind_result = \<lambda>_ _ _ _. 0, stmt_store_result = \<lambda>_ _ m. (0, [], m),
      stmt_fetch = \<lambda>_ cs. (cs, 0)\<rparr>"

theorem transaction_statements_witness:
  "\<exists>t1 t2 q. trans_Create recording True ((new_MySQL [])\<lparr>m_mysql := Some 0\<rparr>) [] = Ret (Inl t1, [''BEGIN'']) \<and>
     run_trans recording (map TExecute [''good'', ''bad'']) t1 [''BEGIN''] = Ret (t2, [''BEGIN'', ''good'', ''bad'']) \<and>
     close_trans recording t2 [''BEGIN'', ''good'', ''bad''] = Ret (q, [''BEGIN'', ''good'', ''bad''])"
proof -
  define q :: "nat MySQL" where "q = (new_MySQL [])\<lparr>m_mysql := Some 0\<rparr>"
  define tr where "tr cmd e = \<lparr>trans_db = q\<lparr>m_cmd := cmd, m_hasError := e\<rparr>, m_autoCommit = True, m_isFinished = False, trans_hasError = e\<rparr>"
    for cmd e
  have log: "id (snd (mysql_query recording c sql m)) = id m @ [sql]" for c sql m by (simp add: recording_def)
  have x: "execute recording sql (q\<lparr>m_cmd := cmd, m_hasError := e\<rparr>) m =
      Ret (if sql = ''bad'' then 1 else 0, q\<lparr>m_cmd := sql, m_hasError := sql = ''bad''\<rparr>, m @ [sql])" for sql cmd e m
    by (simp add: execute_def q_def recording_def)
  have q: "q = q\<lparr>m_cmd := [], m_hasError := False\<rparr>" by (simp add: q_def new_MySQL_def)
  have a: "trans_Create recording True q [] = Ret (Inl (tr ''BEGIN'' False), [''BEGIN''])"
    by (subst q) (simp add: trans_Create_def trans_begin_def trans_execute_def x tr_def)
  have b: "run_trans recording (map TExecute [''good'', ''bad'']) (tr ''BEGIN'' False) [''BEGIN''] =
      Ret (tr ''bad'' True, [''BEGIN'', ''good'', ''bad''])"
    by (simp add: trans_execute_def x tr_def)
  obtain q' m3 where c: "close_trans recording (tr ''bad'' True) [''BEGIN'', ''good'', ''bad''] = Ret (q', m3)"
    by (simp add: close_trans_def commit_def tr_def)
  from transaction_statements [of id, OF log a b c] have "m3 = [''BEGIN'', ''good'', ''bad'']" by (simp add: tr_def)
  with a b c show ?thesis unfolding q_def by blast
qed

section \<open>A connection has one owner\<close>

datatype pool_call = PGet time_t string | PFree nat | PCheck time_t i32 | PRegister string params

text \<open>The pool, the connections its users hold, and the library.\<close>

primrec pool_exec ::
  "('c, 'r, 'm) libmysql \<Rightarrow> (string \<times> params) list \<Rightarrow> pool_call \<Rightarrow> 'c MySQLManager \<times> (string \<times> 'c MySQL) list \<times> 'm \<Rightarrow>
   'c MySQLManager \<times> (string \<times> 'c MySQL) list \<times> 'm" where
  "pool_exec lib config (PGet now name) w =
     (let (s, users, m) = w; (r, s', m') = get lib config now name s m in
      (s', (case r of None \<Rightarrow> users | Some q \<Rightarrow> users @ [(name, q)]), m'))"
| "pool_exec lib config (PFree i) w =
     (let (s, users, m) = w in
      if i < length users then (freeMySQL (fst (users ! i)) (snd (users ! i)) s, take i users @ drop (Suc i) users, m) else w)"
| "pool_exec lib config (PCheck now sec) w = (let (s, users, m) = w in (checkConnection now sec s, users, m))"
| "pool_exec lib config (PRegister name ps) w = (let (s, users, m) = w in (registerMySQL name ps s, users, m))"

text \<open>How often an open connection occurs, in the pool and with the users.\<close>

definition owners :: "'c \<Rightarrow> 'c MySQLManager \<times> (string \<times> 'c MySQL) list \<times> 'm \<Rightarrow> nat" where
  "owners c w =
     (\<Sum>p\<leftarrow>m_conns (fst w). length (filter (\<lambda>q. m_mysql q = Some c) (snd p))) +
     length (filter (\<lambda>p. m_mysql (snd p) = Some c) (fst (snd w)))"

text \<open>The library opens a connection that is not open: \<open>opened\<close> says which are or have been.\<close>

definition opens_fresh :: "('c, 'r, 'm) libmysql \<Rightarrow> ('m \<Rightarrow> 'c set) \<Rightarrow> bool" where
  "opens_fresh lib opened \<longleftrightarrow>
     (\<forall>h u p d n m. case real_connect lib h u p d n m of
        (None, m') \<Rightarrow> opened m' = opened m
      | (Some c, m') \<Rightarrow> c \<notin> opened m \<and> opened m' = insert c (opened m)) \<and>
     (\<forall>c m. opened (snd (mysql_ping lib c m)) = opened m)"

definition listed :: "'c \<Rightarrow> (string \<times> 'c MySQL list) list \<Rightarrow> nat" where
  "listed c xs = (\<Sum>p\<leftarrow>xs. length (filter (\<lambda>q. m_mysql q = Some c) (snd p)))"

lemma listed_update:
  "keys_ok xs \<Longrightarrow> listed c (AList.update k qs xs) + length (filter (\<lambda>q. m_mysql q = Some c) (entry xs k)) =
     listed c xs + length (filter (\<lambda>q. m_mysql q = Some c) qs)"
proof (induction xs)
  case (Cons p xs)
  then have "keys_ok xs" and "fst p \<notin> set (map fst xs)" by (auto simp: keys_ok_def)
  moreover from this(2) have "map_of xs (fst p) = None" by (simp add: map_of_eq_None_iff)
  ultimately show ?case using Cons.IH by (cases p) (auto simp: listed_def entry_def)
qed (simp add: listed_def entry_def)

lemma listed_filter: "listed c (map_vals (\<lambda>_. filter P) xs) \<le> listed c xs"
proof -
  have "length (filter (\<lambda>q. m_mysql q = Some c) (filter P qs)) \<le> length (filter (\<lambda>q. m_mysql q = Some c) qs)" for qs
    by (induction qs) auto
  then show ?thesis
    by (induction xs) (auto simp: listed_def map_vals_def intro: add_mono)
qed

text \<open>Every connection has at most one owner, and all of them have been opened.\<close>

definition pool_inv :: "('m \<Rightarrow> 'c set) \<Rightarrow> 'c MySQLManager \<times> (string \<times> 'c MySQL) list \<times> 'm \<Rightarrow> bool" where
  "pool_inv opened w \<longleftrightarrow> keys_ok (m_conns (fst w)) \<and>
     (\<forall>c. owners c w \<le> (if c \<in> opened (snd (snd w)) then 1 else 0))"

lemma owners_listed: "owners c (s, users, m) = listed c (m_conns s) + length (filter (\<lambda>p. m_mysql (snd p) = Some c) users)"
  by (simp add: owners_def listed_def)

lemma pool_inv_le:
  "pool_inv opened (s, users, m) \<Longrightarrow> keys_ok (m_conns s') \<Longrightarrow> (\<And>c. owners c (s', users', m) \<le> owners c (s, users, m)) \<Longrightarrow>
   pool_inv opened (s', users', m)"
  unfolding pool_inv_def fst_conv snd_conv using order_trans by blast

definition keeps_or_opens :: "('m \<Rightarrow> 'c set) \<Rightarrow> 'c option \<Rightarrow> 'm \<Rightarrow> 'c option \<Rightarrow> 'm \<Rightarrow> bool" where
  "keeps_or_opens opened h m h' m' \<longleftrightarrow> (h' = h \<and> opened m' = opened m) \<or>
     (\<exists>c. h' = Some c \<and> c \<notin> opened m \<and> opened m' = insert c (opened m))"

lemma connect_owner:
  assumes "opens_fresh lib opened" and "connect lib q m = (ok, q', m')"
  shows "keeps_or_opens opened (m_mysql q) m (m_mysql q') m'"
proof -
  have "case real_connect lib h u p d n m of (None, m') \<Rightarrow> opened m' = opened m
      | (Some c, m') \<Rightarrow> c \<notin> opened m \<and> opened m' = insert c (opened m)" for h u p d n
    using assms(1) by (simp add: opens_fresh_def)
  then have "case mysql_init lib (m_params q) m of (None, m') \<Rightarrow> opened m' = opened m
      | (Some c, m') \<Rightarrow> c \<notin> opened m \<and> opened m' = insert c (opened m)" by (simp add: mysql_init_def)
  with assms(2) show ?thesis by (auto simp: connect_def keeps_or_opens_def split: if_splits prod.splits option.splits)
qed

lemma ping_owner:
  "opens_fresh lib opened \<Longrightarrow> ping lib q m = (ok, q', m') \<Longrightarrow> m_mysql q' = m_mysql q \<and> opened m' = opened m"
  by (auto simp: ping_def opens_fresh_def split: option.splits prod.splits) (metis snd_conv)+

lemma used_now_simps [simp]: "m_mysql (used_now now q) = m_mysql q" "m_poolSize (used_now now q) = m_poolSize q"
  by (simp_all add: used_now_def)

text \<open>What a call of \<^verbatim>\<open>get\<close> takes from the pool, and the connection it may open.\<close>

lemma get_pooled:
  assumes "opens_fresh lib opened" and "get lib config now name s m = (r, s', m')" and "entry (m_conns s) name = q # qs"
  shows "m_conns s' = AList.update name qs (m_conns s) \<and>
    (\<exists>h. keeps_or_opens opened (m_mysql q) m h m' \<and> (\<forall>q'. r = Some q' \<longrightarrow> m_mysql q' = h))"
proof -
  obtain alive q1 m1 where p: "ping lib q m = (alive, q1, m1)" by (cases "ping lib q m") auto
  obtain again q2 m2 where c: "connect lib q1 m1 = (again, q2, m2)" by (cases "connect lib q1 m1") auto
  note po = ping_owner [OF assms(1) p] and co = connect_owner [OF assms(1) c]
  from po co have two: "keeps_or_opens opened (m_mysql q) m (m_mysql q2) m2" by (simp add: keeps_or_opens_def)
  have keep: "keeps_or_opens opened (m_mysql q) m (m_mysql q) m" by (simp add: keeps_or_opens_def)
  have kept: "keeps_or_opens opened (m_mysql q) m (m_mysql q) m1" using po by (simp add: keeps_or_opens_def)
  show ?thesis
    using assms(2) keep kept two po by (auto simp: get_def assms(3) p c Let_def split: if_splits)
qed

lemma get_new:
  assumes "opens_fresh lib opened" and "get lib config now name s m = (r, s', m')" and "entry (m_conns s) name = []"
  shows "s' = s \<and> (\<exists>h. keeps_or_opens opened None m h m' \<and> (\<forall>q'. r = Some q' \<longrightarrow> m_mysql q' = h))"
proof -
  define args where "args = (case map_of config name of None \<Rightarrow> map_of (m_dbDefines s) name | Some args \<Rightarrow> Some args)"
  have g: "get lib config now name s m = (case args of None \<Rightarrow> (None, s, m)
     | Some args \<Rightarrow> let (ok, q, m') = connect lib (new_MySQL args) m in
         if ok then (Some (used_now now q), s, m') else (None, s, m'))"
    unfolding get_def assms(3) args_def by simp
  show ?thesis
  proof (cases args)
    case None
    with g assms(2) show ?thesis by (auto simp: keeps_or_opens_def)
  next
    case (Some a)
    obtain ok q1 m1 where c: "connect lib (new_MySQL a) m = (ok, q1, m1)" by (cases "connect lib (new_MySQL a) m") auto
    have "keeps_or_opens opened None m (m_mysql q1) m1" using connect_owner [OF assms(1) c] by (simp add: new_MySQL_def)
    with g assms(2) Some c show ?thesis by (auto split: if_splits)
  qed
qed

lemma pool_get:
  assumes "opens_fresh lib opened" and "pool_inv opened (s, users, m)"
  shows "pool_inv opened (pool_exec lib config (PGet now name) (s, users, m))"
proof -
  obtain r s' m' where g: "get lib config now name s m = (r, s', m')" by (cases "get lib config now name s m") auto
  have keys: "keys_ok (m_conns s)" and own: "owners c (s, users, m) \<le> (if c \<in> opened m then 1 else 0)" for c
    using assms(2) by (auto simp: pool_inv_def)
  obtain h old where k: "keeps_or_opens opened old m h m'" and r: "\<And>q'. r = Some q' \<Longrightarrow> m_mysql q' = h"
    and keys': "keys_ok (m_conns s')" and l: "\<And>c. listed c (m_conns s') + (if old = Some c then 1 else 0) = listed c (m_conns s)"
  proof (cases "entry (m_conns s) name")
    case Nil
    from get_new [OF assms(1) g Nil] obtain h where "s' = s" "keeps_or_opens opened None m h m'" "\<And>q'. r = Some q' \<Longrightarrow> m_mysql q' = h"
      by blast
    with keys show thesis by (intro that [of None h]) auto
  next
    case (Cons q qs)
    note p = get_pooled [OF assms(1) g Cons]
    have "listed c (m_conns s') + (if m_mysql q = Some c then 1 else 0) = listed c (m_conns s)" for c
      using listed_update [OF keys, of c name qs] p by (simp add: Cons split: if_splits)
    moreover from p obtain h where "keeps_or_opens opened (m_mysql q) m h m'" "\<And>q'. r = Some q' \<Longrightarrow> m_mysql q' = h" by blast
    ultimately show thesis using p keys by (intro that [of "m_mysql q" h]) auto
  qed
  define users' where "users' = (case r of None \<Rightarrow> users | Some q \<Rightarrow> users @ [(name, q)])"
  have "owners c (s', users', m') \<le> (if c \<in> opened m' then 1 else 0)" for c
  proof -
    have u: "length (filter (\<lambda>p. m_mysql (snd p) = Some c) users') \<le>
        length (filter (\<lambda>p. m_mysql (snd p) = Some c) users) + (if h = Some c then 1 else 0)"
      using r by (cases r) (simp_all add: users'_def)
    from k consider "h = old" "opened m' = opened m"
      | d where "h = Some d" "d \<notin> opened m" "opened m' = insert d (opened m)" by (auto simp: keeps_or_opens_def)
    then show ?thesis
    proof cases
      case 1
      have "owners c (s', users', m') \<le> owners c (s, users, m)" using u l [of c] 1(1) by (simp add: owners_listed split: if_splits)
      with own [of c] 1(2) show ?thesis by (simp add: le_trans)
    next
      case 2
      have "listed c (m_conns s') \<le> listed c (m_conns s)" using l [of c] by simp
      with u own [of c] 2 show ?thesis by (cases "c = d") (auto simp: owners_listed split: if_splits)
    qed
  qed
  with keys' show ?thesis by (simp add: pool_inv_def g users'_def)
qed

lemma pool_free:
  assumes "pool_inv opened (s, users, m)" and "i < length users"
  shows "pool_inv opened (pool_exec lib config (PFree i) (s, users, m))"
proof -
  obtain name q where i: "users ! i = (name, q)" by fastforce
  have keys: "keys_ok (m_conns s)" using assms(1) by (simp add: pool_inv_def)
  have split: "users = take i users @ (name, q) # drop (Suc i) users" using id_take_nth_drop [OF assms(2)] i by simp
  have u: "length (filter P users) = length (filter P (take i users @ drop (Suc i) users)) + (if P (name, q) then 1 else 0)" for P
    by (subst split) simp
  have "listed c (m_conns (freeMySQL name q s)) \<le> listed c (m_conns s) + (if m_mysql q = Some c then 1 else 0)" for c
    using listed_update [OF keys, of c name "entry (m_conns s) name @ [q]"] listed_update [OF keys, of c name "entry (m_conns s) name"]
    by (auto simp: freeMySQL_def Let_def)
  moreover have "owners c (s, users, m) = listed c (m_conns s) + (if m_mysql q = Some c then 1 else 0) +
      length (filter (\<lambda>p. m_mysql (snd p) = Some c) (take i users @ drop (Suc i) users))" for c
    using u [of "\<lambda>p. m_mysql (snd p) = Some c"] by (simp only: owners_listed snd_conv)
  ultimately have "owners c (freeMySQL name q s, take i users @ drop (Suc i) users, m) \<le> owners c (s, users, m)" for c
    unfolding owners_listed [of c "freeMySQL name q s"] by simp
  moreover have "keys_ok (m_conns (freeMySQL name q s))" using keys by (simp add: freeMySQL_def Let_def)
  ultimately show ?thesis using pool_inv_le [OF assms(1)] assms(2) by (simp add: i)
qed

lemma pool_step:
  assumes "opens_fresh lib opened" and "pool_inv opened w"
  shows "pool_inv opened (pool_exec lib config c w)"
proof -
  obtain s users m where w: "w = (s, users, m)" by (cases w) auto
  show ?thesis
  proof (cases c)
    case (PGet now name)
    with pool_get [OF assms(1)] assms(2) show ?thesis by (simp add: w)
  next
    case (PFree i)
    with pool_free [of opened s users m i] assms(2) show ?thesis by (cases "i < length users") (auto simp: w)
  next
    case (PCheck now sec)
    have "listed c (m_conns (checkConnection now sec s)) \<le> listed c (m_conns s)" for c
      by (simp add: checkConnection_def listed_filter)
    then have "owners c (checkConnection now sec s, users, m) \<le> owners c (s, users, m)" for c by (simp add: owners_listed)
    moreover have "keys_ok (m_conns (checkConnection now sec s))" using assms(2) by (simp add: pool_inv_def w checkConnection_def)
    ultimately show ?thesis using assms(2) PCheck pool_inv_le [of opened s users m] by (simp add: w)
  next
    case (PRegister name ps)
    with assms(2) show ?thesis by (simp add: pool_inv_def w owners_listed registerMySQL_def)
  qed
qed

text \<open>
  The pool. Whatever users take, give back, and whatever the check drops, a connection has one owner: it is never
  handed out twice, and no connection in the pool is in use.
\<close>

theorem connection_has_one_owner:
  assumes "opens_fresh lib opened"
  shows "owners c (fold (pool_exec lib config) cs (manager_init, [], m)) \<le> 1"
proof -
  have "pool_inv opened (fold (pool_exec lib config) cs w)" if "pool_inv opened w" for w
    using that
  proof (induction cs arbitrary: w)
    case (Cons c cs)
    from Cons.IH [OF pool_step [OF assms Cons.prems]] show ?case by simp
  qed simp
  moreover have "pool_inv opened (manager_init, [], m)" by (simp add: pool_inv_def owners_def manager_init_def)
  ultimately have "pool_inv opened (fold (pool_exec lib config) cs (manager_init, [], m))" .
  then have "owners c (fold (pool_exec lib config) cs (manager_init, [], m)) \<le>
      (if c \<in> opened (snd (snd (fold (pool_exec lib config) cs (manager_init, [], m)))) then 1 else 0)"
    by (simp add: pool_inv_def)
  also have "\<dots> \<le> 1" by simp
  finally show ?thesis .
qed

theorem connection_has_one_owner_witness:
  "owners 0 (fold (pool_exec recording [(''db'', [])]) [PGet 1 ''db'', PFree 0, PGet 2 ''db'', PGet 3 ''db''] (manager_init, [], [])) \<le> 1"
  by (rule connection_has_one_owner [where opened = "\<lambda>m. {..<length m}"]) (auto simp: opens_fresh_def recording_def)

end
