(* ===== verification/Db.thy ===== *)
theory Db
  imports Links MySql HashUtil
begin

text \<open>
  The database server, \<open>db_server/db_service.cc\<close>: a stack of connections to MySQL, a cache of accounts, the handlers of the
  requests and the loop that reads them. What \<open>mysql.cc\<close> calls is a parameter, so are the digests of OpenSSL and the
  code generated for the messages.
\<close>

section \<open>Messages and state\<close>

datatype DBOperationType = DB_OP_CREATE_ACCOUNT | DB_OP_VERIFY_ACCOUNT | DB_OP_GET_ACCOUNT_INFO | DB_OP_SEAL_ACCOUNT
  | DB_OP_UNSEAL_ACCOUNT | DB_OP_RECORD_LOGIN_LOG | DB_OP_CREATE_ROLE | DB_OP_UPDATE_ROLE | DB_OP_DELETE_ROLE
  | DB_OP_GET_ROLE_LIST | DB_OP_GET_ROLE_DATA | DB_OP_UNKNOWN

record DBRequest =
  q_op_type :: DBOperationType
  q_account_id :: u64
  q_account_name :: string
  q_password :: string
  q_channel :: i32
  q_seal_time :: i32
  q_version :: string
  q_uuid :: string
  q_idfa :: string
  q_imodel :: string
  q_imei :: string
  q_ip :: i32
  q_role_id :: u64
  q_role_name :: string
  q_server_id :: i32
  q_career :: i32
  q_level :: i32
  q_exp :: int
  q_head_id :: i32
  q_portrait_frame :: i32
  q_is_deleted :: i32
  q_delete_time :: int

record RoleInfo =
  r_role_id :: u64
  r_account_id :: u64
  r_server_id :: i32
  r_role_name :: string
  r_career :: i32
  r_level :: i32
  r_exp :: int
  r_head_id :: i32
  r_portrait_frame :: i32
  r_create_time :: int
  r_last_login_time :: int
  r_is_deleted :: i32
  r_delete_time :: int

record DBResponse =
  ret_code :: i32
  ret_msg :: string
  p_account_id :: u64
  p_account_name :: string
  p_channel :: i32
  p_create_time :: int
  p_last_login_time :: int
  p_last_login_ip :: i32
  p_is_sealed :: bool
  p_seal_end_time :: int
  p_review :: bool
  role_list :: "RoleInfo list"
  role_info :: "RoleInfo option"

definition no_response :: DBResponse where
  "no_response =
     \<lparr>ret_code = 0, ret_msg = '''', p_account_id = 0, p_account_name = '''', p_channel = 0, p_create_time = 0,
      p_last_login_time = 0, p_last_login_ip = 0, p_is_sealed = False, p_seal_end_time = 0, p_review = False, role_list = [],
      role_info = None\<rparr>"

record AccountInfo =
  account_id :: u64
  account_name :: string
  password :: string
  channel :: i32
  create_time :: int
  last_login_time :: int
  last_login_ip :: i32
  is_sealed :: bool
  seal_end_time :: int
  review :: bool

record ('c, 'm, 'k) DBService =
  db_links :: "'k links monitor"
  db_connections :: "'c MySQL list"
  account_cache :: "(u64 \<times> AccountInfo) list"
  name_to_id :: "(string \<times> u64) list"
  world :: 'm

text \<open>
  What the service relies on. \<open>indeterminate\<close> is what an \<^verbatim>\<open>AccountInfo\<close> or a \<^verbatim>\<open>MessageHeader\<close> without initialiser holds:
  reading it is no fault here, the value is just unknown.
\<close>

record ('c, 'r, 'm) db_env =
  libm :: "('c, 'r, 'm) libmysql"
  little :: bool
  MD5 :: digest
  SHA1 :: digest
  parse_request :: "byte list \<Rightarrow> DBRequest option"
  serialize_response :: "DBResponse \<Rightarrow> byte list option"
  indeterminate :: AccountInfo
  indeterminate_header :: "byte list"

section \<open>Connections to the database\<close>

text \<open>
  Five connections are opened; one failure ends it, and those opened before stay. The vector is a stack. The code holds
  \<^verbatim>\<open>db_mutex_\<close> for each of these operations alone.
\<close>

primrec connect_some ::
  "('c, 'r, 'm) libmysql \<Rightarrow> params \<Rightarrow> nat \<Rightarrow> 'c MySQL list \<Rightarrow> 'm \<Rightarrow> bool \<times> 'c MySQL list \<times> 'm" where
  "connect_some lib ps 0 qs m = (True, qs, m)"
| "connect_some lib ps (Suc n) qs m =
     (let (ok, q, m') = connect lib (new_MySQL ps) m in
      if ok then connect_some lib ps n (qs @ [q]) m' else (False, qs, m'))"

definition ConnectToDatabase :: "('c, 'r, 'm) db_env \<Rightarrow> params \<Rightarrow> ('c, 'm, 'k) DBService \<Rightarrow> bool \<times> ('c, 'm, 'k) DBService" where
  "ConnectToDatabase env ps s =
     (let (ok, qs, m) = connect_some (libm env) ps 5 (db_connections s) (world s) in
      (ok, s\<lparr>db_connections := qs, world := m\<rparr>))"

definition GetDBConnection :: "('c, 'm, 'k) DBService \<Rightarrow> 'c MySQL option \<times> ('c, 'm, 'k) DBService" where
  "GetDBConnection s =
     (if db_connections s = [] then (None, s)
      else (Some (last (db_connections s)), s\<lparr>db_connections := butlast (db_connections s)\<rparr>))"

definition ReleaseDBConnection :: "'c MySQL \<Rightarrow> ('c, 'm, 'k) DBService \<Rightarrow> ('c, 'm, 'k) DBService" where
  "ReleaseDBConnection q s = s\<lparr>db_connections := db_connections s @ [q]\<rparr>"

text \<open>
  The steps all operations take on their connection: the statement is prepared, its places are bound in order, it is
  executed or queried. \<open>prepared_write\<close> answers whether \<^verbatim>\<open>execute\<close> gave something else than zero, which is what
  the operations test.
\<close>

type_synonym 'c bind_step = "'c MySQLStmt \<Rightarrow> 'c MySQLStmt outcome"

primrec bind_all :: "'c bind_step list \<Rightarrow> 'c bind_step" where
  "bind_all [] st = Ret st"
| "bind_all (b # bs) st = bindO (b st) (bind_all bs)"

definition prepared_write ::
  "('c, 'r, 'm) db_env \<Rightarrow> string \<Rightarrow> 'c bind_step list \<Rightarrow> 'c MySQL \<Rightarrow> 'm \<Rightarrow> (bool \<times> 'm) outcome" where
  "prepared_write env sql binds q m =
     bindO (stmt_Create (libm env) q sql m) (\<lambda>(st, m').
       case st of
         None \<Rightarrow> Ret (False, m')
       | Some st \<Rightarrow> bindO (bind_all binds st) (\<lambda>st'.
           let (e, m'') = stmt_run (libm env) st' m' in Ret (e \<noteq> 0, m'')))"

definition prepared_query ::
  "('c, 'r, 'm) db_env \<Rightarrow> string \<Rightarrow> 'c bind_step list \<Rightarrow> 'c MySQL \<Rightarrow> 'm \<Rightarrow> ('r MySQLStmtRes option \<times> 'm) outcome" where
  "prepared_query env sql binds q m =
     bindO (stmt_Create (libm env) q sql m) (\<lambda>(st, m').
       case st of
         None \<Rightarrow> Ret (None, m')
       | Some st \<Rightarrow> bindO (bind_all binds st) (\<lambda>st'.
           let (res, m'') = stmt_query (libm env) st' m' in Ret (Some res, m'')))"

text \<open>What a \<^verbatim>\<open>uint64_t\<close> is as \<^verbatim>\<open>int64_t\<close>, and texts as they are bound.\<close>

definition bind64 :: "('c, 'r, 'm) db_env \<Rightarrow> i32 \<Rightarrow> u64 \<Rightarrow> 'c bind_step" where
  "bind64 env idx w = bindInt64 (little env) idx (sint w)"

definition bind_text :: "i32 \<Rightarrow> string \<Rightarrow> 'c bind_step" where
  "bind_text idx cs = bindString idx (bytes_of cs)"

section \<open>Roles\<close>

definition insert_role_sql :: string where
  "insert_role_sql = ''INSERT INTO role_base (account_id, server_id, role_name, career, level, exp, head_id, portrait_frame, create_time, last_login_time, is_deleted, delete_time) VALUES (?, ?, ?, ?, ?, ?, ?, ?, ?, ?, ?, ?)''"

definition update_role_sql :: string where
  "update_role_sql = ''UPDATE role_base SET account_id=?, server_id=?, role_name=?, career=?, level=?, exp=?, head_id=?, portrait_frame=?, last_login_time=?, is_deleted=?, delete_time=? WHERE role_id=?''"

definition delete_role_sql :: string where
  "delete_role_sql = ''DELETE FROM role_base WHERE role_id=?''"

definition role_sql :: string where
  "role_sql = ''SELECT role_id, account_id, server_id, role_name, career, level, exp, head_id, portrait_frame, create_time, last_login_time, is_deleted, delete_time FROM role_base WHERE role_id=?''"

definition role_list_sql :: string where
  "role_list_sql = ''SELECT role_id, account_id, server_id, role_name, career, level, exp, head_id, portrait_frame, create_time, last_login_time, is_deleted, delete_time FROM role_base WHERE account_id=?''"

text \<open>None of the operations on roles gives its connection back.\<close>

definition CreateRole ::
  "('c, 'r, 'm) db_env \<Rightarrow> RoleInfo \<Rightarrow> ('c, 'm, 'k) DBService \<Rightarrow> (bool \<times> ('c, 'm, 'k) DBService) outcome" where
  "CreateRole env r s =
     (case GetDBConnection s of
        (None, s1) \<Rightarrow> Ret (False, s1)
      | (Some q, s1) \<Rightarrow>
          bindO (prepared_write env insert_role_sql
            [bind64 env 1 (r_account_id r), bindInt32 (little env) 2 (r_server_id r), bind_text 3 (r_role_name r),
             bindInt32 (little env) 4 (r_career r), bindInt32 (little env) 5 (r_level r), bindInt64 (little env) 6 (r_exp r),
             bindInt32 (little env) 7 (r_head_id r), bindInt32 (little env) 8 (r_portrait_frame r),
             bindInt64 (little env) 9 (r_create_time r), bindInt64 (little env) 10 (r_last_login_time r),
             bindInt8 (little env) 11 (r_is_deleted r), bindInt64 (little env) 12 (r_delete_time r)] q (world s1)) (\<lambda>(ok, m).
            Ret (ok, s1\<lparr>world := m\<rparr>)))"

definition UpdateRole ::
  "('c, 'r, 'm) db_env \<Rightarrow> RoleInfo \<Rightarrow> ('c, 'm, 'k) DBService \<Rightarrow> (bool \<times> ('c, 'm, 'k) DBService) outcome" where
  "UpdateRole env r s =
     (case GetDBConnection s of
        (None, s1) \<Rightarrow> Ret (False, s1)
      | (Some q, s1) \<Rightarrow>
          bindO (prepared_write env update_role_sql
            [bind64 env 1 (r_account_id r), bindInt32 (little env) 2 (r_server_id r), bind_text 3 (r_role_name r),
             bindInt32 (little env) 4 (r_career r), bindInt32 (little env) 5 (r_level r), bindInt64 (little env) 6 (r_exp r),
             bindInt32 (little env) 7 (r_head_id r), bindInt32 (little env) 8 (r_portrait_frame r),
             bindInt64 (little env) 9 (r_last_login_time r), bindInt8 (little env) 10 (r_is_deleted r),
             bindInt64 (little env) 11 (r_delete_time r), bind64 env 12 (r_role_id r)] q (world s1)) (\<lambda>(ok, m).
            Ret (ok, s1\<lparr>world := m\<rparr>)))"

definition DeleteRole ::
  "('c, 'r, 'm) db_env \<Rightarrow> u64 \<Rightarrow> ('c, 'm, 'k) DBService \<Rightarrow> (bool \<times> ('c, 'm, 'k) DBService) outcome" where
  "DeleteRole env rid s =
     (case GetDBConnection s of
        (None, s1) \<Rightarrow> Ret (False, s1)
      | (Some q, s1) \<Rightarrow>
          bindO (prepared_write env delete_role_sql [bind64 env 1 rid] q (world s1)) (\<lambda>(ok, m). Ret (ok, s1\<lparr>world := m\<rparr>)))"

definition role_of_row :: "bool \<Rightarrow> 'r MySQLStmtRes \<Rightarrow> RoleInfo outcome" where
  "role_of_row host res =
     bindO (getInt64 host res 0) (\<lambda>rid. bindO (getInt64 host res 1) (\<lambda>aid. bindO (getInt32 host res 2) (\<lambda>sid.
     bindO (getString res 3) (\<lambda>name. bindO (getInt32 host res 4) (\<lambda>car. bindO (getInt32 host res 5) (\<lambda>lev.
     bindO (getInt64 host res 6) (\<lambda>ex. bindO (getInt32 host res 7) (\<lambda>head. bindO (getInt32 host res 8) (\<lambda>frame.
     bindO (getInt64 host res 9) (\<lambda>ct. bindO (getInt64 host res 10) (\<lambda>ll. bindO (getInt8 host res 11) (\<lambda>del.
     bindO (getInt64 host res 12) (\<lambda>dt.
       Ret \<lparr>r_role_id = word_of_int rid, r_account_id = word_of_int aid, r_server_id = sid, r_role_name = name, r_career = car,
            r_level = lev, r_exp = ex, r_head_id = head, r_portrait_frame = frame, r_create_time = ct, r_last_login_time = ll,
            r_is_deleted = del, r_delete_time = dt\<rparr>)))))))))))))"

definition GetRoleData ::
  "('c, 'r, 'm) db_env \<Rightarrow> u64 \<Rightarrow> ('c, 'm, 'k) DBService \<Rightarrow> (RoleInfo option \<times> ('c, 'm, 'k) DBService) outcome" where
  "GetRoleData env rid s =
     (case GetDBConnection s of
        (None, s1) \<Rightarrow> Ret (None, s1)
      | (Some q, s1) \<Rightarrow>
          bindO (prepared_query env role_sql [bind64 env 1 rid] q (world s1)) (\<lambda>(res, m).
            case res of
              None \<Rightarrow> Ret (None, s1\<lparr>world := m\<rparr>)
            | Some res \<Rightarrow>
                let (found, row) = next_row (libm env) res in
                if \<not> found then Ret (None, s1\<lparr>world := m\<rparr>)
                else bindO (role_of_row (little env) row) (\<lambda>r. Ret (Some r, s1\<lparr>world := m\<rparr>))))"

lemma next_row_shorter: "next_row lib res = (True, res') \<Longrightarrow> length (res_rows res') < length (res_rows res)"
  by (auto simp: next_row_def split: list.splits prod.splits)

function read_roles :: "('c, 'r, 'm) libmysql \<Rightarrow> bool \<Rightarrow> 'r MySQLStmtRes \<Rightarrow> RoleInfo list outcome" where
  "read_roles lib host res =
     (case next_row lib res of
        (False, _) \<Rightarrow> Ret []
      | (True, row) \<Rightarrow> bindO (role_of_row host row) (\<lambda>r. bindO (read_roles lib host row) (\<lambda>rs. Ret (r # rs))))"
  by pat_completeness auto
termination
  by (relation "measure (\<lambda>(lib, host, res). length (res_rows res))") (auto dest: next_row_shorter [OF sym])

declare read_roles.simps [simp del]

definition GetRoleList ::
  "('c, 'r, 'm) db_env \<Rightarrow> u64 \<Rightarrow> ('c, 'm, 'k) DBService \<Rightarrow> (RoleInfo list option \<times> ('c, 'm, 'k) DBService) outcome" where
  "GetRoleList env aid s =
     (case GetDBConnection s of
        (None, s1) \<Rightarrow> Ret (None, s1)
      | (Some q, s1) \<Rightarrow>
          bindO (prepared_query env role_list_sql [bind64 env 1 aid] q (world s1)) (\<lambda>(res, m).
            case res of
              None \<Rightarrow> Ret (None, s1\<lparr>world := m\<rparr>)
            | Some res \<Rightarrow> bindO (read_roles (libm env) (little env) res) (\<lambda>rs. Ret (Some rs, s1\<lparr>world := m\<rparr>))))"

section \<open>Accounts\<close>

definition insert_account_sql :: string where
  "insert_account_sql = ''INSERT INTO account (account_name, password, channel, create_time, last_login_time, is_sealed, seal_end_time) VALUES (?, ?, ?, ?, ?, ?, ?)''"

definition account_id_sql :: string where
  "account_id_sql = ''SELECT account_id FROM account WHERE account_name = ?''"

definition password_sql :: string where
  "password_sql = ''SELECT account_id, password FROM account WHERE account_name=?''"

definition account_sql :: string where
  "account_sql = ''SELECT account_id, account_name, channel, create_time, last_login_time, is_sealed, seal_end_time FROM account WHERE account_id=?''"

definition seal_sql :: string where
  "seal_sql = ''UPDATE account SET is_sealed=1, seal_end_time=? WHERE account_id=?''"

definition unseal_sql :: string where
  "unseal_sql = ''UPDATE account SET is_sealed=0, seal_end_time=0 WHERE account_id=?''"

definition sealed_sql :: string where
  "sealed_sql = ''SELECT is_sealed, seal_end_time FROM account WHERE account_id=?''"

definition login_log_sql :: string where
  "login_log_sql = ''INSERT INTO account_login_log (account_id, login_time, login_ip, channel, version, uuid, idfa, imodel, imei) VALUES (?, ?, ?, ?, ?, ?, ?, ?, ?)''"

definition Sha1Hash :: "digest \<Rightarrow> string \<Rightarrow> string" where
  "Sha1Hash H input = concat (map (\<lambda>b. hexstring_from_data [b]) (take 20 (H (bytes_of input))))"

definition UpdateAccountCache :: "AccountInfo \<Rightarrow> ('c, 'm, 'k) DBService \<Rightarrow> ('c, 'm, 'k) DBService" where
  "UpdateAccountCache info s =
     s\<lparr>account_cache := AList.update (account_id info) info (account_cache s),
       name_to_id := AList.update (account_name info) (account_id info) (name_to_id s)\<rparr>"

definition GetAccountFromCache :: "u64 \<Rightarrow> ('c, 'm, 'k) DBService \<Rightarrow> AccountInfo option" where
  "GetAccountFromCache aid s = map_of (account_cache s) aid"

definition GetAccountByName :: "string \<Rightarrow> ('c, 'm, 'k) DBService \<Rightarrow> AccountInfo option" where
  "GetAccountByName name s =
     (case map_of (name_to_id s) name of None \<Rightarrow> None | Some aid \<Rightarrow> map_of (account_cache s) aid)"

text \<open>
  \<^verbatim>\<open>CreateAccount\<close> after the execution: the identifier of the last insertion, or, when that is zero, the one a query by
  name finds.
\<close>

definition created_id :: "('c, 'r, 'm) db_env \<Rightarrow> string \<Rightarrow> 'c MySQL \<Rightarrow> 'm \<Rightarrow> (u64 \<times> 'm) outcome" where
  "created_id env name q m =
     bindO (getLastInsertId (libm env) q m) (\<lambda>aid.
       if aid \<noteq> 0 then Ret (aid, m)
       else bindO (prepared_query env account_id_sql [bind_text 1 name] q m) (\<lambda>(res, m').
         case res of
           None \<Rightarrow> Ret (0, m')
         | Some res \<Rightarrow>
             let (found, row) = next_row (libm env) res in
             if \<not> found then Ret (0, m')
             else bindO (getInt64 (little env) row 0) (\<lambda>v. Ret (word_of_int v, m'))))"

definition CreateAccount ::
  "('c, 'r, 'm) db_env \<Rightarrow> time_t \<Rightarrow> string \<Rightarrow> string \<Rightarrow> i32 \<Rightarrow> ('c, 'm, 'k) DBService \<Rightarrow>
   ((bool \<times> u64) \<times> ('c, 'm, 'k) DBService) outcome" where
  "CreateAccount env now name pw chan s =
     (case GetDBConnection s of
        (None, s1) \<Rightarrow> Ret ((False, 0), s1)
      | (Some q, s1) \<Rightarrow>
          bindO (prepared_write env insert_account_sql
            [bind_text 1 name, bind_text 2 (Sha1Hash (SHA1 env) pw), bindInt32 (little env) 3 chan, bindInt64 (little env) 4 now,
             bindInt64 (little env) 5 now, bindInt32 (little env) 6 0, bindInt64 (little env) 7 0] q (world s1)) (\<lambda>(ok, m).
            if \<not> ok then Ret ((False, 0), ReleaseDBConnection q (s1\<lparr>world := m\<rparr>))
            else bindO (created_id env name q m) (\<lambda>(aid, m').
              Ret ((0 < aid, aid), ReleaseDBConnection q (s1\<lparr>world := m'\<rparr>)))))"

definition VerifyAccount ::
  "('c, 'r, 'm) db_env \<Rightarrow> string \<Rightarrow> string \<Rightarrow> ('c, 'm, 'k) DBService \<Rightarrow> ((bool \<times> u64) \<times> ('c, 'm, 'k) DBService) outcome" where
  "VerifyAccount env name pw s =
     (case GetDBConnection s of
        (None, s1) \<Rightarrow> Ret ((False, 0), s1)
      | (Some q, s1) \<Rightarrow>
          bindO (prepared_query env password_sql [bind_text 1 name] q (world s1)) (\<lambda>(res, m).
            let s2 = ReleaseDBConnection q (s1\<lparr>world := m\<rparr>) in
            case res of
              None \<Rightarrow> Ret ((False, 0), s2)
            | Some res \<Rightarrow>
                let (found, row) = next_row (libm env) res in
                if \<not> found then Ret ((False, 0), s2)
                else
                  bindO (getInt64 (little env) row 0) (\<lambda>aid. bindO (getString row 1) (\<lambda>stored.
                    Ret ((stored = md5 (MD5 env) (bytes_of pw), word_of_int aid), s2)))))"

definition GetAccountInfo ::
  "('c, 'r, 'm) db_env \<Rightarrow> u64 \<Rightarrow> ('c, 'm, 'k) DBService \<Rightarrow> (AccountInfo option \<times> ('c, 'm, 'k) DBService) outcome" where
  "GetAccountInfo env aid s =
     (case GetAccountFromCache aid s of
        Some info \<Rightarrow> Ret (Some info, s)
      | None \<Rightarrow>
          (case GetDBConnection s of
             (None, s1) \<Rightarrow> Ret (None, s1)
           | (Some q, s1) \<Rightarrow>
               bindO (prepared_query env account_sql [bind64 env 1 aid] q (world s1)) (\<lambda>(res, m).
                 let s2 = s1\<lparr>world := m\<rparr> in
                 case res of
                   None \<Rightarrow> Ret (None, ReleaseDBConnection q s2)
                 | Some res \<Rightarrow>
                     let (found, row) = next_row (libm env) res in
                     if \<not> found then Ret (None, ReleaseDBConnection q s2)
                     else
                          let host = little env in
                          bindO (getInt64 host row 0) (\<lambda>i. bindO (getString row 1) (\<lambda>name. bindO (getInt32 host row 2) (\<lambda>chan.
                          bindO (getInt64 host row 3) (\<lambda>ct. bindO (getInt64 host row 4) (\<lambda>ll. bindO (getInt32 host row 5) (\<lambda>seal.
                          bindO (getInt64 host row 6) (\<lambda>end.
                            let info = (indeterminate env)\<lparr>account_id := word_of_int i, account_name := name, channel := chan,
                                  create_time := ct, last_login_time := ll, is_sealed := seal \<noteq> 0, seal_end_time := end\<rparr> in
                            Ret (Some info, ReleaseDBConnection q (UpdateAccountCache info s2))))))))))))"

definition SealAccount ::
  "('c, 'r, 'm) db_env \<Rightarrow> u64 \<Rightarrow> int \<Rightarrow> ('c, 'm, 'k) DBService \<Rightarrow> (bool \<times> ('c, 'm, 'k) DBService) outcome" where
  "SealAccount env aid end s =
     (case GetDBConnection s of
        (None, s1) \<Rightarrow> Ret (False, s1)
      | (Some q, s1) \<Rightarrow>
          bindO (prepared_write env seal_sql [bindInt64 (little env) 1 end, bind64 env 2 aid] q (world s1)) (\<lambda>(ok, m).
            let s2 = s1\<lparr>world := m\<rparr> in
            if \<not> ok then Ret (False, ReleaseDBConnection q s2)
            else
              let s3 = (case GetAccountFromCache aid s2 of
                          None \<Rightarrow> s2
                        | Some info \<Rightarrow> UpdateAccountCache (info\<lparr>is_sealed := True, seal_end_time := end\<rparr>) s2) in
              Ret (True, ReleaseDBConnection q s3)))"

definition UnsealAccount ::
  "('c, 'r, 'm) db_env \<Rightarrow> u64 \<Rightarrow> ('c, 'm, 'k) DBService \<Rightarrow> (bool \<times> ('c, 'm, 'k) DBService) outcome" where
  "UnsealAccount env aid s =
     (case GetDBConnection s of
        (None, s1) \<Rightarrow> Ret (False, s1)
      | (Some q, s1) \<Rightarrow>
          bindO (prepared_write env unseal_sql [bind64 env 1 aid] q (world s1)) (\<lambda>(ok, m).
            let s2 = s1\<lparr>world := m\<rparr> in
            if \<not> ok then Ret (False, ReleaseDBConnection q s2)
            else
              let s3 = (case GetAccountFromCache aid s2 of
                          None \<Rightarrow> s2
                        | Some info \<Rightarrow> UpdateAccountCache (info\<lparr>is_sealed := False, seal_end_time := 0\<rparr>) s2) in
              Ret (True, ReleaseDBConnection q s3)))"

text \<open>\<^verbatim>\<open>IsAccountSealed\<close> keeps its connection too.\<close>

definition IsAccountSealed ::
  "('c, 'r, 'm) db_env \<Rightarrow> time_t \<Rightarrow> u64 \<Rightarrow> ('c, 'm, 'k) DBService \<Rightarrow> (bool \<times> ('c, 'm, 'k) DBService) outcome" where
  "IsAccountSealed env now aid s =
     (case GetAccountFromCache aid s of
        Some info \<Rightarrow> Ret (is_sealed info \<and> now < seal_end_time info, s)
      | None \<Rightarrow>
          (case GetDBConnection s of
             (None, s1) \<Rightarrow> Ret (False, s1)
           | (Some q, s1) \<Rightarrow>
               bindO (prepared_query env sealed_sql [bind64 env 1 aid] q (world s1)) (\<lambda>(res, m).
                 case res of
                   None \<Rightarrow> Ret (False, s1\<lparr>world := m\<rparr>)
                 | Some res \<Rightarrow>
                     let (found, row) = next_row (libm env) res in
                     if \<not> found then Ret (False, s1\<lparr>world := m\<rparr>)
                     else
                          bindO (getInt32 (little env) row 0) (\<lambda>seal. bindO (getInt64 (little env) row 1) (\<lambda>end.
                            Ret (seal \<noteq> 0 \<and> now < end, s1\<lparr>world := m\<rparr>))))))"

definition RecordLoginLog ::
  "('c, 'r, 'm) db_env \<Rightarrow> time_t \<Rightarrow> u64 \<Rightarrow> i32 \<Rightarrow> string \<Rightarrow> string \<Rightarrow> string \<Rightarrow> string \<Rightarrow> string \<Rightarrow> i32 \<Rightarrow>
   ('c, 'm, 'k) DBService \<Rightarrow> (bool \<times> ('c, 'm, 'k) DBService) outcome" where
  "RecordLoginLog env now aid chan ver uid ad model phone ip s =
     (case GetDBConnection s of
        (None, s1) \<Rightarrow> Ret (False, s1)
      | (Some q, s1) \<Rightarrow>
          if aid = 0 then Ret (False, ReleaseDBConnection q s1)
          else
            bindO (prepared_write env login_log_sql
              [bind64 env 1 aid, bindInt64 (little env) 2 now, bindInt32 (little env) 3 ip, bindInt32 (little env) 4 chan,
               bind_text 5 ver, bind_text 6 uid, bind_text 7 ad, bind_text 8 model, bind_text 9 phone] q (world s1)) (\<lambda>(ok, m).
              Ret (ok, ReleaseDBConnection q (s1\<lparr>world := m\<rparr>))))"

section \<open>Handlers\<close>

text \<open>The messages of the answers are not modelled: \<open>ret_msg\<close> stays empty.\<close>

definition HandleCreateAccount ::
  "('c, 'r, 'm) db_env \<Rightarrow> time_t \<Rightarrow> DBRequest \<Rightarrow> ('c, 'm, 'k) DBService \<Rightarrow> (DBResponse \<times> ('c, 'm, 'k) DBService) outcome" where
  "HandleCreateAccount env now q s =
     bindO (CreateAccount env now (q_account_name q) (q_password q) (q_channel q) s) (\<lambda>((ok, aid), s').
       if ok then Ret (no_response\<lparr>ret_code := 0, p_account_id := aid, p_account_name := q_account_name q,
                         p_channel := q_channel q\<rparr>, s')
       else Ret (no_response\<lparr>ret_code := 1\<rparr>, s'))"

definition info_response :: "AccountInfo \<Rightarrow> DBResponse \<Rightarrow> DBResponse" where
  "info_response info p =
     p\<lparr>p_channel := channel info, p_create_time := create_time info, p_last_login_time := last_login_time info,
       p_last_login_ip := last_login_ip info, p_is_sealed := is_sealed info, p_seal_end_time := seal_end_time info,
       p_review := review info\<rparr>"

definition HandleVerifyAccount ::
  "('c, 'r, 'm) db_env \<Rightarrow> DBRequest \<Rightarrow> ('c, 'm, 'k) DBService \<Rightarrow> (DBResponse \<times> ('c, 'm, 'k) DBService) outcome" where
  "HandleVerifyAccount env q s =
     bindO (VerifyAccount env (q_account_name q) (q_password q) s) (\<lambda>((ok, aid), s').
       if ok then
         bindO (GetAccountInfo env aid s') (\<lambda>(info, s'').
           let p = no_response\<lparr>ret_code := 0, p_account_id := aid, p_account_name := q_account_name q\<rparr> in
           Ret (case info of None \<Rightarrow> p | Some info \<Rightarrow> info_response info p, s''))
       else Ret (no_response\<lparr>ret_code := 1\<rparr>, s'))"

definition HandleGetAccountInfo ::
  "('c, 'r, 'm) db_env \<Rightarrow> DBRequest \<Rightarrow> ('c, 'm, 'k) DBService \<Rightarrow> (DBResponse \<times> ('c, 'm, 'k) DBService) outcome" where
  "HandleGetAccountInfo env q s =
     bindO (GetAccountInfo env (q_account_id q) s) (\<lambda>(info, s').
       Ret (case info of
              None \<Rightarrow> no_response\<lparr>ret_code := 1\<rparr>
            | Some info \<Rightarrow>
                info_response info (no_response\<lparr>ret_code := 0, p_account_id := account_id info, p_account_name := account_name info\<rparr>),
            s'))"

definition of_success :: "bool \<Rightarrow> DBResponse" where
  "of_success ok = no_response\<lparr>ret_code := if ok then 0 else 1\<rparr>"

definition HandleSealAccount ::
  "('c, 'r, 'm) db_env \<Rightarrow> time_t \<Rightarrow> DBRequest \<Rightarrow> ('c, 'm, 'k) DBService \<Rightarrow> (DBResponse \<times> ('c, 'm, 'k) DBService) outcome" where
  "HandleSealAccount env now q s =
     bindO (SealAccount env (q_account_id q) (now + q_seal_time q) s) (\<lambda>(ok, s'). Ret (of_success ok, s'))"

definition HandleUnsealAccount ::
  "('c, 'r, 'm) db_env \<Rightarrow> DBRequest \<Rightarrow> ('c, 'm, 'k) DBService \<Rightarrow> (DBResponse \<times> ('c, 'm, 'k) DBService) outcome" where
  "HandleUnsealAccount env q s = bindO (UnsealAccount env (q_account_id q) s) (\<lambda>(ok, s'). Ret (of_success ok, s'))"

definition HandleRecordLoginLog ::
  "('c, 'r, 'm) db_env \<Rightarrow> time_t \<Rightarrow> DBRequest \<Rightarrow> ('c, 'm, 'k) DBService \<Rightarrow> (DBResponse \<times> ('c, 'm, 'k) DBService) outcome" where
  "HandleRecordLoginLog env now q s =
     (if q_account_id q = 0 then Ret (no_response\<lparr>ret_code := 1\<rparr>, s)
      else bindO (RecordLoginLog env now (q_account_id q) (q_channel q) (q_version q) (q_uuid q) (q_idfa q) (q_imodel q) (q_imei q)
             (q_ip q) s) (\<lambda>(ok, s'). Ret (of_success ok, s')))"

definition requested_role :: "DBRequest \<Rightarrow> RoleInfo" where
  "requested_role q =
     \<lparr>r_role_id = q_role_id q, r_account_id = q_account_id q, r_server_id = q_server_id q, r_role_name = q_role_name q,
      r_career = q_career q, r_level = q_level q, r_exp = q_exp q, r_head_id = q_head_id q,
      r_portrait_frame = q_portrait_frame q, r_create_time = 0, r_last_login_time = 0, r_is_deleted = 0, r_delete_time = 0\<rparr>"

definition HandleCreateRole ::
  "('c, 'r, 'm) db_env \<Rightarrow> time_t \<Rightarrow> DBRequest \<Rightarrow> ('c, 'm, 'k) DBService \<Rightarrow> (DBResponse \<times> ('c, 'm, 'k) DBService) outcome" where
  "HandleCreateRole env now q s =
     (let r = (requested_role q)\<lparr>r_create_time := now, r_last_login_time := now, r_is_deleted := 0, r_delete_time := 0\<rparr> in
      bindO (CreateRole env r s) (\<lambda>(ok, s').
        if ok then Ret (no_response\<lparr>ret_code := 0, role_info := Some r\<rparr>, s') else Ret (no_response\<lparr>ret_code := 1\<rparr>, s')))"

definition HandleUpdateRole ::
  "('c, 'r, 'm) db_env \<Rightarrow> time_t \<Rightarrow> DBRequest \<Rightarrow> ('c, 'm, 'k) DBService \<Rightarrow> (DBResponse \<times> ('c, 'm, 'k) DBService) outcome" where
  "HandleUpdateRole env now q s =
     (let r = (requested_role q)\<lparr>r_create_time := 0, r_last_login_time := now, r_is_deleted := q_is_deleted q,
                r_delete_time := q_delete_time q\<rparr> in
      bindO (UpdateRole env r s) (\<lambda>(ok, s'). Ret (of_success ok, s')))"

definition HandleDeleteRole ::
  "('c, 'r, 'm) db_env \<Rightarrow> DBRequest \<Rightarrow> ('c, 'm, 'k) DBService \<Rightarrow> (DBResponse \<times> ('c, 'm, 'k) DBService) outcome" where
  "HandleDeleteRole env q s = bindO (DeleteRole env (q_role_id q) s) (\<lambda>(ok, s'). Ret (of_success ok, s'))"

definition HandleGetRoleList ::
  "('c, 'r, 'm) db_env \<Rightarrow> DBRequest \<Rightarrow> ('c, 'm, 'k) DBService \<Rightarrow> (DBResponse \<times> ('c, 'm, 'k) DBService) outcome" where
  "HandleGetRoleList env q s =
     bindO (GetRoleList env (q_account_id q) s) (\<lambda>(rs, s').
       Ret (case rs of None \<Rightarrow> no_response\<lparr>ret_code := 1\<rparr> | Some rs \<Rightarrow> no_response\<lparr>ret_code := 0, role_list := rs\<rparr>, s'))"

definition HandleGetRoleData ::
  "('c, 'r, 'm) db_env \<Rightarrow> DBRequest \<Rightarrow> ('c, 'm, 'k) DBService \<Rightarrow> (DBResponse \<times> ('c, 'm, 'k) DBService) outcome" where
  "HandleGetRoleData env q s =
     bindO (GetRoleData env (q_role_id q) s) (\<lambda>(r, s').
       Ret (case r of None \<Rightarrow> no_response\<lparr>ret_code := 1\<rparr> | Some r \<Rightarrow> no_response\<lparr>ret_code := 0, role_info := Some r\<rparr>, s'))"

definition handle_request ::
  "('c, 'r, 'm) db_env \<Rightarrow> time_t \<Rightarrow> DBRequest \<Rightarrow> ('c, 'm, 'k) DBService \<Rightarrow> (DBResponse \<times> ('c, 'm, 'k) DBService) outcome" where
  "handle_request env now q =
     (case q_op_type q of
        DB_OP_CREATE_ACCOUNT \<Rightarrow> HandleCreateAccount env now q
      | DB_OP_VERIFY_ACCOUNT \<Rightarrow> HandleVerifyAccount env q
      | DB_OP_GET_ACCOUNT_INFO \<Rightarrow> HandleGetAccountInfo env q
      | DB_OP_SEAL_ACCOUNT \<Rightarrow> HandleSealAccount env now q
      | DB_OP_UNSEAL_ACCOUNT \<Rightarrow> HandleUnsealAccount env q
      | DB_OP_RECORD_LOGIN_LOG \<Rightarrow> HandleRecordLoginLog env now q
      | DB_OP_CREATE_ROLE \<Rightarrow> HandleCreateRole env now q
      | DB_OP_UPDATE_ROLE \<Rightarrow> HandleUpdateRole env now q
      | DB_OP_DELETE_ROLE \<Rightarrow> HandleDeleteRole env q
      | DB_OP_GET_ROLE_LIST \<Rightarrow> HandleGetRoleList env q
      | DB_OP_GET_ROLE_DATA \<Rightarrow> HandleGetRoleData env q
      | DB_OP_UNKNOWN \<Rightarrow> (\<lambda>s. Ret (no_response\<lparr>ret_code := 1\<rparr>, s)))"

section \<open>Clients\<close>

definition MSG_DB_RESP :: u32 where
  "MSG_DB_RESP = 100091"

text \<open>
  \<^verbatim>\<open>HandleRecv\<close>, over what the calls of \<^verbatim>\<open>recv\<close> give, each with the time it returns. A header or a body may come in part: what is
  missing is indeterminate in the header, and in the body what the buffer had before. A request without a body or one
  that does not parse gets no answer. The answer lists what is handed to \<^verbatim>\<open>send\<close> and tells whether the
  connection has ended.
\<close>

definition end_client :: "i32 \<Rightarrow> ('c, 'm, 'k) DBService \<Rightarrow> ((byte list list \<times> bool) \<times> ('c, 'm, 'k) DBService) outcome" where
  "end_client n s = bindO (drop_client n (db_links s)) (\<lambda>(_, l). Ret (([], True), s\<lparr>db_links := l\<rparr>))"

definition answer ::
  "('c, 'r, 'm) db_env \<Rightarrow> time_t \<Rightarrow> byte list \<Rightarrow> ('c, 'm, 'k) DBService \<Rightarrow> (byte list list \<times> ('c, 'm, 'k) DBService) outcome" where
  "answer env now body s =
     (case parse_request env body of
        None \<Rightarrow> Ret ([], s)
      | Some q \<Rightarrow>
          bindO (handle_request env now q s) (\<lambda>(rsp, s').
            case serialize_response env rsp of
              None \<Rightarrow> Ret ([], s')
            | Some bs \<Rightarrow> Ret ([sent_header (little env) MSG_DB_RESP bs, bs], s')))"

definition request_header :: "('c, 'r, 'm) db_env \<Rightarrow> byte list \<Rightarrow> MessageHeader" where
  "request_header env hs =
     received_header (little env) (take header_size (hs @ drop (length hs) (indeterminate_header env)))"

definition room_for :: "nat \<Rightarrow> byte list \<Rightarrow> byte list" where
  "room_for n buf = (if length buf < n then buf @ replicate (n - length buf) 0 else buf)"

fun HandleRecv ::
  "('c, 'r, 'm) db_env \<Rightarrow> i32 \<Rightarrow> byte list \<Rightarrow> (time_t \<times> received) list \<Rightarrow> ('c, 'm, 'k) DBService \<Rightarrow>
   ((byte list list \<times> bool) \<times> ('c, 'm, 'k) DBService) outcome" where
  "HandleRecv env n buf [] s = Ret (([], False), s)"
| "HandleRecv env n buf [r] s =
     (case snd r of
        Got hs \<Rightarrow>
          let len = unat (msg_len (request_header env hs)) in
          if 32768 < len \<or> len < header_size then end_client n s else Ret (([], False), s)
      | _ \<Rightarrow> end_client n s)"
| "HandleRecv env n buf (r # r' # rs) s =
     (case snd r of
        Got hs \<Rightarrow>
          let len = unat (msg_len (request_header env hs)); body_len = len - header_size in
          if 32768 < len \<or> len < header_size then end_client n s
          else if body_len = 0 then HandleRecv env n buf (r' # rs) s
          else
            (case snd r' of
               Got bs \<Rightarrow>
                 let got = take body_len bs; buf' = got @ drop (length got) (room_for body_len buf) in
                 bindO (answer env (fst r') (take body_len buf') s) (\<lambda>(out, s').
                   bindO (HandleRecv env n buf' rs s') (\<lambda>((out', ended), s''). Ret ((out @ out', ended), s'')))
             | _ \<Rightarrow> end_client n s)
      | _ \<Rightarrow> end_client n s)"

text \<open>The connections are kept as the center server keeps them.\<close>

definition db_handleClient :: "time_t \<Rightarrow> 'k \<Rightarrow> ('k links, i32 option) oper" where
  "db_handleClient now client = handleClient now client"

definition db_GetConnectionCount :: "('k links, nat) oper" where
  "db_GetConnectionCount = GetConnectionCount"

definition db_GetClientByConnId :: "u32 \<Rightarrow> ('k links, 'k option) oper" where
  "db_GetClientByConnId n = GetClientByConnId n"

definition db_SetMaxConnections :: "nat \<Rightarrow> ('k links, unit) oper" where
  "db_SetMaxConnections n = SetMaxConnections n"

definition db_UninitService :: "('c, 'm, 'k) DBService \<Rightarrow> (unit \<times> ('c, 'm, 'k) DBService) outcome" where
  "db_UninitService s = bindO (UninitService (db_links s)) (\<lambda>(_, l). Ret ((), s\<lparr>db_links := l, db_connections := []\<rparr>))"

definition db_init :: "'m \<Rightarrow> ('c, 'm, 'k) DBService" where
  "db_init m =
     \<lparr>db_links = idle \<lparr>connections = [], last_heart_time = [], next_conn_id = 1, max_connections = 10000\<rparr>,
      db_connections = [], account_cache = [], name_to_id = [], world = m\<rparr>"

section \<open>The center server\<close>

text \<open>
  What is handed to \<^verbatim>\<open>send\<close>, for the two results of \<^verbatim>\<open>send\<close>; \<open>connected\<close> says whether there is a connection.
\<close>

definition send_two :: "bool \<Rightarrow> u32 \<Rightarrow> string \<Rightarrow> bool \<Rightarrow> int \<Rightarrow> int \<Rightarrow> bool \<times> byte list list" where
  "send_two host mid text connected r1 r2 =
     (let body = bytes_of text; h = sent_header host mid body in
      if \<not> connected then (False, [])
      else if r1 \<le> 0 then (False, [h])
      else (0 < r2, [h, body]))"

definition RegisterToCenterServer :: "bool \<Rightarrow> bool \<Rightarrow> int \<Rightarrow> int \<Rightarrow> bool \<times> byte list list" where
  "RegisterToCenterServer host = send_two host 1001 ''db_server_register''"

definition SendHeartbeatToCenterServer :: "bool \<Rightarrow> bool \<Rightarrow> int \<Rightarrow> int \<Rightarrow> byte list list" where
  "SendHeartbeatToCenterServer host connected r1 r2 = snd (send_two host 1002 ''db_server_heartbeat'' connected r1 r2)"

definition OnTimer5s :: "bool \<Rightarrow> bool \<Rightarrow> int \<Rightarrow> int \<Rightarrow> byte list list" where
  "OnTimer5s host connected r1 r2 = SendHeartbeatToCenterServer host connected r1 r2"

section \<open>Statements are prepared and bound\<close>

text \<open>
  The library as documented: a statement is made and prepared, and has one place for each question mark of its text.
\<close>

definition marks :: "string \<Rightarrow> nat" where
  "marks sql = length (filter (\<lambda>ch. ch = CHR ''?'') sql)"

definition prepares :: "('c, 'r, 'm) libmysql \<Rightarrow> bool" where
  "prepares lib \<longleftrightarrow>
     (\<forall>c sql m. fst (stmt_init lib c m) \<and> fst (stmt_prepare lib c sql m) = 0 \<and> param_count lib c sql m = marks sql)"

lemma marks_of_statements [simp]:
  "marks insert_role_sql = 12" "marks update_role_sql = 12" "marks delete_role_sql = 1" "marks role_sql = 1" "marks role_list_sql = 1"
  "marks insert_account_sql = 7" "marks account_id_sql = 1" "marks password_sql = 1" "marks account_sql = 1" "marks seal_sql = 2"
  "marks unseal_sql = 1" "marks sealed_sql = 1" "marks login_log_sql = 9"
  by (simp_all add: marks_def insert_role_sql_def update_role_sql_def delete_role_sql_def role_sql_def role_list_sql_def
      insert_account_sql_def account_id_sql_def password_sql_def account_sql_def seal_sql_def unseal_sql_def sealed_sql_def
      login_log_sql_def)

text \<open>A step that binds the place \<open>i\<close>, counted from zero, when nothing is bound there yet.\<close>

definition places :: "'c bind_step \<Rightarrow> nat \<Rightarrow> bool" where
  "places b i \<longleftrightarrow> (\<forall>st. i < length (m_binds st) \<longrightarrow> buffer (m_binds st ! i) = None \<longrightarrow>
     (\<exists>x. b st = Ret (st\<lparr>m_binds := (m_binds st)[i := x]\<rparr>)))"

lemma places_number: "1 \<le> idx \<Longrightarrow> nat (idx - 1) = i \<Longrightarrow> places (bind_number t uns bs idx) i"
  by (auto simp: places_def bind_number_fresh)

lemma places_simps [simp]:
  "1 \<le> idx \<Longrightarrow> nat (idx - 1) = i \<Longrightarrow> places (bindInt8 host idx v) i"
  "1 \<le> idx \<Longrightarrow> nat (idx - 1) = i \<Longrightarrow> places (bindInt32 host idx v) i"
  "1 \<le> idx \<Longrightarrow> nat (idx - 1) = i \<Longrightarrow> places (bindInt64 host idx v) i"
  "1 \<le> idx \<Longrightarrow> nat (idx - 1) = i \<Longrightarrow> places (bind64 env idx w) i"
  "1 \<le> idx \<Longrightarrow> nat (idx - 1) = i \<Longrightarrow> places (bind_text idx cs) i"
proof -
  assume i: "1 \<le> idx" "nat (idx - 1) = i"
  show "places (bindInt8 host idx v) i" "places (bindInt32 host idx v) i" "places (bindInt64 host idx v) i" "places (bind64 env idx w) i"
    using places_number [OF i] by (simp_all add: bindInt8_def [abs_def] bindInt32_def [abs_def] bindInt64_def [abs_def] bind64_def [abs_def])
  show "places (bind_text idx cs) i" using i by (auto simp: places_def bind_text_def bindString_fresh)
qed

primrec all_places :: "'c bind_step list \<Rightarrow> nat \<Rightarrow> bool" where
  "all_places [] i \<longleftrightarrow> True"
| "all_places (b # bs) i \<longleftrightarrow> places b i \<and> all_places bs (Suc i)"

lemma bind_all_places:
  "all_places bs i \<Longrightarrow> i + length bs \<le> length (m_binds st) \<Longrightarrow> (\<forall>j. i \<le> j \<longrightarrow> j < length (m_binds st) \<longrightarrow> buffer (m_binds st ! j) = None) \<Longrightarrow>
   \<exists>xs. bind_all bs st = Ret (st\<lparr>m_binds := xs\<rparr>)"
proof (induction bs arbitrary: i st)
  case Nil
  then show ?case by (auto intro: exI [of _ "m_binds st"])
next
  case (Cons b bs)
  have "i < length (m_binds st)" using Cons.prems(2) by simp
  moreover from this have "buffer (m_binds st ! i) = None" using Cons.prems(3) by blast
  moreover have "places b i" using Cons.prems(1) by simp
  ultimately obtain x where b: "b st = Ret (st\<lparr>m_binds := (m_binds st)[i := x]\<rparr>)" by (auto simp: places_def)
  have "\<exists>xs. bind_all bs (st\<lparr>m_binds := (m_binds st)[i := x]\<rparr>) = Ret (st\<lparr>m_binds := (m_binds st)[i := x]\<rparr>\<lparr>m_binds := xs\<rparr>)"
    using Cons.prems by (intro Cons.IH [of "Suc i"]) auto
  with b show ?case by auto
qed

lemma stmt_Create_prepares:
  assumes "prepares lib" and "m_mysql q = Some c"
  shows "\<exists>m'. stmt_Create lib q sql m = Ret (Some \<lparr>stmt_conn = c, stmt_sql = sql, m_binds = replicate (marks sql) no_bind\<rparr>, m')"
  using assms by (auto simp: stmt_Create_def prepares_def split: prod.splits) (metis fst_conv)+

lemma prepared_bound:
  assumes "prepares (libm env)" and "m_mysql q = Some c" and "all_places binds 0" and "length binds = marks sql"
  obtains xs m' where "\<And>f. bindO (stmt_Create (libm env) q sql m) (\<lambda>(st, m').
       case st of None \<Rightarrow> none m' | Some st \<Rightarrow> bindO (bind_all binds st) (\<lambda>st'. f st' m')) =
     f \<lparr>stmt_conn = c, stmt_sql = sql, m_binds = xs\<rparr> m'"
proof -
  obtain m' where m': "stmt_Create (libm env) q sql m = Ret (Some \<lparr>stmt_conn = c, stmt_sql = sql, m_binds = replicate (marks sql) no_bind\<rparr>, m')"
    using stmt_Create_prepares [OF assms(1,2)] by blast
  have "\<exists>xs. bind_all binds \<lparr>stmt_conn = c, stmt_sql = sql, m_binds = replicate (marks sql) no_bind\<rparr> =
      Ret (\<lparr>stmt_conn = c, stmt_sql = sql, m_binds = replicate (marks sql) no_bind\<rparr>\<lparr>m_binds := xs\<rparr>)"
    using assms(3,4) by (intro bind_all_places [of _ 0]) (auto simp: no_bind_def)
  then obtain xs where "bind_all binds \<lparr>stmt_conn = c, stmt_sql = sql, m_binds = replicate (marks sql) no_bind\<rparr> =
      Ret \<lparr>stmt_conn = c, stmt_sql = sql, m_binds = xs\<rparr>" by auto
  with m' show thesis by (intro that [of xs m']) simp
qed

text \<open>What the server makes of a statement: \<open>performed\<close> says that all executions succeed, or that all fail.\<close>

lemma write_answer:
  assumes "prepares (libm env)" and "m_mysql q = Some c" and "all_places binds 0" and "length binds = marks sql"
    and "\<And>c sql bs m. (fst (stmt_execute (libm env) c sql bs m) = 0) = performed"
  shows "\<exists>m'. prepared_write env sql binds q m = Ret (\<not> performed, m')"
proof -
  obtain xs m' where "\<And>f. bindO (stmt_Create (libm env) q sql m) (\<lambda>(st, m').
       case st of None \<Rightarrow> Ret (False, m') | Some st \<Rightarrow> bindO (bind_all binds st) (\<lambda>st'. f st' m')) =
     f \<lparr>stmt_conn = c, stmt_sql = sql, m_binds = xs\<rparr> m'"
    using prepared_bound [OF assms(1-4), where none = "\<lambda>m'. Ret (False, m')"] by blast
  then have "prepared_write env sql binds q m =
      (let (e, m'') = stmt_run (libm env) \<lparr>stmt_conn = c, stmt_sql = sql, m_binds = xs\<rparr> m' in Ret (e \<noteq> 0, m''))"
    unfolding prepared_write_def .
  with assms(5) [of c sql xs m'] show ?thesis by (auto simp: stmt_run_def split: prod.splits)
qed

definition ready :: "('c, 'm, 'k) DBService \<Rightarrow> bool" where
  "ready s \<longleftrightarrow> db_connections s \<noteq> [] \<and> m_mysql (last (db_connections s)) \<noteq> None"

lemma ready_connection:
  "ready s \<Longrightarrow> GetDBConnection s = (Some (last (db_connections s)), s\<lparr>db_connections := butlast (db_connections s)\<rparr>)"
  by (simp add: ready_def GetDBConnection_def)

lemma write_then:
  assumes "prepares (libm env)" and "ready s" and "\<And>c sql bs m. (fst (stmt_execute (libm env) c sql bs m) = 0) = performed"
    and "all_places binds 0" and "length binds = marks sql"
  shows "\<exists>m'. bindO (prepared_write env sql binds (last (db_connections s)) m) (\<lambda>(ok, m). k ok m) = k (\<not> performed) m'"
proof -
  from assms(2) obtain c where "m_mysql (last (db_connections s)) = Some c" by (auto simp: ready_def)
  from write_answer [OF assms(1) this assms(4,5,3)]
  obtain m' where "prepared_write env sql binds (last (db_connections s)) m = Ret (\<not> performed, m')" by blast
  then show ?thesis by auto
qed

text \<open>What each writing operation does on a ready service.\<close>

lemma writing_operations:
  assumes "prepares (libm env)" and "ready s" and "\<And>c sql bs m. (fst (stmt_execute (libm env) c sql bs m) = 0) = performed"
  shows CreateRole_answer: "\<exists>m'. CreateRole env r s = Ret (\<not> performed, s\<lparr>db_connections := butlast (db_connections s), world := m'\<rparr>)"
    and UpdateRole_answer: "\<exists>m'. UpdateRole env r s = Ret (\<not> performed, s\<lparr>db_connections := butlast (db_connections s), world := m'\<rparr>)"
    and DeleteRole_answer: "\<exists>m'. DeleteRole env rid s = Ret (\<not> performed, s\<lparr>db_connections := butlast (db_connections s), world := m'\<rparr>)"
    and RecordLoginLog_answer: "aid \<noteq> 0 \<Longrightarrow> \<exists>m'. RecordLoginLog env now aid chan ver uid ad model phone ip s = Ret (\<not> performed, s\<lparr>world := m'\<rparr>)"
    and CreateAccount_answer: "performed \<Longrightarrow> \<exists>m'. CreateAccount env now name pw chan s = Ret ((False, 0), s\<lparr>world := m'\<rparr>)"
    and SealAccount_answer: "\<exists>s'. SealAccount env aid till s = Ret (\<not> performed, s') \<and> (performed \<longrightarrow> account_cache s' = account_cache s)"
    and UnsealAccount_answer: "\<exists>s'. UnsealAccount env aid s = Ret (\<not> performed, s') \<and> (performed \<longrightarrow> account_cache s' = account_cache s)"
proof -
  note w = write_then [OF assms] and con = ready_connection [OF assms(2)]
  have whole: "butlast (db_connections s) @ [last (db_connections s)] = db_connections s" using assms(2) by (simp add: ready_def)
  show "\<exists>m'. CreateRole env r s = Ret (\<not> performed, s\<lparr>db_connections := butlast (db_connections s), world := m'\<rparr>)"
    unfolding CreateRole_def con prod.case option.case by (rule w) simp_all
  show "\<exists>m'. UpdateRole env r s = Ret (\<not> performed, s\<lparr>db_connections := butlast (db_connections s), world := m'\<rparr>)"
    unfolding UpdateRole_def con prod.case option.case by (rule w) simp_all
  show "\<exists>m'. DeleteRole env rid s = Ret (\<not> performed, s\<lparr>db_connections := butlast (db_connections s), world := m'\<rparr>)"
    unfolding DeleteRole_def con prod.case option.case by (rule w) simp_all
  {
    assume "aid \<noteq> 0"
    then have "\<exists>m'. RecordLoginLog env now aid chan ver uid ad model phone ip s =
        Ret (\<not> performed, ReleaseDBConnection (last (db_connections s)) (s\<lparr>db_connections := butlast (db_connections s), world := m'\<rparr>))"
      unfolding RecordLoginLog_def con prod.case option.case by (simp only: if_False) (rule w; simp)
    then show "\<exists>m'. RecordLoginLog env now aid chan ver uid ad model phone ip s = Ret (\<not> performed, s\<lparr>world := m'\<rparr>)"
      by (simp add: ReleaseDBConnection_def whole)
  }
  {
    assume "performed"
    have "\<exists>m'. CreateAccount env now name pw chan s = (if \<not> \<not> performed
       then Ret ((False, 0), ReleaseDBConnection (last (db_connections s)) (s\<lparr>db_connections := butlast (db_connections s), world := m'\<rparr>))
       else bindO (created_id env name (last (db_connections s)) m') (\<lambda>(aid, m'').
         Ret ((0 < aid, aid), ReleaseDBConnection (last (db_connections s)) (s\<lparr>db_connections := butlast (db_connections s), world := m''\<rparr>))))"
      unfolding CreateAccount_def con prod.case option.case by (rule w) simp_all
    with \<open>performed\<close> show "\<exists>m'. CreateAccount env now name pw chan s = Ret ((False, 0), s\<lparr>world := m'\<rparr>)"
      by (simp add: ReleaseDBConnection_def whole)
  }
  show "\<exists>s'. SealAccount env aid till s = Ret (\<not> performed, s') \<and> (performed \<longrightarrow> account_cache s' = account_cache s)"
  proof -
    obtain m' where "prepared_write env seal_sql [bindInt64 (little env) 1 till, bind64 env 2 aid] (last (db_connections s)) (world s) =
        Ret (\<not> performed, m')"
      using w [of "[bindInt64 (little env) 1 till, bind64 env 2 aid]" seal_sql "world s" "\<lambda>ok m. Ret (ok, m)"]
      by (auto split: prod.splits)
    with con show ?thesis by (simp add: SealAccount_def Let_def ReleaseDBConnection_def)
  qed
  show "\<exists>s'. UnsealAccount env aid s = Ret (\<not> performed, s') \<and> (performed \<longrightarrow> account_cache s' = account_cache s)"
  proof -
    obtain m' where "prepared_write env unseal_sql [bind64 env 1 aid] (last (db_connections s)) (world s) = Ret (\<not> performed, m')"
      using w [of "[bind64 env 1 aid]" unseal_sql "world s" "\<lambda>ok m. Ret (ok, m)"] by (auto split: prod.splits)
    with con show ?thesis by (simp add: UnsealAccount_def Let_def ReleaseDBConnection_def)
  qed
qed

definition writes :: "DBRequest \<Rightarrow> bool" where
  "writes q \<longleftrightarrow> q_op_type q \<in> {DB_OP_SEAL_ACCOUNT, DB_OP_UNSEAL_ACCOUNT, DB_OP_CREATE_ROLE, DB_OP_UPDATE_ROLE, DB_OP_DELETE_ROLE} \<or>
     (q_op_type q = DB_OP_RECORD_LOGIN_LOG \<and> q_account_id q \<noteq> 0)"

lemma of_success_code [simp]: "ret_code (of_success ok) = (if ok then 0 else 1)"
  by (simp add: of_success_def)

text \<open>
  C39. Writes are reported the wrong way round. \<^verbatim>\<open>MySQLStmt::execute\<close> gives zero for success, and the operations take zero
  for failure: on a connection that is ready and on which statements can be prepared, a seal, an unseal, a login record, a role that is
  created, changed or deleted is answered with the return code 1 when the database has performed it, and with 0 when it has
  refused it. An account that was created is answered with 1 as well. What was performed does not reach the cache.
\<close>

theorem writes_report_backwards:
  assumes "prepares (libm env)" and "ready s"
    and "\<And>c sql bs m. (fst (stmt_execute (libm env) c sql bs m) = 0) = performed"
    and "writes q \<or> (q_op_type q = DB_OP_CREATE_ACCOUNT \<and> performed)"
  shows "\<exists>p s'. handle_request env now q s = Ret (p, s') \<and> ret_code p = (if performed then 1 else 0) \<and>
    (performed \<longrightarrow> account_cache s' = account_cache s)"
proof -
  note ops = writing_operations [OF assms(1-3)]
  consider "q_op_type q = DB_OP_SEAL_ACCOUNT" | "q_op_type q = DB_OP_UNSEAL_ACCOUNT" | "q_op_type q = DB_OP_CREATE_ROLE"
    | "q_op_type q = DB_OP_UPDATE_ROLE" | "q_op_type q = DB_OP_DELETE_ROLE"
    | "q_op_type q = DB_OP_RECORD_LOGIN_LOG" "q_account_id q \<noteq> 0" | "q_op_type q = DB_OP_CREATE_ACCOUNT" performed
    using assms(4) by (auto simp: writes_def)
  then show ?thesis
  proof cases
    case 1
    obtain s' where "SealAccount env (q_account_id q) (now + q_seal_time q) s = Ret (\<not> performed, s')"
      "performed \<longrightarrow> account_cache s' = account_cache s" using ops(6) by blast
    with 1 show ?thesis by (simp add: handle_request_def HandleSealAccount_def)
  next
    case 2
    obtain s' where "UnsealAccount env (q_account_id q) s = Ret (\<not> performed, s')"
      "performed \<longrightarrow> account_cache s' = account_cache s" using ops(7) by blast
    with 2 show ?thesis by (simp add: handle_request_def HandleUnsealAccount_def)
  next
    case 3
    define r where "r = (requested_role q)\<lparr>r_create_time := now, r_last_login_time := now, r_is_deleted := 0, r_delete_time := 0\<rparr>"
    obtain m' where "CreateRole env r s = Ret (\<not> performed, s\<lparr>db_connections := butlast (db_connections s), world := m'\<rparr>)"
      using ops(1) by blast
    with 3 show ?thesis by (auto simp: handle_request_def HandleCreateRole_def r_def)
  next
    case 4
    define r where "r = (requested_role q)\<lparr>r_create_time := 0, r_last_login_time := now, r_is_deleted := q_is_deleted q,
      r_delete_time := q_delete_time q\<rparr>"
    obtain m' where "UpdateRole env r s = Ret (\<not> performed, s\<lparr>db_connections := butlast (db_connections s), world := m'\<rparr>)"
      using ops(2) by blast
    with 4 show ?thesis by (auto simp: handle_request_def HandleUpdateRole_def r_def)
  next
    case 5
    obtain m' where "DeleteRole env (q_role_id q) s = Ret (\<not> performed, s\<lparr>db_connections := butlast (db_connections s), world := m'\<rparr>)"
      using ops(3) by blast
    with 5 show ?thesis by (simp add: handle_request_def HandleDeleteRole_def)
  next
    case 6
    obtain m' where "RecordLoginLog env now (q_account_id q) (q_channel q) (q_version q) (q_uuid q) (q_idfa q) (q_imodel q) (q_imei q) (q_ip q) s =
        Ret (\<not> performed, s\<lparr>world := m'\<rparr>)" using ops(4) [OF 6(2)] by blast
    with 6 show ?thesis by (simp add: handle_request_def HandleRecordLoginLog_def)
  next
    case 7
    obtain m' where "CreateAccount env now (q_account_name q) (q_password q) (q_channel q) s = Ret ((False, 0), s\<lparr>world := m'\<rparr>)"
      using ops(5) [OF 7(2)] by blast
    with 7 show ?thesis by (simp add: handle_request_def HandleCreateAccount_def)
  qed
qed

section \<open>Role requests use up the connections\<close>

lemma pool_simps [simp]:
  "db_connections (UpdateAccountCache info s) = db_connections s"
  "db_connections (ReleaseDBConnection q s) = db_connections s @ [q]"
  by (simp_all add: UpdateAccountCache_def ReleaseDBConnection_def)

lemma connection_taken:
  "fst (GetDBConnection s) = Some q \<Longrightarrow> db_connections (snd (GetDBConnection s)) = butlast (db_connections s) \<and>
   butlast (db_connections s) @ [q] = db_connections s"
  by (auto simp: GetDBConnection_def split: if_splits)

lemma connection_missing: "fst (GetDBConnection s) = None \<Longrightarrow> snd (GetDBConnection s) = s \<and> db_connections s = []"
  by (auto simp: GetDBConnection_def split: if_splits)

lemma account_operations_keep:
  "CreateAccount env now name pw chan s = Ret (r1, s') \<Longrightarrow> db_connections s' = db_connections s"
  "VerifyAccount env name pw s = Ret (r1, s') \<Longrightarrow> db_connections s' = db_connections s"
  "GetAccountInfo env aid s = Ret (r2, s') \<Longrightarrow> db_connections s' = db_connections s"
  "SealAccount env aid till s = Ret (r3, s') \<Longrightarrow> db_connections s' = db_connections s"
  "UnsealAccount env aid s = Ret (r3, s') \<Longrightarrow> db_connections s' = db_connections s"
  "RecordLoginLog env now aid chan ver uid ad model phone ip s = Ret (r3, s') \<Longrightarrow> db_connections s' = db_connections s"
  by (auto simp: CreateAccount_def VerifyAccount_def GetAccountInfo_def SealAccount_def UnsealAccount_def RecordLoginLog_def Let_def
      case_prod_beta prod_eq_iff split: option.splits if_splits dest!: connection_taken connection_missing)

lemma role_operations_take:
  "CreateRole env r s = Ret (r3, s') \<Longrightarrow> db_connections s' = butlast (db_connections s)"
  "UpdateRole env r s = Ret (r3, s') \<Longrightarrow> db_connections s' = butlast (db_connections s)"
  "DeleteRole env rid s = Ret (r3, s') \<Longrightarrow> db_connections s' = butlast (db_connections s)"
  "GetRoleData env rid s = Ret (r4, s') \<Longrightarrow> db_connections s' = butlast (db_connections s)"
  "GetRoleList env aid s = Ret (r5, s') \<Longrightarrow> db_connections s' = butlast (db_connections s)"
  by (auto simp: CreateRole_def UpdateRole_def DeleteRole_def GetRoleData_def GetRoleList_def Let_def
      case_prod_beta prod_eq_iff split: option.splits if_splits dest!: connection_taken connection_missing)

definition role_request :: "DBRequest \<Rightarrow> bool" where
  "role_request q \<longleftrightarrow> q_op_type q \<in> {DB_OP_CREATE_ROLE, DB_OP_UPDATE_ROLE, DB_OP_DELETE_ROLE, DB_OP_GET_ROLE_LIST, DB_OP_GET_ROLE_DATA}"

lemma request_connections:
  assumes "handle_request env now q s = Ret (p, s')"
  shows "db_connections s' = (if role_request q then butlast (db_connections s) else db_connections s)"
  using assms
  by (cases "q_op_type q")
    (auto simp: handle_request_def role_request_def HandleCreateAccount_def HandleVerifyAccount_def HandleGetAccountInfo_def
      HandleSealAccount_def HandleUnsealAccount_def HandleRecordLoginLog_def HandleCreateRole_def HandleUpdateRole_def
      HandleDeleteRole_def HandleGetRoleList_def HandleGetRoleData_def Let_def
      split: if_splits dest!: account_operations_keep role_operations_take)

primrec handle_requests ::
  "('c, 'r, 'm) db_env \<Rightarrow> (time_t \<times> DBRequest) list \<Rightarrow> ('c, 'm, 'k) DBService \<Rightarrow>
   (DBResponse list \<times> ('c, 'm, 'k) DBService) outcome" where
  "handle_requests env [] s = Ret ([], s)"
| "handle_requests env (q # qs) s =
     bindO (handle_request env (fst q) (snd q) s) (\<lambda>(p, s'). bindO (handle_requests env qs s') (\<lambda>(ps, s''). Ret (p # ps, s'')))"

lemma empty_pool_refuses:
  assumes "db_connections s = []" and "q_op_type q = DB_OP_GET_ACCOUNT_INFO \<longrightarrow> GetAccountFromCache (q_account_id q) s = None"
  shows "handle_request env now q s = Ret (no_response\<lparr>ret_code := 1\<rparr>, s)"
proof -
  have "GetDBConnection s = (None, s)" using assms(1) by (simp add: GetDBConnection_def)
  then show ?thesis using assms(2)
    by (cases "q_op_type q")
      (simp_all add: handle_request_def of_success_def HandleCreateAccount_def HandleVerifyAccount_def HandleGetAccountInfo_def
        HandleSealAccount_def HandleUnsealAccount_def HandleRecordLoginLog_def HandleCreateRole_def HandleUpdateRole_def
        HandleDeleteRole_def HandleGetRoleList_def HandleGetRoleData_def CreateAccount_def VerifyAccount_def GetAccountInfo_def
        SealAccount_def UnsealAccount_def RecordLoginLog_def CreateRole_def UpdateRole_def DeleteRole_def GetRoleList_def
        GetRoleData_def Let_def)
qed

text \<open>
  Every request about a role keeps the connection it took, whether it succeeds or not; the other requests put theirs
  back. So after any requests the service has left the connections it had, less one for each role request, and
  when there are none left it refuses everything, but for the account information in its cache.
\<close>

theorem role_requests_drain:
  assumes "handle_requests env qs s = Ret (ps, s')"
  shows "db_connections s' =
      take (length (db_connections s) - length (filter (\<lambda>q. role_request (snd q)) qs)) (db_connections s) \<and>
    (length (db_connections s) \<le> length (filter (\<lambda>q. role_request (snd q)) qs) \<longrightarrow>
      (q_op_type q = DB_OP_GET_ACCOUNT_INFO \<longrightarrow> GetAccountFromCache (q_account_id q) s' = None) \<longrightarrow>
      handle_request env now q s' = Ret (no_response\<lparr>ret_code := 1\<rparr>, s'))"
proof -
  have left: "db_connections s' = take (length (db_connections s) - length (filter (\<lambda>q. role_request (snd q)) qs)) (db_connections s)"
    using assms
  proof (induction qs arbitrary: s ps)
    case (Cons q qs)
    then obtain p s1 ps' where q: "handle_request env (fst q) (snd q) s = Ret (p, s1)" and r: "handle_requests env qs s1 = Ret (ps', s')"
      by (auto split: prod.splits)
    from Cons.IH [OF r] request_connections [OF q] show ?case
      by (cases "role_request (snd q)") (simp_all add: butlast_conv_take min_def)
  qed simp
  moreover from left have "db_connections s' = []" if "length (db_connections s) \<le> length (filter (\<lambda>q. role_request (snd q)) qs)"
    using that by simp
  ultimately show ?thesis using empty_pool_refuses by blast
qed

section \<open>Passwords\<close>

lemma length_Sha1Hash: "length (H (bytes_of pw)) = 20 \<Longrightarrow> length (Sha1Hash H pw) = 40"
proof -
  have "length (concat (map (\<lambda>b. hexstring_from_data [b]) bs)) = 2 * length bs" for bs by (induction bs) simp_all
  then show "length (H (bytes_of pw)) = 20 \<Longrightarrow> length (Sha1Hash H pw) = 40" by (simp add: Sha1Hash_def)
qed

lemma query_answer:
  fixes env :: "('c, 'r, 'm) db_env"
  assumes "prepares (libm env)" and "m_mysql q = Some c" and "all_places binds 0" and "length binds = marks sql"
  shows "\<exists>xs m'. prepared_query env sql binds q m =
    (let (res, m'') = stmt_query (libm env) \<lparr>stmt_conn = c, stmt_sql = sql, m_binds = xs\<rparr> m' in Ret (Some res, m''))"
proof -
  obtain xs m' where f: "\<And>f. bindO (stmt_Create (libm env) q sql m) (\<lambda>(st, m').
       case st of None \<Rightarrow> Ret (None :: 'r MySQLStmtRes option, m') | Some st \<Rightarrow> bindO (bind_all binds st) (\<lambda>st'. f st' m')) =
     f \<lparr>stmt_conn = c, stmt_sql = sql, m_binds = xs\<rparr> m'"
    using prepared_bound [OF assms, where none = "\<lambda>m'. Ret (None, m')"] by blast
  show ?thesis unfolding prepared_query_def by (intro exI [of _ xs] exI [of _ m']) (rule f)
qed

text \<open>
  The password of an account is stored as the 40 hexadecimal digits of its SHA-1 and compared with the 32 of an MD5:
  no account that \<^verbatim>\<open>CreateAccount\<close> has stored is ever verified, with whichever password.
\<close>

theorem created_accounts_never_verify:
  assumes "\<And>bs. length (MD5 env bs) = 16" and "\<And>bs. length (SHA1 env bs) = 20"
    and "ready s" and "prepared_query env password_sql [bind_text 1 name] (last (db_connections s)) (world s) = Ret (Some res, m)"
    and "next_row (libm env) res = (True, row)" and "getInt64 (little env) row 0 = Ret aid"
    and "getString row 1 = Ret (Sha1Hash (SHA1 env) stored_pw)"
  shows "VerifyAccount env name pw s = Ret ((False, word_of_int aid), s\<lparr>world := m\<rparr>)"
proof -
  have "length (md5 (MD5 env) (bytes_of pw)) = 32" by (simp add: md5_def md5sum_def assms(1))
  moreover have "length (Sha1Hash (SHA1 env) stored_pw) = 40" by (rule length_Sha1Hash) (rule assms(2))
  ultimately have "Sha1Hash (SHA1 env) stored_pw \<noteq> md5 (MD5 env) (bytes_of pw)" by auto
  moreover have "butlast (db_connections s) @ [last (db_connections s)] = db_connections s" using assms(3) by (simp add: ready_def)
  ultimately show ?thesis
    using ready_connection [OF assms(3)] assms(4-7)
    by (simp add: VerifyAccount_def Let_def ReleaseDBConnection_def)
qed

text \<open>
  Registering a name twice. When the insertion fails, as it does for a name that exists, the operation goes on as if it
  had succeeded; and with no last identifier it finds the account of that name and answers with it, as created.
\<close>

lemma existing_account_is_created:
  assumes "ready s"
    and "prepared_write env insert_account_sql
          [bind_text 1 name, bind_text 2 (Sha1Hash (SHA1 env) pw), bindInt32 (little env) 3 chan, bindInt64 (little env) 4 now,
           bindInt64 (little env) 5 now, bindInt32 (little env) 6 0, bindInt64 (little env) 7 0]
          (last (db_connections s)) (world s) = Ret (True, m)"
    and "getLastInsertId (libm env) (last (db_connections s)) m = Ret 0"
    and "prepared_query env account_id_sql [bind_text 1 name] (last (db_connections s)) m = Ret (Some res, m')"
    and "next_row (libm env) res = (True, row)" and "getInt64 (little env) row 0 = Ret (uint (aid :: u64))" and "aid \<noteq> 0"
  shows "CreateAccount env now name pw chan s = Ret ((True, aid), s\<lparr>world := m'\<rparr>)"
proof -
  have "butlast (db_connections s) @ [last (db_connections s)] = db_connections s" using assms(1) by (simp add: ready_def)
  then show ?thesis
    using ready_connection [OF assms(1)] assms(2-7)
    by (simp add: CreateAccount_def created_id_def Let_def ReleaseDBConnection_def word_gt_0)
qed

section \<open>Columns narrower than what is read\<close>

text \<open>The columns of the tables as \<open>db_scripts/create_db.sql\<close> makes them.\<close>

definition account_columns :: "(field_type \<times> nat) list" where
  "account_columns =
     [(MYSQL_TYPE_LONGLONG, 20), (MYSQL_TYPE_VAR_STRING, 256), (MYSQL_TYPE_LONG, 11), (MYSQL_TYPE_LONG, 10),
      (MYSQL_TYPE_LONG, 10), (MYSQL_TYPE_TINY, 4), (MYSQL_TYPE_LONG, 10)]"

definition role_columns :: "(field_type \<times> nat) list" where
  "role_columns =
     [(MYSQL_TYPE_LONGLONG, 20), (MYSQL_TYPE_LONGLONG, 20), (MYSQL_TYPE_LONG, 10), (MYSQL_TYPE_VAR_STRING, 256),
      (MYSQL_TYPE_TINY, 4), (MYSQL_TYPE_LONG, 10), (MYSQL_TYPE_LONGLONG, 20), (MYSQL_TYPE_LONG, 10), (MYSQL_TYPE_LONG, 10),
      (MYSQL_TYPE_LONG, 10), (MYSQL_TYPE_LONG, 10), (MYSQL_TYPE_TINY, 4), (MYSQL_TYPE_LONG, 10)]"

text \<open>A row is there for every query, and is fetched into buffers that keep their sizes.\<close>

definition finds_rows :: "('c, 'r, 'm) libmysql \<Rightarrow> bool" where
  "finds_rows lib \<longleftrightarrow>
     (\<forall>c sql bs m. bind_errno lib c sql bs m = 0) \<and> (\<forall>c sql cells m. bind_result lib c sql cells m = 0) \<and>
     (\<forall>c sql m. \<exists>r rs m'. stmt_store_result lib c sql m = (0, r # rs, m')) \<and>
     (\<forall>r cells. \<exists>cells'. stmt_fetch lib r cells = (cells', 0) \<and> map (length \<circ> cell_data) cells' = map (length \<circ> cell_data) cells)"

lemma found_row:
  assumes "prepares (libm env)" and "ready s" and "all_places binds 0" and "length binds = marks sql" and "finds_rows (libm env)"
    and "\<And>c m. result_metadata (libm env) c sql m = Some cols"
  obtains res m' row where "prepared_query env sql binds (last (db_connections s)) m = Ret (Some res, m')"
    "next_row (libm env) res = (True, row)"
    "map (length \<circ> cell_data) (res_cells row) = map (\<lambda>f. cell_size (fst f) (snd f)) cols"
proof -
  from assms(2) obtain c where c: "m_mysql (last (db_connections s)) = Some c" by (auto simp: ready_def)
  obtain xs m1 where q: "prepared_query env sql binds (last (db_connections s)) m =
      (let (res, m'') = stmt_query (libm env) \<lparr>stmt_conn = c, stmt_sql = sql, m_binds = xs\<rparr> m1 in Ret (Some res, m''))"
    using query_answer [OF assms(1) c assms(3,4)] by blast
  obtain e m2 where x: "stmt_execute (libm env) c sql xs m1 = (e, m2)" by (cases "stmt_execute (libm env) c sql xs m1") auto
  obtain r rs m3 where r: "stmt_store_result (libm env) c sql m2 = (0, r # rs, m3)" using assms(5) unfolding finds_rows_def by meson
  obtain cells where f: "stmt_fetch (libm env) r (map alloc cols) = (cells, 0)"
    "map (length \<circ> cell_data) cells = map (length \<circ> cell_data) (map alloc cols)" using assms(5) unfolding finds_rows_def by meson
  have "stmt_query (libm env) \<lparr>stmt_conn = c, stmt_sql = sql, m_binds = xs\<rparr> m1 =
      (\<lparr>res_errno = 0, res_cells = map alloc cols, res_rows = r # rs\<rparr>, m3)"
    using assms(5,6) x r by (simp add: stmt_query_def stmt_run_def Let_def finds_rows_def)
  with q f show thesis
    by (intro that [of "\<lparr>res_errno = 0, res_cells = map alloc cols, res_rows = r # rs\<rparr>" m3
          "\<lparr>res_errno = 0, res_cells = cells, res_rows = rs\<rparr>"]) (simp_all add: next_row_def comp_def)
qed

lemma get_size_fault:
  "map (length \<circ> cell_data) (res_cells row) = sizes \<Longrightarrow> idx < length sizes \<Longrightarrow> sizes ! idx < n \<Longrightarrow> get_int n host row idx = Fault OutOfRange"
  by (auto simp: get_int_def)

lemma get_faults_only:
  "get_int n host row idx = Fault e \<Longrightarrow> e = OutOfRange" "getString row idx = Fault e \<Longrightarrow> e = OutOfRange"
  by (auto simp: get_int_def getString_def split: if_splits)

text \<open>
  Reading past the buffers. The times of the account table are 32 bit columns and its seal flag has one byte, but they are
  read as 64 and 32 bits from buffers of the size of the columns; and so are the career and the times of a role. An
  account that is not in the cache, or a role, that exists cannot be read without a fault.
\<close>

theorem rows_are_overread:
  assumes "prepares (libm env)" and "ready s" and "finds_rows (libm env)"
    and "\<And>c m. result_metadata (libm env) c account_sql m = Some account_columns"
    and "\<And>c m. result_metadata (libm env) c role_sql m = Some role_columns"
    and "GetAccountFromCache aid s = None"
  shows "GetAccountInfo env aid s = Fault OutOfRange \<and> GetRoleData env rid s = Fault OutOfRange"
proof
  note con = ready_connection [OF assms(2)]
  have fault: "bindO x k = Fault OutOfRange" if "\<And>e. x = Fault e \<Longrightarrow> e = OutOfRange" "\<And>v. x = Ret v \<Longrightarrow> k v = Fault OutOfRange"
    for x :: "'x outcome" and k :: "'x \<Rightarrow> 'y outcome"
    using that by (cases x) auto
  show "GetAccountInfo env aid s = Fault OutOfRange"
  proof -
    obtain res m' row where r: "prepared_query env account_sql [bind64 env 1 aid] (last (db_connections s)) (world s) = Ret (Some res, m')"
      "next_row (libm env) res = (True, row)"
      "map (length \<circ> cell_data) (res_cells row) = map (\<lambda>f. cell_size (fst f) (snd f)) account_columns"
      by (rule found_row [OF assms(1,2) _ _ assms(3,4), of "[bind64 env 1 aid]"]) simp_all
    have "getInt64 (little env) row 3 = Fault OutOfRange"
      unfolding getInt64_def by (rule get_size_fault [OF r(3)]) (simp_all add: account_columns_def cell_size_def)
    then have "bindO (getInt64 (little env) row 0) (\<lambda>i. bindO (getString row 1) (\<lambda>name. bindO (getInt32 (little env) row 2) (\<lambda>chan.
        bindO (getInt64 (little env) row 3) (k i name chan)))) = Fault OutOfRange"
      for k :: "int \<Rightarrow> string \<Rightarrow> int \<Rightarrow> int \<Rightarrow> 'x outcome"
      by (intro fault) (auto simp: getInt64_def getInt32_def dest: get_faults_only)
    with con r(1,2) assms(6) show ?thesis by (simp add: GetAccountInfo_def Let_def)
  qed
  show "GetRoleData env rid s = Fault OutOfRange"
  proof -
    obtain res m' row where r: "prepared_query env role_sql [bind64 env 1 rid] (last (db_connections s)) (world s) = Ret (Some res, m')"
      "next_row (libm env) res = (True, row)"
      "map (length \<circ> cell_data) (res_cells row) = map (\<lambda>f. cell_size (fst f) (snd f)) role_columns"
      by (rule found_row [OF assms(1,2) _ _ assms(3,5), of "[bind64 env 1 rid]"]) simp_all
    have "getInt32 (little env) row 4 = Fault OutOfRange"
      unfolding getInt32_def by (rule get_size_fault [OF r(3)]) (simp_all add: role_columns_def cell_size_def)
    then have start: "bindO (getInt64 (little env) row 0) (\<lambda>a. bindO (getInt64 (little env) row 1) (\<lambda>b. bindO (getInt32 (little env) row 2) (\<lambda>c.
        bindO (getString row 3) (\<lambda>d. bindO (getInt32 (little env) row 4) (k a b c d))))) = Fault OutOfRange"
      for k :: "int \<Rightarrow> int \<Rightarrow> int \<Rightarrow> string \<Rightarrow> int \<Rightarrow> 'x outcome"
      by (intro fault) (auto simp: getInt64_def getInt32_def dest: get_faults_only)
    have "role_of_row (little env) row = Fault OutOfRange" unfolding role_of_row_def by (rule start)
    then show ?thesis using con r(1,2) by (simp add: GetRoleData_def Let_def)
  qed
qed

section \<open>A concrete library\<close>

text \<open>
  A library for the witnesses: it performs every statement or refuses every one, and has one row for each query, whose
  cells hold zeros but for the text \<open>stored\<close>.
\<close>

definition sample_mysql :: "bool \<Rightarrow> (field_type \<times> nat) list \<Rightarrow> byte list \<Rightarrow> (nat, unit, unit) libmysql" where
  "sample_mysql performed cols stored =
     \<lparr>lexical_cast = \<lambda>_. None, real_connect = \<lambda>_ _ _ _ _ m. (Some 0, m), mysql_ping = \<lambda>_ m. (0, m), mysql_query = \<lambda>_ _ m. (0, m),
      store_result = \<lambda>_ m. (None, m), select_db = \<lambda>_ _ m. (0, m), insert_id = \<lambda>_ _. 0, affected_rows = \<lambda>_ _. 0,
      stmt_init = \<lambda>_ m. (True, m), stmt_prepare = \<lambda>_ _ m. (0, m), param_count = \<lambda>_ sql _. marks sql, bind_errno = \<lambda>_ _ _ _. 0,
      stmt_execute = \<lambda>_ _ _ m. (if performed then 0 else 1, m),
      result_metadata = \<lambda>_ sql _. Some (if sql = role_sql then role_columns else cols),
      bind_result = \<lambda>_ _ _ _. 0, stmt_store_result = \<lambda>_ _ m. (0, [()], m),
      stmt_fetch = \<lambda>_ cs. (map (\<lambda>cl. if cell_type cl = MYSQL_TYPE_VAR_STRING
          then cl\<lparr>real_length := min (length stored) (length (cell_data cl)),
                  cell_data := take (length (cell_data cl)) stored @ drop (length stored) (cell_data cl)\<rparr> else cl) cs, 0)\<rparr>"

definition sample_env :: "bool \<Rightarrow> (field_type \<times> nat) list \<Rightarrow> byte list \<Rightarrow> (nat, unit, unit) db_env" where
  "sample_env performed cols stored =
     \<lparr>libm = sample_mysql performed cols stored, little = True, MD5 = \<lambda>_. replicate 16 0, SHA1 = \<lambda>_. replicate 20 0,
      parse_request = \<lambda>_. None, serialize_response = \<lambda>_. None,
      indeterminate = \<lparr>account_id = 0, account_name = [], password = [], channel = 0, create_time = 0, last_login_time = 0,
        last_login_ip = 0, is_sealed = False, seal_end_time = 0, review = False\<rparr>, indeterminate_header = []\<rparr>"

definition sample_service :: "(nat, unit, unit) DBService" where
  "sample_service = (db_init ())\<lparr>db_connections := [(new_MySQL [])\<lparr>m_mysql := Some 0\<rparr>]\<rparr>"

definition sample_request :: "DBOperationType \<Rightarrow> DBRequest" where
  "sample_request t =
     \<lparr>q_op_type = t, q_account_id = 7, q_account_name = ''ann'', q_password = ''pw'', q_channel = 0, q_seal_time = 60, q_version = [],
      q_uuid = [], q_idfa = [], q_imodel = [], q_imei = [], q_ip = 0, q_role_id = 1, q_role_name = [], q_server_id = 0, q_career = 0,
      q_level = 0, q_exp = 0, q_head_id = 0, q_portrait_frame = 0, q_is_deleted = 0, q_delete_time = 0\<rparr>"

lemma sample_simps [simp]:
  "prepares (sample_mysql performed cols stored)" "ready sample_service"
  "libm (sample_env performed cols stored) = sample_mysql performed cols stored"
  by (simp_all add: prepares_def sample_mysql_def sample_env_def ready_def sample_service_def)

lemma sample_execute: "(fst (stmt_execute (sample_mysql performed cols stored) c sql bs m) = 0) = performed"
  by (simp add: sample_mysql_def)

theorem writes_report_backwards_witness:
  "\<exists>p s'. handle_request (sample_env True [] []) 5 (sample_request DB_OP_SEAL_ACCOUNT) sample_service = Ret (p, s') \<and> ret_code p = 1"
  using writes_report_backwards [of "sample_env True [] []" sample_service True "sample_request DB_OP_SEAL_ACCOUNT" 5]
  by (auto simp: sample_execute writes_def sample_request_def)

theorem role_requests_drain_witness:
  "\<exists>ps s'. handle_requests (sample_env True [] []) [(5, sample_request DB_OP_DELETE_ROLE)] sample_service = Ret (ps, s') \<and>
     handle_request (sample_env True [] []) 6 (sample_request DB_OP_CREATE_ACCOUNT) s' = Ret (no_response\<lparr>ret_code := 1\<rparr>, s')"
proof -
  obtain p s' where "handle_request (sample_env True [] []) 5 (sample_request DB_OP_DELETE_ROLE) sample_service = Ret (p, s')"
    using writes_report_backwards [of "sample_env True [] []" sample_service True "sample_request DB_OP_DELETE_ROLE" 5]
    by (auto simp: sample_execute writes_def sample_request_def)
  then have r: "handle_requests (sample_env True [] []) [(5, sample_request DB_OP_DELETE_ROLE)] sample_service = Ret ([p], s')" by simp
  have n: "length (db_connections sample_service) \<le> length (filter (\<lambda>q. role_request (snd q)) [(5 :: int, sample_request DB_OP_DELETE_ROLE)])"
    by (simp add: sample_service_def sample_request_def role_request_def)
  have c: "q_op_type (sample_request DB_OP_CREATE_ACCOUNT) = DB_OP_GET_ACCOUNT_INFO \<longrightarrow>
      GetAccountFromCache (q_account_id (sample_request DB_OP_CREATE_ACCOUNT)) s' = None"
    by (simp add: sample_request_def)
  from role_requests_drain [OF r] n c r show ?thesis by blast
qed

theorem rows_are_overread_witness:
  "GetAccountInfo (sample_env True account_columns []) 7 sample_service = Fault OutOfRange"
proof -
  have "GetAccountInfo (sample_env True account_columns []) 7 sample_service = Fault OutOfRange \<and>
      GetRoleData (sample_env True account_columns []) 1 sample_service = Fault OutOfRange"
  proof (rule rows_are_overread)
    show "finds_rows (libm (sample_env True account_columns []))" by (auto simp: finds_rows_def sample_mysql_def)
    show "GetAccountFromCache 7 sample_service = None" by (simp add: GetAccountFromCache_def sample_service_def db_init_def)
    have "account_sql \<noteq> role_sql" by (simp add: account_sql_def role_sql_def)
    then show "\<And>c m. result_metadata (libm (sample_env True account_columns [])) c account_sql m = Some account_columns"
      by (simp add: sample_mysql_def)
    show "\<And>c m. result_metadata (libm (sample_env True account_columns [])) c role_sql m = Some role_columns"
      by (simp add: sample_mysql_def)
  qed simp_all
  then show ?thesis ..
qed

theorem created_accounts_never_verify_witness:
  "\<exists>s'. VerifyAccount (sample_env True [(MYSQL_TYPE_LONGLONG, 20), (MYSQL_TYPE_VAR_STRING, 128)] (bytes_of (replicate 40 (CHR ''0''))))
     ''ann'' ''pw'' sample_service = Ret ((False, 0), s')"
proof -
  let ?env = "sample_env True [(MYSQL_TYPE_LONGLONG, 20), (MYSQL_TYPE_VAR_STRING, 128)] (bytes_of (replicate 40 (CHR ''0'')))"
  have zeros: "le_value (replicate n 0) = 0" for n by (induction n) simp_all
  have sql: "password_sql \<noteq> role_sql" by (simp add: password_sql_def role_sql_def)
  have q: "m_mysql (last (db_connections sample_service)) = Some 0" by (simp add: sample_service_def)
  obtain xs m' where p: "prepared_query ?env password_sql [bind_text 1 ''ann''] (last (db_connections sample_service)) (world sample_service) =
    (let (res, m'') = stmt_query (libm ?env) \<lparr>stmt_conn = 0, stmt_sql = password_sql, m_binds = xs\<rparr> m' in Ret (Some res, m''))"
    using query_answer [of ?env, OF _ q, of "[bind_text 1 ''ann'']" password_sql] by auto
  define res where "res = \<lparr>res_errno = 0, res_cells = map alloc [(MYSQL_TYPE_LONGLONG, 20), (MYSQL_TYPE_VAR_STRING, 128)], res_rows = [()]\<rparr>"
  have r: "stmt_query (libm ?env) \<lparr>stmt_conn = 0, stmt_sql = password_sql, m_binds = xs\<rparr> m' = (res, m')"
    using sql by (simp add: stmt_query_def stmt_run_def sample_mysql_def res_def)
  obtain row where row: "next_row (libm ?env) res = (True, row)"
    "getInt64 (little ?env) row 0 = Ret 0" "getString row 1 = Ret (replicate 40 (CHR ''0''))"
    by (simp add: next_row_def res_def sample_mysql_def getInt64_def get_int_def getString_def alloc_def cell_size_def sample_env_def
        bytes_int_def of_memory_def in_order_def zeros)
  have digits: "hexstring_from_data [0] = ''00''" by (simp add: hex_char_def char_of_eq_iff)
  have "Sha1Hash (SHA1 ?env) ''x'' = replicate 40 (CHR ''0'')"
    using digits by (simp add: Sha1Hash_def sample_env_def numeral_eq_Suc del: hexstring_from_data.simps)
  with row have "getString row 1 = Ret (Sha1Hash (SHA1 ?env) ''x'')" by simp
  from created_accounts_never_verify [of ?env sample_service "''ann''" res m', OF _ _ _ _ row(1,2) this, of "''pw''"] p r
  show ?thesis by (auto simp: sample_env_def)
qed

section \<open>The cache\<close>

text \<open>Every name in the table of names leads to an account of the cache, filed under its identifier.\<close>

definition cache_inv :: "('c, 'm, 'k) DBService \<Rightarrow> bool" where
  "cache_inv s \<longleftrightarrow> (\<forall>aid info. map_of (account_cache s) aid = Some info \<longrightarrow> account_id info = aid) \<and>
     (\<forall>name aid. map_of (name_to_id s) name = Some aid \<longrightarrow> map_of (account_cache s) aid \<noteq> None)"

lemma cache_inv_update [simp]: "cache_inv s \<Longrightarrow> cache_inv (UpdateAccountCache info s)"
  by (auto simp: cache_inv_def UpdateAccountCache_def)

lemma cache_inv_simps [simp]:
  "cache_inv (s\<lparr>world := m\<rparr>) = cache_inv s" "cache_inv (ReleaseDBConnection q s) = cache_inv s"
  "cache_inv (s\<lparr>db_connections := qs\<rparr>) = cache_inv s"
  by (simp_all add: cache_inv_def ReleaseDBConnection_def)

lemma connection_cache: "cache_inv (snd (GetDBConnection s)) = cache_inv s"
  by (simp add: GetDBConnection_def)

lemma operations_cache:
  "CreateAccount env now name pw chan s = Ret (r1, s') \<Longrightarrow> cache_inv s \<Longrightarrow> cache_inv s'"
  "VerifyAccount env name pw s = Ret (r1, s') \<Longrightarrow> cache_inv s \<Longrightarrow> cache_inv s'"
  "GetAccountInfo env aid s = Ret (r2, s') \<Longrightarrow> cache_inv s \<Longrightarrow> cache_inv s'"
  "SealAccount env aid till s = Ret (r3, s') \<Longrightarrow> cache_inv s \<Longrightarrow> cache_inv s'"
  "UnsealAccount env aid s = Ret (r3, s') \<Longrightarrow> cache_inv s \<Longrightarrow> cache_inv s'"
  "RecordLoginLog env now aid chan ver uid ad model phone ip s = Ret (r3, s') \<Longrightarrow> cache_inv s \<Longrightarrow> cache_inv s'"
  "CreateRole env r s = Ret (r3, s') \<Longrightarrow> cache_inv s \<Longrightarrow> cache_inv s'"
  "UpdateRole env r s = Ret (r3, s') \<Longrightarrow> cache_inv s \<Longrightarrow> cache_inv s'"
  "DeleteRole env rid s = Ret (r3, s') \<Longrightarrow> cache_inv s \<Longrightarrow> cache_inv s'"
  "GetRoleData env rid s = Ret (r4, s') \<Longrightarrow> cache_inv s \<Longrightarrow> cache_inv s'"
  "GetRoleList env aid s = Ret (r5, s') \<Longrightarrow> cache_inv s \<Longrightarrow> cache_inv s'"
  using connection_cache [of s]
  by (auto simp: CreateAccount_def VerifyAccount_def GetAccountInfo_def SealAccount_def UnsealAccount_def RecordLoginLog_def
      CreateRole_def UpdateRole_def DeleteRole_def GetRoleData_def GetRoleList_def Let_def case_prod_beta
      split: option.splits if_splits)

text \<open>
  The cache stays consistent under all requests: an account is filed under its own identifier, and looking a name up
  finds an account exactly when the name is in the table of names.
\<close>

theorem cache_consistent:
  assumes "handle_requests env qs (db_init m) = Ret (ps, s')"
  shows "(map_of (account_cache s') aid = Some info \<longrightarrow> account_id info = aid) \<and>
    (GetAccountByName name s' = None \<longleftrightarrow> map_of (name_to_id s') name = None)"
proof -
  have step: "cache_inv s1" if "handle_request env now q s = Ret (p, s1)" "cache_inv s" for now q s p s1
    using that
    by (cases "q_op_type q")
      (auto simp: handle_request_def HandleCreateAccount_def HandleVerifyAccount_def HandleGetAccountInfo_def
        HandleSealAccount_def HandleUnsealAccount_def HandleRecordLoginLog_def HandleCreateRole_def HandleUpdateRole_def
        HandleDeleteRole_def HandleGetRoleList_def HandleGetRoleData_def Let_def split: if_splits dest: operations_cache)
  have "cache_inv s'" if "handle_requests env qs s = Ret (ps, s')" "cache_inv s" for s
    using that by (induction qs arbitrary: s ps) (auto dest: step)
  moreover have "cache_inv (db_init m)" by (simp add: cache_inv_def db_init_def)
  ultimately have "cache_inv s'" using assms by blast
  then show ?thesis by (auto simp: cache_inv_def GetAccountByName_def split: option.splits)
qed

text \<open>
  A request that arrives in part. When the second of two requests of one length gets only its first bytes, it is
  completed with the bytes of the first request, which the buffer still holds, and handled as if it had been sent so.
\<close>

lemma short_body_completed:
  assumes "unat (msg_len (request_header env hs)) = header_size + length b" and "length b \<le> 8192" and "length bs \<le> length b" and "b \<noteq> []"
  shows "HandleRecv env n (replicate 8192 0) [(t1, Got hs), (t2, Got b), (t3, Got hs), (t4, Got bs)] s =
    bindO (answer env t2 b s) (\<lambda>(out, s1). bindO (answer env t4 (bs @ drop (length bs) b) s1) (\<lambda>(out', s2). Ret ((out @ out', False), s2)))"
proof -
  have r: "room_for (length b) xs = xs" if "length b \<le> length xs" for xs using that by (simp add: room_for_def)
  have l: "take (length b) (bs @ drop (length bs) (b @ drop (length b) (replicate 8192 0))) = bs @ drop (length bs) b"
    using assms(3) by simp
  show ?thesis using assms l
    by (simp add: Let_def r case_prod_beta bindO_split del: append_assoc)
qed

end
