(* ===== verification/Account.thy ===== *)
theory Account
  imports Db
begin

text \<open>
  The account server, \<open>account_server/account_service.cc\<close>: its cache of accounts, the calls to the database server over one
  connection, and the handlers of log ins and registrations. What \<^verbatim>\<open>send\<close> and \<^verbatim>\<open>recv\<close> do on that connection and the
  code generated for the messages are parameters; the last part puts the database server's model at its other end.
\<close>

section \<open>Messages and state\<close>

record AccountLog =
  log_version :: string
  log_uuid :: string
  log_idfa :: string
  log_imodel :: string
  log_imei :: string

record AccountRegReq =
  reg_name :: string
  reg_password :: string
  reg_channel :: i32

record AccountLoginReq =
  login_name :: string
  login_password :: string
  login_log :: "AccountLog option"

record Ack =
  ack_code :: u32
  ack_account :: u64

text \<open>What the service relies on; \<open>'p\<close> is the connection to the database server with everything behind it.\<close>

record 'p acc_env =
  acc_little :: bool
  acc_MD5 :: digest
  send_to :: "byte list \<Rightarrow> 'p \<Rightarrow> int \<times> 'p"
  recv_from :: "nat \<Rightarrow> 'p \<Rightarrow> received \<times> 'p"
  serialize_request :: "DBRequest \<Rightarrow> byte list option"
  parse_response :: "byte list \<Rightarrow> DBResponse option"
  parse_login :: "byte list \<Rightarrow> AccountLoginReq option"
  parse_reg :: "byte list \<Rightarrow> AccountRegReq option"
  serialize_login_ack :: "Ack \<Rightarrow> byte list option"
  serialize_reg_ack :: "Ack \<Rightarrow> byte list option"
  unknown_info :: AccountInfo
  unknown_header :: "byte list"

record 'p AccountService =
  a_cache :: "(u64 \<times> AccountInfo) list"
  a_names :: "(string \<times> u64) list"
  db_server_conn :: "'p option"

definition account_init :: "'p AccountService" where
  "account_init = \<lparr>a_cache = [], a_names = [], db_server_conn = None\<rparr>"

definition no_request :: DBRequest where
  "no_request =
     \<lparr>q_op_type = DB_OP_CREATE_ACCOUNT, q_account_id = 0, q_account_name = '''', q_password = '''', q_channel = 0, q_seal_time = 0,
      q_version = '''', q_uuid = '''', q_idfa = '''', q_imodel = '''', q_imei = '''', q_ip = 0, q_role_id = 0, q_role_name = '''',
      q_server_id = 0, q_career = 0, q_level = 0, q_exp = 0, q_head_id = 0, q_portrait_frame = 0, q_is_deleted = 0,
      q_delete_time = 0\<rparr>"

definition MSG_DB_REQ :: u32 where "MSG_DB_REQ = 100090"
definition MSG_ACCOUNT_REG_REQ :: u32 where "MSG_ACCOUNT_REG_REQ = 100003"
definition MSG_ACCOUNT_REG_ACK :: u32 where "MSG_ACCOUNT_REG_ACK = 100004"
definition MSG_ACCOUNT_LOGIN_REQ :: u32 where "MSG_ACCOUNT_LOGIN_REQ = 100005"
definition MSG_ACCOUNT_LOGIN_ACK :: u32 where "MSG_ACCOUNT_LOGIN_ACK = 100006"

section \<open>Calls to the database server\<close>

text \<open>
  The answer's header and its body are what one call of \<^verbatim>\<open>recv\<close> each gives. The vector for the body holds zeros. A failure
  leaves the connection as it is.
\<close>

definition receive_response :: "'p acc_env \<Rightarrow> 'p \<Rightarrow> DBResponse option \<times> 'p" where
  "receive_response env p =
     (case recv_from env header_size p of
        (Got hs, p1) \<Rightarrow>
          let h = received_header (acc_little env) (take header_size (hs @ drop (length hs) (unknown_header env))) in
          if bad_length h then (None, p1)
          else
            let n = unat (msg_len h) - header_size in
            (case recv_from env n p1 of
               (Got bs, p2) \<Rightarrow> (parse_response env (take n (bs @ replicate n 0)), p2)
             | (_, p2) \<Rightarrow> (None, p2))
      | (_, p1) \<Rightarrow> (None, p1))"

definition SendDBRequest :: "'p acc_env \<Rightarrow> DBRequest \<Rightarrow> 'p AccountService \<Rightarrow> DBResponse option \<times> 'p AccountService" where
  "SendDBRequest env req s =
     (case db_server_conn s of
        None \<Rightarrow> (None, s)
      | Some p \<Rightarrow>
          (case serialize_request env req of
             None \<Rightarrow> (None, s)
           | Some bs \<Rightarrow>
               let (r1, p1) = send_to env (sent_header (acc_little env) MSG_DB_REQ bs) p in
               if r1 \<le> 0 then (None, s\<lparr>db_server_conn := Some p1\<rparr>)
               else let (r2, p2) = send_to env bs p1 in
                 if r2 \<le> 0 then (None, s\<lparr>db_server_conn := Some p2\<rparr>)
                 else let (rsp, p3) = receive_response env p2 in (rsp, s\<lparr>db_server_conn := Some p3\<rparr>)))"

section \<open>Accounts\<close>

definition MD5Encrypt :: "'p acc_env \<Rightarrow> string \<Rightarrow> string" where
  "MD5Encrypt env input = md5 (acc_MD5 env) (bytes_of input)"

definition put_account :: "u64 \<Rightarrow> string \<Rightarrow> AccountInfo \<Rightarrow> 'p AccountService \<Rightarrow> 'p AccountService" where
  "put_account aid name info s =
     s\<lparr>a_cache := AList.update aid info (a_cache s), a_names := AList.update name aid (a_names s)\<rparr>"

definition cached_by_name :: "string \<Rightarrow> 'p AccountService \<Rightarrow> AccountInfo option" where
  "cached_by_name name s = (case map_of (a_names s) name of None \<Rightarrow> None | Some aid \<Rightarrow> map_of (a_cache s) aid)"

text \<open>The record filled from an answer, with the password given.\<close>

definition filled_info :: "DBResponse \<Rightarrow> string \<Rightarrow> AccountInfo" where
  "filled_info rsp pw =
     \<lparr>account_id = p_account_id rsp, account_name = p_account_name rsp, password = pw, channel = p_channel rsp,
      create_time = p_create_time rsp, last_login_time = p_last_login_time rsp, last_login_ip = p_last_login_ip rsp,
      is_sealed = p_is_sealed rsp, seal_end_time = p_seal_end_time rsp, review = p_review rsp\<rparr>"

definition GetAccountInfoById :: "'p acc_env \<Rightarrow> u64 \<Rightarrow> 'p AccountService \<Rightarrow> AccountInfo option \<times> 'p AccountService" where
  "GetAccountInfoById env aid s =
     (case map_of (a_cache s) aid of
        Some info \<Rightarrow> (Some info, s)
      | None \<Rightarrow>
          (case SendDBRequest env (no_request\<lparr>q_op_type := DB_OP_GET_ACCOUNT_INFO, q_account_id := aid\<rparr>) s of
             (None, s1) \<Rightarrow> (None, s1)
           | (Some rsp, s1) \<Rightarrow>
               if ret_code rsp \<noteq> 0 then (None, s1)
               else let info = filled_info rsp '''' in (Some info, put_account (account_id info) (account_name info) info s1)))"

definition GetAccountInfoByName :: "'p acc_env \<Rightarrow> string \<Rightarrow> 'p AccountService \<Rightarrow> AccountInfo option \<times> 'p AccountService" where
  "GetAccountInfoByName env name s =
     (case cached_by_name name s of
        Some info \<Rightarrow> (Some info, s)
      | None \<Rightarrow>
          (case SendDBRequest env (no_request\<lparr>q_op_type := DB_OP_VERIFY_ACCOUNT, q_account_name := name,
                 q_password := ''invalid_password''\<rparr>) s of
             (None, s1) \<Rightarrow> (None, s1)
           | (Some rsp, s1) \<Rightarrow>
               if 0 < p_account_id rsp
               then let info = filled_info rsp '''' in (Some info, put_account (account_id info) (account_name info) info s1)
               else (None, s1)))"

definition acc_CreateAccount ::
  "'p acc_env \<Rightarrow> string \<Rightarrow> string \<Rightarrow> i32 \<Rightarrow> 'p AccountService \<Rightarrow> u64 option \<times> 'p AccountService" where
  "acc_CreateAccount env name pw chan s =
     (case GetAccountInfoByName env name s of
        (Some _, s1) \<Rightarrow> (None, s1)
      | (None, s1) \<Rightarrow>
          (case SendDBRequest env (no_request\<lparr>q_op_type := DB_OP_CREATE_ACCOUNT, q_account_name := name,
                 q_password := MD5Encrypt env pw, q_channel := chan\<rparr>) s1 of
             (None, s2) \<Rightarrow> (None, s2)
           | (Some rsp, s2) \<Rightarrow>
               if ret_code rsp \<noteq> 0 then (None, s2)
               else if p_account_id rsp = 0 then (None, s2)
               else
                 let info = (unknown_info env)\<lparr>account_id := p_account_id rsp, account_name := name, password := MD5Encrypt env pw,
                       channel := chan, create_time := p_create_time rsp, last_login_time := p_last_login_time rsp,
                       is_sealed := p_is_sealed rsp, seal_end_time := p_seal_end_time rsp, review := p_review rsp\<rparr> in
                 (Some (p_account_id rsp), put_account (p_account_id rsp) name info s2)))"

definition verify_remotely ::
  "'p acc_env \<Rightarrow> string \<Rightarrow> string \<Rightarrow> 'p AccountService \<Rightarrow> AccountInfo option \<times> 'p AccountService" where
  "verify_remotely env name pw s =
     (case SendDBRequest env (no_request\<lparr>q_op_type := DB_OP_VERIFY_ACCOUNT, q_account_name := name,
            q_password := MD5Encrypt env pw\<rparr>) s of
        (None, s1) \<Rightarrow> (None, s1)
      | (Some rsp, s1) \<Rightarrow>
          if ret_code rsp \<noteq> 0 then (None, s1)
          else let info = filled_info rsp (MD5Encrypt env pw) in (Some info, put_account (account_id info) name info s1))"

definition acc_VerifyAccount ::
  "'p acc_env \<Rightarrow> string \<Rightarrow> string \<Rightarrow> 'p AccountService \<Rightarrow> AccountInfo option \<times> 'p AccountService" where
  "acc_VerifyAccount env name pw s =
     (case cached_by_name name s of
        Some info \<Rightarrow> if password info = MD5Encrypt env pw then (Some info, s) else verify_remotely env name pw s
      | None \<Rightarrow> verify_remotely env name pw s)"

text \<open>\<open>now\<close> is the clock when the cache is updated.\<close>

definition acc_SealAccount :: "'p acc_env \<Rightarrow> time_t \<Rightarrow> u64 \<Rightarrow> i32 \<Rightarrow> 'p AccountService \<Rightarrow> bool \<times> 'p AccountService" where
  "acc_SealAccount env now aid secs s =
     (case SendDBRequest env (no_request\<lparr>q_op_type := DB_OP_SEAL_ACCOUNT, q_account_id := aid, q_seal_time := secs\<rparr>) s of
        (None, s1) \<Rightarrow> (False, s1)
      | (Some rsp, s1) \<Rightarrow>
          if ret_code rsp \<noteq> 0 then (False, s1)
          else (True,
            case map_of (a_cache s1) aid of
              None \<Rightarrow> s1
            | Some info \<Rightarrow> s1\<lparr>a_cache := AList.update aid (info\<lparr>is_sealed := True, seal_end_time := now + secs\<rparr>) (a_cache s1)\<rparr>))"

definition acc_UnsealAccount :: "'p acc_env \<Rightarrow> u64 \<Rightarrow> 'p AccountService \<Rightarrow> bool \<times> 'p AccountService" where
  "acc_UnsealAccount env aid s =
     (case SendDBRequest env (no_request\<lparr>q_op_type := DB_OP_UNSEAL_ACCOUNT, q_account_id := aid\<rparr>) s of
        (None, s1) \<Rightarrow> (False, s1)
      | (Some rsp, s1) \<Rightarrow>
          if ret_code rsp \<noteq> 0 then (False, s1)
          else (True,
            case map_of (a_cache s1) aid of
              None \<Rightarrow> s1
            | Some info \<Rightarrow> s1\<lparr>a_cache := AList.update aid (info\<lparr>is_sealed := False, seal_end_time := 0\<rparr>) (a_cache s1)\<rparr>))"

definition acc_IsAccountSealed :: "'p acc_env \<Rightarrow> time_t \<Rightarrow> u64 \<Rightarrow> 'p AccountService \<Rightarrow> bool \<times> 'p AccountService" where
  "acc_IsAccountSealed env now aid s =
     (case GetAccountInfoById env aid s of
        (None, s1) \<Rightarrow> (False, s1)
      | (Some info, s1) \<Rightarrow>
          if \<not> is_sealed info then (False, s1)
          else if 0 < seal_end_time info \<and> seal_end_time info < now then (False, snd (acc_UnsealAccount env aid s1))
          else (True, s1))"

definition acc_RecordLoginLog ::
  "'p acc_env \<Rightarrow> u64 \<Rightarrow> i32 \<Rightarrow> AccountLog \<Rightarrow> i32 \<Rightarrow> 'p AccountService \<Rightarrow> bool \<times> 'p AccountService" where
  "acc_RecordLoginLog env aid chan lg ip s =
     (if aid = 0 then (False, s)
      else case SendDBRequest env (no_request\<lparr>q_op_type := DB_OP_RECORD_LOGIN_LOG, q_account_id := aid, q_channel := chan,
             q_version := log_version lg, q_uuid := log_uuid lg, q_idfa := log_idfa lg, q_imodel := log_imodel lg,
             q_imei := log_imei lg, q_ip := ip\<rparr>) s of
        (None, s1) \<Rightarrow> (False, s1)
      | (Some rsp, s1) \<Rightarrow> (ret_code rsp = 0, s1))"

section \<open>Requests of the login server\<close>

definition no_log :: AccountLog where
  "no_log = \<lparr>log_version = '''', log_uuid = '''', log_idfa = '''', log_imodel = '''', log_imei = ''''\<rparr>"

definition login_ack :: "'p acc_env \<Rightarrow> time_t \<Rightarrow> AccountLoginReq \<Rightarrow> 'p AccountService \<Rightarrow> Ack \<times> 'p AccountService" where
  "login_ack env now req s =
     (case acc_VerifyAccount env (login_name req) (login_password req) s of
        (None, s1) \<Rightarrow> (\<lparr>ack_code = 1, ack_account = 0\<rparr>, s1)
      | (Some info, s1) \<Rightarrow>
          if account_id info = 0 then (\<lparr>ack_code = 3, ack_account = 0\<rparr>, s1)
          else let (sealed, s2) = acc_IsAccountSealed env now (account_id info) s1 in
            if sealed then (\<lparr>ack_code = 2, ack_account = account_id info\<rparr>, s2)
            else
              let lg = (case login_log req of None \<Rightarrow> no_log | Some lg \<Rightarrow> lg);
                  (_, s3) = acc_RecordLoginLog env (account_id info) (channel info) lg 0 s2 in
              (\<lparr>ack_code = 0, ack_account = account_id info\<rparr>, s3))"

text \<open>The answers are what is handed to \<^verbatim>\<open>send\<close>, one string with the header.\<close>

definition HandleLoginRequest ::
  "'p acc_env \<Rightarrow> time_t \<Rightarrow> byte list \<Rightarrow> 'p AccountService \<Rightarrow> byte list list \<times> 'p AccountService" where
  "HandleLoginRequest env now data s =
     (case parse_login env data of
        None \<Rightarrow> ([], s)
      | Some req \<Rightarrow>
          let (ack, s1) = login_ack env now req s in
          (case serialize_login_ack env ack of
             None \<Rightarrow> ([], s1)
           | Some bs \<Rightarrow> ([frame (acc_little env) MSG_ACCOUNT_LOGIN_ACK bs], s1)))"

definition reg_ack :: "'p acc_env \<Rightarrow> AccountRegReq \<Rightarrow> 'p AccountService \<Rightarrow> Ack \<times> 'p AccountService" where
  "reg_ack env req s =
     (case acc_CreateAccount env (reg_name req) (reg_password req) (reg_channel req) s of
        (None, s1) \<Rightarrow> (\<lparr>ack_code = 1, ack_account = 0\<rparr>, s1)
      | (Some aid, s1) \<Rightarrow> (\<lparr>ack_code = 0, ack_account = aid\<rparr>, s1))"

definition HandleRegisterRequest ::
  "'p acc_env \<Rightarrow> byte list \<Rightarrow> 'p AccountService \<Rightarrow> byte list list \<times> 'p AccountService" where
  "HandleRegisterRequest env data s =
     (case parse_reg env data of
        None \<Rightarrow> ([], s)
      | Some req \<Rightarrow>
          let (ack, s1) = reg_ack env req s in
          (case serialize_reg_ack env ack of
             None \<Rightarrow> ([], s1)
           | Some bs \<Rightarrow> ([frame (acc_little env) MSG_ACCOUNT_REG_ACK bs], s1)))"

definition handle_message ::
  "'p acc_env \<Rightarrow> time_t \<Rightarrow> MessageHeader \<Rightarrow> byte list \<Rightarrow> byte list list \<times> 'p AccountService \<Rightarrow> byte list list \<times> 'p AccountService" where
  "handle_message env now h body w =
     (let (sent, s) = w;
          (out, s1) = (if msg_id h = MSG_ACCOUNT_LOGIN_REQ then HandleLoginRequest env now body s
                       else if msg_id h = MSG_ACCOUNT_REG_REQ then HandleRegisterRequest env body s
                       else ([], s)) in
      (sent @ out, s1))"

text \<open>\<^verbatim>\<open>handleClient\<close>: the messages of one client, with the answers it is sent. \<open>now\<close> is the time they are handled.\<close>

definition acc_handleClient ::
  "'p acc_env \<Rightarrow> time_t \<Rightarrow> received list \<Rightarrow> 'p AccountService \<Rightarrow> byte list list \<times> 'p AccountService" where
  "acc_handleClient env now rs s = fst (serve (acc_little env) (handle_message env now) rs [] ([], s))"

text \<open>The handlers of packets do nothing.\<close>

definition OnAccountRegReq :: "'a \<Rightarrow> bool" where "OnAccountRegReq packet = True"
definition OnAccountLoginReq :: "'a \<Rightarrow> bool" where "OnAccountLoginReq packet = True"
definition OnSealAccountReq :: "'a \<Rightarrow> bool" where "OnSealAccountReq packet = True"
definition OnHeartBeatReq :: "'a \<Rightarrow> bool" where "OnHeartBeatReq packet = True"

section \<open>Connections\<close>

text \<open>
  What the attempt to make a socket and connect it comes to. A heartbeat and a registration go to the center server as
  the database server's do.
\<close>

datatype 'p attempt = NoAddress | NoSocket | NotConnected | Connected 'p

definition ConnectToDBServer :: "'p attempt \<Rightarrow> 'p AccountService \<Rightarrow> bool \<times> 'p AccountService" where
  "ConnectToDBServer a s =
     (case a of
        NoAddress \<Rightarrow> (False, s)
      | NoSocket \<Rightarrow> (False, s\<lparr>db_server_conn := None\<rparr>)
      | NotConnected \<Rightarrow> (False, s\<lparr>db_server_conn := None\<rparr>)
      | Connected p \<Rightarrow> (True, s\<lparr>db_server_conn := Some p\<rparr>))"

definition acc_RegisterToCenterServer :: "bool \<Rightarrow> bool \<Rightarrow> int \<Rightarrow> int \<Rightarrow> bool \<times> byte list list" where
  "acc_RegisterToCenterServer host = send_two host 1001 ''account_server_register''"

definition acc_SendHeartbeatToCenterServer :: "bool \<Rightarrow> bool \<Rightarrow> int \<Rightarrow> int \<Rightarrow> byte list list" where
  "acc_SendHeartbeatToCenterServer host connected r1 r2 = snd (send_two host 1002 ''account_server_heartbeat'' connected r1 r2)"

definition acc_OnTimer5s ::
  "bool \<Rightarrow> bool \<Rightarrow> int \<Rightarrow> int \<Rightarrow> 'p attempt \<Rightarrow> 'p AccountService \<Rightarrow> byte list list \<times> 'p AccountService" where
  "acc_OnTimer5s host connected r1 r2 a s =
     (acc_SendHeartbeatToCenterServer host connected r1 r2,
      case db_server_conn s of None \<Rightarrow> snd (ConnectToDBServer a s) | Some _ \<Rightarrow> s)"

definition acc_UninitService :: "'p AccountService \<Rightarrow> 'p AccountService" where
  "acc_UninitService s = s\<lparr>db_server_conn := None\<rparr>"

section \<open>The cache\<close>

text \<open>Accounts are filed under their identifiers, and every name leads to an account.\<close>

definition acc_inv :: "'p AccountService \<Rightarrow> bool" where
  "acc_inv s \<longleftrightarrow> (\<forall>aid info. map_of (a_cache s) aid = Some info \<longrightarrow> account_id info = aid) \<and>
     (\<forall>name aid. map_of (a_names s) name = Some aid \<longrightarrow> map_of (a_cache s) aid \<noteq> None)"

lemma acc_inv_put: "acc_inv s \<Longrightarrow> account_id info = aid \<Longrightarrow> acc_inv (put_account aid name info s)"
  by (auto simp: acc_inv_def put_account_def)

lemma acc_inv_conn [simp]: "acc_inv (s\<lparr>db_server_conn := c\<rparr>) = acc_inv s"
  by (simp add: acc_inv_def)

text \<open>A call to the database server leaves the cache alone.\<close>

lemma call_keeps: "SendDBRequest env q s = (r, s1) \<Longrightarrow> a_cache s1 = a_cache s \<and> a_names s1 = a_names s"
  by (auto simp: SendDBRequest_def Let_def case_prod_beta split: option.splits if_splits)

lemma call_inv: "SendDBRequest env q s = (r, s1) \<Longrightarrow> acc_inv s1 = acc_inv s"
  by (auto simp: acc_inv_def dest: call_keeps)

lemma filled_id [simp]: "account_id (filled_info rsp pw) = p_account_id rsp" "password (filled_info rsp pw) = pw"
  by (simp_all add: filled_info_def)

lemma queries_inv:
  "GetAccountInfoById env aid s = (r, s1) \<Longrightarrow> acc_inv s \<Longrightarrow> acc_inv s1"
  "GetAccountInfoByName env name s = (r, s1) \<Longrightarrow> acc_inv s \<Longrightarrow> acc_inv s1"
  "verify_remotely env name pw s = (r, s1) \<Longrightarrow> acc_inv s \<Longrightarrow> acc_inv s1"
  "acc_VerifyAccount env name pw s = (r, s1) \<Longrightarrow> acc_inv s \<Longrightarrow> acc_inv s1"
  by (auto simp: GetAccountInfoById_def GetAccountInfoByName_def verify_remotely_def acc_VerifyAccount_def Let_def
      split: option.splits if_splits prod.splits dest: call_inv intro: acc_inv_put)

lemma create_inv: "acc_CreateAccount env name pw chan s = (r, s1) \<Longrightarrow> acc_inv s \<Longrightarrow> acc_inv s1"
  by (auto simp: acc_CreateAccount_def Let_def split: option.splits if_splits prod.splits
      dest: call_inv queries_inv intro!: acc_inv_put)

lemma acc_inv_change:
  "acc_inv s \<Longrightarrow> account_id info = aid \<Longrightarrow> acc_inv (s\<lparr>a_cache := AList.update aid info (a_cache s)\<rparr>)"
  by (auto simp: acc_inv_def)

lemma seals_inv:
  "acc_SealAccount env now aid secs s = (b, s1) \<Longrightarrow> acc_inv s \<Longrightarrow> acc_inv s1"
  "acc_UnsealAccount env aid s = (b, s1) \<Longrightarrow> acc_inv s \<Longrightarrow> acc_inv s1"
  by (auto simp: acc_SealAccount_def acc_UnsealAccount_def split: option.splits if_splits prod.splits
      dest: call_inv intro!: acc_inv_change) (auto simp: acc_inv_def dest: call_keeps)

lemma log_inv: "acc_RecordLoginLog env aid chan lg ip s = (b, s1) \<Longrightarrow> acc_inv s \<Longrightarrow> acc_inv s1"
  by (auto simp: acc_RecordLoginLog_def split: option.splits if_splits prod.splits dest: call_inv)

lemma sealed_inv: "acc_IsAccountSealed env now aid s = (b, s1) \<Longrightarrow> acc_inv s \<Longrightarrow> acc_inv s1"
  by (auto simp: acc_IsAccountSealed_def split: option.splits if_splits prod.splits dest: queries_inv)
    (metis queries_inv(1) prod.collapse seals_inv(2))+

datatype acc_call = ACreate string string i32 | AVerify string string | AInfo u64 | AInfoName string | ASeal time_t u64 i32
  | AUnseal u64 | ASealed time_t u64 | ALog u64 i32 AccountLog i32

primrec acc_exec :: "'p acc_env \<Rightarrow> acc_call \<Rightarrow> 'p AccountService \<Rightarrow> 'p AccountService" where
  "acc_exec env (ACreate name pw chan) s = snd (acc_CreateAccount env name pw chan s)"
| "acc_exec env (AVerify name pw) s = snd (acc_VerifyAccount env name pw s)"
| "acc_exec env (AInfo aid) s = snd (GetAccountInfoById env aid s)"
| "acc_exec env (AInfoName name) s = snd (GetAccountInfoByName env name s)"
| "acc_exec env (ASeal now aid secs) s = snd (acc_SealAccount env now aid secs s)"
| "acc_exec env (AUnseal aid) s = snd (acc_UnsealAccount env aid s)"
| "acc_exec env (ASealed now aid) s = snd (acc_IsAccountSealed env now aid s)"
| "acc_exec env (ALog aid chan lg ip) s = snd (acc_RecordLoginLog env aid chan lg ip s)"

text \<open>
  The cache of the account server. Whatever is called, and whatever the database server answers, an account is filed
  under its own identifier, and a name leads to an account.
\<close>

theorem account_cache_consistent:
  shows "(map_of (a_cache (fold (acc_exec env) cs account_init)) aid = Some info \<longrightarrow> account_id info = aid) \<and>
    (cached_by_name name (fold (acc_exec env) cs account_init) = None \<longleftrightarrow>
      map_of (a_names (fold (acc_exec env) cs account_init)) name = None)"
proof -
  have step: "acc_inv (acc_exec env c s)" if "acc_inv s" for c s
  proof (cases c)
    case (ACreate name pw chan)
    with that show ?thesis by (auto intro: create_inv [OF prod.collapse [symmetric]])
  next
    case (AVerify name pw)
    with that show ?thesis by (auto intro: queries_inv(4) [OF prod.collapse [symmetric]])
  next
    case (AInfo aid)
    with that show ?thesis by (auto intro: queries_inv(1) [OF prod.collapse [symmetric]])
  next
    case (AInfoName name)
    with that show ?thesis by (auto intro: queries_inv(2) [OF prod.collapse [symmetric]])
  next
    case (ASeal now aid secs)
    with that show ?thesis by (auto intro: seals_inv(1) [OF prod.collapse [symmetric]])
  next
    case (AUnseal aid)
    with that show ?thesis by (auto intro: seals_inv(2) [OF prod.collapse [symmetric]])
  next
    case (ASealed now aid)
    with that show ?thesis by (auto intro: sealed_inv [OF prod.collapse [symmetric]])
  next
    case (ALog aid chan lg ip)
    with that show ?thesis by (auto intro: log_inv [OF prod.collapse [symmetric]])
  qed
  have keeps: "acc_inv s \<Longrightarrow> acc_inv (fold (acc_exec env) cs s)" for s by (induction cs arbitrary: s) (simp_all add: step)
  have "acc_inv account_init" by (simp add: acc_inv_def account_init_def)
  from keeps [OF this] obtain s where s: "s = fold (acc_exec env) cs account_init" "acc_inv s" by blast
  from s(2) show ?thesis unfolding s(1) [symmetric] by (auto simp: acc_inv_def cached_by_name_def split: option.splits)
qed

section \<open>Log ins\<close>




text \<open>
  A seal. An account is sealed exactly when the information found says so and the seal has no end or has not ended; when it
  has ended, the seal is lifted.
\<close>

lemma sealed_until:
  assumes "GetAccountInfoById env aid s = (Some info, s1)"
  shows "fst (acc_IsAccountSealed env now aid s) = (is_sealed info \<and> \<not> (0 < seal_end_time info \<and> seal_end_time info < now))"
  using assms by (simp add: acc_IsAccountSealed_def)

text \<open>
  Creating an account makes its password known: the name and the password it was created with are verified at once,
  from the cache and without a call, as the account the database server named.
\<close>

lemma created_verified:
  assumes "acc_CreateAccount env name pw chan s = (Some aid, s')"
  shows "\<exists>info. acc_VerifyAccount env name pw s' = (Some info, s') \<and> account_id info = aid \<and> aid \<noteq> 0"
proof -
  from assms obtain info s2 where "s' = put_account aid name info s2" "password info = MD5Encrypt env pw" "account_id info = aid" "aid \<noteq> 0"
    by (auto simp: acc_CreateAccount_def Let_def split: option.splits if_splits prod.splits)
  then show ?thesis by (simp add: acc_VerifyAccount_def cached_by_name_def put_account_def)
qed

section \<open>The database server at the other end\<close>

text \<open>
  One instance of the parameters \<open>send_to\<close> and \<open>recv_from\<close>, on which the two servers are put together. It is an ideal
  connection, a condition of the lemmas of this section and not what \<^verbatim>\<open>send\<close> and \<^verbatim>\<open>recv\<close> guarantee: everything is taken in
  one call, and a header and a body sent one after the other are what two calls of \<^verbatim>\<open>recv\<close> give the database server, which
  handles them at once; what it sends waits until it is received. When its process ends on a fault there is no answer.
\<close>

record ('c, 'm, 'k) db_wire =
  served :: "('c, 'm, 'k) DBService"
  half :: "byte list option"
  queued :: "byte list"

definition wire_send ::
  "('c, 'r, 'm) db_env \<Rightarrow> time_t \<Rightarrow> byte list \<Rightarrow> ('c, 'm, 'k) db_wire \<Rightarrow> int \<times> ('c, 'm, 'k) db_wire" where
  "wire_send denv now bs w =
     (int (length bs),
      case half w of
        None \<Rightarrow> w\<lparr>half := Some bs\<rparr>
      | Some hs \<Rightarrow>
          (case HandleRecv denv 1 (replicate 8192 0) [(now, Got hs), (now, Got bs)] (served w) of
             Ret ((out, _), d) \<Rightarrow> w\<lparr>served := d, half := None, queued := queued w @ concat out\<rparr>
           | Fault _ \<Rightarrow> w\<lparr>half := None\<rparr>))"

definition wire_recv :: "nat \<Rightarrow> ('c, 'm, 'k) db_wire \<Rightarrow> received \<times> ('c, 'm, 'k) db_wire" where
  "wire_recv n w = (if queued w = [] then (WouldBlock, w) else (Got (take n (queued w)), w\<lparr>queued := drop n (queued w)\<rparr>))"

text \<open>Both servers' code for the messages, which agrees on the requests and the answers at hand.\<close>

definition travels :: "('c, 'm, 'k) db_wire acc_env \<Rightarrow> ('c, 'r, 'm) db_env \<Rightarrow> DBRequest \<Rightarrow> bool" where
  "travels env denv q \<longleftrightarrow> (\<exists>bs. serialize_request env q = Some bs \<and> bs \<noteq> [] \<and> length bs \<le> 32768 - header_size \<and>
     parse_request denv bs = Some q)"

definition returns :: "('c, 'm, 'k) db_wire acc_env \<Rightarrow> ('c, 'r, 'm) db_env \<Rightarrow> DBResponse \<Rightarrow> bool" where
  "returns env denv p \<longleftrightarrow> (\<exists>rs. serialize_response denv p = Some rs \<and> rs \<noteq> [] \<and> length rs \<le> 1024 * 1024 - header_size \<and>
     parse_response env rs = Some p)"

text \<open>The bytes of an answer as the database server sends it.\<close>

definition answer_bytes :: "('c, 'r, 'm) db_env \<Rightarrow> DBResponse \<Rightarrow> byte list" where
  "answer_bytes denv p = (case serialize_response denv p of None \<Rightarrow> [] | Some rs \<Rightarrow> frame (little denv) MSG_DB_RESP rs)"

lemma new_header_length: "length bs \<le> 1024 * 1024 - header_size \<Longrightarrow> unat (msg_len (new_header mid bs)) = header_size + length bs"
  using fits_length [of "(mid, bs)"] by (simp add: fits_def)

lemma answer_received:
  assumes "recv_from env = wire_recv" and "returns env denv p" and "queued w = answer_bytes denv p @ rest"
  shows "receive_response env w = (Some p, w\<lparr>queued := rest\<rparr>)"
proof -
  from assms(2) obtain rs where rs: "serialize_response denv p = Some rs" "rs \<noteq> []" "length rs \<le> 1024 * 1024 - header_size"
    "parse_response env rs = Some p" by (auto simp: returns_def)
  have q: "queued w = sent_header (little denv) MSG_DB_RESP rs @ rs @ rest"
    using assms(3) rs(1) by (simp add: answer_bytes_def frame_def)
  have "queued w \<noteq> []" using rs(2) q by simp
  moreover have "unat (msg_len (new_header MSG_DB_RESP rs)) = header_size + length rs" using rs(3) by (intro new_header_length) simp
  moreover have "take header_size (queued w) = sent_header (little denv) MSG_DB_RESP rs"
    and "drop header_size (queued w) = rs @ rest" by (simp_all add: q)
  ultimately show ?thesis using rs
    by (simp add: receive_response_def assms(1) wire_recv_def bad_length_def Let_def)
qed

lemma request_served:
  assumes "wire_send denv now = send_to env" and "half w = None" and "serialize_request env q = Some bs" and "bs \<noteq> []"
    and "length bs \<le> 32768 - header_size" and "parse_request denv bs = Some q"
    and "handle_request denv now q (served w) = Ret (p, d)" and "serialize_response denv p = Some rs"
  shows "send_to env bs (snd (send_to env (sent_header little' MSG_DB_REQ bs) w)) =
    (int (length bs), w\<lparr>served := d, queued := queued w @ answer_bytes denv p\<rparr>)"
proof -
  have "unat (msg_len (new_header MSG_DB_REQ bs)) = header_size + length bs" using assms(5) by (intro new_header_length) simp
  moreover have "take header_size (sent_header little' MSG_DB_REQ bs) = sent_header little' MSG_DB_REQ bs" by simp
  ultimately show ?thesis using assms(2,4-8)
    by (simp add: assms(1) [symmetric] wire_send_def Let_def request_header_def room_for_def answer_def answer_bytes_def frame_def)
qed

text \<open>
  What a call answers. Over such a connection the account server gets the first answer that waits there, and the answer to
  its own request goes to the end of those that wait.
\<close>

lemma call_takes_first:
  assumes "send_to env = wire_send denv now" and "recv_from env = wire_recv"
    and "db_server_conn s = Some w" and "half w = None" and "queued w = concat (map (answer_bytes denv) ps)"
    and "travels env denv q" and "\<forall>p \<in> set ps. returns env denv p"
    and "handle_request denv now q (served w) = Ret (p, d)" and "returns env denv p"
  shows "SendDBRequest env q s = (Some (hd (ps @ [p])),
    s\<lparr>db_server_conn := Some (w\<lparr>served := d, queued := concat (map (answer_bytes denv) (tl (ps @ [p])))\<rparr>)\<rparr>)"
proof -
  from assms(6) obtain bs where bs: "serialize_request env q = Some bs" "bs \<noteq> []" "length bs \<le> 32768 - header_size"
    "parse_request denv bs = Some q" by (auto simp: travels_def)
  from assms(9) obtain rs where rs: "serialize_response denv p = Some rs" by (auto simp: returns_def)
  let ?w = "w\<lparr>served := d, queued := concat (map (answer_bytes denv) (ps @ [p]))\<rparr>"
  have sent: "send_to env bs (snd (send_to env (sent_header (acc_little env) MSG_DB_REQ bs) w)) = (int (length bs), ?w)"
    using request_served [OF assms(1) [symmetric] assms(4) bs assms(8) rs] assms(5) by simp
  have got: "receive_response env ?w = (Some (hd (ps @ [p])), ?w\<lparr>queued := concat (map (answer_bytes denv) (tl (ps @ [p])))\<rparr>)"
    using assms(7,9) by (intro answer_received [OF assms(2)]) (auto simp: hd_append tl_append split: list.split)
  have "fst (send_to env (sent_header (acc_little env) MSG_DB_REQ bs) w) = int header_size" by (simp add: assms(1) wire_send_def)
  with sent got bs(1,2) assms(3) show ?thesis by (auto simp: SendDBRequest_def Let_def case_prod_beta)
qed

text \<open>
  The two servers together, over the ideal stream described above, which takes everything it is given and returns whole
  headers and bodies. When nothing waits on it, the account server's call is exactly the database server's handler: it
  returns its answer, and nothing is left behind.
\<close>

theorem db_call_exact:
  assumes "send_to env = wire_send denv now" and "recv_from env = wire_recv"
    and "db_server_conn s = Some w" and "half w = None" and "queued w = []" and "travels env denv q"
    and "handle_request denv now q (served w) = Ret (p, d)" and "returns env denv p"
  shows "SendDBRequest env q s = (Some p, s\<lparr>db_server_conn := Some (w\<lparr>served := d\<rparr>)\<rparr>)"
  using call_takes_first [OF assms(1-4), of "[]"] assms(5-8) by simp

text \<open>Calls one after the other, with their answers.\<close>

primrec calls :: "'p acc_env \<Rightarrow> DBRequest list \<Rightarrow> 'p AccountService \<Rightarrow> DBResponse option list \<times> 'p AccountService" where
  "calls env [] s = ([], s)"
| "calls env (q # qs) s = (let (r, s1) = SendDBRequest env q s; (rs, s2) = calls env qs s1 in (r # rs, s2))"

lemma calls_in_order:
  assumes "send_to env = wire_send denv now" and "recv_from env = wire_recv"
    and "handle_requests denv (map (Pair now) qs) (served w) = Ret (ps, d)" and "list_all (travels env denv) qs"
    and "list_all (returns env denv) (olds @ ps)"
    and "db_server_conn s = Some w" and "half w = None" and "queued w = concat (map (answer_bytes denv) olds)"
  shows "fst (calls env qs s) = map Some (take (length qs) (olds @ ps))"
  using assms(3-8)
proof (induction qs arbitrary: s w ps olds)
  case Nil
  then show ?case by simp
next
  case (Cons q qs)
  from Cons.prems(1) obtain p d1 ps' where h: "handle_request denv now q (served w) = Ret (p, d1)"
    and hs: "handle_requests denv (map (Pair now) qs) d1 = Ret (ps', d)" and ps: "ps = p # ps'"
    by (auto simp: bindO_split split: outcome.splits)
  let ?w = "w\<lparr>served := d1, queued := concat (map (answer_bytes denv) (tl (olds @ [p])))\<rparr>"
  have first: "SendDBRequest env q s = (Some (hd (olds @ [p])), s\<lparr>db_server_conn := Some ?w\<rparr>)"
    using Cons.prems h unfolding ps by (intro call_takes_first [OF assms(1,2)]) (auto simp: list_all_iff)
  have "list_all (returns env denv) (tl (olds @ [p]) @ ps')"
    using Cons.prems(3) unfolding ps by (cases olds) auto
  then have "fst (calls env qs (s\<lparr>db_server_conn := Some ?w\<rparr>)) = map Some (take (length qs) (tl (olds @ [p]) @ ps'))"
    using Cons.prems hs by (intro Cons.IH [of ?w]) auto
  then show ?case unfolding ps using first by (cases olds) (simp_all add: case_prod_beta)
qed

lemma handle_requests_length: "handle_requests denv qs t = Ret (ps, d) \<Longrightarrow> length ps = length qs"
  by (induction qs arbitrary: t ps) (auto simp: bindO_split split: outcome.splits)

text \<open>
  An answer that comes too late, over the same ideal stream. The account server waits thirty seconds for an answer, then gives up and keeps the
  connection. When one answer still arrives, it waits there, and from then on every call returns the answer of the request
  before it.
\<close>

theorem late_answer_shifts:
  assumes "send_to env = wire_send denv now" and "recv_from env = wire_recv"
    and "db_server_conn s = Some w" and "half w = None" and "queued w = answer_bytes denv late"
    and "list_all (travels env denv) qs" and "handle_requests denv (map (Pair now) qs) (served w) = Ret (ps, d)"
    and "list_all (returns env denv) (late # ps)"
  shows "fst (calls env qs s) = map Some (butlast (late # ps))"
proof -
  have l: "length ps = length qs" using handle_requests_length [OF assms(7)] by simp
  have "fst (calls env qs s) = map Some (take (length qs) ([late] @ ps))"
    using assms(3-8) by (intro calls_in_order [OF assms(1,2)]) simp_all
  with l show ?thesis by (simp add: butlast_conv_take)
qed

text \<open>
  A connection that is lost. Whatever is called, and whatever the five second timer does, a connection is only ever set
  aside when the service ends: one that gives nothing more is asked for ever.
\<close>

lemma connection_kept: "SendDBRequest env q s = (r, s1) \<Longrightarrow> (db_server_conn s1 = None) = (db_server_conn s = None)"
  by (auto simp: SendDBRequest_def Let_def case_prod_beta split: option.splits if_splits)

lemma no_reconnection: "db_server_conn s \<noteq> None \<Longrightarrow> snd (acc_OnTimer5s host connected r1 r2 a s) = s"
  by (auto simp: acc_OnTimer5s_def)

section \<open>Names that exist\<close>

text \<open>The two requests a registration makes.\<close>

definition name_check :: "string \<Rightarrow> DBRequest" where
  "name_check name =
     no_request\<lparr>q_op_type := DB_OP_VERIFY_ACCOUNT, q_account_name := name, q_password := ''invalid_password''\<rparr>"

definition creation :: "'p acc_env \<Rightarrow> string \<Rightarrow> string \<Rightarrow> i32 \<Rightarrow> DBRequest" where
  "creation env name pw chan =
     no_request\<lparr>q_op_type := DB_OP_CREATE_ACCOUNT, q_account_name := name, q_password := MD5Encrypt env pw, q_channel := chan\<rparr>"

text \<open>The database server's refusal to verify a name carries no identifier, whether there is an account of that name or not.\<close>

lemma refusal_names_nobody:
  assumes "handle_request denv now (name_check name) t = Ret (p, d)" and "ret_code p \<noteq> 0"
  shows "p_account_id p = 0"
  using assms
  by (auto simp: name_check_def no_request_def handle_request_def HandleVerifyAccount_def Let_def bindO_split info_response_def no_response_def
      split: outcome.splits if_splits option.splits prod.splits)

text \<open>
  An existing account taken over. Whether a name exists is asked with a fixed password, and the refusal does not say. So
  a registration of a name whose account the database server names as created, as it does for a name that exists, is
  accepted; and from then on the new password logs in as that account, without a call.
\<close>

theorem existing_account_taken_over:
  assumes "send_to env = wire_send denv now" and "recv_from env = wire_recv"
    and "db_server_conn s = Some w" and "half w = None" and "queued w = []"
    and "cached_by_name name s = None" and "travels env denv (name_check name)" and "travels env denv (creation env name pw chan)"
    and "handle_requests denv [(now, name_check name), (now, creation env name pw chan)] (served w) = Ret ([refused, made], d)"
    and "returns env denv refused" and "returns env denv made"
    and "ret_code refused \<noteq> 0" and "ret_code made = 0" and "p_account_id made \<noteq> 0"
  shows "\<exists>s' info. acc_CreateAccount env name pw chan s = (Some (p_account_id made), s') \<and>
    acc_VerifyAccount env name pw s' = (Some info, s') \<and> account_id info = p_account_id made"
proof -
  from assms(9) obtain d1 where h: "handle_request denv now (name_check name) (served w) = Ret (refused, d1)"
    "handle_request denv now (creation env name pw chan) d1 = Ret (made, d)"
    by (auto simp: bindO_split split: outcome.splits)
  have first: "SendDBRequest env (name_check name) s = (Some refused, s\<lparr>db_server_conn := Some (w\<lparr>served := d1\<rparr>)\<rparr>)"
    using call_takes_first [OF assms(1-4), of "[]"] assms h by simp
  have second: "SendDBRequest env (creation env name pw chan) (s\<lparr>db_server_conn := Some (w\<lparr>served := d1\<rparr>)\<rparr>) =
      (Some made, s\<lparr>db_server_conn := Some (w\<lparr>served := d\<rparr>)\<rparr>)"
    using call_takes_first [OF assms(1,2), of "s\<lparr>db_server_conn := Some (w\<lparr>served := d1\<rparr>)\<rparr>" "w\<lparr>served := d1\<rparr>" "[]"] assms h by simp
  have "GetAccountInfoByName env name s = (None, s\<lparr>db_server_conn := Some (w\<lparr>served := d1\<rparr>)\<rparr>)"
    using first refusal_names_nobody [OF h(1) assms(12)] assms(6) by (simp add: GetAccountInfoByName_def name_check_def)
  with second have c: "\<exists>s'. acc_CreateAccount env name pw chan s = (Some (p_account_id made), s')"
    using assms(13,14) by (auto simp: acc_CreateAccount_def creation_def Let_def)
  then obtain s' where s': "acc_CreateAccount env name pw chan s = (Some (p_account_id made), s')" ..
  from created_verified [OF this] s' show ?thesis by auto
qed

section \<open>Examples\<close>

text \<open>A code for the messages at hand in one byte, and the two servers with it.\<close>

definition sample_made :: DBResponse where
  "sample_made = no_response\<lparr>p_account_id := 5, p_account_name := ''ann''\<rparr>"

definition sample_refused :: DBResponse where
  "sample_refused = no_response\<lparr>ret_code := 1\<rparr>"

definition sample_unknown :: DBRequest where
  "sample_unknown = no_request\<lparr>q_op_type := DB_OP_UNKNOWN\<rparr>"

definition sample_account :: "(nat, unit, unit) db_wire acc_env" where
  "sample_account =
     \<lparr>acc_little = True, acc_MD5 = \<lambda>_. replicate 16 0, send_to = \<lambda>_ w. (0, w), recv_from = wire_recv,
      serialize_request = \<lambda>q. Some [if q_op_type q = DB_OP_CREATE_ACCOUNT then 1 else if q_op_type q = DB_OP_VERIFY_ACCOUNT then 2 else 3],
      parse_response = \<lambda>bs. Some (if bs = [0] then sample_made else sample_refused),
      parse_login = \<lambda>_. None, parse_reg = \<lambda>_. None, serialize_login_ack = \<lambda>_. None, serialize_reg_ack = \<lambda>_. None,
      unknown_info = indeterminate (sample_env True [] []), unknown_header = []\<rparr>"

definition sample_database :: "(nat, unit, unit) db_env" where
  "sample_database = (sample_env False [] [])
     \<lparr>libm := (sample_mysql False [] [])\<lparr>insert_id := \<lambda>_ _. 5, stmt_store_result := \<lambda>_ _ m. (0, [], m)\<rparr>,
      parse_request := \<lambda>bs. Some (if bs = [1] then creation sample_account ''ann'' ''new'' 0
                                  else if bs = [2] then name_check ''ann'' else sample_unknown),
      serialize_response := \<lambda>p. Some [if ret_code p = 0 then 0 else 1]\<rparr>"

definition sample_accounts :: "(nat, unit, unit) db_wire acc_env" where
  "sample_accounts = sample_account\<lparr>send_to := wire_send sample_database 5\<rparr>"

definition sample_wire :: "byte list \<Rightarrow> (nat, unit, unit) db_wire" where
  "sample_wire bs = \<lparr>served = sample_service, half = None, queued = bs\<rparr>"

lemma sample_account_simps [simp]:
  "send_to sample_accounts = wire_send sample_database 5" "recv_from sample_accounts = wire_recv"
  "half (sample_wire bs) = None" "queued (sample_wire bs) = bs" "served (sample_wire bs) = sample_service"
  by (simp_all add: sample_accounts_def sample_account_def sample_wire_def)

lemma sample_travels [simp]:
  "travels sample_accounts sample_database sample_unknown" "travels sample_accounts sample_database (name_check ''ann'')"
  "travels sample_accounts sample_database (creation sample_accounts ''ann'' ''new'' 0)"
  by (simp_all add: travels_def sample_accounts_def sample_account_def sample_database_def sample_unknown_def name_check_def creation_def
      MD5Encrypt_def no_request_def)

lemma sample_returns [simp]:
  "returns sample_accounts sample_database sample_made" "returns sample_accounts sample_database sample_refused"
  by (simp_all add: returns_def sample_accounts_def sample_account_def sample_database_def sample_made_def sample_refused_def no_response_def)

lemma sample_unknown_refused: "handle_request sample_database 5 sample_unknown d = Ret (sample_refused, d)"
  by (simp add: handle_request_def sample_unknown_def sample_refused_def no_request_def)

lemma sample_registration:
  "\<exists>d. handle_requests sample_database [(5, name_check ''ann''), (5, creation sample_accounts ''ann'' ''new'' 0)] sample_service =
    Ret ([sample_refused, sample_made], d)"
proof -
  have lib: "prepares (libm sample_database)" "\<And>c sql bs m. (fst (stmt_execute (libm sample_database) c sql bs m) = 0) = False"
    by (simp_all add: prepares_def sample_database_def sample_mysql_def)
  have q: "m_mysql (last (db_connections sample_service)) = Some 0" by (simp add: sample_service_def)
  obtain xs m' where p: "prepared_query sample_database password_sql [bind_text 1 ''ann''] (last (db_connections sample_service)) m =
    (let (res, m'') = stmt_query (libm sample_database) \<lparr>stmt_conn = 0, stmt_sql = password_sql, m_binds = xs\<rparr> m' in Ret (Some res, m''))" for m
    using query_answer [OF lib(1) q, of "[bind_text 1 ''ann'']" password_sql] by auto
  have none: "res_rows (fst (stmt_query (libm sample_database) st m)) = []" for st m
    by (simp add: stmt_query_def stmt_run_def sample_database_def sample_mysql_def)
  have "fst (next_row (libm sample_database) (fst (stmt_query (libm sample_database) st m))) = False" for st m
    using none [of st m] by (simp add: next_row_def)
  moreover have restored: "sample_service\<lparr>world := m, db_connections := butlast (db_connections sample_service) @ [last (db_connections sample_service)]\<rparr> =
      sample_service" for m by (simp add: sample_service_def db_init_def)
  ultimately have v: "handle_request sample_database 5 (name_check ''ann'') sample_service = Ret (sample_refused, sample_service)"
    using ready_connection [OF sample_simps(2)] p
    by (auto simp: handle_request_def HandleVerifyAccount_def VerifyAccount_def name_check_def no_request_def Let_def case_prod_beta
        sample_refused_def ReleaseDBConnection_def)
  have "\<exists>d. CreateAccount sample_database 5 ''ann'' pw 0 sample_service = Ret ((True, 5), d)" for pw
  proof -
    have "\<exists>m'. prepared_write sample_database insert_account_sql
        [bind_text 1 ''ann'', bind_text 2 (Sha1Hash (SHA1 sample_database) pw), bindInt32 (little sample_database) 3 0,
         bindInt64 (little sample_database) 4 5, bindInt64 (little sample_database) 5 5, bindInt32 (little sample_database) 6 0,
         bindInt64 (little sample_database) 7 0] (last (db_connections sample_service)) (world sample_service) = Ret (\<not> False, m')"
      by (rule write_answer [OF lib(1) q _ _ lib(2)]) simp_all
    moreover have "getLastInsertId (libm sample_database) (last (db_connections sample_service)) m = Ret 5" for m
      using q by (simp add: getLastInsertId_def sample_database_def)
    ultimately show ?thesis using ready_connection [OF sample_simps(2)]
      by (auto simp: CreateAccount_def created_id_def word_gt_0)
  qed
  then obtain d where "CreateAccount sample_database 5 ''ann'' (MD5Encrypt sample_accounts ''new'') 0 sample_service = Ret ((True, 5), d)" by blast
  then have "handle_request sample_database 5 (creation sample_accounts ''ann'' ''new'' 0) sample_service = Ret (sample_made, d)"
    by (simp add: handle_request_def HandleCreateAccount_def creation_def no_request_def sample_made_def no_response_def)
  with v show ?thesis by simp
qed

theorem db_call_exact_witness:
  "SendDBRequest sample_accounts sample_unknown (account_init\<lparr>db_server_conn := Some (sample_wire [])\<rparr>) =
    (Some sample_refused, account_init\<lparr>db_server_conn := Some (sample_wire [])\<rparr>)"
  using db_call_exact [of sample_accounts sample_database 5 "account_init\<lparr>db_server_conn := Some (sample_wire [])\<rparr>" "sample_wire []"
      sample_unknown sample_refused sample_service]
  by (simp add: sample_unknown_refused)

theorem late_answer_shifts_witness:
  "fst (calls sample_accounts [sample_unknown, sample_unknown]
     (account_init\<lparr>db_server_conn := Some (sample_wire (answer_bytes sample_database sample_made))\<rparr>)) =
   [Some sample_made, Some sample_refused]"
  using late_answer_shifts [of sample_accounts sample_database 5
      "account_init\<lparr>db_server_conn := Some (sample_wire (answer_bytes sample_database sample_made))\<rparr>"
      "sample_wire (answer_bytes sample_database sample_made)" sample_made "[sample_unknown, sample_unknown]"
      "[sample_refused, sample_refused]" sample_service]
  by (simp add: sample_unknown_refused)

theorem existing_account_taken_over_witness:
  "\<exists>s' info. acc_CreateAccount sample_accounts ''ann'' ''new'' 0 (account_init\<lparr>db_server_conn := Some (sample_wire [])\<rparr>) = (Some 5, s') \<and>
     acc_VerifyAccount sample_accounts ''ann'' ''new'' s' = (Some info, s') \<and> account_id info = 5"
proof -
  obtain d where d: "handle_requests sample_database [(5, name_check ''ann''), (5, creation sample_accounts ''ann'' ''new'' 0)] sample_service =
    Ret ([sample_refused, sample_made], d)" using sample_registration by blast
  have codes: "ret_code sample_refused \<noteq> 0" "ret_code sample_made = 0" "p_account_id sample_made = 5"
    by (simp_all add: sample_refused_def sample_made_def no_response_def)
  show ?thesis
    using existing_account_taken_over [of sample_accounts sample_database 5 "account_init\<lparr>db_server_conn := Some (sample_wire [])\<rparr>"
        "sample_wire []" "''ann''" "''new''" 0 sample_refused sample_made d] d codes
    by (simp add: cached_by_name_def account_init_def)
qed


end
