(* ===== verification/Login.thy ===== *)
theory Login
  imports Account Float32
begin

text \<open>
  The login server, \<open>login_server/login_service.cc\<close>: requests of players are passed on to the account server over one
  connection, its answers are given back with the list of servers, and a player who selects a server gets a code to
  enter it with. The sockets \<open>'a\<close> to the account server and \<open>'k\<close> to the players, the code generated for the messages and
  the random numbers are parameters.
\<close>

section \<open>Messages and state\<close>

record ServerNode =
  svr_id :: i32
  svr_name :: string
  svr_flag :: i32
  corner_mark :: i32
  svr_open_time :: int
  svr_status :: i32
  svr_addr :: string
  svr_port :: i32

record AccountLoginAck =
  la_ret_code :: u32
  la_account_id :: u64
  la_last_svr_id :: i32
  la_last_svr_name :: string
  la_review :: bool
  la_channel :: i32
  la_ip_addr :: i32
  la_svr_nodes :: "ServerNode list"

record ServerListAck =
  sl_ret_code :: u32
  sl_svr_nodes :: "ServerNode list"

record SelectServerReq =
  sr_account_id :: u64
  sr_server_id :: i32
  sr_check_role :: bool

record SelectServerAck =
  sa_ret_code :: u32
  sa_account_id :: u64
  sa_server_id :: i32
  sa_server_addr :: string
  sa_server_port :: i32
  sa_login_code :: i32

record LogicServerInfo =
  ls_server_id :: i32
  ls_server_name :: string
  ls_ip :: string
  ls_port :: i32
  ls_conn_id :: i32
  ls_cur_online :: i32
  ls_max_online :: i32
  ls_last_update_time :: int

text \<open>\<open>'g\<close> is the state of \<^verbatim>\<open>rand\<close>; the tables list their entries in the order they are walked.\<close>

record ('a, 'k, 'g) LoginService =
  account_server_conn :: "'a option"
  client_map :: "('a \<times> 'k) list"
  login_codes :: "(u64 \<times> i32) list"
  code_expire_time :: "(u64 \<times> time_t) list"
  logic_servers :: "(i32 \<times> LogicServerInfo) list"
  code_initialized :: bool
  generator :: 'g

record 'g login_env =
  l_little :: bool
  login_readable :: "byte list \<Rightarrow> bool"
  reg_readable :: "byte list \<Rightarrow> bool"
  parse_select :: "byte list \<Rightarrow> SelectServerReq option"
  parse_ack :: "byte list \<Rightarrow> AccountLoginAck option"
  serialize_ack :: "AccountLoginAck \<Rightarrow> byte list option"
  serialize_list :: "ServerListAck \<Rightarrow> byte list"
  serialize_selected :: "SelectServerAck \<Rightarrow> byte list"
  seeded :: "time_t \<Rightarrow> 'g"
  drawn :: "'g \<Rightarrow> int \<times> 'g"

definition login_init :: "'g \<Rightarrow> ('a, 'k, 'g) LoginService" where
  "login_init g =
     \<lparr>account_server_conn = None, client_map = [], login_codes = [], code_expire_time = [], logic_servers = [],
      code_initialized = False, generator = g\<rparr>"

definition MSG_SERVER_LIST_REQ :: u32 where "MSG_SERVER_LIST_REQ = 100009"
definition MSG_SERVER_LIST_ACK :: u32 where "MSG_SERVER_LIST_ACK = 100010"
definition MSG_SELECT_SERVER_REQ :: u32 where "MSG_SELECT_SERVER_REQ = 100011"
definition MSG_SELECT_SERVER_ACK :: u32 where "MSG_SELECT_SERVER_ACK = 100012"

section \<open>Codes\<close>

definition GenerateLoginCode :: "'g login_env \<Rightarrow> time_t \<Rightarrow> ('a, 'k, 'g) LoginService \<Rightarrow> i32 \<times> ('a, 'k, 'g) LoginService" where
  "GenerateLoginCode env now s =
     (let g = (if code_initialized s then generator s else seeded env now);
          (r, g') = drawn env g in
      (100000 + r mod 900000, s\<lparr>code_initialized := True, generator := g'\<rparr>))"

text \<open>
  \<^verbatim>\<open>erase\<close> of an iterator that points to no entry has no defined behaviour. \<open>now\<close> is read in the middle.
\<close>

definition erase_code :: "u64 \<Rightarrow> ('a, 'k, 'g) LoginService \<Rightarrow> ('a, 'k, 'g) LoginService outcome" where
  "erase_code aid s =
     (case map_of (code_expire_time s) aid of
        None \<Rightarrow> Fault OutOfRange
      | Some _ \<Rightarrow> Ret (s\<lparr>login_codes := AList.delete aid (login_codes s), code_expire_time := AList.delete aid (code_expire_time s)\<rparr>))"

definition VerifyLoginCode ::
  "time_t \<Rightarrow> u64 \<Rightarrow> i32 \<Rightarrow> ('a, 'k, 'g) LoginService \<Rightarrow> (bool \<times> ('a, 'k, 'g) LoginService) outcome" where
  "VerifyLoginCode now aid code s =
     (case map_of (login_codes s) aid of
        None \<Rightarrow> Ret (False, s)
      | Some c \<Rightarrow>
          if (case map_of (code_expire_time s) aid of None \<Rightarrow> True | Some t \<Rightarrow> t < now)
          then bindO (erase_code aid s) (\<lambda>s'. Ret (False, s'))
          else if c = code then bindO (erase_code aid s) (\<lambda>s'. Ret (True, s'))
          else Ret (False, s))"

section \<open>Servers\<close>

text \<open>
  \<^verbatim>\<open>max_online * 0.7\<close> is a product of numbers of double precision: 53 bits, the nearest one, an even one in the middle of
  two. The constant is the number of this precision nearest to 0.7. The numbers here are far from the subnormal ones.
\<close>

definition ulp64 :: "rat \<Rightarrow> rat" where
  "ulp64 x = pow2 (ilog \<bar>x\<bar> - 52)"

definition round64 :: "rat \<Rightarrow> rat" where
  "round64 x = (if x = 0 then 0 else of_int (nearest (x / ulp64 x)) * ulp64 x)"

definition seven_tenths :: rat where
  "seven_tenths = 3152519739159347 / 4503599627370496"

definition server_flag :: "i32 \<Rightarrow> i32 \<Rightarrow> i32" where
  "server_flag cur mx =
     (if of_int cur < round64 (of_int mx * seven_tenths) then 1 else if cur < mx then 2 else 3)"

definition server_node :: "time_t \<Rightarrow> LogicServerInfo \<Rightarrow> ServerNode" where
  "server_node now v =
     \<lparr>svr_id = ls_server_id v, svr_name = ls_server_name v, svr_flag = server_flag (ls_cur_online v) (ls_max_online v),
      corner_mark = 0, svr_open_time = now, svr_status = 1, svr_addr = ls_ip v, svr_port = ls_port v\<rparr>"

text \<open>The name is the UTF-8 of the words for a default server.\<close>

definition default_node :: "time_t \<Rightarrow> ServerNode" where
  "default_node now =
     \<lparr>svr_id = 1, svr_name = text_of [233, 187, 152, 232, 174, 164, 230, 156, 141, 229, 138, 161, 229, 153, 168], svr_flag = 1,
      corner_mark = 0, svr_open_time = now, svr_status = 1, svr_addr = ''127.0.0.1'', svr_port = 8100\<rparr>"

definition GetLogicServerInfo :: "u64 \<Rightarrow> ('a, 'k, 'g) LoginService \<Rightarrow> (string \<times> i32) option" where
  "GetLogicServerInfo aid s =
     (case filter (\<lambda>(_, v). ls_cur_online v < ls_max_online v) (logic_servers s) of
        [] \<Rightarrow> None
      | (_, v) # _ \<Rightarrow> Some (ls_ip v, ls_port v))"

section \<open>Requests\<close>

text \<open>What is handed to \<^verbatim>\<open>send\<close>.\<close>

datatype 'k sending = ToAccount "byte list" | ToClient 'k "byte list"

definition HandleServerListRequest ::
  "'g login_env \<Rightarrow> time_t \<Rightarrow> 'k \<Rightarrow> byte list \<Rightarrow> ('a, 'k, 'g) LoginService \<Rightarrow> 'k sending list" where
  "HandleServerListRequest env now client data s =
     [ToClient client (frame (l_little env) MSG_SERVER_LIST_ACK
        (serialize_list env \<lparr>sl_ret_code = 0, sl_svr_nodes = map (server_node now \<circ> snd) (logic_servers s)\<rparr>))]"

text \<open>The server a player asks for, or the first with room: its address, port and number. No address means there is none.\<close>

definition chosen_server :: "SelectServerReq \<Rightarrow> ('a, 'k, 'g) LoginService \<Rightarrow> string \<times> i32 \<times> i32" where
  "chosen_server req s =
     (if 0 < sr_server_id req then
        (case map_of (logic_servers s) (sr_server_id req) of
           None \<Rightarrow> ('''', 0, sr_server_id req)
         | Some v \<Rightarrow> if ls_cur_online v < ls_max_online v then (ls_ip v, ls_port v, sr_server_id req) else ('''', 0, sr_server_id req))
      else
        (case filter (\<lambda>(_, v). ls_cur_online v < ls_max_online v) (logic_servers s) of
           [] \<Rightarrow> ('''', 0, sr_server_id req)
         | (_, v) # _ \<Rightarrow> (ls_ip v, ls_port v, ls_server_id v)))"

definition select_ack ::
  "'g login_env \<Rightarrow> time_t \<Rightarrow> SelectServerReq \<Rightarrow> ('a, 'k, 'g) LoginService \<Rightarrow> SelectServerAck \<times> ('a, 'k, 'g) LoginService" where
  "select_ack env now req s =
     (let (ip, port, sid) = chosen_server req s in
      if ip = '''' then
        (\<lparr>sa_ret_code = 1, sa_account_id = sr_account_id req, sa_server_id = 0, sa_server_addr = '''', sa_server_port = 0,
          sa_login_code = 0\<rparr>, s)
      else
        let (code, s1) = GenerateLoginCode env now s in
        (\<lparr>sa_ret_code = 0, sa_account_id = sr_account_id req, sa_server_id = sid, sa_server_addr = ip, sa_server_port = port,
          sa_login_code = code\<rparr>,
         s1\<lparr>login_codes := AList.update (sr_account_id req) code (login_codes s1),
            code_expire_time := AList.update (sr_account_id req) (now + 300) (code_expire_time s1)\<rparr>))"

definition HandleSelectServerRequest ::
  "'g login_env \<Rightarrow> time_t \<Rightarrow> 'k \<Rightarrow> byte list \<Rightarrow> ('a, 'k, 'g) LoginService \<Rightarrow> 'k sending list \<times> ('a, 'k, 'g) LoginService" where
  "HandleSelectServerRequest env now client data s =
     (case parse_select env data of
        None \<Rightarrow> ([], s)
      | Some req \<Rightarrow>
          let (ack, s1) = select_ack env now req s in
          ([ToClient client (frame (l_little env) MSG_SELECT_SERVER_ACK (serialize_selected env ack))], s1))"

section \<open>The account server\<close>

text \<open>The fiber for the answers that a success starts as well is \<open>response_loop\<close> below.\<close>

definition ConnectToAccountServer :: "'a attempt \<Rightarrow> ('a, 'k, 'g) LoginService \<Rightarrow> bool \<times> ('a, 'k, 'g) LoginService" where
  "ConnectToAccountServer t s =
     (case t of
        NoAddress \<Rightarrow> (False, s)
      | NoSocket \<Rightarrow> (False, s\<lparr>account_server_conn := None\<rparr>)
      | NotConnected \<Rightarrow> (False, s\<lparr>account_server_conn := None\<rparr>)
      | Connected a \<Rightarrow> (True, s\<lparr>account_server_conn := Some a\<rparr>))"

text \<open>
  A request is passed on as it came. \<open>isConnected\<close> is what the socket says of itself, \<open>t\<close> what a new connection would come to,
  \<open>n\<close> the result of \<^verbatim>\<open>send\<close>. The table of players is keyed by the socket to the account server.
\<close>

definition account_connection :: "bool \<Rightarrow> 'a attempt \<Rightarrow> ('a, 'k, 'g) LoginService \<Rightarrow> bool \<times> ('a, 'k, 'g) LoginService" where
  "account_connection isConnected t s =
     (if account_server_conn s = None \<or> \<not> isConnected then ConnectToAccountServer t s else (True, s))"

definition pass_on ::
  "'g login_env \<Rightarrow> u32 \<Rightarrow> bool \<Rightarrow> bool \<Rightarrow> 'a attempt \<Rightarrow> int \<Rightarrow> 'k \<Rightarrow> byte list \<Rightarrow> ('a, 'k, 'g) LoginService \<Rightarrow>
   'k sending list \<times> ('a, 'k, 'g) LoginService" where
  "pass_on env mid readable isConnected t n client data s =
     (let (ok, s1) = account_connection isConnected t s in
      if \<not> ok \<or> \<not> readable then ([], s1)
      else case account_server_conn s1 of
        None \<Rightarrow> ([], s1)
      | Some a \<Rightarrow>
          ([ToAccount (frame (l_little env) mid data)],
           if n \<le> 0 then s1\<lparr>client_map := AList.delete a (AList.update a client (client_map s1))\<rparr>
           else s1\<lparr>client_map := AList.update a client (client_map s1)\<rparr>))"

definition login_HandleLoginRequest ::
  "'g login_env \<Rightarrow> bool \<Rightarrow> 'a attempt \<Rightarrow> int \<Rightarrow> 'k \<Rightarrow> byte list \<Rightarrow> ('a, 'k, 'g) LoginService \<Rightarrow>
   'k sending list \<times> ('a, 'k, 'g) LoginService" where
  "login_HandleLoginRequest env isConnected t n client data =
     pass_on env MSG_ACCOUNT_LOGIN_REQ (login_readable env data) isConnected t n client data"

definition login_HandleRegisterRequest ::
  "'g login_env \<Rightarrow> bool \<Rightarrow> 'a attempt \<Rightarrow> int \<Rightarrow> 'k \<Rightarrow> byte list \<Rightarrow> ('a, 'k, 'g) LoginService \<Rightarrow>
   'k sending list \<times> ('a, 'k, 'g) LoginService" where
  "login_HandleRegisterRequest env isConnected t n client data =
     pass_on env MSG_ACCOUNT_REG_REQ (reg_readable env data) isConnected t n client data"

text \<open>
  The loop over a player's messages. What the sockets do while it is handled is the same for all messages of one reading.
\<close>

definition login_message ::
  "'g login_env \<Rightarrow> time_t \<Rightarrow> bool \<Rightarrow> 'a attempt \<Rightarrow> int \<Rightarrow> 'k \<Rightarrow> MessageHeader \<Rightarrow> byte list \<Rightarrow>
   'k sending list \<times> ('a, 'k, 'g) LoginService \<Rightarrow> 'k sending list \<times> ('a, 'k, 'g) LoginService" where
  "login_message env now isConnected t n client h body w =
     (let (sent, s) = w;
          (out, s1) = (if msg_id h = MSG_ACCOUNT_LOGIN_REQ then login_HandleLoginRequest env isConnected t n client body s
                       else if msg_id h = MSG_ACCOUNT_REG_REQ then login_HandleRegisterRequest env isConnected t n client body s
                       else if msg_id h = MSG_SERVER_LIST_REQ then (HandleServerListRequest env now client body s, s)
                       else if msg_id h = MSG_SELECT_SERVER_REQ then HandleSelectServerRequest env now client body s
                       else ([], s)) in
      (sent @ out, s1))"

definition login_handleClient ::
  "'g login_env \<Rightarrow> time_t \<Rightarrow> bool \<Rightarrow> 'a attempt \<Rightarrow> int \<Rightarrow> 'k \<Rightarrow> received list \<Rightarrow> ('a, 'k, 'g) LoginService \<Rightarrow>
   'k sending list \<times> ('a, 'k, 'g) LoginService" where
  "login_handleClient env now isConnected t n client rs s =
     fst (serve (l_little env) (login_message env now isConnected t n client) rs [] ([], s))"

text \<open>An answer: a successful log in gets the servers added, everything else is left as it came.\<close>

definition with_servers :: "time_t \<Rightarrow> (i32 \<times> LogicServerInfo) list \<Rightarrow> AccountLoginAck \<Rightarrow> AccountLoginAck" where
  "with_servers now servers ack =
     (let nodes = la_svr_nodes ack @ map (server_node now \<circ> snd) servers in
      ack\<lparr>la_svr_nodes := if nodes = [] then [default_node now] else nodes\<rparr>)"

definition relayed ::
  "'g login_env \<Rightarrow> time_t \<Rightarrow> (i32 \<times> LogicServerInfo) list \<Rightarrow> MessageHeader \<Rightarrow> byte list \<Rightarrow> byte list" where
  "relayed env now servers h body =
     (let data = header_bytes (l_little env) (swap_header (l_little env) h) @ body in
      if msg_id h = MSG_ACCOUNT_LOGIN_ACK then
        (case parse_ack env body of
           None \<Rightarrow> data
         | Some ack \<Rightarrow>
             if la_ret_code ack = 0 then
               (case serialize_ack env (with_servers now servers ack) of
                  None \<Rightarrow> data
                | Some bs \<Rightarrow> frame (l_little env) MSG_ACCOUNT_LOGIN_ACK bs)
             else data)
      else data)"

definition relay ::
  "'g login_env \<Rightarrow> ('k \<Rightarrow> bool) \<Rightarrow> time_t \<Rightarrow> MessageHeader \<Rightarrow> byte list \<Rightarrow>
   'k sending list \<times> ('a, 'k, 'g) LoginService \<Rightarrow> 'k sending list \<times> ('a, 'k, 'g) LoginService" where
  "relay env isConnected now h body w =
     (let (sent, s) = w in
      case account_server_conn s of
        None \<Rightarrow> (sent, s)
      | Some a \<Rightarrow>
          (case map_of (client_map s) a of
             None \<Rightarrow> (sent, s)
           | Some k \<Rightarrow>
               (sent @ (if isConnected k then [ToClient k (relayed env now (logic_servers s) h body)] else []),
                s\<lparr>client_map := AList.delete a (client_map s)\<rparr>)))"

text \<open>
  The fiber that reads the answers: a call that gives nothing for now is made again, the end of the connection ends the
  fiber. A call without a connection is not among the calls.
\<close>

primrec response_loop ::
  "'g login_env \<Rightarrow> ('k \<Rightarrow> bool) \<Rightarrow> time_t \<Rightarrow> received list \<Rightarrow> byte list \<Rightarrow> ('a, 'k, 'g) LoginService \<Rightarrow>
   'k sending list \<times> ('a, 'k, 'g) LoginService" where
  "response_loop env isConnected now [] buf s = ([], s)"
| "response_loop env isConnected now (r # rs) buf s =
     (case r of
        Got bs \<Rightarrow>
          let (ms, rest) = drain (l_little env) (buf @ bs);
              (out, s1) = fold (\<lambda>(h, body). relay env isConnected now h body) ms ([], s);
              (out', s2) = response_loop env isConnected now rs rest s1 in
          (out @ out', s2)
      | WouldBlock \<Rightarrow> response_loop env isConnected now rs buf s
      | Closed \<Rightarrow> ([], s))"

section \<open>The rest of the service\<close>

text \<open>The handlers of packets; the code that is generated after a log in is only logged.\<close>

definition OnCheckVersionReq :: "'b \<Rightarrow> bool" where "OnCheckVersionReq packet = True"
definition login_OnAccountRegReq :: "'b \<Rightarrow> bool" where "login_OnAccountRegReq packet = True"

definition login_OnAccountLoginReq :: "'g login_env \<Rightarrow> time_t \<Rightarrow> 'b \<Rightarrow> ('a, 'k, 'g) LoginService \<Rightarrow> bool \<times> ('a, 'k, 'g) LoginService" where
  "login_OnAccountLoginReq env now packet s = (True, snd (GenerateLoginCode env now s))"

definition OnServerListReq :: "'b \<Rightarrow> bool" where "OnServerListReq packet = True"
definition OnSelectServerReq :: "'b \<Rightarrow> bool" where "OnSelectServerReq packet = True"
definition login_OnHeartBeatReq :: "'b \<Rightarrow> bool" where "login_OnHeartBeatReq packet = True"
definition OnLogicRegToLoginReq :: "'b \<Rightarrow> bool" where "OnLogicRegToLoginReq packet = True"
definition OnLogicUpdateReq :: "'b \<Rightarrow> bool" where "OnLogicUpdateReq packet = True"

definition login_RegisterToCenterServer :: "bool \<Rightarrow> bool \<Rightarrow> int \<Rightarrow> int \<Rightarrow> bool \<times> byte list list" where
  "login_RegisterToCenterServer host = send_two host 1001 ''login_server_register''"

definition login_SendHeartbeatToCenterServer :: "bool \<Rightarrow> bool \<Rightarrow> int \<Rightarrow> int \<Rightarrow> byte list list" where
  "login_SendHeartbeatToCenterServer host isConnected r1 r2 = snd (send_two host 1002 ''login_server_heartbeat'' isConnected r1 r2)"

definition login_OnTimer5s :: "bool \<Rightarrow> bool \<Rightarrow> int \<Rightarrow> int \<Rightarrow> byte list list" where
  "login_OnTimer5s host isConnected r1 r2 = login_SendHeartbeatToCenterServer host isConnected r1 r2"

section \<open>How full a server is\<close>

lemma ulp64_pos [simp]: "0 < ulp64 x"
  by (simp add: ulp64_def)

lemma round64_near: "\<bar>round64 x - x\<bar> \<le> ulp64 x / 2"
proof -
  have "\<bar>of_int (nearest (x / ulp64 x)) - x / ulp64 x\<bar> * ulp64 x \<le> 1 / 2 * ulp64 x"
    using nearest_half [of "x / ulp64 x"] less_imp_le [OF ulp64_pos] by (rule mult_right_mono)
  moreover have "of_int (nearest (x / ulp64 x)) * ulp64 x - x = (of_int (nearest (x / ulp64 x)) - x / ulp64 x) * ulp64 x"
    using ulp64_pos [of x] by (simp add: left_diff_distrib less_imp_neq [symmetric])
  ultimately show ?thesis using less_imp_le [OF ulp64_pos] by (simp add: round64_def abs_mult)
qed

lemma ulp64_le: "0 < x \<Longrightarrow> ulp64 x \<le> x / 2 ^ 52"
proof -
  assume "0 < x"
  then have "pow2 (ilog x) \<le> x" using ilog_bounds by blast
  moreover have "pow2 (ilog x) = 2 ^ 52 * pow2 (ilog x - 52)" using pow2_add_nat [of "ilog x - 52" 52] by simp
  ultimately show ?thesis using \<open>0 < x\<close> by (simp add: ulp64_def)
qed

text \<open>An integer is a multiple of the spacing of the numbers below \<open>2 ^ 52\<close>: rounding does not pass it.\<close>

lemma round64_below_int:
  assumes "0 < x" and "x \<le> of_int k" and "x < 2 ^ 52"
  shows "round64 x \<le> of_int k"
proof -
  have "pow2 (ilog x) \<le> x" using ilog_bounds [OF assms(1)] by simp
  then have "pow2 (ilog x) < pow2 52" using assms(3) pow2_add_nat [of 0 52] by simp
  then have "ilog x < 52" using pow2_le [of 52 "ilog x"] by linarith
  then have "pow2 (ilog x - 52) * 2 ^ nat (52 - ilog x) = 1"
    using pow2_add_nat [of "ilog x - 52" "nat (52 - ilog x)"] by (simp add: mult.commute)
  then have k: "rat_of_int k = of_int (k * 2 ^ nat (52 - ilog x)) * ulp64 x"
    using assms(1) by (simp add: ulp64_def mult.commute mult.left_commute)
  have "x / ulp64 x \<le> of_int (k * 2 ^ nat (52 - ilog x))"
    using assms(2) unfolding k by (simp add: pos_divide_le_eq)
  then have "nearest (x / ulp64 x) \<le> k * 2 ^ nat (52 - ilog x)" using nearest_mono nearest_int by metis
  then have "rat_of_int (nearest (x / ulp64 x)) * ulp64 x \<le> of_int (k * 2 ^ nat (52 - ilog x)) * ulp64 x"
    by (intro mult_right_mono) (simp_all only: of_int_le_iff less_imp_le [OF ulp64_pos])
  then show ?thesis unfolding k [symmetric] using assms(1) by (simp add: round64_def)
qed

text \<open>
  How full a server is. Whatever the rounding of the products, a server is called free exactly when less than seven tenths
  of its places are taken, in the arithmetic of the integers, and crowded exactly when not all are.
\<close>

theorem fullness_exact:
  assumes "0 \<le> mx" and "mx < 2 ^ 31"
  shows "server_flag cur mx = (if 10 * cur < 7 * mx then 1 else if cur < mx then 2 else 3)"
proof (cases "mx = 0")
  case True
  then show ?thesis by (auto simp: server_flag_def round64_def)
next
  case False
  define x where "x = rat_of_int mx * seven_tenths"
  have m: "0 < rat_of_int mx" "rat_of_int mx < 2 ^ 31"
  proof -
    show "0 < rat_of_int mx" using assms(1) False by simp
    have "rat_of_int mx < rat_of_int (2 ^ 31)" using assms(2) by (simp only: of_int_less_iff)
    then show "rat_of_int mx < 2 ^ 31" by simp
  qed
  have x: "x = rat_of_int (7 * mx) / 10 - rat_of_int mx / (5 * 2 ^ 52)" by (simp add: x_def seven_tenths_def)
  have pos: "0 < x" using m(1) by (simp add: x_def seven_tenths_def)
  have "x < 2 ^ 52" using m pos by (simp add: x_def seven_tenths_def)
  have "(rat_of_int cur < round64 x) = (10 * cur < 7 * mx)"
  proof (cases "10 * cur < 7 * mx")
    case True
    then have "rat_of_int (10 * cur + 1) \<le> rat_of_int (7 * mx)" by (simp only: of_int_le_iff)
    then have c: "rat_of_int cur + 1 / 10 \<le> rat_of_int (7 * mx) / 10" by simp
    have "x \<le> rat_of_int mx" using m(1) by (simp add: x_def seven_tenths_def)
    moreover have "x - ulp64 x / 2 \<le> round64 x" using round64_near [of x] by linarith
    ultimately have "x - rat_of_int mx / 2 ^ 53 \<le> round64 x" using ulp64_le [OF pos] by simp
    moreover have "rat_of_int mx / 2 ^ 53 + rat_of_int mx / (5 * 2 ^ 52) < 1 / 10" using m by simp
    ultimately have "rat_of_int cur < round64 x" using c unfolding x by linarith
    with True show ?thesis by simp
  next
    case False
    then have "rat_of_int (7 * mx) \<le> rat_of_int (10 * cur)" by (simp only: of_int_le_iff)
    then have "x \<le> rat_of_int cur" using m(1) unfolding x by simp
    with False round64_below_int [OF pos _ \<open>x < 2 ^ 52\<close>] show ?thesis by (auto simp: not_less)
  qed
  then show ?thesis by (simp add: server_flag_def x_def)
qed

section \<open>Codes are good once\<close>

text \<open>What is seen from outside: the servers selected, with the codes given, and the codes tried.\<close>

datatype code_event = Select time_t SelectServerReq | Try time_t u64 i32

datatype code_seen = Given time_t u64 i32 | Refused u64 | Tried time_t u64 i32 bool

primrec code_step ::
  "'g login_env \<Rightarrow> code_event \<Rightarrow> ('a, 'k, 'g) LoginService \<Rightarrow> (code_seen \<times> ('a, 'k, 'g) LoginService) outcome" where
  "code_step env (Select now req) s =
     (let (ack, s1) = select_ack env now req s in
      Ret (if sa_ret_code ack = 0 then Given now (sa_account_id ack) (sa_login_code ack) else Refused (sa_account_id ack), s1))"
| "code_step env (Try now aid code) s =
     bindO (VerifyLoginCode now aid code s) (\<lambda>(ok, s1). Ret (Tried now aid code ok, s1))"

primrec code_run ::
  "'g login_env \<Rightarrow> code_event list \<Rightarrow> ('a, 'k, 'g) LoginService \<Rightarrow> (code_seen list \<times> ('a, 'k, 'g) LoginService) outcome" where
  "code_run env [] s = Ret ([], s)"
| "code_run env (e # es) s =
     bindO (code_step env e s) (\<lambda>(o1, s1). bindO (code_run env es s1) (\<lambda>(os, s2). Ret (o1 # os, s2)))"

text \<open>The code of an account and when it was given, from what was seen of that account alone.\<close>

definition after_seen :: "u64 \<Rightarrow> code_seen \<Rightarrow> (i32 \<times> time_t) option \<Rightarrow> (i32 \<times> time_t) option" where
  "after_seen aid ev p =
     (case ev of
        Given t a c \<Rightarrow> if a = aid then Some (c, t) else p
      | Refused a \<Rightarrow> p
      | Tried t a c ok \<Rightarrow>
          if a \<noteq> aid then p else (case p of None \<Rightarrow> None | Some (c', t') \<Rightarrow> if t' + 300 < t \<or> c = c' then None else p))"

definition outstanding :: "u64 \<Rightarrow> code_seen list \<Rightarrow> (i32 \<times> time_t) option" where
  "outstanding aid os = fold (after_seen aid) os None"

definition held_code :: "u64 \<Rightarrow> ('a, 'k, 'g) LoginService \<Rightarrow> (i32 \<times> time_t) option" where
  "held_code aid s =
     (case map_of (login_codes s) aid of
        None \<Rightarrow> None
      | Some c \<Rightarrow> (case map_of (code_expire_time s) aid of None \<Rightarrow> None | Some t \<Rightarrow> Some (c, t - 300)))"

definition codes_inv :: "('a, 'k, 'g) LoginService \<Rightarrow> bool" where
  "codes_inv s \<longleftrightarrow> (\<forall>aid. (map_of (login_codes s) aid = None) = (map_of (code_expire_time s) aid = None))"

lemma generated_code:
  "login_codes (snd (GenerateLoginCode env now s)) = login_codes s"
  "code_expire_time (snd (GenerateLoginCode env now s)) = code_expire_time s"
  "logic_servers (snd (GenerateLoginCode env now s)) = logic_servers s"
  by (simp_all add: GenerateLoginCode_def case_prod_beta Let_def)

lemma select_step:
  assumes "codes_inv s"
  shows "\<exists>ev s1. code_step env (Select now req) s = Ret (ev, s1) \<and> codes_inv s1 \<and> (\<forall>aid. held_code aid s1 = after_seen aid ev (held_code aid s))"
proof -
  obtain ip port sid where c: "chosen_server req s = (ip, port, sid)" by (cases "chosen_server req s") auto
  obtain code s1 where g: "GenerateLoginCode env now s = (code, s1)" by fastforce
  with generated_code [of env now s] have "login_codes s1 = login_codes s" "code_expire_time s1 = code_expire_time s" by simp_all
  then show ?thesis using assms
    by (cases "ip = ''''") (auto simp: codes_inv_def select_ack_def c g held_code_def after_seen_def update_conv' split: option.split)
qed

lemma try_step:
  assumes "codes_inv s"
  shows "\<exists>s1. VerifyLoginCode now a c s = Ret ((case held_code a s of None \<Rightarrow> False | Some (c', t) \<Rightarrow> now \<le> t + 300 \<and> c' = c), s1) \<and>
    codes_inv s1 \<and> (\<forall>aid ok. held_code aid s1 = after_seen aid (Tried now a c ok) (held_code aid s))"
proof -
  have "map_of (login_codes s) a = None \<longleftrightarrow> map_of (code_expire_time s) a = None" using assms by (simp add: codes_inv_def)
  then show ?thesis using assms
    by (cases "map_of (login_codes s) a"; cases "map_of (code_expire_time s) a")
      (auto simp: VerifyLoginCode_def erase_code_def held_code_def after_seen_def codes_inv_def delete_conv' split: option.split)
qed

lemma code_run_held:
  assumes "codes_inv s"
  shows "\<exists>os s1. code_run env es s = Ret (os, s1) \<and> codes_inv s1 \<and> (\<forall>aid. held_code aid s1 = fold (after_seen aid) os (held_code aid s))"
  using assms
proof (induction es arbitrary: s)
  case Nil
  then show ?case by simp
next
  case (Cons e es)
  have "\<exists>ev s1. code_step env e s = Ret (ev, s1) \<and> codes_inv s1 \<and> (\<forall>aid. held_code aid s1 = after_seen aid ev (held_code aid s))"
  proof (cases e)
    case (Select now req)
    then show ?thesis using select_step [OF Cons.prems] by blast
  next
    case (Try now a c)
    then show ?thesis using try_step [OF Cons.prems, of now a c] by auto
  qed
  then obtain ev s1 where s1: "code_step env e s = Ret (ev, s1)" "codes_inv s1"
    "\<forall>aid. held_code aid s1 = after_seen aid ev (held_code aid s)" by blast
  from Cons.IH [OF s1(2)] s1 show ?case by auto
qed

text \<open>
  C35. Codes are good once. Whatever servers are selected and whatever codes are tried, no attempt has undefined
  behaviour, and a code is accepted exactly when it is the last one given to that account, not more than five minutes
  ago, and has not been accepted before: other accounts do not matter.
\<close>

theorem codes_good_once:
  assumes "login_codes s = []" and "code_expire_time s = []"
  shows "\<exists>os s1. code_run env es s = Ret (os, s1) \<and>
    (\<exists>s2. VerifyLoginCode now aid code s1 =
      Ret ((case outstanding aid os of None \<Rightarrow> False | Some (c, t) \<Rightarrow> now \<le> t + 300 \<and> c = code), s2))"
proof -
  have s: "codes_inv s" "\<And>aid. held_code aid s = None" using assms by (simp_all add: codes_inv_def held_code_def)
  from code_run_held [OF s(1)] obtain os s1 where r: "code_run env es s = Ret (os, s1)" "codes_inv s1"
    "\<forall>aid. held_code aid s1 = fold (after_seen aid) os (held_code aid s)" by blast
  then have "held_code aid s1 = outstanding aid os" by (simp add: outstanding_def s(2))
  with try_step [OF r(2), of now aid code] r(1) show ?thesis by auto
qed

lemma code_range: "0 \<le> fst (drawn env (if code_initialized s then generator s else seeded env now)) \<Longrightarrow>
  100000 \<le> fst (GenerateLoginCode env now s) \<and> fst (GenerateLoginCode env now s) \<le> 999999"
  by (simp add: GenerateLoginCode_def case_prod_beta Let_def)

section \<open>Nobody gets in\<close>

text \<open>Everything the service does, with what it answers to a selection.\<close>

datatype ('a, 'k) login_call = LConnect "'a attempt" | LMessages time_t bool "'a attempt" int 'k "received list"
  | LAnswers "'k \<Rightarrow> bool" time_t "received list" "byte list" | LPacket time_t | LTry time_t u64 i32

primrec login_exec ::
  "'g login_env \<Rightarrow> ('a, 'k) login_call \<Rightarrow> ('a, 'k, 'g) LoginService \<Rightarrow> ('a, 'k, 'g) LoginService outcome" where
  "login_exec env (LConnect t) s = Ret (snd (ConnectToAccountServer t s))"
| "login_exec env (LMessages now isConnected t n k rs) s = Ret (snd (login_handleClient env now isConnected t n k rs s))"
| "login_exec env (LAnswers isConnected now rs buf) s = Ret (snd (response_loop env isConnected now rs buf s))"
| "login_exec env (LPacket now) s = Ret (snd (login_OnAccountLoginReq env now () s))"
| "login_exec env (LTry now aid code) s = bindO (VerifyLoginCode now aid code s) (\<lambda>(_, s1). Ret s1)"

primrec login_run ::
  "'g login_env \<Rightarrow> ('a, 'k) login_call list \<Rightarrow> ('a, 'k, 'g) LoginService \<Rightarrow> ('a, 'k, 'g) LoginService outcome" where
  "login_run env [] s = Ret s"
| "login_run env (c # cs) s = bindO (login_exec env c s) (login_run env cs)"

definition no_servers :: "('a, 'k, 'g) LoginService \<Rightarrow> bool" where
  "no_servers s \<longleftrightarrow> logic_servers s = [] \<and> login_codes s = []"

lemma no_servers_select: "no_servers s \<Longrightarrow> select_ack env now req s =
    (\<lparr>sa_ret_code = 1, sa_account_id = sr_account_id req, sa_server_id = 0, sa_server_addr = '''', sa_server_port = 0, sa_login_code = 0\<rparr>, s)"
  by (simp add: no_servers_def select_ack_def chosen_server_def)

lemma no_servers_pass: "no_servers s \<Longrightarrow> no_servers (snd (pass_on env mid readable isConnected t n k data s))"
  by (auto simp: no_servers_def pass_on_def account_connection_def ConnectToAccountServer_def Let_def case_prod_beta
      split: attempt.splits option.splits)

lemma no_servers_message: "no_servers (snd w) \<Longrightarrow> no_servers (snd (login_message env now isConnected t n k h body w))"
  by (auto simp: login_message_def Let_def case_prod_beta login_HandleLoginRequest_def login_HandleRegisterRequest_def
      HandleSelectServerRequest_def no_servers_select intro: no_servers_pass split: option.splits)

lemma no_servers_relay: "no_servers (snd w) \<Longrightarrow> no_servers (snd (relay env isConnected now h body w))"
  by (auto simp: relay_def no_servers_def Let_def case_prod_beta split: option.splits)

lemma no_servers_fold:
  "(\<And>h body w. no_servers (snd w) \<Longrightarrow> no_servers (snd (f h body w))) \<Longrightarrow> no_servers (snd w) \<Longrightarrow>
   no_servers (snd (fold (\<lambda>(h, body). f h body) ms w))"
  by (rule fold_invariant [where Q = "\<lambda>_. True" and P = "\<lambda>w. no_servers (snd w)"]) (simp_all add: case_prod_beta)

lemma no_servers_serve:
  "(\<And>h body w. no_servers (snd w) \<Longrightarrow> no_servers (snd (f h body w))) \<Longrightarrow> no_servers (snd w) \<Longrightarrow>
   no_servers (snd (fst (serve host f rs buf w)))"
proof (induction rs arbitrary: buf w)
  case (Cons r rs)
  show ?case
  proof (cases r)
    case (Got bs)
    obtain ms rest where d: "drain host (buf @ bs) = (ms, rest)" by fastforce
    have "no_servers (snd (fold (\<lambda>(h, body). f h body) ms w))" by (rule no_servers_fold [OF Cons.prems])
    from Cons.IH [OF Cons.prems(1) this] show ?thesis by (simp add: Got d)
  qed (simp_all add: Cons.prems)
qed simp

lemma no_servers_answers: "no_servers s \<Longrightarrow> no_servers (snd (response_loop env isConnected now rs buf s))"
proof (induction rs arbitrary: buf s)
  case (Cons r rs)
  show ?case
  proof (cases r)
    case (Got bs)
    obtain ms rest where d: "drain (l_little env) (buf @ bs) = (ms, rest)" by fastforce
    obtain out s1 where f: "fold (\<lambda>(h, body). relay env isConnected now h body) ms ([], s) = (out, s1)" by fastforce
    have "no_servers (snd (fold (\<lambda>(h, body). relay env isConnected now h body) ms ([], s)))"
      by (rule no_servers_fold [OF no_servers_relay]) (simp_all add: Cons.prems)
    from Cons.IH [OF this] show ?thesis by (simp add: Got d f case_prod_beta)
  qed (simp_all add: Cons.prems Cons.IH)
qed simp

lemma no_servers_exec: "no_servers s \<Longrightarrow> \<exists>s1. login_exec env c s = Ret s1 \<and> no_servers s1"
proof (cases c)
  case (LConnect t)
  then show "no_servers s \<Longrightarrow> ?thesis" by (auto simp: ConnectToAccountServer_def no_servers_def split: attempt.splits)
next
  case (LMessages now isConnected t n k rs)
  then show "no_servers s \<Longrightarrow> ?thesis" by (simp add: login_handleClient_def no_servers_serve no_servers_message)
next
  case (LAnswers isConnected now rs buf)
  then show "no_servers s \<Longrightarrow> ?thesis" by (simp add: no_servers_answers)
next
  case (LPacket now)
  then show "no_servers s \<Longrightarrow> ?thesis" by (simp add: login_OnAccountLoginReq_def no_servers_def generated_code)
next
  case (LTry now aid code)
  then show "no_servers s \<Longrightarrow> ?thesis" by (simp add: no_servers_def VerifyLoginCode_def)
qed

text \<open>
  C34. Nobody gets in. Nothing ever enters a logic server into the table. So whatever the service has done, every player who
  selects a server is refused, no code is ever given, and none is ever accepted.
\<close>

theorem nobody_gets_in:
  "\<exists>s. login_run env cs (login_init g) = Ret s \<and> sa_ret_code (fst (select_ack env now req s)) = 1 \<and>
    VerifyLoginCode now aid code s = Ret (False, s) \<and> GetLogicServerInfo aid s = None"
proof -
  have "\<exists>s1. login_run env cs s = Ret s1 \<and> no_servers s1" if "no_servers s" for s
    using that
  proof (induction cs arbitrary: s)
    case (Cons c cs)
    from no_servers_exec [OF Cons.prems, of env c] Cons.IH show ?case by auto
  qed simp
  moreover have "no_servers (login_init g)" by (simp add: no_servers_def login_init_def)
  ultimately obtain s where "login_run env cs (login_init g) = Ret s" "no_servers s" by blast
  then show ?thesis by (auto simp: no_servers_select) (simp_all add: no_servers_def VerifyLoginCode_def GetLogicServerInfo_def)
qed

section \<open>Who gets an answer\<close>

text \<open>Requests of players to log in, which come one after the other while the account server has answered none.\<close>

definition ask :: "'g login_env \<Rightarrow> 'k \<times> byte list \<Rightarrow> ('a, 'k, 'g) LoginService \<Rightarrow> ('a, 'k, 'g) LoginService" where
  "ask env kd s = snd (login_HandleLoginRequest env True NoAddress (int (length (snd kd)) + header_size) (fst kd) (snd kd) s)"

lemma asked:
  assumes "account_server_conn s = Some a" and "login_readable env (snd kd)"
  shows "ask env kd s = s\<lparr>client_map := AList.update a (fst kd) (client_map s)\<rparr>"
  using assms by (simp add: ask_def login_HandleLoginRequest_def pass_on_def account_connection_def)

lemma asked_all:
  assumes "account_server_conn s = Some a" and "list_all (\<lambda>kd. login_readable env (snd kd)) kds" and "kds \<noteq> []"
  shows "\<exists>m. fold (ask env) kds s = s\<lparr>client_map := m\<rparr> \<and> map_of m a = Some (fst (last kds))"
  using assms
proof (induction kds arbitrary: s)
  case (Cons kd kds)
  then have a: "ask env kd s = s\<lparr>client_map := AList.update a (fst kd) (client_map s)\<rparr>" by (intro asked) simp_all
  show ?case
  proof (cases "kds = []")
    case True
    then show ?thesis using a by (auto simp: update_conv')
  next
    case False
    with Cons.IH [of "ask env kd s"] Cons.prems a show ?thesis by auto
  qed
qed simp

lemma relay_nobody:
  "account_server_conn s = Some a \<Longrightarrow> map_of (client_map s) a = None \<Longrightarrow>
   fold (\<lambda>(h, body). relay env isConnected now h body) ms (sent, s) = (sent, s)"
  by (induction ms) (auto simp: relay_def)

text \<open>
  C9. Whose answer it is. When several players have asked to log in before the account server answers, the first answer goes
  to the player who asked last, and the other answers to nobody; only one who asks alone gets the answer to the question.
\<close>

theorem answers_to_last_asker:
  assumes "account_server_conn s = Some a" and "list_all (\<lambda>kd. login_readable env (snd kd)) kds" and "kds \<noteq> []"
    and "list_all fits (m # ms)" and "isConnected (fst (last kds))"
  shows "fst (response_loop env isConnected now [Got (message_stream host (m # ms))] [] (fold (ask env) kds s)) =
    [ToClient (fst (last kds)) (relayed env now (logic_servers s) (new_header (fst m) (snd m)) (snd m))]"
proof -
  from asked_all [OF assms(1-3)] obtain c where c: "fold (ask env) kds s = s\<lparr>client_map := c\<rparr>" "map_of c a = Some (fst (last kds))"
    by blast
  have "drain (l_little env) (message_stream host ms) = (map delivered ms, [])" if "list_all fits ms" for ms
    using that by (induction ms) (simp_all add: drain_whole drain.simps [of _ "[]"])
  from this [OF assms(4)] have d: "drain (l_little env) (message_stream host (m # ms)) = (map delivered (m # ms), [])" .
  have "map_of (AList.delete a c) a = None" by (simp add: delete_conv')
  then show ?thesis
    using assms(1,5) c relay_nobody [of "s\<lparr>client_map := AList.delete a c\<rparr>" a]
    by (simp add: d delivered_def relay_def Let_def case_prod_beta del: stream_simps)
qed

section \<open>Examples\<close>

definition sample_login :: "int login_env" where
  "sample_login =
     \<lparr>l_little = True, login_readable = \<lambda>_. True, reg_readable = \<lambda>_. True, parse_select = \<lambda>_. None, parse_ack = \<lambda>_. None,
      serialize_ack = \<lambda>_. None, serialize_list = \<lambda>_. [], serialize_selected = \<lambda>_. [], seeded = \<lambda>t. t, drawn = \<lambda>g. (g, g + 1)\<rparr>"

definition sample_server :: LogicServerInfo where
  "sample_server =
     \<lparr>ls_server_id = 3, ls_server_name = ''three'', ls_ip = ''10.0.0.3'', ls_port = 8100, ls_conn_id = 0, ls_cur_online = 7,
      ls_max_online = 10, ls_last_update_time = 0\<rparr>"

theorem fullness_exact_witness: "server_flag 7 10 = 2"
  using fullness_exact [of 10 7] by simp

theorem codes_good_once_witness:
  "\<exists>s1 s2. code_run sample_login [Select 5 \<lparr>sr_account_id = 7, sr_server_id = 0, sr_check_role = False\<rparr>]
      ((login_init 0 :: (nat, nat, int) LoginService)\<lparr>logic_servers := [(3, sample_server)]\<rparr>) = Ret ([Given 5 7 100005], s1) \<and>
    VerifyLoginCode 305 7 100005 s1 = Ret (True, s2)"
proof -
  let ?s = "(login_init 0 :: (nat, nat, int) LoginService)\<lparr>logic_servers := [(3, sample_server)]\<rparr>"
  let ?es = "[Select 5 \<lparr>sr_account_id = 7, sr_server_id = 0, sr_check_role = False\<rparr>]"
  have "\<exists>s1. code_run sample_login ?es ?s = Ret ([Given 5 7 100005], s1)"
    by (simp add: select_ack_def chosen_server_def login_init_def sample_server_def sample_login_def GenerateLoginCode_def)
  with codes_good_once [of ?s sample_login ?es 305 7 100005] show ?thesis
    by (auto simp: login_init_def outstanding_def after_seen_def)
qed

theorem answers_to_last_asker_witness:
  "fst (response_loop sample_login (\<lambda>_. True) 5 [Got (message_stream True [(MSG_ACCOUNT_LOGIN_ACK, [1]), (MSG_ACCOUNT_LOGIN_ACK, [2])])] []
      (fold (ask sample_login) [(11 :: nat, []), (12, [])] ((login_init 0)\<lparr>account_server_conn := Some (0 :: nat)\<rparr>))) =
    [ToClient 12 (relayed sample_login 5 [] (new_header MSG_ACCOUNT_LOGIN_ACK [1]) [1])]"
  using answers_to_last_asker [of "(login_init 0)\<lparr>account_server_conn := Some (0 :: nat)\<rparr>" 0 sample_login "[(11 :: nat, []), (12, [])]"
      "(MSG_ACCOUNT_LOGIN_ACK, [1])" "[(MSG_ACCOUNT_LOGIN_ACK, [2])]" "\<lambda>_. True" 5 True]
  by (simp add: sample_login_def login_init_def fits_def del: stream_simps)

end
