(* ===== verification/Service.thy ===== *)
theory Service
  imports Protocol Machine
begin

text \<open>
  What the servers and their clients share: the main loop with its timers (\<open>common/game_service_base.cc\<close>), the table of
  message handlers (\<open>common/message_dispatcher.cc\<close>) and the client of a connection (\<open>common/tcp_client.cc\<close>), which,
  unlike the servers, sends and receives a message until all of its bytes have passed.
\<close>

section \<open>The main loop\<close>

record Ticks =
  timer_counter :: i32
  timer5s_counter :: i32
  timer30s_counter :: i32

definition ticks_init :: Ticks where
  "ticks_init = \<lparr>timer_counter = 0, timer5s_counter = 0, timer30s_counter = 0\<rparr>"

datatype callback = OnUpdate | OnTimer | OnTimer5s | OnTimer30s

text \<open>\<^verbatim>\<open>timer_counter_ += elapsed\<close> is computed in 64 bits and stored in 32.\<close>

definition second_passed :: "Ticks \<Rightarrow> callback list \<times> Ticks" where
  "second_passed s =
     (let t5 = timer5s_counter s + 1; t30 = timer30s_counter s + 1 in
      ([OnTimer] @ (if 5 \<le> t5 then [OnTimer5s] else []) @ (if 30 \<le> t30 then [OnTimer30s] else []),
       s\<lparr>timer5s_counter := if 5 \<le> t5 then 0 else t5, timer30s_counter := if 30 \<le> t30 then 0 else t30\<rparr>))"

definition frame_step :: "int \<Rightarrow> Ticks \<Rightarrow> callback list \<times> Ticks" where
  "frame_step elapsed s =
     (let s1 = s\<lparr>timer_counter := to_i32 (timer_counter s + elapsed)\<rparr> in
      if 1000 \<le> timer_counter s1
      then let (cs, s2) = second_passed (s1\<lparr>timer_counter := timer_counter s1 - 1000\<rparr>) in (OnUpdate # cs, s2)
      else ([OnUpdate], s1))"

text \<open>The loop, over the readings of the clock until the service is stopped.\<close>

primrec MainLoop :: "int list \<Rightarrow> int \<Rightarrow> Ticks \<Rightarrow> callback list \<times> int \<times> Ticks" where
  "MainLoop [] last_tick s = ([], last_tick, s)"
| "MainLoop (now # rest) last_tick s =
     (if 50 \<le> now - last_tick
      then let (cs, s1) = frame_step (now - last_tick) s; (cs', r) = MainLoop rest now s1 in (cs @ cs', r)
      else MainLoop rest last_tick s)"

section \<open>Handlers of messages\<close>

record 'm NetPacket =
  conn_id :: i32
  packet_msg_id :: u32
  packet_target_id :: u64
  packet_user_data :: u32
  packet_msg :: "'m option"

text \<open>
  A handler that is an empty function is \<open>None\<close>. The handler runs after the mutex is released; what it does to the rest
  of the program is left open here.
\<close>

type_synonym 'm handlers = "(u32 \<times> ('m NetPacket \<Rightarrow> bool) option) list"

definition RegisterHandler :: "u32 \<Rightarrow> ('m NetPacket \<Rightarrow> bool) option \<Rightarrow> ('m handlers, unit) oper" where
  "RegisterHandler mid h = guarded (\<lambda>s. Ret ((), AList.update mid h s))"

definition find_handler :: "u32 \<Rightarrow> ('m handlers, ('m NetPacket \<Rightarrow> bool) option option) oper" where
  "find_handler mid = guarded (\<lambda>s. Ret (map_of s mid, s))"

definition Dispatch :: "'m NetPacket \<Rightarrow> ('m handlers, bool) oper" where
  "Dispatch p =
     bindM (find_handler (packet_msg_id p)) (\<lambda>found.
       retM (case found of None \<Rightarrow> False | Some None \<Rightarrow> False | Some (Some h) \<Rightarrow> h p))"

definition HasHandler :: "u32 \<Rightarrow> ('m handlers, bool) oper" where
  "HasHandler mid = guarded (\<lambda>s. Ret (map_of s mid \<noteq> None, s))"

definition GetHandlerCount :: "('m handlers, nat) oper" where
  "GetHandlerCount = guarded (\<lambda>s. Ret (length s, s))"

section \<open>A client's connection\<close>

text \<open>The result of one call of \<^verbatim>\<open>send\<close>: bytes taken, nothing for now, or a failure (zero or another error).\<close>

datatype sent = Took nat | Later | Failed

text \<open>
  \<^verbatim>\<open>while (sent < size) send(data + sent, size - sent)\<close>, over the results of the calls: what went out, whether all did, and the
  results that are left. No call takes more than it is given, and one that takes nothing is a failure. When the results
  end before the bytes, the loop has not returned yet.
\<close>

fun send_all :: "byte list \<Rightarrow> sent list \<Rightarrow> byte list \<times> bool \<times> sent list" where
  "send_all bs [] = ([], bs = [], [])"
| "send_all bs (r # rs) =
     (if bs = [] then ([], True, r # rs)
      else case r of
        Took n \<Rightarrow>
          if n = 0 then ([], False, rs)
          else let (out, ok, rs') = send_all (drop n bs) rs in (take n bs @ out, ok, rs')
      | Later \<Rightarrow> send_all bs rs
      | Failed \<Rightarrow> ([], False, rs))"

record TcpClient =
  has_socket :: bool
  tcp_connected :: bool

definition tcp_header :: "bool \<Rightarrow> u32 \<Rightarrow> u64 \<Rightarrow> u32 \<Rightarrow> byte list \<Rightarrow> byte list" where
  "tcp_header host mid target user data =
     header_bytes host (swap_header host
       \<lparr>msg_id = mid, msg_len = word_of_nat (length data + header_size), target_id = target, user_data = user\<rparr>)"

definition tcp_SendMessage ::
  "bool \<Rightarrow> u32 \<Rightarrow> u64 \<Rightarrow> u32 \<Rightarrow> byte list \<Rightarrow> sent list \<Rightarrow> TcpClient \<Rightarrow> byte list \<times> bool" where
  "tcp_SendMessage host mid target user data rs c =
     (if \<not> tcp_connected c \<or> \<not> has_socket c then ([], False)
      else
        let (out, ok, rs') = send_all (tcp_header host mid target user data) rs in
        if \<not> ok then (out, False)
        else let (out', ok', _) = send_all data rs' in (out @ out', ok'))"

text \<open>
  \<^verbatim>\<open>recv\<close> until \<open>n\<close> bytes have come, at most \<open>chunk\<close> with one call, at most 20 calls that give nothing after another. A result
  of \<^verbatim>\<open>recv\<close> is the bytes that have arrived and can be taken; what one call leaves, the next one takes. \<open>None\<close> is a
  failure.
\<close>

fun recv_all :: "nat \<Rightarrow> nat \<Rightarrow> nat \<Rightarrow> received list \<Rightarrow> (byte list \<times> received list) option" where
  "recv_all chunk retry 0 rs = Some ([], rs)"
| "recv_all chunk retry (Suc n) [] = None"
| "recv_all chunk retry (Suc n) (r # rs) =
     (case r of
        Got bs \<Rightarrow>
          let k = min (min chunk (Suc n)) (length bs);
              rest = (if drop k bs = [] then rs else Got (drop k bs) # rs) in
          if bs = [] \<or> k = 0 then None
          else (case recv_all chunk 0 (Suc n - k) rest of None \<Rightarrow> None | Some (got, rs') \<Rightarrow> Some (take k bs @ got, rs'))
      | WouldBlock \<Rightarrow> if 20 \<le> Suc retry then None else recv_all chunk (Suc retry) (Suc n) rs
      | Closed \<Rightarrow> None)"

text \<open>
  \<open>readable\<close> is what \<^verbatim>\<open>select\<close> answers within five seconds. The length of the body is computed in 32 bits: a header
  that is too short makes it huge. One type of message is known to the client.
\<close>

definition CreateMessage :: "(byte list \<Rightarrow> 'm option) \<Rightarrow> u32 \<Rightarrow> byte list \<Rightarrow> 'm option" where
  "CreateMessage parse mid data = (if mid = 100006 then parse data else None)"

definition RecvMessage ::
  "bool \<Rightarrow> (byte list \<Rightarrow> 'm option) \<Rightarrow> bool \<Rightarrow> received list \<Rightarrow> 'm NetPacket \<Rightarrow> TcpClient \<Rightarrow>
   ('m NetPacket \<times> received list) option" where
  "RecvMessage host parse readable rs p c =
     (if \<not> tcp_connected c \<or> \<not> has_socket c \<or> \<not> readable then None
      else case recv_all header_size 0 header_size rs of
        None \<Rightarrow> None
      | Some (hs, rs1) \<Rightarrow>
          let h = received_header host hs; n = unat (msg_len h - 20);
              body = (if 0 < n \<and> n < 1024 * 1024 then recv_all 1024 0 n rs1 else if 0 < n then None else Some ([], rs1)) in
          (case body of
             None \<Rightarrow> None
           | Some (data, rs2) \<Rightarrow>
               Some (\<lparr>conn_id = 0, packet_msg_id = msg_id h, packet_target_id = target_id h, packet_user_data = user_data h,
                  packet_msg = (case CreateMessage parse (msg_id h) data of None \<Rightarrow> packet_msg p | Some m \<Rightarrow> Some m)\<rparr>, rs2)))"

definition no_packet :: "'m NetPacket" where
  "no_packet = \<lparr>conn_id = 0, packet_msg_id = 0, packet_target_id = 0, packet_user_data = 0, packet_msg = None\<rparr>"

definition Disconnect :: "TcpClient \<Rightarrow> TcpClient" where
  "Disconnect c = c\<lparr>has_socket := False, tcp_connected := False\<rparr>"

text \<open>\<^verbatim>\<open>HandleRecv\<close>: the packets handed to the dispatcher, one for each answer of \<^verbatim>\<open>select\<close>, until a message fails.\<close>

primrec tcp_HandleRecv ::
  "bool \<Rightarrow> (byte list \<Rightarrow> 'm option) \<Rightarrow> bool list \<Rightarrow> received list \<Rightarrow> TcpClient \<Rightarrow> 'm NetPacket list \<times> TcpClient" where
  "tcp_HandleRecv host parse [] rs c = ([], c)"
| "tcp_HandleRecv host parse (b # bs) rs c =
     (if \<not> tcp_connected c then ([], c)
      else case RecvMessage host parse b rs no_packet c of
        None \<Rightarrow> ([], Disconnect c)
      | Some (p, rs') \<Rightarrow> let (ps, c') = tcp_HandleRecv host parse bs rs' c in (p # ps, c'))"

section \<open>Seconds are counted\<close>

definition ticks_ok :: "Ticks \<Rightarrow> bool" where
  "ticks_ok s \<longleftrightarrow> 0 \<le> timer_counter s \<and> 0 \<le> timer5s_counter s \<and> timer5s_counter s < 5 \<and>
     0 \<le> timer30s_counter s \<and> timer30s_counter s < 30"

definition fired :: "callback \<Rightarrow> callback list \<Rightarrow> int" where
  "fired c cs = int (count_list cs c)"

lemma fired_simps [simp]: "fired c [] = 0" "fired c (x # xs) = fired c xs + (if x = c then 1 else 0)"
  "fired c (xs @ ys) = fired c xs + fired c ys"
  by (simp_all add: fired_def)

lemma frame_counts:
  assumes "ticks_ok s" and "0 \<le> e" and "timer_counter s + e < 2 ^ 31" and "frame_step e s = (cs, s1)"
  shows "ticks_ok s1" and "timer_counter s1 + 1000 * fired OnTimer cs = timer_counter s + e" and "fired OnTimer cs \<le> 1"
    and "timer5s_counter s1 + 5 * fired OnTimer5s cs = timer5s_counter s + fired OnTimer cs"
    and "timer30s_counter s1 + 30 * fired OnTimer30s cs = timer30s_counter s + fired OnTimer cs"
proof -
  have "to_i32 (timer_counter s + e) = timer_counter s + e" using assms(1-3) by (intro to_i32_id in_i32_small) (auto simp: ticks_ok_def)
  then show "ticks_ok s1" and "timer_counter s1 + 1000 * fired OnTimer cs = timer_counter s + e" and "fired OnTimer cs \<le> 1"
    and "timer5s_counter s1 + 5 * fired OnTimer5s cs = timer5s_counter s + fired OnTimer cs"
    and "timer30s_counter s1 + 30 * fired OnTimer30s cs = timer30s_counter s + fired OnTimer cs"
    using assms by (auto simp: frame_step_def second_passed_def Let_def ticks_ok_def split: if_splits)
qed

lemma sorted_last_le: "sorted (x # xs) \<Longrightarrow> x \<le> last (x # xs)" for x :: int
  using last_in_set [of xs] by (cases "xs = []") auto

lemma loop_counts:
  assumes "ticks_ok s" and "sorted (t0 # ts)" and "timer_counter s + (last (t0 # ts) - t0) < 2 ^ 31" and "MainLoop ts t0 s = (cs, t1, s1)"
  shows "ticks_ok s1 \<and> timer_counter s1 + 1000 * fired OnTimer cs = timer_counter s + (t1 - t0) \<and>
    timer5s_counter s1 + 5 * fired OnTimer5s cs = timer5s_counter s + fired OnTimer cs \<and>
    timer30s_counter s1 + 30 * fired OnTimer30s cs = timer30s_counter s + fired OnTimer cs \<and>
    t1 \<le> last (t0 # ts) \<and> last (t0 # ts) - t1 < 50"
  using assms
proof (induction ts arbitrary: t0 s cs)
  case Nil
  then show ?case by simp
next
  case (Cons t ts)
  have le: "t \<le> last (t # ts)" using Cons.prems(2) by (intro sorted_last_le) simp_all
  show ?case
  proof (cases "50 \<le> t - t0")
    case True
    obtain c1 s' where f: "frame_step (t - t0) s = (c1, s')" by fastforce
    obtain c2 where l: "MainLoop ts t s' = (c2, t1, s1)" "cs = c1 @ c2" using Cons.prems(4) True f by (auto split: prod.splits)
    have "timer_counter s + (t - t0) < 2 ^ 31" using Cons.prems(3) le by simp
    note fc = frame_counts [OF Cons.prems(1) _ this f]
    have s': "ticks_ok s'" "timer_counter s' + 1000 * fired OnTimer c1 = timer_counter s + (t - t0)"
      "timer5s_counter s' + 5 * fired OnTimer5s c1 = timer5s_counter s + fired OnTimer c1"
      "timer30s_counter s' + 30 * fired OnTimer30s c1 = timer30s_counter s + fired OnTimer c1"
      using fc True by simp_all
    have "0 \<le> fired OnTimer c1" by (simp add: fired_def)
    then have "timer_counter s' + (last (t # ts) - t) < 2 ^ 31" using s'(2) Cons.prems(3) by simp
    from Cons.IH [OF s'(1) _ this l(1)] Cons.prems(2) s' show ?thesis by (auto simp: l(2) algebra_simps)
  next
    case False
    with Cons.prems(4) have l: "MainLoop ts t0 s = (cs, t1, s1)" by simp
    show ?thesis
    proof (cases ts)
      case Nil
      with l False Cons.prems show ?thesis by auto
    next
      case (Cons u us)
      with Cons.IH [OF Cons.prems(1) _ _ l] Cons.prems show ?thesis by auto
    qed
  qed
qed

text \<open>
  Seconds are counted. However the clock is read, as long as it does not go back: no millisecond is lost, the timer has
  fired once for every second that was counted off, the five second timer at every fifth of these, the thirty
  second timer at every thirtieth, and what is not counted off is in the counter or less than a frame old.
\<close>

theorem seconds_counted:
  assumes "sorted (t0 # ts)" and "last (t0 # ts) - t0 < 2 ^ 31" and "MainLoop ts t0 ticks_init = (cs, t1, s)"
  shows "1000 * fired OnTimer cs + timer_counter s = t1 - t0 \<and> 0 \<le> timer_counter s \<and>
    fired OnTimer5s cs = fired OnTimer cs div 5 \<and> fired OnTimer30s cs = fired OnTimer cs div 30 \<and> last (t0 # ts) - t1 < 50"
proof -
  have "ticks_ok ticks_init" by (simp add: ticks_ok_def ticks_init_def)
  note loop_counts [OF this assms(1) _ assms(3)]
  then have l: "ticks_ok s" "timer_counter s + 1000 * fired OnTimer cs = t1 - t0"
    "timer5s_counter s + 5 * fired OnTimer5s cs = fired OnTimer cs"
    "timer30s_counter s + 30 * fired OnTimer30s cs = fired OnTimer cs" "last (t0 # ts) - t1 < 50"
    using assms(2) by (simp_all add: ticks_init_def)
  have "fired OnTimer5s cs = fired OnTimer cs div 5" "fired OnTimer30s cs = fired OnTimer cs div 30"
    using l(1,3,4) by (auto simp: ticks_ok_def intro: int_div_pos_eq [symmetric])
  with l show ?thesis by (simp add: ticks_ok_def)
qed

section \<open>The table of handlers\<close>

datatype 'm dispatch_cmd = DRegister u32 "('m NetPacket \<Rightarrow> bool) option" | DDispatch "'m NetPacket" | DHas u32 | DCount

primrec dispatch_exec :: "'m dispatch_cmd \<Rightarrow> ('m handlers, bool) oper" where
  "dispatch_exec (DRegister mid h) = bindM (RegisterHandler mid h) (\<lambda>_. retM True)"
| "dispatch_exec (DDispatch p) = Dispatch p"
| "dispatch_exec (DHas mid) = HasHandler mid"
| "dispatch_exec DCount = bindM GetHandlerCount (\<lambda>n. retM (0 < n))"

lemma dispatch_idle:
  "dispatch_exec (DRegister mid h) (idle s) = Ret (True, idle (AList.update mid h s))"
  "dispatch_exec (DDispatch p) (idle s) =
     Ret (case map_of s (packet_msg_id p) of None \<Rightarrow> False | Some None \<Rightarrow> False | Some (Some h) \<Rightarrow> h p, idle s)"
  "dispatch_exec (DHas mid) (idle s) = Ret (map_of s mid \<noteq> None, idle s)"
  "dispatch_exec DCount (idle s) = Ret (0 < length s, idle s)"
  by (simp_all add: RegisterHandler_def Dispatch_def find_handler_def HasHandler_def GetHandlerCount_def bindM_def retM_def)

interpretation dispatcher: total_machine dispatch_exec keys_ok
proof unfold_locales
  fix c :: "'m dispatch_cmd" and s r m'
  show "dispatch_exec c (idle s) = Ret (r, m') \<Longrightarrow> \<exists>s'. m' = idle s'" by (cases c) (auto simp: dispatch_idle simp del: dispatch_exec.simps)
  show "dispatch_exec c (idle s) = Ret (r, idle s') \<Longrightarrow> keys_ok s \<Longrightarrow> keys_ok s'" for s'
    by (cases c) (auto simp: dispatch_idle simp del: dispatch_exec.simps)
  show "\<exists>r m'. dispatch_exec c (idle s) = Ret (r, m')" by (cases c) (auto simp: dispatch_idle simp del: dispatch_exec.simps)
qed

text \<open>The handler that answers is the one registered last for the number of the message.\<close>

primrec registered :: "u32 \<Rightarrow> 'm dispatch_cmd list \<Rightarrow> ('m NetPacket \<Rightarrow> bool) option option \<Rightarrow> ('m NetPacket \<Rightarrow> bool) option option" where
  "registered mid [] h = h"
| "registered mid (c # cs) h =
     registered mid cs (case c of DRegister n h' \<Rightarrow> if n = mid then Some h' else h | _ \<Rightarrow> h)"

lemma dispatched:
  assumes "run_cmds dispatch_exec cs (idle s) = Ret (rs, idle s')"
  shows "map_of s' mid = registered mid cs (map_of s mid)"
  using assms
proof (induction cs arbitrary: s rs)
  case (Cons c cs)
  then show ?case by (cases c) (auto simp: dispatch_idle simp del: dispatch_exec.simps split: prod.splits)
qed simp

section \<open>Messages are sent and received whole\<close>

lemma send_all_prefix: "send_all bs rs = (out, ok, rs') \<Longrightarrow> \<exists>later. bs = out @ later \<and> (ok \<longrightarrow> later = [])"
proof (induction bs rs arbitrary: out ok rs' rule: send_all.induct)
  case (2 bs r rs)
  show ?case
  proof (cases r)
    case (Took n)
    show ?thesis
    proof (cases "bs = [] \<or> n = 0")
      case False
      obtain out1 where o: "send_all (drop n bs) rs = (out1, ok, rs')" "out = take n bs @ out1"
        using "2.prems" Took False by (auto split: prod.splits)
      from "2.IH"(1) [OF _ Took _ o(1)] False obtain later where "drop n bs = out1 @ later" "ok \<longrightarrow> later = []" by auto
      then show ?thesis unfolding o(2) by (metis append_assoc append_take_drop_id)
    qed (use "2.prems" Took in \<open>auto split: if_splits\<close>)
  next
    case Later
    with "2" show ?thesis by (cases "bs = []") auto
  next
    case Failed
    with "2.prems" show ?thesis by (auto split: if_splits)
  qed
qed auto

text \<open>The bytes that arrive, and arrivals without an end or a pause of twenty calls.\<close>

primrec arrived :: "received list \<Rightarrow> byte list" where
  "arrived [] = []"
| "arrived (r # rs) = (case r of Got bs \<Rightarrow> bs | _ \<Rightarrow> []) @ arrived rs"

primrec steady :: "nat \<Rightarrow> received list \<Rightarrow> bool" where
  "steady k [] \<longleftrightarrow> True"
| "steady k (r # rs) \<longleftrightarrow>
     (case r of Got bs \<Rightarrow> bs \<noteq> [] \<and> steady 0 rs | WouldBlock \<Rightarrow> Suc k < 20 \<and> steady (Suc k) rs | Closed \<Rightarrow> False)"

lemma recv_all_steady:
  "0 < chunk \<Longrightarrow> steady k rs \<Longrightarrow> n \<le> length (arrived rs) \<Longrightarrow>
   \<exists>rs' k'. recv_all chunk k n rs = Some (take n (arrived rs), rs') \<and> arrived rs' = drop n (arrived rs) \<and> steady k' rs' \<and>
     (0 < n \<longrightarrow> k' = 0)"
proof (induction chunk k n rs rule: recv_all.induct)
  case (3 chunk k n r rs)
  show ?case
  proof (cases r)
    case (Got bs)
    define m where "m = min (min chunk (Suc n)) (length bs)"
    define rest where "rest = (if drop m bs = [] then rs else Got (drop m bs) # rs)"
    from "3.prems" Got have bs: "bs \<noteq> []" "steady 0 rs" by simp_all
    then have m: "0 < m" "m \<le> Suc n" "m \<le> length bs" using "3.prems"(1) by (auto simp: m_def)
    have a: "arrived rest = drop m (arrived (r # rs))" using m(3) by (simp add: rest_def Got)
    have "steady 0 rest" using bs by (simp add: rest_def)
    moreover have "Suc n - m \<le> length (arrived rest)" using "3.prems"(3) by (simp add: a del: arrived.simps)
    ultimately obtain rs' k' where rs': "recv_all chunk 0 (Suc n - m) rest = Some (take (Suc n - m) (arrived rest), rs')"
      "arrived rs' = drop (Suc n - m) (arrived rest)" "steady k' rs'" "0 < Suc n - m \<longrightarrow> k' = 0"
      using "3.IH"(1) [OF Got m_def rest_def] "3.prems"(1) bs m(1) by auto
    have z: "Suc n - m = 0 \<Longrightarrow> rs' = rest" using rs'(1) by simp
    have "take m bs = take m (arrived (r # rs))" using m(3) by (simp add: Got)
    moreover have "take m (arrived (r # rs)) @ take (Suc n - m) (drop m (arrived (r # rs))) = take (Suc n) (arrived (r # rs))"
      using m(2) by (simp add: take_add [symmetric] del: arrived.simps)
    ultimately have t: "take m bs @ take (Suc n - m) (arrived rest) = take (Suc n) (arrived (r # rs))" by (simp only: a)
    have d: "arrived rs' = drop (Suc n) (arrived (r # rs))" using rs'(2) m(2) by (simp add: a del: arrived.simps)
    have e: "recv_all chunk k (Suc n) (r # rs) = Some (take m bs @ take (Suc n - m) (arrived rest), rs')"
      using rs'(1) bs(1) m(1) unfolding rest_def by (simp add: Got Let_def m_def [symmetric])
    have "k' = 0 \<or> steady 0 rs'" using rs'(4) z \<open>steady 0 rest\<close> by (cases "Suc n - m = 0") auto
    with rs'(3) have "steady 0 rs'" by auto
    with e t d show ?thesis by auto
  next
    case WouldBlock
    with "3" show ?thesis by auto
  next
    case Closed
    with "3.prems" show ?thesis by simp
  qed
qed auto

lemma steady_later: "steady 0 rs \<Longrightarrow> \<exists>k. steady k rs" by blast

text \<open>
  C15. A message is sent and received whole. What the client sends when it succeeds is the header and the body, whatever the
  pieces \<^verbatim>\<open>send\<close> takes. Let the body be shorter than 1 MiB, the bound of the receiver. When these bytes arrive, in whatever
  pieces, at a connected client on any machine, and \<^verbatim>\<open>recv\<close> never answers \<^verbatim>\<open>EAGAIN\<close> so often in a row that the receiver
  gives up (\<open>steady\<close>), it receives the same number, target, user data and body, and no byte of what comes after.
\<close>

theorem tcp_message_roundtrip:
  assumes "tcp_SendMessage host mid target user data rs c = (out, True)" and "length data < 1024 * 1024"
    and "arrived as = out @ later" and "steady 0 as" and "tcp_connected c'" and "has_socket c'"
  shows "\<exists>as'. RecvMessage host' parse True as p c' =
      Some (\<lparr>conn_id = 0, packet_msg_id = mid, packet_target_id = target, packet_user_data = user,
        packet_msg = (case CreateMessage parse mid data of None \<Rightarrow> packet_msg p | Some m \<Rightarrow> Some m)\<rparr>, as') \<and> arrived as' = later"
proof -
  define h where "h = \<lparr>msg_id = mid, msg_len = word_of_nat (length data + header_size), target_id = target, user_data = user\<rparr>"
  define hs where "hs = tcp_header host mid target user data"
  have out: "out = hs @ data" unfolding hs_def
    using assms(1) by (auto simp: tcp_SendMessage_def Let_def split: if_splits prod.splits dest!: send_all_prefix)
  then have a: "take header_size (arrived as) = hs" "drop header_size (arrived as) = data @ later"
    "header_size \<le> length (arrived as)" by (simp_all add: assms(3) tcp_header_def hs_def)
  from recv_all_steady [OF _ assms(4) a(3), of header_size] obtain as1 where as1:
    "recv_all header_size 0 header_size as = Some (hs, as1)" "arrived as1 = data @ later" "steady 0 as1"
    by (auto simp: a(1,2))
  have hd: "received_header host' hs = h"
    using header_received [of host' h] header_portable [of host' h host] by (simp add: tcp_header_def h_def hs_def)
  have f: "msg_id h = mid" "target_id h = target" "user_data h = user" by (simp_all add: h_def)
  have n: "unat (msg_len h - 20) = length data"
    using assms(2) by (simp add: h_def unat_of_nat)
  show ?thesis
  proof (cases "data = []")
    case True
    with as1 assms(5,6) n show ?thesis by (simp add: RecvMessage_def hd Let_def f)
  next
    case False
    from recv_all_steady [OF _ as1(3), of 1024 "length data"] obtain as2 where
      "recv_all 1024 0 (length data) as1 = Some (data, as2)" "arrived as2 = later" by (auto simp: as1(2))
    with False as1 assms(2,5,6) n show ?thesis by (simp add: RecvMessage_def hd Let_def f)
  qed
qed

text \<open>A header that promises less than itself is a failure, since the length of the body wraps.\<close>

lemma short_length_fails:
  assumes "recv_all header_size 0 header_size rs = Some (hs, rs1)" and "unat (msg_len (received_header host hs)) < header_size"
  shows "RecvMessage host parse True rs p c = None"
proof -
  have "unat (msg_len (received_header host hs) - 20) = 2 ^ 32 + unat (msg_len (received_header host hs)) - 20"
    using assms(2) by (simp add: unat_sub_if_size word_size)
  with assms show ?thesis by (simp add: RecvMessage_def Let_def)
qed

section \<open>Examples\<close>

theorem seconds_counted_witness:
  "MainLoop [100, 140, 1160] 0 ticks_init = ([OnUpdate, OnUpdate, OnTimer], 1160, \<lparr>timer_counter = 160, timer5s_counter = 1, timer30s_counter = 1\<rparr>) \<and>
   1000 * fired OnTimer [OnUpdate, OnUpdate, OnTimer] + 160 = 1160 - 0"
proof -
  have r: "MainLoop [100, 140, 1160] 0 ticks_init =
      ([OnUpdate, OnUpdate, OnTimer], 1160, \<lparr>timer_counter = 160, timer5s_counter = 1, timer30s_counter = 1\<rparr>)"
    by (simp add: frame_step_def second_passed_def ticks_init_def Let_def to_i32_def)
  from seconds_counted [OF _ _ r] r show ?thesis by simp
qed

theorem tcp_message_roundtrip_witness:
  "\<exists>as'. RecvMessage False Some True [Got (tcp_header True 7 8 9 [1, 2]), WouldBlock, Got [1], Got [2, 3]] no_packet \<lparr>has_socket = True, tcp_connected = True\<rparr> =
     Some (\<lparr>conn_id = 0, packet_msg_id = 7, packet_target_id = 8, packet_user_data = 9, packet_msg = None\<rparr>, as') \<and> arrived as' = [3]"
proof -
  have l: "length (tcp_header True 7 8 9 [1, 2]) = 20" by (simp add: tcp_header_def)
  then have ne: "tcp_header True 7 8 9 [1, 2] \<noteq> []" by auto
  have "send_all (tcp_header True 7 8 9 [1, 2]) [Took 20, Took 1, Later, Took 1] = (tcp_header True 7 8 9 [1, 2], True, [Took 1, Later, Took 1])"
    using l ne by simp
  then have s: "tcp_SendMessage True 7 8 9 [1, 2] [Took 20, Took 1, Later, Took 1] \<lparr>has_socket = True, tcp_connected = True\<rparr> =
      (tcp_header True 7 8 9 [1, 2] @ [1, 2], True)"
    by (simp add: tcp_SendMessage_def)
  from tcp_message_roundtrip [OF s, of "[Got (tcp_header True 7 8 9 [1, 2]), WouldBlock, Got [1], Got [2, 3]]" "[3]"
      "\<lparr>has_socket = True, tcp_connected = True\<rparr>" False Some no_packet] ne
  show ?thesis by (simp add: CreateMessage_def no_packet_def)
qed

end
