(* ===== verification/Format.thy ===== *)
theory Format
  imports Runtime
begin

text \<open>
  Formatted text: \<^verbatim>\<open>snprintf\<close> and \<^verbatim>\<open>sscanf\<close> of the C library for the conversions the servers use, \<^verbatim>\<open>%d\<close> (\<^verbatim>\<open>%lu\<close>
  likewise) and \<^verbatim>\<open>%s\<close>, and that what the first writes the second reads back.
\<close>

section \<open>Formats\<close>

datatype directive = Lit char | Dec | Word

datatype piece = Number int | Text string

fun directives :: "string \<Rightarrow> directive list" where
  "directives [] = []"
| "directives [c] = [Lit c]"
| "directives (c # d # cs) =
     (if c = CHR ''%'' \<and> d = CHR ''d'' then Dec # directives cs
      else if c = CHR ''%'' \<and> d = CHR ''s'' then Word # directives cs
      else if c = CHR ''%'' \<and> d = CHR ''l'' then Dec # directives (tl cs)
      else Lit c # directives (d # cs))"

text \<open>A C string ends at its first zero.\<close>

definition c_str :: "string \<Rightarrow> string" where
  "c_str = takeWhile (\<lambda>c. c \<noteq> CHR 0x00)"

fun render :: "directive list \<Rightarrow> piece list \<Rightarrow> string" where
  "render (Lit c # ds) ps = c # render ds ps"
| "render (Dec # ds) (Number i # ps) = to_dec i @ render ds ps"
| "render (Word # ds) (Text s # ps) = c_str s @ render ds ps"
| "render ds ps = []"

text \<open>\<^verbatim>\<open>snprintf\<close> into an array of \<open>n\<close> characters: the last one is the zero.\<close>

definition snprintf :: "nat \<Rightarrow> string \<Rightarrow> piece list \<Rightarrow> string" where
  "snprintf n fmt ps = take (n - 1) (render (directives fmt) ps)"

definition is_space :: "char \<Rightarrow> bool" where
  "is_space c \<longleftrightarrow> c = CHR '' '' \<or> c \<in> {CHR 0x09, CHR 0x0A, CHR 0x0B, CHR 0x0C, CHR 0x0D}"

definition is_digit :: "char \<Rightarrow> bool" where
  "is_digit c \<longleftrightarrow> 48 \<le> (of_char c :: nat) \<and> of_char c \<le> (57 :: nat)"

definition digits_value :: "string \<Rightarrow> nat" where
  "digits_value cs = foldl (\<lambda>v c. 10 * v + (of_char c - 48)) 0 cs"

text \<open>
  \<^verbatim>\<open>sscanf\<close>: what is converted before the first failure. The arrays for \<^verbatim>\<open>%s\<close> have \<open>n\<close> characters, which a longer word leaves; a
  number that is no \<^verbatim>\<open>int\<close> has no defined result.
\<close>

fun scan :: "nat \<Rightarrow> directive list \<Rightarrow> string \<Rightarrow> piece list outcome" where
  "scan n [] cs = Ret []"
| "scan n (Lit c # ds) cs =
     (if is_space c then scan n ds (dropWhile is_space cs)
      else case cs of [] \<Rightarrow> Ret [] | x # xs \<Rightarrow> if x = c then scan n ds xs else Ret [])"
| "scan n (Dec # ds) cs =
     (let xs = dropWhile is_space cs;
          neg = (xs \<noteq> [] \<and> hd xs = CHR ''-'');
          ys = (if xs \<noteq> [] \<and> (hd xs = CHR ''-'' \<or> hd xs = CHR ''+'') then tl xs else xs);
          digits = takeWhile is_digit ys;
          v = (if neg then - int (digits_value digits) else int (digits_value digits)) in
      if digits = [] then Ret []
      else if \<not> in_i32 v then Fault SignedOverflow
      else bindO (scan n ds (drop (length digits) ys)) (\<lambda>ps. Ret (Number v # ps)))"
| "scan n (Word # ds) cs =
     (let xs = dropWhile is_space cs; w = takeWhile (\<lambda>c. \<not> is_space c) xs in
      if w = [] then Ret []
      else if n \<le> length w then Fault OutOfRange
      else bindO (scan n ds (drop (length w) xs)) (\<lambda>ps. Ret (Text w # ps)))"

definition sscanf :: "nat \<Rightarrow> string \<Rightarrow> string \<Rightarrow> piece list outcome" where
  "sscanf n fmt cs = scan n (directives fmt) (c_str cs)"

section \<open>Numbers\<close>

lemma dec_nat_digits: "\<forall>c \<in> set (dec_nat n). is_digit c"
  by (induction n rule: dec_nat.induct) (subst dec_nat.simps, auto simp: is_digit_def of_char_of)

lemma dec_nat_nonempty [simp]: "dec_nat n \<noteq> []"
  by (subst dec_nat.simps) simp

lemma digits_value_append [simp]: "digits_value (xs @ [c]) = 10 * digits_value xs + (of_char c - 48)"
  by (simp add: digits_value_def)

lemma dec_nat_value [simp]: "digits_value (dec_nat n) = n"
proof (induction n rule: dec_nat.induct)
  case (1 n)
  show ?case
  proof (cases "n < 10")
    case True
    then show ?thesis by (subst dec_nat.simps) (simp add: digits_value_def)
  next
    case False
    have "n mod 10 + 48 < 256" using mod_less_divisor [of 10 n] by simp
    then have "(of_char (char_of (48 + n mod 10)) :: nat) = 48 + n mod 10" by simp
    with False 1 show ?thesis by (subst dec_nat.simps) simp
  qed
qed

lemma dec_nat_inject [simp]: "dec_nat m = dec_nat n \<longleftrightarrow> m = n"
  using dec_nat_value by metis

lemma length_dec_nat: "n < 10 ^ k \<Longrightarrow> 0 < k \<Longrightarrow> length (dec_nat n) \<le> k"
proof (induction k arbitrary: n)
  case (Suc k)
  show ?case
  proof (cases "n < 10")
    case True
    then show ?thesis by (subst dec_nat.simps) simp
  next
    case False
    with Suc.prems have "0 < k" "n div 10 < 10 ^ k" by (cases k, simp_all add: less_mult_imp_div_less mult.commute)
    with Suc.IH [of "n div 10"] False show ?thesis by (subst dec_nat.simps) simp
  qed
qed simp

lemma length_to_dec: "in_i32 i \<Longrightarrow> length (to_dec i) \<le> 11"
proof -
  assume "in_i32 i"
  then have "nat \<bar>i\<bar> < 10 ^ 10" by (auto simp: in_i32_def)
  then have "length (dec_nat (nat \<bar>i\<bar>)) \<le> 10" by (intro length_dec_nat) simp_all
  then show ?thesis by (auto simp: to_dec_def)
qed

lemma to_dec_inject [simp]: "to_dec i = to_dec j \<longleftrightarrow> i = j"
proof -
  have m: "\<not> is_digit (CHR ''-'')" by (simp add: is_digit_def)
  have "hd (dec_nat n) \<noteq> CHR ''-''" for n using dec_nat_digits [of n] hd_in_set [OF dec_nat_nonempty [of n]] m by metis
  then have "dec_nat n \<noteq> CHR ''-'' # xs" "CHR ''-'' # xs \<noteq> dec_nat n" for n xs by (metis list.sel(1))+
  then show ?thesis by (auto simp: to_dec_def)
qed

section \<open>What is written is read back\<close>

lemma scan_lits: "\<forall>c \<in> set s. \<not> is_space c \<Longrightarrow> scan n (map Lit s @ ds) (s @ cs) = scan n ds cs"
  by (induction s) auto

lemma digit_not_space: "is_digit c \<Longrightarrow> \<not> is_space c"
  by (auto simp: is_digit_def is_space_def)

lemma dropWhile_hd: "xs \<noteq> [] \<Longrightarrow> \<not> P (hd xs) \<Longrightarrow> dropWhile P xs = xs"
  by (cases xs) auto

lemma scan_dec:
  assumes "in_i32 i" and "cs = [] \<or> \<not> is_digit (hd cs)"
  shows "scan n (Dec # ds) (to_dec i @ cs) = bindO (scan n ds cs) (\<lambda>ps. Ret (Number i # ps))"
proof -
  define m where "m = nat \<bar>i\<bar>"
  have tw: "takeWhile is_digit (dec_nat m @ cs) = dec_nat m"
    using assms(2) dec_nat_digits [of m] by (cases cs) (auto simp: takeWhile_append)
  have dr: "drop (length (dec_nat m)) (dec_nat m @ cs) = cs" by simp
  have h: "is_digit (hd (dec_nat m))" using dec_nat_digits [of m] by simp
  then have hd: "hd (dec_nat m @ cs) \<noteq> CHR ''-''" "hd (dec_nat m @ cs) \<noteq> CHR ''+''" "\<not> is_space (hd (dec_nat m @ cs))"
    by (auto simp: is_digit_def is_space_def)
  then have dw: "dropWhile is_space (dec_nat m @ cs) = dec_nat m @ cs" by (intro dropWhile_hd) simp_all
  show ?thesis
  proof (cases "i < 0")
    case True
    then have "to_dec i = CHR ''-'' # dec_nat m" "i = - int m" by (simp_all add: to_dec_def m_def)
    moreover have "\<not> is_space (CHR ''-'')" by (simp add: is_space_def)
    ultimately show ?thesis using assms(1) tw dr by (simp add: Let_def)
  next
    case False
    then have "to_dec i = dec_nat m" "i = int m" by (simp_all add: to_dec_def m_def)
    then show ?thesis using assms(1) tw dr dw hd by (simp add: Let_def)
  qed
qed

lemma scan_word:
  assumes "w \<noteq> []" and "\<forall>c \<in> set w. \<not> is_space c" and "length w < n"
  shows "scan n [Word] w = Ret [Text w]"
proof -
  have dw: "dropWhile is_space w = w" using assms by (intro dropWhile_hd) simp_all
  have tw: "takeWhile (\<lambda>c. \<not> is_space c) w = w" using assms(2) by (simp add: takeWhile_eq_all_conv)
  show ?thesis using assms(1,3) by (simp add: Let_def dw tw)
qed

lemma c_str_id [simp]: "CHR 0x00 \<notin> set s \<Longrightarrow> c_str s = s"
  by (auto simp: c_str_def takeWhile_eq_all_conv)

lemma to_dec_no_zero: "CHR 0x00 \<notin> set (to_dec i)"
proof -
  have "\<not> is_digit (CHR 0x00)" by (simp add: is_digit_def)
  then have "CHR 0x00 \<notin> set (dec_nat n)" for n using dec_nat_digits [of n] by blast
  then show ?thesis by (simp add: to_dec_def)
qed

end
