(* ===== verification/LogServer.thy ===== *)
theory LogServer
  imports Service Format
begin

text \<open>
  The log server, \<open>log_server/log_server.cc\<close>, and its client, \<open>common/log_client.cc\<close>: records are put in a queue, a thread
  takes them in batches and appends them to files named after their type and day. What a player did travels as text in a
  field of the message, written with \<^verbatim>\<open>snprintf\<close> and read with \<^verbatim>\<open>sscanf\<close>. The calendar, whether a file opens and the code
  generated for the messages are parameters.
\<close>

section \<open>Records and state\<close>

text \<open>The numbers of the types and of the levels; a message may carry any number.\<close>

definition LOG_LOGIN :: i32 where "LOG_LOGIN = 0"
definition LOG_LOGOUT :: i32 where "LOG_LOGOUT = 1"
definition LOG_RECHARGE :: i32 where "LOG_RECHARGE = 4"
definition LOG_CONSUME :: i32 where "LOG_CONSUME = 5"
definition LOG_ITEM :: i32 where "LOG_ITEM = 6"
definition LOG_TRADE :: i32 where "LOG_TRADE = 7"
definition LOG_BATTLE :: i32 where "LOG_BATTLE = 8"
definition LEVEL_INFO :: i32 where "LEVEL_INFO = 1"

record LogRecord =
  lr_log_id :: int
  lr_type :: i32
  lr_level :: i32
  lr_server_id :: i32
  lr_role_id :: u64
  lr_role_name :: string
  lr_content :: string
  lr_extra_data :: string
  lr_log_time :: time_t
  lr_ip :: string

record LogQueryCondition =
  lq_type :: i32
  lq_server_id :: i32
  lq_role_id :: u64
  lq_start_time :: time_t
  lq_end_time :: time_t
  lq_limit :: i32
  lq_offset :: i32

text \<open>\<open>log_files\<close> has the text appended to each file so far.\<close>

record LogServer =
  log_queue :: "LogRecord list"
  log_counter :: int
  file_handles :: "(string \<times> bool) list"
  log_files :: "(string \<times> string) list"
  log_dir :: string
  log_retention_days :: i32
  last_clear_time :: time_t
  log_stop_flag :: bool
  log_is_running :: bool

record log_env =
  opens :: "string \<Rightarrow> bool"
  day_text :: "time_t \<Rightarrow> string"
  time_text :: "time_t \<Rightarrow> string"

definition log_init :: LogServer where
  "log_init =
     \<lparr>log_queue = [], log_counter = 0, file_handles = [], log_files = [], log_dir = ''logs'', log_retention_days = 30,
      last_clear_time = 0, log_stop_flag = False, log_is_running = False\<rparr>"

section \<open>Writing records\<close>

definition WriteLogAsync :: "LogRecord \<Rightarrow> LogServer \<Rightarrow> bool \<times> LogServer" where
  "WriteLogAsync r s = (True, s\<lparr>log_queue := log_queue s @ [r]\<rparr>)"

definition WriteLogBatch :: "LogRecord list \<Rightarrow> LogServer \<Rightarrow> bool \<times> LogServer" where
  "WriteLogBatch rs s = (True, fold (\<lambda>r t. snd (WriteLogAsync r t)) rs s)"

definition type_names :: "string list" where
  "type_names =
     [''login'', ''logout'', ''create_role'', ''delete_role'', ''recharge'', ''consume'', ''item'', ''trade'', ''battle'',
      ''task'', ''guild'', ''chat'', ''error'', ''system'']"

definition GetLogFileName :: "log_env \<Rightarrow> i32 \<Rightarrow> time_t \<Rightarrow> string" where
  "GetLogFileName env t at =
     (let i = (if t < 0 \<or> 14 \<le> t then 13 else nat t) in type_names ! i @ ''_'' @ day_text env at @ ''.log'')"

definition log_line :: "log_env \<Rightarrow> LogRecord \<Rightarrow> string" where
  "log_line env r =
     ''['' @ time_text env (lr_log_time r) @ ''] '' @ ''['' @ to_dec (lr_type r) @ ''] '' @ ''['' @ to_dec (lr_level r) @ ''] '' @
     ''[server:'' @ to_dec (lr_server_id r) @ ''] '' @ ''[role:'' @ to_dec (uint (lr_role_id r)) @ ''] '' @ lr_content r @
     (if lr_extra_data r \<noteq> '''' then '' '' @ lr_extra_data r else '''') @ [CHR 0x0A]"

text \<open>A file that did not open keeps its entry and is not opened again.\<close>

definition WriteToFile :: "log_env \<Rightarrow> LogRecord \<Rightarrow> LogServer \<Rightarrow> bool \<times> LogServer" where
  "WriteToFile env r s =
     (let path = log_dir s @ ''/'' @ GetLogFileName env (lr_type r) (lr_log_time r);
          s1 = (if map_of (file_handles s) path = None then s\<lparr>file_handles := AList.update path (opens env path) (file_handles s)\<rparr> else s) in
      if map_of (file_handles s1) path \<noteq> Some True then (False, s1)
      else (True, s1\<lparr>log_files := AList.update path (entry (log_files s1) path @ log_line env r) (log_files s1)\<rparr>))"

definition WriteToDatabase :: "LogRecord \<Rightarrow> bool" where
  "WriteToDatabase r = True"

definition WriteLog :: "log_env \<Rightarrow> LogRecord \<Rightarrow> LogServer \<Rightarrow> bool \<times> LogServer" where
  "WriteLog env r s = WriteToFile env r s"

text \<open>
  The thread of \<^verbatim>\<open>ProcessLogQueue\<close>: at the head of its loop, in the wait, writing the rest of a batch, or ended. A step gives
  what it handed to \<^verbatim>\<open>WriteLog\<close>; there is none while the wait lasts and after the end.
\<close>

datatype worker = Top | Waiting | Writing "LogRecord list" | Ended

definition worker_step :: "log_env \<Rightarrow> worker \<Rightarrow> LogServer \<Rightarrow> (worker \<times> LogRecord list \<times> LogServer) option" where
  "worker_step env w s =
     (case w of
        Top \<Rightarrow> Some (if log_stop_flag s then Ended else Waiting, [], s)
      | Waiting \<Rightarrow>
          if log_queue s = [] \<and> \<not> log_stop_flag s then None
          else if log_stop_flag s \<and> log_queue s = [] then Some (Ended, [], s)
          else Some (Writing (take 100 (log_queue s)), [], s\<lparr>log_queue := drop 100 (log_queue s)\<rparr>)
      | Writing [] \<Rightarrow> Some (Top, [], s)
      | Writing (r # rs) \<Rightarrow> Some (Writing rs, [r], snd (WriteLog env r s))
      | Ended \<Rightarrow> None)"

text \<open>\<^verbatim>\<open>Stop\<close> for a thread that has been joined; without \<^verbatim>\<open>is_running_\<close> nothing happens.\<close>

definition log_Stop :: "LogServer \<Rightarrow> LogServer" where
  "log_Stop s =
     (if \<not> log_is_running s then s
      else s\<lparr>log_stop_flag := True, file_handles := [], log_is_running := False\<rparr>)"

definition GenerateLogId :: "time_t \<Rightarrow> LogServer \<Rightarrow> int \<times> LogServer" where
  "GenerateLogId now s =
     ((now - 1700000000) * 1000000 + (log_counter s + 1), s\<lparr>log_counter := log_counter s + 1\<rparr>)"

text \<open>What is reserved for later: the answers are constant.\<close>

definition QueryLogs :: "LogQueryCondition \<Rightarrow> bool \<times> LogRecord list" where "QueryLogs c = (True, [])"
definition QueryLogById :: "int \<Rightarrow> bool" where "QueryLogById i = True"
definition GetLogCount :: "i32 \<Rightarrow> time_t \<Rightarrow> time_t \<Rightarrow> int" where "GetLogCount t a b = 0"
definition GetRoleLogCount :: "u64 \<Rightarrow> i32 \<Rightarrow> int" where "GetRoleLogCount r t = 0"
definition ClearOldLogs :: "i32 \<Rightarrow> bool" where "ClearOldLogs days = True"
definition ArchiveLogs :: "i32 \<Rightarrow> bool" where "ArchiveLogs days = True"

definition log_OnTimer :: "time_t \<Rightarrow> LogServer \<Rightarrow> LogServer" where
  "log_OnTimer now s = (if 86400 < now - last_clear_time s then s\<lparr>last_clear_time := now\<rparr> else s)"

section \<open>What players do\<close>

text \<open>
  A record of something a player did. The clock is read for the number and again for the time.
\<close>

definition player_record :: "int \<Rightarrow> time_t \<Rightarrow> i32 \<Rightarrow> u64 \<Rightarrow> string \<Rightarrow> i32 \<Rightarrow> string \<Rightarrow> string \<Rightarrow> string \<Rightarrow> LogRecord" where
  "player_record i t2 type role name server content extra ip =
     \<lparr>lr_log_id = i, lr_type = type, lr_level = LEVEL_INFO, lr_server_id = server, lr_role_id = role, lr_role_name = name,
      lr_content = content, lr_extra_data = extra, lr_log_time = t2, lr_ip = ip\<rparr>"

definition log_player ::
  "time_t \<Rightarrow> time_t \<Rightarrow> i32 \<Rightarrow> u64 \<Rightarrow> string \<Rightarrow> i32 \<Rightarrow> string \<Rightarrow> string \<Rightarrow> string \<Rightarrow> LogServer \<Rightarrow> bool \<times> LogServer" where
  "log_player t1 t2 type role name server content extra ip s =
     (let (i, s1) = GenerateLogId t1 s in WriteLogAsync (player_record i t2 type role name server content extra ip) s1)"

definition recharge_text :: "i32 \<Rightarrow> i32 \<Rightarrow> string" where
  "recharge_text amount product = snprintf 256 ''amount=%d,product_id=%d'' [Number amount, Number product]"

definition consume_text :: "i32 \<Rightarrow> i32 \<Rightarrow> string \<Rightarrow> string" where
  "consume_text type amount reason = snprintf 256 ''type=%d,amount=%d,reason=%s'' [Number type, Number amount, Text reason]"

definition item_text :: "i32 \<Rightarrow> i32 \<Rightarrow> i32 \<Rightarrow> string \<Rightarrow> string" where
  "item_text item n type reason =
     snprintf 256 ''item_id=%d,count=%d,type=%d,reason=%s'' [Number item, Number n, Number type, Text reason]"

definition trade_text :: "u64 \<Rightarrow> string \<Rightarrow> string \<Rightarrow> string" where
  "trade_text target name items =
     snprintf 512 ''target_id=%lu,target_name=%s,items=%s'' [Number (uint target), Text name, Text items]"

definition battle_text :: "i32 \<Rightarrow> i32 \<Rightarrow> i32 \<Rightarrow> string" where
  "battle_text type result duration =
     snprintf 256 ''battle_type=%d,result=%d,duration=%d'' [Number type, Number result, Number duration]"

definition LogLogin :: "time_t \<Rightarrow> time_t \<Rightarrow> u64 \<Rightarrow> string \<Rightarrow> i32 \<Rightarrow> string \<Rightarrow> bool \<Rightarrow> LogServer \<Rightarrow> bool \<times> LogServer" where
  "LogLogin t1 t2 role name server ip is_login =
     log_player t1 t2 (if is_login then LOG_LOGIN else LOG_LOGOUT) role name server
       (if is_login then ''Player login'' else ''Player logout'') (''ip='' @ ip) ip"

definition LogRecharge :: "time_t \<Rightarrow> time_t \<Rightarrow> u64 \<Rightarrow> string \<Rightarrow> i32 \<Rightarrow> i32 \<Rightarrow> i32 \<Rightarrow> LogServer \<Rightarrow> bool \<times> LogServer" where
  "LogRecharge t1 t2 role name server amount product =
     log_player t1 t2 LOG_RECHARGE role name server ''Player recharge'' (recharge_text amount product) ''''"

definition LogConsume ::
  "time_t \<Rightarrow> time_t \<Rightarrow> u64 \<Rightarrow> string \<Rightarrow> i32 \<Rightarrow> i32 \<Rightarrow> i32 \<Rightarrow> string \<Rightarrow> LogServer \<Rightarrow> bool \<times> LogServer" where
  "LogConsume t1 t2 role name server type amount reason =
     log_player t1 t2 LOG_CONSUME role name server ''Player consume'' (consume_text type amount reason) ''''"

definition LogItem ::
  "time_t \<Rightarrow> time_t \<Rightarrow> u64 \<Rightarrow> string \<Rightarrow> i32 \<Rightarrow> i32 \<Rightarrow> i32 \<Rightarrow> i32 \<Rightarrow> string \<Rightarrow> LogServer \<Rightarrow> bool \<times> LogServer" where
  "LogItem t1 t2 role name server item n type reason =
     log_player t1 t2 LOG_ITEM role name server ''Item change'' (item_text item n type reason) ''''"

definition LogTrade ::
  "time_t \<Rightarrow> time_t \<Rightarrow> u64 \<Rightarrow> string \<Rightarrow> i32 \<Rightarrow> u64 \<Rightarrow> string \<Rightarrow> string \<Rightarrow> LogServer \<Rightarrow> bool \<times> LogServer" where
  "LogTrade t1 t2 role name server target target_name items =
     log_player t1 t2 LOG_TRADE role name server ''Player trade'' (trade_text target target_name items) ''''"

definition LogBattle ::
  "time_t \<Rightarrow> time_t \<Rightarrow> u64 \<Rightarrow> string \<Rightarrow> i32 \<Rightarrow> i32 \<Rightarrow> i32 \<Rightarrow> i32 \<Rightarrow> LogServer \<Rightarrow> bool \<times> LogServer" where
  "LogBattle t1 t2 role name server type result duration =
     log_player t1 t2 LOG_BATTLE role name server ''Battle result'' (battle_text type result duration) ''''"

section \<open>Requests\<close>

text \<open>The messages as the generated code gives them, and the answers handed to the connection.\<close>

datatype log_msg = SendLogReq LogRecord | SendLogBatchReq "LogRecord list" | QueryLogReq LogQueryCondition
  | CountLogReq i32 time_t time_t | RecordMsg LogRecord

datatype log_ack = SendLogAck i32 int | SendLogBatchAck i32 int int | QueryLogAck i32 "LogRecord list" | CountLogAck i32 int

type_synonym log_sent = "(i32 \<times> u32 \<times> log_ack) list"

definition HandleSendLogReq :: "log_msg NetPacket \<Rightarrow> LogServer \<Rightarrow> (bool \<times> log_sent) \<times> LogServer" where
  "HandleSendLogReq p s =
     (case packet_msg p of
        Some (SendLogReq r) \<Rightarrow>
          let (ok, s1) = WriteLogAsync r s in
          ((True, [(conn_id p, 200501, SendLogAck (if ok then 0 else 1) (lr_log_id r))]), s1)
      | _ \<Rightarrow> ((False, []), s))"

definition HandleSendLogBatchReq :: "log_msg NetPacket \<Rightarrow> LogServer \<Rightarrow> (bool \<times> log_sent) \<times> LogServer" where
  "HandleSendLogBatchReq p s =
     (case packet_msg p of
        Some (SendLogBatchReq rs) \<Rightarrow>
          let (ok, s1) = WriteLogBatch rs s in
          ((True, [(conn_id p, 200503,
             SendLogBatchAck (if ok then 0 else 1) (if ok then int (length rs) else 0) (if ok then 0 else int (length rs)))]), s1)
      | _ \<Rightarrow> ((False, []), s))"

definition HandleQueryLogReq :: "log_msg NetPacket \<Rightarrow> bool \<times> log_sent" where
  "HandleQueryLogReq p =
     (case packet_msg p of
        Some (QueryLogReq c) \<Rightarrow>
          let (ok, rs) = QueryLogs c in (True, [(conn_id p, 200505, QueryLogAck (if ok then 0 else 1) rs)])
      | _ \<Rightarrow> (False, []))"

definition HandleCountLogReq :: "log_msg NetPacket \<Rightarrow> bool \<times> log_sent" where
  "HandleCountLogReq p =
     (case packet_msg p of
        Some (CountLogReq t a b) \<Rightarrow> (True, [(conn_id p, 200507, CountLogAck 0 (GetLogCount t a b))])
      | _ \<Rightarrow> (False, []))"

text \<open>The days to keep travel in the field for the start.\<close>

definition HandleClearOldLogReq :: "log_msg NetPacket \<Rightarrow> bool \<times> log_sent" where
  "HandleClearOldLogReq p =
     (case packet_msg p of
        Some (CountLogReq t a b) \<Rightarrow>
          (True, [(conn_id p, 200509, CountLogAck (if ClearOldLogs (to_i32 a) then 0 else 1) 0)])
      | _ \<Rightarrow> (False, []))"

text \<open>What \<^verbatim>\<open>sscanf\<close> has not converted keeps its initial value.\<close>

definition number_at :: "piece list \<Rightarrow> nat \<Rightarrow> int" where
  "number_at ps i = (if i < length ps then (case ps ! i of Number v \<Rightarrow> v | Text _ \<Rightarrow> 0) else 0)"

definition text_at :: "piece list \<Rightarrow> nat \<Rightarrow> string" where
  "text_at ps i = (if i < length ps then (case ps ! i of Number _ \<Rightarrow> '''' | Text s \<Rightarrow> s) else '''')"

definition record_request ::
  "u32 \<Rightarrow> string \<Rightarrow> (LogRecord \<Rightarrow> piece list \<Rightarrow> LogServer \<Rightarrow> bool \<times> LogServer) \<Rightarrow> log_msg NetPacket \<Rightarrow> LogServer \<Rightarrow>
   ((bool \<times> log_sent) \<times> LogServer) outcome" where
  "record_request ack fmt act p s =
     (case packet_msg p of
        Some (RecordMsg r) \<Rightarrow>
          bindO (if lr_extra_data r = '''' then Ret [] else sscanf 256 fmt (lr_extra_data r)) (\<lambda>ps.
            let (ok, s1) = act r ps s in
            Ret ((True, [(conn_id p, ack, SendLogAck (if ok then 0 else 1) (lr_log_id r))]), s1))
      | _ \<Rightarrow> Ret ((False, []), s))"

definition HandleLogLoginReq :: "time_t \<Rightarrow> time_t \<Rightarrow> log_msg NetPacket \<Rightarrow> LogServer \<Rightarrow> (bool \<times> log_sent) \<times> LogServer" where
  "HandleLogLoginReq t1 t2 p s =
     (case packet_msg p of
        Some (RecordMsg r) \<Rightarrow>
          let (ok, s1) = LogLogin t1 t2 (lr_role_id r) (lr_role_name r) (lr_server_id r) (lr_ip r) (lr_type r = LOG_LOGIN) s in
          ((True, [(conn_id p, 200511, SendLogAck (if ok then 0 else 1) (lr_log_id r))]), s1)
      | _ \<Rightarrow> ((False, []), s))"

definition HandleLogRechargeReq :: "time_t \<Rightarrow> time_t \<Rightarrow> log_msg NetPacket \<Rightarrow> LogServer \<Rightarrow> ((bool \<times> log_sent) \<times> LogServer) outcome" where
  "HandleLogRechargeReq t1 t2 = record_request 200513 ''amount=%d,product_id=%d'' (\<lambda>r ps.
     LogRecharge t1 t2 (lr_role_id r) (lr_role_name r) (lr_server_id r) (number_at ps 0) (number_at ps 1))"

definition HandleLogConsumeReq :: "time_t \<Rightarrow> time_t \<Rightarrow> log_msg NetPacket \<Rightarrow> LogServer \<Rightarrow> ((bool \<times> log_sent) \<times> LogServer) outcome" where
  "HandleLogConsumeReq t1 t2 = record_request 200515 ''type=%d,amount=%d,reason=%s'' (\<lambda>r ps.
     LogConsume t1 t2 (lr_role_id r) (lr_role_name r) (lr_server_id r) (number_at ps 0) (number_at ps 1) (text_at ps 2))"

definition HandleLogItemReq :: "time_t \<Rightarrow> time_t \<Rightarrow> log_msg NetPacket \<Rightarrow> LogServer \<Rightarrow> ((bool \<times> log_sent) \<times> LogServer) outcome" where
  "HandleLogItemReq t1 t2 = record_request 200517 ''item_id=%d,count=%d,type=%d,reason=%s'' (\<lambda>r ps.
     LogItem t1 t2 (lr_role_id r) (lr_role_name r) (lr_server_id r) (number_at ps 0) (number_at ps 1) (number_at ps 2) (text_at ps 3))"

definition HandleLogBattleReq :: "time_t \<Rightarrow> time_t \<Rightarrow> log_msg NetPacket \<Rightarrow> LogServer \<Rightarrow> ((bool \<times> log_sent) \<times> LogServer) outcome" where
  "HandleLogBattleReq t1 t2 = record_request 200519 ''battle_type=%d,result=%d,duration=%d'' (\<lambda>r ps.
     LogBattle t1 t2 (lr_role_id r) (lr_role_name r) (lr_server_id r) (number_at ps 0) (number_at ps 1) (number_at ps 2))"

text \<open>\<^verbatim>\<open>RegisterMessageHandlers\<close>: the request each number leads to.\<close>

definition log_dispatch :: "time_t \<Rightarrow> time_t \<Rightarrow> log_msg NetPacket \<Rightarrow> LogServer \<Rightarrow> ((bool \<times> log_sent) \<times> LogServer) outcome" where
  "log_dispatch t1 t2 p s =
     (let n = packet_msg_id p in
      if n = 200500 then Ret (HandleSendLogReq p s)
      else if n = 200502 then Ret (HandleSendLogBatchReq p s)
      else if n = 200504 then Ret (HandleQueryLogReq p, s)
      else if n = 200506 then Ret (HandleCountLogReq p, s)
      else if n = 200508 then Ret (HandleClearOldLogReq p, s)
      else if n = 200510 then Ret (HandleLogLoginReq t1 t2 p s)
      else if n = 200512 then HandleLogRechargeReq t1 t2 p s
      else if n = 200514 then HandleLogConsumeReq t1 t2 p s
      else if n = 200516 then HandleLogItemReq t1 t2 p s
      else if n = 200518 then HandleLogBattleReq t1 t2 p s
      else Ret ((False, []), s))"

section \<open>The client\<close>

record 'b LogClient =
  lc_server_id :: i32
  lc_connected :: bool
  lc_counter :: int
  lc_callbacks :: "(u32 \<times> 'b) list"

definition lc_IsConnected :: "TcpClient \<Rightarrow> 'b LogClient \<Rightarrow> bool" where
  "lc_IsConnected tcp c = (lc_connected c \<and> tcp_connected tcp)"

text \<open>
  \<open>sent\<close> is the answer of the connection. A callback is filed under the number of the request; nothing takes it out again.
  The answer lists what goes to the connection.
\<close>

definition lc_SendMessage ::
  "TcpClient \<Rightarrow> bool \<Rightarrow> u32 \<Rightarrow> log_msg \<Rightarrow> 'b option \<Rightarrow> 'b LogClient \<Rightarrow> (bool \<times> (u32 \<times> log_msg) list) \<times> 'b LogClient" where
  "lc_SendMessage tcp sent mid m cb c =
     (if \<not> lc_IsConnected tcp c then ((False, []), c)
      else ((sent, [(mid, m)]), case cb of None \<Rightarrow> c | Some f \<Rightarrow> c\<lparr>lc_callbacks := AList.update mid f (lc_callbacks c)\<rparr>))"

definition lc_GenerateLogId :: "time_t \<Rightarrow> 'b LogClient \<Rightarrow> int \<times> 'b LogClient" where
  "lc_GenerateLogId now c = ((now - 1700000000) * 1000000 + (lc_counter c + 1), c\<lparr>lc_counter := lc_counter c + 1\<rparr>)"

definition lc_SendLog where
  "lc_SendLog tcp sent r = lc_SendMessage tcp sent 200500 (SendLogReq r)"

definition lc_SendLogBatch where
  "lc_SendLogBatch tcp sent rs = lc_SendMessage tcp sent 200502 (SendLogBatchReq rs)"

definition lc_player ::
  "u32 \<Rightarrow> i32 \<Rightarrow> string \<Rightarrow> TcpClient \<Rightarrow> bool \<Rightarrow> time_t \<Rightarrow> time_t \<Rightarrow> u64 \<Rightarrow> string \<Rightarrow> i32 \<Rightarrow> string \<Rightarrow> string \<Rightarrow> 'b option \<Rightarrow>
   'b LogClient \<Rightarrow> (bool \<times> (u32 \<times> log_msg) list) \<times> 'b LogClient" where
  "lc_player mid type content tcp sent t1 t2 role name server extra ip cb c =
     (let (i, c1) = lc_GenerateLogId t1 c in
      lc_SendMessage tcp sent mid (RecordMsg (player_record i t2 type role name server content extra ip)) cb c1)"

definition lc_LogLogin where
  "lc_LogLogin tcp sent t1 t2 role name server ip is_login =
     lc_player 200510 (if is_login then LOG_LOGIN else LOG_LOGOUT) (if is_login then ''Player login'' else ''Player logout'')
       tcp sent t1 t2 role name server (''ip='' @ ip) ip"

definition lc_LogRecharge where
  "lc_LogRecharge tcp sent t1 t2 role name server amount product =
     lc_player 200512 LOG_RECHARGE ''Player recharge'' tcp sent t1 t2 role name server (recharge_text amount product) ''''"

definition lc_LogConsume where
  "lc_LogConsume tcp sent t1 t2 role name server type amount reason =
     lc_player 200514 LOG_CONSUME ''Player consume'' tcp sent t1 t2 role name server (consume_text type amount reason) ''''"

definition lc_LogItem where
  "lc_LogItem tcp sent t1 t2 role name server item n type reason =
     lc_player 200516 LOG_ITEM ''Item change'' tcp sent t1 t2 role name server (item_text item n type reason) ''''"

text \<open>A trade is sent with the number of an item change.\<close>

definition lc_LogTrade where
  "lc_LogTrade tcp sent t1 t2 role name server target target_name items =
     lc_player 200516 LOG_TRADE ''Player trade'' tcp sent t1 t2 role name server (trade_text target target_name items) ''''"

definition lc_LogBattle where
  "lc_LogBattle tcp sent t1 t2 role name server type result duration =
     lc_player 200518 LOG_BATTLE ''Battle result'' tcp sent t1 t2 role name server (battle_text type result duration) ''''"

section \<open>What the client writes, the server reads\<close>

lemma snprintf_fits: "length (render (directives fmt) ps) < n \<Longrightarrow> snprintf n fmt ps = render (directives fmt) ps"
  by (simp add: snprintf_def)

lemma recharge_render: "render (directives ''amount=%d,product_id=%d'') [Number a, Number b] = ''amount='' @ to_dec a @ '',product_id='' @ to_dec b"
  by simp

lemma battle_render: "render (directives ''battle_type=%d,result=%d,duration=%d'') [Number a, Number b, Number d] =
    ''battle_type='' @ to_dec a @ '',result='' @ to_dec b @ '',duration='' @ to_dec d"
  by simp

lemma consume_render: "render (directives ''type=%d,amount=%d,reason=%s'') [Number a, Number b, Text s] =
    ''type='' @ to_dec a @ '',amount='' @ to_dec b @ '',reason='' @ c_str s"
  by simp

lemma item_render: "render (directives ''item_id=%d,count=%d,type=%d,reason=%s'') [Number a, Number b, Number d, Text s] =
    ''item_id='' @ to_dec a @ '',count='' @ to_dec b @ '',type='' @ to_dec d @ '',reason='' @ c_str s"
  by simp

lemmas to_dec_lengths = length_to_dec [THEN le_trans]

text \<open>A reason that one word of the format can carry.\<close>

definition plain_reason :: "string \<Rightarrow> bool" where
  "plain_reason s \<longleftrightarrow> s \<noteq> '''' \<and> length s \<le> 180 \<and> CHR 0x00 \<notin> set s \<and> (\<forall>c \<in> set s. \<not> is_space c)"

lemma recharge_scanned:
  assumes "in_i32 a" and "in_i32 b"
  shows "sscanf 256 ''amount=%d,product_id=%d'' (recharge_text a b) = Ret [Number a, Number b]"
proof -
  have "length (''amount='' @ to_dec a @ '',product_id='' @ to_dec b) < 256"
    using length_to_dec [OF assms(1)] length_to_dec [OF assms(2)] by simp
  then have "recharge_text a b = ''amount='' @ to_dec a @ '',product_id='' @ to_dec b"
    unfolding recharge_text_def recharge_render [symmetric] by (rule snprintf_fits)
  moreover have "c_str (''amount='' @ to_dec a @ '',product_id='' @ to_dec b) = ''amount='' @ to_dec a @ '',product_id='' @ to_dec b"
    using to_dec_no_zero by (intro c_str_id) simp
  moreover have "scan 256 [Dec] (to_dec b) = Ret [Number b]" using scan_dec [OF assms(2), of "[]" 256 "[]"] by simp
  ultimately show ?thesis using assms by (simp add: sscanf_def is_space_def scan_dec is_digit_def del: scan.simps(3))
qed

lemma battle_scanned:
  assumes "in_i32 a" and "in_i32 b" and "in_i32 d"
  shows "sscanf 256 ''battle_type=%d,result=%d,duration=%d'' (battle_text a b d) = Ret [Number a, Number b, Number d]"
proof -
  let ?t = "''battle_type='' @ to_dec a @ '',result='' @ to_dec b @ '',duration='' @ to_dec d"
  have "length ?t < 256" using length_to_dec [OF assms(1)] length_to_dec [OF assms(2)] length_to_dec [OF assms(3)] by simp
  then have "battle_text a b d = ?t" unfolding battle_text_def battle_render [symmetric] by (rule snprintf_fits)
  moreover have "c_str ?t = ?t" using to_dec_no_zero by (intro c_str_id) simp
  moreover have "scan 256 [Dec] (to_dec d) = Ret [Number d]" using scan_dec [OF assms(3), of "[]" 256 "[]"] by simp
  ultimately show ?thesis using assms by (simp add: sscanf_def is_space_def scan_dec is_digit_def del: scan.simps(3))
qed

lemma consume_scanned:
  assumes "in_i32 a" and "in_i32 b" and "plain_reason s"
  shows "sscanf 256 ''type=%d,amount=%d,reason=%s'' (consume_text a b s) = Ret [Number a, Number b, Text s]"
proof -
  let ?t = "''type='' @ to_dec a @ '',amount='' @ to_dec b @ '',reason='' @ s"
  have s: "c_str s = s" using assms(3) by (simp add: plain_reason_def)
  have "length ?t < 256" using length_to_dec [OF assms(1)] length_to_dec [OF assms(2)] assms(3) by (simp add: plain_reason_def)
  moreover have r: "render (directives ''type=%d,amount=%d,reason=%s'') [Number a, Number b, Text s] = ?t"
    unfolding consume_render s by (rule refl)
  ultimately have "consume_text a b s = ?t"
    using snprintf_fits [of "''type=%d,amount=%d,reason=%s''" "[Number a, Number b, Text s]" 256] unfolding consume_text_def r by blast
  moreover have "c_str ?t = ?t" using to_dec_no_zero assms(3) by (intro c_str_id) (simp add: plain_reason_def)
  moreover have "scan 256 [Word] s = Ret [Text s]" using assms(3) by (intro scan_word) (simp_all add: plain_reason_def)
  ultimately show ?thesis using assms by (simp add: sscanf_def is_space_def scan_dec is_digit_def del: scan.simps(3,4))
qed

lemma item_scanned:
  assumes "in_i32 a" and "in_i32 b" and "in_i32 d" and "plain_reason s"
  shows "sscanf 256 ''item_id=%d,count=%d,type=%d,reason=%s'' (item_text a b d s) = Ret [Number a, Number b, Number d, Text s]"
proof -
  let ?t = "''item_id='' @ to_dec a @ '',count='' @ to_dec b @ '',type='' @ to_dec d @ '',reason='' @ s"
  have s: "c_str s = s" using assms(4) by (simp add: plain_reason_def)
  have "length ?t < 256"
    using length_to_dec [OF assms(1)] length_to_dec [OF assms(2)] length_to_dec [OF assms(3)] assms(4) by (simp add: plain_reason_def)
  moreover have r: "render (directives ''item_id=%d,count=%d,type=%d,reason=%s'') [Number a, Number b, Number d, Text s] = ?t"
    unfolding item_render s by (rule refl)
  ultimately have "item_text a b d s = ?t"
    using snprintf_fits [of "''item_id=%d,count=%d,type=%d,reason=%s''" "[Number a, Number b, Number d, Text s]" 256]
    unfolding item_text_def r by blast
  moreover have "c_str ?t = ?t" using to_dec_no_zero assms(4) by (intro c_str_id) (simp add: plain_reason_def)
  moreover have "scan 256 [Word] s = Ret [Text s]" using assms(4) by (intro scan_word) (simp_all add: plain_reason_def)
  ultimately show ?thesis using assms by (simp add: sscanf_def is_space_def scan_dec is_digit_def del: scan.simps(3,4))
qed

datatype player_event = EvLogin string bool | EvRecharge i32 i32 | EvConsume i32 i32 string | EvItem i32 i32 i32 string
  | EvBattle i32 i32 i32

primrec client_reports where
  "client_reports tcp sent t1 t2 role name server (EvLogin ip b) = lc_LogLogin tcp sent t1 t2 role name server ip b"
| "client_reports tcp sent t1 t2 role name server (EvRecharge a b) = lc_LogRecharge tcp sent t1 t2 role name server a b"
| "client_reports tcp sent t1 t2 role name server (EvConsume a b r) = lc_LogConsume tcp sent t1 t2 role name server a b r"
| "client_reports tcp sent t1 t2 role name server (EvItem a b d r) = lc_LogItem tcp sent t1 t2 role name server a b d r"
| "client_reports tcp sent t1 t2 role name server (EvBattle a b d) = lc_LogBattle tcp sent t1 t2 role name server a b d"

primrec server_logs where
  "server_logs t1 t2 role name server (EvLogin ip b) = LogLogin t1 t2 role name server ip b"
| "server_logs t1 t2 role name server (EvRecharge a b) = LogRecharge t1 t2 role name server a b"
| "server_logs t1 t2 role name server (EvConsume a b r) = LogConsume t1 t2 role name server a b r"
| "server_logs t1 t2 role name server (EvItem a b d r) = LogItem t1 t2 role name server a b d r"
| "server_logs t1 t2 role name server (EvBattle a b d) = LogBattle t1 t2 role name server a b d"

primrec readable_event :: "player_event \<Rightarrow> bool" where
  "readable_event (EvLogin ip b) \<longleftrightarrow> True"
| "readable_event (EvRecharge a b) \<longleftrightarrow> in_i32 a \<and> in_i32 b"
| "readable_event (EvConsume a b r) \<longleftrightarrow> in_i32 a \<and> in_i32 b \<and> plain_reason r"
| "readable_event (EvItem a b d r) \<longleftrightarrow> in_i32 a \<and> in_i32 b \<and> in_i32 d \<and> plain_reason r"
| "readable_event (EvBattle a b d) \<longleftrightarrow> in_i32 a \<and> in_i32 b \<and> in_i32 d"

definition packet_of :: "i32 \<Rightarrow> u32 \<times> log_msg \<Rightarrow> log_msg NetPacket" where
  "packet_of conn m = \<lparr>conn_id = conn, packet_msg_id = fst m, packet_target_id = 0, packet_user_data = 0, packet_msg = Some (snd m)\<rparr>"

lemma packet_of_simps [simp]: "conn_id (packet_of conn m) = conn" "packet_msg_id (packet_of conn m) = fst m"
  "packet_msg (packet_of conn m) = Some (snd m)"
  by (simp_all add: packet_of_def)

lemma player_record_simps [simp]:
  "lr_log_id (player_record i t2 type role name server content extra ip) = i"
  "lr_type (player_record i t2 type role name server content extra ip) = type"
  "lr_server_id (player_record i t2 type role name server content extra ip) = server"
  "lr_role_id (player_record i t2 type role name server content extra ip) = role"
  "lr_role_name (player_record i t2 type role name server content extra ip) = name"
  "lr_extra_data (player_record i t2 type role name server content extra ip) = extra"
  "lr_ip (player_record i t2 type role name server content extra ip) = ip"
  by (simp_all add: player_record_def)

lemma lc_player_sends:
  "lc_IsConnected tcp c \<Longrightarrow> fst (lc_player mid type content tcp sent t1 t2 role name server extra ip cb c) =
   (sent, [(mid, RecordMsg (player_record (fst (lc_GenerateLogId t1 c)) t2 type role name server content extra ip))])"
  by (simp add: lc_player_def lc_SendMessage_def lc_IsConnected_def lc_GenerateLogId_def)

lemma record_request_read:
  assumes "sscanf 256 fmt x = Ret ps" and "packet_msg p = Some (RecordMsg r)" and "lr_extra_data r = x" and "x \<noteq> ''''"
  shows "record_request ack fmt act p s =
    Ret ((True, [(conn_id p, ack, SendLogAck (if fst (act r ps s) then 0 else 1) (lr_log_id r))]), snd (act r ps s))"
  using assms by (simp add: record_request_def case_prod_beta)

text \<open>
  C13. What a player did arrives. A log in, a recharge, an expense, a change of items or the result of a battle that a
  connected client reports is recorded by the server exactly as if the server had been told directly, with a number and a
  time of its own; the reason of an expense or of a change must be one word, not empty, of at most 180 characters.
\<close>

theorem client_records_arrive:
  assumes "readable_event ev" and "lc_IsConnected tcp c"
    and "fst (client_reports tcp sent t1 t2 role name server ev cb c) = (ok, ms)"
  shows "length ms = 1 \<and>
    (\<exists>ack. log_dispatch u1 u2 (packet_of conn (hd ms)) s = Ret ((True, [ack]), snd (server_logs u1 u2 role name server ev s)))"
proof -
  have texts: "recharge_text a b \<noteq> ''''" "consume_text a b r \<noteq> ''''" "item_text a b d r \<noteq> ''''" "battle_text a b d \<noteq> ''''" for a b d r
    by (simp_all add: recharge_text_def consume_text_def item_text_def battle_text_def snprintf_def)
  show ?thesis
  proof (cases ev)
    case (EvLogin ip b)
    have "LOG_LOGIN \<noteq> LOG_LOGOUT" by (simp add: LOG_LOGIN_def LOG_LOGOUT_def)
    then show ?thesis using assms(2,3)
      by (auto simp: EvLogin lc_LogLogin_def lc_player_sends log_dispatch_def HandleLogLoginReq_def case_prod_beta)
  next
    case (EvRecharge a b)
    then show ?thesis using assms texts
      by (auto simp: lc_LogRecharge_def lc_player_sends log_dispatch_def HandleLogRechargeReq_def record_request_read [OF recharge_scanned]
          number_at_def)
  next
    case (EvConsume a b r)
    then show ?thesis using assms texts
      by (auto simp: lc_LogConsume_def lc_player_sends log_dispatch_def HandleLogConsumeReq_def record_request_read [OF consume_scanned]
          number_at_def text_at_def)
  next
    case (EvItem a b d r)
    then show ?thesis using assms texts
      by (auto simp: lc_LogItem_def lc_player_sends log_dispatch_def HandleLogItemReq_def record_request_read [OF item_scanned]
          number_at_def text_at_def)
  next
    case (EvBattle a b d)
    then show ?thesis using assms texts
      by (auto simp: lc_LogBattle_def lc_player_sends log_dispatch_def HandleLogBattleReq_def record_request_read [OF battle_scanned]
          number_at_def)
  qed
qed

text \<open>
  A trade is lost. The client sends a trade with the number of a change of items, and the server, which finds none of
  its fields, records a change of no items for no reason.
\<close>

theorem trade_recorded_as_no_items:
  assumes "lc_IsConnected tcp c" and "fst (lc_LogTrade tcp sent t1 t2 role name server target target_name items cb c) = (ok, ms)"
  shows "length ms = 1 \<and> (\<exists>ack. log_dispatch u1 u2 (packet_of conn (hd ms)) s =
    Ret ((True, [ack]), snd (LogItem u1 u2 role name server 0 0 0 '''' s)))"
proof -
  have t: "\<exists>xs. trade_text target target_name items = CHR ''t'' # xs" by (simp add: trade_text_def snprintf_def)
  then have "sscanf 256 ''item_id=%d,count=%d,type=%d,reason=%s'' (trade_text target target_name items) = Ret []"
    by (auto simp: sscanf_def c_str_def is_space_def)
  then show ?thesis using assms t
    by (auto simp: lc_LogTrade_def lc_player_sends log_dispatch_def HandleLogItemReq_def record_request_read number_at_def text_at_def)
qed

text \<open>A word that does not fit the array of 256 characters: a message of another client writes past its end.\<close>

lemma long_reason_overflows:
  assumes "packet_msg p = Some (RecordMsg r)" and "lr_extra_data r = ''type=1,amount=1,reason='' @ w" and "256 \<le> length w"
    and "\<forall>c \<in> set w. \<not> is_space c" and "CHR 0x00 \<notin> set w"
  shows "HandleLogConsumeReq t1 t2 p s = Fault OutOfRange"
proof -
  have "to_dec 1 = ''1''" by (simp add: to_dec_def) (subst dec_nat.simps, simp add: char_of_eq_iff)
  then have n: "scan 256 (Dec # ds) (CHR ''1'' # CHR '','' # cs) = bindO (scan 256 ds (CHR '','' # cs)) (\<lambda>ps. Ret (Number 1 # ps))" for ds cs
    using scan_dec [of 1 "CHR '','' # cs" 256 ds] by (simp add: in_i32_def is_digit_def del: scan.simps(3,4))
  have w: "w \<noteq> ''''" using assms(3) by auto
  then have "dropWhile is_space w = w" using assms(4) by (intro dropWhile_hd) simp_all
  moreover have tw: "takeWhile (\<lambda>c. \<not> is_space c) w = w" using assms(4) by (simp add: takeWhile_eq_all_conv)
  ultimately have "scan 256 [Word] w = Fault OutOfRange" using assms(3) w by (simp add: Let_def tw)
  moreover have "c_str (''type=1,amount=1,reason='' @ w) = ''type=1,amount=1,reason='' @ w" using assms(5) by (intro c_str_id) simp
  ultimately have "sscanf 256 ''type=%d,amount=%d,reason=%s'' (''type=1,amount=1,reason='' @ w) = Fault OutOfRange"
    by (simp add: sscanf_def is_space_def n del: scan.simps(3,4))
  then show ?thesis using assms(1,2) by (simp add: HandleLogConsumeReq_def record_request_def)
qed

text \<open>The numbers grow as long as the clock does not go back.\<close>

lemma log_ids_grow:
  "t \<le> u \<Longrightarrow> fst (GenerateLogId t s) < fst (GenerateLogId u (snd (GenerateLogId t s)))"
  by (simp add: GenerateLogId_def)

section \<open>The queue\<close>

text \<open>
  What may happen: records are pushed, numbers are drawn, the server is told to stop, the thread takes a step. The lists are
  the records pushed and the records handed to \<^verbatim>\<open>WriteLog\<close>.
\<close>

inductive log_reach :: "log_env \<Rightarrow> LogRecord list \<Rightarrow> LogRecord list \<Rightarrow> worker \<Rightarrow> LogServer \<Rightarrow> bool" for env where
  log_start: "log_reach env [] [] Top log_init"
| log_push: "log_reach env ps ws w s \<Longrightarrow> log_reach env (ps @ [r]) ws w (snd (WriteLogAsync r s))"
| log_id: "log_reach env ps ws w s \<Longrightarrow> log_reach env ps ws w (snd (GenerateLogId t s))"
| log_stop: "log_reach env ps ws w s \<Longrightarrow> log_reach env ps ws w (s\<lparr>log_stop_flag := True\<rparr>)"
| log_work: "log_reach env ps ws w s \<Longrightarrow> worker_step env w s = Some (w', ws', s') \<Longrightarrow> log_reach env ps (ws @ ws') w' s'"

primrec in_batch :: "worker \<Rightarrow> LogRecord list" where
  "in_batch Top = []"
| "in_batch Waiting = []"
| "in_batch (Writing rs) = rs"
| "in_batch Ended = []"

lemma WriteLog_queue [simp]: "log_queue (snd (WriteLog env r s)) = log_queue s" "log_stop_flag (snd (WriteLog env r s)) = log_stop_flag s"
  by (simp_all add: WriteLog_def WriteToFile_def Let_def)

lemma worker_step_queue:
  assumes "worker_step env w s = Some (w', ws', s')"
  shows "in_batch w @ log_queue s = ws' @ in_batch w' @ log_queue s'"
proof (cases w)
  case (Writing rs)
  with assms show ?thesis by (cases rs) (auto simp: worker_step_def)
qed (use assms in \<open>auto simp: worker_step_def split: if_splits\<close>)

text \<open>What is in the files when the records \<open>ws\<close> have been handed to \<^verbatim>\<open>WriteLog\<close>.\<close>

definition file_of :: "log_env \<Rightarrow> LogRecord \<Rightarrow> string" where
  "file_of env r = ''logs/'' @ GetLogFileName env (lr_type r) (lr_log_time r)"

definition file_text :: "log_env \<Rightarrow> LogRecord list \<Rightarrow> string \<Rightarrow> string" where
  "file_text env ws path = (if opens env path then concat (map (log_line env) (filter (\<lambda>r. file_of env r = path) ws)) else '''')"

definition files_hold :: "log_env \<Rightarrow> LogRecord list \<Rightarrow> LogServer \<Rightarrow> bool" where
  "files_hold env ws s \<longleftrightarrow>
     log_dir s = ''logs'' \<and> (\<forall>path b. map_of (file_handles s) path = Some b \<longrightarrow> b = opens env path) \<and>
     (\<forall>path. entry (log_files s) path = file_text env ws path)"

lemma WriteLog_files: "files_hold env ws s \<Longrightarrow> files_hold env (ws @ [r]) (snd (WriteLog env r s))"
proof -
  assume h: "files_hold env ws s"
  let ?p = "file_of env r"
  have p: "log_dir s @ ''/'' @ GetLogFileName env (lr_type r) (lr_log_time r) = ?p" using h by (simp add: files_hold_def file_of_def)
  have d: "log_dir s = ''logs''" and b: "\<And>path b. map_of (file_handles s) path = Some b \<Longrightarrow> b = opens env path"
    and t: "\<And>path. entry (log_files s) path = file_text env ws path" using h by (simp_all add: files_hold_def)
  show ?thesis
    using d b t unfolding files_hold_def WriteLog_def WriteToFile_def p Let_def
    by (cases "map_of (file_handles s) ?p") (auto simp: file_text_def update_conv')
qed

lemma worker_step_files: "files_hold env ws s \<Longrightarrow> worker_step env w s = Some (w', ws', s') \<Longrightarrow> files_hold env (ws @ ws') s'"
proof (cases w)
  case (Writing rs)
  assume h: "files_hold env ws s" and st: "worker_step env w s = Some (w', ws', s')"
  show ?thesis
  proof (cases rs)
    case (Cons r rs')
    with st Writing WriteLog_files [OF h, of r] show ?thesis by (auto simp: worker_step_def)
  qed (use h st Writing in \<open>simp add: worker_step_def\<close>)
qed (auto simp: worker_step_def files_hold_def split: if_splits)

text \<open>
  C36. No record is lost, repeated or moved. Whatever is pushed while the thread works, and whenever it is stopped, the records
  pushed so far are, in this order, those \<open>ws\<close> it has handed to \<^verbatim>\<open>WriteLog\<close>, the rest of its batch, and the queue; and each
  file holds, in this order, the lines of those records of \<open>ws\<close> that belong to it, or nothing if it could not be opened.
\<close>

theorem records_written_in_order:
  assumes "log_reach env ps ws w s"
  shows "ps = ws @ in_batch w @ log_queue s \<and> (\<forall>path. entry (log_files s) path = file_text env ws path)"
proof -
  have "ps = ws @ in_batch w @ log_queue s"
    using assms
  proof induction
    case (log_work ps ws w s w' ws' s')
    with worker_step_queue [OF log_work.hyps(2)] show ?case by simp
  qed (simp_all add: log_init_def WriteLogAsync_def GenerateLogId_def)
  moreover have "files_hold env ws s"
    using assms
  proof induction
    case (log_work ps ws w s w' ws' s')
    then show ?case by (intro worker_step_files)
  qed (simp_all add: files_hold_def file_text_def log_init_def WriteLogAsync_def GenerateLogId_def)
  ultimately show ?thesis by (simp add: files_hold_def)
qed

primrec run_worker :: "log_env \<Rightarrow> nat \<Rightarrow> worker \<times> LogRecord list \<times> LogServer \<Rightarrow> worker \<times> LogRecord list \<times> LogServer" where
  "run_worker env 0 x = x"
| "run_worker env (Suc n) x =
     (let (w, ws, s) = x in
      case worker_step env w s of None \<Rightarrow> x | Some (w', ws', s') \<Rightarrow> run_worker env n (w', ws @ ws', s'))"

lemma run_worker_add: "run_worker env (m + n) x = run_worker env n (run_worker env m x)"
proof (induction m arbitrary: x)
  case (Suc m)
  have stuck: "worker_step env w s = None \<Longrightarrow> run_worker env n (w, ws, s) = (w, ws, s)" for n w ws s by (induction n) auto
  obtain w ws s where x: "x = (w, ws, s)" by (cases x)
  show ?case
  proof (cases "worker_step env w s")
    case None
    then show ?thesis using stuck by (simp add: x)
  next
    case (Some y)
    then show ?thesis using Suc by (simp add: x split: prod.splits)
  qed
qed simp

lemma batch_written:
  "\<exists>n s'. run_worker env n (Writing rs, ws, s) = (Top, ws @ rs, s') \<and> log_queue s' = log_queue s \<and> log_stop_flag s' = log_stop_flag s"
proof (induction rs arbitrary: ws s)
  case Nil
  show ?case by (intro exI [of _ 1]) (simp add: worker_step_def)
next
  case (Cons r rs)
  from Cons.IH [of "ws @ [r]" "snd (WriteLog env r s)"] obtain n s' where
    "run_worker env n (Writing rs, ws @ [r], snd (WriteLog env r s)) = (Top, (ws @ [r]) @ rs, s')"
    "log_queue s' = log_queue s" "log_stop_flag s' = log_stop_flag s" by auto
  then show ?case by (intro exI [of _ "Suc n"]) (auto simp: worker_step_def)
qed

text \<open>
  C14. A thread that runs empties the queue: when no one stops it, it hands every record of the queue to \<^verbatim>\<open>WriteLog\<close>, in
  order, and comes to wait for more. A thread that is stopped at the head of its loop ends with the queue as it is.
\<close>

theorem queue_is_emptied:
  assumes "\<not> log_stop_flag s"
  shows "\<exists>n s'. run_worker env n (Top, ws, s) = (Waiting, ws @ log_queue s, s') \<and> log_queue s' = []"
  using assms
proof (induction "length (log_queue s)" arbitrary: s ws rule: less_induct)
  case less
  show ?case
  proof (cases "log_queue s = []")
    case True
    with less.prems show ?thesis by (intro exI [of _ 1]) (simp add: worker_step_def)
  next
    case False
    let ?rs = "take 100 (log_queue s)" and ?s = "s\<lparr>log_queue := drop 100 (log_queue s)\<rparr>"
    obtain n s1 where n: "run_worker env n (Writing ?rs, ws, ?s) = (Top, ws @ ?rs, s1)" "log_queue s1 = drop 100 (log_queue s)"
      "\<not> log_stop_flag s1" using batch_written [of env ?rs ws ?s] less.prems by auto
    have "length (log_queue s1) < length (log_queue s)" using False n(2) by (cases "log_queue s") auto
    from less.hyps [OF this n(3), of "ws @ ?rs"] obtain m s2 where
      m: "run_worker env m (Top, ws @ ?rs, s1) = (Waiting, ws @ log_queue s, s2)" "log_queue s2 = []" by (auto simp: n(2))
    have "run_worker env 2 (Top, ws, s) = (Writing ?rs, ws, ?s)" using False less.prems by (simp add: numeral_2_eq_2 worker_step_def)
    then have "run_worker env ((2 + n) + m) (Top, ws, s) = (Waiting, ws @ log_queue s, s2)" by (simp only: run_worker_add n m)
    with m(2) show ?thesis by blast
  qed
qed

lemma stopped_thread_leaves: "log_stop_flag s \<Longrightarrow> worker_step env Top s = Some (Ended, [], s)"
  by (simp add: worker_step_def)

text \<open>A file that did not open is never opened again.\<close>

lemma unopened_stays:
  assumes "map_of (file_handles s) (log_dir s @ ''/'' @ GetLogFileName env (lr_type r) (lr_log_time r)) = Some False"
  shows "WriteToFile env r s = (False, s)"
  using assms by (simp add: WriteToFile_def Let_def)

section \<open>Examples\<close>

definition sample_log_env :: log_env where
  "sample_log_env = \<lparr>opens = \<lambda>_. True, day_text = \<lambda>_. ''20260101'', time_text = \<lambda>_. ''now''\<rparr>"

definition sample_log_client :: "unit LogClient" where
  "sample_log_client = \<lparr>lc_server_id = 1, lc_connected = True, lc_counter = 0, lc_callbacks = []\<rparr>"

abbreviation sample_tcp :: TcpClient where
  "sample_tcp \<equiv> \<lparr>has_socket = True, tcp_connected = True\<rparr>"

lemma sample_client_connected [simp]: "lc_IsConnected sample_tcp sample_log_client"
  by (simp add: lc_IsConnected_def sample_log_client_def)

theorem client_records_arrive_witness:
  "\<exists>ack. log_dispatch 7 8 (packet_of 3 (hd (snd (fst (client_reports sample_tcp True 5 6 9 ''ann'' 1 (EvConsume 1 (- 20) ''shop'') None sample_log_client)))))
      log_init = Ret ((True, [ack]), snd (LogConsume 7 8 9 ''ann'' 1 1 (- 20) ''shop'' log_init))"
proof -
  obtain ok ms where r: "fst (client_reports sample_tcp True 5 6 9 ''ann'' 1 (EvConsume 1 (- 20) ''shop'') None sample_log_client) = (ok, ms)"
    by fastforce
  have e: "readable_event (EvConsume 1 (- 20) ''shop'')" by (simp add: plain_reason_def in_i32_def is_space_def)
  from client_records_arrive [OF e sample_client_connected r, of 7 8 3 log_init] r show ?thesis by simp
qed

theorem trade_recorded_as_no_items_witness:
  "\<exists>ack. log_dispatch 7 8 (packet_of 3 (hd (snd (fst (lc_LogTrade sample_tcp True 5 6 9 ''ann'' 1 4 ''bob'' ''sword'' None sample_log_client)))))
      log_init = Ret ((True, [ack]), snd (LogItem 7 8 9 ''ann'' 1 0 0 0 '''' log_init))"
proof -
  obtain ok ms where r: "fst (lc_LogTrade sample_tcp True 5 6 9 ''ann'' 1 4 ''bob'' ''sword'' None sample_log_client) = (ok, ms)"
    by fastforce
  from trade_recorded_as_no_items [OF sample_client_connected r, of 7 8 3 log_init] r show ?thesis by simp
qed

theorem records_written_in_order_witness:
  "\<exists>s. log_reach sample_log_env [player_record 1 2 0 3 ''ann'' 1 ''in'' '''' ''''] [player_record 1 2 0 3 ''ann'' 1 ''in'' '''' ''''] (Writing []) s \<and>
     entry (log_files s) ''logs/login_20260101.log'' = ''[now] [0] [1] [server:1] [role:3] in'' @ [CHR 0x0A]"
proof -
  let ?r = "player_record 1 2 0 3 ''ann'' 1 ''in'' '''' ''''"
  let ?s = "snd (WriteLogAsync ?r log_init)"
  have "log_reach sample_log_env ([] @ [?r]) [] Top ?s" by (intro log_push log_start)
  from log_work [OF this, of Waiting "[]" ?s] have "log_reach sample_log_env [?r] [] Waiting ?s"
    by (simp add: worker_step_def WriteLogAsync_def log_init_def)
  from log_work [OF this, of "Writing [?r]" "[]" "?s\<lparr>log_queue := []\<rparr>"]
  have "log_reach sample_log_env [?r] [] (Writing [?r]) (?s\<lparr>log_queue := []\<rparr>)"
    by (simp add: worker_step_def WriteLogAsync_def log_init_def)
  define s2 where "s2 = snd (WriteLog sample_log_env ?r (?s\<lparr>log_queue := []\<rparr>))"
  have "worker_step sample_log_env (Writing [?r]) (?s\<lparr>log_queue := []\<rparr>) = Some (Writing [], [?r], s2)"
    by (simp add: worker_step_def s2_def)
  from log_work [OF \<open>log_reach sample_log_env [?r] [] (Writing [?r]) (?s\<lparr>log_queue := []\<rparr>)\<close> this]
  have r: "log_reach sample_log_env [?r] [?r] (Writing []) s2" by simp
  have "entry (log_files s2) ''logs/login_20260101.log'' = file_text sample_log_env [?r] ''logs/login_20260101.log''"
    using records_written_in_order [OF r] by blast
  moreover have "file_text sample_log_env [?r] ''logs/login_20260101.log'' = ''[now] [0] [1] [server:1] [role:3] in'' @ [CHR 0x0A]"
    by code_simp
  ultimately show ?thesis using r by (intro exI [of _ s2]) simp
qed

theorem queue_is_emptied_witness:
  "\<exists>n s'. run_worker sample_log_env n (Top, [], snd (WriteLogAsync (player_record 1 2 0 3 ''ann'' 1 ''in'' '''' '''') log_init)) =
    (Waiting, [player_record 1 2 0 3 ''ann'' 1 ''in'' '''' ''''], s') \<and> log_queue s' = []"
  using queue_is_emptied [of "snd (WriteLogAsync (player_record 1 2 0 3 ''ann'' 1 ''in'' '''' '''') log_init)" sample_log_env "[]"]
  by (simp add: WriteLogAsync_def log_init_def)

end
