(* ===== verification/Monitor.thy ===== *)
theory Monitor
  imports Runtime Float32 "HOL-Library.Signed_Division"
begin

text \<open>
  The monitor server, \<open>monitor_server/monitor_server.cc\<close>: the last report of every server and the history of its reports,
  alerts, commands, and the small web interface. Each of its three mutexes is held for the body of a method; the checks
  of the timer hold the one of the reports and take the one of the alerts for every alert, always in this order. A
  \<^verbatim>\<open>double\<close> is a number, an infinity or not a number; nothing is computed with it.
\<close>

section \<open>Reports, alerts, commands\<close>

datatype MonitorServerStatus = MS_UNKNOWN | MS_ONLINE | MS_OFFLINE | MS_BUSY | MS_ERROR

record ServerPerfData =
  pd_server_id :: i32
  pd_server_name :: string
  pd_server_type :: i32
  pd_status :: MonitorServerStatus
  pd_online_count :: i32
  pd_max_online :: i32
  pd_cpu_usage :: f32
  pd_memory_usage :: f32
  pd_network_in :: i32
  pd_network_out :: i32
  pd_message_queue_size :: i32
  pd_db_query_count :: i32
  pd_db_query_time :: i32
  pd_update_time :: time_t

datatype AlertType = CPU_HIGH | MEMORY_HIGH | NETWORK_HIGH | ONLINE_HIGH | SERVER_DOWN | DB_SLOW

text \<open>The time an alert was handled is \<open>None\<close> as long as nothing has set it.\<close>

record AlertInfo =
  al_id :: i32
  al_type :: AlertType
  al_server_id :: i32
  al_message :: string
  al_time :: time_t
  al_handled :: bool
  al_handler :: string
  al_handle_time :: "time_t option"

datatype ControlCommand = CMD_START | CMD_STOP | CMD_RESTART | CMD_RELOAD | CMD_KICK_ALL | CMD_BROADCAST | CMD_MAINTENANCE

record CommandResult =
  cr_command_id :: i32
  cr_command :: ControlCommand
  cr_server_id :: i32
  cr_success :: bool
  cr_message :: string
  cr_execute_time :: time_t

record MonitorServer =
  server_status :: "(i32 \<times> ServerPerfData) list"
  alerts :: "AlertInfo list"
  command_results :: "(i32 \<times> CommandResult) list"
  perf_history :: "(i32 \<times> ServerPerfData list) list"
  mon_running :: bool
  cpu_threshold :: f32
  memory_threshold :: f32
  online_threshold :: i32
  next_alert_id :: i32
  next_command_id :: i32

definition monitor_start :: MonitorServer where
  "monitor_start =
     \<lparr>server_status = [], alerts = [], command_results = [], perf_history = [], mon_running = False, cpu_threshold = Fin 80,
      memory_threshold = Fin 80, online_threshold = 90, next_alert_id = 1, next_command_id = 1\<rparr>"

definition Start :: "MonitorServer \<Rightarrow> bool \<times> MonitorServer" where "Start s = (True, s\<lparr>mon_running := True\<rparr>)"
definition Stop :: "MonitorServer \<Rightarrow> MonitorServer" where "Stop s = s\<lparr>mon_running := False\<rparr>"
definition IsRunning :: "MonitorServer \<Rightarrow> bool" where "IsRunning s = mon_running s"

section \<open>Reports\<close>

definition UpdateServerStatus :: "time_t \<Rightarrow> ServerPerfData \<Rightarrow> MonitorServer \<Rightarrow> bool \<times> MonitorServer" where
  "UpdateServerStatus now data s =
     (let d = (if pd_update_time data = 0 then data\<lparr>pd_update_time := now\<rparr> else data); k = pd_server_id d in
      (True, s\<lparr>server_status := AList.update k d (server_status s),
               perf_history := AList.update k (push_capped 1000 d (entry (perf_history s) k)) (perf_history s)\<rparr>))"

definition GetServerStatus :: "i32 \<Rightarrow> MonitorServer \<Rightarrow> ServerPerfData option" where
  "GetServerStatus k s = map_of (server_status s) k"

definition GetAllServerStatus :: "MonitorServer \<Rightarrow> ServerPerfData list" where
  "GetAllServerStatus s = map snd (server_status s)"

definition GetOnlineTrend :: "i32 \<Rightarrow> MonitorServer \<Rightarrow> (time_t \<times> i32) list option" where
  "GetOnlineTrend k s = map_option (map (\<lambda>d. (pd_update_time d, pd_online_count d))) (map_of (perf_history s) k)"

definition GetPerformanceHistory :: "i32 \<Rightarrow> MonitorServer \<Rightarrow> ServerPerfData list option" where
  "GetPerformanceHistory k s = map_of (perf_history s) k"

section \<open>Alerts\<close>

definition GenerateAlertId :: "MonitorServer \<Rightarrow> (i32 \<times> MonitorServer) outcome" where
  "GenerateAlertId s = bindO (add32 (next_alert_id s) 1) (\<lambda>n. Ret (next_alert_id s, s\<lparr>next_alert_id := n\<rparr>))"

definition GenerateCommandId :: "MonitorServer \<Rightarrow> (i32 \<times> MonitorServer) outcome" where
  "GenerateCommandId s = bindO (add32 (next_command_id s) 1) (\<lambda>n. Ret (next_command_id s, s\<lparr>next_command_id := n\<rparr>))"

definition AddAlert :: "AlertInfo \<Rightarrow> MonitorServer \<Rightarrow> (bool \<times> MonitorServer) outcome" where
  "AddAlert a s =
     bindO (if al_id a = 0 then GenerateAlertId s else Ret (al_id a, s)) (\<lambda>(i, s1).
       Ret (True, s1\<lparr>alerts := alerts s1 @ [a\<lparr>al_id := i\<rparr>]\<rparr>))"

definition GetAlerts :: "bool \<Rightarrow> MonitorServer \<Rightarrow> AlertInfo list" where
  "GetAlerts include_handled s = filter (\<lambda>a. include_handled \<or> \<not> al_handled a) (alerts s)"

definition HandleAlert :: "time_t \<Rightarrow> i32 \<Rightarrow> string \<Rightarrow> MonitorServer \<Rightarrow> bool \<times> MonitorServer" where
  "HandleAlert now i handler s =
     (if list_ex (\<lambda>a. al_id a = i) (alerts s)
      then (True, s\<lparr>alerts := upd_first (\<lambda>a. al_id a = i)
                     (\<lambda>a. a\<lparr>al_handled := True, al_handler := handler, al_handle_time := Some now\<rparr>) (alerts s)\<rparr>)
      else (False, s))"

definition ClearAlerts :: "MonitorServer \<Rightarrow> bool \<times> MonitorServer" where
  "ClearAlerts s = (True, s\<lparr>alerts := []\<rparr>)"

section \<open>Commands\<close>

definition SendCommand :: "time_t \<Rightarrow> i32 \<Rightarrow> ControlCommand \<Rightarrow> MonitorServer \<Rightarrow> (i32 \<times> MonitorServer) outcome" where
  "SendCommand now server cmd s =
     bindO (GenerateCommandId s) (\<lambda>(i, s1).
       Ret (i, s1\<lparr>command_results := AList.update i
         \<lparr>cr_command_id = i, cr_command = cmd, cr_server_id = server, cr_success = True, cr_message = ''Command sent successfully'',
          cr_execute_time = now\<rparr> (command_results s1)\<rparr>))"

definition GetCommandResult :: "i32 \<Rightarrow> MonitorServer \<Rightarrow> CommandResult option" where
  "GetCommandResult i s = map_of (command_results s) i"

section \<open>The checks of the timer\<close>

text \<open>
  \<^verbatim>\<open>std::to_string(double)\<close> prints six digits after the point, \<^verbatim>\<open>operator<<\<close> of a stream six significant digits without
  trailing zeros, with an exponent from \<open>10\<^sup>6\<close> on and below \<open>10\<^sup>-\<^sup>4\<close>. Both round the exact value to the nearest decimal.
\<close>

definition pad_left :: "nat \<Rightarrow> string \<Rightarrow> string" where
  "pad_left n s = replicate (n - length s) (CHR ''0'') @ s"

fun to_string_double :: "f32 \<Rightarrow> string" where
  "to_string_double NaN = ''nan''"
| "to_string_double (Inf neg) = (if neg then ''-inf'' else ''inf'')"
| "to_string_double (Fin x) =
     (let m = nat (nearest (\<bar>x\<bar> * 1000000)) in
      (if x < 0 then ''-'' else '''') @ dec_nat (m div 1000000) @ ''.'' @ pad_left 6 (dec_nat (m mod 1000000)))"

definition pow10 :: "int \<Rightarrow> rat" where
  "pow10 e = (if 0 \<le> e then 10 ^ nat e else 1 / 10 ^ nat (- e))"

definition ilog10 :: "rat \<Rightarrow> int" where
  "ilog10 x = (if 1 \<le> x then int (length (dec_nat (nat \<lfloor>x\<rfloor>))) - 1
               else - int (length (dec_nat (nat (\<lceil>1 / x\<rceil> - 1)))))"

definition fraction_part :: "string \<Rightarrow> string" where
  "fraction_part ds =
     (let f = rev (dropWhile (\<lambda>c. c = CHR ''0'') (rev ds)) in if f = [] then [] else ''.'' @ f)"

fun stream_double :: "f32 \<Rightarrow> string" where
  "stream_double NaN = ''nan''"
| "stream_double (Inf neg) = (if neg then ''-inf'' else ''inf'')"
| "stream_double (Fin x) =
     (if x = 0 then ''0'' else
      let e0 = ilog10 \<bar>x\<bar>; m0 = nat (nearest (\<bar>x\<bar> / pow10 (e0 - 5)));
          (m, e) = (if m0 = 1000000 then (100000, e0 + 1) else (m0, e0)); ds = dec_nat m in
      (if x < 0 then ''-'' else '''') @
      (if e < - 4 \<or> 6 \<le> e
       then take 1 ds @ fraction_part (drop 1 ds) @ (if e < 0 then ''e-'' else ''e+'') @ pad_left 2 (dec_nat (nat \<bar>e\<bar>))
       else if 0 \<le> e then take (nat e + 1) ds @ fraction_part (drop (nat e + 1) ds)
       else ''0'' @ fraction_part (replicate (nat (- e) - 1) (CHR ''0'') @ ds)))"

text \<open>An alert of the checks: its identifier is drawn before \<^verbatim>\<open>AddAlert\<close>, which keeps it unless it is zero.\<close>

definition new_alert :: "i32 \<Rightarrow> AlertType \<Rightarrow> i32 \<Rightarrow> string \<Rightarrow> time_t \<Rightarrow> AlertInfo" where
  "new_alert i ty k msg now =
     \<lparr>al_id = i, al_type = ty, al_server_id = k, al_message = msg, al_time = now, al_handled = False, al_handler = '''',
      al_handle_time = None\<rparr>"

definition raise_alert :: "AlertType \<Rightarrow> i32 \<Rightarrow> string \<Rightarrow> time_t \<Rightarrow> MonitorServer \<Rightarrow> MonitorServer outcome" where
  "raise_alert ty k msg now s =
     bindO (GenerateAlertId s) (\<lambda>(i, s1). bindO (AddAlert (new_alert i ty k msg now) s1) (\<lambda>(r, s2). Ret s2))"

definition f32_gt :: "f32 \<Rightarrow> f32 \<Rightarrow> bool" where
  "f32_gt x y \<longleftrightarrow> x \<noteq> NaN \<and> y \<noteq> NaN \<and> \<not> f32_le x y"

definition online_too_high :: "i32 \<Rightarrow> ServerPerfData \<Rightarrow> bool outcome" where
  "online_too_high threshold d =
     (if pd_max_online d > 0
      then bindO (mul32 (pd_online_count d) 100) (\<lambda>p. Ret (p sdiv pd_max_online d > threshold))
      else Ret False)"

definition check_report :: "time_t \<Rightarrow> ServerPerfData \<Rightarrow> MonitorServer \<Rightarrow> MonitorServer outcome" where
  "check_report now d s =
     bindO (if f32_gt (pd_cpu_usage d) (cpu_threshold s)
            then raise_alert CPU_HIGH (pd_server_id d)
                   (''CPU usage too high: '' @ to_string_double (pd_cpu_usage d) @ ''%'') now s
            else Ret s) (\<lambda>s1.
     bindO (if f32_gt (pd_memory_usage d) (memory_threshold s1)
            then raise_alert MEMORY_HIGH (pd_server_id d)
                   (''Memory usage too high: '' @ to_string_double (pd_memory_usage d) @ ''%'') now s1
            else Ret s1) (\<lambda>s2.
     bindO (online_too_high (online_threshold s2) d) (\<lambda>high.
       if high
       then raise_alert ONLINE_HIGH (pd_server_id d)
              (''Online count too high: '' @ to_dec (pd_online_count d) @ ''/'' @ to_dec (pd_max_online d)) now s2
       else Ret s2)))"

definition CheckAlerts :: "time_t \<Rightarrow> MonitorServer \<Rightarrow> MonitorServer outcome" where
  "CheckAlerts now s = fold_outcome (\<lambda>(k, d). check_report now d) (server_status s) s"

definition silent :: "time_t \<Rightarrow> ServerPerfData \<Rightarrow> bool" where
  "silent now d \<longleftrightarrow> now - pd_update_time d > 30"

definition check_silence :: "time_t \<Rightarrow> i32 \<times> ServerPerfData \<Rightarrow> MonitorServer \<Rightarrow> MonitorServer outcome" where
  "check_silence now p s =
     (if silent now (snd p)
      then raise_alert SERVER_DOWN (fst p) (''Server offline: '' @ pd_server_name (snd p)) now
             (s\<lparr>server_status := AList.update (fst p) ((snd p)\<lparr>pd_status := MS_OFFLINE\<rparr>) (server_status s)\<rparr>)
      else Ret s)"

definition CheckServerStatus :: "time_t \<Rightarrow> MonitorServer \<Rightarrow> MonitorServer outcome" where
  "CheckServerStatus now s = fold_outcome (check_silence now) (server_status s) s"

text \<open>Each check reads the clock itself.\<close>

definition OnTimer :: "time_t \<Rightarrow> time_t \<Rightarrow> MonitorServer \<Rightarrow> MonitorServer outcome" where
  "OnTimer now1 now2 s = bindO (CheckServerStatus now1 s) (CheckAlerts now2)"

section \<open>The web interface\<close>

primrec type_code :: "AlertType \<Rightarrow> i32" where
  "type_code CPU_HIGH = 1"
| "type_code MEMORY_HIGH = 2"
| "type_code NETWORK_HIGH = 3"
| "type_code ONLINE_HIGH = 4"
| "type_code SERVER_DOWN = 5"
| "type_code DB_SLOW = 6"

primrec status_code :: "MonitorServerStatus \<Rightarrow> i32" where
  "status_code MS_UNKNOWN = 0"
| "status_code MS_ONLINE = 1"
| "status_code MS_OFFLINE = 2"
| "status_code MS_BUSY = 3"
| "status_code MS_ERROR = 4"

fun separated :: "string \<Rightarrow> string list \<Rightarrow> string" where
  "separated sep [] = []"
| "separated sep [x] = x"
| "separated sep (x # xs) = x @ sep @ separated sep xs"

definition server_json :: "ServerPerfData \<Rightarrow> string" where
  "server_json d =
     ''{\"server_id\":'' @ to_dec (pd_server_id d) @ '',\"server_name\":\"'' @ pd_server_name d @
     ''\",\"server_type\":'' @ to_dec (pd_server_type d) @ '',\"status\":'' @ to_dec (status_code (pd_status d)) @
     '',\"online_count\":'' @ to_dec (pd_online_count d) @ '',\"cpu_usage\":'' @ stream_double (pd_cpu_usage d) @
     '',\"memory_usage\":'' @ stream_double (pd_memory_usage d) @ ''}''"

definition alert_json :: "AlertInfo \<Rightarrow> string" where
  "alert_json a =
     ''{\"alert_id\":'' @ to_dec (al_id a) @ '',\"type\":'' @ to_dec (type_code (al_type a)) @ '',\"server_id\":'' @
     to_dec (al_server_id a) @ '',\"message\":\"'' @ al_message a @ ''\",\"alert_time\":'' @ to_dec (al_time a) @ ''}''"

definition HandleWebRequest :: "string \<Rightarrow> MonitorServer \<Rightarrow> string" where
  "HandleWebRequest path s =
     (if path = ''/api/servers''
      then ''{\"servers\":['' @ separated '','' (map server_json (GetAllServerStatus s)) @ '']}''
      else if path = ''/api/alerts''
      then ''{\"alerts\":['' @ separated '','' (map alert_json (GetAlerts False s)) @ '']}''
      else if path = ''/api/command'' then ''{\"result\":0,\"message\":\"Command sent\"}''
      else ''{\"error\":\"Unknown path\"}'')"

section \<open>Runs\<close>


text \<open>
  Reports, ticks and the requests of operators in any order. Each holds its mutexes while it runs; \<open>now1\<close>, \<open>now2\<close> are
  what the clock says.
\<close>

inductive mon_step :: "MonitorServer \<Rightarrow> MonitorServer \<Rightarrow> bool" where
  report: "mon_step s (snd (UpdateServerStatus now d s))"
| tick: "OnTimer now1 now2 s = Ret s' \<Longrightarrow> mon_step s s'"
| alert: "AddAlert a s = Ret (True, s') \<Longrightarrow> mon_step s s'"
| handled: "mon_step s (snd (HandleAlert now i who s))"
| cleared: "mon_step s (snd (ClearAlerts s))"
| command: "SendCommand now k c s = Ret (i, s') \<Longrightarrow> mon_step s s'"
| started: "mon_step s (snd (Start s))"
| stopped: "mon_step s (Stop s)"

inductive_cases mon_stepE: "mon_step s s'"

text \<open>
  What every report map and history has: a report is kept under its own identifier, and is the last of a history of at most 1000,
  except that a silent server is off line.
\<close>

definition last_of :: "i32 \<Rightarrow> ServerPerfData \<Rightarrow> ServerPerfData list \<Rightarrow> bool" where
  "last_of k d h \<longleftrightarrow>
     pd_server_id d = k \<and> h \<noteq> [] \<and> length h \<le> 1000 \<and> (\<forall>x \<in> set h. pd_server_id x = k) \<and>
     (d = last h \<or> d = (last h)\<lparr>pd_status := MS_OFFLINE\<rparr>)"

definition report_ok :: "MonitorServer \<Rightarrow> i32 \<Rightarrow> bool" where
  "report_ok s k \<longleftrightarrow>
     (case (map_of (server_status s) k, map_of (perf_history s) k) of
        (None, None) \<Rightarrow> True | (Some d, Some h) \<Rightarrow> last_of k d h | _ \<Rightarrow> False)"

lemma last_of_silenced: "last_of k d h \<Longrightarrow> last_of k (d\<lparr>pd_status := MS_OFFLINE\<rparr>) h"
  unfolding last_of_def by (elim conjE disjE) simp_all

definition mon_inv :: "MonitorServer \<Rightarrow> bool" where
  "mon_inv s \<longleftrightarrow> keys_ok (server_status s) \<and> (\<forall>k. report_ok s k)"

lemma raise_alert_parts:
  "raise_alert ty k msg now s = Ret s' \<Longrightarrow> next_alert_id s \<noteq> 0 \<Longrightarrow>
     s' = s\<lparr>alerts := alerts s @ [new_alert (next_alert_id s) ty k msg now], next_alert_id := next_alert_id s + 1\<rparr>"
  by (auto simp: raise_alert_def GenerateAlertId_def AddAlert_def new_alert_def)

lemma raise_alert_keeps:
  "raise_alert ty k msg now s = Ret s' \<Longrightarrow>
     server_status s' = server_status s \<and> perf_history s' = perf_history s \<and> cpu_threshold s' = cpu_threshold s \<and>
     memory_threshold s' = memory_threshold s \<and> online_threshold s' = online_threshold s"
  by (auto simp: raise_alert_def GenerateAlertId_def AddAlert_def split: if_splits)

lemma check_report_keeps:
  "check_report now d s = Ret s' \<Longrightarrow> server_status s' = server_status s \<and> perf_history s' = perf_history s"
  by (auto simp: check_report_def split: if_splits dest!: raise_alert_keeps)

lemma CheckAlerts_keeps:
  assumes "CheckAlerts now s = Ret s'"
  shows "server_status s' = server_status s \<and> perf_history s' = perf_history s"
proof (rule fold_outcome_keeps [OF assms [unfolded CheckAlerts_def]])
  fix x t t'
  assume "(case x of (k, d) \<Rightarrow> check_report now d) t = Ret t'"
    and "server_status t = server_status s \<and> perf_history t = perf_history s"
  then show "server_status t' = server_status s \<and> perf_history t' = perf_history s"
    by (cases x) (auto dest: check_report_keeps)
qed simp

lemma report_ok_cong:
  "server_status s' = server_status s \<Longrightarrow> perf_history s' = perf_history s \<Longrightarrow> mon_inv s' = mon_inv s"
  by (simp add: mon_inv_def report_ok_def)

lemma mon_inv_start: "mon_inv monitor_start"
  by (simp add: mon_inv_def report_ok_def monitor_start_def)

lemma report_history:
  "report_ok s k \<Longrightarrow> length (entry (perf_history s) k) \<le> 1000 \<and> (\<forall>x \<in> set (entry (perf_history s) k). pd_server_id x = k)"
  by (auto simp: report_ok_def last_of_def entry_def split: option.splits)

lemma report_ok_put:
  assumes "report_ok s k" and "k = pd_server_id d"
  shows "report_ok (s\<lparr>server_status := AList.update k d ss, perf_history := AList.update k (push_capped 1000 d (entry (perf_history s) k)) hs\<rparr>) k"
proof -
  define h where "h = push_capped 1000 d (entry (perf_history s) k)"
  have "length h \<le> 1000" using report_history [OF assms(1)] by (simp add: h_def length_push_capped)
  moreover have "set h \<subseteq> insert d (set (entry (perf_history s) k))"
    using push_capped_suffix [of 1000 d "entry (perf_history s) k"] set_drop_subset
    unfolding h_def by (metis list.simps(15) rotate1.simps(2) set_rotate1)
  then have "\<forall>x \<in> set h. pd_server_id x = k" using report_history [OF assms(1)] assms(2) [symmetric] by blast
  moreover have "h \<noteq> [] \<and> last h = d" unfolding h_def by (rule last_push_capped) simp
  ultimately show ?thesis unfolding h_def [symmetric] by (simp add: report_ok_def last_of_def assms(2) [symmetric])
qed

lemma UpdateServerStatus_inv: "mon_inv s \<Longrightarrow> mon_inv (snd (UpdateServerStatus now d s))"
proof -
  assume I: "mon_inv s"
  define d' where "d' = (if pd_update_time d = 0 then d\<lparr>pd_update_time := now\<rparr> else d)"
  define k where "k = pd_server_id d'"
  let ?s = "s\<lparr>server_status := AList.update k d' (server_status s),
              perf_history := AList.update k (push_capped 1000 d' (entry (perf_history s) k)) (perf_history s)\<rparr>"
  have "snd (UpdateServerStatus now d s) = ?s" by (simp add: UpdateServerStatus_def d'_def k_def Let_def)
  moreover have "report_ok ?s j" for j
  proof (cases "j = k")
    case True
    have "report_ok s k" using I by (simp add: mon_inv_def)
    then show ?thesis unfolding True using k_def by (rule report_ok_put)
  next
    case False
    then show ?thesis using I by (auto simp: mon_inv_def report_ok_def)
  qed
  ultimately show ?thesis using I by (auto simp: mon_inv_def)
qed

lemma report_ok_silenced:
  assumes "report_ok s k" and "map_of (server_status s) k = Some d"
  shows "report_ok (s\<lparr>server_status := AList.update k (d\<lparr>pd_status := MS_OFFLINE\<rparr>) ss\<rparr>) k"
proof -
  from assms obtain h where "map_of (perf_history s) k = Some h" and "last_of k d h"
    by (cases "map_of (perf_history s) k") (auto simp: report_ok_def)
  then show ?thesis by (simp add: report_ok_def last_of_silenced)
qed

lemma all_entries: "keys_ok xs \<Longrightarrow> \<forall>(k, d) \<in> set xs. map_of xs k = Some d"
  unfolding keys_ok_def by clarify (simp add: map_of_eq_Some_iff)

lemma check_silence_frame:
  "check_silence now (k, d) s = Ret s' \<Longrightarrow> j \<noteq> k \<Longrightarrow>
     map_of (server_status s') j = map_of (server_status s) j \<and> perf_history s' = perf_history s"
  by (cases "silent now d") (auto simp: check_silence_def dest: raise_alert_keeps)

lemma check_silence_inv:
  assumes "check_silence now (k, d) s = Ret s'" and I: "mon_inv s" and d: "map_of (server_status s) k = Some d"
  shows "mon_inv s'"
proof (cases "silent now d")
  case True
  let ?s = "s\<lparr>server_status := AList.update k (d\<lparr>pd_status := MS_OFFLINE\<rparr>) (server_status s)\<rparr>"
  have "report_ok ?s j" for j
  proof (cases "j = k")
    case True
    have "report_ok s k" using I by (simp add: mon_inv_def)
    then show ?thesis unfolding True using d by (rule report_ok_silenced)
  next
    case False
    then show ?thesis using I by (simp add: mon_inv_def report_ok_def)
  qed
  then have "mon_inv ?s" using I by (simp add: mon_inv_def)
  moreover have "server_status s' = server_status ?s \<and> perf_history s' = perf_history ?s"
    using assms(1) True by (auto simp: check_silence_def dest: raise_alert_keeps)
  ultimately show ?thesis using report_ok_cong by blast
next
  case False
  then show ?thesis using assms by (simp add: check_silence_def)
qed

lemma fold_silence_inv:
  "fold_outcome (check_silence now) xs s = Ret s' \<Longrightarrow> mon_inv s \<Longrightarrow> distinct (map fst xs) \<Longrightarrow>
   \<forall>(k, d) \<in> set xs. map_of (server_status s) k = Some d \<Longrightarrow> mon_inv s'"
proof (induction xs arbitrary: s)
  case (Cons p xs)
  obtain k d where p: "p = (k, d)" by fastforce
  from Cons.prems(1) obtain s1 where s1: "check_silence now (k, d) s = Ret s1"
    and r: "fold_outcome (check_silence now) xs s1 = Ret s'" by (auto simp: p)
  have "mon_inv s1" using s1 Cons.prems(2,4) by (auto simp: p intro: check_silence_inv)
  moreover have "\<forall>(j, e) \<in> set xs. map_of (server_status s1) j = Some e"
  proof clarify
    fix j e
    assume j: "(j, e) \<in> set xs"
    then have "j \<noteq> k" using Cons.prems(3) by (force simp: p)
    then show "map_of (server_status s1) j = Some e" using check_silence_frame [OF s1] j Cons.prems(4) by auto
  qed
  ultimately show ?case using Cons.IH [OF r] Cons.prems(3) by simp
qed simp


lemma CheckServerStatus_inv: "CheckServerStatus now s = Ret s' \<Longrightarrow> mon_inv s \<Longrightarrow> mon_inv s'"
  unfolding CheckServerStatus_def
  by (erule fold_silence_inv) (use all_entries in \<open>simp_all add: mon_inv_def keys_ok_def\<close>)

lemma OnTimer_inv: "OnTimer now1 now2 s = Ret s' \<Longrightarrow> mon_inv s \<Longrightarrow> mon_inv s'"
proof -
  assume "OnTimer now1 now2 s = Ret s'" and I: "mon_inv s"
  then obtain t where "CheckServerStatus now1 s = Ret t" and a: "CheckAlerts now2 t = Ret s'" by (auto simp: OnTimer_def)
  then have "mon_inv t" using I CheckServerStatus_inv by blast
  then show ?thesis using CheckAlerts_keeps [OF a] report_ok_cong by blast
qed

lemma other_requests_keep:
  "AddAlert a s = Ret (r, t) \<Longrightarrow> server_status t = server_status s \<and> perf_history t = perf_history s"
  "SendCommand now k c s = Ret (i, t) \<Longrightarrow> server_status t = server_status s \<and> perf_history t = perf_history s"
  by (auto simp: AddAlert_def GenerateAlertId_def SendCommand_def GenerateCommandId_def split: if_splits)

lemma mon_step_inv: "mon_step s s' \<Longrightarrow> mon_inv s \<Longrightarrow> mon_inv s'"
proof (induction rule: mon_step.induct)
  case (report s now d)
  then show ?case by (rule UpdateServerStatus_inv)
next
  case (tick now1 now2 s s')
  then show ?case by (rule OnTimer_inv)
next
  case (alert a s s')
  then show ?case using other_requests_keep(1) report_ok_cong by blast
next
  case (command now k c s i s')
  then show ?case using other_requests_keep(2) report_ok_cong by blast
next
  case (handled s now i who)
  moreover have "mon_inv (snd (HandleAlert now i who s)) = mon_inv s" by (rule report_ok_cong) (simp_all add: HandleAlert_def)
  ultimately show ?case by simp
next
  case (cleared s)
  moreover have "mon_inv (snd (ClearAlerts s)) = mon_inv s" by (rule report_ok_cong) (simp_all add: ClearAlerts_def)
  ultimately show ?case by simp
next
  case (started s)
  moreover have "mon_inv (snd (Start s)) = mon_inv s" by (rule report_ok_cong) (simp_all add: Start_def)
  ultimately show ?case by simp
next
  case (stopped s)
  moreover have "mon_inv (Stop s) = mon_inv s" by (rule report_ok_cong) (simp_all add: Stop_def)
  ultimately show ?case by simp
qed

section \<open>Alerts of a silent server\<close>

text \<open>The timer of a service fires every second: \<open>ts\<close> is what the clock said at each tick.\<close>

fun run_ticks :: "time_t list \<Rightarrow> MonitorServer \<Rightarrow> MonitorServer outcome" where
  "run_ticks [] s = Ret s"
| "run_ticks (t # ts) s = bindO (OnTimer t t s) (run_ticks ts)"

definition down_alerts :: "i32 \<Rightarrow> MonitorServer \<Rightarrow> nat" where
  "down_alerts k s = length (filter (\<lambda>a. al_type a = SERVER_DOWN \<and> al_server_id a = k) (alerts s))"

lemma raise_alert_adds: "raise_alert ty k msg now s = Ret s' \<Longrightarrow> \<exists>i. alerts s' = alerts s @ [new_alert i ty k msg now]"
  by (auto simp: raise_alert_def GenerateAlertId_def AddAlert_def new_alert_def split: if_splits)

lemma raise_alert_counts:
  "raise_alert ty k msg now s = Ret s' \<Longrightarrow> down_alerts j s' = down_alerts j s + (if ty = SERVER_DOWN \<and> k = j then 1 else 0)"
  by (auto simp: down_alerts_def new_alert_def dest!: raise_alert_adds)

lemma maybe_raise_counts:
  "(if b then raise_alert ty k msg now s else Ret s) = Ret s' \<Longrightarrow> ty \<noteq> SERVER_DOWN \<Longrightarrow> down_alerts j s' = down_alerts j s"
  by (auto dest: raise_alert_counts [where j = j] split: if_splits)

lemma check_report_counts:
  assumes "check_report now d s = Ret s'"
  shows "down_alerts j s' = down_alerts j s"
proof -
  from assms obtain s1 s2 high where
    "(if f32_gt (pd_cpu_usage d) (cpu_threshold s)
      then raise_alert CPU_HIGH (pd_server_id d) (''CPU usage too high: '' @ to_string_double (pd_cpu_usage d) @ ''%'') now s
      else Ret s) = Ret s1"
    "(if f32_gt (pd_memory_usage d) (memory_threshold s1)
      then raise_alert MEMORY_HIGH (pd_server_id d) (''Memory usage too high: '' @ to_string_double (pd_memory_usage d) @ ''%'') now s1
      else Ret s1) = Ret s2"
    "(if high then raise_alert ONLINE_HIGH (pd_server_id d)
        (''Online count too high: '' @ to_dec (pd_online_count d) @ ''/'' @ to_dec (pd_max_online d)) now s2 else Ret s2) = Ret s'"
    unfolding check_report_def bindO_eq_Ret by blast
  from this [THEN maybe_raise_counts, of j] show ?thesis by simp
qed

lemma CheckAlerts_counts:
  assumes "CheckAlerts now s = Ret s'"
  shows "down_alerts j s' = down_alerts j s"
proof (rule fold_outcome_keeps [OF assms [unfolded CheckAlerts_def]])
  fix x t t'
  assume "(case x of (k, d) \<Rightarrow> check_report now d) t = Ret t'" and "down_alerts j t = down_alerts j s"
  then show "down_alerts j t' = down_alerts j s" using check_report_counts [of now "snd x" t t' j] by (simp add: case_prod_beta)
qed simp

lemma check_silence_counts:
  "check_silence now (k, d) s = Ret s' \<Longrightarrow> down_alerts j s' = down_alerts j s + (if k = j \<and> silent now d then 1 else 0)"
proof (cases "silent now d")
  case True
  let ?s = "s\<lparr>server_status := AList.update k (d\<lparr>pd_status := MS_OFFLINE\<rparr>) (server_status s)\<rparr>"
  assume "check_silence now (k, d) s = Ret s'"
  then have "raise_alert SERVER_DOWN k (''Server offline: '' @ pd_server_name d) now ?s = Ret s'"
    using True by (simp add: check_silence_def)
  from raise_alert_counts [OF this, of j] show ?thesis using True by (simp add: down_alerts_def)
qed (simp add: check_silence_def)

lemma fold_silence_counts:
  "fold_outcome (check_silence now) xs s = Ret s' \<Longrightarrow> distinct (map fst xs) \<Longrightarrow>
   down_alerts j s' = down_alerts j s + (case map_of xs j of None \<Rightarrow> 0 | Some d \<Rightarrow> if silent now d then 1 else 0)"
proof (induction xs arbitrary: s)
  case (Cons p xs)
  obtain k d where p: "p = (k, d)" by fastforce
  from Cons.prems(1) obtain s1 where s1: "check_silence now (k, d) s = Ret s1"
    and r: "fold_outcome (check_silence now) xs s1 = Ret s'" by (auto simp: p)
  have "k = j \<Longrightarrow> map_of xs j = None" using Cons.prems(2) by (simp add: p map_of_eq_None_iff)
  then show ?case using Cons.IH [OF r] Cons.prems(2) check_silence_counts [OF s1, of j] by (cases "map_of xs j") (auto simp: p)
qed simp

lemma check_silence_time:
  "check_silence now (k, d) s = Ret s' \<Longrightarrow> map_of (server_status s) k = Some d \<Longrightarrow>
   map_option pd_update_time (map_of (server_status s') j) = map_option pd_update_time (map_of (server_status s) j)"
  by (cases "silent now d") (auto simp: check_silence_def dest!: raise_alert_keeps)

lemma fold_silence_time:
  "fold_outcome (check_silence now) xs s = Ret s' \<Longrightarrow> distinct (map fst xs) \<Longrightarrow>
   \<forall>(k, d) \<in> set xs. map_of (server_status s) k = Some d \<Longrightarrow>
   map_option pd_update_time (map_of (server_status s') j) = map_option pd_update_time (map_of (server_status s) j)"
proof (induction xs arbitrary: s)
  case (Cons p xs)
  obtain k d where p: "p = (k, d)" by fastforce
  from Cons.prems(1) obtain s1 where s1: "check_silence now (k, d) s = Ret s1"
    and r: "fold_outcome (check_silence now) xs s1 = Ret s'" by (auto simp: p)
  have "\<forall>(i, e) \<in> set xs. map_of (server_status s1) i = Some e"
  proof clarify
    fix i e
    assume i: "(i, e) \<in> set xs"
    then have "i \<noteq> k" using Cons.prems(2) by (force simp: p)
    then show "map_of (server_status s1) i = Some e" using check_silence_frame [OF s1] i Cons.prems(3) by auto
  qed
  moreover have "map_of (server_status s) k = Some d" using Cons.prems(3) by (simp add: p)
  ultimately show ?case using Cons.IH [OF r] Cons.prems(2) check_silence_time [OF s1] by simp
qed simp

lemma OnTimer_counts:
  assumes "OnTimer now1 now2 s = Ret s'" and I: "mon_inv s" and d: "GetServerStatus k s = Some d"
  shows "down_alerts k s' = down_alerts k s + (if silent now1 d then 1 else 0) \<and>
    (\<exists>d'. GetServerStatus k s' = Some d' \<and> pd_update_time d' = pd_update_time d)"
proof -
  from assms obtain t where c: "CheckServerStatus now1 s = Ret t" and a: "CheckAlerts now2 t = Ret s'" by (auto simp: OnTimer_def)
  have k: "distinct (map fst (server_status s))" "\<forall>(k, d) \<in> set (server_status s). map_of (server_status s) k = Some d"
    using I all_entries by (simp_all add: mon_inv_def keys_ok_def)
  have "down_alerts k t = down_alerts k s + (if silent now1 d then 1 else 0)"
    using fold_silence_counts [OF c [unfolded CheckServerStatus_def] k(1), of k] d by (simp add: GetServerStatus_def)
  moreover have "\<exists>d'. GetServerStatus k t = Some d' \<and> pd_update_time d' = pd_update_time d"
    using fold_silence_time [OF c [unfolded CheckServerStatus_def] k, of k] d by (auto simp: GetServerStatus_def)
  ultimately show ?thesis using CheckAlerts_counts [OF a] CheckAlerts_keeps [OF a] by (simp add: GetServerStatus_def)
qed

lemma raise_alert_returns:
  assumes "0 < next_alert_id s" and "next_alert_id s + 1 < 2 ^ 31"
  shows "\<exists>s'. (if b then raise_alert ty k msg now s else Ret s) = Ret s' \<and> next_alert_id s \<le> next_alert_id s' \<and>
    next_alert_id s' \<le> next_alert_id s + 1"
proof -
  have "in_i32 (next_alert_id s + 1)" using assms by (simp add: in_i32_def)
  then show ?thesis using assms(1) by (simp add: raise_alert_def GenerateAlertId_def AddAlert_def new_alert_def)
qed

definition online_fits :: "ServerPerfData \<Rightarrow> bool" where
  "online_fits d \<longleftrightarrow> pd_max_online d \<le> 0 \<or> in_i32 (pd_online_count d * 100)"

lemma online_too_high_cases:
  "online_too_high threshold d =
     (if online_fits d then Ret (pd_max_online d > 0 \<and> pd_online_count d * 100 sdiv pd_max_online d > threshold)
      else Fault SignedOverflow)"
  by (auto simp: online_too_high_def online_fits_def mul32_def)

lemma check_report_returns:
  assumes n: "0 < next_alert_id s" "next_alert_id s + 3 < 2 ^ 31"
  shows "if online_fits d
    then \<exists>s'. check_report now d s = Ret s' \<and> next_alert_id s \<le> next_alert_id s' \<and> next_alert_id s' \<le> next_alert_id s + 3
    else check_report now d s = Fault SignedOverflow"
proof -
  obtain s1 where s1: "(if f32_gt (pd_cpu_usage d) (cpu_threshold s)
      then raise_alert CPU_HIGH (pd_server_id d) (''CPU usage too high: '' @ to_string_double (pd_cpu_usage d) @ ''%'') now s
      else Ret s) = Ret s1" and n1: "next_alert_id s \<le> next_alert_id s1" "next_alert_id s1 \<le> next_alert_id s + 1"
    using raise_alert_returns [of s] n by fastforce
  obtain s2 where s2: "(if f32_gt (pd_memory_usage d) (memory_threshold s1)
      then raise_alert MEMORY_HIGH (pd_server_id d) (''Memory usage too high: '' @ to_string_double (pd_memory_usage d) @ ''%'') now s1
      else Ret s1) = Ret s2" and n2: "next_alert_id s1 \<le> next_alert_id s2" "next_alert_id s2 \<le> next_alert_id s1 + 1"
    using raise_alert_returns [of s1] n n1 by fastforce
  define b where "b = (pd_max_online d > 0 \<and> pd_online_count d * 100 sdiv pd_max_online d > online_threshold s2)"
  obtain s3 where s3: "(if b then raise_alert ONLINE_HIGH (pd_server_id d)
        (''Online count too high: '' @ to_dec (pd_online_count d) @ ''/'' @ to_dec (pd_max_online d)) now s2 else Ret s2) = Ret s3"
    and n3: "next_alert_id s2 \<le> next_alert_id s3" "next_alert_id s3 \<le> next_alert_id s2 + 1"
    using raise_alert_returns [of s2] n n1 n2 by fastforce
  have "check_report now d s = (if online_fits d then Ret s3 else Fault SignedOverflow)"
    unfolding check_report_def s1 bindO.simps s2 online_too_high_cases b_def [symmetric]
    using s3 by (cases "online_fits d") (simp_all only: if_True if_False bindO.simps)
  then show ?thesis using n1 n2 n3 by auto
qed

lemma fold_report_returns:
  "0 < next_alert_id s \<Longrightarrow> next_alert_id s + 3 * int (length xs) < 2 ^ 31 \<Longrightarrow>
   (\<exists>s'. fold_outcome (\<lambda>(k, d). check_report now d) xs s = Ret s') \<longleftrightarrow> (\<forall>(k, d) \<in> set xs. online_fits d)"
proof (induction xs arbitrary: s)
  case (Cons p xs)
  obtain k d where p: "p = (k, d)" by fastforce
  have c: "if online_fits d
    then \<exists>s'. check_report now d s = Ret s' \<and> next_alert_id s \<le> next_alert_id s' \<and> next_alert_id s' \<le> next_alert_id s + 3
    else check_report now d s = Fault SignedOverflow"
    by (rule check_report_returns) (use Cons.prems in simp_all)
  show ?case
  proof (cases "online_fits d")
    case True
    with c obtain s1 where s1: "check_report now d s = Ret s1" "next_alert_id s \<le> next_alert_id s1"
      "next_alert_id s1 \<le> next_alert_id s + 3" by auto
    have "(\<exists>s'. fold_outcome (\<lambda>(k, d). check_report now d) xs s1 = Ret s') \<longleftrightarrow> (\<forall>(k, d) \<in> set xs. online_fits d)"
      by (rule Cons.IH) (use s1 Cons.prems in simp_all)
    then show ?thesis using s1 True by (simp add: p)
  next
    case False
    then show ?thesis using c by (simp add: p)
  qed
qed simp

section \<open>Properties\<close>

definition sample_report :: ServerPerfData where
  "sample_report =
     \<lparr>pd_server_id = 3, pd_server_name = ''logic'', pd_server_type = 1, pd_status = MS_ONLINE, pd_online_count = 21474837,
      pd_max_online = 1000, pd_cpu_usage = Fin 10, pd_memory_usage = Fin 20, pd_network_in = 0, pd_network_out = 0,
      pd_message_queue_size = 0, pd_db_query_count = 0, pd_db_query_time = 0, pd_update_time = 100\<rparr>"

text \<open>
  C37. Whatever reports, ticks, alerts, commands and requests have been made, the report of a server is the last one of
  its history, except that it may be off line; the history has at most 1000 reports, all of that server.
\<close>
theorem last_report_kept:
  assumes "mon_step\<^sup>*\<^sup>* monitor_start s" and "GetServerStatus k s = Some d"
  shows "\<exists>h. GetPerformanceHistory k s = Some h \<and> h \<noteq> [] \<and> length h \<le> 1000 \<and> (\<forall>x \<in> set h. pd_server_id x = k) \<and>
    (d = last h \<or> d = (last h)\<lparr>pd_status := MS_OFFLINE\<rparr>)"
proof -
  have "mon_inv s" using assms(1) by (induction rule: rtranclp_induct) (auto intro: mon_inv_start mon_step_inv)
  then have "report_ok s k" by (simp add: mon_inv_def)
  with assms(2) obtain h where "map_of (perf_history s) k = Some h" "last_of k d h"
    by (cases "map_of (perf_history s) k") (auto simp: report_ok_def GetServerStatus_def)
  then show ?thesis by (simp add: GetPerformanceHistory_def last_of_def)
qed

lemma sample_reached: "mon_step\<^sup>*\<^sup>* monitor_start (snd (UpdateServerStatus 100 sample_report monitor_start))"
  by (intro r_into_rtranclp mon_step.report)

theorem last_report_kept_witness:
  "\<exists>h. GetPerformanceHistory 3 (snd (UpdateServerStatus 100 sample_report monitor_start)) = Some h \<and> h \<noteq> [] \<and>
    length h \<le> 1000 \<and> (\<forall>x \<in> set h. pd_server_id x = 3) \<and>
    (sample_report = last h \<or> sample_report = (last h)\<lparr>pd_status := MS_OFFLINE\<rparr>)"
  by (rule last_report_kept [OF sample_reached]) (simp add: GetServerStatus_def UpdateServerStatus_def Let_def push_capped_def sample_report_def monitor_start_def)

text \<open>
  A server is reported to be down once for every tick more than 30 seconds after its last report: a silent server
  adds an alert every second for ever, whether or not somebody has handled the ones before.
\<close>
theorem silent_server_alerts_every_tick:
  assumes "run_ticks ts s = Ret s'" and "mon_step\<^sup>*\<^sup>* monitor_start s" and "GetServerStatus k s = Some d"
  shows "down_alerts k s' = down_alerts k s + length (filter (\<lambda>t. t - pd_update_time d > 30) ts)"
proof -
  have "mon_inv s" using assms(2) by (induction rule: rtranclp_induct) (auto intro: mon_inv_start mon_step_inv)
  then show ?thesis using assms(1,3)
  proof (induction ts arbitrary: s d)
    case (Cons t ts)
    from Cons.prems(2) obtain s1 where s1: "OnTimer t t s = Ret s1" and r: "run_ticks ts s1 = Ret s'" by auto
    obtain d1 where d1: "GetServerStatus k s1 = Some d1" "pd_update_time d1 = pd_update_time d"
      and n: "down_alerts k s1 = down_alerts k s + (if silent t d then 1 else 0)"
      using OnTimer_counts [OF s1 Cons.prems(1,3)] by blast
    from Cons.IH [OF OnTimer_inv [OF s1 Cons.prems(1)] r d1(1)] n d1(2) show ?case by (simp add: silent_def)
  qed simp
qed

lemma sample_ticks:
  "run_ticks [130, 131, 132] (snd (UpdateServerStatus 100 (sample_report\<lparr>pd_max_online := 0\<rparr>) monitor_start)) =
     Ret (snd (UpdateServerStatus 100 (sample_report\<lparr>pd_max_online := 0\<rparr>) monitor_start)
       \<lparr>server_status := [(3, sample_report\<lparr>pd_max_online := 0, pd_status := MS_OFFLINE\<rparr>)], next_alert_id := 3,
        alerts := [new_alert 1 SERVER_DOWN 3 ''Server offline: logic'' 131, new_alert 2 SERVER_DOWN 3 ''Server offline: logic'' 132]\<rparr>)"
  by (simp add: UpdateServerStatus_def Let_def push_capped_def monitor_start_def sample_report_def OnTimer_def CheckServerStatus_def check_silence_def
      silent_def CheckAlerts_def check_report_def f32_gt_def online_too_high_def raise_alert_def GenerateAlertId_def AddAlert_def
      add32_def in_i32_def new_alert_def)

theorem silent_server_alerts_every_tick_witness:
  "\<exists>s'. run_ticks [130, 131, 132] (snd (UpdateServerStatus 100 (sample_report\<lparr>pd_max_online := 0\<rparr>) monitor_start)) = Ret s' \<and>
    down_alerts 3 s' = 2"
proof -
  let ?s = "snd (UpdateServerStatus 100 (sample_report\<lparr>pd_max_online := 0\<rparr>) monitor_start)"
  have "mon_step\<^sup>*\<^sup>* monitor_start ?s" by (intro r_into_rtranclp mon_step.report)
  moreover have "GetServerStatus 3 ?s = Some (sample_report\<lparr>pd_max_online := 0\<rparr>)" and "down_alerts 3 ?s = 0"
    by (simp_all add: GetServerStatus_def UpdateServerStatus_def Let_def push_capped_def sample_report_def monitor_start_def down_alerts_def)
  moreover have "length (filter (\<lambda>t. t - pd_update_time (sample_report\<lparr>pd_max_online := 0\<rparr>) > 30) [130, 131, 132]) = 2"
    by (simp add: sample_report_def)
  ultimately show ?thesis
    using silent_server_alerts_every_tick [OF sample_ticks, of 3] sample_ticks by (metis add_0)
qed

text \<open>
  The check of the reports returns exactly as long as a hundred times the number of players of every server with a limit is an
  \<^verbatim>\<open>int32_t\<close>: from 21474837 players on the product overflows.
\<close>
theorem online_check_exact:
  assumes "0 < next_alert_id s" and "next_alert_id s + 3 * int (length (server_status s)) < 2 ^ 31"
  shows "(\<exists>s'. CheckAlerts now s = Ret s') \<longleftrightarrow>
    (\<forall>(k, d) \<in> set (server_status s). pd_max_online d \<le> 0 \<or> in_i32 (pd_online_count d * 100))"
  using fold_report_returns [OF assms] by (simp add: CheckAlerts_def online_fits_def)

theorem online_check_exact_witness:
  "\<nexists>s'. CheckAlerts 100 (snd (UpdateServerStatus 100 sample_report monitor_start)) = Ret s'"
proof -
  let ?s = "snd (UpdateServerStatus 100 sample_report monitor_start)"
  have s: "next_alert_id ?s = 1" "server_status ?s = [(3, sample_report)]"
    by (simp_all add: UpdateServerStatus_def Let_def push_capped_def sample_report_def monitor_start_def)
  show ?thesis using online_check_exact [of ?s 100] unfolding s by (simp add: sample_report_def in_i32_def)
qed

text \<open>Names and messages are written into the page as they are: a message can look like two alerts.\<close>

lemma some_digits: "dec_nat 2 = ''2'' \<and> dec_nat 5 = ''5'' \<and> dec_nat 8 = ''8''"
  by code_simp

lemma message_looks_like_an_alert:
  "\<exists>msg. HandleWebRequest ''/api/alerts'' (monitor_start\<lparr>alerts := [new_alert 1 CPU_HIGH 7 msg 5]\<rparr>) =
    HandleWebRequest ''/api/alerts''
      (monitor_start\<lparr>alerts := [new_alert 1 CPU_HIGH 7 ''a'' 5, new_alert 2 SERVER_DOWN 8 ''b'' 5]\<rparr>)"
  by (rule exI [of _ "''a\",\"alert_time\":5},{\"alert_id\":2,\"type\":5,\"server_id\":8,\"message\":\"b''"])
    (simp add: HandleWebRequest_def GetAlerts_def alert_json_def new_alert_def to_dec_def some_digits)

end
