(* ===== verification/Proxy.thy ===== *)
theory Proxy
  imports Links Login Format
begin

text \<open>
  The proxy server, \<open>proxy_server/proxy_service.cc\<close>, and what the logic and the monitor process say to the center server
  (\<open>logic_server/logic_service.cc\<close>, \<open>monitor_server/monitor_service.cc\<close>). The generated code for messages is a pair of
  parameters, \<open>parse\<close> and \<open>ser\<close>; the results of \<^verbatim>\<open>recv\<close> and \<^verbatim>\<open>send\<close> are arguments.
\<close>

section \<open>Answers\<close>

definition proxy_ack :: "u64 \<Rightarrow> AccountLoginAck" where
  "proxy_ack account =
     \<lparr>la_ret_code = 0, la_account_id = account, la_last_svr_id = 1, la_last_svr_name = ''TestServer'', la_review = False,
      la_channel = 0, la_ip_addr = 0, la_svr_nodes = []\<rparr>"

text \<open>Header and body are sent with two calls: what is handed to them, and whether both succeed.\<close>

definition send_answer ::
  "bool \<Rightarrow> (AccountLoginAck \<Rightarrow> byte list option) \<Rightarrow> u64 \<Rightarrow> int \<times> int \<Rightarrow> byte list list \<times> bool" where
  "send_answer host ser account r =
     (case ser (proxy_ack account) of
        None \<Rightarrow> ([], False)
      | Some body \<Rightarrow>
          let h = sent_header host MSG_ACCOUNT_LOGIN_ACK body in
          if fst r \<le> 0 then ([h], False) else ([h, body], 0 < snd r))"

section \<open>Clients\<close>

record 'k ProxyService =
  proxy_links :: "'k links monitor"
  test_msg_sent :: bool

definition proxy_init :: "'k ProxyService" where
  "proxy_init =
     \<lparr>proxy_links = idle \<lparr>connections = [], last_heart_time = [], next_conn_id = 1, max_connections = 10000\<rparr>, test_msg_sent = False\<rparr>"

definition IsTestMessageSent :: "'k ProxyService \<Rightarrow> bool" where "IsTestMessageSent s = test_msg_sent s"

text \<open>
  A client is greeted with an answer to a log in it has not asked for. The result is the number the connection got and what was
  handed to \<^verbatim>\<open>send\<close>; a client above the limit gets nothing.
\<close>

definition proxy_handleClient ::
  "bool \<Rightarrow> (AccountLoginAck \<Rightarrow> byte list option) \<Rightarrow> time_t \<Rightarrow> 'k \<Rightarrow> int \<times> int \<Rightarrow> 'k ProxyService \<Rightarrow>
   ((i32 option \<times> byte list list) \<times> 'k ProxyService) outcome" where
  "proxy_handleClient host ser now client r s =
     bindO (Links.handleClient now client (proxy_links s)) (\<lambda>(n, m).
       case n of
         None \<Rightarrow> Ret ((None, []), s\<lparr>proxy_links := m\<rparr>)
       | Some i \<Rightarrow>
           let (out, ok) = send_answer host ser 12345 r in
           Ret ((Some i, out), s\<lparr>proxy_links := m, test_msg_sent := (test_msg_sent s \<or> ok)\<rparr>))"

text \<open>
  The loop of \<^verbatim>\<open>HandleRecv\<close>. \<open>junk\<close> is what the uninitialised header holds where \<^verbatim>\<open>recv\<close> gives less than twenty
  bytes; \<open>buf\<close> is the buffer, which is not cleared between messages; \<open>snt k\<close> are the results of \<^verbatim>\<open>send\<close> for the
  answer number \<open>k\<close>. The result is what was handed to \<^verbatim>\<open>send\<close> and whether the loop was left. A call that gives nothing for now
  has waited for the receive timeout, and leaves it like the end of the connection.
\<close>

definition over :: "byte list \<Rightarrow> byte list \<Rightarrow> byte list" where
  "over bs buf = bs @ drop (length bs) buf"

definition proxy_bad_length :: "MessageHeader \<Rightarrow> bool" where
  "proxy_bad_length h \<longleftrightarrow> 32768 < unat (msg_len h) \<or> unat (msg_len h) < header_size"

fun proxy_recv ::
  "bool \<Rightarrow> (byte list \<Rightarrow> AccountLoginReq option) \<Rightarrow> (AccountLoginAck \<Rightarrow> byte list option) \<Rightarrow> byte list \<Rightarrow> (nat \<Rightarrow> int \<times> int) \<Rightarrow>
   byte list \<Rightarrow> nat \<Rightarrow> received list \<Rightarrow> byte list list \<times> bool" where
  "proxy_recv host parse ser junk snt buf k [] = ([], False)"
| "proxy_recv host parse ser junk snt buf k (r # rs) =
     (case r of
        Got bs \<Rightarrow>
          let h = received_header host (over bs junk); n = unat (msg_len h) - header_size in
          if proxy_bad_length h then ([], True)
          else if n = 0 then proxy_recv host parse ser junk snt buf k rs
          else
            (case rs of
               [] \<Rightarrow> ([], False)
             | Got b # rs' \<Rightarrow>
                 let buf' = over b (buf @ replicate (n - length buf) 0) in
                 if msg_id h = MSG_ACCOUNT_LOGIN_REQ then
                   (case parse (take n buf') of
                      None \<Rightarrow> proxy_recv host parse ser junk snt buf' k rs'
                    | Some req \<Rightarrow>
                        let out = fst (send_answer host ser 67890 (snt k)); rest = proxy_recv host parse ser junk snt buf' (Suc k) rs' in
                        (out @ fst rest, snd rest))
                 else proxy_recv host parse ser junk snt buf' k rs'
             | _ # rs' \<Rightarrow> ([], True))
      | _ \<Rightarrow> ([], True))"

definition proxy_HandleRecv ::
  "bool \<Rightarrow> (byte list \<Rightarrow> AccountLoginReq option) \<Rightarrow> (AccountLoginAck \<Rightarrow> byte list option) \<Rightarrow> byte list \<Rightarrow> (nat \<Rightarrow> int \<times> int) \<Rightarrow>
   i32 \<Rightarrow> received list \<Rightarrow> 'k ProxyService \<Rightarrow> (byte list list \<times> 'k ProxyService) outcome" where
  "proxy_HandleRecv host parse ser junk snt i rs s =
     (let (out, ended) = proxy_recv host parse ser junk snt (replicate 8192 0) 0 rs in
      if ended then bindO (drop_client i (proxy_links s)) (\<lambda>(_, m). Ret (out, s\<lparr>proxy_links := m\<rparr>)) else Ret (out, s))"

section \<open>To the center server\<close>

definition proxy_RegisterToCenterServer :: "bool \<Rightarrow> bool \<Rightarrow> int \<Rightarrow> int \<Rightarrow> bool \<times> byte list list" where
  "proxy_RegisterToCenterServer host = send_two host 1001 ''proxy_server_register''"

definition proxy_SendHeartbeatToCenterServer :: "bool \<Rightarrow> bool \<Rightarrow> int \<Rightarrow> int \<Rightarrow> byte list list" where
  "proxy_SendHeartbeatToCenterServer host linked r1 r2 = snd (send_two host 1002 ''proxy_server_heartbeat'' linked r1 r2)"

definition proxy_OnTimer5s :: "bool \<Rightarrow> bool \<Rightarrow> int \<Rightarrow> int \<Rightarrow> byte list list" where
  "proxy_OnTimer5s host linked r1 r2 = proxy_SendHeartbeatToCenterServer host linked r1 r2"

definition monitor_RegisterToCenterServer :: "bool \<Rightarrow> bool \<Rightarrow> int \<Rightarrow> int \<Rightarrow> bool \<times> byte list list" where
  "monitor_RegisterToCenterServer host = send_two host 1001 ''monitor_server_register''"

definition monitor_SendHeartbeatToCenterServer :: "bool \<Rightarrow> bool \<Rightarrow> int \<Rightarrow> int \<Rightarrow> byte list list" where
  "monitor_SendHeartbeatToCenterServer host linked r1 r2 = snd (send_two host 1002 ''monitor_server_heartbeat'' linked r1 r2)"

definition monitor_OnTimer5s :: "bool \<Rightarrow> bool \<Rightarrow> int \<Rightarrow> int \<Rightarrow> byte list list" where
  "monitor_OnTimer5s host linked r1 r2 = monitor_SendHeartbeatToCenterServer host linked r1 r2"

text \<open>The logic process names itself by its number, and tells how many players it has: nothing changes that from zero.\<close>

record LogicService =
  logic_server_id :: i32
  online_count :: i32
  max_online :: i32

definition logic_init :: "i32 \<Rightarrow> LogicService" where
  "logic_init i = \<lparr>logic_server_id = i, online_count = 0, max_online = 5000\<rparr>"

definition GetServerId :: "LogicService \<Rightarrow> i32" where "GetServerId s = logic_server_id s"

definition logic_RegisterToCenterServer :: "bool \<Rightarrow> LogicService \<Rightarrow> bool \<Rightarrow> int \<Rightarrow> int \<Rightarrow> bool \<times> byte list list" where
  "logic_RegisterToCenterServer host s = send_two host 1001 (''logic_server_register_'' @ to_dec (logic_server_id s))"

definition heartbeat_text :: "i32 \<Rightarrow> i32 \<Rightarrow> string" where
  "heartbeat_text i online = ''logic_server_heartbeat_'' @ to_dec i @ '',online='' @ to_dec online"

definition logic_SendHeartbeatToCenterServer :: "bool \<Rightarrow> LogicService \<Rightarrow> bool \<Rightarrow> int \<Rightarrow> int \<Rightarrow> byte list list" where
  "logic_SendHeartbeatToCenterServer host s linked r1 r2 =
     snd (send_two host 1002 (heartbeat_text (logic_server_id s) (online_count s)) linked r1 r2)"

definition logic_OnTimer5s :: "bool \<Rightarrow> LogicService \<Rightarrow> bool \<Rightarrow> int \<Rightarrow> int \<Rightarrow> byte list list" where
  "logic_OnTimer5s host s linked r1 r2 = logic_SendHeartbeatToCenterServer host s linked r1 r2"

section \<open>Properties\<close>

lemma over_all [simp]: "length bs = length buf \<Longrightarrow> over bs buf = bs"
  by (simp add: over_def)

lemma take_over [simp]: "take (length bs) (over bs buf) = bs"
  by (simp add: over_def)

lemma length_over [simp]: "length bs \<le> length buf \<Longrightarrow> length (over bs buf) = length buf"
  by (simp add: over_def)

text \<open>A message that is small enough, and has a body.\<close>

definition small :: "u32 \<times> byte list \<Rightarrow> bool" where
  "small m \<longleftrightarrow> header_size + length (snd m) \<le> 32768 \<and> snd m \<noteq> []"

lemma small_length: "small m \<Longrightarrow> unat (msg_len (new_header (fst m) (snd m))) = header_size + length (snd m)"
  using fits_length [of m] by (simp add: fits_def small_def)

lemma small_good: "small m \<Longrightarrow> \<not> proxy_bad_length (new_header (fst m) (snd m))"
  unfolding proxy_bad_length_def small_length by (simp add: small_def)

text \<open>The buffer after a body of the length of its message has arrived.\<close>

lemma proxy_recv_whole:
  assumes "small (mid, body)" and "length junk = header_size"
  shows "proxy_recv host parse ser junk snt buf k (Got (sent_header host' mid body) # Got body # rs) =
    (let buf' = over body (buf @ replicate (length body - length buf) 0) in
     if mid = MSG_ACCOUNT_LOGIN_REQ \<and> parse body \<noteq> None
     then (fst (send_answer host ser 67890 (snt k)) @ fst (proxy_recv host parse ser junk snt buf' (Suc k) rs),
           snd (proxy_recv host parse ser junk snt buf' (Suc k) rs))
     else proxy_recv host parse ser junk snt buf' k rs)"
proof -
  have h: "received_header host (over (sent_header host' mid body) junk) = new_header mid body" using assms(2) by simp
  have n: "unat (msg_len (new_header mid body)) - header_size = length body" using small_length [OF assms(1)] by simp
  have "\<not> proxy_bad_length (new_header mid body)" using small_good [OF assms(1)] by simp
  moreover have "body \<noteq> []" using assms(1) by (simp add: small_def)
  ultimately show ?thesis
    unfolding proxy_recv.simps(2) received.case Let_def h n
    by (simp add: new_header_def Let_def split: option.split)
qed

definition arriving :: "bool \<Rightarrow> u32 \<times> byte list \<Rightarrow> received list" where
  "arriving host m = [Got (sent_header host (fst m) (snd m)), Got (snd m)]"

definition asks_login :: "(byte list \<Rightarrow> AccountLoginReq option) \<Rightarrow> u32 \<times> byte list \<Rightarrow> bool" where
  "asks_login parse m \<longleftrightarrow> fst m = MSG_ACCOUNT_LOGIN_REQ \<and> parse (snd m) \<noteq> None"

lemma proxy_recv_arriving:
  assumes "small m" and "length junk = header_size"
  shows "\<exists>buf'. proxy_recv host parse ser junk snt buf k (arriving host' m @ rs) =
    (if asks_login parse m
     then (fst (send_answer host ser 67890 (snt k)) @ fst (proxy_recv host parse ser junk snt buf' (Suc k) rs),
           snd (proxy_recv host parse ser junk snt buf' (Suc k) rs))
     else proxy_recv host parse ser junk snt buf' k rs)"
proof -
  obtain mid body where m: "m = (mid, body)" by fastforce
  show ?thesis using proxy_recv_whole [of mid body junk host parse ser snt buf k host' rs] assms
    by (auto simp: m arriving_def asks_login_def Let_def)
qed

text \<open>
  C38. A client whose messages have a body that is not empty and within the limit (\<open>small\<close>), arrive header by header and body by
  body, each in one \<^verbatim>\<open>recv\<close>, and that takes all answers, is given the same account 67890 for every request to log in
  that can be read, whatever name and password are in it, and nothing else.
\<close>
theorem proxy_admits_everyone:
  assumes "list_all small ms" and "length junk = header_size" and "\<And>k. 0 < fst (snt k) \<and> 0 < snd (snt k)"
    and "ser (proxy_ack 67890) = Some ab"
  shows "proxy_recv host parse ser junk snt buf k (concat (map (arriving host') ms)) =
    (concat (replicate (length (filter (asks_login parse) ms)) [sent_header host MSG_ACCOUNT_LOGIN_ACK ab, ab]), False)"
  using assms(1)
proof (induction ms arbitrary: buf k)
  case (Cons m ms)
  have a: "fst (send_answer host ser 67890 (snt j)) = [sent_header host MSG_ACCOUNT_LOGIN_ACK ab, ab]" for j
    using assms(3) [of j] assms(4) by (simp add: send_answer_def Let_def)
  obtain buf' where "proxy_recv host parse ser junk snt buf k (arriving host' m @ concat (map (arriving host') ms)) =
    (if asks_login parse m
     then (fst (send_answer host ser 67890 (snt k)) @ fst (proxy_recv host parse ser junk snt buf' (Suc k) (concat (map (arriving host') ms))),
           snd (proxy_recv host parse ser junk snt buf' (Suc k) (concat (map (arriving host') ms))))
     else proxy_recv host parse ser junk snt buf' k (concat (map (arriving host') ms)))"
    using proxy_recv_arriving [of m junk host parse ser snt buf k host' "concat (map (arriving host') ms)"] Cons.prems assms(2) by auto
  then show ?case using Cons.IH [of buf' "Suc k"] Cons.IH [of buf' k] Cons.prems by (simp add: a)
qed simp

definition no_password :: AccountLoginReq where
  "no_password = \<lparr>login_name = '''', login_password = '''', login_log = None\<rparr>"

theorem proxy_admits_everyone_witness:
  "fst (proxy_recv True (\<lambda>_. Some no_password) (\<lambda>_. Some [9]) (replicate 20 255) (\<lambda>_. (20, 1)) [] 0
      (concat (map (arriving False) [(MSG_ACCOUNT_LOGIN_REQ, [1]), (7, [2]), (MSG_ACCOUNT_LOGIN_REQ, [3])]))) =
   [sent_header True MSG_ACCOUNT_LOGIN_ACK [9], [9], sent_header True MSG_ACCOUNT_LOGIN_ACK [9], [9]]"
  by (subst proxy_admits_everyone [where ab = "[9]"])
    (simp_all add: small_def asks_login_def MSG_ACCOUNT_LOGIN_REQ_def)

text \<open>
  A body is read with one call: when only the first part \<open>p\<close> of a request has arrived, it is completed with what the
  message before has left in the buffer, and the mixture is taken for the request.
\<close>
theorem split_body_completed_with_old:
  assumes "small (MSG_ACCOUNT_LOGIN_REQ, old)" and "small (MSG_ACCOUNT_LOGIN_REQ, p @ q)" and "length (p @ q) = length old"
    and "length junk = header_size"
  shows "fst (proxy_recv host parse ser junk snt buf k
      [Got (sent_header host' MSG_ACCOUNT_LOGIN_REQ old), Got old, Got (sent_header host' MSG_ACCOUNT_LOGIN_REQ (p @ q)), Got p]) =
    (let n = (if parse old = None then 0 else 1) in
     (if parse old = None then [] else fst (send_answer host ser 67890 (snt k))) @
     (if parse (p @ drop (length p) old) = None then [] else fst (send_answer host ser 67890 (snt (k + n)))))"
proof -
  define buf' where "buf' = over old (buf @ replicate (length old - length buf) 0)"
  have l: "length old \<le> length buf'" by (simp add: buf'_def)
  have t: "take (length old) (over p (buf' @ replicate (length old - length buf') 0)) = p @ drop (length p) old"
    using assms(3) l by (simp add: over_def buf'_def)
  have h: "received_header host (over (sent_header host' MSG_ACCOUNT_LOGIN_REQ (p @ q)) junk) = new_header MSG_ACCOUNT_LOGIN_REQ (p @ q)"
    using assms(4) by simp
  have n: "unat (msg_len (new_header MSG_ACCOUNT_LOGIN_REQ (p @ q))) - header_size = length old"
    using small_length [OF assms(2)] assms(3) by simp
  have g: "\<not> proxy_bad_length (new_header MSG_ACCOUNT_LOGIN_REQ (p @ q))" using small_good [OF assms(2)] by simp
  have o: "length old \<noteq> 0" using assms(1) by (simp add: small_def)
  have i: "msg_id (new_header MSG_ACCOUNT_LOGIN_REQ (p @ q)) = MSG_ACCOUNT_LOGIN_REQ" by (simp add: new_header_def)
  have second: "fst (proxy_recv host parse ser junk snt buf' j
      [Got (sent_header host' MSG_ACCOUNT_LOGIN_REQ (p @ q)), Got p]) =
    (if parse (p @ drop (length p) old) = None then [] else fst (send_answer host ser 67890 (snt j)))" for j
    unfolding proxy_recv.simps(2) received.case list.case Let_def h n i t using g o by (simp add: t split: option.split)
  show ?thesis
    unfolding proxy_recv_whole [OF assms(1,4)] buf'_def [symmetric] Let_def using second by simp
qed

theorem split_body_completed_with_old_witness:
  "fst (proxy_recv True (\<lambda>bs. if bs = [5, 2] then Some no_password else None) (\<lambda>_. Some [9]) (replicate 20 255) (\<lambda>_. (20, 1)) [] 0
      [Got (sent_header True MSG_ACCOUNT_LOGIN_REQ [1, 2]), Got [1, 2], Got (sent_header True MSG_ACCOUNT_LOGIN_REQ ([5] @ [6])), Got [5]]) =
   [sent_header True MSG_ACCOUNT_LOGIN_ACK [9], [9]]"
  by (subst split_body_completed_with_old) (simp_all add: small_def send_answer_def)

text \<open>The number of the process and of its players can be read off its heartbeat.\<close>

lemma to_dec_no_comma: "CHR '','' \<notin> set (to_dec i)"
proof -
  have "\<not> is_digit (CHR '','')" by (simp add: is_digit_def)
  then have "CHR '','' \<notin> set (dec_nat n)" for n using dec_nat_digits by blast
  then show ?thesis by (simp add: to_dec_def)
qed

lemma heartbeat_text_inject: "heartbeat_text i m = heartbeat_text j n \<Longrightarrow> i = j \<and> m = n"
proof -
  assume "heartbeat_text i m = heartbeat_text j n"
  then have e: "to_dec i @ CHR '','' # ''online='' @ to_dec m = to_dec j @ CHR '','' # ''online='' @ to_dec n" by (simp add: heartbeat_text_def)
  have "takeWhile (\<lambda>c. c \<noteq> CHR '','') (to_dec i @ CHR '','' # r) = to_dec i" for i r
    using to_dec_no_comma by (subst takeWhile_append2) auto
  with e have "to_dec i = to_dec j" by metis
  with e show ?thesis by simp
qed

end
