(* ===== verification/Bitmap.thy ===== *)
theory Bitmap
  imports ByteStream
begin

text \<open>
  The bitmap of \<open>ancfl/ds/bitmap.cc\<close>, with the words of 16 bits it is built with: 14 bits of every word belong to the set, the
  two high ones mark runs in a compressed bitmap. This theory holds the plain bitmap: single bits, set operations, size, the
  loops over the members in both directions, counting, the byte array it is written to.
\<close>

section \<open>Words\<close>

type_synonym u16 = "16 word"

abbreviation VALUE_SIZE :: nat where "VALUE_SIZE \<equiv> 14"
abbreviation U64_DIV_BASE :: nat where "U64_DIV_BASE \<equiv> 4"
abbreviation U64_VALUE_SIZE :: nat where "U64_VALUE_SIZE \<equiv> 56"

definition COMPRESS_MASK :: u16 where "COMPRESS_MASK = 0x8000"
definition VALUE_MASK :: u16 where "VALUE_MASK = 0x4000"
definition COUNT_MASK :: u16 where "COUNT_MASK = 0x3FFF"

text \<open>The tables: a single bit, all others, all lower ones.\<close>

definition POS :: "nat \<Rightarrow> u16" where "POS i = push_bit i 1"
definition NPOS :: "nat \<Rightarrow> u16" where "NPOS i = NOT (POS i)"
definition MASK :: "nat \<Rightarrow> u16" where "MASK i = POS i - 1"

text \<open>
  A bitmap. \<^verbatim>\<open>m_dataSize\<close> is the length of the data; \<^verbatim>\<open>m_data\<close> is \<^verbatim>\<open>NULL\<close> only in a bitmap made with size zero
  (\<^verbatim>\<open>malloc(0)\<close> gives a pointer).
\<close>

record Bitmap =
  m_compress :: bool
  m_size :: nat
  m_null :: bool
  m_data :: "u16 list"

definition word_at :: "u16 list \<Rightarrow> nat \<Rightarrow> u16 outcome" where
  "word_at d i = (if i < length d then Ret (d ! i) else Fault OutOfRange)"

definition put_word :: "nat \<Rightarrow> u16 \<Rightarrow> u16 list \<Rightarrow> u16 list outcome" where
  "put_word i w d = (if i < length d then Ret (d[i := w]) else Fault OutOfRange)"

text \<open>\<^verbatim>\<open>ceil(size * 1.0 / VALUE_SIZE)\<close>: the quotient of doubles is exact enough for 32 bits.\<close>

definition words_for :: "nat \<Rightarrow> nat" where
  "words_for n = (n + VALUE_SIZE - 1) div VALUE_SIZE"

text \<open>The constructor fills the memory with the byte \<open>def\<close>.\<close>

definition new_Bitmap :: "nat \<Rightarrow> byte \<Rightarrow> Bitmap" where
  "new_Bitmap n def =
     \<lparr>m_compress = False, m_size = n, m_null = (words_for n = 0),
      m_data = replicate (words_for n) (push_bit 8 (ucast def) OR ucast def)\<rparr>"

definition empty_Bitmap :: Bitmap where
  "empty_Bitmap = \<lparr>m_compress = True, m_size = 0, m_null = True, m_data = []\<rparr>"

definition copy_Bitmap :: "Bitmap \<Rightarrow> Bitmap" where
  "copy_Bitmap b = b\<lparr>m_null := False\<rparr>"

section \<open>Single bits\<close>

definition bitmap_get :: "nat \<Rightarrow> Bitmap \<Rightarrow> bool outcome" where
  "bitmap_get i b = bindO (word_at (m_data b) (i div VALUE_SIZE)) (\<lambda>w. Ret (w AND POS (i mod VALUE_SIZE) \<noteq> 0))"

definition bitmap_set :: "nat \<Rightarrow> bool \<Rightarrow> Bitmap \<Rightarrow> Bitmap outcome" where
  "bitmap_set i v b =
     bindO (word_at (m_data b) (i div VALUE_SIZE)) (\<lambda>w.
     bindO (put_word (i div VALUE_SIZE) (if v then w OR POS (i mod VALUE_SIZE) else w AND NPOS (i mod VALUE_SIZE)) (m_data b)) (\<lambda>d.
       Ret (b\<lparr>m_data := d\<rparr>)))"

text \<open>
  The loops over a plain bitmap take four words at a time where all four are inside, then the rest one by one. \<open>f\<close> is
  done to each word together with that of the other bitmap.
\<close>

definition word_order :: "Bitmap \<Rightarrow> nat list" where
  "word_order b =
     (let k = m_size b div U64_VALUE_SIZE in [0..<k * U64_DIV_BASE] @ [k * U64_DIV_BASE..<length (m_data b)])"

definition zip_data :: "(u16 \<Rightarrow> u16 \<Rightarrow> u16) \<Rightarrow> Bitmap \<Rightarrow> Bitmap \<Rightarrow> Bitmap outcome" where
  "zip_data f a b =
     bindO (fold_outcome (\<lambda>i d. bindO (word_at d i) (\<lambda>x. bindO (word_at (m_data b) i) (\<lambda>y. put_word i (f x y) d))) (word_order a) (m_data a))
       (\<lambda>d. Ret (a\<lparr>m_data := d\<rparr>))"

text \<open>The complement changes all bits of a plain bitmap's words; in a compressed one it keeps the mark.\<close>

definition flip_word :: "u16 \<Rightarrow> u16" where
  "flip_word w =
     (if w AND COMPRESS_MASK \<noteq> 0 then (if w AND VALUE_MASK \<noteq> 0 then w AND NOT VALUE_MASK else w OR VALUE_MASK)
      else NOT w AND COUNT_MASK)"

definition bitmap_not :: "Bitmap \<Rightarrow> Bitmap outcome" where
  "bitmap_not b =
     (if \<not> m_compress b
      then bindO (fold_outcome (\<lambda>i d. bindO (word_at d i) (\<lambda>x. put_word i (NOT x) d)) (word_order b) (m_data b))
             (\<lambda>d. Ret (b\<lparr>m_data := d\<rparr>))
      else Ret (b\<lparr>m_data := map flip_word (m_data b)\<rparr>))"

text \<open>Equality is that of the words, with those of the last word that are outside the set. \<open>same\<close>: one object.\<close>

definition bitmap_eq :: "bool \<Rightarrow> Bitmap \<Rightarrow> Bitmap \<Rightarrow> bool" where
  "bitmap_eq same a b \<longleftrightarrow>
     same \<or>
     (m_compress a = m_compress b \<and> m_size a = m_size b \<and> length (m_data a) = length (m_data b) \<and> m_data a = m_data b \<and>
      (m_size a mod VALUE_SIZE \<noteq> 0 \<longrightarrow>
       last (m_data a) AND MASK (m_size a mod VALUE_SIZE) = last (m_data b) AND MASK (m_size a mod VALUE_SIZE)))"

text \<open>Whether any bit is set. A compressed word is cut to eight bits before it is looked at.\<close>

definition bitmap_any :: "Bitmap \<Rightarrow> bool outcome" where
  "bitmap_any b =
     (if m_null b then Ret False
      else if \<not> m_compress b then
        (if m_data b = [] then Fault OutOfRange
         else if list_ex (\<lambda>w. w \<noteq> 0) (butlast (m_data b)) then Ret True
         else Ret (last (m_data b) AND MASK (m_size b mod VALUE_SIZE) \<noteq> 0))
      else Ret (list_ex (\<lambda>w. let cur = ucast (ucast w :: byte) :: u16 in
                 if cur AND COMPRESS_MASK \<noteq> 0 then cur AND VALUE_MASK \<noteq> 0 else cur \<noteq> 0) (m_data b)))"

datatype 'a thrown = LogicError string | Value 'a

text \<open>
  A bitmap grows into new memory; what is then masked is the last of the old words. With no old word there is none.
\<close>

definition bitmap_resize :: "nat \<Rightarrow> bool \<Rightarrow> Bitmap \<Rightarrow> Bitmap thrown outcome" where
  "bitmap_resize n v b =
     (if m_compress b then Ret (LogicError ''compress bitmap not support resize'')
      else let len = words_for n; d = m_data b; left = m_size b mod VALUE_SIZE in
        if length d < len then
          (if d = [] then Fault OutOfRange
           else Ret (Value (b\<lparr>m_size := n, m_null := False,
             m_data := butlast d @ [if v then last d OR MASK left else last d AND MASK left] @
                       replicate (len - length d) (if v then - 1 else 0)\<rparr>)))
        else Ret (Value (b\<lparr>m_size := n, m_data := take len d\<rparr>)))"

section \<open>Loops over the members\<close>

text \<open>
  A callback has a state, and says whether to go on. Scanning a word from the bits \<open>ns\<close> on; the result has no
  position when the callback has stopped the loop.
\<close>

fun scan_up :: "(nat \<Rightarrow> 's \<Rightarrow> bool \<times> 's) \<Rightarrow> nat \<Rightarrow> u16 \<Rightarrow> nat list \<Rightarrow> nat \<Rightarrow> 's \<Rightarrow> 's \<times> nat option" where
  "scan_up cb sz w [] p s = (s, Some p)"
| "scan_up cb sz w (n # ns) p s =
     (if p < sz then
        (if w AND POS n \<noteq> 0
         then (case cb p s of (go, s') \<Rightarrow> if go then scan_up cb sz w ns (p + 1) s' else (s', None))
         else scan_up cb sz w ns (p + 1) s)
      else (s, Some p))"

fun words_up :: "(nat \<Rightarrow> 's \<Rightarrow> bool \<times> 's) \<Rightarrow> nat \<Rightarrow> bool \<Rightarrow> u16 list \<Rightarrow> nat \<Rightarrow> 's \<Rightarrow> 's \<times> nat option" where
  "words_up cb sz skip [] p s = (s, Some p)"
| "words_up cb sz skip (w # ws) p s =
     (if skip \<and> w = 0 then words_up cb sz skip ws (p + VALUE_SIZE) s
      else case scan_up cb sz w [0..<VALUE_SIZE] p s of
        (s', None) \<Rightarrow> (s', None)
      | (s', Some p') \<Rightarrow> words_up cb sz skip ws p' s')"

definition quad :: "u16 list \<Rightarrow> nat \<Rightarrow> u16 list outcome" where
  "quad d i = (if U64_DIV_BASE * (i + 1) \<le> length d then Ret (take U64_DIV_BASE (drop (U64_DIV_BASE * i) d)) else Fault OutOfRange)"

fun quads_up :: "(nat \<Rightarrow> 's \<Rightarrow> bool \<times> 's) \<Rightarrow> nat \<Rightarrow> u16 list \<Rightarrow> nat list \<Rightarrow> nat \<Rightarrow> 's \<Rightarrow> ('s \<times> nat option) outcome" where
  "quads_up cb sz d [] p s = Ret (s, Some p)"
| "quads_up cb sz d (i # is) p s =
     bindO (quad d i) (\<lambda>ws.
       if list_all (\<lambda>w. w = 0) ws then quads_up cb sz d is (p + U64_VALUE_SIZE) s
       else case words_up cb sz False ws p s of
         (s', None) \<Rightarrow> Ret (s', None)
       | (s', Some p') \<Rightarrow> quads_up cb sz d is p' s')"

definition bitmap_foreach :: "(nat \<Rightarrow> 's \<Rightarrow> bool \<times> 's) \<Rightarrow> Bitmap \<Rightarrow> 's \<Rightarrow> 's outcome" where
  "bitmap_foreach cb b s =
     (let k = m_size b div U64_VALUE_SIZE in
      bindO (quads_up cb (m_size b) (m_data b) [0..<k] 0 s) (\<lambda>r.
        case r of
          (s', None) \<Rightarrow> Ret s'
        | (s', Some p) \<Rightarrow> Ret (fst (words_up cb (m_size b) True (drop (k * U64_DIV_BASE) (m_data b)) p s'))))"

definition listPosAsc :: "Bitmap \<Rightarrow> nat list outcome" where
  "listPosAsc b = bitmap_foreach (\<lambda>p ps. (True, ps @ [p])) b []"

text \<open>
  Downwards there is no test against the size. The first word, the last of the bitmap, is scanned from the bit after the
  members on when the size is no multiple of 14.
\<close>

fun scan_down :: "(int \<Rightarrow> 's \<Rightarrow> bool \<times> 's) \<Rightarrow> u16 \<Rightarrow> nat list \<Rightarrow> int \<Rightarrow> 's \<Rightarrow> 's \<times> int option" where
  "scan_down cb w [] p s = (s, Some p)"
| "scan_down cb w (n # ns) p s =
     (if w AND POS n \<noteq> 0
      then (case cb p s of (go, s') \<Rightarrow> if go then scan_down cb w ns (p - 1) s' else (s', None))
      else scan_down cb w ns (p - 1) s)"

fun words_down :: "(int \<Rightarrow> 's \<Rightarrow> bool \<times> 's) \<Rightarrow> bool \<Rightarrow> u16 list \<Rightarrow> int \<Rightarrow> 's \<Rightarrow> 's \<times> int option" where
  "words_down cb skip [] p s = (s, Some p)"
| "words_down cb skip (w # ws) p s =
     (if skip \<and> w = 0 then words_down cb skip ws (p - int VALUE_SIZE) s
      else case scan_down cb w (rev [0..<VALUE_SIZE]) p s of
        (s', None) \<Rightarrow> (s', None)
      | (s', Some p') \<Rightarrow> words_down cb skip ws p' s')"

fun quads_down :: "(int \<Rightarrow> 's \<Rightarrow> bool \<times> 's) \<Rightarrow> u16 list \<Rightarrow> nat list \<Rightarrow> int \<Rightarrow> 's \<Rightarrow> ('s \<times> int option) outcome" where
  "quads_down cb d [] p s = Ret (s, Some p)"
| "quads_down cb d (i # is) p s =
     bindO (quad d i) (\<lambda>ws.
       if list_all (\<lambda>w. w = 0) ws then quads_down cb d is (p - int U64_VALUE_SIZE) s
       else case words_down cb False (rev ws) p s of
         (s', None) \<Rightarrow> Ret (s', None)
       | (s', Some p') \<Rightarrow> quads_down cb d is p' s')"

definition first_down :: "(int \<Rightarrow> 's \<Rightarrow> bool \<times> 's) \<Rightarrow> nat \<Rightarrow> u16 \<Rightarrow> int \<Rightarrow> 's \<Rightarrow> 's \<times> int option" where
  "first_down cb r w p s =
     (if w = 0 then (s, Some (p - int (if r = 0 then VALUE_SIZE else r)))
      else if r = 0 then scan_down cb w (rev [0..<VALUE_SIZE]) p s
      else scan_down cb w (rev [0..<r + 1]) (p + 1) s)"

definition bitmap_rforeach :: "(int \<Rightarrow> 's \<Rightarrow> bool \<times> 's) \<Rightarrow> Bitmap \<Rightarrow> 's \<Rightarrow> 's outcome" where
  "bitmap_rforeach cb b s =
     (let k = m_size b div U64_VALUE_SIZE; rest = rev (drop (k * U64_DIV_BASE) (m_data b)); p = int (m_size b) - 1 in
      case (if m_size b mod U64_VALUE_SIZE = 0 \<or> rest = [] then (s, Some p)
            else case first_down cb (m_size b mod VALUE_SIZE) (hd rest) p s of
              (s', None) \<Rightarrow> (s', None)
            | (s', Some p') \<Rightarrow> words_down cb True (tl rest) p' s') of
        (s', None) \<Rightarrow> Ret s'
      | (s', Some p') \<Rightarrow> bindO (quads_down cb (m_data b) (rev [0..<k]) p' s') (\<lambda>r. Ret (fst r)))"

section \<open>Iterators\<close>

text \<open>
  An iterator is a position of type \<^verbatim>\<open>int32_t\<close>, and it keeps the size as one. Sums with \<^verbatim>\<open>VALUE_SIZE\<close> and its quotients are those of
  \<^verbatim>\<open>uint32_t\<close>. \<^verbatim>\<open>operator!\<close> says whether it is on a member. The bitmap stays as it is while it is used.
\<close>

definition iterator_size :: "Bitmap \<Rightarrow> i32" where
  "iterator_size b = to_i32 (int (m_size b))"

definition on_member :: "Bitmap \<Rightarrow> i32 \<Rightarrow> bool" where
  "on_member b p \<longleftrightarrow> 0 \<le> p \<and> p < iterator_size b"

definition as_unsigned :: "i32 \<Rightarrow> nat" where
  "as_unsigned p = nat (p mod 2 ^ 32)"

text \<open>The search of a word from some bit on gives the position and whether it is a member; it stays below the size.\<close>

fun find_up :: "i32 \<Rightarrow> u16 \<Rightarrow> nat list \<Rightarrow> i32 \<Rightarrow> i32 \<times> bool" where
  "find_up sz w [] p = (p, False)"
| "find_up sz w (n # ns) p = (if p < sz then (if w AND POS n \<noteq> 0 then (p, True) else find_up sz w ns (p + 1)) else (p, False))"

fun next_words :: "i32 \<Rightarrow> u16 list \<Rightarrow> i32 \<Rightarrow> i32" where
  "next_words sz [] p = p"
| "next_words sz (w # ws) p =
     (if p < sz then
        (if w = 0 then next_words sz ws (to_i32 (p + int VALUE_SIZE))
         else case find_up sz w [0..<VALUE_SIZE] p of (q, hit) \<Rightarrow> if hit then q else next_words sz ws q)
      else p)"

definition iterator_next :: "Bitmap \<Rightarrow> i32 \<Rightarrow> i32 outcome" where
  "iterator_next b p0 =
     bindO (add32 p0 1) (\<lambda>p.
       let pos = as_unsigned p div VALUE_SIZE; left = as_unsigned p mod VALUE_SIZE; sz = iterator_size b in
       if left \<noteq> 0 then
         bindO (word_at (m_data b) pos) (\<lambda>v.
           case find_up sz v [left..<VALUE_SIZE] p of
             (q, hit) \<Rightarrow> Ret (if hit then q else next_words sz (drop (as_unsigned q div VALUE_SIZE) (m_data b)) q))
       else Ret (next_words sz (drop pos (m_data b)) p))"

definition iterator_begin :: "Bitmap \<Rightarrow> i32 outcome" where
  "iterator_begin b = iterator_next b (- 1)"

abbreviation stop_down :: "int \<Rightarrow> int option \<Rightarrow> bool \<times> int option" where
  "stop_down p s \<equiv> (False, Some p)"

fun prev_words :: "u16 list \<Rightarrow> int \<Rightarrow> int" where
  "prev_words [] p = p"
| "prev_words (w # ws) p =
     (if 0 \<le> p then
        (if w = 0 then prev_words ws (p - int VALUE_SIZE)
         else case scan_down stop_down w (rev [0..<VALUE_SIZE]) p None of
           (Some q, _) \<Rightarrow> q
         | (None, Some p') \<Rightarrow> prev_words ws p'
         | (None, None) \<Rightarrow> p)
      else p)"

definition reverse_next :: "Bitmap \<Rightarrow> i32 \<Rightarrow> i32 outcome" where
  "reverse_next b p0 =
     (if p0 \<le> 0 then Ret (- 1)
      else
        let p = p0 - 1; left = nat p mod VALUE_SIZE; pos = nat p div VALUE_SIZE in
        bindO (word_at (m_data b) pos) (\<lambda>v.
          if left \<noteq> VALUE_SIZE - 1 then
            (case scan_down stop_down v (rev [0..<left + 1]) p None of
               (Some q, _) \<Rightarrow> Ret q
             | (None, Some p') \<Rightarrow> Ret (prev_words (rev (take pos (m_data b))) p')
             | (None, None) \<Rightarrow> Ret p)
          else Ret (prev_words (rev (take (pos + 1) (m_data b))) p)))"

definition reverse_begin :: "Bitmap \<Rightarrow> i32 outcome" where
  "reverse_begin b = reverse_next b (iterator_size b)"

section \<open>Members\<close>

definition bit_at :: "u16 list \<Rightarrow> nat \<Rightarrow> bool" where
  "bit_at d i \<longleftrightarrow> bit (d ! (i div VALUE_SIZE)) (i mod VALUE_SIZE)"

definition members :: "u16 list \<Rightarrow> nat \<Rightarrow> nat \<Rightarrow> nat list" where
  "members d lo hi = filter (bit_at d) [lo..<hi]"

text \<open>A plain bitmap whose data has the length its size asks for.\<close>

definition bm_ok :: "Bitmap \<Rightarrow> bool" where
  "bm_ok b \<longleftrightarrow> \<not> m_compress b \<and> length (m_data b) = words_for (m_size b)"

definition elems :: "Bitmap \<Rightarrow> nat list" where
  "elems b = members (m_data b) 0 (m_size b)"

lemma and_POS: "w AND POS n \<noteq> 0 \<longleftrightarrow> bit w n"
  unfolding POS_def by (simp only: bit_iff_and_push_bit_not_eq_0)

lemma word_index: "i < m_size b \<Longrightarrow> bm_ok b \<Longrightarrow> i div VALUE_SIZE < length (m_data b)"
  by (auto simp: bm_ok_def words_for_def)

lemma words_for_less: "k < words_for n \<longleftrightarrow> VALUE_SIZE * k < n"
  by (auto simp: words_for_def)

lemma words_for_bound: "VALUE_SIZE * words_for n < n + VALUE_SIZE"
  by (auto simp: words_for_def)

lemma words_for_enough: "n \<le> VALUE_SIZE * words_for n"
  by (auto simp: words_for_def)

lemma bm_ok_new: "bm_ok (new_Bitmap n def)"
  by (simp add: bm_ok_def new_Bitmap_def)

lemma get_member: "bm_ok b \<Longrightarrow> i < m_size b \<Longrightarrow> bitmap_get i b = Ret (i \<in> set (elems b))"
  by (simp add: bitmap_get_def word_at_def word_index and_POS elems_def members_def bit_at_def)

lemma bit_POS: "bit (POS n) k \<longleftrightarrow> k = n \<and> n < 16"
  by (auto simp: POS_def bit_simps)

lemma bit_at_update:
  "i div VALUE_SIZE < length d \<Longrightarrow>
   bit_at (d[i div VALUE_SIZE := if v then d ! (i div VALUE_SIZE) OR POS (i mod VALUE_SIZE) else d ! (i div VALUE_SIZE) AND NPOS (i mod VALUE_SIZE)]) j =
     (if j = i then v else bit_at d j)"
proof -
  assume i: "i div VALUE_SIZE < length d"
  have small: "i mod VALUE_SIZE < 16" "j mod VALUE_SIZE < 16" by (simp_all add: less_trans [OF mod_less_divisor])
  show ?thesis
  proof (cases "j div VALUE_SIZE = i div VALUE_SIZE")
    case True
    then have "j = i \<longleftrightarrow> j mod VALUE_SIZE = i mod VALUE_SIZE" by (metis div_mult_mod_eq)
    then show ?thesis using i True small by (simp add: bit_at_def NPOS_def bit_or_iff bit_and_iff bit_not_iff bit_POS)
  next
    case False
    then show ?thesis by (auto simp: bit_at_def)
  qed
qed

lemma set_member:
  assumes "bm_ok b" and "i < m_size b"
  shows "\<exists>b'. bitmap_set i v b = Ret b' \<and> bm_ok b' \<and> m_size b' = m_size b \<and>
    set (elems b') = (if v then insert i (set (elems b)) else set (elems b) - {i})"
proof -
  let ?k = "i div VALUE_SIZE"
  have l: "?k < length (m_data b)" by (rule word_index [OF assms(2,1)])
  define d where "d = (m_data b)[?k := if v then m_data b ! ?k OR POS (i mod VALUE_SIZE) else m_data b ! ?k AND NPOS (i mod VALUE_SIZE)]"
  have "bitmap_set i v b = Ret (b\<lparr>m_data := d\<rparr>)"
    using l by (simp add: bitmap_set_def word_at_def put_word_def d_def)
  moreover have "bit_at d j = (if j = i then v else bit_at (m_data b) j)" for j
    unfolding d_def by (rule bit_at_update [OF l])
  ultimately show ?thesis using assms
    by (intro exI [of _ "b\<lparr>m_data := d\<rparr>"]) (auto simp: bm_ok_def elems_def members_def d_def)
qed

section \<open>The loops visit the members\<close>

fun visit :: "('p \<Rightarrow> 's \<Rightarrow> bool \<times> 's) \<Rightarrow> 'p list \<Rightarrow> 's \<Rightarrow> bool \<times> 's" where
  "visit cb [] s = (True, s)"
| "visit cb (p # ps) s = (case cb p s of (go, s') \<Rightarrow> if go then visit cb ps s' else (False, s'))"

lemma visit_append: "visit cb (xs @ ys) s = (case visit cb xs s of (go, s') \<Rightarrow> if go then visit cb ys s' else (False, s'))"
  by (induction xs arbitrary: s) (auto split: prod.split)

text \<open>What a loop returns that has visited \<open>ps\<close> and would go on at \<open>q\<close>.\<close>

definition went :: "bool \<times> 's \<Rightarrow> 'q \<Rightarrow> 's \<times> 'q option" where
  "went r q = (snd r, if fst r then Some q else None)"

lemma scan_up_visits:
  "base + a \<le> sz \<Longrightarrow> a \<le> VALUE_SIZE \<Longrightarrow>
   scan_up cb sz w [a..<VALUE_SIZE] (base + a) s =
     went (visit cb (filter (\<lambda>i. bit w (i - base)) [base + a..<min sz (base + VALUE_SIZE)]) s) (min sz (base + VALUE_SIZE))"
proof (induction "VALUE_SIZE - a" arbitrary: a s)
  case 0
  then show ?case by (simp add: went_def)
next
  case (Suc n)
  then have a: "a < VALUE_SIZE" by simp
  show ?case
  proof (cases "base + a < sz")
    case True
    have u: "[a..<VALUE_SIZE] = a # [Suc a..<VALUE_SIZE]" using a by (simp add: upt_conv_Cons)
    have v: "[base + a..<min sz (base + VALUE_SIZE)] = (base + a) # [base + Suc a..<min sz (base + VALUE_SIZE)]"
      using a True by (simp add: upt_conv_Cons)
    have IH: "scan_up cb sz w [Suc a..<VALUE_SIZE] (base + Suc a) t =
        went (visit cb (filter (\<lambda>i. bit w (i - base)) [base + Suc a..<min sz (base + VALUE_SIZE)]) t) (min sz (base + VALUE_SIZE))" for t
      by (rule Suc.hyps(1)) (use Suc.hyps(2) True a in simp_all)
    show ?thesis unfolding u v using True IH
      by (simp add: and_POS split: prod.split) (auto simp: went_def)
  next
    case False
    then have "base + a = sz" using Suc.prems by simp
    then show ?thesis using a by (simp add: upt_conv_Cons went_def)
  qed
qed

lemma members_word:
  assumes "a \<le> VALUE_SIZE"
  shows "filter (\<lambda>i. bit (d ! k) (i - VALUE_SIZE * k)) [VALUE_SIZE * k + a..<min sz (VALUE_SIZE * k + VALUE_SIZE)] =
    members d (VALUE_SIZE * k + a) (min sz (VALUE_SIZE * k + VALUE_SIZE))"
  unfolding members_def
proof (rule filter_cong [OF refl])
  fix i
  assume "i \<in> set [VALUE_SIZE * k + a..<min sz (VALUE_SIZE * k + VALUE_SIZE)]"
  then have "VALUE_SIZE * k \<le> i" "i < VALUE_SIZE * k + VALUE_SIZE" by auto
  then obtain j where "i = VALUE_SIZE * k + j" "j < VALUE_SIZE" by (metis le_iff_add nat_add_left_cancel_less)
  then show "bit (d ! k) (i - VALUE_SIZE * k) = bit_at d i" by (simp add: bit_at_def)
qed

lemma members_split: "lo \<le> mid \<Longrightarrow> mid \<le> hi \<Longrightarrow> members d lo hi = members d lo mid @ members d mid hi"
  unfolding members_def by (metis filter_append le_add_diff_inverse upt_add_eq_append)

lemma members_zero: "d ! k = 0 \<Longrightarrow> hi \<le> VALUE_SIZE * k + VALUE_SIZE \<Longrightarrow> members d (VALUE_SIZE * k) hi = []"
proof -
  assume z: "d ! k = 0" and "hi \<le> VALUE_SIZE * k + VALUE_SIZE"
  then have "i div VALUE_SIZE = k" if "i \<in> set [VALUE_SIZE * k..<hi]" for i
    using that by (intro div_nat_eqI) auto
  then show ?thesis using z by (auto simp: members_def bit_at_def filter_empty_conv)
qed

lemma members_none [simp]: "hi \<le> lo \<Longrightarrow> members d lo hi = []"
  by (simp add: members_def)

lemma went_visit:
  "visit cb (xs @ ys) s = (if fst (visit cb xs s) then visit cb ys (snd (visit cb xs s)) else visit cb xs s)"
  by (cases "visit cb xs s") (auto simp: visit_append)

lemma words_up_visits:
  assumes "\<forall>j<length ws. ws ! j = d ! (k + j)" and "ws \<noteq> [] \<longrightarrow> VALUE_SIZE * (k + length ws) < sz + VALUE_SIZE"
  shows "\<exists>q. words_up cb sz skip ws (VALUE_SIZE * k) s =
      went (visit cb (members d (VALUE_SIZE * k) (min sz (VALUE_SIZE * (k + length ws)))) s) q \<and>
    (VALUE_SIZE * (k + length ws) \<le> sz \<longrightarrow> q = VALUE_SIZE * (k + length ws))"
  using assms
proof (induction ws arbitrary: k s)
  case Nil
  then show ?case by (simp add: went_def)
next
  case (Cons w ws)
  have w: "w = d ! k" using Cons.prems(1) by auto
  have k: "VALUE_SIZE * k < sz" "ws \<noteq> [] \<longrightarrow> VALUE_SIZE * (k + 1) < sz" using Cons.prems(2) by (cases ws; simp)+
  have n: "\<forall>j<length ws. ws ! j = d ! (k + 1 + j)" using Cons.prems(1) by auto
  have m: "ws \<noteq> [] \<longrightarrow> VALUE_SIZE * (k + 1 + length ws) < sz + VALUE_SIZE" using Cons.prems(2) by simp
  have ln: "VALUE_SIZE * (k + length (w # ws)) = VALUE_SIZE * (k + 1 + length ws)" by simp
  let ?hi = "min sz (VALUE_SIZE * (k + 1 + length ws))"
  have split: "members d (VALUE_SIZE * k) ?hi =
      members d (VALUE_SIZE * k) (min sz (VALUE_SIZE * k + VALUE_SIZE)) @ members d (VALUE_SIZE * (k + 1)) ?hi"
  proof (cases "ws = []")
    case True
    then show ?thesis by (simp add: add.commute)
  next
    case False
    then have "min sz (VALUE_SIZE * k + VALUE_SIZE) = VALUE_SIZE * (k + 1)" using k by simp
    moreover have "VALUE_SIZE * (k + 1) \<le> ?hi" using k False by auto
    ultimately show ?thesis using members_split [of "VALUE_SIZE * k" "VALUE_SIZE * (k + 1)" ?hi d] by (simp add: add.commute)
  qed
  have rest: "\<exists>q. words_up cb sz skip ws (VALUE_SIZE * (k + 1)) t = went (visit cb (members d (VALUE_SIZE * (k + 1)) ?hi) t) q \<and>
    (VALUE_SIZE * (k + 1 + length ws) \<le> sz \<longrightarrow> q = VALUE_SIZE * (k + 1 + length ws))" for t
    by (rule Cons.IH [OF n m])
  show ?case
  proof (cases "skip \<and> w = 0")
    case True
    then have "members d (VALUE_SIZE * k) (min sz (VALUE_SIZE * k + VALUE_SIZE)) = []"
      using members_zero [of d k] w by simp
    then show ?thesis unfolding ln split using True rest [of s] by (simp add: add.commute)
  next
    case False
    let ?v = "visit cb (members d (VALUE_SIZE * k) (min sz (VALUE_SIZE * k + VALUE_SIZE))) s"
    have sc: "scan_up cb sz w [0..<VALUE_SIZE] (VALUE_SIZE * k) s = went ?v (min sz (VALUE_SIZE * k + VALUE_SIZE))"
      using scan_up_visits [of "VALUE_SIZE * k" 0 sz cb w s] members_word [of 0 d k sz] k w by simp
    show ?thesis
    proof (cases "fst ?v")
      case False
      then show ?thesis unfolding ln split using \<open>\<not> (skip \<and> w = 0)\<close> sc by (auto simp: went_def went_visit)
    next
      case True
      have e: "words_up cb sz skip (w # ws) (VALUE_SIZE * k) s = words_up cb sz skip ws (min sz (VALUE_SIZE * k + VALUE_SIZE)) (snd ?v)"
        using False sc True by (auto simp: went_def)
      show ?thesis
      proof (cases "ws = []")
        case True
        then show ?thesis unfolding ln split e using \<open>fst ?v\<close> by (auto simp: went_def went_visit)
      next
        case False
        then have "min sz (VALUE_SIZE * k + VALUE_SIZE) = VALUE_SIZE * (k + 1)" using k by simp
        then show ?thesis unfolding ln split e using rest [of "snd ?v"] True by (auto simp: went_visit)
      qed
    qed
  qed
qed

lemma quad_Ret: "U64_DIV_BASE * (i + 1) \<le> length d \<Longrightarrow> quad d i = Ret (take U64_DIV_BASE (drop (U64_DIV_BASE * i) d))"
  by (simp add: quad_def)

lemma quad_words:
  "U64_DIV_BASE * (i + 1) \<le> length d \<Longrightarrow> ws = take U64_DIV_BASE (drop (U64_DIV_BASE * i) d) \<Longrightarrow>
   length ws = U64_DIV_BASE \<and> (\<forall>j<length ws. ws ! j = d ! (U64_DIV_BASE * i + j))"
  by auto

lemma members_zeros:
  assumes "\<forall>j<n. d ! (k + j) = 0"
  shows "members d (VALUE_SIZE * k) (VALUE_SIZE * (k + n)) = []"
  using assms
proof (induction n arbitrary: k)
  case (Suc n)
  have "members d (VALUE_SIZE * k) (VALUE_SIZE * (k + Suc n)) =
      members d (VALUE_SIZE * k) (VALUE_SIZE * (k + 1)) @ members d (VALUE_SIZE * (k + 1)) (VALUE_SIZE * (k + 1 + n))"
    using members_split [of "VALUE_SIZE * k" "VALUE_SIZE * (k + 1)" "VALUE_SIZE * (k + Suc n)" d] by simp
  moreover have "members d (VALUE_SIZE * k) (VALUE_SIZE * (k + 1)) = []"
    using members_zero [of d k "VALUE_SIZE * (k + 1)"] Suc.prems by (auto dest: spec [of _ 0])
  moreover have "\<forall>j<n. d ! (k + 1 + j) = 0" using Suc.prems by auto
  from Suc.IH [OF this] have "members d (VALUE_SIZE * (k + 1)) (VALUE_SIZE * (k + 1 + n)) = []" .
  ultimately show ?case by simp
qed simp

lemma quads_up_visits:
  assumes "a \<le> k" and "U64_VALUE_SIZE * k \<le> sz" and "U64_DIV_BASE * k \<le> length d"
  shows "quads_up cb sz d [a..<k] (U64_VALUE_SIZE * a) s =
    Ret (went (visit cb (members d (U64_VALUE_SIZE * a) (U64_VALUE_SIZE * k)) s) (U64_VALUE_SIZE * k))"
  using assms(1)
proof (induction "k - a" arbitrary: a s)
  case 0
  then show ?case by (simp add: went_def)
next
  case (Suc n)
  then have a: "a < k" by simp
  then have b: "U64_DIV_BASE * (a + 1) \<le> length d" "U64_VALUE_SIZE * (a + 1) \<le> sz" using assms(2,3) by simp_all
  define ws where "ws = take U64_DIV_BASE (drop (U64_DIV_BASE * a) d)"
  have ws: "length ws = U64_DIV_BASE" "\<forall>j<length ws. ws ! j = d ! (U64_DIV_BASE * a + j)"
    using quad_words [OF b(1) ws_def] by simp_all
  have u: "[a..<k] = a # [Suc a..<k]" using a by (simp add: upt_conv_Cons)
  have IH: "quads_up cb sz d [Suc a..<k] (U64_VALUE_SIZE * Suc a) t =
      Ret (went (visit cb (members d (U64_VALUE_SIZE * Suc a) (U64_VALUE_SIZE * k)) t) (U64_VALUE_SIZE * k))" for t
    by (rule Suc.hyps(1)) (use Suc.hyps(2) a in simp_all)
  let ?m = "members d (U64_VALUE_SIZE * a) (U64_VALUE_SIZE * Suc a)"
  have split: "members d (U64_VALUE_SIZE * a) (U64_VALUE_SIZE * k) = ?m @ members d (U64_VALUE_SIZE * Suc a) (U64_VALUE_SIZE * k)"
    using a by (intro members_split) auto
  have p: "VALUE_SIZE * (U64_DIV_BASE * a) = U64_VALUE_SIZE * a" "VALUE_SIZE * (U64_DIV_BASE * a + length ws) = U64_VALUE_SIZE * Suc a"
    using ws(1) by simp_all
  show ?case
  proof (cases "list_all (\<lambda>w. w = 0) ws")
    case True
    then have "\<forall>j<U64_DIV_BASE. d ! (U64_DIV_BASE * a + j) = 0" using ws by (auto simp: list_all_length)
    from members_zeros [OF this] have "?m = []" using p ws(1) by (simp add: add.commute)
    then show ?thesis unfolding u split using True IH [of s] b(1)
      by (simp add: quad_Ret ws_def [symmetric] add.commute)
  next
    case False
    have "ws \<noteq> [] \<longrightarrow> VALUE_SIZE * (U64_DIV_BASE * a + length ws) < sz + VALUE_SIZE" using p b by simp
    from words_up_visits [OF ws(2) this, of cb False s]
    have w: "words_up cb sz False ws (U64_VALUE_SIZE * a) s = went (visit cb ?m s) (U64_VALUE_SIZE * Suc a)"
      unfolding p using b(2) by (auto simp: min_absorb2)
    show ?thesis
    proof (cases "fst (visit cb ?m s)")
      case True
      then show ?thesis unfolding u split using False w IH [of "snd (visit cb ?m s)"] b(1)
        by (simp add: quad_Ret ws_def [symmetric] went_visit) (simp add: went_def)
    next
      case stopped: False
      then show ?thesis unfolding u split using False w b(1)
        by (simp add: quad_Ret ws_def [symmetric] went_visit) (simp add: went_def)
    qed
  qed
qed

lemma foreach_visits:
  assumes "bm_ok b"
  shows "bitmap_foreach cb b s = Ret (snd (visit cb (elems b) s))"
proof -
  define k where "k = m_size b div U64_VALUE_SIZE"
  let ?d = "m_data b" and ?sz = "m_size b"
  have k: "U64_VALUE_SIZE * k \<le> ?sz" by (simp add: k_def)
  have l: "length ?d = words_for ?sz" using assms by (simp add: bm_ok_def)
  have "VALUE_SIZE * (U64_DIV_BASE * k) \<le> VALUE_SIZE * length ?d" using k words_for_enough [of ?sz] l by simp
  then have kl: "U64_DIV_BASE * k \<le> length ?d" by simp
  have q: "quads_up cb ?sz ?d [0..<k] 0 s = Ret (went (visit cb (members ?d 0 (U64_VALUE_SIZE * k)) s) (U64_VALUE_SIZE * k))"
    using quads_up_visits [of 0 k ?sz ?d cb s] k kl by simp
  define ws where "ws = drop (k * U64_DIV_BASE) ?d"
  have ws: "\<forall>j<length ws. ws ! j = ?d ! (U64_DIV_BASE * k + j)" using kl by (auto simp: ws_def mult.commute)
  have e: "U64_DIV_BASE * k + length ws = words_for ?sz" using kl l by (simp add: ws_def)
  have "ws \<noteq> [] \<longrightarrow> VALUE_SIZE * (U64_DIV_BASE * k + length ws) < ?sz + VALUE_SIZE" unfolding e using words_for_bound by blast
  from words_up_visits [OF ws this, of cb True] have
    w: "\<exists>q. words_up cb ?sz True ws (VALUE_SIZE * (U64_DIV_BASE * k)) t = went (visit cb (members ?d (VALUE_SIZE * (U64_DIV_BASE * k)) ?sz) t) q" for t
    unfolding e using words_for_enough [of ?sz] by (auto simp: min_absorb1)
  have s: "elems b = members ?d 0 (U64_VALUE_SIZE * k) @ members ?d (U64_VALUE_SIZE * k) ?sz"
    unfolding elems_def using k by (intro members_split) auto
  obtain q' where "words_up cb ?sz True ws (U64_VALUE_SIZE * k) (snd (visit cb (members ?d 0 (U64_VALUE_SIZE * k)) s)) =
      went (visit cb (members ?d (U64_VALUE_SIZE * k) ?sz) (snd (visit cb (members ?d 0 (U64_VALUE_SIZE * k)) s))) q'"
    using w [of "snd (visit cb (members ?d 0 (U64_VALUE_SIZE * k)) s)"] by auto
  then show ?thesis
    unfolding bitmap_foreach_def Let_def k_def [symmetric] ws_def [symmetric] q s
    by (simp add: went_visit) (simp add: went_def)
qed

text \<open>Downwards.\<close>

definition down :: "u16 list \<Rightarrow> nat \<Rightarrow> nat \<Rightarrow> int list" where
  "down d lo hi = rev (map int (members d lo hi))"

lemma down_split: "lo \<le> mid \<Longrightarrow> mid \<le> hi \<Longrightarrow> down d lo hi = down d mid hi @ down d lo mid"
  unfolding down_def by (simp add: members_split [of lo mid hi])

lemma down_none [simp]: "hi \<le> lo \<Longrightarrow> down d lo hi = []"
  by (simp add: down_def)

lemma scan_down_visits:
  "scan_down cb w (rev [0..<m]) (int base + int m - 1) s =
     went (visit cb (rev (map int (filter (\<lambda>i. bit w (i - base)) [base..<base + m]))) s) (int base - 1)"
proof (induction m arbitrary: s)
  case 0
  then show ?case by (simp add: went_def)
next
  case (Suc m)
  have IH: "scan_down cb w (rev [0..<m]) (int base + int m - 1) t =
      went (visit cb (rev (map int (filter (\<lambda>i. bit w (i - base)) [base..<base + m]))) t) (int base - 1)" for t
    by (rule Suc.IH)
  show ?case using IH
    by (simp add: and_POS split: prod.split) (auto simp: went_def)
qed

lemma down_word:
  assumes "m \<le> VALUE_SIZE"
  shows "rev (map int (filter (\<lambda>i. bit (d ! k) (i - VALUE_SIZE * k)) [VALUE_SIZE * k..<VALUE_SIZE * k + m])) =
    down d (VALUE_SIZE * k) (VALUE_SIZE * k + m)"
  using members_word [of 0 d k "VALUE_SIZE * k + m"] assms by (simp add: down_def min_absorb1)

lemma words_down_visits:
  "\<forall>j<length ws. ws ! j = d ! (k + j) \<Longrightarrow>
   words_down cb skip (rev ws) (int (VALUE_SIZE * (k + length ws)) - 1) s =
     went (visit cb (down d (VALUE_SIZE * k) (VALUE_SIZE * (k + length ws))) s) (int (VALUE_SIZE * k) - 1)"
proof (induction ws arbitrary: s rule: rev_induct)
  case Nil
  then show ?case by (simp add: went_def)
next
  case (snoc w ws)
  let ?n = "k + length ws"
  have w: "w = d ! ?n" and ws: "\<forall>j<length ws. ws ! j = d ! (k + j)" using snoc.prems by (auto simp: nth_append split: if_splits)
  have IH: "words_down cb skip (rev ws) (int (VALUE_SIZE * ?n) - 1) t =
      went (visit cb (down d (VALUE_SIZE * k) (VALUE_SIZE * ?n)) t) (int (VALUE_SIZE * k) - 1)" for t
    by (rule snoc.IH [OF ws])
  have split: "down d (VALUE_SIZE * k) (VALUE_SIZE * (k + length (ws @ [w]))) =
      down d (VALUE_SIZE * ?n) (VALUE_SIZE * ?n + VALUE_SIZE) @ down d (VALUE_SIZE * k) (VALUE_SIZE * ?n)"
    using down_split [of "VALUE_SIZE * k" "VALUE_SIZE * ?n" "VALUE_SIZE * ?n + VALUE_SIZE" d] by (simp add: algebra_simps)
  have p: "int (VALUE_SIZE * (k + length (ws @ [w]))) - 1 = int (VALUE_SIZE * ?n) + int VALUE_SIZE - 1" by simp
  have sc: "scan_down cb w (rev [0..<VALUE_SIZE]) (int (VALUE_SIZE * ?n) + int VALUE_SIZE - 1) s =
      went (visit cb (down d (VALUE_SIZE * ?n) (VALUE_SIZE * ?n + VALUE_SIZE)) s) (int (VALUE_SIZE * ?n) - 1)"
    unfolding scan_down_visits w using down_word [of VALUE_SIZE d ?n] by simp
  show ?case
  proof (cases "skip \<and> w = 0")
    case True
    then have "members d (VALUE_SIZE * ?n) (VALUE_SIZE * ?n + VALUE_SIZE) = []" using w by (intro members_zero) auto
    then have "down d (VALUE_SIZE * ?n) (VALUE_SIZE * ?n + VALUE_SIZE) = []" by (simp add: down_def)
    then show ?thesis unfolding split p using True IH [of s] by simp
  next
    case False
    then show ?thesis unfolding split p using sc IH [of "snd (visit cb (down d (VALUE_SIZE * ?n) (VALUE_SIZE * ?n + VALUE_SIZE)) s)"]
      by (cases "fst (visit cb (down d (VALUE_SIZE * ?n) (VALUE_SIZE * ?n + VALUE_SIZE)) s)") (auto simp: went_visit went_def)
  qed
qed

lemma quads_down_visits:
  assumes "U64_DIV_BASE * k \<le> length d"
  shows "quads_down cb d (rev [0..<k]) (int (U64_VALUE_SIZE * k) - 1) s = Ret (went (visit cb (down d 0 (U64_VALUE_SIZE * k)) s) (- 1))"
  using assms
proof (induction k arbitrary: s)
  case 0
  then show ?case by (simp add: went_def)
next
  case (Suc k)
  then have b: "U64_DIV_BASE * (k + 1) \<le> length d" by simp
  define ws where "ws = take U64_DIV_BASE (drop (U64_DIV_BASE * k) d)"
  have ws: "length ws = U64_DIV_BASE" "\<forall>j<length ws. ws ! j = d ! (U64_DIV_BASE * k + j)"
    using quad_words [OF b ws_def] by simp_all
  have IH: "quads_down cb d (rev [0..<k]) (int (U64_VALUE_SIZE * k) - 1) t = Ret (went (visit cb (down d 0 (U64_VALUE_SIZE * k)) t) (- 1))" for t
    by (rule Suc.IH) (use b in simp)
  let ?m = "down d (U64_VALUE_SIZE * k) (U64_VALUE_SIZE * Suc k)"
  have split: "down d 0 (U64_VALUE_SIZE * Suc k) = ?m @ down d 0 (U64_VALUE_SIZE * k)" by (rule down_split) simp_all
  have p: "VALUE_SIZE * (U64_DIV_BASE * k) = U64_VALUE_SIZE * k" "VALUE_SIZE * (U64_DIV_BASE * k + length ws) = U64_VALUE_SIZE * Suc k"
    using ws(1) by simp_all
  have w: "words_down cb False (rev ws) (int (U64_VALUE_SIZE * Suc k) - 1) s = went (visit cb ?m s) (int (U64_VALUE_SIZE * k) - 1)"
    using words_down_visits [OF ws(2), of cb False s] unfolding p .
  have u: "rev [0..<Suc k] = k # rev [0..<k]" by simp
  show ?case
  proof (cases "list_all (\<lambda>w. w = 0) ws")
    case True
    then have "\<forall>j<U64_DIV_BASE. d ! (U64_DIV_BASE * k + j) = 0" using ws by (auto simp: list_all_length)
    from members_zeros [OF this] have "?m = []" using p ws(1) by (simp add: down_def add.commute)
    moreover have "int (U64_VALUE_SIZE * Suc k) - 1 - int U64_VALUE_SIZE = int (U64_VALUE_SIZE * k) - 1" by simp
    ultimately show ?thesis unfolding u split quads_down.simps quad_Ret [OF b] bindO.simps ws_def [symmetric]
      using True IH [of s] by (simp only: if_True append_Nil)
  next
    case False
    then show ?thesis unfolding u split using w IH [of "snd (visit cb ?m s)"] b
      by (cases "fst (visit cb ?m s)") (auto simp: quad_Ret ws_def [symmetric] went_visit went_def)
  qed
qed

lemma rforeach_visits:
  assumes "bm_ok b"
  shows "bitmap_rforeach cb b s =
    Ret (snd (visit cb (down (m_data b) 0 (m_size b + (if m_size b mod VALUE_SIZE = 0 then 0 else 1))) s))"
proof -
  define k where "k = m_size b div U64_VALUE_SIZE"
  define r where "r = m_size b mod VALUE_SIZE"
  let ?d = "m_data b" and ?sz = "m_size b"
  let ?hi = "?sz + (if r = 0 then 0 else 1)"
  have k: "U64_VALUE_SIZE * k \<le> ?sz" by (simp add: k_def)
  have l: "length ?d = words_for ?sz" using assms by (simp add: bm_ok_def)
  have "VALUE_SIZE * (U64_DIV_BASE * k) \<le> VALUE_SIZE * length ?d" using k words_for_enough [of ?sz] l by simp
  then have kl: "U64_DIV_BASE * k \<le> length ?d" by simp
  define ws where "ws = drop (k * U64_DIV_BASE) ?d"
  show ?thesis
  proof (cases "?sz mod U64_VALUE_SIZE = 0")
    case True
    then have z: "?sz = U64_VALUE_SIZE * k" by (auto simp: k_def)
    then have "r = 0" by (simp add: r_def)
    then show ?thesis
      unfolding bitmap_rforeach_def Let_def k_def [symmetric] r_def [symmetric]
      using True quads_down_visits [OF kl, of cb s] z by (simp add: went_def)
  next
    case False
    then have "U64_VALUE_SIZE * k < ?sz" using k by (metis le_neq_implies_less mod_mult_self1_is_0)
    then have "VALUE_SIZE * (U64_DIV_BASE * k) < ?sz" by simp
    then have "U64_DIV_BASE * k < words_for ?sz" using words_for_less by blast
    then have ne: "ws \<noteq> []" using l by (simp add: ws_def mult.commute)
    then obtain vs v where vs: "ws = vs @ [v]" by (meson rev_exhaust)
    define n where "n = U64_DIV_BASE * k + length vs"
    have len: "words_for ?sz = Suc n" using l kl arg_cong [OF vs, of length] by (simp add: n_def ws_def)
    have at: "\<forall>j<length ws. ws ! j = ?d ! (U64_DIV_BASE * k + j)" using kl by (auto simp: ws_def mult.commute)
    have v: "v = ?d ! n" using at by (auto simp: vs n_def dest!: spec [of _ "length vs"])
    have vs_at: "\<forall>j<length vs. vs ! j = ?d ! (U64_DIV_BASE * k + j)"
      using at unfolding vs by (metis length_append_singleton less_SucI nth_append)
    have sz: "?sz = VALUE_SIZE * n + (if r = 0 then VALUE_SIZE else r)"
    proof -
      have "VALUE_SIZE * n < ?sz" using words_for_less [of n ?sz] len by simp
      moreover have "?sz \<le> VALUE_SIZE * n + VALUE_SIZE" using words_for_enough [of ?sz] len by simp
      ultimately obtain e where e: "?sz = VALUE_SIZE * n + e" "0 < e" "e \<le> VALUE_SIZE"
        by (metis add_le_cancel_left less_imp_add_positive)
      then show ?thesis by (cases "e = VALUE_SIZE") (auto simp: r_def)
    qed
    let ?m = "down ?d (VALUE_SIZE * n) ?hi"
    have "(if v = 0 then (s, Some (int ?sz - 1 - int (if r = 0 then VALUE_SIZE else r)))
        else if r = 0 then scan_down cb v (rev [0..<VALUE_SIZE]) (int ?sz - 1) s
        else scan_down cb v (rev [0..<r + 1]) (int ?sz - 1 + 1) s) = went (visit cb ?m s) (int (VALUE_SIZE * n) - 1)"
    proof (cases "v = 0")
      case True
      then have "members ?d (VALUE_SIZE * n) ?hi = []" using v sz by (intro members_zero) (auto simp: r_def)
      then show ?thesis using True sz by (simp add: down_def went_def)
    next
      case False
      show ?thesis
      proof (cases "r = 0")
        case True
        then show ?thesis using False sz scan_down_visits [of cb v VALUE_SIZE "VALUE_SIZE * n" s] down_word [of VALUE_SIZE ?d n] v
          by simp
      next
        case r: False
        have "r + 1 \<le> VALUE_SIZE" by (simp add: r_def Suc_leI)
        then show ?thesis using False r sz scan_down_visits [of cb v "r + 1" "VALUE_SIZE * n" s] down_word [of "r + 1" ?d n] v
          by (simp del: upt_Suc)
      qed
    qed
    then have first: "first_down cb r (hd (rev ws)) (int ?sz - 1) s = went (visit cb ?m s) (int (VALUE_SIZE * n) - 1)"
      by (simp add: first_down_def vs)
    have rest: "words_down cb True (tl (rev ws)) (int (VALUE_SIZE * n) - 1) t =
        went (visit cb (down ?d (U64_VALUE_SIZE * k) (VALUE_SIZE * n)) t) (int (U64_VALUE_SIZE * k) - 1)" for t
      using words_down_visits [OF vs_at, of cb True t] by (simp add: vs n_def)
    have quads: "quads_down cb ?d (rev [0..<k]) (int (U64_VALUE_SIZE * k) - 1) t = Ret (went (visit cb (down ?d 0 (U64_VALUE_SIZE * k)) t) (- 1))" for t
      by (rule quads_down_visits [OF kl])
    have kn: "U64_VALUE_SIZE * k \<le> VALUE_SIZE * n" by (simp add: n_def)
    have nh: "VALUE_SIZE * n \<le> ?hi" using sz by simp
    have split: "down ?d 0 ?hi = ?m @ down ?d (U64_VALUE_SIZE * k) (VALUE_SIZE * n) @ down ?d 0 (U64_VALUE_SIZE * k)"
      using down_split [of 0 "VALUE_SIZE * n" ?hi ?d] down_split [of 0 "U64_VALUE_SIZE * k" "VALUE_SIZE * n" ?d] kn nh by simp
    show ?thesis
      unfolding bitmap_rforeach_def Let_def k_def [symmetric] r_def [symmetric] ws_def [symmetric] split
      using False ne first rest quads
      by (simp add: went_visit) (auto simp: went_def)
  qed
qed

text \<open>The same search with positions that have no bound, for the proofs.\<close>

abbreviation stop_here :: "nat \<Rightarrow> nat option \<Rightarrow> bool \<times> nat option" where
  "stop_here p s \<equiv> (False, Some p)"

fun plain_words :: "nat \<Rightarrow> u16 list \<Rightarrow> nat \<Rightarrow> nat" where
  "plain_words sz [] p = p"
| "plain_words sz (w # ws) p =
     (if p < sz then
        (if w = 0 then plain_words sz ws (p + VALUE_SIZE)
         else case scan_up stop_here sz w [0..<VALUE_SIZE] p None of
           (Some q, _) \<Rightarrow> q
         | (None, Some p') \<Rightarrow> plain_words sz ws p'
         | (None, None) \<Rightarrow> p)
      else p)"

definition plain_next :: "Bitmap \<Rightarrow> nat \<Rightarrow> nat outcome" where
  "plain_next b p =
     (let pos = p div VALUE_SIZE; left = p mod VALUE_SIZE in
      if left \<noteq> 0 then
        bindO (word_at (m_data b) pos) (\<lambda>v.
          case scan_up stop_here (m_size b) v [left..<VALUE_SIZE] p None of
            (Some q, _) \<Rightarrow> Ret q
          | (None, Some p') \<Rightarrow> Ret (plain_words (m_size b) (drop (p' div VALUE_SIZE) (m_data b)) p')
          | (None, None) \<Rightarrow> Ret p)
      else Ret (plain_words (m_size b) (drop pos (m_data b)) p))"

text \<open>A size whose positions all fit, with a word more.\<close>

definition iterable :: "Bitmap \<Rightarrow> bool" where
  "iterable b \<longleftrightarrow> m_size b + VALUE_SIZE \<le> 2 ^ 31"

lemma iterator_size_fits: "iterable b \<Longrightarrow> iterator_size b = int (m_size b)"
  unfolding iterable_def iterator_size_def by (rule to_i32_id) (simp add: in_i32_def)

lemma on_member_fits: "iterable b \<Longrightarrow> on_member b p \<longleftrightarrow> 0 \<le> p \<and> p < int (m_size b)"
  by (simp add: on_member_def iterator_size_fits)

lemma find_up_plain:
  "\<exists>q. (scan_up stop_here sz w ns p None = (Some q, None) \<and> find_up (int sz) w ns (int p) = (int q, True) \<or>
        scan_up stop_here sz w ns p None = (None, Some q) \<and> find_up (int sz) w ns (int p) = (int q, False)) \<and> q \<le> p + length ns"
proof (induction ns arbitrary: p)
  case (Cons n ns)
  from Cons.IH [of "p + 1"] show ?case by (auto simp: add.commute intro: exI [of _ p])
qed simp

lemma next_words_plain: "sz + VALUE_SIZE \<le> 2 ^ 31 \<Longrightarrow> next_words (int sz) ws (int p) = int (plain_words sz ws p)"
proof (induction ws arbitrary: p)
  case (Cons w ws)
  have t: "p < sz \<Longrightarrow> to_i32 (int p + int VALUE_SIZE) = int (p + VALUE_SIZE)"
    using Cons.prems by (subst to_i32_id) (simp_all add: in_i32_def)
  obtain q where "scan_up stop_here sz w [0..<VALUE_SIZE] p None = (Some q, None) \<and> find_up (int sz) w [0..<VALUE_SIZE] (int p) = (int q, True) \<or>
      scan_up stop_here sz w [0..<VALUE_SIZE] p None = (None, Some q) \<and> find_up (int sz) w [0..<VALUE_SIZE] (int p) = (int q, False)"
    using find_up_plain by blast
  then show ?case using Cons t Cons.IH [OF Cons.prems, of "p + VALUE_SIZE"] by auto
qed simp

lemma iterator_next_plain:
  assumes "iterable b" and "p \<le> m_size b"
  shows "iterator_next b (int p - 1) = bindO (plain_next b p) (\<lambda>q. Ret (int q))"
proof -
  have u: "as_unsigned (int q) = q" if "q < 2 ^ 32" for q using that by (simp add: as_unsigned_def)
  have p: "add32 (int p - 1) 1 = Ret (int p)" and p32: "p + VALUE_SIZE < 2 ^ 32"
    using assms by (simp_all add: iterable_def in_i32_def)
  let ?v = "m_data b ! (p div VALUE_SIZE)" and ?ns = "[p mod VALUE_SIZE..<VALUE_SIZE]"
  obtain q where q: "scan_up stop_here (m_size b) ?v ?ns p None = (Some q, None) \<and> find_up (int (m_size b)) ?v ?ns (int p) = (int q, True) \<or>
      scan_up stop_here (m_size b) ?v ?ns p None = (None, Some q) \<and> find_up (int (m_size b)) ?v ?ns (int p) = (int q, False)"
    "q \<le> p + length ?ns" using find_up_plain by blast
  have "q < 2 ^ 32" using q(2) p32 by simp
  then show ?thesis using q(1) p32 next_words_plain [OF assms(1) [unfolded iterable_def]]
    unfolding iterator_next_def plain_next_def p bindO.simps Let_def iterator_size_fits [OF assms(1)]
    by (auto simp: u word_at_def)
qed

text \<open>Iterators stop at the next member.\<close>

lemma visit_stop:
  "went (visit stop_here ps None) q = (case ps of [] \<Rightarrow> (None, Some q) | p # _ \<Rightarrow> (Some p, None))"
  "went (visit stop_down is None) r = (case is of [] \<Rightarrow> (None, Some r) | i # _ \<Rightarrow> (Some i, None))"
  by (cases ps; simp add: went_def) (cases "is"; simp add: went_def)

definition found :: "nat list \<Rightarrow> nat \<Rightarrow> nat \<Rightarrow> bool" where
  "found ms sz q \<longleftrightarrow> (case ms of [] \<Rightarrow> sz \<le> q | m # _ \<Rightarrow> q = m)"

lemma found_append: "found (xs @ ys) sz q \<longleftrightarrow> (if xs = [] then found ys sz q else q = hd xs)"
  by (cases xs) (auto simp: found_def)

lemma plain_words_finds:
  "\<forall>j<length ws. ws ! j = d ! (k + j) \<Longrightarrow> k + length ws = words_for sz \<Longrightarrow>
   found (members d (VALUE_SIZE * k) sz) sz (plain_words sz ws (VALUE_SIZE * k))"
proof (induction ws arbitrary: k)
  case Nil
  then show ?case using words_for_enough [of sz] by (simp add: found_def)
next
  case (Cons w ws)
  have w: "w = d ! k" and at: "\<forall>j<length ws. ws ! j = d ! (Suc k + j)" using Cons.prems(1) by auto
  have IH: "found (members d (VALUE_SIZE * Suc k) sz) sz (plain_words sz ws (VALUE_SIZE * Suc k))"
    by (rule Cons.IH [OF at]) (use Cons.prems(2) in simp)
  have k: "VALUE_SIZE * k < sz" using words_for_less [of k sz] Cons.prems(2) by simp
  let ?hi = "min sz (VALUE_SIZE * k + VALUE_SIZE)"
  have split: "members d (VALUE_SIZE * k) sz = members d (VALUE_SIZE * k) ?hi @ members d (VALUE_SIZE * Suc k) sz"
  proof (cases "VALUE_SIZE * Suc k \<le> sz")
    case True
    then show ?thesis using members_split [of "VALUE_SIZE * k" "VALUE_SIZE * Suc k" sz d] by (simp add: min_absorb2 add.commute)
  next
    case False
    then show ?thesis by (simp add: min_absorb1)
  qed
  have beyond: "sz \<le> VALUE_SIZE * Suc k \<Longrightarrow> ws = []"
    using words_for_less [of "Suc k" sz] Cons.prems(2) by (cases ws) auto
  show ?case
  proof (cases "w = 0")
    case True
    then have "members d (VALUE_SIZE * k) ?hi = []" using w by (intro members_zero) auto
    then show ?thesis unfolding split using True k IH by (simp add: add.commute)
  next
    case False
    have sc: "scan_up stop_here sz w [0..<VALUE_SIZE] (VALUE_SIZE * k) None =
        (case members d (VALUE_SIZE * k) ?hi of [] \<Rightarrow> (None, Some ?hi) | p # _ \<Rightarrow> (Some p, None))"
      using scan_up_visits [of "VALUE_SIZE * k" 0 sz stop_here w None] members_word [of 0 d k sz] k w visit_stop(1) by simp
    show ?thesis
    proof (cases "members d (VALUE_SIZE * k) ?hi")
      case (Cons m ms)
      then show ?thesis unfolding split found_append using sc k False by simp
    next
      case Nil
      then have e: "plain_words sz (w # ws) (VALUE_SIZE * k) = plain_words sz ws ?hi" using sc k False by simp
      show ?thesis
      proof (cases "sz \<le> VALUE_SIZE * Suc k")
        case True
        then have "?hi = sz" "ws = []" using beyond by auto
        then show ?thesis unfolding split found_append e using Nil True by (simp add: found_def)
      next
        case False
        then have "?hi = VALUE_SIZE * Suc k" by simp
        then show ?thesis unfolding split found_append e using Nil IH by simp
      qed
    qed
  qed
qed

lemma plain_next_finds:
  assumes "bm_ok b" and "p \<le> m_size b"
  shows "\<exists>q. plain_next b p = Ret q \<and> found (members (m_data b) p (m_size b)) (m_size b) q"
proof -
  let ?d = "m_data b" and ?sz = "m_size b"
  define k where "k = p div VALUE_SIZE"
  define a where "a = p mod VALUE_SIZE"
  have p: "p = VALUE_SIZE * k + a" "a < VALUE_SIZE" by (simp_all add: k_def a_def)
  have l: "length ?d = words_for ?sz" using assms by (simp add: bm_ok_def)
  have rest: "found (members ?d (VALUE_SIZE * j) ?sz) ?sz (plain_words ?sz (drop j ?d) (VALUE_SIZE * j))" if "j \<le> words_for ?sz" for j
    by (rule plain_words_finds) (use that l in simp_all)
  show ?thesis
  proof (cases "a = 0")
    case True
    have "VALUE_SIZE * k \<le> VALUE_SIZE * words_for ?sz" using words_for_enough [of ?sz] assms(2) p True by linarith
    then have "k \<le> words_for ?sz" by simp
    from rest [OF this] show ?thesis
      unfolding plain_next_def Let_def k_def [symmetric] a_def [symmetric] using True p by auto
  next
    case False
    then have "VALUE_SIZE * k < ?sz" using p assms(2) by linarith
    then have k: "k < length ?d" using words_for_less [of k ?sz] l by simp
    let ?hi = "min ?sz (VALUE_SIZE * k + VALUE_SIZE)"
    have sc: "scan_up stop_here ?sz (?d ! k) [a..<VALUE_SIZE] p None =
        (case members ?d p ?hi of [] \<Rightarrow> (None, Some ?hi) | m # _ \<Rightarrow> (Some m, None))"
      using scan_up_visits [of "VALUE_SIZE * k" a ?sz stop_here "?d ! k" None] members_word [of a ?d k ?sz] assms(2) p visit_stop(1) by simp
    have ev: "plain_next b p =
        (case members ?d p ?hi of [] \<Rightarrow> Ret (plain_words ?sz (drop (?hi div VALUE_SIZE) ?d) ?hi) | m # _ \<Rightarrow> Ret m)"
      unfolding plain_next_def Let_def k_def [symmetric] a_def [symmetric] using False k sc
      by (simp add: word_at_def split: list.split)
    show ?thesis
    proof (cases "VALUE_SIZE * Suc k \<le> ?sz")
      case True
      then have hi: "?hi = VALUE_SIZE * Suc k" by simp
      have "members ?d p ?sz = members ?d p ?hi @ members ?d (VALUE_SIZE * Suc k) ?sz"
        unfolding hi using p True by (intro members_split) auto
      moreover have "found (members ?d (VALUE_SIZE * Suc k) ?sz) ?sz (plain_words ?sz (drop (Suc k) ?d) (VALUE_SIZE * Suc k))"
        by (rule rest) (use k l in simp)
      ultimately show ?thesis unfolding ev hi by (cases "members ?d p (VALUE_SIZE * Suc k)") (auto simp: found_append found_def)
    next
      case False
      then have hi: "?hi = ?sz" by simp
      have "plain_words ?sz ws ?sz = ?sz" for ws by (cases ws) simp_all
      then show ?thesis unfolding ev hi by (cases "members ?d p ?sz") (auto simp: found_def)
    qed
  qed
qed

lemma iterator_next_finds:
  assumes "bm_ok b" and "iterable b" and "p \<le> m_size b"
  shows "\<exists>q. iterator_next b (int p - 1) = Ret (int q) \<and> found (members (m_data b) p (m_size b)) (m_size b) q"
  using plain_next_finds [OF assms(1,3)] iterator_next_plain [OF assms(2,3)] by auto

definition found_down :: "int list \<Rightarrow> int \<Rightarrow> bool" where
  "found_down ms q \<longleftrightarrow> (case ms of [] \<Rightarrow> q < 0 | m # _ \<Rightarrow> q = m)"

lemma found_down_append: "found_down (xs @ ys) q \<longleftrightarrow> (if xs = [] then found_down ys q else q = hd xs)"
  by (cases xs) (auto simp: found_down_def)

lemma prev_words_finds: "k \<le> length d \<Longrightarrow> found_down (down d 0 (VALUE_SIZE * k)) (prev_words (rev (take k d)) (int (VALUE_SIZE * k) - 1))"
proof (induction k)
  case 0
  then show ?case by (simp add: found_down_def)
next
  case (Suc k)
  have IH: "found_down (down d 0 (VALUE_SIZE * k)) (prev_words (rev (take k d)) (int (VALUE_SIZE * k) - 1))"
    by (rule Suc.IH) (use Suc.prems in simp)
  let ?m = "down d (VALUE_SIZE * k) (VALUE_SIZE * k + VALUE_SIZE)"
  have split: "down d 0 (VALUE_SIZE * Suc k) = ?m @ down d 0 (VALUE_SIZE * k)"
    using down_split [of 0 "VALUE_SIZE * k" "VALUE_SIZE * Suc k" d] by (simp add: add.commute)
  have t: "rev (take (Suc k) d) = d ! k # rev (take k d)" using Suc.prems by (simp add: take_Suc_conv_app_nth)
  have p: "int (VALUE_SIZE * Suc k) - 1 = int (VALUE_SIZE * k) + int VALUE_SIZE - 1" by simp
  have sc: "scan_down stop_down (d ! k) (rev [0..<VALUE_SIZE]) (int (VALUE_SIZE * k) + int VALUE_SIZE - 1) None =
      (case ?m of [] \<Rightarrow> (None, Some (int (VALUE_SIZE * k) - 1)) | m # _ \<Rightarrow> (Some m, None))"
    unfolding scan_down_visits visit_stop using down_word [of VALUE_SIZE d k] by simp
  have z: "d ! k = 0 \<Longrightarrow> ?m = []" using members_zero [of d k] by (simp add: down_def)
  show ?case
    unfolding split t p found_down_append using sc z IH by (auto split: list.split)
qed

lemma reverse_next_finds:
  assumes "bm_ok b" and "p \<le> m_size b"
  shows "\<exists>q. reverse_next b (int p) = Ret q \<and> found_down (down (m_data b) 0 p) q"
proof (cases "p = 0")
  case True
  then show ?thesis by (simp add: reverse_next_def found_down_def)
next
  case False
  let ?d = "m_data b" and ?sz = "m_size b"
  define k where "k = (p - 1) div VALUE_SIZE"
  define a where "a = (p - 1) mod VALUE_SIZE"
  have "p - 1 = VALUE_SIZE * k + a" by (simp add: k_def a_def)
  then have p: "p = VALUE_SIZE * k + a + 1" "a < VALUE_SIZE" using False by (simp_all add: a_def)
  have l: "length ?d = words_for ?sz" using assms by (simp add: bm_ok_def)
  have "VALUE_SIZE * k < ?sz" using p assms(2) by linarith
  then have k: "k < length ?d" using words_for_less [of k ?sz] l by simp
  have n: "nat (int p - 1) = p - 1" using False by simp
  have ev: "reverse_next b (int p) =
      (if a \<noteq> VALUE_SIZE - 1 then
         (case scan_down stop_down (?d ! k) (rev [0..<a + 1]) (int p - 1) None of
            (Some q, _) \<Rightarrow> Ret q
          | (None, Some p') \<Rightarrow> Ret (prev_words (rev (take k ?d)) p')
          | (None, None) \<Rightarrow> Ret (int p - 1))
       else Ret (prev_words (rev (take (k + 1) ?d)) (int p - 1)))"
    unfolding reverse_next_def Let_def n k_def [symmetric] a_def [symmetric] using False k by (simp add: word_at_def)
  show ?thesis
  proof (cases "a = VALUE_SIZE - 1")
    case True
    then have "p = VALUE_SIZE * Suc k" using p by simp
    then show ?thesis unfolding ev using True prev_words_finds [of "Suc k" ?d] k by simp
  next
    case False
    let ?m = "down ?d (VALUE_SIZE * k) p"
    have split: "down ?d 0 p = ?m @ down ?d 0 (VALUE_SIZE * k)" using p by (intro down_split) auto
    have "scan_down stop_down (?d ! k) (rev [0..<a + 1]) (int p - 1) None =
        (case ?m of [] \<Rightarrow> (None, Some (int (VALUE_SIZE * k) - 1)) | m # _ \<Rightarrow> (Some m, None))"
      using scan_down_visits [of stop_down "?d ! k" "a + 1" "VALUE_SIZE * k" None] down_word [of "a + 1" ?d k] p
      by (simp del: upt_Suc add: visit_stop split: list.split)
    then show ?thesis unfolding ev split using False prev_words_finds [of k ?d] k
      by (cases ?m) (auto simp: found_down_append found_down_def)
  qed
qed

text \<open>A loop \<^verbatim>\<open>for (auto it = b.begin(); !it; it.next())\<close>, for at most \<open>n\<close> rounds.\<close>

fun collect :: "(int \<Rightarrow> int outcome) \<Rightarrow> Bitmap \<Rightarrow> nat \<Rightarrow> int \<Rightarrow> int list outcome" where
  "collect nxt b 0 p = Ret []"
| "collect nxt b (Suc n) p =
     (if on_member b p then bindO (nxt p) (\<lambda>q. bindO (collect nxt b n q) (\<lambda>ps. Ret (p # ps))) else Ret [])"

lemma members_Cons:
  assumes "members d lo hi = m # ms"
  shows "members d (Suc m) hi = ms" and "lo \<le> m" and "m < hi"
proof -
  have "m \<in> set (members d lo hi)" using assms by simp
  then show m: "lo \<le> m" "m < hi" by (auto simp: members_def)
  have s: "members d lo hi = members d lo m @ members d m hi" using m by (intro members_split) auto
  have "members d lo m = []"
  proof (rule ccontr)
    assume "members d lo m \<noteq> []"
    then have "m \<in> set (members d lo m)" using assms s by (cases "members d lo m") auto
    then show False by (auto simp: members_def)
  qed
  with s assms have "members d m hi = m # ms" by simp
  moreover have "bit_at d m" using \<open>m \<in> set (members d lo hi)\<close> by (simp add: members_def)
  then have "members d m hi = m # members d (Suc m) hi" using m by (simp add: members_def upt_conv_Cons)
  ultimately show "members d (Suc m) hi = ms" by simp
qed

lemma collect_up:
  "bm_ok b \<Longrightarrow> iterable b \<Longrightarrow> lo \<le> m_size b \<Longrightarrow> found (members (m_data b) lo (m_size b)) (m_size b) q \<Longrightarrow>
   length (members (m_data b) lo (m_size b)) \<le> n \<Longrightarrow>
   collect (iterator_next b) b (Suc n) (int q) = Ret (map int (members (m_data b) lo (m_size b)))"
proof (induction n arbitrary: lo q)
  case 0
  then show ?case by (simp add: found_def on_member_fits)
next
  case (Suc n)
  show ?case
  proof (cases "members (m_data b) lo (m_size b)")
    case Nil
    then show ?thesis using Suc.prems by (simp add: found_def on_member_fits)
  next
    case (Cons m ms)
    note m = members_Cons [OF Cons]
    have q: "q = m" using Suc.prems(4) Cons by (simp add: found_def)
    obtain r where r: "iterator_next b (int (Suc m) - 1) = Ret (int r)" "found (members (m_data b) (Suc m) (m_size b)) (m_size b) r"
      using iterator_next_finds [OF Suc.prems(1,2), of "Suc m"] m(3) by auto
    have "collect (iterator_next b) b (Suc n) (int r) = Ret (map int (members (m_data b) (Suc m) (m_size b)))"
      by (rule Suc.IH [OF Suc.prems(1,2) _ r(2)]) (use m Cons Suc.prems in auto)
    then show ?thesis using q m r(1) Cons by (simp add: on_member_fits [OF Suc.prems(2)] del: collect.simps(2)) (simp add: on_member_fits [OF Suc.prems(2)])
  qed
qed

lemma down_Cons:
  assumes "down d 0 hi = i # is"
  shows "\<exists>m. i = int m \<and> m < hi \<and> down d 0 m = is"
proof -
  from assms have e: "members d 0 hi = map nat (rev is) @ [nat i]" and i: "0 \<le> i" "map (int \<circ> nat) (rev is) = rev is"
  proof -
    from assms have r: "map int (members d 0 hi) = rev is @ [i]" unfolding down_def by (metis rev.simps(2) rev_rev_ident)
    then have "map nat (map int (members d 0 hi)) = map nat (rev is @ [i])" by simp
    then show "members d 0 hi = map nat (rev is) @ [nat i]" by (simp add: comp_def)
    have "\<forall>x \<in> set (rev is @ [i]). 0 \<le> x" unfolding r [symmetric] by auto
    then show "0 \<le> i" "map (int \<circ> nat) (rev is) = rev is" by (auto intro: map_idI)
  qed
  let ?m = "nat i"
  have "?m \<in> set (members d 0 hi)" using e by simp
  then have m: "?m < hi" by (auto simp: members_def)
  have s: "members d 0 hi = members d 0 ?m @ members d ?m hi" using m by (intro members_split) auto
  have srt: "sorted_wrt (<) (members d 0 hi)" unfolding members_def by (intro sorted_wrt_filter) (simp add: sorted_wrt_upt)
  have "members d ?m hi = [?m]"
  proof -
    have "?m \<in> set (members d ?m hi)" using \<open>?m \<in> set (members d 0 hi)\<close> s by (auto simp: members_def)
    then obtain ys zs where y: "members d ?m hi = ys @ ?m # zs" by (meson split_list)
    have "\<forall>x \<in> set ys. x < ?m" using srt unfolding s y by (auto simp: sorted_wrt_append)
    moreover have "\<forall>x \<in> set ys. ?m \<le> x" using y by (metis (no_types) UnCI atLeastLessThan_iff filter_is_subset members_def set_append set_upt subsetD)
    ultimately have "ys = []" by (metis last_in_set leD)
    moreover have "zs = []"
    proof (rule ccontr)
      assume "zs \<noteq> []"
      then have "last (members d 0 hi) = last zs" using s y by simp
      then have "last zs = ?m" using e by simp
      moreover have "?m < last zs" using srt \<open>zs \<noteq> []\<close> unfolding s y by (auto simp: sorted_wrt_append)
      ultimately show False by simp
    qed
    ultimately show ?thesis using y by simp
  qed
  with s e have "members d 0 ?m = map nat (rev is)" by simp
  then have "map int (members d 0 ?m) = rev is" using i(2) by (simp only: map_map)
  then have "down d 0 ?m = is" by (simp add: down_def)
  then show ?thesis using m i(1) by (intro exI [of _ ?m]) simp
qed

lemma collect_down:
  "bm_ok b \<Longrightarrow> iterable b \<Longrightarrow> hi \<le> m_size b \<Longrightarrow> found_down (down (m_data b) 0 hi) q \<Longrightarrow> length (down (m_data b) 0 hi) \<le> n \<Longrightarrow>
   collect (reverse_next b) b (Suc n) q = Ret (down (m_data b) 0 hi)"
proof (induction n arbitrary: hi q)
  case 0
  then show ?case by (simp add: found_down_def on_member_fits)
next
  case (Suc n)
  show ?case
  proof (cases "down (m_data b) 0 hi")
    case Nil
    then show ?thesis using Suc.prems by (simp add: found_down_def on_member_fits)
  next
    case (Cons i "is")
    from down_Cons [OF Cons] obtain m where m: "i = int m" "m < hi" "down (m_data b) 0 m = is" by blast
    have q: "q = int m" using Suc.prems(4) Cons m by (simp add: found_down_def)
    obtain r where r: "reverse_next b (int m) = Ret r" "found_down (down (m_data b) 0 m) r"
      using reverse_next_finds [OF Suc.prems(1), of m] m Suc.prems(3) by auto
    have "collect (reverse_next b) b (Suc n) r = Ret (down (m_data b) 0 m)"
      by (rule Suc.IH [OF Suc.prems(1,2) _ r(2)]) (use m Cons Suc.prems in auto)
    then show ?thesis using q m r(1) Cons Suc.prems(3) by (simp add: on_member_fits [OF Suc.prems(2)] del: collect.simps(2)) (simp add: on_member_fits [OF Suc.prems(2)])
  qed
qed

section \<open>Word by word\<close>

lemma word_order_all: "bm_ok b \<Longrightarrow> word_order b = [0..<length (m_data b)]"
proof -
  assume "bm_ok b"
  then have l: "length (m_data b) = words_for (m_size b)" by (simp add: bm_ok_def)
  have "U64_VALUE_SIZE * (m_size b div U64_VALUE_SIZE) \<le> m_size b" by simp
  then have "VALUE_SIZE * (m_size b div U64_VALUE_SIZE * U64_DIV_BASE) \<le> VALUE_SIZE * words_for (m_size b)"
    using words_for_enough [of "m_size b"] by linarith
  then have "m_size b div U64_VALUE_SIZE * U64_DIV_BASE \<le> length (m_data b)" by (simp add: l)
  from upt_add_eq_append [of 0 _ "length (m_data b) - m_size b div U64_VALUE_SIZE * U64_DIV_BASE"] this show ?thesis
    by (metis (no_types, lifting) word_order_def le0 le_add_diff_inverse)
qed

lemma fold_words:
  assumes "\<And>i d. length d = l \<Longrightarrow> i < l \<Longrightarrow> body i d = Ret (d[i := g i (d ! i)])"
  shows "length d = l \<Longrightarrow> n \<le> l \<Longrightarrow> fold_outcome body [0..<n] d = Ret (map (\<lambda>i. g i (d ! i)) [0..<n] @ drop n d)"
proof (induction n)
  case (Suc n)
  let ?r = "map (\<lambda>i. g i (d ! i)) [0..<n] @ drop n d"
  have "?r ! n = d ! n" "length ?r = l"
    "?r[n := g n (d ! n)] = map (\<lambda>i. g i (d ! i)) [0..<n] @ g n (d ! n) # drop (Suc n) d"
    using Suc.prems by (simp_all add: nth_append list_update_append Cons_nth_drop_Suc [symmetric])
  then show ?case using Suc assms [of ?r n] by (simp add: fold_outcome_append)
qed simp

lemma zip_data_pointwise:
  assumes "bm_ok a" and "length (m_data b) = length (m_data a)"
  shows "zip_data f a b = Ret (a\<lparr>m_data := map2 f (m_data a) (m_data b)\<rparr>)"
proof -
  have "fold_outcome (\<lambda>i d. bindO (word_at d i) (\<lambda>x. bindO (word_at (m_data b) i) (\<lambda>y. put_word i (f x y) d)))
      [0..<length (m_data a)] (m_data a) = Ret (map (\<lambda>i. f (m_data a ! i) (m_data b ! i)) [0..<length (m_data a)] @ drop (length (m_data a)) (m_data a))"
    using assms(2)
    by (intro fold_words [where l = "length (m_data a)" and g = "\<lambda>i x. f x (m_data b ! i)"]) (simp_all add: word_at_def put_word_def)
  also have "map (\<lambda>i. f (m_data a ! i) (m_data b ! i)) [0..<length (m_data a)] = map2 f (m_data a) (m_data b)"
    using assms(2) by (intro nth_equalityI) simp_all
  finally show ?thesis unfolding zip_data_def word_order_all [OF assms(1)] by simp
qed

lemma not_pointwise:
  assumes "bm_ok b"
  shows "bitmap_not b = Ret (b\<lparr>m_data := map NOT (m_data b)\<rparr>)"
proof -
  have "fold_outcome (\<lambda>i d. bindO (word_at d i) (\<lambda>x. put_word i (NOT x) d)) [0..<length (m_data b)] (m_data b) =
      Ret (map (\<lambda>i. NOT (m_data b ! i)) [0..<length (m_data b)] @ drop (length (m_data b)) (m_data b))"
    by (intro fold_words [where l = "length (m_data b)" and g = "\<lambda>i x. NOT x"]) (simp_all add: word_at_def put_word_def)
  also have "map (\<lambda>i. NOT (m_data b ! i)) [0..<length (m_data b)] = map NOT (m_data b)"
    by (intro nth_equalityI) simp_all
  finally show ?thesis using assms word_order_all [OF assms] by (simp add: bitmap_not_def bm_ok_def)
qed

text \<open>Words whose two high bits are clear.\<close>

definition tidy :: "Bitmap \<Rightarrow> bool" where
  "tidy b \<longleftrightarrow> (\<forall>w \<in> set (m_data b). w AND COUNT_MASK = w)"

lemma bit_MASK: "n \<le> 16 \<Longrightarrow> bit (MASK n) i \<longleftrightarrow> i < n"
proof -
  assume "n \<le> 16"
  have "MASK n = mask n" by (simp add: MASK_def POS_def mask_eq_exp_minus_1 push_bit_eq_mult)
  then show ?thesis using \<open>n \<le> 16\<close> by (auto simp: bit_mask_iff)
qed

lemma bit_COUNT_MASK: "bit COUNT_MASK i \<longleftrightarrow> i < VALUE_SIZE"
proof -
  have c: "COUNT_MASK = MASK VALUE_SIZE" by (simp add: COUNT_MASK_def MASK_def POS_def)
  show ?thesis unfolding c by (rule bit_MASK) simp
qed

lemma tidy_bit: "w AND COUNT_MASK = w \<Longrightarrow> bit w i \<Longrightarrow> i < VALUE_SIZE"
  by (metis bit_COUNT_MASK bit_and_iff)

lemma word_nonzero: "w AND COUNT_MASK = w \<Longrightarrow> w \<noteq> 0 \<longleftrightarrow> (\<exists>i<VALUE_SIZE. bit w i)"
  using tidy_bit by (metis bit_0_eq bit_eqI bot_apply bot_bool_def)

lemma elems_iff: "i \<in> set (elems b) \<longleftrightarrow> i < m_size b \<and> bit_at (m_data b) i"
  by (auto simp: elems_def members_def)

lemma any_words:
  "\<forall>w \<in> set d. w AND COUNT_MASK = w \<Longrightarrow> list_ex (\<lambda>w. w \<noteq> 0) (take k d) \<longleftrightarrow> (\<exists>i. i < VALUE_SIZE * min k (length d) \<and> bit_at d i)"
proof
  assume t: "\<forall>w \<in> set d. w AND COUNT_MASK = w" and "list_ex (\<lambda>w. w \<noteq> 0) (take k d)"
  then obtain j where j: "j < min k (length d)" "d ! j \<noteq> 0" by (auto simp: list_ex_length)
  with t obtain n where n: "n < VALUE_SIZE" "bit (d ! j) n" using word_nonzero by auto
  have "VALUE_SIZE * Suc j \<le> VALUE_SIZE * min k (length d)" using j(1) by (intro mult_le_mono2) simp
  then have "VALUE_SIZE * j + n < VALUE_SIZE * min k (length d)" using n(1) by simp
  moreover have "bit_at d (VALUE_SIZE * j + n)" using n by (simp add: bit_at_def)
  ultimately show "\<exists>i. i < VALUE_SIZE * min k (length d) \<and> bit_at d i" by blast
next
  assume t: "\<forall>w \<in> set d. w AND COUNT_MASK = w" and "\<exists>i. i < VALUE_SIZE * min k (length d) \<and> bit_at d i"
  then obtain i where "i < min k (length d) * VALUE_SIZE" and b: "bit_at d i" by (auto simp: mult.commute)
  from less_mult_imp_div_less [OF this(1)] b
  have i: "i div VALUE_SIZE < min k (length d)" "bit (d ! (i div VALUE_SIZE)) (i mod VALUE_SIZE)"
    by (simp_all only: bit_at_def)
  then have "d ! (i div VALUE_SIZE) \<noteq> 0" by auto
  then show "list_ex (\<lambda>w. w \<noteq> 0) (take k d)" using i(1) by (auto simp: list_ex_length)
qed

section \<open>Properties\<close>

lemma visit_push: "visit (\<lambda>p ps. (True, ps @ [p])) xs acc = (True, acc @ xs)"
  by (induction xs arbitrary: acc) simp_all

text \<open>
  C12. In a plain bitmap of fewer than \<^verbatim>\<open>2^31 - 13\<close> positions, every loop upwards visits the members in order, up to the one at which
  the callback stops it, and the two iterators give the members in order and in reverse.
\<close>
theorem loops_visit_members:
  assumes "bm_ok b" and "iterable b"
  shows "bitmap_foreach cb b s = Ret (snd (visit cb (elems b) s)) \<and>
    listPosAsc b = Ret (elems b) \<and>
    bindO (iterator_begin b) (collect (iterator_next b) b (Suc (m_size b))) = Ret (map int (elems b)) \<and>
    bindO (reverse_begin b) (collect (reverse_next b) b (Suc (m_size b))) = Ret (rev (map int (elems b)))"
proof -
  have n: "length (elems b) \<le> m_size b"
    unfolding elems_def members_def using length_filter_le [of "bit_at (m_data b)" "[0..<m_size b]"] by simp
  obtain q where q: "iterator_next b (int 0 - 1) = Ret (int q)" "found (members (m_data b) 0 (m_size b)) (m_size b) q"
    using iterator_next_finds [OF assms, of 0] by auto
  have "collect (iterator_next b) b (Suc (m_size b)) (int q) = Ret (map int (elems b))"
    using collect_up [OF assms _ q(2), of "m_size b"] n by (simp add: elems_def)
  then have up: "bindO (iterator_begin b) (collect (iterator_next b) b (Suc (m_size b))) = Ret (map int (elems b))"
    using q(1) by (simp add: iterator_begin_def)
  obtain r where r: "reverse_next b (int (m_size b)) = Ret r" "found_down (down (m_data b) 0 (m_size b)) r"
    using reverse_next_finds [OF assms(1), of "m_size b"] by auto
  have "collect (reverse_next b) b (Suc (m_size b)) r = Ret (down (m_data b) 0 (m_size b))"
    by (rule collect_down [OF assms _ r(2)]) (use n in \<open>simp_all add: down_def elems_def\<close>)
  then have dn: "bindO (reverse_begin b) (collect (reverse_next b) b (Suc (m_size b))) = Ret (rev (map int (elems b)))"
    using r(1) by (simp add: reverse_begin_def iterator_size_fits [OF assms(2)] down_def elems_def)
  have "listPosAsc b = Ret (elems b)" by (simp add: listPosAsc_def foreach_visits [OF assms(1)] visit_push)
  then show ?thesis by (intro conjI foreach_visits [OF assms(1)] up dn)
qed

text \<open>With \<^verbatim>\<open>2^31\<close> positions or more the size of an iterator is negative, and it is never on a member.\<close>

lemma large_never_on_member: "2 ^ 31 \<le> m_size b \<Longrightarrow> m_size b < 2 ^ 32 \<Longrightarrow> \<not> on_member b p"
proof -
  assume n: "2 ^ 31 \<le> m_size b" "m_size b < 2 ^ 32"
  have "(int (m_size b) + 2 ^ 31) mod 2 ^ 32 = int (m_size b) + 2 ^ 31 - 2 ^ 32"
    using n by (intro int_mod_pos_eq [where q = 1]) auto
  then have "iterator_size b < 0" using n(2) by (simp add: iterator_size_def to_i32_def)
  then show ?thesis by (simp add: on_member_def)
qed

theorem loops_visit_members_witness:
  "listPosAsc (new_Bitmap 5 0x12) = Ret (elems (new_Bitmap 5 0x12)) \<and> elems (new_Bitmap 5 0x12) = [1, 4] \<and>
   bindO (iterator_begin (new_Bitmap 5 0x12)) (collect (iterator_next (new_Bitmap 5 0x12)) (new_Bitmap 5 0x12) 6) = Ret [1, 4]"
proof -
  have e: "elems (new_Bitmap 5 0x12) = [1, 4]" by code_simp
  have n: "m_size (new_Bitmap 5 0x12) = 5" by (simp add: new_Bitmap_def)
  have "iterable (new_Bitmap 5 0x12)" by (simp add: iterable_def n)
  from loops_visit_members [OF bm_ok_new this, of "\<lambda>p s. (True, s)" "()"] e show ?thesis unfolding n by auto
qed

text \<open>
  The loop downwards visits the members in reverse, and before them the position \<^verbatim>\<open>m_size\<close> itself when the size is no
  multiple of 14 and the bit after the last one is set in the last word.
\<close>
theorem rforeach_one_too_many:
  assumes "bm_ok b"
  shows "bitmap_rforeach cb b s =
    Ret (snd (visit cb ((if m_size b mod VALUE_SIZE \<noteq> 0 \<and> bit_at (m_data b) (m_size b) then [int (m_size b)] else []) @
                        rev (map int (elems b))) s))"
  unfolding rforeach_visits [OF assms] by (auto simp: down_def elems_def members_def)

theorem rforeach_one_too_many_witness:
  "bitmap_rforeach (\<lambda>p ps. (True, ps @ [p])) (new_Bitmap 1 0xFF) [] = Ret [1, 0]"
  unfolding rforeach_one_too_many [OF bm_ok_new]
  by (simp add: elems_def members_def bit_at_def new_Bitmap_def words_for_def bit_simps)

text \<open>
  Growing into new words changes the last old word: with \<open>False\<close> its members are lost when the size was a multiple of
  14; with \<open>True\<close> all its positions become members when it was not. Other positions keep what they had.
\<close>
theorem resize_changes_last_word:
  assumes "bm_ok b" and "m_data b \<noteq> []" and "words_for (m_size b) < words_for n"
  shows "\<exists>b'. bitmap_resize n v b = Ret (Value b') \<and> bm_ok b' \<and> m_size b' = n \<and>
    (\<forall>i<m_size b. bit_at (m_data b') i \<longleftrightarrow>
       (if i < VALUE_SIZE * (words_for (m_size b) - 1) then bit_at (m_data b) i
        else if v then bit_at (m_data b) i \<or> m_size b mod VALUE_SIZE \<noteq> 0
        else bit_at (m_data b) i \<and> m_size b mod VALUE_SIZE \<noteq> 0))"
proof -
  let ?d = "m_data b" and ?r = "m_size b mod VALUE_SIZE"
  define l where "l = words_for (m_size b) - 1"
  have "words_for (m_size b) \<noteq> 0" using assms(1,2) by (metis bm_ok_def length_0_conv)
  then have len: "length ?d = Suc l" using assms(1) by (simp add: bm_ok_def l_def)
  define w where "w = (if v then last ?d OR MASK ?r else last ?d AND MASK ?r)"
  define d' where "d' = butlast ?d @ [w] @ replicate (words_for n - length ?d) (if v then - 1 else 0)"
  let ?b = "b\<lparr>m_size := n, m_null := False, m_data := d'\<rparr>"
  have ev: "bitmap_resize n v b = Ret (Value ?b)"
    using assms by (simp add: bitmap_resize_def bm_ok_def Let_def d'_def w_def)
  have ok: "bm_ok ?b" using assms len by (simp add: bm_ok_def d'_def l_def)
  have small: "?r \<le> 16" by (simp add: less_imp_le less_trans [OF mod_less_divisor])
  have "bit_at d' i \<longleftrightarrow> (if i < VALUE_SIZE * l then bit_at ?d i else if v then bit_at ?d i \<or> ?r \<noteq> 0 else bit_at ?d i \<and> ?r \<noteq> 0)"
    if i: "i < m_size b" for i
  proof (cases "i < VALUE_SIZE * l")
    case True
    then have "i div VALUE_SIZE < l" by (simp add: less_mult_imp_div_less mult.commute)
    then show ?thesis using True len by (simp add: bit_at_def d'_def nth_append nth_butlast)
  next
    case False
    have "i div VALUE_SIZE < Suc l" using word_index [OF i assms(1)] len by simp
    moreover have "l \<le> i div VALUE_SIZE" using False by (simp add: less_eq_div_iff_mult_less_eq mult.commute)
    ultimately have k: "i div VALUE_SIZE = l" by simp
    have "last ?d = ?d ! l" using len by (metis diff_Suc_1 last_conv_nth length_0_conv nat.distinct(1))
    moreover have "d' ! l = w" using len by (simp add: d'_def nth_append)
    moreover have "?r \<noteq> 0 \<Longrightarrow> i mod VALUE_SIZE < ?r"
    proof -
      assume r: "?r \<noteq> 0"
      have "VALUE_SIZE * l < m_size b" using words_for_less [of l "m_size b"] len assms(1) by (simp add: bm_ok_def)
      moreover have "m_size b \<le> VALUE_SIZE * Suc l" using words_for_enough [of "m_size b"] len assms(1) by (simp add: bm_ok_def)
      moreover have "m_size b \<noteq> VALUE_SIZE * Suc l" using r by auto
      ultimately have "m_size b div VALUE_SIZE = l" by (intro div_nat_eqI) auto
      then have "m_size b = VALUE_SIZE * l + ?r" by (metis mult_div_mod_eq)
      moreover have "i = VALUE_SIZE * l + i mod VALUE_SIZE" using k by (metis mult_div_mod_eq)
      ultimately show ?thesis using i by linarith
    qed
    ultimately show ?thesis using False k small by (auto simp: bit_at_def w_def bit_or_iff bit_and_iff bit_MASK)
  qed
  then show ?thesis using ev ok by (intro exI [of _ ?b]) (simp add: l_def)
qed

definition full_word :: Bitmap where
  "full_word = \<lparr>m_compress = False, m_size = 14, m_null = False, m_data = [0x2001]\<rparr>"

lemma full_word_facts: "bm_ok full_word" "m_data full_word \<noteq> []" "words_for (m_size full_word) < words_for 20"
  by (simp_all add: full_word_def bm_ok_def words_for_def)

theorem resize_changes_last_word_witness:
  "\<exists>b'. bitmap_resize 20 False full_word = Ret (Value b') \<and> bit_at (m_data full_word) 0 \<and> \<not> bit_at (m_data b') 0"
proof -
  obtain b' where "bitmap_resize 20 False full_word = Ret (Value b')" and
    b: "\<forall>i<m_size full_word. bit_at (m_data b') i \<longleftrightarrow>
       (if i < VALUE_SIZE * (words_for (m_size full_word) - 1) then bit_at (m_data full_word) i
        else if False then bit_at (m_data full_word) i \<or> m_size full_word mod VALUE_SIZE \<noteq> 0
        else bit_at (m_data full_word) i \<and> m_size full_word mod VALUE_SIZE \<noteq> 0)"
    using resize_changes_last_word [OF full_word_facts, of False] by blast
  moreover have "\<not> bit_at (m_data b') 0" using b by (simp add: full_word_def words_for_def)
  moreover have "bit_at (m_data full_word) 0" by (simp add: full_word_def bit_at_def)
  ultimately show ?thesis by blast
qed

text \<open>
  Whether there is a member: of a plain bitmap whose size is a multiple of 14, the last fourteen positions are not looked at.
\<close>
theorem any_misses_last_word:
  assumes "bm_ok b" and "tidy b" and "0 < m_size b" and "\<not> m_null b"
  shows "bitmap_any b = Ret (\<exists>i \<in> set (elems b). m_size b mod VALUE_SIZE \<noteq> 0 \<or> i < m_size b - VALUE_SIZE)"
proof -
  let ?d = "m_data b" and ?r = "m_size b mod VALUE_SIZE" and ?sz = "m_size b"
  define l where "l = words_for ?sz - 1"
  have "words_for ?sz \<noteq> 0" using words_for_less [of 0 ?sz] assms(3) by simp
  then have len: "length ?d = Suc l" and le: "words_for ?sz = Suc l" using assms(1) by (simp_all add: bm_ok_def l_def)
  then have ne: "?d \<noteq> []" by auto
  have bl: "butlast ?d = take l ?d" using len by (simp add: butlast_conv_take)
  have la: "last ?d = ?d ! l" using len ne by (simp add: last_conv_nth)
  have lo: "VALUE_SIZE * l < ?sz" using words_for_less [of l ?sz] le by simp
  have hi: "?sz \<le> VALUE_SIZE * Suc l" using words_for_enough [of ?sz] le by simp
  have small: "?r \<le> 16" by (simp add: less_imp_le less_trans [OF mod_less_divisor])
  have t: "\<forall>w \<in> set ?d. w AND COUNT_MASK = w" using assms(2) by (simp add: tidy_def)
  have front: "list_ex (\<lambda>w. w \<noteq> 0) (butlast ?d) \<longleftrightarrow> (\<exists>i<VALUE_SIZE * l. bit_at ?d i)"
    unfolding bl any_words [OF t, of l] using len by simp
  have rear: "last ?d AND MASK ?r \<noteq> 0 \<longleftrightarrow> (\<exists>n<?r. bit_at ?d (VALUE_SIZE * l + n))"
  proof -
    have "last ?d AND MASK ?r \<noteq> 0 \<longleftrightarrow> (\<exists>n. bit (?d ! l AND MASK ?r) n)"
      unfolding la by (metis bit_0_eq bit_eqI bot_apply bot_bool_def)
    also have "\<dots> \<longleftrightarrow> (\<exists>n<?r. bit (?d ! l) n)" using bit_MASK [OF small] by (auto simp: bit_and_iff)
    also have "\<dots> \<longleftrightarrow> (\<exists>n<?r. bit_at ?d (VALUE_SIZE * l + n))"
    proof -
      have "bit_at ?d (VALUE_SIZE * l + n) = bit (?d ! l) n" if "n < ?r" for n
        using less_trans [OF that mod_less_divisor] by (simp add: bit_at_def)
      then show ?thesis by blast
    qed
    finally show ?thesis .
  qed
  have "bitmap_any b = Ret ((\<exists>i<VALUE_SIZE * l. bit_at ?d i) \<or> (\<exists>n<?r. bit_at ?d (VALUE_SIZE * l + n)))"
    using assms(1,4) ne unfolding bitmap_any_def bm_ok_def front rear by auto
  moreover have "((\<exists>i<VALUE_SIZE * l. bit_at ?d i) \<or> (\<exists>n<?r. bit_at ?d (VALUE_SIZE * l + n))) \<longleftrightarrow>
      (\<exists>i \<in> set (elems b). ?r \<noteq> 0 \<or> i < ?sz - VALUE_SIZE)"
  proof (cases "?r = 0")
    case True
    have "?sz = VALUE_SIZE * Suc l" using lo hi True by presburger
    then show ?thesis using True by (auto simp: elems_iff)
  next
    case False
    then have "?sz \<noteq> VALUE_SIZE * Suc l" by auto
    then have "?sz div VALUE_SIZE = l" using lo hi by (intro div_nat_eqI) auto
    then have sz: "?sz = VALUE_SIZE * l + ?r" by (metis mult_div_mod_eq)
    have "i < a + r \<longleftrightarrow> i < a \<or> (\<exists>n<r. i = a + n)" for i a r :: nat
      by (metis add_less_cancel_left le_Suc_ex not_less trans_less_add1)
    from this [of _ "VALUE_SIZE * l" ?r] have "i < ?sz \<longleftrightarrow> i < VALUE_SIZE * l \<or> (\<exists>n<?r. i = VALUE_SIZE * l + n)" for i
      using sz by presburger
    then show ?thesis using False by (auto simp: elems_iff)
  qed
  ultimately show ?thesis by simp
qed

theorem any_misses_last_word_witness:
  "bitmap_any full_word = Ret False \<and> elems full_word = [0, 13]"
proof -
  have e: "elems full_word = [0, 13]" by code_simp
  have "bm_ok full_word" "tidy full_word" "0 < m_size full_word" "\<not> m_null full_word"
    by (simp_all add: full_word_def bm_ok_def words_for_def tidy_def COUNT_MASK_def)
  from any_misses_last_word [OF this] e show ?thesis by (simp add: full_word_def)
qed

text \<open>The complement of a plain bitmap has the other members.\<close>

theorem complement_members:
  assumes "bm_ok b"
  shows "\<exists>b'. bitmap_not b = Ret b' \<and> bm_ok b' \<and> set (elems b') = {..<m_size b} - set (elems b)"
proof -
  let ?b = "b\<lparr>m_data := map NOT (m_data b)\<rparr>"
  have "bit_at (m_data ?b) i \<longleftrightarrow> \<not> bit_at (m_data b) i" if "i < m_size b" for i
    using word_index [OF that assms] less_trans [OF mod_less_divisor, of VALUE_SIZE 16 i] by (simp add: bit_at_def bit_not_iff)
  then have "set (elems ?b) = {..<m_size b} - set (elems b)" by (auto simp: elems_iff)
  then show ?thesis using not_pointwise [OF assms] assms by (intro exI [of _ ?b]) (simp add: bm_ok_def)
qed

theorem complement_members_witness:
  "\<exists>b'. bitmap_not full_word = Ret b' \<and> set (elems b') = {1..12}"
proof -
  have "set (elems full_word) = {0, 13}" by code_simp
  moreover have "{..<14} - {0, 13 :: nat} = {1..12}" by auto
  ultimately show ?thesis using complement_members [OF full_word_facts(1)] by (auto simp: full_word_def)
qed

end
