(* ===== verification/BitmapRuns.thy ===== *)
theory BitmapRuns
  imports Bitmap
begin

text \<open>
  The compressed form of the bitmap of \<open>ancfl/ds/bitmap.cc\<close>, in which a run of at least two equal words is written as marked
  words with the number of its bits, and the operations of a plain bitmap with a compressed one; counting; and the
  byte array a bitmap is written to.
\<close>

section \<open>Ranges of words\<close>

type_synonym u32 = "32 word"

definition fill_word :: "bool \<Rightarrow> u16" where
  "fill_word v = (if v then COUNT_MASK else 0)"

definition set_range :: "u32 \<Rightarrow> u32 \<Rightarrow> bool \<Rightarrow> u16 list \<Rightarrow> u16 list outcome" where
  "set_range start n v d =
     (if n = 0 then Ret d
      else let a = unat start; e = unat (start + n) in
        if a mod VALUE_SIZE \<noteq> 0 \<or> e mod VALUE_SIZE \<noteq> 0 then Fault AssertFailed
        else fold_outcome (\<lambda>i d. put_word i (fill_word v) d) [a div VALUE_SIZE..<e div VALUE_SIZE] d)"

fun any_word :: "bool \<Rightarrow> u16 list \<Rightarrow> nat list \<Rightarrow> bool outcome" where
  "any_word v d [] = Ret False"
| "any_word v d (i # is) = bindO (word_at d i) (\<lambda>w. if (w AND COUNT_MASK \<noteq> 0) = v then Ret True else any_word v d is)"

definition get_range :: "u32 \<Rightarrow> u32 \<Rightarrow> bool \<Rightarrow> u16 list \<Rightarrow> bool outcome" where
  "get_range start n v d =
     (if n = 0 then Ret False
      else let a = unat start; e = unat (start + n) in
        if a mod VALUE_SIZE \<noteq> 0 \<or> e mod VALUE_SIZE \<noteq> 0 then Fault AssertFailed
        else any_word v d [a div VALUE_SIZE..<e div VALUE_SIZE])"

section \<open>Reading runs\<close>

text \<open>The marked words after the first of a run give the higher bits of its length.\<close>

fun more_runs :: "bool \<Rightarrow> nat \<Rightarrow> u32 \<Rightarrow> u16 list \<Rightarrow> (u32 \<times> u16 list) outcome" where
  "more_runs v k n [] = Ret (n, [])"
| "more_runs v k n (w # ws) =
     (if w AND COMPRESS_MASK \<noteq> 0 \<and> (v \<longleftrightarrow> w AND VALUE_MASK \<noteq> 0)
      then (if 32 \<le> VALUE_SIZE * k then Fault BadShift
            else more_runs v (k + 1) (push_bit (VALUE_SIZE * k) (ucast (w AND COUNT_MASK)) OR n) ws)
      else Ret (n, w # ws))"

lemma more_runs_shorter: "more_runs v k n ws = Ret (m, rest) \<Longrightarrow> length rest \<le> length ws"
  by (induction v k n ws rule: more_runs.induct) (auto split: if_splits)

text \<open>
  The loop over a compressed bitmap, which is written out in four operations: \<open>run\<close> is done for a run, \<open>lit\<close> for a single
  word; each gives the new state and whether the operation returns at once.
\<close>

function over_runs ::
  "(u32 \<Rightarrow> u32 \<Rightarrow> bool \<Rightarrow> 's \<Rightarrow> (bool \<times> 's) outcome) \<Rightarrow> (u32 \<Rightarrow> u16 \<Rightarrow> 's \<Rightarrow> (bool \<times> 's) outcome) \<Rightarrow>
   u16 list \<Rightarrow> u32 \<Rightarrow> 's \<Rightarrow> 's outcome" where
  "over_runs run lit [] p s = Ret s"
| "over_runs run lit (w # ws) p s =
     (if w AND COMPRESS_MASK \<noteq> 0 then
        let v = (w AND VALUE_MASK \<noteq> 0) in
        bindO (more_runs v 1 (ucast (w AND COUNT_MASK)) ws) (\<lambda>r.
        bindO (run p (fst r) v s) (\<lambda>q.
          if fst q then Ret (snd q) else over_runs run lit (snd r) (p + fst r) (snd q)))
      else
        bindO (lit p (w AND COUNT_MASK) s) (\<lambda>q.
          if fst q then Ret (snd q) else over_runs run lit ws (p + of_nat VALUE_SIZE) (snd q)))"
  by pat_completeness auto
termination
  by (relation "measure (\<lambda>(run, lit, ws, p, s). length ws)")
    (auto simp: less_Suc_eq_le dest: more_runs_shorter)

declare over_runs.simps [simp del]

definition go_on :: "'s outcome \<Rightarrow> (bool \<times> 's) outcome" where
  "go_on m = bindO m (\<lambda>s. Ret (False, s))"

definition put_at :: "(u16 \<Rightarrow> u16 \<Rightarrow> u16) \<Rightarrow> u32 \<Rightarrow> u16 \<Rightarrow> u16 list \<Rightarrow> u16 list outcome" where
  "put_at f p w d = bindO (word_at d (unat p div VALUE_SIZE)) (\<lambda>x. put_word (unat p div VALUE_SIZE) (f x w) d)"

section \<open>The operations\<close>

definition bitmap_and :: "Bitmap \<Rightarrow> Bitmap \<Rightarrow> Bitmap thrown outcome" where
  "bitmap_and a b =
     (if m_size a \<noteq> m_size b then Ret (LogicError ''m_size != b.m_size'')
      else if \<not> m_compress a \<and> \<not> m_compress b then bindO (zip_data (AND) a b) (\<lambda>r. Ret (Value r))
      else if m_compress a \<noteq> m_compress b then
        if m_compress a then Ret (LogicError ''compress &= uncompress not support'')
        else bindO (over_runs (\<lambda>p n v d. go_on (if \<not> v then set_range p n False d else Ret d)) (\<lambda>p w d. go_on (put_at (AND) p w d))
               (m_data b) 0 (m_data a)) (\<lambda>d. Ret (Value (a\<lparr>m_data := d\<rparr>)))
      else Ret (LogicError ''compress &= compress not support''))"

definition bitmap_or :: "Bitmap \<Rightarrow> Bitmap \<Rightarrow> Bitmap thrown outcome" where
  "bitmap_or a b =
     (if m_size a \<noteq> m_size b then Ret (LogicError ''m_size != b.m_size'')
      else if \<not> m_compress a \<and> \<not> m_compress b then bindO (zip_data (OR) a b) (\<lambda>r. Ret (Value r))
      else if m_compress a \<noteq> m_compress b then
        if m_compress a then Ret (LogicError ''compress |= uncompress not support'')
        else bindO (over_runs (\<lambda>p n v d. go_on (if v then set_range p n True d else Ret d)) (\<lambda>p w d. go_on (put_at (OR) p w d))
               (m_data b) 0 (m_data a)) (\<lambda>d. Ret (Value (a\<lparr>m_data := d\<rparr>)))
      else Ret (LogicError ''compress |= compress not support''))"

text \<open>The operators without assignment work on a copy.\<close>

definition bitmap_and_copy :: "Bitmap \<Rightarrow> Bitmap \<Rightarrow> Bitmap thrown outcome" where
  "bitmap_and_copy a b = bitmap_and (copy_Bitmap a) b"

definition bitmap_or_copy :: "Bitmap \<Rightarrow> Bitmap \<Rightarrow> Bitmap thrown outcome" where
  "bitmap_or_copy a b = bitmap_or (copy_Bitmap a) b"

definition uncompress :: "Bitmap \<Rightarrow> Bitmap outcome" where
  "uncompress b =
     (if \<not> m_compress b then Ret (copy_Bitmap b)
      else let t = new_Bitmap (m_size b) 0 in
        bindO (over_runs (\<lambda>p n v d. go_on (set_range p n v d)) (\<lambda>p w d. go_on (put_at (\<lambda>x w. w) p w d)) (m_data b) 0 (m_data t))
          (\<lambda>d. Ret (t\<lparr>m_data := d\<rparr>)))"

definition normalCross :: "Bitmap \<Rightarrow> Bitmap \<Rightarrow> bool outcome" where
  "normalCross a b =
     fold_outcome (\<lambda>i hit. if hit then Ret True else
       bindO (word_at (m_data a) i) (\<lambda>x. bindO (word_at (m_data b) i) (\<lambda>y. Ret (x AND y \<noteq> 0)))) (word_order a) False"

definition compressCross :: "Bitmap \<Rightarrow> Bitmap \<Rightarrow> bool outcome" where
  "compressCross a b =
     over_runs (\<lambda>p n v hit. bindO (if v then get_range p n True (m_data a) else Ret False) (\<lambda>h. Ret (h, h)))
       (\<lambda>p w hit. bindO (word_at (m_data a) (unat p div VALUE_SIZE)) (\<lambda>x. let h = (x AND w \<noteq> 0) in Ret (h, h)))
       (m_data b) 0 False"

definition bitmap_cross :: "Bitmap \<Rightarrow> Bitmap \<Rightarrow> bool outcome" where
  "bitmap_cross a b =
     (if \<not> m_compress a \<and> m_compress b then compressCross a b
      else if \<not> m_compress a \<and> \<not> m_compress b then normalCross a b
      else Ret False)"

section \<open>Compressing\<close>

definition count_bits :: "u16 \<Rightarrow> nat" where
  "count_bits w = length (filter (bit w) [0..<16])"

text \<open>The marked words of a run of \<open>n\<close> bits, the lowest fourteen bits of \<open>n\<close> first.\<close>

function run_words :: "bool \<Rightarrow> nat \<Rightarrow> u16 list" where
  "run_words v n =
     (if n = 0 then []
      else (COMPRESS_MASK OR (if v then VALUE_MASK else 0) OR of_nat (take_bit VALUE_SIZE n)) # run_words v (drop_bit VALUE_SIZE n))"
  by pat_completeness auto
termination
  by (relation "measure snd") (auto simp: drop_bit_eq_div)

declare run_words.simps [simp del]

text \<open>The output has as many words as the input; writing beyond is a fault.\<close>

definition put_out :: "nat \<Rightarrow> u16 list \<Rightarrow> u16 list \<Rightarrow> u16 list outcome" where
  "put_out cap ws out = (if length out + length ws \<le> cap then Ret (out @ ws) else Fault OutOfRange)"

definition flush_run :: "nat \<Rightarrow> bool \<Rightarrow> nat \<Rightarrow> u16 list \<Rightarrow> u16 list outcome" where
  "flush_run cap v n out =
     (if n div VALUE_SIZE > 1 then put_out cap (run_words v n) out
      else if n \<noteq> 0 then put_out cap [fill_word v] out
      else Ret out)"

definition compress_word :: "nat \<Rightarrow> u16 \<Rightarrow> bool \<times> nat \<times> u16 list \<Rightarrow> (bool \<times> nat \<times> u16 list) outcome" where
  "compress_word cap w s =
     (case s of (v, n, out) \<Rightarrow>
        let c = count_bits (w AND COUNT_MASK) in
        if c = 0 \<and> \<not> v \<or> c = VALUE_SIZE \<and> v then Ret (v, n + VALUE_SIZE, out)
        else if n div VALUE_SIZE > 1 \<and> n mod VALUE_SIZE \<noteq> 0 then Fault AssertFailed
        else bindO (flush_run cap v n out) (\<lambda>out.
          if c = 0 \<or> c = VALUE_SIZE then Ret (c = VALUE_SIZE, VALUE_SIZE, out)
          else bindO (put_out cap [w] out) (\<lambda>out. Ret (v, 0, out))))"

definition compress :: "Bitmap \<Rightarrow> Bitmap outcome" where
  "compress b =
     (if m_compress b then Ret (copy_Bitmap b)
      else bindO (fold_outcome (compress_word (length (m_data b))) (m_data b) (False, 0, [])) (\<lambda>(v, n, out).
        bindO (flush_run (length (m_data b)) v n out) (\<lambda>out.
          Ret \<lparr>m_compress = True, m_size = m_size b, m_null = False, m_data = out\<rparr>)))"

section \<open>Counting\<close>

text \<open>Groups of four words are counted whole; the words left over bit by bit, up to the size. Runs are added up word by word.\<close>

definition count_left :: "nat \<Rightarrow> u16 \<Rightarrow> nat \<times> nat \<Rightarrow> (nat \<times> nat) outcome" where
  "count_left sz w s =
     (case s of (p, n) \<Rightarrow>
        if w \<noteq> 0 then
          (case scan_up (\<lambda>p n. (True, n + 1)) sz w [0..<VALUE_SIZE] p n of
             (n', None) \<Rightarrow> Ret (p, n')
           | (n', Some p') \<Rightarrow> Ret (p', n'))
        else Ret (p + VALUE_SIZE, n))"

definition getCount :: "Bitmap \<Rightarrow> nat outcome" where
  "getCount b =
     (if \<not> m_compress b then
        let k = length (m_data b) div U64_DIV_BASE in
        bindO (fold_outcome (count_left (m_size b)) (drop (k * U64_DIV_BASE) (m_data b))
                 (k * U64_VALUE_SIZE, sum_list (map count_bits (take (k * U64_DIV_BASE) (m_data b)))))
          (\<lambda>(p, n). Ret n)
      else Ret (sum_list (map (\<lambda>w. if w AND COMPRESS_MASK \<noteq> 0
                 then (if w AND VALUE_MASK \<noteq> 0 then unat (w AND COUNT_MASK) else 0) else count_bits w) (m_data b))))"

section \<open>Bytes\<close>

definition word_bytes :: "bool \<Rightarrow> u16 \<Rightarrow> byte list" where
  "word_bytes host w = in_memory host 2 (unat w)"

fun bytes_words :: "bool \<Rightarrow> byte list \<Rightarrow> u16 list" where
  "bytes_words host (x # y # bs) = word_of_nat (of_memory host [x, y]) # bytes_words host bs"
| "bytes_words host bs = []"

definition bitmap_writeTo :: "bool \<Rightarrow> Bitmap \<Rightarrow> unit bop" where
  "bitmap_writeTo host b =
     bindB (writeFuint8 (if m_compress b then 1 else 0)) (\<lambda>_.
     bindB (writeFuint32 host (word_of_nat (m_size b))) (\<lambda>_.
     bindB (writeFuint32 host (word_of_nat (length (m_data b)))) (\<lambda>_.
       write_bytes (concat (map (word_bytes host) (m_data b))))))"

text \<open>
  What is read is stored field by field; an exception stops it there and makes the answer \<open>False\<close>. \<open>raw\<close> is what new
  memory holds.
\<close>

definition tryB :: "'a bop \<Rightarrow> (ByteArray \<Rightarrow> 'r outcome) \<Rightarrow> ('a \<Rightarrow> ByteArray \<Rightarrow> 'r outcome) \<Rightarrow> ByteArray \<Rightarrow> 'r outcome" where
  "tryB p failed k s = bindO (p s) (\<lambda>(r, s'). case r of None \<Rightarrow> failed s' | Some x \<Rightarrow> k x s')"

definition bitmap_readFrom :: "bool \<Rightarrow> (nat \<Rightarrow> u16 list) \<Rightarrow> Bitmap \<Rightarrow> ByteArray \<Rightarrow> ((bool \<times> Bitmap) \<times> ByteArray) outcome" where
  "bitmap_readFrom host raw b =
     tryB readFuint8 (\<lambda>s. Ret ((False, b), s)) (\<lambda>c.
       let b1 = b\<lparr>m_compress := c \<noteq> 0\<rparr> in
       tryB (readFuint32 host) (\<lambda>s. Ret ((False, b1), s)) (\<lambda>n.
         let b2 = b1\<lparr>m_size := unat n\<rparr> in
         tryB (readFuint32 host) (\<lambda>s. Ret ((False, b2), s)) (\<lambda>m.
           tryB (read_bytes (2 * unat m)) (\<lambda>s. Ret ((False, b2\<lparr>m_null := False, m_data := raw (unat m)\<rparr>), s)) (\<lambda>bs s.
             Ret ((True, b2\<lparr>m_null := False, m_data := bytes_words host bs\<rparr>), s)))))"

section \<open>What a compressed bitmap stands for\<close>

text \<open>Its words in groups: single words, and runs of at least two words.\<close>

datatype group = Plain u16 | Many bool nat

fun enc :: "group \<Rightarrow> u16 list" where
  "enc (Plain w) = [w]"
| "enc (Many v k) = run_words v (VALUE_SIZE * k)"

fun expand :: "group \<Rightarrow> u16 list" where
  "expand (Plain w) = [w]"
| "expand (Many v k) = replicate k (fill_word v)"

fun group_ok :: "group \<Rightarrow> bool" where
  "group_ok (Plain w) \<longleftrightarrow> w AND COUNT_MASK = w"
| "group_ok (Many v k) \<longleftrightarrow> 2 \<le> k"

fun same_run :: "bool \<Rightarrow> group \<Rightarrow> bool" where
  "same_run v (Plain w) \<longleftrightarrow> False"
| "same_run v (Many u k) \<longleftrightarrow> u = v"

fun apart :: "group list \<Rightarrow> bool" where
  "apart (Many v k # g # gs) \<longleftrightarrow> \<not> same_run v g \<and> apart (g # gs)"
| "apart (g # gs) \<longleftrightarrow> apart gs"
| "apart [] \<longleftrightarrow> True"

abbreviation encoded :: "group list \<Rightarrow> u16 list" where
  "encoded gs \<equiv> concat (map enc gs)"

abbreviation expanded :: "group list \<Rightarrow> u16 list" where
  "expanded gs \<equiv> concat (map expand gs)"

lemma bit_COMPRESS_MASK: "bit COMPRESS_MASK i \<longleftrightarrow> i = 15"
proof -
  have c: "COMPRESS_MASK = POS 15" by (simp add: COMPRESS_MASK_def POS_def)
  show ?thesis unfolding c bit_POS by auto
qed

lemma bit_VALUE_MASK: "bit VALUE_MASK i \<longleftrightarrow> i = 14"
proof -
  have c: "VALUE_MASK = POS 14" by (simp add: VALUE_MASK_def POS_def)
  show ?thesis unfolding c bit_POS by auto
qed

lemma mark_bit: "w AND COMPRESS_MASK \<noteq> 0 \<longleftrightarrow> bit w 15"
proof -
  have c: "COMPRESS_MASK = POS 15" by (simp add: COMPRESS_MASK_def POS_def)
  show ?thesis unfolding c by (rule and_POS)
qed

lemma value_bit: "w AND VALUE_MASK \<noteq> 0 \<longleftrightarrow> bit w 14"
proof -
  have c: "VALUE_MASK = POS 14" by (simp add: VALUE_MASK_def POS_def)
  show ?thesis unfolding c by (rule and_POS)
qed

lemma tidy_unmarked: "w AND COUNT_MASK = w \<Longrightarrow> \<not> bit w 15"
  using tidy_bit [of w 15] by auto

text \<open>A word of a run.\<close>

definition run_word :: "bool \<Rightarrow> nat \<Rightarrow> u16" where
  "run_word v n = COMPRESS_MASK OR (if v then VALUE_MASK else 0) OR of_nat (take_bit VALUE_SIZE n)"

lemma bit_run_word: "bit (run_word v n) i \<longleftrightarrow> i = 15 \<or> (v \<and> i = 14) \<or> (i < VALUE_SIZE \<and> bit n i)"
  by (auto simp: run_word_def bit_or_iff bit_COMPRESS_MASK bit_VALUE_MASK bit_of_nat_iff bit_take_bit_iff)

lemma run_word_marks [simp]: "run_word v n AND COMPRESS_MASK \<noteq> 0" "run_word v n AND VALUE_MASK \<noteq> 0 \<longleftrightarrow> v"
  unfolding mark_bit value_bit bit_run_word by auto

lemma run_word_count: "(ucast (run_word v n AND COUNT_MASK) :: u32) = of_nat (take_bit VALUE_SIZE n)"
  by (rule bit_eqI) (auto simp: bit_ucast_iff bit_and_iff bit_run_word bit_COUNT_MASK bit_of_nat_iff bit_take_bit_iff)

lemma run_words_unfold: "run_words v n = (if n = 0 then [] else run_word v n # run_words v (drop_bit VALUE_SIZE n))"
  by (subst run_words.simps) (simp add: run_word_def)

definition stops :: "bool \<Rightarrow> u16 list \<Rightarrow> bool" where
  "stops v rest \<longleftrightarrow> (case rest of [] \<Rightarrow> True | w # _ \<Rightarrow> \<not> (w AND COMPRESS_MASK \<noteq> 0 \<and> (v \<longleftrightarrow> w AND VALUE_MASK \<noteq> 0)))"

lemma more_runs_stops: "stops v rest \<Longrightarrow> more_runs v k acc rest = Ret (acc, rest)"
  by (cases rest) (auto simp: stops_def)

lemma word_split: "push_bit VALUE_SIZE (of_nat (drop_bit VALUE_SIZE n)) OR of_nat (take_bit VALUE_SIZE n) = (of_nat n :: u32)"
  by (rule bit_eqI) (auto simp: bit_or_iff bit_push_bit_iff bit_of_nat_iff bit_take_bit_iff bit_drop_bit_eq)

lemma more_runs_words:
  "n * 2 ^ (VALUE_SIZE * k) < 2 ^ 32 \<Longrightarrow> stops v rest \<Longrightarrow>
   more_runs v k acc (run_words v n @ rest) = Ret (push_bit (VALUE_SIZE * k) (of_nat n) OR acc, rest)"
proof (induction v n arbitrary: k acc rule: run_words.induct)
  case (1 v n)
  show ?case
  proof (cases "n = 0")
    case True
    then show ?thesis using "1.prems" by (simp add: run_words_unfold [of v 0] more_runs_stops)
  next
    case False
    have "2 ^ (VALUE_SIZE * k) \<le> n * 2 ^ (VALUE_SIZE * k)" using False by simp
    then have "(2 :: nat) ^ (VALUE_SIZE * k) < 2 ^ 32" using "1.prems"(1) by linarith
    then have k: "VALUE_SIZE * k < 32" using power_less_imp_less_exp [of "2 :: nat" "VALUE_SIZE * k" 32] by simp
    have "drop_bit VALUE_SIZE n * 2 ^ (VALUE_SIZE * (k + 1)) = n div 2 ^ VALUE_SIZE * 2 ^ VALUE_SIZE * 2 ^ (VALUE_SIZE * k)"
      by (simp only: drop_bit_eq_div mult_Suc_right Suc_eq_plus1 [symmetric] power_add mult.assoc)
    also have "\<dots> \<le> n * 2 ^ (VALUE_SIZE * k)" by (intro mult_le_mono1 div_times_less_eq_dividend)
    finally have d: "drop_bit VALUE_SIZE n * 2 ^ (VALUE_SIZE * (k + 1)) < 2 ^ 32" using "1.prems"(1) by linarith
    have "push_bit (VALUE_SIZE * (k + 1)) (of_nat (drop_bit VALUE_SIZE n)) OR
        (push_bit (VALUE_SIZE * k) (of_nat (take_bit VALUE_SIZE n)) OR acc) =
        push_bit (VALUE_SIZE * k) (push_bit VALUE_SIZE (of_nat (drop_bit VALUE_SIZE n)) OR of_nat (take_bit VALUE_SIZE n)) OR acc"
      by (simp add: push_bit_or or.assoc add.commute)
    then have c: "push_bit (VALUE_SIZE * (k + 1)) (of_nat (drop_bit VALUE_SIZE n)) OR
        (push_bit (VALUE_SIZE * k) (of_nat (take_bit VALUE_SIZE n)) OR acc) = push_bit (VALUE_SIZE * k) (of_nat n) OR (acc :: u32)"
      by (simp only: word_split)
    have IH: "more_runs v (k + 1) (push_bit (VALUE_SIZE * k) (of_nat (take_bit VALUE_SIZE n)) OR acc) (run_words v (drop_bit VALUE_SIZE n) @ rest) =
        Ret (push_bit (VALUE_SIZE * (k + 1)) (of_nat (drop_bit VALUE_SIZE n)) OR (push_bit (VALUE_SIZE * k) (of_nat (take_bit VALUE_SIZE n)) OR acc), rest)"
      by (rule "1.IH" [OF False d "1.prems"(2)])
    have u: "run_words v n @ rest = run_word v n # run_words v (drop_bit VALUE_SIZE n) @ rest"
      using False by (simp add: run_words_unfold [of v n])
    show ?thesis unfolding u more_runs.simps run_word_count IH c using k by simp
  qed
qed

text \<open>The loop, group by group.\<close>

fun group_steps ::
  "(u32 \<Rightarrow> u32 \<Rightarrow> bool \<Rightarrow> 's \<Rightarrow> (bool \<times> 's) outcome) \<Rightarrow> (u32 \<Rightarrow> u16 \<Rightarrow> 's \<Rightarrow> (bool \<times> 's) outcome) \<Rightarrow>
   group list \<Rightarrow> u32 \<Rightarrow> 's \<Rightarrow> 's outcome" where
  "group_steps run lit [] p s = Ret s"
| "group_steps run lit (g # gs) p s =
     bindO (case g of Plain w \<Rightarrow> lit p w s | Many v k \<Rightarrow> run p (of_nat (VALUE_SIZE * k)) v s) (\<lambda>q.
       if fst q then Ret (snd q) else group_steps run lit gs (p + of_nat (VALUE_SIZE * length (expand g))) (snd q))"

definition groups_ok :: "group list \<Rightarrow> bool" where
  "groups_ok gs \<longleftrightarrow> list_all group_ok gs \<and> apart gs \<and> VALUE_SIZE * length (expanded gs) < 2 ^ 32"

lemma apart_stops: "apart (Many v k # gs) \<Longrightarrow> list_all group_ok gs \<Longrightarrow> stops v (encoded gs)"
proof (cases gs)
  case (Cons g hs)
  assume a: "apart (Many v k # gs)" and o: "list_all group_ok gs"
  show ?thesis
  proof (cases g)
    case (Plain w)
    then show ?thesis using o Cons tidy_unmarked mark_bit by (simp add: stops_def)
  next
    case (Many u j)
    then have u: "u \<noteq> v" "2 \<le> j" using a o Cons by auto
    have "encoded gs = run_word u (VALUE_SIZE * j) # run_words u (drop_bit VALUE_SIZE (VALUE_SIZE * j)) @ encoded hs"
      using Cons Many u(2) by (simp add: run_words_unfold [of u "VALUE_SIZE * j"])
    then show ?thesis using u(1) unfolding stops_def by (simp only: list.case run_word_marks) blast
  qed
qed (simp add: stops_def)

lemma apart_tl: "apart (g # gs) \<Longrightarrow> apart gs"
  by (cases g; cases gs) auto

lemma groups_ok_tl: "groups_ok (g # gs) \<Longrightarrow> groups_ok gs"
  by (auto simp: groups_ok_def dest: apart_tl)

lemma over_groups: "groups_ok gs \<Longrightarrow> over_runs run lit (encoded gs) p s = group_steps run lit gs p s"
proof (induction gs arbitrary: p s)
  case Nil
  then show ?case by (simp add: over_runs.simps)
next
  case (Cons g gs)
  have IH: "over_runs run lit (encoded gs) q t = group_steps run lit gs q t" for q t
    by (rule Cons.IH [OF groups_ok_tl [OF Cons.prems]])
  show ?case
  proof (cases g)
    case (Plain w)
    then have "w AND COUNT_MASK = w" using Cons.prems by (simp add: groups_ok_def)
    moreover from this have "w AND COMPRESS_MASK = 0" using tidy_unmarked mark_bit by blast
    moreover have l: "VALUE_SIZE * length (expand g) = VALUE_SIZE" and e: "encoded (g # gs) = w # encoded gs" using Plain by simp_all
    ultimately show ?thesis unfolding e over_runs.simps(2) group_steps.simps l IH by (simp add: Plain)
  next
    case (Many v k)
    let ?n = "VALUE_SIZE * k"
    have k: "2 \<le> k" "?n < 2 ^ 32" using Cons.prems Many by (auto simp: groups_ok_def)
    have st: "stops v (encoded gs)" using Cons.prems Many by (intro apart_stops) (auto simp: groups_ok_def)
    have "drop_bit VALUE_SIZE ?n * 2 ^ (VALUE_SIZE * 1) \<le> ?n" by (simp only: drop_bit_eq_div mult_1_right div_times_less_eq_dividend)
    then have "drop_bit VALUE_SIZE ?n * 2 ^ (VALUE_SIZE * 1) < 2 ^ 32" using k(2) by linarith
    from more_runs_words [OF this st, of "of_nat (take_bit VALUE_SIZE ?n)"]
    have m: "more_runs v 1 (of_nat (take_bit VALUE_SIZE ?n)) (run_words v (drop_bit VALUE_SIZE ?n) @ encoded gs) = Ret (of_nat ?n, encoded gs)"
      by (simp only: mult_1_right word_split)
    have e: "encoded (g # gs) = run_word v ?n # run_words v (drop_bit VALUE_SIZE ?n) @ encoded gs"
      using k(1) Many by (simp add: run_words_unfold [of v ?n])
    have l: "length (expand g) = k" using Many by simp
    show ?thesis
      unfolding e over_runs.simps(2) run_word_count Let_def run_word_marks m group_steps.simps l bindO.simps fst_conv snd_conv IH
      by (simp add: Many)
  qed
qed

text \<open>Words of a list, from \<open>i\<close> on, combined with others.\<close>

definition patch :: "(u16 \<Rightarrow> u16 \<Rightarrow> u16) \<Rightarrow> nat \<Rightarrow> u16 list \<Rightarrow> u16 list \<Rightarrow> u16 list" where
  "patch h i ws d = take i d @ map2 h (take (length ws) (drop i d)) ws @ drop (i + length ws) d"

lemma length_patch [simp]: "i + length ws \<le> length d \<Longrightarrow> length (patch h i ws d) = length d"
  by (simp add: patch_def)

lemma patch_all: "length ws = length d \<Longrightarrow> patch h 0 ws d = map2 h d ws"
  by (simp add: patch_def)

lemma patch_nth:
  "i + length ws \<le> length d \<Longrightarrow> j < length d \<Longrightarrow>
   patch h i ws d ! j = (if i \<le> j \<and> j < i + length ws then h (d ! j) (ws ! (j - i)) else d ! j)"
  by (auto simp: patch_def nth_append min_def)

lemma patch_patch:
  "i + length ws + length us \<le> length d \<Longrightarrow> patch h (i + length ws) us (patch h i ws d) = patch h i (ws @ us) d"
  by (rule nth_equalityI) (auto simp: patch_nth nth_append)

lemma patch_Nil [simp]: "patch h i [] d = d"
  by (simp add: patch_def)

lemma patch_cong:
  "i + length ws \<le> length d \<Longrightarrow> (\<And>j. j < length ws \<Longrightarrow> h (d ! (i + j)) (ws ! j) = g (d ! (i + j)) (us ! j)) \<Longrightarrow> length us = length ws \<Longrightarrow>
   patch h i ws d = patch g i us d"
  by (rule nth_equalityI) (auto simp: patch_nth dest!: le_Suc_ex)

lemma patch_one: "i < length d \<Longrightarrow> patch h i [w] d = d[i := h (d ! i) w]"
  by (rule nth_equalityI) (auto simp: patch_nth nth_list_update)

text \<open>
  What three of the four operations do: a run or a word changes the words of the plain bitmap it stands for by \<open>h\<close>. \<open>keep\<close> is
  what is needed of those words.
\<close>

locale word_actions =
  fixes h :: "u16 \<Rightarrow> u16 \<Rightarrow> u16"
    and keep :: "u16 \<Rightarrow> bool"
    and run :: "u32 \<Rightarrow> u32 \<Rightarrow> bool \<Rightarrow> u16 list \<Rightarrow> (bool \<times> u16 list) outcome"
    and lit :: "u32 \<Rightarrow> u16 \<Rightarrow> u16 list \<Rightarrow> (bool \<times> u16 list) outcome"
  assumes keep_h: "keep x \<Longrightarrow> w AND COUNT_MASK = w \<Longrightarrow> keep (h x w)"
    and lit_acts: "VALUE_SIZE * length d < 2 ^ 32 \<Longrightarrow> list_all keep d \<Longrightarrow> i < length d \<Longrightarrow> w AND COUNT_MASK = w \<Longrightarrow>
      lit (of_nat (VALUE_SIZE * i)) w d = Ret (False, patch h i [w] d)"
    and run_acts: "VALUE_SIZE * length d < 2 ^ 32 \<Longrightarrow> list_all keep d \<Longrightarrow> 0 < k \<Longrightarrow> i + k \<le> length d \<Longrightarrow>
      run (of_nat (VALUE_SIZE * i)) (of_nat (VALUE_SIZE * k)) v d = Ret (False, patch h i (replicate k (fill_word v)) d)"
begin

lemma keep_patch:
  assumes "list_all keep d" and "list_all (\<lambda>w. w AND COUNT_MASK = w) ws" and "i + length ws \<le> length d"
  shows "list_all keep (patch h i ws d)"
  using assms by (auto simp: list_all_length patch_nth intro!: keep_h)

lemma group_words: "group_ok g \<Longrightarrow> list_all (\<lambda>w. w AND COUNT_MASK = w) (expand g)"
  by (cases g) (auto simp: list_all_length fill_word_def)

lemma steps_patch:
  "groups_ok gs \<Longrightarrow> VALUE_SIZE * length d < 2 ^ 32 \<Longrightarrow> list_all keep d \<Longrightarrow> i + length (expanded gs) \<le> length d \<Longrightarrow>
   group_steps run lit gs (of_nat (VALUE_SIZE * i)) d = Ret (patch h i (expanded gs) d)"
proof (induction gs arbitrary: i d)
  case (Cons g gs)
  have g: "group_ok g" using Cons.prems(1) by (simp add: groups_ok_def)
  have l: "i + length (expand g) \<le> length d" "length (expand g) + length (expanded gs) + i \<le> length d" using Cons.prems(4) by simp_all
  let ?d = "patch h i (expand g) d"
  have first: "(case g of Plain w \<Rightarrow> lit (of_nat (VALUE_SIZE * i)) w d
      | Many v k \<Rightarrow> run (of_nat (VALUE_SIZE * i)) (of_nat (VALUE_SIZE * k)) v d) = Ret (False, ?d)"
    using g l(1) Cons.prems(2,3) by (cases g) (auto simp: lit_acts run_acts simp del: of_nat_mult)
  have "group_steps run lit gs (of_nat (VALUE_SIZE * (i + length (expand g)))) ?d = Ret (patch h (i + length (expand g)) (expanded gs) ?d)"
    by (rule Cons.IH) (use groups_ok_tl [OF Cons.prems(1)] Cons.prems(2,3) l keep_patch [OF _ group_words [OF g]] in simp_all)
  moreover have "of_nat (VALUE_SIZE * i) + of_nat (VALUE_SIZE * length (expand g)) = (of_nat (VALUE_SIZE * (i + length (expand g))) :: u32)"
    by (simp only: of_nat_add [symmetric] add_mult_distrib2)
  ultimately show ?case unfolding group_steps.simps first using l by (simp add: patch_patch)
qed simp

lemma over_encoded:
  assumes "groups_ok gs" and "list_all keep d" and "length (expanded gs) = length d"
  shows "over_runs run lit (encoded gs) 0 d = Ret (map2 h d (expanded gs))"
  using steps_patch [OF assms(1) _ assms(2), of 0] assms(1,3) by (simp add: over_groups patch_all groups_ok_def)

end

lemma unat_pos: "n < 2 ^ 32 \<Longrightarrow> unat (of_nat n :: u32) = n"
  by (simp add: unat_of_nat take_bit_nat_eq_self)

lemma put_fold:
  "i + k \<le> length d \<Longrightarrow> fold_outcome (\<lambda>i d. put_word i w d) [i..<i + k] d = Ret (patch (\<lambda>x w. w) i (replicate k w) d)"
proof (induction k)
  case (Suc k)
  have "patch (\<lambda>x w. w) (i + k) [w] (patch (\<lambda>x w. w) i (replicate k w) d) = patch (\<lambda>x w. w) i (replicate k w @ [w]) d"
    using patch_patch [of i "replicate k w" "[w]" d "\<lambda>x w. w"] Suc.prems by simp
  moreover have "replicate k w @ [w] = replicate (Suc k) w" by (simp add: replicate_append_same)
  moreover have "patch (\<lambda>x w. w) (i + k) [w] (patch (\<lambda>x w. w) i (replicate k w) d) = (patch (\<lambda>x w. w) i (replicate k w) d)[i + k := w]"
    using Suc.prems by (intro patch_one) simp
  ultimately have "(patch (\<lambda>x w. w) i (replicate k w) d)[i + k := w] = patch (\<lambda>x w. w) i (replicate (Suc k) w) d" by (simp only:)
  then show ?case using Suc by (simp add: fold_outcome_append put_word_def)
qed simp

lemma set_range_patch:
  assumes "VALUE_SIZE * length d < 2 ^ 32" and "0 < k" and "i + k \<le> length d"
  shows "set_range (of_nat (VALUE_SIZE * i)) (of_nat (VALUE_SIZE * k)) v d = Ret (patch (\<lambda>x w. w) i (replicate k (fill_word v)) d)"
proof -
  have b: "VALUE_SIZE * (i + k) < 2 ^ 32" using assms(1,3) by (meson le_less_trans mult_le_mono2)
  have u: "unat (of_nat (VALUE_SIZE * i) :: u32) = VALUE_SIZE * i" "unat (of_nat (VALUE_SIZE * k) :: u32) = VALUE_SIZE * k"
    "unat (of_nat (VALUE_SIZE * i) + of_nat (VALUE_SIZE * k) :: u32) = VALUE_SIZE * (i + k)"
    using b unat_pos [of "VALUE_SIZE * i"] unat_pos [of "VALUE_SIZE * k"] unat_pos [of "VALUE_SIZE * (i + k)"]
    by (simp_all only: of_nat_add [symmetric] add_mult_distrib2)
  have "(of_nat (VALUE_SIZE * k) :: u32) \<noteq> 0" using u(2) assms(2) by (metis mult_eq_0_iff not_gr_zero unsigned_0 zero_neq_numeral)
  then show ?thesis
    unfolding set_range_def Let_def u using put_fold [OF assms(3)] by simp
qed

lemma put_at_patch:
  assumes "VALUE_SIZE * length d < 2 ^ 32" and "i < length d"
  shows "put_at f (of_nat (VALUE_SIZE * i)) w d = Ret (patch f i [w] d)"
proof -
  have "VALUE_SIZE * i < 2 ^ 32" using assms by (meson less_trans mult_less_mono2 zero_less_numeral)
  then show ?thesis unfolding put_at_def unat_pos [OF \<open>VALUE_SIZE * i < 2 ^ 32\<close>]
    using assms(2) by (simp add: word_at_def put_word_def patch_one)
qed

lemma and_tidy: "x AND COUNT_MASK = x \<Longrightarrow> (x AND w) AND COUNT_MASK = x AND w"
  by (metis and.assoc and.commute)

lemma or_tidy: "x AND COUNT_MASK = x \<Longrightarrow> w AND COUNT_MASK = w \<Longrightarrow> (x OR w) AND COUNT_MASK = x OR w"
  by (metis bit.conj_disj_distrib2)

lemma or_full: "x AND COUNT_MASK = x \<Longrightarrow> x OR COUNT_MASK = COUNT_MASK"
  by (rule bit_eqI) (auto simp: bit_or_iff bit_COUNT_MASK dest: tidy_bit)

interpretation and_runs: word_actions "(AND)" "\<lambda>w. w AND COUNT_MASK = w"
  "\<lambda>p n v d. go_on (if \<not> v then set_range p n False d else Ret d)" "\<lambda>p w d. go_on (put_at (AND) p w d)"
proof unfold_locales
  fix d :: "u16 list" and i k v
  assume d: "VALUE_SIZE * length d < 2 ^ 32" "list_all (\<lambda>w. w AND COUNT_MASK = w) d" "0 < k" "i + k \<le> length d"
  show "go_on (if \<not> v then set_range (of_nat (VALUE_SIZE * i)) (of_nat (VALUE_SIZE * k)) False d else Ret d) =
      Ret (False, patch (AND) i (replicate k (fill_word v)) d)"
  proof (cases v)
    case True
    have "patch (AND) i (replicate k (fill_word True)) d = patch (\<lambda>x w. x) i (replicate k (fill_word True)) d"
      using d by (intro patch_cong) (auto simp: fill_word_def list_all_length)
    also have "\<dots> = d" using d(4) by (intro nth_equalityI) (auto simp: patch_nth)
    finally show ?thesis using True by (simp add: go_on_def)
  next
    case False
    have "patch (\<lambda>x w. w) i (replicate k (fill_word False)) d = patch (AND) i (replicate k (fill_word False)) d"
      using d(4) by (intro patch_cong) (auto simp: fill_word_def)
    then show ?thesis using False set_range_patch [OF d(1,3,4), of False] by (simp add: go_on_def del: of_nat_mult)
  qed
qed (simp_all add: and_tidy put_at_patch go_on_def del: of_nat_mult)

interpretation or_runs: word_actions "(OR)" "\<lambda>w. w AND COUNT_MASK = w"
  "\<lambda>p n v d. go_on (if v then set_range p n True d else Ret d)" "\<lambda>p w d. go_on (put_at (OR) p w d)"
proof unfold_locales
  fix d :: "u16 list" and i k v
  assume d: "VALUE_SIZE * length d < 2 ^ 32" "list_all (\<lambda>w. w AND COUNT_MASK = w) d" "0 < k" "i + k \<le> length d"
  show "go_on (if v then set_range (of_nat (VALUE_SIZE * i)) (of_nat (VALUE_SIZE * k)) True d else Ret d) =
      Ret (False, patch (OR) i (replicate k (fill_word v)) d)"
  proof (cases v)
    case False
    have "patch (OR) i (replicate k (fill_word False)) d = patch (\<lambda>x w. x) i (replicate k (fill_word False)) d"
      using d(4) by (intro patch_cong) (auto simp: fill_word_def)
    also have "\<dots> = d" using d(4) by (intro nth_equalityI) (auto simp: patch_nth)
    finally show ?thesis using False by (simp add: go_on_def)
  next
    case True
    have "patch (\<lambda>x w. w) i (replicate k (fill_word True)) d = patch (OR) i (replicate k (fill_word True)) d"
      using d by (intro patch_cong) (auto simp: fill_word_def list_all_length or_full)
    then show ?thesis using True set_range_patch [OF d(1,3,4), of True] by (simp add: go_on_def del: of_nat_mult)
  qed
qed (simp_all add: or_tidy put_at_patch go_on_def del: of_nat_mult)

interpretation plain_runs: word_actions "\<lambda>x w. w" "\<lambda>w. True"
  "\<lambda>p n v d. go_on (set_range p n v d)" "\<lambda>p w d. go_on (put_at (\<lambda>x w. w) p w d)"
  by unfold_locales (simp_all add: set_range_patch put_at_patch go_on_def del: of_nat_mult)

section \<open>Compressing is faithful\<close>

lemma count_bits_tidy: "w AND COUNT_MASK = w \<Longrightarrow> count_bits w = card {i. i < VALUE_SIZE \<and> bit w i}"
proof -
  assume t: "w AND COUNT_MASK = w"
  have "count_bits w = card (set (filter (bit w) [0..<16]))"
    unfolding count_bits_def by (rule distinct_card [symmetric]) simp
  also have "set (filter (bit w) [0..<16]) = {i. i < VALUE_SIZE \<and> bit w i}" using tidy_bit [OF t] by (auto dest: less_trans)
  finally show ?thesis .
qed

lemma count_fill:
  assumes t: "w AND COUNT_MASK = w"
  shows "count_bits (w AND COUNT_MASK) = 0 \<longleftrightarrow> w = fill_word False" and "count_bits (w AND COUNT_MASK) = VALUE_SIZE \<longleftrightarrow> w = fill_word True"
proof -
  have c: "count_bits (w AND COUNT_MASK) = card {i. i < VALUE_SIZE \<and> bit w i}" using count_bits_tidy t by simp
  have "{i. i < VALUE_SIZE \<and> bit w i} = {} \<longleftrightarrow> w = 0" using word_nonzero [OF t] by auto
  then show "count_bits (w AND COUNT_MASK) = 0 \<longleftrightarrow> w = fill_word False" unfolding c by (auto simp: fill_word_def)
  have "card {i. i < VALUE_SIZE \<and> bit w i} = VALUE_SIZE \<longleftrightarrow> {i. i < VALUE_SIZE \<and> bit w i} = {..<VALUE_SIZE}"
  proof
    assume "card {i. i < VALUE_SIZE \<and> bit w i} = VALUE_SIZE"
    then show "{i. i < VALUE_SIZE \<and> bit w i} = {..<VALUE_SIZE}" by (intro card_subset_eq) auto
  qed simp
  also have "\<dots> \<longleftrightarrow> w = COUNT_MASK"
  proof
    assume e: "{i. i < VALUE_SIZE \<and> bit w i} = {..<VALUE_SIZE}"
    show "w = COUNT_MASK" by (rule bit_eqI) (use e tidy_bit [OF t] in \<open>auto simp: bit_COUNT_MASK\<close>)
  qed (auto simp: bit_COUNT_MASK)
  finally show "count_bits (w AND COUNT_MASK) = VALUE_SIZE \<longleftrightarrow> w = fill_word True" unfolding c by (simp add: fill_word_def)
qed

lemma length_run_words: "length (run_words v n) \<le> 1 + n div 2 ^ VALUE_SIZE"
proof (induction v n rule: run_words.induct)
  case (1 v n)
  show ?case
  proof (cases "n div 2 ^ VALUE_SIZE = 0")
    case True
    then have "drop_bit VALUE_SIZE n = 0" by (simp only: drop_bit_eq_div)
    then show ?thesis by (simp add: run_words_unfold [of v n] run_words_unfold [of v 0])
  next
    case False
    let ?m = "n div 2 ^ VALUE_SIZE"
    have "n \<noteq> 0" using False by (intro notI) simp
    then have "length (run_words v (drop_bit VALUE_SIZE n)) \<le> 1 + drop_bit VALUE_SIZE n div 2 ^ VALUE_SIZE" by (rule "1.IH")
    then have "length (run_words v ?m) \<le> 1 + ?m div 2 ^ VALUE_SIZE" by (simp only: drop_bit_eq_div)
    moreover have "1 + ?m div 2 ^ VALUE_SIZE \<le> ?m" using False by (simp add: Suc_leI div_less_dividend)
    ultimately show ?thesis using \<open>n \<noteq> 0\<close> by (subst run_words_unfold) (simp add: drop_bit_eq_div)
  qed
qed

lemma length_enc: "group_ok g \<Longrightarrow> length (enc g) \<le> length (expand g)"
proof (cases g)
  case (Many v k)
  assume "group_ok g"
  then have "2 \<le> k" using Many by simp
  then have "1 + VALUE_SIZE * k div 2 ^ VALUE_SIZE \<le> k" by simp
  then show ?thesis using Many length_run_words [of v "VALUE_SIZE * k"] by simp
qed simp

lemma length_encoded: "list_all group_ok gs \<Longrightarrow> length (encoded gs) \<le> length (expanded gs)"
  by (induction gs) (auto dest!: length_enc)

lemma apart_two: "apart [f, g] \<longleftrightarrow> (\<forall>u. same_run u f \<longrightarrow> \<not> same_run u g)"
  by (cases f) auto

lemma apart_snoc: "apart (gs @ [g]) \<longleftrightarrow> apart gs \<and> (gs \<noteq> [] \<longrightarrow> (\<forall>u. same_run u (last gs) \<longrightarrow> \<not> same_run u g))"
proof (induction gs rule: apart.induct)
  case (1 v k g' gs)
  then show ?case by auto
qed (auto simp: apart_two)

definition flushed :: "bool \<Rightarrow> nat \<Rightarrow> group list" where
  "flushed v k = (if 1 < k then [Many v k] else if k = 1 then [Plain (fill_word v)] else [])"

lemma fill_tidy [simp]: "fill_word v AND COUNT_MASK = fill_word v"
  by (simp add: fill_word_def)

lemma flushed_facts: "list_all group_ok (flushed v k)" "expanded (flushed v k) = replicate k (fill_word v)"
  by (auto simp: flushed_def numeral_2_eq_2)

lemma flush_run_groups:
  assumes "list_all group_ok gs" and "length (expanded gs) + k \<le> cap"
  shows "flush_run cap v (VALUE_SIZE * k) (encoded gs) = Ret (encoded (gs @ flushed v k))"
proof -
  have "length (encoded (gs @ flushed v k)) \<le> length (expanded (gs @ flushed v k))"
    using assms(1) flushed_facts(1) by (intro length_encoded) simp
  then have "length (encoded gs) + length (encoded (flushed v k)) \<le> cap" using assms(2) by (simp add: flushed_facts(2))
  moreover have "k = 0 \<or> k = 1 \<or> 1 < k" by linarith
  ultimately show ?thesis by (elim disjE) (simp_all add: flush_run_def put_out_def flushed_def)
qed

definition open_run :: "group list \<Rightarrow> bool \<Rightarrow> nat \<Rightarrow> bool" where
  "open_run gs v k \<longleftrightarrow> list_all group_ok gs \<and> apart gs \<and> (gs \<noteq> [] \<longrightarrow> (\<forall>u. same_run u (last gs) \<longrightarrow> u \<noteq> v \<and> 0 < k))"

lemma open_flushed:
  assumes "open_run gs v k"
  shows "list_all group_ok (gs @ flushed v k)" "apart (gs @ flushed v k)"
    "gs @ flushed v k \<noteq> [] \<Longrightarrow> same_run u (last (gs @ flushed v k)) \<Longrightarrow> u = v \<and> 1 < k"
  using assms flushed_facts(1) by (auto simp: open_run_def flushed_def apart_snoc split: if_splits)

lemma compress_word_step:
  assumes t: "w AND COUNT_MASK = w" and o: "open_run gs v k" and cap: "length (expanded gs) + k < cap"
  shows "\<exists>gs' v' k'. compress_word cap w (v, VALUE_SIZE * k, encoded gs) = Ret (v', VALUE_SIZE * k', encoded gs') \<and>
    open_run gs' v' k' \<and> expanded gs' @ replicate k' (fill_word v') = expanded gs @ replicate k (fill_word v) @ [w]"
proof (cases "w = fill_word v")
  case True
  then have "compress_word cap w (v, VALUE_SIZE * k, encoded gs) = Ret (v, VALUE_SIZE * Suc k, encoded gs)"
    using count_fill [OF t] by (cases v) (simp_all add: compress_word_def Let_def)
  moreover have "open_run gs v (Suc k)" using o by (simp add: open_run_def)
  ultimately show ?thesis using True replicate_append_same [of k w] by (intro exI [of _ gs] exI [of _ v] exI [of _ "Suc k"]) simp
next
  case False
  let ?c = "count_bits (w AND COUNT_MASK)" and ?gs = "gs @ flushed v k"
  have nf: "\<not> (?c = 0 \<and> \<not> v \<or> ?c = VALUE_SIZE \<and> v)" using False count_fill [OF t] by (cases v) auto
  have fl: "flush_run cap v (VALUE_SIZE * k) (encoded gs) = Ret (encoded ?gs)"
    using o cap by (intro flush_run_groups) (simp_all add: open_run_def)
  have e: "expanded ?gs = expanded gs @ replicate k (fill_word v)" by (simp add: flushed_facts)
  show ?thesis
  proof (cases "?c = 0 \<or> ?c = VALUE_SIZE")
    case True
    define v' where "v' = (?c = VALUE_SIZE)"
    have w: "w = fill_word v'" using True count_fill [OF t] by (auto simp: v'_def)
    have "v' \<noteq> v" using w False by blast
    have "compress_word cap w (v, VALUE_SIZE * k, encoded gs) = Ret (v', VALUE_SIZE * 1, encoded ?gs)"
      unfolding compress_word_def Let_def prod.case if_not_P [OF nf] using fl True by (simp add: v'_def)
    moreover have "open_run ?gs v' 1" using open_flushed [OF o] \<open>v' \<noteq> v\<close> unfolding open_run_def by blast
    ultimately show ?thesis using w e by (intro exI [of _ ?gs] exI [of _ v'] exI [of _ 1]) simp
  next
    case lit: False
    have "length (encoded ?gs) \<le> length (expanded ?gs)" using open_flushed(1) [OF o] by (rule length_encoded)
    then have "length (encoded ?gs) + 1 \<le> cap" using cap unfolding e by simp
    then have "compress_word cap w (v, VALUE_SIZE * k, encoded gs) = Ret (v, VALUE_SIZE * 0, encoded (?gs @ [Plain w]))"
      unfolding compress_word_def Let_def prod.case if_not_P [OF nf] using fl lit by (simp add: put_out_def)
    moreover have "apart (?gs @ [Plain w])" using open_flushed(2) [OF o] unfolding apart_snoc [of ?gs] by simp
    then have "open_run (?gs @ [Plain w]) v 0" using open_flushed(1) [OF o] t unfolding open_run_def by simp
    moreover have "expanded (?gs @ [Plain w]) = expanded gs @ replicate k (fill_word v) @ [w]"
      using e by (simp only: map_append concat_append append_assoc) simp
    ultimately show ?thesis by (intro exI [of _ "?gs @ [Plain w]"] exI [of _ v] exI [of _ 0]) (simp del: map_append concat_append)
  qed
qed

lemma compress_fold:
  "\<forall>w \<in> set ws. w AND COUNT_MASK = w \<Longrightarrow> open_run gs v k \<Longrightarrow> length (expanded gs) + k + length ws \<le> cap \<Longrightarrow>
   \<exists>gs' v' k'. fold_outcome (compress_word cap) ws (v, VALUE_SIZE * k, encoded gs) = Ret (v', VALUE_SIZE * k', encoded gs') \<and>
     open_run gs' v' k' \<and> expanded gs' @ replicate k' (fill_word v') = expanded gs @ replicate k (fill_word v) @ ws"
proof (induction ws arbitrary: gs v k)
  case Nil
  then show ?case by auto
next
  case (Cons w ws)
  obtain gs1 v1 k1 where s: "compress_word cap w (v, VALUE_SIZE * k, encoded gs) = Ret (v1, VALUE_SIZE * k1, encoded gs1)"
    "open_run gs1 v1 k1" "expanded gs1 @ replicate k1 (fill_word v1) = expanded gs @ replicate k (fill_word v) @ [w]"
    using compress_word_step [of w gs v k cap] Cons.prems by auto
  have "length (expanded gs1) + k1 = length (expanded gs) + k + 1" using arg_cong [OF s(3), of length] by simp
  then obtain gs' v' k' where
    r: "fold_outcome (compress_word cap) ws (v1, VALUE_SIZE * k1, encoded gs1) = Ret (v', VALUE_SIZE * k', encoded gs')"
    "open_run gs' v' k'" "expanded gs' @ replicate k' (fill_word v') = expanded gs1 @ replicate k1 (fill_word v1) @ ws"
    using Cons.IH [OF _ s(2)] Cons.prems by auto
  have "expanded gs1 @ replicate k1 (fill_word v1) @ ws = expanded gs @ replicate k (fill_word v) @ w # ws"
    using arg_cong [OF s(3), of "\<lambda>xs. xs @ ws"] by simp
  with r s(1) show ?case by (intro exI [of _ gs'] exI [of _ v'] exI [of _ k']) simp
qed

lemma compress_groups:
  assumes "\<not> m_compress b" and "tidy b"
  shows "\<exists>gs. compress b = Ret \<lparr>m_compress = True, m_size = m_size b, m_null = False, m_data = encoded gs\<rparr> \<and>
    list_all group_ok gs \<and> apart gs \<and> expanded gs = m_data b"
proof -
  have "open_run [] False 0" by (simp add: open_run_def)
  then obtain gs v k where f: "fold_outcome (compress_word (length (m_data b))) (m_data b) (False, 0, []) = Ret (v, VALUE_SIZE * k, encoded gs)"
    "open_run gs v k" "expanded gs @ replicate k (fill_word v) = m_data b"
    using compress_fold [of "m_data b" "[]" False 0 "length (m_data b)"] assms(2) by (auto simp: tidy_def)
  have "length (expanded gs) + k \<le> length (m_data b)" using arg_cong [OF f(3), of length] by simp
  then have "flush_run (length (m_data b)) v (VALUE_SIZE * k) (encoded gs) = Ret (encoded (gs @ flushed v k))"
    using f(2) by (intro flush_run_groups) (simp_all add: open_run_def)
  moreover have "expanded (gs @ flushed v k) = m_data b" using f(3) by (simp add: flushed_facts)
  ultimately show ?thesis using assms(1) f(1) open_flushed [OF f(2)]
    by (intro exI [of _ "gs @ flushed v k"]) (simp add: compress_def)
qed

lemma order_of_groups: "bm_ok b \<Longrightarrow> m_size b + VALUE_SIZE \<le> 2 ^ 32 \<Longrightarrow> VALUE_SIZE * length (m_data b) < 2 ^ 32"
  using words_for_bound [of "m_size b"] by (simp add: bm_ok_def)

lemma compressed_form:
  assumes "bm_ok b" and "tidy b" and "m_size b + VALUE_SIZE \<le> 2 ^ 32"
  obtains gs where "compress b = Ret \<lparr>m_compress = True, m_size = m_size b, m_null = False, m_data = encoded gs\<rparr>"
    and "groups_ok gs" and "expanded gs = m_data b"
proof -
  from compress_groups [of b] assms obtain gs where
    "compress b = Ret \<lparr>m_compress = True, m_size = m_size b, m_null = False, m_data = encoded gs\<rparr>"
    "list_all group_ok gs" "apart gs" "expanded gs = m_data b" by (auto simp: bm_ok_def)
  then show ?thesis using order_of_groups [OF assms(1,3)] by (intro that [of gs]) (simp_all add: groups_ok_def)
qed

text \<open>Crossing.\<close>

lemma normal_fold:
  "length e = length d \<Longrightarrow> set is \<subseteq> {..<length d} \<Longrightarrow>
   fold_outcome (\<lambda>i hit. if hit then Ret True else bindO (word_at d i) (\<lambda>x. bindO (word_at e i) (\<lambda>y. Ret (x AND y \<noteq> 0)))) is r =
     Ret (r \<or> (\<exists>i \<in> set is. d ! i AND e ! i \<noteq> 0))"
  by (induction "is" arbitrary: r) (auto simp: word_at_def)

lemma normalCross_words:
  assumes "bm_ok a" and "length (m_data b) = length (m_data a)"
  shows "normalCross a b = Ret (\<exists>i<length (m_data a). m_data a ! i AND m_data b ! i \<noteq> 0)"
proof -
  have "set [0..<length (m_data a)] \<subseteq> {..<length (m_data a)}" by auto
  from normal_fold [OF assms(2) this, of False] show ?thesis
    unfolding normalCross_def word_order_all [OF assms(1)] by (simp add: Bex_def)
qed

lemma any_word_range: "set is \<subseteq> {..<length d} \<Longrightarrow> any_word True d is = Ret (\<exists>i \<in> set is. d ! i AND COUNT_MASK \<noteq> 0)"
  by (induction "is") (auto simp: word_at_def)

lemma get_range_words:
  assumes "VALUE_SIZE * length d < 2 ^ 32" and "0 < k" and "i + k \<le> length d"
  shows "get_range (of_nat (VALUE_SIZE * i)) (of_nat (VALUE_SIZE * k)) True d = Ret (\<exists>j<k. d ! (i + j) AND COUNT_MASK \<noteq> 0)"
proof -
  have b: "VALUE_SIZE * (i + k) < 2 ^ 32" using assms(1,3) by (meson le_less_trans mult_le_mono2)
  have u: "unat (of_nat (VALUE_SIZE * i) :: u32) = VALUE_SIZE * i" "unat (of_nat (VALUE_SIZE * k) :: u32) = VALUE_SIZE * k"
    "unat (of_nat (VALUE_SIZE * i) + of_nat (VALUE_SIZE * k) :: u32) = VALUE_SIZE * (i + k)"
    using b unat_pos [of "VALUE_SIZE * i"] unat_pos [of "VALUE_SIZE * k"] unat_pos [of "VALUE_SIZE * (i + k)"]
    by (simp_all only: of_nat_add [symmetric] add_mult_distrib2)
  have nz: "(of_nat (VALUE_SIZE * k) :: u32) \<noteq> 0" using u(2) assms(2) by (metis mult_eq_0_iff not_gr_zero unsigned_0 zero_neq_numeral)
  have "(\<exists>j \<in> set [i..<i + k]. d ! j AND COUNT_MASK \<noteq> 0) \<longleftrightarrow> (\<exists>j<k. d ! (i + j) AND COUNT_MASK \<noteq> 0)"
  proof
    assume "\<exists>j \<in> set [i..<i + k]. d ! j AND COUNT_MASK \<noteq> 0"
    then obtain j where "i \<le> j" "j < i + k" "d ! j AND COUNT_MASK \<noteq> 0" by auto
    then show "\<exists>j<k. d ! (i + j) AND COUNT_MASK \<noteq> 0" by (intro exI [of _ "j - i"]) simp
  next
    assume "\<exists>j<k. d ! (i + j) AND COUNT_MASK \<noteq> 0"
    then obtain j where "j < k" "d ! (i + j) AND COUNT_MASK \<noteq> 0" by blast
    then show "\<exists>j \<in> set [i..<i + k]. d ! j AND COUNT_MASK \<noteq> 0" by (intro bexI [of _ "i + j"]) auto
  qed
  moreover have "set [i..<i + k] \<subseteq> {..<length d}" using assms(3) by auto
  ultimately show ?thesis unfolding get_range_def Let_def u using nz any_word_range [of "[i..<i + k]" d] by simp
qed

abbreviation cross_run :: "u16 list \<Rightarrow> u32 \<Rightarrow> u32 \<Rightarrow> bool \<Rightarrow> bool \<Rightarrow> (bool \<times> bool) outcome" where
  "cross_run d \<equiv> \<lambda>p n v hit. bindO (if v then get_range p n True d else Ret False) (\<lambda>h. Ret (h, h))"

abbreviation cross_lit :: "u16 list \<Rightarrow> u32 \<Rightarrow> u16 \<Rightarrow> bool \<Rightarrow> (bool \<times> bool) outcome" where
  "cross_lit d \<equiv> \<lambda>p w hit. bindO (word_at d (unat p div VALUE_SIZE)) (\<lambda>x. let h = (x AND w \<noteq> 0) in Ret (h, h))"

lemma cross_steps:
  "groups_ok gs \<Longrightarrow> VALUE_SIZE * length d < 2 ^ 32 \<Longrightarrow> i + length (expanded gs) \<le> length d \<Longrightarrow>
   group_steps (cross_run d) (cross_lit d) gs (of_nat (VALUE_SIZE * i)) False =
     Ret (\<exists>j<length (expanded gs). d ! (i + j) AND expanded gs ! j \<noteq> 0)"
proof (induction gs arbitrary: i)
  case (Cons g gs)
  let ?n = "length (expand g)"
  have g: "group_ok g" using Cons.prems(1) by (simp add: groups_ok_def)
  have l: "i + ?n \<le> length d" "i + ?n + length (expanded gs) \<le> length d" using Cons.prems(3) by simp_all
  have first: "(case g of Plain w \<Rightarrow> cross_lit d (of_nat (VALUE_SIZE * i)) w False
      | Many v k \<Rightarrow> cross_run d (of_nat (VALUE_SIZE * i)) (of_nat (VALUE_SIZE * k)) v False) =
      Ret (\<exists>j<?n. d ! (i + j) AND expand g ! j \<noteq> 0, \<exists>j<?n. d ! (i + j) AND expand g ! j \<noteq> 0)"
  proof (cases g)
    case (Plain w)
    then have "VALUE_SIZE * i < 2 ^ 32" and "i < length d" using l(1) Cons.prems(2) by simp_all
    then show ?thesis using Plain unat_pos [OF \<open>VALUE_SIZE * i < 2 ^ 32\<close>] by (simp add: word_at_def Let_def del: of_nat_mult)
  next
    case (Many v k)
    then have "0 < k" "i + k \<le> length d" using g l(1) by simp_all
    from get_range_words [OF Cons.prems(2) this] show ?thesis using Many
      by (cases v) (auto simp: fill_word_def simp del: of_nat_mult)
  qed
  have rest: "group_steps (cross_run d) (cross_lit d) gs (of_nat (VALUE_SIZE * (i + ?n))) False =
      Ret (\<exists>j<length (expanded gs). d ! (i + ?n + j) AND expanded gs ! j \<noteq> 0)"
    by (rule Cons.IH [OF groups_ok_tl [OF Cons.prems(1)] Cons.prems(2) l(2)])
  have p: "of_nat (VALUE_SIZE * i) + of_nat (VALUE_SIZE * ?n) = (of_nat (VALUE_SIZE * (i + ?n)) :: u32)"
    by (simp only: of_nat_add [symmetric] add_mult_distrib2)
  have split: "(\<exists>j<length (expanded (g # gs)). d ! (i + j) AND expanded (g # gs) ! j \<noteq> 0) \<longleftrightarrow>
      (\<exists>j<?n. d ! (i + j) AND expand g ! j \<noteq> 0) \<or> (\<exists>j<length (expanded gs). d ! (i + ?n + j) AND expanded gs ! j \<noteq> 0)"
    (is "?A \<longleftrightarrow> ?B \<or> ?C")
  proof
    assume ?A
    then obtain j where j: "j < ?n + length (expanded gs)" "d ! (i + j) AND (expand g @ expanded gs) ! j \<noteq> 0" by auto
    then show "?B \<or> ?C" by (cases "j < ?n") (auto simp: nth_append not_less dest!: le_Suc_ex simp: ac_simps)
  next
    assume "?B \<or> ?C"
    then show ?A
    proof
      assume ?B
      then obtain j where "j < ?n" "d ! (i + j) AND expand g ! j \<noteq> 0" by blast
      then show ?A by (intro exI [of _ j]) (simp add: nth_append)
    next
      assume ?C
      then obtain j where "j < length (expanded gs)" "d ! (i + ?n + j) AND expanded gs ! j \<noteq> 0" by blast
      then show ?A by (intro exI [of _ "?n + j"]) (simp add: nth_append ac_simps)
    qed
  qed
  show ?case
  proof (cases "\<exists>j<?n. d ! (i + j) AND expand g ! j \<noteq> 0")
    case True
    then show ?thesis unfolding group_steps.simps first split by simp
  next
    case False
    then have f: "(\<exists>j<?n. d ! (i + j) AND expand g ! j \<noteq> 0) = False" by blast
    show ?thesis unfolding group_steps.simps first split p bindO.simps fst_conv snd_conv f if_False rest by simp
  qed
qed simp

section \<open>Properties\<close>

text \<open>
  C10. A plain bitmap none of whose words has one of the two high bits set (\<open>tidy\<close>; the constructor with the byte 0, \<^verbatim>\<open>set\<close>, \<^verbatim>\<open>&=\<close> and
  \<^verbatim>\<open>|=\<close> of such bitmaps make only such ones, the complement, the fill byte 0xFF and a growth with \<^verbatim>\<open>true\<close> do not), compressed and
  uncompressed again, has its words back, and the compressed form is no longer. The size is one whose words have positions
  of 32 bits.
\<close>

theorem compress_roundtrip:
  assumes "bm_ok b" and "tidy b" and "m_size b + VALUE_SIZE \<le> 2 ^ 32"
  shows "\<exists>c. compress b = Ret c \<and> m_compress c \<and> m_size c = m_size b \<and> length (m_data c) \<le> length (m_data b) \<and>
    uncompress c = Ret (b\<lparr>m_null := (m_size b = 0)\<rparr>)"
proof -
  obtain gs where c: "compress b = Ret \<lparr>m_compress = True, m_size = m_size b, m_null = False, m_data = encoded gs\<rparr>"
    and g: "groups_ok gs" "expanded gs = m_data b"
    using compressed_form [OF assms] by blast
  let ?c = "\<lparr>m_compress = True, m_size = m_size b, m_null = False, m_data = encoded gs\<rparr>"
  let ?t = "m_data (new_Bitmap (m_size b) 0)"
  have l: "length (m_data b) = length ?t" using assms(1) by (simp add: bm_ok_def new_Bitmap_def)
  have "over_runs (\<lambda>p n v d. go_on (set_range p n v d)) (\<lambda>p w d. go_on (put_at (\<lambda>x w. w) p w d)) (encoded gs) 0 ?t = Ret (map2 (\<lambda>x w. w) ?t (m_data b))"
    using plain_runs.over_encoded [OF g(1), of ?t] l g(2) by (simp add: list_all_length)
  also have "map2 (\<lambda>x w. w) ?t (m_data b) = m_data b" using l by (intro nth_equalityI) simp_all
  finally have ov: "over_runs (\<lambda>p n v d. go_on (set_range p n v d)) (\<lambda>p w d. go_on (put_at (\<lambda>x w. w) p w d)) (encoded gs) 0 ?t = Ret (m_data b)" .
  have z: "words_for (m_size b) = 0 \<longleftrightarrow> m_size b = 0" by (auto simp: words_for_def div_eq_0_iff)
  have "uncompress ?c = Ret ((new_Bitmap (m_size b) 0)\<lparr>m_data := m_data b\<rparr>)" using ov by (simp add: uncompress_def Let_def)
  also have "(new_Bitmap (m_size b) 0)\<lparr>m_data := m_data b\<rparr> = b\<lparr>m_null := (m_size b = 0)\<rparr>"
    using assms(1) z by (cases b) (simp add: new_Bitmap_def bm_ok_def)
  finally have "uncompress ?c = Ret (b\<lparr>m_null := (m_size b = 0)\<rparr>)" .
  moreover have "length (encoded gs) \<le> length (m_data b)"
    using length_encoded [of gs] g by (simp add: groups_ok_def)
  ultimately show ?thesis using c by (intro exI [of _ ?c]) simp
qed

theorem compress_roundtrip_witness:
  "\<exists>c. compress (new_Bitmap 2000 0) = Ret c \<and> uncompress c = Ret (new_Bitmap 2000 0)"
proof -
  have b: "bm_ok (new_Bitmap 2000 0)" "tidy (new_Bitmap 2000 0)" by (rule bm_ok_new) (simp add: tidy_def new_Bitmap_def)
  have "m_size (new_Bitmap 2000 0) + VALUE_SIZE \<le> 2 ^ 32" by (simp add: new_Bitmap_def)
  from compress_roundtrip [OF b this] show ?thesis by (auto simp: new_Bitmap_def words_for_def)
qed

text \<open>
  C11. For plain bitmaps of one size none of whose words has one of the two high bits set, intersection, union and the test for a
  common member give with a compressed bitmap what they give with the bitmap it was made of.
\<close>

theorem operations_with_compressed:
  assumes "bm_ok a" and "tidy a" and "bm_ok b" and "tidy b" and "m_size a = m_size b" and "m_size b + VALUE_SIZE \<le> 2 ^ 32"
  shows "\<exists>c. compress b = Ret c \<and> bitmap_and a c = bitmap_and a b \<and> bitmap_or a c = bitmap_or a b \<and> bitmap_cross a c = bitmap_cross a b"
proof -
  obtain gs where c: "compress b = Ret \<lparr>m_compress = True, m_size = m_size b, m_null = False, m_data = encoded gs\<rparr>"
    and g: "groups_ok gs" "expanded gs = m_data b"
    using compressed_form [OF assms(3,4,6)] by blast
  let ?c = "\<lparr>m_compress = True, m_size = m_size b, m_null = False, m_data = encoded gs\<rparr>"
  have l: "length (m_data b) = length (m_data a)" using assms(1,3,5) by (simp add: bm_ok_def)
  have t: "list_all (\<lambda>w. w AND COUNT_MASK = w) (m_data a)" using assms(2) by (simp add: tidy_def list_all_iff)
  have "bitmap_and a ?c = bitmap_and a b"
    using and_runs.over_encoded [OF g(1) t] g(2) l zip_data_pointwise [OF assms(1) l, of "(AND)"] assms(1,3,5)
    unfolding bitmap_and_def bm_ok_def by simp
  moreover have "bitmap_or a ?c = bitmap_or a b"
    using or_runs.over_encoded [OF g(1) t] g(2) l zip_data_pointwise [OF assms(1) l, of "(OR)"] assms(1,3,5)
    unfolding bitmap_or_def bm_ok_def by simp
  moreover have "bitmap_cross a ?c = bitmap_cross a b"
  proof -
    have small: "VALUE_SIZE * length (m_data a) < 2 ^ 32" using order_of_groups [OF assms(3,6)] l by simp
    have len: "length (expanded gs) = length (m_data a)" using g(2) l by simp
    have "over_runs (cross_run (m_data a)) (cross_lit (m_data a)) (encoded gs) 0 False =
        Ret (\<exists>j<length (m_data a). m_data a ! j AND m_data b ! j \<noteq> 0)"
      unfolding over_groups [OF g(1)] using cross_steps [OF g(1) small, of 0] len g(2) by simp
    then show ?thesis using assms(1,3) normalCross_words [OF assms(1) l]
      unfolding bitmap_cross_def compressCross_def bm_ok_def by simp
  qed
  ultimately show ?thesis using c by (intro exI [of _ ?c]) simp
qed

theorem operations_with_compressed_witness:
  "\<exists>c. compress full_word = Ret c \<and> bitmap_cross full_word c = Ret True"
proof -
  have t: "tidy full_word" by (simp add: full_word_def tidy_def COUNT_MASK_def)
  have "m_size full_word + VALUE_SIZE \<le> 2 ^ 32" by (simp add: full_word_def)
  from operations_with_compressed [OF full_word_facts(1) t full_word_facts(1) t refl this]
  obtain c where "compress full_word = Ret c" "bitmap_cross full_word c = bitmap_cross full_word full_word" by blast
  moreover have "bitmap_cross full_word full_word = Ret True" by code_simp
  ultimately show ?thesis by simp
qed

text \<open>Union and intersection of plain bitmaps are those of the members.\<close>

theorem set_operations_members:
  assumes "bm_ok a" and "bm_ok b" and "m_size a = m_size b"
  shows "\<exists>u i. bitmap_or_copy a b = Ret (Value u) \<and> bitmap_and_copy a b = Ret (Value i) \<and> bm_ok u \<and> bm_ok i \<and>
    set (elems u) = set (elems a) \<union> set (elems b) \<and> set (elems i) = set (elems a) \<inter> set (elems b)"
proof -
  have l: "length (m_data b) = length (m_data (copy_Bitmap a))" using assms by (simp add: bm_ok_def copy_Bitmap_def)
  have ok: "bm_ok (copy_Bitmap a)" using assms(1) by (simp add: bm_ok_def copy_Bitmap_def)
  let ?r = "\<lambda>f. (copy_Bitmap a)\<lparr>m_data := map2 f (m_data (copy_Bitmap a)) (m_data b)\<rparr>"
  have r: "bm_ok (?r f)" for f using ok l by (simp add: bm_ok_def)
  have at: "bit_at (m_data (?r f)) i = bit (f (m_data a ! (i div VALUE_SIZE)) (m_data b ! (i div VALUE_SIZE))) (i mod VALUE_SIZE)"
    if "i < m_size a" for f i
    using word_index [OF that assms(1)] l by (simp add: bit_at_def copy_Bitmap_def)
  have "set (elems (?r (OR))) = set (elems a) \<union> set (elems b)" "set (elems (?r (AND))) = set (elems a) \<inter> set (elems b)"
    using at assms(3) by (auto simp: elems_iff bit_or_iff bit_and_iff copy_Bitmap_def) (auto simp: bit_at_def)
  moreover have "bitmap_or_copy a b = Ret (Value (?r (OR)))" "bitmap_and_copy a b = Ret (Value (?r (AND)))"
    using zip_data_pointwise [OF ok l] assms
    by (simp_all add: bitmap_or_copy_def bitmap_or_def bitmap_and_copy_def bitmap_and_def bm_ok_def copy_Bitmap_def)
  ultimately show ?thesis using r by blast
qed

text \<open>Counting.\<close>

lemma count_word:
  assumes "w AND COUNT_MASK = w" and "d ! k = w"
  shows "length (members d (VALUE_SIZE * k) (VALUE_SIZE * Suc k)) = count_bits w"
proof -
  have "members d (VALUE_SIZE * k) (VALUE_SIZE * Suc k) = filter (bit_at d) (map (\<lambda>i. i + VALUE_SIZE * k) [0..<VALUE_SIZE])"
    unfolding members_def by (simp only: map_add_upt) (simp add: add.commute)
  note * = this
  have "length (members d (VALUE_SIZE * k) (VALUE_SIZE * Suc k)) = length (filter (bit w) [0..<VALUE_SIZE])"
  proof -
    have "bit_at d (i + VALUE_SIZE * k) = bit w i" if "i \<in> set [0..<VALUE_SIZE]" for i
    proof -
      have "(i + VALUE_SIZE * k) div VALUE_SIZE = k" "(i + VALUE_SIZE * k) mod VALUE_SIZE = i" using that by simp_all
      then show ?thesis using assms(2) by (simp only: bit_at_def)
    qed
    then have "filter (\<lambda>i. bit_at d (i + VALUE_SIZE * k)) [0..<VALUE_SIZE] = filter (bit w) [0..<VALUE_SIZE]" by (rule filter_cong [OF refl])
    with * show ?thesis by (simp only: filter_map o_def length_map)
  qed
  also have "length (filter (bit w) [0..<VALUE_SIZE]) = card (set (filter (bit w) [0..<VALUE_SIZE]))"
    by (rule distinct_card [symmetric]) simp
  also have "set (filter (bit w) [0..<VALUE_SIZE]) = {i. i < VALUE_SIZE \<and> bit w i}" by auto
  finally show ?thesis using count_bits_tidy [OF assms(1)] by simp
qed

lemma count_words:
  "\<forall>w \<in> set d. w AND COUNT_MASK = w \<Longrightarrow> k \<le> length d \<Longrightarrow>
   sum_list (map count_bits (take k d)) = length (members d 0 (VALUE_SIZE * k))"
proof (induction k)
  case (Suc k)
  then have "sum_list (map count_bits (take k d)) = length (members d 0 (VALUE_SIZE * k))" by simp
  moreover have "length (members d (VALUE_SIZE * k) (VALUE_SIZE * Suc k)) = count_bits (d ! k)"
    using Suc.prems by (intro count_word) auto
  moreover have "members d 0 (VALUE_SIZE * Suc k) = members d 0 (VALUE_SIZE * k) @ members d (VALUE_SIZE * k) (VALUE_SIZE * Suc k)"
    by (rule members_split) simp_all
  ultimately show ?case using Suc.prems by (simp add: take_Suc_conv_app_nth)
qed (simp add: members_def)

lemma visit_count: "visit (\<lambda>p n. (True, Suc n)) ps n = (True, n + length ps)"
  by (induction ps arbitrary: n) simp_all

lemma count_left_up:
  "words_up (\<lambda>p n. (True, n + 1)) sz True ws p n = (n', Some p') \<Longrightarrow>
   fold_outcome (count_left sz) ws (p, n) = Ret (p', n')"
  by (induction ws arbitrary: p n) (auto simp: count_left_def split: if_splits option.splits prod.splits)

text \<open>
  The number of members of a plain bitmap; when its words are whole groups of four, bits after the last position are counted
  too.
\<close>

theorem count_exact:
  assumes "bm_ok b" and "tidy b"
  shows "getCount b = Ret (length (members (m_data b) 0 (max (m_size b) (U64_VALUE_SIZE * (length (m_data b) div U64_DIV_BASE)))))"
proof -
  let ?d = "m_data b"
  define k where "k = length ?d div U64_DIV_BASE"
  have k4: "k * U64_DIV_BASE \<le> length ?d" and k56: "U64_VALUE_SIZE * k = VALUE_SIZE * (k * U64_DIV_BASE)"
    by (simp_all add: k_def div_times_less_eq_dividend)
  have front: "sum_list (map count_bits (take (k * U64_DIV_BASE) ?d)) = length (members ?d 0 (VALUE_SIZE * (k * U64_DIV_BASE)))"
    using assms(2) k4 by (intro count_words) (auto simp: tidy_def)
  have size_le: "m_size b \<le> VALUE_SIZE * length ?d" using words_for_enough [of "m_size b"] assms(1) by (simp add: bm_ok_def)
  have left: "\<exists>p. fold_outcome (count_left (m_size b)) (drop (k * U64_DIV_BASE) ?d) (VALUE_SIZE * (k * U64_DIV_BASE), n) =
      Ret (p, n + length (members ?d (VALUE_SIZE * (k * U64_DIV_BASE)) (m_size b)))" for n
  proof -
    let ?ws = "drop (k * U64_DIV_BASE) ?d"
    have l: "k * U64_DIV_BASE + length ?ws = length ?d" using k4 by simp
    have "\<forall>j<length ?ws. ?ws ! j = ?d ! (k * U64_DIV_BASE + j)" by simp
    moreover have "?ws \<noteq> [] \<longrightarrow> VALUE_SIZE * (k * U64_DIV_BASE + length ?ws) < m_size b + VALUE_SIZE"
      using words_for_bound [of "m_size b"] assms(1) unfolding l by (simp add: bm_ok_def)
    ultimately obtain q where "words_up (\<lambda>p n. (True, n + 1)) (m_size b) True ?ws (VALUE_SIZE * (k * U64_DIV_BASE)) n =
        went (visit (\<lambda>p n. (True, n + 1)) (members ?d (VALUE_SIZE * (k * U64_DIV_BASE)) (min (m_size b) (VALUE_SIZE * (k * U64_DIV_BASE + length ?ws)))) n) q"
      using words_up_visits [of ?ws ?d "k * U64_DIV_BASE" "m_size b" "\<lambda>p n. (True, n + 1)" True n] by blast
    then show ?thesis unfolding l using size_le by (auto simp: went_def visit_count min_def intro!: exI [of _ q] count_left_up)
  qed
  have "getCount b = Ret (length (members ?d 0 (VALUE_SIZE * (k * U64_DIV_BASE))) + length (members ?d (VALUE_SIZE * (k * U64_DIV_BASE)) (m_size b)))"
    using left [of "length (members ?d 0 (VALUE_SIZE * (k * U64_DIV_BASE)))"] assms(1) front
    unfolding getCount_def bm_ok_def Let_def k_def [symmetric] by (auto simp: mult.commute mult.left_commute)
  also have "length (members ?d 0 (VALUE_SIZE * (k * U64_DIV_BASE))) + length (members ?d (VALUE_SIZE * (k * U64_DIV_BASE)) (m_size b)) =
      length (members ?d 0 (max (m_size b) (VALUE_SIZE * (k * U64_DIV_BASE))))"
  proof (cases "m_size b \<le> VALUE_SIZE * (k * U64_DIV_BASE)")
    case False
    then show ?thesis using members_split [of 0 "VALUE_SIZE * (k * U64_DIV_BASE)" "m_size b" ?d] by simp
  qed (simp add: max_def)
  finally show ?thesis unfolding k_def [symmetric] k56 .
qed

theorem count_exact_witness:
  "getCount full_word = Ret 2"
proof -
  have "tidy full_word" by (simp add: full_word_def tidy_def COUNT_MASK_def)
  moreover have "members (m_data full_word) 0 14 = [0, 13]" by code_simp
  ultimately show ?thesis using count_exact [OF full_word_facts(1)] by (simp add: full_word_def)
qed

text \<open>The complement sets the two high bits of every word, and in whole groups of four they are counted.\<close>

lemma count_bits_NOT: "count_bits (NOT w) = 16 - count_bits w"
proof -
  have "filter (bit (NOT w)) [0..<16] = filter (\<lambda>i. \<not> bit w i) [0..<16]" by (rule filter_cong) (auto simp: bit_not_iff)
  then show ?thesis using sum_length_filter_compl [of "bit w" "[0..<16]"] by (simp add: count_bits_def)
qed

lemma count_bits_le: "count_bits w \<le> 16"
  unfolding count_bits_def using length_filter_le [of "bit w" "[0..<16]"] by simp

lemma sum_NOT: "sum_list (map count_bits (map NOT d)) + sum_list (map count_bits d) = 16 * length d"
proof (induction d)
  case (Cons w d)
  then show ?case using count_bits_le [of w] by (simp add: count_bits_NOT)
qed simp

theorem complement_overcounted:
  assumes "bm_ok b" and "tidy b" and "m_size b = U64_VALUE_SIZE * k"
  shows "\<exists>c. bitmap_not b = Ret c \<and> length (elems c) = m_size b - length (elems b) \<and>
    getCount c = Ret (m_size b - length (elems b) + 8 * k)"
proof -
  let ?d = "m_data b" and ?c = "b\<lparr>m_data := map NOT (m_data b)\<rparr>"
  have len: "length ?d = 4 * k" using assms(1,3) by (simp add: bm_ok_def words_for_def)
  have "sum_list (map count_bits (take (length ?d) ?d)) = length (members ?d 0 (VALUE_SIZE * length ?d))"
    using assms(2) by (intro count_words) (auto simp: tidy_def)
  then have s: "sum_list (map count_bits ?d) = length (elems b)" using len assms(3) by (simp add: elems_def)
  have n: "sum_list (map count_bits (map NOT ?d)) + length (elems b) = 64 * k" using sum_NOT [of ?d] s len by simp
  have e: "length (elems ?c) + length (elems b) = 56 * k"
  proof -
    have "bit_at (m_data ?c) i \<longleftrightarrow> \<not> bit_at ?d i" if "i \<in> set [0..<m_size b]" for i
    proof -
      have "i < m_size b" using that by simp
      from word_index [OF this assms(1)] show ?thesis
        using less_trans [OF mod_less_divisor, of VALUE_SIZE 16 i] by (simp add: bit_at_def bit_not_iff)
    qed
    then have "filter (bit_at (m_data ?c)) [0..<m_size b] = filter (\<lambda>i. \<not> bit_at ?d i) [0..<m_size b]" by (rule filter_cong [OF refl])
    then show ?thesis using sum_length_filter_compl [of "bit_at ?d" "[0..<m_size b]"] assms(3) by (simp add: elems_def members_def)
  qed
  have "getCount ?c = Ret (sum_list (map count_bits (map NOT ?d)))"
    using conjunct1 [OF assms(1) [unfolded bm_ok_def]] by (simp add: getCount_def Let_def len)
  moreover have "length (elems ?c) = m_size b - length (elems b)" using e assms(3) by linarith
  moreover have "sum_list (map count_bits (map NOT ?d)) = m_size b - length (elems b) + 8 * k" using n e assms(3) by linarith
  ultimately show ?thesis using not_pointwise [OF assms(1)] by (intro exI [of _ ?c]) simp
qed

theorem complement_overcounted_witness:
  "\<exists>c. bitmap_not (new_Bitmap 56 0) = Ret c \<and> length (elems c) = 56 \<and> getCount c = Ret 64"
proof -
  have t: "tidy (new_Bitmap 56 0)" by (simp add: tidy_def new_Bitmap_def)
  have "elems (new_Bitmap 56 0) = []" by (simp add: elems_def members_def bit_at_def new_Bitmap_def words_for_def filter_empty_conv)
  with complement_overcounted [OF bm_ok_new t, of 1] show ?thesis by (simp add: new_Bitmap_def)
qed

text \<open>
  The count of a compressed bitmap adds up the digits of a run's length, to the base \<^verbatim>\<open>2^14\<close>, as if each counted bits.
\<close>

function digit_sum :: "nat \<Rightarrow> nat" where
  "digit_sum n = (if n = 0 then 0 else n mod 2 ^ 14 + digit_sum (n div 2 ^ 14))"
  by pat_completeness auto
termination
  by (relation "measure id") auto

declare digit_sum.simps [simp del]

abbreviation run_count :: "u16 \<Rightarrow> nat" where
  "run_count \<equiv> \<lambda>w. if w AND COMPRESS_MASK \<noteq> 0 then (if w AND VALUE_MASK \<noteq> 0 then unat (w AND COUNT_MASK) else 0) else count_bits w"

lemma run_count_word: "run_count (run_word True n) = n mod 2 ^ 14"
proof -
  have "run_word True n AND COUNT_MASK = of_nat (take_bit VALUE_SIZE n)"
    by (rule bit_eqI) (auto simp: bit_and_iff bit_run_word bit_COUNT_MASK bit_of_nat_iff bit_take_bit_iff)
  moreover have "unat (of_nat (take_bit VALUE_SIZE n) :: u16) = n mod 2 ^ 14"
    by (simp add: unat_of_nat take_bit_eq_mod mod_mod_cancel)
  ultimately show ?thesis using run_word_marks [of True n] by simp
qed

lemma run_words_count: "sum_list (map run_count (run_words True n)) = digit_sum n"
proof (induction n rule: digit_sum.induct)
  case (1 n)
  have d: "drop_bit VALUE_SIZE n = n div 2 ^ 14" by (simp only: drop_bit_eq_div)
  show ?case
  proof (cases "n = 0")
    case False
    then have "sum_list (map run_count (run_words True n)) = run_count (run_word True n) + sum_list (map run_count (run_words True (n div 2 ^ 14)))"
      unfolding run_words_unfold [of True n] d by simp
    then show ?thesis unfolding run_count_word "1" [OF False] using False digit_sum.simps [of n] by simp
  qed (simp add: run_words_unfold [of True 0] digit_sum.simps)
qed

lemma compress_ones_fold:
  "fold_outcome (compress_word cap) (replicate k COUNT_MASK) (True, n, out) = Ret (True, n + VALUE_SIZE * k, out)"
proof (induction k arbitrary: n)
  case (Suc k)
  have "count_bits (COUNT_MASK AND COUNT_MASK) = VALUE_SIZE" using count_fill(2) [of COUNT_MASK] by (simp add: fill_word_def)
  then show ?case using Suc by (simp add: compress_word_def Let_def)
qed simp

theorem compressed_ones_miscounted:
  assumes "\<not> m_compress b" and "m_data b = replicate k COUNT_MASK" and "2 \<le> k"
  shows "\<exists>c. compress b = Ret c \<and> getCount c = Ret (digit_sum (VALUE_SIZE * k))"
proof -
  let ?c = "\<lparr>m_compress = True, m_size = m_size b, m_null = False, m_data = run_words True (VALUE_SIZE * k)\<rparr>"
  obtain j where j: "k = Suc j" using assms(3) by (cases k) auto
  have "count_bits (COUNT_MASK AND COUNT_MASK) = VALUE_SIZE" using count_fill(2) [of COUNT_MASK] by (simp add: fill_word_def)
  then have first: "compress_word k COUNT_MASK (False, 0, []) = Ret (True, VALUE_SIZE, [])"
    by (simp add: compress_word_def Let_def flush_run_def)
  have "fold_outcome (compress_word k) (replicate k COUNT_MASK) (False, 0, []) = Ret (True, VALUE_SIZE * k, [])"
    using compress_ones_fold [of k j VALUE_SIZE "[]"] first unfolding j by simp
  moreover have "flush_run k True (VALUE_SIZE * k) [] = Ret (run_words True (VALUE_SIZE * k))"
    using flush_run_groups [of "[]" k k True] assms(3) by (simp add: flushed_def)
  ultimately have "compress b = Ret ?c" using assms(1,2) by (simp add: compress_def)
  moreover have "getCount ?c = Ret (digit_sum (VALUE_SIZE * k))" using run_words_count by (simp add: getCount_def)
  ultimately show ?thesis by blast
qed

theorem compressed_ones_miscounted_witness:
  "\<exists>c. compress (new_Bitmap 16394 0\<lparr>m_data := replicate 1171 COUNT_MASK\<rparr>) = Ret c \<and> getCount c = Ret 11"
proof -
  have "digit_sum (VALUE_SIZE * 1171) = 11" by (simp add: digit_sum.simps)
  moreover have "\<not> m_compress (new_Bitmap 16394 0\<lparr>m_data := replicate 1171 COUNT_MASK\<rparr>)" by (simp add: new_Bitmap_def)
  ultimately show ?thesis
    using compressed_ones_miscounted [of "new_Bitmap 16394 0\<lparr>m_data := replicate 1171 COUNT_MASK\<rparr>" 1171] by simp
qed

text \<open>Bytes: the flag, the size, the number of words, and the words as they are in memory.\<close>

lemma words_bytes: "bytes_words host (concat (map (word_bytes host) d)) = d"
proof (induction d)
  case (Cons w d)
  have l: "length (word_bytes host w) = 2" by (simp add: word_bytes_def)
  then obtain x y where xy: "word_bytes host w = [x, y]" by (metis length_0_conv length_Suc_conv numeral_2_eq_2)
  have "of_memory host [x, y] = unat w mod 256 ^ 2" unfolding xy [symmetric] word_bytes_def by simp
  also have "\<dots> = unat w" using fixed_range(1) [of w] by (rule mod_less)
  finally show ?case using Cons xy by simp
qed simp

lemma length_words_bytes: "length (concat (map (word_bytes host) d)) = 2 * length d"
  by (induction d) (simp_all add: word_bytes_def)

abbreviation bitmap_bytes :: "bool \<Rightarrow> bool \<Rightarrow> Bitmap \<Rightarrow> byte list" where
  "bitmap_bytes l host b \<equiv>
     [if m_compress b then 1 else 0] @ in_order l (le_bytes 4 (unat (word_of_nat (m_size b) :: u32))) @
     in_order l (le_bytes 4 (unat (word_of_nat (length (m_data b)) :: u32))) @ concat (map (word_bytes host) (m_data b))"

lemma writes_bitmap: "writes l (bitmap_writeTo host b) (bitmap_bytes l host b)"
  unfolding bitmap_writeTo_def writeFuint8_def writeFuint32_def
  by (intro writes_bind writes_bytes writes_fixed)



lemma read_bitmap:
  assumes s: "array_ok s" "little s = l" "view s = (pre @ bitmap_bytes l host b @ post, length pre)"
    and n: "m_size b < 2 ^ 32" "length (m_data b) < 2 ^ 32"
    and t: "m_data b \<noteq> [] \<or> length pre + length (bitmap_bytes l host b) < capacity s"
  shows "\<exists>s'. bitmap_readFrom host raw c s = Ret ((True, b\<lparr>m_null := False\<rparr>), s') \<and> array_ok s' \<and>
    view s' = (pre @ bitmap_bytes l host b @ post, length pre + length (bitmap_bytes l host b))"
proof -
  let ?f = "if m_compress b then 1 else 0 :: byte" and ?n = "word_of_nat (m_size b) :: u32" and ?m = "word_of_nat (length (m_data b)) :: u32"
  let ?B = "concat (map (word_bytes host) (m_data b))"
  let ?N = "in_order l (le_bytes 4 (unat ?n))" and ?M = "in_order l (le_bytes 4 (unat ?m))"
  have l4: "length ?N = 4" "length ?M = 4" by (simp_all add: in_order_def)
  have u: "unat ?n = m_size b" "unat ?m = length (m_data b)" using n by (simp_all add: unat_pos)
  have "view s = (pre @ [?f] @ (?N @ ?M @ ?B @ post), length pre)" using s(3) by simp
  from readsD [OF reads_uint8 s(1,2) this] obtain s1 where
    s1: "readFuint8 s = Ret (Some ?f, s1)" "array_ok s1" "little s1 = l" "capacity s1 = capacity s"
      "view s1 = (pre @ [?f] @ (?N @ ?M @ ?B @ post), length pre + length [?f])" by auto
  then have "view s1 = ((pre @ [?f]) @ ?N @ (?M @ ?B @ post), length (pre @ [?f]))" by simp
  from readsD [OF reads_unsigned(2) [of l host ?n] s1(2,3) this] obtain s2 where
    s2: "readFuint32 host s1 = Ret (Some ?n, s2)" "array_ok s2" "little s2 = l" "capacity s2 = capacity s"
      "view s2 = ((pre @ [?f]) @ ?N @ (?M @ ?B @ post), length (pre @ [?f]) + length ?N)" using s1(4) by auto
  then have "view s2 = ((pre @ [?f] @ ?N) @ ?M @ (?B @ post), length (pre @ [?f] @ ?N))" by simp
  from readsD [OF reads_unsigned(2) [of l host ?m] s2(2,3) this] obtain s3 where
    s3: "readFuint32 host s2 = Ret (Some ?m, s3)" "array_ok s3" "little s3 = l" "capacity s3 = capacity s"
      "view s3 = ((pre @ [?f] @ ?N) @ ?M @ (?B @ post), length (pre @ [?f] @ ?N) + length ?M)" using s2(4) by auto
  then have v: "view s3 = ((pre @ [?f] @ ?N @ ?M) @ ?B @ post, length (pre @ [?f] @ ?N @ ?M))" by simp
  have lB: "length ?B = 2 * unat ?m" unfolding length_words_bytes u(2) ..
  have "0 < 2 * unat ?m \<or> length (pre @ [?f] @ ?N @ ?M) + length ?B < capacity s3"
    using t s3(4) u(2) by auto
  from readsD [OF reads_bytes [OF lB] s3(2,3) v this] obtain s4 where
    s4: "read_bytes (2 * unat ?m) s3 = Ret (Some ?B, s4)" "array_ok s4"
      "view s4 = ((pre @ [?f] @ ?N @ ?M) @ ?B @ post, length (pre @ [?f] @ ?N @ ?M) + length ?B)" by blast
  have "bitmap_readFrom host raw c s =
      Ret ((True, c\<lparr>m_compress := ?f \<noteq> 0, m_size := unat ?n, m_null := False, m_data := bytes_words host ?B\<rparr>), s4)"
    by (simp only: bitmap_readFrom_def tryB_def Let_def s1(1) s2(1) s3(1) s4(1) bindO.simps prod.case option.case)
  also have "c\<lparr>m_compress := ?f \<noteq> 0, m_size := unat ?n, m_null := False, m_data := bytes_words host ?B\<rparr> = b\<lparr>m_null := False\<rparr>"
    unfolding words_bytes u by (cases b) simp
  finally show ?thesis using s4(2,3) by (intro exI [of _ s4]) simp
qed

text \<open>
  A bitmap written to a byte array is read back, compressed or not, on a machine of the same byte order, into any bitmap; one
  without words only if that is not the end of the last block.
\<close>

theorem bitmap_bytes_roundtrip:
  assumes "array_ok s" and "m_size b < 2 ^ 32" and "length (m_data b) < 2 ^ 32"
  shows "\<exists>s1. bitmap_writeTo host b s = Ret (Some (), s1) \<and> array_ok s1 \<and>
    (m_data b \<noteq> [] \<or> position s1 < capacity s1 \<longrightarrow>
      (\<exists>s2 s3. setPosition (position s) s1 = Ret (Some (), s2) \<and>
         bitmap_readFrom host raw c s2 = Ret ((True, b\<lparr>m_null := False\<rparr>), s3) \<and> array_ok s3 \<and> view s3 = view s1))"
proof -
  let ?l = "little s"
  from written_back [OF writes_bitmap [of ?l host b] assms(1)] obtain s1 pre post s2 where
    s1: "bitmap_writeTo host b s = Ret (Some (), s1)" "array_ok s1"
      "view s1 = (pre @ bitmap_bytes ?l host b @ post, length pre + length (bitmap_bytes ?l host b))" and
    s2: "setPosition (position s) s1 = Ret (Some (), s2)" "array_ok s2" "little s2 = ?l"
      "view s2 = (pre @ bitmap_bytes ?l host b @ post, length pre)" "capacity s2 = capacity s1" by blast
  have "\<exists>s3. bitmap_readFrom host raw c s2 = Ret ((True, b\<lparr>m_null := False\<rparr>), s3) \<and> array_ok s3 \<and> view s3 = view s1"
    if "m_data b \<noteq> [] \<or> position s1 < capacity s1"
  proof -
    have "position s1 = length pre + length (bitmap_bytes ?l host b)" using s1(3) by (simp add: view_def)
    with that s2(5) have "m_data b \<noteq> [] \<or> length pre + length (bitmap_bytes ?l host b) < capacity s2" by simp
    from read_bitmap [OF s2(2,3,4) assms(2,3) this] show ?thesis unfolding s1(3) .
  qed
  with s1(1,2) s2(1) show ?thesis by blast
qed

theorem bitmap_bytes_roundtrip_witness:
  "\<exists>s1 s2 s3. bitmap_writeTo True full_word (new_array (\<lambda>k j. 0) 4) = Ret (Some (), s1) \<and>
     setPosition 0 s1 = Ret (Some (), s2) \<and> bitmap_readFrom True (\<lambda>n. []) empty_Bitmap s2 = Ret ((True, full_word), s3)"
proof -
  have ok: "array_ok (new_array (\<lambda>k j. 0) 4)" by (rule array_ok_new) simp
  have pos: "position (new_array (\<lambda>k j. 0) 4) = 0" by (simp add: new_array_def)
  have "m_size full_word < 2 ^ 32" "length (m_data full_word) < 2 ^ 32" by (simp_all add: full_word_def)
  moreover have "full_word\<lparr>m_null := False\<rparr> = full_word" by (simp add: full_word_def)
  ultimately show ?thesis using bitmap_bytes_roundtrip [OF ok, of full_word True "\<lambda>n. []" empty_Bitmap] full_word_facts(2)
    unfolding pos by fastforce
qed

end
