(* ===== verification/Spec2Isabelle.thy ===== *)
theory Spec2Isabelle
  imports Bag Role Mail Buff Skill Task Friend Guild Shop Activity Attributes Scene ByteStream Lru Timers Protocol Center HashUtil MySql Login Service LogServer Monitor Proxy BitmapRuns
begin

text \<open>
  A verification library for the game server and the network framework it is built on.

  \<^bold>\<open>The program.\<close> \<open>src/game_server\<close> is a set of server processes (login, account, logic, database,
  log, proxy, monitor and center servers). The logic server, \<open>src/game_server/logic_server\<close>, holds the
  rules of the game, one module for each part: bags, roles, mails, buffs, skills, tasks, friends, guilds,
  shops, activities, equipment and scenes. A module is a singleton whose public methods lock one mutex for
  their whole body and work on maps from a role (or a target) to its data; requests of clients reach
  the methods through the message handlers of \<^verbatim>\<open>logic_service.cc\<close>. The other processes talk to each other
  over connections, in messages with one header: a client logs in at the login server, which asks the account
  server, which asks the database server; all of them register with the center server and send it
  heartbeats. \<open>src/ancfl\<close> is the framework below: fibers and sockets, and what is modelled here, the
  byte array, the LRU cache, the timers, the bitmap, the hashes and the connections to MySQL.

  \<^bold>\<open>Runtime and contracts.\<close>
  \<^item> \<open>Runtime\<close>: the values and effects of C++ the code uses. A result is \<^verbatim>\<open>Ret\<close> or a \<^verbatim>\<open>Fault\<close>
    (undefined behaviour of signed overflow, an index out of range, a null pointer, an iterator that
    dangles, or \<^verbatim>\<open>Relock\<close>, the deadlock of a thread that locks the mutex it holds). \<^verbatim>\<open>int32_t\<close> is an integer
    with its range checked at every operation, \<^verbatim>\<open>uint64_t\<close> a word. A monitor is a state with the flag of
    its mutex; \<^verbatim>\<open>guarded\<close> is a method that takes the lock for its whole body. Maps are lists of pairs in
    the order of iteration.
  \<^item> \<open>Machine\<close>: the contracts several components share, as locales: \<^verbatim>\<open>id_source\<close> (the generated identifiers),
    \<^verbatim>\<open>machine\<close>, \<^verbatim>\<open>live_machine\<close>, \<^verbatim>\<open>total_machine\<close> and \<^verbatim>\<open>isolated_machine\<close> (a module run by any sequence of its commands
    keeps its invariant, never relocks its mutex, never fails, leaves what other roles own), and \<^verbatim>\<open>std_sort\<close>, the law
    of \<^verbatim>\<open>std::sort\<close>, interpreted in \<open>Center\<close>. Since the mutex is held for the whole body of a method, the sequences
    of commands are all the behaviours of any number of threads.
  \<^item> \<open>Bytes\<close>, \<open>Format\<close>: numbers as bytes in both orders (\<^verbatim>\<open>endian.h\<close>); \<^verbatim>\<open>snprintf\<close> and \<^verbatim>\<open>sscanf\<close> for the formats in use.

  \<^bold>\<open>The logic server.\<close> Each theory has the record of the module's state, the structures of its header as
  records and datatypes, one definition for every method with the name of the method, the invariant
  of the state, the commands of the module, and the interpretations of the contracts.
  \<^item> \<open>Bag\<close> (\<^verbatim>\<open>bag_module.cc\<close>): slots, stacking, moving, swapping, counting, using. Bags stay in order; adding and removing
    are exact; moving and swapping conserve the items.
  \<^item> \<open>Role\<close> (\<^verbatim>\<open>role_module.cc\<close>, \<^verbatim>\<open>role_data.h\<close>): roles, experience, positions. Experience is conserved by the
    loop of level ups, which ends.
  \<^item> \<open>Mail\<close> (\<^verbatim>\<open>mail_module.cc\<close>): boxes of at most 100 mails and the life of a mail. What is paid out was sent.
  \<^item> \<open>Buff\<close>, \<open>Skill\<close> (\<^verbatim>\<open>buff_module.cc\<close>, \<^verbatim>\<open>skill_module.cc\<close>): stacks and expiry; cooldowns between uses.
  \<^item> \<open>Task\<close> (\<^verbatim>\<open>task_module.cc\<close>): the states of a task, progress by kills, rewards paid at most once.
  \<^item> \<open>Friend\<close>, \<open>Guild\<close>, \<open>Shop\<close> (\<^verbatim>\<open>friend_module.cc\<close>, \<^verbatim>\<open>guild_module.cc\<close>, \<^verbatim>\<open>shop_module.cc\<close>): the invariants
    of their maps, and which operations can return at all: some lock the mutex they already hold.
  \<^item> \<open>Activity\<close> (\<^verbatim>\<open>activity_module.cc\<close>): activities, their tasks and rewards, and the ranking; the
    order \<^verbatim>\<open>std::sort\<close> gives to equal scores is a parameter with the law of sorting.
  \<^item> \<open>Equip\<close> (\<^verbatim>\<open>equip_module.cc\<close>): owned pieces and the copies that are worn, which stay equal.
    \<open>Attributes\<close> adds the attributes computed from them in \<^verbatim>\<open>float\<close>, over \<open>Float32\<close>, the binary32 arithmetic
    with its rounding to nearest even.
  \<^item> \<open>Scene\<close> (\<^verbatim>\<open>scene_module.cc\<close>): scenes, their objects and players, what a player sees, and the timer. The map
    stores objects by value, so the code's casts to a derived class are undefined: the model faults
    there, and movement after a cast is not reached.

  \<^bold>\<open>The other servers.\<close> Sockets, the generated code of the messages, the digests and the library of MySQL are parameters;
  what \<^verbatim>\<open>recv\<close> and \<^verbatim>\<open>send\<close> answer is an argument.
  \<^item> \<open>Protocol\<close>, \<open>Links\<close>: the header, the loop that cuts a stream into messages, which cuts it exactly; the tables of
    connections every server keeps.
  \<^item> \<open>Center\<close> (\<^verbatim>\<open>center_server.cc\<close>): the registry of servers, players on other servers, and matches, of which no
    player is lost in any interleaving.
  \<^item> \<open>MySql\<close>, \<open>Db\<close> (\<^verbatim>\<open>mysql.cc\<close>, \<^verbatim>\<open>db_service.cc\<close>): connections, statements and the pool; the handlers of the database
    server and its cache. \<^verbatim>\<open>DB_OP_UNKNOWN\<close> stands for every number that is no operation.
  \<^item> \<open>Account\<close>, \<open>Login\<close> (\<^verbatim>\<open>account_service.cc\<close>, \<^verbatim>\<open>login_service.cc\<close>): who can log in, the calls to the next server and whose
    answer is given to whom, the codes to enter a logic server with. The last section of \<open>Account\<close> puts the database server at
    the other end of an ideal connection.
  \<^item> \<open>Service\<close> (\<^verbatim>\<open>game_service_base.cc\<close>, \<^verbatim>\<open>message_dispatcher.cc\<close>, \<^verbatim>\<open>tcp_client.cc\<close>): the main loop and its timers, the table
    of handlers, the client that sends and receives whole messages.
  \<^item> \<open>LogServer\<close> (\<^verbatim>\<open>log_server.cc\<close>, \<^verbatim>\<open>log_client.cc\<close>): the queue of records and the thread that writes them, as a step
    relation. The two files are written against an older interface of their base classes.
  \<^item> \<open>Monitor\<close> (\<^verbatim>\<open>monitor_server.cc\<close>): reports, alerts, commands, the web pages.
  \<^item> \<open>Proxy\<close> (\<^verbatim>\<open>proxy_service.cc\<close>, \<^verbatim>\<open>logic_service.cc\<close>, \<^verbatim>\<open>monitor_service.cc\<close>): the proxy, which answers log ins itself, and
    what these processes say to the center server.

  \<^bold>\<open>The framework.\<close>
  \<^item> \<open>ByteArray\<close> (\<^verbatim>\<open>bytearray.cc\<close>): the linked blocks, their growth, positions, vectored I/O and files. It refines a
    flat sequence of bytes with a position; the bytes of a new block are unspecified.
  \<^item> \<open>ByteStream\<close> (\<^verbatim>\<open>bytearray.cc\<close>, \<^verbatim>\<open>endian.h\<close>): the typed reads and writes over it: fixed width in both byte orders,
    variable width, zigzag, strings. The locale \<^verbatim>\<open>codec\<close> proves once that a sequence of values is read back.
  \<^item> \<open>Lru\<close> (\<^verbatim>\<open>lru_cache.h\<close>, \<^verbatim>\<open>cache_status.h\<close>): the list of nodes and the map of iterators into it refine the list
    of pairs in the order of their last use.
  \<^item> \<open>Timers\<close> (\<^verbatim>\<open>timer.cc\<close>): the set of timers in the order of deadlines and addresses, by the contract \<^verbatim>\<open>weak_order\<close> of an ordered
    set. The addresses are an injective parameter. Which timers fire, how long the poller waits, and that no
    earlier timer is missed; the latter leaves out \<^verbatim>\<open>refresh\<close>, which never wakes the poller.
  \<^item> \<open>Bitmap\<close>, \<open>BitmapRuns\<close> (\<^verbatim>\<open>bitmap.cc\<close>, \<^verbatim>\<open>bitmap.h\<close>): the plain bitmap, which refines a set of positions, with its loops and
    iterators; the compressed form, whose operations are proved once in the locale \<^verbatim>\<open>word_actions\<close> for what is done with a
    word and with a run.
  \<^item> \<open>HashUtil\<close> (\<^verbatim>\<open>hash_util.cc\<close>): hashes, base64, hexadecimal strings, replacing and splitting.

  \<^bold>\<open>Bounds and fuel.\<close> The loops whose recursion is not structural have a termination proof by a measure: the level
  ups by the experience left, the loops over blocks by the bytes or nodes left, the variable width writer by the room
  in its array, pruning by the nodes left. \<^verbatim>\<open>replace_loop\<close> of \<open>HashUtil\<close> need not end by its form and is a partial function; that it
  ends is proved. A loop over the iterators of a bitmap is given one round more than the bitmap has positions, which is enough,
  since the iterators are proved to give all members. Iterators hold their position in an \<^verbatim>\<open>int32_t\<close>; beyond the largest one they
  visit nothing.

  \<^bold>\<open>Not modelled.\<close> Log lines. Readings of the clock and of \<^verbatim>\<open>rand\<close> are arguments. Floating point numbers are
  bit patterns where the code only copies them. The sizes of containers are below the range of their
  types. The framework's fibers, sockets, hooks and drivers are system calls; the http
  parsers, protobuf messages and \<^verbatim>\<open>roaring\<close> are generated or vendored. Reading the configuration and making sockets are not
  part of the servers' models; the timed caches and the dictionaries are not modelled.
\<close>

end
